(* ===== verification/Prelude.thy ===== *)
theory Prelude
  imports Complex_Main "HOL-Library.Monad_Syntax" "HOL-Library.Multiset"
begin

text \<open>
  Shared vocabulary of the development.

  Code that may leave the defined behaviour of C++ (a read or write outside a buffer, a
  null dereference, an escaped exception, an out-of-range conversion) returns an
  \<^typ>\<open>'a option\<close>: \<^const>\<open>None\<close> is that failure, \<^const>\<open>Some\<close> is a normal result.
  Buffers are lists, read and written by \<open>rd\<close> and \<open>wr\<close>, whose index must lie inside.
  A counting loop \<open>for (i = 0; i < n; i++)\<close> is \<open>loop n body\<close>; a loop with a
  \<open>break\<close> is \<open>loop_brk\<close>, whose body says whether to go on.

  The weakest-precondition predicate \<open>ok m Q\<close> says that \<open>m\<close> succeeds with a result in
  \<open>Q\<close>. The collection \<open>wp\<close> holds its rules, so that a proof that some code stays inside
  its buffers is the loop rule with an invariant and \<open>auto simp: wp\<close>.
\<close>

named_theorems wp "weakest preconditions of the failure monad"

section \<open>Success with a postcondition\<close>

definition ok :: "'a option \<Rightarrow> ('a \<Rightarrow> bool) \<Rightarrow> bool" where
  "ok m Q = (case m of None \<Rightarrow> False | Some x \<Rightarrow> Q x)"

lemma ok_Some [wp, simp]: "ok (Some x) Q = Q x"
  by (simp add: ok_def)

lemma ok_None [wp, simp]: "\<not> ok None Q"
  by (simp add: ok_def)

lemma ok_bind [wp]: "ok (m \<bind> f) Q = ok m (\<lambda>x. ok (f x) Q)"
  by (cases m) (auto simp: ok_def)

lemma ok_if [wp]: "ok (if b then m else m') Q = (if b then ok m Q else ok m' Q)"
  by simp

lemma ok_let [wp]: "ok (let x = e in f x) Q = (let x = e in ok (f x) Q)"
  by simp

lemma ok_map_option [wp]: "ok (map_option f m) Q = ok m (\<lambda>x. Q (f x))"
  by (cases m) (auto simp: ok_def)

lemma ok_case_prod [wp]: "ok (case p of (a, b) \<Rightarrow> f a b) Q = (case p of (a, b) \<Rightarrow> ok (f a b) Q)"
  by (cases p) simp

lemma ok_mono: "ok m P \<Longrightarrow> (\<And>x. P x \<Longrightarrow> Q x) \<Longrightarrow> ok m Q"
  by (cases m) (auto simp: ok_def)

lemma ok_conj: "ok m P \<Longrightarrow> ok m Q \<Longrightarrow> ok m (\<lambda>x. P x \<and> Q x)"
  by (cases m) (auto simp: ok_def)

lemma okE: "ok m Q \<Longrightarrow> (\<And>x. m = Some x \<Longrightarrow> Q x \<Longrightarrow> thesis) \<Longrightarrow> thesis"
  by (cases m) (auto simp: ok_def)

lemma okI: "m = Some x \<Longrightarrow> Q x \<Longrightarrow> ok m Q"
  by (simp add: ok_def)

lemma ok_eq_Some: "ok m (\<lambda>x. x = y) \<longleftrightarrow> m = Some y"
  by (cases m) (auto simp: ok_def)

lemma ok_iff_ex: "ok m Q \<longleftrightarrow> (\<exists>x. m = Some x \<and> Q x)"
  by (cases m) (auto simp: ok_def)

lemma ok_SomeD: "ok m Q \<Longrightarrow> m = Some x \<Longrightarrow> Q x"
  by (simp add: ok_def)

section \<open>Buffers\<close>

definition rd :: "'a list \<Rightarrow> nat \<Rightarrow> 'a option" where
  "rd xs i = (if i < length xs then Some (xs ! i) else None)"

definition wr :: "'a list \<Rightarrow> nat \<Rightarrow> 'a \<Rightarrow> 'a list option" where
  "wr xs i v = (if i < length xs then Some (xs[i := v]) else None)"

text \<open>The same with a signed index: a negative one lies outside.\<close>

definition rdz :: "'a list \<Rightarrow> int \<Rightarrow> 'a option" where
  "rdz xs i = (if 0 \<le> i then rd xs (nat i) else None)"

definition wrz :: "'a list \<Rightarrow> int \<Rightarrow> 'a \<Rightarrow> 'a list option" where
  "wrz xs i v = (if 0 \<le> i then wr xs (nat i) v else None)"

lemma ok_rd [wp]: "ok (rd xs i) Q \<longleftrightarrow> i < length xs \<and> Q (xs ! i)"
  by (simp add: rd_def ok_def)

lemma ok_wr [wp]: "ok (wr xs i v) Q \<longleftrightarrow> i < length xs \<and> Q (xs[i := v])"
  by (simp add: wr_def ok_def)

lemma ok_rdz [wp]: "ok (rdz xs i) Q \<longleftrightarrow> 0 \<le> i \<and> i < int (length xs) \<and> Q (xs ! nat i)"
  by (auto simp: rdz_def rd_def ok_def split: option.splits if_splits)

lemma ok_wrz [wp]: "ok (wrz xs i v) Q \<longleftrightarrow> 0 \<le> i \<and> i < int (length xs) \<and> Q (xs[nat i := v])"
  by (auto simp: wrz_def wr_def ok_def split: option.splits if_splits)

lemma rd_Some: "i < length xs \<Longrightarrow> rd xs i = Some (xs ! i)"
  by (simp add: rd_def)

lemma wr_Some: "i < length xs \<Longrightarrow> wr xs i v = Some (xs[i := v])"
  by (simp add: wr_def)

lemma rd_None: "length xs \<le> i \<Longrightarrow> rd xs i = None"
  by (simp add: rd_def)

lemma wr_None: "length xs \<le> i \<Longrightarrow> wr xs i v = None"
  by (simp add: wr_def)

section \<open>Counting loops\<close>

primrec loop :: "nat \<Rightarrow> (nat \<Rightarrow> 's \<Rightarrow> 's option) \<Rightarrow> 's \<Rightarrow> 's option" where
  "loop 0 f s = Some s"
| "loop (Suc n) f s = loop n f s \<bind> f n"

lemma loop_ok:
  assumes "I 0 s" and "\<And>i s. i < n \<Longrightarrow> I i s \<Longrightarrow> ok (f i s) (I (Suc i))"
  shows "ok (loop n f s) (I n)"
  using assms(2)
proof (induction n)
  case 0
  then show ?case using assms(1) by simp
next
  case (Suc n)
  then have "ok (loop n f s) (I n)" by simp
  then show ?case
    by (auto simp: wp elim!: okE intro: Suc.prems)
qed

text \<open>The loop rule in the form used on goals: the invariant implies the postcondition.\<close>

lemma loop_wp:
  assumes "I 0 s" and "\<And>i s. i < n \<Longrightarrow> I i s \<Longrightarrow> ok (f i s) (I (Suc i))"
    and "\<And>s. I n s \<Longrightarrow> Q s"
  shows "ok (loop n f s) Q"
  using loop_ok [of I s n f] assms by (blast intro: ok_mono)

text \<open>An invariant that does not mention the counter.\<close>

lemma loop_inv:
  assumes "I s" and "\<And>i s. i < n \<Longrightarrow> I s \<Longrightarrow> ok (f i s) I"
  shows "ok (loop n f s) I"
  using assms by (intro loop_ok [where I = "\<lambda>_. I"]) auto

text \<open>What every iteration keeps, if it returns at all.\<close>

lemma loop_keeps:
  assumes "loop n f s = Some t" and "I s" and "\<And>i s s'. I s \<Longrightarrow> f i s = Some s' \<Longrightarrow> I s'"
  shows "I t"
  using assms(1)
proof (induction n arbitrary: t)
  case 0
  then show ?case using assms(2) by simp
next
  case (Suc n)
  then obtain u where "loop n f s = Some u" "f n u = Some t"
    by (auto simp: bind_eq_Some_conv)
  then show ?case using Suc.IH assms(3) by blast
qed

lemma wr_length: "wr xs i v = Some ys \<Longrightarrow> length ys = length xs"
  by (auto simp: wr_def split: if_splits)

text \<open>Two bodies that agree on the states that can arise give the same loop.\<close>

lemma loop_cong:
  assumes "I s" and step: "\<And>i s. i < n \<Longrightarrow> I s \<Longrightarrow> f i s = g i s \<and> (\<forall>t. g i s = Some t \<longrightarrow> I t)"
  shows "loop n f s = loop n g s \<and> (\<forall>t. loop n g s = Some t \<longrightarrow> I t)"
  using step
proof (induction n)
  case 0
  then show ?case using assms(1) by simp
next
  case (Suc n)
  have IH: "loop n f s = loop n g s \<and> (\<forall>t. loop n g s = Some t \<longrightarrow> I t)"
    by (rule Suc.IH) (rule Suc.prems, simp_all)
  show ?case
  proof (cases "loop n g s")
    case None
    then show ?thesis using IH by simp
  next
    case (Some t)
    then have "I t" using IH by simp
    then have "f n t = g n t" "\<forall>u. g n t = Some u \<longrightarrow> I u" using Suc.prems by blast+
    then show ?thesis using IH Some by simp
  qed
qed

text \<open>
  A loop over \<open>i = 0, 1, \<dots>, n - 1\<close> whose body may \<open>break\<close>: the body returns the new
  state and whether the loop goes on.
\<close>

fun loop_brk :: "nat \<Rightarrow> nat \<Rightarrow> (nat \<Rightarrow> 's \<Rightarrow> ('s \<times> bool) option) \<Rightarrow> 's \<Rightarrow> 's option" where
  "loop_brk i 0 f s = Some s"
| "loop_brk i (Suc k) f s =
     do { (s', go) \<leftarrow> f i s; if go then loop_brk (Suc i) k f s' else Some s' }"

lemma loop_brk_wp:
  assumes "I i s"
    and "\<And>j s. i \<le> j \<Longrightarrow> j < i + k \<Longrightarrow> I j s \<Longrightarrow>
           ok (f j s) (\<lambda>(s', go). if go then I (Suc j) s' else Q s')"
    and "\<And>s. I (i + k) s \<Longrightarrow> Q s"
  shows "ok (loop_brk i k f s) Q"
  using assms
proof (induction k arbitrary: i s)
  case 0
  then show ?case by simp
next
  case (Suc k)
  have "ok (f i s) (\<lambda>(s', go). if go then I (Suc i) s' else Q s')"
    using Suc.prems by simp
  then obtain s' go where r: "f i s = Some (s', go)" "if go then I (Suc i) s' else Q s'"
    by (auto elim!: okE)
  have "ok (loop_brk (Suc i) k f s') Q" if "I (Suc i) s'"
    using that Suc.prems by (intro Suc.IH) auto
  with r show ?case by (auto split: if_splits)
qed

lemma loop_brk_cong:
  assumes "I s" and "\<And>j s. i \<le> j \<Longrightarrow> j < i + k \<Longrightarrow> I s \<Longrightarrow>
      f j s = g j s \<and> (\<forall>t go. g j s = Some (t, go) \<longrightarrow> I t)"
  shows "loop_brk i k f s = loop_brk i k g s"
  using assms
proof (induction k arbitrary: i s)
  case 0
  then show ?case by simp
next
  case (Suc k)
  have eq: "f i s = g i s" and I: "\<And>t go. g i s = Some (t, go) \<Longrightarrow> I t"
    using Suc.prems(2) [of i s] Suc.prems(1) by auto
  have "loop_brk (Suc i) k f t = loop_brk (Suc i) k g t" if "g i s = Some (t, go)" for t go
    using I [OF that] by (rule Suc.IH) (rule Suc.prems(2), simp_all)
  then show ?case by (cases "g i s") (auto simp: eq)
qed

section \<open>Lists and indices\<close>

lemma length_filter_upt_le: "length (filter P [0..<n]) \<le> n"
  by (metis length_filter_le length_upt minus_nat.diff_0)

lemma nth_filter_upt_ge: "k < length (filter P [0..<n]) \<Longrightarrow> k \<le> filter P [0..<n] ! k"
proof (induction n arbitrary: k)
  case 0
  then show ?case by simp
next
  case (Suc n)
  show ?case
  proof (cases "k < length (filter P [0..<n])")
    case True
    then show ?thesis using Suc.IH by (simp add: nth_append)
  next
    case False
    with Suc.prems have "k = length (filter P [0..<n])" "P n" by (auto split: if_splits)
    then show ?thesis using length_filter_upt_le [of P n] by (simp add: nth_append)
  qed
qed

text \<open>Row-major indices stay inside the array.\<close>

lemma index2_less: "(i::nat) < m \<Longrightarrow> j < n \<Longrightarrow> i * n + j < m * n"
proof -
  assume "i < m" "j < n"
  then have "i * n + j < Suc i * n" by simp
  also have "\<dots> \<le> m * n" using \<open>i < m\<close> by (intro mult_le_mono1) simp
  finally show ?thesis .
qed

lemma slot_end_nat: "(j::nat) < n \<Longrightarrow> j * k + k \<le> n * k"
  using mult_le_mono1 [of "Suc j" n k] by simp

lemma index3_less: "(i::nat) < l \<Longrightarrow> j < m \<Longrightarrow> k < n \<Longrightarrow> (i * m + j) * n + k < l * m * n"
  using index2_less [of "i * m + j" "l * m" k n] index2_less [of i l j m] by simp

lemma index4_less:
  "(b::nat) < nb \<Longrightarrow> c < nc \<Longrightarrow> h < nh \<Longrightarrow> w < nw \<Longrightarrow>
   b * nc * nh * nw + c * nh * nw + h * nw + w < nb * nc * nh * nw"
  using index2_less [of "(b * nc + c) * nh + h" "nb * nc * nh" w nw]
    index3_less [of b nb c nc h nh]
  by (simp add: algebra_simps)

lemma index2_inj:
  assumes "(j::nat) < n" and "j' < n"
  shows "i * n + j = i' * n + j' \<longleftrightarrow> i = i' \<and> j = j'"
proof
  assume *: "i * n + j = i' * n + j'"
  have "i = (i * n + j) div n" using assms by simp
  also have "\<dots> = (i' * n + j') div n" using * by (rule arg_cong)
  also have "\<dots> = i'" using assms by simp
  finally show "i = i' \<and> j = j'" using * by simp
qed simp

lemma list_update_ge: "length xs \<le> i \<Longrightarrow> xs[i := v] = xs"
  by (simp add: list_update_beyond)

lemma take_list_update_ge: "n \<le> i \<Longrightarrow> take n (xs[i := v]) = take n xs"
  by (simp add: take_update_cancel)

lemma take_Suc_list_update: "i < length xs \<Longrightarrow> take (Suc i) (xs[i := v]) = take i xs @ [v]"
  by (simp add: take_Suc_conv_app_nth)

section \<open>Overwriting a segment\<close>

text \<open>\<open>put xs p ys\<close> is \<open>xs\<close> with \<open>ys\<close> written from position \<open>p\<close> on; \<open>blit\<close> checks the range.\<close>

definition put :: "'a list \<Rightarrow> nat \<Rightarrow> 'a list \<Rightarrow> 'a list" where
  "put xs p ys = take p xs @ ys @ drop (p + length ys) xs"

definition blit :: "'a list \<Rightarrow> nat \<Rightarrow> 'a list \<Rightarrow> 'a list option" where
  "blit xs p ys = (if p + length ys \<le> length xs then Some (put xs p ys) else None)"

text \<open>\<open>memset\<close> of \<open>n\<close> elements; a negative size is converted to a huge one.\<close>

definition fill :: "'a list \<Rightarrow> nat \<Rightarrow> int \<Rightarrow> 'a \<Rightarrow> 'a list option" where
  "fill xs p n v = (if n < 0 then None else blit xs p (replicate (nat n) v))"

lemma length_put [simp]: "p + length ys \<le> length xs \<Longrightarrow> length (put xs p ys) = length xs"
  by (simp add: put_def)

lemma put_Nil [simp]: "put xs p [] = xs"
  by (simp add: put_def)

lemma nth_put: "p \<le> length xs \<Longrightarrow> k < length ys \<Longrightarrow> put xs p ys ! (p + k) = ys ! k"
  by (simp add: put_def nth_append)

lemma nth_put_other:
  "p + length ys \<le> length xs \<Longrightarrow> i < p \<or> p + length ys \<le> i \<Longrightarrow> put xs p ys ! i = xs ! i"
  by (auto simp: put_def nth_append)

lemma take_drop_put: "p \<le> length xs \<Longrightarrow> take (length ys) (drop p (put xs p ys)) = ys"
  by (simp add: put_def)

lemma put_update:
  "p + length ys < length xs \<Longrightarrow> (put xs p ys)[p + length ys := v] = put xs p (ys @ [v])"
  by (simp add: put_def list_update_append Cons_nth_drop_Suc [symmetric])

lemma wr_put:
  "p + length ys < length xs \<Longrightarrow> wr (put xs p ys) (p + length ys) v = Some (put xs p (ys @ [v]))"
  by (simp add: wr_def put_update)

lemma rd_put:
  "p + length ys \<le> length xs \<Longrightarrow> k < length ys \<Longrightarrow> rd (put xs p ys) (p + k) = Some (ys ! k)"
  by (simp add: rd_def nth_put)

lemma ok_blit [wp]: "ok (blit xs p ys) Q \<longleftrightarrow> p + length ys \<le> length xs \<and> Q (put xs p ys)"
  by (simp add: blit_def)

lemma ok_fill [wp]:
  "ok (fill xs p n v) Q \<longleftrightarrow> 0 \<le> n \<and> p + nat n \<le> length xs \<and> Q (put xs p (replicate (nat n) v))"
  by (auto simp: fill_def wp)

lemma put_app:
  "p + length ys + length zs \<le> length xs \<Longrightarrow> put (put xs p ys) (p + length ys) zs = put xs p (ys @ zs)"
  by (simp add: put_def add.assoc add.commute [of "length zs"] add.left_commute)

lemma put_single: "i < length xs \<Longrightarrow> put xs i [v] = xs[i := v]"
  by (simp add: put_def upd_conv_take_nth_drop)

lemma put_all: "length ys = length xs \<Longrightarrow> put xs 0 ys = ys"
  by (simp add: put_def)

lemma length_concat_same:
  "(\<And>j. j < m \<Longrightarrow> length (g j) = n) \<Longrightarrow> length (concat (map g [0..<m])) = m * n"
  by (induction m) auto

text \<open>A loop whose iterations write consecutive segments of one size.\<close>

lemma loop_put:
  assumes step: "\<And>j xs. j < m \<Longrightarrow> length xs = L \<Longrightarrow> f j xs = Some (put xs (p + j * n) (g j))"
    and g: "\<And>j. j < m \<Longrightarrow> length (g j) = n" and room: "p + m * n \<le> L" and xs: "length xs = L"
  shows "loop m f xs = Some (put xs p (concat (map g [0..<m])))"
  using step g room
proof (induction m)
  case 0
  then show ?case by simp
next
  case (Suc m)
  have len: "length (concat (map g [0..<m])) = m * n"
    by (rule length_concat_same) (use Suc.prems(2) in simp)
  have IH: "loop m f xs = Some (put xs p (concat (map g [0..<m])))"
    by (rule Suc.IH) (use Suc.prems in auto)
  have fits: "p + length (concat (map g [0..<m])) + length (g m) \<le> length xs"
    using Suc.prems(2) [of m] Suc.prems(3) xs by (simp add: len)
  then have "f m (put xs p (concat (map g [0..<m]))) =
      Some (put (put xs p (concat (map g [0..<m]))) (p + m * n) (g m))"
    using xs by (intro Suc.prems(1)) simp_all
  then show ?case using IH put_app [OF fits] by (simp add: len)
qed

lemma loop_wr:
  assumes "\<And>j xs. j < m \<Longrightarrow> length xs = L \<Longrightarrow> f j xs = Some (xs[p + j := g j])"
    and "p + m \<le> L" and "length xs = L"
  shows "loop m f xs = Some (put xs p (map g [0..<m]))"
proof -
  have "loop m f xs = Some (put xs p (concat (map (\<lambda>j. [g j]) [0..<m])))"
    by (rule loop_put [where n = 1 and L = L]) (use assms in \<open>simp_all add: put_single\<close>)
  then show ?thesis by (simp add: concat_map_singleton)
qed

lemma put_five:
  assumes "p + 5 \<le> length xs"
  shows "xs[p := v0, p + 1 := v1, p + 2 := v2, p + 3 := v3, p + 4 := v4] = put xs p [v0, v1, v2, v3, v4]"
  using assms put_update [of p "[]" xs v0] put_update [of p "[v0]" xs v1] put_update [of p "[v0, v1]" xs v2]
    put_update [of p "[v0, v1, v2]" xs v3] put_update [of p "[v0, v1, v2, v3]" xs v4]
  by (simp add: numeral_eq_Suc)

text \<open>A segment outside the one overwritten stays.\<close>

lemma segment_put_other:
  assumes "q + length ys \<le> length xs" and "p + n \<le> q \<or> q + length ys \<le> p"
  shows "take n (drop p (put xs q ys)) = take n (drop p xs)"
proof (rule nth_equalityI)
  fix i assume "i < length (take n (drop p (put xs q ys)))"
  then show "take n (drop p (put xs q ys)) ! i = take n (drop p xs) ! i"
    using assms nth_put_other [OF assms(1), of "p + i"] by auto
qed (use assms in simp)

lemma row_apart: "(i::nat) < j \<Longrightarrow> i * n + n \<le> j * n"
  using mult_le_mono1 [of "Suc i" j n] by simp

text \<open>
  Nested counting loops that write one element per iteration, in row-major order, fill the
  segment with the values of the body.
\<close>

lemma concat_map_upt:
  "concat (map (\<lambda>i. map (h i) [0..<n]) [0..<m]) = map (\<lambda>k. h (k div n) (k mod n)) [0..<m * n]"
proof (induction m)
  case (Suc m)
  have "map (\<lambda>k. h (k div n) (k mod n)) [m * n..<m * n + n] = map (h m) [0..<n]"
    by (rule nth_equalityI) simp_all
  then show ?case using Suc upt_add_eq_append [of 0 "m * n" n] by (simp add: add.commute)
qed simp

lemma loop_flat:
  assumes "\<And>i xs. i < m \<Longrightarrow> length xs = L \<Longrightarrow> F i xs = Some (put xs (p + i * n) (map (h i) [0..<n]))"
    and "p + m * n \<le> L" and "length xs = L"
  shows "loop m F xs = Some (put xs p (map (\<lambda>k. h (k div n) (k mod n)) [0..<m * n]))"
  using loop_put [of m L F p n "\<lambda>i. map (h i) [0..<n]" xs] assms by (simp add: concat_map_upt)

lemma mod_times_div: "(k::nat) mod (n * q) div n = k div n mod q"
  by (cases "n = 0") (simp_all add: mod_mult2_eq)

lemma loop3_put:
  assumes row: "\<And>b c h xs. b < B \<Longrightarrow> c < C \<Longrightarrow> h < H \<Longrightarrow> length xs = L \<Longrightarrow>
      F b c h xs = Some (put xs (p + ((b * C + c) * H + h) * W) (map (g b c h) [0..<W]))"
    and room: "p + B * C * H * W \<le> L" and xs: "length xs = L"
  shows "loop B (\<lambda>b. loop C (\<lambda>c. loop H (F b c))) xs =
    Some (put xs p (map (\<lambda>k. g (k div (C * H * W)) (k div (H * W) mod C) (k div W mod H) (k mod W))
      [0..<B * C * H * W]))"
proof -
  have plane: "loop H (F b c) xs =
      Some (put xs (p + (b * C + c) * (H * W)) (map (\<lambda>k. g b c (k div W) (k mod W)) [0..<H * W]))"
    if "b < B" "c < C" "length xs = L" for b c xs
  proof (rule loop_flat)
    have "b * C + c < B * C" using that by (intro index2_less)
    then show "p + (b * C + c) * (H * W) + H * W \<le> L"
      using slot_end_nat [of "b * C + c" "B * C" "H * W"] room by (simp add: algebra_simps)
  qed (use that row in \<open>simp_all add: algebra_simps\<close>)
  have vol: "loop C (\<lambda>c. loop H (F b c)) xs = Some (put xs (p + b * (C * (H * W)))
      (map (\<lambda>k. g b (k div (H * W)) (k mod (H * W) div W) (k mod (H * W) mod W)) [0..<C * (H * W)]))"
    if "b < B" "length xs = L" for b xs
  proof (rule loop_flat)
    show "p + b * (C * (H * W)) + C * (H * W) \<le> L"
      using slot_end_nat [of b B "C * (H * W)"] that room by (simp add: algebra_simps)
  qed (use that plane in \<open>simp_all add: algebra_simps\<close>)
  have "loop B (\<lambda>b. loop C (\<lambda>c. loop H (F b c))) xs = Some (put xs p
      (map (\<lambda>k. g (k div (C * (H * W))) (k mod (C * (H * W)) div (H * W))
        (k mod (C * (H * W)) mod (H * W) div W) (k mod (C * (H * W)) mod (H * W) mod W)) [0..<B * (C * (H * W))]))"
    by (rule loop_flat) (use vol room xs in \<open>simp_all add: algebra_simps\<close>)
  moreover have "k mod (C * (H * W)) div (H * W) = k div (H * W) mod C"
    and "k mod (C * (H * W)) mod (H * W) div W = k div W mod H"
    and "k mod (C * (H * W)) mod (H * W) mod W = k mod W" for k
    using mod_times_div [of k "H * W" C] mod_times_div [of k W H]
    by (simp_all add: mult.commute mult.left_commute mod_mod_cancel)
  ultimately show ?thesis by (simp add: mult.assoc)
qed

lemma loop4_wr:
  assumes step: "\<And>b c h w xs. b < B \<Longrightarrow> c < C \<Longrightarrow> h < H \<Longrightarrow> w < W \<Longrightarrow> length xs = L \<Longrightarrow>
      f b c h w xs = Some (xs[p + (((b * C + c) * H + h) * W + w) := g b c h w])"
    and room: "p + B * C * H * W \<le> L" and xs: "length xs = L"
  shows "loop B (\<lambda>b. loop C (\<lambda>c. loop H (\<lambda>h. loop W (f b c h)))) xs =
    Some (put xs p (map (\<lambda>k. g (k div (C * H * W)) (k div (H * W) mod C) (k div W mod H) (k mod W))
      [0..<B * C * H * W]))"
proof (rule loop3_put [OF _ room xs])
  fix b c h and xs :: "'a list"
  assume *: "b < B" "c < C" "h < H" "length xs = L"
  show "loop W (f b c h) xs = Some (put xs (p + ((b * C + c) * H + h) * W) (map (g b c h) [0..<W]))"
  proof (rule loop_wr)
    have "(b * C + c) * H + h < B * C * H" using * by (intro index3_less)
    then show "p + ((b * C + c) * H + h) * W + W \<le> L"
      using slot_end_nat [of "(b * C + c) * H + h" "B * C * H" W] room by linarith
  qed (use * step in \<open>simp_all add: add.assoc\<close>)
qed

lemma idx4_decode:
  assumes "c < C" and "h < H" and "w < (W::nat)" and "k = ((b * C + c) * H + h) * W + w"
  shows "k div (C * H * W) = b" "k div (H * W) mod C = c" "k div W mod H = h" "k mod W = w"
proof -
  have 1: "k div W = (b * C + c) * H + h" using assms by simp
  have 2: "k div (H * W) = b * C + c"
    using assms 1 by (simp add: mult.commute [of H] div_mult2_eq)
  have "k div (C * H * W) = k div (H * W) div C" by (simp add: div_mult2_eq [symmetric] mult.commute mult.left_commute)
  then show "k div (C * H * W) = b" using 2 assms(1) by simp
  show "k div (H * W) mod C = c" "k div W mod H = h" "k mod W = w" using 1 2 assms by simp_all
qed

lemma idx4_encode:
  "((k div (C * H * W) * C + k div (H * W) mod C) * H + k div W mod H) * W + k mod W = (k::nat)"
proof -
  have "k div (C * H * W) * C + k div (H * W) mod C = k div (H * W)"
    by (metis div_mult2_eq div_mult_mod_eq mult.assoc mult.commute)
  moreover have "k div (H * W) * H + k div W mod H = k div W"
    by (metis div_mult2_eq div_mult_mod_eq mult.commute)
  ultimately show ?thesis by simp
qed

lemma idx4_bounds:
  assumes "(k::nat) < B * C * H * W"
  shows "k div (C * H * W) < B" "k div (H * W) mod C < C" "k div W mod H < H" "k mod W < W"
proof -
  have "0 < B" "0 < C" "0 < H" "0 < W" using assms by (auto intro: Suc_lessI gr0I)
  moreover have "k div (C * H * W) < B" using assms by (intro less_mult_imp_div_less) (simp add: mult.assoc)
  ultimately show "k div (C * H * W) < B" "k div (H * W) mod C < C" "k div W mod H < H" "k mod W < W"
    by simp_all
qed

text \<open>Reading a list through a bijection of its indices permutes it.\<close>

lemma mset_reindex:
  assumes "inj_on f {..<length xs}" and "\<And>k. k < length xs \<Longrightarrow> f k < length xs"
  shows "mset (map (\<lambda>k. xs ! f k) [0..<length xs]) = mset xs"
proof -
  have onto: "f ` {..<length xs} = {..<length xs}" using assms by (intro endo_inj_surj) auto
  have "mset (map (\<lambda>k. xs ! f k) [0..<length xs]) = image_mset (\<lambda>k. xs ! f k) (mset_set {..<length xs})"
    by (simp add: mset_set_upto_eq_mset_upto)
  also have "\<dots> = image_mset ((!) xs) (mset_set (f ` {..<length xs}))"
    using assms(1) by (simp add: image_mset_mset_set [symmetric] multiset.map_comp comp_def)
  also have "\<dots> = mset (map ((!) xs) [0..<length xs])"
    by (simp add: onto mset_set_upto_eq_mset_upto)
  finally show ?thesis by (simp add: map_nth)
qed

text \<open>More on segments and loops.\<close>

lemma nth_put_if:
  "p + length ys \<le> length xs \<Longrightarrow>
   put xs p ys ! k = (if p \<le> k \<and> k < p + length ys then ys ! (k - p) else xs ! k)"
  using nth_put [of p xs "k - p" ys] nth_put_other [of p ys xs k] by auto

lemma put_commute:
  assumes "p + length ys \<le> q" and "q + length zs \<le> length xs"
  shows "put (put xs p ys) q zs = put (put xs q zs) p ys"
  by (rule nth_equalityI) (use assms in \<open>auto simp: nth_put_if\<close>)

lemma put_four:
  assumes "p + 4 \<le> length xs"
  shows "xs[p := v0, p + 1 := v1, p + 2 := v2, p + 3 := v3] = put xs p [v0, v1, v2, v3]"
  using assms put_update [of p "[]" xs v0] put_update [of p "[v0]" xs v1] put_update [of p "[v0, v1]" xs v2]
    put_update [of p "[v0, v1, v2]" xs v3]
  by (simp add: numeral_eq_Suc)

lemma loop_sim:
  assumes "\<And>i s. f i (h s) = map_option h (g i s)"
  shows "loop n f (h s) = map_option h (loop n g s)"
proof (induction n)
  case (Suc n)
  then show ?case by (cases "loop n g s") (simp_all add: assms)
qed simp

lemma loop_first_None: "0 < n \<Longrightarrow> f 0 s = None \<Longrightarrow> loop n f s = None"
proof (induction n)
  case (Suc n)
  then show ?case by (cases n) simp_all
qed simp

lemma loop_add: "loop (m + n) f s = loop m f s \<bind> loop n (\<lambda>j. f (m + j))"
  by (induction n) (simp_all add: Option.bind_assoc)

lemma loop_mult: "loop (m * n) f s = loop m (\<lambda>i. loop n (\<lambda>j. f (i * n + j))) s"
proof (induction m)
  case (Suc m)
  then show ?case using loop_add [of "m * n" n f s] by (simp add: add.commute)
qed simp

lemma loop_same: "(\<And>i s. i < n \<Longrightarrow> f i s = g i s) \<Longrightarrow> loop n f = loop n g"
proof (induction n)
  case (Suc n)
  have "f n = g n" by (rule ext) (simp add: Suc.prems)
  then show ?case using Suc by (intro ext) simp
qed (simp add: fun_eq_iff)

text \<open>Two nested loops as one.\<close>

lemma loop_div_mod: "loop m (\<lambda>i. loop n (f i)) = loop (m * n) (\<lambda>k. f (k div n) (k mod n))"
proof
  fix s
  have "loop n (\<lambda>j. f ((i * n + j) div n) ((i * n + j) mod n)) = loop n (f i)" for i
    by (rule loop_same) simp
  then show "loop m (\<lambda>i. loop n (f i)) s = loop (m * n) (\<lambda>k. f (k div n) (k mod n)) s"
    by (simp add: loop_mult)
qed

text \<open>An unaligned vector load of \<open>l\<close> lanes.\<close>

definition loadu :: "nat \<Rightarrow> 'a list \<Rightarrow> nat \<Rightarrow> 'a list option" where
  "loadu l xs p = (if p + l \<le> length xs then Some (take l (drop p xs)) else None)"

lemma ok_loadu [wp]: "ok (loadu l xs p) Q \<longleftrightarrow> p + l \<le> length xs \<and> Q (take l (drop p xs))"
  by (simp add: loadu_def)

lemma loadu_eq: "p + l \<le> length xs \<Longrightarrow> loadu l xs p = Some (map (\<lambda>c. xs ! (p + c)) [0..<l])"
  by (auto simp: loadu_def intro!: nth_equalityI)

end
