(* ===== verification/Ieee.thy ===== *)
theory Ieee
  imports Prelude "HOL-Library.Log_Nat"
begin

text \<open>
  Binary floating point as the code uses it: IEEE 754 \<open>binary32\<close> (\<open>float\<close>) and
  \<open>binary64\<close> (\<open>double\<close>) with round to nearest, ties to even. A value is a NaN (payloads
  are not distinguished), a signed infinity, the negative zero, or a finite rational;
  \<open>Fin 0\<close> is the positive zero. Every operation computes the exact rational result and
  rounds it once, as the standard requires of \<open>+ - * /\<close>, \<open>sqrt\<close>, \<open>fma\<close> and the
  conversions, so all definitions evaluate. Expressions are taken as written (every
  operation rounds to its own format, no contraction), the behaviour of SSE arithmetic.

  The lemmas give what the components need: rounding is monotone, keeps signs, and is
  exact on the format's own values and on small integers; comparisons form a total
  preorder outside NaN; \<open>std::min\<close> and \<open>std::max\<close> clamp.
\<close>

section \<open>Values and formats\<close>

datatype ieee = NaN | Inf bool | NegZero | Fin rat

text \<open>\<open>Inf True\<close> is \<open>-inf\<close>: the flag is the sign bit.\<close>

record fmt =
  prec :: nat
  emin :: int
  emax :: int

definition b32 :: fmt where
  "b32 = \<lparr>prec = 24, emin = -126, emax = 127\<rparr>"

definition b64 :: fmt where
  "b64 = \<lparr>prec = 53, emin = -1022, emax = 1023\<rparr>"

definition fmt_ok :: "fmt \<Rightarrow> bool" where
  "fmt_ok F \<longleftrightarrow> 2 \<le> prec F \<and> emin F \<le> 0 \<and> int (prec F) \<le> emax F"

lemma fmt_ok_b32 [simp]: "fmt_ok b32" and fmt_ok_b64 [simp]: "fmt_ok b64"
  by (simp_all add: fmt_ok_def b32_def b64_def)

fun is_nan :: "ieee \<Rightarrow> bool" where
  "is_nan NaN = True" | "is_nan _ = False"

fun is_fin :: "ieee \<Rightarrow> bool" where
  "is_fin (Fin _) = True" | "is_fin NegZero = True" | "is_fin _ = False"

fun sgnbit :: "ieee \<Rightarrow> bool" where
  "sgnbit NaN = False" | "sgnbit (Inf s) = s" | "sgnbit NegZero = True" | "sgnbit (Fin q) = (q < 0)"

fun val :: "ieee \<Rightarrow> rat" where
  "val (Fin q) = q" | "val _ = 0"

definition zero :: "bool \<Rightarrow> ieee" where
  "zero s = (if s then NegZero else Fin 0)"

lemma val_zero [simp]: "val (zero s) = 0" and is_fin_zero [simp]: "is_fin (zero s)"
  by (auto simp: zero_def)

section \<open>Rounding\<close>

definition ilog2 :: "rat \<Rightarrow> int" where
  "ilog2 q = (let (n, d) = quotient_of q; e = bitlen n - bitlen d
     in if 2 powi e \<le> q then e else e - 1)"

text \<open>Nearest integer, ties to even.\<close>

definition rhe :: "rat \<Rightarrow> int" where
  "rhe q = (let f = \<lfloor>q\<rfloor>; r = q - of_int f in
     if r < 1/2 then f else if r > 1/2 then f + 1 else if even f then f else f + 1)"

text \<open>Exponent of the unit in the last place at \<open>q\<close>, subnormal range included.\<close>

definition ulp_exp :: "fmt \<Rightarrow> rat \<Rightarrow> int" where
  "ulp_exp F q = max (ilog2 \<bar>q\<bar>) (emin F) - int (prec F) + 1"

definition rnd :: "fmt \<Rightarrow> rat \<Rightarrow> rat" where
  "rnd F q = (if q = 0 then 0
     else (let u = ulp_exp F q in of_int (rhe (q / 2 powi u)) * 2 powi u))"

text \<open>Rounded value with overflow to infinity; a zero result takes the sign \<open>s\<close>.\<close>

definition mk :: "fmt \<Rightarrow> bool \<Rightarrow> rat \<Rightarrow> ieee" where
  "mk F s q = (let r = rnd F q in
     if r = 0 then zero (if q = 0 then s else q < 0)
     else if 2 powi (emax F + 1) \<le> \<bar>r\<bar> then Inf (r < 0)
     else Fin r)"

section \<open>Arithmetic\<close>

fun fneg :: "ieee \<Rightarrow> ieee" where
  "fneg NaN = NaN"
| "fneg (Inf s) = Inf (\<not> s)"
| "fneg NegZero = Fin 0"
| "fneg (Fin q) = (if q = 0 then NegZero else Fin (- q))"

fun fabs :: "ieee \<Rightarrow> ieee" where
  "fabs NaN = NaN"
| "fabs (Inf s) = Inf False"
| "fabs NegZero = Fin 0"
| "fabs (Fin q) = Fin \<bar>q\<bar>"

fun fadd :: "fmt \<Rightarrow> ieee \<Rightarrow> ieee \<Rightarrow> ieee" where
  "fadd F NaN y = NaN"
| "fadd F (Inf s) NaN = NaN"
| "fadd F (Inf s) (Inf t) = (if s = t then Inf s else NaN)"
| "fadd F (Inf s) y = Inf s"
| "fadd F NegZero NaN = NaN"
| "fadd F NegZero (Inf t) = Inf t"
| "fadd F NegZero NegZero = NegZero"
| "fadd F NegZero (Fin q) = mk F False q"
| "fadd F (Fin p) NaN = NaN"
| "fadd F (Fin p) (Inf t) = Inf t"
| "fadd F (Fin p) NegZero = mk F False p"
| "fadd F (Fin p) (Fin q) = mk F False (p + q)"

definition fsub :: "fmt \<Rightarrow> ieee \<Rightarrow> ieee \<Rightarrow> ieee" where
  "fsub F x y = fadd F x (fneg y)"

definition fmul :: "fmt \<Rightarrow> ieee \<Rightarrow> ieee \<Rightarrow> ieee" where
  "fmul F x y =
     (let s = (sgnbit x \<noteq> sgnbit y) in
      if is_nan x \<or> is_nan y then NaN
      else if is_fin x \<and> is_fin y then mk F s (val x * val y)
      else if (is_fin x \<and> val x = 0) \<or> (is_fin y \<and> val y = 0) then NaN
      else Inf s)"

definition fdiv :: "fmt \<Rightarrow> ieee \<Rightarrow> ieee \<Rightarrow> ieee" where
  "fdiv F x y =
     (let s = (sgnbit x \<noteq> sgnbit y) in
      if is_nan x \<or> is_nan y then NaN
      else if is_fin x \<and> is_fin y then
        (if val y = 0 then (if val x = 0 then NaN else Inf s)
         else mk F s (val x / val y))
      else if is_fin x then zero s
      else if is_fin y then Inf s
      else NaN)"

text \<open>\<open>fma(x, y, z)\<close>: the product is not rounded before the sum.\<close>

definition fma :: "fmt \<Rightarrow> ieee \<Rightarrow> ieee \<Rightarrow> ieee \<Rightarrow> ieee" where
  "fma F x y z =
     (let s = (sgnbit x \<noteq> sgnbit y) in
      if is_fin x \<and> is_fin y \<and> is_fin z then
        mk F (s \<and> sgnbit z) (val x * val y + val z)
      else if is_nan x \<or> is_nan y \<or> is_nan z then NaN
      else if is_fin x \<and> is_fin y then z
      else fadd F (fmul F x y) z)"

fun isqrt :: "nat \<Rightarrow> nat" where
  "isqrt n = (if n = 0 then 0
     else let r = 2 * isqrt (n div 4) in if (r + 1) * (r + 1) \<le> n then r + 1 else r)"

declare isqrt.simps [simp del]

text \<open>
  Square root rounded to nearest: with \<open>u\<close> the exponent of the last place of the root,
  \<open>s = q / 4 powi u\<close> and \<open>m\<close> the integer root of \<open>s\<close>, the nearer of \<open>m\<close> and \<open>m + 1\<close>.
\<close>

definition sqrt_rnd :: "fmt \<Rightarrow> rat \<Rightarrow> rat" where
  "sqrt_rnd F q =
     (let u = max (ilog2 q div 2) (emin F) - int (prec F) + 1;
          s = q / (2 powi u * 2 powi u);
          m = int (isqrt (nat \<lfloor>s\<rfloor>));
          h = of_int m + 1/2;
          k = (if s < h * h then m else if h * h < s then m + 1 else if even m then m else m + 1)
      in of_int k * 2 powi u)"

fun fsqrt :: "fmt \<Rightarrow> ieee \<Rightarrow> ieee" where
  "fsqrt F NaN = NaN"
| "fsqrt F (Inf s) = (if s then NaN else Inf False)"
| "fsqrt F NegZero = NegZero"
| "fsqrt F (Fin q) = (if q < 0 then NaN else if q = 0 then Fin 0 else Fin (sqrt_rnd F q))"

section \<open>Conversions and integral functions\<close>

definition of_z :: "fmt \<Rightarrow> int \<Rightarrow> ieee" where
  "of_z F i = mk F False (of_int i)"

text \<open>Conversion between formats (\<open>static_cast<float>(double)\<close>).\<close>

fun cvt :: "fmt \<Rightarrow> ieee \<Rightarrow> ieee" where
  "cvt F (Fin q) = mk F False q"
| "cvt F x = x"

definition trunc :: "rat \<Rightarrow> int" where
  "trunc q = (if q < 0 then \<lceil>q\<rceil> else \<lfloor>q\<rfloor>)"

text \<open>
  \<open>static_cast<int>\<close>: truncation; a NaN, an infinity or a value outside the type is
  undefined behaviour.
\<close>

definition to_int :: "ieee \<Rightarrow> int option" where
  "to_int x = (if is_fin x \<and> - (2 ^ 31) \<le> trunc (val x) \<and> trunc (val x) < 2 ^ 31
     then Some (trunc (val x)) else None)"

definition to_size :: "ieee \<Rightarrow> nat option" where
  "to_size x = (if is_fin x \<and> 0 \<le> trunc (val x) \<and> trunc (val x) < 2 ^ 64
     then Some (nat (trunc (val x))) else None)"

text \<open>\<open>round\<close> (half away from zero), \<open>floor\<close> and \<open>ceil\<close> of a floating-point value.\<close>

definition rha :: "rat \<Rightarrow> int" where
  "rha q = (if 0 \<le> q then \<lfloor>q + 1/2\<rfloor> else - \<lfloor>- q + 1/2\<rfloor>)"

fun integral :: "(rat \<Rightarrow> int) \<Rightarrow> ieee \<Rightarrow> ieee" where
  "integral f (Fin q) = (if f q = 0 then zero (q < 0) else Fin (of_int (f q)))"
| "integral f x = x"

abbreviation fround :: "ieee \<Rightarrow> ieee" where "fround \<equiv> integral rha"
abbreviation ffloor :: "ieee \<Rightarrow> ieee" where "ffloor \<equiv> integral floor"
abbreviation fceil :: "ieee \<Rightarrow> ieee" where "fceil \<equiv> integral ceiling"

section \<open>Comparison\<close>

text \<open>Position of a value on the extended line: infinities lie beyond the finite values.\<close>

fun pos :: "ieee \<Rightarrow> int \<times> rat" where
  "pos (Inf s) = (if s then -1 else 1, 0)"
| "pos x = (0, val x)"

definition flt :: "ieee \<Rightarrow> ieee \<Rightarrow> bool" where
  "flt x y \<longleftrightarrow> \<not> is_nan x \<and> \<not> is_nan y \<and>
     (fst (pos x) < fst (pos y) \<or> fst (pos x) = fst (pos y) \<and> snd (pos x) < snd (pos y))"

definition fle :: "ieee \<Rightarrow> ieee \<Rightarrow> bool" where
  "fle x y \<longleftrightarrow> \<not> is_nan x \<and> \<not> is_nan y \<and>
     (fst (pos x) < fst (pos y) \<or> fst (pos x) = fst (pos y) \<and> snd (pos x) \<le> snd (pos y))"

definition feq :: "ieee \<Rightarrow> ieee \<Rightarrow> bool" where
  "feq x y \<longleftrightarrow> \<not> is_nan x \<and> \<not> is_nan y \<and> pos x = pos y"

text \<open>\<open>std::max\<close> and \<open>std::min\<close>, and the SSE instructions, which differ on NaN and zeros.\<close>

definition cmax :: "ieee \<Rightarrow> ieee \<Rightarrow> ieee" where
  "cmax a b = (if flt a b then b else a)"

definition cmin :: "ieee \<Rightarrow> ieee \<Rightarrow> ieee" where
  "cmin a b = (if flt b a then b else a)"

definition maxps :: "ieee \<Rightarrow> ieee \<Rightarrow> ieee" where
  "maxps a b = (if flt b a then a else b)"

definition minps :: "ieee \<Rightarrow> ieee \<Rightarrow> ieee" where
  "minps a b = (if flt a b then a else b)"

section \<open>Single and double precision\<close>

abbreviation addf :: "ieee \<Rightarrow> ieee \<Rightarrow> ieee" where "addf \<equiv> fadd b32"
abbreviation subf :: "ieee \<Rightarrow> ieee \<Rightarrow> ieee" where "subf \<equiv> fsub b32"
abbreviation mulf :: "ieee \<Rightarrow> ieee \<Rightarrow> ieee" where "mulf \<equiv> fmul b32"
abbreviation divf :: "ieee \<Rightarrow> ieee \<Rightarrow> ieee" where "divf \<equiv> fdiv b32"
abbreviation addd :: "ieee \<Rightarrow> ieee \<Rightarrow> ieee" where "addd \<equiv> fadd b64"
abbreviation subd :: "ieee \<Rightarrow> ieee \<Rightarrow> ieee" where "subd \<equiv> fsub b64"
abbreviation muld :: "ieee \<Rightarrow> ieee \<Rightarrow> ieee" where "muld \<equiv> fmul b64"
abbreviation divd :: "ieee \<Rightarrow> ieee \<Rightarrow> ieee" where "divd \<equiv> fdiv b64"
abbreviation i2f :: "int \<Rightarrow> ieee" where "i2f \<equiv> of_z b32"
abbreviation n2f :: "nat \<Rightarrow> ieee" where "n2f n \<equiv> of_z b32 (int n)"

section \<open>Rounding is monotone and exact on representable values\<close>

lemma ilog2_bounds:
  assumes "0 < q"
  shows "2 powi (ilog2 q) \<le> q" and "q < 2 powi (ilog2 q + 1)"
proof -
  obtain n d where nd: "quotient_of q = (n, d)" by (cases "quotient_of q")
  then have d: "0 < d" by (rule quotient_of_denom_pos)
  have q: "q = of_int n / of_int d" by (rule quotient_of_div [OF nd])
  with assms d have n: "0 < n" by (simp add: zero_less_divide_iff)
  define e where "e = bitlen n - bitlen d"
  have bn: "0 < bitlen n" "0 < bitlen d"
    using n d by (simp_all add: bitlen_nonneg less_le bitlen_eq_zero_iff)
  have up: "x < 2 powi (bitlen k)" and lo: "2 powi (bitlen k - 1) \<le> x"
    if "0 < k" and x: "x = of_int k" for k :: int and x :: rat
  proof -
    from bitlen_bounds [OF \<open>0 < k\<close>]
    have "(of_int (2 ^ nat (bitlen k - 1)) :: rat) \<le> of_int k"
      and "(of_int k :: rat) < of_int (2 ^ nat (bitlen k))"
      by (simp_all only: of_int_le_iff of_int_less_iff)
    moreover have "1 \<le> bitlen k"
      using \<open>0 < k\<close> by (simp add: bitlen_ge_iff_power)
    ultimately show "x < 2 powi (bitlen k)" and "2 powi (bitlen k - 1) \<le> x"
      by (simp_all add: power_int_def x)
  qed
  have "q < 2 powi (bitlen n) / 2 powi (bitlen d - 1)"
    unfolding q using n d up [OF n refl] lo [OF d refl]
    by (intro frac_less) simp_all
  then have hi: "q < 2 powi (e + 1)"
    by (simp add: e_def power_int_diff [symmetric] algebra_simps)
  have "2 powi (bitlen n - 1) / 2 powi (bitlen d) \<le> q"
    unfolding q using n d lo [OF n refl] up [OF d refl]
    by (intro frac_le) simp_all
  then have "2 powi (e - 1) \<le> q"
    by (simp add: e_def power_int_diff [symmetric] algebra_simps)
  with hi show "2 powi (ilog2 q) \<le> q" "q < 2 powi (ilog2 q + 1)"
    by (auto simp: ilog2_def nd e_def Let_def)
qed

lemma powi2_less: "m < n \<Longrightarrow> (2::rat) powi m < 2 powi n"
  by (rule power_int_strict_increasing) simp_all

lemma powi2_le: "m \<le> n \<Longrightarrow> (2::rat) powi m \<le> 2 powi n"
  by (rule power_int_increasing) simp_all

lemma powi2_less_iff: "(2::rat) powi m < 2 powi n \<longleftrightarrow> m < n"
  by (meson not_le powi2_le powi2_less)

lemma powi2_pos: "0 < (2::rat) powi m"
  by simp

lemma ilog2_mono:
  assumes "0 < q" and "q \<le> r"
  shows "ilog2 q \<le> ilog2 r"
proof -
  have "2 powi (ilog2 q) < (2::rat) powi (ilog2 r + 1)"
    using ilog2_bounds(1) [of q] ilog2_bounds(2) [of r] assms by linarith
  then show ?thesis by (simp add: powi2_less_iff)
qed

lemma ilog2_less:
  assumes "0 < q" and "q < 2 powi e"
  shows "ilog2 q < e"
proof -
  have "2 powi (ilog2 q) < (2::rat) powi e"
    using ilog2_bounds(1) [of q] assms by linarith
  then show ?thesis by (simp add: powi2_less_iff)
qed

lemma rhe_of_int [simp]: "rhe (of_int k) = k"
  by (simp add: rhe_def)

lemma rhe_floor_ceiling: "\<lfloor>q\<rfloor> \<le> rhe q" "rhe q \<le> \<lfloor>q\<rfloor> + 1"
  by (auto simp: rhe_def Let_def)

lemma rhe_mono:
  assumes "q \<le> r"
  shows "rhe q \<le> rhe r"
proof (cases "\<lfloor>q\<rfloor> = \<lfloor>r\<rfloor>")
  case True
  then show ?thesis using assms by (auto simp: rhe_def Let_def)
next
  case False
  moreover have "\<lfloor>q\<rfloor> \<le> \<lfloor>r\<rfloor>" using assms by (rule floor_mono)
  ultimately have "\<lfloor>q\<rfloor> + 1 \<le> \<lfloor>r\<rfloor>" by simp
  then show ?thesis using rhe_floor_ceiling(2) [of q] rhe_floor_ceiling(1) [of r] by linarith
qed

lemma rhe_minus: "rhe (- q) = - rhe q"
proof (cases "q = of_int \<lfloor>q\<rfloor>")
  case True
  have "rhe (- q) = rhe (of_int (- \<lfloor>q\<rfloor>))" using True by simp
  also have "\<dots> = - \<lfloor>q\<rfloor>" by (rule rhe_of_int)
  also have "\<lfloor>q\<rfloor> = rhe q" using rhe_of_int [of "\<lfloor>q\<rfloor>"] True by simp
  finally show ?thesis .
next
  case False
  then have "\<lfloor>- q\<rfloor> = - \<lfloor>q\<rfloor> - 1"
    by (simp add: floor_minus ceiling_altdef)
  then show ?thesis by (auto simp: rhe_def Let_def)
qed

lemma rnd_0 [simp]: "rnd F 0 = 0"
  by (simp add: rnd_def)

lemma rnd_minus: "rnd F (- q) = - rnd F q"
  by (simp add: rnd_def ulp_exp_def Let_def rhe_minus)

text \<open>A multiple of the last place, or of a coarser power of two, is not changed.\<close>

lemma rnd_grid:
  assumes "q = of_int k * 2 powi e" and "ulp_exp F q \<le> e"
  shows "rnd F q = q"
proof (cases "q = 0")
  case False
  define u where "u = ulp_exp F q"
  have "2 powi e / 2 powi u = (2::rat) ^ nat (e - u)"
    using assms(2) by (simp add: u_def power_int_diff [symmetric] power_int_nonneg_exp)
  then have *: "q / 2 powi u = of_int (k * 2 ^ nat (e - u))"
    using assms(1) by (simp add: field_simps)
  then have "of_int (rhe (q / 2 powi u)) = q / 2 powi u" by (simp only: rhe_of_int)
  moreover have "rnd F q = of_int (rhe (q / 2 powi u)) * 2 powi u"
    using False by (simp add: rnd_def u_def Let_def)
  ultimately show ?thesis by simp
qed simp

text \<open>Representable values: an integer significand below \<open>2 ^ prec\<close> on the exponent range.\<close>

definition representable :: "fmt \<Rightarrow> rat \<Rightarrow> bool" where
  "representable F q \<longleftrightarrow>
     (\<exists>k e. q = of_int k * 2 powi e \<and> \<bar>k\<bar> < 2 ^ prec F \<and> emin F - int (prec F) + 1 \<le> e)"

lemma rnd_representable:
  assumes "representable F q"
  shows "rnd F q = q"
proof (cases "q = 0")
  case False
  from assms obtain k e where ke: "q = of_int k * 2 powi e" "\<bar>k\<bar> < 2 ^ prec F"
    "emin F - int (prec F) + 1 \<le> e"
    by (auto simp: representable_def)
  have "\<bar>of_int k\<bar> < (2::rat) ^ prec F" using ke(2)
    by (metis of_int_abs of_int_less_iff of_int_numeral of_int_power)
  then have "\<bar>q\<bar> < 2 ^ prec F * 2 powi e" using ke(1) by (simp add: abs_mult)
  also have "\<dots> = 2 powi (int (prec F) + e)" by (simp add: power_int_add)
  finally have "ilog2 \<bar>q\<bar> < int (prec F) + e" using False by (intro ilog2_less) simp_all
  then have "ulp_exp F q \<le> e" using ke(3) by (simp add: ulp_exp_def)
  with ke(1) show ?thesis by (rule rnd_grid)
qed simp

text \<open>The binade of a positive value is mapped into its closure.\<close>

lemma rnd_binade:
  assumes F: "fmt_ok F" and "0 < q"
  shows "0 \<le> rnd F q"
    and "rnd F q \<le> 2 powi (max (ilog2 q) (emin F) + 1)"
    and "emin F \<le> ilog2 q \<Longrightarrow> 2 powi (ilog2 q) \<le> rnd F q"
proof -
  define e where "e = max (ilog2 q) (emin F)"
  define u where "u = ulp_exp F q"
  have u: "u = e - int (prec F) + 1" using assms(2) by (simp add: u_def e_def ulp_exp_def)
  have r: "rnd F q = of_int (rhe (q / 2 powi u)) * 2 powi u"
    using assms(2) by (simp add: rnd_def u_def Let_def)
  have "rhe 0 \<le> rhe (q / 2 powi u)" using assms(2) by (intro rhe_mono) simp
  then show "0 \<le> rnd F q" using rhe_of_int [of 0] by (simp add: r)
  have k: "u \<le> e" "0 \<le> e - u" "0 \<le> e + 1 - u" using F u by (simp_all add: fmt_ok_def)
  have "q < 2 powi (ilog2 q + 1)" using ilog2_bounds(2) assms(2) .
  also have "\<dots> \<le> 2 powi (e + 1)" by (rule powi2_le) (simp add: e_def)
  finally have "q / 2 powi u \<le> 2 powi (e + 1 - u)"
    by (simp add: power_int_diff divide_right_mono)
  also have "\<dots> = of_int (2 ^ nat (e + 1 - u))" using k by (simp add: power_int_nonneg_exp)
  finally have "rhe (q / 2 powi u) \<le> 2 ^ nat (e + 1 - u)"
    by (metis rhe_mono rhe_of_int)
  then have "(of_int (rhe (q / 2 powi u)) :: rat) \<le> of_int (2 ^ nat (e + 1 - u))"
    by (simp only: of_int_le_iff)
  also have "\<dots> = 2 powi (e + 1 - u)" using k by (simp add: power_int_nonneg_exp)
  finally have "rnd F q \<le> 2 powi (e + 1 - u) * 2 powi u"
    by (simp add: r mult_right_mono)
  then show "rnd F q \<le> 2 powi (max (ilog2 q) (emin F) + 1)"
    by (simp add: power_int_add [symmetric] e_def)
  assume le: "emin F \<le> ilog2 q"
  then have e: "e = ilog2 q" by (simp add: e_def)
  have "(of_int (2 ^ nat (e - u)) :: rat) = 2 powi (e - u)"
    using k by (simp add: power_int_nonneg_exp)
  also have "\<dots> \<le> q / 2 powi u"
    using ilog2_bounds(1) [OF assms(2)] by (simp add: power_int_diff divide_right_mono e)
  finally have "2 ^ nat (e - u) \<le> rhe (q / 2 powi u)"
    by (metis rhe_mono rhe_of_int)
  then have lo: "(of_int (2 ^ nat (e - u)) :: rat) \<le> of_int (rhe (q / 2 powi u))"
    by (simp only: of_int_le_iff)
  have "2 powi (e - u) = (of_int (2 ^ nat (e - u)) :: rat)"
    using k by (simp add: power_int_nonneg_exp)
  also note lo
  finally have "2 powi (e - u) * 2 powi u \<le> rnd F q"
    by (simp add: r mult_right_mono)
  then show "2 powi (ilog2 q) \<le> rnd F q"
    by (simp add: power_int_add [symmetric] e)
qed

lemma rnd_mono_pos:
  assumes F: "fmt_ok F" and "0 < q" and "q \<le> r"
  shows "rnd F q \<le> rnd F r"
proof (cases "ulp_exp F q = ulp_exp F r")
  case True
  have "rhe (q / 2 powi ulp_exp F r) \<le> rhe (r / 2 powi ulp_exp F r)"
    using assms(3) by (intro rhe_mono divide_right_mono) simp_all
  then show ?thesis using assms(2,3) True by (simp add: rnd_def Let_def mult_right_mono)
next
  case False
  have "ilog2 q \<le> ilog2 r" using assms(2,3) by (rule ilog2_mono)
  with False have *: "emin F \<le> ilog2 r" "max (ilog2 q) (emin F) + 1 \<le> ilog2 r"
    using assms(2,3) by (auto simp: ulp_exp_def max_def split: if_splits)
  have "rnd F q \<le> 2 powi (max (ilog2 q) (emin F) + 1)" using F assms(2) by (rule rnd_binade)
  also have "\<dots> \<le> 2 powi (ilog2 r)" using *(2) by (rule powi2_le)
  also have "\<dots> \<le> rnd F r" using rnd_binade(3) [OF F, of r] assms(2,3) *(1) by simp
  finally show ?thesis .
qed

lemma rnd_nonneg: "fmt_ok F \<Longrightarrow> 0 \<le> q \<Longrightarrow> 0 \<le> rnd F q"
  by (cases "q = 0") (simp_all add: rnd_binade(1))

lemma rnd_nonpos: "fmt_ok F \<Longrightarrow> q \<le> 0 \<Longrightarrow> rnd F q \<le> 0"
  using rnd_nonneg [of F "- q"] by (simp add: rnd_minus)

lemma rnd_mono:
  assumes F: "fmt_ok F" and "q \<le> r"
  shows "rnd F q \<le> rnd F r"
proof -
  consider "0 < q" | "q \<le> 0" "0 \<le> r" | "r < 0" by linarith
  then show ?thesis
  proof cases
    case 1
    then show ?thesis using assms by (intro rnd_mono_pos)
  next
    case 2
    then show ?thesis using rnd_nonpos [OF F, of q] rnd_nonneg [OF F, of r] by linarith
  next
    case 3
    then show ?thesis using rnd_mono_pos [OF F, of "- r" "- q"] assms by (simp add: rnd_minus)
  qed
qed

lemma abs_rnd: "\<bar>rnd F q\<bar> = \<bar>rnd F \<bar>q\<bar>\<bar>"
  by (cases "0 \<le> q") (simp_all add: rnd_minus)

text \<open>The rounded significand has at most \<open>prec\<close> bits, so rounding twice changes nothing.\<close>

lemma representable_rnd:
  assumes F: "fmt_ok F"
  shows "representable F (rnd F q)"
proof (cases "q = 0")
  case True
  have "(0::rat) = of_int 0 * 2 powi emin F" by simp
  moreover have "emin F - int (prec F) + 1 \<le> emin F" using F by (simp add: fmt_ok_def)
  ultimately show ?thesis
    unfolding representable_def True rnd_0 by (metis abs_zero zero_less_power zero_less_numeral)
next
  case False
  define u where "u = ulp_exp F q"
  define k where "k = rhe (q / 2 powi u)"
  have r: "rnd F q = of_int k * 2 powi u"
    using False by (simp add: rnd_def u_def k_def Let_def)
  have u: "u = max (ilog2 \<bar>q\<bar>) (emin F) - int (prec F) + 1" by (simp add: u_def ulp_exp_def)
  have "\<bar>rnd F q\<bar> = rnd F \<bar>q\<bar>"
    using rnd_nonneg [OF F, of "\<bar>q\<bar>"] by (simp add: abs_rnd [of F q])
  also have "\<dots> \<le> 2 powi (max (ilog2 \<bar>q\<bar>) (emin F) + 1)"
    using F False by (intro rnd_binade) simp_all
  also have "\<dots> = 2 ^ prec F * 2 powi u"
    by (simp add: u power_int_add [symmetric] flip: power_int_of_nat)
  finally have "\<bar>of_int k\<bar> \<le> (2::rat) ^ prec F" by (simp add: r abs_mult)
  then have "(of_int \<bar>k\<bar> :: rat) \<le> of_int (2 ^ prec F)" by simp
  then have k: "\<bar>k\<bar> \<le> 2 ^ prec F" by (simp only: of_int_le_iff)
  show ?thesis
  proof (cases "\<bar>k\<bar> = 2 ^ prec F")
    case False
    with k have "\<bar>k\<bar> < 2 ^ prec F" by simp
    moreover have "emin F - int (prec F) + 1 \<le> u" using u by simp
    ultimately show ?thesis using r unfolding representable_def by blast
  next
    case True
    have "k = sgn k * 2 ^ prec F" using sgn_mult_abs [of k] True by simp
    then have "of_int k = (of_int (sgn k) :: rat) * 2 ^ prec F"
      by (metis of_int_mult of_int_numeral of_int_power)
    then have "rnd F q = of_int (sgn k) * 2 powi (int (prec F) + u)"
      by (simp add: r power_int_add)
    moreover have "\<bar>sgn k\<bar> < 2 ^ prec F" "emin F - int (prec F) + 1 \<le> int (prec F) + u"
      using F u one_less_power [of "2::int" "prec F"] by (auto simp: fmt_ok_def abs_sgn_eq)
    ultimately show ?thesis unfolding representable_def by blast
  qed
qed

lemma rnd_rnd [simp]: "fmt_ok F \<Longrightarrow> rnd F (rnd F q) = rnd F q"
  by (rule rnd_representable) (rule representable_rnd)

lemma representable_int:
  assumes F: "fmt_ok F" and "\<bar>i\<bar> < 2 ^ prec F"
  shows "representable F (of_int i)"
proof -
  have "(of_int i :: rat) = of_int i * 2 powi 0" by simp
  moreover have "emin F - int (prec F) + 1 \<le> 0" using F by (simp add: fmt_ok_def)
  ultimately show ?thesis using assms(2) unfolding representable_def by blast
qed

lemma rnd_of_int: "fmt_ok F \<Longrightarrow> \<bar>i\<bar> < 2 ^ prec F \<Longrightarrow> rnd F (of_int i) = of_int i"
  by (rule rnd_representable) (rule representable_int)

lemma rnd_1 [simp]: "fmt_ok F \<Longrightarrow> rnd F 1 = 1"
  using rnd_of_int [of F 1] one_less_power [of "2::int" "prec F"] by (simp add: fmt_ok_def)

section \<open>Values of a format\<close>

fun in_fmt :: "fmt \<Rightarrow> ieee \<Rightarrow> bool" where
  "in_fmt F (Fin q) = (rnd F q = q \<and> \<bar>q\<bar> < 2 powi (emax F + 1))"
| "in_fmt F x = True"

lemma mk_not_nan [simp]: "\<not> is_nan (mk F s q)"
  by (auto simp: mk_def Let_def zero_def)

lemma in_fmt_zero [simp]: "in_fmt F (zero s)"
  by (simp add: zero_def)

lemma in_fmt_mk [simp]: "fmt_ok F \<Longrightarrow> in_fmt F (mk F s q)"
  by (auto simp: mk_def Let_def)

lemma in_fmt_fneg: "in_fmt F x \<Longrightarrow> in_fmt F (fneg x)"
  by (cases x) (auto simp: rnd_minus)

lemma in_fmt_fadd: "fmt_ok F \<Longrightarrow> in_fmt F (fadd F x y)"
  by (cases x; cases y) auto

lemma in_fmt_fsub: "fmt_ok F \<Longrightarrow> in_fmt F (fsub F x y)"
  by (simp add: fsub_def in_fmt_fadd)

lemma in_fmt_fmul: "fmt_ok F \<Longrightarrow> in_fmt F (fmul F x y)"
  by (simp add: fmul_def Let_def)

lemma in_fmt_fdiv: "fmt_ok F \<Longrightarrow> in_fmt F (fdiv F x y)"
  by (simp add: fdiv_def Let_def)

lemmas in_fmt_ops = in_fmt_fneg in_fmt_fadd in_fmt_fsub in_fmt_fmul in_fmt_fdiv

lemma small_below_max:
  assumes F: "fmt_ok F" and "\<bar>i\<bar> < 2 ^ prec F"
  shows "(of_int \<bar>i\<bar> :: rat) < 2 powi (emax F + 1)"
proof -
  have "(of_int \<bar>i\<bar> :: rat) < of_int (2 ^ prec F)" using assms(2) by (simp only: of_int_less_iff)
  also have "\<dots> = 2 powi (int (prec F))" by simp
  also have "\<dots> \<le> 2 powi (emax F + 1)" using F by (intro powi2_le) (simp add: fmt_ok_def)
  finally show ?thesis .
qed

lemma of_z_exact: "fmt_ok F \<Longrightarrow> \<bar>i\<bar> < 2 ^ prec F \<Longrightarrow> of_z F i = Fin (of_int i)"
  using small_below_max [of F i] by (auto simp: of_z_def mk_def rnd_of_int Let_def zero_def)

lemma prec_b32 [simp]: "prec b32 = 24" and prec_b64 [simp]: "prec b64 = 53"
  by (simp_all add: b32_def b64_def)

lemma i2f_exact: "\<bar>i\<bar> < 2 ^ 24 \<Longrightarrow> i2f i = Fin (of_int i)"
  using of_z_exact [of b32 i] by simp

lemma in_fmt_of_z [simp]: "fmt_ok F \<Longrightarrow> in_fmt F (of_z F i)"
  by (simp add: of_z_def)

section \<open>Comparison is a total preorder outside NaN\<close>

lemma fle_refl [simp]: "fle x x \<longleftrightarrow> \<not> is_nan x"
  by (auto simp: fle_def)

lemma flt_irrefl [simp]: "\<not> flt x x"
  by (auto simp: flt_def)

lemma fle_trans: "fle x y \<Longrightarrow> fle y z \<Longrightarrow> fle x z"
  by (auto simp: fle_def)

lemma flt_trans: "flt x y \<Longrightarrow> flt y z \<Longrightarrow> flt x z"
  by (auto simp: flt_def)

lemma flt_fle_trans: "flt x y \<Longrightarrow> fle y z \<Longrightarrow> flt x z"
  by (auto simp: flt_def fle_def)

lemma fle_flt_trans: "fle x y \<Longrightarrow> flt y z \<Longrightarrow> flt x z"
  by (auto simp: flt_def fle_def)

lemma flt_imp_fle: "flt x y \<Longrightarrow> fle x y"
  by (auto simp: flt_def fle_def)

lemma flt_not_nan: "flt x y \<Longrightarrow> \<not> is_nan x \<and> \<not> is_nan y"
  by (simp add: flt_def)

lemma fle_not_nan: "fle x y \<Longrightarrow> \<not> is_nan x \<and> \<not> is_nan y"
  by (simp add: fle_def)

lemma flt_asym: "flt x y \<Longrightarrow> \<not> flt y x"
  by (auto simp: flt_def)

lemma fle_not_flt: "fle x y \<Longrightarrow> \<not> flt y x"
  by (auto simp: flt_def fle_def)

lemma not_flt: "\<not> is_nan x \<Longrightarrow> \<not> is_nan y \<Longrightarrow> \<not> flt x y \<longleftrightarrow> fle y x"
  by (auto simp: flt_def fle_def)

lemma not_fle: "\<not> is_nan x \<Longrightarrow> \<not> is_nan y \<Longrightarrow> \<not> fle x y \<longleftrightarrow> flt y x"
  by (auto simp: flt_def fle_def)

lemma is_fin_not_nan: "is_fin x \<Longrightarrow> \<not> is_nan x"
  by (cases x) auto

lemma pos_fin: "is_fin x \<Longrightarrow> pos x = (0, val x)"
  by (cases x) auto

lemma flt_fin: "is_fin x \<Longrightarrow> is_fin y \<Longrightarrow> flt x y \<longleftrightarrow> val x < val y"
  by (simp add: flt_def is_fin_not_nan pos_fin)

lemma fle_fin: "is_fin x \<Longrightarrow> is_fin y \<Longrightarrow> fle x y \<longleftrightarrow> val x \<le> val y"
  by (simp add: fle_def is_fin_not_nan pos_fin)

lemma fle_between_fin: "fle x y \<Longrightarrow> fle y z \<Longrightarrow> is_fin x \<Longrightarrow> is_fin z \<Longrightarrow> is_fin y"
  by (cases x; cases y; cases z) (auto simp: fle_def split: if_splits)

lemma fle_Inf_False: "fle x (Inf False) \<longleftrightarrow> \<not> is_nan x"
  by (cases x) (auto simp: fle_def)

text \<open>Clamping with \<open>std::min\<close> and \<open>std::max\<close>: both orders the code uses.\<close>

lemma cmax_cmin_clamp:
  "fle lo hi \<Longrightarrow> \<not> is_nan x \<Longrightarrow> fle lo (cmax lo (cmin x hi)) \<and> fle (cmax lo (cmin x hi)) hi"
  by (auto simp: cmax_def cmin_def fle_def flt_def)

lemma cmin_cmax_clamp:
  "fle lo hi \<Longrightarrow> \<not> is_nan x \<Longrightarrow> fle lo (cmin (cmax x lo) hi) \<and> fle (cmin (cmax x lo) hi) hi"
  by (auto simp: cmax_def cmin_def fle_def flt_def)

lemma cmax_ge: "\<not> is_nan a \<Longrightarrow> \<not> is_nan b \<Longrightarrow> fle a (cmax a b) \<and> fle b (cmax a b)"
  by (auto simp: cmax_def fle_def flt_def)

lemma cmin_le: "\<not> is_nan a \<Longrightarrow> \<not> is_nan b \<Longrightarrow> fle (cmin a b) a \<and> fle (cmin a b) b"
  by (auto simp: cmin_def fle_def flt_def)

lemma cmax_cmin_range:
  assumes "is_fin hi" and "fle (Fin 0) hi"
  shows "is_fin (cmax (Fin 0) (cmin x hi)) \<and> fle (Fin 0) (cmax (Fin 0) (cmin x hi)) \<and>
    fle (cmax (Fin 0) (cmin x hi)) hi"
proof (cases "is_nan x")
  case True
  then have "cmax (Fin 0) (cmin x hi) = Fin 0" by (cases x) (auto simp: cmin_def cmax_def flt_def)
  then show ?thesis using assms by simp
next
  case False
  then have "fle (Fin 0) (cmax (Fin 0) (cmin x hi)) \<and> fle (cmax (Fin 0) (cmin x hi)) hi"
    using cmax_cmin_clamp [OF assms(2)] by (simp add: cmax_def cmin_def)
  then show ?thesis using fle_between_fin [of "Fin 0" _ hi] assms(1) by auto
qed

lemma feq_iff: "feq x y \<longleftrightarrow> fle x y \<and> fle y x"
  by (auto simp: feq_def fle_def prod_eq_iff)

section \<open>Monotonicity of the operations\<close>

lemma mk_mono:
  assumes F: "fmt_ok F" and "q \<le> r"
  shows "fle (mk F s q) (mk F t r)"
proof -
  have "rnd F q \<le> rnd F r" using assms by (rule rnd_mono)
  then show ?thesis
    by (auto simp: mk_def Let_def fle_def zero_def abs_if split: if_splits)
qed

lemma mk_id: "in_fmt F (Fin q) \<Longrightarrow> q \<noteq> 0 \<Longrightarrow> mk F s q = Fin q"
  by (auto simp: mk_def Let_def)

lemma mk_0 [simp]: "mk F s 0 = zero s"
  by (simp add: mk_def)

lemma fadd_comm: "fadd F x y = fadd F y x"
  by (cases x; cases y) (auto simp: add.commute)

lemma fmul_comm: "fmul F x y = fmul F y x"
proof -
  have "(sgnbit x \<noteq> sgnbit y) = (sgnbit y \<noteq> sgnbit x)" by auto
  then show ?thesis by (auto simp: fmul_def Let_def mult.commute)
qed

text \<open>Sums and differences of bounded values are bounded, when the bound is an exact integer.\<close>

lemma mk_of_int: "fmt_ok F \<Longrightarrow> \<bar>i\<bar> < 2 ^ prec F \<Longrightarrow> val (mk F s (of_int i)) = of_int i \<and> is_fin (mk F s (of_int i))"
  using small_below_max [of F i] by (auto simp: mk_def rnd_of_int Let_def)

lemma mk_bounded:
  assumes F: "fmt_ok F" and "\<bar>m\<bar> < 2 ^ prec F" "\<bar>n\<bar> < 2 ^ prec F" and "of_int m \<le> q" and "q \<le> of_int n"
  shows "is_fin (mk F s q) \<and> of_int m \<le> val (mk F s q) \<and> val (mk F s q) \<le> of_int n"
proof -
  have "fle (mk F s (of_int m)) (mk F s q)" "fle (mk F s q) (mk F s (of_int n))"
    using assms by (auto intro: mk_mono)
  moreover note mk_of_int [OF F assms(2), of s] mk_of_int [OF F assms(3), of s]
  ultimately show ?thesis
    using fle_between_fin [of "mk F s (of_int m)" "mk F s q" "mk F s (of_int n)"]
    by (auto simp: fle_fin)
qed

lemma fadd_val:
  "is_fin x \<Longrightarrow> is_fin y \<Longrightarrow> val x + val y \<noteq> 0 \<Longrightarrow> fadd F x y = mk F False (val x + val y)"
  by (cases x; cases y) auto

lemma fadd_bounded:
  assumes F: "fmt_ok F" and "\<bar>m\<bar> < 2 ^ prec F" "\<bar>n\<bar> < 2 ^ prec F" and "is_fin x" "is_fin y"
    and "of_int m \<le> val x + val y" and "val x + val y \<le> of_int n"
  shows "is_fin (fadd F x y) \<and> of_int m \<le> val (fadd F x y) \<and> val (fadd F x y) \<le> of_int n"
proof (cases "val x + val y = 0")
  case True
  then have "is_fin (fadd F x y) \<and> val (fadd F x y) = 0"
    using assms(4,5) by (cases x; cases y) (auto simp: zero_def)
  then show ?thesis using assms True by auto
next
  case False
  then show ?thesis using assms by (simp add: fadd_val mk_bounded)
qed

lemma val_fneg: "is_fin y \<Longrightarrow> is_fin (fneg y) \<and> val (fneg y) = - val y"
  by (cases y) auto

lemma fsub_bounded:
  assumes "fmt_ok F" and "\<bar>m\<bar> < 2 ^ prec F" "\<bar>n\<bar> < 2 ^ prec F" and "is_fin x" "is_fin y"
    and "of_int m \<le> val x - val y" and "val x - val y \<le> of_int n"
  shows "is_fin (fsub F x y) \<and> of_int m \<le> val (fsub F x y) \<and> val (fsub F x y) \<le> of_int n"
  unfolding fsub_def using assms val_fneg [of y] by (intro fadd_bounded) auto

lemma to_int_bounded:
  assumes "is_fin x" and "of_int m \<le> val x" and "val x \<le> of_int n" and "- (2 ^ 31) \<le> m" and "n < 2 ^ 31"
  shows "\<exists>i. to_int x = Some i \<and> m \<le> i \<and> i \<le> n"
proof -
  have "m \<le> trunc (val x)" "trunc (val x) \<le> n"
    using assms(2,3) by (auto simp: trunc_def le_floor_iff ceiling_le_iff; linarith)+
  then show ?thesis using assms(1,4,5) by (simp add: to_int_def)
qed

text \<open>Adding something non-negative does not go below a value of the format.\<close>

lemma fadd_nonneg_ge:
  assumes F: "fmt_ok F" and x: "in_fmt F x" "\<not> is_nan x" and y: "fle (Fin 0) y"
    and "x \<noteq> Inf True"
  shows "fle x (fadd F x y)"
proof (cases x; cases y)
  fix p q assume [simp]: "x = Fin p" "y = Fin q"
  have q: "0 \<le> q" using y by (simp add: fle_def)
  have "fle (mk F False p) (mk F False (p + q))" using F q by (intro mk_mono) simp_all
  moreover have "pos (mk F False p) = pos (Fin p)"
    using x(1) by (cases "p = 0") (simp_all add: mk_id zero_def)
  ultimately show ?thesis by (simp add: fle_def)
next
  fix p assume [simp]: "x = Fin p" "y = NegZero"
  have "pos (mk F False p) = pos (Fin p)"
    using x(1) by (cases "p = 0") (simp_all add: mk_id zero_def)
  then show ?thesis by (simp add: fle_def)
next
  fix q assume [simp]: "x = NegZero" "y = Fin q"
  have q: "0 \<le> q" using y by (simp add: fle_def)
  have "fle (mk F False 0) (mk F False q)" using F q by (intro mk_mono) simp_all
  then show ?thesis by (simp add: fle_def zero_def)
qed (use assms in \<open>auto simp: fle_def split: if_splits\<close>)

lemma fadd_nonneg:
  assumes F: "fmt_ok F" and x: "fle (Fin 0) x" and y: "fle (Fin 0) y"
  shows "fle (Fin 0) (fadd F x y)"
proof -
  have *: "fle (Fin 0) (mk F False q)" if "0 \<le> q" for q
    using mk_mono [OF F that, of False False] by (simp add: zero_def)
  show ?thesis
    using x y * by (cases x; cases y) (auto simp: fle_def split: if_splits)
qed

text \<open>A quotient of \<open>0 \<le> x \<le> y\<close>, \<open>y\<close> positive and finite, lies in the unit interval.\<close>

lemma fdiv_unit:
  assumes F: "fmt_ok F" and "fle (Fin 0) x" and "fle x y" and "is_fin y" and "0 < val y"
  shows "fle (Fin 0) (fdiv F x y) \<and> fle (fdiv F x y) (Fin 1)"
proof -
  have x: "is_fin x" using fle_between_fin [of "Fin 0" x y] assms by simp
  have q: "0 \<le> val x / val y" "val x / val y \<le> 1"
    using assms x by (simp_all add: fle_fin)
  have d: "fdiv F x y = mk F (sgnbit x \<noteq> sgnbit y) (val x / val y)"
    using assms x by (simp add: fdiv_def is_fin_not_nan)
  have "mk F False 1 = Fin 1"
    using small_below_max [OF F, of 1] F one_less_power [of "2::int" "prec F"]
    by (auto simp: mk_def fmt_ok_def)
  then have "fle (fdiv F x y) (Fin 1)"
    using mk_mono [OF F q(2), of "sgnbit x \<noteq> sgnbit y" False] by (simp only: d)
  moreover have "fle (Fin 0) (fdiv F x y)"
    using mk_mono [OF F q(1), of False] by (simp add: d zero_def)
  ultimately show ?thesis by blast
qed

text \<open>Bounds by integers of the format.\<close>

lemma fmul_bounded:
  assumes F: "fmt_ok F" and "\<bar>m\<bar> < 2 ^ prec F" "\<bar>n\<bar> < 2 ^ prec F" and "is_fin x" "is_fin y"
    and "of_int m \<le> val x * val y" and "val x * val y \<le> of_int n"
  shows "is_fin (fmul F x y) \<and> of_int m \<le> val (fmul F x y) \<and> val (fmul F x y) \<le> of_int n"
  using mk_bounded [OF assms(1-3,6,7)] assms(4,5) by (simp add: fmul_def Let_def is_fin_not_nan)

lemma fdiv_bounded:
  assumes F: "fmt_ok F" and "\<bar>m\<bar> < 2 ^ prec F" "\<bar>n\<bar> < 2 ^ prec F" and "is_fin x" "is_fin y" and "val y \<noteq> 0"
    and "of_int m \<le> val x / val y" and "val x / val y \<le> of_int n"
  shows "is_fin (fdiv F x y) \<and> of_int m \<le> val (fdiv F x y) \<and> val (fdiv F x y) \<le> of_int n"
  using mk_bounded [OF assms(1-3,7,8)] assms(4-6) by (simp add: fdiv_def Let_def is_fin_not_nan)

lemma cvt_bounded:
  assumes F: "fmt_ok F" and "\<bar>m\<bar> < 2 ^ prec F" "\<bar>n\<bar> < 2 ^ prec F" and "is_fin x"
    and "of_int m \<le> val x" and "val x \<le> of_int n"
  shows "is_fin (cvt F x) \<and> of_int m \<le> val (cvt F x) \<and> val (cvt F x) \<le> of_int n"
  using mk_bounded [OF assms(1-3,5,6), of False] assms(4-6) by (cases x) auto

lemma rha_bounded: "of_int m \<le> q \<Longrightarrow> q \<le> of_int n \<Longrightarrow> m \<le> rha q \<and> rha q \<le> n"
  unfolding rha_def by (auto simp: le_floor_iff floor_le_iff; linarith)

lemma rha_0: "rha 0 = 0"
proof -
  have "\<lfloor>1 / 2 :: rat\<rfloor> = 0" by (rule floor_unique) simp_all
  then show ?thesis by (simp add: rha_def)
qed

text \<open>Rounding loses less than half of a normal number, and adds less than one part in \<open>2 ^ (prec - 1)\<close>.\<close>

lemma rnd_half:
  assumes F: "fmt_ok F" and q: "2 powi emin F \<le> q"
  shows "q / 2 \<le> rnd F q"
proof -
  have pos: "0 < q" using q by (rule less_le_trans [OF powi2_pos])
  have log: "2 powi ilog2 q \<le> q" using ilog2_bounds [OF pos] by simp
  have "emin F \<le> ilog2 q"
  proof (rule ccontr)
    assume "\<not> emin F \<le> ilog2 q"
    then have "(2::rat) powi (ilog2 q + 1) \<le> 2 powi emin F" by (intro powi2_le) simp
    then show False using ilog2_bounds [OF pos] q by simp
  qed
  then have u: "ulp_exp F q = ilog2 q - int (prec F) + 1" using pos by (simp add: ulp_exp_def)
  let ?u = "ulp_exp F q"
  have "(2::rat) powi 1 \<le> 2 powi (ilog2 q - ?u)" using F by (intro powi2_le) (simp add: u fmt_ok_def)
  also have "\<dots> = 2 powi ilog2 q / 2 powi ?u" by (simp add: power_int_diff)
  also have "\<dots> \<le> q / 2 powi ?u" using log powi2_pos [of ?u] by (simp add: divide_right_mono less_imp_le)
  finally have two: "2 \<le> q / 2 powi ?u" by simp
  define z where "z = q / 2 powi ?u"
  have "of_int \<lfloor>z\<rfloor> \<le> (of_int (rhe z) :: rat)" using rhe_floor_ceiling(1) by simp
  moreover have "z < of_int \<lfloor>z\<rfloor> + 1" by linarith
  moreover have "2 \<le> z" using two by (simp add: z_def)
  ultimately have "z / 2 \<le> of_int (rhe z)" by linarith
  then have "z / 2 * 2 powi ?u \<le> of_int (rhe z) * 2 powi ?u"
    using powi2_pos [of ?u] by (intro mult_right_mono) (simp_all add: less_imp_le)
  moreover have "z * 2 powi ?u = q" by (simp add: z_def)
  ultimately have "q / 2 \<le> of_int (rhe z) * 2 powi ?u" by simp
  then show ?thesis using pos by (simp add: rnd_def Let_def z_def)
qed

lemma rnd_le:
  assumes "0 < q" and "2 powi (emin F) \<le> q"
  shows "rnd F q \<le> q + q * 2 powi (1 - int (prec F))"
proof -
  define u where "u = ulp_exp F q"
  have "emin F \<le> ilog2 q"
  proof (rule ccontr)
    assume "\<not> emin F \<le> ilog2 q"
    then have "q < 2 powi (emin F)"
      using ilog2_bounds(2) [OF assms(1)] powi2_le [of "ilog2 q + 1" "emin F"] by linarith
    then show False using assms(2) by simp
  qed
  then have u: "u = ilog2 q + (1 - int (prec F))" using assms(1) by (simp add: u_def ulp_exp_def)
  have pos: "0 < (2::rat) powi u" by simp
  have "rnd F q = of_int (rhe (q / 2 powi u)) * 2 powi u" using assms(1) by (simp add: rnd_def u_def Let_def)
  also have "\<dots> \<le> (q / 2 powi u + 1) * 2 powi u"
  proof (rule mult_right_mono)
    have "of_int (rhe (q / 2 powi u)) \<le> (of_int (\<lfloor>q / 2 powi u\<rfloor> + 1) :: rat)"
      using rhe_floor_ceiling(2) by (simp only: of_int_le_iff)
    also have "\<dots> \<le> q / 2 powi u + 1" by simp
    finally show "of_int (rhe (q / 2 powi u)) \<le> q / 2 powi u + 1" .
  qed simp
  also have "\<dots> = q + 2 powi u" using pos by (simp add: algebra_simps)
  also have "2 powi u = (2::rat) powi (ilog2 q) * 2 powi (1 - int (prec F))" by (simp add: u power_int_add)
  also have "\<dots> \<le> q * 2 powi (1 - int (prec F))"
    using ilog2_bounds(1) [OF assms(1)] by (intro mult_right_mono) simp_all
  finally show ?thesis by simp
qed

section \<open>Exact results\<close>

text \<open>A result that the format represents is computed exactly.\<close>

lemma mk_exact:
  assumes F: "fmt_ok F" and rep: "representable F q" and small: "\<bar>q\<bar> \<le> of_int n" "n < 2 ^ prec F"
  shows "is_fin (mk F s q) \<and> val (mk F s q) = q"
proof (cases "q = 0")
  case False
  have "0 \<le> \<bar>q\<bar>" by simp
  also note small(1)
  finally have "0 \<le> n" by simp
  then have "is_fin (mk F s q)"
    using mk_bounded [OF F, of "- n" n q s] small by auto
  moreover have "rnd F q = q" using rep by (rule rnd_representable)
  ultimately show ?thesis using False by (auto simp: mk_def Let_def split: if_splits)
qed simp

lemma fadd_exact:
  assumes "fmt_ok F" and "is_fin x" "is_fin y" and "representable F (val x + val y)"
    and "\<bar>val x + val y\<bar> \<le> of_int n" "n < 2 ^ prec F"
  shows "is_fin (fadd F x y) \<and> val (fadd F x y) = val x + val y"
proof (cases "val x + val y = 0")
  case True
  then show ?thesis using assms(2,3) by (cases x; cases y) (auto simp: zero_def)
next
  case False
  then show ?thesis using mk_exact [OF assms(1,4-6)] assms(2,3) by (simp add: fadd_val)
qed

lemma fsub_exact:
  assumes "fmt_ok F" and "is_fin x" "is_fin y" and "representable F (val x - val y)"
    and "\<bar>val x - val y\<bar> \<le> of_int n" "n < 2 ^ prec F"
  shows "is_fin (fsub F x y) \<and> val (fsub F x y) = val x - val y"
  unfolding fsub_def using fadd_exact [of F x "fneg y" n] assms val_fneg [of y] by simp

lemma fmul_exact:
  assumes "fmt_ok F" and "is_fin x" "is_fin y" and "representable F (val x * val y)"
    and "\<bar>val x * val y\<bar> \<le> of_int n" "n < 2 ^ prec F"
  shows "is_fin (fmul F x y) \<and> val (fmul F x y) = val x * val y"
  using mk_exact [OF assms(1,4-6)] assms(2,3) by (simp add: fmul_def Let_def is_fin_not_nan)

lemma fdiv_exact:
  assumes "fmt_ok F" and "is_fin x" "is_fin y" and "val y \<noteq> 0" and "representable F (val x / val y)"
    and "\<bar>val x / val y\<bar> \<le> of_int n" "n < 2 ^ prec F"
  shows "is_fin (fdiv F x y) \<and> val (fdiv F x y) = val x / val y"
  using mk_exact [OF assms(1,5-7)] assms(2-4) by (simp add: fdiv_def Let_def is_fin_not_nan)

text \<open>The representable values that occur are fractions with a power of two below.\<close>

lemma dyadic_b32:
  assumes "\<bar>k\<bar> < 2 ^ 24" and "j \<le> 100"
  shows "representable b32 (of_int k / 2 ^ j)"
proof -
  have "of_int k / 2 ^ j = of_int k * (2::rat) powi (- int j)"
    by (simp add: power_int_minus field_simps)
  moreover have "emin b32 - int (prec b32) + 1 \<le> - int j" using assms(2) by (simp add: b32_def)
  ultimately show ?thesis using assms(1) unfolding representable_def by (metis prec_b32)
qed

end
