(* ===== verification/Ext_Base.thy ===== *)
theory Ext_Base
  imports Ieee
begin

text \<open>
  The base class of every CPU extension layer (\<open>extension/ext_base.cpp\<close>,
  \<open>ext_base.hpp\<close>): the memory layouts a layer offers to the engine (\<open>addConfig\<close>), how it
  reports them (\<open>getSupportedConfigurations\<close>) and which ones it accepts (\<open>init\<close>).

  What belongs to the Inference Engine is not modelled but passed in: \<open>ie_lib\<close> holds the
  two constructors of a tensor description (from blocks and order, and for the layout
  \<open>ANY\<close>), and a \<open>cnn_layer\<close> carries the parameters and edges that the engine parsed. A
  constructor of a layer either throws (\<open>Inl\<close>) or yields its fields (\<open>Inr\<close>).
\<close>

section \<open>Status codes, exceptions, parameters\<close>

datatype status = OK | GENERAL_ERROR | NOT_IMPLEMENTED | OUT_OF_BOUNDS | NOT_FOUND

text \<open>
  \<open>THROW_IE_EXCEPTION << message\<close>; other exceptions are not caught by the layers.
  \<open>Undefined\<close> is not an exception but a null or expired pointer that is dereferenced.
\<close>

datatype exn = IeException string | StdException string | Undefined

definition deref :: "'a option \<Rightarrow> exn + 'a" where
  "deref p = (case p of None \<Rightarrow> Inl Undefined | Some x \<Rightarrow> Inr x)"

lemma deref_simps [simp]: "deref None = Inl Undefined" "deref (Some x) = Inr x"
  by (simp_all add: deref_def)

definition ebind :: "exn + 'a \<Rightarrow> ('a \<Rightarrow> exn + 'b) \<Rightarrow> exn + 'b" where
  "ebind m f = (case m of Inl e \<Rightarrow> Inl e | Inr x \<Rightarrow> f x)"

lemma ebind_simps [simp]: "ebind (Inl e) f = Inl e" "ebind (Inr x) f = f x"
  by (simp_all add: ebind_def)

lemma ebind_eq_Inr: "ebind m f = Inr y \<longleftrightarrow> (\<exists>x. m = Inr x \<and> f x = Inr y)"
  by (cases m) auto

definition throw_if :: "bool \<Rightarrow> string \<Rightarrow> exn + unit" where
  "throw_if b msg = (if b then Inl (IeException msg) else Inr ())"

lemma throw_if_simps [simp]:
  "throw_if True msg = Inl (IeException msg)" "throw_if False msg = Inr ()"
  by (simp_all add: throw_if_def)

lemma throw_if_eq_Inr [simp]: "throw_if b msg = Inr u \<longleftrightarrow> \<not> b"
  by (simp add: throw_if_def)

text \<open>A layer parameter as the engine reads it: missing, unparsable or given.\<close>

datatype 'a param = Absent | Malformed | Given 'a

definition get_param :: "'a param \<Rightarrow> exn + 'a" where
  "get_param p = (case p of Given v \<Rightarrow> Inr v | _ \<Rightarrow> Inl (IeException ''cannot get parameter''))"

definition get_param_def :: "'a param \<Rightarrow> 'a \<Rightarrow> exn + 'a" where
  "get_param_def p d = (case p of Given v \<Rightarrow> Inr v | Absent \<Rightarrow> Inr d
     | Malformed \<Rightarrow> Inl (IeException ''cannot parse parameter''))"

lemma get_param_simps [simp]:
  "get_param (Given v) = Inr v" "get_param Absent = Inl (IeException ''cannot get parameter'')"
  "get_param Malformed = Inl (IeException ''cannot get parameter'')"
  "get_param_def (Given v) d = Inr v" "get_param_def Absent d = Inr d"
  "get_param_def Malformed d = Inl (IeException ''cannot parse parameter'')"
  by (simp_all add: get_param_def get_param_def_def)

text \<open>
  A layer of the network: its edges (the dimensions of each tensor, \<open>None\<close> for a data
  pointer that is null or expired) and typed views of its parameters.
\<close>

record cnn_layer =
  ltype :: string
  insData :: "nat list option list"
  outData :: "nat list option list"
  p_int :: "string \<Rightarrow> int param"
  p_bool :: "string \<Rightarrow> bool param"
  p_float :: "string \<Rightarrow> ieee param"
  p_floats :: "string \<Rightarrow> ieee list param"
  p_str :: "string \<Rightarrow> string param"
  p_raw :: "string \<Rightarrow> string option"
  weights_blob :: "ieee list option"

text \<open>A tensor in memory: its dimensions and its elements.\<close>

record blob =
  dims :: "nat list"
  data :: "ieee list"

text \<open>The extent of a dimension that the tensor may lack.\<close>

definition dim_or_one :: "nat list \<Rightarrow> nat \<Rightarrow> nat" where
  "dim_or_one ds i = (if i < length ds then ds ! i else 1)"

text \<open>\<open>static_cast<size_t>\<close> of an \<open>int\<close>.\<close>

definition size_of_int :: "int \<Rightarrow> nat" where
  "size_of_int i = nat (i mod 2 ^ 64)"

section \<open>Layouts and configurations\<close>

datatype conf_layout = ANY | PLN | BLK8 | BLK16

record data_configurator =
  dc_layout :: conf_layout
  dc_constant :: bool
  dc_inplace :: int

text \<open>\<open>DataConfigurator(l)\<close> and \<open>DataConfigurator(l, constant, inplace = -1)\<close>.\<close>

definition conf1 :: "conf_layout \<Rightarrow> data_configurator" where
  "conf1 l = \<lparr>dc_layout = l, dc_constant = False, dc_inplace = -1\<rparr>"

definition conf3 :: "conf_layout \<Rightarrow> bool \<Rightarrow> int \<Rightarrow> data_configurator" where
  "conf3 l c i = \<lparr>dc_layout = l, dc_constant = c, dc_inplace = i\<rparr>"

record blocking =
  blocks :: "nat list"
  order :: "nat list"
  offset_padding :: nat
  offset_to_data :: "nat list"

record data_config =
  in_place :: int
  is_constant :: bool
  desc_dims :: "nat list"
  desc_blk :: blocking

record layer_config =
  inConfs :: "data_config list"
  outConfs :: "data_config list"
  dynBatchSupport :: bool

record ie_lib =
  mk_blocking :: "nat list \<Rightarrow> nat list \<Rightarrow> blocking"
  any_blocking :: "nat list \<Rightarrow> blocking"

definition fill_port ::
    "ie_lib \<Rightarrow> data_config list \<Rightarrow> data_configurator \<Rightarrow> nat list option \<Rightarrow> exn + data_config list" where
  "fill_port lib port conf dat =
     (case dat of
        None \<Rightarrow> Inl (IeException ''Cannot get input data!'')
      | Some data_dims \<Rightarrow>
          let blks = data_dims; ord = [0..<length blks] in
          if dc_layout conf = BLK8 \<or> dc_layout conf = BLK16 then
            (if length data_dims \<noteq> 4
             then Inl (IeException ''Inapplicable blocking layout.Tensor should be 4D.'')
             else
               let blk_size = (if dc_layout conf = BLK8 then 8 else 16);
                   ord' = ord @ [1];
                   blks' = blks[1 := blks ! 1 div blk_size] @ [blk_size]
               in Inr (port @ [\<lparr>in_place = dc_inplace conf, is_constant = dc_constant conf,
                    desc_dims = data_dims, desc_blk = mk_blocking lib blks' ord'\<rparr>]))
          else
            Inr (port @ [\<lparr>in_place = dc_inplace conf, is_constant = dc_constant conf,
                    desc_dims = data_dims,
                    desc_blk = (if dc_layout conf = ANY then any_blocking lib data_dims
                                else mk_blocking lib blks ord)\<rparr>]))"

primrec fill_ports ::
    "ie_lib \<Rightarrow> data_config list \<Rightarrow> (data_configurator \<times> nat list option) list
     \<Rightarrow> exn + data_config list" where
  "fill_ports lib port [] = Inr port"
| "fill_ports lib port (x # xs) =
     ebind (fill_port lib port (fst x) (snd x)) (\<lambda>port'. fill_ports lib port' xs)"

fun show_nat :: "nat \<Rightarrow> string" where
  "show_nat n = (if n < 10 then [char_of (48 + n)]
     else show_nat (n div 10) @ [char_of (48 + n mod 10)])"

declare show_nat.simps [simp del]

definition edge_msg :: "nat \<Rightarrow> nat \<Rightarrow> string" where
  "edge_msg expected given = ''Incorrect number of input edges. Expected '' @ show_nat expected
     @ '' but layout specification provided for '' @ show_nat given"

definition addConfig ::
    "ie_lib \<Rightarrow> cnn_layer \<Rightarrow> layer_config list \<Rightarrow> data_configurator list \<Rightarrow> data_configurator list
     \<Rightarrow> bool \<Rightarrow> exn + layer_config list" where
  "addConfig lib L confs in_l out_l dyn =
     ebind (throw_if (length in_l \<noteq> length (insData L))
              (edge_msg (length (insData L)) (length in_l))) (\<lambda>_.
     ebind (throw_if (length out_l \<noteq> length (outData L))
              (edge_msg (length (outData L)) (length out_l))) (\<lambda>_.
     ebind (fill_ports lib [] (zip in_l (insData L))) (\<lambda>ins.
     ebind (fill_ports lib [] (zip out_l (outData L))) (\<lambda>outs.
     Inr (confs @ [\<lparr>inConfs = ins, outConfs = outs, dynBatchSupport = dyn\<rparr>])))))"

section \<open>The layer object\<close>

record ext_layer =
  errorMsg :: string
  confs :: "layer_config list"

text \<open>
  The constructor of a layer catches the engine's exceptions and keeps their text; any
  other exception leaves the constructor, and so does a null dereference (\<open>None\<close>).
\<close>

definition construct :: "(exn + 'c \<times> layer_config list) \<Rightarrow> ('c option \<times> ext_layer) option" where
  "construct r = (case r of
      Inr (c, cs) \<Rightarrow> Some (Some c, \<lparr>errorMsg = [], confs = cs\<rparr>)
    | Inl (IeException m) \<Rightarrow> Some (None, \<lparr>errorMsg = m, confs = []\<rparr>)
    | Inl _ \<Rightarrow> None)"

text \<open>\<open>errorMsg.copy(resp->msg, sizeof(resp->msg) - 1)\<close>; no terminator is written.\<close>

definition copy_msg :: "string \<Rightarrow> string \<Rightarrow> string" where
  "copy_msg buf s = (let k = min (length buf - 1) (length s) in take k s @ drop k buf)"

definition getSupportedConfigurations ::
    "ext_layer \<Rightarrow> layer_config list \<Rightarrow> string option \<Rightarrow> status \<times> layer_config list \<times> string option" where
  "getSupportedConfigurations st conf resp =
     (if errorMsg st \<noteq> []
      then (GENERAL_ERROR, conf, map_option (\<lambda>buf. copy_msg buf (errorMsg st)) resp)
      else (OK, confs st, resp))"

definition port_ok :: "data_config \<Rightarrow> bool" where
  "port_ok p \<longleftrightarrow>
     \<not> list_ex (\<lambda>off. off \<noteq> 0) (offset_to_data (desc_blk p)) \<and>
     offset_padding (desc_blk p) = 0 \<and>
     list_all (\<lambda>i. order (desc_blk p) ! i = i) [0..<length (order (desc_blk p))]"

definition init :: "layer_config \<Rightarrow> status" where
  "init config =
     (if list_all port_ok (inConfs config) \<and> list_all port_ok (outConfs config)
      then OK else GENERAL_ERROR)"

section \<open>What the layouts promise\<close>

text \<open>
  The documented behaviour of the description built from blocks and an order: it holds
  them, and no padding.
\<close>

definition plain_lib :: "ie_lib \<Rightarrow> bool" where
  "plain_lib lib \<longleftrightarrow> (\<forall>b ord. order (mk_blocking lib b ord) = ord \<and> blocks (mk_blocking lib b ord) = b
     \<and> offset_padding (mk_blocking lib b ord) = 0
     \<and> (\<forall>x \<in> set (offset_to_data (mk_blocking lib b ord)). x = 0))"

definition ref_lib :: ie_lib where
  "ref_lib = \<lparr>mk_blocking = (\<lambda>b ord. \<lparr>blocks = b, order = ord, offset_padding = 0,
                 offset_to_data = replicate (length b) 0\<rparr>),
              any_blocking = (\<lambda>d. \<lparr>blocks = d, order = [], offset_padding = 0, offset_to_data = []\<rparr>)\<rparr>"

lemma plain_ref_lib: "plain_lib ref_lib"
  by (simp add: plain_lib_def ref_lib_def)

lemma fill_ports_app:
  "fill_ports lib port xs = Inr port' \<Longrightarrow>
   \<exists>zs. port' = port @ zs \<and> length zs = length xs"
proof (induction xs arbitrary: port)
  case Nil
  then show ?case by simp
next
  case (Cons x xs)
  then obtain p1 where p1: "fill_port lib port (fst x) (snd x) = Inr p1"
    and "fill_ports lib p1 xs = Inr port'"
    by (auto simp: ebind_eq_Inr)
  moreover have "\<exists>z. p1 = port @ [z]"
    using p1 by (auto simp: fill_port_def Let_def split: option.splits if_splits)
  ultimately show ?case using Cons.IH [of p1] by auto
qed

text \<open>A port made for layout \<open>PLN\<close> is accepted by \<open>init\<close>, a blocked one never is.\<close>

definition no_blk :: "data_configurator \<times> nat list option \<Rightarrow> bool" where
  "no_blk x \<longleftrightarrow> dc_layout (fst x) = PLN"

definition is_blk :: "data_configurator \<times> nat list option \<Rightarrow> bool" where
  "is_blk x \<longleftrightarrow> dc_layout (fst x) = BLK8 \<or> dc_layout (fst x) = BLK16"

lemma fill_port_pln:
  assumes "plain_lib lib" and "dc_layout conf = PLN" and "list_all port_ok port"
    and "fill_port lib port conf dat = Inr port'"
  shows "list_all port_ok port'"
  using assms
  by (auto simp: fill_port_def Let_def plain_lib_def port_ok_def list_ex_iff list_all_iff
      split: option.splits)

lemma fill_ports_pln:
  "plain_lib lib \<Longrightarrow> list_all no_blk xs \<Longrightarrow> list_all port_ok port \<Longrightarrow>
   fill_ports lib port xs = Inr port' \<Longrightarrow> list_all port_ok port'"
proof (induction xs arbitrary: port)
  case Nil
  then show ?case by simp
next
  case (Cons x xs)
  then obtain p1 where "fill_port lib port (fst x) (snd x) = Inr p1"
    and "fill_ports lib p1 xs = Inr port'"
    by (auto simp: ebind_eq_Inr)
  then show ?case
    using Cons.prems Cons.IH [of p1] fill_port_pln [of lib "fst x" port "snd x" p1]
    by (auto simp: no_blk_def)
qed

lemma fill_port_blk:
  assumes "plain_lib lib" and "is_blk (conf, dat)" and "fill_port lib port conf dat = Inr port'"
  shows "\<not> list_all port_ok port'"
proof -
  obtain d where d: "dat = Some d" "length d = 4"
    using assms(2,3) by (auto simp: fill_port_def is_blk_def Let_def split: option.splits if_splits)
  define bs where "bs = (if dc_layout conf = BLK8 then 8 else 16 :: nat)"
  define p where "p = \<lparr>in_place = dc_inplace conf, is_constant = dc_constant conf, desc_dims = d,
    desc_blk = mk_blocking lib (d[1 := d ! 1 div bs] @ [bs]) ([0..<length d] @ [1])\<rparr>"
  have "port' = port @ [p]"
    using assms(2,3) d by (auto simp: fill_port_def is_blk_def Let_def p_def bs_def)
  moreover have "order (desc_blk p) = [0, 1, 2, 3, 1]"
    using assms(1) d by (simp add: p_def plain_lib_def upt_rec numeral_eq_Suc)
  then have "\<not> port_ok p"
    by (simp add: port_ok_def list_all_iff)
  ultimately show ?thesis by simp
qed

lemma fill_port_keeps: "fill_port lib port conf dat = Inr port' \<Longrightarrow> \<exists>z. port' = port @ [z]"
  by (auto simp: fill_port_def Let_def split: option.splits if_splits)

lemma fill_ports_blk:
  "plain_lib lib \<Longrightarrow> list_ex is_blk xs \<or> \<not> list_all port_ok port \<Longrightarrow>
   fill_ports lib port xs = Inr port' \<Longrightarrow> \<not> list_all port_ok port'"
proof (induction xs arbitrary: port)
  case Nil
  then show ?case by simp
next
  case (Cons x xs)
  then obtain p1 where p1: "fill_port lib port (fst x) (snd x) = Inr p1"
    and rest: "fill_ports lib p1 xs = Inr port'"
    by (auto simp: ebind_eq_Inr)
  have "list_ex is_blk xs \<or> \<not> list_all port_ok p1"
  proof (cases "is_blk x")
    case True
    then have "is_blk (fst x, snd x)" by simp
    then show ?thesis using fill_port_blk Cons.prems(1) p1 by blast
  next
    case False
    then show ?thesis using Cons.prems(2) fill_port_keeps [OF p1] by auto
  qed
  then show ?case using Cons.prems(1) rest Cons.IH by blast
qed

text \<open>
  Number of elements of a blocked description: the channel count is divided and rounded
  down, so the blocks hold the tensor only when the block size divides it.
\<close>

lemma blocked_volume:
  fixes d :: "nat list" and bs :: nat
  assumes "length d = 4"
  shows "prod_list (d[1 := d ! 1 div bs] @ [bs]) = d ! 0 * (d ! 1 div bs * bs) * d ! 2 * d ! 3"
proof -
  obtain a b c e where "d = [a, b, c, e]"
    using assms by (auto simp: numeral_eq_Suc length_Suc_conv)
  then show ?thesis by (simp add: ac_simps)
qed

section \<open>Which configurations are accepted\<close>

lemma addConfig_Inr:
  "addConfig lib L cs in_l out_l dyn = Inr cs' \<Longrightarrow> \<exists>ins outs.
     cs' = cs @ [\<lparr>inConfs = ins, outConfs = outs, dynBatchSupport = dyn\<rparr>] \<and>
     length in_l = length (insData L) \<and> length out_l = length (outData L) \<and>
     fill_ports lib [] (zip in_l (insData L)) = Inr ins \<and>
     fill_ports lib [] (zip out_l (outData L)) = Inr outs"
  by (auto simp: addConfig_def ebind_eq_Inr)

text \<open>
  A configuration that a layer offers with planar layouts only is one that \<open>init\<close> later
  accepts, and one with a port per edge: \<open>addConfig\<close> and \<open>init\<close> agree on planar layers.
\<close>

theorem planar_config_accepted:
  assumes "plain_lib lib" and "\<forall>d \<in> set in_l. dc_layout d = PLN" and "\<forall>d \<in> set out_l. dc_layout d = PLN"
    and "addConfig lib L cs in_l out_l dyn = Inr cs'"
  shows "\<exists>config. cs' = cs @ [config] \<and> init config = OK \<and>
    length (inConfs config) = length (insData L) \<and> length (outConfs config) = length (outData L)"
proof -
  obtain ins outs where c: "cs' = cs @ [\<lparr>inConfs = ins, outConfs = outs, dynBatchSupport = dyn\<rparr>]"
    and len: "length in_l = length (insData L)" "length out_l = length (outData L)"
    and ins: "fill_ports lib [] (zip in_l (insData L)) = Inr ins"
    and outs: "fill_ports lib [] (zip out_l (outData L)) = Inr outs"
    using addConfig_Inr [OF assms(4)] by blast
  have "list_all no_blk (zip in_l (insData L))" "list_all no_blk (zip out_l (outData L))"
    using assms(2,3) by (auto simp: list_all_iff no_blk_def dest: set_zip_leftD)
  then have "list_all port_ok ins" "list_all port_ok outs"
    using fill_ports_pln [OF assms(1) _ _ ins] fill_ports_pln [OF assms(1) _ _ outs] by simp_all
  moreover have "length ins = length in_l" "length outs = length out_l"
    using fill_ports_app [OF ins] fill_ports_app [OF outs] len by auto
  ultimately show ?thesis using len by (simp add: c init_def)
qed

text \<open>
  A configuration with a channel-blocked layout on any input or output, as the layer
  itself offers it, is one that \<open>init\<close> always rejects: the fifth entry of its order is \<open>1\<close>
  where the check demands the identity order. No blocked layer can be initialised.
\<close>

theorem blocked_config_rejected:
  assumes "plain_lib lib" and "addConfig lib L cs in_l out_l dyn = Inr cs'"
    and "\<exists>d \<in> set in_l \<union> set out_l. dc_layout d = BLK8 \<or> dc_layout d = BLK16"
  shows "\<exists>config. cs' = cs @ [config] \<and> init config = GENERAL_ERROR"
proof -
  obtain ins outs where c: "cs' = cs @ [\<lparr>inConfs = ins, outConfs = outs, dynBatchSupport = dyn\<rparr>]"
    and len: "length in_l = length (insData L)" "length out_l = length (outData L)"
    and ins: "fill_ports lib [] (zip in_l (insData L)) = Inr ins"
    and outs: "fill_ports lib [] (zip out_l (outData L)) = Inr outs"
    using addConfig_Inr [OF assms(2)] by blast
  have zip: "list_ex is_blk (zip ds ps)"
    if "length ds = length ps" "d \<in> set ds" "dc_layout d = BLK8 \<or> dc_layout d = BLK16"
    for d and ds :: "data_configurator list" and ps :: "nat list option list"
    using that by (auto simp: list_ex_iff is_blk_def set_zip in_set_conv_nth)
  have "\<not> list_all port_ok ins \<or> \<not> list_all port_ok outs"
    using assms(3) zip [OF len(1)] zip [OF len(2)]
      fill_ports_blk [OF assms(1) _ ins] fill_ports_blk [OF assms(1) _ outs] by blast
  then show ?thesis by (auto simp: c init_def)
qed

text \<open>A layer with one edge in and one out, both of shape 1x16x2x2.\<close>

definition one_edge :: cnn_layer where
  "one_edge = \<lparr>ltype = ''PReLU'', insData = [Some [1, 16, 2, 2]], outData = [Some [1, 16, 2, 2]],
     p_int = (\<lambda>_. Absent), p_bool = (\<lambda>_. Absent), p_float = (\<lambda>_. Absent), p_floats = (\<lambda>_. Absent),
     p_str = (\<lambda>_. Absent), p_raw = (\<lambda>_. None), weights_blob = None\<rparr>"

theorem planar_config_accepted_witness:
  "\<exists>cs config. addConfig ref_lib one_edge [] [conf1 PLN] [conf1 PLN] False = Inr cs \<and>
     cs = [config] \<and> init config = OK"
proof -
  obtain cs where cs: "addConfig ref_lib one_edge [] [conf1 PLN] [conf1 PLN] False = Inr cs"
    by (simp add: addConfig_def one_edge_def fill_port_def conf1_def Let_def)
  then show ?thesis
    using planar_config_accepted [OF plain_ref_lib _ _ cs] by (auto simp: conf1_def)
qed

theorem blocked_config_rejected_witness:
  "\<exists>cs config. addConfig ref_lib one_edge [] [conf1 BLK8] [conf1 BLK8] False = Inr cs \<and>
     cs = [config] \<and> init config = GENERAL_ERROR"
proof -
  obtain cs where cs: "addConfig ref_lib one_edge [] [conf1 BLK8] [conf1 BLK8] False = Inr cs"
    by (simp add: addConfig_def one_edge_def fill_port_def conf1_def Let_def)
  then show ?thesis
    using blocked_config_rejected [OF plain_ref_lib cs] by (auto simp: conf1_def)
qed

end
