(* ===== verification/Std_Sort.thy ===== *)
theory Std_Sort
  imports Prelude
begin

text \<open>
  The sorting routines of the C++ standard library that the layers call: \<open>std::sort\<close>,
  \<open>std::partial_sort\<close> and \<open>std::partial_sort_copy\<close>. They require a comparator that is a
  strict weak order on the elements at hand, which is the locale \<open>swo_on\<close>; every comparator
  of the code is shown to be one (outside NaN) in the theory of its layer.

  Where the comparator decides every pair, the result is unique and the model uses the
  insertion sort \<open>sort_by\<close>. Where ties are possible the library leaves their order open; the
  model takes the routine as a parameter and \<open>partial_sorted\<close> is its contract.
\<close>

section \<open>Comparators\<close>

locale swo_on =
  fixes A :: "'a set" and lt :: "'a \<Rightarrow> 'a \<Rightarrow> bool"
  assumes irrefl: "x \<in> A \<Longrightarrow> \<not> lt x x"
    and trans: "x \<in> A \<Longrightarrow> y \<in> A \<Longrightarrow> z \<in> A \<Longrightarrow> lt x y \<Longrightarrow> lt y z \<Longrightarrow> lt x z"
    and incomp_trans: "x \<in> A \<Longrightarrow> y \<in> A \<Longrightarrow> z \<in> A \<Longrightarrow> \<not> lt x y \<Longrightarrow> \<not> lt y z \<Longrightarrow> \<not> lt x z"
begin

lemma asym: "x \<in> A \<Longrightarrow> y \<in> A \<Longrightarrow> lt x y \<Longrightarrow> \<not> lt y x"
  using irrefl trans by blast

end

text \<open>A comparator that orders any two distinct elements: the sorted order is unique.\<close>

locale strict_total_on = swo_on +
  assumes total: "x \<in> A \<Longrightarrow> y \<in> A \<Longrightarrow> x \<noteq> y \<Longrightarrow> lt x y \<or> lt y x"

text \<open>For such a comparator two of the laws suffice.\<close>

lemma strict_total_onI:
  assumes irr: "\<And>x. x \<in> A \<Longrightarrow> \<not> lt x x"
    and tr: "\<And>x y z. x \<in> A \<Longrightarrow> y \<in> A \<Longrightarrow> z \<in> A \<Longrightarrow> lt x y \<Longrightarrow> lt y z \<Longrightarrow> lt x z"
    and tot: "\<And>x y. x \<in> A \<Longrightarrow> y \<in> A \<Longrightarrow> x \<noteq> y \<Longrightarrow> lt x y \<or> lt y x"
  shows "strict_total_on A lt"
proof
  fix x y z assume *: "x \<in> A" "y \<in> A" "z \<in> A" "\<not> lt x y" "\<not> lt y z"
  show "\<not> lt x z"
  proof
    assume xz: "lt x z"
    show False
    proof (cases "x = y \<or> y = z")
      case True
      then show False using * xz by auto
    next
      case False
      then have "lt y x" "lt z y" using * tot by blast+
      then have "lt z x" using * tr by blast
      then show False using * xz tr irr by blast
    qed
  qed
qed (use assms in blast)+

section \<open>Insertion sort by a comparator\<close>

primrec insert_by :: "('a \<Rightarrow> 'a \<Rightarrow> bool) \<Rightarrow> 'a \<Rightarrow> 'a list \<Rightarrow> 'a list" where
  "insert_by lt x [] = [x]"
| "insert_by lt x (y # ys) = (if lt y x then y # insert_by lt x ys else x # y # ys)"

primrec sort_by :: "('a \<Rightarrow> 'a \<Rightarrow> bool) \<Rightarrow> 'a list \<Rightarrow> 'a list" where
  "sort_by lt [] = []"
| "sort_by lt (x # xs) = insert_by lt x (sort_by lt xs)"

lemma mset_insert_by [simp]: "mset (insert_by lt x xs) = add_mset x (mset xs)"
  by (induction xs) auto

lemma mset_sort_by [simp]: "mset (sort_by lt xs) = mset xs"
  by (induction xs) auto

lemma set_sort_by [simp]: "set (sort_by lt xs) = set xs"
  by (rule mset_eq_setD) simp

lemma length_sort_by [simp]: "length (sort_by lt xs) = length xs"
  by (rule mset_eq_length) simp

lemma distinct_sort_by [simp]: "distinct (sort_by lt xs) = distinct xs"
  by (rule mset_eq_imp_distinct_iff) simp

definition sorted_by :: "('a \<Rightarrow> 'a \<Rightarrow> bool) \<Rightarrow> 'a list \<Rightarrow> bool" where
  "sorted_by lt xs = sorted_wrt (\<lambda>x y. \<not> lt y x) xs"

lemma set_insert_by [simp]: "set (insert_by lt x xs) = insert x (set xs)"
  by (induction xs) auto

context swo_on
begin

lemma sorted_insert_by:
  "sorted_by lt xs \<Longrightarrow> set xs \<subseteq> A \<Longrightarrow> x \<in> A \<Longrightarrow> sorted_by lt (insert_by lt x xs)"
proof (induction xs)
  case Nil
  then show ?case by (simp add: sorted_by_def)
next
  case (Cons y ys)
  show ?case
  proof (cases "lt y x")
    case True
    then have "\<not> lt x y" using Cons.prems asym by auto
    with True Cons show ?thesis by (auto simp: sorted_by_def)
  next
    case False
    have "\<not> lt z x" if "z \<in> set ys" for z
      using that False Cons.prems incomp_trans [of z y x] by (auto simp: sorted_by_def)
    with False Cons.prems show ?thesis by (auto simp: sorted_by_def)
  qed
qed

lemma sorted_sort_by: "set xs \<subseteq> A \<Longrightarrow> sorted_by lt (sort_by lt xs)"
proof (induction xs)
  case Nil
  then show ?case by (simp add: sorted_by_def)
next
  case (Cons x xs)
  then show ?case by (simp add: sorted_insert_by)
qed

end

context strict_total_on
begin

text \<open>Any sorted rearrangement of distinct elements is the one computed here.\<close>

lemma sorted_unique:
  "sorted_by lt xs \<Longrightarrow> sorted_by lt ys \<Longrightarrow> mset xs = mset ys \<Longrightarrow> set xs \<subseteq> A \<Longrightarrow> xs = ys"
proof (induction xs arbitrary: ys)
  case Nil
  then show ?case by simp
next
  case (Cons x xs)
  then obtain y ys' where ys: "ys = y # ys'" by (cases ys) auto
  have set: "set ys = set (x # xs)" using Cons.prems(3) by (metis mset_eq_setD)
  have "x = y"
  proof (rule ccontr)
    assume "x \<noteq> y"
    then have "x \<in> set ys'" "y \<in> set xs" using set ys by auto
    then have "\<not> lt x y" "\<not> lt y x" using Cons.prems(1,2) ys by (auto simp: sorted_by_def)
    moreover have "x \<in> A" "y \<in> A" using Cons.prems(4) \<open>y \<in> set xs\<close> by auto
    ultimately show False using total \<open>x \<noteq> y\<close> by blast
  qed
  moreover have "xs = ys'"
    using Cons.prems ys \<open>x = y\<close> by (intro Cons.IH) (auto simp: sorted_by_def)
  ultimately show ?case using ys by simp
qed

lemma sort_by_unique:
  "sorted_by lt ys \<Longrightarrow> mset ys = mset xs \<Longrightarrow> set xs \<subseteq> A \<Longrightarrow> sort_by lt xs = ys"
  by (rule sorted_unique) (auto intro: sorted_sort_by)

end

section \<open>The contract of \<open>std::partial_sort\<close>\<close>

text \<open>
  \<open>partial_sort(first, first + k, last)\<close>: a rearrangement whose first \<open>k\<close> elements are
  sorted and not beaten by any later one. \<open>std::sort\<close> is the case \<open>k = length xs\<close>.
\<close>

definition partial_sorted :: "('a \<Rightarrow> 'a \<Rightarrow> bool) \<Rightarrow> nat \<Rightarrow> 'a list \<Rightarrow> 'a list \<Rightarrow> bool" where
  "partial_sorted lt k xs ys \<longleftrightarrow> mset ys = mset xs \<and> sorted_by lt (take k ys) \<and>
     (\<forall>x \<in> set (take k ys). \<forall>y \<in> set (drop k ys). \<not> lt y x)"

lemma partial_sorted_length: "partial_sorted lt k xs ys \<Longrightarrow> length ys = length xs"
  unfolding partial_sorted_def by (metis mset_eq_length)

lemma partial_sorted_set: "partial_sorted lt k xs ys \<Longrightarrow> set ys = set xs"
  unfolding partial_sorted_def by (metis mset_eq_setD)

lemma sorted_by_take: "sorted_by lt xs \<Longrightarrow> sorted_by lt (take k xs)"
  by (simp add: sorted_by_def sorted_wrt_take)

lemma sorted_by_partial_sorted:
  "sorted_by lt ys \<Longrightarrow> mset ys = mset xs \<Longrightarrow> partial_sorted lt k xs ys"
  unfolding partial_sorted_def sorted_by_def
  by (metis append_take_drop_id sorted_wrt_append)

context swo_on
begin

lemma sort_by_partial_sorted:
  "set xs \<subseteq> A \<Longrightarrow> partial_sorted lt k xs (sort_by lt xs)"
  by (intro sorted_by_partial_sorted sorted_sort_by) simp_all

end

end
