(* ===== verification/Greedy_Nms.thy ===== *)
theory Greedy_Nms
  imports Prelude "HOL-Library.Sublist"
begin

text \<open>
  The contract shared by the three non-maximum suppressions of the CPU extension library
  (detection output, proposal, simpler NMS): candidates are visited in order of score, and a
  candidate is kept when no candidate kept before suppresses it. The locale \<open>suppression\<close>
  states that contract by two laws; its lemmas are what a user of the detections relies on.
  Each layer interprets it on its own routine.
\<close>

section \<open>The abstract suppression\<close>

definition keep_step :: "('a \<Rightarrow> 'a \<Rightarrow> bool) \<Rightarrow> 'a list \<Rightarrow> 'a \<Rightarrow> 'a list" where
  "keep_step beats kept x = (if list_ex (\<lambda>y. beats y x) kept then kept else kept @ [x])"

lemma keep_step_simps:
  "list_ex (\<lambda>y. beats y x) kept \<Longrightarrow> keep_step beats kept x = kept"
  "\<not> list_ex (\<lambda>y. beats y x) kept \<Longrightarrow> keep_step beats kept x = kept @ [x]"
  by (simp_all add: keep_step_def)

definition greedy :: "('a \<Rightarrow> 'a \<Rightarrow> bool) \<Rightarrow> 'a list \<Rightarrow> 'a list" where
  "greedy beats xs = foldl (keep_step beats) [] xs"

text \<open>
  With a limit on the number of kept candidates, compared after each candidate is kept,
  as the code compares it: a limit of \<open>0\<close> is never reached.
\<close>

fun greedy_max :: "('a \<Rightarrow> 'a \<Rightarrow> bool) \<Rightarrow> nat \<Rightarrow> 'a list \<Rightarrow> 'a list \<Rightarrow> 'a list" where
  "greedy_max beats n kept [] = kept"
| "greedy_max beats n kept (x # xs) =
     (if list_ex (\<lambda>y. beats y x) kept then greedy_max beats n kept xs
      else if length kept + 1 = n then kept @ [x]
      else greedy_max beats n (kept @ [x]) xs)"

locale suppression =
  fixes D :: "'a set" and beats :: "'a \<Rightarrow> 'a \<Rightarrow> bool" and run :: "'a list \<Rightarrow> 'a list"
  assumes run_Nil: "run [] = []"
    and run_snoc: "set xs \<subseteq> D \<Longrightarrow> x \<in> D \<Longrightarrow> run (xs @ [x]) =
      (if \<exists>y \<in> set (run xs). beats y x then run xs else run xs @ [x])"
begin

text \<open>The laws determine the routine.\<close>

lemma run_unique: "set xs \<subseteq> D \<Longrightarrow> run xs = greedy beats xs"
  by (induction xs rule: rev_induct)
    (auto simp: run_Nil run_snoc greedy_def keep_step_def list_ex_iff)

lemma run_subseq: "set xs \<subseteq> D \<Longrightarrow> subseq (run xs) xs"
proof (induction xs rule: rev_induct)
  case Nil
  then show ?case by (simp add: run_Nil)
next
  case (snoc x xs)
  then show ?case
    by (auto simp: run_snoc intro: list_emb_append_mono subseq_order.trans [OF _ subseq_rev_drop_many])
qed

lemma run_subset: "set xs \<subseteq> D \<Longrightarrow> set (run xs) \<subseteq> set xs"
  by (induction xs rule: rev_induct) (auto simp: run_Nil run_snoc)

lemma run_length: "set xs \<subseteq> D \<Longrightarrow> length (run xs) \<le> length xs"
  using run_subseq by (rule list_emb_length)

text \<open>No kept candidate is suppressed by one kept before it.\<close>

lemma run_independent: "set xs \<subseteq> D \<Longrightarrow> sorted_wrt (\<lambda>y x. \<not> beats y x) (run xs)"
  by (induction xs rule: rev_induct) (auto simp: run_Nil run_snoc sorted_wrt_append)

lemma run_prefix: "set (xs @ ys) \<subseteq> D \<Longrightarrow> \<exists>zs. run (xs @ ys) = run xs @ zs"
proof (induction ys rule: rev_induct)
  case Nil
  then show ?case by simp
next
  case (snoc y ys)
  then obtain zs where zs: "run (xs @ ys) = run xs @ zs" by auto
  have "run ((xs @ ys) @ [y]) =
      (if \<exists>z \<in> set (run (xs @ ys)). beats z y then run (xs @ ys) else run (xs @ ys) @ [y])"
    using snoc.prems by (intro run_snoc) auto
  then show ?case using zs by (cases "\<exists>z \<in> set (run (xs @ ys)). beats z y") auto
qed

text \<open>A candidate that is not kept is suppressed by a kept candidate visited before it.\<close>

lemma run_maximal:
  assumes "set (xs @ x # ys) \<subseteq> D" and "x \<notin> set (run (xs @ x # ys))"
  shows "\<exists>y \<in> set (run xs). beats y x"
proof (rule ccontr)
  assume "\<not> ?thesis"
  then have "run (xs @ [x]) = run xs @ [x]" using assms(1) by (subst run_snoc) auto
  moreover obtain zs where "run ((xs @ [x]) @ ys) = run (xs @ [x]) @ zs"
    using run_prefix [of "xs @ [x]" ys] assms(1) by auto
  ultimately show False using assms(2) by simp
qed

lemma run_first:
  assumes "set xs \<subseteq> D" and "xs \<noteq> []"
  shows "run xs \<noteq> [] \<and> hd (run xs) = hd xs"
proof -
  obtain x ys where xs: "xs = [x] @ ys" using assms(2) by (cases xs) auto
  have "run ([] @ [x]) = [x]" using assms(1) xs by (subst run_snoc) (auto simp: run_Nil)
  then show ?thesis using run_prefix [of "[x]" ys] assms(1) xs by auto
qed

end

interpretation greedy: suppression UNIV beats "greedy beats" for beats :: "'a \<Rightarrow> 'a \<Rightarrow> bool"
  by unfold_locales (auto simp: greedy_def keep_step_def list_ex_iff)

text \<open>Suppressing positions of a list is suppressing its elements.\<close>

lemma greedy_map: "greedy beats (map f xs) = map f (greedy (\<lambda>i j. beats (f i) (f j)) xs)"
  by (induction xs rule: rev_induct) (auto simp: greedy_def keep_step_def list_ex_iff)

lemma greedy_snoc: "greedy beats (xs @ [x]) = keep_step beats (greedy beats xs) x"
  by (simp add: greedy_def)

lemma greedy_subset: "set (greedy beats xs) \<subseteq> set xs"
  by (rule greedy.run_subset) simp

lemma length_greedy: "length (greedy beats xs) \<le> length xs"
  by (rule greedy.run_length) simp

lemma greedy_append: "\<exists>zs. greedy beats (xs @ ys) = greedy beats xs @ zs"
  by (rule greedy.run_prefix) simp

section \<open>The limited suppression is a prefix of the unlimited one\<close>

lemma foldl_keep_prefix: "\<exists>zs. foldl (keep_step beats) kept xs = kept @ zs"
proof (induction xs arbitrary: kept)
  case Nil
  then show ?case by simp
next
  case (Cons x xs)
  obtain zs where "foldl (keep_step beats) (keep_step beats kept x) xs = keep_step beats kept x @ zs"
    using Cons by blast
  then show ?case
    by (cases "list_ex (\<lambda>y. beats y x) kept") (auto simp: keep_step_simps)
qed

lemma greedy_max_take:
  "length kept < n \<Longrightarrow> greedy_max beats n kept xs = take n (foldl (keep_step beats) kept xs)"
proof (induction xs arbitrary: kept)
  case Nil
  then show ?case by simp
next
  case (Cons x xs)
  obtain zs where zs: "foldl (keep_step beats) (kept @ [x]) xs = (kept @ [x]) @ zs"
    using foldl_keep_prefix by blast
  show ?case
  proof (cases "length kept + 1 = n")
    case True
    then show ?thesis
      using zs Cons by (cases "list_ex (\<lambda>y. beats y x) kept") (auto simp: keep_step_simps)
  next
    case False
    then show ?thesis
      using Cons by (cases "list_ex (\<lambda>y. beats y x) kept") (auto simp: keep_step_simps)
  qed
qed

lemma greedy_max_unlimited: "greedy_max beats 0 kept xs = foldl (keep_step beats) kept xs"
proof (induction xs arbitrary: kept)
  case (Cons x xs)
  then show ?case
    by (cases "list_ex (\<lambda>y. beats y x) kept") (auto simp: keep_step_simps)
qed simp

lemma greedy_max_eq:
  "greedy_max beats n [] xs = (if n = 0 then greedy beats xs else take n (greedy beats xs))"
  using greedy_max_take [of "[]" n beats xs] greedy_max_unlimited [of beats "[]" xs]
  by (simp add: greedy_def)

lemma greedy_max_length: "0 < n \<Longrightarrow> length (greedy_max beats n [] xs) \<le> n"
  by (simp add: greedy_max_eq)

end
