(* ===== verification/Detection_Output.thy ===== *)
theory Detection_Output
  imports Ext_Base Std_Sort Greedy_Nms "HOL-Library.Word"
begin

text \<open>
  The \<open>DetectionOutput\<close> layer (\<open>extension/ext_detectionoutput.cpp\<close>): decoding of the prior
  boxes, per-class non-maximum suppression, the cut to the best \<open>keep_top_k\<close> detections of
  an image and the output in rows of seven floats.

  Blobs are lists and a pointer into a blob is a list and an offset. \<open>expf\<close> stands for
  \<open>std::exp(float)\<close>, whose accuracy the C++ standard leaves open. \<open>srt\<close> stands for
  \<open>std::sort\<close> by score, which leaves the order of equal scores open. Index arithmetic is on
  mathematical integers; the byte size of the output, where wrap-around decides the result,
  is on 64-bit words.
\<close>

section \<open>Configuration and working memory\<close>

datatype code_type = CORNER | CENTER_SIZE

record det_cfg =
  num_classes :: int
  background_label_id :: int
  top_k :: int
  variance_encoded :: bool
  keep_top_k :: int
  nms_threshold :: ieee
  confidence_threshold :: ieee
  share_location :: bool
  normalized :: bool
  image_height :: int
  image_width :: int
  prior_size :: int
  offset :: int
  num_loc_classes :: int
  code_ty :: code_type
  num_priors :: int
  num_images :: int

record det_mem =
  decoded_bboxes :: "ieee list"
  sort_buffer :: "nat list"
  indices :: "nat list"
  detections_count :: "nat list"
  reordered_conf :: "ieee list"
  bbox_sizes :: "ieee list"
  num_priors_actual :: "nat list"

text \<open>\<open>-FLT_MAX\<close>.\<close>

definition minus_flt_max :: ieee where
  "minus_flt_max = Fin (- ((2 - 1 / 2 ^ 23) * 2 ^ 127))"

definition cfg_of_params :: "cnn_layer \<Rightarrow> exn + det_cfg" where
  "cfg_of_params L =
     ebind (throw_if (length (insData L) \<noteq> 3) ''Incorrect number of input edges.'') (\<lambda>_.
     ebind (throw_if (outData L = []) ''Incorrect number of output edges.'') (\<lambda>_.
     ebind (get_param (p_int L ''num_classes'')) (\<lambda>nc.
     ebind (get_param_def (p_int L ''background_label_id'') 0) (\<lambda>bg.
     ebind (get_param_def (p_int L ''top_k'') (-1)) (\<lambda>tk.
     ebind (get_param_def (p_bool L ''variance_encoded_in_target'') False) (\<lambda>ve.
     ebind (get_param_def (p_int L ''keep_top_k'') (-1)) (\<lambda>ktk.
     ebind (get_param (p_float L ''nms_threshold'')) (\<lambda>nt.
     ebind (get_param_def (p_float L ''confidence_threshold'') minus_flt_max) (\<lambda>ct.
     ebind (get_param_def (p_bool L ''share_location'') True) (\<lambda>sl.
     ebind (get_param_def (p_bool L ''normalized'') True) (\<lambda>nm.
     ebind (get_param_def (p_int L ''input_height'') 1) (\<lambda>ih.
     ebind (get_param_def (p_int L ''input_width'') 1) (\<lambda>iw.
     ebind (get_param_def (p_str L ''code_type'') ''caffe.PriorBoxParameter.CORNER'') (\<lambda>cts.
     Inr \<lparr>num_classes = nc, background_label_id = bg, top_k = tk, variance_encoded = ve,
       keep_top_k = ktk, nms_threshold = nt, confidence_threshold = ct, share_location = sl,
       normalized = nm, image_height = ih, image_width = iw,
       prior_size = (if nm then 4 else 5), offset = (if nm then 0 else 1),
       num_loc_classes = (if sl then 1 else nc),
       code_ty = (if cts = ''caffe.PriorBoxParameter.CENTER_SIZE'' then CENTER_SIZE else CORNER),
       num_priors = 0, num_images = 0\<rparr>))))))))))))))"

text \<open>
  The constructor. \<open>Data::dims\<close> lists the dimensions innermost first, so its element \<open>0\<close>
  is the last one of \<open>getDims()\<close>. A freshly allocated blob has unspecified elements: they
  are the arguments \<open>g\<close> and \<open>gi\<close>.
\<close>

definition alloc_mem :: "det_cfg \<Rightarrow> nat \<Rightarrow> ieee \<Rightarrow> nat \<Rightarrow> det_mem" where
  "alloc_mem c conf_volume g gi =
     (let n = nat (num_images c); nc = nat (num_classes c); np = nat (num_priors c) in
      \<lparr>decoded_bboxes = replicate (n * nc * np * 4) g,
       sort_buffer = replicate (n * nc * np) gi,
       indices = replicate (n * nc * np) gi,
       detections_count = replicate (nat (num_images c * num_classes c)) gi,
       reordered_conf = replicate conf_volume g,
       bbox_sizes = replicate (n * np * nc) g,
       num_priors_actual = replicate n gi\<rparr>)"

definition det_ctor ::
    "ie_lib \<Rightarrow> cnn_layer \<Rightarrow> ieee \<Rightarrow> nat \<Rightarrow> exn + (det_cfg \<times> det_mem) \<times> layer_config list" where
  "det_ctor lib L g gi =
     ebind (cfg_of_params L) (\<lambda>c0.
     ebind (deref (insData L ! 2)) (\<lambda>pd.
     if pd = [] then Inl Undefined else
     let np = int (last pd) div prior_size c0 in
     ebind (deref (insData L ! 0)) (\<lambda>ld.
     if ld = [] then Inl Undefined else
     ebind (throw_if (np * num_loc_classes c0 * 4 \<noteq> int (last ld))
       ''Number of priors must match number of location predictions.'') (\<lambda>_.
     ebind (deref (insData L ! 1)) (\<lambda>cd.
     if cd = [] then Inl Undefined else
     ebind (throw_if (np * num_classes c0 \<noteq> int (last cd))
       ''Number of priors must match number of confidence predictions.'') (\<lambda>_.
     let c = c0\<lparr>num_priors := np, num_images := int (hd cd)\<rparr> in
     if num_classes c < 0 then Inl (StdException ''std::bad_alloc'') else
     ebind (addConfig lib L [] [conf1 PLN, conf1 PLN, conf1 PLN] [conf1 PLN] False) (\<lambda>cs.
     Inr ((c, alloc_mem c (prod_list cd) g gi), cs))))))))"

section \<open>Overlap of two boxes\<close>

text \<open>The intersection area, or \<^const>\<open>None\<close> where the code returns \<open>0\<close> early.\<close>

definition intersection ::
    "ieee \<Rightarrow> ieee \<Rightarrow> ieee \<Rightarrow> ieee \<Rightarrow> ieee \<Rightarrow> ieee \<Rightarrow> ieee \<Rightarrow> ieee \<Rightarrow> ieee option" where
  "intersection xmin1 ymin1 xmax1 ymax1 xmin2 ymin2 xmax2 ymax2 =
     (if flt xmax1 xmin2 \<or> flt xmax2 xmin1 \<or> flt ymax1 ymin2 \<or> flt ymax2 ymin1 then None
      else
        let ixmin = cmax xmin1 xmin2; iymin = cmax ymin1 ymin2;
            ixmax = cmin xmax1 xmax2; iymax = cmin ymax1 ymax2;
            iw = subf ixmax ixmin; ih = subf iymax iymin
        in if fle iw (Fin 0) \<or> fle ih (Fin 0) then None else Some (mulf iw ih))"

definition JaccardOverlap ::
    "ieee list \<Rightarrow> nat \<Rightarrow> ieee list \<Rightarrow> nat \<Rightarrow> nat \<Rightarrow> nat \<Rightarrow> ieee option" where
  "JaccardOverlap boxes bo sizes so idx1 idx2 = do {
     xmin1 \<leftarrow> rd boxes (bo + idx1 * 4 + 0);
     ymin1 \<leftarrow> rd boxes (bo + idx1 * 4 + 1);
     xmax1 \<leftarrow> rd boxes (bo + idx1 * 4 + 2);
     ymax1 \<leftarrow> rd boxes (bo + idx1 * 4 + 3);
     xmin2 \<leftarrow> rd boxes (bo + idx2 * 4 + 0);
     ymin2 \<leftarrow> rd boxes (bo + idx2 * 4 + 1);
     ymax2 \<leftarrow> rd boxes (bo + idx2 * 4 + 3);
     xmax2 \<leftarrow> rd boxes (bo + idx2 * 4 + 2);
     (case intersection xmin1 ymin1 xmax1 ymax1 xmin2 ymin2 xmax2 ymax2 of
        None \<Rightarrow> Some (Fin 0)
      | Some isize \<Rightarrow> do {
          size1 \<leftarrow> rd sizes (so + idx1);
          size2 \<leftarrow> rd sizes (so + idx2);
          Some (divf isize (subf (addf size1 size2) isize))
        })
   }"

section \<open>Decoding the prior boxes\<close>

text \<open>The number of priors before the first one with batch id \<open>-1\<close> (unnormalised priors only).\<close>

definition actual_priors :: "det_cfg \<Rightarrow> ieee list \<Rightarrow> nat option" where
  "actual_priors c prior =
     (let np = nat (num_priors c) in
      if normalized c then Some np
      else loop_brk 0 np (\<lambda>num s. do {
             batch_id \<leftarrow> rd prior (num * nat (prior_size c) + 0);
             if feq batch_id (Fin (-1)) then Some (num, False) else Some (s, True)
           }) np)"

text \<open>One prior: the new corners. \<open>lo\<close> and \<open>vo\<close> are the offsets of locations and variances.\<close>

definition decode_box ::
    "(ieee \<Rightarrow> ieee) \<Rightarrow> det_cfg \<Rightarrow> ieee list \<Rightarrow> nat \<Rightarrow> ieee list \<Rightarrow> nat \<Rightarrow> nat
     \<Rightarrow> (ieee \<times> ieee \<times> ieee \<times> ieee) option" where
  "decode_box expf c prior vo loc lo p = do {
     let b = p * nat (prior_size c) + nat (offset c);
     pxmin0 \<leftarrow> rd prior (b + 0);
     pymin0 \<leftarrow> rd prior (b + 1);
     pxmax0 \<leftarrow> rd prior (b + 2);
     pymax0 \<leftarrow> rd prior (b + 3);
     let l = lo + 4 * p * nat (num_loc_classes c);
     lxmin \<leftarrow> rd loc (l + 0);
     lymin \<leftarrow> rd loc (l + 1);
     lxmax \<leftarrow> rd loc (l + 2);
     lymax \<leftarrow> rd loc (l + 3);
     let pxmin = (if normalized c then pxmin0 else divf pxmin0 (i2f (image_width c)));
     let pymin = (if normalized c then pymin0 else divf pymin0 (i2f (image_height c)));
     let pxmax = (if normalized c then pxmax0 else divf pxmax0 (i2f (image_width c)));
     let pymax = (if normalized c then pymax0 else divf pymax0 (i2f (image_height c)));
     (case code_ty c of
        CORNER \<Rightarrow>
          if variance_encoded c then
            Some (addf pxmin lxmin, addf pymin lymin, addf pxmax lxmax, addf pymax lymax)
          else do {
            v0 \<leftarrow> rd prior (vo + p * 4 + 0);
            v1 \<leftarrow> rd prior (vo + p * 4 + 1);
            v2 \<leftarrow> rd prior (vo + p * 4 + 2);
            v3 \<leftarrow> rd prior (vo + p * 4 + 3);
            Some (addf pxmin (mulf v0 lxmin), addf pymin (mulf v1 lymin),
                  addf pxmax (mulf v2 lxmax), addf pymax (mulf v3 lymax))
          }
      | CENTER_SIZE \<Rightarrow> do {
          let pw = subf pxmax pxmin;
          let ph = subf pymax pymin;
          let pcx = divf (addf pxmin pxmax) (Fin 2);
          let pcy = divf (addf pymin pymax) (Fin 2);
          (cx, cy, w, h) \<leftarrow>
            (if variance_encoded c then
               Some (addf (mulf lxmin pw) pcx, addf (mulf lymin ph) pcy,
                     mulf (expf lxmax) pw, mulf (expf lymax) ph)
             else do {
               v0 \<leftarrow> rd prior (vo + p * 4 + 0);
               v1 \<leftarrow> rd prior (vo + p * 4 + 1);
               v2 \<leftarrow> rd prior (vo + p * 4 + 2);
               v3 \<leftarrow> rd prior (vo + p * 4 + 3);
               Some (addf (mulf (mulf v0 lxmin) pw) pcx, addf (mulf (mulf v1 lymin) ph) pcy,
                     mulf (expf (mulf v2 lxmax)) pw, mulf (expf (mulf v3 lymax)) ph)
             });
          Some (subf cx (divf w (Fin 2)), subf cy (divf h (Fin 2)),
                addf cx (divf w (Fin 2)), addf cy (divf h (Fin 2)))
        })
   }"

text \<open>
  \<open>decodeBBoxes\<close>: the boxes and their areas are written at \<open>po\<close> and \<open>so\<close>. The parallel
  loop writes disjoint elements, so its iterations are taken in order.
\<close>

definition decode_prior ::
    "(ieee \<Rightarrow> ieee) \<Rightarrow> det_cfg \<Rightarrow> ieee list \<Rightarrow> nat \<Rightarrow> ieee list \<Rightarrow> nat \<Rightarrow> nat \<Rightarrow> nat \<Rightarrow> nat
     \<Rightarrow> ieee list \<times> ieee list \<Rightarrow> (ieee list \<times> ieee list) option" where
  "decode_prior expf c prior vo loc lo po so p = (\<lambda>(boxes, sizes). do {
     (xmin, ymin, xmax, ymax) \<leftarrow> decode_box expf c prior vo loc lo p;
     boxes \<leftarrow> wr boxes (po + p * 4 + 0) xmin;
     boxes \<leftarrow> wr boxes (po + p * 4 + 1) ymin;
     boxes \<leftarrow> wr boxes (po + p * 4 + 2) xmax;
     boxes \<leftarrow> wr boxes (po + p * 4 + 3) ymax;
     sizes \<leftarrow> wr sizes (so + p) (mulf (subf xmax xmin) (subf ymax ymin));
     Some (boxes, sizes)
   })"

definition decodeBBoxes ::
    "(ieee \<Rightarrow> ieee) \<Rightarrow> det_cfg \<Rightarrow> ieee list \<Rightarrow> nat \<Rightarrow> ieee list \<Rightarrow> nat \<Rightarrow> nat \<Rightarrow> nat \<Rightarrow> nat
     \<Rightarrow> det_mem \<Rightarrow> det_mem option" where
  "decodeBBoxes expf c prior vo loc lo po so n m = do {
     actual \<leftarrow> actual_priors c prior;
     npa \<leftarrow> wr (num_priors_actual m) n actual;
     (boxes, sizes) \<leftarrow> loop actual (decode_prior expf c prior vo loc lo po so)
                        (decoded_bboxes m, bbox_sizes m);
     Some (m\<lparr>decoded_bboxes := boxes, bbox_sizes := sizes, num_priors_actual := npa\<rparr>)
   }"

section \<open>Non-maximum suppression of one class\<close>

text \<open>\<open>ConfidenceComparator\<close>: higher confidence first, then the smaller index.\<close>

definition conf_before :: "ieee list \<Rightarrow> nat \<Rightarrow> nat \<Rightarrow> nat \<Rightarrow> bool" where
  "conf_before conf co idx1 idx2 =
     (if flt (conf ! (co + idx2)) (conf ! (co + idx1)) then True
      else if flt (conf ! (co + idx1)) (conf ! (co + idx2)) then False
      else idx1 < idx2)"

text \<open>The candidates above the threshold, written to the front of \<open>indices\<close>.\<close>

definition nms_collect ::
    "det_cfg \<Rightarrow> ieee list \<Rightarrow> nat \<Rightarrow> nat \<Rightarrow> nat list \<Rightarrow> nat \<Rightarrow> (nat list \<times> nat) option" where
  "nms_collect c conf co io ind actual =
     loop actual (\<lambda>i (ind, count). do {
       s \<leftarrow> rd conf (co + i);
       if flt (confidence_threshold c) s
       then do { ind \<leftarrow> wr ind (io + count) i; Some (ind, count + 1) }
       else Some (ind, count)
     }) (ind, 0)"

text \<open>
  The suppression proper: candidate \<open>buffer[i]\<close> against the \<open>detections\<close> indices kept so
  far, which overwrite the front of \<open>indices\<close>.
\<close>

definition nms_suppress ::
    "ieee \<Rightarrow> ieee list \<Rightarrow> nat \<Rightarrow> ieee list \<Rightarrow> nat \<Rightarrow> nat list \<Rightarrow> nat \<Rightarrow> nat \<Rightarrow> nat \<Rightarrow>
     nat list \<Rightarrow> nat \<Rightarrow> (nat list \<times> nat) option" where
  "nms_suppress thr boxes bo sizes so buf fo n io ind detections =
     loop n (\<lambda>i (ind, detections). do {
       idx \<leftarrow> rd buf (fo + i);
       keep \<leftarrow> loop_brk 0 detections (\<lambda>k keep. do {
         kept_idx \<leftarrow> rd ind (io + k);
         overlap \<leftarrow> JaccardOverlap boxes bo sizes so idx kept_idx;
         if flt thr overlap then Some (False, False) else Some (keep, True)
       }) True;
       if keep then do { ind \<leftarrow> wr ind (io + detections) idx; Some (ind, detections + 1) }
       else Some (ind, detections)
     }) (ind, detections)"

text \<open>
  \<open>std::partial_sort_copy\<close> of the \<open>count\<close> candidates into the first \<open>num_output_scores\<close>
  places of the buffer; a negative length is no valid range.
\<close>

definition nms ::
    "det_cfg \<Rightarrow> ieee list \<Rightarrow> nat \<Rightarrow> ieee list \<Rightarrow> nat \<Rightarrow> ieee list \<Rightarrow> nat \<Rightarrow> nat list \<Rightarrow> nat \<Rightarrow>
     nat list \<Rightarrow> nat \<Rightarrow> nat \<Rightarrow> nat \<Rightarrow> (nat list \<times> nat list \<times> nat) option" where
  "nms c conf co boxes bo sizes so buf fo ind io detections actual = do {
     (ind, count) \<leftarrow> nms_collect c conf co io ind actual;
     let num_output_scores = (if top_k c = -1 then int count else min (top_k c) (int count));
     if num_output_scores < 0 then None else do {
       let n = nat num_output_scores;
       buf \<leftarrow> blit buf fo (take n (sort_by (conf_before conf co) (take count (drop io ind))));
       (ind, detections) \<leftarrow>
         nms_suppress (nms_threshold c) boxes bo sizes so buf fo n io ind detections;
       Some (buf, ind, detections)
     }
   }"

section \<open>The layer's run\<close>

text \<open>Decoding of all boxes of the \<open>N\<close> images.\<close>

definition decode_class ::
    "(ieee \<Rightarrow> ieee) \<Rightarrow> det_cfg \<Rightarrow> ieee list \<Rightarrow> ieee list \<Rightarrow> nat \<Rightarrow> nat \<Rightarrow> det_mem \<Rightarrow> det_mem option" where
  "decode_class expf c prior loc n cl m =
     (let np = nat (num_priors c); nlc = nat (num_loc_classes c);
          vo = np * nat (prior_size c) in
      if int cl = background_label_id c then Some m
      else decodeBBoxes expf c prior vo loc (n * 4 * nlc * np + cl * 4)
             (n * 4 * nlc * np + cl * 4 * np) (n * nlc * np + cl * np) n m)"

definition decode_image ::
    "(ieee \<Rightarrow> ieee) \<Rightarrow> det_cfg \<Rightarrow> ieee list \<Rightarrow> ieee list \<Rightarrow> nat \<Rightarrow> det_mem \<Rightarrow> det_mem option" where
  "decode_image expf c prior loc n m =
     (let np = nat (num_priors c); vo = np * nat (prior_size c) in
      if share_location c then
        decodeBBoxes expf c prior vo loc (n * 4 * np) (n * 4 * np) (n * np) n m
      else loop (nat (num_loc_classes c)) (decode_class expf c prior loc n) m)"

definition decode_all ::
    "(ieee \<Rightarrow> ieee) \<Rightarrow> det_cfg \<Rightarrow> ieee list \<Rightarrow> ieee list \<Rightarrow> nat \<Rightarrow> det_mem \<Rightarrow> det_mem option" where
  "decode_all expf c prior loc N m = loop N (decode_image expf c prior loc) m"

text \<open>From prior-major to class-major confidences.\<close>

definition reorder_conf :: "det_cfg \<Rightarrow> ieee list \<Rightarrow> nat \<Rightarrow> ieee list \<Rightarrow> ieee list option" where
  "reorder_conf c conf N rc0 =
     (let np = nat (num_priors c); nc = nat (num_classes c) in
      loop N (\<lambda>n rc. loop nc (\<lambda>cl rc. loop np (\<lambda>p rc. do {
        v \<leftarrow> rd conf (n * np * nc + p * nc + cl);
        wr rc (n * np * nc + cl * np + p) v
      }) rc) rc) rc0)"

text \<open>One class of one image. The parallel loop over the classes writes disjoint parts.\<close>

definition nms_class :: "det_cfg \<Rightarrow> nat \<Rightarrow> nat \<Rightarrow> det_mem \<Rightarrow> det_mem option" where
  "nms_class c n cl m =
     (let np = nat (num_priors c); nc = nat (num_classes c) in
      if int cl = background_label_id c then Some m
      else do {
        let bo = (if share_location c then n * 4 * np else n * 4 * nc * np + cl * 4 * np);
        let so = (if share_location c then n * np else n * nc * np + cl * np);
        d \<leftarrow> rd (detections_count m) (n * nc + cl);
        actual \<leftarrow> rd (num_priors_actual m) n;
        (buf, ind, d') \<leftarrow> nms c (reordered_conf m) (n * nc * np + cl * np)
          (decoded_bboxes m) bo (bbox_sizes m) so (sort_buffer m) (cl * np)
          (indices m) (n * nc * np + cl * np) d actual;
        dc \<leftarrow> wr (detections_count m) (n * nc + cl) d';
        Some (m\<lparr>sort_buffer := buf, indices := ind, detections_count := dc\<rparr>)
      })"

definition detections_total :: "det_cfg \<Rightarrow> nat \<Rightarrow> det_mem \<Rightarrow> nat option" where
  "detections_total c n m =
     loop (nat (num_classes c)) (\<lambda>cl s. do {
       d \<leftarrow> rd (detections_count m) (n * nat (num_classes c) + cl);
       Some (s + d) }) 0"

text \<open>\<open>conf_index_class_map\<close>: the kept detections of an image with score, class and prior.\<close>

definition collect_map :: "det_cfg \<Rightarrow> nat \<Rightarrow> det_mem \<Rightarrow> (ieee \<times> nat \<times> nat) list option" where
  "collect_map c n m =
     (let np = nat (num_priors c); nc = nat (num_classes c) in
      loop nc (\<lambda>cl xs. do {
        d \<leftarrow> rd (detections_count m) (n * nc + cl);
        loop d (\<lambda>i xs. do {
          idx \<leftarrow> rd (indices m) (n * nc * np + cl * np + i);
          s \<leftarrow> rd (reordered_conf m) (n * nc * np + cl * np + idx);
          Some (xs @ [(s, cl, idx)])
        }) xs
      }) [])"

text \<open>\<open>SortScorePairDescend\<close>.\<close>

definition SortScorePairDescend :: "ieee \<times> 'a \<Rightarrow> ieee \<times> 'a \<Rightarrow> bool" where
  "SortScorePairDescend pair1 pair2 = flt (fst pair2) (fst pair1)"

definition store_one ::
    "det_cfg \<Rightarrow> nat \<Rightarrow> (ieee \<times> nat \<times> nat) list \<Rightarrow> nat \<Rightarrow> nat list \<times> nat list
     \<Rightarrow> (nat list \<times> nat list) option" where
  "store_one c n xs j = (\<lambda>(ind, dc).
     let np = nat (num_priors c); nc = nat (num_classes c) in do {
       (s, label, idx) \<leftarrow> rd xs j;
       d \<leftarrow> rd dc (n * nc + label);
       ind \<leftarrow> wr ind (n * nc * np + label * np + d) idx;
       dc \<leftarrow> wr dc (n * nc + label) (d + 1);
       Some (ind, dc)
     })"

definition store_map ::
    "det_cfg \<Rightarrow> nat \<Rightarrow> (ieee \<times> nat \<times> nat) list \<Rightarrow> det_mem \<Rightarrow> det_mem option" where
  "store_map c n xs m = do {
     dc0 \<leftarrow> fill (detections_count m) (n * nat (num_classes c)) (num_classes c) 0;
     (ind, dc) \<leftarrow> loop (length xs) (store_one c n xs) (indices m, dc0);
     Some (m\<lparr>indices := ind, detections_count := dc\<rparr>)
   }"

text \<open>One image: all classes, then the cut to \<open>keep_top_k\<close>.\<close>

definition nms_image ::
    "((ieee \<times> nat \<times> nat) list \<Rightarrow> (ieee \<times> nat \<times> nat) list) \<Rightarrow> det_cfg \<Rightarrow> nat
     \<Rightarrow> det_mem \<Rightarrow> det_mem option" where
  "nms_image srt c n m = do {
     m \<leftarrow> loop (nat (num_classes c)) (nms_class c n) m;
     total \<leftarrow> detections_total c n m;
     if keep_top_k c > -1 \<and> int total > keep_top_k c then do {
       xs \<leftarrow> collect_map c n m;
       store_map c n (take (nat (keep_top_k c)) (srt xs)) m
     } else Some m
   }"

text \<open>A row of the output: image, class, confidence and the four corners.\<close>

definition emit_row ::
    "det_cfg \<Rightarrow> det_mem \<Rightarrow> nat \<Rightarrow> nat \<Rightarrow> nat \<Rightarrow> ieee list \<times> nat \<Rightarrow> (ieee list \<times> nat) option" where
  "emit_row c m n cl i = (\<lambda>(dst, count).
     let np = nat (num_priors c); nc = nat (num_classes c); nlc = nat (num_loc_classes c) in do {
       idx \<leftarrow> rd (indices m) (n * nc * np + (cl * np + i));
       conf \<leftarrow> rd (reordered_conf m) (n * np * nc + (cl * np + idx));
       let b = n * np * 4 * nlc + (if share_location c then idx * 4 else cl * 4 * np + idx * 4);
       dst \<leftarrow> wr dst (count * 7 + 0) (i2f (int n));
       dst \<leftarrow> wr dst (count * 7 + 1) (i2f (int cl));
       dst \<leftarrow> wr dst (count * 7 + 2) conf;
       xmin \<leftarrow> rd (decoded_bboxes m) (b + 0);
       ymin \<leftarrow> rd (decoded_bboxes m) (b + 1);
       xmax \<leftarrow> rd (decoded_bboxes m) (b + 2);
       ymax \<leftarrow> rd (decoded_bboxes m) (b + 3);
       dst \<leftarrow> wr dst (count * 7 + 3) xmin;
       dst \<leftarrow> wr dst (count * 7 + 4) ymin;
       dst \<leftarrow> wr dst (count * 7 + 5) xmax;
       dst \<leftarrow> wr dst (count * 7 + 6) ymax;
       Some (dst, count + 1)
     })"

definition emit_class ::
    "det_cfg \<Rightarrow> det_mem \<Rightarrow> nat \<Rightarrow> nat \<Rightarrow> ieee list \<times> nat \<Rightarrow> (ieee list \<times> nat) option" where
  "emit_class c m n cl st = do {
     d \<leftarrow> rd (detections_count m) (n * nat (num_classes c) + cl);
     loop d (emit_row c m n cl) st
   }"

text \<open>
  The output: \<open>N * keep_top_k * DETECTION_SIZE\<close> is computed on \<open>int\<close> (an overflow is
  undefined) and multiplied by \<open>sizeof(float)\<close> on \<open>size_t\<close>, where it wraps.
\<close>

definition int_ok :: "int \<Rightarrow> bool" where
  "int_ok i \<longleftrightarrow> - (2 ^ 31) \<le> i \<and> i < 2 ^ 31"

definition dst_bytes :: "int \<Rightarrow> 64 word" where
  "dst_bytes k = word_of_int k * 4"

definition write_output :: "det_cfg \<Rightarrow> nat \<Rightarrow> det_mem \<Rightarrow> blob \<Rightarrow> (status \<times> blob) option" where
  "write_output c N m out = do {
     detection_size \<leftarrow> rd (dims out) 3;
     if detection_size \<noteq> 7 then Some (NOT_IMPLEMENTED, out)
     else if \<not> int_ok (int N * keep_top_k c) \<or> \<not> int_ok (int N * keep_top_k c * 7) then None
     else
       let size = unat (dst_bytes (int N * keep_top_k c * 7)) in
       if size > 4 * length (data out) then Some (OUT_OF_BOUNDS, out)
       else do {
         dst \<leftarrow> blit (data out) 0 (replicate (size div 4) (Fin 0));
         (dst, count) \<leftarrow> loop N (\<lambda>n. loop (nat (num_classes c)) (emit_class c m n)) (dst, 0);
         dst \<leftarrow> (if int count < int N * keep_top_k c then wr dst (count * 7 + 0) (i2f (-1))
                 else Some dst);
         Some (OK, out\<lparr>data := dst\<rparr>)
       }
   }"

definition det_execute ::
    "(ieee \<Rightarrow> ieee) \<Rightarrow> ((ieee \<times> nat \<times> nat) list \<Rightarrow> (ieee \<times> nat \<times> nat) list) \<Rightarrow> det_cfg
     \<Rightarrow> det_mem \<Rightarrow> blob \<Rightarrow> blob \<Rightarrow> blob \<Rightarrow> blob \<Rightarrow> (status \<times> det_mem \<times> blob) option" where
  "det_execute expf srt c m loc conf prior out = do {
     N \<leftarrow> rd (dims conf) 0;
     m \<leftarrow> decode_all expf c (data prior) (data loc) N m;
     rc \<leftarrow> reorder_conf c (data conf) N (reordered_conf m);
     dc \<leftarrow> fill (detections_count m) 0 (int N * num_classes c) 0;
     m \<leftarrow> loop N (nms_image srt c) (m\<lparr>reordered_conf := rc, detections_count := dc\<rparr>);
     (st, out) \<leftarrow> write_output c N m out;
     Some (st, m, out)
   }"

section \<open>The suppression is the greedy one\<close>

text \<open>\<open>ConfidenceComparator\<close> orders any two distinct candidates whose scores are numbers.\<close>

lemma conf_before_iff:
  "\<not> is_nan (conf ! (co + i)) \<Longrightarrow> \<not> is_nan (conf ! (co + j)) \<Longrightarrow> conf_before conf co i j \<longleftrightarrow>
   flt (conf ! (co + j)) (conf ! (co + i)) \<or> fle (conf ! (co + j)) (conf ! (co + i)) \<and> i < j"
  by (auto simp: conf_before_def not_flt dest: fle_not_flt)

interpretation conf: strict_total_on "{i. \<not> is_nan (conf ! (co + i))}" "conf_before conf co"
  for conf :: "ieee list" and co :: nat
proof (rule strict_total_onI)
  fix x y z
  assume "x \<in> {i. \<not> is_nan (conf ! (co + i))}" "y \<in> {i. \<not> is_nan (conf ! (co + i))}"
    "z \<in> {i. \<not> is_nan (conf ! (co + i))}" "conf_before conf co x y" "conf_before conf co y z"
  then show "conf_before conf co x z"
    by (auto simp: conf_before_iff intro: flt_trans fle_trans flt_fle_trans fle_flt_trans)
qed (auto simp: conf_before_def)

definition candidates :: "det_cfg \<Rightarrow> ieee list \<Rightarrow> nat \<Rightarrow> nat \<Rightarrow> nat list" where
  "candidates c conf co actual =
     filter (\<lambda>i. flt (confidence_threshold c) (conf ! (co + i))) [0..<actual]"

definition ranked :: "det_cfg \<Rightarrow> ieee list \<Rightarrow> nat \<Rightarrow> nat \<Rightarrow> nat list" where
  "ranked c conf co actual =
     (let cs = candidates c conf co actual in
      take (if top_k c = -1 then length cs else min (nat (top_k c)) (length cs))
        (sort_by (conf_before conf co) cs))"

text \<open>Candidate \<open>y\<close>, kept, suppresses \<open>x\<close>.\<close>

definition overlaps :: "ieee \<Rightarrow> ieee list \<Rightarrow> nat \<Rightarrow> ieee list \<Rightarrow> nat \<Rightarrow> nat \<Rightarrow> nat \<Rightarrow> bool" where
  "overlaps thr boxes bo sizes so y x =
     (case JaccardOverlap boxes bo sizes so x y of None \<Rightarrow> False | Some r \<Rightarrow> flt thr r)"

lemma candidates_bounds: "i \<in> set (candidates c conf co n) \<Longrightarrow> i < n"
  by (auto simp: candidates_def)

lemma length_candidates: "length (candidates c conf co n) \<le> n"
  by (simp add: candidates_def length_filter_upt_le)

lemma candidates_Suc: "candidates c conf co (Suc n) = candidates c conf co n @
    (if flt (confidence_threshold c) (conf ! (co + n)) then [n] else [])"
  by (simp add: candidates_def)

lemma candidates_not_nan: "set (candidates c conf co n) \<subseteq> {i. \<not> is_nan (conf ! (co + i))}"
  by (auto simp: candidates_def dest: flt_not_nan)

lemma ranked_bounds: "i \<in> set (ranked c conf co n) \<Longrightarrow> i < n"
  by (auto simp: ranked_def Let_def dest!: in_set_takeD candidates_bounds)

lemma length_ranked: "length (ranked c conf co n) \<le> n"
  using length_candidates [of c conf co n] by (auto simp: ranked_def Let_def)

lemma distinct_ranked: "distinct (ranked c conf co n)"
  by (simp add: ranked_def Let_def candidates_def distinct_take)

lemma ranked_sorted: "sorted_by (conf_before conf co) (ranked c conf co n)"
  unfolding ranked_def Let_def
  by (intro sorted_by_take conf.sorted_sort_by candidates_not_nan)

lemma nms_collect_eq:
  assumes "io + actual \<le> length ind" and "co + actual \<le> length conf"
  shows "nms_collect c conf co io ind actual =
    Some (put ind io (candidates c conf co actual), length (candidates c conf co actual))"
proof -
  have "ok (nms_collect c conf co io ind actual)
      (\<lambda>s. s = (put ind io (candidates c conf co actual), length (candidates c conf co actual)))"
    unfolding nms_collect_def
  proof (rule loop_ok [where I = "\<lambda>i s. s = (put ind io (candidates c conf co i),
      length (candidates c conf co i))"])
    show "(ind, 0) = (put ind io (candidates c conf co 0), length (candidates c conf co 0))"
      by (simp add: candidates_def)
  next
    fix i s assume i: "i < actual"
      and s: "s = (put ind io (candidates c conf co i), length (candidates c conf co i))"
    have "io + length (candidates c conf co i) < length ind"
      using i assms(1) length_candidates [of c conf co i] by simp
    then show "ok ((\<lambda>(ind, count). do {
         s \<leftarrow> rd conf (co + i);
         if flt (confidence_threshold c) s
         then do { ind \<leftarrow> wr ind (io + count) i; Some (ind, count + 1) }
         else Some (ind, count) }) s)
      (\<lambda>s. s = (put ind io (candidates c conf co (Suc i)), length (candidates c conf co (Suc i))))"
      using i assms(2) by (simp add: s wr_put rd_Some candidates_Suc)
  qed
  then show ?thesis by (simp add: ok_eq_Some)
qed

lemma JaccardOverlap_Some:
  assumes "bo + 4 * np \<le> length boxes" and "so + np \<le> length sizes" and "i < np" and "j < np"
  shows "\<exists>r. JaccardOverlap boxes bo sizes so i j = Some r"
proof -
  have "bo + i * 4 + 3 < length boxes" "bo + j * 4 + 3 < length boxes" using assms by linarith+
  then have "ok (JaccardOverlap boxes bo sizes so i j) (\<lambda>_. True)"
    using assms by (auto simp: JaccardOverlap_def wp split: option.split)
  then show ?thesis by (auto simp: ok_iff_ex)
qed

text \<open>The inner loop: whether no kept candidate suppresses \<open>idx\<close>.\<close>

lemma nms_keep_loop:
  assumes ov: "\<And>k. k < length ks \<Longrightarrow> \<exists>r. JaccardOverlap boxes bo sizes so idx (ks ! k) = Some r"
    and len: "io + length ks \<le> length ind"
  shows "loop_brk 0 (length ks) (\<lambda>k keep. do {
         kept_idx \<leftarrow> rd (put ind io ks) (io + k);
         overlap \<leftarrow> JaccardOverlap boxes bo sizes so idx kept_idx;
         if flt thr overlap then Some (False, False) else Some (keep, True) }) True
       = Some (\<not> list_ex (\<lambda>y. overlaps thr boxes bo sizes so y idx) ks)"
proof -
  let ?I = "\<lambda>k keep. keep \<and> (\<forall>j < k. \<not> overlaps thr boxes bo sizes so (ks ! j) idx)"
  have "ok (loop_brk 0 (length ks) (\<lambda>k keep. do {
         kept_idx \<leftarrow> rd (put ind io ks) (io + k);
         overlap \<leftarrow> JaccardOverlap boxes bo sizes so idx kept_idx;
         if flt thr overlap then Some (False, False) else Some (keep, True) }) True)
     (\<lambda>r. r = (\<not> list_ex (\<lambda>y. overlaps thr boxes bo sizes so y idx) ks))"
  proof (rule loop_brk_wp [where I = ?I])
    fix k keep assume k: "k < 0 + length ks" and I: "?I k keep"
    then obtain r where r: "JaccardOverlap boxes bo sizes so idx (ks ! k) = Some r"
      using ov by auto
    have ex: "overlaps thr boxes bo sizes so (ks ! k) idx \<Longrightarrow>
        list_ex (\<lambda>y. overlaps thr boxes bo sizes so y idx) ks"
      using k by (auto simp: list_ex_iff)
    show "ok (do {
         kept_idx \<leftarrow> rd (put ind io ks) (io + k);
         overlap \<leftarrow> JaccardOverlap boxes bo sizes so idx kept_idx;
         if flt thr overlap then Some (False, False) else Some (keep, True) })
       (\<lambda>(s', go). if go then ?I (Suc k) s'
          else s' = (\<not> list_ex (\<lambda>y. overlaps thr boxes bo sizes so y idx) ks))"
      using k I r ex len by (auto simp: rd_put overlaps_def less_Suc_eq)
  qed (auto simp: list_ex_iff in_set_conv_nth)
  then show ?thesis by (simp add: ok_eq_Some)
qed

lemma nms_suppress_eq:
  assumes ov: "\<And>i j. i \<in> set xs \<Longrightarrow> j \<in> set xs \<Longrightarrow> \<exists>r. JaccardOverlap boxes bo sizes so i j = Some r"
    and buf: "fo + length xs \<le> length buf" and ind: "io + length xs \<le> length ind"
  shows "nms_suppress thr boxes bo sizes so (put buf fo xs) fo (length xs) io ind 0 =
    Some (put ind io (greedy (overlaps thr boxes bo sizes so) xs),
      length (greedy (overlaps thr boxes bo sizes so) xs))"
proof -
  let ?g = "\<lambda>i. greedy (overlaps thr boxes bo sizes so) (take i xs)"
  have "ok (nms_suppress thr boxes bo sizes so (put buf fo xs) fo (length xs) io ind 0)
     (\<lambda>s. s = (put ind io (?g (length xs)), length (?g (length xs))))"
    unfolding nms_suppress_def
  proof (rule loop_ok [where I = "\<lambda>i s. s = (put ind io (?g i), length (?g i))"])
    show "(ind, 0) = (put ind io (?g 0), length (?g 0))" by (simp add: greedy_def)
  next
    fix i s assume i: "i < length xs" and s: "s = (put ind io (?g i), length (?g i))"
    have sub: "set (?g i) \<subseteq> set xs"
      using greedy_subset [of _ "take i xs"] set_take_subset [of i xs] by blast
    have len: "length (?g i) \<le> i"
      using length_greedy [of "overlaps thr boxes bo sizes so" "take i xs"] i by simp
    have keep: "loop_brk 0 (length (?g i)) (\<lambda>k keep. do {
         kept_idx \<leftarrow> rd (put ind io (?g i)) (io + k);
         overlap \<leftarrow> JaccardOverlap boxes bo sizes so (xs ! i) kept_idx;
         if flt thr overlap then Some (False, False) else Some (keep, True) }) True
       = Some (\<not> list_ex (\<lambda>y. overlaps thr boxes bo sizes so y (xs ! i)) (?g i))"
      using sub i ind len by (intro nms_keep_loop ov) auto
    have g: "?g (Suc i) = keep_step (overlaps thr boxes bo sizes so) (?g i) (xs ! i)"
      using i by (simp add: take_Suc_conv_app_nth greedy_snoc)
    have room: "io + length (?g i) < length ind" using i ind len by simp
    show "ok ((\<lambda>(ind, detections). do {
       idx \<leftarrow> rd (put buf fo xs) (fo + i);
       keep \<leftarrow> loop_brk 0 detections (\<lambda>k keep. do {
         kept_idx \<leftarrow> rd ind (io + k);
         overlap \<leftarrow> JaccardOverlap boxes bo sizes so idx kept_idx;
         if flt thr overlap then Some (False, False) else Some (keep, True)
       }) True;
       if keep then do { ind \<leftarrow> wr ind (io + detections) idx; Some (ind, detections + 1) }
       else Some (ind, detections) }) s) (\<lambda>s. s = (put ind io (?g (Suc i)), length (?g (Suc i))))"
      using i buf room by (simp add: s rd_put keep g wr_put keep_step_def)
  qed
  then show ?thesis by (simp add: ok_eq_Some)
qed

text \<open>The whole routine, for a class that has no detections yet.\<close>

lemma nms_eq:
  assumes "io + actual \<le> length ind" and "co + actual \<le> length conf" and "fo + actual \<le> length buf"
    and "bo + 4 * actual \<le> length boxes" and "so + actual \<le> length sizes" and "- 1 \<le> top_k c"
  shows "nms c conf co boxes bo sizes so buf fo ind io 0 actual =
    (let kept = greedy (overlaps (nms_threshold c) boxes bo sizes so) (ranked c conf co actual) in
     Some (put buf fo (ranked c conf co actual),
       put (put ind io (candidates c conf co actual)) io kept, length kept))"
proof -
  let ?cs = "candidates c conf co actual" and ?rs = "ranked c conf co actual"
  have len: "length ?cs \<le> actual" "length ?rs \<le> actual"
    by (simp_all add: length_candidates length_ranked)
  have front: "take (length ?cs) (drop io (put ind io ?cs)) = ?cs"
    using assms(1) by (intro take_drop_put) simp
  define n where "n = (if top_k c = -1 then int (length ?cs) else min (top_k c) (int (length ?cs)))"
  have n: "0 \<le> n" using assms(6) by (auto simp: n_def)
  have rs: "take (nat n) (sort_by (conf_before conf co) ?cs) = ?rs"
    using assms(6) by (auto simp: ranked_def n_def Let_def min_def nat_le_eq_zle)
  have nrs: "nat n = length ?rs"
    using assms(6) by (auto simp: ranked_def n_def Let_def min_def)
  note rs' = rs [unfolded nrs]
  have "nms_suppress (nms_threshold c) boxes bo sizes so (put buf fo ?rs) fo (length ?rs) io
      (put ind io ?cs) 0 = Some (put (put ind io ?cs) io
        (greedy (overlaps (nms_threshold c) boxes bo sizes so) ?rs),
        length (greedy (overlaps (nms_threshold c) boxes bo sizes so) ?rs))"
    using assms len
    by (intro nms_suppress_eq JaccardOverlap_Some [where np = actual]) (auto dest: ranked_bounds)
  then show ?thesis
    using assms len n
    by (simp add: nms_def nms_collect_eq front blit_def rs' Let_def nrs
        del: take_all length_take flip: n_def)
qed

text \<open>
  The suppression of the boxes inside the two arrays, run on a buffer of its own, obeys the
  laws of \<open>suppression\<close>.
\<close>

definition det_run :: "ieee \<Rightarrow> ieee list \<Rightarrow> nat \<Rightarrow> ieee list \<Rightarrow> nat \<Rightarrow> nat list \<Rightarrow> nat list" where
  "det_run thr boxes bo sizes so xs =
     (case nms_suppress thr boxes bo sizes so xs 0 (length xs) 0 (replicate (length xs) 0) 0 of
        None \<Rightarrow> [] | Some (ind, d) \<Rightarrow> take d ind)"

definition boxes_at :: "ieee list \<Rightarrow> nat \<Rightarrow> ieee list \<Rightarrow> nat \<Rightarrow> nat set" where
  "boxes_at boxes bo sizes so = {i. bo + i * 4 + 3 < length boxes \<and> so + i < length sizes}"

lemma boxes_at_overlap:
  "i \<in> boxes_at boxes bo sizes so \<Longrightarrow> j \<in> boxes_at boxes bo sizes so \<Longrightarrow>
   \<exists>r. JaccardOverlap boxes bo sizes so i j = Some r"
  by (rule JaccardOverlap_Some [where np = "Suc (max i j)"])
    (auto simp: boxes_at_def max_def)

lemma det_run_greedy:
  assumes "set xs \<subseteq> boxes_at boxes bo sizes so"
  shows "det_run thr boxes bo sizes so xs = greedy (overlaps thr boxes bo sizes so) xs"
proof -
  have "nms_suppress thr boxes bo sizes so (put xs 0 xs) 0 (length xs) 0 (replicate (length xs) 0) 0 =
      Some (put (replicate (length xs) 0) 0 (greedy (overlaps thr boxes bo sizes so) xs),
        length (greedy (overlaps thr boxes bo sizes so) xs))"
    using assms by (intro nms_suppress_eq boxes_at_overlap) auto
  moreover have "put xs 0 xs = xs" by (simp add: put_def)
  moreover have "take (length ks) (put (replicate (length xs) 0) 0 ks) = ks" for ks :: "nat list"
    by (simp add: put_def)
  ultimately show ?thesis by (simp add: det_run_def)
qed

interpretation det: suppression "boxes_at boxes bo sizes so" "overlaps thr boxes bo sizes so"
  "det_run thr boxes bo sizes so"
  for thr boxes bo sizes so
  by unfold_locales
    (auto simp: det_run_greedy greedy_snoc keep_step_def list_ex_iff, simp add: greedy_def)

text \<open>
  C2: Non-maximum suppression of one class. On ranges inside its buffers the routine never
  leaves them, although it writes its result over the candidates it reads; what it leaves is
  a subsequence of the candidates above the confidence threshold, best first and at most
  \<open>top_k\<close>; no kept box overlaps an earlier kept one by more than the threshold; and every
  candidate that is not kept is overlapped that much by a kept one.
\<close>

theorem nms_spec:
  assumes "io + actual \<le> length ind" and "co + actual \<le> length conf" and "fo + actual \<le> length buf"
    and "bo + 4 * actual \<le> length boxes" and "so + actual \<le> length sizes" and "- 1 \<le> top_k c"
  shows "\<exists>buf' ind' d. nms c conf co boxes bo sizes so buf fo ind io 0 actual = Some (buf', ind', d) \<and>
    length ind' = length ind \<and> (\<forall>i. i < io \<or> io + actual \<le> i \<longrightarrow> ind' ! i = ind ! i) \<and>
    (let kept = take d (drop io ind'); cand = ranked c conf co actual in
       subseq kept cand \<and>
       sorted_wrt (\<lambda>y x. \<not> overlaps (nms_threshold c) boxes bo sizes so y x) kept \<and>
       (\<forall>x \<in> set cand - set kept. \<exists>y \<in> set kept. overlaps (nms_threshold c) boxes bo sizes so y x))"
proof -
  let ?b = "overlaps (nms_threshold c) boxes bo sizes so"
  let ?cs = "candidates c conf co actual" and ?rs = "ranked c conf co actual"
  let ?run = "det_run (nms_threshold c) boxes bo sizes so"
  have D: "set ?rs \<subseteq> boxes_at boxes bo sizes so"
    using assms by (auto simp: boxes_at_def dest!: ranked_bounds)
  then have g: "?run ?rs = greedy ?b ?rs" by (rule det_run_greedy)
  have len: "length ?cs \<le> actual" "length (greedy ?b ?rs) \<le> actual"
    using length_candidates length_greedy [of ?b ?rs] length_ranked [of c conf co actual] by auto
  have "\<exists>y \<in> set (?run ?rs). ?b y x" if x: "x \<in> set ?rs - set (?run ?rs)" for x
  proof -
    obtain ys zs where eq: "?rs = ys @ x # zs" using x by (auto dest: split_list)
    then obtain y where "y \<in> set (?run ys)" "?b y x"
      using det.run_maximal [OF D [unfolded eq], of "nms_threshold c"] x
      by (auto simp: eq)
    moreover have "set (?run ys) \<subseteq> set (?run ?rs)"
      using det.run_prefix [OF D [unfolded eq], of "nms_threshold c"] by (auto simp: eq)
    ultimately show ?thesis by blast
  qed
  moreover have "subseq (?run ?rs) ?rs" "sorted_wrt (\<lambda>y x. \<not> ?b y x) (?run ?rs)"
    using D by (rule det.run_subseq, rule det.run_independent)
  moreover have "take (length (greedy ?b ?rs)) (drop io (put (put ind io ?cs) io (greedy ?b ?rs))) = greedy ?b ?rs"
    using assms len by (intro take_drop_put) simp
  moreover have "put (put ind io ?cs) io (greedy ?b ?rs) ! i = ind ! i" if "i < io \<or> io + actual \<le> i" for i
    using assms len that by (subst nth_put_other, simp, force)+ simp
  ultimately show ?thesis
    using assms len by (simp add: nms_eq Let_def g)
qed

text \<open>A small instance: two priors, the background and one class.\<close>

definition small_cfg :: "int \<Rightarrow> det_cfg" where
  "small_cfg ktk = \<lparr>num_classes = 2, background_label_id = 0, top_k = -1, variance_encoded = True,
     keep_top_k = ktk, nms_threshold = Fin (1/2), confidence_threshold = Fin (1/8),
     share_location = True, normalized = True, image_height = 1, image_width = 1, prior_size = 4,
     offset = 0, num_loc_classes = 1, code_ty = CORNER, num_priors = 2, num_images = 1\<rparr>"

theorem nms_spec_witness:
  "\<exists>buf' ind' d. nms (small_cfg 1) [Fin (3/4), Fin (1/2)] 0 (replicate 8 (Fin 1)) 0
      (replicate 2 (Fin 1)) 0 [0, 0] 0 [0, 0] 0 0 2 = Some (buf', ind', d) \<and> length ind' = 2"
  using nms_spec [of 0 2 "[0, 0]" 0 "[Fin (3/4), Fin (1/2)]" 0 "[0, 0]" 0 "replicate 8 (Fin 1)" 0
      "replicate 2 (Fin 1)" "small_cfg 1"]
  by (auto simp: small_cfg_def)

end
