(* ===== verification/Detection_Run.thy ===== *)
theory Detection_Run
  imports Detection_Output
begin

text \<open>
  The run of the \<open>DetectionOutput\<close> layer as a whole: on the memory its constructor allocates
  and on inputs of the promised volumes it stays inside every buffer, every image keeps at
  most \<open>keep_top_k\<close> detections, and the rows it writes fit the output.
\<close>

section \<open>The run stays inside its buffers\<close>

text \<open>What the constructor guarantees of the configuration and of the working memory.\<close>

definition cfg_ok :: "det_cfg \<Rightarrow> bool" where
  "cfg_ok c \<longleftrightarrow> 0 \<le> num_priors c \<and> 0 < num_classes c \<and> -1 \<le> top_k c \<and>
     num_loc_classes c = (if share_location c then 1 else num_classes c) \<and>
     prior_size c = (if normalized c then 4 else 5) \<and> offset c = (if normalized c then 0 else 1)"

definition det_shape :: "det_cfg \<Rightarrow> nat \<Rightarrow> det_mem \<Rightarrow> bool" where
  "det_shape c N m \<longleftrightarrow> (let nc = nat (num_classes c); np = nat (num_priors c) in
     length (decoded_bboxes m) = N * nc * np * 4 \<and> length (sort_buffer m) = N * nc * np \<and>
     length (indices m) = N * nc * np \<and> length (detections_count m) = N * nc \<and>
     length (reordered_conf m) = N * nc * np \<and> length (bbox_sizes m) = N * np * nc \<and>
     length (num_priors_actual m) = N)"

text \<open>The inputs have the volumes their dimensions promise.\<close>

definition inputs_ok :: "det_cfg \<Rightarrow> nat \<Rightarrow> ieee list \<Rightarrow> ieee list \<Rightarrow> ieee list \<Rightarrow> bool" where
  "inputs_ok c N loc conf prior \<longleftrightarrow>
     (let nc = nat (num_classes c); np = nat (num_priors c); nlc = nat (num_loc_classes c);
          ps = nat (prior_size c) in
      length loc = N * (np * nlc * 4) \<and> length conf = N * (np * nc) \<and>
      (if variance_encoded c then np * ps else np * ps + np * 4) \<le> length prior)"

text \<open>Segments of a buffer that is split in parts of \<open>k\<close> elements.\<close>

lemmas slot_end = slot_end_nat

lemma slot_less: "(j::nat) < n \<Longrightarrow> i < k \<Longrightarrow> j * k + i < n * k"
  using slot_end [of j n k] by simp

lemma slot_disjoint: "(i::nat) \<noteq> j \<Longrightarrow> a < k \<Longrightarrow> i * k + a < j * k \<or> j * k + k \<le> i * k + a"
  using slot_end [of i j k] slot_end [of j i k] by (cases "i < j") auto

lemma nth_put_slot:
  assumes "j < n" and "length xs = n * k" and "length ys \<le> k" and "i \<noteq> j" and "a < k"
  shows "put xs (j * k) ys ! (i * k + a) = xs ! (i * k + a)"
  using slot_end [OF assms(1), of k] slot_disjoint [OF assms(4,5)] assms
  by (intro nth_put_other) auto

lemma ok_actual_priors:
  assumes "cfg_ok c" and "nat (num_priors c) * nat (prior_size c) \<le> length prior"
  shows "ok (actual_priors c prior) (\<lambda>a. a \<le> nat (num_priors c))"
proof (cases "normalized c")
  case True
  then show ?thesis by (simp add: actual_priors_def)
next
  case False
  have "ok (loop_brk 0 (nat (num_priors c)) (\<lambda>num s. do {
             batch_id \<leftarrow> rd prior (num * nat (prior_size c) + 0);
             if feq batch_id (Fin (-1)) then Some (num, False) else Some (s, True)
           }) (nat (num_priors c))) (\<lambda>a. a \<le> nat (num_priors c))"
  proof (rule loop_brk_wp [where I = "\<lambda>_ s. s \<le> nat (num_priors c)"])
    fix j s assume j: "j < 0 + nat (num_priors c)" and s: "s \<le> nat (num_priors c)"
    have "j * nat (prior_size c) < length prior"
      using slot_less [of j "nat (num_priors c)" 0 "nat (prior_size c)"] j assms False
      by (simp add: cfg_ok_def)
    then show "ok (do {
             batch_id \<leftarrow> rd prior (j * nat (prior_size c) + 0);
             if feq batch_id (Fin (-1)) then Some (j, False) else Some (s, True) })
      (\<lambda>(s', go). if go then s' \<le> nat (num_priors c) else s' \<le> nat (num_priors c))"
      using j s by (simp add: wp)
  qed simp_all
  then show ?thesis using False by (simp add: actual_priors_def Let_def)
qed

lemma ok_decode_box:
  assumes "cfg_ok c" and "p < nat (num_priors c)"
    and "nat (num_priors c) * nat (prior_size c) \<le> length prior"
    and "\<not> variance_encoded c \<Longrightarrow> vo + nat (num_priors c) * 4 \<le> length prior"
    and "lo + 4 * p * nat (num_loc_classes c) + 3 < length loc"
  shows "ok (decode_box expf c prior vo loc lo p) (\<lambda>_. True)"
proof -
  have "p * nat (prior_size c) + nat (offset c) + 3 < length prior"
    using slot_end [OF assms(2), of "nat (prior_size c)"] assms(1,3) by (auto simp: cfg_ok_def split: if_splits)
  moreover have "vo + p * 4 + 3 < length prior" if "\<not> variance_encoded c"
    using slot_end [OF assms(2), of 4] assms(4) [OF that] by simp
  ultimately show ?thesis
    using assms(5) by (cases "code_ty c") (auto simp: decode_box_def wp Let_def)
qed

lemma ok_decodeBBoxes:
  assumes c: "cfg_ok c" and prior: "nat (num_priors c) * nat (prior_size c) \<le> length prior"
    and var: "\<not> variance_encoded c \<Longrightarrow> vo + nat (num_priors c) * 4 \<le> length prior"
    and loc: "\<And>p. p < nat (num_priors c) \<Longrightarrow> lo + 4 * p * nat (num_loc_classes c) + 3 < length loc"
    and po: "po + nat (num_priors c) * 4 \<le> length (decoded_bboxes m)"
    and so: "so + nat (num_priors c) \<le> length (bbox_sizes m)" and n: "n < length (num_priors_actual m)"
  shows "ok (decodeBBoxes expf c prior vo loc lo po so n m) (\<lambda>m'. \<exists>b s a. a \<le> nat (num_priors c) \<and>
     length b = length (decoded_bboxes m) \<and> length s = length (bbox_sizes m) \<and>
     m' = m\<lparr>decoded_bboxes := b, bbox_sizes := s, num_priors_actual := (num_priors_actual m)[n := a]\<rparr>)"
proof -
  obtain a where a: "actual_priors c prior = Some a" "a \<le> nat (num_priors c)"
    using ok_actual_priors [OF c prior] by (auto elim: okE)
  let ?I = "\<lambda>(b, s). length b = length (decoded_bboxes m) \<and> length s = length (bbox_sizes m)"
  have "ok (loop a (decode_prior expf c prior vo loc lo po so) (decoded_bboxes m, bbox_sizes m)) ?I"
  proof (rule loop_inv)
    fix p and s :: "ieee list \<times> ieee list" assume p: "p < a" and I: "?I s"
    then have p': "p < nat (num_priors c)" using a by simp
    obtain x1 x2 x3 x4 where "decode_box expf c prior vo loc lo p = Some (x1, x2, x3, x4)"
      using ok_decode_box [OF c p' prior var loc [OF p'], where expf = expf]
      by (auto elim: okE)
    moreover have "po + p * 4 + 3 < length (decoded_bboxes m)" "so + p < length (bbox_sizes m)"
      using slot_end [OF p', of 4] po so p' by simp_all
    ultimately show "ok (decode_prior expf c prior vo loc lo po so p s) ?I"
      using I by (cases s) (simp add: decode_prior_def wp)
  qed simp
  then show ?thesis
    using a n unfolding decodeBBoxes_def by (auto simp: wp elim!: ok_mono)
qed

text \<open>
  After the decoding every image that has a class to report knows its number of priors.
\<close>

definition priors_known :: "det_cfg \<Rightarrow> nat \<Rightarrow> det_mem \<Rightarrow> bool" where
  "priors_known c n m \<longleftrightarrow> num_priors_actual m ! n \<le> nat (num_priors c)"

definition foreground :: "det_cfg \<Rightarrow> nat \<Rightarrow> bool" where
  "foreground c cl \<longleftrightarrow> int cl \<noteq> background_label_id c"

lemma ok_decode_step:
  assumes c: "cfg_ok c" and m: "det_shape c N m" and n: "n < N" and cl: "cl < nat (num_loc_classes c)"
    and inp: "inputs_ok c N loc conf prior"
    and known: "\<forall>i < n. (\<exists>cl < nat (num_classes c). foreground c cl) \<longrightarrow> priors_known c i m"
  shows "ok (decodeBBoxes expf c prior (nat (num_priors c) * nat (prior_size c)) loc
      ((n * nat (num_loc_classes c)) * (4 * nat (num_priors c)) + cl * 4)
      ((n * nat (num_loc_classes c) + cl) * (4 * nat (num_priors c)))
      ((n * nat (num_loc_classes c) + cl) * nat (num_priors c)) n m)
    (\<lambda>m'. det_shape c N m' \<and> reordered_conf m' = reordered_conf m \<and> priors_known c n m' \<and>
      (\<forall>i < n. (\<exists>cl < nat (num_classes c). foreground c cl) \<longrightarrow> priors_known c i m'))"
proof -
  define np nlc nc where "np = nat (num_priors c)" "nlc = nat (num_loc_classes c)"
    "nc = nat (num_classes c)"
  note d = np_nlc_nc_def
  have nlc: "nlc \<le> nc" "0 < nlc" using c by (auto simp: cfg_ok_def d)
  then have N: "N * nlc \<le> N * nc" by simp
  define j where "j = n * nlc + cl"
  have j: "j < N * nlc" using slot_less [OF n] cl by (simp add: j_def d)
  have loc: "n * nlc * (4 * np) + cl * 4 + 4 * p * nlc + 3 < length loc" if "p < np" for p
  proof -
    have "(n * np + p) * nlc + cl < (N * np) * nlc"
      using slot_less [of "n * np + p" "N * np" cl nlc] slot_less [OF n that] cl by (simp add: d)
    then show ?thesis using inp by (simp add: inputs_ok_def Let_def d algebra_simps)
  qed
  have len: "length (decoded_bboxes m) = N * nc * (4 * np)" "length (bbox_sizes m) = N * nc * np"
    using m by (simp_all add: det_shape_def Let_def d algebra_simps)
  have po: "j * (4 * np) + np * 4 \<le> length (decoded_bboxes m)"
    using le_trans [OF slot_end [OF j] mult_le_mono1 [OF N], of "4 * np"] len(1) by simp
  have so: "j * np + np \<le> length (bbox_sizes m)"
    using le_trans [OF slot_end [OF j] mult_le_mono1 [OF N], of np] len(2) by simp
  have pr: "np * nat (prior_size c) \<le> length prior"
    "\<not> variance_encoded c \<Longrightarrow> np * nat (prior_size c) + np * 4 \<le> length prior"
    using inp by (auto simp: inputs_ok_def Let_def d split: if_splits)
  have np: "n < length (num_priors_actual m)" using m n by (simp add: det_shape_def Let_def)
  have "ok (decodeBBoxes expf c prior (np * nat (prior_size c)) loc (n * nlc * (4 * np) + cl * 4)
      (j * (4 * np)) (j * np) n m) (\<lambda>m'. \<exists>b s a. a \<le> np \<and>
     length b = length (decoded_bboxes m) \<and> length s = length (bbox_sizes m) \<and>
     m' = m\<lparr>decoded_bboxes := b, bbox_sizes := s, num_priors_actual := (num_priors_actual m)[n := a]\<rparr>)"
    using pr loc po so np unfolding d(1,2) by (intro ok_decodeBBoxes c) simp_all
  then show ?thesis
    unfolding d(1,2) [symmetric] j_def [symmetric]
  proof (rule ok_mono)
    fix m' assume "\<exists>b s a. a \<le> np \<and> length b = length (decoded_bboxes m) \<and>
      length s = length (bbox_sizes m) \<and> m' = m\<lparr>decoded_bboxes := b, bbox_sizes := s,
        num_priors_actual := (num_priors_actual m)[n := a]\<rparr>"
    then obtain b s a where m': "a \<le> np" "length b = length (decoded_bboxes m)"
      "length s = length (bbox_sizes m)" "m' = m\<lparr>decoded_bboxes := b, bbox_sizes := s,
        num_priors_actual := (num_priors_actual m)[n := a]\<rparr>"
      by blast
    have "det_shape c N m'" using m m' by (simp add: det_shape_def Let_def)
    moreover have "priors_known c n m'" using m' np by (simp add: priors_known_def d(1))
    moreover have "\<forall>i < n. priors_known c i m' = priors_known c i m"
      using m' by (simp add: priors_known_def)
    ultimately show "det_shape c N m' \<and> reordered_conf m' = reordered_conf m \<and> priors_known c n m' \<and>
      (\<forall>i < n. (\<exists>cl < nat (num_classes c). foreground c cl) \<longrightarrow> priors_known c i m')"
      using known m' by simp
  qed
qed

lemma ok_decode_class:
  assumes c: "cfg_ok c" and n: "n < N" and cl: "cl < nat (num_loc_classes c)"
    and inp: "inputs_ok c N loc conf prior" and m: "det_shape c N m"
    and known: "\<forall>i < n. (\<exists>cl < nat (num_classes c). foreground c cl) \<longrightarrow> priors_known c i m"
    and don: "(\<exists>k < cl. foreground c k) \<longrightarrow> priors_known c n m"
  shows "ok (decode_class expf c prior loc n cl m)
    (\<lambda>m'. det_shape c N m' \<and> reordered_conf m' = reordered_conf m \<and>
      (\<forall>i < n. (\<exists>cl < nat (num_classes c). foreground c cl) \<longrightarrow> priors_known c i m') \<and>
      ((\<exists>k < Suc cl. foreground c k) \<longrightarrow> priors_known c n m'))"
proof (cases "foreground c cl")
  case True
  have "ok (decodeBBoxes expf c prior (nat (num_priors c) * nat (prior_size c)) loc
      ((n * nat (num_loc_classes c)) * (4 * nat (num_priors c)) + cl * 4)
      ((n * nat (num_loc_classes c) + cl) * (4 * nat (num_priors c)))
      ((n * nat (num_loc_classes c) + cl) * nat (num_priors c)) n m)
    (\<lambda>m'. det_shape c N m' \<and> reordered_conf m' = reordered_conf m \<and>
      (\<forall>i < n. (\<exists>cl < nat (num_classes c). foreground c cl) \<longrightarrow> priors_known c i m') \<and>
      ((\<exists>k < Suc cl. foreground c k) \<longrightarrow> priors_known c n m'))"
    by (rule ok_mono [OF ok_decode_step [OF c m n cl inp known]]) auto
  then show ?thesis
    using True by (simp add: decode_class_def foreground_def Let_def algebra_simps)
next
  case False
  then show ?thesis
    using m known don by (auto simp: decode_class_def foreground_def less_Suc_eq)
qed

lemma ok_decode_image:
  assumes c: "cfg_ok c" and n: "n < N" and inp: "inputs_ok c N loc conf prior" and m: "det_shape c N m"
    and known: "\<forall>i < n. (\<exists>cl < nat (num_classes c). foreground c cl) \<longrightarrow> priors_known c i m"
  shows "ok (decode_image expf c prior loc n m)
    (\<lambda>m'. det_shape c N m' \<and> reordered_conf m' = reordered_conf m \<and>
      (\<forall>i < Suc n. (\<exists>cl < nat (num_classes c). foreground c cl) \<longrightarrow> priors_known c i m'))"
proof (cases "share_location c")
  case True
  then have nlc: "nat (num_loc_classes c) = 1" using c by (simp add: cfg_ok_def)
  have "ok (decodeBBoxes expf c prior (nat (num_priors c) * nat (prior_size c)) loc
      (n * (4 * nat (num_priors c))) (n * (4 * nat (num_priors c))) (n * nat (num_priors c)) n m)
    (\<lambda>m'. det_shape c N m' \<and> reordered_conf m' = reordered_conf m \<and> priors_known c n m' \<and>
      (\<forall>i < n. (\<exists>cl < nat (num_classes c). foreground c cl) \<longrightarrow> priors_known c i m'))"
    using ok_decode_step [OF c m n _ inp known, of 0] nlc by simp
  then show ?thesis
    unfolding decode_image_def Let_def using True
    by (auto simp: mult.assoc less_Suc_eq elim!: ok_mono)
next
  case False
  then have nlc: "nat (num_loc_classes c) = nat (num_classes c)" using c by (simp add: cfg_ok_def)
  have "ok (loop (nat (num_loc_classes c)) (decode_class expf c prior loc n) m)
    (\<lambda>m'. (det_shape c N m' \<and> reordered_conf m' = reordered_conf m \<and>
      (\<forall>i < n. (\<exists>cl < nat (num_classes c). foreground c cl) \<longrightarrow> priors_known c i m')) \<and>
      ((\<exists>k < nat (num_loc_classes c). foreground c k) \<longrightarrow> priors_known c n m'))"
    by (rule loop_ok, use m known in simp, rule ok_mono, rule ok_decode_class [OF c n _ inp]) auto
  then show ?thesis
    unfolding decode_image_def Let_def using False nlc by (auto simp: less_Suc_eq elim!: ok_mono)
qed

lemma ok_decode_all:
  assumes c: "cfg_ok c" and m: "det_shape c N m" and inp: "inputs_ok c N loc conf prior"
  shows "ok (decode_all expf c prior loc N m) (\<lambda>m'. det_shape c N m' \<and>
     reordered_conf m' = reordered_conf m \<and>
     (\<forall>i < N. (\<exists>cl < nat (num_classes c). foreground c cl) \<longrightarrow> priors_known c i m'))"
  unfolding decode_all_def
  by (rule loop_ok, use m in simp, rule ok_mono, rule ok_decode_image [OF c _ inp]) auto

lemma ok_reorder_conf:
  assumes "length conf = N * (nat (num_priors c) * nat (num_classes c))"
    and "length rc = N * nat (num_classes c) * nat (num_priors c)"
  shows "ok (reorder_conf c conf N rc) (\<lambda>rc'. length rc' = length rc)"
proof -
  define np nc where "np = nat (num_priors c)" "nc = nat (num_classes c)"
  have "ok (do { v \<leftarrow> rd conf (n * np * nc + p * nc + cl); wr rc1 (n * np * nc + cl * np + p) v })
      (\<lambda>rc'. length rc' = length rc)"
    if "n < N" "cl < nc" "p < np" "length rc1 = length rc" for n cl p rc1
    using index3_less [OF that(1,3,2)] index3_less [OF that(1,2,3)] assms that(4)
    by (simp add: wp np_nc_def algebra_simps)
  then show ?thesis
    unfolding reorder_conf_def Let_def np_nc_def by (intro loop_inv refl) simp_all
qed

section \<open>What the suppression leaves in the buffers\<close>

text \<open>The number of the pair (image, class): its detections lie at \<open>slot * num_priors\<close>.\<close>

definition slot :: "det_cfg \<Rightarrow> nat \<Rightarrow> nat \<Rightarrow> nat" where
  "slot c n cl = n * nat (num_classes c) + cl"

lemma slot_bound: "n < N \<Longrightarrow> cl < nat (num_classes c) \<Longrightarrow> slot c n cl < N * nat (num_classes c)"
  by (simp add: slot_def slot_less)

lemma slot_inj: "cl < nat (num_classes c) \<Longrightarrow> cl' < nat (num_classes c) \<Longrightarrow>
    slot c n cl = slot c n' cl' \<longleftrightarrow> n = n' \<and> cl = cl'"
  by (simp add: slot_def index2_inj)

text \<open>The detections a class has when its suppression is the greedy one.\<close>

definition kept :: "det_cfg \<Rightarrow> det_mem \<Rightarrow> nat \<Rightarrow> nat \<Rightarrow> nat list" where
  "kept c m n cl =
     (let np = nat (num_priors c); j = (if share_location c then n else slot c n cl) in
      greedy (overlaps (nms_threshold c) (decoded_bboxes m) (j * (4 * np)) (bbox_sizes m) (j * np))
        (ranked c (reordered_conf m) (slot c n cl * np) (num_priors_actual m ! n)))"

definition slot_ok :: "det_cfg \<Rightarrow> det_mem \<Rightarrow> nat \<Rightarrow> bool" where
  "slot_ok c m j \<longleftrightarrow> (let np = nat (num_priors c); d = detections_count m ! j in
     d \<le> np \<and> (\<forall>k < d. indices m ! (j * np + k) < np))"

lemma kept_bounds:
  assumes "num_priors_actual m ! n \<le> nat (num_priors c)"
  shows "length (kept c m n cl) \<le> nat (num_priors c)" and "i \<in> set (kept c m n cl) \<Longrightarrow> i < nat (num_priors c)"
proof -
  show "length (kept c m n cl) \<le> nat (num_priors c)"
    using assms by (auto simp: kept_def Let_def intro: le_trans [OF length_greedy] le_trans [OF length_ranked])
  show "i < nat (num_priors c)" if "i \<in> set (kept c m n cl)"
    using that assms greedy_subset ranked_bounds unfolding kept_def Let_def
    by (metis (no_types, lifting) order_less_le_trans subsetD)
qed

lemma nms_class_eq:
  assumes c: "cfg_ok c" and m: "det_shape c N m" and n: "n < N" and cl: "cl < nat (num_classes c)"
    and known: "priors_known c n m" and fg: "foreground c cl" and new: "detections_count m ! slot c n cl = 0"
  shows "\<exists>buf ind. nms_class c n cl m = Some (m\<lparr>sort_buffer := buf, indices := ind,
      detections_count := (detections_count m)[slot c n cl := length (kept c m n cl)]\<rparr>) \<and>
    length buf = length (sort_buffer m) \<and> length ind = length (indices m) \<and>
    (\<forall>k < length (kept c m n cl). ind ! (slot c n cl * nat (num_priors c) + k) = kept c m n cl ! k) \<and>
    (\<forall>j. j \<noteq> slot c n cl \<longrightarrow> (\<forall>a < nat (num_priors c).
       ind ! (j * nat (num_priors c) + a) = indices m ! (j * nat (num_priors c) + a)))"
proof -
  define np nc a where "np = nat (num_priors c)" and "nc = nat (num_classes c)"
    and "a = num_priors_actual m ! n"
  note d = np_def nc_def
  define s b where "s = slot c n cl" and "b = (if share_location c then n else s)"
  have s: "s < N * nc" using slot_bound [OF n cl] by (simp add: d s_def)
  have "0 < nc" using c by (simp add: cfg_ok_def d)
  then have "N * 1 \<le> N * nc" by (intro mult_le_mono2) simp
  with n have "n < N * nc" by linarith
  then have b: "b < N * nc" using s by (simp add: b_def)
  have a: "a \<le> np" using known by (simp add: priors_known_def a_def d)
  have rd1: "rd (detections_count m) s = Some 0" "rd (num_priors_actual m) n = Some a"
    using s m n new by (simp_all add: det_shape_def Let_def d rd_def s_def a_def)
  have wr1: "wr (detections_count m) s x = Some ((detections_count m)[s := x])" for x
    using s m by (simp add: det_shape_def Let_def d wr_def)
  have io: "s * np + np \<le> length (indices m)" "s * np + np \<le> length (reordered_conf m)"
    "length (indices m) = N * nc * np"
    using slot_end [OF s, of np] m by (simp_all add: det_shape_def Let_def d)
  have "cl < N * nc" using s by (simp add: s_def slot_def)
  then have fo: "cl * np + np \<le> length (sort_buffer m)"
    using slot_end [of cl "N * nc" np] m by (simp add: det_shape_def Let_def d)
  have bo: "b * (4 * np) + 4 * np \<le> length (decoded_bboxes m)" "b * np + np \<le> length (bbox_sizes m)"
    using slot_end [OF b, of "4 * np"] slot_end [OF b, of np] m
    by (simp_all add: det_shape_def Let_def d algebra_simps)
  define cs rs ks where "cs = candidates c (reordered_conf m) (s * np) a"
    and "rs = ranked c (reordered_conf m) (s * np) a" and "ks = kept c m n cl"
  have len: "length cs \<le> np" "length rs \<le> np" "length ks \<le> np"
    using le_trans [OF length_candidates a] le_trans [OF length_ranked a] kept_bounds(1) known
    by (simp_all add: cs_def rs_def ks_def priors_known_def d)
  have ks: "ks = greedy (overlaps (nms_threshold c) (decoded_bboxes m) (b * (4 * np))
      (bbox_sizes m) (b * np)) rs"
    by (simp add: ks_def kept_def rs_def Let_def b_def s_def d a_def)
  have run: "nms c (reordered_conf m) (s * np) (decoded_bboxes m) (b * (4 * np)) (bbox_sizes m)
      (b * np) (sort_buffer m) (cl * np) (indices m) (s * np) 0 a =
    Some (put (sort_buffer m) (cl * np) rs, put (put (indices m) (s * np) cs) (s * np) ks, length ks)"
    using io fo bo a c by (subst nms_eq) (auto simp: cfg_ok_def cs_def rs_def ks Let_def)
  have b': "(if share_location c then n * 4 * np else n * 4 * nc * np + cl * 4 * np) = b * (4 * np)"
    "(if share_location c then n * np else s * np) = b * np"
    "n * nc * np + cl * np = s * np" "n * nc + cl = s"
    by (simp_all add: b_def s_def slot_def d algebra_simps)
  define ind where "ind = put (put (indices m) (s * np) cs) (s * np) ks"
  have ind1: "length (put (indices m) (s * np) cs) = N * nc * np" using io len by simp
  have eq: "nms_class c n cl m = Some (m\<lparr>sort_buffer := put (sort_buffer m) (cl * np) rs,
      indices := ind, detections_count := (detections_count m)[s := length ks]\<rparr>)"
    using fg rd1 unfolding nms_class_def Let_def foreground_def d [symmetric] b'
    by (simp add: run ind_def wr1)
  have "\<forall>k < length ks. ind ! (s * np + k) = ks ! k"
    using io ind1 unfolding ind_def by (intro allI impI nth_put) linarith+
  moreover have "ind ! (j * np + a) = indices m ! (j * np + a)" if "j \<noteq> s" "a < np" for j a
    using nth_put_slot [OF s ind1 len(3) that] nth_put_slot [OF s io(3) len(1) that]
    by (simp add: ind_def)
  moreover have "length ind = length (indices m)"
    using ind1 io len by (simp add: ind_def)
  moreover have "length (put (sort_buffer m) (cl * np) rs) = length (sort_buffer m)"
    using fo len by simp
  ultimately show ?thesis
    using eq unfolding d [symmetric] s_def [symmetric] ks_def [symmetric] by blast
qed

section \<open>One image\<close>

definition image_total :: "det_cfg \<Rightarrow> det_mem \<Rightarrow> nat \<Rightarrow> nat" where
  "image_total c m n = sum_list (map (\<lambda>cl. detections_count m ! slot c n cl) [0..<nat (num_classes c)])"

text \<open>The detections of an image in the order of the classes, with score, class and prior.\<close>

definition image_rows :: "det_cfg \<Rightarrow> det_mem \<Rightarrow> nat \<Rightarrow> nat \<Rightarrow> (ieee \<times> nat \<times> nat) list" where
  "image_rows c m n k = concat (map (\<lambda>cl. map (\<lambda>i.
     let idx = indices m ! (slot c n cl * nat (num_priors c) + i) in
     (reordered_conf m ! (slot c n cl * nat (num_priors c) + idx), cl, idx))
     [0..<detections_count m ! slot c n cl]) [0..<k])"

text \<open>
  The state between two classes of image \<open>n\<close>: shapes, the priors of every image, sound
  slots, and no detections yet from slot \<open>j\<close> on.
\<close>

definition run_inv :: "det_cfg \<Rightarrow> nat \<Rightarrow> ieee list \<Rightarrow> nat \<Rightarrow> det_mem \<Rightarrow> bool" where
  "run_inv c N rc j m \<longleftrightarrow> det_shape c N m \<and> reordered_conf m = rc \<and>
     (\<forall>i < N. (\<exists>cl < nat (num_classes c). foreground c cl) \<longrightarrow> priors_known c i m) \<and>
     (\<forall>i < N * nat (num_classes c). slot_ok c m i) \<and>
     (\<forall>i < N * nat (num_classes c). j \<le> i \<longrightarrow> detections_count m ! i = 0)"

lemma ok_nms_class:
  assumes c: "cfg_ok c" and n: "n < N" and cl: "cl < nat (num_classes c)"
    and inv: "run_inv c N rc (slot c n cl) m"
  shows "ok (nms_class c n cl m) (\<lambda>m'. run_inv c N rc (slot c n (Suc cl)) m' \<and>
    (\<forall>j. j \<noteq> slot c n cl \<longrightarrow> detections_count m' ! j = detections_count m ! j))"
proof (cases "foreground c cl")
  case False
  then show ?thesis using inv by (auto simp: nms_class_def foreground_def run_inv_def slot_def)
next
  case True
  let ?s = "slot c n cl" and ?np = "nat (num_priors c)"
  have s: "?s < N * nat (num_classes c)" using n cl by (rule slot_bound)
  have m: "det_shape c N m" and known: "priors_known c n m" and new: "detections_count m ! ?s = 0"
    using inv n cl True s by (auto simp: run_inv_def)
  obtain buf ind where run: "nms_class c n cl m = Some (m\<lparr>sort_buffer := buf, indices := ind,
      detections_count := (detections_count m)[?s := length (kept c m n cl)]\<rparr>)"
    and len: "length buf = length (sort_buffer m)" "length ind = length (indices m)"
    and this_slot: "\<forall>k < length (kept c m n cl). ind ! (?s * ?np + k) = kept c m n cl ! k"
    and others: "\<forall>j. j \<noteq> ?s \<longrightarrow> (\<forall>a < ?np. ind ! (j * ?np + a) = indices m ! (j * ?np + a))"
    using nms_class_eq [OF c m n cl known True new] by blast
  let ?m = "m\<lparr>sort_buffer := buf, indices := ind,
      detections_count := (detections_count m)[?s := length (kept c m n cl)]\<rparr>"
  have dc: "?s < length (detections_count m)" using m s by (simp add: det_shape_def Let_def)
  note kb = kept_bounds [OF known [unfolded priors_known_def]]
  have "det_shape c N ?m" using m len by (simp add: det_shape_def Let_def)
  moreover have "slot_ok c ?m j" if j: "j < N * nat (num_classes c)" for j
  proof (cases "j = ?s")
    case True
    have "kept c m n cl ! k < ?np" if "k < length (kept c m n cl)" for k
      using kb(2) nth_mem [OF that] by blast
    then show ?thesis using True dc this_slot kb(1) by (simp add: slot_ok_def Let_def)
  next
    case False
    have "slot_ok c m j" using inv j by (simp add: run_inv_def)
    then show ?thesis using False others by (auto simp: slot_ok_def Let_def)
  qed
  moreover have "slot c n (Suc cl) = Suc ?s" by (simp add: slot_def)
  ultimately have "run_inv c N rc (slot c n (Suc cl)) ?m"
    using inv by (simp add: run_inv_def priors_known_def)
  then show ?thesis by (simp add: run)
qed

lemma detections_total_eq:
  assumes "det_shape c N m" and "n < N"
  shows "detections_total c n m = Some (image_total c m n)"
proof -
  have "ok (detections_total c n m) (\<lambda>s. s = image_total c m n)"
    unfolding detections_total_def image_total_def
  proof (rule loop_ok [where I = "\<lambda>k s. s = sum_list (map (\<lambda>cl. detections_count m ! slot c n cl) [0..<k])"])
    fix cl s assume "cl < nat (num_classes c)"
      and "s = sum_list (map (\<lambda>cl. detections_count m ! slot c n cl) [0..<cl])"
    then show "ok (do { d \<leftarrow> rd (detections_count m) (n * nat (num_classes c) + cl); Some (s + d) })
       (\<lambda>s. s = sum_list (map (\<lambda>cl. detections_count m ! slot c n cl) [0..<Suc cl]))"
      using slot_bound [OF assms(2), of cl c] assms(1)
      by (simp add: wp det_shape_def Let_def slot_def)
  qed simp
  then show ?thesis by (simp add: ok_eq_Some)
qed

lemma length_image_rows: "length (image_rows c m n k) =
    sum_list (map (\<lambda>cl. detections_count m ! slot c n cl) [0..<k])"
  by (induction k) (simp_all add: image_rows_def)

lemma image_rows_Suc: "image_rows c m n (Suc k) = image_rows c m n k @ map (\<lambda>i.
     let idx = indices m ! (slot c n k * nat (num_priors c) + i) in
     (reordered_conf m ! (slot c n k * nat (num_priors c) + idx), k, idx))
     [0..<detections_count m ! slot c n k]"
  by (simp add: image_rows_def)

lemma collect_map_eq:
  assumes m: "det_shape c N m" and n: "n < N" and ok: "\<forall>i < N * nat (num_classes c). slot_ok c m i"
  shows "collect_map c n m = Some (image_rows c m n (nat (num_classes c)))"
proof -
  define np nc where "np = nat (num_priors c)" "nc = nat (num_classes c)"
  note d = np_nc_def
  let ?row = "\<lambda>cl i. let idx = indices m ! (slot c n cl * np + i) in
     (reordered_conf m ! (slot c n cl * np + idx), cl, idx)"
  have cls: "loop (detections_count m ! slot c n cl) (\<lambda>i xs. do {
          idx \<leftarrow> rd (indices m) (slot c n cl * np + i);
          s \<leftarrow> rd (reordered_conf m) (slot c n cl * np + idx);
          Some (xs @ [(s, cl, idx)]) }) xs =
      Some (xs @ map (?row cl) [0..<detections_count m ! slot c n cl])" if cl: "cl < nc" for cl xs
  proof -
    have s: "slot c n cl < N * nc" using slot_bound [OF n] cl by (simp add: d)
    then have sl: "slot_ok c m (slot c n cl)" using ok by (simp add: d)
    have "ok (loop (detections_count m ! slot c n cl) (\<lambda>i xs. do {
          idx \<leftarrow> rd (indices m) (slot c n cl * np + i);
          s \<leftarrow> rd (reordered_conf m) (slot c n cl * np + idx);
          Some (xs @ [(s, cl, idx)]) }) xs)
        (\<lambda>ys. ys = xs @ map (?row cl) [0..<detections_count m ! slot c n cl])"
    proof (rule loop_ok [where I = "\<lambda>i ys. ys = xs @ map (?row cl) [0..<i]"])
      fix i ys assume i: "i < detections_count m ! slot c n cl" and ys: "ys = xs @ map (?row cl) [0..<i]"
      have "i < np" "indices m ! (slot c n cl * np + i) < np"
        using sl i by (simp_all add: slot_ok_def Let_def d)
      then show "ok (do {
          idx \<leftarrow> rd (indices m) (slot c n cl * np + i);
          s \<leftarrow> rd (reordered_conf m) (slot c n cl * np + idx);
          Some (ys @ [(s, cl, idx)]) }) (\<lambda>ys. ys = xs @ map (?row cl) [0..<Suc i])"
        using m slot_less [OF s, of _ np]
        by (simp add: wp ys det_shape_def Let_def d)
    qed simp
    then show ?thesis by (simp add: ok_eq_Some)
  qed
  have off: "n * nc * np + cl * np = slot c n cl * np" "n * nc + cl = slot c n cl" for cl
    by (simp_all add: slot_def d algebra_simps)
  have "ok (collect_map c n m) (\<lambda>xs. xs = image_rows c m n nc)"
    unfolding collect_map_def Let_def d [symmetric] off
  proof (rule loop_ok [where I = "\<lambda>k xs. xs = image_rows c m n k"])
    fix cl xs assume cl: "cl < nc" and xs: "xs = image_rows c m n cl"
    have "slot c n cl < length (detections_count m)"
      using slot_bound [OF n, of cl c] cl m by (simp add: det_shape_def Let_def d)
    then show "ok (do {
        d \<leftarrow> rd (detections_count m) (slot c n cl);
        loop d (\<lambda>i xs. do {
          idx \<leftarrow> rd (indices m) (slot c n cl * np + i);
          s \<leftarrow> rd (reordered_conf m) (slot c n cl * np + idx);
          Some (xs @ [(s, cl, idx)])
        }) xs }) (\<lambda>xs. xs = image_rows c m n (Suc cl))"
      by (simp add: rd_Some cls [OF cl] xs image_rows_Suc d [symmetric])
  qed (simp add: image_rows_def)
  then show ?thesis by (simp add: ok_eq_Some d)
qed

text \<open>How often a label occurs among detections.\<close>

definition of_label :: "nat \<Rightarrow> (ieee \<times> nat \<times> nat) list \<Rightarrow> nat" where
  "of_label l xs = length (filter (\<lambda>x. fst (snd x) = l) xs)"

lemma of_label_image_rows:
  "of_label l (image_rows c m n k) = (if l < k then detections_count m ! slot c n l else 0)"
proof (induction k)
  case 0
  then show ?case by (simp add: of_label_def image_rows_def)
next
  case (Suc k)
  have row: "filter (\<lambda>x. fst (snd x) = l) (map (\<lambda>i. let idx = f i in (g idx, k, idx)) xs) =
      (if l = k then map (\<lambda>i. let idx = f i in (g idx, k, idx)) xs else [])" for f :: "nat \<Rightarrow> nat" and g :: "nat \<Rightarrow> ieee" and xs
    by (auto simp: filter_empty_conv filter_id_conv Let_def)
  show ?case
    using Suc by (auto simp: of_label_def image_rows_Suc row less_Suc_eq)
qed

lemma image_rows_bounds:
  assumes "\<forall>i < N * nat (num_classes c). slot_ok c m i" and "n < N" and "k \<le> nat (num_classes c)"
    and "(s, l, idx) \<in> set (image_rows c m n k)"
  shows "l < k" and "idx < nat (num_priors c)"
proof -
  obtain i where i: "l < k" "i < detections_count m ! slot c n l"
    "idx = indices m ! (slot c n l * nat (num_priors c) + i)"
    using assms(4) by (auto simp: image_rows_def Let_def)
  then show "l < k" by simp
  have "slot_ok c m (slot c n l)" using assms i slot_bound [OF assms(2), of l c] by simp
  then show "idx < nat (num_priors c)" using i by (simp add: slot_ok_def Let_def)
qed

lemma of_label_take_perm:
  assumes "mset ys = mset xs"
  shows "of_label l (take k ys) \<le> of_label l xs"
proof -
  have "of_label l (take k ys) \<le> of_label l ys"
    unfolding of_label_def by (metis append_take_drop_id filter_append le_add1 length_append)
  also have "\<dots> = of_label l xs"
    unfolding of_label_def by (metis assms mset_filter size_mset)
  finally show ?thesis .
qed

lemma of_label_sum:
  assumes "\<And>s l idx. (s, l, idx) \<in> set xs \<Longrightarrow> l < k"
  shows "sum_list (map (\<lambda>l. of_label l xs) [0..<k]) = length xs"
  using assms
proof (induction xs)
  case Nil
  then show ?case by (simp add: of_label_def)
next
  case (Cons x xs)
  obtain s l idx where x: "x = (s, l, idx)" by (cases x) auto
  then have l: "l < k" using Cons.prems [of s l idx] by simp
  have "of_label l' (x # xs) = of_label l' xs + (if l' = l then 1 else 0)" for l'
    by (simp add: of_label_def x)
  then have "sum_list (map (\<lambda>l. of_label l (x # xs)) [0..<k]) =
      sum_list (map (\<lambda>l. of_label l xs) [0..<k]) + sum_list (map (\<lambda>l'. if l' = l then 1 else 0) [0..<k])"
    by (simp add: sum_list_addf)
  moreover have "sum_list (map (\<lambda>l'. if l' = l then 1 else 0) [0..<k]) = (1::nat)"
    using l by (simp add: interv_sum_list_conv_sum_set_nat)
  ultimately show ?case using Cons by auto
qed

text \<open>Storing the best detections: every slot of the image holds those of its class.\<close>

lemma ok_store_map:
  assumes c: "cfg_ok c" and n: "n < N" and inv: "run_inv c N rc (slot c (Suc n) 0) m"
    and xs: "\<And>s l idx. (s, l, idx) \<in> set xs \<Longrightarrow> l < nat (num_classes c) \<and> idx < nat (num_priors c)"
    and room: "\<And>l. of_label l xs \<le> nat (num_priors c)"
  shows "ok (store_map c n xs m) (\<lambda>m'. run_inv c N rc (slot c (Suc n) 0) m' \<and>
     (\<forall>l < nat (num_classes c). detections_count m' ! slot c n l = of_label l xs) \<and>
     (\<forall>j. j < slot c n 0 \<longrightarrow> detections_count m' ! j = detections_count m ! j))"
proof -
  define np nc where "np = nat (num_priors c)" "nc = nat (num_classes c)"
  note d = np_nc_def
  have m: "det_shape c N m" using inv by (simp add: run_inv_def)
  then have len: "length (indices m) = N * nc * np" "length (detections_count m) = N * nc"
    by (simp_all add: det_shape_def Let_def d)
  have fits: "n * nc + nc \<le> N * nc" using slot_end [OF n] .
  define dc0 where "dc0 = put (detections_count m) (n * nc) (replicate nc 0)"
  have start: "n * nc \<le> length (detections_count m)" using fits len by linarith
  have nc: "0 \<le> num_classes c" using c by (simp add: cfg_ok_def)
  have dc0: "fill (detections_count m) (n * nc) (num_classes c) 0 = Some dc0"
    using fits len nc by (simp add: fill_def blit_def dc0_def d)
  have dc0_len: "length dc0 = N * nc" using fits len by (simp add: dc0_def)
  have dc0_in: "dc0 ! (n * nc + l) = 0" if "l < nc" for l
    using nth_put [OF start, of l "replicate nc 0"] that by (simp add: dc0_def)
  have dc0_out: "dc0 ! j = detections_count m ! j" if "j < n * nc \<or> n * nc + nc \<le> j" for j
    using that fits len unfolding dc0_def by (intro nth_put_other) auto
  let ?I = "\<lambda>k (ind, dc). length ind = N * nc * np \<and> length dc = N * nc \<and>
    (\<forall>l < nc. dc ! (n * nc + l) = of_label l (take k xs)) \<and>
    (\<forall>j < N * nc. j < n * nc \<or> n * nc + nc \<le> j \<longrightarrow> dc ! j = detections_count m ! j) \<and>
    (\<forall>j < N * nc. \<forall>a < dc ! j. ind ! (j * np + a) < np)"
  have "ok (loop (length xs) (store_one c n xs) (indices m, dc0)) (?I (length xs))"
  proof (rule loop_ok [where I = ?I])
    have "\<forall>j < N * nc. \<forall>a < dc0 ! j. indices m ! (j * np + a) < np"
    proof (intro allI impI)
      fix j a assume j: "j < N * nc" and a: "a < dc0 ! j"
      have "\<not> (n * nc \<le> j \<and> j < n * nc + nc)"
      proof
        assume "n * nc \<le> j \<and> j < n * nc + nc"
        then obtain l where "j = n * nc + l" "l < nc"
          by (metis le_Suc_ex nat_add_left_cancel_less)
        then show False using dc0_in a by simp
      qed
      then have "dc0 ! j = detections_count m ! j" using dc0_out by (simp add: not_le not_less)
      then show "indices m ! (j * np + a) < np"
        using inv j a by (simp add: run_inv_def slot_ok_def Let_def d)
    qed
    then show "?I 0 (indices m, dc0)"
      using len dc0_len dc0_in dc0_out by (simp add: of_label_def)
  next
    fix k st assume k: "k < length xs" and I: "?I k st"
    obtain ind dc where st: "st = (ind, dc)" by (cases st)
    obtain s l idx where x: "xs ! k = (s, l, idx)" by (cases "xs ! k") auto
    have l: "l < nc" "idx < np" using xs [of s l idx] k x by (metis nth_mem d)+
    have tk: "take (Suc k) xs = take k xs @ [(s, l, idx)]" using k x by (simp add: take_Suc_conv_app_nth)
    have "of_label l (take (Suc k) xs) \<le> np"
      using room [of l] of_label_take_perm [of xs xs l "Suc k"] by (simp add: d)
    then have dl: "dc ! (n * nc + l) < np" using I l by (simp add: st tk of_label_def)
    have s: "n * nc + l < N * nc" using fits l by simp
    have ad: "n * nc * np + l * np + dc ! (n * nc + l) = (n * nc + l) * np + dc ! (n * nc + l)"
      by (simp add: algebra_simps)
    have bound: "(n * nc + l) * np + dc ! (n * nc + l) < N * nc * np" using s dl by (rule slot_less)
    define dc' ind' where "dc' = dc[n * nc + l := dc ! (n * nc + l) + 1]"
      and "ind' = ind[(n * nc + l) * np + dc ! (n * nc + l) := idx]"
    have "ind' ! (j * np + a) < np" if j: "j < N * nc" and a: "a < dc' ! j" for j a
    proof (cases "j * np + a = (n * nc + l) * np + dc ! (n * nc + l)")
      case True
      then show ?thesis using bound I l by (simp add: ind'_def st)
    next
      case False
      then have "a < dc ! j"
        using a I s by (cases "j = n * nc + l") (auto simp: dc'_def st)
      then show ?thesis using False I j by (simp add: ind'_def st)
    qed
    moreover have "dc' ! (n * nc + l') = of_label l' (take (Suc k) xs)" if "l' < nc" for l'
      using I that s unfolding st by (cases "l' = l") (simp_all add: dc'_def tk of_label_def)
    moreover have "dc' ! j = dc ! j" if "j < n * nc \<or> n * nc + nc \<le> j" for j
      using that l unfolding dc'_def by (intro nth_list_update_neq) auto
    ultimately have "?I (Suc k) (ind', dc')"
      using I by (simp add: st ind'_def dc'_def)
    then show "ok (store_one c n xs k st) (?I (Suc k))"
      using I s bound k x by (simp add: store_one_def Let_def d [symmetric] st rd_Some wr_Some ad ind'_def dc'_def)
  qed
  then obtain ind dc where run: "loop (length xs) (store_one c n xs) (indices m, dc0) = Some (ind, dc)" and I: "?I (length xs) (ind, dc)"
    by (auto elim!: okE)
  have "slot_ok c (m\<lparr>indices := ind, detections_count := dc\<rparr>) j" if j: "j < N * nc" for j
  proof -
    have "dc ! j \<le> np"
    proof (cases "j < n * nc \<or> n * nc + nc \<le> j")
      case True
      then show ?thesis using I inv j by (auto simp: run_inv_def slot_ok_def Let_def d)
    next
      case False
      then obtain l where "j = n * nc + l" "l < nc"
        by (metis le_Suc_ex nat_add_left_cancel_less not_less)
      then have "dc ! j = of_label l xs" using I by simp
      then show ?thesis using room by (simp add: d)
    qed
    then show ?thesis using I j by (simp add: slot_ok_def Let_def d)
  qed
  then have "run_inv c N rc (slot c (Suc n) 0) (m\<lparr>indices := ind, detections_count := dc\<rparr>)"
    using inv I by (auto simp: run_inv_def det_shape_def Let_def priors_known_def d slot_def add.commute)
  then show ?thesis
    using I fits by (simp add: store_map_def Let_def d [symmetric] dc0 run slot_def)
qed

section \<open>All images\<close>

lemma slot_next: "slot c n (nat (num_classes c)) = slot c (Suc n) 0"
  by (simp add: slot_def)

lemma slot_before: "i < n \<Longrightarrow> cl < nat (num_classes c) \<Longrightarrow> slot c i cl < slot c n 0"
  by (simp add: slot_def slot_less)

lemma image_total_cong:
  "\<forall>j < slot c n 0. detections_count m' ! j = detections_count m ! j \<Longrightarrow> i < n \<Longrightarrow>
   image_total c m' i = image_total c m i"
  unfolding image_total_def by (intro arg_cong [where f = sum_list] map_cong) (simp_all add: slot_before)

lemma ok_nms_image:
  assumes c: "cfg_ok c" and n: "n < N" and srt: "\<And>xs. mset (srt xs) = mset xs"
    and inv: "run_inv c N rc (slot c n 0) m"
  shows "ok (nms_image srt c n m) (\<lambda>m'. run_inv c N rc (slot c (Suc n) 0) m' \<and>
     (0 \<le> keep_top_k c \<longrightarrow> int (image_total c m' n) \<le> keep_top_k c) \<and>
     (\<forall>j < slot c n 0. detections_count m' ! j = detections_count m ! j))"
proof -
  let ?nc = "nat (num_classes c)"
  have "ok (loop ?nc (nms_class c n) m) (\<lambda>m'. run_inv c N rc (slot c n ?nc) m' \<and>
      (\<forall>j < slot c n 0. detections_count m' ! j = detections_count m ! j))"
    by (rule loop_ok, use inv in simp, rule ok_mono, rule ok_nms_class [OF c n]) (auto simp: slot_def)
  then obtain m1 where m1: "loop ?nc (nms_class c n) m = Some m1"
    and inv1: "run_inv c N rc (slot c (Suc n) 0) m1"
    and same1: "\<forall>j < slot c n 0. detections_count m1 ! j = detections_count m ! j"
    by (auto elim!: okE simp: slot_next)
  have shape: "det_shape c N m1" and slots: "\<forall>i < N * ?nc. slot_ok c m1 i"
    using inv1 by (simp_all add: run_inv_def)
  show ?thesis
  proof (cases "keep_top_k c > -1 \<and> int (image_total c m1 n) > keep_top_k c")
    case False
    then show ?thesis
      using inv1 same1 by (auto simp: nms_image_def m1 detections_total_eq [OF shape n])
  next
    case True
    define xs where "xs = take (nat (keep_top_k c)) (srt (image_rows c m1 n ?nc))"
    have sub: "set xs \<subseteq> set (image_rows c m1 n ?nc)"
      unfolding xs_def using set_take_subset srt by (metis mset_eq_setD)
    have lab: "l < ?nc \<and> idx < nat (num_priors c)" if "(s, l, idx) \<in> set xs" for s l idx
      using image_rows_bounds [OF slots n le_refl, of s l idx] that sub by auto
    have room: "of_label l xs \<le> nat (num_priors c)" for l
    proof -
      have "of_label l xs \<le> of_label l (image_rows c m1 n ?nc)"
        unfolding xs_def by (rule of_label_take_perm) (rule srt)
      also have "\<dots> \<le> nat (num_priors c)"
      proof (cases "l < ?nc")
        case True
        then have "slot_ok c m1 (slot c n l)" using slots slot_bound [OF n] by blast
        then show ?thesis using True by (simp add: of_label_image_rows slot_ok_def Let_def)
      qed (simp add: of_label_image_rows)
      finally show ?thesis .
    qed
    have "length (srt (image_rows c m1 n ?nc)) = image_total c m1 n"
      using srt by (metis image_total_def length_image_rows size_mset)
    then have len: "int (length xs) = keep_top_k c" using True by (auto simp: xs_def min_def)
    have "ok (store_map c n xs m1) (\<lambda>m'. run_inv c N rc (slot c (Suc n) 0) m' \<and>
     (\<forall>l < ?nc. detections_count m' ! slot c n l = of_label l xs) \<and>
     (\<forall>j. j < slot c n 0 \<longrightarrow> detections_count m' ! j = detections_count m1 ! j))"
      by (rule ok_store_map [OF c n inv1 lab room])
    then obtain m2 where m2: "store_map c n xs m1 = Some m2"
      and inv2: "run_inv c N rc (slot c (Suc n) 0) m2"
      and count: "\<forall>l < ?nc. detections_count m2 ! slot c n l = of_label l xs"
      and same2: "\<forall>j. j < slot c n 0 \<longrightarrow> detections_count m2 ! j = detections_count m1 ! j"
      by (auto elim!: okE)
    have "image_total c m2 n = sum_list (map (\<lambda>l. of_label l xs) [0..<?nc])"
      unfolding image_total_def using count by (intro arg_cong [where f = sum_list] map_cong) auto
    also have "\<dots> = length xs" using lab by (intro of_label_sum) blast
    finally show ?thesis
      using True inv2 same1 same2 len
      by (simp add: nms_image_def m1 detections_total_eq [OF shape n] collect_map_eq [OF shape n slots]
          m2 flip: xs_def)
  qed
qed

lemma ok_nms_images:
  assumes c: "cfg_ok c" and srt: "\<And>xs. mset (srt xs) = mset xs" and inv: "run_inv c N rc 0 m"
  shows "ok (loop N (nms_image srt c) m) (\<lambda>m'. run_inv c N rc (slot c N 0) m' \<and>
     (\<forall>i < N. 0 \<le> keep_top_k c \<longrightarrow> int (image_total c m' i) \<le> keep_top_k c))"
proof (rule loop_ok [where I = "\<lambda>n m'. run_inv c N rc (slot c n 0) m' \<and>
     (\<forall>i < n. 0 \<le> keep_top_k c \<longrightarrow> int (image_total c m' i) \<le> keep_top_k c)"])
  show "run_inv c N rc (slot c 0 0) m \<and> (\<forall>i < 0. 0 \<le> keep_top_k c \<longrightarrow>
      int (image_total c m i) \<le> keep_top_k c)"
    using inv by (simp add: slot_def)
next
  fix n m1 assume n: "n < N" and I: "run_inv c N rc (slot c n 0) m1 \<and>
     (\<forall>i < n. 0 \<le> keep_top_k c \<longrightarrow> int (image_total c m1 i) \<le> keep_top_k c)"
  show "ok (nms_image srt c n m1) (\<lambda>m'. run_inv c N rc (slot c (Suc n) 0) m' \<and>
     (\<forall>i < Suc n. 0 \<le> keep_top_k c \<longrightarrow> int (image_total c m' i) \<le> keep_top_k c))"
    by (rule ok_mono [OF ok_nms_image [OF c n srt]])
      (use I in \<open>auto simp: image_total_cong less_Suc_eq\<close>)
qed

section \<open>The rows written\<close>

definition out_row :: "det_cfg \<Rightarrow> det_mem \<Rightarrow> nat \<Rightarrow> nat \<Rightarrow> nat \<Rightarrow> ieee list" where
  "out_row c m n cl i =
     (let np = nat (num_priors c); s = slot c n cl; idx = indices m ! (s * np + i);
          b = (if share_location c then n else s) * (4 * np) + idx * 4 in
      [i2f (int n), i2f (int cl), reordered_conf m ! (s * np + idx), decoded_bboxes m ! b,
       decoded_bboxes m ! (b + 1), decoded_bboxes m ! (b + 2), decoded_bboxes m ! (b + 3)])"

definition class_rows :: "det_cfg \<Rightarrow> det_mem \<Rightarrow> nat \<Rightarrow> nat \<Rightarrow> ieee list list" where
  "class_rows c m n cl = map (out_row c m n cl) [0..<detections_count m ! slot c n cl]"

definition out_rows :: "det_cfg \<Rightarrow> det_mem \<Rightarrow> nat \<Rightarrow> nat \<Rightarrow> ieee list list" where
  "out_rows c m n k =
     concat (map (\<lambda>i. concat (map (class_rows c m i) [0..<nat (num_classes c)])) [0..<n]) @
     concat (map (class_rows c m n) [0..<k])"

lemma out_rows_Suc: "out_rows c m n (Suc k) = out_rows c m n k @ class_rows c m n k"
  by (simp add: out_rows_def)

lemma out_rows_next: "out_rows c m n (nat (num_classes c)) = out_rows c m (Suc n) 0"
  by (simp add: out_rows_def)

lemma out_row_7: "length (out_row c m n cl i) = 7"
  by (simp add: out_row_def Let_def)

lemma out_rows_7: "r \<in> set (out_rows c m n k) \<Longrightarrow> length r = 7"
  by (auto simp: out_rows_def class_rows_def out_row_7)

lemma length_concat_7: "(\<And>r. r \<in> set rs \<Longrightarrow> length r = 7) \<Longrightarrow> length (concat rs) = length rs * 7"
  by (induction rs) auto

lemma length_out_rows:
  "length (out_rows c m n k) = sum_list (map (image_total c m) [0..<n]) +
     sum_list (map (\<lambda>cl. detections_count m ! slot c n cl) [0..<k])"
proof -
  have cls: "length (concat (map (class_rows c m i) [0..<k])) =
      sum_list (map (\<lambda>cl. detections_count m ! slot c i cl) [0..<k])" for i k
    by (induction k) (simp_all add: class_rows_def)
  have "length (concat (map (\<lambda>i. concat (map (class_rows c m i) [0..<nat (num_classes c)])) [0..<n])) =
      sum_list (map (image_total c m) [0..<n])"
    by (induction n) (simp_all add: cls image_total_def)
  then show ?thesis by (simp add: out_rows_def cls)
qed

text \<open>The seven stores of a row append it to the rows written so far.\<close>

lemma write_row:
  assumes "length ys = k" and "k + 7 \<le> length xs"
  shows "do { d \<leftarrow> wr (put xs 0 ys) (k + 0) v0; d \<leftarrow> wr d (k + 1) v1; d \<leftarrow> wr d (k + 2) v2;
      d \<leftarrow> wr d (k + 3) v3; d \<leftarrow> wr d (k + 4) v4; d \<leftarrow> wr d (k + 5) v5;
      d \<leftarrow> wr d (k + 6) v6; f d } = f (put xs 0 (ys @ [v0, v1, v2, v3, v4, v5, v6]))"
proof -
  have w: "wr (put xs 0 (ys @ zs)) (k + length zs) v = Some (put xs 0 (ys @ zs @ [v]))"
    if "length zs < 7" for zs v
    using wr_put [of 0 "ys @ zs" xs v] assms that by simp
  show ?thesis
    using w [of "[]" v0] w [of "[v0]" v1] w [of "[v0, v1]" v2] w [of "[v0, v1, v2]" v3]
      w [of "[v0, v1, v2, v3]" v4] w [of "[v0, v1, v2, v3, v4]" v5]
      w [of "[v0, v1, v2, v3, v4, v5]" v6]
    by (simp add: numeral_eq_Suc)
qed

lemma emit_row_eq:
  assumes c: "cfg_ok c" and n: "n < N" and cl: "cl < nat (num_classes c)" and inv: "run_inv c N rc j m"
    and i: "i < detections_count m ! slot c n cl"
    and len: "length ys = k * 7" and room: "k * 7 + 7 \<le> length dst"
  shows "emit_row c m n cl i (put dst 0 ys, k) =
    Some (put dst 0 (ys @ out_row c m n cl i), k + 1)"
proof -
  define np nc where "np = nat (num_priors c)" "nc = nat (num_classes c)"
  note d = np_nc_def
  define s b where "s = slot c n cl" and "b = (if share_location c then n else s)"
  define idx where "idx = indices m ! (s * np + i)"
  define B where "B = b * (4 * np) + idx * 4"
  have m: "det_shape c N m" using inv by (simp add: run_inv_def)
  have s: "s < N * nc" using slot_bound [OF n cl] by (simp add: d s_def)
  have sl: "slot_ok c m s" using inv s by (simp add: run_inv_def d)
  have "0 < nc" using c by (simp add: cfg_ok_def d)
  then have "N * 1 \<le> N * nc" by (intro mult_le_mono2) simp
  with n have "n < N * nc" by linarith
  then have b: "b < N * nc" using s by (simp add: b_def)
  have i': "i < np" "idx < np"
    using sl i by (simp_all add: slot_ok_def Let_def d idx_def s_def)
  have "b * (4 * np) + 4 * np \<le> length (decoded_bboxes m)"
    using slot_end [OF b, of "4 * np"] m by (simp add: det_shape_def Let_def d algebra_simps)
  then have box: "B + 3 < length (decoded_bboxes m)"
    using slot_end [OF i'(2), of 4] by (simp add: B_def)
  have rds: "rd (indices m) (s * np + i) = Some idx"
    "rd (reordered_conf m) (s * np + idx) = Some (reordered_conf m ! (s * np + idx))"
    "rd (decoded_bboxes m) (B + 0) = Some (decoded_bboxes m ! B)"
    "rd (decoded_bboxes m) (B + 1) = Some (decoded_bboxes m ! (B + 1))"
    "rd (decoded_bboxes m) (B + 2) = Some (decoded_bboxes m ! (B + 2))"
    "rd (decoded_bboxes m) (B + 3) = Some (decoded_bboxes m ! (B + 3))"
    using slot_less [OF s i'(1)] slot_less [OF s i'(2)] m box
    by (simp_all add: det_shape_def Let_def d rd_def idx_def)
  have off: "n * nc * np + (cl * np + x) = s * np + x" "n * np * nc + (cl * np + x) = s * np + x"
    "n * np * 4 * nat (num_loc_classes c) +
      (if share_location c then idx * 4 else cl * 4 * np + idx * 4) = B" for x
    using c by (simp_all add: cfg_ok_def B_def b_def s_def slot_def d algebra_simps)
  have row: "out_row c m n cl i = [i2f (int n), i2f (int cl), reordered_conf m ! (s * np + idx),
      decoded_bboxes m ! B, decoded_bboxes m ! (B + 1), decoded_bboxes m ! (B + 2), decoded_bboxes m ! (B + 3)]"
    by (simp add: out_row_def Let_def s_def b_def idx_def B_def d)
  show ?thesis
    unfolding emit_row_def prod.case Let_def d [symmetric] off rds Option.bind.bind_lunit
      write_row [OF len room] row
    by (rule refl)
qed

lemma emit_class_eq:
  assumes c: "cfg_ok c" and n: "n < N" and cl: "cl < nat (num_classes c)" and inv: "run_inv c N rc j m"
    and room: "length (out_rows c m n (Suc cl)) * 7 \<le> length dst"
  shows "emit_class c m n cl (put dst 0 (concat (out_rows c m n cl)), length (out_rows c m n cl)) =
    Some (put dst 0 (concat (out_rows c m n (Suc cl))), length (out_rows c m n (Suc cl)))"
proof -
  let ?rows = "\<lambda>i. out_rows c m n cl @ map (out_row c m n cl) [0..<i]"
  let ?d = "detections_count m ! slot c n cl"
  have "ok (loop ?d (emit_row c m n cl) (put dst 0 (concat (out_rows c m n cl)), length (out_rows c m n cl)))
    (\<lambda>st. st = (put dst 0 (concat (?rows ?d)), length (?rows ?d)))"
  proof (rule loop_ok [where I = "\<lambda>i st. st = (put dst 0 (concat (?rows i)), length (?rows i))"])
    fix i st assume i: "i < ?d" and st: "st = (put dst 0 (concat (?rows i)), length (?rows i))"
    have len: "length (concat (?rows i)) = length (?rows i) * 7"
      by (rule length_concat_7) (auto simp: out_row_7 dest: out_rows_7)
    have "length (?rows (Suc i)) \<le> length (out_rows c m n (Suc cl))"
      using i by (simp add: out_rows_Suc class_rows_def)
    then have "length (?rows i) * 7 + 7 \<le> length dst" using room by simp
    from emit_row_eq [OF c n cl inv i len this]
    show "ok (emit_row c m n cl i st) (\<lambda>st. st = (put dst 0 (concat (?rows (Suc i))), length (?rows (Suc i))))"
      by (simp add: st)
  qed simp
  moreover have "slot c n cl < length (detections_count m)"
    using slot_bound [OF n cl] inv by (simp add: run_inv_def det_shape_def Let_def)
  ultimately show ?thesis
    by (simp add: emit_class_def rd_def out_rows_Suc class_rows_def ok_eq_Some flip: slot_def)
qed

section \<open>The output\<close>

lemma dst_bytes_nonneg:
  assumes "0 \<le> k" and "int_ok k"
  shows "unat (dst_bytes k) = nat k * 4"
proof -
  have "dst_bytes k = word_of_nat (nat k * 4)"
    using assms(1) by (simp add: dst_bytes_def)
  moreover have "nat k * 4 < 2 ^ LENGTH(64)" using assms by (simp add: int_ok_def)
  ultimately show ?thesis by (simp only: unat_of_nat mod_less)
qed

lemma dst_bytes_neg:
  assumes "k < 0" and "int_ok k"
  shows "2 ^ 64 - 2 ^ 33 \<le> unat (dst_bytes k)"
proof -
  have "dst_bytes k = word_of_int (k * 4)" by (simp add: dst_bytes_def)
  then have "uint (dst_bytes k) = (k * 4) mod 2 ^ LENGTH(64)" by (simp only: uint_word_of_int)
  also have "\<dots> = (k * 4 + 2 ^ LENGTH(64)) mod 2 ^ LENGTH(64)" by (simp only: mod_add_self2)
  also have "\<dots> = k * 4 + 2 ^ LENGTH(64)"
    using assms by (intro mod_pos_pos_trivial) (simp_all add: int_ok_def)
  finally have "uint (dst_bytes k) = k * 4 + 2 ^ 64" by simp
  moreover have "- (2 ^ 33) \<le> k * 4" using assms by (simp add: int_ok_def)
  ultimately have "2 ^ 64 - 2 ^ 33 \<le> uint (dst_bytes k)" by linarith
  then have "nat (2 ^ 64 - 2 ^ 33) \<le> nat (uint (dst_bytes k))" by (rule nat_mono)
  then show ?thesis by (simp add: nat_diff_distrib)
qed

definition limit :: "det_cfg \<Rightarrow> nat \<Rightarrow> nat" where
  "limit c N = N * nat (keep_top_k c)"

lemma length_out_rows_le:
  assumes totals: "\<forall>i < N. int (image_total c m i) \<le> keep_top_k c" and "n < N" and "k \<le> nat (num_classes c)"
  shows "length (out_rows c m n k) \<le> Suc n * nat (keep_top_k c)"
proof -
  have t: "image_total c m i \<le> nat (keep_top_k c)" if "i < N" for i
  proof -
    have "int (image_total c m i) \<le> keep_top_k c" using totals that by blast
    then show ?thesis by linarith
  qed
  have before: "sum_list (map (image_total c m) [0..<n]) \<le> n * nat (keep_top_k c)" if "n \<le> N" for n
    using that
  proof (induction n)
    case (Suc n)
    then show ?case using t [of n] by simp
  qed simp
  have "sum_list (map (\<lambda>cl. detections_count m ! slot c n cl) [0..<k]) \<le> image_total c m n"
    unfolding image_total_def using assms(3)
    by (simp add: interv_sum_list_conv_sum_set_nat sum_mono2)
  then show ?thesis
    using assms(2) t [of n] before [of n] unfolding length_out_rows by simp
qed

definition finished :: "det_cfg \<Rightarrow> nat \<Rightarrow> det_mem \<Rightarrow> ieee list \<Rightarrow> ieee list" where
  "finished c N m dst =
     (let rows = out_rows c m N 0;
          d = put (put dst 0 (replicate (limit c N * 7) (Fin 0))) 0 (concat rows) in
      if length rows < limit c N then d[length rows * 7 := i2f (-1)] else d)"

lemma emit_all_eq:
  assumes c: "cfg_ok c" and inv: "run_inv c N rc j m"
    and totals: "\<forall>i < N. int (image_total c m i) \<le> keep_top_k c" and room: "limit c N * 7 \<le> length dst"
  shows "loop N (\<lambda>n. loop (nat (num_classes c)) (emit_class c m n)) (dst, 0) =
    Some (put dst 0 (concat (out_rows c m N 0)), length (out_rows c m N 0))"
proof -
  have fits: "length (out_rows c m n k) * 7 \<le> length dst" if "n < N" "k \<le> nat (num_classes c)" for n k
  proof -
    have "length (out_rows c m n k) \<le> Suc n * nat (keep_top_k c)"
      by (rule length_out_rows_le [OF totals that])
    also have "\<dots> \<le> limit c N" using that(1) unfolding limit_def by (intro mult_le_mono1) simp
    finally show ?thesis using room by simp
  qed
  have "ok (loop N (\<lambda>n. loop (nat (num_classes c)) (emit_class c m n)) (dst, 0))
    (\<lambda>st. st = (put dst 0 (concat (out_rows c m N 0)), length (out_rows c m N 0)))"
  proof (rule loop_ok [where I = "\<lambda>n st. st = (put dst 0 (concat (out_rows c m n 0)), length (out_rows c m n 0))"])
    fix n st assume n: "n < N" and st: "st = (put dst 0 (concat (out_rows c m n 0)), length (out_rows c m n 0))"
    show "ok (loop (nat (num_classes c)) (emit_class c m n) st)
       (\<lambda>st. st = (put dst 0 (concat (out_rows c m (Suc n) 0)), length (out_rows c m (Suc n) 0)))"
      unfolding out_rows_next [symmetric]
      by (rule loop_ok, rule st) (simp add: emit_class_eq [OF c n _ inv] fits n)
  qed (simp add: out_rows_def)
  then show ?thesis by (simp add: ok_eq_Some)
qed

lemma write_output_OK:
  assumes c: "cfg_ok c" and inv: "run_inv c N rc j m"
    and totals: "\<forall>i < N. int (image_total c m i) \<le> keep_top_k c" and ktk: "0 \<le> keep_top_k c"
    and dims: "length (dims out) = 4" "dims out ! 3 = 7"
    and room: "limit c N * 7 \<le> length (data out)" and small: "int_ok (int (limit c N * 7))"
  shows "write_output c N m out = Some (OK, out\<lparr>data := finished c N m (data out)\<rparr>)"
proof -
  have k: "int N * keep_top_k c = int (limit c N)" using ktk by (simp add: limit_def)
  have small': "int_ok (int (limit c N))" using small by (simp add: int_ok_def)
  have size: "unat (dst_bytes (int (limit c N) * 7)) = limit c N * 7 * 4"
    using dst_bytes_nonneg [of "int (limit c N * 7)"] small by (simp add: nat_mult_distrib)
  define dst where "dst = put (data out) 0 (replicate (limit c N * 7) (Fin 0))"
  have len: "length dst = length (data out)" using room by (simp add: dst_def)
  have small7: "int_ok (int (limit c N) * 7)" using small by simp
  have div4: "limit c N * 7 * 4 div 4 = limit c N * 7" by simp
  have b: "blit (data out) 0 (replicate (limit c N * 7) (Fin 0)) = Some dst"
    using room by (simp add: blit_def dst_def)
  have run: "loop N (\<lambda>n. loop (nat (num_classes c)) (emit_class c m n)) (dst, 0) =
    Some (put dst 0 (concat (out_rows c m N 0)), length (out_rows c m N 0))"
    using room len by (intro emit_all_eq [OF c inv totals]) simp
  have rows: "length (concat (out_rows c m N 0)) = length (out_rows c m N 0) * 7"
    by (rule length_concat_7) (rule out_rows_7)
  show ?thesis
    using small7 small' room dims rows len
    unfolding write_output_def k Let_def size div4 b
    by (simp add: rd_def run finished_def Let_def wr_def flip: dst_def)
qed

section \<open>The layer's run\<close>

lemma run_inv_start:
  assumes m: "det_shape c N m" and c: "cfg_ok c" and len: "length rc = N * nat (num_classes c) * nat (num_priors c)"
    and known: "\<forall>i < N. (\<exists>cl < nat (num_classes c). foreground c cl) \<longrightarrow> priors_known c i m"
  shows "\<exists>dc. fill (detections_count m) 0 (int N * num_classes c) 0 = Some dc \<and>
    run_inv c N rc 0 (m\<lparr>reordered_conf := rc, detections_count := dc\<rparr>)"
proof -
  let ?k = "N * nat (num_classes c)"
  have k: "int N * num_classes c = int ?k" using c by (simp add: cfg_ok_def)
  have dc: "length (detections_count m) = ?k" using m by (simp add: det_shape_def Let_def)
  then have "fill (detections_count m) 0 (int N * num_classes c) 0 = Some (replicate ?k 0)"
    unfolding k fill_def nat_int by (simp add: blit_def put_def del: of_nat_mult)
  then show ?thesis
    using m len known
    by (simp add: run_inv_def det_shape_def Let_def priors_known_def slot_ok_def)
qed

lemma det_prepare:
  assumes c: "cfg_ok c" and m: "det_shape c N m" and inp: "inputs_ok c N loc conf prior"
    and srt: "\<And>xs. mset (srt xs) = mset xs"
  shows "\<exists>m1 rc dc m2. decode_all expf c prior loc N m = Some m1 \<and>
    reorder_conf c conf N (reordered_conf m1) = Some rc \<and>
    fill (detections_count m1) 0 (int N * num_classes c) 0 = Some dc \<and>
    loop N (nms_image srt c) (m1\<lparr>reordered_conf := rc, detections_count := dc\<rparr>) = Some m2 \<and>
    run_inv c N rc (slot c N 0) m2 \<and>
    (\<forall>i < N. 0 \<le> keep_top_k c \<longrightarrow> int (image_total c m2 i) \<le> keep_top_k c)"
proof -
  obtain m1 where m1: "decode_all expf c prior loc N m = Some m1" "det_shape c N m1"
    "\<forall>i < N. (\<exists>cl < nat (num_classes c). foreground c cl) \<longrightarrow> priors_known c i m1"
    using ok_decode_all [OF c m inp, where expf = expf] by (auto elim!: okE)
  have lens: "length conf = N * (nat (num_priors c) * nat (num_classes c))"
    "length (reordered_conf m1) = N * nat (num_classes c) * nat (num_priors c)"
    using inp m1(2) by (simp_all add: inputs_ok_def det_shape_def Let_def)
  obtain rc where rc: "reorder_conf c conf N (reordered_conf m1) = Some rc"
    "length rc = length (reordered_conf m1)"
    using ok_reorder_conf [OF lens] by (auto elim!: okE)
  obtain dc where dc: "fill (detections_count m1) 0 (int N * num_classes c) 0 = Some dc"
    "run_inv c N rc 0 (m1\<lparr>reordered_conf := rc, detections_count := dc\<rparr>)"
    using run_inv_start [OF m1(2) c _ m1(3)] rc(2) lens(2) by metis
  show ?thesis
    using m1(1) rc(1) dc ok_nms_images [OF c srt dc(2)] by (auto elim!: okE)
qed

lemma det_run:
  assumes c: "cfg_ok c" and m: "det_shape c N m" and N: "rd (dims conf) 0 = Some N"
    and inp: "inputs_ok c N (data loc) (data conf) (data prior)" and srt: "\<And>xs. mset (srt xs) = mset xs"
    and ktk: "0 \<le> keep_top_k c" and dims: "length (dims out) = 4" "dims out ! 3 = 7"
    and room: "N * nat (keep_top_k c) * 7 \<le> length (data out)"
    and small: "int_ok (int (N * nat (keep_top_k c) * 7))"
  obtains m' rc where "det_execute expf srt c m loc conf prior out =
      Some (OK, m', out\<lparr>data := finished c N m' (data out)\<rparr>)"
    "run_inv c N rc (slot c N 0) m'" "\<forall>n < N. int (image_total c m' n) \<le> keep_top_k c"
proof -
  obtain m1 rc dc m2 where run: "decode_all expf c (data prior) (data loc) N m = Some m1"
    "reorder_conf c (data conf) N (reordered_conf m1) = Some rc"
    "fill (detections_count m1) 0 (int N * num_classes c) 0 = Some dc"
    "loop N (nms_image srt c) (m1\<lparr>reordered_conf := rc, detections_count := dc\<rparr>) = Some m2"
    and inv: "run_inv c N rc (slot c N 0) m2"
    and tot: "\<forall>i < N. 0 \<le> keep_top_k c \<longrightarrow> int (image_total c m2 i) \<le> keep_top_k c"
    using det_prepare [OF c m inp srt, where expf = expf] by blast
  have tot: "\<forall>i < N. int (image_total c m2 i) \<le> keep_top_k c" using tot ktk by blast
  have "write_output c N m2 out = Some (OK, out\<lparr>data := finished c N m2 (data out)\<rparr>)"
    using room small by (intro write_output_OK [OF c inv tot ktk dims]) (simp_all add: limit_def)
  then have "det_execute expf srt c m loc conf prior out = Some (OK, m2, out\<lparr>data := finished c N m2 (data out)\<rparr>)"
    by (simp add: det_execute_def N run)
  then show ?thesis using that inv tot by blast
qed

text \<open>
  C1: On the memory its constructor allocates, with inputs of the promised volumes, a limit
  \<open>keep_top_k >= 0\<close> and an output of \<open>N * keep_top_k\<close> rows of seven, the layer never leaves a
  buffer and returns \<open>OK\<close>; every image ends with at most \<open>keep_top_k\<close> detections; and the output
  is exactly their rows, image by image and class by class, then the end marker when there is
  room for one, then zeros.
\<close>

theorem det_execute_ok:
  assumes c: "cfg_ok c" and m: "det_shape c N m" and N: "rd (dims conf) 0 = Some N"
    and inp: "inputs_ok c N (data loc) (data conf) (data prior)" and srt: "\<And>xs. mset (srt xs) = mset xs"
    and ktk: "0 \<le> keep_top_k c" and dims: "length (dims out) = 4" "dims out ! 3 = 7"
    and room: "N * nat (keep_top_k c) * 7 \<le> length (data out)"
    and small: "int_ok (int (N * nat (keep_top_k c) * 7))"
  shows "\<exists>m'. det_execute expf srt c m loc conf prior out =
      Some (OK, m', out\<lparr>data := finished c N m' (data out)\<rparr>) \<and> det_shape c N m' \<and>
    (\<forall>n < N. int (image_total c m' n) \<le> keep_top_k c) \<and>
    (\<forall>n < N. \<forall>cl < nat (num_classes c). slot_ok c m' (slot c n cl))"
proof -
  obtain m' rc where "det_execute expf srt c m loc conf prior out = Some (OK, m', out\<lparr>data := finished c N m' (data out)\<rparr>)"
    "run_inv c N rc (slot c N 0) m'" "\<forall>n < N. int (image_total c m' n) \<le> keep_top_k c"
    by (rule det_run [OF assms])
  then show ?thesis using slot_bound by (auto simp: run_inv_def)
qed

text \<open>
  With the default \<open>keep_top_k = -1\<close> (no limit) the layer never succeeds: the byte size
  of the output, negative on \<open>int\<close>, wraps to a huge \<open>size_t\<close>, and the layer answers
  \<open>OUT_OF_BOUNDS\<close> and writes nothing.
\<close>

theorem det_execute_unlimited:
  assumes c: "cfg_ok c" and m: "det_shape c N m" and N: "rd (dims conf) 0 = Some N" "0 < N" "N < 2 ^ 24"
    and inp: "inputs_ok c N (data loc) (data conf) (data prior)" and srt: "\<And>xs. mset (srt xs) = mset xs"
    and ktk: "keep_top_k c = -1" and dims: "length (dims out) = 4" "dims out ! 3 = 7"
    and mem: "4 * length (data out) < 2 ^ 64 - 2 ^ 33"
  shows "\<exists>m'. det_execute expf srt c m loc conf prior out = Some (OUT_OF_BOUNDS, m', out)"
proof -
  obtain m1 rc dc m2 where run: "decode_all expf c (data prior) (data loc) N m = Some m1"
    "reorder_conf c (data conf) N (reordered_conf m1) = Some rc"
    "fill (detections_count m1) 0 (int N * num_classes c) 0 = Some dc"
    "loop N (nms_image srt c) (m1\<lparr>reordered_conf := rc, detections_count := dc\<rparr>) = Some m2"
    using det_prepare [OF c m inp srt, where expf = expf] by blast
  have small: "int_ok (- int N * 7)" "int_ok (- int N)" using N by (simp_all add: int_ok_def)
  have "2 ^ 64 - 2 ^ 33 \<le> unat (dst_bytes (- int N * 7))"
    using N small by (intro dst_bytes_neg) simp_all
  then have "4 * length (data out) < unat (dst_bytes (- int N * 7))" using mem by linarith
  then have "write_output c N m2 out = Some (OUT_OF_BOUNDS, out)"
    using small dims by (simp add: write_output_def ktk rd_def)
  then show ?thesis by (simp add: det_execute_def N run)
qed

definition small_in :: "nat \<Rightarrow> blob" where
  "small_in k = \<lparr>dims = [1, k], data = replicate k (Fin (1/2))\<rparr>"

definition small_out :: blob where
  "small_out = \<lparr>dims = [1, 1, 1, 7], data = replicate 7 NaN\<rparr>"

lemma small_ok:
  "cfg_ok (small_cfg ktk)" "det_shape (small_cfg ktk) 1 (alloc_mem (small_cfg ktk) 4 NaN 0)"
  "inputs_ok (small_cfg ktk) 1 (data (small_in 8)) (data (small_in 4)) (data (small_in 8))"
  by (simp_all add: cfg_ok_def small_cfg_def det_shape_def alloc_mem_def inputs_ok_def small_in_def)

theorem det_execute_ok_witness:
  "\<exists>m'. det_execute id id (small_cfg 1) (alloc_mem (small_cfg 1) 4 NaN 0) (small_in 8) (small_in 4)
      (small_in 8) small_out =
    Some (OK, m', small_out\<lparr>data := finished (small_cfg 1) 1 m' (data small_out)\<rparr>)"
  using det_execute_ok [of "small_cfg 1" 1 "alloc_mem (small_cfg 1) 4 NaN 0" "small_in 4" "small_in 8"
      "small_in 8" id small_out id] small_ok [of 1]
  by (auto simp: small_in_def small_out_def rd_def int_ok_def small_cfg_def)

theorem det_execute_unlimited_witness:
  "\<exists>m'. det_execute id id (small_cfg (-1)) (alloc_mem (small_cfg (-1)) 4 NaN 0) (small_in 8)
      (small_in 4) (small_in 8) small_out = Some (OUT_OF_BOUNDS, m', small_out)"
  using det_execute_unlimited [of "small_cfg (-1)" 1 "alloc_mem (small_cfg (-1)) 4 NaN 0"
      "small_in 4" "small_in 8" "small_in 8" id small_out id] small_ok [of "-1"]
  by (auto simp: small_in_def small_out_def rd_def small_cfg_def)




end
