(* ===== verification/Proposal.thy ===== *)
theory Proposal
  imports Ext_Base Std_Sort Greedy_Nms
begin

text \<open>
  The \<open>Proposal\<close> layer (\<open>extension/ext_proposal.cpp\<close>): anchors, enumeration and clipping of
  the proposals, selection of the best ones, non-maximum suppression in its two builds (the
  scalar loop and the AVX2 loop, which handles eight boxes per step), and the output.

  The array of \<open>ProposalBox\<close> structures is a list of records. \<open>psort k\<close> stands for
  \<open>std::partial_sort\<close> of the first \<open>k\<close> by score, whose order of equal scores is left open.
\<close>

section \<open>Anchors\<close>

definition anchor_row ::
    "ieee \<Rightarrow> ieee \<Rightarrow> ieee \<Rightarrow> ieee list \<Rightarrow> nat \<Rightarrow> nat \<Rightarrow> nat \<Rightarrow> nat \<Rightarrow> ieee list \<Rightarrow> ieee list option" where
  "anchor_row center ratio_w ratio_h scales nr ns ratio scale anchors = do {
     s \<leftarrow> rd scales scale;
     let scale_w = mulf (Fin (1/2)) (subf (mulf ratio_w s) (Fin 1));
     let scale_h = mulf (Fin (1/2)) (subf (mulf ratio_h s) (Fin 1));
     anchors \<leftarrow> wr anchors (0 * nr * ns + ratio * ns + scale) (subf center scale_w);
     anchors \<leftarrow> wr anchors (1 * nr * ns + ratio * ns + scale) (subf center scale_h);
     anchors \<leftarrow> wr anchors (2 * nr * ns + ratio * ns + scale) (addf center scale_w);
     wr anchors (3 * nr * ns + ratio * ns + scale) (addf center scale_h)
   }"

definition anchor_ratio ::
    "ieee \<Rightarrow> ieee \<Rightarrow> ieee list \<Rightarrow> ieee list \<Rightarrow> nat \<Rightarrow> nat \<Rightarrow> nat \<Rightarrow> ieee list \<Rightarrow> ieee list option" where
  "anchor_ratio base_area center ratios scales num_ratios num_scales ratio anchors = do {
     r \<leftarrow> rd ratios ratio;
     let ratio_w = fround (fsqrt b32 (divf base_area r));
     let ratio_h = fround (mulf ratio_w r);
     loop num_scales (anchor_row center ratio_w ratio_h scales num_ratios num_scales ratio) anchors
   }"

definition generate_anchors ::
    "int \<Rightarrow> ieee list \<Rightarrow> ieee list \<Rightarrow> nat \<Rightarrow> nat \<Rightarrow> ieee list \<Rightarrow> ieee list option" where
  "generate_anchors base_size ratios scales num_ratios num_scales anchors =
     (if base_size * base_size < - (2 ^ 31) \<or> 2 ^ 31 \<le> base_size * base_size then None else
      let base_area = i2f (base_size * base_size);
          center = mulf (Fin (1/2)) (subf (i2f base_size) (Fin 1)) in
      loop num_ratios (anchor_ratio base_area center ratios scales num_ratios num_scales) anchors)"

section \<open>Enumeration of the proposals\<close>

record pbox =
  x0 :: ieee
  y0 :: ieee
  x1 :: ieee
  y1 :: ieee
  score :: ieee

text \<open>\<open>true\<close> and \<open>false\<close> as the \<open>int\<close> factors of a product with a float.\<close>

definition flag :: "bool \<Rightarrow> int" where
  "flag b = (if b then 1 else 0)"

definition predict_box ::
    "(ieee \<Rightarrow> ieee) \<Rightarrow> ieee \<Rightarrow> ieee \<Rightarrow> ieee \<times> ieee \<times> ieee \<times> ieee \<Rightarrow> ieee \<times> ieee \<times> ieee \<times> ieee \<Rightarrow> ieee
     \<Rightarrow> ieee \<Rightarrow> ieee \<Rightarrow> ieee \<Rightarrow> ieee \<Rightarrow> pbox" where
  "predict_box expf x y anchor delta sc img_H img_W min_box_H min_box_W =
     (let (wm, hm, wp, hp) = anchor; (dx, dy, d_log_w, d_log_h) = delta;
          ax0 = addf x wm; ay0 = addf y hm; ax1 = addf x wp; ay1 = addf y hp;
          ww = addf (subf ax1 ax0) (Fin 1); hh = addf (subf ay1 ay0) (Fin 1);
          ctr_x = addf ax0 (mulf (Fin (1/2)) ww); ctr_y = addf ay0 (mulf (Fin (1/2)) hh);
          pred_ctr_x = addf (mulf dx ww) ctr_x; pred_ctr_y = addf (mulf dy hh) ctr_y;
          pred_w = mulf (expf d_log_w) ww; pred_h = mulf (expf d_log_h) hh;
          px0 = subf pred_ctr_x (mulf (Fin (1/2)) pred_w);
          py0 = subf pred_ctr_y (mulf (Fin (1/2)) pred_h);
          px1 = addf pred_ctr_x (mulf (Fin (1/2)) pred_w);
          py1 = addf pred_ctr_y (mulf (Fin (1/2)) pred_h);
          cx0 = cmax (Fin 0) (cmin px0 (subf img_W (Fin 1)));
          cy0 = cmax (Fin 0) (cmin py0 (subf img_H (Fin 1)));
          cx1 = cmax (Fin 0) (cmin px1 (subf img_W (Fin 1)));
          cy1 = cmax (Fin 0) (cmin py1 (subf img_H (Fin 1)));
          box_w = addf (subf cx1 cx0) (Fin 1); box_h = addf (subf cy1 cy0) (Fin 1)
      in \<lparr>x0 = cx0, y0 = cy0, x1 = cx1, y1 = cy1,
          score = mulf (i2f (flag (fle min_box_W box_w) * flag (fle min_box_H box_h))) sc\<rparr>)"

text \<open>
  One anchor at one position of the feature map; \<open>so\<close> is the offset of the scores in
  \<open>bottom4d\<close>. The parallel loops write disjoint elements.
\<close>

definition enumerate_one ::
    "(ieee \<Rightarrow> ieee) \<Rightarrow> ieee list \<Rightarrow> nat \<Rightarrow> ieee list \<Rightarrow> ieee list \<Rightarrow> nat \<Rightarrow> nat \<Rightarrow> nat \<Rightarrow> ieee \<Rightarrow> ieee
     \<Rightarrow> ieee \<Rightarrow> ieee \<Rightarrow> int \<Rightarrow> nat \<Rightarrow> nat \<Rightarrow> nat \<Rightarrow> pbox list \<Rightarrow> pbox list option" where
  "enumerate_one expf bottom4d so d_anchor4d anchors num_anchors bottom_H bottom_W img_H img_W
       min_box_H min_box_W feat_stride h w anchor proposals = do {
     let bottom_area = bottom_H * bottom_W;
     let x = i2f (int w * feat_stride);
     let y = i2f (int h * feat_stride);
     dx \<leftarrow> rd d_anchor4d (h * bottom_W + w + (anchor * 4 + 0) * bottom_area);
     dy \<leftarrow> rd d_anchor4d (h * bottom_W + w + (anchor * 4 + 1) * bottom_area);
     d_log_w \<leftarrow> rd d_anchor4d (h * bottom_W + w + (anchor * 4 + 2) * bottom_area);
     d_log_h \<leftarrow> rd d_anchor4d (h * bottom_W + w + (anchor * 4 + 3) * bottom_area);
     sc \<leftarrow> rd bottom4d (so + (h * bottom_W + w) + anchor * bottom_area);
     wm \<leftarrow> rd anchors (0 * num_anchors + anchor);
     hm \<leftarrow> rd anchors (1 * num_anchors + anchor);
     wp \<leftarrow> rd anchors (2 * num_anchors + anchor);
     hp \<leftarrow> rd anchors (3 * num_anchors + anchor);
     wr proposals ((h * bottom_W + w) * num_anchors + anchor)
       (predict_box expf x y (wm, hm, wp, hp) (dx, dy, d_log_w, d_log_h) sc img_H img_W
          min_box_H min_box_W)
   }"

definition enumerate_proposals_cpu ::
    "(ieee \<Rightarrow> ieee) \<Rightarrow> ieee list \<Rightarrow> nat \<Rightarrow> ieee list \<Rightarrow> ieee list \<Rightarrow> nat \<Rightarrow> nat \<Rightarrow> nat \<Rightarrow> ieee \<Rightarrow> ieee
     \<Rightarrow> ieee \<Rightarrow> ieee \<Rightarrow> int \<Rightarrow> pbox list \<Rightarrow> pbox list option" where
  "enumerate_proposals_cpu expf bottom4d so d_anchor4d anchors num_anchors bottom_H bottom_W
       img_H img_W min_box_H min_box_W feat_stride proposals =
     loop bottom_H (\<lambda>h. loop bottom_W (\<lambda>w. loop num_anchors
       (enumerate_one expf bottom4d so d_anchor4d anchors num_anchors bottom_H bottom_W img_H img_W
          min_box_H min_box_W feat_stride h w))) proposals"

section \<open>From structures to four arrays\<close>


section \<open>Non-maximum suppression\<close>

text \<open>The intersection over union of boxes \<open>i\<close> and \<open>j\<close>, as the scalar loop computes it.\<close>

definition iou ::
    "ieee \<times> ieee \<times> ieee \<times> ieee \<Rightarrow> ieee \<times> ieee \<times> ieee \<times> ieee \<Rightarrow> ieee" where
  "iou a b = (let (x0i, y0i, x1i, y1i) = a; (x0j, y0j, x1j, y1j) = b in
     if fle x0i x1j \<and> fle y0i y1j \<and> fle x0j x1i \<and> fle y0j y1i then
       let x0 = cmax x0i x0j; y0 = cmax y0i y0j; x1 = cmin x1i x1j; y1 = cmin y1i y1j;
           width = cmax (Fin 0) (addf (subf x1 x0) (Fin 1));
           height = cmax (Fin 0) (addf (subf y1 y0) (Fin 1));
           area = mulf width height;
           A_area = mulf (addf (subf x1i x0i) (Fin 1)) (addf (subf y1i y0i) (Fin 1));
           B_area = mulf (addf (subf x1j x0j) (Fin 1)) (addf (subf y1j y0j) (Fin 1))
       in divf area (subf (addf A_area B_area) area)
     else Fin 0)"

text \<open>One lane of the AVX2 loop: the mask that sets \<open>is_dead\<close>.\<close>

definition lane_mask ::
    "ieee \<Rightarrow> ieee \<times> ieee \<times> ieee \<times> ieee \<Rightarrow> ieee \<times> ieee \<times> ieee \<times> ieee \<Rightarrow> bool" where
  "lane_mask nms_thresh a b = (let (vx0i, vy0i, vx1i, vy1i) = a; (vx0j, vy0j, vx1j, vy1j) = b;
     vA_area = mulf (addf (subf vx1i vx0i) (Fin 1)) (addf (subf vy1i vy0i) (Fin 1));
     vx0 = maxps vx0i vx0j; vy0 = maxps vy0i vy0j; vx1 = minps vx1i vx1j; vy1 = minps vy1i vy1j;
     vwidth = addf (subf vx1 vx0) (Fin 1); vheight = addf (subf vy1 vy0) (Fin 1);
     varea = mulf (maxps (Fin 0) vwidth) (maxps (Fin 0) vheight);
     vB_area = mulf (addf (subf vx1j vx0j) (Fin 1)) (addf (subf vy1j vy0j) (Fin 1));
     vdivisor = subf (addf vA_area vB_area) varea;
     vintersection_area = divf varea vdivisor
   in flt nms_thresh vintersection_area \<and> (fle vx0i vx1j \<and> fle vy0i vy1j) \<and>
      (fle vx0j vx1i \<and> fle vy0j vy1i))"

definition box_at :: "ieee list \<Rightarrow> nat \<Rightarrow> nat \<Rightarrow> (ieee \<times> ieee \<times> ieee \<times> ieee) option" where
  "box_at boxes n i = do {
     a \<leftarrow> rd boxes (0 * n + i); b \<leftarrow> rd boxes (1 * n + i);
     c \<leftarrow> rd boxes (2 * n + i); d \<leftarrow> rd boxes (3 * n + i); Some (a, b, c, d) }"

text \<open>The eight lanes of one step: all are loaded before the result is stored.\<close>

definition lanes ::
    "ieee \<Rightarrow> ieee list \<Rightarrow> nat \<Rightarrow> nat \<Rightarrow> nat \<Rightarrow> int list \<Rightarrow> int list option" where
  "lanes nms_thresh boxes n box tail is_dead = do {
     a \<leftarrow> box_at boxes n box;
     if length is_dead < tail + 8 then None else do {
       dst \<leftarrow> those (map (\<lambda>k. do {
         b \<leftarrow> box_at boxes n (tail + k);
         Some (if lane_mask nms_thresh a b then 1 else is_dead ! (tail + k)) }) [0..<8]);
       blit is_dead tail dst
     }
   }"

function avx2_tail ::
    "ieee \<Rightarrow> ieee list \<Rightarrow> nat \<Rightarrow> nat \<Rightarrow> nat \<Rightarrow> int list \<Rightarrow> (int list \<times> nat) option" where
  "avx2_tail nms_thresh boxes n box tail is_dead =
     (if tail + 8 \<le> n then do {
        is_dead \<leftarrow> lanes nms_thresh boxes n box tail is_dead;
        avx2_tail nms_thresh boxes n box (tail + 8) is_dead }
      else Some (is_dead, tail))"
  by pat_completeness auto
termination by (relation "measure (\<lambda>(_, _, n, _, tail, _). n - tail)") auto

declare avx2_tail.simps [simp del]

definition scalar_tail ::
    "ieee \<Rightarrow> ieee list \<Rightarrow> nat \<Rightarrow> nat \<Rightarrow> nat \<Rightarrow> int list \<Rightarrow> int list option" where
  "scalar_tail nms_thresh boxes n box tail is_dead =
     loop (n - tail) (\<lambda>t is_dead. do {
       a \<leftarrow> box_at boxes n box;
       b \<leftarrow> box_at boxes n (tail + t);
       if flt nms_thresh (iou a b) then wr is_dead (tail + t) 1 else Some is_dead
     }) is_dead"

text \<open>One iteration of the outer loop: the new state and whether the loop goes on.\<close>

definition nms_box ::
    "bool \<Rightarrow> ieee list \<Rightarrow> nat \<Rightarrow> int \<Rightarrow> ieee \<Rightarrow> int \<Rightarrow> nat \<Rightarrow> int list \<times> int list \<times> nat
     \<Rightarrow> ((int list \<times> int list \<times> nat) \<times> bool) option" where
  "nms_box have_avx2 boxes n base_index nms_thresh max_num_out box = (\<lambda>(is_dead, index_out, cnt). do {
     d \<leftarrow> rd is_dead box;
     if d \<noteq> 0 then Some ((is_dead, index_out, cnt), True) else do {
       index_out \<leftarrow> wr index_out cnt (base_index + int box);
       let cnt = cnt + 1;
       if int cnt = max_num_out then Some ((is_dead, index_out, cnt), False) else do {
         (is_dead, tail) \<leftarrow> (if have_avx2 then avx2_tail nms_thresh boxes n box (box + 1) is_dead
                             else Some (is_dead, box + 1));
         is_dead \<leftarrow> scalar_tail nms_thresh boxes n box tail is_dead;
         Some ((is_dead, index_out, cnt), True)
       }
     }
   })"

definition nms_cpu ::
    "bool \<Rightarrow> nat \<Rightarrow> int list \<Rightarrow> ieee list \<Rightarrow> int list \<Rightarrow> int \<Rightarrow> ieee \<Rightarrow> int
     \<Rightarrow> (int list \<times> int list \<times> nat) option" where
  "nms_cpu have_avx2 num_boxes is_dead boxes index_out base_index nms_thresh max_num_out = do {
     is_dead \<leftarrow> fill is_dead 0 (int num_boxes) 0;
     loop_brk 0 num_boxes (nms_box have_avx2 boxes num_boxes base_index nms_thresh max_num_out)
       (is_dead, index_out, 0)
   }"

section \<open>The output\<close>



section \<open>The layer\<close>

record prop_cfg =
  feat_stride :: nat
  base_size :: nat
  min_size :: nat
  pre_nms_topn :: int
  post_nms_topn :: int
  nms_thresh :: ieee
  scales :: "ieee list"
  ratios :: "ieee list"
  anchors_shape_0 :: nat
  anchors :: "ieee list"
  roi_indices :: "int list"

text \<open>\<open>static_cast<size_t>\<close> of an \<open>int\<close>, and back.\<close>

definition to_sz :: "int \<Rightarrow> nat" where
  "to_sz i = nat (i mod 2 ^ 64)"

definition sz_int :: "nat \<Rightarrow> int" where
  "sz_int n = (let m = int n mod 2 ^ 32 in if m < 2 ^ 31 then m else m - 2 ^ 32)"

definition prop_ctor :: "ie_lib \<Rightarrow> cnn_layer \<Rightarrow> exn + prop_cfg \<times> layer_config list" where
  "prop_ctor lib L =
     ebind (throw_if (length (insData L) \<noteq> 3 \<or> length (outData L) \<noteq> 1)
       ''Incorrect number of input/output edges!'') (\<lambda>_.
     ebind (get_param (p_int L ''feat_stride'')) (\<lambda>fs.
     ebind (get_param (p_int L ''base_size'')) (\<lambda>bs.
     ebind (get_param (p_int L ''min_size'')) (\<lambda>ms.
     ebind (get_param (p_int L ''pre_nms_topn'')) (\<lambda>pre.
     ebind (get_param (p_int L ''post_nms_topn'')) (\<lambda>post.
     ebind (get_param (p_float L ''nms_thresh'')) (\<lambda>thr.
     ebind (get_param_def (p_floats L ''scale'') []) (\<lambda>sc.
     ebind (get_param_def (p_floats L ''ratio'') []) (\<lambda>ra.
     ebind (deref (generate_anchors (sz_int (to_sz bs)) ra sc (length ra) (length sc)
              (replicate (length ra * length sc * 4) (Fin 0)))) (\<lambda>anch.
     if post < 0 then Inl (StdException ''std::length_error'') else
     ebind (addConfig lib L [] [conf1 PLN, conf1 PLN, conf1 PLN] [conf1 PLN] False) (\<lambda>cs.
     Inr (\<lparr>feat_stride = to_sz fs, base_size = to_sz bs, min_size = to_sz ms, pre_nms_topn = pre,
           post_nms_topn = post, nms_thresh = thr, scales = sc, ratios = ra,
           anchors_shape_0 = length ra * length sc, anchors = anch,
           roi_indices = replicate (nat post) 0\<rparr>, cs))))))))))))"

text \<open>\<open>struct1.score > struct2.score\<close>.\<close>

definition better_score :: "pbox \<Rightarrow> pbox \<Rightarrow> bool" where
  "better_score a b = flt (score b) (score a)"



text \<open>\<open>ProposalFactory::getShapes\<close>: a tensor description is precision, dimensions and layout.\<close>

definition prop_getShapes ::
    "'p \<Rightarrow> ('p \<times> nat list \<times> 'l) list \<Rightarrow> ('p \<times> nat list \<times> 'l) list \<Rightarrow> string option
     \<Rightarrow> status \<times> ('p \<times> nat list \<times> 'l) list \<times> string option" where
  "prop_getShapes precision inShapes outShapes resp =
     (if length inShapes \<noteq> 1 then
        (GENERAL_ERROR, outShapes, map_option (\<lambda>buf. copy_msg buf ''Incorrect input shapes!'') resp)
      else (OK, [(precision, fst (snd (inShapes ! 0)), snd (snd (inShapes ! 0)))], resp))"

section \<open>Both builds compute the same suppression\<close>

type_synonym corners = "ieee \<times> ieee \<times> ieee \<times> ieee"

fun finite_box :: "corners \<Rightarrow> bool" where
  "finite_box (a, b, c, d) = (is_fin a \<and> is_fin b \<and> is_fin c \<and> is_fin d)"

definition box_beats :: "ieee \<Rightarrow> corners \<Rightarrow> corners \<Rightarrow> bool" where
  "box_beats thr a b = flt thr (iou a b)"

text \<open>
  The SSE maximum and minimum differ from \<open>std::max\<close> and \<open>std::min\<close> on zeros of either sign
  and on NaN only, and a difference plus one does not see the sign of a zero.
\<close>

lemma fadd_zero_one: "is_fin z \<Longrightarrow> val z = 0 \<Longrightarrow> addf z (Fin 1) = mk b32 False 1"
  by (cases z) auto

lemma width_cong:
  assumes "is_fin a" "is_fin b" "is_fin c" "is_fin d" and "val a = val c" and "val b = val d"
  shows "addf (subf a b) (Fin 1) = addf (subf c d) (Fin 1)"
proof (cases "val a = val b")
  case True
  have z: "is_fin (subf x y) \<and> val (subf x y) = 0" if "is_fin x" "is_fin y" "val x = val y" for x y
    using that by (cases x; cases y) (auto simp: fsub_def zero_def mk_def)
  show ?thesis
    using z [of a b] z [of c d] True assms by (simp add: fadd_zero_one)
next
  case False
  have "subf x y = mk b32 False (val x - val y)" if "is_fin x" "is_fin y" "val x \<noteq> val y" for x y
    using that by (cases x; cases y) (auto simp: fsub_def)
  then show ?thesis using False assms by simp
qed

definition zeroish :: "ieee \<Rightarrow> bool" where
  "zeroish x \<longleftrightarrow> is_fin x \<and> val x = 0"

lemma max_fin:
  assumes "is_fin a" "is_fin b"
  shows "is_fin (cmax a b)" "is_fin (maxps a b)" "val (cmax a b) = val (maxps a b)"
    "is_fin (cmin a b)" "is_fin (minps a b)" "val (cmin a b) = val (minps a b)"
  using assms by (auto simp: cmax_def maxps_def cmin_def minps_def flt_fin)

lemma width_not_nan: "is_fin a \<Longrightarrow> is_fin b \<Longrightarrow> \<not> is_nan (addf (subf a b) (Fin 1))"
proof -
  assume "is_fin a" "is_fin b"
  then have "\<not> is_nan (subf a b)" by (cases a; cases b) (auto simp: fsub_def zero_def)
  then show ?thesis by (cases "subf a b") auto
qed

lemma clamp_cases:
  assumes "\<not> is_nan w"
  shows "maxps (Fin 0) w = cmax (Fin 0) w \<or> zeroish (maxps (Fin 0) w) \<and> zeroish (cmax (Fin 0) w)"
  using assms by (cases w) (auto simp: maxps_def cmax_def zeroish_def flt_def split: if_splits)

lemma clamp_not_nan: "\<not> is_nan w \<Longrightarrow> \<not> is_nan (maxps (Fin 0) w)" "\<not> is_nan w \<Longrightarrow> \<not> is_nan (cmax (Fin 0) w)"
  by (simp_all add: maxps_def cmax_def)

text \<open>An empty intersection never exceeds a threshold that is not negative.\<close>

lemma empty_area:
  assumes "zeroish w \<and> \<not> is_nan h \<or> zeroish h \<and> \<not> is_nan w" and "\<not> flt thr (Fin 0)"
  shows "\<not> flt thr (divf (mulf w h) d)"
proof -
  have "is_nan (mulf w h) \<or> zeroish (mulf w h)"
    using assms(1) by (auto simp: zeroish_def fmul_def Let_def is_fin_not_nan)
  moreover have "is_nan (divf z d) \<or> zeroish (divf z d)" if "is_nan z \<or> zeroish z" for z
    using that by (cases z; cases d) (auto simp: zeroish_def fdiv_def Let_def)
  moreover have "\<not> flt thr z" if "is_nan z \<or> zeroish z" for z
    using that assms(2) by (cases z) (auto simp: zeroish_def flt_def)
  ultimately show ?thesis by blast
qed

lemma lane_mask_eq:
  assumes "finite_box a" and "finite_box b" and thr: "\<not> flt thr (Fin 0)"
  shows "lane_mask thr a b = box_beats thr a b"
proof -
  obtain x0i y0i x1i y1i where a: "a = (x0i, y0i, x1i, y1i)" by (cases a)
  obtain x0j y0j x1j y1j where b: "b = (x0j, y0j, x1j, y1j)" by (cases b)
  have fin: "is_fin x0i" "is_fin y0i" "is_fin x1i" "is_fin y1i"
    "is_fin x0j" "is_fin y0j" "is_fin x1j" "is_fin y1j"
    using assms(1,2) by (simp_all add: a b)
  define w where "w = addf (subf (cmin x1i x1j) (cmax x0i x0j)) (Fin 1)"
  define h where "h = addf (subf (cmin y1i y1j) (cmax y0i y0j)) (Fin 1)"
  have w: "addf (subf (minps x1i x1j) (maxps x0i x0j)) (Fin 1) = w" "\<not> is_nan w"
    and h: "addf (subf (minps y1i y1j) (maxps y0i y0j)) (Fin 1) = h" "\<not> is_nan h"
    unfolding w_def h_def using fin
    by (simp_all add: width_cong width_not_nan max_fin)
  define S where "S = addf (mulf (addf (subf x1i x0i) (Fin 1)) (addf (subf y1i y0i) (Fin 1)))
    (mulf (addf (subf x1j x0j) (Fin 1)) (addf (subf y1j y0j) (Fin 1)))"
  let ?A = "mulf (cmax (Fin 0) w) (cmax (Fin 0) h)" and ?B = "mulf (maxps (Fin 0) w) (maxps (Fin 0) h)"
  have "flt thr (divf ?B (subf S ?B)) = flt thr (divf ?A (subf S ?A))"
  proof (cases "maxps (Fin 0) w = cmax (Fin 0) w \<and> maxps (Fin 0) h = cmax (Fin 0) h")
    case True
    then show ?thesis by simp
  next
    case False
    then show ?thesis
      using clamp_cases [OF w(2)] clamp_cases [OF h(2)] clamp_not_nan [OF w(2)] clamp_not_nan [OF h(2)]
        empty_area [OF _ thr] by metis
  qed
  then show ?thesis
    using thr unfolding lane_mask_def box_beats_def iou_def a b prod.case Let_def w(1) h(1)
    by (auto simp flip: w_def h_def S_def)
qed

section \<open>The marks\<close>

text \<open>The boxes of the four arrays.\<close>

definition boxes_of :: "corners list \<Rightarrow> ieee list" where
  "boxes_of bs = map fst bs @ map (fst \<circ> snd) bs @ map (fst \<circ> snd \<circ> snd) bs @ map (snd \<circ> snd \<circ> snd) bs"

lemma length_boxes_of [simp]: "length (boxes_of bs) = 4 * length bs"
  by (simp add: boxes_of_def)

lemma box_at_boxes_of: "i < length bs \<Longrightarrow> box_at (boxes_of bs) (length bs) i = Some (bs ! i)"
  by (cases "bs ! i") (simp add: box_at_def boxes_of_def rd_def nth_append)

text \<open>After the tail loop exactly the beaten boxes behind \<open>box\<close> carry a new mark.\<close>

definition marked :: "ieee \<Rightarrow> corners list \<Rightarrow> nat \<Rightarrow> nat \<Rightarrow> int list \<Rightarrow> int list" where
  "marked thr bs box tail dead =
     map (\<lambda>j. if box < j \<and> j < tail \<and> box_beats thr (bs ! box) (bs ! j) then 1 else dead ! j) [0..<length dead]"

lemma length_marked [simp]: "length (marked thr bs box tail dead) = length dead"
  by (simp add: marked_def)

lemma nth_marked: "j < length dead \<Longrightarrow> marked thr bs box tail dead ! j =
    (if box < j \<and> j < tail \<and> box_beats thr (bs ! box) (bs ! j) then 1 else dead ! j)"
  by (simp add: marked_def)

lemma marked_start: "marked thr bs box (Suc box) dead = dead"
  by (rule nth_equalityI) (auto simp: nth_marked)

lemma scalar_tail_eq:
  assumes "length dead = length bs" and "box < length bs" and "box < tail" and "tail \<le> length bs"
  shows "scalar_tail thr (boxes_of bs) (length bs) box tail (marked thr bs box tail dead) =
    Some (marked thr bs box (length bs) dead)"
proof -
  have "ok (scalar_tail thr (boxes_of bs) (length bs) box tail (marked thr bs box tail dead))
    (\<lambda>d. d = marked thr bs box (tail + (length bs - tail)) dead)"
    unfolding scalar_tail_def
  proof (rule loop_ok [where I = "\<lambda>t d. d = marked thr bs box (tail + t) dead"])
    fix t d assume t: "t < length bs - tail" and d: "d = marked thr bs box (tail + t) dead"
    have "(marked thr bs box (tail + t) dead)[tail + t := 1] = marked thr bs box (tail + Suc t) dead"
      if "box_beats thr (bs ! box) (bs ! (tail + t))"
      using that t assms by (intro nth_equalityI) (auto simp: nth_marked nth_list_update less_Suc_eq)
    moreover have "marked thr bs box (tail + t) dead = marked thr bs box (tail + Suc t) dead"
      if "\<not> box_beats thr (bs ! box) (bs ! (tail + t))"
      using that t assms by (intro nth_equalityI) (auto simp: nth_marked less_Suc_eq)
    moreover have "tail + t < length bs" using t by simp
    ultimately show "ok (do {
       a \<leftarrow> box_at (boxes_of bs) (length bs) box;
       b \<leftarrow> box_at (boxes_of bs) (length bs) (tail + t);
       if flt thr (iou a b) then wr d (tail + t) 1 else Some d })
      (\<lambda>d. d = marked thr bs box (tail + Suc t) dead)"
      using t assms by (simp add: box_at_boxes_of wp d flip: box_beats_def)
  qed simp
  then show ?thesis using assms by (simp add: ok_eq_Some)
qed

lemma lanes_eq:
  assumes "length dead = length bs" and "box < tail" and "tail + 8 \<le> length bs"
    and fin: "\<forall>b \<in> set bs. finite_box b" and thr: "\<not> flt thr (Fin 0)"
  shows "lanes thr (boxes_of bs) (length bs) box tail (marked thr bs box tail dead) =
    Some (marked thr bs box (tail + 8) dead)"
proof -
  let ?d = "marked thr bs box tail dead"
  have lane: "lane_mask thr (bs ! box) (bs ! (tail + k)) = box_beats thr (bs ! box) (bs ! (tail + k))"
    if "k < 8" for k
    using that assms by (intro lane_mask_eq) auto
  have those: "those (map (\<lambda>k. Some (g k)) xs) = Some (map g xs)" for g :: "nat \<Rightarrow> int" and xs
    by (induction xs) auto
  have l: "map (\<lambda>k. do { b \<leftarrow> box_at (boxes_of bs) (length bs) (tail + k);
         Some (if lane_mask thr (bs ! box) b then 1 else ?d ! (tail + k)) }) [0..<8] =
      map (\<lambda>k. Some (marked thr bs box (tail + 8) dead ! (tail + k))) [0..<8]"
    using assms lane by (intro map_cong refl) (simp add: box_at_boxes_of nth_marked)
  define ys where "ys = map (\<lambda>k. marked thr bs box (tail + 8) dead ! (tail + k)) [0..<8]"
  have ys: "length ys = 8" "\<And>k. k < 8 \<Longrightarrow> ys ! k = marked thr bs box (tail + 8) dead ! (tail + k)"
    by (simp_all add: ys_def del: upt_Suc)
  have "put ?d tail ys = marked thr bs box (tail + 8) dead"
  proof (rule nth_equalityI)
    fix i assume "i < length (put ?d tail ys)"
    then have i: "i < length bs" using assms ys by simp
    have "i < tail \<or> (\<exists>k < 8. i = tail + k) \<or> tail + 8 \<le> i" by presburger
    then consider "i < tail" | k where "i = tail + k" "k < 8" | "tail + 8 \<le> i" by blast
    then show "put ?d tail ys ! i = marked thr bs box (tail + 8) dead ! i"
      using assms i ys by cases (simp_all add: nth_put nth_put_other nth_marked)
  qed (use assms ys in simp)
  moreover have "box < length bs" "\<not> length ?d < tail + 8" using assms by simp_all
  ultimately show ?thesis
    unfolding lanes_def box_at_boxes_of [OF \<open>box < length bs\<close>] Option.bind.bind_lunit l those
      ys_def [symmetric]
    using assms ys(1) by (simp add: blit_def)
qed

lemma avx2_tail_eq:
  assumes len: "length dead = length bs" and fin: "\<forall>b \<in> set bs. finite_box b" and thr: "\<not> flt thr (Fin 0)"
    and "box < tail" and "tail \<le> length bs"
  shows "\<exists>t. avx2_tail thr (boxes_of bs) (length bs) box tail (marked thr bs box tail dead) =
      Some (marked thr bs box t dead, t) \<and> box < t \<and> t \<le> length bs"
  using assms(4,5)
proof (induction "length bs - tail" arbitrary: tail rule: less_induct)
  case less
  show ?case
  proof (cases "tail + 8 \<le> length bs")
    case True
    then have "\<exists>t. avx2_tail thr (boxes_of bs) (length bs) box (tail + 8) (marked thr bs box (tail + 8) dead) =
        Some (marked thr bs box t dead, t) \<and> box < t \<and> t \<le> length bs"
      using less.prems by (intro less.hyps) auto
    then show ?thesis
      using True less.prems(1) lanes_eq [OF len less.prems(1) True fin thr]
      by (subst avx2_tail.simps) simp
  next
    case False
    then show ?thesis using less.prems by (subst avx2_tail.simps) auto
  qed
qed

text \<open>One box that is still alive: both builds mark the same boxes.\<close>

lemma tails_eq:
  assumes len: "length dead = length bs" and box: "box < length bs"
    and avx2: "have_avx2 \<Longrightarrow> (\<forall>b \<in> set bs. finite_box b) \<and> \<not> flt thr (Fin 0)"
  shows "do { (dead, tail) \<leftarrow> (if have_avx2 then avx2_tail thr (boxes_of bs) (length bs) box (box + 1) dead
                             else Some (dead, box + 1));
      scalar_tail thr (boxes_of bs) (length bs) box tail dead } = Some (marked thr bs box (length bs) dead)"
proof (cases have_avx2)
  case True
  obtain t where "avx2_tail thr (boxes_of bs) (length bs) box (Suc box) (marked thr bs box (Suc box) dead) =
      Some (marked thr bs box t dead, t)" "box < t" "t \<le> length bs"
    using avx2_tail_eq [OF len _ _ lessI, of thr box] avx2 [OF True] box by auto
  then show ?thesis using True box len by (simp add: marked_start scalar_tail_eq)
next
  case False
  have "scalar_tail thr (boxes_of bs) (length bs) box (Suc box) (marked thr bs box (Suc box) dead) =
      Some (marked thr bs box (length bs) dead)"
    using len box by (intro scalar_tail_eq) auto
  then show ?thesis using False by (simp add: marked_start)
qed

lemma nms_box_eq:
  assumes "length dead = length bs" and "box < length bs"
    and "have_avx2 \<Longrightarrow> (\<forall>b \<in> set bs. finite_box b) \<and> \<not> flt thr (Fin 0)"
  shows "nms_box have_avx2 (boxes_of bs) (length bs) base thr max_out box (dead, out, cnt) =
    (if dead ! box \<noteq> 0 then Some ((dead, out, cnt), True)
     else if length out \<le> cnt then None
     else let out' = out[cnt := base + int box] in
       if int (cnt + 1) = max_out then Some ((dead, out', cnt + 1), False)
       else Some ((marked thr bs box (length bs) dead, out', cnt + 1), True))"
proof -
  have *: "do { (dead, tail) \<leftarrow> m; dead' \<leftarrow> scalar_tail thr (boxes_of bs) (length bs) box tail dead; f dead' } =
      do { d \<leftarrow> do { (dead, tail) \<leftarrow> m; scalar_tail thr (boxes_of bs) (length bs) box tail dead }; f d }"
    for m and f :: "int list \<Rightarrow> 'z option"
    by (cases m) auto
  show ?thesis
    using assms(1,2) unfolding nms_box_def prod.case
    by (auto simp: rd_def wr_def Let_def * tails_eq [OF assms, simplified])
qed

definition keeps :: "ieee \<Rightarrow> corners list \<Rightarrow> nat \<Rightarrow> nat list" where
  "keeps thr bs n = greedy (\<lambda>i j. box_beats thr (bs ! i) (bs ! j)) [0..<n]"

definition limited :: "int \<Rightarrow> 'a list \<Rightarrow> 'a list" where
  "limited max_out xs = (if 0 < max_out then take (nat max_out) xs else xs)"

lemma keeps_Suc: "keeps thr bs (Suc n) =
    (if \<exists>i \<in> set (keeps thr bs n). box_beats thr (bs ! i) (bs ! n) then keeps thr bs n else keeps thr bs n @ [n])"
  by (simp add: keeps_def greedy_snoc keep_step_def list_ex_iff)

lemma keeps_less: "i \<in> set (keeps thr bs n) \<Longrightarrow> i < n"
  using greedy_subset [of "\<lambda>i j. box_beats thr (bs ! i) (bs ! j)" "[0..<n]"] by (auto simp: keeps_def)

lemma keeps_sorted: "sorted_wrt (<) (keeps thr bs n)"
proof (induction n)
  case 0
  then show ?case by (simp add: keeps_def greedy_def)
next
  case (Suc n)
  then show ?case by (auto simp: keeps_Suc sorted_wrt_append dest: keeps_less)
qed

lemma length_keeps: "length (keeps thr bs n) \<le> n"
  using length_greedy [of _ "[0..<n]"] by (simp add: keeps_def)

lemma keeps_prefix:
  assumes "m \<le> n"
  shows "\<exists>zs. keeps thr bs n = keeps thr bs m @ zs"
proof -
  have "[0..<n] = [0..<m] @ [m..<n]" using assms by (metis le_add_diff_inverse upt_add_eq_append zero_le)
  then show ?thesis unfolding keeps_def using greedy_append by metis
qed

text \<open>The state before box \<open>box\<close>, no limit reached so far.\<close>

definition nms_inv ::
    "ieee \<Rightarrow> corners list \<Rightarrow> int \<Rightarrow> int \<Rightarrow> int list \<Rightarrow> nat \<Rightarrow> int list \<times> int list \<times> nat \<Rightarrow> bool" where
  "nms_inv thr bs base max_out out0 box st = (case st of (dead, out, cnt) \<Rightarrow>
     length dead = length bs \<and> cnt = length (keeps thr bs box) \<and> (0 < max_out \<longrightarrow> int cnt < max_out) \<and>
     out = put out0 0 (map (\<lambda>i. base + int i) (keeps thr bs box)) \<and>
     (\<forall>j < length bs. box \<le> j \<longrightarrow>
        (dead ! j \<noteq> 0 \<longleftrightarrow> (\<exists>i \<in> set (keeps thr bs box). box_beats thr (bs ! i) (bs ! j)))))"

lemma nms_cpu_eq:
  assumes dead: "length dead = length bs"
    and avx2: "have_avx2 \<Longrightarrow> (\<forall>b \<in> set bs. finite_box b) \<and> \<not> flt thr (Fin 0)"
    and room: "(if 0 < max_out then min (length bs) (nat max_out) else length bs) \<le> length out0"
  shows "\<exists>dead'. nms_cpu have_avx2 (length bs) dead (boxes_of bs) out0 base thr max_out =
    Some (dead', put out0 0 (map (\<lambda>i. base + int i) (limited max_out (keeps thr bs (length bs)))),
      length (limited max_out (keeps thr bs (length bs)))) \<and> length dead' = length bs"
proof -
  let ?n = "length bs" and ?out = "\<lambda>ks. put out0 0 (map (\<lambda>i. base + int i) ks)"
  let ?Q = "\<lambda>(dead, out, cnt). out = ?out (limited max_out (keeps thr bs ?n)) \<and>
      cnt = length (limited max_out (keeps thr bs ?n)) \<and> length dead = ?n"
  have "ok (loop_brk 0 ?n (nms_box have_avx2 (boxes_of bs) ?n base thr max_out) (replicate ?n 0, out0, 0)) ?Q"
  proof (rule loop_brk_wp [where I = "nms_inv thr bs base max_out out0"])
    show "nms_inv thr bs base max_out out0 0 (replicate ?n 0, out0, 0)"
      by (simp add: nms_inv_def keeps_def greedy_def)
  next
    fix box st assume box: "box < 0 + ?n" and I: "nms_inv thr bs base max_out out0 box st"
    obtain d out cnt where st: "st = (d, out, cnt)" by (cases st)
    let ?ks = "keeps thr bs box"
    have d: "length d = ?n" and cnt: "cnt = length ?ks" and out: "out = ?out ?ks"
      and below: "0 < max_out \<longrightarrow> int cnt < max_out"
      and marks: "\<And>j. j < ?n \<Longrightarrow> box \<le> j \<Longrightarrow> d ! j \<noteq> 0 \<longleftrightarrow> (\<exists>i \<in> set ?ks. box_beats thr (bs ! i) (bs ! j))"
      using I by (auto simp: nms_inv_def st)
    have le: "length ?ks \<le> box" by (rule length_keeps)
    then have fits: "length ?ks < length out0"
      using room box below cnt by (auto split: if_splits)
    then have len: "length out = length out0" by (simp add: out)
    show "ok (nms_box have_avx2 (boxes_of bs) ?n base thr max_out box st)
        (\<lambda>(s', go). if go then nms_inv thr bs base max_out out0 (Suc box) s' else ?Q s')"
    proof (cases "d ! box \<noteq> 0")
      case True
      then have "keeps thr bs (Suc box) = ?ks" using marks box by (simp add: keeps_Suc)
      then show ?thesis
        using True I box d by (auto simp: st nms_box_eq [OF d _ avx2] nms_inv_def)
    next
      case False
      then have ks: "keeps thr bs (Suc box) = ?ks @ [box]" using marks box by (simp add: keeps_Suc)
      have out': "out[cnt := base + int box] = ?out (?ks @ [box])"
        using put_update [of 0 "map (\<lambda>i. base + int i) ?ks" out0] fits by (simp add: out cnt)
      show ?thesis
      proof (cases "int (cnt + 1) = max_out")
        case True
        obtain zs where "keeps thr bs ?n = (?ks @ [box]) @ zs"
          using keeps_prefix [of "Suc box" ?n thr bs] box ks by auto
        then have "limited max_out (keeps thr bs ?n) = ?ks @ [box]"
          using True by (auto simp: limited_def cnt nat_add_distrib)
        then show ?thesis
          using False True box d fits len cnt out' by (simp add: st nms_box_eq [OF d _ avx2] Let_def)
      next
        case other: False
        have "nms_inv thr bs base max_out out0 (Suc box)
           (marked thr bs box ?n d, out[cnt := base + int box], cnt + 1)"
          using d cnt below other marks box out'
          by (auto simp: nms_inv_def ks nth_marked)
        then show ?thesis
          using False other box d fits len cnt by (simp add: st nms_box_eq [OF d _ avx2] Let_def)
      qed
    qed
  next
    fix st assume I: "nms_inv thr bs base max_out out0 (0 + ?n) st"
    then have "limited max_out (keeps thr bs ?n) = keeps thr bs ?n"
      by (auto simp: nms_inv_def limited_def)
    then show "?Q st" using I by (auto simp: nms_inv_def)
  qed
  moreover have "fill dead 0 (int ?n) 0 = Some (replicate ?n 0)"
    using dead by (simp add: fill_def blit_def put_def)
  ultimately show ?thesis by (auto simp: nms_cpu_def elim!: okE)
qed

text \<open>
  The suppression as a function on the boxes: run on fresh buffers, without a limit, and read
  back. It obeys the laws of \<open>suppression\<close>.
\<close>

definition prop_run :: "ieee \<Rightarrow> corners list \<Rightarrow> corners list" where
  "prop_run thr bs =
     (case nms_cpu False (length bs) (replicate (length bs) 0) (boxes_of bs) (replicate (length bs) 0) 0 thr 0 of
        None \<Rightarrow> [] | Some (_, out, cnt) \<Rightarrow> map (\<lambda>i. bs ! nat i) (take cnt out))"

lemma map_keeps: "map (\<lambda>i. bs ! i) (keeps thr bs (length bs)) = greedy (box_beats thr) bs"
  unfolding keeps_def by (simp add: map_nth flip: greedy_map)

lemma prop_run_greedy: "prop_run thr bs = greedy (box_beats thr) bs"
proof -
  obtain dead' where "nms_cpu False (length bs) (replicate (length bs) 0) (boxes_of bs)
      (replicate (length bs) 0) 0 thr 0 = Some (dead', put (replicate (length bs) 0) 0
        (map int (keeps thr bs (length bs))), length (keeps thr bs (length bs)))"
    using nms_cpu_eq [of "replicate (length bs) 0" bs False thr 0 "replicate (length bs) 0" 0]
    by (auto simp: limited_def)
  then show ?thesis
    by (simp add: prop_run_def put_def o_def map_keeps)
qed

interpretation pnms: suppression UNIV "box_beats thr" "prop_run thr" for thr
  by unfold_locales
    (auto simp: prop_run_greedy greedy_snoc keep_step_def list_ex_iff, simp add: greedy_def)

text \<open>
  C12: The suppression of the \<open>Proposal\<close> layer, in either build, stays inside its arrays and
  writes the numbers of the kept boxes in increasing order: as many as \<open>max_num_out\<close> allows
  of those that no kept box before them overlaps by more than the threshold, where every box
  that is left out for its overlap is beaten by a kept one. (The AVX2 build needs finite
  corners and a threshold that is not negative.)
\<close>

theorem nms_cpu_spec:
  assumes "length dead = length bs"
    and "have_avx2 \<Longrightarrow> (\<forall>b \<in> set bs. finite_box b) \<and> \<not> flt thr (Fin 0)"
    and "(if 0 < max_out then min (length bs) (nat max_out) else length bs) \<le> length out0"
  shows "\<exists>dead' ks. nms_cpu have_avx2 (length bs) dead (boxes_of bs) out0 0 thr max_out =
      Some (dead', put out0 0 (map int (limited max_out ks)), length (limited max_out ks)) \<and>
    sorted_wrt (<) ks \<and> set ks \<subseteq> {0..<length bs} \<and>
    sorted_wrt (\<lambda>i j. \<not> box_beats thr (bs ! i) (bs ! j)) ks \<and>
    (\<forall>j < length bs. j \<notin> set ks \<longrightarrow> (\<exists>i \<in> set ks. i < j \<and> box_beats thr (bs ! i) (bs ! j)))"
proof -
  let ?B = "\<lambda>i j. box_beats thr (bs ! i) (bs ! j)" and ?ks = "keeps thr bs (length bs)"
  have "sorted_wrt (<) ?ks" by (rule keeps_sorted)
  moreover have "sorted_wrt (\<lambda>i j. \<not> ?B i j) ?ks"
    unfolding keeps_def by (rule greedy.run_independent) simp
  moreover have "\<exists>i \<in> set ?ks. i < j \<and> ?B i j" if j: "j < length bs" "j \<notin> set ?ks" for j
  proof -
    have split: "[0..<length bs] = [0..<j] @ j # [Suc j..<length bs]"
      using j(1) by (metis le_add_diff_inverse less_imp_le_nat upt_add_eq_append upt_conv_Cons zero_le)
    obtain i where i: "i \<in> set (keeps thr bs j)" "?B i j"
      using greedy.run_maximal [of "[0..<j]" j "[Suc j..<length bs]" ?B] j(2)
      by (auto simp: keeps_def simp flip: split)
    then show ?thesis
      using keeps_less [OF i(1)] keeps_prefix [of j "length bs" thr bs] j(1) by auto
  qed
  moreover have "set ?ks \<subseteq> {0..<length bs}" using keeps_less by auto
  moreover have "\<exists>dead'. nms_cpu have_avx2 (length bs) dead (boxes_of bs) out0 0 thr max_out =
      Some (dead', put out0 0 (map (\<lambda>i. 0 + int i) (limited max_out ?ks)), length (limited max_out ?ks)) \<and>
      length dead' = length bs"
    using assms by (intro nms_cpu_eq) auto
  ultimately show ?thesis unfolding add_0 by blast
qed

text \<open>
  C6: The AVX2 build and the scalar build of the suppression compute the same: on boxes with
  finite corners and a threshold that is not negative they give the same marks, the same
  indices and the same count.
\<close>

theorem nms_builds_agree:
  assumes "length dead = length bs" and "\<forall>b \<in> set bs. finite_box b" and "\<not> flt thr (Fin 0)"
  shows "nms_cpu True (length bs) dead (boxes_of bs) out base thr max_out =
         nms_cpu False (length bs) dead (boxes_of bs) out base thr max_out"
proof -
  have "loop_brk 0 (length bs) (nms_box True (boxes_of bs) (length bs) base thr max_out) st =
      loop_brk 0 (length bs) (nms_box False (boxes_of bs) (length bs) base thr max_out) st"
    if "length (fst st) = length bs" for st :: "int list \<times> int list \<times> nat"
  proof (rule loop_brk_cong [where I = "\<lambda>st. length (fst st) = length bs"])
    fix j and st :: "int list \<times> int list \<times> nat"
    assume "j < 0 + length bs" "length (fst st) = length bs"
    then show "nms_box True (boxes_of bs) (length bs) base thr max_out j st =
        nms_box False (boxes_of bs) (length bs) base thr max_out j st \<and>
      (\<forall>t go. nms_box False (boxes_of bs) (length bs) base thr max_out j st = Some (t, go) \<longrightarrow>
        length (fst t) = length bs)"
      using assms(2,3) by (cases st) (auto simp: nms_box_eq Let_def split: if_splits)
  qed (rule that)
  then show ?thesis
    using assms(1) by (auto simp: nms_cpu_def fill_def blit_def put_def)
qed

section \<open>The proposals are inside the image\<close>


definition inside :: "ieee \<Rightarrow> ieee \<Rightarrow> pbox \<Rightarrow> bool" where
  "inside img_H img_W p \<longleftrightarrow>
     (\<forall>v \<in> {x0 p, x1 p}. is_fin v \<and> fle (Fin 0) v \<and> fle v (subf img_W (Fin 1))) \<and>
     (\<forall>v \<in> {y0 p, y1 p}. is_fin v \<and> fle (Fin 0) v \<and> fle v (subf img_H (Fin 1)))"

definition image_ok :: "ieee \<Rightarrow> bool" where
  "image_ok s \<longleftrightarrow> is_fin (subf s (Fin 1)) \<and> fle (Fin 0) (subf s (Fin 1))"

lemma predict_box_inside:
  assumes "image_ok img_H" and "image_ok img_W"
  shows "inside img_H img_W (predict_box expf x y anchor delta sc img_H img_W mh mw)"
  using assms cmax_cmin_range
  unfolding predict_box_def inside_def image_ok_def Let_def
  by (auto split: prod.splits)

section \<open>The run as a function of its inputs\<close>

text \<open>The proposal of one anchor at one position, and all of them in memory order.\<close>

definition proposal_at ::
    "(ieee \<Rightarrow> ieee) \<Rightarrow> ieee list \<Rightarrow> nat \<Rightarrow> ieee list \<Rightarrow> ieee list \<Rightarrow> nat \<Rightarrow> nat \<Rightarrow> nat \<Rightarrow> ieee \<Rightarrow> ieee
     \<Rightarrow> ieee \<Rightarrow> ieee \<Rightarrow> int \<Rightarrow> nat \<Rightarrow> nat \<Rightarrow> nat \<Rightarrow> pbox" where
  "proposal_at expf bottom so deltas anch A H W img_H img_W mh mw fs h w a =
     (let d = (\<lambda>k. deltas ! (h * W + w + (a * 4 + k) * (H * W))); g = (\<lambda>k. anch ! (k * A + a)) in
      predict_box expf (i2f (int w * fs)) (i2f (int h * fs)) (g 0, g 1, g 2, g 3)
        (d 0, d 1, d 2, d 3) (bottom ! (so + (h * W + w) + a * (H * W))) img_H img_W mh mw)"

definition all_proposals ::
    "(ieee \<Rightarrow> ieee) \<Rightarrow> ieee list \<Rightarrow> nat \<Rightarrow> ieee list \<Rightarrow> ieee list \<Rightarrow> nat \<Rightarrow> nat \<Rightarrow> nat \<Rightarrow> ieee \<Rightarrow> ieee
     \<Rightarrow> ieee \<Rightarrow> ieee \<Rightarrow> int \<Rightarrow> pbox list" where
  "all_proposals expf bottom so deltas anch A H W img_H img_W mh mw fs =
     concat (map (\<lambda>h. concat (map (\<lambda>w. map
       (proposal_at expf bottom so deltas anch A H W img_H img_W mh mw fs h w) [0..<A]) [0..<W])) [0..<H])"

lemma length_all_proposals:
  "length (all_proposals expf bottom so deltas anch A H W img_H img_W mh mw fs) = H * W * A"
proof -
  have "length (concat (map (\<lambda>w. map (proposal_at expf bottom so deltas anch A H W img_H img_W mh mw fs h w)
      [0..<A]) [0..<W])) = W * A" for h
    by (rule length_concat_same) simp
  then have "length (all_proposals expf bottom so deltas anch A H W img_H img_W mh mw fs) = H * (W * A)"
    unfolding all_proposals_def by (rule length_concat_same)
  then show ?thesis by simp
qed

lemma enumerate_eq:
  assumes bottom: "so + A * H * W \<le> length bottom" and deltas: "4 * A * H * W \<le> length deltas"
    and anch: "4 * A \<le> length anch" and len: "length ps = A * H * W"
  shows "enumerate_proposals_cpu expf bottom so deltas anch A H W img_H img_W mh mw fs ps =
    Some (all_proposals expf bottom so deltas anch A H W img_H img_W mh mw fs)"
proof -
  let ?p = "proposal_at expf bottom so deltas anch A H W img_H img_W mh mw fs"
  let ?one = "enumerate_one expf bottom so deltas anch A H W img_H img_W mh mw fs"
  have total: "A * H * W = H * W * A" by simp
  have one: "?one h w a xs = Some (xs[(h * W + w) * A + a := ?p h w a])"
    if "h < H" "w < W" "a < A" "length xs = H * W * A" for h w a xs
  proof -
    have hw: "h * W + w < H * W" using that by (intro index2_less)
    have idx: "h * W + w + (a * 4 + k) * (H * W) < length deltas" if "k < 4" for k
      using index2_less [of "a * 4 + k" "A * 4" "h * W + w" "H * W"] hw deltas that \<open>a < A\<close>
        index2_less [of a A k 4] by (simp add: algebra_simps)
    have sc: "so + (h * W + w) + a * (H * W) < length bottom"
      using index2_less [of a A "h * W + w" "H * W"] hw bottom that by (simp add: algebra_simps)
    have g: "k * A + a < length anch" if "k < 4" for k
      using index2_less [of k 4 a A] anch that \<open>a < A\<close> by simp
    have "(h * W + w) * A + a < length xs"
      using index2_less [OF hw \<open>a < A\<close>] that by simp
    then show ?thesis
      using idx [of 0] idx [of 1] idx [of 2] idx [of 3] g [of 0] g [of 1] g [of 2] g [of 3] sc
      by (simp add: enumerate_one_def rd_Some wr_Some Let_def proposal_at_def)
  qed
  have row: "loop A (?one h w) xs = Some (put xs ((h * W + w) * A) (map (?p h w) [0..<A]))"
    if "h < H" "w < W" "length xs = H * W * A" for h w xs
    using index2_less [of h H w W] that slot_end_nat [of "h * W + w" "H * W" A]
    by (intro loop_wr [where L = "H * W * A"] one) simp_all
  have plane: "loop W (\<lambda>w. loop A (?one h w)) xs =
      Some (put xs (h * (W * A)) (concat (map (\<lambda>w. map (?p h w) [0..<A]) [0..<W])))"
    if "h < H" "length xs = H * W * A" for h xs
  proof (rule loop_put [where L = "H * W * A" and n = A])
    fix w and ys :: "pbox list" assume "w < W" and "length ys = H * W * A"
    from row [OF that(1) this]
    show "loop A (?one h w) ys = Some (put ys (h * (W * A) + w * A) (map (?p h w) [0..<A]))"
      by (simp add: algebra_simps)
  qed (use that slot_end_nat [of h H "W * A"] in \<open>simp_all add: algebra_simps\<close>)
  have "loop H (\<lambda>h. loop W (\<lambda>w. loop A (?one h w))) ps =
      Some (put ps 0 (concat (map (\<lambda>h. concat (map (\<lambda>w. map (?p h w) [0..<A]) [0..<W])) [0..<H])))"
  proof (rule loop_put [where L = "H * W * A" and n = "W * A"])
    fix h and ys :: "pbox list" assume "h < H" and "length ys = H * W * A"
    from plane [OF this]
    show "loop W (\<lambda>w. loop A (?one h w)) ys =
      Some (put ys (0 + h * (W * A)) (concat (map (\<lambda>w. map (?p h w) [0..<A]) [0..<W])))"
      by simp
  next
    fix h show "length (concat (map (\<lambda>w. map (?p h w) [0..<A]) [0..<W])) = W * A"
      by (rule length_concat_same) simp
  qed (use len in simp_all)
  then show ?thesis
    using len length_all_proposals [of expf bottom so deltas anch A H W img_H img_W mh mw fs]
    by (simp add: enumerate_proposals_cpu_def put_all total flip: all_proposals_def)
qed











lemma all_proposals_inside:
  assumes "image_ok img_H" and "image_ok img_W"
    and "p \<in> set (all_proposals expf bottom so deltas anch A H W img_H img_W mh mw fs)"
  shows "inside img_H img_W p"
  using assms(3) predict_box_inside [OF assms(1,2)]
  by (auto simp: all_proposals_def proposal_at_def Let_def)






text \<open>The comparator of the selection is a strict weak order on scores that are numbers.\<close>

interpretation score: swo_on "{p. \<not> is_nan (score p)}" better_score
proof
  fix p q r :: pbox assume *: "p \<in> {p. \<not> is_nan (score p)}" "q \<in> {p. \<not> is_nan (score p)}" "r \<in> {p. \<not> is_nan (score p)}"
  show "better_score p q \<Longrightarrow> better_score q r \<Longrightarrow> better_score p r"
    by (auto simp: better_score_def intro: flt_trans)
  show "\<not> better_score p q \<Longrightarrow> \<not> better_score q r \<Longrightarrow> \<not> better_score p r"
    using * by (auto simp: better_score_def not_flt dest: fle_trans fle_not_flt)
qed (simp add: better_score_def)




text \<open>
  Every proposal that is enumerated lies inside the image: its corners are finite, at
  least zero and at most the image size minus one, whatever the network predicts, even when
  the predicted values are not numbers.
\<close>

theorem proposals_clipped:
  assumes "image_ok img_H" and "image_ok img_W"
    and "so + A * H * W \<le> length bottom" and "4 * A * H * W \<le> length deltas" and "4 * A \<le> length anch"
    and "length ps = A * H * W"
  shows "\<exists>ps'. enumerate_proposals_cpu expf bottom so deltas anch A H W img_H img_W mh mw fs ps = Some ps' \<and>
    length ps' = A * H * W \<and> (\<forall>p \<in> set ps'. inside img_H img_W p)"
  using enumerate_eq [OF assms(3-6)] all_proposals_inside [OF assms(1,2)]
  by (auto simp: length_all_proposals mult.commute mult.left_commute)

text \<open>
  A constructed \<open>Proposal\<close> layer has four corner offsets per anchor and an index buffer for
  \<open>post_nms_topn\<close> boxes, the sizes its run relies on.
\<close>

theorem prop_ctor_ok:
  assumes "prop_ctor lib L = Inr (c, cs)"
  shows "length (anchors c) = 4 * anchors_shape_0 c \<and> anchors_shape_0 c = length (ratios c) * length (scales c) \<and>
    0 \<le> post_nms_topn c \<and> length (roi_indices c) = nat (post_nms_topn c)"
proof -
  have gen: "length ys = length xs" if g: "generate_anchors b ra sc m n xs = Some ys" for b ra sc m n xs ys
  proof -
    have row: "length zs = length ys" if "anchor_row c w h sc m n r s ys = Some zs" for c w h r s ys zs
      using that by (auto simp: anchor_row_def Let_def bind_eq_Some_conv dest!: wr_length)
    have rows: "length zs = length ys" if "loop n (anchor_row c w h sc m n r) ys = Some zs" for c w h r ys zs
      using that by (rule loop_keeps [where I = "\<lambda>s. length s = length ys"]) (simp, metis row)
    have ratio: "length zs = length ys" if "anchor_ratio ba c ra sc m n r ys = Some zs" for ba c r ys zs
      using that rows by (auto simp: anchor_ratio_def Let_def bind_eq_Some_conv)
    have "\<exists>ba c. loop m (anchor_ratio ba c ra sc m n) xs = Some ys"
      using g by (auto simp: generate_anchors_def Let_def split: if_splits)
    then obtain ba c where "loop m (anchor_ratio ba c ra sc m n) xs = Some ys" by blast
    then show ?thesis
      by (rule loop_keeps [where I = "\<lambda>s. length s = length xs"]) (simp, metis ratio)
  qed
  show ?thesis
    using assms by (auto simp: prop_ctor_def ebind_eq_Inr deref_def split: option.splits if_splits dest!: gen)
qed

section \<open>Instances\<close>

definition two_boxes :: "corners list" where
  "two_boxes = [(Fin 0, Fin 0, Fin 9, Fin 9), (Fin 0, Fin 0, Fin 8, Fin 9)]"

theorem nms_cpu_spec_witness:
  "\<exists>dead' ks. nms_cpu False 2 [7, 7] (boxes_of two_boxes) [0, 0] 0 (Fin (1/2)) 5 =
      Some (dead', put [0, 0] 0 (map int (limited 5 ks)), length (limited 5 ks)) \<and> set ks \<subseteq> {0..<2}"
proof -
  have "length two_boxes = 2" by (simp add: two_boxes_def)
  then show ?thesis
    using nms_cpu_spec [of "[7, 7]" two_boxes False "Fin (1/2)" 5 "[0, 0]"] by auto
qed

theorem nms_builds_agree_witness:
  "nms_cpu True 10 (replicate 10 0) (boxes_of (replicate 10 (Fin 0, Fin 0, Fin 9, Fin 9))) (replicate 10 0) 0
     (Fin (1/2)) 5 =
   nms_cpu False 10 (replicate 10 0) (boxes_of (replicate 10 (Fin 0, Fin 0, Fin 9, Fin 9))) (replicate 10 0) 0
     (Fin (1/2)) 5"
  using nms_builds_agree [of "replicate 10 0" "replicate 10 (Fin 0, Fin 0, Fin 9, Fin 9)" "Fin (1/2)"
      "replicate 10 0" 0 5]
  by (simp add: flt_def)

theorem proposals_clipped_witness:
  "\<exists>ps'. enumerate_proposals_cpu (\<lambda>_. NaN) [Fin 1, Fin 1] 1 (replicate 4 NaN) (replicate 4 (Fin 0)) 1 1 1
      (Fin 8) (Fin 8) (Fin 1) (Fin 1) 16 [undefined] = Some ps' \<and> (\<forall>p \<in> set ps'. inside (Fin 8) (Fin 8) p)"
proof -
  have "image_ok (Fin 8)" by code_simp
  then show ?thesis
    using proposals_clipped [of "Fin 8" "Fin 8" 1 1 1 1 "[Fin 1, Fin 1]" "replicate 4 NaN" "replicate 4 (Fin 0)"
        "[undefined]" "\<lambda>_. NaN" "Fin 1" "Fin 1" 16] by auto
qed

definition small_prop :: cnn_layer where
  "small_prop = \<lparr>ltype = ''Proposal'', insData = [Some [1, 2, 1, 1], Some [1, 4, 1, 1], Some [1, 4]],
     outData = [Some [2, 5]], p_int = (\<lambda>_. Given 2), p_bool = (\<lambda>_. Absent),
     p_float = (\<lambda>_. Given (Fin (1/2))), p_floats = (\<lambda>_. Given [Fin 1]),
     p_str = (\<lambda>_. Absent), p_raw = (\<lambda>_. None), weights_blob = None\<rparr>"

theorem prop_ctor_ok_witness:
  "\<exists>c cs. prop_ctor ref_lib small_prop = Inr (c, cs) \<and> length (anchors c) = 4 * anchors_shape_0 c"
proof -
  have "generate_anchors (sz_int (to_sz 2)) [Fin 1] [Fin 1] 1 1 (replicate 4 (Fin 0)) \<noteq> None"
    by (simp add: generate_anchors_def anchor_ratio_def anchor_row_def sz_int_def to_sz_def rd_def wr_def Let_def numeral_eq_Suc)
  then obtain c cs where "prop_ctor ref_lib small_prop = Inr (c, cs)"
    by (auto simp: prop_ctor_def small_prop_def addConfig_def fill_port_def conf1_def Let_def)
  then show ?thesis using prop_ctor_ok by blast
qed




end
