(* ===== verification/Simpler_Nms.thy ===== *)
theory Simpler_Nms
  imports Ext_Base Std_Sort Greedy_Nms
begin

text \<open>
  The \<open>SimplerNMS\<close> layer (\<open>extension/ext_simplernms.cpp\<close>): anchors, decoding and clamping of
  the proposals, selection of the most confident ones, suppression and output.

  The unqualified calls \<open>sqrt\<close>, \<open>round\<close> and \<open>exp\<close> are taken as the C functions on \<open>double\<close>;
  \<open>expd\<close> stands for the latter. The comparator of the selection is no strict weak order when
  a confidence is a NaN, which the standard leaves undefined: the model fails there.
\<close>

section \<open>Boxes\<close>

record roi_t =
  rx0 :: ieee
  ry0 :: ieee
  rx1 :: ieee
  ry1 :: ieee

definition clamp_v :: "ieee \<Rightarrow> ieee \<Rightarrow> ieee \<Rightarrow> ieee" where
  "clamp_v v v_min v_max = cmax v_min (cmin v v_max)"

definition area :: "roi_t \<Rightarrow> ieee" where
  "area r = mulf (cmax (Fin 0) (addf (subf (ry1 r) (ry0 r)) (Fin 1)))
     (cmax (Fin 0) (addf (subf (rx1 r) (rx0 r)) (Fin 1)))"

definition intersect :: "roi_t \<Rightarrow> roi_t \<Rightarrow> roi_t" where
  "intersect r other = \<lparr>rx0 = cmax (rx0 r) (rx0 other), ry0 = cmax (ry0 r) (ry0 other),
     rx1 = cmin (rx1 r) (rx1 other), ry1 = cmin (ry1 r) (ry1 other)\<rparr>"

definition clamp :: "roi_t \<Rightarrow> roi_t \<Rightarrow> roi_t" where
  "clamp r other = \<lparr>rx0 = clamp_v (rx0 r) (rx0 other) (rx1 other),
     ry0 = clamp_v (ry0 r) (ry0 other) (ry1 other), rx1 = clamp_v (rx1 r) (rx0 other) (rx1 other),
     ry1 = clamp_v (ry1 r) (ry0 other) (ry1 other)\<rparr>"

record proposal_t =
  roi :: roi_t
  confidence :: ieee
  ord :: nat

record anchor_t =
  start_x :: ieee
  start_y :: ieee
  end_x :: ieee
  end_y :: ieee

section \<open>Anchors\<close>

definition CalcBasicParams :: "anchor_t \<Rightarrow> ieee \<times> ieee \<times> ieee \<times> ieee" where
  "CalcBasicParams base_anchor =
     (let width = addf (subf (end_x base_anchor) (start_x base_anchor)) (Fin 1);
          height = addf (subf (end_y base_anchor) (start_y base_anchor)) (Fin 1);
          x_center = addf (start_x base_anchor) (mulf (Fin (1/2)) (subf width (Fin 1)));
          y_center = addf (start_y base_anchor) (mulf (Fin (1/2)) (subf height (Fin 1)))
      in (width, height, x_center, y_center))"

definition MakeAnchors :: "ieee list \<Rightarrow> ieee list \<Rightarrow> ieee \<Rightarrow> ieee \<Rightarrow> anchor_t list" where
  "MakeAnchors ws hs x_center y_center = map (\<lambda>(w, h).
     \<lparr>start_x = subf x_center (mulf (Fin (1/2)) (subf w (Fin 1))),
      start_y = subf y_center (mulf (Fin (1/2)) (subf h (Fin 1))),
      end_x = addf x_center (mulf (Fin (1/2)) (subf w (Fin 1))),
      end_y = addf y_center (mulf (Fin (1/2)) (subf h (Fin 1)))\<rparr>) (zip ws hs)"

definition CalcAnchors :: "anchor_t \<Rightarrow> ieee list \<Rightarrow> anchor_t list" where
  "CalcAnchors base_anchor scales =
     (let (width, height, x_center, y_center) = CalcBasicParams base_anchor in
      MakeAnchors (map (mulf width) scales) (map (mulf height) scales) x_center y_center)"

definition CalcRatioAnchors :: "anchor_t \<Rightarrow> ieee list \<Rightarrow> anchor_t list" where
  "CalcRatioAnchors base_anchor ratios =
     (let (width, height, x_center, y_center) = CalcBasicParams base_anchor;
          size = mulf width height;
          ws = map (\<lambda>r. cvt b32 (fround (fsqrt b64 (divf size r)))) ratios;
          hs = map (\<lambda>(w, r). cvt b32 (fround (mulf w r))) (zip ws ratios)
      in MakeAnchors ws hs x_center y_center)"

definition write_anchors ::
    "ieee list \<Rightarrow> anchor_t \<Rightarrow> anchor_t list \<times> nat \<Rightarrow> (anchor_t list \<times> nat) option" where
  "write_anchors scales ra = (\<lambda>(anchors, index).
     let temp_anchors = CalcAnchors ra scales in
     loop (length temp_anchors) (\<lambda>j (anchors, index). do {
       anchors \<leftarrow> wr anchors index (temp_anchors ! j);
       Some (anchors, index + 1) }) (anchors, index))"

definition GenerateAnchors ::
    "nat \<Rightarrow> ieee list \<Rightarrow> ieee list \<Rightarrow> anchor_t list \<Rightarrow> anchor_t list option" where
  "GenerateAnchors base_size ratios scales anchors =
     (let fin = n2f ((base_size + 2 ^ 32 - 1) mod 2 ^ 32);
          base_anchor = \<lparr>start_x = Fin 0, start_y = Fin 0, end_x = fin, end_y = fin\<rparr>;
          ratio_anchors = CalcRatioAnchors base_anchor ratios
      in do {
        (anchors, _) \<leftarrow> loop (length ratio_anchors)
          (\<lambda>i. write_anchors scales (ratio_anchors ! i)) (anchors, 0);
        Some anchors
      })"

section \<open>Selection and suppression\<close>

definition overlap_more :: "ieee \<Rightarrow> roi_t \<Rightarrow> roi_t \<Rightarrow> bool" where
  "overlap_more iou_threshold res_bbox bbox =
     (let interArea = area (intersect bbox res_bbox);
          unionArea = subf (addf (area res_bbox) (area bbox)) interArea
      in flt (mulf iou_threshold unionArea) interArea)"

fun perform_nms :: "ieee \<Rightarrow> nat \<Rightarrow> roi_t list \<Rightarrow> proposal_t list \<Rightarrow> roi_t list" where
  "perform_nms iou_threshold top_n res [] = res"
| "perform_nms iou_threshold top_n res (prop # proposals) =
     (let bbox = roi prop in
      if flt (Fin 0) (confidence prop) then
        if \<not> list_ex (\<lambda>res_bbox. overlap_more iou_threshold res_bbox bbox) res then
          (let res' = res @ [bbox] in
           if length res' = top_n then res' else perform_nms iou_threshold top_n res' proposals)
        else perform_nms iou_threshold top_n res proposals
      else perform_nms iou_threshold top_n res proposals)"

text \<open>\<open>res.reserve(top_n)\<close> throws for a size no vector can have.\<close>

definition simpler_nms_perform_nms :: "proposal_t list \<Rightarrow> ieee \<Rightarrow> nat \<Rightarrow> roi_t list option" where
  "simpler_nms_perform_nms proposals iou_threshold top_n =
     (if 2 ^ 59 \<le> top_n then None else Some (perform_nms iou_threshold top_n [] proposals))"

definition cmp_fn :: "proposal_t \<Rightarrow> proposal_t \<Rightarrow> bool" where
  "cmp_fn a b \<longleftrightarrow> flt (confidence b) (confidence a) \<or> feq (confidence a) (confidence b) \<and> ord b < ord a"

definition sort_and_keep_at_most_top_n :: "proposal_t list \<Rightarrow> nat \<Rightarrow> proposal_t list option" where
  "sort_and_keep_at_most_top_n proposals top_n =
     (if list_ex (\<lambda>p. is_nan (confidence p)) proposals then None
      else if top_n < length proposals then Some (take top_n (sort_by cmp_fn proposals))
      else Some (sort_by cmp_fn proposals))"

section \<open>Decoding\<close>

definition gen_bbox ::
    "(ieee \<Rightarrow> ieee) \<Rightarrow> anchor_t \<Rightarrow> ieee \<times> ieee \<times> ieee \<times> ieee \<Rightarrow> int \<Rightarrow> int \<Rightarrow> roi_t" where
  "gen_bbox expd box delta anchor_shift_x anchor_shift_y =
     (let (shift_x, shift_y, log_w, log_h) = delta;
          anchor_w = addf (subf (end_x box) (start_x box)) (Fin 1);
          anchor_h = addf (subf (end_y box) (start_y box)) (Fin 1);
          center_x = addf (start_x box) (mulf anchor_w (Fin (1/2)));
          center_y = addf (start_y box) (mulf anchor_h (Fin (1/2)));
          pred_center_x = addf (addf (mulf shift_x anchor_w) center_x) (i2f anchor_shift_x);
          pred_center_y = addf (addf (mulf shift_y anchor_h) center_y) (i2f anchor_shift_y);
          half_pred_w = cvt b32 (muld (muld (expd log_w) anchor_w) (Fin (1/2)));
          half_pred_h = cvt b32 (muld (muld (expd log_h) anchor_h) (Fin (1/2)))
      in \<lparr>rx0 = subf pred_center_x half_pred_w, ry0 = subf pred_center_y half_pred_h,
          rx1 = addf pred_center_x half_pred_w, ry1 = addf pred_center_y half_pred_h\<rparr>)"

section \<open>The layer\<close>

record snms_cfg =
  min_box_size :: int
  feat_stride :: int
  pre_nms_topn :: int
  post_nms_topn :: int
  iou_threshold :: ieee
  scales :: "ieee list"
  ratios :: "ieee list"
  anchors :: "anchor_t list"

definition snms_ctor :: "ie_lib \<Rightarrow> cnn_layer \<Rightarrow> exn + snms_cfg \<times> layer_config list" where
  "snms_ctor lib L =
     ebind (throw_if (length (insData L) \<noteq> 3 \<or> length (outData L) \<noteq> 1)
       ''Incorrect number of input/output edges!'') (\<lambda>_.
     ebind (get_param (p_int L ''min_bbox_size'')) (\<lambda>ms.
     ebind (get_param (p_int L ''feat_stride'')) (\<lambda>fs.
     ebind (get_param (p_int L ''pre_nms_topn'')) (\<lambda>pre.
     ebind (get_param (p_int L ''post_nms_topn'')) (\<lambda>post.
     ebind (get_param (p_float L ''iou_threshold'')) (\<lambda>thr.
     ebind (get_param_def (p_floats L ''scale'') []) (\<lambda>sc.
     let ra = [Fin (1/2), Fin 1, Fin 2] in
     ebind (deref (GenerateAnchors 16 ra sc (replicate (length ra * length sc)
       \<lparr>start_x = Fin 0, start_y = Fin 0, end_x = Fin 0, end_y = Fin 0\<rparr>))) (\<lambda>anch.
     ebind (deref (outData L ! 0)) (\<lambda>od.
     ebind (throw_if (length od \<noteq> 2 \<or> (case insData L ! 0 of None \<Rightarrow> False | Some d \<Rightarrow> length d \<noteq> 4))
       ''Unsupported dimensions!'') (\<lambda>_.
     ebind (addConfig lib L [] [conf1 PLN, conf1 PLN, conf1 PLN] [conf1 PLN] False) (\<lambda>cs.
     Inr (\<lparr>min_box_size = ms, feat_stride = fs, pre_nms_topn = pre, post_nms_topn = post,
           iou_threshold = thr, scales = sc, ratios = ra, anchors = anch\<rparr>, cs))))))))))))"

definition snms_roi ::
    "(ieee \<Rightarrow> ieee) \<Rightarrow> snms_cfg \<Rightarrow> int \<Rightarrow> int \<Rightarrow> nat \<Rightarrow> nat \<Rightarrow> anchor_t \<Rightarrow> ieee \<times> ieee \<times> ieee \<times> ieee \<Rightarrow> roi_t" where
  "snms_roi expd c IW IH y x box bbox_delta =
     clamp (gen_bbox expd box bbox_delta (int x * feat_stride c) (int y * feat_stride c))
       \<lparr>rx0 = Fin 0, ry0 = Fin 0, rx1 = i2f (IW - 1), ry1 = i2f (IH - 1)\<rparr>"

text \<open>One anchor at one location: the proposal is kept when it is large enough.\<close>

definition snms_anchor ::
    "(ieee \<Rightarrow> ieee) \<Rightarrow> snms_cfg \<Rightarrow> ieee list \<Rightarrow> ieee list \<Rightarrow> nat \<Rightarrow> nat \<Rightarrow> int \<Rightarrow> int \<Rightarrow> int \<Rightarrow> nat \<Rightarrow> nat \<Rightarrow> nat
     \<Rightarrow> proposal_t list \<Rightarrow> proposal_t list option" where
  "snms_anchor expd c cls_scores delta_pred H W IW IH scaled_min y x anchor_index props = do {
     let SZ = H * W;
     let location_index = y * W + x;
     dx0 \<leftarrow> rd delta_pred (location_index + SZ * (anchor_index * 4 + 0));
     dy0 \<leftarrow> rd delta_pred (location_index + SZ * (anchor_index * 4 + 1));
     dx1 \<leftarrow> rd delta_pred (location_index + SZ * (anchor_index * 4 + 2));
     dy1 \<leftarrow> rd delta_pred (location_index + SZ * (anchor_index * 4 + 3));
     proposal_confidence \<leftarrow> rd cls_scores (location_index + SZ * (anchor_index + 9 * 1));
     box \<leftarrow> rd (anchors c) anchor_index;
     let r = snms_roi expd c IW IH y x box (dx0, dy0, dx1, dy1);
     bbox_w \<leftarrow> to_int (addf (subf (rx1 r) (rx0 r)) (Fin 1));
     bbox_h \<leftarrow> to_int (addf (subf (ry1 r) (ry0 r)) (Fin 1));
     if scaled_min \<le> bbox_w \<and> scaled_min \<le> bbox_h
     then Some (props @ [\<lparr>roi = r, confidence = proposal_confidence, ord = length props\<rparr>])
     else Some props
   }"

definition snms_collect ::
    "(ieee \<Rightarrow> ieee) \<Rightarrow> snms_cfg \<Rightarrow> ieee list \<Rightarrow> ieee list \<Rightarrow> nat \<Rightarrow> nat \<Rightarrow> int \<Rightarrow> int \<Rightarrow> int
     \<Rightarrow> proposal_t list option" where
  "snms_collect expd c cls_scores delta_pred H W IW IH scaled_min =
     loop H (\<lambda>y. loop W (\<lambda>x. loop 9
       (snms_anchor expd c cls_scores delta_pred H W IW IH scaled_min y x))) []"

definition write_res :: "roi_t list \<Rightarrow> nat \<Rightarrow> ieee list \<Rightarrow> ieee list option" where
  "write_res res i dst = do {
     dst \<leftarrow> wr dst (5 * i + 0) (Fin 0);
     dst \<leftarrow> wr dst (5 * i + 1) (rx0 (res ! i));
     dst \<leftarrow> wr dst (5 * i + 2) (ry0 (res ! i));
     dst \<leftarrow> wr dst (5 * i + 3) (rx1 (res ! i));
     wr dst (5 * i + 4) (ry1 (res ! i))
   }"

definition snms_execute ::
    "(ieee \<Rightarrow> ieee) \<Rightarrow> snms_cfg \<Rightarrow> blob \<Rightarrow> blob \<Rightarrow> blob \<Rightarrow> blob \<Rightarrow> (status \<times> blob) option" where
  "snms_execute expd c in0 in1 in2 out = do {
     c0 \<leftarrow> rd (dims in0) 1;
     c1 \<leftarrow> rd (dims in1) 1;
     let (src_cls, src_delta) = (if c1 < c0 then (in1, in0) else (in0, in1));
     H \<leftarrow> rd (dims src_cls) 2;
     W \<leftarrow> rd (dims src_cls) 3;
     w \<leftarrow> rd (data in2) 1;
     IW \<leftarrow> to_int w;
     h \<leftarrow> rd (data in2) 0;
     IH \<leftarrow> to_int h;
     s \<leftarrow> rd (data in2) 2;
     IS \<leftarrow> to_int s;
     let scaled_min = min_box_size c * IS;
     props \<leftarrow> snms_collect expd c (data src_cls) (data src_delta) H W IW IH scaled_min;
     props \<leftarrow> sort_and_keep_at_most_top_n props (size_of_int (pre_nms_topn c));
     res \<leftarrow> simpler_nms_perform_nms props (iou_threshold c) (size_of_int (post_nms_topn c));
     dst \<leftarrow> loop (length res) (write_res res) (data out);
     Some (OK, out\<lparr>data := dst\<rparr>)
   }"

section \<open>The suppression is the greedy one\<close>

definition confident :: "proposal_t list \<Rightarrow> roi_t list" where
  "confident ps = map roi (filter (\<lambda>p. flt (Fin 0) (confidence p)) ps)"

lemma perform_nms_greedy:
  "perform_nms thr n res ps = greedy_max (overlap_more thr) n res (confident ps)"
  by (induction ps arbitrary: res) (simp_all add: confident_def Let_def)

definition snms_run :: "ieee \<Rightarrow> roi_t list \<Rightarrow> roi_t list" where
  "snms_run thr rs = perform_nms thr 0 [] (map (\<lambda>r. \<lparr>roi = r, confidence = Fin 1, ord = 0\<rparr>) rs)"

lemma snms_run_greedy: "snms_run thr rs = greedy (overlap_more thr) rs"
proof -
  have "confident (map (\<lambda>r. \<lparr>roi = r, confidence = Fin 1, ord = 0\<rparr>) rs) = rs"
    by (simp add: confident_def flt_def filter_map o_def)
  then show ?thesis by (simp add: snms_run_def perform_nms_greedy greedy_max_eq)
qed

interpretation snms: suppression UNIV "overlap_more thr" "snms_run thr" for thr
  by unfold_locales
    (auto simp: snms_run_greedy greedy_snoc keep_step_def list_ex_iff, simp add: greedy_def)

text \<open>
  The suppression of the \<open>SimplerNMS\<close> layer: the result is a subsequence of the boxes with
  positive confidence, in their order; no box overlaps an earlier one of the result beyond the
  threshold; with a limit \<open>top_n > 0\<close> there are at most \<open>top_n\<close> of them; and when the limit is
  not reached, every box left out is overlapped by one of the result.
\<close>

theorem perform_nms_spec:
  assumes "simpler_nms_perform_nms ps thr n = Some res"
  shows "subseq res (confident ps) \<and> sorted_wrt (\<lambda>a b. \<not> overlap_more thr a b) res \<and>
    (0 < n \<longrightarrow> length res \<le> n) \<and>
    (n = 0 \<or> length res < n \<longrightarrow>
      (\<forall>b \<in> set (confident ps). b \<in> set res \<or> (\<exists>a \<in> set res. overlap_more thr a b)))"
proof -
  let ?all = "snms_run thr (confident ps)"
  have res: "res = (if n = 0 then ?all else take n ?all)"
    using assms by (auto simp: simpler_nms_perform_nms_def perform_nms_greedy greedy_max_eq
        snms_run_greedy split: if_splits)
  have sub: "subseq ?all (confident ps)" by (rule snms.run_subseq) simp
  have ind: "sorted_wrt (\<lambda>a b. \<not> overlap_more thr a b) ?all" by (rule snms.run_independent) simp
  have max: "\<exists>a \<in> set ?all. overlap_more thr a b" if b: "b \<in> set (confident ps)" "b \<notin> set ?all" for b
  proof -
    obtain xs ys where "confident ps = xs @ b # ys" using b(1) by (auto dest: split_list)
    then show ?thesis
      using snms.run_maximal [of xs b ys thr] snms.run_prefix [of xs "b # ys" thr] b(2) by auto
  qed
  have "res = ?all" if "n = 0 \<or> length res < n"
    using that by (auto simp: res split: if_splits)
  then have "\<forall>b \<in> set (confident ps). b \<in> set res \<or> (\<exists>a \<in> set res. overlap_more thr a b)"
    if "n = 0 \<or> length res < n" using that max by auto
  moreover have "subseq res (confident ps)"
  proof -
    have "subseq (take n ?all) ?all" by (metis append_take_drop_id list_emb_append2 subseq_append_iff subseq_order.order_refl prefix_imp_subseq take_is_prefix)
    then show ?thesis using sub res by (auto intro: subseq_order.trans)
  qed
  moreover have "sorted_wrt (\<lambda>a b. \<not> overlap_more thr a b) res"
    using ind by (simp add: res sorted_wrt_take)
  ultimately show ?thesis by (auto simp: res)
qed

section \<open>The selection\<close>

interpretation cmp: swo_on "{p. \<not> is_nan (confidence p)}" cmp_fn
proof
  fix p q r :: proposal_t
  assume *: "p \<in> {p. \<not> is_nan (confidence p)}" "q \<in> {p. \<not> is_nan (confidence p)}"
    "r \<in> {p. \<not> is_nan (confidence p)}"
  show "cmp_fn p q \<Longrightarrow> cmp_fn q r \<Longrightarrow> cmp_fn p r"
    by (auto simp: cmp_fn_def feq_iff intro: flt_trans flt_fle_trans fle_flt_trans fle_trans)
  show "\<not> cmp_fn p q \<Longrightarrow> \<not> cmp_fn q r \<Longrightarrow> \<not> cmp_fn p r"
    using * by (auto simp: cmp_fn_def feq_iff not_flt dest: fle_trans fle_not_flt)
qed (simp add: cmp_fn_def)

lemma sort_and_keep_aux:
  assumes "\<forall>p \<in> set ps. \<not> is_nan (confidence p)"
  shows "sort_and_keep_at_most_top_n ps n = Some (take n (sort_by cmp_fn ps))"
  using assms by (auto simp: sort_and_keep_at_most_top_n_def list_ex_iff)

text \<open>
  The selection keeps the most confident proposals: with \<open>n\<close> places it returns
  \<open>min n (length ps)\<close> of them, sorted by falling confidence, and no proposal left out is more
  confident than one kept. It fails only on a confidence that is not a number.
\<close>

theorem sort_and_keep_spec:
  assumes "\<forall>p \<in> set ps. \<not> is_nan (confidence p)"
  shows "\<exists>qs rest. sort_and_keep_at_most_top_n ps n = Some qs \<and> mset (qs @ rest) = mset ps \<and>
    length qs = min n (length ps) \<and> sorted_wrt (\<lambda>a b. fle (confidence b) (confidence a)) qs \<and>
    (\<forall>a \<in> set qs. \<forall>b \<in> set rest. fle (confidence b) (confidence a))"
proof -
  let ?s = "sort_by cmp_fn ps"
  have nan: "\<not> is_nan (confidence p)" if "p \<in> set ?s" for p using assms that by simp
  have "sorted_by cmp_fn ?s" using assms by (intro cmp.sorted_sort_by) auto
  then have "sorted_wrt (\<lambda>a b. \<not> cmp_fn b a) ?s" by (simp add: sorted_by_def)
  then have s: "sorted_wrt (\<lambda>a b. fle (confidence b) (confidence a)) ?s"
    by (rule sorted_wrt_mono_rel [rotated]) (auto simp: cmp_fn_def not_flt nan)
  have "take n ?s @ drop n ?s = ?s" by simp
  then have "\<forall>a \<in> set (take n ?s). \<forall>b \<in> set (drop n ?s). fle (confidence b) (confidence a)"
    using s by (metis sorted_wrt_append)
  moreover have "sort_and_keep_at_most_top_n ps n = Some (take n ?s)"
    using assms by (rule sort_and_keep_aux)
  ultimately show ?thesis
    using s by (intro exI [of _ "take n ?s"] exI [of _ "drop n ?s"]) (simp add: sorted_wrt_take)
qed

section \<open>The proposals\<close>

definition in_image :: "int \<Rightarrow> int \<Rightarrow> roi_t \<Rightarrow> bool" where
  "in_image IW IH r \<longleftrightarrow>
     (\<forall>v \<in> {rx0 r, rx1 r}. is_fin v \<and> 0 \<le> val v \<and> val v \<le> of_int (IW - 1)) \<and>
     (\<forall>v \<in> {ry0 r, ry1 r}. is_fin v \<and> 0 \<le> val v \<and> val v \<le> of_int (IH - 1))"

lemma clamp_v_range:
  assumes "1 \<le> n" and "n < 2 ^ 24"
  shows "is_fin (clamp_v v (Fin 0) (i2f (n - 1))) \<and> 0 \<le> val (clamp_v v (Fin 0) (i2f (n - 1))) \<and>
    val (clamp_v v (Fin 0) (i2f (n - 1))) \<le> of_int (n - 1)"
proof -
  have hi: "i2f (n - 1) = Fin (of_int (n - 1))" using assms by (intro i2f_exact) simp
  then have "is_fin (i2f (n - 1))" "fle (Fin 0) (i2f (n - 1))" using assms by (simp_all add: fle_fin)
  from cmax_cmin_range [OF this, of v] show ?thesis
    by (auto simp: clamp_v_def fle_fin hi)
qed

lemma clamp_in_image:
  assumes "1 \<le> IW" "IW < 2 ^ 24" "1 \<le> IH" "IH < 2 ^ 24"
  shows "in_image IW IH (clamp r \<lparr>rx0 = Fin 0, ry0 = Fin 0, rx1 = i2f (IW - 1), ry1 = i2f (IH - 1)\<rparr>)"
  using clamp_v_range [OF assms(1,2)] clamp_v_range [OF assms(3,4)]
  by (simp add: in_image_def clamp_def)

lemma extent_to_int:
  assumes "1 \<le> n" "n < 2 ^ 23" and "is_fin a" "0 \<le> val a" "val a \<le> of_int (n - 1)"
    and "is_fin b" "0 \<le> val b" "val b \<le> of_int (n - 1)"
  shows "\<exists>i. to_int (addf (subf a b) (Fin 1)) = Some i"
proof -
  have s: "is_fin (subf a b) \<and> of_int (1 - n) \<le> val (subf a b) \<and> val (subf a b) \<le> of_int (n - 1)"
    using assms by (intro fsub_bounded) auto
  then have "is_fin (addf (subf a b) (Fin 1)) \<and> of_int (2 - n) \<le> val (addf (subf a b) (Fin 1)) \<and>
      val (addf (subf a b) (Fin 1)) \<le> of_int n"
    using assms by (intro fadd_bounded) auto
  then show ?thesis
    using to_int_bounded [of "addf (subf a b) (Fin 1)" "2 - n" n] assms(1,2) by auto
qed

definition numbered :: "proposal_t list \<Rightarrow> bool" where
  "numbered ps \<longleftrightarrow> (\<forall>i < length ps. ord (ps ! i) = i)"

lemma numbered_snoc: "numbered ps \<Longrightarrow> ord p = length ps \<Longrightarrow> numbered (ps @ [p])"
  by (auto simp: numbered_def nth_append less_Suc_eq)

definition props_ok :: "ieee list \<Rightarrow> int \<Rightarrow> int \<Rightarrow> proposal_t list \<Rightarrow> bool" where
  "props_ok cls IW IH ps \<longleftrightarrow> numbered ps \<and> (\<forall>p \<in> set ps. in_image IW IH (roi p) \<and> confidence p \<in> set cls)"

lemma ok_defined: "\<exists>i. m = Some i \<Longrightarrow> (\<And>i. Q i) \<Longrightarrow> ok m Q"
  by auto

lemma ok_snms_collect:
  assumes size: "1 \<le> IW" "IW < 2 ^ 23" "1 \<le> IH" "IH < 2 ^ 23" and anch: "9 \<le> length (anchors c)"
    and cls: "18 * (H * W) \<le> length cls" and delta: "36 * (H * W) \<le> length delta"
  shows "ok (snms_collect expd c cls delta H W IW IH m) (props_ok cls IW IH)"
proof -
  have "ok (snms_anchor expd c cls delta H W IW IH m y x a ps) (props_ok cls IW IH)"
    if "y < H" "x < W" "a < 9" and ps: "props_ok cls IW IH ps" for y x a ps
  proof -
    have loc: "y * W + x < H * W" using that by (intro index2_less)
    have d: "y * W + x + H * W * (a * 4 + k) < length delta" if "k < 4" for k
      using index2_less [of "a * 4 + k" 36 "y * W + x" "H * W"] loc delta that \<open>a < 9\<close>
      by (simp add: algebra_simps)
    have s: "y * W + x + H * W * (a + 9 * 1) < length cls"
      using index2_less [of "a + 9" 18 "y * W + x" "H * W"] loc cls \<open>a < 9\<close> by (simp add: algebra_simps)
    have r: "in_image IW IH (snms_roi expd c IW IH y x b d)" for b d
      unfolding snms_roi_def using size by (intro clamp_in_image) auto
    then have i: "\<exists>i. to_int (addf (subf (rx1 (snms_roi expd c IW IH y x b d)) (rx0 (snms_roi expd c IW IH y x b d))) (Fin 1)) = Some i"
      and j: "\<exists>j. to_int (addf (subf (ry1 (snms_roi expd c IW IH y x b d)) (ry0 (snms_roi expd c IW IH y x b d))) (Fin 1)) = Some j" for b d
      by (intro extent_to_int [of IW] extent_to_int [of IH]; use size r [of b d] in \<open>simp add: in_image_def\<close>)+
    have next_ps: "props_ok cls IW IH (ps @ [\<lparr>roi = snms_roi expd c IW IH y x b d, confidence = v, ord = length ps\<rparr>])"
      if "v \<in> set cls" for b d v
      using ps r that by (auto simp: props_ok_def numbered_snoc)
    show ?thesis
      unfolding snms_anchor_def Let_def
      using d [of 0] d [of 1] d [of 2] d [of 3] s anch \<open>a < 9\<close> ps next_ps
      by (auto simp: wp dest: nth_mem intro!: ok_defined [OF i] ok_defined [OF j])
  qed
  then show ?thesis
    unfolding snms_collect_def
    by (intro loop_inv) (simp_all add: props_ok_def numbered_def)
qed

section \<open>The run\<close>

definition res_row :: "roi_t \<Rightarrow> ieee list" where
  "res_row r = [Fin 0, rx0 r, ry0 r, rx1 r, ry1 r]"

lemma write_res_eq:
  assumes "5 * length res \<le> length dst"
  shows "loop (length res) (write_res res) dst = Some (put dst 0 (concat (map res_row res)))"
proof -
  have "loop (length res) (write_res res) dst = Some (put dst 0 (concat (map (\<lambda>i. res_row (res ! i)) [0..<length res])))"
  proof (rule loop_put [where L = "length dst" and n = 5])
    fix i and xs :: "ieee list" assume i: "i < length res" and xs: "length xs = length dst"
    then have room: "i * 5 + 5 \<le> length xs" using assms by linarith
    show "write_res res i xs = Some (put xs (0 + i * 5) (res_row (res ! i)))"
      using put_five [OF room, of "Fin 0" "rx0 (res ! i)" "ry0 (res ! i)" "rx1 (res ! i)" "ry1 (res ! i)"] room
      by (simp add: write_res_def wr_def res_row_def mult.commute)
  qed (use assms in \<open>auto simp: res_row_def\<close>)
  moreover have "map (\<lambda>i. res_row (res ! i)) [0..<length res] = map res_row res"
    by (rule nth_equalityI) simp_all
  ultimately show ?thesis by simp
qed

text \<open>
  C23: The run of the \<open>SimplerNMS\<close> layer. On nine anchors, inputs of the promised volumes with
  scores that are numbers, and an output with room for \<open>post_nms_topn\<close> rows, the layer stays
  inside its buffers and returns \<open>OK\<close>; it writes at most \<open>post_nms_topn\<close> rows, one per box of
  the suppression of the most confident proposals, all inside the image; the rest of the
  output is left as it was, without an end marker.
\<close>

theorem snms_execute_spec:
  assumes dims: "dims in0 = [b0, c0, H, W]" "dims in1 = [b1, c1, H1, W1]" "c0 \<le> c1"
    and anch: "9 \<le> length (anchors c)"
    and cls: "18 * (H * W) \<le> length (data in0)" "\<forall>v \<in> set (data in0). \<not> is_nan v"
    and delta: "36 * (H * W) \<le> length (data in1)"
    and info: "data in2 = ih # iw # is # rest" "to_int iw = Some IW" "to_int ih = Some IH" "to_int is = Some IS"
    and size: "1 \<le> IW" "IW < 2 ^ 23" "1 \<le> IH" "IH < 2 ^ 23"
    and post: "0 < post_nms_topn c" "post_nms_topn c < 2 ^ 31" "5 * nat (post_nms_topn c) \<le> length (data out)"
  shows "\<exists>ps qs res. snms_collect expd c (data in0) (data in1) H W IW IH (min_box_size c * IS) = Some ps \<and>
    sort_and_keep_at_most_top_n ps (size_of_int (pre_nms_topn c)) = Some qs \<and>
    simpler_nms_perform_nms qs (iou_threshold c) (nat (post_nms_topn c)) = Some res \<and>
    snms_execute expd c in0 in1 in2 out =
      Some (OK, out\<lparr>data := put (data out) 0 (concat (map res_row res))\<rparr>) \<and>
    length res \<le> nat (post_nms_topn c) \<and> (\<forall>r \<in> set res. in_image IW IH r)"
proof -
  obtain ps where ps: "snms_collect expd c (data in0) (data in1) H W IW IH (min_box_size c * IS) = Some ps"
    "props_ok (data in0) IW IH ps"
    using ok_snms_collect [OF size anch cls(1) delta, of expd "min_box_size c * IS"] by (auto elim: okE)
  have "\<forall>p \<in> set ps. \<not> is_nan (confidence p)" using ps(2) cls(2) by (auto simp: props_ok_def)
  then have qs: "sort_and_keep_at_most_top_n ps (size_of_int (pre_nms_topn c)) =
      Some (take (size_of_int (pre_nms_topn c)) (sort_by cmp_fn ps))"
    by (rule sort_and_keep_aux)
  define qs where "qs = take (size_of_int (pre_nms_topn c)) (sort_by cmp_fn ps)"
  have top: "size_of_int (post_nms_topn c) = nat (post_nms_topn c)"
    using post by (simp add: size_of_int_def)
  define res where "res = perform_nms (iou_threshold c) (nat (post_nms_topn c)) [] qs"
  have res: "simpler_nms_perform_nms qs (iou_threshold c) (nat (post_nms_topn c)) = Some res"
    using post by (simp add: simpler_nms_perform_nms_def res_def)
  have len: "length res \<le> nat (post_nms_topn c)"
    using post greedy_max_length [of "nat (post_nms_topn c)"] by (simp add: res_def perform_nms_greedy)
  have "set res \<subseteq> set (confident qs)"
    unfolding res_def perform_nms_greedy greedy_max_eq
    using greedy_subset [of "overlap_more (iou_threshold c)" "confident qs"] post
    by (auto dest!: in_set_takeD)
  moreover have "set qs \<subseteq> set ps" using set_take_subset [of _ "sort_by cmp_fn ps"] by (auto simp: qs_def)
  ultimately have "\<forall>r \<in> set res. in_image IW IH r"
    using ps(2) by (auto simp: confident_def props_ok_def)
  moreover have "loop (length res) (write_res res) (data out) = Some (put (data out) 0 (concat (map res_row res)))"
    using len post by (intro write_res_eq) simp
  ultimately show ?thesis
    using dims info ps(1) qs [folded qs_def] res len
    by (simp add: snms_execute_def rd_def Let_def top)
qed

section \<open>Instances\<close>

definition one_prop :: "ieee \<Rightarrow> nat \<Rightarrow> proposal_t" where
  "one_prop s k = \<lparr>roi = \<lparr>rx0 = Fin 0, ry0 = Fin 0, rx1 = Fin 9, ry1 = Fin 9\<rparr>, confidence = s, ord = k\<rparr>"

theorem perform_nms_spec_witness:
  "\<exists>res. simpler_nms_perform_nms [one_prop (Fin (3/4)) 0, one_prop (Fin (1/2)) 1] (Fin (1/2)) 2 = Some res \<and>
     subseq res (confident [one_prop (Fin (3/4)) 0, one_prop (Fin (1/2)) 1]) \<and> length res \<le> 2"
proof -
  obtain res where r: "simpler_nms_perform_nms [one_prop (Fin (3/4)) 0, one_prop (Fin (1/2)) 1] (Fin (1/2)) 2 = Some res"
    by (simp add: simpler_nms_perform_nms_def)
  show ?thesis using perform_nms_spec [OF r] r by auto
qed

theorem sort_and_keep_spec_witness:
  "\<exists>qs rest. sort_and_keep_at_most_top_n [one_prop (Fin (1/2)) 0, one_prop (Fin (3/4)) 1] 1 = Some qs \<and>
     length qs = 1 \<and> mset (qs @ rest) = mset [one_prop (Fin (1/2)) 0, one_prop (Fin (3/4)) 1]"
  using sort_and_keep_spec [of "[one_prop (Fin (1/2)) 0, one_prop (Fin (3/4)) 1]" 1]
  by (auto simp: one_prop_def)

definition small_snms :: snms_cfg where
  "small_snms = \<lparr>min_box_size = 1, feat_stride = 16, pre_nms_topn = 3, post_nms_topn = 2,
     iou_threshold = Fin (1/2), scales = [Fin 1, Fin 2, Fin 4], ratios = [Fin (1/2), Fin 1, Fin 2],
     anchors = replicate 9 \<lparr>start_x = Fin 0, start_y = Fin 0, end_x = Fin 15, end_y = Fin 15\<rparr>\<rparr>"

theorem snms_execute_spec_witness:
  "\<exists>res. snms_execute (\<lambda>_. Fin 1) small_snms \<lparr>dims = [1, 18, 1, 1], data = replicate 18 (Fin (1/2))\<rparr>
      \<lparr>dims = [1, 36, 1, 1], data = replicate 36 (Fin 0)\<rparr> \<lparr>dims = [1, 3], data = [Fin 32, Fin 32, Fin 1]\<rparr>
      \<lparr>dims = [2, 5], data = replicate 10 NaN\<rparr> =
    Some (OK, \<lparr>dims = [2, 5], data = put (replicate 10 NaN) 0 (concat (map res_row res))\<rparr>) \<and>
    length res \<le> 2 \<and> (\<forall>r \<in> set res. in_image 32 32 r)"
proof -
  have i: "to_int (Fin 32) = Some 32" "to_int (Fin 1) = Some 1" by (simp_all add: to_int_def trunc_def)
  show ?thesis
    using snms_execute_spec [of "\<lparr>dims = [1, 18, 1, 1], data = replicate 18 (Fin (1/2))\<rparr>" 1 18 1 1
        "\<lparr>dims = [1, 36, 1, 1], data = replicate 36 (Fin 0)\<rparr>" 1 36 1 1 small_snms
        "\<lparr>dims = [1, 3], data = [Fin 32, Fin 32, Fin 1]\<rparr>" "Fin 32" "Fin 32" "Fin 1" "[]" 32 32 1
        "\<lparr>dims = [2, 5], data = replicate 10 NaN\<rparr>" "\<lambda>_. Fin 1"] i
    by (auto simp: small_snms_def)
qed

end
