(* ===== verification/Arg_Max.thy ===== *)
theory Arg_Max
  imports Ext_Base Std_Sort
begin

text \<open>
  The \<open>ArgMax\<close> layer (\<open>extension/ext_argmax.cpp\<close>): the \<open>top_k\<close> largest values along an axis,
  or over everything behind the first dimension, as indices, values or both.

  \<open>std::partial_sort\<close> by \<open>std::greater\<close> on pairs needs a strict weak order and \<open>top_k\<close> elements;
  on a NaN or a larger \<open>top_k\<close> its behaviour is undefined and the model fails.
\<close>

section \<open>Reading the axis\<close>

text \<open>\<open>std::stoi\<close>: white space, a sign, digits; the rest is ignored.\<close>

definition is_space :: "char \<Rightarrow> bool" where
  "is_space ch \<longleftrightarrow> of_char ch = (32::nat) \<or> 9 \<le> (of_char ch :: nat) \<and> (of_char ch :: nat) \<le> 13"

definition is_digit :: "char \<Rightarrow> bool" where
  "is_digit ch \<longleftrightarrow> 48 \<le> (of_char ch :: nat) \<and> (of_char ch :: nat) \<le> 57"

definition digits_val :: "string \<Rightarrow> int" where
  "digits_val s = foldl (\<lambda>n ch. n * 10 + (int (of_char ch) - 48)) 0 s"

definition stoi :: "string \<Rightarrow> exn + int" where
  "stoi s = (let s = dropWhile is_space s;
       neg = (s \<noteq> [] \<and> hd s = CHR ''-'');
       s = (if s \<noteq> [] \<and> (hd s = CHR ''-'' \<or> hd s = CHR ''+'') then tl s else s);
       ds = takeWhile is_digit s; n = (if neg then - digits_val ds else digits_val ds)
     in if ds = [] then Inl (StdException ''stoi'')
        else if n < - (2 ^ 31) \<or> 2 ^ 31 \<le> n then Inl (StdException ''stoi'')
        else Inr n)"

section \<open>The layer\<close>

record argmax_cfg =
  out_max_val :: bool
  top_k :: int
  has_axis :: bool
  axis_index :: int

definition argmax_ctor :: "ie_lib \<Rightarrow> cnn_layer \<Rightarrow> exn + argmax_cfg \<times> layer_config list" where
  "argmax_ctor lib L =
     ebind (throw_if (length (insData L) \<noteq> 1 \<or> outData L = [])
       ''Incorrect number of input/output edges!'') (\<lambda>_.
     ebind (get_param (p_int L ''out_max_val'')) (\<lambda>om.
     ebind (get_param (p_int L ''top_k'')) (\<lambda>tk.
     ebind (case p_raw L ''axis'' of None \<Rightarrow> Inr 0 | Some s \<Rightarrow> stoi s) (\<lambda>ax.
     ebind (addConfig lib L [] [conf1 PLN] [conf1 PLN] False) (\<lambda>cs.
     Inr (\<lparr>out_max_val = (om \<noteq> 0), top_k = tk, has_axis = (p_raw L ''axis'' \<noteq> None),
           axis_index = ax\<rparr>, cs))))))"

definition dims_count :: "nat list \<Rightarrow> nat \<Rightarrow> nat" where
  "dims_count ds start_ind = prod_list (drop start_ind ds)"

text \<open>\<open>std::greater\<close> on pairs: by value, then by index.\<close>

definition pair_less :: "ieee \<times> nat \<Rightarrow> ieee \<times> nat \<Rightarrow> bool" where
  "pair_less a b \<longleftrightarrow> flt (fst a) (fst b) \<or> \<not> flt (fst b) (fst a) \<and> snd a < snd b"

definition pair_greater :: "ieee \<times> nat \<Rightarrow> ieee \<times> nat \<Rightarrow> bool" where
  "pair_greater a b = pair_less b a"

definition partial_sort_greater :: "nat \<Rightarrow> (ieee \<times> nat) list \<Rightarrow> (ieee \<times> nat) list option" where
  "partial_sort_greater k xs =
     (if length xs < k \<or> list_ex (\<lambda>p. is_nan (fst p)) xs then None
      else Some (sort_by pair_greater xs))"

text \<open>The candidates of output position \<open>i\<close>.\<close>

definition load_candidates :: "ieee list \<Rightarrow> nat \<Rightarrow> nat \<Rightarrow> nat \<Rightarrow> (ieee \<times> nat) list option" where
  "load_candidates src dm axis_dist i =
     loop dm (\<lambda>j xs. do {
       v \<leftarrow> rd src ((i div axis_dist * dm + j) * axis_dist + i mod axis_dist);
       Some (xs @ [(v, j)]) }) []"

definition store_best ::
    "argmax_cfg \<Rightarrow> (ieee \<times> nat) list \<Rightarrow> nat \<Rightarrow> nat \<Rightarrow> nat \<Rightarrow> nat \<Rightarrow> ieee list \<Rightarrow> ieee list option" where
  "store_best c xs k axis_dist i j dst = do {
     (v, idx) \<leftarrow> rd xs j;
     if out_max_val c then
       if has_axis c then wr dst ((i div axis_dist * k + j) * axis_dist + i mod axis_dist) v
       else do {
         dst \<leftarrow> wr dst (2 * i * k + j) (n2f idx);
         wr dst (2 * i * k + k + j) v
       }
     else wr dst ((i div axis_dist * k + j) * axis_dist + i mod axis_dist) (n2f idx)
   }"

definition argmax_one ::
    "argmax_cfg \<Rightarrow> ieee list \<Rightarrow> nat \<Rightarrow> nat \<Rightarrow> nat \<Rightarrow> nat \<Rightarrow> ieee list \<Rightarrow> ieee list option" where
  "argmax_one c src dm axis_dist k i dst = do {
     xs \<leftarrow> load_candidates src dm axis_dist i;
     xs \<leftarrow> partial_sort_greater k xs;
     loop k (store_best c xs k axis_dist i) dst
   }"

text \<open>The extent of the axis and the distance of its elements; a division by zero fails.\<close>

definition argmax_axis :: "argmax_cfg \<Rightarrow> nat list \<Rightarrow> (nat \<times> nat) option" where
  "argmax_axis c in_dims =
     (if has_axis c then
        let axis = (if axis_index c < 0 then axis_index c + int (length in_dims) else axis_index c) in do {
          dm \<leftarrow> rdz in_dims axis;
          if dm = 0 then None else Some (dm, dims_count in_dims (nat axis) div dm)
        }
      else Some (dims_count in_dims 1, 1))"

definition argmax_execute :: "argmax_cfg \<Rightarrow> blob \<Rightarrow> blob \<Rightarrow> (status \<times> blob) option" where
  "argmax_execute c inp out = do {
     (dm, axis_dist) \<leftarrow> argmax_axis c (dims inp);
     if dm = 0 \<or> top_k c < 0 then None else do {
       let num = dims_count (dims inp) 0 div dm;
       dst \<leftarrow> loop num (argmax_one c (data inp) dm axis_dist (nat (top_k c))) (data out);
       Some (OK, out\<lparr>data := dst\<rparr>)
     }
   }"

section \<open>The best candidates\<close>

interpretation pairs: swo_on "{p. \<not> is_nan (fst p)}" pair_greater
proof
  fix p q r :: "ieee \<times> nat"
  assume *: "p \<in> {p. \<not> is_nan (fst p)}" "q \<in> {p. \<not> is_nan (fst p)}" "r \<in> {p. \<not> is_nan (fst p)}"
  show "pair_greater p q \<Longrightarrow> pair_greater q r \<Longrightarrow> pair_greater p r"
    using * by (auto simp: pair_greater_def pair_less_def not_flt
        intro: flt_trans flt_fle_trans fle_flt_trans fle_trans)
  show "\<not> pair_greater p q \<Longrightarrow> \<not> pair_greater q r \<Longrightarrow> \<not> pair_greater p r"
    using * by (auto simp: pair_greater_def pair_less_def not_flt
        dest: flt_trans flt_fle_trans fle_flt_trans fle_trans fle_not_flt flt_imp_fle)
qed (simp add: pair_greater_def pair_less_def)

definition cands :: "ieee list \<Rightarrow> nat \<Rightarrow> nat \<Rightarrow> nat \<Rightarrow> (ieee \<times> nat) list" where
  "cands src dm axis_dist i =
     map (\<lambda>j. (src ! ((i div axis_dist * dm + j) * axis_dist + i mod axis_dist), j)) [0..<dm]"

definition best :: "ieee list \<Rightarrow> nat \<Rightarrow> nat \<Rightarrow> nat \<Rightarrow> nat \<Rightarrow> (ieee \<times> nat) list" where
  "best src dm axis_dist k i = take k (sort_by pair_greater (cands src dm axis_dist i))"

lemma length_best: "length (best src dm axis_dist k i) = min k dm"
  by (simp add: best_def cands_def)

text \<open>The best candidates are sorted by falling value, and none left out is larger.\<close>

lemma best_sorted:
  assumes "\<forall>v \<in> set src. \<not> is_nan v" and "\<forall>j < dm. (i div axis_dist * dm + j) * axis_dist + i mod axis_dist < length src"
  shows "sorted_wrt (\<lambda>p q. fle (fst q) (fst p)) (best src dm axis_dist k i) \<and>
    (\<exists>rest. mset (best src dm axis_dist k i @ rest) = mset (cands src dm axis_dist i) \<and>
      (\<forall>p \<in> set (best src dm axis_dist k i). \<forall>q \<in> set rest. fle (fst q) (fst p)))"
proof -
  let ?s = "sort_by pair_greater (cands src dm axis_dist i)"
  have nan: "\<forall>p \<in> set (cands src dm axis_dist i). \<not> is_nan (fst p)"
    using assms nth_mem by (fastforce simp: cands_def)
  then have "sorted_by pair_greater ?s" by (intro pairs.sorted_sort_by) auto
  then have "sorted_wrt (\<lambda>p q. \<not> pair_greater q p) ?s" by (simp add: sorted_by_def)
  then have s: "sorted_wrt (\<lambda>p q. fle (fst q) (fst p)) ?s"
    by (rule sorted_wrt_mono_rel [rotated])
      (use nan in \<open>auto simp: pair_greater_def pair_less_def not_flt dest: flt_imp_fle\<close>)
  have "take k ?s @ drop k ?s = ?s" by simp
  then have "\<forall>p \<in> set (take k ?s). \<forall>q \<in> set (drop k ?s). fle (fst q) (fst p)"
    using s by (metis sorted_wrt_append)
  then show ?thesis
    using s unfolding best_def
    by (auto simp: sorted_wrt_take mset_append [symmetric] simp del: mset_append intro!: exI [of _ "drop k ?s"])
qed

section \<open>Where the results are stored\<close>

text \<open>Position \<open>i\<close> of the output and rank \<open>j\<close>, with \<open>n\<close> elements along the axis.\<close>

definition spot :: "nat \<Rightarrow> nat \<Rightarrow> nat \<Rightarrow> nat \<Rightarrow> nat" where
  "spot axis_dist n i j = (i div axis_dist * n + j) * axis_dist + i mod axis_dist"

lemma spot_inj:
  assumes "0 < axis_dist" and "j < n" and "j' < n"
  shows "spot axis_dist n i j = spot axis_dist n i' j' \<longleftrightarrow> i = i' \<and> j = j'"
proof -
  have "spot axis_dist n i j = spot axis_dist n i' j' \<longleftrightarrow>
      i div axis_dist * n + j = i' div axis_dist * n + j' \<and> i mod axis_dist = i' mod axis_dist"
    unfolding spot_def using assms(1) by (intro index2_inj) simp_all
  also have "\<dots> \<longleftrightarrow> i div axis_dist = i' div axis_dist \<and> j = j' \<and> i mod axis_dist = i' mod axis_dist"
    using assms by (simp add: index2_inj)
  also have "\<dots> \<longleftrightarrow> i = i' \<and> j = j'"
    by (metis div_mult_mod_eq)
  finally show ?thesis .
qed

lemma spot_less:
  assumes "0 < axis_dist" and "i < m * axis_dist" and "j < n"
  shows "spot axis_dist n i j < m * n * axis_dist"
proof -
  have "i div axis_dist < m" using assms by (simp add: less_mult_imp_div_less)
  then have "i div axis_dist * n + j < m * n" using assms(3) by (rule index2_less)
  moreover have "i mod axis_dist < axis_dist" using assms(1) by simp
  ultimately show ?thesis unfolding spot_def by (rule index2_less)
qed

lemma load_candidates_eq:
  assumes "\<forall>j < dm. spot axis_dist dm i j < length src"
  shows "load_candidates src dm axis_dist i = Some (cands src dm axis_dist i)"
proof -
  have "ok (load_candidates src dm axis_dist i) (\<lambda>xs. xs = cands src dm axis_dist i)"
    unfolding load_candidates_def cands_def
    by (rule loop_ok [where I = "\<lambda>j xs. xs =
        map (\<lambda>j. (src ! ((i div axis_dist * dm + j) * axis_dist + i mod axis_dist), j)) [0..<j]"])
      (use assms in \<open>auto simp: wp spot_def\<close>)
  then show ?thesis by (simp add: ok_eq_Some)
qed

text \<open>What rank \<open>j\<close> of the result contributes: its value or its index.\<close>

definition shown :: "argmax_cfg \<Rightarrow> ieee \<times> nat \<Rightarrow> ieee" where
  "shown c p = (if out_max_val c then fst p else n2f (snd p))"

text \<open>The output after the first \<open>n\<close> positions, in the layouts with one value per rank.\<close>

definition ranked :: "argmax_cfg \<Rightarrow> ieee list \<Rightarrow> nat \<Rightarrow> nat \<Rightarrow> nat \<Rightarrow> nat \<Rightarrow> ieee list \<Rightarrow> bool" where
  "ranked c src dm axis_dist k n dst \<longleftrightarrow>
     (\<forall>i < n. \<forall>j < k. dst ! spot axis_dist k i j = shown c (best src dm axis_dist k i ! j))"

lemma argmax_one_ok:
  assumes lay: "out_max_val c \<longrightarrow> has_axis c" and d: "0 < axis_dist" and k: "k \<le> dm" and i: "i < m * axis_dist"
    and src: "m * dm * axis_dist \<le> length src" and nan: "\<forall>v \<in> set src. \<not> is_nan v"
    and dst: "length dst = L" "m * k * axis_dist \<le> L" and done_before: "ranked c src dm axis_dist k i dst"
  shows "ok (argmax_one c src dm axis_dist k i dst)
    (\<lambda>dst'. length dst' = L \<and> ranked c src dm axis_dist k (Suc i) dst')"
proof -
  have idx: "\<forall>j < dm. spot axis_dist dm i j < length src" using spot_less [OF d i] src by fastforce
  let ?s = "sort_by pair_greater (cands src dm axis_dist i)"
  have "\<forall>p \<in> set (cands src dm axis_dist i). \<not> is_nan (fst p)"
    using idx nan nth_mem by (fastforce simp: cands_def spot_def)
  then have sort: "partial_sort_greater k (cands src dm axis_dist i) = Some ?s"
    using k by (auto simp: partial_sort_greater_def cands_def list_ex_iff)
  have best: "best src dm axis_dist k i ! j = ?s ! j" if "j < k" for j
    using that by (simp add: best_def)
  let ?I = "\<lambda>j dst'. length dst' = L \<and> ranked c src dm axis_dist k i dst' \<and>
    (\<forall>j' < j. dst' ! spot axis_dist k i j' = shown c (best src dm axis_dist k i ! j'))"
  have "ok (loop k (store_best c ?s k axis_dist i) dst) (?I k)"
  proof (rule loop_ok [where I = ?I])
    show "?I 0 dst" using dst done_before by simp
  next
    fix j dst' assume j: "j < k" and I: "?I j dst'"
    obtain v ix where p: "?s ! j = (v, ix)" by (cases "?s ! j")
    have room: "spot axis_dist k i j < L" using spot_less [OF d i j] dst(2) by simp
    have "?I (Suc j) (dst'[spot axis_dist k i j := shown c (v, ix)])"
      using I j room p best [OF j] spot_inj [OF d]
      by (auto simp: ranked_def nth_list_update less_Suc_eq)
    moreover have "j < length ?s" using j k by (simp add: cands_def)
    ultimately show "ok (store_best c ?s k axis_dist i j dst') (?I (Suc j))"
      using lay room I p by (auto simp: store_best_def wp spot_def shown_def rd_Some)
  qed
  then show ?thesis
    unfolding argmax_one_def load_candidates_eq [OF idx] Option.bind.bind_lunit sort
    by (rule ok_mono) (auto simp: ranked_def less_Suc_eq)
qed


text \<open>Without an axis and with \<open>out_max_val\<close>: a block of indices and a block of values.\<close>

definition filled_both :: "ieee list \<Rightarrow> nat \<Rightarrow> nat \<Rightarrow> nat \<Rightarrow> ieee list \<Rightarrow> bool" where
  "filled_both src dm k n dst \<longleftrightarrow>
     (\<forall>i < n. \<forall>j < k. dst ! (2 * i * k + j) = n2f (snd (best src dm 1 k i ! j)) \<and>
                     dst ! (2 * i * k + k + j) = fst (best src dm 1 k i ! j))"

lemma both_inj:
  assumes "j < (k::nat)" and "j' < k"
  shows "2 * i * k + j = 2 * i' * k + j' \<longleftrightarrow> i = i' \<and> j = j'"
    and "2 * i * k + k + j = 2 * i' * k + k + j' \<longleftrightarrow> i = i' \<and> j = j'"
    and "2 * i * k + j \<noteq> 2 * i' * k + k + j'"
proof -
  show "2 * i * k + j = 2 * i' * k + j' \<longleftrightarrow> i = i' \<and> j = j'"
    using index2_inj [of j k j' "2 * i" "2 * i'"] assms by auto
  then show "2 * i * k + k + j = 2 * i' * k + k + j' \<longleftrightarrow> i = i' \<and> j = j'" by linarith
  have "2 * i \<noteq> 2 * i' + 1" by presburger
  then have "2 * i * k + j \<noteq> (2 * i' + 1) * k + j'"
    using index2_inj [of j k j' "2 * i" "2 * i' + 1"] assms by auto
  then show "2 * i * k + j \<noteq> 2 * i' * k + k + j'" by (simp add: algebra_simps)
qed

lemma argmax_one_both:
  assumes lay: "out_max_val c" "\<not> has_axis c" and k: "k \<le> dm" and i: "i < m"
    and src: "m * dm \<le> length src" and nan: "\<forall>v \<in> set src. \<not> is_nan v"
    and dst: "length dst = L" "2 * m * k \<le> L" and before: "filled_both src dm k i dst"
  shows "ok (argmax_one c src dm 1 k i dst) (\<lambda>dst'. length dst' = L \<and> filled_both src dm k (Suc i) dst')"
proof -
  have idx: "\<forall>j < dm. spot 1 dm i j < length src" using spot_less [of 1 i m] i src by fastforce
  let ?s = "sort_by pair_greater (cands src dm 1 i)"
  have "\<forall>p \<in> set (cands src dm 1 i). \<not> is_nan (fst p)"
    using idx nan nth_mem by (fastforce simp: cands_def spot_def)
  then have sort: "partial_sort_greater k (cands src dm 1 i) = Some ?s"
    using k by (auto simp: partial_sort_greater_def cands_def list_ex_iff)
  have best: "best src dm 1 k i ! j = ?s ! j" if "j < k" for j
    using that by (simp add: best_def)
  have "2 * (i * k) + 2 * k \<le> 2 * (m * k)" using mult_le_mono1 [of "Suc i" m k] i by simp
  then have room: "2 * i * k + k + j < L" if "j < k" for j using dst(2) that by simp
  let ?I = "\<lambda>j dst'. length dst' = L \<and> filled_both src dm k i dst' \<and>
    (\<forall>j' < j. dst' ! (2 * i * k + j') = n2f (snd (best src dm 1 k i ! j')) \<and>
              dst' ! (2 * i * k + k + j') = fst (best src dm 1 k i ! j'))"
  have "ok (loop k (store_best c ?s k 1 i) dst) (?I k)"
  proof (rule loop_ok [where I = ?I])
    show "?I 0 dst" using dst before by simp
  next
    fix j dst' assume j: "j < k" and I: "?I j dst'"
    obtain v ix where p: "?s ! j = (v, ix)" by (cases "?s ! j")
    have "?I (Suc j) (dst'[2 * i * k + j := n2f ix, 2 * i * k + k + j := v])"
      using I j room [OF j] p best [OF j] both_inj(1,2) [of _ k j] both_inj(1,2) [of j k] both_inj(3) [of j k] both_inj(3) [of _ k j]
        both_inj(3) [of _ k j, symmetric] both_inj(3) [of j k, symmetric]
      by (auto simp: filled_both_def nth_list_update less_Suc_eq)
    moreover have "j < length ?s" using j k by (simp add: cands_def)
    ultimately show "ok (store_best c ?s k 1 i j dst') (?I (Suc j))"
      using lay room [OF j] I p by (auto simp: store_best_def wp rd_Some)
  qed
  then show ?thesis
    unfolding argmax_one_def load_candidates_eq [OF idx] Option.bind.bind_lunit sort
    by (rule ok_mono) (auto simp: filled_both_def less_Suc_eq)
qed

section \<open>The whole layer\<close>

text \<open>The axis as an index from the front, and the three extents around it.\<close>

definition the_axis :: "argmax_cfg \<Rightarrow> nat list \<Rightarrow> int" where
  "the_axis c ds = (if axis_index c < 0 then axis_index c + int (length ds) else axis_index c)"

lemma prod_list_split:
  "n < length ds \<Longrightarrow> prod_list ds = prod_list (take n ds) * (ds ! n * prod_list (drop (Suc n) ds))" for ds :: "nat list"
  by (subst append_take_drop_id [of n, symmetric], subst Cons_nth_drop_Suc [symmetric]) simp_all

text \<open>
  With an axis inside the input's rank, non-zero extents, at most as many results as the
  axis has elements, and buffers of the promised sizes, the layer stays inside its buffers,
  returns OK and stores, for every position and rank, the value or the index of the best
  candidates: these are sorted by falling value and no candidate left out is larger.
\<close>

theorem argmax_axis_spec:
  assumes lay: "has_axis c" "0 \<le> the_axis c (dims inp)" "the_axis c (dims inp) < int (length (dims inp))"
    and pos: "0 < prod_list (dims inp)"
    and k: "0 \<le> top_k c" "nat (top_k c) \<le> dims inp ! nat (the_axis c (dims inp))"
    and src: "length (data inp) = prod_list (dims inp)" and nan: "\<forall>v \<in> set (data inp). \<not> is_nan v"
    and dst: "length (data out) =
      prod_list (take (nat (the_axis c (dims inp))) (dims inp)) * nat (top_k c) *
      prod_list (drop (Suc (nat (the_axis c (dims inp)))) (dims inp))"
  shows "let n = nat (the_axis c (dims inp)); dm = dims inp ! n; d = prod_list (drop (Suc n) (dims inp));
      m = prod_list (take n (dims inp)); k = nat (top_k c) in
    \<exists>dst. argmax_execute c inp out = Some (OK, out\<lparr>data := dst\<rparr>) \<and> length dst = length (data out) \<and>
      (\<forall>i < m * d.
        (\<forall>j < k. dst ! ((i div d * k + j) * d + i mod d) = shown c (best (data inp) dm d k i ! j)) \<and>
        length (best (data inp) dm d k i) = k \<and>
        sorted_wrt (\<lambda>p q. fle (fst q) (fst p)) (best (data inp) dm d k i) \<and>
        (\<exists>rest. mset (best (data inp) dm d k i @ rest) =
            mset (map (\<lambda>j. (data inp ! ((i div d * dm + j) * d + i mod d), j)) [0..<dm]) \<and>
          (\<forall>p \<in> set (best (data inp) dm d k i). \<forall>q \<in> set rest. fle (fst q) (fst p))))"
proof -
  define n where "n = nat (the_axis c (dims inp))"
  define dm where "dm = dims inp ! n"
  define d where "d = prod_list (drop (Suc n) (dims inp))"
  define m where "m = prod_list (take n (dims inp))"
  define kk where "kk = nat (top_k c)"
  have n: "n < length (dims inp)" using lay by (simp add: n_def)
  have vol: "prod_list (dims inp) = m * (dm * d)" using prod_list_split [OF n] by (simp add: m_def d_def dm_def)
  then have p: "0 < m" "0 < dm" "0 < d" using pos by auto
  have rear: "prod_list (drop n (dims inp)) = dm * d"
    by (simp add: dm_def d_def Cons_nth_drop_Suc [OF n, symmetric])
  have ax: "argmax_axis c (dims inp) = Some (dm, d)"
    using lay p n by (simp add: argmax_axis_def the_axis_def [symmetric] rdz_def rd_Some n_def [symmetric]
        dm_def [symmetric] dims_count_def rear)
  have num: "dims_count (dims inp) 0 div dm = m * d" using p by (simp add: dims_count_def vol)
  have "ok (loop (m * d) (argmax_one c (data inp) dm d kk) (data out))
      (\<lambda>dst. length dst = length (data out) \<and> ranked c (data inp) dm d kk (m * d) dst)"
    by (rule loop_ok, simp add: ranked_def, rule argmax_one_ok [where m = m])
      (use lay p k src nan dst in \<open>auto simp: vol n_def [symmetric] dm_def [symmetric] kk_def m_def d_def\<close>)
  then obtain dst' where run: "loop (m * d) (argmax_one c (data inp) dm d kk) (data out) = Some dst'"
    and len: "length dst' = length (data out)" and fil: "ranked c (data inp) dm d kk (m * d) dst'"
    by (auto elim!: okE)
  have "argmax_execute c inp out = Some (OK, out\<lparr>data := dst'\<rparr>)"
    using p k(1) run by (simp add: argmax_execute_def ax num kk_def)
  moreover have "kk \<le> dm" using k(2) by (simp add: kk_def dm_def n_def)
  moreover have "\<forall>j < dm. (i div d * dm + j) * d + i mod d < length (data inp)" if "i < m * d" for i
    using spot_less [OF p(3) that, of _ dm] src vol by (simp add: spot_def algebra_simps)
  ultimately show ?thesis
    unfolding Let_def n_def [symmetric] dm_def [symmetric] d_def [symmetric] m_def [symmetric] kk_def [symmetric]
      cands_def [symmetric]
    using len fil best_sorted [OF nan] length_best
    by (intro exI [of _ dst'] conjI allI impI) (auto simp: ranked_def spot_def min_def)
qed


definition small_argmax :: argmax_cfg where
  "small_argmax = \<lparr>out_max_val = True, top_k = 1, has_axis = True, axis_index = -1\<rparr>"

theorem argmax_axis_spec_witness:
  "\<exists>dst. argmax_execute small_argmax \<lparr>dims = [2, 2], data = [Fin 1, Fin 2, Fin 4, Fin 3]\<rparr>
      \<lparr>dims = [2, 1], data = [NaN, NaN]\<rparr> = Some (OK, \<lparr>dims = [2, 1], data = dst\<rparr>) \<and> length dst = 2"
  using argmax_axis_spec [of small_argmax "\<lparr>dims = [2, 2], data = [Fin 1, Fin 2, Fin 4, Fin 3]\<rparr>"
      "\<lparr>dims = [2, 1], data = [NaN, NaN]\<rparr>"]
  by (auto simp: small_argmax_def the_axis_def Let_def)

end
