(* ===== verification/Ctc_Greedy.thy ===== *)
theory Ctc_Greedy
  imports Ext_Base
begin

text \<open>
  The \<open>CTCGreedyDecoder\<close> layer (\<open>extension/ext_ctc_greedy.cpp\<close>): per sequence, the most
  probable class of every time step, repetitions collapsed and the last class (the blank)
  dropped.

  The loop over time has no bound of its own: it stops at the last step or at a zero
  indicator, and runs out of the indicator tensor otherwise. \<open>length seq + 1\<close> steps are
  always enough, because the step numbered \<open>length seq\<close> either stops or reads outside.
\<close>

section \<open>The layer\<close>

definition ctc_ctor :: "ie_lib \<Rightarrow> cnn_layer \<Rightarrow> exn + layer_config list" where
  "ctc_ctor lib L =
     ebind (throw_if (insData L = [] \<or> length (outData L) \<noteq> 1)
       ''Incorrect number of input/output edges!'') (\<lambda>_.
     addConfig lib L [] (map (\<lambda>_. conf1 PLN) (insData L)) [conf1 PLN] False)"

text \<open>The first largest of \<open>C\<close> values from position \<open>p\<close> on.\<close>

definition best_class :: "ieee list \<Rightarrow> nat \<Rightarrow> nat \<Rightarrow> (nat \<times> ieee) option" where
  "best_class probs p C = do {
     v \<leftarrow> rd probs p;
     loop (C - 1) (\<lambda>i (max_class_idx, max_prob). do {
       x \<leftarrow> rd probs (p + Suc i);
       Some (if flt max_prob x then (Suc i, x) else (max_class_idx, max_prob)) }) (0, v)
   }"

record ctc_state =
  prev_class_idx :: int
  output_index :: nat
  output_sequences :: "ieee list"

text \<open>One time step; the flag says whether the loop goes on.\<close>

definition ctc_step ::
    "ieee list \<Rightarrow> ieee list \<Rightarrow> nat \<Rightarrow> nat \<Rightarrow> nat \<Rightarrow> nat \<Rightarrow> nat \<Rightarrow> ctc_state \<Rightarrow> (ctc_state \<times> bool) option" where
  "ctc_step probs seq T N C n t s = do {
     (max_class_idx, _) \<leftarrow> best_class probs (t * C * N + n * C) C;
     s \<leftarrow> (if int max_class_idx < (int C - 1) mod 2 ^ 64 \<and> int max_class_idx \<noteq> prev_class_idx s then do {
         out \<leftarrow> wr (output_sequences s) (output_index s) (n2f max_class_idx);
         Some (s\<lparr>output_sequences := out, output_index := output_index s + 1\<rparr>)
       } else Some s);
     let s = s\<lparr>prev_class_idx := int max_class_idx\<rparr> in
     if t + 1 = T then Some (s, False)
     else do {
       q \<leftarrow> rd seq ((t + 1) * N + n);
       Some (s, \<not> feq q (Fin 0))
     }
   }"

definition ctc_sequence ::
    "ieee list \<Rightarrow> ieee list \<Rightarrow> nat \<Rightarrow> nat \<Rightarrow> nat \<Rightarrow> nat \<Rightarrow> ieee list \<Rightarrow> ieee list option" where
  "ctc_sequence probs seq T N C n out =
     map_option output_sequences (loop_brk 0 (length seq + 1) (ctc_step probs seq T N C n)
       \<lparr>prev_class_idx = -1, output_index = n * T, output_sequences = out\<rparr>)"

definition ctc_execute :: "blob list \<Rightarrow> blob list \<Rightarrow> (status \<times> blob list) option" where
  "ctc_execute inputs outputs =
     (if length inputs \<noteq> 1 \<and> length inputs \<noteq> 2 \<or> outputs = [] then Some (GENERAL_ERROR, outputs)
      else do {
        probs \<leftarrow> rd inputs 0;
        seq \<leftarrow> rd inputs 1;
        T \<leftarrow> rd (dims probs) 0;
        N \<leftarrow> rd (dims probs) 1;
        C \<leftarrow> rd (dims probs) 2;
        out \<leftarrow> loop (T * N) (\<lambda>ii out. wr out ii (i2f (-1))) (data (hd outputs));
        out \<leftarrow> loop N (ctc_sequence (data probs) (data seq) T N C) out;
        Some (OK, (hd outputs)\<lparr>data := out\<rparr> # tl outputs)
      })"

section \<open>The most probable class\<close>

text \<open>\<open>c\<close> is the first position of the largest value.\<close>

definition is_first_max :: "nat \<Rightarrow> ieee list \<Rightarrow> bool" where
  "is_first_max c xs \<longleftrightarrow> c < length xs \<and> (\<forall>x \<in> set xs. fle x (xs ! c)) \<and> (\<forall>j < c. flt (xs ! j) (xs ! c))"

lemma best_class_ok:
  assumes C: "0 < C" and room: "p + C \<le> length probs" and nan: "\<forall>v \<in> set probs. \<not> is_nan v"
  shows "ok (best_class probs p C) (\<lambda>(c, _). is_first_max c (map (\<lambda>j. probs ! (p + j)) [0..<C]))"
proof -
  have n: "\<not> is_nan (probs ! (p + j))" if "j < C" for j
    using room nan that by (auto intro: nth_mem)
  let ?I = "\<lambda>i (c, m). c \<le> i \<and> m = probs ! (p + c) \<and> (\<forall>j \<le> i. fle (probs ! (p + j)) m) \<and>
    (\<forall>j < c. flt (probs ! (p + j)) m)"
  have "ok (best_class probs p C) (?I (C - 1))"
    unfolding best_class_def ok_bind ok_rd
  proof (intro conjI loop_ok [where I = ?I])
    show "p < length probs" using C room by simp
    show "?I 0 (0, probs ! p)" using n [of 0] C by simp
  next
    fix i s assume i: "i < C - 1" and I: "?I i s"
    obtain c m where s: "s = (c, m)" by (cases s)
    have *: "\<not> is_nan (probs ! (p + Suc i))" "\<not> is_nan m"
      using n [of "Suc i"] n [of c] i I by (auto simp: s)
    have "?I (Suc i) (if flt m (probs ! (p + Suc i)) then (Suc i, probs ! (p + Suc i)) else (c, m))"
      using I * by (auto simp: s le_Suc_eq not_flt less_Suc_eq_le intro: fle_flt_trans flt_imp_fle)
    then show "ok (case s of (c, m) \<Rightarrow> rd probs (p + Suc i) \<bind>
        (\<lambda>x. Some (if flt m x then (Suc i, x) else (c, m)))) (?I (Suc i))"
      using i room by (auto simp: s wp split: if_splits)
  qed
  then show ?thesis
    by (rule ok_mono) (use C in \<open>auto simp: is_first_max_def\<close>)
qed

section \<open>One sequence\<close>

text \<open>Labels of a path of classes: repetitions collapsed, the blank (the last class) dropped.\<close>

definition labels :: "nat \<Rightarrow> nat list \<Rightarrow> nat list" where
  "labels C path = filter (\<lambda>c. c < C - 1) (remdups_adj path)"

lemma remdups_adj_snoc:
  "remdups_adj (xs @ [x]) = (if xs \<noteq> [] \<and> last xs = x then remdups_adj xs else remdups_adj xs @ [x])"
  by (induction xs rule: remdups_adj.induct) auto

lemma labels_Nil [simp]: "labels C [] = []"
  by (simp add: labels_def)

lemma labels_snoc:
  "labels C (path @ [c]) =
     labels C path @ (if (path = [] \<or> last path \<noteq> c) \<and> c < C - 1 then [c] else [])"
  by (auto simp: labels_def remdups_adj_snoc)

lemma length_labels: "length (labels C path) \<le> length path"
  unfolding labels_def by (meson le_trans length_filter_le remdups_adj_length)

text \<open>The number of time steps: up to the first zero indicator.\<close>

definition seq_len :: "ieee list \<Rightarrow> nat \<Rightarrow> nat \<Rightarrow> nat \<Rightarrow> nat" where
  "seq_len seq T N n = Suc (length (takeWhile (\<lambda>t. \<not> feq (seq ! (t * N + n)) (Fin 0)) [1..<T]))"

text \<open>The path is one of first largest classes.\<close>

definition best_path :: "ieee list \<Rightarrow> nat \<Rightarrow> nat \<Rightarrow> nat \<Rightarrow> nat list \<Rightarrow> bool" where
  "best_path probs N C n path \<longleftrightarrow> (\<forall>t < length path.
     is_first_max (path ! t) (map (\<lambda>c. probs ! (t * C * N + n * C + c)) [0..<C]))"

definition on_path :: "nat \<Rightarrow> nat \<Rightarrow> ieee list \<Rightarrow> nat list \<Rightarrow> ctc_state \<Rightarrow> bool" where
  "on_path C p out path s \<longleftrightarrow>
     prev_class_idx s = (if path = [] then -1 else int (last path)) \<and>
     output_index s = p + length (labels C path) \<and>
     output_sequences s = put out p (map n2f (labels C path))"

lemma seq_len_stop:
  assumes "t < T" and "\<forall>u. 1 \<le> u \<and> u \<le> t \<longrightarrow> \<not> feq (seq ! (u * N + n)) (Fin 0)"
    and "t + 1 = T \<or> feq (seq ! ((t + 1) * N + n)) (Fin 0)"
  shows "seq_len seq T N n = t + 1"
proof -
  let ?P = "\<lambda>t. \<not> feq (seq ! (t * N + n)) (Fin 0)"
  have split: "[1..<T] = [1..<t + 1] @ [t + 1..<T]"
    using assms(1) upt_add_eq_append [of 1 "t + 1" "T - (t + 1)"] by simp
  have "takeWhile ?P [t + 1..<T] = []"
    using assms(1,3) by (cases "t + 1 = T") (auto simp: upt_conv_Cons)
  moreover have "takeWhile ?P ([1..<t + 1] @ [t + 1..<T]) = [1..<t + 1] @ takeWhile ?P [t + 1..<T]"
    using assms(2) by (intro takeWhile_append2) auto
  ultimately have "takeWhile ?P [1..<T] = [1..<t + 1]" by (simp only: split append_Nil2)
  then show ?thesis by (simp add: seq_len_def)
qed

lemma ctc_step_ok:
  assumes C: "0 < C" "C < 2 ^ 64" and vol: "T * N * C \<le> length probs" "T * N \<le> length seq"
    and nan: "\<forall>v \<in> set probs. \<not> is_nan v" and nt: "n < N" "t < T"
    and out: "p + T \<le> length out" and path: "length path = t" "best_path probs N C n path" "on_path C p out path s"
  shows "ok (ctc_step probs seq T N C n t s) (\<lambda>(s', go).
    (\<exists>c. best_path probs N C n (path @ [c]) \<and> on_path C p out (path @ [c]) s') \<and>
    go = (t + 1 \<noteq> T \<and> \<not> feq (seq ! ((t + 1) * N + n)) (Fin 0)))"
proof -
  have "t * N + n < T * N" using nt by (intro index2_less)
  then have "(t * N + n) * C + C \<le> T * N * C" by (rule slot_end_nat)
  then have room: "t * C * N + n * C + C \<le> length probs" using vol(1) by (simp add: algebra_simps)
  obtain c m where b: "best_class probs (t * C * N + n * C) C = Some (c, m)"
    and c: "is_first_max c (map (\<lambda>j. probs ! (t * C * N + n * C + j)) [0..<C])"
    using best_class_ok [OF C(1) room nan] by (auto elim!: okE)
  have path': "best_path probs N C n (path @ [c])"
    using path(1,2) c by (auto simp: best_path_def nth_append less_Suc_eq)
  have wrap: "int c < (int C - 1) mod 2 ^ 64 \<longleftrightarrow> c < C - 1" using C by (auto simp: less_diff_conv)
  have idx: "(t + 1) * N + n < length seq" if "t + 1 \<noteq> T"
    using index2_less [of "t + 1" T n N] that nt vol(2) by simp
  have "length (labels C path) < T" using length_labels [of C path] path(1) nt(2) by simp
  then have w: "wr (output_sequences s) (output_index s) (n2f c) =
      Some (put out p (map n2f (labels C path) @ [n2f c]))"
    using path(3) out wr_put [of p "map n2f (labels C path)" out "n2f c"] by (simp add: on_path_def)
  have prev: "int c \<noteq> prev_class_idx s \<longleftrightarrow> path = [] \<or> last path \<noteq> c"
    using path(3) by (auto simp: on_path_def)
  define s1 where "s1 = (if c < C - 1 \<and> int c \<noteq> prev_class_idx s
    then s\<lparr>output_sequences := put out p (map n2f (labels C path) @ [n2f c]), output_index := output_index s + 1\<rparr> else s)"
  have "on_path C p out (path @ [c]) (s1\<lparr>prev_class_idx := int c\<rparr>)"
    using path(3) prev by (auto simp: s1_def on_path_def labels_snoc)
  moreover have "(if int c < (int C - 1) mod 2 ^ 64 \<and> int c \<noteq> prev_class_idx s then
      wr (output_sequences s) (output_index s) (n2f c) \<bind>
        (\<lambda>out. Some (s\<lparr>output_sequences := out, output_index := output_index s + 1\<rparr>)) else Some s) = Some s1"
    unfolding wrap w s1_def by simp
  ultimately show ?thesis
    using path' idx unfolding ctc_step_def b by (auto simp: wp Let_def rd_Some)
qed

lemma ctc_sequence_ok:
  assumes C: "0 < C" "C < 2 ^ 64" and vol: "T * N * C \<le> length probs" "T * N \<le> length seq"
    and nan: "\<forall>v \<in> set probs. \<not> is_nan v" and nt: "n < N" "0 < T" and out: "n * T + T \<le> length out"
  shows "ok (ctc_sequence probs seq T N C n out) (\<lambda>out'. \<exists>path. length path = seq_len seq T N n \<and>
    length path \<le> T \<and> best_path probs N C n path \<and> out' = put out (n * T) (map n2f (labels C path)))"
  unfolding ctc_sequence_def ok_map_option
proof (rule loop_brk_wp [where I = "\<lambda>t s. t < T \<and>
    (\<forall>u. 1 \<le> u \<and> u \<le> t \<longrightarrow> \<not> feq (seq ! (u * N + n)) (Fin 0)) \<and>
    (\<exists>path. length path = t \<and> best_path probs N C n path \<and> on_path C (n * T) out path s)"])
  show "0 < T \<and> (\<forall>u. 1 \<le> u \<and> u \<le> 0 \<longrightarrow> \<not> feq (seq ! (u * N + n)) (Fin 0)) \<and>
    (\<exists>path. length path = 0 \<and> best_path probs N C n path \<and>
      on_path C (n * T) out path \<lparr>prev_class_idx = -1, output_index = n * T, output_sequences = out\<rparr>)"
    using nt by (simp add: best_path_def on_path_def)
next
  fix t s
  assume "t < T \<and> (\<forall>u. 1 \<le> u \<and> u \<le> t \<longrightarrow> \<not> feq (seq ! (u * N + n)) (Fin 0)) \<and>
    (\<exists>path. length path = t \<and> best_path probs N C n path \<and> on_path C (n * T) out path s)"
  then obtain path where t: "t < T" and ind: "\<forall>u. 1 \<le> u \<and> u \<le> t \<longrightarrow> \<not> feq (seq ! (u * N + n)) (Fin 0)"
    and p: "length path = t" "best_path probs N C n path" "on_path C (n * T) out path s" by blast
  show "ok (ctc_step probs seq T N C n t s) (\<lambda>(s', go). if go then Suc t < T \<and>
      (\<forall>u. 1 \<le> u \<and> u \<le> Suc t \<longrightarrow> \<not> feq (seq ! (u * N + n)) (Fin 0)) \<and>
      (\<exists>path. length path = Suc t \<and> best_path probs N C n path \<and> on_path C (n * T) out path s')
    else \<exists>path. length path = seq_len seq T N n \<and> length path \<le> T \<and> best_path probs N C n path \<and>
      output_sequences s' = put out (n * T) (map n2f (labels C path)))"
  proof (rule ok_mono [OF ctc_step_ok [OF C vol nan nt(1) t out p]], clarify)
    fix s' c assume c: "best_path probs N C n (path @ [c])" "on_path C (n * T) out (path @ [c]) s'"
    show "if t + 1 \<noteq> T \<and> \<not> feq (seq ! ((t + 1) * N + n)) (Fin 0) then Suc t < T \<and>
        (\<forall>u. 1 \<le> u \<and> u \<le> Suc t \<longrightarrow> \<not> feq (seq ! (u * N + n)) (Fin 0)) \<and>
        (\<exists>path. length path = Suc t \<and> best_path probs N C n path \<and> on_path C (n * T) out path s')
      else \<exists>path. length path = seq_len seq T N n \<and> length path \<le> T \<and> best_path probs N C n path \<and>
        output_sequences s' = put out (n * T) (map n2f (labels C path))"
    proof (cases "t + 1 \<noteq> T \<and> \<not> feq (seq ! ((t + 1) * N + n)) (Fin 0)")
      case True
      then show ?thesis using t ind c p(1) by (auto simp: le_Suc_eq intro!: exI [of _ "path @ [c]"])
    next
      case False
      then have "seq_len seq T N n = t + 1" using seq_len_stop [OF t ind] by blast
      then show ?thesis using False t c p(1)
        by (auto simp: on_path_def intro!: exI [of _ "path @ [c]"])
    qed
  qed
next
  fix s
  assume "0 + (length seq + 1) < T \<and> (\<forall>u. 1 \<le> u \<and> u \<le> 0 + (length seq + 1) \<longrightarrow> \<not> feq (seq ! (u * N + n)) (Fin 0)) \<and>
    (\<exists>path. length path = 0 + (length seq + 1) \<and> best_path probs N C n path \<and> on_path C (n * T) out path s)"
  moreover have "T \<le> T * N" using nt by simp
  ultimately have False using vol(2) by linarith
  then show "\<exists>path. length path = seq_len seq T N n \<and> length path \<le> T \<and> best_path probs N C n path \<and>
      output_sequences s = put out (n * T) (map n2f (labels C path))" ..
qed

section \<open>The whole layer\<close>

text \<open>Row \<open>n\<close> of the output: the labels of a best path, padded with -1.\<close>

definition row_decoded :: "ieee list \<Rightarrow> ieee list \<Rightarrow> nat \<Rightarrow> nat \<Rightarrow> nat \<Rightarrow> nat \<Rightarrow> ieee list \<Rightarrow> bool" where
  "row_decoded probs seq T N C n out \<longleftrightarrow> (\<exists>path. length path = seq_len seq T N n \<and> best_path probs N C n path \<and>
     take T (drop (n * T) out) = map n2f (labels C path) @ replicate (T - length (labels C path)) (i2f (-1)))"

lemma padded_row:
  assumes "p + T \<le> length out" and "length ys \<le> T" and "\<forall>k. p \<le> k \<and> k < p + T \<longrightarrow> out ! k = v"
  shows "take T (drop p (put out p ys)) = ys @ replicate (T - length ys) v"
proof (rule nth_equalityI)
  fix i assume "i < length (take T (drop p (put out p ys)))"
  then show "take T (drop p (put out p ys)) ! i = (ys @ replicate (T - length ys) v) ! i"
    using assms nth_put [of p out i ys] nth_put_other [of p ys out "p + i"]
    by (auto simp: nth_append)
qed (use assms in simp)

text \<open>
  C37: On two inputs of the promised sizes without NaN, the layer stays inside its buffers,
  returns OK, and every row of the output holds the labels of the path of first most
  probable classes up to the first zero indicator, repetitions collapsed and the blank
  dropped, padded with -1.
\<close>

theorem ctc_execute_spec:
  assumes dims: "dims probs = [T, N, C]" and pos: "0 < T" "0 < C" "C < 2 ^ 64"
    and vol: "length (data probs) = T * N * C" "length (data seq) = T * N" "length (data out) = T * N"
    and nan: "\<forall>v \<in> set (data probs). \<not> is_nan v"
  shows "\<exists>res. ctc_execute [probs, seq] [out] = Some (OK, [out\<lparr>data := res\<rparr>]) \<and> length res = T * N \<and>
    (\<forall>n < N. row_decoded (data probs) (data seq) T N C n res)"
proof -
  let ?init = "replicate (T * N) (i2f (-1))"
  have init: "loop (T * N) (\<lambda>ii out. wr out ii (i2f (-1))) (data out) = Some ?init"
    using loop_wr [of "T * N" "T * N" "\<lambda>ii out. wr out ii (i2f (-1))" 0 "\<lambda>_. i2f (-1)" "data out"] vol(3)
    by (simp add: wr_Some put_all map_replicate_const)
  let ?I = "\<lambda>n out. length out = T * N \<and> (\<forall>m < n. row_decoded (data probs) (data seq) T N C m out) \<and>
    (\<forall>k. n * T \<le> k \<and> k < T * N \<longrightarrow> out ! k = i2f (-1))"
  have "ok (loop N (ctc_sequence (data probs) (data seq) T N C) ?init) (?I N)"
  proof (rule loop_ok [where I = ?I])
    show "?I 0 ?init" by simp
  next
    fix n out assume n: "n < N" and I: "?I n out"
    have room: "n * T + T \<le> length out" using slot_end_nat [OF n, of T] I by (simp add: mult.commute)
    have "T * N * C \<le> length (data probs)" "T * N \<le> length (data seq)" using vol by simp_all
    note seq = ctc_sequence_ok [OF pos(2,3) this nan n pos(1) room]
    obtain path where path: "length path = seq_len (data seq) T N n" "length path \<le> T"
        "best_path (data probs) N C n path"
      and run: "ctc_sequence (data probs) (data seq) T N C n out = Some (put out (n * T) (map n2f (labels C path)))"
      using seq by (auto elim!: okE)
    let ?ys = "map n2f (labels C path)"
    have ys: "length ?ys \<le> T" using length_labels [of C path] path(2) by simp
    have "row_decoded (data probs) (data seq) T N C n (put out (n * T) ?ys)"
      unfolding row_decoded_def using path I room ys padded_row [of "n * T" T out ?ys "i2f (-1)"]
      by (intro exI [of _ path]) auto
    moreover have "row_decoded (data probs) (data seq) T N C m (put out (n * T) ?ys)" if "m < n" for m
      using that I room ys row_apart [OF that, of T] segment_put_other [of "n * T" ?ys out "m * T" T]
      by (auto simp: row_decoded_def)
    moreover have "put out (n * T) ?ys ! k = i2f (-1)" if "Suc n * T \<le> k" "k < T * N" for k
      using that I room ys nth_put_other [of "n * T" ?ys out k] by auto
    ultimately show "ok (ctc_sequence (data probs) (data seq) T N C n out) (?I (Suc n))"
      unfolding run using I room ys by (auto simp: less_Suc_eq)
  qed
  then show ?thesis
    by (auto simp: ctc_execute_def dims rd_def init elim!: okE)
qed

theorem ctc_execute_spec_witness:
  "\<exists>res. ctc_execute [\<lparr>dims = [2, 1, 2], data = [Fin 1, Fin 0, Fin 0, Fin 1]\<rparr>,
      \<lparr>dims = [2, 1], data = [Fin 1, Fin 1]\<rparr>] [\<lparr>dims = [1, 2], data = [NaN, NaN]\<rparr>] =
    Some (OK, [\<lparr>dims = [1, 2], data = res\<rparr>]) \<and> length res = 2"
  using ctc_execute_spec [of "\<lparr>dims = [2, 1, 2], data = [Fin 1, Fin 0, Fin 0, Fin 1]\<rparr>" 2 1 2
      "\<lparr>dims = [2, 1], data = [Fin 1, Fin 1]\<rparr>" "\<lparr>dims = [1, 2], data = [NaN, NaN]\<rparr>"]
  by auto

end
