(* ===== verification/Reorg_Yolo.thy ===== *)
theory Reorg_Yolo
  imports Ext_Base "HOL-Library.Signed_Division"
begin

text \<open>
  The \<open>ReorgYolo\<close> layer (\<open>extension/ext_reorg_yolo.cpp\<close>): every output element is copied
  from a computed input position. The index arithmetic is that of C (truncating division; a
  division by zero fails); the products stay below \<open>2 ^ 31\<close> for tensors that fit an \<open>int\<close>.
\<close>

section \<open>The layer\<close>

record reorg_cfg =
  stride :: int

definition reorg_ctor :: "ie_lib \<Rightarrow> cnn_layer \<Rightarrow> exn + reorg_cfg \<times> layer_config list" where
  "reorg_ctor lib L =
     ebind (throw_if (length (insData L) \<noteq> 1 \<or> outData L = [])
       ''Incorrect number of input/output edges!'') (\<lambda>_.
     ebind (get_param (p_int L ''stride'')) (\<lambda>s.
     ebind (addConfig lib L [] [conf1 PLN] [conf1 PLN] False) (\<lambda>cs. Inr (\<lparr>stride = s\<rparr>, cs))))"

definition cdiv :: "int \<Rightarrow> int \<Rightarrow> int option" where
  "cdiv x y = (if y = 0 then None else Some (x sdiv y))"

definition cmod :: "int \<Rightarrow> int \<Rightarrow> int option" where
  "cmod x y = (if y = 0 then None else Some (x smod y))"

definition reorg_srcIndex :: "int \<Rightarrow> int \<Rightarrow> int \<Rightarrow> int \<Rightarrow> int \<Rightarrow> int \<Rightarrow> int \<Rightarrow> int \<Rightarrow> int option" where
  "reorg_srcIndex strd ic_off ih_off iw_off b ic ih iw = do {
     oc \<leftarrow> cmod ic ic_off;
     offset \<leftarrow> cdiv ic ic_off;
     omod \<leftarrow> cmod offset strd;
     odiv \<leftarrow> cdiv offset strd;
     let ow = iw * strd + omod; oh = ih * strd + odiv in
     Some (b * ic_off * ih_off * iw_off + oc * ih_off * iw_off + oh * iw_off + ow)
   }"

definition reorg_copy ::
    "ieee list \<Rightarrow> int \<Rightarrow> int \<Rightarrow> int \<Rightarrow> int \<Rightarrow> nat \<Rightarrow> nat \<Rightarrow> nat \<Rightarrow> nat \<Rightarrow> nat \<Rightarrow> nat \<Rightarrow> nat \<Rightarrow> ieee list \<Rightarrow> ieee list option" where
  "reorg_copy src strd ic_off ih_off iw_off IC IH IW b ic ih iw dst = do {
     let dstIndex = b * IC * IH * IW + ic * IH * IW + ih * IW + iw in do {
     srcIndex \<leftarrow> reorg_srcIndex strd ic_off ih_off iw_off (int b) (int ic) (int ih) (int iw);
     v \<leftarrow> rdz src srcIndex;
     wr dst dstIndex v
   } }"

definition reorg_execute :: "reorg_cfg \<Rightarrow> blob \<Rightarrow> blob \<Rightarrow> (status \<times> blob) option" where
  "reorg_execute c inp out =
     (let IW = dim_or_one (dims inp) 3; IH = dim_or_one (dims inp) 2; IC = dim_or_one (dims inp) 1;
          B = dim_or_one (dims inp) 0 in do {
        ic_off \<leftarrow> cdiv (int IC) (stride c * stride c);
        let ih_off = int IH * stride c; iw_off = int IW * stride c in do {
        dst \<leftarrow> loop B (\<lambda>b. loop IC (\<lambda>ic. loop IH (\<lambda>ih. loop IW
          (reorg_copy (data inp) (stride c) ic_off ih_off iw_off IC IH IW b ic ih)))) (data out);
        Some (OK, out\<lparr>data := dst\<rparr>)
      } })"

section \<open>The index map\<close>

text \<open>For a positive stride and natural numbers C's division is the usual one.\<close>

lemma cdiv_nat: "0 < n \<Longrightarrow> cdiv (int m) (int n) = Some (int (m div n))"
  by (simp add: cdiv_def signed_divide_int_def sgn_if zdiv_int)

lemma cmod_nat: "0 < n \<Longrightarrow> cmod (int m) (int n) = Some (int (m mod n))"
  by (simp add: cmod_def signed_modulo_int_def signed_divide_int_def sgn_if zmod_int)

text \<open>The source of output element \<open>(b, ic, ih, iw)\<close>, for \<open>ic_off = c\<close> channels.\<close>

definition from_index :: "nat \<Rightarrow> nat \<Rightarrow> nat \<Rightarrow> nat \<Rightarrow> nat \<Rightarrow> nat \<Rightarrow> nat \<Rightarrow> nat \<Rightarrow> nat" where
  "from_index s c IH IW b ic ih iw =
     ((b * c + ic mod c) * (IH * s) + (ih * s + ic div c div s)) * (IW * s) + (iw * s + ic div c mod s)"

lemma reorg_srcIndex_nat:
  assumes "0 < s" and "0 < c"
  shows "reorg_srcIndex (int s) (int c) (int IH * int s) (int IW * int s) (int b) (int ic) (int ih) (int iw) =
    Some (int (from_index s c IH IW b ic ih iw))"
  using assms by (simp add: reorg_srcIndex_def cdiv_nat cmod_nat from_index_def algebra_simps)

lemma from_index_less:
  assumes s: "0 < s" and c: "0 < c" and "b < B" and "ic < c * (s * s)" and "ih < IH" and "iw < IW"
  shows "from_index s c IH IW b ic ih iw < B * c * (IH * s) * (IW * s)"
proof -
  have "ic div c < s * s" using assms(4) by (intro less_mult_imp_div_less) (simp add: mult.commute)
  then have "ic div c div s < s" by (rule less_mult_imp_div_less)
  then have oh: "ih * s + ic div c div s < IH * s" using assms(5) by (intro index2_less)
  have ow: "iw * s + ic div c mod s < IW * s" using assms(6) s by (intro index2_less) simp_all
  have "ic mod c < c" using c by simp
  with oh ow assms(3) show ?thesis
    using index4_less [of b B "ic mod c" c "ih * s + ic div c div s" "IH * s" "iw * s + ic div c mod s" "IW * s"]
    by (simp add: from_index_def algebra_simps)
qed

lemma from_index_inj:
  assumes s: "0 < s" and c: "0 < c"
    and ic: "ic < c * (s * s)" "ih < IH" "iw < IW" "ic' < c * (s * s)" "ih' < IH" "iw' < IW"
    and eq: "from_index s c IH IW b ic ih iw = from_index s c IH IW b' ic' ih' iw'"
  shows "b = b' \<and> ic = ic' \<and> ih = ih' \<and> iw = iw'"
proof -
  have d: "ic div c div s < s" "ic' div c div s < s"
    using ic(1,4) by (auto intro!: less_mult_imp_div_less simp: mult.commute)
  have oh: "ih * s + ic div c div s < IH * s" "ih' * s + ic' div c div s < IH * s"
    using ic(2,5) d by (auto intro: index2_less)
  have ow: "iw * s + ic div c mod s < IW * s" "iw' * s + ic' div c mod s < IW * s"
    using ic(3,6) s by (auto intro: index2_less)
  have "((b * c + ic mod c) * (IH * s) + (ih * s + ic div c div s)) = ((b' * c + ic' mod c) * (IH * s) + (ih' * s + ic' div c div s))"
    and w: "iw * s + ic div c mod s = iw' * s + ic' div c mod s"
    using eq index2_inj [OF ow] by (simp_all add: from_index_def)
  then have "b * c + ic mod c = b' * c + ic' mod c" and h: "ih * s + ic div c div s = ih' * s + ic' div c div s"
    using index2_inj [OF oh] by simp_all
  then have b: "b = b'" "ic mod c = ic' mod c" using c by (simp_all add: index2_inj)
  have "iw = iw'" "ic div c mod s = ic' div c mod s" using w s by (simp_all add: index2_inj)
  moreover have "ih = ih'" "ic div c div s = ic' div c div s" using h d by (simp_all add: index2_inj)
  ultimately show ?thesis using b by (metis div_mult_mod_eq)
qed

section \<open>The whole layer\<close>

text \<open>
  For a positive stride whose square divides the channel count, the layer stays inside
  its buffers, returns OK, fills output element \<open>(b, ic, ih, iw)\<close> from channel
  \<open>ic mod c\<close>, row \<open>ih s + ic div c div s\<close> and column \<open>iw s + ic div c mod s\<close> of the input
  seen as \<open>B x c x (IH s) x (IW s)\<close>, \<open>c = IC div s^2\<close>, and the output is a permutation of the input.
\<close>

theorem reorg_execute_spec:
  assumes dims: "dims inp = [B, IC, IH, IW]" and s: "stride cfg = int s" "0 < s" and IC: "IC = c * (s * s)" "0 < c"
    and vol: "length (data inp) = B * IC * IH * IW" "length (data out) = B * IC * IH * IW"
  shows "\<exists>dst. reorg_execute cfg inp out = Some (OK, out\<lparr>data := dst\<rparr>) \<and> mset dst = mset (data inp) \<and>
    (\<forall>b < B. \<forall>ic < IC. \<forall>ih < IH. \<forall>iw < IW. dst ! (((b * IC + ic) * IH + ih) * IW + iw) =
      data inp ! (((b * c + ic mod c) * (IH * s) + (ih * s + ic div c div s)) * (IW * s) + (iw * s + ic div c mod s)))"
proof -
  let ?src = "data inp" and ?n = "B * IC * IH * IW"
  let ?g = "\<lambda>b ic ih iw. ?src ! from_index s c IH IW b ic ih iw"
  let ?f = "\<lambda>k. from_index s c IH IW (k div (IC * IH * IW)) (k div (IH * IW) mod IC) (k div IW mod IH) (k mod IW)"
  have size: "B * c * (IH * s) * (IW * s) = ?n" by (simp add: IC)
  have off: "cdiv (int IC) (int s * int s) = Some (int c)" using s(2) IC cdiv_nat [of "s * s" IC] by simp
  have "loop B (\<lambda>b. loop IC (\<lambda>ic. loop IH (\<lambda>ih. loop IW
      (reorg_copy ?src (int s) (int c) (int IH * int s) (int IW * int s) IC IH IW b ic ih)))) (data out) =
      Some (put (data out) 0 (map (\<lambda>k. ?g (k div (IC * IH * IW)) (k div (IH * IW) mod IC) (k div IW mod IH) (k mod IW)) [0..<?n]))"
  proof (rule loop4_wr)
    fix b ic ih iw and xs :: "ieee list"
    assume *: "b < B" "ic < IC" "ih < IH" "iw < IW" and xs: "length xs = ?n"
    have "from_index s c IH IW b ic ih iw < ?n"
      using from_index_less [OF s(2) IC(2), of b B ic ih IH iw IW] * size IC(1) by simp
    moreover have "((b * IC + ic) * IH + ih) * IW + iw < ?n"
      using index4_less [OF *] by (simp add: algebra_simps)
    moreover have "b * IC * IH * IW + ic * IH * IW + ih * IW + iw = ((b * IC + ic) * IH + ih) * IW + iw"
      by (simp add: algebra_simps)
    ultimately show "reorg_copy ?src (int s) (int c) (int IH * int s) (int IW * int s) IC IH IW b ic ih iw xs =
        Some (xs[0 + (((b * IC + ic) * IH + ih) * IW + iw) := ?g b ic ih iw])"
      using xs vol(1) unfolding reorg_copy_def reorg_srcIndex_nat [OF s(2) IC(2)]
      by (simp add: rdz_def rd_Some wr_Some)
  qed (use vol in simp_all)
  then have run: "reorg_execute cfg inp out = Some (OK, out\<lparr>data := map (\<lambda>k. ?src ! ?f k) [0..<?n]\<rparr>)"
    using off vol by (simp add: reorg_execute_def dim_or_one_def dims s(1) put_all)
  have "mset (map (\<lambda>k. ?src ! ?f k) [0..<length ?src]) = mset ?src"
  proof (rule mset_reindex)
    fix k assume "k < length ?src"
    then have k: "k < ?n" using vol by simp
    have "?f k < B * c * (IH * s) * (IW * s)"
      using idx4_bounds [OF k] by (intro from_index_less [OF s(2) IC(2)]) (simp_all add: IC(1))
    then show "?f k < length ?src" using vol(1) size by simp
  next
    show "inj_on ?f {..<length ?src}"
    proof (rule inj_onI)
      fix k k' assume k: "k \<in> {..<length ?src}" "k' \<in> {..<length ?src}" and eq: "?f k = ?f k'"
      then have "k < ?n" "k' < ?n" using vol by auto
      note b = idx4_bounds [OF this(1)] idx4_bounds [OF this(2)]
      have "k div (IC * IH * IW) = k' div (IC * IH * IW) \<and> k div (IH * IW) mod IC = k' div (IH * IW) mod IC \<and>
          k div IW mod IH = k' div IW mod IH \<and> k mod IW = k' mod IW"
        by (rule from_index_inj [OF s(2) IC(2) _ _ _ _ _ _ eq]) (use b IC in auto)
      then show "k = k'" by (metis idx4_encode)
    qed
  qed
  moreover have "map (\<lambda>k. ?src ! ?f k) [0..<?n] ! (((b * IC + ic) * IH + ih) * IW + iw) = ?g b ic ih iw"
    if "b < B" "ic < IC" "ih < IH" "iw < IW" for b ic ih iw
    using index4_less [OF that] idx4_decode [OF that(2-4) refl, of b]
    by (simp add: algebra_simps)
  ultimately show ?thesis using run vol(1) by (auto simp: from_index_def)
qed

definition eight :: "ieee list" where
  "eight = map Fin [0, 1, 2, 3, 4, 5, 6, 7]"

lemma length_eight [simp]: "length eight = 8"
  by (simp add: eight_def)

theorem reorg_execute_spec_witness:
  "\<exists>dst. reorg_execute \<lparr>stride = 2\<rparr> \<lparr>dims = [1, 4, 1, 2], data = eight\<rparr>
      \<lparr>dims = [1, 16, 1, 1], data = eight\<rparr> = Some (OK, \<lparr>dims = [1, 16, 1, 1], data = eight\<rparr>\<lparr>data := dst\<rparr>) \<and>
    mset dst = mset eight"
proof (rule exE [OF reorg_execute_spec [of "\<lparr>dims = [1, 4, 1, 2], data = eight\<rparr>" 1 4 1 2 "\<lparr>stride = 2\<rparr>" 2 1
      "\<lparr>dims = [1, 16, 1, 1], data = eight\<rparr>"]], goal_cases)
  case (8 dst)
  then show ?case by (elim conjE) (intro exI [of _ dst] conjI; simp only: blob.select_convs)
qed simp_all

end
