(* ===== verification/Columns.thy ===== *)
theory Columns
  imports Ieee
begin

text \<open>
  Tensors of \<open>B\<close> images, \<open>C\<close> channels and \<open>HW\<close> positions as families of columns: the
  channels of one position. Routines that treat columns independently (softmax, channel
  normalisation) write the cells of some columns in each step; \<open>filled_step\<close> composes
  such steps.
\<close>

definition column :: "ieee list \<Rightarrow> nat \<Rightarrow> nat \<Rightarrow> nat \<Rightarrow> nat \<Rightarrow> nat \<Rightarrow> ieee list" where
  "column xs off b C HW i = map (\<lambda>c. xs ! (off + b * C * HW + c * HW + i)) [0..<C]"

text \<open>Segments \<open>P c\<close> of \<open>l\<close> cells are written with \<open>f c\<close>, for \<open>c < n\<close>; all else stays.\<close>

definition cells :: "(nat \<Rightarrow> nat) \<Rightarrow> nat \<Rightarrow> nat \<Rightarrow> ieee list \<Rightarrow> (nat \<Rightarrow> nat \<Rightarrow> ieee) \<Rightarrow> ieee list \<Rightarrow> bool" where
  "cells P l n d f d' \<longleftrightarrow> length d' = length d \<and> (\<forall>c < n. \<forall>j < l. d' ! (P c + j) = f c j) \<and>
     (\<forall>k < length d. (\<forall>c < n. \<forall>j < l. k \<noteq> P c + j) \<longrightarrow> d' ! k = d ! k)"

lemma cells_0 [simp]: "cells P l 0 d f d"
  by (simp add: cells_def)

lemma cells_Suc:
  assumes "cells P l c d f d'" and "length ys = l" and "\<forall>j < l. ys ! j = f c j"
    and room: "P c + l \<le> length d" and apart: "\<forall>c' < c. P c' + l \<le> P c"
  shows "cells P l (Suc c) d f (put d' (P c) ys)"
proof -
  have len: "length d' = length d" using assms(1) by (simp add: cells_def)
  have "put d' (P c) ys ! (P c' + j) = f c' j" if "c' < Suc c" "j < l" for c' j
  proof (cases "c' = c")
    case True
    then show ?thesis using that assms len by (simp add: nth_put)
  next
    case False
    then have "c' < c" using that by simp
    then have "P c' + j < P c" using apart [rule_format, of c'] that(2) by linarith
    then show ?thesis using False that assms len nth_put_other [of "P c" ys d' "P c' + j"]
      by (simp add: cells_def)
  qed
  moreover have "put d' (P c) ys ! k = d ! k" if k: "k < length d" "\<forall>c' < Suc c. \<forall>j < l. k \<noteq> P c' + j" for k
  proof -
    have "k < P c \<or> P c + l \<le> k"
      using k(2) by (metis add_diff_inverse_nat add_less_cancel_left lessI not_le)
    then show ?thesis using k assms len nth_put_other [of "P c" ys d' k] by (simp add: cells_def)
  qed
  ultimately show ?thesis using assms len by (simp add: cells_def)
qed

lemma cells_over:
  assumes "cells P l n d f d1" and "cells P l n d1 g d2"
  shows "cells P l n d g d2"
  using assms by (simp add: cells_def)

text \<open>
  The columns \<open>(b, i)\<close> of \<open>D\<close> hold \<open>T\<close> of their old contents, the other ones and what lies outside the
  tensor are as in \<open>dst\<close>.
\<close>

definition filled ::
    "(nat \<Rightarrow> ieee list \<Rightarrow> ieee list) \<Rightarrow> ieee list \<Rightarrow> nat \<Rightarrow> nat \<Rightarrow> nat \<Rightarrow> nat \<Rightarrow> ieee list \<Rightarrow> (nat \<Rightarrow> nat \<Rightarrow> bool) \<Rightarrow> ieee list \<Rightarrow> bool" where
  "filled T src off B C HW dst D d \<longleftrightarrow> length d = length dst \<and>
     (\<forall>b < B. \<forall>i < HW. \<forall>c < C. d ! (off + b * C * HW + c * HW + i) =
       (if D b i then T i (column src off b C HW i) ! c
        else dst ! (off + b * C * HW + c * HW + i))) \<and>
     (\<forall>k < length dst. k < off \<or> off + B * C * HW \<le> k \<longrightarrow> d ! k = dst ! k)"

lemma tensor_idx:
  assumes "b < B" "c < C" "i < (HW::nat)"
  shows "off + b * C * HW + c * HW + i < off + B * C * HW"
  using index3_less [OF assms] by (simp add: algebra_simps)

lemma tensor_inj:
  assumes "c < C" "i < HW" "c' < C" "i' < (HW::nat)"
  shows "off + b * C * HW + c * HW + i = off + b' * C * HW + c' * HW + i' \<longleftrightarrow> b = b' \<and> c = c' \<and> i = i'"
  using index2_inj [OF assms(2,4), of "b * C + c" "b' * C + c'"] index2_inj [OF assms(1,3), of b b']
  by (simp add: algebra_simps)

text \<open>Writing the columns \<open>(b, i)\<close>, \<open>\<dots>\<close>, \<open>(b, i + l - 1)\<close> adds them to the filled ones.\<close>

lemma filled_step:
  assumes fil: "filled T src off B C HW dst D d" and b: "b < B" and i: "i + l \<le> HW"
    and room: "off + B * C * HW \<le> length dst"
    and d': "cells (\<lambda>c. off + b * C * HW + c * HW + i) l C d (\<lambda>c j. T (i + j) (column src off b C HW (i + j)) ! c) d'"
  shows "filled T src off B C HW dst (\<lambda>b' i'. D b' i' \<or> b' = b \<and> i \<le> i' \<and> i' < i + l) d'"
proof -
  let ?P = "\<lambda>c. off + b * C * HW + c * HW + i"
  have len: "length d = length dst" using fil by (simp add: filled_def)
  have "d' ! (off + b' * C * HW + c * HW + i') =
      (if D b' i' \<or> b' = b \<and> i \<le> i' \<and> i' < i + l then T i' (column src off b' C HW i') ! c
       else dst ! (off + b' * C * HW + c * HW + i'))" if "b' < B" "i' < HW" "c < C" for b' i' c
  proof (cases "b' = b \<and> i \<le> i' \<and> i' < i + l")
    case True
    then have "i' - i < l" "i + (i' - i) = i'" by auto
    then have "d' ! (?P c + (i' - i)) = T i' (column src off b C HW i') ! c"
      using d' that(3) unfolding cells_def by metis
    then show ?thesis using True by (simp add: add.assoc)
  next
    case False
    have "off + b' * C * HW + c * HW + i' \<noteq> ?P c' + j" if "c' < C" "j < l" for c' j
      using tensor_inj [of c C i' HW c' "i + j" off b' b] that \<open>c < C\<close> \<open>i' < HW\<close> i False by auto
    moreover have "off + b' * C * HW + c * HW + i' < length dst"
      using tensor_idx [of b' B c C i' HW off] that room by simp
    ultimately have "d' ! (off + b' * C * HW + c * HW + i') = d ! (off + b' * C * HW + c * HW + i')"
      using d' len by (simp add: cells_def)
    then show ?thesis using fil that False by (auto simp: filled_def)
  qed
  moreover have "d' ! k = dst ! k" if k: "k < length dst" "k < off \<or> off + B * C * HW \<le> k" for k
  proof -
    have "k \<noteq> ?P c + j" if "c < C" "j < l" for c j
      using tensor_idx [OF b that(1), of "i + j" HW off] that(2) i k(2) by auto
    then have "d' ! k = d ! k" using d' k(1) len by (simp add: cells_def)
    then show ?thesis using fil k by (auto simp: filled_def)
  qed
  ultimately show ?thesis using d' len by (simp add: filled_def cells_def)
qed

lemma filled_weaken:
  "filled T src off B C HW dst D d \<Longrightarrow> (\<And>b i. b < B \<Longrightarrow> i < HW \<Longrightarrow> D b i = D' b i) \<Longrightarrow>
   filled T src off B C HW dst D' d"
  by (simp add: filled_def)

text \<open>
  The loop nest shared by the channel-wise routines: in every image \<open>n\<close> blocks of \<open>l\<close>
  columns, then the remaining columns one by one.
\<close>

lemma columns_blocked:
  assumes vec: "\<And>b q d. b < B \<Longrightarrow> q < n \<Longrightarrow> length d = length dst \<Longrightarrow>
      ok (V b q d) (cells (\<lambda>c. off + b * C * HW + c * HW + q * l) l C d
        (\<lambda>c j. T (q * l + j) (column src off b C HW (q * l + j)) ! c))"
    and sca: "\<And>b i d. b < B \<Longrightarrow> i < HW \<Longrightarrow> n * l \<le> i \<Longrightarrow> length d = length dst \<Longrightarrow>
      ok (S b i d) (cells (\<lambda>c. off + b * C * HW + c * HW + i) 1 C d (\<lambda>c j. T (i + j) (column src off b C HW (i + j)) ! c))"
    and fit: "n * l \<le> HW" and room: "off + B * C * HW \<le> length dst"
  shows "ok (loop B (\<lambda>b d. loop n (V b) d \<bind> loop (HW - n * l) (\<lambda>q. S b (n * l + q))) dst)
    (filled T src off B C HW dst (\<lambda>b i. True))"
proof (rule loop_wp [where I = "\<lambda>n. filled T src off B C HW dst (\<lambda>b i. b < n)"])
  show "filled T src off B C HW dst (\<lambda>b i. b < 0) dst" by (simp add: filled_def)
next
  fix b d assume b: "b < B" and d: "filled T src off B C HW dst (\<lambda>b' i. b' < b) d"
  have "ok (loop n (V b) d) (filled T src off B C HW dst (\<lambda>b' i. b' < b \<or> b' = b \<and> i < n * l))"
  proof (rule loop_ok [where I = "\<lambda>q. filled T src off B C HW dst (\<lambda>b' i. b' < b \<or> b' = b \<and> i < q * l)"])
    show "filled T src off B C HW dst (\<lambda>b' i. b' < b \<or> b' = b \<and> i < 0 * l) d" using d by simp
  next
    fix q d' assume q: "q < n" and d': "filled T src off B C HW dst (\<lambda>b' i. b' < b \<or> b' = b \<and> i < q * l) d'"
    have len: "length d' = length dst" using d' by (simp add: filled_def)
    have e: "q * l + l \<le> HW" using slot_end_nat [OF q, of l] fit by simp
    show "ok (V b q d') (filled T src off B C HW dst (\<lambda>b' i. b' < b \<or> b' = b \<and> i < Suc q * l))"
      by (rule ok_mono [OF vec [OF b q len]], drule filled_step [OF d' b e room], erule filled_weaken) auto
  qed
  moreover have "ok (loop (HW - n * l) (\<lambda>q. S b (n * l + q)) d') (filled T src off B C HW dst (\<lambda>b' i. b' < Suc b))"
    if d': "filled T src off B C HW dst (\<lambda>b' i. b' < b \<or> b' = b \<and> i < n * l) d'" for d'
  proof (rule loop_wp [where I = "\<lambda>q. filled T src off B C HW dst (\<lambda>b' i. b' < b \<or> b' = b \<and> i < n * l + q)"])
    show "filled T src off B C HW dst (\<lambda>b' i. b' < b \<or> b' = b \<and> i < n * l + 0) d'" using d' by simp
  next
    fix q d'' assume q: "q < HW - n * l" and d'': "filled T src off B C HW dst (\<lambda>b' i. b' < b \<or> b' = b \<and> i < n * l + q) d''"
    have len: "length d'' = length dst" using d'' by (simp add: filled_def)
    have e: "n * l + q + 1 \<le> HW" "n * l + q < HW" "n * l \<le> n * l + q" using q by simp_all
    show "ok (S b (n * l + q) d'') (filled T src off B C HW dst (\<lambda>b' i. b' < b \<or> b' = b \<and> i < n * l + Suc q))"
      by (rule ok_mono [OF sca [OF b e(2,3) len]], drule filled_step [OF d'' b e(1) room], erule filled_weaken) auto
  next
    fix d'' assume "filled T src off B C HW dst (\<lambda>b' i. b' < b \<or> b' = b \<and> i < n * l + (HW - n * l)) d''"
    then show "filled T src off B C HW dst (\<lambda>b' i. b' < Suc b) d''" by (rule filled_weaken) (use fit in auto)
  qed
  ultimately show "ok (loop n (V b) d \<bind> loop (HW - n * l) (\<lambda>q. S b (n * l + q))) (filled T src off B C HW dst (\<lambda>b' i. b' < Suc b))"
    by (auto simp: ok_bind intro: ok_mono)
next
  fix d assume "filled T src off B C HW dst (\<lambda>b i. b < B) d"
  then show "filled T src off B C HW dst (\<lambda>b i. True) d" by (rule filled_weaken) simp
qed

text \<open>Filled tensors hold \<open>T\<close> of every column of the source.\<close>

lemma filled_columns:
  assumes "filled T src off B C HW dst (\<lambda>b i. True) d" and "\<And>i. length (T i (column src off b C HW i)) = C"
    and "b < B" and "i < HW"
  shows "column d off b C HW i = T i (column src off b C HW i)"
  by (rule nth_equalityI) (use assms in \<open>auto simp: column_def filled_def\<close>)

text \<open>
  The passes of a normalisation over one position or over the \<open>l\<close> positions of a register:
  the channels are accumulated with \<open>F\<close>, then each is replaced by \<open>G\<close> of the accumulator.
\<close>

lemma scalar_pass:
  assumes i: "i < HW" and b: "b < B" and room: "off + B * C * HW \<le> length src" "off + B * C * HW \<le> length dst"
    and P: "\<And>c. P c = off + b * C * HW + c * HW + i"
    and f: "\<And>c j. c < C \<Longrightarrow> j < 1 \<Longrightarrow>
      f c j = G (foldl F a (column src off b C HW (i + j))) c (column src off b C HW (i + j) ! c)"
  shows "ok (loop C (\<lambda>c acc. do { v \<leftarrow> rd src (P c); Some (F acc v) }) a \<bind>
      (\<lambda>r. loop C (\<lambda>c dst. do { v \<leftarrow> rd src (P c); wr dst (P c) (G r c v) }) dst))
    (cells (\<lambda>c. off + b * C * HW + c * HW + i) 1 C dst f)"
proof -
  let ?col = "column src off b C HW i"
  have s: "P c < length src" "P c < length dst" if "c < C" for c
    using tensor_idx [OF b that i, of off] room by (simp_all add: P)
  have "ok (loop C (\<lambda>c acc. do { v \<leftarrow> rd src (P c); Some (F acc v) }) a) (\<lambda>r. r = foldl F a ?col)"
    unfolding column_def P [symmetric]
    by (rule loop_ok [where I = "\<lambda>n r. r = foldl F a (map (\<lambda>c. src ! P c) [0..<n])"])
      (use s(1) in \<open>simp_all add: wp\<close>)
  then have fold: "loop C (\<lambda>c acc. do { v \<leftarrow> rd src (P c); Some (F acc v) }) a = Some (foldl F a ?col)"
    by (simp add: ok_eq_Some)
  have "ok (loop C (\<lambda>c dst. do { v \<leftarrow> rd src (P c); wr dst (P c) (G (foldl F a ?col) c v) }) dst)
      (cells (\<lambda>c. off + b * C * HW + c * HW + i) 1 C dst f)"
  proof (rule loop_ok [where I = "\<lambda>n. cells (\<lambda>c. off + b * C * HW + c * HW + i) 1 n dst f"])
    fix c d assume c: "c < C" and d: "cells (\<lambda>c. off + b * C * HW + c * HW + i) 1 c dst f d"
    have len: "length d = length dst" using d by (simp add: cells_def)
    have "?col ! c = src ! P c" using c by (simp add: column_def P)
    then have v: "f c 0 = G (foldl F a ?col) c (src ! P c)" using f [OF c zero_less_one] by simp
    have "cells (\<lambda>c. off + b * C * HW + c * HW + i) 1 (Suc c) dst f
        (put d (off + b * C * HW + c * HW + i) [f c 0])"
    proof (rule cells_Suc [OF d])
      show "\<forall>c' < c. off + b * C * HW + c' * HW + i + 1 \<le> off + b * C * HW + c * HW + i"
        using i by (auto dest: row_apart [where n = HW])
    qed (use s(2) [OF c] in \<open>simp_all add: P\<close>)
    then show "ok (do { v \<leftarrow> rd src (P c); wr d (P c) (G (foldl F a ?col) c v) })
        (cells (\<lambda>c. off + b * C * HW + c * HW + i) 1 (Suc c) dst f)"
      using s [OF c] len unfolding v by (simp add: wp put_single P)
  qed simp
  then show ?thesis unfolding fold by simp
qed

lemma lanes_pass:
  assumes i: "i + l \<le> HW" and l: "0 < l" and b: "b < B"
    and room: "off + B * C * HW \<le> length src" "off + B * C * HW \<le> length dst"
    and P: "\<And>c. P c = off + b * C * HW + c * HW + i"
    and f: "\<And>c j. c < C \<Longrightarrow> j < l \<Longrightarrow>
      f c j = G (foldl F a (column src off b C HW (i + j))) c (column src off b C HW (i + j) ! c)"
  shows "ok (loop C (\<lambda>c acc. do { vs \<leftarrow> loadu l src (P c); Some (map2 F acc vs) }) (replicate l a) \<bind>
      (\<lambda>r. loop C (\<lambda>c dst. do { vs \<leftarrow> loadu l src (P c); blit dst (P c) (map2 (\<lambda>x v. G x c v) r vs) }) dst))
    (cells (\<lambda>c. off + b * C * HW + c * HW + i) l C dst f)"
proof -
  let ?x = "\<lambda>c j. src ! (P c + j)"
  let ?r = "map (\<lambda>j. foldl F a (column src off b C HW (i + j))) [0..<l]"
  have s: "P c + l \<le> length src" "P c + l \<le> length dst" if "c < C" for c
  proof -
    have "i + (l - 1) < HW" using i l by linarith
    then have "off + b * C * HW + c * HW + (i + (l - 1)) < off + B * C * HW" by (rule tensor_idx [OF b that])
    then show "P c + l \<le> length src" "P c + l \<le> length dst" using room l by (simp_all add: P)
  qed
  have load: "loadu l src (P c) = Some (map (?x c) [0..<l])" if "c < C" for c
    using s(1) [OF that] by (rule loadu_eq)
  have "ok (loop C (\<lambda>c acc. do { vs \<leftarrow> loadu l src (P c); Some (map2 F acc vs) }) (replicate l a))
      (\<lambda>r. r = map (\<lambda>j. foldl F a (map (\<lambda>c. ?x c j) [0..<C])) [0..<l])"
    by (rule loop_ok [where I = "\<lambda>n r. r = map (\<lambda>j. foldl F a (map (\<lambda>c. ?x c j) [0..<n])) [0..<l]"])
      (auto simp: load map_replicate_const intro!: nth_equalityI)
  moreover have "map (\<lambda>c. ?x c j) [0..<C] = column src off b C HW (i + j)" for j
    by (simp add: column_def P add.assoc)
  ultimately have fold: "loop C (\<lambda>c acc. do { vs \<leftarrow> loadu l src (P c); Some (map2 F acc vs) }) (replicate l a) = Some ?r"
    by (simp add: ok_eq_Some)
  have "ok (loop C (\<lambda>c dst. do { vs \<leftarrow> loadu l src (P c); blit dst (P c) (map2 (\<lambda>x v. G x c v) ?r vs) }) dst)
      (cells (\<lambda>c. off + b * C * HW + c * HW + i) l C dst f)"
  proof (rule loop_ok [where I = "\<lambda>n. cells (\<lambda>c. off + b * C * HW + c * HW + i) l n dst f"])
    fix c d assume c: "c < C" and d: "cells (\<lambda>c. off + b * C * HW + c * HW + i) l c dst f d"
    let ?ys = "map2 (\<lambda>x v. G x c v) ?r (map (?x c) [0..<l])"
    have len: "length d = length dst" using d by (simp add: cells_def)
    have "cells (\<lambda>c. off + b * C * HW + c * HW + i) l (Suc c) dst f (put d (off + b * C * HW + c * HW + i) ?ys)"
    proof (rule cells_Suc [OF d])
      show "\<forall>c' < c. off + b * C * HW + c' * HW + i + l \<le> off + b * C * HW + c * HW + i"
        using i by (auto dest: row_apart [where n = HW])
      show "\<forall>j < l. ?ys ! j = f c j" using c f [OF c] by (simp add: column_def P add.assoc)
    qed (use s(2) [OF c] in \<open>simp_all add: P\<close>)
    then show "ok (do { vs \<leftarrow> loadu l src (P c); blit d (P c) (map2 (\<lambda>x v. G x c v) ?r vs) })
        (cells (\<lambda>c. off + b * C * HW + c * HW + i) l (Suc c) dst f)"
      unfolding load [OF c] Option.bind.bind_lunit using s(2) [OF c] len by (simp add: wp P)
  qed simp
  then show ?thesis unfolding fold by simp
qed

end
