(* ===== verification/Softmax.thy ===== *)
theory Softmax
  imports Columns "HOL-Library.Word"
begin

unbundle bit_operations_syntax

text \<open>
  The softmax routines of the layers (\<open>extension/common/softmax.h\<close>) and the exponential of
  their vector code (\<open>extension/common/opt_exp.h\<close>).

  A vector register is the list of its lanes; the build chooses 8 lanes (AVX2), 4 (SSE) or
  none. \<open>sexp\<close> is the exponential of the scalar code, the C library's \<open>exp\<close> rounded to
  \<open>float\<close>. Loops that OpenMP may distribute are taken in order: their iterations touch
  different columns.
\<close>

section \<open>The vector exponential\<close>

text \<open>The \<open>float\<close> whose bits are a 32-bit word.\<close>

definition float_of_bits :: "32 word \<Rightarrow> ieee" where
  "float_of_bits w =
     (let s = bit w 31; e = uint (drop_bit 23 w AND 0xFF); m = uint (w AND 0x7FFFFF) in
      if e = 255 then (if m = 0 then Inf s else NaN)
      else if e = 0 then (if m = 0 then zero s else Fin ((if s then -1 else 1) * of_int m * 2 powi (-149)))
      else Fin ((if s then -1 else 1) * (of_int m + 2 ^ 23) * 2 powi (e - 150)))"

text \<open>\<open>cvtps_epi32\<close>: round to nearest even; what does not fit becomes the indefinite integer.\<close>

definition cvtps_epi32 :: "ieee \<Rightarrow> 32 word" where
  "cvtps_epi32 x = (if is_fin x \<and> - (2 ^ 31) \<le> rhe (val x) \<and> rhe (val x) < 2 ^ 31
     then word_of_int (rhe (val x)) else 0x80000000)"

definition cvtepi32_ps :: "32 word \<Rightarrow> ieee" where
  "cvtepi32_ps w = i2f (sint w)"

text \<open>A decimal literal of type \<open>float\<close>.\<close>

abbreviation lit :: "rat \<Rightarrow> ieee" where "lit q \<equiv> mk b32 False q"

definition EXP_HI :: ieee where "EXP_HI = lit (883762626647949 / 10 ^ 13)"
definition EXP_LO :: ieee where "EXP_LO = lit (- (883762626647949 / 10 ^ 13))"
definition LOG2EF :: ieee where "LOG2EF = lit (144269504088896341 / 10 ^ 17)"
definition EXP_C1 :: ieee where "EXP_C1 = lit (693359375 / 10 ^ 9)"
definition EXP_C2 :: ieee where "EXP_C2 = lit (- (212194440 / 10 ^ 12))"
definition EXP_P0 :: ieee where "EXP_P0 = lit (19875691500 / 10 ^ 14)"
definition EXP_P1 :: ieee where "EXP_P1 = lit (13981999507 / 10 ^ 13)"
definition EXP_P2 :: ieee where "EXP_P2 = lit (83334519073 / 10 ^ 13)"
definition EXP_P3 :: ieee where "EXP_P3 = lit (41665795894 / 10 ^ 12)"
definition EXP_P4 :: ieee where "EXP_P4 = lit (16666665459 / 10 ^ 11)"
definition EXP_P5 :: ieee where "EXP_P5 = lit (50000001201 / 10 ^ 11)"

text \<open>Steps 1 to 3: the clamped argument and the integral power of two.\<close>

definition exp_clamp :: "ieee \<Rightarrow> ieee" where
  "exp_clamp vsrc = maxps (minps vsrc EXP_HI) EXP_LO"

definition exp_floor :: "ieee \<Rightarrow> ieee" where
  "exp_floor fx = (let fxi = cvtepi32_ps (cvtps_epi32 fx); mask = (if flt fx fxi then Fin 1 else Fin 0)
     in subf fxi mask)"

definition exp_rest :: "ieee \<Rightarrow> ieee \<Rightarrow> ieee" where
  "exp_rest vsrc0 fx = subf (subf vsrc0 (mulf fx EXP_C1)) (mulf fx EXP_C2)"

text \<open>Step 4: the polynomial, without and with fused multiply-add.\<close>

definition exp_poly :: "ieee \<Rightarrow> ieee" where
  "exp_poly x =
     (let y = mulf EXP_P0 x; z = mulf x x;
          y = addf y EXP_P1; y = mulf y x;
          y = addf y EXP_P2; y = mulf y x;
          y = addf y EXP_P3; y = mulf y x;
          y = addf y EXP_P4; y = mulf y x;
          y = addf y EXP_P5; y = mulf y z; y = addf y x
      in addf y (Fin 1))"

definition exp_poly_fma :: "ieee \<Rightarrow> ieee" where
  "exp_poly_fma x =
     (let z = mulf x x; y = fma b32 EXP_P0 x EXP_P1;
          y = fma b32 y x EXP_P2;
          y = fma b32 y x EXP_P3;
          y = fma b32 y x EXP_P4;
          y = fma b32 y x EXP_P5;
          y = fma b32 y z x
      in addf y (Fin 1))"

text \<open>Step 5: \<open>2 powi fx\<close> as the exponent field of a \<open>float\<close>.\<close>

definition exp_pow2n :: "ieee \<Rightarrow> ieee" where
  "exp_pow2n fx = float_of_bits (push_bit 23 (cvtps_epi32 fx + 0x7f))"

definition avx_opt_exp :: "bool \<Rightarrow> ieee \<Rightarrow> ieee" where
  "avx_opt_exp have_fma vsrc =
     (let vsrc0 = exp_clamp vsrc;
          fx = (if have_fma then fma b32 vsrc0 LOG2EF (Fin (1/2)) else addf (mulf vsrc0 LOG2EF) (Fin (1/2)));
          fx = exp_floor fx;
          xr = exp_rest vsrc0 fx;
          y = (if have_fma then exp_poly_fma xr else exp_poly xr)
      in mulf y (exp_pow2n fx))"

definition sse_opt_exp :: "ieee \<Rightarrow> ieee" where
  "sse_opt_exp vsrc =
     (let vsrc0 = exp_clamp vsrc;
          fx = exp_floor (addf (mulf vsrc0 LOG2EF) (Fin (1/2)));
          xr = exp_rest vsrc0 fx
      in mulf (exp_poly xr) (exp_pow2n fx))"

datatype build = AVX2 bool | SSE | NoSIMD

text \<open>\<open>AVX2 have_fma\<close>; the number of lanes and the exponential of a build.\<close>

fun simd_lanes :: "build \<Rightarrow> nat" where
  "simd_lanes (AVX2 _) = 8" | "simd_lanes SSE = 4" | "simd_lanes NoSIMD = 0"

fun vexp :: "build \<Rightarrow> ieee \<Rightarrow> ieee" where
  "vexp (AVX2 f) = avx_opt_exp f" | "vexp SSE = sse_opt_exp" | "vexp NoSIMD = (\<lambda>x. x)"

section \<open>The routines\<close>

text \<open>\<open>blendv\<close> by the mask of the ordered comparison \<open>vval > vmax\<close>, and the other lane operations.\<close>

definition vmax_step :: "ieee list \<Rightarrow> ieee list \<Rightarrow> ieee list" where
  "vmax_step vval vmax = map2 (\<lambda>v m. if flt m v then v else m) vval vmax"

definition softmax_block ::
    "(ieee \<Rightarrow> ieee) \<Rightarrow> nat \<Rightarrow> ieee list \<Rightarrow> nat \<Rightarrow> nat \<Rightarrow> nat \<Rightarrow> nat \<Rightarrow> nat \<Rightarrow> ieee list \<Rightarrow> ieee list option" where
  "softmax_block e l src off b C HW i dst = do {
     vmax \<leftarrow> loadu l src (off + b * C * HW + i);
     vmax \<leftarrow> loop C (\<lambda>c vmax. do {
       vval \<leftarrow> loadu l src (off + b * C * HW + c * HW + i);
       Some (vmax_step vval vmax) }) vmax;
     (vexpSum, dst) \<leftarrow> loop C (\<lambda>c (vexpSum, dst). do {
       vval \<leftarrow> loadu l src (off + b * C * HW + c * HW + i);
       let vres = map2 (\<lambda>v m. e (subf v m)) vval vmax in do {
       dst \<leftarrow> blit dst (off + b * C * HW + c * HW + i) vres;
       Some (map2 addf vexpSum vres, dst) } }) (replicate l (Fin 0), dst);
     loop C (\<lambda>c dst. do {
       vval \<leftarrow> loadu l dst (off + b * C * HW + c * HW + i);
       blit dst (off + b * C * HW + c * HW + i) (map2 divf vval vexpSum) }) dst
   }"

definition softmax_scalar ::
    "(ieee \<Rightarrow> ieee) \<Rightarrow> ieee list \<Rightarrow> nat \<Rightarrow> nat \<Rightarrow> nat \<Rightarrow> nat \<Rightarrow> nat \<Rightarrow> ieee list \<Rightarrow> ieee list option" where
  "softmax_scalar sexp src off b C HW i dst = do {
     mx \<leftarrow> rd src (off + b * C * HW + i);
     mx \<leftarrow> loop C (\<lambda>c mx. do {
       v \<leftarrow> rd src (off + b * C * HW + c * HW + i);
       Some (if flt mx v then v else mx) }) mx;
     (expSum, dst) \<leftarrow> loop C (\<lambda>c (expSum, dst). do {
       v \<leftarrow> rd src (off + b * C * HW + c * HW + i);
       dst \<leftarrow> wr dst (off + b * C * HW + c * HW + i) (sexp (subf v mx));
       w \<leftarrow> rd dst (off + b * C * HW + c * HW + i);
       Some (addf expSum w, dst) }) (Fin 0, dst);
     loop C (\<lambda>c dst. do {
       v \<leftarrow> rd dst (off + b * C * HW + c * HW + i);
       wr dst (off + b * C * HW + c * HW + i) (divf v expSum) }) dst
   }"

text \<open>\<open>src_data\<close> and \<open>dst_data\<close> are the buffers from position \<open>off\<close> on.\<close>

definition softmax_generic ::
    "build \<Rightarrow> (ieee \<Rightarrow> ieee) \<Rightarrow> ieee list \<Rightarrow> nat \<Rightarrow> nat \<Rightarrow> nat \<Rightarrow> nat \<Rightarrow> nat \<Rightarrow> ieee list \<Rightarrow> ieee list option" where
  "softmax_generic bld sexp src off B C H W dst =
     (let l = simd_lanes bld; start = (if l = 0 then 0 else H * W div l * l) in
      loop B (\<lambda>b dst. do {
        dst \<leftarrow> loop (if l = 0 then 0 else H * W div l)
          (\<lambda>q. softmax_block (vexp bld) l src off b C (H * W) (q * l)) dst;
        loop (H * W - start) (\<lambda>q. softmax_scalar sexp src off b C (H * W) (start + q)) dst
      }) dst)"

text \<open>The variant whose loop runs over all positions of all images.\<close>

definition softmax_many_batches ::
    "(ieee \<Rightarrow> ieee) \<Rightarrow> ieee list \<Rightarrow> nat \<Rightarrow> nat \<Rightarrow> nat \<Rightarrow> nat \<Rightarrow> ieee list \<Rightarrow> ieee list option" where
  "softmax_many_batches sexp src B C H W dst =
     loop (B * H * W) (\<lambda>i dst.
       let psrc = int (i div (H * W)) * int C * int H * int W - int (i div (H * W)) * int H * int W in do {
       mx \<leftarrow> rdz src (psrc + int i);
       mx \<leftarrow> loop C (\<lambda>c mx. do {
         v \<leftarrow> rdz src (psrc + int c * int H * int W + int i);
         Some (if flt mx v then v else mx) }) mx;
       (expSum, dst) \<leftarrow> loop C (\<lambda>c (expSum, dst). do {
         v \<leftarrow> rdz src (psrc + int c * int H * int W + int i);
         dst \<leftarrow> wrz dst (psrc + int c * int H * int W + int i) (sexp (subf v mx));
         w \<leftarrow> rdz dst (psrc + int c * int H * int W + int i);
         Some (addf expSum w, dst) }) (Fin 0, dst);
       loop C (\<lambda>c dst. do {
         v \<leftarrow> rdz dst (psrc + int c * int H * int W + int i);
         wrz dst (psrc + int c * int H * int W + int i) (divf v expSum) }) dst
     }) dst"

section \<open>The softmax of a column\<close>

definition colmax :: "ieee \<Rightarrow> ieee list \<Rightarrow> ieee" where
  "colmax m xs = foldl (\<lambda>m v. if flt m v then v else m) m xs"

definition softmax_col :: "(ieee \<Rightarrow> ieee) \<Rightarrow> ieee list \<Rightarrow> ieee list" where
  "softmax_col e xs =
     (let m = colmax (hd xs) xs; es = map (\<lambda>v. e (subf v m)) xs; s = foldl addf (Fin 0) es
      in map (\<lambda>y. divf y s) es)"

lemma length_softmax_col [simp]: "length (softmax_col e xs) = length xs"
  by (simp add: softmax_col_def Let_def)

subsection \<open>Its values lie in the unit interval\<close>

lemma colmax_ge:
  assumes "\<not> is_nan m" and "\<forall>v \<in> set xs. \<not> is_nan v"
  shows "\<not> is_nan (colmax m xs) \<and> fle m (colmax m xs) \<and> (\<forall>v \<in> set xs. fle v (colmax m xs)) \<and>
    colmax m xs \<in> insert m (set xs)"
  using assms
proof (induction xs arbitrary: m)
  case Nil
  then show ?case by (simp add: colmax_def)
next
  case (Cons x xs)
  define m' where "m' = (if flt m x then x else m)"
  have m': "\<not> is_nan m'" "fle m m'" "fle x m'" "m' \<in> {m, x}"
    using Cons.prems by (auto simp: m'_def not_flt flt_imp_fle)
  have eq: "colmax m (x # xs) = colmax m' xs" by (simp add: colmax_def m'_def)
  have IH: "\<not> is_nan (colmax m' xs) \<and> fle m' (colmax m' xs) \<and> (\<forall>v \<in> set xs. fle v (colmax m' xs)) \<and>
    colmax m' xs \<in> insert m' (set xs)" using Cons m' by simp
  then show ?case unfolding eq using m' fle_trans by auto
qed

lemma foldl_addf_ge:
  assumes "\<forall>y \<in> set ys. fle (Fin 0) y \<and> in_fmt b32 y" and "fle (Fin 0) s" and "in_fmt b32 s"
  shows "fle s (foldl addf s ys) \<and> (\<forall>y \<in> set ys. fle y (foldl addf s ys)) \<and> in_fmt b32 (foldl addf s ys)"
  using assms
proof (induction ys arbitrary: s)
  case Nil
  then show ?case by (simp add: fle_def)
next
  case (Cons y ys)
  have y: "fle (Fin 0) y" "in_fmt b32 y" using Cons.prems by simp_all
  have ni: "v \<noteq> Inf True \<and> \<not> is_nan v" if "fle (Fin 0) v" for v using that by (auto simp: fle_def)
  have s: "fle s (addf s y)" "fle y (addf s y)"
    using fadd_nonneg_ge [of b32 s y] fadd_nonneg_ge [of b32 y s] fadd_comm [of b32 y s]
      ni [OF y(1)] ni [OF Cons.prems(2)] y Cons.prems(2,3) by simp_all
  moreover have "fle (addf s y) (foldl addf (addf s y) ys) \<and>
      (\<forall>y' \<in> set ys. fle y' (foldl addf (addf s y) ys)) \<and> in_fmt b32 (foldl addf (addf s y) ys)"
    using Cons fle_trans [of "Fin 0" s "addf s y"] s by (intro Cons.IH) (auto simp: in_fmt_fadd)
  ultimately show ?case by (auto intro: fle_trans)
qed

text \<open>A quotient by a sum that may have overflowed.\<close>

lemma divf_unit:
  assumes "fle (Fin 0) y" and "fle y (Fin 1)" and "fle y s" and "fle (Fin 1) s"
  shows "fle (Fin 0) (divf y s) \<and> fle (divf y s) (Fin 1)"
proof (cases "is_fin s")
  case True
  then show ?thesis using assms by (intro fdiv_unit) (auto simp: fle_fin)
next
  case False
  then have "s = Inf False" using assms by (cases s) (auto simp: fle_def split: if_splits)
  moreover have "is_fin y" using fle_between_fin [OF assms(1,2)] by simp
  ultimately show ?thesis by (auto simp: fdiv_def is_fin_not_nan fle_fin)
qed

definition unit_exp :: "(ieee \<Rightarrow> ieee) \<Rightarrow> bool" where
  "unit_exp e \<longleftrightarrow> e (Fin 0) = Fin 1 \<and>
     (\<forall>x. fle x (Fin 0) \<longrightarrow> fle (Fin 0) (e x) \<and> fle (e x) (Fin 1) \<and> in_fmt b32 (e x))"

lemma subf_self: "is_fin x \<Longrightarrow> subf x x = Fin 0"
  by (cases x) (auto simp: fsub_def zero_def)

lemma subf_nonpos: "is_fin x \<Longrightarrow> is_fin m \<Longrightarrow> fle x m \<Longrightarrow> fle (subf x m) (Fin 0)"
proof -
  assume x: "is_fin x" and m: "is_fin m" and le: "fle x m"
  have "fle (mk b32 False q) (Fin 0)" if "q \<le> 0" for q
    using mk_mono [of b32 q 0 False False] that by (simp add: zero_def)
  then show ?thesis using x m le
    by (cases x; cases m) (auto simp: fsub_def fle_def zero_def)
qed

lemma softmax_col_unit:
  assumes e: "unit_exp e" and fin: "\<forall>x \<in> set xs. is_fin x" and ne: "xs \<noteq> []"
  shows "\<forall>y \<in> set (softmax_col e xs). fle (Fin 0) y \<and> fle y (Fin 1)"
proof -
  define m where "m = colmax (hd xs) xs"
  define es where "es = map (\<lambda>v. e (subf v m)) xs"
  have "\<forall>v \<in> set xs. \<not> is_nan v" using fin is_fin_not_nan by blast
  then have m: "\<forall>v \<in> set xs. fle v m" "m \<in> set xs"
    using colmax_ge [of "hd xs" xs] ne hd_in_set [of xs] by (auto simp: m_def insert_absorb)
  have neg: "fle (subf v m) (Fin 0)" if "v \<in> set xs" for v
    using fin m that by (intro subf_nonpos) auto
  have es: "fle (Fin 0) y \<and> fle y (Fin 1) \<and> in_fmt b32 y" if "y \<in> set es" for y
    using that neg e by (auto simp: es_def unit_exp_def)
  have "e (subf m m) = Fin 1" using e fin m by (simp add: subf_self unit_exp_def)
  then have one: "Fin 1 \<in> set es" using m(2) by (force simp: es_def)
  have s: "\<forall>y \<in> set es. fle y (foldl addf (Fin 0) es)"
    using foldl_addf_ge [of es "Fin 0"] es by (simp add: fle_fin)
  have "fle (Fin 0) (divf y (foldl addf (Fin 0) es)) \<and> fle (divf y (foldl addf (Fin 0) es)) (Fin 1)"
    if "y \<in> set es" for y
    using es [OF that] s one that by (intro divf_unit) auto
  then show ?thesis
    by (simp add: softmax_col_def Let_def m_def [symmetric] es_def [symmetric] del: set_map)
      (simp add: es_def)
qed

section \<open>The routines compute the softmax of every column\<close>

lemma colmax_snoc: "colmax m (xs @ [v]) = (if flt (colmax m xs) v then v else colmax m xs)"
  by (simp add: colmax_def)

lemma softmax_block_ok:
  assumes src: "\<forall>c < C. P c + l \<le> length src" and dst: "\<forall>c < C. P c + l \<le> length dst"
    and P: "\<And>c. P c = off + b * C * HW + c * HW + i" and C: "0 < C" and l: "l \<le> HW"
  shows "ok (softmax_block e l src off b C HW i dst)
    (cells P l C dst (\<lambda>c j. softmax_col e (column src off b C HW (i + j)) ! c))"
proof -
  let ?x = "\<lambda>c j. src ! (P c + j)"
  define m where "m = (\<lambda>j. colmax (?x 0 j) (map (\<lambda>c. ?x c j) [0..<C]))"
  define f where "f = (\<lambda>c j. e (subf (?x c j) (m j)))"
  define S where "S = (\<lambda>n j. foldl addf (Fin 0) (map (\<lambda>c. f c j) [0..<n]))"
  have apart: "P c' + l \<le> P c" if "c' < c" for c c'
    using row_apart [OF that, of HW] l by (simp add: P)
  have load: "take l (drop (P c) src) ! j = ?x c j" if "c < C" "j < l" for c j
    using that src [rule_format, OF that(1)] by simp
  have col: "column src off b C HW (i + j) = map (\<lambda>c. ?x c j) [0..<C]" for j
    by (simp add: column_def P add.assoc)
  have res: "softmax_col e (column src off b C HW (i + j)) ! c = divf (f c j) (S C j)" if "c < C" for c j
    using C that by (simp add: softmax_col_def col Let_def hd_map m_def f_def S_def comp_def)
  let ?V = "\<lambda>n. map (\<lambda>j. colmax (?x 0 j) (map (\<lambda>c. ?x c j) [0..<n])) [0..<l]"
  have "ok (loop C (\<lambda>c vmax. loadu l src (P c) \<bind> (\<lambda>vval. Some (vmax_step vval vmax)))
      (take l (drop (P 0) src))) (\<lambda>v. v = ?V C)"
  proof (rule loop_ok [where I = "\<lambda>n v. v = ?V n"])
    show "take l (drop (P 0) src) = ?V 0"
      by (rule nth_equalityI) (use src C load in \<open>auto simp: colmax_def\<close>)
  next
    fix c v assume "c < C" and v: "v = ?V c"
    then show "ok (loadu l src (P c) \<bind> (\<lambda>vval. Some (vmax_step vval v))) (\<lambda>v. v = ?V (Suc c))"
      using src load by (auto simp: wp vmax_step_def colmax_snoc intro!: nth_equalityI)
  qed
  then have 1: "loop C (\<lambda>c vmax. loadu l src (P c) \<bind> (\<lambda>vval. Some (vmax_step vval vmax)))
      (take l (drop (P 0) src)) = Some (map m [0..<l])" by (simp add: ok_eq_Some m_def)
  have 2: "ok (loop C (\<lambda>c (s, d). loadu l src (P c) \<bind> (\<lambda>vval.
        let vres = map2 (\<lambda>v m. e (subf v m)) vval (map m [0..<l]) in
        blit d (P c) vres \<bind> (\<lambda>d. Some (map2 addf s vres, d)))) (replicate l (Fin 0), dst))
      (\<lambda>(s, d). s = map (S C) [0..<l] \<and> cells P l C dst f d)"
  proof (rule loop_ok [where I = "\<lambda>n (s, d). s = map (S n) [0..<l] \<and> cells P l n dst f d"])
    show "case (replicate l (Fin 0), dst) of (s, d) \<Rightarrow> s = map (S 0) [0..<l] \<and> cells P l 0 dst f d"
      by (simp add: S_def map_replicate_const)
  next
    fix c s assume c: "c < C" and I: "case s of (s, d) \<Rightarrow> s = map (S c) [0..<l] \<and> cells P l c dst f d"
    obtain d where s: "s = (map (S c) [0..<l], d)" and d: "cells P l c dst f d" using I by (cases s) simp
    let ?r = "map2 (\<lambda>v m. e (subf v m)) (take l (drop (P c) src)) (map m [0..<l])"
    have r: "length ?r = l" "\<forall>j < l. ?r ! j = f c j" using c src load by (auto simp: f_def)
    have "cells P l (Suc c) dst f (put d (P c) ?r)"
      using d r dst c apart by (intro cells_Suc) auto
    moreover have "map2 addf (map (S c) [0..<l]) ?r = map (S (Suc c)) [0..<l]"
      using r by (intro nth_equalityI) (auto simp: S_def)
    moreover have "length d = length dst" using d by (simp add: cells_def)
    ultimately show "ok (case s of (s, d) \<Rightarrow> loadu l src (P c) \<bind> (\<lambda>vval.
        let vres = map2 (\<lambda>v m. e (subf v m)) vval (map m [0..<l]) in
        blit d (P c) vres \<bind> (\<lambda>d. Some (map2 addf s vres, d))))
      (\<lambda>(s, d). s = map (S (Suc c)) [0..<l] \<and> cells P l (Suc c) dst f d)"
      using c src dst r by (auto simp: s wp Let_def simp del: map_map)
  qed
  have 3: "ok (loop C (\<lambda>c d. loadu l d (P c) \<bind> (\<lambda>vval. blit d (P c) (map2 divf vval (map (S C) [0..<l])))) d2)
      (cells P l C d2 (\<lambda>c j. divf (f c j) (S C j)))" if d2: "cells P l C dst f d2" for d2
  proof (rule loop_ok [where I = "\<lambda>n. cells P l n d2 (\<lambda>c j. divf (f c j) (S C j))"])
    fix c d assume c: "c < C" and d: "cells P l c d2 (\<lambda>c j. divf (f c j) (S C j)) d"
    have len: "length d = length dst" "length d2 = length dst" using d d2 by (simp_all add: cells_def)
    have "d ! (P c + j) = f c j" if "j < l" for j
    proof -
      have "\<forall>c' < c. \<forall>j' < l. P c + j \<noteq> P c' + j'" using apart by fastforce
      moreover have "P c + j < length d2" using dst [rule_format, OF c] that len by simp
      ultimately have "d ! (P c + j) = d2 ! (P c + j)" using d unfolding cells_def by blast
      then show ?thesis using d2 c that by (simp add: cells_def)
    qed
    then have "cells P l (Suc c) d2 (\<lambda>c j. divf (f c j) (S C j))
        (put d (P c) (map2 divf (take l (drop (P c) d)) (map (S C) [0..<l])))"
      using d dst c apart len by (intro cells_Suc) auto
    then show "ok (loadu l d (P c) \<bind> (\<lambda>vval. blit d (P c) (map2 divf vval (map (S C) [0..<l]))))
        (cells P l (Suc c) d2 (\<lambda>c j. divf (f c j) (S C j)))"
      using c dst [rule_format, OF c] len by (simp add: wp min_absorb2)
  qed simp
  have P0: "off + b * C * HW + i = P 0" by (simp add: P)
  have "loadu l src (P 0) = Some (take l (drop (P 0) src))" using src C by (simp add: loadu_def)
  then have "ok (softmax_block e l src off b C HW i dst) (cells P l C dst (\<lambda>c j. divf (f c j) (S C j)))"
    unfolding softmax_block_def P [symmetric] P0
    by (simp only: Option.bind.bind_lunit 1) (auto simp: ok_bind intro!: ok_mono [OF 2] ok_mono [OF 3] intro: cells_over)
  then show ?thesis by (rule ok_mono) (auto simp: cells_def res)
qed

text \<open>The scalar code is the vector code with one lane.\<close>

lemma loadu_one: "loadu 1 xs p = map_option (\<lambda>v. [v]) (rd xs p)"
  by (simp add: loadu_def rd_def take_Suc_conv_app_nth hd_drop_conv_nth take_Suc)

lemma blit_one: "blit xs p [v] = wr xs p v"
  by (simp add: blit_def wr_def put_single)

lemma softmax_scalar_eq: "softmax_scalar e src off b C HW i dst = softmax_block e 1 src off b C HW i dst"
proof -
  let ?P = "\<lambda>c. off + b * C * HW + c * HW + i"
  have 1: "loop C (\<lambda>c vmax. loadu 1 src (?P c) \<bind> (\<lambda>vval. Some (vmax_step vval vmax))) [m] =
      map_option (\<lambda>v. [v]) (loop C (\<lambda>c mx. rd src (?P c) \<bind> (\<lambda>v. Some (if flt mx v then v else mx))) m)" for m
  proof (rule loop_sim)
    fix c s
    show "loadu 1 src (?P c) \<bind> (\<lambda>vval. Some (vmax_step vval [s])) =
        map_option (\<lambda>v. [v]) (rd src (?P c) \<bind> (\<lambda>v. Some (if flt s v then v else s)))"
      unfolding loadu_one by (cases "rd src (?P c)") (simp_all add: vmax_step_def)
  qed
  let ?h = "\<lambda>(s, d). ([s], d)"
  have 2: "loop C (\<lambda>c (s, d). loadu 1 src (?P c) \<bind> (\<lambda>vval.
        let vres = map2 (\<lambda>v m. e (subf v m)) vval [m] in
        blit d (?P c) vres \<bind> (\<lambda>d. Some (map2 addf s vres, d)))) ([s0], d0) =
      map_option ?h (loop C (\<lambda>c (s, d). rd src (?P c) \<bind> (\<lambda>v.
        wr d (?P c) (e (subf v m)) \<bind> (\<lambda>d. rd d (?P c) \<bind> (\<lambda>w. Some (addf s w, d))))) (s0, d0))"
    (is "loop C ?F _ = map_option ?h (loop C ?G _)") for m s0 d0
  proof -
    have "?F c (?h p) = map_option ?h (?G c p)" for c p
      unfolding loadu_one by (cases p; cases "rd src (?P c)") (simp_all add: blit_one wr_def rd_def)
    then have "loop C ?F (?h (s0, d0)) = map_option ?h (loop C ?G (s0, d0))" by (rule loop_sim)
    then show ?thesis by (simp only: prod.case)
  qed
  have 3: "loadu 1 d (?P c) \<bind> (\<lambda>vval. blit d (?P c) (map2 divf vval [s])) =
      rd d (?P c) \<bind> (\<lambda>v. wr d (?P c) (divf v s))" for c d s
    unfolding loadu_one by (cases "rd d (?P c)") (simp_all add: blit_one)
  have list_one: "replicate 1 (Fin 0) = [Fin 0]" by simp
  have bind_map: "map_option h m \<bind> k = m \<bind> (\<lambda>x. k (h x))" for h :: "'x \<Rightarrow> 'y" and m and k :: "'y \<Rightarrow> 'z option"
    by (cases m) simp_all
  show ?thesis
    unfolding softmax_block_def softmax_scalar_def loadu_one [of src "off + b * C * HW + i"] bind_map 1
    by (simp only: list_one 2 3 bind_map case_prod_beta fst_conv snd_conv) (simp only: case_prod_unfold)
qed

section \<open>All columns\<close>

text \<open>The exponential that each column of a build goes through.\<close>

definition col_exp :: "build \<Rightarrow> (ieee \<Rightarrow> ieee) \<Rightarrow> nat \<Rightarrow> nat \<Rightarrow> ieee \<Rightarrow> ieee" where
  "col_exp bld sexp HW i =
     (if simd_lanes bld \<noteq> 0 \<and> i < HW div simd_lanes bld * simd_lanes bld then vexp bld else sexp)"

lemma softmax_generic_columns:
  assumes C: "0 < C" and room: "off + B * C * (H * W) \<le> length src" "off + B * C * (H * W) \<le> length dst"
  shows "\<exists>d. softmax_generic bld sexp src off B C H W dst = Some d \<and> length d = length dst \<and>
    (\<forall>b < B. \<forall>i < H * W. column d off b C (H * W) i =
      softmax_col (col_exp bld sexp (H * W) i) (column src off b C (H * W) i)) \<and>
    (\<forall>k < length dst. k < off \<or> off + B * C * (H * W) \<le> k \<longrightarrow> d ! k = dst ! k)"
proof -
  define l where "l = simd_lanes bld"
  define n where "n = (if l = 0 then 0 else H * W div l)"
  let ?T = "\<lambda>i. softmax_col (col_exp bld sexp (H * W) i)" and ?HW = "H * W"
  have start: "(if l = 0 then 0 else H * W div l * l) = n * l" "n * l \<le> ?HW" by (simp_all add: n_def)
  have e: "col_exp bld sexp ?HW i = (if i < n * l then vexp bld else sexp)" for i
    by (simp add: col_exp_def l_def n_def)
  have seg: "off + b * C * ?HW + c * ?HW + i + m \<le> off + B * C * ?HW"
    if "b < B" "c < C" "i + m \<le> ?HW" "0 < m" for b c i m
    using tensor_idx [OF that(1,2), of "i + (m - 1)" ?HW off] that(3,4) by (cases m) simp_all
  have "ok (loop B (\<lambda>b dst. loop n (\<lambda>q. softmax_block (vexp bld) l src off b C ?HW (q * l)) dst \<bind>
      loop (?HW - n * l) (\<lambda>q. softmax_scalar sexp src off b C ?HW (n * l + q))) dst)
      (filled ?T src off B C ?HW dst (\<lambda>b i. True))"
  proof (rule columns_blocked [OF _ _ start(2) room(2)])
    fix b q and d :: "ieee list" assume b: "b < B" and q: "q < n" and len: "length d = length dst"
    have l: "0 < l" using q by (simp add: n_def split: if_splits)
    have fit: "q * l + l \<le> n * l" using slot_end_nat [OF q] .
    have "ok (softmax_block (vexp bld) l src off b C ?HW (q * l) d)
        (cells (\<lambda>c. off + b * C * ?HW + c * ?HW + q * l) l C d
          (\<lambda>c j. softmax_col (vexp bld) (column src off b C ?HW (q * l + j)) ! c))"
    proof (rule softmax_block_ok [OF _ _ refl C])
      have hw: "q * l + l \<le> ?HW" using fit start(2) by simp
      then show "l \<le> ?HW" by simp
      show "\<forall>c < C. off + b * C * ?HW + c * ?HW + q * l + l \<le> length src"
        "\<forall>c < C. off + b * C * ?HW + c * ?HW + q * l + l \<le> length d"
        using order_trans [OF seg [OF b _ hw l]] room len by simp_all
    qed
    then show "ok (softmax_block (vexp bld) l src off b C ?HW (q * l) d)
        (cells (\<lambda>c. off + b * C * ?HW + c * ?HW + q * l) l C d
          (\<lambda>c j. ?T (q * l + j) (column src off b C ?HW (q * l + j)) ! c))"
      by (rule ok_mono) (use fit in \<open>simp add: cells_def e\<close>)
  next
    fix b i and d :: "ieee list" assume b: "b < B" and i: "i < ?HW" "n * l \<le> i" and len: "length d = length dst"
    have "ok (softmax_block sexp 1 src off b C ?HW i d)
        (cells (\<lambda>c. off + b * C * ?HW + c * ?HW + i) 1 C d
          (\<lambda>c j. softmax_col sexp (column src off b C ?HW (i + j)) ! c))"
    proof (rule softmax_block_ok [OF _ _ refl C])
      have hw: "i + 1 \<le> ?HW" using i by simp
      then show "1 \<le> ?HW" by (rule order_trans [rotated]) simp
      show "\<forall>c < C. off + b * C * ?HW + c * ?HW + i + 1 \<le> length src"
        "\<forall>c < C. off + b * C * ?HW + c * ?HW + i + 1 \<le> length d"
        using order_trans [OF seg [OF b _ hw zero_less_one]] room len by simp_all
    qed
    then show "ok (softmax_scalar sexp src off b C ?HW i d)
        (cells (\<lambda>c. off + b * C * ?HW + c * ?HW + i) 1 C d (\<lambda>c j. ?T (i + j) (column src off b C ?HW (i + j)) ! c))"
      unfolding softmax_scalar_eq by (rule ok_mono) (use i in \<open>simp add: cells_def e\<close>)
  qed
  moreover have "softmax_generic bld sexp src off B C H W dst = loop B (\<lambda>b dst. loop n
      (\<lambda>q. softmax_block (vexp bld) l src off b C ?HW (q * l)) dst \<bind>
      loop (?HW - n * l) (\<lambda>q. softmax_scalar sexp src off b C ?HW (n * l + q))) dst"
    by (simp only: softmax_generic_def Let_def l_def [symmetric] start(1) n_def [symmetric])
  ultimately obtain d where d: "softmax_generic bld sexp src off B C H W dst = Some d"
    "filled ?T src off B C ?HW dst (\<lambda>b i. True) d"
    by (auto elim!: okE)
  have "column d off b C ?HW i = ?T i (column src off b C ?HW i)" if "b < B" "i < ?HW" for b i
    by (rule filled_columns [OF d(2) _ that]) (simp add: column_def)
  then show ?thesis using d by (auto simp: filled_def)
qed

text \<open>
  C39: On buffers that hold the tensor, and with at least one channel, \<open>softmax_generic\<close> stays
  inside them, replaces every channel column by its softmax (the columns of the vector
  blocks by the build's polynomial exponential, the remaining ones by the scalar one) and
  leaves the rest of the destination untouched.
\<close>

theorem softmax_generic_spec:
  assumes C: "0 < C" and room: "off + B * C * (H * W) \<le> length src" "off + B * C * (H * W) \<le> length dst"
  shows "\<exists>d. softmax_generic bld sexp src off B C H W dst = Some d \<and> length d = length dst \<and>
    (\<forall>b < B. \<forall>i < H * W. column d off b C (H * W) i =
      softmax_col (col_exp bld sexp (H * W) i) (column src off b C (H * W) i)) \<and>
    (\<forall>k < length dst. k < off \<or> off + B * C * (H * W) \<le> k \<longrightarrow> d ! k = dst ! k)"
  using assms by (rule softmax_generic_columns)

text \<open>
  \<open>softmax_many_batches\<close> computes what \<open>softmax_generic\<close> computes in a build without
  vector instructions, failures included.
\<close>

theorem softmax_many_batches_eq:
  "softmax_many_batches sexp src B C H W dst = softmax_generic NoSIMD sexp src 0 B C H W dst"
proof -
  let ?body = "\<lambda>i dst. let psrc = int (i div (H * W)) * int C * int H * int W - int (i div (H * W)) * int H * int W in do {
       mx \<leftarrow> rdz src (psrc + int i);
       mx \<leftarrow> loop C (\<lambda>c mx. do {
         v \<leftarrow> rdz src (psrc + int c * int H * int W + int i);
         Some (if flt mx v then v else mx) }) mx;
       (expSum, dst) \<leftarrow> loop C (\<lambda>c (expSum, dst). do {
         v \<leftarrow> rdz src (psrc + int c * int H * int W + int i);
         dst \<leftarrow> wrz dst (psrc + int c * int H * int W + int i) (sexp (subf v mx));
         w \<leftarrow> rdz dst (psrc + int c * int H * int W + int i);
         Some (addf expSum w, dst) }) (Fin 0, dst);
       loop C (\<lambda>c dst. do {
         v \<leftarrow> rdz dst (psrc + int c * int H * int W + int i);
         wrz dst (psrc + int c * int H * int W + int i) (divf v expSum) }) dst
     }"
  have body: "?body (b * (H * W) + r) d = softmax_scalar sexp src 0 b C (H * W) r d" if "r < H * W" for b r d
  proof -
    have "(b * n + r) div n = b" if "r < n" for n using that by simp
    then have q: "(b * (H * W) + r) div (H * W) = b" using that by blast
    have p: "int b * int C * int H * int W - int b * int H * int W + int c * int H * int W + int (b * (H * W) + r) =
        int (0 + b * C * (H * W) + c * (H * W) + r)" for c
      by (simp add: algebra_simps)
    have p0: "int b * int C * int H * int W - int b * int H * int W + int (b * (H * W) + r) =
        int (0 + b * C * (H * W) + r)"
      by (simp add: algebra_simps)
    have z: "rdz xs (int k) = rd xs k" "wrz xs (int k) v = wr xs k v" for k v and xs :: "ieee list"
      by (simp_all add: rdz_def wrz_def)
    show ?thesis unfolding softmax_scalar_def Let_def q p p0 z ..
  qed
  have cong: "loop n f s = loop n g s" if "\<And>i s. i < n \<Longrightarrow> f i s = g i s" for n f g and s :: "ieee list"
    using loop_cong [of "\<lambda>_. True" s n f g] that by simp
  have "softmax_many_batches sexp src B C H W dst = loop B (\<lambda>b. loop (H * W) (\<lambda>r. ?body (b * (H * W) + r))) dst"
    unfolding softmax_many_batches_def mult.assoc [of B] by (rule loop_mult)
  also have "\<dots> = loop B (\<lambda>b. loop (H * W) (softmax_scalar sexp src 0 b C (H * W))) dst"
    by (intro cong) (rule body)
  finally show ?thesis by (simp add: softmax_generic_def)
qed

text \<open>
  In a build without vector instructions, on finite input and for an exponential that is
  1 at 0 and maps non-positive values into the unit interval, every element that
  \<open>softmax_generic\<close> writes lies in the unit interval, even if the sum overflows.
\<close>

theorem softmax_generic_unit:
  assumes C: "0 < C" and room: "off + B * C * (H * W) \<le> length src" "off + B * C * (H * W) \<le> length dst"
    and e: "unit_exp sexp" and fin: "\<forall>x \<in> set src. is_fin x"
    and run: "softmax_generic NoSIMD sexp src off B C H W dst = Some d" and at: "b < B" "c < C" "i < H * W"
  shows "fle (Fin 0) (d ! (off + b * C * (H * W) + c * (H * W) + i)) \<and>
    fle (d ! (off + b * C * (H * W) + c * (H * W) + i)) (Fin 1)"
proof -
  have col: "column d off b C (H * W) i = softmax_col sexp (column src off b C (H * W) i)"
    using softmax_generic_columns [OF C room, of NoSIMD sexp] run at by (auto simp: col_exp_def)
  have "\<forall>x \<in> set (column src off b C (H * W) i). is_fin x"
    using fin room tensor_idx [OF at(1) _ at(3), of _ C off] by (force simp: column_def intro!: nth_mem)
  moreover have "column src off b C (H * W) i \<noteq> []" using C by (simp add: column_def)
  ultimately have "\<forall>y \<in> set (column d off b C (H * W) i). fle (Fin 0) y \<and> fle y (Fin 1)"
    unfolding col by (intro softmax_col_unit [OF e])
  then show ?thesis using at(2) by (auto simp: column_def)
qed

theorem softmax_generic_spec_witness:
  "\<exists>d. softmax_generic (AVX2 True) (\<lambda>x. x) (replicate 18 (Fin 1)) 0 1 2 3 3 (replicate 18 NaN) = Some d \<and>
     column d 0 0 2 9 8 =
       softmax_col (col_exp (AVX2 True) (\<lambda>x. x) 9 8) (column (replicate 18 (Fin 1)) 0 0 2 9 8)"
  using softmax_generic_spec [of 2 0 1 3 3 "replicate 18 (Fin 1)" "replicate 18 NaN" "AVX2 True" "\<lambda>x. x"] by auto

definition step_exp :: "ieee \<Rightarrow> ieee" where
  "step_exp x = (if fle (Fin 0) x then Fin 1 else Fin 0)"

theorem softmax_generic_unit_witness:
  "\<exists>d. softmax_generic NoSIMD step_exp [Fin 1, Fin 2] 0 1 2 1 1 [NaN, NaN] = Some d \<and>
     fle (Fin 0) (d ! 1) \<and> fle (d ! 1) (Fin 1)"
proof -
  have u: "unit_exp step_exp"
    using i2f_exact [of 1] i2f_exact [of 0] in_fmt_of_z [of b32 1] in_fmt_of_z [of b32 0]
    by (auto simp: unit_exp_def step_exp_def fle_fin)
  obtain d where d: "softmax_generic NoSIMD step_exp [Fin 1, Fin 2] 0 1 2 1 1 [NaN, NaN] = Some d"
    by (simp add: softmax_generic_def softmax_scalar_def Let_def rd_def wr_def numeral_eq_Suc)
  then show ?thesis
    using softmax_generic_unit [OF _ _ _ u _ d, of 0 1 0] by simp
qed

end
