(* ===== verification/Region_Yolo.thy ===== *)
theory Region_Yolo
  imports Ext_Base Softmax "HOL-Library.Signed_Division"
begin

text \<open>
  The \<open>RegionYolo\<close> layer (\<open>extension/ext_region_yolo.cpp\<close>): the logistic function on the
  box positions and the objectness of every anchor, the softmax on its classes, and a copy
  of everything else.

  \<open>exp_d\<close> is the C library's \<open>exp\<close> on \<open>double\<close>, which the unqualified calls of this file
  and of \<open>softmax.h\<close> name.
\<close>

section \<open>The layer\<close>

record region_cfg =
  classes :: int
  coords :: int
  num :: int

definition region_ctor :: "ie_lib \<Rightarrow> cnn_layer \<Rightarrow> exn + region_cfg \<times> layer_config list" where
  "region_ctor lib L =
     ebind (throw_if (length (insData L) \<noteq> 1 \<or> outData L = [])
       ''Incorrect number of input/output edges!'') (\<lambda>_.
     ebind (get_param (p_int L ''classes'')) (\<lambda>cl.
     ebind (get_param (p_int L ''coords'')) (\<lambda>co.
     ebind (get_param (p_int L ''num'')) (\<lambda>n.
     ebind (addConfig lib L [] [conf1 PLN] [conf1 PLN] False) (\<lambda>cs.
     Inr (\<lparr>classes = cl, coords = co, num = n\<rparr>, cs))))))"

definition entry_index :: "int \<Rightarrow> int \<Rightarrow> int \<Rightarrow> int \<Rightarrow> int \<Rightarrow> int \<Rightarrow> int \<Rightarrow> int \<Rightarrow> int option" where
  "entry_index width height crds cls outputs batch location entry =
     (if width * height = 0 then None
      else let n = location sdiv (width * height); loc = location smod (width * height) in
        Some (batch * outputs + n * width * height * (crds + cls + 1) + entry * width * height + loc))"

definition logistic_activate :: "(ieee \<Rightarrow> ieee) \<Rightarrow> ieee \<Rightarrow> ieee" where
  "logistic_activate exp_d x = cvt b32 (divd (Fin 1) (addd (Fin 1) (exp_d (fneg x))))"

text \<open>The loop over \<open>n\<close> elements from \<open>index\<close> on.\<close>

definition activate_run :: "(ieee \<Rightarrow> ieee) \<Rightarrow> int \<Rightarrow> nat \<Rightarrow> ieee list \<Rightarrow> ieee list option" where
  "activate_run exp_d index n dst =
     loop n (\<lambda>i dst. do {
       v \<leftarrow> rdz dst (index + int i);
       wrz dst (index + int i) (logistic_activate exp_d v) }) dst"

definition activate_anchor ::
    "(ieee \<Rightarrow> ieee) \<Rightarrow> region_cfg \<Rightarrow> nat \<Rightarrow> nat \<Rightarrow> int \<Rightarrow> nat \<Rightarrow> nat \<Rightarrow> ieee list \<Rightarrow> ieee list option" where
  "activate_anchor exp_d c IW IH inputs_size b n dst = do {
     index \<leftarrow> entry_index (int IW) (int IH) (coords c) (classes c) inputs_size (int b) (int (n * IW * IH)) 0;
     dst \<leftarrow> activate_run exp_d index (2 * IW * IH) dst;
     index \<leftarrow> entry_index (int IW) (int IH) (coords c) (classes c) inputs_size (int b) (int (n * IW * IH)) (coords c);
     activate_run exp_d index (IW * IH) dst
   }"

text \<open>The softmax of one anchor's classes; a pointer before the buffer fails.\<close>

definition softmax_anchor ::
    "(ieee \<Rightarrow> ieee) \<Rightarrow> build \<Rightarrow> region_cfg \<Rightarrow> ieee list \<Rightarrow> nat \<Rightarrow> nat \<Rightarrow> int \<Rightarrow> int \<Rightarrow> nat \<Rightarrow> ieee list \<Rightarrow> ieee list option" where
  "softmax_anchor exp_d bld c src IW IH index batch_offset b dst =
     (if index + int b * batch_offset < 0 then None
      else softmax_generic bld (\<lambda>x. cvt b32 (exp_d x)) src (nat (index + int b * batch_offset)) 1
        (nat (classes c)) IH IW dst)"

definition region_execute ::
    "(ieee \<Rightarrow> ieee) \<Rightarrow> build \<Rightarrow> region_cfg \<Rightarrow> blob \<Rightarrow> blob \<Rightarrow> (status \<times> blob) option" where
  "region_execute exp_d bld c inp out =
     (let IW = dim_or_one (dims inp) 3; IH = dim_or_one (dims inp) 2; IC = dim_or_one (dims inp) 1;
          B = dim_or_one (dims inp) 0;
          inputs_size = int IH * int IW * num c * (classes c + coords c + 1) in do {
        src \<leftarrow> loadu (B * IC * IH * IW) (data inp) 0;
        dst \<leftarrow> blit (data out) 0 src;
        dst \<leftarrow> loop B (\<lambda>b. loop (nat (num c)) (activate_anchor exp_d c IW IH inputs_size b)) dst;
        index \<leftarrow> entry_index (int IW) (int IH) (coords c) (classes c) inputs_size 0 0 (coords c + 1);
        if num c = 0 then None
        else let batch_offset = inputs_size sdiv num c in do {
          dst \<leftarrow> loop (nat (int B * num c)) (softmax_anchor exp_d bld c (data inp) IW IH index batch_offset) dst;
          Some (OK, out\<lparr>data := dst\<rparr>)
        }
      })"

section \<open>The logistic function\<close>

lemma cvt_unit:
  assumes "fle (Fin 0) x" and "fle x (Fin 1)"
  shows "fle (Fin 0) (cvt b32 x) \<and> fle (cvt b32 x) (Fin 1)"
proof (cases x)
  case (Fin q)
  then have q: "0 \<le> q" "q \<le> 1" using assms by (simp_all add: fle_fin)
  have one: "mk b32 False 1 = Fin 1"
    using i2f_exact [of 1] by (simp add: of_z_def)
  then show ?thesis
    using mk_mono [of b32 0 q False False] mk_mono [of b32 q 1 False False] q
    by (simp add: Fin one zero_def)
qed (use assms in \<open>auto simp: fle_def\<close>)

lemma logistic_unit:
  assumes e: "fle (Fin 0) (exp_d (fneg x))" and fmt: "in_fmt b64 (exp_d (fneg x))"
  shows "fle (Fin 0) (logistic_activate exp_d x) \<and> fle (logistic_activate exp_d x) (Fin 1)"
proof -
  let ?s = "addd (Fin 1) (exp_d (fneg x))"
  have "in_fmt b64 (Fin 1)"
    using of_z_exact [of b64 1] in_fmt_of_z [of b64 1] by simp
  then have s: "fle (Fin 1) ?s" using e by (intro fadd_nonneg_ge) simp_all
  have "fle (Fin 0) (divd (Fin 1) ?s) \<and> fle (divd (Fin 1) ?s) (Fin 1)"
  proof (cases "is_fin ?s")
    case True
    then show ?thesis using s by (intro fdiv_unit) (auto simp: fle_fin)
  next
    case False
    then have "?s = Inf False" using s by (cases ?s) (auto simp: fle_def split: if_splits)
    then show ?thesis by (simp add: fdiv_def zero_def fle_fin)
  qed
  then show ?thesis unfolding logistic_activate_def by (intro cvt_unit) simp_all
qed

section \<open>Where the elements lie\<close>

text \<open>Element \<open>i\<close> of entry \<open>e\<close> of anchor \<open>a\<close>, for \<open>K\<close> entries of \<open>HW\<close> elements.\<close>

definition element :: "nat \<Rightarrow> nat \<Rightarrow> nat \<Rightarrow> nat \<Rightarrow> nat \<Rightarrow> nat" where
  "element K HW a e i = (a * K + e) * HW + i"

lemma segment_iff:
  assumes "i < (n::nat)"
  shows "q * n \<le> r * n + i \<and> r * n + i < (q + m) * n \<longleftrightarrow> q \<le> r \<and> r < q + m"
proof -
  have *: "q * n \<le> r * n + i \<longleftrightarrow> q \<le> r" for q
  proof (cases "q \<le> r")
    case True
    then show ?thesis using mult_le_mono1 [OF True, of n] by linarith
  next
    case False
    then show ?thesis using row_apart [of r q n] assms by simp
  qed
  show ?thesis using * [of q] * [of "q + m"] by (metis not_le)
qed

lemma element_in:
  assumes "i < HW" and "e < K" and "f + m \<le> K"
  shows "(a * K + f) * HW \<le> element K HW a' e i \<and> element K HW a' e i < (a * K + f) * HW + m * HW \<longleftrightarrow>
    a' = a \<and> f \<le> e \<and> e < f + m"
proof -
  have "(a * K + f) * HW \<le> element K HW a' e i \<and> element K HW a' e i < (a * K + f) * HW + m * HW \<longleftrightarrow>
      a * K + f \<le> a' * K + e \<and> a' * K + e < a * K + f + m"
    using segment_iff [OF assms(1), of "a * K + f" "a' * K + e" m]
    by (simp only: element_def add_mult_distrib)
  also have "\<dots> \<longleftrightarrow> a' = a \<and> f \<le> e \<and> e < f + m"
  proof
    assume *: "a * K + f \<le> a' * K + e \<and> a' * K + e < a * K + f + m"
    have "a' = a"
    proof (rule ccontr)
      assume "a' \<noteq> a"
      then consider "a' < a" | "a < a'" by linarith
      then show False
        using * assms(2,3) row_apart [of a a' K] row_apart [of a' a K] by cases simp_all
    qed
    then show "a' = a \<and> f \<le> e \<and> e < f + m" using * by simp
  qed simp
  finally show ?thesis .
qed

lemma element_less:
  "a < A \<Longrightarrow> e < K \<Longrightarrow> i < HW \<Longrightarrow> element K HW a e i < A * K * HW"
  unfolding element_def by (rule index3_less)

section \<open>The passes over the anchors\<close>

lemma activate_run_eq:
  assumes "p + n \<le> length dst"
  shows "activate_run exp_d (int p) n dst =
    Some (put dst p (map (\<lambda>i. logistic_activate exp_d (dst ! (p + i))) [0..<n]))"
proof -
  let ?ys = "\<lambda>n. map (\<lambda>i. logistic_activate exp_d (dst ! (p + i))) [0..<n]"
  have "ok (activate_run exp_d (int p) n dst) (\<lambda>d. d = put dst p (?ys n))"
    unfolding activate_run_def
  proof (rule loop_ok [where I = "\<lambda>i d. d = put dst p (?ys i)"])
    fix i d assume i: "i < n" and d: "d = put dst p (?ys i)"
    have r: "rd d (p + i) = Some (dst ! (p + i))"
      using assms i by (simp add: d rd_Some nth_put_if)
    have w: "wr d (p + i) v = Some (put dst p (?ys i @ [v]))" for v
      using assms i wr_put [of p "?ys i" dst v] by (simp add: d)
    have "rdz d (int p + int i) = rd d (p + i)" "wrz d (int p + int i) v = wr d (p + i) v" for v
      by (simp_all add: rdz_def wrz_def nat_add_distrib)
    then show "ok (rdz d (int p + int i) \<bind> (\<lambda>v. wrz d (int p + int i) (logistic_activate exp_d v)))
        (\<lambda>d. d = put dst p (?ys (Suc i)))"
      by (simp add: r w)
  qed simp
  then show ?thesis by (simp add: ok_eq_Some)
qed

lemma entry_index_nat:
  assumes "0 < IW * IH"
  shows "entry_index (int IW) (int IH) (int co) (int cl) (int (IH * IW * nn * (cl + co + 1))) (int b) (int (n * IW * IH)) (int e) =
    Some (int (((b * nn + n) * (cl + co + 1) + e) * (IH * IW)))"
proof -
  have m: "int IW * int IH = int (IW * IH)" by simp
  have "n * IW * IH div (IW * IH) = n" using assms by (metis mult.assoc nonzero_mult_div_cancel_right less_irrefl)
  then have d: "int (n * IW * IH) sdiv (int IW * int IH) = int n"
    unfolding m using assms by (simp only: signed_divide_int_def) (simp add: sgn_if zdiv_int [symmetric])
  have "int (n * IW * IH) = int n * (int IW * int IH)" by simp
  then have z: "int (n * IW * IH) smod (int IW * int IH) = 0"
    by (simp only: signed_modulo_int_def) (simp add: abs_mult)
  have "int IW * int IH \<noteq> 0" using assms by (metis m of_nat_0_eq_iff less_irrefl)
  moreover have "int b * int (IH * IW * nn * (cl + co + 1)) + int n * int IW * int IH * (int co + int cl + 1) +
      int e * int IW * int IH + 0 = int (((b * nn + n) * (cl + co + 1) + e) * (IH * IW))"
    by (simp add: algebra_simps)
  ultimately show ?thesis unfolding entry_index_def Let_def d z by (simp only: if_False)
qed

text \<open>The layer's state after the logistic pass up to anchor \<open>n\<close>.\<close>

definition activated ::
    "(ieee \<Rightarrow> ieee) \<Rightarrow> ieee list \<Rightarrow> nat \<Rightarrow> nat \<Rightarrow> nat \<Rightarrow> nat \<Rightarrow> nat \<Rightarrow> ieee list \<Rightarrow> bool" where
  "activated exp_d src K HW A co n d \<longleftrightarrow> length d = A * K * HW \<and>
     (\<forall>a < A. \<forall>e < K. \<forall>i < HW. d ! element K HW a e i =
       (if a < n \<and> (e < 2 \<or> e = co) then logistic_activate exp_d (src ! element K HW a e i)
        else src ! element K HW a e i))"

lemma activate_two:
  assumes d: "activated exp_d src K HW A co a d" and a: "a < A" and co: "2 \<le> co" "co < K"
  shows "ok (activate_run exp_d (int (a * K * HW)) (2 * HW) d \<bind> activate_run exp_d (int ((a * K + co) * HW)) HW)
    (activated exp_d src K HW A co (Suc a))"
proof -
  let ?log = "logistic_activate exp_d" and ?p = "a * K * HW" and ?q = "(a * K + co) * HW"
  have len: "length d = A * K * HW" using d by (simp add: activated_def)
  have "a * K + co < A * K" using index2_less [OF a co(2)] .
  then have q: "?q + HW \<le> A * K * HW" by (rule slot_end_nat)
  have "?p + 2 * HW \<le> ?q" using mult_le_mono1 [OF co(1), of HW] by (simp add: algebra_simps)
  then have p: "?p + 2 * HW \<le> length d" using q len by simp
  define d1 where "d1 = put d ?p (map (\<lambda>i. ?log (d ! (?p + i))) [0..<2 * HW])"
  define d2 where "d2 = put d1 ?q (map (\<lambda>i. ?log (d1 ! (?q + i))) [0..<HW])"
  have l1: "length d1 = A * K * HW" using p len by (simp add: d1_def)
  have in1: "?p \<le> element K HW a' e i \<and> element K HW a' e i < ?p + 2 * HW \<longleftrightarrow> a' = a \<and> e < 2"
    if "e < K" "i < HW" for a' e i
    using element_in [OF that(2,1), of 0 2 a a'] co by (auto simp: less_Suc_eq numeral_2_eq_2)
  have in2: "?q \<le> element K HW a' e i \<and> element K HW a' e i < ?q + HW \<longleftrightarrow> a' = a \<and> e = co"
    if "e < K" "i < HW" for a' e i
    using element_in [OF that(2,1), of co 1 a a'] co by auto
  have n1: "d1 ! element K HW a' e i = (if a' = a \<and> e < 2 then ?log (d ! element K HW a' e i) else d ! element K HW a' e i)"
    if "e < K" "i < HW" for a' e i
    using in1 [OF that, of a'] p unfolding d1_def by (subst nth_put_if) auto
  have n2: "d2 ! element K HW a' e i = (if a' = a \<and> e = co then ?log (d1 ! element K HW a' e i) else d1 ! element K HW a' e i)"
    if "e < K" "i < HW" for a' e i
    using in2 [OF that, of a'] q l1 unfolding d2_def by (subst nth_put_if) auto
  have "activated exp_d src K HW A co (Suc a) d2"
    using d q l1 n1 n2 co by (auto simp: activated_def d2_def [symmetric]) (auto simp: d2_def)
  then show ?thesis
    using activate_run_eq [OF p] activate_run_eq [of ?q HW d1] q l1 by (simp add: d1_def d2_def)
qed

text \<open>The state after the softmax of the anchors before \<open>n\<close>.\<close>

definition region_value ::
    "(ieee \<Rightarrow> ieee) \<Rightarrow> build \<Rightarrow> ieee list \<Rightarrow> nat \<Rightarrow> nat \<Rightarrow> nat \<Rightarrow> nat \<Rightarrow> nat \<Rightarrow> nat \<Rightarrow> nat \<Rightarrow> ieee" where
  "region_value exp_d bld src K HW co cl a e i =
     (if e < 2 \<or> e = co then logistic_activate exp_d (src ! element K HW a e i)
      else if e < co then src ! element K HW a e i
      else softmax_col (col_exp bld (\<lambda>x. cvt b32 (exp_d x)) HW i)
        (column src (element K HW a (co + 1) 0) 0 cl HW i) ! (e - (co + 1)))"

definition normalised ::
    "(ieee \<Rightarrow> ieee) \<Rightarrow> build \<Rightarrow> ieee list \<Rightarrow> nat \<Rightarrow> nat \<Rightarrow> nat \<Rightarrow> nat \<Rightarrow> nat \<Rightarrow> nat \<Rightarrow> ieee list \<Rightarrow> bool" where
  "normalised exp_d bld src K HW A co cl n d \<longleftrightarrow> length d = A * K * HW \<and>
     (\<forall>a < A. \<forall>e < K. \<forall>i < HW. d ! element K HW a e i =
       (if e \<le> co \<or> a < n then region_value exp_d bld src K HW co cl a e i else src ! element K HW a e i))"

lemma softmax_anchor_ok:
  assumes d: "normalised exp_d bld src K (IH * IW) A co cl a d" and a: "a < A" and co: "2 \<le> co"
    and cl: "0 < cl" "classes c = int cl" and K: "K = cl + co + 1" and src: "length src = A * K * (IH * IW)"
  shows "ok (softmax_anchor exp_d bld c src IW IH (int ((co + 1) * (IH * IW))) (int (K * (IH * IW))) a d)
    (normalised exp_d bld src K (IH * IW) A co cl (Suc a))"
proof -
  let ?HW = "IH * IW" and ?se = "\<lambda>x. cvt b32 (exp_d x)"
  define off where "off = element K ?HW a (co + 1) 0"
  have off': "int ((co + 1) * ?HW) + int a * int (K * ?HW) = int off"
    by (simp add: off_def element_def algebra_simps)
  have len: "length d = A * K * ?HW" using d by (simp add: normalised_def)
  have "a * K + K \<le> A * K" using a by (rule slot_end_nat)
  then have "(a * K + K) * ?HW \<le> A * K * ?HW" by (rule mult_le_mono1)
  then have room: "off + 1 * cl * ?HW \<le> A * K * ?HW" by (simp add: off_def element_def K algebra_simps)
  obtain d' where run: "softmax_generic bld ?se src off 1 cl IH IW d = Some d'" and len': "length d' = length d"
    and cols: "\<forall>i < ?HW. column d' off 0 cl ?HW i = softmax_col (col_exp bld ?se ?HW i) (column src off 0 cl ?HW i)"
    and rest: "\<forall>k < length d. k < off \<or> off + 1 * cl * ?HW \<le> k \<longrightarrow> d' ! k = d ! k"
    using softmax_generic_columns [OF cl(1), of off 1 IH IW src d bld ?se] room src len by auto
  have val: "d' ! element K ?HW a' e i =
      (if a' = a \<and> co < e then region_value exp_d bld src K ?HW co cl a e i else d ! element K ?HW a' e i)"
    if *: "a' < A" "e < K" "i < ?HW" for a' e i
  proof (cases "a' = a \<and> co < e")
    case True
    then obtain f where f: "e = co + 1 + f" using le_Suc_ex [of "co + 1" e] by auto
    have "element K ?HW a e i = off + 0 * cl * ?HW + (e - (co + 1)) * ?HW + i"
      by (simp add: f off_def element_def algebra_simps)
    moreover have "e - (co + 1) < cl" using *(2) True unfolding K by linarith
    ultimately have "d' ! element K ?HW a e i = column d' off 0 cl ?HW i ! (e - (co + 1))"
      by (simp add: column_def)
    then show ?thesis using True cols * co by (simp add: region_value_def off_def)
  next
    case False
    have "off \<le> element K ?HW a' e i \<and> element K ?HW a' e i < off + cl * ?HW \<longleftrightarrow> a' = a \<and> co < e"
      using element_in [OF *(3,2), of "co + 1" cl a a'] * by (auto simp: off_def element_def K)
    then have "element K ?HW a' e i < off \<or> off + 1 * cl * ?HW \<le> element K ?HW a' e i"
      using False by auto
    then show ?thesis using rest element_less [OF *] len False by auto
  qed
  have "normalised exp_d bld src K ?HW A co cl (Suc a) d'"
    using d val len len' by (auto simp: normalised_def less_Suc_eq)
  then show ?thesis
    unfolding softmax_anchor_def off' cl(2) using run by simp
qed

section \<open>The whole layer\<close>

text \<open>
  For inputs of \<open>num\<close> anchors with at least two coordinates and one class, the layer stays
  inside its buffers, returns OK, and in every anchor applies the logistic function to the
  entries 0, 1 and \<open>coords\<close>, the softmax of the class column to the entries behind, and copies
  all others.
\<close>

theorem region_execute_spec:
  assumes dims: "dims inp = [B, nn * (cl + co + 1), IH, IW]" and cfg: "num c = int nn" "classes c = int cl" "coords c = int co"
    and pos: "0 < nn" "0 < cl" "2 \<le> co" "0 < IW * IH"
    and vol: "length (data inp) = B * nn * (cl + co + 1) * (IH * IW)" "length (data out) = B * nn * (cl + co + 1) * (IH * IW)"
  shows "\<exists>d. region_execute exp_d bld c inp out = Some (OK, out\<lparr>data := d\<rparr>) \<and> length d = length (data out) \<and>
    (\<forall>a < B * nn. \<forall>e < cl + co + 1. \<forall>i < IH * IW. d ! ((a * (cl + co + 1) + e) * (IH * IW) + i) =
      region_value exp_d bld (data inp) (cl + co + 1) (IH * IW) co cl a e i)"
proof -
  define K where "K = cl + co + 1"
  let ?HW = "IH * IW" and ?src = "data inp" and ?A = "B * nn"
  have volK: "length ?src = ?A * K * ?HW" "length (data out) = ?A * K * ?HW"
    using vol by (simp_all add: K_def)
  have isz: "int IH * int IW * num c * (classes c + coords c + 1) = int (IH * IW * nn * (cl + co + 1))"
    by (simp add: cfg algebra_simps)
  have N: "B * (nn * K) * IH * IW = length ?src" using volK by (simp add: algebra_simps)
  have act: "activate_anchor exp_d c IW IH (int (IH * IW * nn * (cl + co + 1))) b n d =
      activate_run exp_d (int ((b * nn + n) * K * ?HW)) (2 * ?HW) d \<bind>
      activate_run exp_d (int (((b * nn + n) * K + co) * ?HW)) ?HW" for b n d
    unfolding activate_anchor_def cfg using entry_index_nat [OF pos(4), of co cl nn b n 0] entry_index_nat [OF pos(4), of co cl nn b n co]
    by (simp add: K_def mult.commute [of IW] mult.assoc)
  have "ok (loop ?A (\<lambda>a d. activate_run exp_d (int (a * K * ?HW)) (2 * ?HW) d \<bind>
      activate_run exp_d (int ((a * K + co) * ?HW)) ?HW) ?src) (activated exp_d ?src K ?HW ?A co ?A)"
    by (rule loop_ok, simp add: activated_def volK, rule activate_two)
      (use pos in \<open>auto simp: K_def\<close>)
  then have 1: "ok (loop B (\<lambda>b. loop nn (activate_anchor exp_d c IW IH (int (IH * IW * nn * (cl + co + 1))) b)) ?src)
      (activated exp_d ?src K ?HW ?A co ?A)"
    unfolding loop_mult by (simp only: act [symmetric])
  have 2: "entry_index (int IW) (int IH) (coords c) (classes c) (int (IH * IW * nn * (cl + co + 1))) 0 0 (coords c + 1) =
      Some (int ((co + 1) * ?HW))"
    using entry_index_nat [OF pos(4), of co cl nn 0 0 "co + 1"] by (simp add: cfg add.commute [of 1 "int co"])
  have 3: "int (IH * IW * nn * (cl + co + 1)) sdiv num c = int (K * ?HW)"
  proof -
    have "int (IH * IW * nn * (cl + co + 1)) = int nn * int (K * ?HW)" by (simp add: K_def algebra_simps)
    then show ?thesis using pos(1) by (simp only: cfg signed_divide_int_def) (simp add: sgn_if)
  qed
  have 4: "ok (loop (nat (int B * num c)) (softmax_anchor exp_d bld c ?src IW IH (int ((co + 1) * ?HW)) (int (K * ?HW))) d)
      (normalised exp_d bld ?src K ?HW ?A co cl ?A)" if d: "activated exp_d ?src K ?HW ?A co ?A d" for d
  proof -
    have n: "nat (int B * num c) = ?A" by (simp add: cfg nat_mult_distrib)
    show ?thesis unfolding n
    proof (rule loop_ok [where I = "\<lambda>a. normalised exp_d bld ?src K ?HW ?A co cl a"])
      show "normalised exp_d bld ?src K ?HW ?A co cl 0 d"
        using d pos(3) by (auto simp: activated_def normalised_def region_value_def)
    next
      fix a d assume "a < ?A" "normalised exp_d bld ?src K ?HW ?A co cl a d"
      then show "ok (softmax_anchor exp_d bld c ?src IW IH (int ((co + 1) * ?HW)) (int (K * ?HW)) a d)
          (normalised exp_d bld ?src K ?HW ?A co cl (Suc a))"
        by (intro softmax_anchor_ok pos cfg volK) (simp_all add: K_def)
    qed
  qed
  obtain d1 where d1: "activated exp_d ?src K ?HW ?A co ?A d1"
    and r1: "loop B (\<lambda>b. loop nn (activate_anchor exp_d c IW IH (int (IH * IW * nn * (cl + co + 1))) b)) ?src = Some d1"
    using 1 by (auto elim!: okE simp del: of_nat_mult of_nat_add)
  obtain d2 where d2: "normalised exp_d bld ?src K ?HW ?A co cl ?A d2"
    and r2: "loop (nat (int B * num c)) (softmax_anchor exp_d bld c ?src IW IH (int ((co + 1) * ?HW)) (int (K * ?HW))) d1 = Some d2"
    using 4 [OF d1] by (auto elim!: okE simp del: of_nat_mult of_nat_add)
  have load: "loadu (B * (nn * K) * IH * IW) ?src 0 = Some ?src" by (simp add: loadu_def N)
  have copy: "blit (data out) 0 ?src = Some ?src" using volK by (simp add: blit_def put_all)
  have ext: "dim_or_one (dims inp) 3 = IW" "dim_or_one (dims inp) 2 = IH" "dim_or_one (dims inp) 1 = nn * K"
      "dim_or_one (dims inp) 0 = B"
    by (simp_all add: dim_or_one_def dims K_def)
  have nn: "nat (num c) = nn" "num c \<noteq> 0" using cfg pos(1) by simp_all
  have "region_execute exp_d bld c inp out = Some (OK, out\<lparr>data := d2\<rparr>)"
    unfolding region_execute_def Let_def ext isz load copy nn(1) 2 3 r1 r2 Option.bind.bind_lunit if_not_P [OF nn(2)] ..
  then show ?thesis
    unfolding K_def [symmetric] using d2 by (intro exI [of _ d2]) (simp add: normalised_def element_def volK)
qed

theorem region_execute_spec_witness:
  "\<exists>d. region_execute (\<lambda>_. Fin 1) SSE \<lparr>classes = 1, coords = 2, num = 1\<rparr>
      \<lparr>dims = [1, 4, 1, 1], data = [Fin 1, Fin 2, Fin 3, Fin 4]\<rparr> \<lparr>dims = [1, 4], data = [NaN, NaN, NaN, NaN]\<rparr> =
    Some (OK, \<lparr>dims = [1, 4], data = d\<rparr>) \<and> length d = 4"
  using region_execute_spec [of "\<lparr>dims = [1, 4, 1, 1], data = [Fin 1, Fin 2, Fin 3, Fin 4]\<rparr>" 1 1 1 2 1 1
      "\<lparr>classes = 1, coords = 2, num = 1\<rparr>" "\<lparr>dims = [1, 4], data = [NaN, NaN, NaN, NaN]\<rparr>" "\<lambda>_. Fin 1" SSE]
  by auto

end
