(* ===== verification/Prior_Box.thy ===== *)
theory Prior_Box
  imports Ext_Base
begin

text \<open>
  The \<open>PriorBox\<close> layer (\<open>extension/ext_priorbox.cpp\<close>): for every cell of the feature map the
  boxes of all sizes and aspect ratios, followed by their variances.

  \<open>fabs\<close> and \<open>sqrt\<close> are the functions on \<open>double\<close> that the unqualified calls name.
\<close>

section \<open>The constructor\<close>

record prior_cfg =
  offset :: ieee
  step :: ieee
  min_sizes :: "ieee list"
  max_sizes :: "ieee list"
  flip :: bool
  clip :: bool
  aspect_ratios :: "ieee list"
  variance :: "ieee list"
  num_priors :: int

text \<open>The literal \<open>1e-6\<close>, a \<open>double\<close>.\<close>

definition tiny :: ieee where
  "tiny = mk b64 False (1 / 10 ^ 6)"

definition near :: "ieee \<Rightarrow> ieee \<Rightarrow> bool" where
  "near a b \<longleftrightarrow> flt (fabs (subf a b)) tiny"

text \<open>One aspect ratio of the network: skipped if it is there already.\<close>

definition add_ratio :: "bool \<Rightarrow> ieee \<Rightarrow> ieee list \<Rightarrow> ieee list" where
  "add_ratio flp ar rs =
     (if list_ex (near ar) rs then rs
      else rs @ [ar] @ (if flp then [if flt tiny (fabs ar) then divf (Fin 1) ar else Fin (10 ^ 6)] else []))"

definition check_variance :: "ieee list \<Rightarrow> exn + ieee list" where
  "check_variance vs =
     (if length vs = 1 \<or> length vs = 4 then
        (if list_ex (\<lambda>v. flt v (Fin 0)) vs then Inl (IeException ''Variance must be > 0.'') else Inr vs)
      else if vs = [] then Inr [mk b32 False (1 / 10)]
      else Inl (IeException ''Wrong number of variance values. Not less than 1 and more than 4 variance values.''))"

definition prior_ctor :: "ie_lib \<Rightarrow> cnn_layer \<Rightarrow> exn + prior_cfg \<times> layer_config list" where
  "prior_ctor lib L =
     ebind (throw_if (length (insData L) \<noteq> 2 \<or> outData L = [])
       ''Incorrect number of input/output edges!'') (\<lambda>_.
     ebind (get_param (p_float L ''offset'')) (\<lambda>off.
     ebind (get_param_def (p_float L ''step'') (Fin 0)) (\<lambda>st.
     ebind (get_param_def (p_floats L ''min_size'') []) (\<lambda>mins.
     ebind (get_param_def (p_floats L ''max_size'') []) (\<lambda>maxs.
     ebind (get_param (p_int L ''flip'')) (\<lambda>fl.
     ebind (get_param (p_int L ''clip'')) (\<lambda>cl.
     ebind (get_param_def (p_floats L ''aspect_ratio'') []) (\<lambda>ars.
     let rs = fold (add_ratio (fl \<noteq> 0)) ars [Fin 1]; n = length rs * length mins + length maxs in
     ebind (get_param_def (p_floats L ''variance'') []) (\<lambda>vs.
     ebind (check_variance vs) (\<lambda>vs.
     ebind (addConfig lib L [] [conf3 ANY True (-1), conf3 ANY True (-1)] [conf3 PLN True (-1)] False) (\<lambda>cs.
     Inr (\<lparr>offset = off, step = st, min_sizes = mins, max_sizes = maxs, flip = (fl \<noteq> 0), clip = (cl \<noteq> 0),
       aspect_ratios = rs, variance = vs, num_priors = int n\<rparr>, cs))))))))))))"

section \<open>The boxes\<close>

text \<open>Writes at a running index.\<close>

definition emit :: "ieee \<Rightarrow> nat \<times> ieee list \<Rightarrow> (nat \<times> ieee list) option" where
  "emit v = (\<lambda>(idx, dst). map_option (\<lambda>d. (idx + 1, d)) (wr dst idx v))"

definition emit_box ::
    "int \<Rightarrow> int \<Rightarrow> ieee \<Rightarrow> ieee \<Rightarrow> ieee \<Rightarrow> ieee \<Rightarrow> nat \<times> ieee list \<Rightarrow> (nat \<times> ieee list) option" where
  "emit_box IW IH center_x center_y box_width box_height s = do {
     s \<leftarrow> emit (divf (subf center_x (divf box_width (Fin 2))) (i2f IW)) s;
     s \<leftarrow> emit (divf (subf center_y (divf box_height (Fin 2))) (i2f IH)) s;
     s \<leftarrow> emit (divf (addf center_x (divf box_width (Fin 2))) (i2f IW)) s;
     emit (divf (addf center_y (divf box_height (Fin 2))) (i2f IH)) s
   }"

definition center :: "prior_cfg \<Rightarrow> ieee \<Rightarrow> nat \<Rightarrow> ieee" where
  "center c stp k =
     (if feq (step c) (Fin 0) then mulf (addf (n2f k) (Fin (1/2))) stp
      else mulf (addf (offset c) (n2f k)) (step c))"

primrec for_each :: "('a \<Rightarrow> 's \<Rightarrow> 's option) \<Rightarrow> 'a list \<Rightarrow> 's \<Rightarrow> 's option" where
  "for_each f [] s = Some s"
| "for_each f (x # xs) s = f x s \<bind> for_each f xs"

definition emit_ratio ::
    "int \<Rightarrow> int \<Rightarrow> ieee \<Rightarrow> ieee \<Rightarrow> ieee \<Rightarrow> ieee \<Rightarrow> nat \<times> ieee list \<Rightarrow> (nat \<times> ieee list) option" where
  "emit_ratio IW IH center_x center_y m ar s =
     (if near ar (Fin 1) then Some s
      else emit_box IW IH center_x center_y (cvt b32 (muld m (fsqrt b64 ar))) (cvt b32 (divd m (fsqrt b64 ar))) s)"

definition emit_size ::
    "prior_cfg \<Rightarrow> int \<Rightarrow> int \<Rightarrow> ieee \<Rightarrow> ieee \<Rightarrow> nat \<Rightarrow> nat \<Rightarrow> nat \<Rightarrow> nat \<times> ieee list \<Rightarrow> (nat \<times> ieee list) option" where
  "emit_size c IW IH step_x step_y h w msIdx s = do {
     let center_x = center c step_x w; center_y = center c step_y h in do {
     m \<leftarrow> rd (min_sizes c) msIdx;
     s \<leftarrow> emit_box IW IH center_x center_y m m s;
     s \<leftarrow> (if msIdx < length (max_sizes c) then do {
         mx \<leftarrow> rd (max_sizes c) msIdx;
         let b = cvt b32 (fsqrt b64 (mulf m mx)) in emit_box IW IH center_x center_y b b s
       } else Some s);
     for_each (emit_ratio IW IH center_x center_y m) (aspect_ratios c) s
   } }"

definition clip01 :: "ieee \<Rightarrow> ieee" where
  "clip01 v = cmin (cmax v (Fin 0)) (Fin 1)"

definition clip_all :: "int \<Rightarrow> ieee list \<Rightarrow> ieee list option" where
  "clip_all n dst = loop (nat n) (\<lambda>d dst. do { v \<leftarrow> rd dst d; wr dst d (clip01 v) }) dst"

definition write_variance ::
    "prior_cfg \<Rightarrow> nat \<Rightarrow> nat \<Rightarrow> nat \<Rightarrow> ieee list \<Rightarrow> ieee list option" where
  "write_variance c H W channel_size dst =
     (if length (variance c) = 1
      then loop channel_size (\<lambda>i dst. wr dst (channel_size + i) (variance c ! 0)) dst
      else map_option snd
        (loop H (\<lambda>_. loop W (\<lambda>_. loop (nat (num_priors c)) (\<lambda>_. loop 4 (\<lambda>j (count, dst). do {
           v \<leftarrow> rd (variance c) j;
           dst \<leftarrow> wr dst (channel_size + count) v;
           Some (count + 1, dst) })))) (0, dst)))"

definition prior_execute :: "prior_cfg \<Rightarrow> blob list \<Rightarrow> blob list \<Rightarrow> (status \<times> blob list) option" where
  "prior_execute c inputs outputs =
     (if length inputs \<noteq> 2 \<or> outputs = [] then Some (GENERAL_ERROR, outputs)
      else do {
        W \<leftarrow> rd (dims (inputs ! 0)) 3;
        H \<leftarrow> rd (dims (inputs ! 0)) 2;
        IW \<leftarrow> rd (dims (inputs ! 1)) 3;
        IH \<leftarrow> rd (dims (inputs ! 1)) 2;
        OH \<leftarrow> rd (dims (outputs ! 0)) 2;
        OW \<leftarrow> (if length (dims (outputs ! 0)) = 3 then Some 1 else rd (dims (outputs ! 0)) 3);
        let (step_x, step_y) =
          (if feq (step c) (Fin 0) then (divf (n2f IW) (n2f W), divf (n2f IH) (n2f H)) else (step c, step c)) in do {
        (_, dst) \<leftarrow> loop H (\<lambda>h. loop W (\<lambda>w. loop (length (min_sizes c))
          (emit_size c (int IW) (int IH) step_x step_y h w))) (0, data (outputs ! 0));
        dst \<leftarrow> (if clip c then clip_all (int H * int W * num_priors c * 4) dst else Some dst);
        dst \<leftarrow> write_variance c H W (OH * OW) dst;
        Some (OK, (outputs ! 0)\<lparr>data := dst\<rparr> # tl outputs)
      } })"

section \<open>Code that appends to the output\<close>

text \<open>
  \<open>emits p f ys\<close>: \<open>f\<close> writes \<open>ys\<close> at the running index, counted from \<open>p\<close>, if there is
  room, and moves it.
\<close>

definition emits :: "nat \<Rightarrow> (nat \<times> ieee list \<Rightarrow> (nat \<times> ieee list) option) \<Rightarrow> ieee list \<Rightarrow> bool" where
  "emits p f ys \<longleftrightarrow> (\<forall>idx dst. p + idx + length ys \<le> length dst \<longrightarrow>
     f (idx, dst) = Some (idx + length ys, put dst (p + idx) ys))"

named_theorems emits "what code appends"

lemma emits_emit [emits]: "emits 0 (emit v) [v]"
  by (simp add: emits_def emit_def wr_def put_single)

lemma emits_Some [emits]: "emits p Some []"
  by (simp add: emits_def)

lemma emits_bind: "emits p f ys \<Longrightarrow> emits p g zs \<Longrightarrow> emits p (\<lambda>s. f s \<bind> g) (ys @ zs)"
  by (simp add: emits_def put_app add.assoc [symmetric])

lemma emits_loop:
  assumes "\<And>i. i < n \<Longrightarrow> emits p (f i) (g i)"
  shows "emits p (loop n f) (concat (map g [0..<n]))"
  using assms
proof (induction n)
  case (Suc n)
  have "emits p (\<lambda>s. loop n f s \<bind> f n) (concat (map g [0..<n]) @ g n)"
    using Suc by (intro emits_bind) auto
  then show ?case by (simp add: emits_def)
qed (simp add: emits_def)

lemma emits_for_each:
  "(\<And>x. x \<in> set xs \<Longrightarrow> emits p (f x) (g x)) \<Longrightarrow> emits p (for_each f xs) (concat (map g xs))"
proof (induction xs)
  case (Cons x xs)
  have "emits p (\<lambda>s. f x s \<bind> for_each f xs) (g x @ concat (map g xs))"
    using Cons by (intro emits_bind) auto
  then show ?case by (simp add: emits_def)
qed (simp add: emits_def)

text \<open>The box of a centre and a size, and the boxes of a size and of a cell.\<close>

definition box4 :: "int \<Rightarrow> int \<Rightarrow> ieee \<Rightarrow> ieee \<Rightarrow> ieee \<Rightarrow> ieee \<Rightarrow> ieee list" where
  "box4 IW IH cx cy bw bh =
     [divf (subf cx (divf bw (Fin 2))) (i2f IW), divf (subf cy (divf bh (Fin 2))) (i2f IH),
      divf (addf cx (divf bw (Fin 2))) (i2f IW), divf (addf cy (divf bh (Fin 2))) (i2f IH)]"

definition ratio_boxes :: "int \<Rightarrow> int \<Rightarrow> ieee \<Rightarrow> ieee \<Rightarrow> ieee \<Rightarrow> ieee \<Rightarrow> ieee list" where
  "ratio_boxes IW IH cx cy m ar = (if near ar (Fin 1) then []
     else box4 IW IH cx cy (cvt b32 (muld m (fsqrt b64 ar))) (cvt b32 (divd m (fsqrt b64 ar))))"

definition size_boxes :: "prior_cfg \<Rightarrow> int \<Rightarrow> int \<Rightarrow> ieee \<Rightarrow> ieee \<Rightarrow> nat \<Rightarrow> ieee list" where
  "size_boxes c IW IH cx cy k =
     (let m = min_sizes c ! k; b = cvt b32 (fsqrt b64 (mulf m (max_sizes c ! k))) in
      box4 IW IH cx cy m m @
      (if k < length (max_sizes c) then box4 IW IH cx cy b b else []) @
      concat (map (ratio_boxes IW IH cx cy m) (aspect_ratios c)))"

lemma emits_box: "emits 0 (emit_box IW IH cx cy bw bh) (box4 IW IH cx cy bw bh)"
proof -
  have "emits 0 (\<lambda>s. emit v1 s \<bind> (\<lambda>s. emit v2 s \<bind> (\<lambda>s. emit v3 s \<bind> emit v4))) ([v1] @ [v2] @ [v3] @ [v4])" for v1 v2 v3 v4
    by (intro emits_bind emits)
  then show ?thesis by (simp add: emits_def emit_box_def box4_def)
qed

lemma emits_size:
  assumes "k < length (min_sizes c)"
  shows "emits 0 (emit_size c IW IH sx sy h w k) (size_boxes c IW IH (center c sx w) (center c sy h) k)"
proof -
  let ?cx = "center c sx w" and ?cy = "center c sy h" and ?m = "min_sizes c ! k"
  let ?b = "cvt b32 (fsqrt b64 (mulf ?m (max_sizes c ! k)))"
  have ratio: "emits 0 (emit_ratio IW IH ?cx ?cy ?m ar) (ratio_boxes IW IH ?cx ?cy ?m ar)" for ar
    using emits_box [of IW IH ?cx ?cy] emits_Some
    by (auto simp: ratio_boxes_def emits_def emit_ratio_def)
  have "emits 0 (\<lambda>s. emit_box IW IH ?cx ?cy ?m ?m s \<bind> (\<lambda>s.
      (if k < length (max_sizes c) then emit_box IW IH ?cx ?cy ?b ?b s else Some s) \<bind>
      for_each (emit_ratio IW IH ?cx ?cy ?m) (aspect_ratios c)))
      (size_boxes c IW IH ?cx ?cy k)"
    unfolding size_boxes_def Let_def
  proof (intro emits_bind emits_box emits_for_each ratio)
    show "emits 0 (\<lambda>s. if k < length (max_sizes c) then emit_box IW IH ?cx ?cy ?b ?b s else Some s)
        (if k < length (max_sizes c) then box4 IW IH ?cx ?cy ?b ?b else [])"
      using emits_box emits_Some by (simp add: emits_def)
  qed
  moreover have "emit_size c IW IH sx sy h w k s = emit_box IW IH ?cx ?cy ?m ?m s \<bind> (\<lambda>s.
      (if k < length (max_sizes c) then emit_box IW IH ?cx ?cy ?b ?b s else Some s) \<bind>
      for_each (emit_ratio IW IH ?cx ?cy ?m) (aspect_ratios c))" for s
    using assms by (simp add: emit_size_def rd_Some Let_def cong: if_cong)
  ultimately show ?thesis by (simp add: emits_def)
qed

section \<open>The whole layer\<close>

text \<open>All boxes, cell by cell, and all variances.\<close>

definition all_boxes :: "prior_cfg \<Rightarrow> nat \<Rightarrow> nat \<Rightarrow> int \<Rightarrow> int \<Rightarrow> ieee \<Rightarrow> ieee \<Rightarrow> ieee list" where
  "all_boxes c H W IW IH sx sy =
     concat (map (\<lambda>h. concat (map (\<lambda>w. concat (map (size_boxes c IW IH (center c sx w) (center c sy h))
       [0..<length (min_sizes c)])) [0..<W])) [0..<H])"

definition all_variances :: "prior_cfg \<Rightarrow> nat \<Rightarrow> nat \<Rightarrow> ieee list" where
  "all_variances c cells n = (if length (variance c) = 1 then replicate n (variance c ! 0)
     else concat (replicate (cells * nat (num_priors c)) (variance c)))"

text \<open>What the constructor establishes.\<close>

definition prior_ok :: "prior_cfg \<Rightarrow> bool" where
  "prior_ok c \<longleftrightarrow> num_priors c = int (length (aspect_ratios c) * length (min_sizes c) + length (max_sizes c)) \<and>
     (length (variance c) = 1 \<or> length (variance c) = 4) \<and> list_all (\<lambda>v. \<not> flt v (Fin 0)) (variance c) \<and>
     (\<exists>rs. aspect_ratios c = Fin 1 # rs \<and> (\<not> flip c \<longrightarrow> list_all (\<lambda>r. \<not> near r (Fin 1)) rs))"

lemma add_ratio_shape:
  assumes "\<exists>r. rs = Fin 1 # r \<and> (\<not> flp \<longrightarrow> list_all (\<lambda>r. \<not> near r (Fin 1)) r)"
  shows "\<exists>r. add_ratio flp ar rs = Fin 1 # r \<and> (\<not> flp \<longrightarrow> list_all (\<lambda>r. \<not> near r (Fin 1)) r)"
  using assms by (auto simp: add_ratio_def)

lemma ratios_shape:
  assumes "\<exists>r. rs = Fin 1 # r \<and> (\<not> flp \<longrightarrow> list_all (\<lambda>r. \<not> near r (Fin 1)) r)"
  shows "\<exists>r. fold (add_ratio flp) ars rs = Fin 1 # r \<and> (\<not> flp \<longrightarrow> list_all (\<lambda>r. \<not> near r (Fin 1)) r)"
  using assms
proof (induction ars arbitrary: rs)
  case (Cons ar ars)
  show ?case unfolding fold_simps by (rule Cons.IH) (rule add_ratio_shape [OF Cons.prems])
qed simp

lemma check_variance_ok:
  "check_variance vs = Inr ws \<Longrightarrow>
   (length ws = 1 \<or> length ws = 4) \<and> list_all (\<lambda>v. \<not> flt v (Fin 0)) ws"
proof -
  have "\<not> flt (mk b32 False (1 / 10)) (Fin 0)"
    using mk_mono [of b32 0 "1 / 10" False False] by (auto simp: zero_def dest: fle_not_flt)
  then show "check_variance vs = Inr ws \<Longrightarrow> ?thesis"
    by (auto simp: check_variance_def list_ex_iff list_all_iff split: if_splits)
qed

text \<open>
  A constructed layer counts its priors as ratios times minimum sizes plus maximum
  sizes, has one or four non-negative variances, and its ratios start with 1; without
  \<open>flip\<close> no other ratio is near 1.
\<close>

theorem prior_ctor_ok:
  assumes "prior_ctor lib L = Inr (c, cs)"
  shows "prior_ok c"
proof -
  obtain off st mins maxs fl cl ars vs ws where v: "check_variance vs = Inr ws"
    and c: "c = \<lparr>offset = off, step = st, min_sizes = mins, max_sizes = maxs, flip = fl, clip = cl,
      aspect_ratios = fold (add_ratio fl) ars [Fin 1], variance = ws,
      num_priors = int (length (fold (add_ratio fl) ars [Fin 1]) * length mins + length maxs)\<rparr>"
    using assms unfolding prior_ctor_def Let_def ebind_eq_Inr by blast
  show ?thesis
    using check_variance_ok [OF v] ratios_shape [of "[Fin 1]" fl ars] by (simp add: prior_ok_def c)
qed

text \<open>Every size contributes its square, the square towards its maximum, and the other ratios.\<close>

lemma length_box4 [simp]: "length (box4 IW IH cx cy bw bh) = 4"
  by (simp add: box4_def)

lemma length_size_boxes:
  "length (size_boxes c IW IH cx cy k) =
     4 * (1 + (if k < length (max_sizes c) then 1 else 0) + length (filter (\<lambda>r. \<not> near r (Fin 1)) (aspect_ratios c)))"
proof -
  have "length (concat (map (ratio_boxes IW IH cx cy m) rs)) = 4 * length (filter (\<lambda>r. \<not> near r (Fin 1)) rs)" for m rs
    by (induction rs) (simp_all add: ratio_boxes_def)
  then show ?thesis by (simp add: size_boxes_def Let_def)
qed

lemma near_self [simp]: "near (Fin 1) (Fin 1)"
proof -
  have "representable b64 (1 / 2 ^ 20)"
    unfolding representable_def
    by (rule exI [of _ 1], rule exI [of _ "-20"]) (simp add: b64_def power_int_def power_divide)
  then have "rnd b64 (1 / 2 ^ 20) = 1 / 2 ^ 20" by (intro rnd_representable) simp_all
  moreover have "rnd b64 (1 / 2 ^ 20) \<le> rnd b64 (1 / 10 ^ 6)" by (intro rnd_mono) simp_all
  ultimately have "0 < rnd b64 (1 / 10 ^ 6)" by simp
  then show ?thesis by (simp add: near_def tiny_def fsub_def mk_def flt_def zero_def Let_def)
qed

lemma emits_variance:
  assumes "\<not> length (variance c) = 1" and "length (variance c) = 4"
  shows "emits p (loop H (\<lambda>_. loop W (\<lambda>_. loop n (\<lambda>_. loop 4 (\<lambda>j (count, dst). do {
      v \<leftarrow> rd (variance c) j;
      dst \<leftarrow> wr dst (p + count) v;
      Some (count + 1, dst) }))))) (concat (replicate (H * W * n) (variance c)))"
proof -
  have one: "emits p (\<lambda>(count, dst). do { v \<leftarrow> rd (variance c) j; dst \<leftarrow> wr dst (p + count) v; Some (count + 1, dst) })
      [variance c ! j]" if "j < 4" for j
    using that assms by (simp add: emits_def rd_Some wr_Some put_single)
  have "map ((!) (variance c)) [0..<4] = variance c"
    using map_nth [of "variance c"] unfolding assms(2) .
  then have four: "concat (map (\<lambda>j. [variance c ! j]) [0..<4]) = variance c"
    by (simp only: concat_map_singleton)
  have "emits p (loop H (\<lambda>_. loop W (\<lambda>_. loop n (\<lambda>_. loop 4 (\<lambda>j (count, dst). do {
      v \<leftarrow> rd (variance c) j; dst \<leftarrow> wr dst (p + count) v; Some (count + 1, dst) })))))
      (concat (map (\<lambda>_. concat (map (\<lambda>_. concat (map (\<lambda>_. concat (map (\<lambda>j. [variance c ! j]) [0..<4]))
        [0..<n])) [0..<W])) [0..<H]))"
    by (intro emits_loop one)
  moreover have rep: "concat (map (\<lambda>_. concat (replicate a xs)) [0..<b]) = concat (replicate (b * a) xs)"
    for a b and xs :: "ieee list"
  proof (induction b)
    case (Suc b)
    have "concat (replicate (Suc b * a) xs) = concat (replicate (b * a + a) xs)" by (simp add: add.commute)
    then show ?case using Suc by (simp add: replicate_add)
  qed simp
  moreover have "concat (map (\<lambda>_. variance c) [0..<n]) = concat (replicate n (variance c))"
    by (simp add: map_replicate_const)
  ultimately show ?thesis unfolding four by (simp only: rep mult.assoc)
qed

lemma clip_all_eq:
  assumes "n \<le> length dst"
  shows "clip_all (int n) dst = Some (put dst 0 (map clip01 (take n dst)))"
proof -
  have "ok (clip_all (int n) dst) (\<lambda>d. d = put dst 0 (map clip01 (take n dst)))"
    unfolding clip_all_def nat_int
  proof (rule loop_ok [where I = "\<lambda>i d. d = put dst 0 (map clip01 (take i dst))"])
    fix i d assume i: "i < n" and d: "d = put dst 0 (map clip01 (take i dst))"
    have "rd d i = Some (dst ! i)"
      using assms i nth_put_other [of 0 "map clip01 (take i dst)" dst i] by (simp add: d rd_Some)
    moreover have "wr d i v = Some (put dst 0 (map clip01 (take i dst) @ [v]))" for v
      using assms i wr_put [of 0 "map clip01 (take i dst)" dst v] by (simp add: d)
    ultimately show "ok (rd d i \<bind> (\<lambda>v. wr d i (clip01 v))) (\<lambda>d. d = put dst 0 (map clip01 (take (Suc i) dst)))"
      using assms i by (simp add: take_Suc_conv_app_nth)
  qed simp
  then show ?thesis by (simp add: ok_eq_Some)
qed

text \<open>
  For a constructed layer with one ratio near 1 and at most as many maximum as minimum
  sizes, on tensors of the promised sizes, the layer stays inside its buffers, returns OK
  and fills the output with all boxes, cell by cell, clipped if asked for, followed by all
  variances.
\<close>

theorem prior_execute_spec:
  assumes c: "prior_ok c" "length (max_sizes c) \<le> length (min_sizes c)"
      "length (filter (\<lambda>r. \<not> near r (Fin 1)) (aspect_ratios c)) + 1 = length (aspect_ratios c)"
    and dims: "dims inp = [b, ch, H, W]" "dims img = [b', ch', IH, IW]" "dims out = [1, 2, n]"
    and n: "n = H * W * nat (num_priors c) * 4" and vol: "length (data out) = 2 * n"
  shows "let (sx, sy) = (if feq (step c) (Fin 0) then (divf (n2f IW) (n2f W), divf (n2f IH) (n2f H)) else (step c, step c));
      boxes = all_boxes c H W (int IW) (int IH) sx sy in
    length boxes = n \<and> prior_execute c [inp, img] [out] =
      Some (OK, [out\<lparr>data := (if clip c then map clip01 boxes else boxes) @ all_variances c (H * W) n\<rparr>])"
proof -
  let ?s = "if feq (step c) (Fin 0) then (divf (n2f IW) (n2f W), divf (n2f IH) (n2f H)) else (step c, step c)"
  obtain sx sy where s: "?s = (sx, sy)" by (cases ?s)
  let ?B = "all_boxes c H W (int IW) (int IH) sx sy" and ?np = "nat (num_priors c)"
  let ?cell = "\<lambda>h w. concat (map (size_boxes c (int IW) (int IH) (center c sx w) (center c sy h)) [0..<length (min_sizes c)])"
  have cell: "length (?cell h w) = ?np * 4" for h w
  proof -
    have "length (?cell h w) = (\<Sum>k < length (min_sizes c). 4 * (if k < length (max_sizes c) then 1 else 0) + 4 * length (aspect_ratios c))"
      using c(3) by (simp add: c(3) [symmetric] algebra_simps length_concat length_size_boxes comp_def interv_sum_list_conv_sum_set_nat atLeast0LessThan)
    also have "\<dots> = 4 * length (max_sizes c) + 4 * (length (min_sizes c) * length (aspect_ratios c))"
      using c(2) by (simp add: sum.distrib sum_distrib_left [symmetric] sum.If_cases Int_absorb1 lessThan_def [symmetric]
          Collect_conj_eq [symmetric] Int_commute)
        (simp add: Int_absorb2)
    finally show ?thesis using c(1) by (simp add: prior_ok_def nat_add_distrib nat_mult_distrib algebra_simps)
  qed
  have len: "length ?B = n"
    unfolding all_boxes_def n by (simp add: length_concat_same cell mult.assoc)
  have run: "loop H (\<lambda>h. loop W (\<lambda>w. loop (length (min_sizes c)) (emit_size c (int IW) (int IH) sx sy h w))) (0, data out) =
      Some (n, put (data out) 0 ?B)"
  proof -
    have "emits 0 (loop H (\<lambda>h. loop W (\<lambda>w. loop (length (min_sizes c)) (emit_size c (int IW) (int IH) sx sy h w)))) ?B"
      unfolding all_boxes_def by (intro emits_loop emits_size)
    then show ?thesis using len vol by (simp add: emits_def)
  qed
  define bs where "bs = (if clip c then map clip01 ?B else ?B)"
  have lbs: "length bs = n" using len by (simp add: bs_def)
  have clip: "(if clip c then clip_all (int H * int W * num_priors c * 4) (put (data out) 0 ?B) else Some (put (data out) 0 ?B)) =
      Some (put (data out) 0 bs)"
  proof -
    have "int H * int W * num_priors c * 4 = int n" using c(1) by (simp add: n prior_ok_def)
    moreover have "take n (put (data out) 0 ?B) = ?B" using len by (simp add: put_def)
    ultimately show ?thesis
      using clip_all_eq [of n "put (data out) 0 ?B"] len vol by (simp add: bs_def put_def)
  qed
  have lv: "length (all_variances c (H * W) n) = n"
    using c(1) by (auto simp: all_variances_def prior_ok_def length_concat n sum_list_replicate mult.assoc)
  have "write_variance c H W (n * 1) (put (data out) 0 bs) = Some (put (put (data out) 0 bs) n (all_variances c (H * W) n))"
  proof (cases "length (variance c) = 1")
    case True
    have "loop n (\<lambda>i dst. wr dst (n + i) (variance c ! 0)) (put (data out) 0 bs) =
        Some (put (put (data out) 0 bs) n (map (\<lambda>_. variance c ! 0) [0..<n]))"
      using lbs vol by (intro loop_wr) (simp_all add: wr_Some)
    then show ?thesis using True by (simp add: write_variance_def all_variances_def map_replicate_const)
  next
    case False
    then have v: "length (variance c) = 4" using c(1) by (simp add: prior_ok_def)
    show ?thesis
      using emits_variance [OF False v, of n H W ?np] False lv lbs vol
      by (simp add: write_variance_def all_variances_def emits_def)
  qed
  moreover have "put (put (data out) 0 bs) n (all_variances c (H * W) n) = bs @ all_variances c (H * W) n"
    using lbs lv vol by (simp add: put_def)
  ultimately have "prior_execute c [inp, img] [out] = Some (OK, [out\<lparr>data := bs @ all_variances c (H * W) n\<rparr>])"
    using run clip by (simp add: prior_execute_def dims rd_def s)
  then show ?thesis unfolding s Let_def prod.case by (simp add: len bs_def)
qed

definition prior_layer :: cnn_layer where
  "prior_layer = \<lparr>ltype = ''PriorBox'', insData = [Some [1, 8, 1, 1], Some [1, 3, 4, 4]], outData = [Some [1, 2, 4]],
     p_int = (\<lambda>_. Given 0), p_bool = (\<lambda>_. Absent), p_float = (\<lambda>_. Given (Fin (1/2))),
     p_floats = (\<lambda>_. Absent)(''min_size'' := Given [Fin 2]), p_str = (\<lambda>_. Absent), p_raw = (\<lambda>_. None),
     weights_blob = None\<rparr>"

theorem prior_ctor_ok_witness:
  "\<exists>c cs. prior_ctor ref_lib prior_layer = Inr (c, cs) \<and> prior_ok c \<and> num_priors c = 1"
proof -
  obtain c cs where r: "prior_ctor ref_lib prior_layer = Inr (c, cs)" and n: "num_priors c = 1"
    by (simp add: prior_ctor_def prior_layer_def addConfig_def fill_port_def conf3_def Let_def check_variance_def)
  then show ?thesis using prior_ctor_ok [OF r] by blast
qed

definition small_prior :: prior_cfg where
  "small_prior = \<lparr>offset = Fin (1/2), step = Fin 0, min_sizes = [Fin 2], max_sizes = [], flip = False, clip = True,
     aspect_ratios = [Fin 1], variance = [Fin 1], num_priors = 1\<rparr>"

theorem prior_execute_spec_witness:
  "\<exists>boxes vs. length boxes = 4 \<and>
     prior_execute small_prior [\<lparr>dims = [1, 8, 1, 1], data = []\<rparr>, \<lparr>dims = [1, 3, 4, 4], data = []\<rparr>]
       [\<lparr>dims = [1, 2, 4], data = replicate 8 NaN\<rparr>] =
     Some (OK, [\<lparr>dims = [1, 2, 4], data = map clip01 boxes @ vs\<rparr>])"
proof -
  have p: "prior_ok small_prior" by (simp add: prior_ok_def small_prior_def flt_def)
  show ?thesis
    using prior_execute_spec [OF p, of "\<lparr>dims = [1, 8, 1, 1], data = []\<rparr>" 1 8 1 1 "\<lparr>dims = [1, 3, 4, 4], data = []\<rparr>" 1 3 4 4
        "\<lparr>dims = [1, 2, 4], data = replicate 8 NaN\<rparr>" 4]
    by (auto simp: small_prior_def Let_def split: prod.splits if_splits)
qed

end
