(* ===== verification/Prior_Clustered.thy ===== *)
theory Prior_Clustered
  imports Ext_Base
begin

text \<open>
  The \<open>PriorBoxClustered\<close> layer (\<open>extension/ext_priorbox_clustered.cpp\<close>): per cell one box
  of every width and height, in double precision rounded to \<open>float\<close>, and the variances in
  the second channel of the output.
\<close>

section \<open>The layer\<close>

record clustered_cfg =
  widths :: "ieee list"
  heights :: "ieee list"
  clip :: int
  variance :: "ieee list"
  img_h :: int
  img_w :: int
  step :: ieee
  step_h :: ieee
  step_w :: ieee
  offset :: ieee

definition clustered_ctor :: "ie_lib \<Rightarrow> cnn_layer \<Rightarrow> exn + clustered_cfg \<times> layer_config list" where
  "clustered_ctor lib L =
     ebind (throw_if (length (insData L) \<noteq> 2 \<or> outData L = [])
       ''Incorrect number of input/output edges!'') (\<lambda>_.
     ebind (get_param_def (p_floats L ''width'') []) (\<lambda>ws.
     ebind (get_param_def (p_floats L ''height'') []) (\<lambda>hs.
     ebind (get_param (p_int L ''clip'')) (\<lambda>cl.
     ebind (get_param_def (p_floats L ''variance'') []) (\<lambda>vs.
     ebind (get_param_def (p_int L ''img_h'') 0) (\<lambda>ih.
     ebind (get_param_def (p_int L ''img_w'') 0) (\<lambda>iw.
     ebind (get_param_def (p_float L ''step'') (Fin 0)) (\<lambda>st.
     ebind (get_param_def (p_float L ''step_h'') (Fin 0)) (\<lambda>sh.
     ebind (get_param_def (p_float L ''step_w'') (Fin 0)) (\<lambda>sw.
     ebind (get_param (p_float L ''offset'')) (\<lambda>off.
     ebind (addConfig lib L [] [conf3 PLN True (-1), conf3 PLN True (-1)] [conf3 PLN True (-1)] False) (\<lambda>cs.
     Inr (\<lparr>widths = ws, heights = hs, clip = cl, variance = vs, img_h = ih, img_w = iw, step = st,
       step_h = sh, step_w = sw, offset = off\<rparr>, cs)))))))))))))"

definition unit_clip :: "int \<Rightarrow> ieee \<Rightarrow> ieee" where
  "unit_clip cl v = (if cl \<noteq> 0 then cmin (cmax v (Fin 0)) (Fin 1) else v)"

text \<open>\<open>(center \<plusminus> size / 2.) / image\<close>, computed in \<open>double\<close>.\<close>

definition edge :: "(ieee \<Rightarrow> ieee \<Rightarrow> ieee) \<Rightarrow> ieee \<Rightarrow> ieee \<Rightarrow> int \<Rightarrow> ieee" where
  "edge f center_v size_v img_size = cvt b32 (divd (f center_v (divd size_v (Fin 2))) (of_z b64 img_size))"

definition store_prior ::
    "clustered_cfg \<Rightarrow> int \<Rightarrow> int \<Rightarrow> ieee \<Rightarrow> ieee \<Rightarrow> nat \<Rightarrow> nat \<Rightarrow> nat \<Rightarrow> nat \<Rightarrow> nat \<Rightarrow> nat \<Rightarrow> ieee list \<Rightarrow> ieee list option" where
  "store_prior c img_width img_height center_x center_y top1 layer_width np h w s dst = do {
     box_width \<leftarrow> rd (widths c) s;
     box_height \<leftarrow> rd (heights c) s;
     let xmin = unit_clip (clip c) (edge subd center_x box_width img_width);
         ymin = unit_clip (clip c) (edge subd center_y box_height img_height);
         xmax = unit_clip (clip c) (edge addd center_x box_width img_width);
         ymax = unit_clip (clip c) (edge addd center_y box_height img_height);
         p = h * layer_width * np * 4 + w * np * 4 + s * 4; var_size = length (variance c) in do {
     dst \<leftarrow> wr dst (p + 0) xmin;
     dst \<leftarrow> wr dst (p + 1) ymin;
     dst \<leftarrow> wr dst (p + 2) xmax;
     dst \<leftarrow> wr dst (p + 3) ymax;
     loop var_size (\<lambda>j dst. do {
       v \<leftarrow> rd (variance c) j;
       wr dst (top1 + (h * layer_width * np * var_size + w * np * var_size + s * var_size + j)) v }) dst
   } }"

definition cell_priors ::
    "clustered_cfg \<Rightarrow> int \<Rightarrow> int \<Rightarrow> ieee \<Rightarrow> ieee \<Rightarrow> nat \<Rightarrow> nat \<Rightarrow> nat \<Rightarrow> nat \<Rightarrow> ieee list \<Rightarrow> ieee list option" where
  "cell_priors c img_width img_height sw sh top1 layer_width h w dst =
     (let np = length (widths c); center_x = mulf (addf (n2f w) (offset c)) sw;
          center_y = mulf (addf (n2f h) (offset c)) sh in
      loop np (store_prior c img_width img_height center_x center_y top1 layer_width np h w) dst)"

text \<open>The layer keeps the default variance it adds.\<close>

definition clustered_execute ::
    "clustered_cfg \<Rightarrow> blob \<Rightarrow> blob \<Rightarrow> blob \<Rightarrow> (status \<times> clustered_cfg \<times> blob) option" where
  "clustered_execute c inp img out =
     (let c = (if variance c = [] then c\<lparr>variance := [mk b32 False (1 / 10)]\<rparr> else c) in do {
        layer_width \<leftarrow> rd (dims inp) 3;
        layer_height \<leftarrow> rd (dims inp) 2;
        img_width \<leftarrow> (if img_w c = 0 then map_option int (rd (dims img) 3) else Some (img_w c));
        img_height \<leftarrow> (if img_h c = 0 then map_option int (rd (dims img) 2) else Some (img_h c));
        let sw = (if feq (step_w c) (Fin 0) then step c else step_w c);
            sh = (if feq (step_h c) (Fin 0) then step c else step_h c) in do {
        top1 \<leftarrow> rd (dims out) 2;
        dst \<leftarrow> loop layer_height (\<lambda>h. loop layer_width (cell_priors c img_width img_height sw sh top1 layer_width h)) (data out);
        Some (OK, c, out\<lparr>data := dst\<rparr>)
      } })"

section \<open>What one prior stores\<close>

definition prior_box ::
    "clustered_cfg \<Rightarrow> int \<Rightarrow> int \<Rightarrow> ieee \<Rightarrow> ieee \<Rightarrow> nat \<Rightarrow> nat \<Rightarrow> nat \<Rightarrow> ieee list" where
  "prior_box c img_width img_height sw sh h w s =
     (let cx = mulf (addf (n2f w) (offset c)) sw; cy = mulf (addf (n2f h) (offset c)) sh in
      map (unit_clip (clip c)) [edge subd cx (widths c ! s) img_width, edge subd cy (heights c ! s) img_height,
        edge addd cx (widths c ! s) img_width, edge addd cy (heights c ! s) img_height])"

text \<open>The output after \<open>n\<close> priors: their boxes in the first channel, their variances in the second.\<close>

definition stored ::
    "clustered_cfg \<Rightarrow> (nat \<Rightarrow> ieee list) \<Rightarrow> nat \<Rightarrow> nat \<Rightarrow> ieee list \<Rightarrow> ieee list" where
  "stored c box top1 n dst = put (put dst 0 (concat (map box [0..<n]))) top1 (concat (replicate n (variance c)))"

lemma store_prior_ok:
  fixes c :: clustered_cfg
  assumes s: "s < np" "np = length (widths c)" "np \<le> length (heights c)" and w: "w < W" and h: "h < H"
    and q: "q = (h * W + w) * np + s" and box: "\<And>q. length (box q) = 4"
    and bq: "box q = prior_box c img_width img_height sw sh h w s"
    and top: "H * W * np * 4 \<le> top1" and room: "top1 + H * W * np * length (variance c) \<le> length dst"
  shows "store_prior c img_width img_height (mulf (addf (n2f w) (offset c)) sw) (mulf (addf (n2f h) (offset c)) sh)
      top1 W np h w s (stored c box top1 q dst) = Some (stored c box top1 (Suc q) dst)"
proof -
  let ?vs = "variance c" and ?B = "concat (map box [0..<q])"
  let ?V = "concat (replicate q (variance c))"
  have lq: "q < H * W * np" unfolding q by (rule index3_less [OF h w s(1)])
  have lB: "length ?B = q * 4" using box by (rule length_concat_same)
  have lV: "length ?V = q * length ?vs" by (simp add: length_concat sum_list_replicate)
  have q4: "q * 4 + 4 \<le> top1" using slot_end_nat [OF lq, of 4] top by simp
  have qv: "top1 + q * length ?vs + length ?vs \<le> length dst" using slot_end_nat [OF lq, of "length ?vs"] room by simp
  define d where "d = stored c box top1 q dst"
  have ld: "length d = length dst" using q4 qv lB lV by (simp add: d_def stored_def)
  have p: "h * W * np * 4 + w * np * 4 + s * 4 = q * 4" by (simp add: q algebra_simps)
  have v: "h * W * np * length ?vs + w * np * length ?vs + s * length ?vs + j = q * length ?vs + j" for j
    by (simp add: q algebra_simps)
  have vars: "loop (length ?vs) (\<lambda>j dst. rd ?vs j \<bind> wr dst (top1 + (q * length ?vs + j))) d' =
      Some (put d' (top1 + q * length ?vs) ?vs)" if "length d' = length dst" for d'
  proof -
    have "loop (length ?vs) (\<lambda>j dst. rd ?vs j \<bind> wr dst (top1 + (q * length ?vs + j))) d' =
        Some (put d' (top1 + q * length ?vs) (map ((!) ?vs) [0..<length ?vs]))"
      by (rule loop_wr) (use qv that in \<open>simp_all add: rd_Some wr_Some add.assoc\<close>)
    then show ?thesis by (simp add: map_nth)
  qed
  have "d[q * 4 := b0, q * 4 + 1 := b1, q * 4 + 2 := b2, q * 4 + 3 := b3] = put d (q * 4) [b0, b1, b2, b3]" for b0 b1 b2 b3
    using put_four [of "q * 4" d] q4 qv ld by simp
  then have four: "do { x \<leftarrow> wr d (q * 4 + 0) b0; x \<leftarrow> wr x (q * 4 + 1) b1; x \<leftarrow> wr x (q * 4 + 2) b2;
      x \<leftarrow> wr x (q * 4 + 3) b3; F x } = F (put d (q * 4) [b0, b1, b2, b3])" for b0 b1 b2 b3 and F :: "ieee list \<Rightarrow> ieee list option"
    using q4 qv ld by (simp add: wr_Some)
  have r: "rd (widths c) s = Some (widths c ! s)" "rd (heights c) s = Some (heights c ! s)"
    using s by (simp_all add: rd_Some)
  have "store_prior c img_width img_height (mulf (addf (n2f w) (offset c)) sw) (mulf (addf (n2f h) (offset c)) sh)
      top1 W np h w s d = Some (put (put d (q * 4) (box q)) (top1 + q * length ?vs) ?vs)"
    unfolding store_prior_def r Option.bind.bind_lunit Let_def p v four
    using vars [of "put d (q * 4) (box q)"] q4 qv ld box [of q] by (simp add: bq prior_box_def Let_def)
  also have "put (put d (q * 4) (box q)) (top1 + q * length ?vs) ?vs = stored c box top1 (Suc q) dst"
  proof -
    have "put (put (put dst 0 ?B) top1 ?V) (q * 4) (box q) = put (put (put dst 0 ?B) (q * 4) (box q)) top1 ?V"
      using put_commute [of "q * 4" "box q" top1 ?V "put dst 0 ?B"] q4 qv lB lV box [of q] by simp
    also have "put (put dst 0 ?B) (q * 4) (box q) = put dst 0 (concat (map box [0..<Suc q]))"
      using put_app [of 0 ?B "box q" dst] q4 qv lB box [of q] by simp
    finally show ?thesis
      using put_app [of top1 ?V ?vs "put dst 0 (concat (map box [0..<Suc q]))"] q4 qv lB lV box [of q]
      by (simp add: d_def stored_def replicate_append_same [symmetric])
  qed
  finally show ?thesis by (simp add: d_def)
qed

text \<open>The variances the layer works with, and the sizes and steps it derives.\<close>

definition with_variance :: "clustered_cfg \<Rightarrow> clustered_cfg" where
  "with_variance c = (if variance c = [] then c\<lparr>variance := [mk b32 False (1 / 10)]\<rparr> else c)"

definition step_or :: "ieee \<Rightarrow> ieee \<Rightarrow> ieee" where
  "step_or a b = (if feq a (Fin 0) then b else a)"

definition size_or :: "int \<Rightarrow> nat \<Rightarrow> int" where
  "size_or a b = (if a = 0 then int b else a)"

text \<open>
  With a height for every width and tensors of the promised sizes, the layer stays
  inside its buffers and returns OK; prior \<open>s\<close> of cell \<open>(h, w)\<close> is stored at its place in the
  first channel, and the second channel repeats the variances, which are then never empty.
\<close>

theorem clustered_execute_spec:
  assumes wh: "length (widths c) \<le> length (heights c)"
    and dims: "dims inp = [b, ch, H, W]" "dims img = [b', ch', IH, IW]" "dims out = d0 # d1 # top1 # ds"
    and top: "H * W * length (widths c) * 4 \<le> top1"
    and room: "top1 + H * W * length (widths c) * length (variance (with_variance c)) \<le> length (data out)"
  shows "let np = length (widths c); n = H * W * np; vs = variance (with_variance c);
      sw = step_or (step_w c) (step c); sh = step_or (step_h c) (step c);
      boxes = concat (map (\<lambda>q. prior_box c (size_or (img_w c) IW) (size_or (img_h c) IH) sw sh
        (q div np div W) (q div np mod W) (q mod np)) [0..<n]) in
    vs \<noteq> [] \<and> length boxes = n * 4 \<and> clustered_execute c inp img out =
      Some (OK, with_variance c, out\<lparr>data := put (put (data out) 0 boxes) top1 (concat (replicate n vs))\<rparr>)"
proof -
  define e where "e = with_variance c"
  have e: "widths e = widths c" "heights e = heights c" "clip e = clip c" "offset e = offset c" "img_w e = img_w c"
      "img_h e = img_h c" "step_w e = step_w c" "step_h e = step_h c" "step e = step c" "variance e \<noteq> []"
    by (simp_all add: e_def with_variance_def)
  let ?np = "length (widths e)" and ?iw = "size_or (img_w c) IW" and ?ih = "size_or (img_h c) IH"
  let ?sw = "step_or (step_w e) (step e)" and ?sh = "step_or (step_h e) (step e)"
  let ?box = "\<lambda>q. prior_box e ?iw ?ih ?sw ?sh (q div ?np div W) (q div ?np mod W) (q mod ?np)"
  let ?st = "stored e ?box top1"
  have box4: "length (?box q) = 4" for q by (simp add: prior_box_def Let_def)
  have cell: "cell_priors e ?iw ?ih ?sw ?sh top1 W h w (?st ((h * W + w) * ?np) (data out)) =
      Some (?st ((h * W + w) * ?np + ?np) (data out))" if h: "h < H" and w: "w < W" for h w
  proof -
    have "ok (cell_priors e ?iw ?ih ?sw ?sh top1 W h w (?st ((h * W + w) * ?np) (data out)))
        (\<lambda>d. d = ?st ((h * W + w) * ?np + ?np) (data out))"
      unfolding cell_priors_def Let_def
    proof (rule loop_ok [where I = "\<lambda>s d. d = ?st ((h * W + w) * ?np + s) (data out)"])
      fix s d assume s: "s < ?np" and d: "d = ?st ((h * W + w) * ?np + s) (data out)"
      have bq: "?box ((h * W + w) * ?np + s) = prior_box e ?iw ?ih ?sw ?sh h w s"
      proof -
        have "((h * W + w) * n + s) div n = h * W + w \<and> ((h * W + w) * n + s) mod n = s" if "s < n" for n
          using that by simp
        then have "((h * W + w) * ?np + s) div ?np = h * W + w" "((h * W + w) * ?np + s) mod ?np = s"
          using s by blast+
        then show ?thesis using w by (simp only:) simp
      qed
      have "store_prior e ?iw ?ih (mulf (addf (n2f w) (offset e)) ?sw) (mulf (addf (n2f h) (offset e)) ?sh)
          top1 W ?np h w s d = Some (?st (Suc ((h * W + w) * ?np + s)) (data out))"
        unfolding d
        by (rule store_prior_ok [where box = ?box and H = H];
          (rule s w h refl bq box4 | (use wh top room in \<open>simp add: e e_def [symmetric]\<close>)))
      then show "ok (store_prior e ?iw ?ih (mulf (addf (n2f w) (offset e)) ?sw) (mulf (addf (n2f h) (offset e)) ?sh)
          top1 W ?np h w s d) (\<lambda>d. d = ?st ((h * W + w) * ?np + Suc s) (data out))"
        by simp
    qed simp
    then show ?thesis by (simp add: ok_eq_Some)
  qed
  have row: "loop W (cell_priors e ?iw ?ih ?sw ?sh top1 W h) (?st (h * W * ?np) (data out)) =
      Some (?st (h * W * ?np + W * ?np) (data out))" if h: "h < H" for h
  proof -
    have "ok (loop W (cell_priors e ?iw ?ih ?sw ?sh top1 W h) (?st (h * W * ?np) (data out)))
        (\<lambda>d. d = ?st ((h * W + W) * ?np) (data out))"
    proof (rule loop_ok [where I = "\<lambda>w d. d = ?st ((h * W + w) * ?np) (data out)"])
      fix w d assume "w < W" "d = ?st ((h * W + w) * ?np) (data out)"
      then show "ok (cell_priors e ?iw ?ih ?sw ?sh top1 W h w d) (\<lambda>d. d = ?st ((h * W + Suc w) * ?np) (data out))"
        using cell [OF h, of w] by (simp add: algebra_simps)
    qed simp
    then show ?thesis by (simp add: ok_eq_Some algebra_simps)
  qed
  have "ok (loop H (\<lambda>h. loop W (cell_priors e ?iw ?ih ?sw ?sh top1 W h)) (data out))
      (\<lambda>d. d = ?st (H * W * ?np) (data out))"
  proof (rule loop_ok [where I = "\<lambda>h d. d = ?st (h * W * ?np) (data out)"])
    show "data out = ?st (0 * W * ?np) (data out)" by (simp add: stored_def)
  next
    fix h d assume "h < H" "d = ?st (h * W * ?np) (data out)"
    then show "ok (loop W (cell_priors e ?iw ?ih ?sw ?sh top1 W h) d) (\<lambda>d. d = ?st (Suc h * W * ?np) (data out))"
      using row [of h] by (simp add: algebra_simps)
  qed
  then have run: "loop H (\<lambda>h. loop W (cell_priors e ?iw ?ih ?sw ?sh top1 W h)) (data out) = Some (?st (H * W * ?np) (data out))"
    by (simp add: ok_eq_Some)
  have dim: "rd (dims inp) 3 = Some W" "rd (dims inp) 2 = Some H" "rd (dims out) 2 = Some top1"
      "(if img_w e = 0 then map_option int (rd (dims img) 3) else Some (img_w e)) = Some ?iw"
      "(if img_h e = 0 then map_option int (rd (dims img) 2) else Some (img_h e)) = Some ?ih"
    by (simp_all add: dims rd_def size_or_def e)
  have exec: "clustered_execute c inp img out = Some (OK, e, out\<lparr>data := ?st (H * W * ?np) (data out)\<rparr>)"
    unfolding clustered_execute_def with_variance_def [symmetric] e_def [symmetric] Let_def dim
      step_or_def [symmetric] Option.bind.bind_lunit run ..
  have same: "prior_box e = prior_box c" by (simp add: fun_eq_iff prior_box_def e Let_def)
  have "length (concat (map ?box [0..<H * W * ?np])) = H * W * ?np * 4"
    by (rule length_concat_same) (rule box4)
  then show ?thesis
    unfolding Let_def e_def [symmetric] using exec e by (simp add: stored_def same)
qed

definition small_clustered :: clustered_cfg where
  "small_clustered = \<lparr>widths = [Fin 2], heights = [Fin 2], clip = 1, variance = [], img_h = 0, img_w = 0, step = Fin 16,
     step_h = Fin 0, step_w = Fin 0, offset = Fin (1/2)\<rparr>"

theorem clustered_execute_spec_witness:
  "\<exists>boxes. length boxes = 4 \<and>
     clustered_execute small_clustered \<lparr>dims = [1, 8, 1, 1], data = []\<rparr> \<lparr>dims = [1, 3, 32, 32], data = []\<rparr>
       \<lparr>dims = [1, 2, 4], data = replicate 8 NaN\<rparr> =
     Some (OK, with_variance small_clustered,
       \<lparr>dims = [1, 2, 4], data = put (put (replicate 8 NaN) 0 boxes) 4 [mk b32 False (1 / 10)]\<rparr>)"
  using clustered_execute_spec [of small_clustered "\<lparr>dims = [1, 8, 1, 1], data = []\<rparr>" 1 8 1 1
      "\<lparr>dims = [1, 3, 32, 32], data = []\<rparr>" 1 3 32 32 "\<lparr>dims = [1, 2, 4], data = replicate 8 NaN\<rparr>" 1 2 4 "[]"]
  by (auto simp: small_clustered_def with_variance_def Let_def)

end
