(* ===== verification/Prelu.thy ===== *)
theory Prelu
  imports Ext_Base "HOL-Library.Word"
begin

unbundle bit_operations_syntax

text \<open>
  The \<open>PReLU\<close> layer (\<open>extension/ext_prelu.cpp\<close>) in its four builds. A four-dimensional tensor
  is stored in blocks of 8 or 16 channels, any other one as a plain matrix.

  Vector registers are lists of lanes. The source and the destination are two lists; the
  layer may also run in place, where every element is read before it is written.
\<close>

section \<open>The layer\<close>

datatype vec_build = P_AVX512 | P_AVX2 | P_SSE | P_SCALAR

definition block_size :: "vec_build \<Rightarrow> nat" where
  "block_size bld = (if bld = P_AVX512 then 16 else 8)"

definition prelu_ctor :: "ie_lib \<Rightarrow> vec_build \<Rightarrow> string \<Rightarrow> cnn_layer \<Rightarrow> exn + ieee list \<times> layer_config list" where
  "prelu_ctor lib bld lname L =
     ebind (throw_if (length (insData L) \<noteq> 1 \<or> outData L = [])
       ''Incorrect number of input/output edges!'') (\<lambda>_.
     ebind (case weights_blob L of None \<Rightarrow> Inl (IeException (lname @ '' weights is empty!'')) | Some w \<Rightarrow> Inr w) (\<lambda>w.
     ebind (deref (insData L ! 0)) (\<lambda>ds.
     let fmt = (if length ds \<noteq> 4 then PLN else if bld = P_AVX512 then BLK16 else BLK8) in
     ebind (addConfig lib L [] [conf3 fmt False 0] [conf3 fmt False 0] False) (\<lambda>cs. Inr (w, cs)))))"

text \<open>One element: by the mask of the comparison below zero, above zero, and by \<open>std::max\<close>.\<close>

fun prelu_lane :: "vec_build \<Rightarrow> ieee \<Rightarrow> ieee \<Rightarrow> ieee" where
  "prelu_lane P_AVX512 w s = (if flt s (Fin 0) then mulf w s else s)"
| "prelu_lane P_SCALAR w s = addf (cmax s (Fin 0)) (mulf w (cmin s (Fin 0)))"
| "prelu_lane _ w s = (if flt (Fin 0) s then s else mulf w s)"

definition prelu_vector ::
    "vec_build \<Rightarrow> nat \<Rightarrow> ieee list \<Rightarrow> ieee list \<Rightarrow> nat \<Rightarrow> ieee list \<Rightarrow> ieee list option" where
  "prelu_vector bld l vweights src p dst = do {
     vsrc \<leftarrow> loadu l src p;
     blit dst p (map2 (prelu_lane bld) vweights vsrc)
   }"

text \<open>All elements of one channel block; \<open>p\<close> is where it starts.\<close>

definition prelu_block ::
    "vec_build \<Rightarrow> ieee list \<Rightarrow> ieee list \<Rightarrow> nat \<Rightarrow> nat \<Rightarrow> nat \<Rightarrow> ieee list \<Rightarrow> ieee list option" where
  "prelu_block bld w src c_block HW p dst =
     (case bld of
        P_SSE \<Rightarrow> loop HW (\<lambda>i dst. do {
            vweights0 \<leftarrow> loadu 4 w (c_block + 0);
            vweights1 \<leftarrow> loadu 4 w (c_block + 4);
            vsrc0 \<leftarrow> loadu 4 src (p + 8 * i + 0);
            vsrc1 \<leftarrow> loadu 4 src (p + 8 * i + 4);
            dst \<leftarrow> blit dst (p + 8 * i + 0) (map2 (prelu_lane bld) vweights0 vsrc0);
            blit dst (p + 8 * i + 4) (map2 (prelu_lane bld) vweights1 vsrc1) }) dst
      | P_SCALAR \<Rightarrow> loop HW (\<lambda>i. loop 8 (\<lambda>c dst. do {
            s \<leftarrow> rd src (p + 8 * i + c);
            v \<leftarrow> rd w (c_block + c);
            wr dst (p + 8 * i + c) (prelu_lane bld v s) })) dst
      | _ \<Rightarrow> do {
          vweights \<leftarrow> loadu (block_size bld) w c_block;
          loop HW (\<lambda>i. prelu_vector bld (block_size bld) vweights src (p + block_size bld * i)) dst
        })"

text \<open>\<open>(C + block_size - 1) & (-block_size)\<close> on \<open>size_t\<close>.\<close>

definition pad_channels :: "nat \<Rightarrow> nat \<Rightarrow> nat" where
  "pad_channels bs C = unat ((word_of_nat C + word_of_nat bs - 1 :: 64 word) AND (- word_of_nat bs))"

definition prelu_execute ::
    "vec_build \<Rightarrow> ieee list \<Rightarrow> blob list \<Rightarrow> blob list \<Rightarrow> (status \<times> blob list) option" where
  "prelu_execute bld weights inputs outputs =
     (if length inputs \<noteq> 1 \<or> outputs = [] then Some (GENERAL_ERROR, outputs)
      else let inp = inputs ! 0; out = outputs ! 0; bs = block_size bld in
        if length (dims inp) = 4 then do {
          let W = dims inp ! 3; H = dims inp ! 2; C = dims inp ! 1; B = dims inp ! 0; CB = pad_channels bs C in do {
          dst \<leftarrow> loop B (\<lambda>b. loop ((C + bs - 1) div bs) (\<lambda>k.
            prelu_block bld weights (data inp) (k * bs) (H * W) (b * CB * H * W + k * bs * H * W))) (data out);
          Some (OK, out\<lparr>data := dst\<rparr> # tl outputs)
        } }
        else do {
          C \<leftarrow> rd (dims inp) 1;
          B \<leftarrow> rd (dims inp) 0;
          dst \<leftarrow> loop B (\<lambda>b. loop C (\<lambda>c dst. do {
            s \<leftarrow> rd (data inp) (b * C + c);
            v \<leftarrow> rd weights c;
            wr dst (b * C + c) (prelu_lane P_SCALAR v s) })) (data out);
          Some (OK, out\<lparr>data := dst\<rparr> # tl outputs)
        })"

section \<open>The builds compute the same function\<close>

text \<open>Equal values: equal as numbers, or both a NaN. Only the sign of a zero may differ.\<close>

definition same :: "ieee \<Rightarrow> ieee \<Rightarrow> bool" where
  "same a b \<longleftrightarrow> feq a b \<or> is_nan a \<and> is_nan b"

definition prelu :: "ieee \<Rightarrow> ieee \<Rightarrow> ieee" where
  "prelu w s = (if flt (Fin 0) s then s else mulf w s)"

lemma same_refl [simp]: "same x x"
  by (cases "is_nan x") (simp_all add: same_def feq_def)

lemma mulf_zero: "is_fin w \<Longrightarrow> is_fin s \<Longrightarrow> val s = 0 \<Longrightarrow> is_fin (mulf w s) \<and> val (mulf w s) = 0"
  by (auto simp: fmul_def is_fin_not_nan)

lemma pos_mk_fmt: "in_fmt F (Fin q) \<Longrightarrow> pos (mk F t q) = pos (Fin q)"
  by (cases "q = 0") (auto simp: mk_id zero_def)

lemma addf_zero:
  assumes "in_fmt b32 x" and "is_fin z" and "val z = 0"
  shows "same (addf x z) x" and "same (addf z x) x"
proof -
  show "same (addf x z) x"
    using assms pos_mk_fmt [of b32 _ False]
    by (cases x; cases z) (auto simp: same_def feq_def zero_def)
  then show "same (addf z x) x" by (simp add: fadd_comm)
qed

lemma prelu_lane_same:
  assumes w: "is_fin w" and s: "in_fmt b32 s" and "s \<noteq> Inf False" "s \<noteq> Inf True"
  shows "same (prelu_lane bld w s) (prelu w s)"
proof (cases "is_nan s")
  case True
  then have "s = NaN" by (cases s) simp_all
  then show ?thesis
    by (cases bld) (simp_all add: prelu_def flt_def cmax_def cmin_def fmul_def same_def feq_def)
next
  case False
  then have fin: "is_fin s" using assms(3,4) by (cases s) auto
  have m: "in_fmt b32 (mulf w s)" by (simp add: in_fmt_fmul)
  have z: "is_fin (Fin 0)" "val (Fin 0) = 0" by simp_all
  consider "0 < val s" | "val s < 0" | "val s = 0" by linarith
  then show ?thesis
  proof cases
    case 1
    then have "cmax s (Fin 0) = s" "cmin s (Fin 0) = Fin 0"
      using fin by (simp_all add: cmax_def cmin_def flt_fin)
    moreover have "is_fin (mulf w (Fin 0)) \<and> val (mulf w (Fin 0)) = 0" using w by (intro mulf_zero) simp_all
    ultimately show ?thesis using 1 fin addf_zero(1) [OF s]
      by (cases bld) (simp_all add: prelu_def flt_fin)
  next
    case 2
    then have "cmax s (Fin 0) = Fin 0" "cmin s (Fin 0) = s"
      using fin by (simp_all add: cmax_def cmin_def flt_fin)
    then show ?thesis using 2 fin addf_zero(2) [OF m z]
      by (cases bld) (simp_all add: prelu_def flt_fin)
  next
    case 3
    then have c: "cmax s (Fin 0) = s" "cmin s (Fin 0) = s"
      using fin by (simp_all add: cmax_def cmin_def flt_fin)
    have ms: "is_fin (mulf w s) \<and> val (mulf w s) = 0" using w fin 3 by (rule mulf_zero)
    then have "same s (mulf w s)" using fin 3 by (simp add: same_def feq_def pos_fin is_fin_not_nan)
    moreover have "same (addf s (mulf w s)) (mulf w s)" using addf_zero(2) [OF m fin 3] .
    ultimately show ?thesis using 3 fin by (cases bld) (simp_all add: prelu_def flt_fin c)
  qed
qed

section \<open>One channel block\<close>

lemma map2_upt: "map2 f (map g [0..<n]) (map h [0..<n]) = map (\<lambda>i. f (g i) (h i)) [0..<n]"
  by (rule nth_equalityI) simp_all

lemma map_upt_split: "map f [0..<m + n] = map f [0..<m] @ map (\<lambda>c. f (m + c)) [0..<n]"
  by (rule nth_equalityI) (auto simp: nth_append)

lemma prelu_block_eq:
  assumes w: "c_block + block_size bld \<le> length w" and src: "p + HW * block_size bld \<le> length src"
    and dst: "p + HW * block_size bld \<le> length dst"
  shows "prelu_block bld w src c_block HW p dst = Some (put dst p
    (map (\<lambda>k. prelu_lane bld (w ! (c_block + k mod block_size bld)) (src ! (p + k))) [0..<HW * block_size bld]))"
proof -
  let ?bs = "block_size bld" and ?f = "\<lambda>i c. prelu_lane bld (w ! (c_block + c)) (src ! (p + i * block_size bld + c))"
  have flat: "loop HW F dst = Some (put dst p
      (map (\<lambda>k. prelu_lane bld (w ! (c_block + k mod ?bs)) (src ! (p + k))) [0..<HW * ?bs]))"
    if "\<And>i xs. i < HW \<Longrightarrow> length xs = length dst \<Longrightarrow> F i xs = Some (put xs (p + i * ?bs) (map (?f i) [0..<?bs]))" for F
  proof -
    have "loop HW F dst = Some (put dst p (map (\<lambda>k. ?f (k div ?bs) (k mod ?bs)) [0..<HW * ?bs]))"
      using that dst by (intro loop_flat) auto
    then show ?thesis by (simp add: add.assoc)
  qed
  have room: "p + i * ?bs + ?bs \<le> length src" "p + i * ?bs + ?bs \<le> length dst" if "i < HW" for i
    using slot_end_nat [OF that, of ?bs] src dst by simp_all
  show ?thesis
  proof (cases bld)
    case P_SSE
    have bs: "?bs = 8" by (simp add: block_size_def P_SSE)
    have step: "do {
        vweights0 \<leftarrow> loadu 4 w (c_block + 0); vweights1 \<leftarrow> loadu 4 w (c_block + 4);
        vsrc0 \<leftarrow> loadu 4 src (p + 8 * i + 0); vsrc1 \<leftarrow> loadu 4 src (p + 8 * i + 4);
        d \<leftarrow> blit xs (p + 8 * i + 0) (map2 (prelu_lane bld) vweights0 vsrc0);
        blit d (p + 8 * i + 4) (map2 (prelu_lane bld) vweights1 vsrc1) } =
        Some (put xs (p + i * ?bs) (map (?f i) [0..<?bs]))" if "i < HW" "length xs = length dst" for i xs
    proof -
      have "map (?f i) [0..<8] = map (?f i) [0..<4] @ map (\<lambda>c. ?f i (4 + c)) [0..<4]"
        using map_upt_split [of "?f i" 4 4] by (simp only: numeral_plus_numeral add_num_simps)
      then show ?thesis
        using room [OF that(1)] that(2) w put_app [of "p + i * 8" "map (?f i) [0..<4]" "map (\<lambda>c. ?f i (4 + c)) [0..<4]" xs]
        by (simp add: bs loadu_eq map2_upt blit_def mult.commute add.assoc add.commute [of 4] del: upt_rec_numeral)
    qed
    show ?thesis using flat [OF step] by (simp add: prelu_block_def P_SSE del: prelu_lane.simps)
  next
    case P_SCALAR
    have bs: "?bs = 8" by (simp add: block_size_def P_SCALAR)
    have step: "loop 8 (\<lambda>c dst. do { s \<leftarrow> rd src (p + 8 * i + c); v \<leftarrow> rd w (c_block + c);
        wr dst (p + 8 * i + c) (prelu_lane bld v s) }) xs =
        Some (put xs (p + i * ?bs) (map (?f i) [0..<?bs]))" if "i < HW" "length xs = length dst" for i xs
      unfolding bs
      by (rule loop_wr [where L = "length dst"])
        (use room [OF that(1)] that(2) w bs in \<open>simp_all add: rd_Some wr_Some mult.commute\<close>)
    show ?thesis using flat [OF step] by (simp add: prelu_block_def P_SCALAR del: prelu_lane.simps)
  next
    case P_AVX2
    have step: "prelu_vector bld ?bs (map (\<lambda>c. w ! (c_block + c)) [0..<?bs]) src (p + ?bs * i) xs =
        Some (put xs (p + i * ?bs) (map (?f i) [0..<?bs]))" if "i < HW" "length xs = length dst" for i xs
      using room [OF that(1)] that(2) by (simp add: prelu_vector_def loadu_eq map2_upt blit_def mult.commute)
    show ?thesis using flat [OF step] loadu_eq [OF w] by (simp add: prelu_block_def P_AVX2 del: prelu_lane.simps)
  next
    case P_AVX512
    have step: "prelu_vector bld ?bs (map (\<lambda>c. w ! (c_block + c)) [0..<?bs]) src (p + ?bs * i) xs =
        Some (put xs (p + i * ?bs) (map (?f i) [0..<?bs]))" if "i < HW" "length xs = length dst" for i xs
      using room [OF that(1)] that(2) by (simp add: prelu_vector_def loadu_eq map2_upt blit_def mult.commute)
    show ?thesis using flat [OF step] loadu_eq [OF w] by (simp add: prelu_block_def P_AVX512 del: prelu_lane.simps)
  qed
qed

section \<open>The padded channel count\<close>

lemma unat_and_minus: "unat (w AND - (2 ^ n)) = unat w div 2 ^ n * 2 ^ n" for w :: "'a::len word"
proof -
  have "- (2 ^ n) = NOT (mask n :: 'a word)" by (simp add: minus_eq_not_minus_1 mask_eq_exp_minus_1)
  moreover have "w AND NOT (mask n) = push_bit n (drop_bit n w)" by (rule bit_eqI) (auto simp: bit_simps)
  moreover have "unat (push_bit n (drop_bit n w)) = unat w div 2 ^ n * 2 ^ n"
  proof -
    have "unat w div 2 ^ n * 2 ^ n < 2 ^ LENGTH('a)"
    proof (rule le_less_trans)
      show "unat w < 2 ^ LENGTH('a)" by (rule unsigned_less)
    qed simp
    then show ?thesis
      unfolding unsigned_push_bit_eq unsigned_drop_bit_eq
      by (simp only: push_bit_eq_mult drop_bit_eq_div take_bit_eq_mod) simp
  qed
  ultimately show ?thesis by simp
qed

lemma pad_channels_eq:
  assumes "bs = 2 ^ n" and "C + bs < 2 ^ 64"
  shows "pad_channels bs C = (C + bs - 1) div bs * bs"
proof -
  have "word_of_nat C + word_of_nat bs - 1 = (word_of_nat (C + bs - 1) :: 64 word)"
    using assms(1) by (subst of_nat_diff) (simp_all add: Suc_le_eq)
  moreover have "unat (word_of_nat (C + bs - 1) :: 64 word) = C + bs - 1"
    using assms(2) by (simp add: unat_of_nat)
  ultimately show ?thesis
    using unat_and_minus [of "word_of_nat (C + bs - 1) :: 64 word" n] assms(1)
    by (simp add: pad_channels_def)
qed

section \<open>The whole layer\<close>

text \<open>The channel of element \<open>k\<close> of a tensor of \<open>Q\<close> blocks of \<open>bs\<close> channels.\<close>

definition channel_of :: "nat \<Rightarrow> nat \<Rightarrow> nat \<Rightarrow> nat \<Rightarrow> nat" where
  "channel_of bs Q HW k = k div (HW * bs) mod Q * bs + k mod bs"

lemma blocks_eq:
  assumes w: "Q * block_size bld \<le> length w" and src: "B * Q * HW * block_size bld \<le> length src"
    and dst: "length dst = B * Q * HW * block_size bld"
  shows "loop B (\<lambda>b. loop Q (\<lambda>k. prelu_block bld w src (k * block_size bld) HW
      ((b * Q + k) * (HW * block_size bld)))) dst =
    Some (map (\<lambda>k. prelu_lane bld (w ! channel_of (block_size bld) Q HW k) (src ! k)) [0..<length dst])"
proof -
  let ?bs = "block_size bld" and ?n = "HW * block_size bld"
  let ?f = "\<lambda>b q k. prelu_lane bld (w ! (q * ?bs + k mod ?bs)) (src ! ((b * Q + q) * ?n + k))"
  have block: "prelu_block bld w src (q * ?bs) HW ((b * Q + q) * ?n) xs =
      Some (put xs (b * (Q * ?n) + q * ?n) (map (?f b q) [0..<?n]))"
    if "b < B" "q < Q" "length xs = length dst" for b q xs
  proof -
    have "(b * Q + q) * ?n + ?n \<le> B * Q * ?n" by (rule slot_end_nat [OF index2_less [OF that(1,2)]])
    moreover have "q * ?bs + ?bs \<le> length w" using slot_end_nat [OF that(2), of ?bs] w by simp
    ultimately show ?thesis
      using prelu_block_eq [of "q * ?bs" bld w "(b * Q + q) * ?n" HW src xs] src dst that(3)
      by (simp add: algebra_simps)
  qed
  have row: "loop Q (\<lambda>k. prelu_block bld w src (k * ?bs) HW ((b * Q + k) * ?n)) xs =
      Some (put xs (0 + b * (Q * ?n)) (map (\<lambda>k. ?f b (k div ?n) (k mod ?n)) [0..<Q * ?n]))"
    if "b < B" "length xs = length dst" for b xs
  proof -
    have "b * (Q * ?n) + Q * ?n \<le> length dst" using slot_end_nat [OF that(1), of "Q * ?n"] dst by (simp add: mult.assoc)
    then show ?thesis using that block loop_flat [where h = "?f b" and n = ?n and p = "b * (Q * ?n)" and m = Q and L = "length dst"]
      by simp
  qed
  have "loop B (\<lambda>b. loop Q (\<lambda>k. prelu_block bld w src (k * ?bs) HW ((b * Q + k) * ?n))) dst =
      Some (put dst 0 (map (\<lambda>k. ?f (k div (Q * ?n)) (k mod (Q * ?n) div ?n) (k mod (Q * ?n) mod ?n)) [0..<B * (Q * ?n)]))"
    by (rule loop_flat [where L = "length dst"]) (use row dst in \<open>simp_all add: mult.assoc\<close>)
  moreover have "?f (k div (Q * ?n)) (k mod (Q * ?n) div ?n) (k mod (Q * ?n) mod ?n) =
      prelu_lane bld (w ! channel_of ?bs Q HW k) (src ! k)" for k
  proof -
    have "k mod (Q * ?n) div ?n = k div ?n mod Q" using mod_times_div [of k ?n Q] by (simp add: mult.commute)
    moreover have "k mod (Q * ?n) mod ?n = k mod ?n" "k mod ?n mod ?bs = k mod ?bs" by (simp_all add: mod_mod_cancel)
    moreover have "(k div (Q * ?n) * Q + k div ?n mod Q) * ?n + k mod ?n = k"
      by (metis div_mult2_eq div_mult_mod_eq mult.commute)
    ultimately show ?thesis by (simp only: channel_of_def)
  qed
  ultimately show ?thesis using dst by (simp add: put_all mult.assoc)
qed

text \<open>
  In every build, on a four-dimensional tensor in channel blocks, with a weight for
  every padded channel, the layer stays inside its buffers, returns OK, and computes the
  parametric rectifier of every element with its channel's weight, up to the sign of zeros.
\<close>

theorem prelu_execute_spec:
  assumes dims: "dims inp = [B, C, H, W]" and C: "C + block_size bld < 2 ^ 64"
    and Q: "Q = (C + block_size bld - 1) div block_size bld"
    and wts: "Q * block_size bld \<le> length w" "\<forall>x \<in> set w. is_fin x"
    and vol: "length (data inp) = B * Q * (H * W) * block_size bld" "length (data out) = length (data inp)"
    and fin: "\<forall>x \<in> set (data inp). in_fmt b32 x \<and> (is_fin x \<or> is_nan x)"
  shows "\<exists>d. prelu_execute bld w [inp] [out] = Some (OK, [out\<lparr>data := d\<rparr>]) \<and> length d = length (data inp) \<and>
    (\<forall>k < length d. same (d ! k) (prelu (w ! channel_of (block_size bld) Q (H * W) k) (data inp ! k)))"
proof -
  let ?bs = "block_size bld"
  let ?d = "map (\<lambda>k. prelu_lane bld (w ! channel_of ?bs Q (H * W) k) (data inp ! k)) [0..<length (data out)]"
  obtain n where n: "?bs = 2 ^ n"
    by (cases "bld = P_AVX512") (auto simp: block_size_def intro: that [of 3] that [of 4])
  have CB: "pad_channels ?bs C = Q * ?bs" using pad_channels_eq [OF n C] Q by simp
  have p: "b * (Q * ?bs) * H * W + k * ?bs * H * W = (b * Q + k) * (H * W * ?bs)" for b k
    by (simp add: algebra_simps)
  have "loop B (\<lambda>b. loop Q (\<lambda>k. prelu_block bld w (data inp) (k * ?bs) (H * W)
      ((b * Q + k) * (H * W * ?bs)))) (data out) = Some ?d"
    using wts(1) vol by (intro blocks_eq) simp_all
  then have run: "prelu_execute bld w [inp] [out] = Some (OK, [out\<lparr>data := ?d\<rparr>])"
    unfolding prelu_execute_def Let_def by (simp add: dims CB Q [symmetric, unfolded One_nat_def] p)
  have "same (?d ! k) (prelu (w ! channel_of ?bs Q (H * W) k) (data inp ! k))" if k: "k < length (data inp)" for k
  proof -
    have "0 < Q" "0 < ?bs" using k vol by (auto intro: gr0I)
    then have "k div (H * W * ?bs) mod Q < Q" "k mod ?bs < ?bs" by simp_all
    then have "channel_of ?bs Q (H * W) k < Q * ?bs" unfolding channel_of_def by (rule index2_less)
    then have "is_fin (w ! channel_of ?bs Q (H * W) k)" using wts by simp
    moreover have "in_fmt b32 (data inp ! k)" "is_fin (data inp ! k) \<or> is_nan (data inp ! k)" using fin k by simp_all
    ultimately show ?thesis using k vol(2) by (auto intro!: prelu_lane_same)
  qed
  then show ?thesis using run vol(2) by (intro exI [of _ ?d]) simp
qed

text \<open>A loop one of whose iterations always fails fails.\<close>

lemma loop_None: "i < n \<Longrightarrow> (\<And>s. f i s = None) \<Longrightarrow> loop n f s = None"
proof (induction n)
  case (Suc n)
  then show ?case by (cases "i = n"; cases "loop n f s") auto
qed simp

lemma prelu_block_None:
  assumes "length w < c_block + block_size bld" and "0 < HW"
  shows "prelu_block bld w src c_block HW p dst = None"
proof (cases bld)
  case P_SSE
  then have "\<not> c_block + 4 + 4 \<le> length w" using assms(1) by (simp add: block_size_def)
  then have "loadu 4 w (c_block + 4) = None" by (simp add: loadu_def)
  then show ?thesis unfolding prelu_block_def P_SSE vec_build.case
    by (intro loop_None [OF assms(2)]) (simp split: Option.bind_split)
next
  case P_SCALAR
  then have "length w \<le> c_block + 7" using assms(1) by (simp add: block_size_def)
  then have "rd w (c_block + 7) = None" by (rule rd_None)
  then show ?thesis unfolding prelu_block_def P_SCALAR vec_build.case
    by (intro loop_None [OF assms(2)] loop_None [of 7]) (simp_all split: Option.bind_split)
next
  case P_AVX2
  then show ?thesis using assms(1) by (simp add: prelu_block_def loadu_def)
next
  case P_AVX512
  then show ?thesis using assms(1) by (simp add: prelu_block_def loadu_def)
qed

text \<open>
  With fewer weights than the padded channel count -- already with one weight per
  channel, when the channel count is no multiple of the block size -- every build reads
  behind the weights.
\<close>

theorem prelu_short_weights:
  assumes dims: "dims inp = [B, C, H, W]" and pos: "0 < B" "0 < H * W" "0 < C"
    and short: "length w < (C + block_size bld - 1) div block_size bld * block_size bld"
  shows "prelu_execute bld w [inp] [out] = None"
proof -
  let ?bs = "block_size bld" and ?Q = "(C + block_size bld - 1) div block_size bld"
  have "0 < ?Q" using short by (auto intro: gr0I)
  then have Q: "?Q - 1 < ?Q" and last: "length w < (?Q - 1) * ?bs + ?bs"
    using short by (simp_all add: diff_mult_distrib mult_eq_if)
  have "loop B (\<lambda>b. loop ?Q (\<lambda>k. prelu_block bld w (data inp) (k * ?bs) (H * W)
      (b * pad_channels ?bs C * H * W + k * ?bs * H * W))) (data out) = None"
    by (intro loop_None [OF pos(1)] loop_None [OF Q] prelu_block_None last pos(2))
  then show ?thesis unfolding prelu_execute_def Let_def by (simp add: dims)
qed

theorem prelu_execute_spec_witness:
  "\<exists>d. prelu_execute P_SSE (replicate 8 (Fin 1)) [\<lparr>dims = [1, 2, 1, 1], data = replicate 8 (Fin (1/2))\<rparr>]
      [\<lparr>dims = [1, 2, 1, 1], data = replicate 8 NaN\<rparr>] = Some (OK, [\<lparr>dims = [1, 2, 1, 1], data = d\<rparr>]) \<and> length d = 8"
proof -
  have "representable b32 (1 / 2)"
    unfolding representable_def by (rule exI [of _ 1], rule exI [of _ "-1"]) (simp add: b32_def power_int_def)
  then have "in_fmt b32 (Fin (1 / 2))" using powi2_le [of 0 "emax b32 + 1"]
    by (simp add: rnd_representable b32_def)
  then show ?thesis
    using prelu_execute_spec [of "\<lparr>dims = [1, 2, 1, 1], data = replicate 8 (Fin (1/2))\<rparr>" 1 2 1 1 P_SSE 1
        "replicate 8 (Fin 1)" "\<lparr>dims = [1, 2, 1, 1], data = replicate 8 NaN\<rparr>"]
    by (auto simp: block_size_def)
qed

theorem prelu_short_weights_witness:
  "prelu_execute P_AVX2 [Fin 1, Fin 1] [\<lparr>dims = [1, 2, 1, 1], data = replicate 8 (Fin 1)\<rparr>]
     [\<lparr>dims = [1, 2, 1, 1], data = replicate 8 NaN\<rparr>] = None"
  by (rule prelu_short_weights [of _ 1 2 1 1]) (simp_all add: block_size_def)

end
