(* ===== verification/Grn.thy ===== *)
theory Grn
  imports Ext_Base Columns
begin

text \<open>
  The \<open>GRN\<close> layer (\<open>extension/ext_grn.cpp\<close>): every position of an image is divided by the
  root of the biased square sum over its channels. \<open>powd\<close> is the C library's \<open>pow\<close> on
  \<open>double\<close>, to which both calls promote their arguments.
\<close>

definition grn_ctor :: "ie_lib \<Rightarrow> cnn_layer \<Rightarrow> exn + ieee \<times> layer_config list" where
  "grn_ctor lib L =
     ebind (throw_if (length (insData L) \<noteq> 1 \<or> outData L = []) ''Incorrect number of input/output edges!'') (\<lambda>_.
     ebind (get_param (p_float L ''bias'')) (\<lambda>bias.
     ebind (addConfig lib L [] [conf3 PLN False 0] [conf3 PLN False 0] False) (\<lambda>cs.
     Inr (bias, cs))))"

definition grn_position ::
    "(ieee \<Rightarrow> ieee \<Rightarrow> ieee) \<Rightarrow> ieee \<Rightarrow> ieee list \<Rightarrow> nat \<Rightarrow> nat \<Rightarrow> nat \<Rightarrow> nat \<Rightarrow> nat \<Rightarrow> nat \<Rightarrow> ieee list \<Rightarrow> ieee list option" where
  "grn_position powd bias src C H W b h w dst = do {
     variance \<leftarrow> loop C (\<lambda>c variance. do {
       v \<leftarrow> rd src (b * C * H * W + c * H * W + h * W + w);
       Some (addd variance (powd v (Fin 2))) }) (Fin 0);
     let variance = powd (addd variance bias) (Fin (1 / 2));
     loop C (\<lambda>c dst. do {
       v \<leftarrow> rd src (b * C * H * W + c * H * W + h * W + w);
       wr dst (b * C * H * W + c * H * W + h * W + w) (cvt b32 (divd v variance)) }) dst
   }"

definition grn_execute :: "(ieee \<Rightarrow> ieee \<Rightarrow> ieee) \<Rightarrow> ieee \<Rightarrow> blob \<Rightarrow> blob \<Rightarrow> (status \<times> blob) option" where
  "grn_execute powd bias inp out =
     (let N = dim_or_one (dims inp) 0; C = dim_or_one (dims inp) 1;
          H = dim_or_one (dims inp) 2; W = dim_or_one (dims inp) 3 in do {
        d \<leftarrow> loop N (\<lambda>b. loop H (\<lambda>h. loop W (grn_position powd bias (data inp) C H W b h))) (data out);
        Some (OK, out\<lparr>data := d\<rparr>)
      })"

section \<open>Columns\<close>

text \<open>What the layer does to the channels of one position.\<close>

definition grn_norm :: "(ieee \<Rightarrow> ieee \<Rightarrow> ieee) \<Rightarrow> ieee \<Rightarrow> ieee list \<Rightarrow> ieee" where
  "grn_norm powd bias col =
     powd (addd (foldl (\<lambda>s x. addd s (powd x (Fin 2))) (Fin 0) col) bias) (Fin (1 / 2))"

definition grn_col :: "(ieee \<Rightarrow> ieee \<Rightarrow> ieee) \<Rightarrow> ieee \<Rightarrow> ieee list \<Rightarrow> ieee list" where
  "grn_col powd bias col = map (\<lambda>x. cvt b32 (divd x (grn_norm powd bias col))) col"

lemma grn_position_ok:
  assumes h: "h < H" and w: "w < W" and b: "b < N"
    and room: "N * C * (H * W) \<le> length src" "N * C * (H * W) \<le> length dst"
  shows "ok (grn_position powd bias src C H W b h w dst)
    (cells (\<lambda>c. 0 + b * C * (H * W) + c * (H * W) + (h * W + w)) 1 C dst
      (\<lambda>c j. grn_col powd bias (column src 0 b C (H * W) (h * W + w + j)) ! c))"
proof -
  have P: "b * C * H * W + c * H * W + h * W + w = 0 + b * C * (H * W) + c * (H * W) + (h * W + w)" for c
    by (simp add: algebra_simps)
  have hw: "h * W + w < H * W" using index2_less [OF h w] .
  show ?thesis
    unfolding grn_position_def P Let_def
    by (rule scalar_pass [OF hw b _ _ refl]) (use room in \<open>simp_all add: grn_col_def grn_norm_def column_def\<close>)
qed

text \<open>
  For an input and an output of the promised volume the layer stays inside its buffers,
  returns OK, and every position's channels are the old ones divided by their norm.
\<close>

theorem grn_execute_spec:
  assumes dims: "dims inp = [N, C, H, W]"
    and vol: "length (data inp) = N * C * (H * W)" "length (data out) = N * C * (H * W)"
  shows "\<exists>d. grn_execute powd bias inp out = Some (OK, out\<lparr>data := d\<rparr>) \<and> length d = N * C * (H * W) \<and>
    (\<forall>b < N. \<forall>i < H * W. column d 0 b C (H * W) i = grn_col powd bias (column (data inp) 0 b C (H * W) i))"
proof -
  let ?src = "data inp" and ?HW = "H * W"
  define S where "S = (\<lambda>b i. grn_position powd bias ?src C H W b (i div W) (i mod W))"
  have flat: "loop H (\<lambda>h. loop W (grn_position powd bias ?src C H W b h)) = loop ?HW (S b)" for b
    unfolding S_def by (rule loop_div_mod)
  have "ok (loop N (\<lambda>b d. loop 0 (\<lambda>_. Some) d \<bind> loop (?HW - 0 * 0) (\<lambda>q. S b (0 * 0 + q))) (data out))
      (filled (\<lambda>_. grn_col powd bias) ?src 0 N C ?HW (data out) (\<lambda>b i. True))"
  proof (rule columns_blocked)
    fix b i and d :: "ieee list" assume b: "b < N" and i: "i < ?HW" and len: "length d = length (data out)"
    have "0 < W" using i by (cases W) simp_all
    then have hw: "i div W < H" "i mod W < W" using i by (simp_all add: less_mult_imp_div_less)
    show "ok (S b i d) (cells (\<lambda>c. 0 + b * C * ?HW + c * ?HW + i) 1 C d
        (\<lambda>c j. grn_col powd bias (column ?src 0 b C ?HW (i + j)) ! c))"
      using grn_position_ok [OF hw b, of C ?src d powd bias] vol len by (simp add: S_def)
  qed (use vol in simp_all)
  then obtain d where d: "loop N (\<lambda>b. loop ?HW (S b)) (data out) = Some d"
    "filled (\<lambda>_. grn_col powd bias) ?src 0 N C ?HW (data out) (\<lambda>b i. True) d"
    by (auto elim!: okE)
  then show ?thesis
    using filled_columns [OF d(2)] vol
    by (auto simp: grn_execute_def dim_or_one_def dims flat filled_def grn_col_def column_def)
qed

theorem grn_execute_spec_witness:
  "\<exists>d. grn_execute (\<lambda>x _. fabs x) (Fin 1) \<lparr>dims = [1, 2, 1, 3], data = replicate 6 (Fin 2)\<rparr>
      \<lparr>dims = [1, 2, 1, 3], data = replicate 6 NaN\<rparr> = Some (OK, \<lparr>dims = [1, 2, 1, 3], data = d\<rparr>) \<and> length d = 6"
  using grn_execute_spec [of "\<lparr>dims = [1, 2, 1, 3], data = replicate 6 (Fin 2)\<rparr>" 1 2 1 3
      "\<lparr>dims = [1, 2, 1, 3], data = replicate 6 NaN\<rparr>" "\<lambda>x _. fabs x" "Fin 1"] by auto

end
