(* ===== verification/Mvn.thy ===== *)
theory Mvn
  imports Ext_Base
begin

text \<open>
  The \<open>MVN\<close> layer (\<open>extension/ext_mvn.cpp\<close>): mean and variance normalisation of whole images or of
  single channels. Sums run in \<open>double\<close>; \<open>powd\<close> is the C library's \<open>pow\<close>. The parallel
  reductions add in the order of the loop.
\<close>

section \<open>The layer\<close>

record mvn_cfg =
  across_channels :: bool
  normalize_variance :: bool
  mvn_eps :: ieee

definition mvn_ctor :: "ie_lib \<Rightarrow> cnn_layer \<Rightarrow> exn + mvn_cfg \<times> layer_config list" where
  "mvn_ctor lib L =
     ebind (throw_if (length (insData L) \<noteq> 1 \<or> outData L = []) ''Incorrect number of input/output edges!'') (\<lambda>_.
     ebind (get_param (p_int L ''across_channels'')) (\<lambda>ac.
     ebind (get_param (p_int L ''normalize_variance'')) (\<lambda>nv.
     ebind (get_param (p_float L ''eps'')) (\<lambda>e.
     ebind (addConfig lib L [] [conf3 PLN False 0] [conf3 PLN False 0] False) (\<lambda>cs.
     Inr (\<lparr>across_channels = (ac \<noteq> 0), normalize_variance = (nv \<noteq> 0), mvn_eps = e\<rparr>, cs))))))"

text \<open>The two loops over the rows and the elements of a channel: accumulating, and storing.\<close>

definition plane_fold ::
    "(ieee \<Rightarrow> ieee \<Rightarrow> ieee) \<Rightarrow> ieee list \<Rightarrow> nat \<Rightarrow> nat \<Rightarrow> nat \<Rightarrow> ieee \<Rightarrow> ieee option" where
  "plane_fold F xs base H W = loop H (\<lambda>h. loop W (\<lambda>w acc. do {
     v \<leftarrow> rd xs (base + h * W + w);
     Some (F acc v) }))"

definition plane_map ::
    "(ieee \<Rightarrow> ieee) \<Rightarrow> ieee list \<Rightarrow> nat \<Rightarrow> nat \<Rightarrow> nat \<Rightarrow> ieee list \<Rightarrow> ieee list option" where
  "plane_map F src base H W = loop H (\<lambda>h. loop W (\<lambda>w dst. do {
     v \<leftarrow> rd src (base + h * W + w);
     wr dst (base + h * W + w) (F v) }))"

definition plane_update :: "(ieee \<Rightarrow> ieee) \<Rightarrow> nat \<Rightarrow> nat \<Rightarrow> nat \<Rightarrow> ieee list \<Rightarrow> ieee list option" where
  "plane_update F base H W = loop H (\<lambda>h. loop W (\<lambda>w dst. do {
     v \<leftarrow> rd dst (base + h * W + w);
     wr dst (base + h * W + w) (F v) }))"

definition mvn_center :: "bool \<Rightarrow> ieee list \<Rightarrow> nat \<Rightarrow> nat \<Rightarrow> nat \<Rightarrow> nat \<Rightarrow> ieee list \<Rightarrow> ieee list option" where
  "mvn_center across src C H W b dst =
     (if across then do {
        mean \<leftarrow> loop C (\<lambda>c. plane_fold addd src (b * C * H * W + c * H * W) H W) (Fin 0);
        let mean = divd mean (of_z b64 (int (C * H * W)));
        loop C (\<lambda>c. plane_map (\<lambda>v. cvt b32 (subd v mean)) src (b * C * H * W + c * H * W) H W) dst
      } else
        loop C (\<lambda>c dst. do {
          mean \<leftarrow> plane_fold addd src (b * C * H * W + c * H * W) H W (Fin 0);
          let mean = divd mean (of_z b64 (int (H * W)));
          plane_map (\<lambda>v. cvt b32 (subd v mean)) src (b * C * H * W + c * H * W) H W dst }) dst)"

definition mvn_variance :: "(ieee \<Rightarrow> ieee \<Rightarrow> ieee) \<Rightarrow> ieee \<Rightarrow> nat \<Rightarrow> ieee \<Rightarrow> ieee" where
  "mvn_variance powd eps n s = addd (powd (divd s (of_z b64 (int n))) (Fin (1 / 2))) eps"

definition mvn_scale ::
    "(ieee \<Rightarrow> ieee \<Rightarrow> ieee) \<Rightarrow> ieee \<Rightarrow> bool \<Rightarrow> nat \<Rightarrow> nat \<Rightarrow> nat \<Rightarrow> nat \<Rightarrow> ieee list \<Rightarrow> ieee list option" where
  "mvn_scale powd eps across C H W b dst =
     (if across then do {
        s \<leftarrow> loop C (\<lambda>c. plane_fold (\<lambda>s v. addd s (powd v (Fin 2))) dst (b * C * H * W + c * H * W) H W) (Fin 0);
        let variance = mvn_variance powd eps (C * H * W) s;
        loop C (\<lambda>c. plane_update (\<lambda>v. cvt b32 (divd v variance)) (b * C * H * W + c * H * W) H W) dst
      } else
        loop C (\<lambda>c dst. do {
          s \<leftarrow> plane_fold (\<lambda>s v. addd s (powd v (Fin 2))) dst (b * C * H * W + c * H * W) H W (Fin 0);
          let variance = mvn_variance powd eps (H * W) s;
          plane_update (\<lambda>v. cvt b32 (divd v variance)) (b * C * H * W + c * H * W) H W dst }) dst)"

definition mvn_execute :: "(ieee \<Rightarrow> ieee \<Rightarrow> ieee) \<Rightarrow> mvn_cfg \<Rightarrow> blob \<Rightarrow> blob \<Rightarrow> (status \<times> blob) option" where
  "mvn_execute powd cfg inp out =
     (let N = dim_or_one (dims inp) 0; C = dim_or_one (dims inp) 1;
          H = dim_or_one (dims inp) 2; W = dim_or_one (dims inp) 3 in do {
        d \<leftarrow> loop N (mvn_center (across_channels cfg) (data inp) C H W) (data out);
        d \<leftarrow> (if normalize_variance cfg
             then loop N (mvn_scale powd (mvn_eps cfg) (across_channels cfg) C H W) d else Some d);
        Some (OK, out\<lparr>data := d\<rparr>)
      })"

section \<open>Segments\<close>

definition seg :: "'a list \<Rightarrow> nat \<Rightarrow> nat \<Rightarrow> 'a list" where
  "seg xs p n = take n (drop p xs)"

lemma length_seg [simp]: "p + n \<le> length xs \<Longrightarrow> length (seg xs p n) = n"
  by (simp add: seg_def)

lemma seg_map: "p + n \<le> length xs \<Longrightarrow> seg xs p n = map (\<lambda>k. xs ! (p + k)) [0..<n]"
  by (rule nth_equalityI) (auto simp: seg_def)

lemma loop_fold:
  assumes "p + n \<le> length xs"
  shows "loop n (\<lambda>k acc. do { v \<leftarrow> rd xs (p + k); Some (F acc v) }) a = Some (foldl F a (seg xs p n))"
proof -
  have "ok (loop n (\<lambda>k acc. do { v \<leftarrow> rd xs (p + k); Some (F acc v) }) a)
      (\<lambda>r. r = foldl F a (map (\<lambda>k. xs ! (p + k)) [0..<n]))"
    by (rule loop_ok [where I = "\<lambda>n r. r = foldl F a (map (\<lambda>k. xs ! (p + k)) [0..<n])"])
      (use assms in \<open>simp_all add: wp\<close>)
  then show ?thesis by (simp add: ok_eq_Some seg_map [OF assms])
qed

lemma loop_store:
  assumes "p + n \<le> length src" and "p + n \<le> length dst"
  shows "loop n (\<lambda>k d. do { v \<leftarrow> rd src (p + k); wr d (p + k) (F v) }) dst = Some (put dst p (map F (seg src p n)))"
proof -
  have "loop n (\<lambda>k d. do { v \<leftarrow> rd src (p + k); wr d (p + k) (F v) }) dst =
      Some (put dst p (map (\<lambda>k. F (src ! (p + k))) [0..<n]))"
    by (rule loop_wr [where L = "length dst"]) (use assms in \<open>simp_all add: rd_Some wr_Some\<close>)
  then show ?thesis by (simp add: seg_map [OF assms(1)] comp_def)
qed

text \<open>An update in place reads every element before it is written.\<close>

lemma loop_update:
  assumes "p + n \<le> length dst"
  shows "loop n (\<lambda>k d. do { v \<leftarrow> rd d (p + k); wr d (p + k) (F v) }) dst = Some (put dst p (map F (seg dst p n)))"
proof -
  let ?ys = "\<lambda>n. map (\<lambda>k. F (dst ! (p + k))) [0..<n]"
  have "ok (loop n (\<lambda>k d. do { v \<leftarrow> rd d (p + k); wr d (p + k) (F v) }) dst) (\<lambda>d. d = put dst p (?ys n))"
  proof (rule loop_ok [where I = "\<lambda>n d. d = put dst p (?ys n)"])
    fix k d assume k: "k < n" and d: "d = put dst p (?ys k)"
    have "rd d (p + k) = Some (dst ! (p + k))" using assms k by (simp add: d rd_Some nth_put_if)
    moreover have "wr d (p + k) v = Some (put dst p (?ys k @ [v]))" for v
      using assms k wr_put [of p "?ys k" dst v] by (simp add: d)
    ultimately show "ok (rd d (p + k) \<bind> (\<lambda>v. wr d (p + k) (F v))) (\<lambda>d. d = put dst p (?ys (Suc k)))" by simp
  qed simp
  then show ?thesis by (simp add: ok_eq_Some seg_map [OF assms] comp_def)
qed

lemma seg_put_same: "p + length ys \<le> length xs \<Longrightarrow> seg (put xs p ys) p (length ys) = ys"
  by (simp add: seg_def take_drop_put)

lemma seg_put_other:
  "q + length ys \<le> length xs \<Longrightarrow> p + n \<le> q \<or> q + length ys \<le> p \<Longrightarrow> seg (put xs q ys) p n = seg xs p n"
  unfolding seg_def by (rule segment_put_other)

text \<open>A loop that overwrites the segments of a buffer one after the other.\<close>

lemma loop_overwrite:
  assumes "\<And>j d. j < m \<Longrightarrow> length d = m * n \<Longrightarrow> f j d = Some (put d (j * n) (g j))"
    and "\<And>j. j < m \<Longrightarrow> length (g j) = n" and "length xs = m * n"
  shows "loop m f xs = Some (concat (map g [0..<m]))"
  using loop_put [of m "m * n" f 0 n g xs] length_concat_same [of m g n] assms by (simp add: put_all)

text \<open>A loop that transforms the segments of a buffer one after the other.\<close>

lemma loop_segments:
  assumes step: "\<And>j d. j < m \<Longrightarrow> length d = m * n \<Longrightarrow> f j d = Some (put d (j * n) (G j (seg d (j * n) n)))"
    and len: "\<And>j s. length s = n \<Longrightarrow> length (G j s) = n" and xs: "length xs = m * n"
  shows "loop m f xs = Some (concat (map (\<lambda>j. G j (seg xs (j * n) n)) [0..<m]))"
proof -
  let ?ys = "\<lambda>m. concat (map (\<lambda>j. G j (seg xs (j * n) n)) [0..<m])"
  have sl: "length (seg xs (j * n) n) = n" if "j < m" for j
    using slot_end_nat [OF that, of n] xs by simp
  have cl: "length (?ys i) = i * n" if "i \<le> m" for i
    using that by (intro length_concat_same) (simp add: len sl)
  have "ok (loop m f xs) (\<lambda>d. d = put xs 0 (?ys m))"
  proof (rule loop_ok [where I = "\<lambda>i d. d = put xs 0 (?ys i)"])
    fix i d assume i: "i < m" and d: "d = put xs 0 (?ys i)"
    have room: "i * n + n \<le> m * n" using slot_end_nat [OF i] .
    have ld: "length d = m * n" using cl [of i] i xs room by (simp add: d)
    have "seg d (i * n) n = seg xs (i * n) n"
      unfolding d by (rule seg_put_other) (use cl [of i] i xs room in simp_all)
    moreover have "put d (i * n) (G i (seg xs (i * n) n)) = put xs 0 (?ys (Suc i))"
      using put_app [of 0 "?ys i" "G i (seg xs (i * n) n)" xs] cl [of i] i xs room len sl by (simp add: d)
    ultimately show "ok (f i d) (\<lambda>d. d = put xs 0 (?ys (Suc i)))"
      using step [OF i ld] by simp
  qed simp
  then show ?thesis using cl [of m] xs by (simp add: ok_eq_Some put_def)
qed

section \<open>Planes\<close>

lemma plane_fold_eq:
  "base + H * W \<le> length xs \<Longrightarrow> plane_fold F xs base H W a = Some (foldl F a (seg xs base (H * W)))"
  unfolding plane_fold_def loop_div_mod add.assoc div_mult_mod_eq by (rule loop_fold)

lemma planes_fold_eq:
  assumes "p + C * (H * W) \<le> length xs"
  shows "loop C (\<lambda>c. plane_fold F xs (p + c * H * W) H W) a = Some (foldl F a (seg xs p (C * (H * W))))"
  unfolding plane_fold_def loop_div_mod add.assoc mult.assoc div_mult_mod_eq by (rule loop_fold [OF assms])

lemma plane_map_eq:
  "base + H * W \<le> length src \<Longrightarrow> base + H * W \<le> length dst \<Longrightarrow>
   plane_map F src base H W dst = Some (put dst base (map F (seg src base (H * W))))"
  unfolding plane_map_def loop_div_mod add.assoc div_mult_mod_eq by (rule loop_store)

lemma planes_map_eq:
  assumes "p + C * (H * W) \<le> length src" and "p + C * (H * W) \<le> length dst"
  shows "loop C (\<lambda>c. plane_map F src (p + c * H * W) H W) dst = Some (put dst p (map F (seg src p (C * (H * W)))))"
  unfolding plane_map_def loop_div_mod add.assoc mult.assoc div_mult_mod_eq by (rule loop_store [OF assms])

lemma plane_update_eq:
  "base + H * W \<le> length dst \<Longrightarrow> plane_update F base H W dst = Some (put dst base (map F (seg dst base (H * W))))"
  unfolding plane_update_def loop_div_mod add.assoc div_mult_mod_eq by (rule loop_update)

lemma planes_update_eq:
  assumes "p + C * (H * W) \<le> length dst"
  shows "loop C (\<lambda>c. plane_update F (p + c * H * W) H W) dst = Some (put dst p (map F (seg dst p (C * (H * W)))))"
  unfolding plane_update_def loop_div_mod add.assoc mult.assoc div_mult_mod_eq by (rule loop_update [OF assms])

section \<open>Groups\<close>

text \<open>
  What happens to a group of values that is normalised together: its mean is subtracted, and
  it is divided by the root of its mean square.
\<close>

definition centered :: "ieee list \<Rightarrow> ieee list" where
  "centered xs = (let mean = divd (foldl addd (Fin 0) xs) (of_z b64 (int (length xs)))
     in map (\<lambda>x. cvt b32 (subd x mean)) xs)"

definition scaled :: "(ieee \<Rightarrow> ieee \<Rightarrow> ieee) \<Rightarrow> ieee \<Rightarrow> ieee list \<Rightarrow> ieee list" where
  "scaled powd eps xs = (let variance = mvn_variance powd eps (length xs) (foldl (\<lambda>s v. addd s (powd v (Fin 2))) (Fin 0) xs)
     in map (\<lambda>x. cvt b32 (divd x variance)) xs)"

definition mvn_group :: "(ieee \<Rightarrow> ieee \<Rightarrow> ieee) \<Rightarrow> mvn_cfg \<Rightarrow> ieee list \<Rightarrow> ieee list" where
  "mvn_group powd cfg xs = (if normalize_variance cfg then scaled powd (mvn_eps cfg) (centered xs) else centered xs)"

lemma length_group [simp]: "length (centered xs) = length xs" "length (scaled powd eps xs) = length xs"
  by (simp_all add: centered_def scaled_def Let_def)

lemma seg_concat:
  assumes "g < m" and "\<And>j. j < m \<Longrightarrow> length (h j) = n"
  shows "seg (concat (map h [0..<m])) (g * n) n = h g"
proof -
  have "[0..<m] = [0..<g] @ g # [Suc g..<m]"
    using upt_add_eq_append [of 0 g "m - g"] upt_conv_Cons [of g m] assms(1) by simp
  moreover have "length (concat (map h [0..<g])) = g * n"
    using assms by (intro length_concat_same) simp
  ultimately show ?thesis using assms by (simp add: seg_def)
qed

text \<open>The number of groups, and their size.\<close>

definition groups :: "bool \<Rightarrow> nat \<Rightarrow> nat \<Rightarrow> nat" where
  "groups across N C = (if across then N else N * C)"

definition group_size :: "bool \<Rightarrow> nat \<Rightarrow> nat \<Rightarrow> nat \<Rightarrow> nat" where
  "group_size across C H W = (if across then C * (H * W) else H * W)"

lemma groups_volume: "groups across N C * group_size across C H W = N * C * (H * W)"
  by (simp add: groups_def group_size_def)

lemma center_group:
  assumes "p + n \<le> length src"
  shows "map (\<lambda>v. cvt b32 (subd v (divd (foldl addd (Fin 0) (seg src p n)) (of_z b64 (int n))))) (seg src p n) =
    centered (seg src p n)"
  using assms by (simp add: centered_def)

lemma scale_group:
  assumes "p + n \<le> length xs"
  shows "map (\<lambda>v. cvt b32 (divd v (mvn_variance powd eps n
      (foldl (\<lambda>s v. addd s (powd v (Fin 2))) (Fin 0) (seg xs p n))))) (seg xs p n) = scaled powd eps (seg xs p n)"
  using assms by (simp add: scaled_def)

lemma center_all:
  assumes n_def: "n = group_size across C H W"
    and src: "length src = N * C * (H * W)" and dst: "length dst = N * C * (H * W)"
  shows "loop N (mvn_center across src C H W) dst =
    Some (concat (map (\<lambda>g. centered (seg src (g * n) n)) [0..<groups across N C]))"
proof -
  have vol: "length src = groups across N C * n" "length dst = groups across N C * n"
    by (simp_all only: src dst n_def groups_volume)
  have fits: "g * n + n \<le> length src" "length (centered (seg src (g * n) n)) = n"
    if "g < groups across N C" for g
    using slot_end_nat [OF that, of n] vol by simp_all
  show ?thesis
  proof (cases across)
    case True
    have g: "groups across N C = N" and n: "C * H * W = n" "C * (H * W) = n"
      using True by (simp_all add: groups_def n_def group_size_def)
    show ?thesis
      unfolding g
    proof (rule loop_overwrite)
      fix b and d :: "ieee list" assume b: "b < N" "length d = N * n"
      have p: "b * C * H * W = b * n" by (simp add: n(2) [symmetric])
      have r: "b * n + C * (H * W) \<le> length src" "b * n + C * (H * W) \<le> length d"
        using fits(1) [of b] b vol by (simp_all add: g n(2))
      show "mvn_center across src C H W b d = Some (put d (b * n) (centered (seg src (b * n) n)))"
        unfolding mvn_center_def p n(1) if_P [OF True] planes_fold_eq [OF r(1)] Let_def Option.bind.bind_lunit
          planes_map_eq [OF r] n(2)
        using center_group [of "b * n" n src] r(1) by (simp add: n(2))
    qed (use fits vol g in simp_all)
  next
    case False
    define f where "f = (\<lambda>g dst. do {
      mean \<leftarrow> plane_fold addd src (g * n) H W (Fin 0);
      let mean = divd mean (of_z b64 (int (H * W)));
      plane_map (\<lambda>v. cvt b32 (subd v mean)) src (g * n) H W dst })"
    have g: "groups across N C = N * C" and n: "H * W = n"
      using False by (simp_all add: groups_def n_def group_size_def)
    have "b * C * H * W + c * H * W = (b * C + c) * n" for b c by (simp add: n [symmetric] algebra_simps)
    then have "mvn_center across src C H W = (\<lambda>b. loop C (\<lambda>c. f (b * C + c)))"
      using False by (simp add: mvn_center_def f_def fun_eq_iff)
    then have "loop N (mvn_center across src C H W) dst = loop (N * C) f dst" by (simp add: loop_mult)
    also have "\<dots> = Some (concat (map (\<lambda>g. centered (seg src (g * n) n)) [0..<N * C]))"
    proof (rule loop_overwrite)
      fix k and d :: "ieee list" assume k: "k < N * C" "length d = N * C * n"
      have r: "k * n + H * W \<le> length src" "k * n + H * W \<le> length d"
        using fits(1) [of k] k vol by (simp_all add: g n)
      show "f k d = Some (put d (k * n) (centered (seg src (k * n) n)))"
        unfolding f_def plane_fold_eq [OF r(1)] Let_def Option.bind.bind_lunit plane_map_eq [OF r]
        using center_group [of "k * n" n src] r(1) by (simp add: n)
    qed (use fits vol g in simp_all)
    finally show ?thesis by (simp add: g)
  qed
qed

lemma scale_all:
  assumes n_def: "n = group_size across C H W" and dst: "length dst = N * C * (H * W)"
  shows "loop N (mvn_scale powd eps across C H W) dst =
    Some (concat (map (\<lambda>g. scaled powd eps (seg dst (g * n) n)) [0..<groups across N C]))"
proof -
  have vol: "length dst = groups across N C * n"
    by (simp only: dst n_def groups_volume)
  have fits: "g * n + n \<le> groups across N C * n" if "g < groups across N C" for g
    using slot_end_nat [OF that, of n] by simp
  show ?thesis
  proof (cases across)
    case True
    have g: "groups across N C = N" and n: "C * H * W = n" "C * (H * W) = n"
      using True by (simp_all add: groups_def n_def group_size_def)
    show ?thesis
      unfolding g
    proof (rule loop_segments)
      fix b and d :: "ieee list" assume b: "b < N" "length d = N * n"
      have p: "b * C * H * W = b * n" by (simp add: n(2) [symmetric])
      have r: "b * n + C * (H * W) \<le> length d" using fits [of b] b by (simp add: g n(2))
      show "mvn_scale powd eps across C H W b d = Some (put d (b * n) (scaled powd eps (seg d (b * n) n)))"
        unfolding mvn_scale_def p n(1) if_P [OF True] planes_fold_eq [OF r] Let_def Option.bind.bind_lunit
          planes_update_eq [OF r] n(2)
        using scale_group [of "b * n" n d powd eps] r by (simp add: n(2))
    qed (use vol g in simp_all)
  next
    case False
    define f where "f = (\<lambda>g dst. do {
      s \<leftarrow> plane_fold (\<lambda>s v. addd s (powd v (Fin 2))) dst (g * n) H W (Fin 0);
      let variance = mvn_variance powd eps (H * W) s;
      plane_update (\<lambda>v. cvt b32 (divd v variance)) (g * n) H W dst })"
    have g: "groups across N C = N * C" and n: "H * W = n"
      using False by (simp_all add: groups_def n_def group_size_def)
    have "b * C * H * W + c * H * W = (b * C + c) * n" for b c by (simp add: n [symmetric] algebra_simps)
    then have "mvn_scale powd eps across C H W = (\<lambda>b. loop C (\<lambda>c. f (b * C + c)))"
      using False by (simp add: mvn_scale_def f_def fun_eq_iff)
    then have "loop N (mvn_scale powd eps across C H W) dst = loop (N * C) f dst" by (simp add: loop_mult)
    also have "\<dots> = Some (concat (map (\<lambda>g. scaled powd eps (seg dst (g * n) n)) [0..<N * C]))"
    proof (rule loop_segments)
      fix k and d :: "ieee list" assume k: "k < N * C" "length d = N * C * n"
      have r: "k * n + H * W \<le> length d" using fits [of k] k by (simp add: g n)
      show "f k d = Some (put d (k * n) (scaled powd eps (seg d (k * n) n)))"
        unfolding f_def plane_fold_eq [OF r] Let_def Option.bind.bind_lunit plane_update_eq [OF r]
        using scale_group [of "k * n" n d powd eps] r by (simp add: n)
    qed (use vol g in simp_all)
    finally show ?thesis by (simp add: g)
  qed
qed

text \<open>
  For an input and an output of the promised volume the layer stays inside its buffers,
  returns OK, and its output is the concatenation of the normalised groups of the input: the
  images when it normalises across channels, else the single channels.
\<close>

theorem mvn_execute_spec:
  assumes dims: "dims inp = [N, C, H, W]"
    and vol: "length (data inp) = N * C * (H * W)" "length (data out) = N * C * (H * W)"
  shows "mvn_execute powd cfg inp out = Some (OK, out\<lparr>data :=
    concat (map (\<lambda>g. mvn_group powd cfg (take (group_size (across_channels cfg) C H W)
      (drop (g * group_size (across_channels cfg) C H W) (data inp)))) [0..<groups (across_channels cfg) N C])\<rparr>)"
proof -
  define n where "n = group_size (across_channels cfg) C H W"
  let ?G = "groups (across_channels cfg) N C"
  let ?h = "\<lambda>g. centered (seg (data inp) (g * n) n)"
  have len: "length (?h g) = n" if "g < ?G" for g
    using slot_end_nat [OF that, of n] vol groups_volume [of "across_channels cfg" N C H W] by (simp add: n_def)
  note center = center_all [OF n_def vol]
  have "length (concat (map ?h [0..<?G])) = N * C * (H * W)"
    using length_concat_same [of ?G ?h n] len groups_volume by (simp add: n_def)
  note scale = scale_all [OF n_def this, of powd "mvn_eps cfg"]
  have eq: "map (\<lambda>g. scaled powd (mvn_eps cfg) (seg (concat (map ?h [0..<?G])) (g * n) n)) [0..<?G] =
      map (\<lambda>g. scaled powd (mvn_eps cfg) (?h g)) [0..<?G]"
    using seg_concat [of _ ?G ?h n] len by simp
  show ?thesis
    using center scale [unfolded eq]
    by (simp add: mvn_execute_def dim_or_one_def dims mvn_group_def n_def [symmetric] seg_def [symmetric] Let_def)
qed

theorem mvn_execute_spec_witness:
  "\<exists>d. mvn_execute (\<lambda>x _. x) \<lparr>across_channels = False, normalize_variance = True, mvn_eps = Fin 1\<rparr>
     \<lparr>dims = [1, 2, 1, 3], data = replicate 6 (Fin 2)\<rparr> \<lparr>dims = [1, 2, 1, 3], data = replicate 6 NaN\<rparr> =
     Some (OK, \<lparr>dims = [1, 2, 1, 3], data = d\<rparr>)"
  using mvn_execute_spec [of "\<lparr>dims = [1, 2, 1, 3], data = replicate 6 (Fin 2)\<rparr>" 1 2 1 3
      "\<lparr>dims = [1, 2, 1, 3], data = replicate 6 NaN\<rparr>" "\<lambda>x _. x"
      "\<lparr>across_channels = False, normalize_variance = True, mvn_eps = Fin 1\<rparr>"] by auto

end
