(* ===== verification/Normalize.thy ===== *)
theory Normalize
  imports Ext_Base Columns Softmax
begin

text \<open>
  The \<open>Normalize\<close> layer (\<open>extension/ext_normalize.cpp\<close>) in its AVX2, SSE and scalar builds:
  division by the Euclidean norm of a whole image or of the channels at a position, and a
  scale per channel. A register is the list of its lanes.
\<close>

section \<open>The layer\<close>

record norm_cfg =
  norm_weights :: "ieee list"
  across_spatial :: bool
  channel_shared :: bool
  norm_eps :: ieee

definition norm_ctor :: "ie_lib \<Rightarrow> string \<Rightarrow> cnn_layer \<Rightarrow> exn + norm_cfg \<times> layer_config list" where
  "norm_ctor lib lname L =
     ebind (throw_if (length (insData L) \<noteq> 1 \<or> length (outData L) \<noteq> 1) ''Incorrect number of input/output edges!'') (\<lambda>_.
     ebind (case weights_blob L of None \<Rightarrow> Inl (IeException (lname @ '' weights is empty!'')) | Some w \<Rightarrow> Inr w) (\<lambda>w.
     ebind (get_param (p_int L ''across_spatial'')) (\<lambda>ac.
     ebind (get_param (p_int L ''channel_shared'')) (\<lambda>sh.
     ebind (get_param (p_float L ''eps'')) (\<lambda>e.
     ebind (addConfig lib L [] [conf3 PLN False 0] [conf3 PLN False 0] True) (\<lambda>cs.
     Inr (\<lparr>norm_weights = w, across_spatial = (ac \<noteq> 0), channel_shared = (sh \<noteq> 0), norm_eps = e\<rparr>, cs)))))))"

definition hsum_sse :: "ieee list \<Rightarrow> ieee" where
  "hsum_sse v =
     (let shuf = [v ! 1, v ! 1, v ! 3, v ! 3]; s = map2 addf v shuf; shuf = [s ! 2, s ! 3, shuf ! 2, shuf ! 3]
      in addf (s ! 0) (shuf ! 0))"

definition hsum_avx2 :: "ieee list \<Rightarrow> ieee" where
  "hsum_avx2 v = hsum_sse (map2 addf (take 4 v) (drop 4 v))"

text \<open>One lane of the sum of squares, in a register and in a scalar loop.\<close>

definition square_vec :: "build \<Rightarrow> ieee \<Rightarrow> ieee \<Rightarrow> ieee" where
  "square_vec bld acc x = (case bld of AVX2 _ \<Rightarrow> fma b32 x x acc | _ \<Rightarrow> addf (mulf x x) acc)"

definition square_sca :: "ieee \<Rightarrow> ieee \<Rightarrow> ieee" where
  "square_sca acc x = addf acc (mulf x x)"

definition inv_sqrt :: "ieee \<Rightarrow> ieee" where
  "inv_sqrt v = divf (Fin 1) (fsqrt b32 v)"

text \<open>The norm of an image of \<open>n\<close> elements from \<open>psrc\<close> on.\<close>

definition image_norm :: "build \<Rightarrow> ieee \<Rightarrow> ieee list \<Rightarrow> nat \<Rightarrow> nat \<Rightarrow> ieee option" where
  "image_norm bld eps src psrc n =
     (let l = simd_lanes bld; q = (if l = 0 then 0 else n div l) in do {
        vsum \<leftarrow> loop q (\<lambda>i vsum. do {
          vsrc \<leftarrow> loadu l src (psrc + i * l);
          Some (map2 (square_vec bld) vsum vsrc) }) (replicate l (Fin 0));
        let norm = (case bld of AVX2 _ \<Rightarrow> addf eps (hsum_avx2 vsum) | SSE \<Rightarrow> addf eps (hsum_sse vsum) | NoSIMD \<Rightarrow> eps);
        norm \<leftarrow> loop (n - q * l) (\<lambda>i norm. do {
          v \<leftarrow> rd src (psrc + (q * l + i));
          Some (square_sca norm v) }) norm;
        Some (inv_sqrt norm)
      })"

definition scale_channel ::
    "build \<Rightarrow> norm_cfg \<Rightarrow> ieee \<Rightarrow> ieee list \<Rightarrow> nat \<Rightarrow> nat \<Rightarrow> nat \<Rightarrow> ieee list \<Rightarrow> ieee list option" where
  "scale_channel bld cfg nrm src psrc HW c dst =
     (let l = simd_lanes bld; q = (if l = 0 then 0 else HW div l); k = (if channel_shared cfg then 0 else c) in do {
        dst \<leftarrow> (if l = 0 then Some dst else do {
          s \<leftarrow> rd (norm_weights cfg) k;
          let vnorm = mulf nrm s;
          loop q (\<lambda>i dst. do {
            vsrc \<leftarrow> loadu l src (psrc + c * HW + i * l);
            blit dst (psrc + c * HW + i * l) (map (\<lambda>v. mulf v vnorm) vsrc) }) dst });
        loop (HW - q * l) (\<lambda>i dst. do {
          s \<leftarrow> rd (norm_weights cfg) k;
          v \<leftarrow> rd src (psrc + c * HW + (q * l + i));
          wr dst (psrc + c * HW + (q * l + i)) (mulf (mulf v nrm) s) }) dst
      })"

text \<open>The channels of the \<open>l\<close> positions from \<open>wh\<close> on, and of one position.\<close>

definition norm_block ::
    "build \<Rightarrow> norm_cfg \<Rightarrow> ieee list \<Rightarrow> nat \<Rightarrow> nat \<Rightarrow> nat \<Rightarrow> nat \<Rightarrow> ieee list \<Rightarrow> ieee list option" where
  "norm_block bld cfg src psrc C HW wh dst =
     (let l = simd_lanes bld in do {
        vnorm \<leftarrow> loop C (\<lambda>c vnorm. do {
          vsrc \<leftarrow> loadu l src (psrc + c * HW + wh);
          Some (map2 (square_vec bld) vnorm vsrc) }) (replicate l (norm_eps cfg));
        let vnorm = map inv_sqrt vnorm;
        loop C (\<lambda>c dst. do {
          s \<leftarrow> rd (norm_weights cfg) (if channel_shared cfg then 0 else c);
          vsrc \<leftarrow> loadu l src (psrc + c * HW + wh);
          blit dst (psrc + c * HW + wh) (map2 (\<lambda>n v. mulf (mulf v n) s) vnorm vsrc) }) dst
      })"

definition norm_position ::
    "norm_cfg \<Rightarrow> ieee list \<Rightarrow> nat \<Rightarrow> nat \<Rightarrow> nat \<Rightarrow> nat \<Rightarrow> ieee list \<Rightarrow> ieee list option" where
  "norm_position cfg src psrc C HW wh dst = do {
     norm \<leftarrow> loop C (\<lambda>c norm. do {
       v \<leftarrow> rd src (psrc + c * HW + wh);
       Some (square_sca norm v) }) (norm_eps cfg);
     let norm = inv_sqrt norm;
     loop C (\<lambda>c dst. do {
       s \<leftarrow> rd (norm_weights cfg) (if channel_shared cfg then 0 else c);
       v \<leftarrow> rd src (psrc + c * HW + wh);
       wr dst (psrc + c * HW + wh) (mulf (mulf v norm) s) }) dst
   }"

definition norm_execute :: "build \<Rightarrow> norm_cfg \<Rightarrow> blob list \<Rightarrow> blob list \<Rightarrow> (status \<times> blob list) option" where
  "norm_execute bld cfg inputs outputs =
     (if length inputs \<noteq> 1 \<or> outputs = [] then Some (GENERAL_ERROR, outputs)
      else let src = data (inputs ! 0); ds = dims (inputs ! 0); l = simd_lanes bld in do {
        N \<leftarrow> rd ds 0;
        C \<leftarrow> rd ds 1;
        H \<leftarrow> rd ds 2;
        W \<leftarrow> rd ds 3;
        let HW = H * W; q = (if l = 0 then 0 else HW div l) in do {
        d \<leftarrow> loop N (\<lambda>n dst.
          if across_spatial cfg then do {
            norm \<leftarrow> image_norm bld (norm_eps cfg) src (n * C * HW) (C * HW);
            loop C (scale_channel bld cfg norm src (n * C * HW) HW) dst
          } else do {
            dst \<leftarrow> loop q (\<lambda>i. norm_block bld cfg src (n * C * HW) C HW (i * l)) dst;
            loop (HW - q * l) (\<lambda>i. norm_position cfg src (n * C * HW) C HW (q * l + i)) dst
          }) (data (outputs ! 0));
        Some (OK, (outputs ! 0)\<lparr>data := d\<rparr> # tl outputs) }
      })"

definition norm_getShapes :: "'a list \<Rightarrow> 'a list \<Rightarrow> (status \<times> 'a list) option" where
  "norm_getShapes inShapes outShapes = do {
     s \<leftarrow> rd inShapes 0;
     Some (OK, outShapes @ [s])
   }"

section \<open>Reference\<close>

text \<open>The scale of channel \<open>c\<close>, and the number of positions that registers cover.\<close>

definition norm_scale :: "norm_cfg \<Rightarrow> nat \<Rightarrow> ieee" where
  "norm_scale cfg c = norm_weights cfg ! (if channel_shared cfg then 0 else c)"

definition vec_upto :: "build \<Rightarrow> nat \<Rightarrow> nat" where
  "vec_upto bld n = (if simd_lanes bld = 0 then 0 else n div simd_lanes bld * simd_lanes bld)"

text \<open>The sums of the lanes; the norm of an image given as a list.\<close>

definition lane_sums :: "build \<Rightarrow> ieee list \<Rightarrow> nat \<Rightarrow> ieee list" where
  "lane_sums bld xs q = map (\<lambda>j. foldl (square_vec bld) (Fin 0)
     (map (\<lambda>i. xs ! (i * simd_lanes bld + j)) [0..<q])) [0..<simd_lanes bld]"

definition list_norm :: "build \<Rightarrow> ieee \<Rightarrow> ieee list \<Rightarrow> ieee" where
  "list_norm bld eps xs =
     (let vs = lane_sums bld xs (length xs div simd_lanes bld) in
      inv_sqrt (foldl square_sca
        (case bld of AVX2 _ \<Rightarrow> addf eps (hsum_avx2 vs) | SSE \<Rightarrow> addf eps (hsum_sse vs) | NoSIMD \<Rightarrow> eps)
        (drop (vec_upto bld (length xs)) xs)))"

text \<open>The value the layer gives to element \<open>i\<close> of channel \<open>c\<close> of image \<open>b\<close>.\<close>

definition norm_value :: "build \<Rightarrow> norm_cfg \<Rightarrow> ieee list \<Rightarrow> nat \<Rightarrow> nat \<Rightarrow> nat \<Rightarrow> nat \<Rightarrow> nat \<Rightarrow> ieee" where
  "norm_value bld cfg src C HW b c i =
     (let x = src ! (b * C * HW + c * HW + i); s = norm_scale cfg c in
      if across_spatial cfg then
        let n = list_norm bld (norm_eps cfg) (take (C * HW) (drop (b * C * HW) src))
        in if i < vec_upto bld HW then mulf x (mulf n s) else mulf (mulf x n) s
      else
        let sq = (if i < vec_upto bld HW then square_vec bld else square_sca)
        in mulf (mulf x (inv_sqrt (foldl sq (norm_eps cfg) (column src 0 b C HW i)))) s)"

lemma vec_upto_eq: "(if simd_lanes bld = 0 then 0 else n div simd_lanes bld) * simd_lanes bld = vec_upto bld n"
  by (simp add: vec_upto_def)

lemma vec_upto_le: "vec_upto bld n \<le> n"
  by (simp add: vec_upto_def)

lemma image_norm_eq:
  assumes room: "p + n \<le> length src"
  shows "image_norm bld eps src p n = Some (list_norm bld eps (take n (drop p src)))"
proof -
  define xs where "xs = take n (drop p src)"
  define l where "l = simd_lanes bld"
  define q where "q = (if l = 0 then 0 else n div l)"
  have len: "length xs = n" using room by (simp add: xs_def)
  have ql: "q * l = vec_upto bld n" "q * l \<le> n" by (simp_all add: q_def l_def vec_upto_def)
  have nth: "src ! (p + k) = xs ! k" if "k < n" for k using that room by (simp add: xs_def)
  have lane: "loadu l src (p + i * l) = Some (map (\<lambda>j. xs ! (i * l + j)) [0..<l])" if "i < q" for i
  proof -
    have "i * l + l \<le> n" using slot_end_nat [OF that, of l] ql(2) by simp
    then show ?thesis using room loadu_eq [of "p + i * l" l src] nth by (simp add: add.assoc)
  qed
  have "ok (loop q (\<lambda>i vsum. do { vsrc \<leftarrow> loadu l src (p + i * l); Some (map2 (square_vec bld) vsum vsrc) })
      (replicate l (Fin 0))) (\<lambda>r. r = lane_sums bld xs q)"
    unfolding lane_sums_def l_def [symmetric]
    by (rule loop_ok [where I = "\<lambda>n r. r = map (\<lambda>j. foldl (square_vec bld) (Fin 0)
        (map (\<lambda>i. xs ! (i * l + j)) [0..<n])) [0..<l]"])
      (auto simp: lane map_replicate_const intro!: nth_equalityI)
  then have vsum: "loop q (\<lambda>i vsum. do { vsrc \<leftarrow> loadu l src (p + i * l); Some (map2 (square_vec bld) vsum vsrc) })
      (replicate l (Fin 0)) = Some (lane_sums bld xs q)" by (simp add: ok_eq_Some)
  have tail: "loop (n - q * l) (\<lambda>i norm. do { v \<leftarrow> rd src (p + (q * l + i)); Some (square_sca norm v) }) a =
      Some (foldl square_sca a (drop (q * l) xs))" for a
  proof -
    have "drop (q * l) xs = map (\<lambda>i. src ! (p + (q * l + i))) [0..<n - q * l]"
      by (rule nth_equalityI) (use len ql(2) nth in simp_all)
    moreover have "ok (loop (n - q * l) (\<lambda>i norm. do { v \<leftarrow> rd src (p + (q * l + i)); Some (square_sca norm v) }) a)
        (\<lambda>r. r = foldl square_sca a (map (\<lambda>i. src ! (p + (q * l + i))) [0..<n - q * l]))"
      by (rule loop_ok [where I = "\<lambda>n r. r = foldl square_sca a (map (\<lambda>i. src ! (p + (q * l + i))) [0..<n])"])
        (use room in \<open>simp_all add: wp\<close>)
    ultimately show ?thesis by (simp add: ok_eq_Some)
  qed
  have ls: "lane_sums bld xs (n div simd_lanes bld) = lane_sums bld xs q"
    by (simp add: q_def l_def lane_sums_def)
  show ?thesis
    unfolding image_norm_def l_def [symmetric] Let_def q_def [symmetric] vsum Option.bind.bind_lunit tail
    by (simp add: list_norm_def len xs_def [symmetric] ql(1) Let_def ls)
qed

section \<open>The two modes\<close>

lemma scale_channel_eq:
  assumes c: "c < C" and p: "p + C * HW \<le> length src" "p + C * HW \<le> length dst"
    and w: "(if channel_shared cfg then 0 else c) < length (norm_weights cfg)"
  shows "scale_channel bld cfg nm src p HW c dst = Some (put dst (p + c * HW) (map (\<lambda>i.
    let x = src ! (p + c * HW + i) in
    if i < vec_upto bld HW then mulf x (mulf nm (norm_scale cfg c)) else mulf (mulf x nm) (norm_scale cfg c)) [0..<HW]))"
proof -
  define l where "l = simd_lanes bld"
  define q where "q = (if l = 0 then 0 else HW div l)"
  let ?p = "p + c * HW" and ?s = "norm_scale cfg c"
  have "c * HW + HW \<le> C * HW" using c by (rule slot_end_nat)
  then have room: "?p + HW \<le> length src" "?p + HW \<le> length dst" using p by simp_all
  have ql: "q * l = vec_upto bld HW" "q * l \<le> HW" by (simp_all add: q_def l_def vec_upto_def)
  have s: "rd (norm_weights cfg) (if channel_shared cfg then 0 else c) = Some ?s"
    using w by (simp add: norm_scale_def rd_Some)
  let ?f = "\<lambda>k. mulf (src ! (?p + k)) (mulf nm ?s)" and ?g = "\<lambda>k. mulf (mulf (src ! (?p + k)) nm) ?s"
  have vec: "(if l = 0 then Some dst else loop q (\<lambda>i dst. do {
      vsrc \<leftarrow> loadu l src (?p + i * l);
      blit dst (?p + i * l) (map (\<lambda>v. mulf v (mulf nm ?s)) vsrc) }) dst) = Some (put dst ?p (map ?f [0..<q * l]))"
  proof (cases "l = 0")
    case True
    then show ?thesis by simp
  next
    case False
    have "loop q (\<lambda>i dst. do { vsrc \<leftarrow> loadu l src (?p + i * l);
        blit dst (?p + i * l) (map (\<lambda>v. mulf v (mulf nm ?s)) vsrc) }) dst =
        Some (put dst ?p (map (\<lambda>k. ?f (k div l * l + k mod l)) [0..<q * l]))"
    proof (rule loop_flat [where L = "length dst" and h = "\<lambda>i j. ?f (i * l + j)"])
      fix i and xs :: "ieee list" assume i: "i < q" and xs: "length xs = length dst"
      have e: "i * l + l \<le> HW" using slot_end_nat [OF i, of l] ql(2) by simp
      have r: "?p + i * l + l \<le> length src" "?p + i * l + l \<le> length xs" using e room xs by simp_all
      show "loadu l src (?p + i * l) \<bind> (\<lambda>vsrc. blit xs (?p + i * l) (map (\<lambda>v. mulf v (mulf nm ?s)) vsrc)) =
          Some (put xs (?p + i * l) (map (\<lambda>j. ?f (i * l + j)) [0..<l]))"
        unfolding loadu_eq [OF r(1)] using r(2) by (simp add: blit_def comp_def add.assoc)
    qed (use room ql(2) in simp_all)
    then show ?thesis using False by simp
  qed
  let ?d = "put dst ?p (map ?f [0..<q * l])"
  have d: "length ?d = length dst" using room ql(2) by simp
  have "loop (HW - q * l) (\<lambda>i dst. do {
      s \<leftarrow> rd (norm_weights cfg) (if channel_shared cfg then 0 else c);
      v \<leftarrow> rd src (?p + (q * l + i));
      wr dst (?p + (q * l + i)) (mulf (mulf v nm) s) }) ?d =
      Some (put ?d (?p + q * l) (map (\<lambda>i. ?g (q * l + i)) [0..<HW - q * l]))"
    by (rule loop_wr [where L = "length dst"])
      (use room ql(2) d in \<open>simp_all add: s rd_Some wr_Some add.assoc\<close>)
  moreover have "put ?d (?p + q * l) (map (\<lambda>i. ?g (q * l + i)) [0..<HW - q * l]) =
      put dst ?p (map ?f [0..<q * l] @ map (\<lambda>i. ?g (q * l + i)) [0..<HW - q * l])"
    using put_app [of ?p "map ?f [0..<q * l]" "map (\<lambda>i. ?g (q * l + i)) [0..<HW - q * l]" dst] room ql(2) by simp
  moreover have "map ?f [0..<q * l] @ map (\<lambda>i. ?g (q * l + i)) [0..<HW - q * l] =
      map (\<lambda>i. if i < q * l then ?f i else ?g i) [0..<HW]"
    by (rule nth_equalityI) (use ql(2) in \<open>auto simp: nth_append\<close>)
  ultimately have "scale_channel bld cfg nm src p HW c dst =
      Some (put dst ?p (map (\<lambda>i. if i < q * l then ?f i else ?g i) [0..<HW]))"
    using vec unfolding scale_channel_def l_def [symmetric] Let_def q_def [symmetric] s Option.bind.bind_lunit
    by simp
  then show ?thesis by (simp add: ql(1) Let_def)
qed

text \<open>The weights hold a scale for every channel.\<close>

definition weights_ok :: "norm_cfg \<Rightarrow> nat \<Rightarrow> bool" where
  "weights_ok cfg C \<longleftrightarrow> (if channel_shared cfg then 1 else C) \<le> length (norm_weights cfg)"

lemma rd_scale:
  "weights_ok cfg C \<Longrightarrow> c < C \<Longrightarrow>
   rd (norm_weights cfg) (if channel_shared cfg then 0 else c) = Some (norm_scale cfg c)"
  by (auto simp: weights_ok_def norm_scale_def rd_def)

lemma norm_block_ok:
  assumes i: "i + simd_lanes bld \<le> HW" "0 < simd_lanes bld" and b: "b < B"
    and room: "B * C * HW \<le> length src" "B * C * HW \<le> length dst" and w: "weights_ok cfg C"
    and f: "\<And>c j. c < C \<Longrightarrow> j < simd_lanes bld \<Longrightarrow> f c j = mulf (mulf (column src 0 b C HW (i + j) ! c)
      (inv_sqrt (foldl (square_vec bld) (norm_eps cfg) (column src 0 b C HW (i + j))))) (norm_scale cfg c)"
  shows "ok (norm_block bld cfg src (b * C * HW) C HW i dst)
    (cells (\<lambda>c. 0 + b * C * HW + c * HW + i) (simd_lanes bld) C dst f)"
proof -
  let ?P = "\<lambda>c. b * C * HW + c * HW + i"
  have vec: "map2 (\<lambda>n v. mulf (mulf v n) s) (map inv_sqrt r) vs = map2 (\<lambda>r v. mulf (mulf v (inv_sqrt r)) s) r vs" for s r vs
    by (rule nth_equalityI) simp_all
  have store: "loop C (\<lambda>c dst. do {
      s \<leftarrow> rd (norm_weights cfg) (if channel_shared cfg then 0 else c);
      vsrc \<leftarrow> loadu (simd_lanes bld) src (?P c);
      blit dst (?P c) (map2 (\<lambda>n v. mulf (mulf v n) s) (map inv_sqrt r) vsrc) }) =
    loop C (\<lambda>c dst. do {
      vsrc \<leftarrow> loadu (simd_lanes bld) src (?P c);
      blit dst (?P c) (map2 (\<lambda>r v. mulf (mulf v (inv_sqrt r)) (norm_scale cfg c)) r vsrc) })" for r
    by (rule loop_same) (simp add: rd_scale [OF w] vec)
  show ?thesis
    unfolding norm_block_def Let_def store
    by (rule lanes_pass [OF i b]) (use room f in simp_all)
qed

lemma norm_position_ok:
  assumes i: "i < HW" and b: "b < B"
    and room: "B * C * HW \<le> length src" "B * C * HW \<le> length dst" and w: "weights_ok cfg C"
    and f: "\<And>c j. c < C \<Longrightarrow> j < 1 \<Longrightarrow> f c j = mulf (mulf (column src 0 b C HW (i + j) ! c)
      (inv_sqrt (foldl square_sca (norm_eps cfg) (column src 0 b C HW (i + j))))) (norm_scale cfg c)"
  shows "ok (norm_position cfg src (b * C * HW) C HW i dst) (cells (\<lambda>c. 0 + b * C * HW + c * HW + i) 1 C dst f)"
proof -
  let ?P = "\<lambda>c. b * C * HW + c * HW + i"
  have store: "loop C (\<lambda>c dst. do {
      s \<leftarrow> rd (norm_weights cfg) (if channel_shared cfg then 0 else c);
      v \<leftarrow> rd src (?P c);
      wr dst (?P c) (mulf (mulf v (inv_sqrt r)) s) }) =
    loop C (\<lambda>c dst. do {
      v \<leftarrow> rd src (?P c);
      wr dst (?P c) (mulf (mulf v (inv_sqrt r)) (norm_scale cfg c)) })" for r
    by (rule loop_same) (simp add: rd_scale [OF w])
  show ?thesis
    unfolding norm_position_def Let_def store
    by (rule scalar_pass [OF i b]) (use room f in simp_all)
qed

lemma across_image_ok:
  assumes sp: "across_spatial cfg" and b: "b < N" and w: "weights_ok cfg C"
    and room: "N * C * HW \<le> length src" "N * C * HW \<le> length dst"
  shows "(do { nm \<leftarrow> image_norm bld (norm_eps cfg) src (b * C * HW) (C * HW);
      loop C (scale_channel bld cfg nm src (b * C * HW) HW) dst }) =
    Some (put dst (b * (C * HW)) (map (\<lambda>k. norm_value bld cfg src C HW b (k div HW) (k mod HW)) [0..<C * HW]))"
proof -
  have "b * (C * HW) + C * HW \<le> N * (C * HW)" using b by (rule slot_end_nat)
  then have p: "b * C * HW + C * HW \<le> length src" "b * C * HW + C * HW \<le> length dst"
    using room by (simp_all add: mult.assoc)
  let ?nm = "list_norm bld (norm_eps cfg) (take (C * HW) (drop (b * C * HW) src))"
  have "loop C (scale_channel bld cfg ?nm src (b * C * HW) HW) dst =
      Some (put dst (b * C * HW) (map (\<lambda>k. norm_value bld cfg src C HW b (k div HW) (k mod HW)) [0..<C * HW]))"
  proof (rule loop_flat [where L = "length dst"])
    fix c and xs :: "ieee list" assume c: "c < C" and xs: "length xs = length dst"
    have "(if channel_shared cfg then 0 else c) < length (norm_weights cfg)"
      using w c by (auto simp: weights_ok_def)
    from scale_channel_eq [OF c p(1) _ this, of xs bld ?nm] p(2) xs
    show "scale_channel bld cfg ?nm src (b * C * HW) HW c xs =
        Some (put xs (b * C * HW + c * HW) (map (norm_value bld cfg src C HW b c) [0..<HW]))"
      using sp by (simp add: norm_value_def Let_def cong: map_cong)
  qed (use p in simp_all)
  then show ?thesis using image_norm_eq [OF p(1)] by (simp add: mult.assoc)
qed

text \<open>
  For an input and an output of the promised volume and a scale for every channel, every build
  of the layer stays inside its buffers, returns OK, and gives each element the value divided
  by the norm of its image or of its position and scaled by its channel, in the order of
  operations of the register part or the scalar part the element falls into.
\<close>

theorem norm_execute_spec:
  assumes inputs: "inputs = [inp]" and outputs: "outputs = out # outs" and dims: "dims inp = [N, C, H, W]"
    and vol: "length (data inp) = N * C * (H * W)" "length (data out) = N * C * (H * W)" and w: "weights_ok cfg C"
  shows "\<exists>d. norm_execute bld cfg inputs outputs = Some (OK, out\<lparr>data := d\<rparr> # outs) \<and> length d = N * C * (H * W) \<and>
    (\<forall>b < N. \<forall>c < C. \<forall>i < H * W. d ! (b * C * (H * W) + c * (H * W) + i) =
      norm_value bld cfg (data inp) C (H * W) b c i)"
proof -
  define HW where "HW = H * W"
  define l where "l = simd_lanes bld"
  define q where "q = (if l = 0 then 0 else HW div l)"
  let ?src = "data inp"
  have room: "N * C * HW \<le> length ?src" "N * C * HW \<le> length (data out)" using vol by (simp_all add: HW_def)
  have ql: "q * l = vec_upto bld HW" "q * l \<le> HW" by (simp_all add: q_def l_def vec_upto_def)
  obtain d where d: "loop N (\<lambda>n dst.
      if across_spatial cfg then do {
        norm \<leftarrow> image_norm bld (norm_eps cfg) ?src (n * C * HW) (C * HW);
        loop C (scale_channel bld cfg norm ?src (n * C * HW) HW) dst
      } else do {
        dst \<leftarrow> loop q (\<lambda>i. norm_block bld cfg ?src (n * C * HW) C HW (i * l)) dst;
        loop (HW - q * l) (\<lambda>i. norm_position cfg ?src (n * C * HW) C HW (q * l + i)) dst
      }) (data out) = Some d" and len: "length d = N * C * HW"
    and val: "\<forall>b < N. \<forall>c < C. \<forall>i < HW. d ! (b * C * HW + c * HW + i) = norm_value bld cfg ?src C HW b c i"
  proof (cases "across_spatial cfg")
    case True
    let ?h = "\<lambda>b k. norm_value bld cfg ?src C HW b (k div HW) (k mod HW)"
    let ?ys = "map (\<lambda>k. ?h (k div (C * HW)) (k mod (C * HW))) [0..<N * (C * HW)]"
    have "loop N (\<lambda>n dst. do {
        norm \<leftarrow> image_norm bld (norm_eps cfg) ?src (n * C * HW) (C * HW);
        loop C (scale_channel bld cfg norm ?src (n * C * HW) HW) dst }) (data out) = Some (put (data out) 0 ?ys)"
      by (rule loop_flat [where L = "length (data out)"])
        (use room across_image_ok [OF True _ w room(1)] in \<open>simp_all add: mult.assoc\<close>)
    moreover have "put (data out) 0 ?ys = ?ys" using vol by (simp add: put_all HW_def)
    moreover have "?ys ! (b * C * HW + c * HW + i) = norm_value bld cfg ?src C HW b c i"
      if "b < N" "c < C" "i < HW" for b c i
    proof -
      have k: "c * HW + i < C * HW" using index2_less that(2,3) .
      have e: "b * C * HW + c * HW + i = b * (C * HW) + (c * HW + i)" by simp
      have "b * (C * HW) + (c * HW + i) < N * (C * HW)" using index2_less [OF that(1) k] .
      moreover have dm: "(r * n + k) div n = r" "(r * n + k) mod n = k" if "k < n" for r n k :: nat
        using that by simp_all
      ultimately show ?thesis unfolding e by (simp only: nth_map_upt add_0 diff_zero dm [OF k] dm [OF that(3)])
    qed
    ultimately show ?thesis using True by (intro that [of ?ys]) simp_all
  next
    case False
    define T where "T = (\<lambda>i col. map2 (\<lambda>c x. mulf (mulf x (inv_sqrt
      (foldl (if i < q * l then square_vec bld else square_sca) (norm_eps cfg) col))) (norm_scale cfg c)) [0..<length col] col)"
    have Tc: "T i (column ?src 0 b C HW i) ! c = mulf (mulf (column ?src 0 b C HW i ! c) (inv_sqrt
        (foldl (if i < q * l then square_vec bld else square_sca) (norm_eps cfg) (column ?src 0 b C HW i)))) (norm_scale cfg c)"
      if "c < C" for c b i using that by (simp add: T_def column_def)
    have "ok (loop N (\<lambda>b dst. loop q (\<lambda>i. norm_block bld cfg ?src (b * C * HW) C HW (i * l)) dst \<bind>
        loop (HW - q * l) (\<lambda>i. norm_position cfg ?src (b * C * HW) C HW (q * l + i))) (data out))
      (filled T ?src 0 N C HW (data out) (\<lambda>b i. True))"
    proof (rule columns_blocked [OF _ _ ql(2)])
      fix b i and d :: "ieee list" assume b: "b < N" and i: "i < q" and len: "length d = length (data out)"
      have l: "0 < l" using i by (simp add: q_def split: if_splits)
      have fit: "i * l + l \<le> q * l" using slot_end_nat [OF i] .
      show "ok (norm_block bld cfg ?src (b * C * HW) C HW (i * l) d) (cells (\<lambda>c. 0 + b * C * HW + c * HW + i * l) l C d
          (\<lambda>c j. T (i * l + j) (column ?src 0 b C HW (i * l + j)) ! c))"
        unfolding l_def by (rule norm_block_ok [OF _ _ b]) (use fit l ql(2) room len w in \<open>simp_all add: l_def [symmetric] Tc\<close>)
    next
      fix b i and d :: "ieee list" assume b: "b < N" and i: "i < HW" "q * l \<le> i" and len: "length d = length (data out)"
      show "ok (norm_position cfg ?src (b * C * HW) C HW i d) (cells (\<lambda>c. 0 + b * C * HW + c * HW + i) 1 C d
          (\<lambda>c j. T (i + j) (column ?src 0 b C HW (i + j)) ! c))"
        by (rule norm_position_ok [OF i(1) b]) (use i room len w in \<open>simp_all add: Tc\<close>)
    qed (use room in simp)
    then obtain d where d: "loop N (\<lambda>b dst. loop q (\<lambda>i. norm_block bld cfg ?src (b * C * HW) C HW (i * l)) dst \<bind>
        loop (HW - q * l) (\<lambda>i. norm_position cfg ?src (b * C * HW) C HW (q * l + i))) (data out) = Some d"
      "filled T ?src 0 N C HW (data out) (\<lambda>b i. True) d" by (auto elim!: okE)
    have "norm_value bld cfg ?src C HW b c i = T i (column ?src 0 b C HW i) ! c" if "c < C" for b c i
    proof -
      have "column ?src 0 b C HW i ! c = ?src ! (b * C * HW + c * HW + i)" using that by (simp add: column_def)
      then show ?thesis using that False by (simp add: Tc norm_value_def ql(1) Let_def)
    qed
    then show ?thesis using d False vol by (intro that [of d]) (simp_all add: filled_def HW_def)
  qed
  have "norm_execute bld cfg inputs outputs = Some (OK, out\<lparr>data := d\<rparr> # outs)"
  proof -
    have r: "rd [N, C, H, W] 0 = Some N" "rd [N, C, H, W] 1 = Some C" "rd [N, C, H, W] 2 = Some H" "rd [N, C, H, W] 3 = Some W"
      by (simp_all add: rd_def)
    show ?thesis
      unfolding norm_execute_def inputs outputs Let_def l_def [symmetric] nth_Cons_0 dims r Option.bind.bind_lunit
        HW_def [symmetric] q_def [symmetric] d by simp
  qed
  then show ?thesis using len val by (auto simp: HW_def)
qed

theorem norm_execute_spec_witness:
  "\<exists>d. norm_execute (AVX2 True) \<lparr>norm_weights = [Fin 2, Fin 3], across_spatial = False, channel_shared = False,
      norm_eps = Fin 1\<rparr> [\<lparr>dims = [1, 2, 3, 3], data = replicate 18 (Fin 2)\<rparr>]
      [\<lparr>dims = [1, 2, 3, 3], data = replicate 18 NaN\<rparr>] = Some (OK, [\<lparr>dims = [1, 2, 3, 3], data = d\<rparr>]) \<and> length d = 18"
  using norm_execute_spec [OF refl refl, where inp = "\<lparr>dims = [1, 2, 3, 3], data = replicate 18 (Fin 2)\<rparr>"
    and out = "\<lparr>dims = [1, 2, 3, 3], data = replicate 18 NaN\<rparr>" and outs = "[]" and N = 1 and C = 2 and H = 3 and W = 3
    and cfg = "\<lparr>norm_weights = [Fin 2, Fin 3], across_spatial = False, channel_shared = False, norm_eps = Fin 1\<rparr>"
    and bld = "AVX2 True"]
  by (auto simp: weights_ok_def)

end
