(* ===== verification/Interp.thy ===== *)
theory Interp
  imports Prelu
begin

text \<open>
  The \<open>Interp\<close> layer (\<open>extension/ext_interp.cpp\<close>): bilinear interpolation of tensors in
  channel blocks of 8 or 16, in the AVX-512, AVX2, SSE and scalar builds, which are those of
  the theory \<open>Prelu\<close>. Pointers into the source are signed offsets, which padding can make
  negative; such a read fails.
\<close>

section \<open>The layer\<close>

record interp_cfg =
  pad_beg :: int
  pad_end :: int

definition interp_ctor :: "ie_lib \<Rightarrow> vec_build \<Rightarrow> cnn_layer \<Rightarrow> exn + interp_cfg \<times> layer_config list" where
  "interp_ctor lib bld L =
     ebind (throw_if (length (insData L) \<noteq> 1 \<or> outData L = []) ''Incorrect number of input/output edges!'') (\<lambda>_.
     ebind (deref (insData L ! 0)) (\<lambda>ds.
     ebind (throw_if (length ds \<noteq> 4) ''Interp supports only 4d blobs!'') (\<lambda>_.
     ebind (get_param (p_int L ''pad_beg'')) (\<lambda>pb.
     ebind (get_param (p_int L ''pad_end'')) (\<lambda>pe.
     let blk_layout = (if bld = P_AVX512 then BLK16 else BLK8) in
     ebind (addConfig lib L [] [conf1 blk_layout] [conf1 blk_layout] False) (\<lambda>cs.
     Inr (\<lparr>pad_beg = pb, pad_end = pe\<rparr>, cs)))))))"

text \<open>The step between source positions; the two positions and weights of output position \<open>k\<close>.\<close>

definition step_ratio :: "int \<Rightarrow> nat \<Rightarrow> ieee" where
  "step_ratio in_pad out_pad = (if out_pad > 1 then divf (i2f (in_pad - 1)) (i2f (int out_pad - 1)) else Fin 0)"

definition weights_at :: "ieee \<Rightarrow> int \<Rightarrow> nat \<Rightarrow> (int \<times> int \<times> ieee \<times> ieee) option" where
  "weights_at r in_pad k =
     (let f = mulf r (n2f k) in do {
        i0 \<leftarrow> to_int f;
        let i1 = (if i0 < in_pad - 1 then i0 + 1 else i0); lambda0 = subf f (i2f i0) in
        Some (i0, i1, lambda0, subf (Fin 1) lambda0) })"

text \<open>One lane of the four source registers: with fused and with separate operations.\<close>

definition bilinear :: "vec_build \<Rightarrow> ieee \<times> ieee \<Rightarrow> ieee \<times> ieee \<Rightarrow> ieee \<Rightarrow> ieee \<Rightarrow> ieee \<Rightarrow> ieee \<Rightarrow> ieee" where
  "bilinear bld hl wl s00 s01 s10 s11 =
     (case (hl, wl) of ((h0, h1), (w0, w1)) \<Rightarrow>
        if bld = P_AVX512 \<or> bld = P_AVX2 then
          fma b32 h1 (fma b32 w1 s00 (mulf w0 s01)) (mulf h0 (fma b32 w1 s10 (mulf w0 s11)))
        else addf (mulf h1 (addf (mulf w1 s00) (mulf w0 s01))) (mulf h0 (addf (mulf w1 s10) (mulf w0 s11))))"

definition loadz :: "nat \<Rightarrow> ieee list \<Rightarrow> int \<Rightarrow> ieee list option" where
  "loadz l xs p = (if p < 0 then None else loadu l xs (nat p))"

definition interp_vec ::
    "vec_build \<Rightarrow> nat \<Rightarrow> ieee list \<Rightarrow> ieee \<times> ieee \<Rightarrow> ieee \<times> ieee \<Rightarrow> int \<times> int \<times> int \<times> int \<Rightarrow> nat \<Rightarrow> ieee list \<Rightarrow> ieee list option" where
  "interp_vec bld l src hl wl ps pdst dst = (case ps of (p00, p01, p10, p11) \<Rightarrow> do {
     vsrc00 \<leftarrow> loadz l src p00;
     vsrc01 \<leftarrow> loadz l src p01;
     vsrc10 \<leftarrow> loadz l src p10;
     vsrc11 \<leftarrow> loadz l src p11;
     blit dst pdst (map (\<lambda>c. bilinear bld hl wl (vsrc00 ! c) (vsrc01 ! c) (vsrc10 ! c) (vsrc11 ! c)) [0..<l]) })"

definition interp_point ::
    "vec_build \<Rightarrow> ieee list \<Rightarrow> ieee \<times> ieee \<Rightarrow> ieee \<times> ieee \<Rightarrow> int \<times> int \<times> int \<times> int \<Rightarrow> nat \<Rightarrow> ieee list \<Rightarrow> ieee list option" where
  "interp_point bld src hl wl ps pdst dst =
     (let bs = block_size bld; shift = (\<lambda>k. case ps of (p00, p01, p10, p11) \<Rightarrow> (p00 + int k, p01 + int k, p10 + int k, p11 + int k)) in
      case bld of
        P_SSE \<Rightarrow> loop (bs div 4) (\<lambda>i. interp_vec bld 4 src hl wl (shift (i * bs div 2)) (pdst + i * bs div 2)) dst
      | P_SCALAR \<Rightarrow> loop bs (\<lambda>c dst. case shift c of (p00, p01, p10, p11) \<Rightarrow> do {
            s00 \<leftarrow> rdz src p00;
            s01 \<leftarrow> rdz src p01;
            s10 \<leftarrow> rdz src p10;
            s11 \<leftarrow> rdz src p11;
            wr dst (pdst + c) (bilinear bld hl wl s00 s01 s10 s11) }) dst
      | _ \<Rightarrow> interp_vec bld bs src hl wl ps pdst dst)"

definition interp_row ::
    "vec_build \<Rightarrow> ieee list \<Rightarrow> int \<Rightarrow> int \<Rightarrow> int \<Rightarrow> int \<Rightarrow> nat \<Rightarrow> nat \<Rightarrow> nat \<Rightarrow> nat \<Rightarrow> nat \<Rightarrow> nat \<Rightarrow> nat \<Rightarrow> nat \<Rightarrow> nat \<Rightarrow> nat \<Rightarrow> nat \<Rightarrow> nat \<Rightarrow>
     ieee list \<Rightarrow> ieee list option" where
  "interp_row bld src x1 y1 IH_pad IW_pad IH IW x2 y2 OH_pad OW_pad OH OW CB n cb h dst =
     (let bs = block_size bld; psrc = int (n * CB * IH * IW) in do {
        (ih0, ih1, h_lambda0, h_lambda1) \<leftarrow> weights_at (step_ratio IH_pad OH_pad) IH_pad h;
        loop OW_pad (\<lambda>w dst. do {
          (iw0, iw1, w_lambda0, w_lambda1) \<leftarrow> weights_at (step_ratio IW_pad OW_pad) IW_pad w;
          let at_src = (\<lambda>y x. psrc + int (cb * bs * IW * IH) + (y1 + y) * int IW * int bs + (x1 + x) * int bs);
              pdst = n * CB * OH * OW + cb * bs * OW * OH + (y2 + h) * OW * bs + (x2 + w) * bs in
          interp_point bld src (h_lambda0, h_lambda1) (w_lambda0, w_lambda1)
            (at_src ih0 iw0, at_src ih0 iw1, at_src ih1 iw0, at_src ih1 iw1) pdst dst }) dst })"

definition interpolate ::
    "vec_build \<Rightarrow> nat \<Rightarrow> nat \<Rightarrow> ieee list \<Rightarrow> int \<Rightarrow> int \<Rightarrow> int \<Rightarrow> int \<Rightarrow> nat \<Rightarrow> nat \<Rightarrow> ieee list \<Rightarrow> nat \<Rightarrow> nat \<Rightarrow> nat \<Rightarrow> nat \<Rightarrow> nat \<Rightarrow> nat \<Rightarrow>
     ieee list option" where
  "interpolate bld N C src x1 y1 IH_pad IW_pad IH IW dst x2 y2 OH_pad OW_pad OH OW =
     (if IH_pad = int OH_pad \<and> IW_pad = int OW_pad then
        loop (N * C * OH * OW) (\<lambda>i dst. do { v \<leftarrow> rd src i; wr dst i v }) dst
      else let bs = block_size bld; CB = pad_channels bs C; CH = (C + bs - 1) div bs in
        loop N (\<lambda>n. loop CH (\<lambda>cb. loop OH_pad (\<lambda>h.
          interp_row bld src x1 y1 IH_pad IW_pad IH IW x2 y2 OH_pad OW_pad OH OW CB n cb h))) dst)"

definition interp_execute :: "vec_build \<Rightarrow> interp_cfg \<Rightarrow> blob \<Rightarrow> blob \<Rightarrow> (status \<times> blob) option" where
  "interp_execute bld cfg inp out = do {
     IN \<leftarrow> rd (dims inp) 0;
     IC \<leftarrow> rd (dims inp) 1;
     IH \<leftarrow> rd (dims inp) 2;
     IW \<leftarrow> rd (dims inp) 3;
     OH \<leftarrow> rd (dims out) 2;
     OW \<leftarrow> rd (dims out) 3;
     let IH_pad = int IH + pad_beg cfg + pad_end cfg; IW_pad = int IW + pad_beg cfg + pad_end cfg in do {
     dst \<leftarrow> interpolate bld IN IC (data inp) (- pad_beg cfg) (- pad_beg cfg) IH_pad IW_pad IH IW (data out) 0 0 OH OW OH OW;
     Some (OK, out\<lparr>data := dst\<rparr>) }
   }"

section \<open>The source positions stay inside the image\<close>

lemma val_mk: "is_fin (mk F s q) \<Longrightarrow> val (mk F s q) = rnd F q"
  by (auto simp: mk_def Let_def zero_def split: if_splits)

lemma ratio_ok:
  assumes ip: "1 \<le> ip" "ip \<le> 2 ^ 22" and op: "1 < op" "op \<le> 2 ^ 22"
  shows "is_fin (step_ratio (int ip) op) \<and> 0 \<le> val (step_ratio (int ip) op) \<and>
    val (step_ratio (int ip) op) * of_nat (op - 1) \<le> of_nat ip - 1 / 2"
proof -
  define q :: rat where "q = of_nat (ip - 1) / of_nat (op - 1)"
  have e: "i2f (int ip - 1) = Fin (of_nat (ip - 1))" "i2f (int op - 1) = Fin (of_nat (op - 1))"
    using i2f_exact [of "int ip - 1"] i2f_exact [of "int op - 1"] ip op by (simp_all add: of_nat_diff)
  have d: "(of_nat (op - 1) :: rat) \<noteq> 0" "0 < (of_nat (op - 1) :: rat)" using op by simp_all
  have r: "step_ratio (int ip) op = mk b32 False q"
    using op d by (simp add: step_ratio_def e fdiv_def q_def)
  have q: "0 \<le> q" "q \<le> of_nat ip"
  proof -
    show "0 \<le> q" by (simp add: q_def)
    have "q \<le> of_nat (ip - 1) / 1" unfolding q_def using op by (intro divide_left_mono) simp_all
    then show "q \<le> of_nat ip" using ip by (simp add: of_nat_diff)
  qed
  have b: "is_fin (mk b32 False q) \<and> 0 \<le> val (mk b32 False q)"
    using mk_bounded [of b32 0 "int ip" q False] q ip by simp
  have "rnd b32 q * of_nat (op - 1) \<le> of_nat ip - 1 / 2"
  proof (cases "ip = 1")
    case True
    then show ?thesis by (simp add: q_def)
  next
    case False
    have q22: "(1::rat) / 2 ^ 22 \<le> q"
    proof -
      have "(1::rat) / 2 ^ 22 \<le> 1 / of_nat (op - 1)"
        using op d by (intro divide_left_mono) (simp_all add: of_nat_diff le_diff_eq)
      also have "\<dots> \<le> q" unfolding q_def using False ip by (intro divide_right_mono) simp_all
      finally show ?thesis .
    qed
    have "2 powi (emin b32) \<le> (2::rat) powi (- 22)" by (rule powi2_le) (simp add: b32_def)
    also have "(2::rat) powi (- 22) = 1 / 2 ^ 22" by (simp add: power_int_def power_divide)
    also note q22
    finally have e: "2 powi (emin b32) \<le> q" .
    then have pos: "0 < q" by (rule order_less_le_trans [OF powi2_pos])
    have p23: "(2::rat) powi (1 - int (prec b32)) = 1 / 2 ^ 23" by (simp add: power_int_def power_divide)
    have "rnd b32 q \<le> q + q / 2 ^ 23" using rnd_le [OF pos e] unfolding p23 by simp
    then have "rnd b32 q * of_nat (op - 1) \<le> (q + q / 2 ^ 23) * of_nat (op - 1)"
      using d by (intro mult_right_mono) simp_all
    also have "\<dots> = q * of_nat (op - 1) + q * of_nat (op - 1) / 2 ^ 23" by (simp add: distrib_right)
    also have "q * of_nat (op - 1) = of_nat (ip - 1)"
      unfolding q_def times_divide_eq_left by (rule nonzero_mult_div_cancel_right [OF d(1)])
    also have "(of_nat (ip - 1) :: rat) + of_nat (ip - 1) / 2 ^ 23 = of_nat (ip - 1) + of_nat (ip - 1) / 8388608" by simp
    also have "\<dots> \<le> of_nat ip - 1 / 2" using ip by (simp add: of_nat_diff field_simps)
    finally show ?thesis .
  qed
  then show ?thesis using b val_mk [of b32 False q] by (simp add: r)
qed

lemma half_representable: "1 \<le> n \<Longrightarrow> n \<le> 2 ^ 22 \<Longrightarrow> representable b32 (of_nat n - 1 / 2)"
proof -
  assume n: "1 \<le> n" "n \<le> 2 ^ 22"
  have "(of_nat n - 1 / 2 :: rat) = of_int (2 * int n - 1) * 2 powi (- 1)" by (simp add: power_int_minus field_simps)
  moreover have "\<bar>2 * int n - 1\<bar> < 2 ^ prec b32" using n by simp
  moreover have "emin b32 - int (prec b32) + 1 \<le> - 1" by (simp add: b32_def)
  ultimately show ?thesis unfolding representable_def by blast
qed

lemma weights_ok:
  assumes ip: "1 \<le> ip" "ip \<le> 2 ^ 22" and op: "op \<le> 2 ^ 22" and k: "k < op"
  shows "\<exists>i0 i1 l0 l1. weights_at (step_ratio (int ip) op) (int ip) k = Some (int i0, int i1, l0, l1) \<and> i0 < ip \<and> i1 < ip"
proof -
  let ?r = "step_ratio (int ip) op"
  define f where "f = mulf ?r (n2f k)"
  have kf: "n2f k = Fin (of_nat k)" using i2f_exact [of "int k"] k op by simp
  have f: "is_fin f \<and> 0 \<le> val f \<and> val f \<le> of_nat ip - 1 / 2"
  proof (cases "1 < op")
    case False
    then have "f = zero False" using k by (simp add: f_def step_ratio_def kf fmul_def)
    then show ?thesis using ip by (simp add: le_diff_eq)
  next
    case True
    note r = ratio_ok [OF ip True op]
    have "val ?r * of_nat k \<le> val ?r * of_nat (op - 1)" using r k by (intro mult_left_mono) simp_all
    then have up: "val ?r * of_nat k \<le> of_nat ip - 1 / 2" and lo: "0 \<le> val ?r * of_nat k" using r by (auto intro: order_trans)
    obtain s where fm: "f = mk b32 s (val ?r * of_nat k)"
      using r by (cases ?r) (auto simp: f_def kf fmul_def)
    have b: "is_fin f \<and> 0 \<le> val f"
      using mk_bounded [of b32 0 "int ip" "val ?r * of_nat k" s] lo up ip by (simp add: fm)
    have "rnd b32 (val ?r * of_nat k) \<le> rnd b32 (of_nat ip - 1 / 2)" using up by (intro rnd_mono) simp_all
    also have "\<dots> = of_nat ip - 1 / 2" by (rule rnd_representable [OF half_representable [OF ip]])
    finally show ?thesis using b val_mk [of b32 s "val ?r * of_nat k"] by (simp add: fm)
  qed
  have t: "trunc (val f) = \<lfloor>val f\<rfloor>" "0 \<le> \<lfloor>val f\<rfloor>" "\<lfloor>val f\<rfloor> < int ip"
    using f by (auto simp: trunc_def floor_less_iff)
  define i0 where "i0 = nat \<lfloor>val f\<rfloor>"
  have "to_int f = Some (int i0)" "i0 < ip" using t f ip by (auto simp: to_int_def i0_def)
  then show ?thesis
    unfolding weights_at_def Let_def f_def [symmetric]
    by (cases "int i0 < int ip - 1") (auto intro: exI [of _ i0] exI [of _ "i0 + 1"])
qed

section \<open>Points and rows\<close>

text \<open>Source element: lane \<open>c\<close> of block \<open>q\<close> at position \<open>(y, x)\<close>.\<close>

definition lane_idx :: "nat \<Rightarrow> nat \<Rightarrow> nat \<Rightarrow> nat \<Rightarrow> nat \<Rightarrow> nat \<Rightarrow> nat \<Rightarrow> nat" where
  "lane_idx bs H W q y x c = ((q * H + y) * W + x) * bs + c"

lemma loadz_eq: "p + l \<le> length src \<Longrightarrow> loadz l src (int p) = Some (map (\<lambda>c. src ! (p + c)) [0..<l])"
  by (simp add: loadz_def loadu_eq)

lemma interp_vec_eq:
  assumes "p00 + l \<le> length src" "p01 + l \<le> length src" "p10 + l \<le> length src" "p11 + l \<le> length src"
    and "pdst + l \<le> length dst"
  shows "interp_vec bld l src hl wl (int p00, int p01, int p10, int p11) pdst dst =
    Some (put dst pdst (map (\<lambda>c. bilinear bld hl wl (src ! (p00 + c)) (src ! (p01 + c)) (src ! (p10 + c)) (src ! (p11 + c))) [0..<l]))"
proof -
  have "map (\<lambda>c. bilinear bld hl wl (map (\<lambda>c. src ! (p00 + c)) [0..<l] ! c) (map (\<lambda>c. src ! (p01 + c)) [0..<l] ! c)
      (map (\<lambda>c. src ! (p10 + c)) [0..<l] ! c) (map (\<lambda>c. src ! (p11 + c)) [0..<l] ! c)) [0..<l] =
    map (\<lambda>c. bilinear bld hl wl (src ! (p00 + c)) (src ! (p01 + c)) (src ! (p10 + c)) (src ! (p11 + c))) [0..<l]"
    by (rule nth_equalityI) simp_all
  note eq = this
  show ?thesis
    unfolding interp_vec_def prod.case loadz_eq [OF assms(1)] loadz_eq [OF assms(2)] loadz_eq [OF assms(3)]
      loadz_eq [OF assms(4)] Option.bind.bind_lunit eq
    using assms(5) by (simp add: blit_def)
qed

lemma interp_point_eq:
  assumes src: "p00 + block_size bld \<le> length src" "p01 + block_size bld \<le> length src"
    "p10 + block_size bld \<le> length src" "p11 + block_size bld \<le> length src"
    and dst: "pdst + block_size bld \<le> length dst"
  shows "interp_point bld src hl wl (int p00, int p01, int p10, int p11) pdst dst = Some (put dst pdst
    (map (\<lambda>c. bilinear bld hl wl (src ! (p00 + c)) (src ! (p01 + c)) (src ! (p10 + c)) (src ! (p11 + c))) [0..<block_size bld]))"
proof (cases bld)
  case P_SSE
  let ?v = "\<lambda>c. bilinear bld hl wl (src ! (p00 + c)) (src ! (p01 + c)) (src ! (p10 + c)) (src ! (p11 + c))"
  have bs: "block_size bld = 8" by (simp add: P_SSE block_size_def)
  have "loop 2 (\<lambda>i. interp_vec bld 4 src hl wl (int p00 + int (i * 4), int p01 + int (i * 4), int p10 + int (i * 4), int p11 + int (i * 4))
      (pdst + i * 4)) dst = Some (put dst pdst (map (\<lambda>k. ?v (k div 4 * 4 + k mod 4)) [0..<2 * 4]))"
  proof (rule loop_flat [where L = "length dst" and h = "\<lambda>i j. ?v (i * 4 + j)"])
    fix i :: nat and xs :: "ieee list" assume "i < 2" "length xs = length dst"
    then have "p + i * 4 + 4 \<le> length src" if "p + 8 \<le> length src" for p using that by linarith
    moreover have "pdst + i * 4 + 4 \<le> length xs" using dst \<open>i < 2\<close> \<open>length xs = _\<close> bs by simp
    ultimately show "interp_vec bld 4 src hl wl (int p00 + int (i * 4), int p01 + int (i * 4), int p10 + int (i * 4), int p11 + int (i * 4))
        (pdst + i * 4) xs = Some (put xs (pdst + i * 4) (map (\<lambda>j. ?v (i * 4 + j)) [0..<4]))"
      using interp_vec_eq [of "p00 + i * 4" 4 src "p01 + i * 4" "p10 + i * 4" "p11 + i * 4" "pdst + i * 4" xs bld hl wl] src bs
      by (simp add: add.assoc)
  qed (use dst bs in simp_all)
  moreover have "i * 8 div 2 = i * 4" for i :: nat by simp
  ultimately show ?thesis
    by (simp add: interp_point_def P_SSE block_size_def mult.commute)
next
  case P_SCALAR
  have "rdz src (int p + int c) = Some (src ! (p + c))" if "p + block_size bld \<le> length src" "c < block_size bld" for p c
    using that by (simp add: rdz_def rd_Some nat_add_distrib)
  then have "loop (block_size bld) (\<lambda>c dst. do {
      s00 \<leftarrow> rdz src (int p00 + int c);
      s01 \<leftarrow> rdz src (int p01 + int c);
      s10 \<leftarrow> rdz src (int p10 + int c);
      s11 \<leftarrow> rdz src (int p11 + int c);
      wr dst (pdst + c) (bilinear bld hl wl s00 s01 s10 s11) }) dst = Some (put dst pdst
    (map (\<lambda>c. bilinear bld hl wl (src ! (p00 + c)) (src ! (p01 + c)) (src ! (p10 + c)) (src ! (p11 + c))) [0..<block_size bld]))"
    by (intro loop_wr [where L = "length dst"]) (use src dst in \<open>simp_all add: wr_Some\<close>)
  then show ?thesis by (simp add: interp_point_def P_SCALAR)
qed (use interp_vec_eq src dst in \<open>simp_all add: interp_point_def block_size_def\<close>)

text \<open>The interpolated value of lane \<open>c\<close> of block \<open>q\<close> at output position \<open>(h, w)\<close>.\<close>

definition interp_value ::
    "vec_build \<Rightarrow> ieee list \<Rightarrow> nat \<Rightarrow> nat \<Rightarrow> nat \<Rightarrow> nat \<Rightarrow> nat \<Rightarrow> nat \<Rightarrow> nat \<Rightarrow> nat \<Rightarrow> ieee" where
  "interp_value bld src IH IW OH OW q h w c =
     (let bs = block_size bld;
          (y0, y1, h0, h1) = the (weights_at (step_ratio (int IH) OH) (int IH) h);
          (x0, x1, w0, w1) = the (weights_at (step_ratio (int IW) OW) (int IW) w);
          at_src = (\<lambda>y x. src ! lane_idx bs IH IW q (nat y) (nat x) c)
      in bilinear bld (h0, h1) (w0, w1) (at_src y0 x0) (at_src y0 x1) (at_src y1 x0) (at_src y1 x1))"

lemma interp_row_eq:
  assumes ih: "1 \<le> IH" "IH \<le> 2 ^ 22" "OH \<le> 2 ^ 22" and iw: "1 \<le> IW" "IW \<le> 2 ^ 22" "OW \<le> 2 ^ 22"
    and i: "n < N" "cb < CH" "h < OH"
    and src: "length src = N * CH * IH * IW * block_size bld" and dst: "length dst = N * CH * OH * OW * block_size bld"
  shows "interp_row bld src 0 0 (int IH) (int IW) IH IW 0 0 OH OW OH OW (CH * block_size bld) n cb h dst =
    Some (put dst (((n * CH + cb) * OH + h) * (OW * block_size bld))
      (map (\<lambda>k. interp_value bld src IH IW OH OW (n * CH + cb) h (k div block_size bld) (k mod block_size bld))
        [0..<OW * block_size bld]))"
proof -
  define bs where "bs = block_size bld"
  define q where "q = n * CH + cb"
  have q: "q < N * CH" using index2_less [OF i(1,2)] by (simp add: q_def)
  obtain y0 y1 h0 h1 where y: "weights_at (step_ratio (int IH) OH) (int IH) h = Some (int y0, int y1, h0, h1)" "y0 < IH" "y1 < IH"
    using weights_ok [OF ih i(3)] by blast
  have at_src: "int (n * (CH * bs) * IH * IW) + int (cb * bs * IW * IH) + (0 + int y) * int IW * int bs + (0 + int x) * int bs =
      int (lane_idx bs IH IW q y x 0)" for y x
    by (simp add: lane_idx_def q_def algebra_simps)
  have lane: "lane_idx bs IH IW q y x 0 + c = lane_idx bs IH IW q y x c" for y x c by (simp add: lane_idx_def)
  have room: "lane_idx bs IH IW q y x 0 + bs \<le> length src" if "y < IH" "x < IW" for y x
    using slot_end_nat [OF index3_less [OF q that], of bs] by (simp add: lane_idx_def src bs_def)
  let ?v = "\<lambda>w c. interp_value bld src IH IW OH OW q h w c"
  let ?p = "(q * OH + h) * (OW * bs)"
  have fit: "?p + OW * bs \<le> N * CH * OH * OW * bs"
    using slot_end_nat [OF index2_less [OF q i(3)], of "OW * bs"] by (simp add: mult.assoc)
  have "loop OW (\<lambda>w dst. do {
      (iw0, iw1, w_lambda0, w_lambda1) \<leftarrow> weights_at (step_ratio (int IW) OW) (int IW) w;
      let at_src = (\<lambda>y x. int (n * (CH * bs) * IH * IW) + int (cb * bs * IW * IH) + (0 + y) * int IW * int bs + (0 + x) * int bs);
          pdst = n * (CH * bs) * OH * OW + cb * bs * OW * OH + (0 + h) * OW * bs + (0 + w) * bs in
      interp_point bld src (h0, h1) (w_lambda0, w_lambda1)
        (at_src (int y0) iw0, at_src (int y0) iw1, at_src (int y1) iw0, at_src (int y1) iw1) pdst dst }) dst =
    Some (put dst ?p (map (\<lambda>k. ?v (k div bs) (k mod bs)) [0..<OW * bs]))"
  proof (rule loop_flat [where L = "N * CH * OH * OW * bs"])
    fix w and xs :: "ieee list" assume w: "w < OW" and xs: "length xs = N * CH * OH * OW * bs"
    obtain x0 x1 w0 w1 where x: "weights_at (step_ratio (int IW) OW) (int IW) w = Some (int x0, int x1, w0, w1)" "x0 < IW" "x1 < IW"
      using weights_ok [OF iw w] by blast
    have pd: "n * (CH * bs) * OH * OW + cb * bs * OW * OH + (0 + h) * OW * bs + (0 + w) * bs = ?p + w * bs"
      by (simp add: q_def algebra_simps)
    have end_x: "?p + w * bs + bs \<le> length xs" using slot_end_nat [OF w, of bs] fit xs by simp
    have "interp_point bld src (h0, h1) (w0, w1) (int (lane_idx bs IH IW q y0 x0 0), int (lane_idx bs IH IW q y0 x1 0),
        int (lane_idx bs IH IW q y1 x0 0), int (lane_idx bs IH IW q y1 x1 0)) (?p + w * bs) xs =
      Some (put xs (?p + w * bs) (map (?v w) [0..<bs]))"
      using interp_point_eq [of "lane_idx bs IH IW q y0 x0 0" bld src "lane_idx bs IH IW q y0 x1 0" "lane_idx bs IH IW q y1 x0 0"
          "lane_idx bs IH IW q y1 x1 0" "?p + w * bs" xs "(h0, h1)" "(w0, w1)"]
        room y(2,3) x(2,3) end_x
      by (simp add: bs_def [symmetric] lane interp_value_def y(1) x(1))
    then show "weights_at (step_ratio (int IW) OW) (int IW) w \<bind> (\<lambda>(iw0, iw1, w_lambda0, w_lambda1).
        let at_src = (\<lambda>y x. int (n * (CH * bs) * IH * IW) + int (cb * bs * IW * IH) + (0 + y) * int IW * int bs + (0 + x) * int bs);
            pdst = n * (CH * bs) * OH * OW + cb * bs * OW * OH + (0 + h) * OW * bs + (0 + w) * bs in
        interp_point bld src (h0, h1) (w_lambda0, w_lambda1)
          (at_src (int y0) iw0, at_src (int y0) iw1, at_src (int y1) iw0, at_src (int y1) iw1) pdst xs) =
      Some (put xs (?p + w * bs) (map (?v w) [0..<bs]))"
      unfolding x(1) Option.bind.bind_lunit prod.case Let_def at_src pd .
  qed (use fit dst in \<open>simp_all add: bs_def\<close>)
  then show ?thesis
    unfolding interp_row_def bs_def [symmetric] q_def [symmetric] Let_def y(1) Option.bind.bind_lunit prod.case .
qed

text \<open>
  C25: Without padding, and with extents of at most \<open>2 ^ 22\<close>, every build of the layer stays inside its
  buffers and returns OK. Every lane of every block at every output position is the bilinear
  interpolation of four source values inside the image; for equal extents the layer copies
  the first \<open>N * C * OH * OW\<close> elements, without those that pad the last block.
\<close>

theorem interp_execute_spec:
  assumes cfg: "pad_beg cfg = 0" "pad_end cfg = 0" and dims: "dims inp = [N, C, IH, IW]" "dims out = [N, C, OH, OW]"
    and size: "1 \<le> IH" "IH \<le> 2 ^ 22" "OH \<le> 2 ^ 22" "1 \<le> IW" "IW \<le> 2 ^ 22" "OW \<le> 2 ^ 22" "C + 16 < 2 ^ 64"
    and CH: "CH = (C + block_size bld - 1) div block_size bld"
    and src: "length (data inp) = N * CH * IH * IW * block_size bld" and dst: "length (data out) = N * CH * OH * OW * block_size bld"
  shows "\<exists>d. interp_execute bld cfg inp out = Some (OK, out\<lparr>data := d\<rparr>) \<and> length d = length (data out) \<and>
    (if IH = OH \<and> IW = OW
     then d = take (N * C * OH * OW) (data inp) @ drop (N * C * OH * OW) (data out)
     else \<forall>n < N. \<forall>cb < CH. \<forall>h < OH. \<forall>w < OW. \<forall>c < block_size bld.
       d ! lane_idx (block_size bld) OH OW (n * CH + cb) h w c =
       interp_value bld (data inp) IH IW OH OW (n * CH + cb) h w c)"
proof -
  define bs where "bs = block_size bld"
  have bs: "bs = 8 \<or> bs = 16" by (simp add: bs_def block_size_def)
  have r: "rd [a, b, c, d] 0 = Some a" "rd [a, b, c, d] 1 = Some b" "rd [a, b, c, d] 2 = Some c" "rd [a, b, c, d] 3 = Some d"
    for a b c d :: nat by (simp_all add: rd_def)
  let ?run = "interpolate bld N C (data inp) 0 0 (int IH) (int IW) IH IW (data out) 0 0 OH OW OH OW"
  have run: "interp_execute bld cfg inp out = Some (OK, out\<lparr>data := d\<rparr>)" if "?run = Some d" for d
    unfolding interp_execute_def dims r Option.bind.bind_lunit cfg Let_def using that by simp
  have C: "C \<le> CH * bs"
  proof -
    have "C + bs - 1 < CH * bs + bs"
      unfolding CH bs_def [symmetric] using dividend_less_div_times [of bs "C + bs - 1"] bs by linarith
    then show ?thesis by linarith
  qed
  show ?thesis
  proof (cases "IH = OH \<and> IW = OW")
    case True
    have "N * (C * OH * OW) \<le> N * (CH * bs * OH * OW)" using C by (intro mult_le_mono) simp_all
    then have fit: "N * C * OH * OW \<le> length (data inp)" "N * C * OH * OW \<le> length (data out)"
      using True src dst by (simp_all add: bs_def [symmetric] ac_simps)
    let ?n = "N * C * OH * OW"
    have "?run = Some (put (data out) 0 (map (\<lambda>i. data inp ! i) [0..<?n]))"
      using loop_wr [of ?n "length (data out)" "\<lambda>i dst. do { v \<leftarrow> rd (data inp) i; wr dst i v }" 0 "\<lambda>i. data inp ! i" "data out"] fit
      by (simp add: interpolate_def True rd_Some wr_Some)
    moreover have "map (\<lambda>i. data inp ! i) [0..<?n] = take ?n (data inp)"
      using fit by (intro nth_equalityI) simp_all
    ultimately show ?thesis using run True fit by (auto simp: put_def)
  next
    case False
    have CB: "pad_channels bs C = CH * bs"
      using pad_channels_eq [of bs 3 C] pad_channels_eq [of bs 4 C] bs size(7) by (auto simp: CH bs_def [symmetric])
    let ?g = "\<lambda>n cb h k. interp_value bld (data inp) IH IW OH OW (n * CH + cb) h (k div bs) (k mod bs)"
    let ?d = "map (\<lambda>k. ?g (k div (CH * OH * (OW * bs))) (k div (OH * (OW * bs)) mod CH) (k div (OW * bs) mod OH) (k mod (OW * bs)))
      [0..<N * CH * OH * (OW * bs)]"
    have "loop N (\<lambda>n. loop CH (\<lambda>cb. loop OH (\<lambda>h.
        interp_row bld (data inp) 0 0 (int IH) (int IW) IH IW 0 0 OH OW OH OW (CH * bs) n cb h))) (data out) = Some (put (data out) 0 ?d)"
    proof (rule loop3_put [where L = "length (data out)"])
      fix n cb h and xs :: "ieee list" assume i: "n < N" "cb < CH" "h < OH" and xs: "length xs = length (data out)"
      show "interp_row bld (data inp) 0 0 (int IH) (int IW) IH IW 0 0 OH OW OH OW (CH * bs) n cb h xs =
          Some (put xs (0 + ((n * CH + cb) * OH + h) * (OW * bs)) (map (?g n cb h) [0..<OW * bs]))"
        unfolding bs_def add_0 by (rule interp_row_eq [OF size(1-6) i src]) (use xs dst in simp)
    qed (use dst in \<open>simp_all add: bs_def mult.assoc\<close>)
    moreover have "put (data out) 0 ?d = ?d" using dst by (simp add: put_all bs_def mult.assoc)
    moreover have ne: "\<not> (int IH = int OH \<and> int IW = int OW)" using False by simp
    ultimately have d: "?run = Some ?d"
      unfolding interpolate_def if_not_P [OF ne] bs_def [symmetric] Let_def CB CH [folded bs_def, symmetric] by simp
    have "?d ! lane_idx bs OH OW (n * CH + cb) h w c = interp_value bld (data inp) IH IW OH OW (n * CH + cb) h w c"
      if i: "n < N" "cb < CH" "h < OH" "w < OW" "c < bs" for n cb h w c
    proof -
      have wc: "w * bs + c < OW * bs" using index2_less [OF i(4,5)] .
      define k where "k = ((n * CH + cb) * OH + h) * (OW * bs) + (w * bs + c)"
      have e: "lane_idx bs OH OW (n * CH + cb) h w c = k" by (simp add: lane_idx_def k_def algebra_simps)
      have "k < N * CH * OH * (OW * bs)" unfolding k_def by (intro index2_less [OF _ wc] index3_less i)
      moreover have "(w * bs + c) div bs = w" "(w * bs + c) mod bs = c" using i(5) by simp_all
      ultimately show ?thesis unfolding e using idx4_decode [OF i(2,3) wc k_def] by simp
    qed
    then show ?thesis
      unfolding if_not_P [OF False] using run [OF d] dst by (intro exI [of _ ?d]) (simp add: bs_def mult.assoc)
  qed
qed

theorem interp_execute_spec_witness:
  "\<exists>d. interp_execute P_SCALAR \<lparr>pad_beg = 0, pad_end = 0\<rparr> \<lparr>dims = [1, 8, 2, 2], data = replicate 32 (Fin 1)\<rparr>
      \<lparr>dims = [1, 8, 3, 2], data = replicate 48 NaN\<rparr> = Some (OK, \<lparr>dims = [1, 8, 3, 2], data = d\<rparr>) \<and> length d = 48"
  using interp_execute_spec [where cfg = "\<lparr>pad_beg = 0, pad_end = 0\<rparr>" and inp = "\<lparr>dims = [1, 8, 2, 2], data = replicate 32 (Fin 1)\<rparr>"
    and out = "\<lparr>dims = [1, 8, 3, 2], data = replicate 48 NaN\<rparr>" and N = 1 and C = 8 and IH = 2 and IW = 2 and OH = 3 and OW = 2
    and CH = 1 and bld = P_SCALAR]
  by (auto simp: block_size_def)

end
