(* ===== verification/Power_File.thy ===== *)
theory Power_File
  imports Ext_Base
begin

text \<open>
  The \<open>PowerFile\<close> layer (\<open>extension/ext_powerfile.cpp\<close>): it adds the identity transformation
  \<open>(1, 0, 0, 0, 1, 0)\<close> to the six coefficients of every affine map, which it feeds to the spatial
  transformer.
\<close>

definition power_ctor :: "ie_lib \<Rightarrow> cnn_layer \<Rightarrow> exn + int list \<times> layer_config list" where
  "power_ctor lib L =
     ebind (throw_if (length (insData L) \<noteq> 1 \<or> outData L = []) ''Incorrect number of input/output edges!'') (\<lambda>_.
     let shift = [] @ [1] @ [0] @ [0] @ [0] @ [1] @ [0] in
     ebind (addConfig lib L [] [conf1 PLN] [conf1 PLN] False) (\<lambda>cs. Inr (shift, cs)))"

definition power_execute :: "int list \<Rightarrow> blob list \<Rightarrow> blob list \<Rightarrow> (status \<times> blob list) option" where
  "power_execute shift inputs outputs =
     (if length inputs \<noteq> 1 \<or> outputs = [] then Some (GENERAL_ERROR, outputs)
      else do {
        dst \<leftarrow> loop (prod_list (dims (inputs ! 0))) (\<lambda>i dst.
          if length shift = 0 then None
          else do {
            v \<leftarrow> rd (data (inputs ! 0)) i;
            s \<leftarrow> rd shift (i mod length shift);
            wr dst i (addf v (i2f s)) }) (data (outputs ! 0));
        Some (OK, (outputs ! 0)\<lparr>data := dst\<rparr> # tl outputs)
      })"

text \<open>The identity map, row by row.\<close>

definition identity_coeff :: "nat \<Rightarrow> nat \<Rightarrow> int" where
  "identity_coeff r c = (if r = c then 1 else 0)"

text \<open>
  A constructed layer adds the identity to each group of six inputs, seen as a matrix of two
  rows and three columns: entry \<open>(r, c)\<close> of map \<open>n\<close> becomes itself plus \<open>1\<close> on the diagonal and
  plus \<open>0\<close> elsewhere; it stays inside its buffers and touches nothing behind the input's size.
\<close>

theorem power_execute_spec:
  assumes ctor: "power_ctor lib L = Inr (shift, cs)" and inputs: "inputs = [inp]" and outputs: "outputs = out # outs"
    and vol: "prod_list (dims inp) = N * 6" "N * 6 \<le> length (data inp)" "N * 6 \<le> length (data out)"
  shows "\<exists>d. power_execute shift inputs outputs = Some (OK, out\<lparr>data := d\<rparr> # outs) \<and> length d = length (data out) \<and>
    (\<forall>n < N. \<forall>r < 2. \<forall>c < 3. d ! (n * 6 + r * 3 + c) =
      addf (data inp ! (n * 6 + r * 3 + c)) (i2f (identity_coeff r c))) \<and>
    (\<forall>k < length (data out). N * 6 \<le> k \<longrightarrow> d ! k = data out ! k)"
proof -
  have shift: "shift = [1, 0, 0, 0, 1, 0]"
    using ctor by (auto simp: power_ctor_def ebind_eq_Inr Let_def)
  let ?g = "\<lambda>i. addf (data inp ! i) (i2f (shift ! (i mod 6)))"
  let ?d = "put (data out) 0 (map ?g [0..<N * 6])"
  have "loop (N * 6) (\<lambda>i dst.
      if length shift = 0 then None
      else do {
        v \<leftarrow> rd (data inp) i;
        s \<leftarrow> rd shift (i mod length shift);
        wr dst i (addf v (i2f s)) }) (data out) = Some ?d"
    by (rule loop_wr [where p = 0 and L = "length (data out)"])
      (use vol in \<open>simp_all add: rd_Some wr_Some shift\<close>)
  then have run: "power_execute shift inputs outputs = Some (OK, out\<lparr>data := ?d\<rparr> # outs)"
    unfolding power_execute_def inputs outputs nth_Cons_0 vol(1) by simp
  have "?d ! (n * 6 + r * 3 + c) = addf (data inp ! (n * 6 + r * 3 + c)) (i2f (identity_coeff r c))"
    if "n < N" "r < 2" "c < 3" for n r c
  proof -
    have k: "n * 6 + (r * 3 + c) < N * 6" using that by (intro index2_less) simp_all
    have "(n * 6 + (r * 3 + c)) mod 6 = r * 3 + c" using that by simp
    moreover have "shift ! (r * 3 + c) = identity_coeff r c"
      using that by (auto simp: shift identity_coeff_def less_Suc_eq numeral_eq_Suc)
    ultimately have "?g (n * 6 + (r * 3 + c)) = addf (data inp ! (n * 6 + (r * 3 + c))) (i2f (identity_coeff r c))"
      by simp
    then show ?thesis using k vol by (simp add: nth_put_if add.assoc)
  qed
  moreover have "?d ! k = data out ! k" if "k < length (data out)" "N * 6 \<le> k" for k
    using that vol by (simp add: nth_put_if)
  ultimately show ?thesis using run vol by (intro exI [of _ ?d]) simp
qed

theorem power_execute_spec_witness:
  "\<exists>d. power_execute [1, 0, 0, 0, 1, 0] [\<lparr>dims = [1, 6], data = replicate 6 (Fin 2)\<rparr>]
     [\<lparr>dims = [1, 6], data = replicate 6 NaN\<rparr>] = Some (OK, [\<lparr>dims = [1, 6], data = d\<rparr>]) \<and> length d = 6"
proof -
  obtain cs where "power_ctor ref_lib one_edge = Inr ([1, 0, 0, 0, 1, 0], cs)"
    by (simp add: power_ctor_def one_edge_def addConfig_def fill_port_def conf1_def Let_def)
  from power_execute_spec [OF this refl refl, where inp = "\<lparr>dims = [1, 6], data = replicate 6 (Fin 2)\<rparr>" and N = 1
    and out = "\<lparr>dims = [1, 6], data = replicate 6 NaN\<rparr>" and outs = "[]"]
  show ?thesis by auto
qed

end
