(* ===== verification/Psroi.thy ===== *)
theory Psroi
  imports Ext_Base
begin

text \<open>
  The \<open>PSROIPooling\<close> layer (\<open>extension/ext_psroi.cpp\<close>): position-sensitive average pooling over
  the regions of interest, up to the first one with batch index \<open>-1\<close>; the output of the
  remaining ones is zero. \<open>round\<close>, \<open>floor\<close> and \<open>ceil\<close> are the C functions on \<open>double\<close>.
\<close>

section \<open>The layer\<close>

record psroi_cfg =
  output_dim :: nat
  group_size :: nat
  spatial_scale :: ieee
  channels :: nat
  height :: nat
  width :: nat
  nn :: nat
  nc :: nat
  nh :: nat
  nw :: nat

definition dim_at :: "nat list \<Rightarrow> nat \<Rightarrow> exn + nat" where
  "dim_at ds i = deref (rd ds i)"

definition psroi_ctor :: "ie_lib \<Rightarrow> cnn_layer \<Rightarrow> exn + psroi_cfg \<times> layer_config list" where
  "psroi_ctor lib L =
     ebind (throw_if (length (insData L) \<noteq> 2 \<or> length (outData L) \<noteq> 1) ''Incorrect number of input/output edges!'') (\<lambda>_.
     ebind (get_param (p_int L ''output_dim'')) (\<lambda>od.
     ebind (get_param (p_int L ''group_size'')) (\<lambda>gs.
     ebind (get_param (p_float L ''spatial_scale'')) (\<lambda>sc.
     ebind (case insData L ! 0 of None \<Rightarrow> Inr (0, 0, 0)
        | Some ds \<Rightarrow> ebind (dim_at ds 1) (\<lambda>ch. ebind (dim_at ds 2) (\<lambda>h. ebind (dim_at ds 3) (\<lambda>w. Inr (ch, h, w))))) (\<lambda>(ch, h, w).
     ebind (deref (outData L ! 0)) (\<lambda>os.
     ebind (dim_at os 0) (\<lambda>o0. ebind (dim_at os 1) (\<lambda>o1. ebind (dim_at os 2) (\<lambda>o2. ebind (dim_at os 3) (\<lambda>o3.
     ebind (addConfig lib L [] [conf1 PLN, conf1 PLN] [conf1 PLN] False) (\<lambda>cs.
     Inr (\<lparr>output_dim = size_of_int od, group_size = size_of_int gs, spatial_scale = sc, channels = ch, height = h,
       width = w, nn = o0, nc = o1, nh = o2, nw = o3\<rparr>, cs))))))))))))"

definition count_rois :: "nat \<Rightarrow> ieee list \<Rightarrow> nat option" where
  "count_rois n rois = loop_brk 0 n (\<lambda>i real_rois. do {
     v \<leftarrow> rd rois (i * 5);
     roi_batch_ind \<leftarrow> to_int v;
     if roi_batch_ind = -1 then Some (real_rois, False) else Some (real_rois + 1, True) }) 0"

text \<open>Start and bin size of a region along one axis, from its two coordinates.\<close>

definition roi_axis :: "psroi_cfg \<Rightarrow> ieee \<Rightarrow> ieee \<Rightarrow> ieee \<times> ieee" where
  "roi_axis cfg lo hi =
     (let roi_start = mulf (cvt b32 (fround lo)) (spatial_scale cfg);
          roi_end = mulf (cvt b32 (addd (fround hi) (Fin 1))) (spatial_scale cfg);
          extent = cmax (subf roi_end roi_start) (mk b32 False (1 / 10))
      in (roi_start, divf extent (n2f (group_size cfg))))"

text \<open>First and last position of bin \<open>k\<close>, clipped to the image.\<close>

definition bin_range :: "ieee \<times> ieee \<Rightarrow> nat \<Rightarrow> nat \<Rightarrow> (int \<times> int) option" where
  "bin_range axis limit k = (case axis of (roi_start, bin_size) \<Rightarrow> do {
     lo \<leftarrow> to_int (ffloor (addf (mulf (n2f (k + 0)) bin_size) roi_start));
     hi \<leftarrow> to_int (fceil (addf (mulf (n2f (k + 1)) bin_size) roi_start));
     Some (min (max lo 0) (int limit), min (max hi 0) (int limit)) })"

definition pool_cell ::
    "psroi_cfg \<Rightarrow> ieee list \<Rightarrow> int \<Rightarrow> ieee \<times> ieee \<Rightarrow> nat \<Rightarrow> nat \<Rightarrow> nat \<Rightarrow> int \<times> int \<Rightarrow> nat \<Rightarrow> ieee list \<Rightarrow> ieee list option" where
  "pool_cell cfg src batch axis_w n c h rows w dst =
     (let index = n * nc cfg * nh cfg * nw cfg + c * nh cfg * nw cfg + h * nw cfg + w; (hstart, hend) = rows in do {
        dst \<leftarrow> wr dst index (Fin 0);
        (wstart, wend) \<leftarrow> bin_range axis_w (width cfg) w;
        let bin_area = i2f ((hend - hstart) * (wend - wstart)) in
        if feq bin_area (Fin 0) then Some dst
        else let gc = (c * group_size cfg + h) * group_size cfg + w;
                 base = (batch * int (channels cfg) + int gc) * int (height cfg) * int (width cfg) in do {
          out_sum \<leftarrow> loop (nat (hend - hstart)) (\<lambda>hh. loop (nat (wend - wstart)) (\<lambda>ww s. do {
            v \<leftarrow> rdz src (base + (hstart + int hh) * int (width cfg) + (wstart + int ww));
            Some (addf s v) })) (Fin 0);
          wr dst index (divf out_sum bin_area)
        }
      })"

definition pool_roi :: "psroi_cfg \<Rightarrow> ieee list \<Rightarrow> ieee list \<Rightarrow> nat \<Rightarrow> ieee list \<Rightarrow> ieee list option" where
  "pool_roi cfg src rois n dst = do {
     r0 \<leftarrow> rd rois (n * 5);
     batch \<leftarrow> to_int r0;
     x1 \<leftarrow> rd rois (n * 5 + 1);
     y1 \<leftarrow> rd rois (n * 5 + 2);
     x2 \<leftarrow> rd rois (n * 5 + 3);
     y2 \<leftarrow> rd rois (n * 5 + 4);
     loop (nc cfg) (\<lambda>c. loop (nh cfg) (\<lambda>h dst. do {
       rows \<leftarrow> bin_range (roi_axis cfg y1 y2) (height cfg) h;
       loop (nw cfg) (pool_cell cfg src batch (roi_axis cfg x1 x2) n c h rows) dst })) dst
   }"

definition psroi_execute :: "psroi_cfg \<Rightarrow> blob \<Rightarrow> blob \<Rightarrow> blob \<Rightarrow> (status \<times> blob) option" where
  "psroi_execute cfg inp roi out = do {
     real_rois \<leftarrow> count_rois (nn cfg) (data roi);
     dst \<leftarrow> loop real_rois (pool_roi cfg (data inp) (data roi)) (data out);
     dst \<leftarrow> loop (nn cfg - real_rois) (\<lambda>k. loop (nc cfg) (\<lambda>c. loop (nh cfg) (\<lambda>h. loop (nw cfg) (\<lambda>w dst.
       wr dst ((real_rois + k) * nc cfg * nh cfg * nw cfg + c * nh cfg * nw cfg + h * nw cfg + w) (Fin 0))))) dst;
     Some (OK, out\<lparr>data := dst\<rparr>)
   }"

section \<open>Bins\<close>

lemma integral_bounded:
  assumes "is_fin x" and "m \<le> f (val x)" and "f (val x) \<le> n" and "f 0 = 0"
  shows "is_fin (integral f x) \<and> of_int m \<le> val (integral f x) \<and> val (integral f x) \<le> of_int n"
  using assms by (cases x) auto

text \<open>A region whose coordinates are finite and not enormous, under a scale of at most one.\<close>

definition coord_ok :: "ieee \<Rightarrow> bool" where
  "coord_ok x \<longleftrightarrow> is_fin x \<and> \<bar>val x\<bar> \<le> 32768"

lemma is_fin_tenth: "is_fin (mk b32 False (1 / 10)) \<and> 0 \<le> val (mk b32 False (1 / 10)) \<and> val (mk b32 False (1 / 10)) \<le> 1"
  using mk_bounded [of b32 0 1 "1 / 10" False] by simp

definition cfg_ok :: "psroi_cfg \<Rightarrow> bool" where
  "cfg_ok cfg \<longleftrightarrow> is_fin (spatial_scale cfg) \<and> 0 \<le> val (spatial_scale cfg) \<and> val (spatial_scale cfg) \<le> 1 \<and>
     0 < group_size cfg \<and> group_size cfg < 128 \<and> nh cfg = group_size cfg \<and> nw cfg = group_size cfg \<and>
     channels cfg = nc cfg * group_size cfg * group_size cfg \<and> height cfg < 2 ^ 31 \<and> width cfg < 2 ^ 31"

lemma scaled_bounded:
  assumes s: "is_fin s" "0 \<le> val s" "val s \<le> 1" and x: "is_fin x" "- of_int n \<le> val x" "val x \<le> of_int n"
    and n: "0 \<le> n" "n < 2 ^ 24"
  shows "is_fin (mulf x s) \<and> - of_int n \<le> val (mulf x s) \<and> val (mulf x s) \<le> of_int n"
proof -
  have "\<bar>val x * val s\<bar> \<le> \<bar>val x\<bar> * 1" unfolding abs_mult using s by (intro mult_left_mono) auto
  also have "\<dots> \<le> of_int n" using x by (simp add: abs_le_iff)
  finally have "- of_int n \<le> val x * val s" "val x * val s \<le> of_int n" by (auto simp: abs_le_iff)
  then show ?thesis using fmul_bounded [of b32 "- n" n x s] s x n by simp
qed

lemma roi_axis_bounded:
  assumes cfg: "cfg_ok cfg" and c: "coord_ok lo" "coord_ok hi" and axis: "roi_axis cfg lo hi = (st, b)"
  shows "is_fin st \<and> \<bar>val st\<bar> \<le> 32768 \<and> is_fin b \<and> 0 \<le> val b \<and> val b \<le> 65537"
proof -
  have s: "is_fin (spatial_scale cfg)" "0 \<le> val (spatial_scale cfg)" "val (spatial_scale cfg) \<le> 1"
    and g: "0 < group_size cfg" "group_size cfg < 128" using cfg by (simp_all add: cfg_ok_def)
  have r: "is_fin (fround x) \<and> - 32768 \<le> val (fround x) \<and> val (fround x) \<le> 32768" if "coord_ok x" for x
    using integral_bounded [of x "- 32768" rha 32768, OF _ _ _ rha_0] rha_bounded [of "- 32768" "val x" 32768] that
    by (auto simp: coord_ok_def abs_le_iff)
  have a: "is_fin (cvt b32 (fround lo)) \<and> - 32768 \<le> val (cvt b32 (fround lo)) \<and> val (cvt b32 (fround lo)) \<le> 32768"
    using cvt_bounded [of b32 "- 32768" 32768 "fround lo"] r [OF c(1)] by simp
  have st: "is_fin st \<and> - 32768 \<le> val st \<and> val st \<le> 32768"
    using scaled_bounded [OF s, of "cvt b32 (fround lo)" 32768] a axis by (auto simp: roi_axis_def Let_def)
  define e where "e = mulf (cvt b32 (addd (fround hi) (Fin 1))) (spatial_scale cfg)"
  have "is_fin (addd (fround hi) (Fin 1)) \<and> - 32769 \<le> val (addd (fround hi) (Fin 1)) \<and> val (addd (fround hi) (Fin 1)) \<le> 32769"
    using fadd_bounded [of b64 "- 32769" 32769 "fround hi" "Fin 1"] r [OF c(2)] by simp
  then have "is_fin (cvt b32 (addd (fround hi) (Fin 1))) \<and> - 32769 \<le> val (cvt b32 (addd (fround hi) (Fin 1))) \<and>
      val (cvt b32 (addd (fround hi) (Fin 1))) \<le> 32769"
    using cvt_bounded [of b32 "- 32769" 32769 "addd (fround hi) (Fin 1)"] by simp
  then have "is_fin e \<and> - 32769 \<le> val e \<and> val e \<le> 32769"
    using scaled_bounded [OF s, of "cvt b32 (addd (fround hi) (Fin 1))" 32769] by (simp add: e_def)
  then have d: "is_fin (subf e st) \<and> - 65537 \<le> val (subf e st) \<and> val (subf e st) \<le> 65537"
    using fsub_bounded [of b32 "- 65537" 65537 e st] st by simp
  define x where "x = cmax (subf e st) (mk b32 False (1 / 10))"
  have x: "is_fin x \<and> 0 \<le> val x \<and> val x \<le> 65537"
    using d is_fin_tenth by (auto simp: x_def cmax_def flt_fin)
  have gi: "n2f (group_size cfg) = Fin (of_nat (group_size cfg))" using i2f_exact [of "int (group_size cfg)"] g by simp
  have b: "b = divf x (n2f (group_size cfg))" using axis by (auto simp: roi_axis_def Let_def x_def e_def)
  have "val x / of_nat (group_size cfg) \<le> val x / 1" using x g by (intro divide_left_mono) auto
  then have "val x / of_nat (group_size cfg) \<le> 65537" using x by linarith
  then have "is_fin b \<and> 0 \<le> val b \<and> val b \<le> 65537"
    using fdiv_bounded [of b32 0 65537 x "n2f (group_size cfg)"] x g by (simp add: b gi)
  then show ?thesis using st by (auto simp: abs_le_iff)
qed

lemma bin_edge_ok:
  assumes "is_fin st" "\<bar>val st\<bar> \<le> 32768" "is_fin b" "0 \<le> val b" "val b \<le> 65537" and k: "k \<le> 128"
  shows "\<exists>x. to_int (ffloor (addf (mulf (n2f k) b) st)) = Some x" "\<exists>x. to_int (fceil (addf (mulf (n2f k) b) st)) = Some x"
proof -
  have n: "n2f k = Fin (of_nat k)" using i2f_exact [of "int k"] k by simp
  have kb: "of_nat k * val b \<le> 128 * 65537" using assms by (intro mult_mono) auto
  have m: "is_fin (mulf (n2f k) b) \<and> 0 \<le> val (mulf (n2f k) b) \<and> val (mulf (n2f k) b) \<le> 8388736"
    using fmul_bounded [of b32 0 8388736 "n2f k" b] assms kb by (simp add: n)
  define y where "y = addf (mulf (n2f k) b) st"
  have y: "is_fin y \<and> - 32768 \<le> val y \<and> val y \<le> 8421504"
    using fadd_bounded [of b32 "- 32768" 8421504 "mulf (n2f k) b" st] assms m by (simp add: y_def abs_le_iff)
  have "- 32768 \<le> \<lfloor>val y\<rfloor>" "\<lfloor>val y\<rfloor> \<le> 8421504" "- 32768 \<le> \<lceil>val y\<rceil>" "\<lceil>val y\<rceil> \<le> 8421504"
    using y by (auto simp: le_floor_iff floor_le_iff ceiling_le_iff le_ceiling_iff)
  then have "is_fin (ffloor y) \<and> - 32768 \<le> val (ffloor y) \<and> val (ffloor y) \<le> 8421504"
    "is_fin (fceil y) \<and> - 32768 \<le> val (fceil y) \<and> val (fceil y) \<le> 8421504"
    using integral_bounded [of y "- 32768" floor 8421504] integral_bounded [of y "- 32768" ceiling 8421504] y by simp_all
  then show "\<exists>x. to_int (ffloor (addf (mulf (n2f k) b) st)) = Some x" "\<exists>x. to_int (fceil (addf (mulf (n2f k) b) st)) = Some x"
    using to_int_bounded [of "ffloor y" "- 32768" 8421504] to_int_bounded [of "fceil y" "- 32768" 8421504]
    unfolding y_def by auto
qed

lemma bin_range_ok:
  assumes "cfg_ok cfg" and "coord_ok lo" "coord_ok hi" and "k < 128"
  shows "\<exists>s e. bin_range (roi_axis cfg lo hi) limit k = Some (s, e) \<and> 0 \<le> s \<and> s \<le> int limit \<and> 0 \<le> e \<and> e \<le> int limit"
proof -
  obtain st b where axis: "roi_axis cfg lo hi = (st, b)" by fastforce
  note bd = roi_axis_bounded [OF assms(1-3) axis]
  obtain x y where "to_int (ffloor (addf (mulf (n2f (k + 0)) b) st)) = Some x"
    "to_int (fceil (addf (mulf (n2f (k + 1)) b) st)) = Some y"
    using bin_edge_ok [of st b "k + 0"] bin_edge_ok [of st b "k + 1"] bd assms(4) by auto
  then show ?thesis by (simp add: bin_range_def axis)
qed

section \<open>The pooled values\<close>

lemma rdz_nat: "rdz xs (int k) = rd xs k"
  by (simp add: rdz_def)

lemma loop2_fold:
  "loop m (\<lambda>i. loop n (\<lambda>j s. Some (F s (g i j)))) s =
   Some (foldl F s (concat (map (\<lambda>i. map (g i) [0..<n]) [0..<m])))"
proof -
  have inner: "loop n (\<lambda>j s. Some (F s (h j))) s = Some (foldl F s (map h [0..<n]))" for h s
    by (induction n) simp_all
  show ?thesis by (induction m) (simp_all add: inner)
qed

text \<open>Cell \<open>(c, h, w)\<close> of region \<open>n\<close>: the mean of its bin in the channel that belongs to the cell.\<close>

definition cell_mean :: "psroi_cfg \<Rightarrow> ieee list \<Rightarrow> nat \<Rightarrow> nat \<Rightarrow> nat \<Rightarrow> nat \<Rightarrow> int \<times> int \<Rightarrow> int \<times> int \<Rightarrow> ieee" where
  "cell_mean cfg src batch c h w rows cols =
     (let area = i2f ((snd rows - fst rows) * (snd cols - fst cols));
          channel = batch * channels cfg + (c * group_size cfg + h) * group_size cfg + w
      in if feq area (Fin 0) then Fin 0
         else divf (foldl addf (Fin 0) (concat (map (\<lambda>i. map (\<lambda>j.
           src ! ((channel * height cfg + (nat (fst rows) + i)) * width cfg + (nat (fst cols) + j)))
           [0..<nat (snd cols - fst cols)]) [0..<nat (snd rows - fst rows)]))) area)"

definition roi_cell :: "psroi_cfg \<Rightarrow> ieee list \<Rightarrow> ieee list \<Rightarrow> nat \<Rightarrow> nat \<Rightarrow> nat \<Rightarrow> nat \<Rightarrow> nat \<Rightarrow> ieee" where
  "roi_cell cfg src rois batch n c h w = cell_mean cfg src batch c h w
     (the (bin_range (roi_axis cfg (rois ! (n * 5 + 2)) (rois ! (n * 5 + 4))) (height cfg) h))
     (the (bin_range (roi_axis cfg (rois ! (n * 5 + 1)) (rois ! (n * 5 + 3))) (width cfg) w))"

lemma pool_cell_eq:
  assumes cfg: "cfg_ok cfg" and b: "b < B" and src: "length src = B * channels cfg * height cfg * width cfg"
    and c: "c < nc cfg" "h < nh cfg" "w < nw cfg"
    and rows: "0 \<le> hs" "he \<le> int (height cfg)" and cols: "bin_range axis (width cfg) w = Some (ws, we)" "0 \<le> ws" "we \<le> int (width cfg)"
    and dst: "n * nc cfg * nh cfg * nw cfg + c * nh cfg * nw cfg + h * nw cfg + w < length dst"
  shows "pool_cell cfg src (int b) axis n c h (hs, he) w dst =
    Some (dst[n * nc cfg * nh cfg * nw cfg + c * nh cfg * nw cfg + h * nw cfg + w := cell_mean cfg src b c h w (hs, he) (ws, we)])"
proof -
  define ch where "ch = b * channels cfg + (c * group_size cfg + h) * group_size cfg + w"
  have "(c * group_size cfg + h) * group_size cfg + w < channels cfg"
    using cfg c index3_less [of c "nc cfg" h "group_size cfg" w "group_size cfg"] by (simp add: cfg_ok_def)
  then have "ch < B * channels cfg" using index2_less [OF b] by (simp add: ch_def add.assoc)
  then have lim: "(ch * height cfg + y) * width cfg + x < length src" if "y < height cfg" "x < width cfg" for y x
    using index3_less [OF _ that] src by simp
  have base: "(int b * int (channels cfg) + int ((c * group_size cfg + h) * group_size cfg + w)) * int (height cfg) * int (width cfg) =
      int (ch * height cfg * width cfg)" by (simp add: ch_def algebra_simps)
  let ?g = "\<lambda>i j. src ! ((ch * height cfg + (nat hs + i)) * width cfg + (nat ws + j))"
  have read: "rdz src (int (ch * height cfg * width cfg) + (hs + int i) * int (width cfg) + (ws + int j)) = Some (?g i j)"
    if "i < nat (he - hs)" "j < nat (we - ws)" for i j
  proof -
    have "nat hs + i < height cfg" "nat ws + j < width cfg" using that rows cols by linarith+
    note lim = lim [OF this]
    have eq: "int (ch * height cfg * width cfg) + (hs + int i) * int (width cfg) + (ws + int j) =
        int ((ch * height cfg + (nat hs + i)) * width cfg + (nat ws + j))"
      using rows(1) cols(2) by (simp add: algebra_simps)
    show ?thesis unfolding eq rdz_nat using lim by (rule rd_Some)
  qed
  have "loop (nat (he - hs)) (\<lambda>i. loop (nat (we - ws)) (\<lambda>j s. do {
      v \<leftarrow> rdz src (int (ch * height cfg * width cfg) + (hs + int i) * int (width cfg) + (ws + int j));
      Some (addf s v) })) =
    loop (nat (he - hs)) (\<lambda>i. loop (nat (we - ws)) (\<lambda>j s. Some (addf s (?g i j))))"
    by (rule loop_same, rule arg_cong [where f = "\<lambda>f. f _"], rule loop_same)
      (simp only: read Option.bind.bind_lunit)
  note sum = this [THEN fun_cong, of "Fin 0", unfolded loop2_fold [where F = addf]]
  let ?p = "n * nc cfg * nh cfg * nw cfg + c * nh cfg * nw cfg + h * nw cfg + w"
  have "wr (dst[?p := Fin 0]) ?p v = Some (dst[?p := v])" for v using dst by (simp add: wr_Some)
  note writes = wr_Some [OF dst] this
  show ?thesis
    unfolding pool_cell_def Let_def prod.case writes Option.bind.bind_lunit cols(1) base sum
    by (simp add: cell_mean_def ch_def [symmetric] loop2_fold [where F = addf])
qed

section \<open>The whole layer\<close>

lemma count_rois_ok:
  assumes b: "\<forall>i < n. i * 5 < length rois \<and> to_int (rois ! (i * 5)) = Some (batch i)"
  shows "\<exists>r. count_rois n rois = Some r \<and> r \<le> n \<and> (\<forall>i < r. batch i \<noteq> -1) \<and> (r < n \<longrightarrow> batch r = -1)"
proof -
  have "ok (count_rois n rois) (\<lambda>r. r \<le> n \<and> (\<forall>i < r. batch i \<noteq> -1) \<and> (r < n \<longrightarrow> batch r = -1))"
    unfolding count_rois_def
    by (rule loop_brk_wp [where I = "\<lambda>i r. r = i \<and> (\<forall>j < i. batch j \<noteq> -1)"])
      (use b in \<open>auto simp: wp rd_Some less_Suc_eq\<close>)
  then show ?thesis by (simp add: ok_iff_ex)
qed

lemma pool_roi_eq:
  assumes cfg: "cfg_ok cfg" and b: "b < B" "to_int (rois ! (n * 5)) = Some (int b)" and rois: "n * 5 + 4 < length rois"
    and coords: "\<forall>k \<in> {1, 2, 3, 4}. coord_ok (rois ! (n * 5 + k))"
    and src: "length src = B * channels cfg * height cfg * width cfg" and n: "n < nn cfg"
  defines "rows \<equiv> \<lambda>h. the (bin_range (roi_axis cfg (rois ! (n * 5 + 2)) (rois ! (n * 5 + 4))) (height cfg) h)"
  shows "pool_roi cfg src rois n = loop (nc cfg) (\<lambda>c. loop (nh cfg) (\<lambda>h. loop (nw cfg)
      (pool_cell cfg src (int b) (roi_axis cfg (rois ! (n * 5 + 1)) (rois ! (n * 5 + 3))) n c h (rows h))))"
    and "c < nc cfg \<Longrightarrow> h < nh cfg \<Longrightarrow> w < nw cfg \<Longrightarrow> length dst = nn cfg * nc cfg * nh cfg * nw cfg \<Longrightarrow>
      pool_cell cfg src (int b) (roi_axis cfg (rois ! (n * 5 + 1)) (rois ! (n * 5 + 3))) n c h (rows h) w dst =
      Some (dst[((n * nc cfg + c) * nh cfg + h) * nw cfg + w := roi_cell cfg src rois b n c h w])"
proof -
  have k: "h < 128" if "h < nh cfg \<or> h < nw cfg" for h using that cfg by (auto simp: cfg_ok_def)
  have co: "coord_ok (rois ! (n * 5 + 1))" "coord_ok (rois ! (n * 5 + 2))" "coord_ok (rois ! (n * 5 + 3))"
    "coord_ok (rois ! (n * 5 + 4))" using coords by simp_all
  have r: "\<exists>s e. bin_range (roi_axis cfg (rois ! (n * 5 + 2)) (rois ! (n * 5 + 4))) (height cfg) h = Some (s, e) \<and>
      0 \<le> s \<and> e \<le> int (height cfg)" if "h < nh cfg" for h
    using bin_range_ok [OF cfg co(2,4) k [OF disjI1 [OF that]], of "height cfg"] by blast
  have "rd rois (n * 5) = Some (rois ! (n * 5))" "rd rois (n * 5 + 1) = Some (rois ! (n * 5 + 1))"
    "rd rois (n * 5 + 2) = Some (rois ! (n * 5 + 2))" "rd rois (n * 5 + 3) = Some (rois ! (n * 5 + 3))"
    "rd rois (n * 5 + 4) = Some (rois ! (n * 5 + 4))" using rois by (simp_all add: rd_Some)
  note reads = this b(2) Option.bind.bind_lunit
  have rowloop: "loop (nh cfg) (\<lambda>h dst. do {
      rows \<leftarrow> bin_range (roi_axis cfg (rois ! (n * 5 + 2)) (rois ! (n * 5 + 4))) (height cfg) h;
      loop (nw cfg) (pool_cell cfg src (int b) (roi_axis cfg (rois ! (n * 5 + 1)) (rois ! (n * 5 + 3))) n c h rows) dst }) =
    loop (nh cfg) (\<lambda>h. loop (nw cfg)
      (pool_cell cfg src (int b) (roi_axis cfg (rois ! (n * 5 + 1)) (rois ! (n * 5 + 3))) n c h (rows h)))" for c
  proof (rule loop_same)
    fix h dst assume "h < nh cfg"
    from r [OF this] show "bin_range (roi_axis cfg (rois ! (n * 5 + 2)) (rois ! (n * 5 + 4))) (height cfg) h \<bind> (\<lambda>rows.
        loop (nw cfg) (pool_cell cfg src (int b) (roi_axis cfg (rois ! (n * 5 + 1)) (rois ! (n * 5 + 3))) n c h rows) dst) =
      loop (nw cfg) (pool_cell cfg src (int b) (roi_axis cfg (rois ! (n * 5 + 1)) (rois ! (n * 5 + 3))) n c h (rows h)) dst"
      by (auto simp: rows_def)
  qed
  show "pool_roi cfg src rois n = loop (nc cfg) (\<lambda>c. loop (nh cfg) (\<lambda>h. loop (nw cfg)
      (pool_cell cfg src (int b) (roi_axis cfg (rois ! (n * 5 + 1)) (rois ! (n * 5 + 3))) n c h (rows h))))"
    by (rule ext) (simp only: pool_roi_def reads rowloop)
  assume c: "c < nc cfg" "h < nh cfg" "w < nw cfg" and dst: "length dst = nn cfg * nc cfg * nh cfg * nw cfg"
  obtain hs he where rows: "rows h = (hs, he)" "0 \<le> hs" "he \<le> int (height cfg)" using r [OF c(2)] by (auto simp: rows_def)
  obtain ws we where cols: "bin_range (roi_axis cfg (rois ! (n * 5 + 1)) (rois ! (n * 5 + 3))) (width cfg) w = Some (ws, we)"
    "0 \<le> ws" "we \<le> int (width cfg)"
    using bin_range_ok [OF cfg co(1,3) k [OF disjI2 [OF c(3)]], of "width cfg"] by blast
  have idx: "n * nc cfg * nh cfg * nw cfg + c * nh cfg * nw cfg + h * nw cfg + w = ((n * nc cfg + c) * nh cfg + h) * nw cfg + w"
    by (simp add: algebra_simps)
  have cellv: "roi_cell cfg src rois b n c h w = cell_mean cfg src b c h w (hs, he) (ws, we)"
    using rows(1) cols(1) unfolding roi_cell_def rows_def by simp
  have "n * nc cfg * nh cfg * nw cfg + c * nh cfg * nw cfg + h * nw cfg + w < length dst"
    unfolding dst by (rule index4_less [OF n c])
  then show "pool_cell cfg src (int b) (roi_axis cfg (rois ! (n * 5 + 1)) (rois ! (n * 5 + 3))) n c h (rows h) w dst =
      Some (dst[((n * nc cfg + c) * nh cfg + h) * nw cfg + w := roi_cell cfg src rois b n c h w])"
    using pool_cell_eq [OF cfg b(1) src c rows(2,3) cols, of n dst] unfolding idx cellv rows(1) by blast
qed

lemma loop_tensor:
  assumes "\<And>b c h w xs. b < B \<Longrightarrow> c < C \<Longrightarrow> h < H \<Longrightarrow> w < W \<Longrightarrow> length xs = L \<Longrightarrow>
      f b c h w xs = Some (xs[(((r + b) * C + c) * H + h) * W + w := g b c h w])"
    and room: "(r + B) * C * H * W \<le> L" and xs: "length xs = L"
  shows "\<exists>ys. loop B (\<lambda>b. loop C (\<lambda>c. loop H (\<lambda>h. loop W (f b c h)))) xs = Some ys \<and> length ys = L \<and>
    (\<forall>n c h w. c < C \<and> h < H \<and> w < W \<and> n < r + B \<longrightarrow> ys ! (((n * C + c) * H + h) * W + w) =
      (if r \<le> n then g (n - r) c h w else xs ! (((n * C + c) * H + h) * W + w)))"
proof -
  let ?p = "r * C * H * W"
  let ?g = "\<lambda>k. g (k div (C * H * W)) (k div (H * W) mod C) (k div W mod H) (k mod W)"
  let ?ys = "put xs ?p (map ?g [0..<B * C * H * W])"
  have room': "?p + B * C * H * W \<le> L" using room by (simp add: algebra_simps)
  have "loop B (\<lambda>b. loop C (\<lambda>c. loop H (\<lambda>h. loop W (f b c h)))) xs = Some ?ys"
    by (rule loop4_wr [OF _ room' xs]) (use assms(1) in \<open>simp add: algebra_simps\<close>)
  moreover have "?ys ! (((n * C + c) * H + h) * W + w) =
      (if r \<le> n then g (n - r) c h w else xs ! (((n * C + c) * H + h) * W + w))"
    if i: "c < C" "h < H" "w < W" "n < r + B" for n c h w
  proof (cases "r \<le> n")
    case True
    then obtain b where n: "n = r + b" by (rule le_Suc_ex [THEN exE])
    define k where "k = ((b * C + c) * H + h) * W + w"
    have "b < B" using i(4) n by simp
    then have k: "k < B * C * H * W" unfolding k_def by (intro index2_less index3_less i)
    have e: "((n * C + c) * H + h) * W + w = ?p + k" by (simp add: n k_def algebra_simps)
    have "?ys ! (?p + k) = ?g k" using k room' xs by (subst nth_put) simp_all
    then show ?thesis unfolding e using True idx4_decode [OF i(1-3) k_def] n by simp
  next
    case False
    have "(n * C + c) * H + h < r * C * H" using False i by (intro index3_less) simp_all
    then have "((n * C + c) * H + h) * W + w < ?p" using index2_less i(3) by blast
    then show ?thesis using False room' xs by (simp add: nth_put_other)
  qed
  ultimately show ?thesis using room' xs by auto
qed

text \<open>
  C24: For regions with finite coordinates and batch indices that exist, and for a channel per output
  cell, the layer stays inside its buffers and returns OK. The regions before the first one
  with batch index \<open>-1\<close> get, in every cell, the mean of their bin in the cell's channel (zero for
  an empty bin); the output of all further regions is zero.
\<close>

theorem psroi_execute_spec:
  assumes cfg: "cfg_ok cfg" and src: "length (data inp) = B * channels cfg * height cfg * width cfg"
    and rois: "nn cfg * 5 \<le> length (data roi)"
    and batch: "\<forall>i < nn cfg. to_int (data roi ! (i * 5)) = Some (batch i) \<and> (batch i = -1 \<or> 0 \<le> batch i \<and> batch i < int B)"
    and coords: "\<forall>i < nn cfg. \<forall>k \<in> {1, 2, 3, 4}. coord_ok (data roi ! (i * 5 + k))"
    and dst: "length (data out) = nn cfg * nc cfg * nh cfg * nw cfg"
  shows "\<exists>r d. psroi_execute cfg inp roi out = Some (OK, out\<lparr>data := d\<rparr>) \<and> length d = length (data out) \<and>
    r \<le> nn cfg \<and> (\<forall>i < r. batch i \<noteq> -1) \<and> (r < nn cfg \<longrightarrow> batch r = -1) \<and>
    (\<forall>n c h w. n < nn cfg \<and> c < nc cfg \<and> h < nh cfg \<and> w < nw cfg \<longrightarrow> d ! (((n * nc cfg + c) * nh cfg + h) * nw cfg + w) =
      (if n < r then roi_cell cfg (data inp) (data roi) (nat (batch n)) n c h w else Fin 0))"
proof -
  let ?ps = "data roi" and ?L = "nn cfg * nc cfg * nh cfg * nw cfg"
  obtain r where r: "count_rois (nn cfg) ?ps = Some r" "r \<le> nn cfg" "\<forall>i < r. batch i \<noteq> -1" "r < nn cfg \<longrightarrow> batch r = -1"
    using count_rois_ok [of "nn cfg" ?ps batch] batch rois by auto
  have roi: "n < nn cfg" "nat (batch n) < B" "to_int (?ps ! (n * 5)) = Some (int (nat (batch n)))"
    "n * 5 + 4 < length ?ps" "\<forall>k \<in> {1, 2, 3, 4}. coord_ok (?ps ! (n * 5 + k))" if "n < r" for n
  proof -
    show n: "n < nn cfg" using that r(2) by simp
    show "nat (batch n) < B" "to_int (?ps ! (n * 5)) = Some (int (nat (batch n)))"
      using batch [rule_format, OF n] r(3) that by auto
    show "n * 5 + 4 < length ?ps" using n rois by linarith
    show "\<forall>k \<in> {1, 2, 3, 4}. coord_ok (?ps ! (n * 5 + k))" using coords n by blast
  qed
  note pool = pool_roi_eq [OF cfg roi(2,3,4,5) src roi(1)]
  have fit: "r * nc cfg * nh cfg * nw cfg \<le> ?L" using r(2) by (intro mult_le_mono1)
  define cell where "cell = (\<lambda>n c h. pool_cell cfg (data inp) (int (nat (batch n)))
    (roi_axis cfg (?ps ! (n * 5 + 1)) (?ps ! (n * 5 + 3))) n c h
    (the (bin_range (roi_axis cfg (?ps ! (n * 5 + 2)) (?ps ! (n * 5 + 4))) (height cfg) h)))"
  have "\<exists>d1. loop r (\<lambda>n. loop (nc cfg) (\<lambda>c. loop (nh cfg) (\<lambda>h. loop (nw cfg) (cell n c h)))) (data out) = Some d1 \<and>
    length d1 = ?L \<and> (\<forall>n c h w. c < nc cfg \<and> h < nh cfg \<and> w < nw cfg \<and> n < 0 + r \<longrightarrow>
      d1 ! (((n * nc cfg + c) * nh cfg + h) * nw cfg + w) =
      (if 0 \<le> n then roi_cell cfg (data inp) ?ps (nat (batch (n - 0))) (n - 0) c h w
       else data out ! (((n * nc cfg + c) * nh cfg + h) * nw cfg + w)))"
  proof (rule loop_tensor [OF _ _ dst])
    fix n c h w and xs :: "ieee list"
    assume i: "n < r" "c < nc cfg" "h < nh cfg" "w < nw cfg" and xs: "length xs = ?L"
    show "cell n c h w xs = Some (xs[(((0 + n) * nc cfg + c) * nh cfg + h) * nw cfg + w :=
        roi_cell cfg (data inp) ?ps (nat (batch n)) n c h w])"
      unfolding cell_def add_0 by (rule pool(2) [OF i(1) i(1) i(1) i(1) i(1) i(2,3,4) xs])
  qed (use fit in simp)
  moreover have "loop r (pool_roi cfg (data inp) ?ps) = loop r (\<lambda>n. loop (nc cfg) (\<lambda>c. loop (nh cfg) (\<lambda>h. loop (nw cfg) (cell n c h))))"
    unfolding cell_def by (rule loop_same) (simp only: pool(1))
  ultimately obtain d1 where d1: "loop r (pool_roi cfg (data inp) ?ps) (data out) = Some d1" "length d1 = ?L"
    "\<forall>n c h w. c < nc cfg \<and> h < nh cfg \<and> w < nw cfg \<and> n < r \<longrightarrow> d1 ! (((n * nc cfg + c) * nh cfg + h) * nw cfg + w) =
      roi_cell cfg (data inp) ?ps (nat (batch n)) n c h w" by auto
  have "\<exists>d2. loop (nn cfg - r) (\<lambda>k. loop (nc cfg) (\<lambda>c. loop (nh cfg) (\<lambda>h. loop (nw cfg) (\<lambda>w dst.
       wr dst ((r + k) * nc cfg * nh cfg * nw cfg + c * nh cfg * nw cfg + h * nw cfg + w) (Fin 0))))) d1 = Some d2 \<and>
    length d2 = ?L \<and> (\<forall>n c h w. c < nc cfg \<and> h < nh cfg \<and> w < nw cfg \<and> n < r + (nn cfg - r) \<longrightarrow>
      d2 ! (((n * nc cfg + c) * nh cfg + h) * nw cfg + w) =
      (if r \<le> n then Fin 0 else d1 ! (((n * nc cfg + c) * nh cfg + h) * nw cfg + w)))"
  proof (rule loop_tensor [OF _ _ d1(2)])
    fix k c h w and xs :: "ieee list"
    assume i: "k < nn cfg - r" "c < nc cfg" "h < nh cfg" "w < nw cfg" and xs: "length xs = ?L"
    have e: "(r + k) * nc cfg * nh cfg * nw cfg + c * nh cfg * nw cfg + h * nw cfg + w =
        (((r + k) * nc cfg + c) * nh cfg + h) * nw cfg + w" by (simp add: algebra_simps)
    have "(r + k) * nc cfg * nh cfg * nw cfg + c * nh cfg * nw cfg + h * nw cfg + w < length xs"
      unfolding xs by (rule index4_less) (use i in simp_all)
    then show "wr xs ((r + k) * nc cfg * nh cfg * nw cfg + c * nh cfg * nw cfg + h * nw cfg + w) (Fin 0) =
        Some (xs[(((r + k) * nc cfg + c) * nh cfg + h) * nw cfg + w := Fin 0])"
      unfolding e by (rule wr_Some)
  qed (use r(2) in simp)
  then obtain d2 where d2: "loop (nn cfg - r) (\<lambda>k. loop (nc cfg) (\<lambda>c. loop (nh cfg) (\<lambda>h. loop (nw cfg) (\<lambda>w dst.
       wr dst ((r + k) * nc cfg * nh cfg * nw cfg + c * nh cfg * nw cfg + h * nw cfg + w) (Fin 0))))) d1 = Some d2"
    "length d2 = ?L" "\<forall>n c h w. c < nc cfg \<and> h < nh cfg \<and> w < nw cfg \<and> n < nn cfg \<longrightarrow>
      d2 ! (((n * nc cfg + c) * nh cfg + h) * nw cfg + w) =
      (if r \<le> n then Fin 0 else d1 ! (((n * nc cfg + c) * nh cfg + h) * nw cfg + w))"
    using r(2) by auto
  have "psroi_execute cfg inp roi out = Some (OK, out\<lparr>data := d2\<rparr>)"
    unfolding psroi_execute_def r(1) Option.bind.bind_lunit d1(1) d2(1) ..
  then show ?thesis using r d1(3) d2(2,3) dst by (intro exI [of _ r] exI [of _ d2]) auto
qed

text \<open>Two regions on a four by four image of four channels; the second one ends the list.\<close>

definition demo_psroi :: psroi_cfg where
  "demo_psroi = \<lparr>output_dim = 1, group_size = 2, spatial_scale = Fin 1, channels = 4, height = 4, width = 4,
     nn = 2, nc = 1, nh = 2, nw = 2\<rparr>"

definition demo_rois :: "ieee list" where
  "demo_rois = [Fin 0, Fin 0, Fin 0, Fin 3, Fin 3, Fin (- 1), Fin 0, Fin 0, Fin 0, Fin 0]"

lemma demo_psroi_ok: "cfg_ok demo_psroi" "channels demo_psroi = 4" "height demo_psroi = 4" "width demo_psroi = 4"
  "nn demo_psroi = 2" "nc demo_psroi = 1" "nh demo_psroi = 2" "nw demo_psroi = 2"
  by (simp_all add: demo_psroi_def cfg_ok_def)

lemma ceiling_minus_one: "\<lceil>- 1 :: rat\<rceil> = - 1"
  by (simp add: ceiling_def)

lemma demo_rois_ok: "length demo_rois = 10" "to_int (demo_rois ! (0 * 5)) = Some 0" "to_int (demo_rois ! (1 * 5)) = Some (-1)"
  "i < 10 \<Longrightarrow> coord_ok (demo_rois ! i)"
  by (auto simp: demo_rois_def to_int_def trunc_def ceiling_minus_one coord_ok_def less_Suc_eq numeral_eq_Suc)

theorem psroi_execute_spec_witness:
  "\<exists>d. psroi_execute demo_psroi \<lparr>dims = [1, 4, 4, 4], data = replicate 64 (Fin 1)\<rparr> \<lparr>dims = [2, 5], data = demo_rois\<rparr>
     \<lparr>dims = [2, 1, 2, 2], data = replicate 8 NaN\<rparr> = Some (OK, \<lparr>dims = [2, 1, 2, 2], data = d\<rparr>) \<and> length d = 8 \<and> d ! 7 = Fin 0"
proof (rule exE [OF psroi_execute_spec [where cfg = demo_psroi and B = 1 and inp = "\<lparr>dims = [1, 4, 4, 4], data = replicate 64 (Fin 1)\<rparr>"
    and roi = "\<lparr>dims = [2, 5], data = demo_rois\<rparr>" and out = "\<lparr>dims = [2, 1, 2, 2], data = replicate 8 NaN\<rparr>"
    and batch = "\<lambda>i. if i = 0 then 0 else -1"]], goal_cases)
  case 4
  show ?case using demo_rois_ok(2,3) by (auto simp: demo_psroi_ok less_Suc_eq numeral_2_eq_2)
next
  case 5
  show ?case by (auto simp: demo_psroi_ok intro!: demo_rois_ok(4))
next
  case (7 r)
  then obtain d where d: "psroi_execute demo_psroi \<lparr>dims = [1, 4, 4, 4], data = replicate 64 (Fin 1)\<rparr>
      \<lparr>dims = [2, 5], data = demo_rois\<rparr> \<lparr>dims = [2, 1, 2, 2], data = replicate 8 NaN\<rparr> =
      Some (OK, \<lparr>dims = [2, 1, 2, 2], data = d\<rparr>)" "length d = 8" "r \<le> 2" "\<forall>i < r. (if i = 0 then 0 else -1 :: int) \<noteq> -1"
    and cell: "\<forall>n c h w. n < 2 \<and> c < 1 \<and> h < 2 \<and> w < 2 \<longrightarrow> d ! (((n * 1 + c) * 2 + h) * 2 + w) =
      (if n < r then roi_cell demo_psroi (replicate 64 (Fin 1)) demo_rois (nat (if n = 0 then 0 else -1)) n c h w else Fin 0)"
    by (auto simp: demo_psroi_ok)
  have "\<not> 1 < r" using d(4) by (metis one_neq_zero)
  then have "d ! 7 = Fin 0" using cell [rule_format, of 1 0 1 1] by simp
  then show ?case using d by blast
qed (simp_all add: demo_psroi_ok demo_rois_ok)

end
