(* ===== verification/Transitions.thy ===== *)
theory Transitions
  imports Prelude
begin

text \<open>
  Runs of a labelled step relation, and the two ways in which the development reasons about
  them: a predicate that every step keeps, and a quantity that every step changes by what
  its label says.
\<close>

inductive run :: "('s \<Rightarrow> 'e \<Rightarrow> 's \<Rightarrow> bool) \<Rightarrow> 's \<Rightarrow> 'e list \<Rightarrow> 's \<Rightarrow> bool" for step where
  run_Nil: "run step s [] s"
| run_snoc: "run step s es s' \<Longrightarrow> step s' e s'' \<Longrightarrow> run step s (es @ [e]) s''"

lemma run_one: "step s e s' \<Longrightarrow> run step s [e] s'"
  using run_snoc [OF run_Nil] by fastforce

lemma run_append:
  assumes "run step s' es' s''" and "run step s es s'"
  shows "run step s (es @ es') s''"
  using assms
proof induction
  case run_Nil
  then show ?case by simp
next
  case (run_snoc s1 es1 s2 e s3)
  then have "run step s ((es @ es1) @ [e]) s3" by (intro run.run_snoc)
  then show ?case by simp
qed

lemma run_cons: "step s e s' \<Longrightarrow> run step s' es s'' \<Longrightarrow> run step s (e # es) s''"
  using run_append [OF _ run_one] by fastforce

lemma run_end: "s = s' \<Longrightarrow> run step s [] s'"
  by (simp add: run_Nil)

locale step_invariant =
  fixes step :: "'s \<Rightarrow> 'e \<Rightarrow> 's \<Rightarrow> bool" and holds :: "'s \<Rightarrow> bool"
  assumes step_keeps: "step s e s' \<Longrightarrow> holds s \<Longrightarrow> holds s'"
begin

lemma run_keeps: "run step s es s' \<Longrightarrow> holds s \<Longrightarrow> holds s'"
  by (induction rule: run.induct) (auto intro: step_keeps)

end

text \<open>What comes in and what is left or went out balance.\<close>

locale step_balance =
  fixes step :: "'s \<Rightarrow> 'e \<Rightarrow> 's \<Rightarrow> bool" and amount :: "'s \<Rightarrow> 'a multiset"
    and gain :: "'e \<Rightarrow> 'a multiset" and loss :: "'e \<Rightarrow> 'a multiset"
  assumes step_balances: "step s e s' \<Longrightarrow> amount s' + loss e = amount s + gain e"
begin

lemma run_balances:
  "run step s es s' \<Longrightarrow> amount s' + sum_list (map loss es) = amount s + sum_list (map gain es)"
proof (induction rule: run.induct)
  case (run_snoc s es s' e s'')
  have "amount s'' + loss e = amount s' + gain e" by (rule step_balances [OF run_snoc.hyps(2)])
  moreover have "amount s' + sum_list (map loss es) = amount s + sum_list (map gain es)" by (rule run_snoc.IH)
  ultimately have "(amount s'' + loss e) + (amount s' + sum_list (map loss es)) =
      (amount s' + gain e) + (amount s + sum_list (map gain es))" by (simp only:)
  then have "amount s' + (amount s'' + (sum_list (map loss es) + loss e)) =
      amount s' + (amount s + (sum_list (map gain es) + gain e))" by (simp only: ac_simps)
  then show ?case by simp
qed simp

end

text \<open>A sequence that steps extend at the end and consume at the front: first in, first out.\<close>

locale step_fifo =
  fixes step :: "'s \<Rightarrow> 'e \<Rightarrow> 's \<Rightarrow> bool" and content :: "'s \<Rightarrow> 'a list"
    and enq :: "'e \<Rightarrow> 'a list" and deq :: "'e \<Rightarrow> 'a list"
  assumes step_content: "step s e s' \<Longrightarrow> content s @ enq e = deq e @ content s'"
begin

lemma run_content: "run step s es s' \<Longrightarrow> content s @ concat (map enq es) = concat (map deq es) @ content s'"
proof (induction rule: run.induct)
  case (run_snoc s es s' e s'')
  have "content s @ concat (map enq (es @ [e])) = (content s @ concat (map enq es)) @ enq e" by simp
  also have "\<dots> = concat (map deq es) @ content s' @ enq e" using run_snoc.IH by simp
  also have "\<dots> = concat (map deq (es @ [e])) @ content s''" using step_content [OF run_snoc.hyps(2)] by simp
  finally show ?case .
qed simp

end

text \<open>A run whose labels are restricted is a run of the restricted relation.\<close>

definition restrict_step :: "('s \<Rightarrow> 'e \<Rightarrow> 's \<Rightarrow> bool) \<Rightarrow> ('e \<Rightarrow> bool) \<Rightarrow> 's \<Rightarrow> 'e \<Rightarrow> 's \<Rightarrow> bool" where
  "restrict_step step P s e s' \<longleftrightarrow> step s e s' \<and> P e"

lemma run_restrict: "run step s es s' \<Longrightarrow> \<forall>e \<in> set es. P e \<Longrightarrow> run (restrict_step step P) s es s'"
  by (induction rule: run.induct) (auto simp: restrict_step_def intro: run.intros)

section \<open>Threads in a list\<close>

lemma split_at:
  assumes "t < length xs"
  obtains a v b where "xs = a @ v # b" and "length a = t"
  using id_take_nth_drop [OF assms] assms by (intro that [of "take t xs"]) simp_all

lemma length_filter_update:
  assumes "t < length xs"
  shows "length (filter P (xs[t := x])) + (if P (xs ! t) then 1 else 0) =
    length (filter P xs) + (if P x then 1 else 0)"
  by (rule split_at [OF assms]) (auto simp: list_update_append nth_append)

lemma sum_mset_update:
  assumes "t < length xs"
  shows "sum_list (map f (xs[t := y])) + f (xs ! t) = sum_list (map f xs) + (f y :: 'a multiset)"
  by (rule split_at [OF assms]) (auto simp: list_update_append nth_append ac_simps)

end
