(* ===== verification/Dual_Pipe.thy ===== *)
theory Dual_Pipe
  imports Transitions
begin

text \<open>
  The pair of buffer queues between two threads (\<open>video_analytics_example/dualpipe.cpp\<close>,
  \<open>dualpipe.h\<close>). Threads call \<open>Get\<close>, \<open>Put\<close>, \<open>Load\<close>, \<open>LoadNoWait\<close> and \<open>Store\<close>
  concurrently; each call is a sequence of steps over the two lists, the mutex and the
  condition variable, and the steps of different threads interleave in any order.

  Of POSIX threads the model has what the documentation promises: a lock waits until the
  mutex is free, locking a mutex one already owns never returns, a wait on the condition
  releases the mutex and may end by a signal, by its time limit or spuriously, and a
  signal wakes one waiting thread if there is one.

  Buffers are addresses; \<open>NULL\<close> is the null pointer.
\<close>

section \<open>State and steps\<close>

type_synonym ptr = nat

abbreviation NULL :: ptr where "NULL \<equiv> 0"

datatype operation = Get | Put ptr | Load bool | LoadNoWait | Store ptr

text \<open>
  Where a thread is. The flag of the \<open>Load\<close> positions says that a time limit is given,
  the second one of \<open>Load_Test\<close> that it was waited for.
\<close>

datatype pc =
    Idle
  | Get_Lock | Get_Test | Get_Retry | Get_Sleep | Get_Again | Get_Done ptr
  | Put_Lock ptr | Put_Push ptr | Put_Done
  | Load_Lock bool | Load_Test bool bool | Load_Wait bool | Load_Wake bool | Load_Done ptr
  | NoWait_Lock | NoWait_Test | NoWait_Done ptr
  | Store_Lock ptr | Store_Push ptr | Store_Done | Store_Signal

record dual_pipe =
  m_inPipe :: "ptr list"
  m_outPipe :: "ptr list"
  m_mutex :: "nat option"
  threads :: "pc list"

datatype event = Tau | Call nat operation | Return nat ptr | Stored ptr | Loaded ptr

fun enter :: "operation \<Rightarrow> pc" where
  "enter Get = Get_Lock" | "enter (Put b) = Put_Lock b" | "enter (Load timed) = Load_Lock timed"
| "enter LoadNoWait = NoWait_Lock" | "enter (Store b) = Store_Lock b"

text \<open>The position behind a \<open>pthread_mutex_lock\<close>, also the one that ends a wait.\<close>

fun locked :: "pc \<Rightarrow> pc option" where
  "locked Get_Lock = Some Get_Test"
| "locked (Put_Lock b) = Some (Put_Push b)"
| "locked (Load_Lock timed) = Some (Load_Test timed False)"
| "locked (Load_Wake timed) = Some (Load_Test timed timed)"
| "locked NoWait_Lock = Some NoWait_Test"
| "locked (Store_Lock b) = Some (Store_Push b)"
| "locked _ = None"

text \<open>The result of a call that ends by unlocking.\<close>

fun result :: "pc \<Rightarrow> ptr option" where
  "result (Get_Done b) = Some b" | "result Put_Done = Some NULL" | "result (Load_Done b) = Some b"
| "result (NoWait_Done b) = Some b" | "result _ = None"

abbreviation at_pc :: "dual_pipe \<Rightarrow> nat \<Rightarrow> pc \<Rightarrow> bool" where
  "at_pc s t p \<equiv> t < length (threads s) \<and> threads s ! t = p"

abbreviation goto :: "dual_pipe \<Rightarrow> nat \<Rightarrow> pc \<Rightarrow> dual_pipe" where
  "goto s t p \<equiv> s\<lparr>threads := (threads s)[t := p]\<rparr>"

inductive pipe_step :: "dual_pipe \<Rightarrow> event \<Rightarrow> dual_pipe \<Rightarrow> bool" where
  call: "at_pc s t Idle \<Longrightarrow> pipe_step s (Call t op) (goto s t (enter op))"
| lock: "at_pc s t p \<Longrightarrow> locked p = Some q \<Longrightarrow> m_mutex s = None \<Longrightarrow>
    pipe_step s Tau (goto s t q\<lparr>m_mutex := Some t\<rparr>)"
| ret: "at_pc s t p \<Longrightarrow> result p = Some b \<Longrightarrow> pipe_step s (Return t b) (goto s t Idle\<lparr>m_mutex := None\<rparr>)"
| get_take: "at_pc s t Get_Test \<Longrightarrow> m_inPipe s = b # bs \<Longrightarrow> b \<noteq> NULL \<Longrightarrow>
    pipe_step s Tau (goto s t (Get_Done b)\<lparr>m_inPipe := bs\<rparr>)"
| get_null: "at_pc s t Get_Test \<Longrightarrow> m_inPipe s = NULL # bs \<Longrightarrow>
    pipe_step s Tau (goto s t Get_Again\<lparr>m_inPipe := bs\<rparr>)"
| get_empty: "at_pc s t Get_Test \<Longrightarrow> m_inPipe s = [] \<Longrightarrow> pipe_step s Tau (goto s t Get_Retry)"
| get_retry: "at_pc s t Get_Retry \<Longrightarrow> pipe_step s Tau (goto s t Get_Sleep\<lparr>m_mutex := None\<rparr>)"
| get_sleep: "at_pc s t Get_Sleep \<Longrightarrow> pipe_step s Tau (goto s t Get_Lock)"
| put: "at_pc s t (Put_Push b) \<Longrightarrow> pipe_step s Tau (goto s t Put_Done\<lparr>m_inPipe := b # m_inPipe s\<rparr>)"
| load_take: "at_pc s t (Load_Test timed out) \<Longrightarrow> m_outPipe s = b # bs \<Longrightarrow> b \<noteq> NULL \<Longrightarrow>
    pipe_step s (Loaded b) (goto s t (Load_Done b)\<lparr>m_outPipe := bs\<rparr>)"
| load_null: "at_pc s t (Load_Test timed out) \<Longrightarrow> m_outPipe s = NULL # bs \<Longrightarrow>
    pipe_step s (Loaded NULL) (s\<lparr>m_outPipe := bs\<rparr>)"
| load_wait: "at_pc s t (Load_Test timed out) \<Longrightarrow> m_outPipe s = [] \<Longrightarrow> \<not> (timed \<and> out) \<Longrightarrow>
    pipe_step s Tau (goto s t (Load_Wait timed)\<lparr>m_mutex := None\<rparr>)"
| load_timeout: "at_pc s t (Load_Test True True) \<Longrightarrow> m_outPipe s = [] \<Longrightarrow> pipe_step s Tau (goto s t (Load_Done NULL))"
| load_wake: "at_pc s t (Load_Wait timed) \<Longrightarrow> pipe_step s Tau (goto s t (Load_Wake timed))"
| nowait_take: "at_pc s t NoWait_Test \<Longrightarrow> m_outPipe s = b # bs \<Longrightarrow>
    pipe_step s (Loaded b) (goto s t (NoWait_Done b)\<lparr>m_outPipe := bs\<rparr>)"
| nowait_empty: "at_pc s t NoWait_Test \<Longrightarrow> m_outPipe s = [] \<Longrightarrow> pipe_step s Tau (goto s t (NoWait_Done NULL))"
| store: "at_pc s t (Store_Push b) \<Longrightarrow>
    pipe_step s (Stored b) (goto s t Store_Done\<lparr>m_outPipe := m_outPipe s @ [b]\<rparr>)"
| store_unlock: "at_pc s t Store_Done \<Longrightarrow> pipe_step s Tau (goto s t Store_Signal\<lparr>m_mutex := None\<rparr>)"
| signal: "at_pc s t Store_Signal \<Longrightarrow> at_pc s w (Load_Wait timed) \<Longrightarrow>
    pipe_step s (Return t NULL) (goto (goto s t Idle) w (Load_Wake timed))"
| signal_none: "at_pc s t Store_Signal \<Longrightarrow> \<forall>timed. Load_Wait timed \<notin> set (threads s) \<Longrightarrow>
    pipe_step s (Return t NULL) (goto s t Idle)"

text \<open>The constructor and \<open>Initialize\<close>: allocation and the caller's callback act on a heap \<open>h\<close>.\<close>

definition new_pipe :: "nat \<Rightarrow> dual_pipe" where
  "new_pipe n = \<lparr>m_inPipe = [], m_outPipe = [], m_mutex = None, threads = replicate n Idle\<rparr>"

fun Initialize ::
    "(nat \<Rightarrow> 'h \<Rightarrow> ptr \<times> 'h) \<Rightarrow> nat \<Rightarrow> nat \<Rightarrow> (ptr \<Rightarrow> 'h \<Rightarrow> 'h) option \<Rightarrow> dual_pipe \<Rightarrow> 'h \<Rightarrow> int \<times> dual_pipe \<times> 'h" where
  "Initialize memalign 0 maxframesize init s h = (0, s, h)"
| "Initialize memalign (Suc nframe) maxframesize init s h =
     (let (p, h) = memalign maxframesize h in
      if p = NULL then (-1, s, h)
      else Initialize memalign nframe maxframesize init (s\<lparr>m_inPipe := p # m_inPipe s\<rparr>)
        (case init of None \<Rightarrow> h | Some f \<Rightarrow> f p h))"

text \<open>The destructor frees the head of the first list until it is empty, then those of the second.\<close>

fun free_all :: "ptr list \<Rightarrow> ptr list \<Rightarrow> ptr list" where
  "free_all (p # ps) qs = p # free_all ps qs"
| "free_all [] (q # qs) = q # free_all [] qs"
| "free_all [] [] = []"

definition destroy :: "dual_pipe \<Rightarrow> ptr list" where
  "destroy s = free_all (m_inPipe s) (m_outPipe s)"

section \<open>Mutual exclusion\<close>

text \<open>Between a lock and the next unlock or wait.\<close>

fun critical :: "pc \<Rightarrow> bool" where
  "critical Get_Test = True" | "critical Get_Retry = True" | "critical Get_Again = True" | "critical (Get_Done _) = True"
| "critical (Put_Push _) = True" | "critical Put_Done = True"
| "critical (Load_Test _ _) = True" | "critical (Load_Done _) = True"
| "critical NoWait_Test = True" | "critical (NoWait_Done _) = True"
| "critical (Store_Push _) = True" | "critical Store_Done = True"
| "critical _ = False"

definition mutex_ok :: "dual_pipe \<Rightarrow> bool" where
  "mutex_ok s \<longleftrightarrow> (\<forall>t. m_mutex s = Some t \<longleftrightarrow> t < length (threads s) \<and> critical (threads s ! t))"

lemma locked_critical: "locked p = Some q \<Longrightarrow> \<not> critical p \<and> critical q"
  by (cases p) auto

lemma result_critical: "result p = Some b \<Longrightarrow> critical p"
  by (cases p) auto

lemma enter_not_critical [simp]: "\<not> critical (enter op)"
  by (cases op) auto

lemma mutex_ok_pipes [simp]:
  "mutex_ok (s\<lparr>m_inPipe := xs\<rparr>) = mutex_ok s" "mutex_ok (s\<lparr>m_outPipe := xs\<rparr>) = mutex_ok s"
  by (simp_all add: mutex_ok_def)

lemma critical_update:
  "u < length ts \<Longrightarrow> critical (ts[t := q] ! u) = (if u = t then critical q else critical (ts ! u))"
  by (cases "u = t") simp_all

lemma mutex_same:
  assumes "mutex_ok s" and "critical q = critical (threads s ! t)"
  shows "mutex_ok (goto s t q)"
proof -
  have "u < length (threads s) \<and> critical ((threads s)[t := q] ! u) \<longleftrightarrow> u < length (threads s) \<and> critical (threads s ! u)" for u
    using assms(2) critical_update [of u "threads s" t q] by (cases "u = t") auto
  then show ?thesis using assms(1) by (simp add: mutex_ok_def)
qed

lemma mutex_release:
  assumes "mutex_ok s" and "t < length (threads s)" and "critical (threads s ! t)" and "\<not> critical q"
  shows "mutex_ok (goto s t q\<lparr>m_mutex := None\<rparr>)"
proof -
  have m: "m_mutex s = Some t" using assms by (simp add: mutex_ok_def)
  have "\<not> (u < length (threads s) \<and> critical ((threads s)[t := q] ! u))" for u
  proof (cases "u = t")
    case False
    then have "\<not> (u < length (threads s) \<and> critical (threads s ! u))"
      using assms(1) m unfolding mutex_ok_def by (metis option.inject)
    then show ?thesis using False critical_update [of u "threads s" t q] by auto
  qed (use assms in simp)
  then show ?thesis by (simp add: mutex_ok_def)
qed

lemma mutex_acquire:
  assumes "mutex_ok s" and "m_mutex s = None" and "t < length (threads s)" and "critical q"
  shows "mutex_ok (goto s t q\<lparr>m_mutex := Some t\<rparr>)"
proof -
  have "\<not> (u < length (threads s) \<and> critical (threads s ! u))" for u
    using assms(1,2) by (simp add: mutex_ok_def)
  then have "u < length (threads s) \<and> critical ((threads s)[t := q] ! u) \<longleftrightarrow> u = t" for u
    using assms(3,4) critical_update [of u "threads s" t q] by (cases "u = t") auto
  then show ?thesis by (auto simp: mutex_ok_def)
qed

interpretation mutex: step_invariant pipe_step mutex_ok
proof
  fix s e s' assume "pipe_step s e s'" and ok: "mutex_ok s"
  then show "mutex_ok s'"
  proof cases
    case lock
    then show ?thesis using ok by (auto dest: locked_critical intro: mutex_acquire)
  next
    case ret
    then show ?thesis using ok by (auto dest: result_critical intro: mutex_release)
  next
    case (signal t w timed)
    have "mutex_ok (goto s t Idle)" using signal ok by (intro mutex_same) simp_all
    then show ?thesis using signal by (cases "t = w") (auto intro!: mutex_same [of "goto s t Idle", simplified])
  qed (use ok in \<open>simp_all add: mutex_same mutex_release\<close>)
qed

section \<open>First in, first out\<close>

fun stored_by :: "event \<Rightarrow> ptr list" where
  "stored_by (Stored b) = [b]" | "stored_by _ = []"

fun loaded_by :: "event \<Rightarrow> ptr list" where
  "loaded_by (Loaded b) = [b]" | "loaded_by _ = []"

interpretation fifo: step_fifo pipe_step m_outPipe stored_by loaded_by
proof
  fix s e s' assume "pipe_step s e s'"
  then show "m_outPipe s @ stored_by e = loaded_by e @ m_outPipe s'" by cases auto
qed

section \<open>No buffer is lost or duplicated\<close>

definition bufs :: "ptr list \<Rightarrow> ptr multiset" where
  "bufs bs = filter_mset (\<lambda>b. b \<noteq> NULL) (mset bs)"

fun held :: "pc \<Rightarrow> ptr multiset" where
  "held (Get_Done b) = bufs [b]" | "held (Put_Lock b) = bufs [b]" | "held (Put_Push b) = bufs [b]"
| "held (Load_Done b) = bufs [b]" | "held (NoWait_Done b) = bufs [b]"
| "held (Store_Lock b) = bufs [b]" | "held (Store_Push b) = bufs [b]" | "held _ = {#}"

definition buffers :: "dual_pipe \<Rightarrow> ptr multiset" where
  "buffers s = bufs (m_inPipe s) + bufs (m_outPipe s) + sum_list (map held (threads s))"

fun given :: "event \<Rightarrow> ptr multiset" where
  "given (Call _ (Put b)) = bufs [b]" | "given (Call _ (Store b)) = bufs [b]" | "given _ = {#}"

fun returned :: "event \<Rightarrow> ptr multiset" where
  "returned (Return _ b) = bufs [b]" | "returned _ = {#}"

lemma bufs_simps [simp]: "bufs [] = {#}" "bufs (b # bs) = (if b = NULL then {#} else {#b#}) + bufs bs"
  "bufs (xs @ ys) = bufs xs + bufs ys"
  by (simp_all add: bufs_def)

lemma locked_held: "locked p = Some q \<Longrightarrow> held q = held p"
  by (cases p) auto

lemma result_held: "result p = Some b \<Longrightarrow> held p = bufs [b]"
  by (cases p) auto

lemma held_split:
  assumes "at_pc s t p"
  shows "\<exists>H. sum_list (map held (threads s)) = H + held p \<and>
    (\<forall>q. sum_list (map held ((threads s)[t := q])) = H + held q)"
proof -
  obtain a v b where ts: "threads s = a @ v # b" "length a = t" using split_at assms by blast
  then show ?thesis
    using assms
    by (intro exI [of _ "sum_list (map held a) + sum_list (map held b)"])
      (auto simp: list_update_append nth_append ac_simps)
qed

interpretation balance: step_balance pipe_step buffers given returned
proof
  fix s e s' assume "pipe_step s e s'"
  then show "buffers s' + returned e = buffers s + given e"
  proof cases
    case (call t op)
    obtain H where "sum_list (map held (threads s)) = H + held Idle"
      "\<forall>q. sum_list (map held ((threads s)[t := q])) = H + held q" using held_split call(3) by blast
    then show ?thesis using call by (cases op) (simp_all add: buffers_def)
  next
    case (lock t p q)
    obtain H where "sum_list (map held (threads s)) = H + held p"
      "\<forall>q. sum_list (map held ((threads s)[t := q])) = H + held q" using held_split lock(3) by blast
    then show ?thesis using lock locked_held [of p q] by (simp add: buffers_def)
  next
    case (ret t p b)
    obtain H where "sum_list (map held (threads s)) = H + held p"
      "\<forall>q. sum_list (map held ((threads s)[t := q])) = H + held q" using held_split ret(3) by blast
    then show ?thesis using ret result_held [of p b] by (simp add: buffers_def)
  next
    case (signal t w timed)
    have "at_pc (goto s t Idle) w (Load_Wait timed)" using signal by (cases "t = w") auto
    then obtain H where "sum_list (map held ((threads s)[t := Idle])) = H"
      "\<forall>q. sum_list (map held ((threads s)[t := Idle, w := q])) = H + held q"
      using held_split [where s = "goto s t Idle" and t = w and p = "Load_Wait timed"] by auto
    moreover obtain H' where "sum_list (map held (threads s)) = H'"
      "\<forall>q. sum_list (map held ((threads s)[t := q])) = H' + held q"
      using held_split [where s = s and t = t and p = Store_Signal] signal by auto
    ultimately show ?thesis using signal by (simp add: buffers_def)
  qed (drule held_split, erule exE, simp add: buffers_def ac_simps)+
qed

section \<open>No wake-up is lost\<close>

fun is_wait :: "pc \<Rightarrow> bool" where
  "is_wait (Load_Wait _) = True" | "is_wait _ = False"

text \<open>A thread that is about to look at the second list, or about to signal.\<close>

fun coming :: "pc \<Rightarrow> bool" where
  "coming (Load_Lock _) = True" | "coming (Load_Test _ _) = True" | "coming (Load_Wake _) = True"
| "coming Store_Done = True" | "coming Store_Signal = True" | "coming _ = False"

definition waiters :: "pc list \<Rightarrow> nat" where
  "waiters ts = length (filter is_wait ts)"

definition comers :: "pc list \<Rightarrow> nat" where
  "comers ts = length (filter coming ts)"

definition wake_ok :: "dual_pipe \<Rightarrow> bool" where
  "wake_ok s \<longleftrightarrow> (0 < waiters (threads s) \<longrightarrow> length (m_outPipe s) \<le> comers (threads s))"

lemma count_split:
  assumes "at_pc s t p"
  shows "\<exists>m n. waiters (threads s) = m + (if is_wait p then 1 else 0) \<and> comers (threads s) = n + (if coming p then 1 else 0) \<and>
    (\<forall>q. waiters ((threads s)[t := q]) = m + (if is_wait q then 1 else 0) \<and>
      comers ((threads s)[t := q]) = n + (if coming q then 1 else 0))"
proof -
  obtain a v b where ts: "threads s = a @ v # b" "length a = t" using split_at assms by blast
  then show ?thesis
    using assms
    by (intro exI [of _ "waiters a + waiters b"] exI [of _ "comers a + comers b"])
      (auto simp: list_update_append nth_append waiters_def comers_def)
qed

lemma locked_comes: "locked p = Some q \<Longrightarrow> \<not> is_wait p \<and> \<not> is_wait q \<and> coming q = coming p"
  by (cases p) auto

lemma result_comes: "result p = Some b \<Longrightarrow> \<not> is_wait p \<and> (coming p \<longrightarrow> False)"
  by (cases p) auto

lemma waiters_0: "waiters ts = 0 \<longleftrightarrow> (\<forall>timed. Load_Wait timed \<notin> set ts)"
  unfolding waiters_def length_0_conv filter_empty_conv by (metis is_wait.elims(2) is_wait.simps(1))

interpretation wake: step_invariant pipe_step wake_ok
proof
  fix s e s' assume "pipe_step s e s'" and ok: "wake_ok s"
  then show "wake_ok s'"
  proof cases
    case (call t op)
    then show ?thesis using ok count_split [of t s Idle] by (cases op) (auto simp: wake_ok_def)
  next
    case (lock t p q)
    then show ?thesis using ok count_split [of t s p] locked_comes [of p q] by (auto simp: wake_ok_def)
  next
    case (ret t p b)
    then show ?thesis using ok count_split [of t s p] result_comes [of p b] by (auto simp: wake_ok_def)
  next
    case (signal t w timed)
    have "at_pc (goto s t Idle) w (Load_Wait timed)" using signal by (cases "t = w") auto
    then show ?thesis
      using ok signal count_split [of w "goto s t Idle" "Load_Wait timed"] count_split [of t s Store_Signal]
      by (auto simp: wake_ok_def)
  next
    case (signal_none t)
    then show ?thesis using count_split [of t s Store_Signal] by (auto simp: wake_ok_def waiters_0 [symmetric])
  qed (insert ok, (drule count_split, elim exE conjE, (auto simp: wake_ok_def)[1])+)
qed

section \<open>Progress\<close>

text \<open>Without null pointers in the calls there are none anywhere, and \<open>Get\<close> never locks twice.\<close>

fun proper :: "event \<Rightarrow> bool" where
  "proper (Call _ (Put b)) = (b \<noteq> NULL)" | "proper (Call _ (Store b)) = (b \<noteq> NULL)" | "proper _ = True"

fun no_null :: "pc \<Rightarrow> bool" where
  "no_null Get_Again = False" | "no_null (Put_Lock b) = (b \<noteq> NULL)" | "no_null (Put_Push b) = (b \<noteq> NULL)"
| "no_null (Store_Lock b) = (b \<noteq> NULL)" | "no_null (Store_Push b) = (b \<noteq> NULL)" | "no_null _ = True"

definition null_free :: "dual_pipe \<Rightarrow> bool" where
  "null_free s \<longleftrightarrow> NULL \<notin> set (m_inPipe s) \<and> NULL \<notin> set (m_outPipe s) \<and> list_all no_null (threads s)"

lemma locked_no_null: "locked p = Some q \<Longrightarrow> no_null p \<Longrightarrow> no_null q"
  by (cases p) auto

lemma list_all_update: "list_all P xs \<Longrightarrow> P x \<Longrightarrow> list_all P (xs[t := x])"
  by (auto simp: list_all_iff dest!: set_update_subset_insert [THEN subsetD])

lemma list_all_nth: "list_all P xs \<Longrightarrow> t < length xs \<Longrightarrow> xs ! t = x \<Longrightarrow> P x"
  by (auto simp: list_all_length)

interpretation nulls: step_invariant "restrict_step pipe_step proper" null_free
proof
  fix s e s' assume "restrict_step pipe_step proper s e s'" and ok: "null_free s"
  then have "pipe_step s e s'" and p: "proper e" by (simp_all add: restrict_step_def)
  then show "null_free s'"
  proof cases
    case (call t op)
    then show ?thesis using ok p by (cases op) (auto simp: null_free_def intro!: list_all_update)
  next
    case (lock t p q)
    then show ?thesis using ok list_all_nth [of no_null "threads s" t p] locked_no_null [of p q]
      by (auto simp: null_free_def intro!: list_all_update)
  next
    case (put t b)
    then show ?thesis using ok list_all_nth [of no_null "threads s" t "Put_Push b"]
      by (auto simp: null_free_def intro!: list_all_update)
  next
    case (store t b)
    then show ?thesis using ok list_all_nth [of no_null "threads s" t "Store_Push b"]
      by (auto simp: null_free_def intro!: list_all_update)
  qed (use ok in \<open>auto simp: null_free_def intro!: list_all_update\<close>)
qed

definition can_move :: "dual_pipe \<Rightarrow> nat \<Rightarrow> bool" where
  "can_move s t \<longleftrightarrow> (\<exists>e s'. pipe_step s e s' \<and> threads s' ! t \<noteq> threads s ! t)"

lemma can_moveI:
  assumes "pipe_step s e s'" and "threads s' = (threads s)[t := q]" and "t < length (threads s)" and "threads s ! t \<noteq> q"
  shows "can_move s t"
  using assms by (auto simp: can_move_def intro!: exI)

lemma thread_moves:
  assumes m: "mutex_ok s" and n: "null_free s" and t: "t < length (threads s)" "threads s ! t \<noteq> Idle"
    and free: "m_mutex s = None \<or> m_mutex s = Some t"
  shows "can_move s t"
proof -
  define p where "p = threads s ! t"
  have at: "at_pc s t p" using t by (simp add: p_def)
  have nn: "no_null p" using n t by (auto simp: null_free_def p_def list_all_length)
  have hd: "b \<noteq> NULL" if "m_inPipe s = b # bs \<or> m_outPipe s = b # bs" for b bs
    using n that by (auto simp: null_free_def)
  consider (lock) q where "locked p = Some q" | (ret) b where "result p = Some b" | (other) "locked p = None" "result p = None"
    by (cases "locked p"; cases "result p") auto
  then show ?thesis
  proof cases
    case lock
    then have "m_mutex s \<noteq> Some t" using m locked_critical [of p q] by (simp add: mutex_ok_def p_def)
    then have "m_mutex s = None" using free by simp
    then show ?thesis using pipe_step.lock [OF at lock] lock locked_critical [of p q] t(1)
      by (intro can_moveI [where q = q]) (auto simp: p_def)
  next
    case ret
    then show ?thesis using pipe_step.ret [OF at ret] t by (intro can_moveI [where q = Idle]) auto
  next
    case other
    show ?thesis
    proof (cases p)
      case Get_Test
      show ?thesis
      proof (cases "m_inPipe s")
        case Nil
        then show ?thesis using get_empty [of t s] at Get_Test by (intro can_moveI [where q = Get_Retry]) auto
      next
        case (Cons b bs)
        then show ?thesis using get_take [of t s b bs] hd [of b bs] at Get_Test
          by (intro can_moveI [where q = "Get_Done b"]) auto
      qed
    next
      case Get_Retry
      then show ?thesis using get_retry [of t s] at by (intro can_moveI [where q = Get_Sleep]) auto
    next
      case Get_Sleep
      then show ?thesis using get_sleep [of t s] at by (intro can_moveI [where q = Get_Lock]) auto
    next
      case (Put_Push b)
      then show ?thesis using put [of t s b] at by (intro can_moveI [where q = Put_Done]) auto
    next
      case (Load_Test timed out)
      show ?thesis
      proof (cases "m_outPipe s")
        case Nil
        then show ?thesis
          using load_wait [of t s timed out] load_timeout [of t s] at Load_Test
          by (cases "timed \<and> out") (auto intro: can_moveI [where q = "Load_Done NULL"] can_moveI [where q = "Load_Wait timed"])
      next
        case (Cons b bs)
        then show ?thesis using load_take [of t s timed out b bs] hd [of b bs] at Load_Test
          by (intro can_moveI [where q = "Load_Done b"]) auto
      qed
    next
      case (Load_Wait timed)
      then show ?thesis using load_wake [of t s timed] at by (intro can_moveI [where q = "Load_Wake timed"]) auto
    next
      case NoWait_Test
      then show ?thesis
        using nowait_take [of t s] nowait_empty [of t s] at
        by (cases "m_outPipe s") (auto intro: can_moveI [where q = "NoWait_Done NULL"] can_moveI [where q = "NoWait_Done (hd (m_outPipe s))"])
    next
      case (Store_Push b)
      then show ?thesis using store [of t s b] at by (intro can_moveI [where q = Store_Done]) auto
    next
      case Store_Done
      then show ?thesis using store_unlock [of t s] at by (intro can_moveI [where q = Store_Signal]) auto
    next
      case Store_Signal
      show ?thesis
      proof (cases "\<exists>timed. Load_Wait timed \<in> set (threads s)")
        case True
        then obtain timed w where w: "at_pc s w (Load_Wait timed)" by (auto simp: in_set_conv_nth)
        then have "w \<noteq> t" using at Store_Signal by auto
        then show ?thesis
          using signal [OF at [unfolded Store_Signal] w] at Store_Signal by (auto simp: can_move_def intro!: exI)
      next
        case False
        then show ?thesis using signal_none [of t s] at Store_Signal by (intro can_moveI [where q = Idle]) auto
      qed
    qed (use other nn t p_def in simp_all)
  qed
qed

section \<open>The life of a pipe\<close>

lemma Initialize_shape:
  "Initialize memalign n sz init s h = (r, s', h') \<Longrightarrow>
   m_outPipe s' = m_outPipe s \<and> m_mutex s' = m_mutex s \<and> threads s' = threads s \<and>
   (\<exists>ps. m_inPipe s' = ps @ m_inPipe s \<and> NULL \<notin> set ps \<and> length ps \<le> n \<and> (r = 0 \<longrightarrow> length ps = n))"
proof (induction n arbitrary: s h)
  case 0
  then show ?case by auto
next
  case (Suc n)
  obtain p h1 where a: "memalign sz h = (p, h1)" by fastforce
  show ?case
  proof (cases "p = NULL")
    case True
    then show ?thesis using Suc.prems a by auto
  next
    case False
    then have "Initialize memalign n sz init (s\<lparr>m_inPipe := p # m_inPipe s\<rparr>)
        (case init of None \<Rightarrow> h1 | Some f \<Rightarrow> f p h1) = (r, s', h')"
      using Suc.prems a by simp
    from Suc.IH [OF this] obtain ps where "m_inPipe s' = ps @ p # m_inPipe s" "NULL \<notin> set ps" "length ps \<le> n"
      "r = 0 \<longrightarrow> length ps = n" "m_outPipe s' = m_outPipe s" "m_mutex s' = m_mutex s" "threads s' = threads s"
      by auto
    then show ?thesis using False by (intro conjI exI [of _ "ps @ [p]"]) auto
  qed
qed

text \<open>A pipe as \<open>Initialize\<close> leaves it, for \<open>n\<close> threads.\<close>

definition fresh :: "nat \<Rightarrow> dual_pipe \<Rightarrow> bool" where
  "fresh n s \<longleftrightarrow> m_outPipe s = [] \<and> m_mutex s = None \<and> threads s = replicate n Idle \<and> NULL \<notin> set (m_inPipe s)"

lemma Initialize_fresh:
  "Initialize memalign frames sz init (new_pipe n) h = (r, s, h') \<Longrightarrow> fresh n s"
  by (drule Initialize_shape) (auto simp: fresh_def new_pipe_def)

lemma held_idle: "set ts \<subseteq> {Idle} \<Longrightarrow> sum_list (map held ts) = {#}"
  by (induction ts) auto

lemma fresh_invariants:
  assumes "fresh n s"
  shows "mutex_ok s" "wake_ok s" "null_free s" "buffers s = mset (m_inPipe s)"
proof -
  show "mutex_ok s" "wake_ok s" "null_free s"
    using assms by (auto simp: fresh_def mutex_ok_def wake_ok_def waiters_def null_free_def list_all_iff)
  have "filter_mset (\<lambda>b. b \<noteq> NULL) (mset (m_inPipe s)) = mset (m_inPipe s)"
    by (rule multiset_eqI) (use assms in \<open>auto simp: fresh_def count_eq_zero_iff\<close>)
  moreover have "sum_list (map held (threads s)) = {#}"
    by (rule held_idle) (use assms in \<open>auto simp: fresh_def\<close>)
  ultimately show "buffers s = mset (m_inPipe s)"
    using assms by (simp add: fresh_def buffers_def bufs_def)
qed

lemma free_all_eq: "free_all ps qs = ps @ qs"
  by (induction ps qs rule: free_all.induct) simp_all

text \<open>
  Mutual exclusion: in every state that calls on an initialised pipe can reach, at most one
  thread is between a lock and the next unlock, and it is the one that owns the mutex.
\<close>

theorem pipe_mutual_exclusion:
  assumes "Initialize memalign frames sz init (new_pipe n) h = (r, s0, h')" and "run pipe_step s0 es s"
    and "t < length (threads s)" and "critical (threads s ! t)"
  shows "m_mutex s = Some t \<and> (\<forall>u < length (threads s). critical (threads s ! u) \<longrightarrow> u = t)"
proof -
  have "mutex_ok s" using mutex.run_keeps [OF assms(2)] fresh_invariants(1) [OF Initialize_fresh [OF assms(1)]] .
  then show ?thesis using assms(3,4) unfolding mutex_ok_def by (metis option.inject)
qed

text \<open>
  C4: The second list is first in, first out: whatever the interleaving, the buffers stored so
  far are the buffers loaded so far, in that order, followed by the contents of the list.
\<close>

theorem pipe_fifo:
  assumes "Initialize memalign frames sz init (new_pipe n) h = (r, s0, h')" and "run pipe_step s0 es s"
  shows "concat (map stored_by es) = concat (map loaded_by es) @ m_outPipe s"
  using fifo.run_content [OF assms(2)] Initialize_fresh [OF assms(1)] by (simp add: fresh_def)

text \<open>
  C11: No buffer is lost or duplicated: what the pipe holds and what its calls have returned is
  what \<open>Initialize\<close> allocated and what was handed in; so when all calls have ended and every
  buffer handed out has come back, the destructor frees exactly the allocated buffers, each
  of the \<open>frames\<close> ones once.
\<close>

theorem pipe_conserves:
  assumes init: "Initialize memalign frames sz init (new_pipe n) h = (0, s0, h')" and run: "run pipe_step s0 es s"
  shows "buffers s + sum_list (map returned es) = mset (m_inPipe s0) + sum_list (map given es) \<and>
    (set (threads s) \<subseteq> {Idle} \<and> sum_list (map returned es) = sum_list (map given es) \<longrightarrow>
      filter_mset (\<lambda>b. b \<noteq> NULL) (mset (destroy s)) = mset (m_inPipe s0) \<and> length (m_inPipe s0) = frames)"
proof -
  have bal: "buffers s + sum_list (map returned es) = mset (m_inPipe s0) + sum_list (map given es)"
    using balance.run_balances [OF run] fresh_invariants(4) [OF Initialize_fresh [OF init]] by simp
  have "sum_list (map held (threads s)) = {#}" if "set (threads s) \<subseteq> {Idle}"
    using that by (rule held_idle)
  then have "buffers s = filter_mset (\<lambda>b. b \<noteq> NULL) (mset (destroy s))" if "set (threads s) \<subseteq> {Idle}"
    using that by (simp add: buffers_def destroy_def free_all_eq bufs_def)
  moreover have "length (m_inPipe s0) = frames"
    using Initialize_shape [OF init] by (auto simp: new_pipe_def)
  ultimately show ?thesis using bal by auto
qed

text \<open>
  C3: No wake-up is lost: while a thread waits in \<open>Load\<close> and the second list is not empty, another
  thread is about to test the list or to signal, and there are as many of those as buffers.
\<close>

theorem pipe_no_lost_wakeup:
  assumes "Initialize memalign frames sz init (new_pipe n) h = (r, s0, h')" and "run pipe_step s0 es s"
    and "Load_Wait timed \<in> set (threads s)"
  shows "length (m_outPipe s) \<le> length (filter coming (threads s))"
proof -
  have "wake_ok s" using wake.run_keeps [OF assms(2)] fresh_invariants(2) [OF Initialize_fresh [OF assms(1)]] .
  moreover have "0 < waiters (threads s)" using assms(3) waiters_0 [of "threads s"] by auto
  ultimately show ?thesis by (simp add: wake_ok_def comers_def)
qed

text \<open>
  C38: Deadlock freedom: as long as no caller passes a null pointer, the thread that owns the mutex
  can always take a step, and when nobody owns it every thread inside a call can.
\<close>

theorem pipe_no_deadlock:
  assumes "Initialize memalign frames sz init (new_pipe n) h = (r, s0, h')" and "run pipe_step s0 es s"
    and "\<forall>e \<in> set es. proper e" and "t < length (threads s)" and "threads s ! t \<noteq> Idle"
    and "m_mutex s = None \<or> m_mutex s = Some t"
  shows "can_move s t"
proof -
  note fresh = fresh_invariants [OF Initialize_fresh [OF assms(1)]]
  have "mutex_ok s" using mutex.run_keeps [OF assms(2) fresh(1)] .
  moreover have "null_free s" using nulls.run_keeps [OF run_restrict [OF assms(2,3)] fresh(3)] .
  ultimately show ?thesis using assms(4-6) by (rule thread_moves)
qed

section \<open>A run\<close>

text \<open>
  Two threads on a pipe of two buffers: the second one waits in \<open>Load\<close> while the first one
  stores; and the first one gets a buffer and puts it back.
\<close>

definition counting_alloc :: "nat \<Rightarrow> nat \<Rightarrow> ptr \<times> nat" where
  "counting_alloc sz h = (Suc h, Suc h)"

definition demo :: "ptr list \<Rightarrow> ptr list \<Rightarrow> nat option \<Rightarrow> pc list \<Rightarrow> dual_pipe" where
  "demo ins outs m ts = \<lparr>m_inPipe = ins, m_outPipe = outs, m_mutex = m, threads = ts\<rparr>"

lemma demo_init: "Initialize counting_alloc 2 64 None (new_pipe 2) 0 = (0, demo [2, 1] [] None [Idle, Idle], 2)"
  by (simp add: numeral_2_eq_2 counting_alloc_def new_pipe_def demo_def)

lemma demo_store:
  "run pipe_step (demo [2, 1] [] None [Idle, Idle]) [Call 1 (Load False), Tau, Tau, Call 0 (Store 7), Tau, Stored 7]
     (demo [2, 1] [7] (Some 0) [Store_Done, Load_Wait False])"
  unfolding demo_def
  apply (rule run_cons, rule call [where t = 1], simp)
  apply (rule run_cons, rule lock [where t = 1 and q = "Load_Test False False"], simp, simp, simp)
  apply (rule run_cons, rule load_wait [where t = 1 and timed = False and out = False], simp, simp, simp)
  apply (rule run_cons, rule call [where t = 0], simp)
  apply (rule run_cons, rule lock [where t = 0 and q = "Store_Push 7"], simp, simp, simp)
  apply (rule run_cons, rule store [where t = 0], simp)
  apply (simp add: run_Nil)
  done

lemma demo_cycle:
  "run pipe_step (demo [2, 1] [] None [Idle, Idle])
     [Call 0 Get, Tau, Tau, Return 0 2, Call 0 (Put 2), Tau, Tau, Return 0 0] (demo [2, 1] [] None [Idle, Idle])"
  unfolding demo_def
  apply (rule run_cons, rule call [where t = 0], simp)
  apply (rule run_cons, rule lock [where t = 0 and q = Get_Test], simp, simp, simp)
  apply (rule run_cons, rule get_take [where t = 0 and b = 2], simp, simp, simp)
  apply (rule run_cons, rule ret [where t = 0], simp, simp)
  apply (rule run_cons, rule call [where t = 0], simp)
  apply (rule run_cons, rule lock [where t = 0 and q = "Put_Push 2"], simp, simp, simp)
  apply (rule run_cons, rule put [where t = 0], simp)
  apply (rule run_cons, rule ret [where t = 0], simp, simp)
  apply (simp add: run_Nil)
  done

theorem pipe_mutual_exclusion_witness:
  "m_mutex (demo [2, 1] [7] (Some 0) [Store_Done, Load_Wait False]) = Some 0"
  using pipe_mutual_exclusion [OF demo_init demo_store, of 0] by (simp add: demo_def)

theorem pipe_fifo_witness:
  "concat (map stored_by [Call 1 (Load False), Tau, Tau, Call 0 (Store 7), Tau, Stored 7]) =
   concat (map loaded_by [Call 1 (Load False), Tau, Tau, Call 0 (Store 7), Tau, Stored 7]) @ [7]"
  using pipe_fifo [OF demo_init demo_store] by (simp add: demo_def)

theorem pipe_conserves_witness:
  "filter_mset (\<lambda>b. b \<noteq> NULL) (mset (destroy (demo [2, 1] [] None [Idle, Idle]))) = {#1, 2#}"
  using pipe_conserves [OF demo_init demo_cycle] by (simp add: demo_def)

theorem pipe_no_lost_wakeup_witness:
  "length (m_outPipe (demo [2, 1] [7] (Some 0) [Store_Done, Load_Wait False])) \<le>
   length (filter coming [Store_Done, Load_Wait False])"
  using pipe_no_lost_wakeup [OF demo_init demo_store, of False] by (simp add: demo_def)

theorem pipe_no_deadlock_witness:
  "can_move (demo [2, 1] [7] (Some 0) [Store_Done, Load_Wait False]) 0"
  using pipe_no_deadlock [OF demo_init demo_store, of 0] by (simp add: demo_def)

end
