(* ===== verification/Frame_Alloc.thy ===== *)
theory Frame_Alloc
  imports Transitions
begin

text \<open>
  The frame allocator that the decoder and the video processor call back
  (\<open>video_analytics_example/common.cpp\<close>): allocation of frames on the graphics driver, the
  two tables of answered requests, locking, and release.

  The driver (libva) is outside the repository. What it answers is an argument of each
  operation, and any answer is allowed; of its objects the state only records which exist:
  a successful call that creates one adds it to \<open>live\<close>, a call that destroys one removes it.
  Likewise \<open>calloc\<close> is an argument: the addresses it returns, \<open>0\<close> when it fails. Frames
  live in an explicit store, because handles point into arrays that are freed. The messages
  on the console are left out.
\<close>

section \<open>Formats and status codes\<close>

datatype mfx_fourcc =
  FOURCC_NV12 | FOURCC_YUY2 | FOURCC_YV12 | FOURCC_RGB4 | FOURCC_RGBP | FOURCC_P8 | FOURCC_OTHER nat

datatype va_fourcc = VA_NV12 | VA_YUY2 | VA_YV12 | VA_ARGB | VA_RGBP | VA_P208 | VA_OTHER_FOURCC nat

datatype mfx_status =
    MFX_ERR_NONE | MFX_ERR_MEMORY_ALLOC | MFX_ERR_UNSUPPORTED | MFX_ERR_NOT_INITIALIZED
  | MFX_ERR_INVALID_VIDEO_PARAM | MFX_ERR_UNKNOWN | MFX_ERR_LOCK_MEMORY | MFX_ERR_INVALID_HANDLE
  | MFX_ERR_NULL_PTR | MFX_ERR_NOT_FOUND | MFX_ERR_MORE_DATA

datatype va_status =
    VA_SUCCESS | VA_ALLOCATION_FAILED | VA_ATTR_NOT_SUPPORTED | VA_UNSUPPORTED_PROFILE
  | VA_UNSUPPORTED_ENTRYPOINT | VA_UNSUPPORTED_RT_FORMAT | VA_UNSUPPORTED_BUFFERTYPE
  | VA_FLAG_NOT_SUPPORTED | VA_RESOLUTION_NOT_SUPPORTED | VA_INVALID_DISPLAY | VA_INVALID_CONFIG
  | VA_INVALID_CONTEXT | VA_INVALID_SURFACE | VA_INVALID_BUFFER | VA_INVALID_IMAGE
  | VA_INVALID_SUBPICTURE | VA_INVALID_PARAMETER | VA_OTHER_STATUS nat

text \<open>The case of an invalid parameter has no \<open>break\<close> and runs into the default.\<close>

fun va_to_mfx_status :: "va_status \<Rightarrow> mfx_status" where
  "va_to_mfx_status VA_SUCCESS = MFX_ERR_NONE"
| "va_to_mfx_status VA_ALLOCATION_FAILED = MFX_ERR_MEMORY_ALLOC"
| "va_to_mfx_status VA_ATTR_NOT_SUPPORTED = MFX_ERR_UNSUPPORTED"
| "va_to_mfx_status VA_UNSUPPORTED_PROFILE = MFX_ERR_UNSUPPORTED"
| "va_to_mfx_status VA_UNSUPPORTED_ENTRYPOINT = MFX_ERR_UNSUPPORTED"
| "va_to_mfx_status VA_UNSUPPORTED_RT_FORMAT = MFX_ERR_UNSUPPORTED"
| "va_to_mfx_status VA_UNSUPPORTED_BUFFERTYPE = MFX_ERR_UNSUPPORTED"
| "va_to_mfx_status VA_FLAG_NOT_SUPPORTED = MFX_ERR_UNSUPPORTED"
| "va_to_mfx_status VA_RESOLUTION_NOT_SUPPORTED = MFX_ERR_UNSUPPORTED"
| "va_to_mfx_status VA_INVALID_DISPLAY = MFX_ERR_NOT_INITIALIZED"
| "va_to_mfx_status VA_INVALID_CONFIG = MFX_ERR_NOT_INITIALIZED"
| "va_to_mfx_status VA_INVALID_CONTEXT = MFX_ERR_NOT_INITIALIZED"
| "va_to_mfx_status VA_INVALID_SURFACE = MFX_ERR_NOT_INITIALIZED"
| "va_to_mfx_status VA_INVALID_BUFFER = MFX_ERR_NOT_INITIALIZED"
| "va_to_mfx_status VA_INVALID_IMAGE = MFX_ERR_NOT_INITIALIZED"
| "va_to_mfx_status VA_INVALID_SUBPICTURE = MFX_ERR_NOT_INITIALIZED"
| "va_to_mfx_status VA_INVALID_PARAMETER = MFX_ERR_UNKNOWN"
| "va_to_mfx_status (VA_OTHER_STATUS n) = MFX_ERR_UNKNOWN"

lemma va_to_mfx_none [simp]: "va_to_mfx_status r = MFX_ERR_NONE \<longleftrightarrow> r = VA_SUCCESS"
  by (cases r) simp_all

text \<open>
  An unknown format fails an assertion; with assertions compiled out (\<open>ndebug\<close>) the answer
  is \<open>0\<close>, here the inner \<^const>\<open>None\<close>.
\<close>

definition ConvertMfxFourccToVAFormat :: "bool \<Rightarrow> mfx_fourcc \<Rightarrow> va_fourcc option option" where
  "ConvertMfxFourccToVAFormat ndebug fourcc = (case fourcc of
     FOURCC_NV12 \<Rightarrow> Some (Some VA_NV12) | FOURCC_YUY2 \<Rightarrow> Some (Some VA_YUY2)
   | FOURCC_YV12 \<Rightarrow> Some (Some VA_YV12) | FOURCC_RGB4 \<Rightarrow> Some (Some VA_ARGB)
   | FOURCC_RGBP \<Rightarrow> Some (Some VA_RGBP) | FOURCC_P8 \<Rightarrow> Some (Some VA_P208)
   | FOURCC_OTHER n \<Rightarrow> if ndebug then Some None else None)"

section \<open>State\<close>

text \<open>A frame handle: an array of the store and an index, or the null pointer.\<close>

type_synonym mem_id = "(nat \<times> nat) option"

record va_image =
  image_id :: nat
  buf :: nat
  image_fourcc :: va_fourcc
  pitches :: "nat list"
  offsets :: "nat list"

record vaapiMemId =
  m_surface :: mem_id
  m_image :: va_image
  m_fourcc :: mfx_fourcc
  m_sys_buffer :: nat
  m_va_buffer :: nat

datatype block = Surfaces "nat list" | VaMids "vaapiMemId list" | MemIds "mem_id list" | Bytes

text \<open>An answered request; \<open>others\<close> are its other bytes, which the allocator clears.\<close>

record response =
  mids :: nat
  NumFrameActual :: nat
  others :: nat

record sharedResponse =
  mfxResponse :: response
  refCount :: int

datatype resource = Surface nat | CodedBuffer nat | Image nat | Mapping nat

record va_state =
  allocDecodeResponses :: "nat \<rightharpoonup> sharedResponse"
  allocResponses :: "nat \<rightharpoonup> nat"
  heap :: "nat \<rightharpoonup> block"
  live :: "resource multiset"

record request =
  FourCC :: mfx_fourcc
  NumFrameSuggested :: nat
  decoder_target :: bool
  processor_target :: bool
  external_frame :: bool
  from_decode :: bool

definition no_image :: va_image where
  "no_image = \<lparr>image_id = 0, buf = 0, image_fourcc = VA_OTHER_FOURCC 0, pitches = [0, 0, 0], offsets = [0, 0, 0]\<rparr>"

definition zero_mid :: vaapiMemId where
  "zero_mid = \<lparr>m_surface = None, m_image = no_image, m_fourcc = FOURCC_OTHER 0, m_sys_buffer = 0, m_va_buffer = 0\<rparr>"

definition zero_response :: response where
  "zero_response = \<lparr>mids = 0, NumFrameActual = 0, others = 0\<rparr>"

text \<open>\<open>operator[]\<close> of the table: an absent entry is created with zeros.\<close>

definition decode_entry :: "va_state \<Rightarrow> nat \<Rightarrow> sharedResponse" where
  "decode_entry s pthis = (case allocDecodeResponses s pthis of
     Some sh \<Rightarrow> sh | None \<Rightarrow> \<lparr>mfxResponse = zero_response, refCount = 0\<rparr>)"

definition set_entry :: "nat \<Rightarrow> sharedResponse \<Rightarrow> va_state \<Rightarrow> va_state" where
  "set_entry pthis sh s = s\<lparr>allocDecodeResponses := (allocDecodeResponses s)(pthis \<mapsto> sh)\<rparr>"

definition surfaces_at :: "va_state \<Rightarrow> nat \<Rightarrow> nat list option" where
  "surfaces_at s a = (case heap s a of Some (Surfaces xs) \<Rightarrow> Some xs | _ \<Rightarrow> None)"

definition vaapi_mids_at :: "va_state \<Rightarrow> nat \<Rightarrow> vaapiMemId list option" where
  "vaapi_mids_at s a = (case heap s a of Some (VaMids xs) \<Rightarrow> Some xs | _ \<Rightarrow> None)"

definition mem_ids_at :: "va_state \<Rightarrow> nat \<Rightarrow> mem_id list option" where
  "mem_ids_at s a = (case heap s a of Some (MemIds xs) \<Rightarrow> Some xs | _ \<Rightarrow> None)"

definition free_block :: "nat \<Rightarrow> va_state \<Rightarrow> va_state option" where
  "free_block a s = (if a = 0 then Some s else if heap s a = None then None
     else Some (s\<lparr>heap := (heap s)(a := None)\<rparr>))"

section \<open>Allocation\<close>

text \<open>What \<open>calloc\<close> and the driver answer: three addresses, the surfaces, the coded buffers.\<close>

record answers =
  callocs :: "nat \<times> nat \<times> nat"
  created :: "va_status \<times> (nat \<Rightarrow> nat)"
  buffers :: "nat \<Rightarrow> va_status \<times> nat"

text \<open>The loop over \<open>vaCreateBuffer\<close>, from \<open>numAllocated\<close> on.\<close>

fun create_buffers ::
    "(nat \<Rightarrow> va_status \<times> nat) \<Rightarrow> nat \<Rightarrow> nat \<Rightarrow> nat list \<Rightarrow> resource multiset
     \<Rightarrow> mfx_status \<times> nat \<times> nat list \<times> resource multiset" where
  "create_buffers answer 0 numAllocated surfaces l = (MFX_ERR_NONE, numAllocated, surfaces, l)"
| "create_buffers answer (Suc n) numAllocated surfaces l =
     (let (va_res, coded_buf) = answer numAllocated; mfx_res = va_to_mfx_status va_res in
      if mfx_res \<noteq> MFX_ERR_NONE then (mfx_res, numAllocated, surfaces, l)
      else create_buffers answer n (numAllocated + 1) (surfaces[numAllocated := coded_buf])
        (l + {#CodedBuffer coded_buf#}))"

definition create_frames ::
    "answers \<Rightarrow> va_fourcc \<Rightarrow> nat \<Rightarrow> resource multiset
     \<Rightarrow> mfx_status \<times> bool \<times> nat \<times> nat list \<times> resource multiset" where
  "create_frames ans va_fourcc surfaces_num l =
     (if va_fourcc \<noteq> VA_P208 then
        let (va_res, ids) = created ans; mfx_res = va_to_mfx_status va_res in
        if mfx_res = MFX_ERR_NONE then (mfx_res, True, 0, map ids [0..<surfaces_num],
          l + mset (map (\<lambda>i. Surface (ids i)) [0..<surfaces_num]))
        else (mfx_res, False, 0, replicate surfaces_num 0, l)
      else let (mfx_res, numAllocated, surfaces, l) = create_buffers (buffers ans) surfaces_num 0 (replicate surfaces_num 0) l in
        (mfx_res, False, numAllocated, surfaces, l))"

definition undo_frames ::
    "va_fourcc \<Rightarrow> bool \<Rightarrow> nat \<Rightarrow> nat list \<Rightarrow> resource multiset \<Rightarrow> resource multiset" where
  "undo_frames va_fourcc bCreateSrfSucceeded numAllocated surfaces l =
     (if va_fourcc \<noteq> VA_P208 then
        if bCreateSrfSucceeded then l - mset (map Surface surfaces) else l
      else l - mset (map CodedBuffer (take numAllocated surfaces)))"

definition put_block :: "nat \<Rightarrow> block \<Rightarrow> va_state \<Rightarrow> va_state" where
  "put_block a b s = (if a = 0 then s else s\<lparr>heap := (heap s)(a \<mapsto> b)\<rparr>)"

definition alloc_frames ::
    "bool \<Rightarrow> request \<Rightarrow> answers \<Rightarrow> va_state \<Rightarrow> (mfx_status \<times> response \<times> va_state) option" where
  "alloc_frames ndebug req ans s = do {
     let fourcc = FourCC req;
     let surfaces_num = NumFrameSuggested req;
     fmt \<leftarrow> ConvertMfxFourccToVAFormat ndebug fourcc;
     case fmt of None \<Rightarrow> Some (MFX_ERR_MEMORY_ALLOC, zero_response, s)
     | Some va_fourcc \<Rightarrow>
       if surfaces_num = 0 then Some (MFX_ERR_MEMORY_ALLOC, zero_response, s)
       else
         let (surfaces, vaapi_mids, mids) = callocs ans;
             s = put_block surfaces (Surfaces (replicate surfaces_num 0)) s;
             s = put_block vaapi_mids (VaMids (replicate surfaces_num zero_mid)) s;
             s = put_block mids (MemIds (replicate surfaces_num None)) s;
             (mfx_res, bCreateSrfSucceeded, numAllocated, ids, l) =
               (if surfaces = 0 \<or> vaapi_mids = 0 \<or> mids = 0
                then (MFX_ERR_MEMORY_ALLOC, False, 0, [], live s)
                else create_frames ans va_fourcc surfaces_num (live s)) in
         if mfx_res = MFX_ERR_NONE then
           let s = put_block surfaces (Surfaces ids) (s\<lparr>live := l\<rparr>);
               s = put_block vaapi_mids (VaMids (map (\<lambda>i. zero_mid\<lparr>m_fourcc := fourcc, m_surface := Some (surfaces, i)\<rparr>) [0..<surfaces_num])) s;
               s = put_block mids (MemIds (map (\<lambda>i. Some (vaapi_mids, i)) [0..<surfaces_num])) s in
           Some (mfx_res, zero_response\<lparr>mids := mids, NumFrameActual := surfaces_num\<rparr>, s)
         else do {
           let s = s\<lparr>live := undo_frames va_fourcc bCreateSrfSucceeded numAllocated ids l\<rparr>;
           s \<leftarrow> free_block mids s;
           s \<leftarrow> free_block vaapi_mids s;
           s \<leftarrow> free_block surfaces s;
           Some (mfx_res, zero_response, s)
         } }"

text \<open>The callback: null pointers and types are checked, a decoder's request may be answered again.\<close>

definition simple_alloc ::
    "bool \<Rightarrow> nat \<Rightarrow> request option \<Rightarrow> response option \<Rightarrow> answers \<Rightarrow> va_state
     \<Rightarrow> (mfx_status \<times> response option \<times> va_state) option" where
  "simple_alloc ndebug pthis request response ans s =
     (case (request, response) of
        (Some req, Some resp) \<Rightarrow>
          if NumFrameSuggested req = 0 then Some (MFX_ERR_MEMORY_ALLOC, response, s)
          else if \<not> decoder_target req \<and> \<not> processor_target req then Some (MFX_ERR_UNSUPPORTED, response, s)
          else
            let sh = decode_entry s pthis; s = set_entry pthis sh s in
            if NumFrameSuggested req \<le> NumFrameActual (mfxResponse sh) \<and> external_frame req \<and>
               from_decode req \<and> NumFrameActual (mfxResponse sh) \<noteq> 0 then
              Some (MFX_ERR_NONE, Some (mfxResponse sh), set_entry pthis (sh\<lparr>refCount := refCount sh + 1\<rparr>) s)
            else do {
              (sts, resp, s) \<leftarrow> alloc_frames ndebug req ans s;
              Some (sts, Some resp,
                if sts = MFX_ERR_NONE then
                  if external_frame req \<and> from_decode req
                  then set_entry pthis \<lparr>mfxResponse = resp, refCount = refCount sh + 1\<rparr> s
                  else s\<lparr>allocResponses := (allocResponses s)(mids resp \<mapsto> pthis)\<rparr>
                else s)
            }
      | _ \<Rightarrow> Some (MFX_ERR_MEMORY_ALLOC, response, s))"

section \<open>Release\<close>

definition destroy_frame ::
    "vaapiMemId list \<Rightarrow> nat \<Rightarrow> nat list \<Rightarrow> nat \<Rightarrow> nat \<Rightarrow> va_state \<Rightarrow> va_state option" where
  "destroy_frame vaapi_mids first surfaces off i s = do {
     m \<leftarrow> rd vaapi_mids (first + i);
     if m_fourcc m = FOURCC_P8 then do {
       b \<leftarrow> rd surfaces (off + i);
       Some (s\<lparr>live := live s - {#CodedBuffer b#}\<rparr>)
     } else if m_sys_buffer m \<noteq> 0 then free_block (m_sys_buffer m) s
     else Some s
   }"

definition free_frames :: "nat \<Rightarrow> response \<Rightarrow> va_state \<Rightarrow> (response \<times> va_state) option" where
  "free_frames pthis resp s =
     (let sh = decode_entry s pthis; s = set_entry pthis sh s in
      if resp = mfxResponse sh then
        let sh = sh\<lparr>refCount := refCount sh - 1\<rparr>; s = set_entry pthis sh s in
        if refCount sh = 0 then
          if mids resp \<noteq> 0 then do {
            ids \<leftarrow> mem_ids_at s (mids resp);
            mid \<leftarrow> rd ids 0;
            (a, first) \<leftarrow> mid;
            vaapi_mids \<leftarrow> vaapi_mids_at s a;
            m \<leftarrow> rd vaapi_mids first;
            (sa, off) \<leftarrow> m_surface m;
            surfaces \<leftarrow> surfaces_at s sa;
            s \<leftarrow> loop (NumFrameActual resp) (destroy_frame vaapi_mids first surfaces off) s;
            s \<leftarrow> (if first = 0 then free_block a s else None);
            s \<leftarrow> free_block (mids resp) s;
            let s = (if m_fourcc m \<noteq> FOURCC_P8 then
              s\<lparr>live := live s - mset (map Surface (take (NumFrameActual resp) (drop off surfaces)))\<rparr> else s);
            s \<leftarrow> (if off = 0 then free_block sa s else None);
            Some (resp\<lparr>mids := 0, NumFrameActual := 0\<rparr>, s)
          } else Some (resp\<lparr>NumFrameActual := 0\<rparr>, s)
        else Some (resp, s)
      else Some (resp, s))"

definition simple_free ::
    "nat \<Rightarrow> response option \<Rightarrow> va_state \<Rightarrow> (mfx_status \<times> response option \<times> va_state) option" where
  "simple_free pthis response s =
     (case response of None \<Rightarrow> Some (MFX_ERR_NULL_PTR, response, s)
      | Some resp \<Rightarrow>
        (case allocResponses s (mids resp) of
           None \<Rightarrow>
             let sh = decode_entry s pthis; sh = sh\<lparr>refCount := refCount sh - 1\<rparr>; s = set_entry pthis sh s in
             if refCount sh = 0 then do {
               (resp, s) \<leftarrow> free_frames pthis resp s;
               Some (MFX_ERR_NONE, Some resp, s\<lparr>allocDecodeResponses := (allocDecodeResponses s)(pthis := None)\<rparr>)
             } else Some (MFX_ERR_NONE, Some resp, s)
         | Some _ \<Rightarrow> do {
             let s = s\<lparr>allocResponses := (allocResponses s)(mids resp := None)\<rparr>;
             (resp, s) \<leftarrow> free_frames pthis resp s;
             Some (MFX_ERR_NONE, Some resp, s)
           }))"

section \<open>Locking\<close>

text \<open>
  The planes of a frame. In the SDK's structure \<open>R\<close>, \<open>G\<close> and \<open>B\<close> are other names of \<open>Y\<close>,
  \<open>U\<close> and \<open>V\<close>.
\<close>

record frame_data =
  Pitch :: nat
  Y :: nat
  U :: nat
  V :: nat
  A :: nat

record lock_answers =
  derived :: "va_status \<times> va_image"
  mapped :: "va_status \<times> nat"
  coded_segment :: nat

text \<open>The format the driver derived must be the one the frame was asked for.\<close>

definition set_planes :: "mfx_fourcc \<Rightarrow> va_image \<Rightarrow> nat \<Rightarrow> frame_data \<Rightarrow> mfx_status \<times> frame_data" where
  "set_planes fourcc img p fd =
     (let pitch = pitches img ! 0 mod 65536; o0 = p + offsets img ! 0; o1 = p + offsets img ! 1; o2 = p + offsets img ! 2 in
      case image_fourcc img of
        VA_NV12 \<Rightarrow> if fourcc = FOURCC_NV12 then (MFX_ERR_NONE, fd\<lparr>Pitch := pitch, Y := o0, U := o1, V := o1 + 1\<rparr>)
          else (MFX_ERR_LOCK_MEMORY, fd)
      | VA_YV12 \<Rightarrow> if fourcc = FOURCC_YV12 then (MFX_ERR_NONE, fd\<lparr>Pitch := pitch, Y := o0, V := o1, U := o2\<rparr>)
          else (MFX_ERR_LOCK_MEMORY, fd)
      | VA_YUY2 \<Rightarrow> if fourcc = FOURCC_YUY2 then (MFX_ERR_NONE, fd\<lparr>Pitch := pitch, Y := o0, U := o0 + 1, V := o0 + 3\<rparr>)
          else (MFX_ERR_LOCK_MEMORY, fd)
      | VA_RGBP \<Rightarrow> if fourcc = FOURCC_RGBP then (MFX_ERR_NONE, fd\<lparr>Pitch := pitch, V := o0, U := o1, Y := o2\<rparr>)
          else (MFX_ERR_LOCK_MEMORY, fd)
      | VA_ARGB \<Rightarrow> if fourcc = FOURCC_RGB4 then (MFX_ERR_NONE, fd\<lparr>Pitch := pitch, V := o0, U := o0 + 1, Y := o0 + 2, A := o0 + 3\<rparr>)
          else (MFX_ERR_LOCK_MEMORY, fd)
      | _ \<Rightarrow> (MFX_ERR_LOCK_MEMORY, fd))"

text \<open>The handle's array, its entry and the address of the surface, if it has one.\<close>

definition frame_at :: "va_state \<Rightarrow> mem_id \<Rightarrow> (nat \<times> vaapiMemId list \<times> nat \<times> vaapiMemId) option" where
  "frame_at s mid = do {
     (a, i) \<leftarrow> mid;
     vaapi_mids \<leftarrow> vaapi_mids_at s a;
     m \<leftarrow> rd vaapi_mids i;
     Some (a, vaapi_mids, i, m) }"

text \<open>A failed map of a coded buffer leaves an uninitialised pointer that is dereferenced.\<close>

definition simple_lock ::
    "mem_id \<Rightarrow> frame_data \<Rightarrow> lock_answers \<Rightarrow> va_state \<Rightarrow> (mfx_status \<times> frame_data \<times> va_state) option" where
  "simple_lock mid fd ans s =
     (if mid = None then Some (MFX_ERR_INVALID_HANDLE, fd, s) else do {
        (a, vaapi_mids, i, m) \<leftarrow> frame_at s mid;
        case m_surface m of None \<Rightarrow> Some (MFX_ERR_INVALID_HANDLE, fd, s)
        | Some (sa, j) \<Rightarrow> do {
          surfaces \<leftarrow> surfaces_at s sa;
          surface \<leftarrow> rd surfaces j;
          if m_fourcc m = FOURCC_P8 then
            if fst (mapped ans) \<noteq> VA_SUCCESS then None
            else Some (MFX_ERR_NONE, fd\<lparr>Y := coded_segment ans\<rparr>, s\<lparr>live := live s + {#Mapping surface#}\<rparr>)
          else
            let (va_res, img) = derived ans; mfx_res = va_to_mfx_status va_res;
                s = put_block a (VaMids (vaapi_mids[i := m\<lparr>m_image := img\<rparr>])) s in
            if mfx_res \<noteq> MFX_ERR_NONE then Some (mfx_res, fd, s)
            else
              let s = s\<lparr>live := live s + {#Image (image_id img)#}\<rparr>;
                  (va_res, pBuffer) = mapped ans; mfx_res = va_to_mfx_status va_res in
              if mfx_res \<noteq> MFX_ERR_NONE then Some (mfx_res, fd, s)
              else
                let s = s\<lparr>live := live s + {#Mapping (buf img)#}\<rparr>;
                    (mfx_res, fd) = set_planes (m_fourcc m) img pBuffer fd in
                Some (mfx_res, fd, s)
        } })"

definition simple_unlock ::
    "mem_id \<Rightarrow> frame_data option \<Rightarrow> va_state \<Rightarrow> (mfx_status \<times> frame_data option \<times> va_state) option" where
  "simple_unlock mid ptr s =
     (if mid = None then Some (MFX_ERR_INVALID_HANDLE, ptr, s) else do {
        (_, _, _, m) \<leftarrow> frame_at s mid;
        case m_surface m of None \<Rightarrow> Some (MFX_ERR_INVALID_HANDLE, ptr, s)
        | Some (sa, j) \<Rightarrow> do {
          surfaces \<leftarrow> surfaces_at s sa;
          surface \<leftarrow> rd surfaces j;
          if m_fourcc m = FOURCC_P8
          then Some (MFX_ERR_NONE, ptr, s\<lparr>live := live s - {#Mapping surface#}\<rparr>)
          else Some (MFX_ERR_NONE, map_option (\<lambda>fd. fd\<lparr>Pitch := 0, Y := 0, U := 0, V := 0, A := 0\<rparr>) ptr,
            s\<lparr>live := live s - {#Mapping (buf (m_image m))#} - {#Image (image_id (m_image m))#}\<rparr>)
        } })"

text \<open>The handle it answers is the address of the surface.\<close>

definition simple_gethdl :: "bool \<Rightarrow> mem_id \<Rightarrow> va_state \<Rightarrow> (mfx_status \<times> mem_id) option" where
  "simple_gethdl handle mid s =
     (if \<not> handle \<or> mid = None then Some (MFX_ERR_INVALID_HANDLE, None) else do {
        (_, _, _, m) \<leftarrow> frame_at s mid;
        Some (if m_surface m = None then (MFX_ERR_INVALID_HANDLE, None) else (MFX_ERR_NONE, m_surface m)) })"

section \<open>Calls in any order\<close>

text \<open>What \<open>calloc\<close> promises: addresses that are not in use.\<close>

definition fresh :: "answers \<Rightarrow> va_state \<Rightarrow> bool" where
  "fresh ans s = (case callocs ans of (a, b, c) \<Rightarrow>
     heap s a = None \<and> heap s b = None \<and> heap s c = None \<and>
     (a \<noteq> 0 \<longrightarrow> a \<noteq> b \<and> a \<noteq> c) \<and> (b \<noteq> 0 \<longrightarrow> b \<noteq> c))"

datatype frame_call =
    Alloc nat "request option" "response option" answers
  | Free nat "response option"
  | Lock mem_id frame_data lock_answers
  | Unlock mem_id "frame_data option"

inductive frame_step :: "va_state \<Rightarrow> frame_call \<times> mfx_status \<Rightarrow> va_state \<Rightarrow> bool" where
  step_alloc: "simple_alloc ndebug pthis req resp ans s = Some (sts, resp', s') \<Longrightarrow> fresh ans s \<Longrightarrow>
    frame_step s (Alloc pthis req resp ans, sts) s'"
| step_free: "simple_free pthis resp s = Some (sts, resp', s') \<Longrightarrow> frame_step s (Free pthis resp, sts) s'"
| step_lock: "simple_lock mid fd ans s = Some (sts, fd', s') \<Longrightarrow> frame_step s (Lock mid fd ans, sts) s'"
| step_unlock: "simple_unlock mid ptr s = Some (sts, ptr', s') \<Longrightarrow> frame_step s (Unlock mid ptr, sts) s'"

definition no_frames :: va_state where
  "no_frames = \<lparr>allocDecodeResponses = Map.empty, allocResponses = Map.empty, heap = Map.empty, live = {#}\<rparr>"

section \<open>What an allocation does\<close>

fun is_frame :: "resource \<Rightarrow> bool" where
  "is_frame (Surface i) = True" | "is_frame (CodedBuffer i) = True"
| "is_frame (Image i) = False" | "is_frame (Mapping i) = False"

definition frames :: "va_state \<Rightarrow> resource multiset" where
  "frames s = filter_mset is_frame (live s)"

definition frame_of :: "mfx_fourcc \<Rightarrow> nat \<Rightarrow> resource" where
  "frame_of fourcc i = (if fourcc = FOURCC_P8 then CodedBuffer i else Surface i)"

definition handles :: "mfx_fourcc \<Rightarrow> nat \<Rightarrow> nat \<Rightarrow> vaapiMemId list" where
  "handles fourcc sa n = map (\<lambda>i. zero_mid\<lparr>m_fourcc := fourcc, m_surface := Some (sa, i)\<rparr>) [0..<n]"

lemma create_buffers_spec:
  assumes "create_buffers answer n k surfaces l = (res, k', surfaces', l')" and "k + n \<le> length surfaces"
  shows "length surfaces' = length surfaces \<and> take k surfaces' = take k surfaces \<and> k \<le> k' \<and> k' \<le> k + n \<and>
    (res = MFX_ERR_NONE \<longrightarrow> k' = k + n) \<and> l' = l + mset (map CodedBuffer (drop k (take k' surfaces')))"
  using assms
proof (induction n arbitrary: k surfaces l)
  case 0
  then show ?case by auto
next
  case (Suc n)
  obtain r b where ans: "answer k = (r, b)" by fastforce
  show ?case
  proof (cases "r = VA_SUCCESS")
    case False
    then show ?thesis using Suc.prems ans by auto
  next
    case True
    then have run: "create_buffers answer n (k + 1) (surfaces[k := b]) (l + {#CodedBuffer b#}) = (res, k', surfaces', l')"
      using Suc.prems ans by simp
    have ih: "length surfaces' = length surfaces \<and> take (k + 1) surfaces' = take (k + 1) (surfaces[k := b]) \<and>
        k + 1 \<le> k' \<and> k' \<le> k + 1 + n \<and> (res = MFX_ERR_NONE \<longrightarrow> k' = k + 1 + n) \<and>
        l' = l + {#CodedBuffer b#} + mset (map CodedBuffer (drop (k + 1) (take k' surfaces')))"
      using Suc.IH [OF run] Suc.prems(2) by simp
    have k: "k < length surfaces" using Suc.prems(2) by simp
    have at: "surfaces' ! k = b"
      using ih k by (metis add.commute less_add_one nth_list_update_eq nth_take)
    have "drop k (take k' surfaces') = surfaces' ! k # drop (k + 1) (take k' surfaces')"
      using ih k by (metis Cons_nth_drop_Suc Suc_eq_plus1 Suc_le_lessD length_take min_less_iff_conj nth_take)
    moreover have "take k surfaces' = take k surfaces"
      using ih k by (metis le_add1 min.absorb2 min.commute take_list_update_ge order_refl take_take)
    ultimately show ?thesis using ih at by simp
  qed
qed

text \<open>Creating frames either gives all of them, or what it made is undone.\<close>

lemma create_frames_spec:
  assumes "create_frames ans fmt n l = (res, srf, k, ids, l')" and "fmt = VA_P208 \<longleftrightarrow> fourcc = FOURCC_P8"
  shows "if res = MFX_ERR_NONE then length ids = n \<and> l' = l + mset (map (frame_of fourcc) ids)
    else undo_frames fmt srf k ids l' = l"
proof (cases "fmt = VA_P208")
  case True
  then have run: "create_buffers (buffers ans) n 0 (replicate n 0) l = (res, k, ids, l')"
    using assms(1) by (auto simp: create_frames_def split: prod.splits)
  have "frame_of fourcc = CodedBuffer" using True assms(2) by (auto simp: frame_of_def)
  then show ?thesis using create_buffers_spec [OF run] True by (auto simp: undo_frames_def)
next
  case False
  then have "frame_of fourcc = Surface" using assms(2) by (auto simp: frame_of_def)
  then show ?thesis
    using assms(1) False
    by (auto simp: create_frames_def undo_frames_def comp_def Let_def multiset.map_comp split: prod.splits if_splits)
qed

lemma convert_P208: "ConvertMfxFourccToVAFormat nd f = Some (Some fmt) \<Longrightarrow> fmt = VA_P208 \<longleftrightarrow> f = FOURCC_P8"
  by (auto simp: ConvertMfxFourccToVAFormat_def split: mfx_fourcc.splits if_splits)

lemma live_put_block [simp]: "live (put_block a b s) = live s"
  by (simp add: put_block_def)

lemma put_block_update: "put_block a b s = s\<lparr>heap := (if a = 0 then heap s else (heap s)(a \<mapsto> b))\<rparr>"
  by (simp add: put_block_def)

lemma free_put_block: "heap s a = None \<Longrightarrow> free_block a (put_block a b s) = Some s"
  by (simp add: free_block_def put_block_def fun_upd_idem)

lemma heap_put_block: "a \<noteq> 0 \<longrightarrow> x \<noteq> a \<Longrightarrow> heap (put_block a b s) x = heap s x"
  by (simp add: put_block_def)

lemma alloc_frames_spec:
  assumes run: "alloc_frames ndebug req ans s = Some (sts, resp, s')" and "fresh ans s"
    and calls: "callocs ans = (sa, va, ma)"
  shows "if sts = MFX_ERR_NONE then
      sa \<noteq> 0 \<and> va \<noteq> 0 \<and> ma \<noteq> 0 \<and> resp = zero_response\<lparr>mids := ma, NumFrameActual := NumFrameSuggested req\<rparr> \<and>
      (\<exists>ids. length ids = NumFrameSuggested req \<and>
        s' = s\<lparr>live := live s + mset (map (frame_of (FourCC req)) ids),
          heap := (heap s)(sa \<mapsto> Surfaces ids, va \<mapsto> VaMids (handles (FourCC req) sa (NumFrameSuggested req)),
            ma \<mapsto> MemIds (map (\<lambda>i. Some (va, i)) [0..<NumFrameSuggested req]))\<rparr>)
    else resp = zero_response \<and> s' = s"
proof -
  have fr: "heap s sa = None" "heap s va = None" "heap s ma = None" "sa \<noteq> 0 \<longrightarrow> sa \<noteq> va \<and> sa \<noteq> ma" "va \<noteq> 0 \<longrightarrow> va \<noteq> ma"
    using assms(2) calls by (auto simp: fresh_def)
  obtain fmt where fmt: "ConvertMfxFourccToVAFormat ndebug (FourCC req) = Some fmt"
    using run by (cases "ConvertMfxFourccToVAFormat ndebug (FourCC req)") (auto simp: alloc_frames_def)
  show ?thesis
  proof (cases "fmt = None \<or> NumFrameSuggested req = 0")
    case True
    then show ?thesis using run fmt by (auto simp: alloc_frames_def split: option.splits)
  next
    case False
    then obtain f where f: "fmt = Some f" by auto
    define n where "n = NumFrameSuggested req"
    define t where "t = put_block ma (MemIds (replicate n None)) (put_block va (VaMids (replicate n zero_mid))
      (put_block sa (Surfaces (replicate n 0)) s))"
    have "heap (put_block sa (Surfaces (replicate n 0)) s) va = None"
      using fr heap_put_block [of sa va] by auto
    moreover have "heap (put_block va (VaMids (replicate n zero_mid)) (put_block sa (Surfaces (replicate n 0)) s)) ma = None"
      using fr heap_put_block [of sa ma] heap_put_block [of va ma] by auto
    ultimately have undo: "do { s \<leftarrow> free_block ma t; s \<leftarrow> free_block va s; free_block sa s } = Some s"
      using fr(1) by (simp add: t_def free_put_block)
    obtain res srf k ids l where made: "(if sa = 0 \<or> va = 0 \<or> ma = 0 then (MFX_ERR_MEMORY_ALLOC, False, 0, [], live t)
        else create_frames ans f n (live t)) = (res, srf, k, ids, l)"
      by (metis surj_pair)
    have made_ok: "if res = MFX_ERR_NONE then sa \<noteq> 0 \<and> va \<noteq> 0 \<and> ma \<noteq> 0 \<and> length ids = n \<and>
        l = live t + mset (map (frame_of (FourCC req)) ids) else undo_frames f srf k ids l = live t"
      using made create_frames_spec [of ans f n "live t" res srf k ids l "FourCC req"] convert_P208 [of ndebug "FourCC req" f] fmt f
      by (auto simp: undo_frames_def split: if_splits)
    have t: "live t = live s" by (simp add: t_def)
    have run': "(if res = MFX_ERR_NONE then
         let u = put_block sa (Surfaces ids) (t\<lparr>live := l\<rparr>);
             u = put_block va (VaMids (handles (FourCC req) sa n)) u;
             u = put_block ma (MemIds (map (\<lambda>i. Some (va, i)) [0..<n])) u in
         Some (res, zero_response\<lparr>mids := ma, NumFrameActual := n\<rparr>, u)
       else do {
         let u = t\<lparr>live := undo_frames f srf k ids l\<rparr>;
         u \<leftarrow> free_block ma u; u \<leftarrow> free_block va u; u \<leftarrow> free_block sa u; Some (res, zero_response, u) })
       = Some (sts, resp, s')"
      using run fmt f False calls made unfolding alloc_frames_def t_def [symmetric] n_def [symmetric] handles_def
      by (simp add: t_def [symmetric] n_def [symmetric])
    show ?thesis
    proof (cases "res = MFX_ERR_NONE")
      case True
      then have "sts = res" "resp = zero_response\<lparr>mids := ma, NumFrameActual := n\<rparr>"
        and s': "s' = put_block ma (MemIds (map (\<lambda>i. Some (va, i)) [0..<n])) (put_block va (VaMids (handles (FourCC req) sa n))
          (put_block sa (Surfaces ids) (t\<lparr>live := l\<rparr>)))"
        using run' by auto
      moreover have "s' = s\<lparr>live := live s + mset (map (frame_of (FourCC req)) ids),
          heap := (heap s)(sa \<mapsto> Surfaces ids, va \<mapsto> VaMids (handles (FourCC req) sa n), ma \<mapsto> MemIds (map (\<lambda>i. Some (va, i)) [0..<n]))\<rparr>"
        using True made_ok fr t unfolding s' by (simp add: t_def put_block_update fun_upd_twist)
      ultimately show ?thesis using True made_ok unfolding n_def by auto
    next
      case bad: False
      then have "(do { u \<leftarrow> free_block ma t; u \<leftarrow> free_block va u; u \<leftarrow> free_block sa u; Some (res, zero_response, u) })
          = Some (sts, resp, s')"
        using run' made_ok by simp
      moreover have "(do { u \<leftarrow> free_block ma t; u \<leftarrow> free_block va u; u \<leftarrow> free_block sa u; Some (res, zero_response, u) })
          = Some (res, zero_response, s)"
        using undo by (auto split: bind_splits)
      ultimately show ?thesis using bad by simp
    qed
  qed
qed

text \<open>The surface behind the \<open>i\<close>th handle of an answer, through \<open>simple_gethdl\<close>.\<close>

definition surface_of :: "va_state \<Rightarrow> response \<Rightarrow> nat \<Rightarrow> nat option" where
  "surface_of s resp i = do {
     hs \<leftarrow> mem_ids_at s (mids resp);
     mid \<leftarrow> rd hs i;
     (_, h) \<leftarrow> simple_gethdl True mid s;
     (a, j) \<leftarrow> h;
     xs \<leftarrow> surfaces_at s a;
     rd xs j }"

lemma surface_of_new:
  assumes "heap s ma = Some (MemIds (map (\<lambda>i. Some (va, i)) [0..<n]))"
    and "heap s va = Some (VaMids (handles fourcc sa n))" and "heap s sa = Some (Surfaces ids)"
    and "mids resp = ma" and "i < n" and "length ids = n"
  shows "surface_of s resp i = Some (ids ! i)"
  using assms
  by (simp add: surface_of_def simple_gethdl_def frame_at_def mem_ids_at_def vaapi_mids_at_def surfaces_at_def
      handles_def rd_Some)

lemma set_entry_simps [simp]:
  "heap (set_entry p sh s) = heap s" "live (set_entry p sh s) = live s"
  "allocResponses (set_entry p sh s) = allocResponses s"
  "allocDecodeResponses (set_entry p sh s) = (allocDecodeResponses s)(p \<mapsto> sh)"
  by (simp_all add: set_entry_def)

lemma fresh_set_entry [simp]: "fresh ans (set_entry p sh s) = fresh ans s"
  by (simp add: fresh_def)

text \<open>The cases of the callback, on a valid request.\<close>

lemma simple_alloc_cases:
  assumes run: "simple_alloc ndebug pthis (Some req) (Some resp0) ans s = Some (sts, resp', s')" and fr: "fresh ans s"
  obtains (failed) "sts \<noteq> MFX_ERR_NONE" "s' = s \<or> s' = set_entry pthis (decode_entry s pthis) s"
  | (shared) "sts = MFX_ERR_NONE" "resp' = Some (mfxResponse (decode_entry s pthis))"
      "NumFrameSuggested req \<le> NumFrameActual (mfxResponse (decode_entry s pthis))"
      "from_decode req" "NumFrameActual (mfxResponse (decode_entry s pthis)) \<noteq> 0"
      "\<exists>k. s' = set_entry pthis (decode_entry s pthis\<lparr>refCount := k\<rparr>) s"
  | (created) sa va ma ids resp where "sts = MFX_ERR_NONE" "resp' = Some resp" "callocs ans = (sa, va, ma)"
      "sa \<noteq> 0" "va \<noteq> 0" "ma \<noteq> 0" "resp = zero_response\<lparr>mids := ma, NumFrameActual := NumFrameSuggested req\<rparr>"
      "length ids = NumFrameSuggested req"
      "live s' = live s + mset (map (frame_of (FourCC req)) ids)"
      "heap s' = (heap s)(sa \<mapsto> Surfaces ids, va \<mapsto> VaMids (handles (FourCC req) sa (NumFrameSuggested req)),
        ma \<mapsto> MemIds (map (\<lambda>i. Some (va, i)) [0..<NumFrameSuggested req]))"
      "allocResponses s' = allocResponses s \<and> (\<exists>k. allocDecodeResponses s' = (allocDecodeResponses s)(pthis \<mapsto> \<lparr>mfxResponse = resp, refCount = k\<rparr>))
       \<or> allocResponses s' = (allocResponses s)(ma \<mapsto> pthis) \<and> allocDecodeResponses s' = (allocDecodeResponses s)(pthis \<mapsto> decode_entry s pthis)"
proof -
  define sh where "sh = decode_entry s pthis"
  define t where "t = set_entry pthis sh s"
  define again where "again \<longleftrightarrow> NumFrameSuggested req \<le> NumFrameActual (mfxResponse sh) \<and> external_frame req \<and>
    from_decode req \<and> NumFrameActual (mfxResponse sh) \<noteq> 0"
  show thesis
  proof (cases "NumFrameSuggested req = 0 \<or> \<not> decoder_target req \<and> \<not> processor_target req")
    case True
    then show thesis using run by (intro failed) (auto simp: simple_alloc_def split: if_splits)
  next
    case False
    have eq: "simple_alloc ndebug pthis (Some req) (Some resp0) ans s = (if again
        then Some (MFX_ERR_NONE, Some (mfxResponse sh), set_entry pthis (sh\<lparr>refCount := refCount sh + 1\<rparr>) t)
        else do {
          (sts, resp, s) \<leftarrow> alloc_frames ndebug req ans t;
          Some (sts, Some resp, if sts = MFX_ERR_NONE then
            if external_frame req \<and> from_decode req then set_entry pthis \<lparr>mfxResponse = resp, refCount = refCount sh + 1\<rparr> s
            else s\<lparr>allocResponses := (allocResponses s)(mids resp \<mapsto> pthis)\<rparr> else s) })"
      unfolding simple_alloc_def again_def sh_def t_def prod.case option.case Let_def using False by auto
    show thesis
    proof (cases again)
      case True
      then have "Some (MFX_ERR_NONE, Some (mfxResponse sh), set_entry pthis (sh\<lparr>refCount := refCount sh + 1\<rparr>) t) = Some (sts, resp', s')"
        using run eq by simp
      moreover have "set_entry pthis v t = set_entry pthis v s" for v by (simp add: t_def set_entry_def)
      ultimately show thesis using True unfolding again_def sh_def by (intro shared) auto
    next
      case new: False
      then have "do {
          (sts, resp, s) \<leftarrow> alloc_frames ndebug req ans t;
          Some (sts, Some resp, if sts = MFX_ERR_NONE then
            if external_frame req \<and> from_decode req then set_entry pthis \<lparr>mfxResponse = resp, refCount = refCount sh + 1\<rparr> s
            else s\<lparr>allocResponses := (allocResponses s)(mids resp \<mapsto> pthis)\<rparr> else s) } = Some (sts, resp', s')"
        using run eq by simp
      then obtain r u where alloc: "alloc_frames ndebug req ans t = Some (sts, r, u)" and r: "resp' = Some r"
        and s': "s' = (if sts = MFX_ERR_NONE then
            if external_frame req \<and> from_decode req then set_entry pthis \<lparr>mfxResponse = r, refCount = refCount sh + 1\<rparr> u
            else u\<lparr>allocResponses := (allocResponses u)(mids r \<mapsto> pthis)\<rparr> else u)"
        by (auto split: bind_splits)
      obtain sa va ma where calls: "callocs ans = (sa, va, ma)" using prod_cases3 by blast
      have "fresh ans t" using fr by (simp add: t_def)
      note spec = alloc_frames_spec [OF alloc this calls]
      show thesis
      proof (cases "sts = MFX_ERR_NONE")
        case False
        then show thesis using spec s' by (intro failed) (auto simp: t_def sh_def)
      next
        case True
        then obtain ids where ids: "length ids = NumFrameSuggested req"
          and u: "u = t\<lparr>live := live t + mset (map (frame_of (FourCC req)) ids),
            heap := (heap t)(sa \<mapsto> Surfaces ids, va \<mapsto> VaMids (handles (FourCC req) sa (NumFrameSuggested req)),
              ma \<mapsto> MemIds (map (\<lambda>i. Some (va, i)) [0..<NumFrameSuggested req]))\<rparr>"
          and nz: "sa \<noteq> 0" "va \<noteq> 0" "ma \<noteq> 0" "r = zero_response\<lparr>mids := ma, NumFrameActual := NumFrameSuggested req\<rparr>"
          using spec by auto
        show thesis
          by (rule created [OF True r calls nz ids]) (auto simp: s' u True t_def sh_def nz(4))
      qed
    qed
  qed
qed

text \<open>
  A valid allocation request that fails leaves the store and the driver as they were,
  whatever was created before the failure. One that succeeds either answers the saved
  frames of the same caller, which are at least as many as asked for, or creates exactly
  the frames asked for: each handle of the answer then leads, through the handle callback,
  to its own surface.
\<close>

theorem simple_alloc_spec:
  assumes "simple_alloc ndebug pthis (Some req) (Some resp0) ans s = Some (sts, Some resp, s')" and "fresh ans s"
  shows "if sts \<noteq> MFX_ERR_NONE then heap s' = heap s \<and> live s' = live s \<and> allocResponses s' = allocResponses s
    else heap s' = heap s \<and> live s' = live s \<and> resp = mfxResponse (decode_entry s pthis) \<and>
        NumFrameSuggested req \<le> NumFrameActual resp \<or>
      (\<exists>ids. length ids = NumFrameSuggested req \<and> NumFrameActual resp = length ids \<and>
        live s' = live s + mset (map (frame_of (FourCC req)) ids) \<and>
        map (surface_of s' resp) [0..<length ids] = map Some ids)"
  using assms
proof (cases rule: simple_alloc_cases)
  case (created sa va ma ids resp1)
  have "fresh ans s" "callocs ans = (sa, va, ma)" using assms created by auto
  then have apart: "sa \<noteq> va" "sa \<noteq> ma" "va \<noteq> ma" using created by (auto simp: fresh_def)
  have "surface_of s' resp i = Some (ids ! i)" if "i < length ids" for i
    by (rule surface_of_new [where sa = sa and va = va and ma = ma and n = "length ids" and fourcc = "FourCC req"])
      (use created apart that in \<open>auto\<close>)
  then have "map (surface_of s' resp) [0..<length ids] = map Some ids"
    by (intro nth_equalityI) auto
  moreover have "NumFrameActual resp = length ids" using created by simp
  ultimately show ?thesis using created by auto
qed auto

section \<open>No frame is ever destroyed\<close>

text \<open>
  The two tables never hold the same answer, and the answers they hold are in the store.
\<close>

definition tables_ok :: "va_state \<Rightarrow> bool" where
  "tables_ok s \<longleftrightarrow> (\<forall>p sh. allocDecodeResponses s p = Some sh \<longrightarrow> allocResponses s (mids (mfxResponse sh)) = None \<and>
      (mids (mfxResponse sh) = 0 \<or> heap s (mids (mfxResponse sh)) \<noteq> None)) \<and>
    (\<forall>a. allocResponses s a \<noteq> None \<longrightarrow> a \<noteq> 0 \<and> heap s a \<noteq> None)"

lemma decode_entry_ok:
  assumes "tables_ok s"
  shows "allocResponses s (mids (mfxResponse (decode_entry s p))) = None \<and>
    (mids (mfxResponse (decode_entry s p)) = 0 \<or> heap s (mids (mfxResponse (decode_entry s p))) \<noteq> None)"
proof (cases "allocDecodeResponses s p")
  case None
  then have "mids (mfxResponse (decode_entry s p)) = 0" by (simp add: decode_entry_def zero_response_def)
  then show ?thesis using assms unfolding tables_ok_def by (metis option.exhaust)
next
  case (Some sh)
  then show ?thesis using assms by (auto simp: tables_ok_def decode_entry_def)
qed

lemma tables_ok_set_entry:
  assumes "tables_ok s" and "mfxResponse sh = mfxResponse (decode_entry s p)"
  shows "tables_ok (set_entry p sh s)"
  using assms decode_entry_ok [OF assms(1), of p] by (auto simp: tables_ok_def)

lemma tables_ok_same:
  assumes "tables_ok s" and "allocDecodeResponses s' = allocDecodeResponses s" and "allocResponses s' = allocResponses s"
    and "\<And>a. heap s a \<noteq> None \<Longrightarrow> heap s' a \<noteq> None"
  shows "tables_ok s'"
  using assms unfolding tables_ok_def by metis

lemma tables_ok_decode:
  assumes "tables_ok s" and "\<And>a. heap s a \<noteq> None \<Longrightarrow> heap s' a \<noteq> None" and "heap s' (mids (mfxResponse sh)) \<noteq> None"
    and "allocResponses s (mids (mfxResponse sh)) = None" and "allocResponses s' = allocResponses s"
    and "allocDecodeResponses s' = (allocDecodeResponses s)(p \<mapsto> sh)"
  shows "tables_ok s'"
  unfolding tables_ok_def
proof (intro conjI allI impI)
  fix q sh' assume "allocDecodeResponses s' q = Some sh'"
  then have "sh' = sh \<or> allocDecodeResponses s q = Some sh'" unfolding assms(6) by (cases "q = p") simp_all
  then have "allocResponses s (mids (mfxResponse sh')) = None \<and>
      (mids (mfxResponse sh') = 0 \<or> heap s' (mids (mfxResponse sh')) \<noteq> None)"
    using assms(1-4) unfolding tables_ok_def by blast
  then show "allocResponses s' (mids (mfxResponse sh')) = None"
    "mids (mfxResponse sh') = 0 \<or> heap s' (mids (mfxResponse sh')) \<noteq> None" using assms(5) by auto
next
  fix a assume "allocResponses s' a \<noteq> None"
  then show "a \<noteq> 0" "heap s' a \<noteq> None" using assms(1,2,5) unfolding tables_ok_def by auto
qed

lemma tables_ok_other:
  assumes "tables_ok s" and "\<And>a. heap s a \<noteq> None \<Longrightarrow> heap s' a \<noteq> None"
    and "heap s' a \<noteq> None" "a \<noteq> 0" "heap s a = None"
    and "allocResponses s' = (allocResponses s)(a \<mapsto> p)"
    and "allocDecodeResponses s' = allocDecodeResponses s"
  shows "tables_ok s'"
  unfolding tables_ok_def
proof (intro conjI allI impI)
  fix q sh assume "allocDecodeResponses s' q = Some sh"
  then have sh: "allocResponses s (mids (mfxResponse sh)) = None"
      "mids (mfxResponse sh) = 0 \<or> heap s (mids (mfxResponse sh)) \<noteq> None"
    using assms(1,7) unfolding tables_ok_def by auto
  then have "mids (mfxResponse sh) \<noteq> a" using assms(4,5) by auto
  then show "allocResponses s' (mids (mfxResponse sh)) = None"
    "mids (mfxResponse sh) = 0 \<or> heap s' (mids (mfxResponse sh)) \<noteq> None" using assms(2,6) sh by auto
next
  fix b assume "allocResponses s' b \<noteq> None"
  then show "b \<noteq> 0" "heap s' b \<noteq> None"
    using assms unfolding tables_ok_def by (auto split: if_splits)
qed

lemma alloc_tables_ok:
  assumes run: "simple_alloc ndebug pthis req resp ans s = Some (sts, resp', s')" and "fresh ans s" and "tables_ok s"
  shows "tables_ok s' \<and> (frames s \<subseteq># frames s')"
proof (cases "\<exists>q r. req = Some q \<and> resp = Some r")
  case False
  then show ?thesis using assms by (auto simp: simple_alloc_def split: option.splits)
next
  case True
  then obtain q r where "req = Some q" "resp = Some r" by blast
  then have "simple_alloc ndebug pthis (Some q) (Some r) ans s = Some (sts, resp', s')" using run by simp
  then show ?thesis using \<open>fresh ans s\<close>
  proof (cases rule: simple_alloc_cases)
    case failed
    then show ?thesis using tables_ok_set_entry [OF assms(3), of "decode_entry s pthis" pthis] assms(3)
      by (auto simp: frames_def)
  next
    case shared
    then obtain k where "s' = set_entry pthis (decode_entry s pthis\<lparr>refCount := k\<rparr>) s" by blast
    then show ?thesis using tables_ok_set_entry [OF assms(3), of "decode_entry s pthis\<lparr>refCount := k\<rparr>" pthis]
      by (simp add: frames_def)
  next
    case (created sa va ma ids r)
    have new: "heap s ma = None" using assms(2) created(3) by (simp add: fresh_def)
    have grows: "heap s' a \<noteq> None" if "heap s a \<noteq> None" for a using created(10) that by simp
    have there: "heap s' ma \<noteq> None" using created(10) by simp
    have unused: "allocResponses s ma = None" using new assms(3) unfolding tables_ok_def by blast
    define t where "t = set_entry pthis (decode_entry s pthis) s"
    have t: "tables_ok t" "allocResponses t = allocResponses s" "heap t = heap s"
      "allocDecodeResponses t = (allocDecodeResponses s)(pthis \<mapsto> decode_entry s pthis)"
      using tables_ok_set_entry [OF assms(3)] by (simp_all add: t_def)
    from created(11) have "tables_ok s'"
    proof
      assume "allocResponses s' = allocResponses s \<and> (\<exists>k. allocDecodeResponses s' =
        (allocDecodeResponses s)(pthis \<mapsto> \<lparr>mfxResponse = r, refCount = k\<rparr>))"
      then obtain k where *: "allocResponses s' = allocResponses s"
        "allocDecodeResponses s' = (allocDecodeResponses s)(pthis \<mapsto> \<lparr>mfxResponse = r, refCount = k\<rparr>)" by blast
      have "mids r = ma" using created(7) by simp
      then show ?thesis using tables_ok_decode [OF assms(3) grows _ _ *] there unused by simp
    next
      assume "allocResponses s' = (allocResponses s)(ma \<mapsto> pthis) \<and>
        allocDecodeResponses s' = (allocDecodeResponses s)(pthis \<mapsto> decode_entry s pthis)"
      then show ?thesis using tables_ok_other [OF t(1) _ there created(6)] t grows new by simp
    qed
    then show ?thesis using created(9) by (simp add: frames_def)
  qed
qed

text \<open>The routine that releases memory never sees a reference count of one.\<close>

lemma free_frames_idle:
  assumes "resp \<noteq> mfxResponse (decode_entry s p) \<or> refCount (decode_entry s p) \<noteq> 1"
  shows "\<exists>k. free_frames p resp s = Some (resp, set_entry p (decode_entry s p\<lparr>refCount := k\<rparr>) s)"
proof -
  have again: "set_entry p v (set_entry p w s) = set_entry p v s" for v w by (simp add: set_entry_def)
  show ?thesis
  proof (cases "resp = mfxResponse (decode_entry s p)")
    case True
    then have "refCount (decode_entry s p) - 1 \<noteq> 0" using assms by simp
    then have "free_frames p resp s = Some (resp, set_entry p (decode_entry s p\<lparr>refCount := refCount (decode_entry s p) - 1\<rparr>) s)"
      using True by (simp add: free_frames_def Let_def again)
    then show ?thesis by blast
  next
    case False
    then have "free_frames p resp s = Some (resp, set_entry p (decode_entry s p\<lparr>refCount := refCount (decode_entry s p)\<rparr>) s)"
      by (simp add: free_frames_def Let_def)
    then show ?thesis by blast
  qed
qed

lemma free_tables_ok:
  assumes run: "simple_free pthis resp s = Some (sts, resp', s')" and inv: "tables_ok s"
  shows "tables_ok s' \<and> frames s' = frames s"
proof (cases resp)
  case None
  then show ?thesis using run inv by (simp add: simple_free_def)
next
  case resp: (Some r)
  show ?thesis
  proof (cases "allocResponses s (mids r)")
    case None
    define sh where "sh = (decode_entry s pthis)\<lparr>refCount := refCount (decode_entry s pthis) - 1\<rparr>"
    define t where "t = set_entry pthis sh s"
    have t: "tables_ok t" "live t = live s" "decode_entry t pthis = sh"
      using tables_ok_set_entry [OF inv, of sh pthis] by (simp_all add: t_def sh_def decode_entry_def)
    show ?thesis
    proof (cases "refCount sh = 0")
      case False
      then have "s' = t" using run resp None unfolding simple_free_def sh_def t_def by (simp add: Let_def)
      then show ?thesis using t by (simp add: frames_def)
    next
      case True
      then obtain k where free: "free_frames pthis r t = Some (r, set_entry pthis (sh\<lparr>refCount := k\<rparr>) t)"
        using free_frames_idle [of r t pthis] t(3) by auto
      have "s' = t\<lparr>allocDecodeResponses := (allocDecodeResponses t)(pthis := None)\<rparr>"
        using run resp None True free unfolding simple_free_def sh_def t_def
        by (simp add: Let_def set_entry_def)
      then show ?thesis using t(1,2) by (auto simp: tables_ok_def frames_def split: if_splits)
    qed
  next
    case (Some q)
    define t where "t = s\<lparr>allocResponses := (allocResponses s)(mids r := None)\<rparr>"
    have t: "tables_ok t" "live t = live s" "decode_entry t pthis = decode_entry s pthis"
      using inv by (auto simp: t_def tables_ok_def decode_entry_def)
    have "r \<noteq> mfxResponse (decode_entry t pthis)"
      using Some decode_entry_ok [OF inv, of pthis] t(3) by auto
    then obtain k where free: "free_frames pthis r t = Some (r, set_entry pthis (decode_entry t pthis\<lparr>refCount := k\<rparr>) t)"
      using free_frames_idle by blast
    then have "s' = set_entry pthis (decode_entry t pthis\<lparr>refCount := k\<rparr>) t"
      using run resp Some unfolding simple_free_def t_def by simp
    then show ?thesis using tables_ok_set_entry [OF t(1), of "decode_entry t pthis\<lparr>refCount := k\<rparr>" pthis] t(2)
      by (simp add: frames_def)
  qed
qed

lemma put_block_simps [simp]:
  "allocDecodeResponses (put_block a b s) = allocDecodeResponses s"
  "allocResponses (put_block a b s) = allocResponses s"
  "heap s x \<noteq> None \<Longrightarrow> heap (put_block a b s) x \<noteq> None"
  by (simp_all add: put_block_def)

lemma lock_tables_ok:
  assumes "simple_lock mid fd ans s = Some (sts, fd', s')"
  shows "allocDecodeResponses s' = allocDecodeResponses s \<and> allocResponses s' = allocResponses s \<and>
    (\<forall>a. heap s a \<noteq> None \<longrightarrow> heap s' a \<noteq> None) \<and> frames s' = frames s"
  using assms unfolding simple_lock_def Let_def
  by (auto split: if_splits bind_splits option.splits prod.splits simp: frames_def put_block_def)

lemma unlock_tables_ok:
  assumes "simple_unlock mid ptr s = Some (sts, ptr', s')"
  shows "allocDecodeResponses s' = allocDecodeResponses s \<and> allocResponses s' = allocResponses s \<and>
    heap s' = heap s \<and> frames s' = frames s"
  using assms unfolding simple_unlock_def Let_def
  by (auto split: if_splits bind_splits option.splits prod.splits simp: frames_def)

interpretation kept: step_invariant frame_step "\<lambda>s. tables_ok s \<and> M \<subseteq># frames s" for M
proof
  fix s e s' assume "frame_step s e s'" and inv: "tables_ok s \<and> M \<subseteq># frames s"
  then show "tables_ok s' \<and> M \<subseteq># frames s'"
  proof cases
    case step_alloc
    then show ?thesis using alloc_tables_ok inv subset_mset.order_trans by blast
  next
    case step_free
    then show ?thesis using free_tables_ok inv by metis
  next
    case step_lock
    then show ?thesis using lock_tables_ok [OF step_lock(2)] tables_ok_same [of s s'] inv by simp
  next
    case step_unlock
    then show ?thesis using unlock_tables_ok [OF step_unlock(2)] tables_ok_same [of s s'] inv by simp
  qed
qed

text \<open>
  C19: No sequence of calls of the allocator ever destroys a frame: whatever requests were
  answered, released, locked and unlocked before, the frames that exist at one time still
  exist after any further calls. The release callback counts the references of a decoder's
  answer down to zero and then calls a routine that counts down once more before it
  compares with zero; for the other answers that routine finds no entry at all.
\<close>

theorem frames_never_destroyed:
  assumes "run frame_step no_frames es s" and "run frame_step s es' s'"
  shows "frames s \<subseteq># frames s'"
proof -
  have "tables_ok no_frames \<and> {#} \<subseteq># frames no_frames" by (simp add: tables_ok_def no_frames_def)
  then have "tables_ok s" using kept.run_keeps [OF assms(1)] by blast
  then show ?thesis using kept.run_keeps [OF assms(2)] by blast
qed

section \<open>Lock and unlock\<close>

text \<open>
  C27: Unlocking a successfully locked frame takes everything back: the mapping and the
  derived image are released, the tables and all arrays are as before, except for the
  image noted in the handle, and the planes of an uncompressed frame are cleared.
\<close>

theorem lock_unlock:
  assumes lock: "simple_lock mid fd ans s = Some (MFX_ERR_NONE, fd', s1)" and null: "heap s 0 = None"
  shows "\<exists>fd'' s2 a i ms img. simple_unlock mid (Some fd') s1 = Some (MFX_ERR_NONE, Some fd'', s2) \<and>
    live s2 = live s \<and> allocDecodeResponses s2 = allocDecodeResponses s \<and> allocResponses s2 = allocResponses s \<and>
    mid = Some (a, i) \<and> heap s a = Some (VaMids ms) \<and> i < length ms \<and>
    heap s2 = (heap s)(a \<mapsto> VaMids (ms[i := (ms ! i)\<lparr>m_image := img\<rparr>])) \<and>
    (m_fourcc (ms ! i) \<noteq> FOURCC_P8 \<longrightarrow> fd'' = \<lparr>Pitch = 0, Y = 0, U = 0, V = 0, A = 0\<rparr>)"
proof -
  obtain a i where mid: "mid = Some (a, i)" using lock by (auto simp: simple_lock_def split: if_splits)
  obtain ms where ms: "heap s a = Some (VaMids ms)" "i < length ms"
    using lock mid by (auto simp: simple_lock_def frame_at_def vaapi_mids_at_def rd_def
        split: if_splits bind_splits option.splits block.splits)
  have a: "a \<noteq> 0" using ms(1) null by (metis option.distinct(1))
  have at: "frame_at s mid = Some (a, ms, i, ms ! i)"
    using mid ms by (simp add: frame_at_def vaapi_mids_at_def rd_Some)
  obtain sa j xs where sf: "m_surface (ms ! i) = Some (sa, j)" "heap s sa = Some (Surfaces xs)" "j < length xs"
    using lock at mid by (auto simp: simple_lock_def surfaces_at_def rd_def
        split: if_splits bind_splits option.splits block.splits)
  have surf: "surfaces_at s sa = Some xs" "rd xs j = Some (xs ! j)" using sf by (simp_all add: surfaces_at_def rd_Some)
  show ?thesis
  proof (cases "m_fourcc (ms ! i) = FOURCC_P8")
    case True
    have s1: "s1 = s\<lparr>live := live s + {#Mapping (xs ! j)#}\<rparr>"
      using lock at mid sf surf True by (simp add: simple_lock_def split: if_splits)
    then have "frame_at s1 mid = Some (a, ms, i, ms ! i)" "surfaces_at s1 sa = Some xs"
      using at surf by (simp_all add: frame_at_def vaapi_mids_at_def surfaces_at_def)
    then have "simple_unlock mid (Some fd') s1 = Some (MFX_ERR_NONE, Some fd', s)"
      using mid sf surf True by (simp add: simple_unlock_def s1)
    moreover have "heap s = (heap s)(a \<mapsto> VaMids (ms[i := (ms ! i)\<lparr>m_image := m_image (ms ! i)\<rparr>]))"
      using ms by (simp add: fun_upd_idem)
    ultimately show ?thesis using mid ms True by blast
  next
    case False
    obtain r img where img: "derived ans = (r, img)" by fastforce
    define ms' where "ms' = ms[i := (ms ! i)\<lparr>m_image := img\<rparr>]"
    have s1: "s1 = s\<lparr>heap := (heap s)(a \<mapsto> VaMids ms'), live := live s + {#Image (image_id img)#} + {#Mapping (buf img)#}\<rparr>"
      using lock at mid sf surf False img a
      by (auto simp: simple_lock_def Let_def put_block_def ms'_def split: if_splits prod.splits)
    have "sa \<noteq> a" using sf ms by auto
    then have "frame_at s1 mid = Some (a, ms', i, (ms ! i)\<lparr>m_image := img\<rparr>)" "surfaces_at s1 sa = Some xs"
      using mid ms sf by (simp_all add: frame_at_def vaapi_mids_at_def surfaces_at_def rd_Some s1 ms'_def)
    then have "simple_unlock mid (Some fd') s1 = Some (MFX_ERR_NONE,
        Some (fd'\<lparr>Pitch := 0, Y := 0, U := 0, V := 0, A := 0\<rparr>), s\<lparr>heap := (heap s)(a \<mapsto> VaMids ms')\<rparr>)"
      using mid sf surf False by (simp add: simple_unlock_def s1)
    moreover have "fd'\<lparr>Pitch := 0, Y := 0, U := 0, V := 0, A := 0\<rparr> = \<lparr>Pitch = 0, Y = 0, U = 0, V = 0, A = 0\<rparr>" by simp
    ultimately show ?thesis using mid ms False by (auto simp: ms'_def)
  qed
qed

section \<open>Examples\<close>

definition two_nv12 :: request where
  "two_nv12 = \<lparr>FourCC = FOURCC_NV12, NumFrameSuggested = 2, decoder_target = True, processor_target = False,
     external_frame = True, from_decode = True\<rparr>"

definition good_answers :: answers where
  "good_answers = \<lparr>callocs = (1, 2, 3), created = (VA_SUCCESS, \<lambda>i. 10 + i), buffers = \<lambda>k. (VA_SUCCESS, k)\<rparr>"

definition two_frames :: va_state where
  "two_frames = \<lparr>allocDecodeResponses = [5 \<mapsto> \<lparr>mfxResponse = \<lparr>mids = 3, NumFrameActual = 2, others = 0\<rparr>, refCount = 1\<rparr>],
     allocResponses = Map.empty,
     heap = [1 \<mapsto> Surfaces [10, 11], 2 \<mapsto> VaMids (handles FOURCC_NV12 1 2), 3 \<mapsto> MemIds [Some (2, 0), Some (2, 1)]],
     live = {#Surface 10, Surface 11#}\<rparr>"

lemma alloc_two:
  "simple_alloc True 5 (Some two_nv12) (Some zero_response) good_answers no_frames =
     Some (MFX_ERR_NONE, Some \<lparr>mids = 3, NumFrameActual = 2, others = 0\<rparr>, two_frames)"
  by (simp add: simple_alloc_def two_nv12_def decode_entry_def no_frames_def zero_response_def set_entry_def
      alloc_frames_def ConvertMfxFourccToVAFormat_def good_answers_def put_block_def create_frames_def
      two_frames_def handles_def upt_rec numeral_2_eq_2)

lemma fresh_two: "fresh good_answers no_frames"
  by (simp add: fresh_def good_answers_def no_frames_def)

lemma free_two:
  "simple_free 5 (Some \<lparr>mids = 3, NumFrameActual = 2, others = 0\<rparr>) two_frames =
     Some (MFX_ERR_NONE, Some \<lparr>mids = 3, NumFrameActual = 2, others = 0\<rparr>,
       two_frames\<lparr>allocDecodeResponses := Map.empty\<rparr>)"
  by (simp add: simple_free_def two_frames_def decode_entry_def set_entry_def free_frames_def Let_def)

theorem simple_alloc_spec_witness:
  "\<exists>ids. length ids = 2 \<and> live two_frames = {#} + mset (map (frame_of FOURCC_NV12) ids) \<and>
     map (surface_of two_frames \<lparr>mids = 3, NumFrameActual = 2, others = 0\<rparr>) [0..<length ids] = map Some ids"
  using simple_alloc_spec [OF alloc_two fresh_two]
  by (auto simp: two_nv12_def no_frames_def two_frames_def)

theorem frames_never_destroyed_witness:
  "frames two_frames \<subseteq># frames (two_frames\<lparr>allocDecodeResponses := Map.empty\<rparr>)"
  by (rule frames_never_destroyed)
    (rule run_one, rule step_alloc, rule alloc_two, rule fresh_two, rule run_one, rule step_free, rule free_two)

definition nv12_image :: va_image where
  "nv12_image = \<lparr>image_id = 7, buf = 8, image_fourcc = VA_NV12, pitches = [64, 64, 0], offsets = [0, 4096, 0]\<rparr>"

definition lock_ok :: lock_answers where
  "lock_ok = \<lparr>derived = (VA_SUCCESS, nv12_image), mapped = (VA_SUCCESS, 1000), coded_segment = 0\<rparr>"

definition no_data :: frame_data where
  "no_data = \<lparr>Pitch = 0, Y = 0, U = 0, V = 0, A = 0\<rparr>"

lemma lock_first:
  "simple_lock (Some (2, 0)) no_data lock_ok two_frames =
     Some (MFX_ERR_NONE, \<lparr>Pitch = 64, Y = 1000, U = 5096, V = 5097, A = 0\<rparr>,
       two_frames\<lparr>heap := (heap two_frames)(2 \<mapsto> VaMids ((handles FOURCC_NV12 1 2)
           [0 := zero_mid\<lparr>m_fourcc := FOURCC_NV12, m_surface := Some (1, 0), m_image := nv12_image\<rparr>])),
         live := {#Surface 10, Surface 11, Image 7, Mapping 8#}\<rparr>)"
  by (simp add: simple_lock_def frame_at_def vaapi_mids_at_def two_frames_def handles_def rd_def surfaces_at_def
      lock_ok_def put_block_def set_planes_def nv12_image_def no_data_def upt_rec zero_mid_def add_mset_commute)

theorem lock_unlock_witness:
  "\<exists>fd'' s2. simple_unlock (Some (2, 0)) (Some \<lparr>Pitch = 64, Y = 1000, U = 5096, V = 5097, A = 0\<rparr>)
      (two_frames\<lparr>heap := (heap two_frames)(2 \<mapsto> VaMids ((handles FOURCC_NV12 1 2)
           [0 := zero_mid\<lparr>m_fourcc := FOURCC_NV12, m_surface := Some (1, 0), m_image := nv12_image\<rparr>])),
         live := {#Surface 10, Surface 11, Image 7, Mapping 8#}\<rparr>) = Some (MFX_ERR_NONE, Some fd'', s2) \<and>
    live s2 = {#Surface 10, Surface 11#}"
  using lock_unlock [OF lock_first] by (auto simp: two_frames_def)

end
