(* ===== verification/Hog.thy ===== *)
theory Hog
  imports Ieee
begin

text \<open>
  The histogram features of the tracker (\<open>video_analytics_example/fhog.cpp\<close>): gradients of a
  colour image, their votes for the orientation bins of the cells, and the normalised and
  compressed descriptor.

  The three channels of the image go through the same statements on three arrays; the model
  has one function per channel. A fresh array of \<open>new\<close> or \<open>malloc\<close> holds arbitrary values,
  the argument \<open>junk\<close>; whether an allocation succeeds is an argument too. The time
  measurements, messages and dumps to files are left out, as are the dumped copies of the
  image. Images of OpenCV are lists of rows; \<open>cosf\<close> and \<open>sinf\<close> are parameters.
\<close>

section \<open>Borders\<close>

definition copy_cell :: "nat \<Rightarrow> nat \<Rightarrow> 'a list \<Rightarrow> 'a list option" where
  "copy_cell dst src img = do { v \<leftarrow> rd img src; wr img dst v }"

text \<open>The image inside a frame one pixel wide.\<close>

definition load_channel ::
    "nat list \<Rightarrow> nat \<Rightarrow> nat \<Rightarrow> nat \<Rightarrow> nat \<Rightarrow> ieee list \<Rightarrow> ieee list option" where
  "load_channel imageData widthStep ch height width =
     loop height (\<lambda>x. loop width (\<lambda>y img. do {
       v \<leftarrow> rd imageData (widthStep * x + (y * 3 + ch));
       wr img ((x + 1) * (width + 2) + (y + 1)) (n2f v) }))"

definition pad_channel :: "nat \<Rightarrow> nat \<Rightarrow> ieee list \<Rightarrow> ieee list option" where
  "pad_channel height width img = do {
     img \<leftarrow> loop width (\<lambda>y. copy_cell (y + 1) ((0 + 1) * (width + 2) + (y + 1))) img;
     img \<leftarrow> loop (width + 1) (\<lambda>y. copy_cell ((height + 1) * (width + 2) + y) (height * (width + 2) + y)) img;
     img \<leftarrow> loop (height + 1) (\<lambda>x. copy_cell (x * (width + 2)) (x * (width + 2) + 1)) img;
     img \<leftarrow> loop (height + 1) (\<lambda>x. copy_cell (x * (width + 2) + (width + 1)) (x * (width + 2) + width)) img;
     img \<leftarrow> copy_cell 0 (width + 2 + 1) img;
     img \<leftarrow> copy_cell (width + 1) (2 * (width + 2) - 2) img;
     img \<leftarrow> copy_cell ((width + 2) * (height + 1)) ((width + 2) * height + 1) img;
     copy_cell ((width + 2) * (height + 1) + width + 1) ((width + 2) * height + width) img
   }"

section \<open>Gradients\<close>

definition kernel :: "ieee list" where
  "kernel = [Fin (-1), Fin 0, Fin 1]"

text \<open>Convolutions along a row and along a column; the results are pushed to a vector.\<close>

definition conv_dx :: "nat \<Rightarrow> nat \<Rightarrow> ieee list \<Rightarrow> ieee list option" where
  "conv_dx height width img =
     loop height (\<lambda>row. loop width (\<lambda>col R. do {
       a \<leftarrow> loop 3 (\<lambda>m a. do {
         k \<leftarrow> rd kernel m;
         p \<leftarrow> rd img ((row + 1) * (width + 2) + (col + 1) + m - 1);
         Some (addf a (mulf k p)) }) (Fin 0);
       Some (R @ [a]) })) []"

definition conv_dy :: "nat \<Rightarrow> nat \<Rightarrow> ieee list \<Rightarrow> ieee list option" where
  "conv_dy height width img =
     loop height (\<lambda>row. loop width (\<lambda>col R. do {
       a \<leftarrow> loop 3 (\<lambda>m a. do {
         k \<leftarrow> rd kernel m;
         p \<leftarrow> rd img ((row + 1 + m - 1) * (width + 2) + (col + 1));
         Some (addf a (mulf k p)) }) (Fin 0);
       Some (R @ [a]) })) []"

text \<open>The three vectors as the rows of a three-channel image.\<close>

definition merge_channels :: "nat \<Rightarrow> nat \<Rightarrow> ieee list \<Rightarrow> ieee list \<Rightarrow> ieee list \<Rightarrow> ieee list list" where
  "merge_channels height width R G B =
     map (\<lambda>j. concat (map (\<lambda>i. [R ! (j * width + i), G ! (j * width + i), B ! (j * width + i)]) [0..<width])) [0..<height]"

abbreviation (input) sqrtf :: "ieee \<Rightarrow> ieee" where "sqrtf \<equiv> fsqrt b32"

text \<open>Directions of the nine sectors; the table has one more entry than is used.\<close>

definition boundary :: "(ieee \<Rightarrow> ieee) \<Rightarrow> ieee \<Rightarrow> ieee list" where
  "boundary f pi_f = map (\<lambda>i. f (mulf (n2f i) (divf pi_f (n2f 9)))) [0..<10]"

definition strongest_channel :: "nat \<Rightarrow> ieee list \<Rightarrow> ieee list \<Rightarrow> nat \<Rightarrow> (ieee \<times> ieee \<times> ieee) option" where
  "strongest_channel numChannels datadx datady i = do {
     x \<leftarrow> rd datadx (i * numChannels + 0);
     y \<leftarrow> rd datady (i * numChannels + 0);
     loop (numChannels - 1) (\<lambda>c (r, x, y). do {
       let ch = c + 1;
       tx \<leftarrow> rd datadx (i * numChannels + ch);
       ty \<leftarrow> rd datady (i * numChannels + ch);
       let magnitude = sqrtf (addf (mulf tx tx) (mulf ty ty));
       Some (if flt r magnitude then (magnitude, tx, ty) else (r, x, y)) })
     (sqrtf (addf (mulf x x) (mulf y y)), x, y) }"

definition best_sector :: "ieee list \<Rightarrow> ieee list \<Rightarrow> ieee \<Rightarrow> ieee \<Rightarrow> (ieee \<times> nat) option" where
  "best_sector boundary_x boundary_y x y = do {
     bx \<leftarrow> rd boundary_x 0;
     by0 \<leftarrow> rd boundary_y 0;
     loop 9 (\<lambda>kk (mx, maxi). do {
       bx \<leftarrow> rd boundary_x kk;
       by1 \<leftarrow> rd boundary_y kk;
       let dotProd = addf (mulf bx x) (mulf by1 y);
       Some (if flt mx dotProd then (dotProd, kk)
             else if flt mx (fneg dotProd) then (fneg dotProd, kk + 9) else (mx, maxi)) })
     (addf (mulf bx x) (mulf by0 y), 0) }"

text \<open>Magnitude and orientation of the inner pixels; those of the border stay undefined.\<close>

definition gradients ::
    "ieee list \<Rightarrow> ieee list \<Rightarrow> nat \<Rightarrow> nat \<Rightarrow> nat \<Rightarrow> ieee list list \<Rightarrow> ieee list list \<Rightarrow> ieee list \<times> nat list
     \<Rightarrow> (ieee list \<times> nat list) option" where
  "gradients boundary_x boundary_y numChannels height width dx dy =
     loop (height - 2) (\<lambda>j0 s. do {
       let j = j0 + 1;
       datadx \<leftarrow> rd dx j;
       datady \<leftarrow> rd dy j;
       loop (width - 2) (\<lambda>i0 (r, alfa). do {
         let i = i0 + 1;
         (mag, x, y) \<leftarrow> strongest_channel numChannels datadx datady i;
         r \<leftarrow> wr r (j * width + i) mag;
         (_, maxi) \<leftarrow> best_sector boundary_x boundary_y x y;
         alfa \<leftarrow> wr alfa (j * width * 2 + i * 2) (maxi mod 9);
         alfa \<leftarrow> wr alfa (j * width * 2 + i * 2 + 1) maxi;
         Some (r, alfa) }) s })"

section \<open>Votes\<close>

text \<open>The neighbouring cell a position inside the cell also votes for, and the two weights.\<close>

definition nearest_table :: "nat \<Rightarrow> int list" where
  "nearest_table k = map (\<lambda>i. if i < k div 2 then -1 else 1) [0..<k]"

definition weight_pair :: "ieee \<Rightarrow> ieee \<Rightarrow> ieee list" where
  "weight_pair a_x b_x =
     [mulf (divf (Fin 1) a_x) (divf (mulf a_x b_x) (addf a_x b_x)),
      mulf (divf (Fin 1) b_x) (divf (mulf a_x b_x) (addf a_x b_x))]"

definition weight_table :: "nat \<Rightarrow> ieee list" where
  "weight_table k = concat (map (\<lambda>j.
     if j < k div 2 then
       weight_pair (subf (i2f (int (k div 2) - int j)) (Fin (1/2))) (addf (i2f (int (k div 2) + int j)) (Fin (1/2)))
     else
       weight_pair (addf (i2f (int j - int (k div 2))) (Fin (1/2)))
         (addf (subf (i2f (- int j + int (k div 2))) (Fin (1/2))) (n2f k))) [0..<k])"

definition vote_at :: "int \<Rightarrow> ieee \<Rightarrow> ieee list \<Rightarrow> ieee list option" where
  "vote_at idx v m = do { x \<leftarrow> rdz m idx; wrz m idx (addf x v) }"

text \<open>Both votes of a pixel for the cell in row \<open>i\<close> and column \<open>j\<close>.\<close>

definition vote_cell :: "nat \<Rightarrow> int \<Rightarrow> int \<Rightarrow> nat \<Rightarrow> nat \<Rightarrow> ieee \<Rightarrow> ieee list \<Rightarrow> ieee list option" where
  "vote_cell sizeX i j a0 a1 v m = do {
     m \<leftarrow> vote_at (i * (int sizeX * 27) + j * 27 + int a0) v m;
     vote_at (i * (int sizeX * 27) + j * 27 + int a1 + 9) v m }"

definition vote_pixel ::
    "nat \<Rightarrow> nat \<Rightarrow> nat \<Rightarrow> ieee list \<Rightarrow> nat list \<Rightarrow> nat \<Rightarrow> nat \<Rightarrow> nat \<Rightarrow> nat \<Rightarrow> ieee list \<Rightarrow> ieee list option" where
  "vote_pixel k height width r alfa i j ii jj m =
     (let sizeX = width div k; sizeY = height div k; nearest = nearest_table k; w = weight_table k in
      if i * k + ii > 0 \<and> i * k + ii + 1 < height \<and> j * k + jj > 0 \<and> j * k + jj + 1 < width then do {
        let d = (k * i + ii) * width + (j * k + jj);
        a0 \<leftarrow> rd alfa (d * 2);
        a1 \<leftarrow> rd alfa (d * 2 + 1);
        rr \<leftarrow> rd r d;
        wi0 \<leftarrow> rd w (ii * 2);
        wi1 \<leftarrow> rd w (ii * 2 + 1);
        wj0 \<leftarrow> rd w (jj * 2);
        wj1 \<leftarrow> rd w (jj * 2 + 1);
        ni \<leftarrow> rd nearest ii;
        nj \<leftarrow> rd nearest jj;
        m \<leftarrow> vote_cell sizeX (int i) (int j) a0 a1 (mulf (mulf rr wi0) wj0) m;
        m \<leftarrow> (if int i + ni \<ge> 0 \<and> int i + ni \<le> int sizeY - 1
              then vote_cell sizeX (int i + ni) (int j) a0 a1 (mulf (mulf rr wi1) wj0) m else Some m);
        m \<leftarrow> (if int j + nj \<ge> 0 \<and> int j + nj \<le> int sizeX - 1
              then vote_cell sizeX (int i) (int j + nj) a0 a1 (mulf (mulf rr wi0) wj1) m else Some m);
        (if int i + ni \<ge> 0 \<and> int i + ni \<le> int sizeY - 1 \<and> int j + nj \<ge> 0 \<and> int j + nj \<le> int sizeX - 1
         then vote_cell sizeX (int i + ni) (int j + nj) a0 a1 (mulf (mulf rr wi1) wj1) m else Some m)
      } else Some m)"

definition votes_of_image ::
    "nat \<Rightarrow> nat \<Rightarrow> nat \<Rightarrow> ieee list \<Rightarrow> nat list \<Rightarrow> ieee list \<Rightarrow> ieee list option" where
  "votes_of_image k height width r alfa =
     loop (height div k) (\<lambda>i. loop (width div k) (\<lambda>j. loop k (\<lambda>ii. loop k (\<lambda>jj.
       vote_pixel k height width r alfa i j ii jj))))"

section \<open>The feature map\<close>

record feature_map =
  sizeX :: int
  sizeY :: int
  numFeatures :: nat
  fmap :: "ieee list"

text \<open>
  The flags say whether the allocations of the object and of its map succeed.  A null map is
  the empty list: every access to it is one out of bounds.  The variant \<open>Ext\<close> takes the buffer
  of its caller as the map.
\<close>

definition allocFeatureMapObject ::
    "bool \<times> bool \<Rightarrow> nat \<Rightarrow> nat \<Rightarrow> nat \<Rightarrow> int \<times> feature_map option" where
  "allocFeatureMapObject mem sx sy nf =
     (let obj = \<lparr>sizeX = int sx, sizeY = int sy, numFeatures = nf, fmap = []\<rparr> in
      if \<not> fst mem then (-1, None)
      else if \<not> snd mem then (-1, Some obj)
      else (0, Some (obj\<lparr>fmap := replicate (sx * sy * nf) (Fin 0)\<rparr>)))"

definition allocFeatureMapObjectExt ::
    "bool \<Rightarrow> nat \<Rightarrow> nat \<Rightarrow> nat \<Rightarrow> ieee list \<Rightarrow> int \<times> feature_map option" where
  "allocFeatureMapObjectExt mem sx sy nf buffer =
     (if \<not> mem then (-1, None)
      else (0, Some \<lparr>sizeX = int sx, sizeY = int sy, numFeatures = nf, fmap = buffer\<rparr>))"

definition channel_gradients ::
    "ieee list \<Rightarrow> nat list \<Rightarrow> nat \<Rightarrow> nat \<Rightarrow> nat \<Rightarrow> nat \<Rightarrow> (ieee list \<times> ieee list) option" where
  "channel_gradients junk imageData widthStep height width ch = do {
     img \<leftarrow> load_channel imageData widthStep ch height width (take ((height + 2) * (width + 2)) junk);
     img \<leftarrow> pad_channel height width img;
     R \<leftarrow> conv_dx height width img;
     R1 \<leftarrow> conv_dy height width img;
     Some (R, R1) }"

text \<open>
  The status of the allocation is not looked at: without memory the votes are added through a
  null pointer.
\<close>

definition getFeatureMaps ::
    "(ieee \<Rightarrow> ieee) \<Rightarrow> (ieee \<Rightarrow> ieee) \<Rightarrow> ieee \<Rightarrow> bool \<times> bool \<Rightarrow> ieee list \<Rightarrow> ieee list \<times> nat list
     \<Rightarrow> nat list \<Rightarrow> nat \<Rightarrow> nat \<Rightarrow> nat \<Rightarrow> nat \<Rightarrow> nat \<Rightarrow> (int \<times> feature_map option) option" where
  "getFeatureMaps cosf sinf pi_f mem junk work imageData widthStep height width numChannels k =
     (if k = 0 then None else do {
        (R, R1) \<leftarrow> channel_gradients junk imageData widthStep height width 0;
        (G, G1) \<leftarrow> channel_gradients junk imageData widthStep height width 1;
        (B, B1) \<leftarrow> channel_gradients junk imageData widthStep height width 2;
        let (_, map0) = allocFeatureMapObject mem (width div k) (height div k) (3 * 9);
        let dx = merge_channels height width R G B;
        let dy = merge_channels height width R1 G1 B1;
        (r, alfa) \<leftarrow> gradients (boundary cosf pi_f) (boundary sinf pi_f) numChannels height width dx dy
          (take (width * height) (fst work), take (width * height * 2) (snd work));
        m \<leftarrow> votes_of_image k height width r alfa (case map0 of None \<Rightarrow> [] | Some obj \<Rightarrow> fmap obj);
        Some (0, map_option (\<lambda>obj. obj\<lparr>fmap := m\<rparr>) map0) })"

section \<open>The frame replicates the border\<close>

text \<open>Position \<open>(x, y)\<close> of the framed image: the nearest pixel of the image.\<close>

definition framed :: "nat list \<Rightarrow> nat \<Rightarrow> nat \<Rightarrow> nat \<Rightarrow> nat \<Rightarrow> nat \<Rightarrow> nat \<Rightarrow> nat" where
  "framed imageData widthStep ch height width x y =
     imageData ! (widthStep * min (x - 1) (height - 1) + (min (y - 1) (width - 1) * 3 + ch))"

definition agrees :: "nat \<Rightarrow> nat \<Rightarrow> (nat \<Rightarrow> nat \<Rightarrow> 'a) \<Rightarrow> (nat \<times> nat) set \<Rightarrow> 'a list \<Rightarrow> bool" where
  "agrees n W P S img \<longleftrightarrow> length img = n * W \<and> S \<subseteq> {..<n} \<times> {..<W} \<and> (\<forall>(x, y) \<in> S. img ! (x * W + y) = P x y)"

lemma agrees_update:
  assumes "agrees n W P S img" and "x < n" and "y < W"
  shows "agrees n W P (if v = P x y then insert (x, y) S else S - {(x, y)}) (img[x * W + y := v])"
proof -
  have len: "x * W + y < length img" using assms index2_less [of x n y W] by (simp add: agrees_def)
  have other: "img[x * W + y := v] ! (a * W + b) = P a b" if "(a, b) \<in> S" "(a, b) \<noteq> (x, y)" for a b
  proof -
    have "x * W + y \<noteq> a * W + b" using assms that index2_inj [of b W y a x] by (auto simp: agrees_def)
    then show ?thesis using assms(1) that(1) by (auto simp: agrees_def)
  qed
  define T where "T = (if v = P x y then insert (x, y) S else S - {(x, y)})"
  have "img[x * W + y := v] ! (a * W + b) = P a b" if "(a, b) \<in> T" for a b
    using that other [of a b] len by (cases "(a, b) = (x, y)") (auto simp: T_def split: if_splits)
  moreover have "T \<subseteq> {..<n} \<times> {..<W}" using assms by (auto simp: T_def agrees_def split: if_splits)
  ultimately have "agrees n W P T (img[x * W + y := v])" using assms(1) by (auto simp: agrees_def)
  then show ?thesis by (simp add: T_def)
qed

lemma copy_agrees:
  assumes img: "agrees n W P S img" and src: "(sx, sy) \<in> S" and same: "P sx sy = P dx dy" and "dx < n" "dy < W"
  shows "ok (copy_cell (dx * W + dy) (sx * W + sy) img) (agrees n W P (insert (dx, dy) S))"
proof -
  have "sx * W + sy < length img" "img ! (sx * W + sy) = P dx dy"
    using img src same index2_less [of sx n sy W] by (auto simp: agrees_def)
  moreover have "dx * W + dy < length img" using assms index2_less [of dx n dy W] by (simp add: agrees_def)
  ultimately show ?thesis
    using agrees_update [OF img \<open>dx < n\<close> \<open>dy < W\<close>, of "P dx dy"] by (simp add: copy_cell_def wp)
qed

text \<open>Copying a cell of unknown content is harmless where nothing is known yet.\<close>

lemma copy_junk_agrees:
  assumes img: "agrees n W P S img" and "sx < n" "sy < W" "dx < n" "dy < W" and "(dx, dy) \<notin> S"
  shows "ok (copy_cell (dx * W + dy) (sx * W + sy) img) (agrees n W P S)"
proof -
  have "sx * W + sy < length img" "dx * W + dy < length img"
    using assms index2_less [of sx n sy W] index2_less [of dx n dy W] by (auto simp: agrees_def)
  moreover have "agrees n W P S (img[dx * W + dy := v])" for v
    using agrees_update [OF img \<open>dx < n\<close> \<open>dy < W\<close>, of v] assms(6)
    by (auto simp: agrees_def split: if_splits)
  ultimately show ?thesis by (simp add: copy_cell_def wp)
qed

lemma copies_agree:
  assumes img: "agrees n W P S img"
    and step: "\<And>k. k < m \<Longrightarrow> d k = dx k * W + dy k \<and> s k = sx k * W + sy k \<and> (sx k, sy k) \<in> S \<and>
      P (sx k) (sy k) = P (dx k) (dy k) \<and> dx k < n \<and> dy k < W"
  shows "ok (loop m (\<lambda>k. copy_cell (d k) (s k)) img) (agrees n W P (S \<union> (\<lambda>k. (dx k, dy k)) ` {..<m}))"
proof (rule loop_wp [where I = "\<lambda>k. agrees n W P (S \<union> (\<lambda>k. (dx k, dy k)) ` {..<k})"])
  fix k img assume k: "k < m" and "agrees n W P (S \<union> (\<lambda>k. (dx k, dy k)) ` {..<k}) img"
  then have "ok (copy_cell (dx k * W + dy k) (sx k * W + sy k) img)
      (agrees n W P (insert (dx k, dy k) (S \<union> (\<lambda>k. (dx k, dy k)) ` {..<k})))"
    using step [OF k] by (intro copy_agrees) auto
  then show "ok (copy_cell (d k) (s k) img) (agrees n W P (S \<union> (\<lambda>k. (dx k, dy k)) ` {..<Suc k}))"
    using step [OF k] by (simp add: lessThan_Suc)
qed (use img in auto)

lemma agrees_mono: "agrees n W P S img \<Longrightarrow> T \<subseteq> S \<Longrightarrow> agrees n W P T img"
  by (auto simp: agrees_def)

lemma load_agrees:
  assumes rows: "\<And>x. x < height \<Longrightarrow> widthStep * x + width * 3 \<le> length imageData" and ch: "ch < 3"
    and len: "length img = (height + 2) * (width + 2)"
  shows "ok (load_channel imageData widthStep ch height width img)
    (agrees (height + 2) (width + 2) (\<lambda>x y. n2f (framed imageData widthStep ch height width x y)) ({1..height} \<times> {1..width}))"
    (is "ok _ (agrees ?n ?W ?P _)")
  unfolding load_channel_def
proof (rule loop_wp [where I = "\<lambda>k. agrees ?n ?W ?P ({1..k} \<times> {1..width})"])
  show "agrees ?n ?W ?P ({1..0} \<times> {1..width}) img" using len by (simp add: agrees_def)
next
  fix x img assume x: "x < height" and "agrees ?n ?W ?P ({1..x} \<times> {1..width}) img"
  then have start: "agrees ?n ?W ?P ({1..x} \<times> {1..width} \<union> {x + 1} \<times> {1..0}) img" by simp
  have "ok (loop width (\<lambda>y img. do { v \<leftarrow> rd imageData (widthStep * x + (y * 3 + ch));
      wr img ((x + 1) * (width + 2) + (y + 1)) (n2f v) }) img)
    (agrees ?n ?W ?P ({1..x} \<times> {1..width} \<union> {x + 1} \<times> {1..width}))"
  proof (rule loop_wp [where I = "\<lambda>k. agrees ?n ?W ?P ({1..x} \<times> {1..width} \<union> {x + 1} \<times> {1..k})"])
    fix y img assume y: "y < width" and inv: "agrees ?n ?W ?P ({1..x} \<times> {1..width} \<union> {x + 1} \<times> {1..y}) img"
    have "widthStep * x + (y * 3 + ch) < length imageData" using rows [OF x] y ch by simp
    moreover have "n2f (imageData ! (widthStep * x + (y * 3 + ch))) = ?P (x + 1) (y + 1)"
      using x y by (simp add: framed_def)
    moreover have "(x + 1) * ?W + (y + 1) < length img"
      using inv x y index2_less [of "x + 1" ?n "y + 1" ?W] by (simp add: agrees_def)
    moreover have "insert (x + 1, y + 1) ({1..x} \<times> {1..width} \<union> {x + 1} \<times> {1..y}) =
        {1..x} \<times> {1..width} \<union> {x + 1} \<times> {1..Suc y}" by auto
    ultimately show "ok (do { v \<leftarrow> rd imageData (widthStep * x + (y * 3 + ch));
        wr img ((x + 1) * (width + 2) + (y + 1)) (n2f v) })
        (agrees ?n ?W ?P ({1..x} \<times> {1..width} \<union> {x + 1} \<times> {1..Suc y}))"
      using agrees_update [OF inv, of "x + 1" "y + 1" "?P (x + 1) (y + 1)"] x y
      by (simp only: ok_bind ok_rd ok_wr if_True simp_thms)
  qed (use start in auto)
  moreover have "{1..x} \<times> {1..width} \<union> {x + 1} \<times> {1..width} = {1..Suc x} \<times> {1..width}" by auto
  ultimately show "ok (loop width (\<lambda>y img. do { v \<leftarrow> rd imageData (widthStep * x + (y * 3 + ch));
      wr img ((x + 1) * (width + 2) + (y + 1)) (n2f v) }) img) (agrees ?n ?W ?P ({1..Suc x} \<times> {1..width}))"
    by (simp only:)
qed

lemma copies_agree_to:
  assumes "agrees n W P S img"
    and "\<And>k. k < m \<Longrightarrow> d k = dx k * W + dy k \<and> s k = sx k * W + sy k \<and> (sx k, sy k) \<in> S \<and>
      P (sx k) (sy k) = P (dx k) (dy k) \<and> dx k < n \<and> dy k < W"
    and "\<And>x y. (x, y) \<in> T \<Longrightarrow> (x, y) \<in> S \<or> (\<exists>k < m. x = dx k \<and> y = dy k)"
  shows "ok (loop m (\<lambda>k. copy_cell (d k) (s k)) img) (agrees n W P T)"
proof (rule ok_mono [OF copies_agree [OF assms(1,2)]])
  have "T \<subseteq> S \<union> (\<lambda>k. (dx k, dy k)) ` {..<m}" using assms(3) by (fastforce simp: image_iff)
  then show "agrees n W P T img'" if "agrees n W P (S \<union> (\<lambda>k. (dx k, dy k)) ` {..<m}) img'" for img'
    using that by (rule agrees_mono [rotated])
qed

lemma pad_agrees:
  assumes img: "agrees (h + 2) (w + 2) P ({1..h} \<times> {1..w}) img" and "0 < h" "0 < w"
    and P: "\<And>y. P 0 y = P 1 y" "\<And>y. P (h + 1) y = P h y" "\<And>x. P x 0 = P x 1" "\<And>x. P x (w + 1) = P x w"
  shows "ok (pad_channel h w img) (agrees (h + 2) (w + 2) P ({..<h + 2} \<times> {..<w + 2}))"
proof -
  let ?A = "agrees (h + 2) (w + 2) P" and ?W = "w + 2"
  let ?S1 = "{0..h} \<times> {1..w}" and ?S2 = "{0..h + 1} \<times> {1..w}"
  let ?S3 = "?S2 \<union> {0..h} \<times> {0..w}" and ?S4 = "?S2 \<union> {0..h} \<times> {0..w + 1}"
  have top: "ok (loop w (\<lambda>y. copy_cell (y + 1) ((0 + 1) * ?W + (y + 1))) img) (?A ?S1)"
  proof (rule copies_agree_to [OF img, where dx = "\<lambda>y. 0" and dy = "\<lambda>y. y + 1" and sx = "\<lambda>y. 1" and sy = "\<lambda>y. y + 1"])
    show "(x, y) \<in> {1..h} \<times> {1..w} \<or> (\<exists>k < w. x = 0 \<and> y = k + 1)" if "(x, y) \<in> ?S1" for x y
      using that by (cases "x = 0") (auto intro!: exI [of _ "y - 1"])
  qed (use assms in auto)
  have bottom: "ok (loop (w + 1) (\<lambda>y. copy_cell ((h + 1) * ?W + y) (h * ?W + y)) img) (?A ?S2)" if img: "?A ?S1 img" for img
  proof -
    have first: "ok (copy_cell ((h + 1) * ?W + 0) (h * ?W + 0) img) (?A ?S1)"
      by (rule copy_junk_agrees [OF img]) auto
    have rest: "ok (loop w (\<lambda>y. copy_cell ((h + 1) * ?W + (1 + y)) (h * ?W + (1 + y))) img') (?A ?S2)" if "?A ?S1 img'" for img'
    proof (rule copies_agree_to [OF that, where dx = "\<lambda>y. h + 1" and dy = "\<lambda>y. 1 + y" and sx = "\<lambda>y. h" and sy = "\<lambda>y. 1 + y"])
      show "(x, y) \<in> ?S1 \<or> (\<exists>k < w. x = h + 1 \<and> y = 1 + k)" if "(x, y) \<in> ?S2" for x y
        using that by (cases "x = h + 1") (auto intro!: exI [of _ "y - 1"])
    qed (use assms in auto)
    have "loop (1 + w) (\<lambda>y. copy_cell ((h + 1) * ?W + y) (h * ?W + y)) img =
        loop 1 (\<lambda>y. copy_cell ((h + 1) * ?W + y) (h * ?W + y)) img \<bind>
        loop w (\<lambda>y. copy_cell ((h + 1) * ?W + (1 + y)) (h * ?W + (1 + y)))" by (rule loop_add)
    moreover have one: "loop 1 F img = F 0 img" for F by simp
    ultimately have "ok (loop (1 + w) (\<lambda>y. copy_cell ((h + 1) * ?W + y) (h * ?W + y)) img) (?A ?S2)"
      unfolding one using ok_mono [OF first rest] by (simp only: ok_bind)
    then show ?thesis by (simp only: add.commute)
  qed
  have left: "ok (loop (h + 1) (\<lambda>x. copy_cell (x * ?W) (x * ?W + 1)) img) (?A ?S3)" if img: "?A ?S2 img" for img
    by (rule copies_agree_to [OF img, where dx = "\<lambda>x. x" and dy = "\<lambda>x. 0" and sx = "\<lambda>x. x" and sy = "\<lambda>x. 1"])
      (use assms in \<open>auto simp: Suc_le_eq\<close>)
  have right: "ok (loop (h + 1) (\<lambda>x. copy_cell (x * ?W + (w + 1)) (x * ?W + w)) img) (?A ?S4)" if img: "?A ?S3 img" for img
    by (rule copies_agree_to [OF img, where dx = "\<lambda>x. x" and dy = "\<lambda>x. w + 1" and sx = "\<lambda>x. x" and sy = "\<lambda>x. w"])
      (use assms in \<open>auto simp: le_Suc_eq\<close>)
  have corner: "ok (copy_cell d s img) (?A (insert (x, y) S))"
    if "?A S img" "d = x * ?W + y" "s = a * ?W + b" "(a, b) \<in> S" "P a b = P x y" "x < h + 2" "y < w + 2" for S img d s x y a b
    using copy_agrees [OF that(1,4,5,6,7)] that(2,3) by simp
  have last: "ok (do { img \<leftarrow> copy_cell 0 (w + 2 + 1) img;
     img \<leftarrow> copy_cell (w + 1) (2 * (w + 2) - 2) img;
     img \<leftarrow> copy_cell ((w + 2) * (h + 1)) ((w + 2) * h + 1) img;
     copy_cell ((w + 2) * (h + 1) + w + 1) ((w + 2) * h + w) img }) (?A ({..<h + 2} \<times> {..<w + 2}))" if img: "?A ?S4 img" for img
  proof -
    let ?T1 = "insert (0, 0) ?S4" let ?T2 = "insert (0, w + 1) ?T1" let ?T3 = "insert (h + 1, 0) ?T2"
    have whole: "{..<h + 2} \<times> {..<w + 2} \<subseteq> insert (h + 1, w + 1) ?T3" by auto
    have 1: "ok (copy_cell 0 (w + 2 + 1) img) (?A ?T1)"
      by (rule corner [OF img, where a = 1 and b = 1]) (use assms in auto)
    have 2: "ok (copy_cell (w + 1) (2 * (w + 2) - 2) img) (?A ?T2)" if "?A ?T1 img" for img
      by (rule corner [OF that, where a = 1 and b = w]) (use assms in auto)
    have 3: "ok (copy_cell ((w + 2) * (h + 1)) ((w + 2) * h + 1) img) (?A ?T3)" if "?A ?T2 img" for img
      by (rule corner [OF that, where a = h and b = 1]) (use assms in \<open>auto simp: algebra_simps\<close>)
    have 4: "ok (copy_cell ((w + 2) * (h + 1) + w + 1) ((w + 2) * h + w) img) (?A ({..<h + 2} \<times> {..<w + 2}))"
      if "?A ?T3 img" for img
      by (rule ok_mono [OF corner [OF that, where a = h and b = w and x = "h + 1" and y = "w + 1"] agrees_mono [OF _ whole]])
        (use assms in \<open>auto simp: algebra_simps\<close>)
    show ?thesis unfolding ok_bind by (rule ok_mono [OF 1], rule ok_mono [OF 2], assumption, rule ok_mono [OF 3], assumption, rule 4)
  qed
  show ?thesis
    unfolding pad_channel_def ok_bind
    by (rule ok_mono [OF top], rule ok_mono [OF bottom], assumption, rule ok_mono [OF left], assumption,
      rule ok_mono [OF right], assumption) (rule last [unfolded ok_bind])
qed

section \<open>Gradients are exact central differences\<close>

lemma loop_push:
  assumes "\<And>i acc. i < n \<Longrightarrow> f i acc = Some (acc @ g i)"
  shows "loop n f acc = Some (acc @ concat (map g [0..<n]))"
  using assms by (induction n) simp_all

definition central_x :: "nat list \<Rightarrow> nat \<Rightarrow> nat \<Rightarrow> nat \<Rightarrow> nat \<Rightarrow> nat \<Rightarrow> nat \<Rightarrow> int" where
  "central_x raw ws h w ch j i = int (framed raw ws ch h w (j + 1) (i + 2)) - int (framed raw ws ch h w (j + 1) i)"

definition central_y :: "nat list \<Rightarrow> nat \<Rightarrow> nat \<Rightarrow> nat \<Rightarrow> nat \<Rightarrow> nat \<Rightarrow> nat \<Rightarrow> int" where
  "central_y raw ws h w ch j i = int (framed raw ws ch h w (j + 2) (i + 1)) - int (framed raw ws ch h w j (i + 1))"

lemma mk_small: "\<bar>i\<bar> < 2 ^ 24 \<Longrightarrow> mk b32 False (of_int i) = Fin (of_int i)"
  using i2f_exact [of i] by (simp add: of_z_def)

lemma mk_neg_small: "p < 256 \<Longrightarrow> addf (Fin 0) (mk b32 True (- of_nat p)) = Fin (- of_nat p)"
proof (cases "p = 0")
  case False
  assume "p < 256"
  then have "in_fmt b32 (Fin (- of_nat p))"
    using in_fmt_mk [OF fmt_ok_b32, of False "of_int (- int p)"] mk_small [of "- int p"]
    by (simp del: in_fmt.simps in_fmt_mk)
  then have "mk b32 True (- of_nat p) = Fin (- of_nat p)" using False by (intro mk_id) auto
  moreover have "mk b32 False (- of_nat p) = Fin (- of_nat p)" using mk_small [of "- int p"] \<open>p < 256\<close> by simp
  ultimately show ?thesis by simp
qed (simp add: zero_def)

lemma kernel_sum:
  assumes "p0 < 256" "p1 < 256" "p2 < 256"
  shows "addf (addf (addf (Fin 0) (mulf (Fin (-1)) (n2f p0))) (mulf (Fin 0) (n2f p1))) (mulf (Fin 1) (n2f p2)) =
    Fin (of_int (int p2 - int p0))"
proof -
  have n: "n2f p = Fin (of_nat p)" if "p < 256" for p using i2f_exact [of "int p"] that by simp
  have 0: "addf (Fin 0) (mulf (Fin (-1)) (n2f p0)) = Fin (- of_nat p0)"
    using mk_neg_small [OF assms(1)] by (simp add: n [OF assms(1)] fmul_def del: fadd.simps)
  have 1: "mulf (Fin 0) (n2f p1) = Fin 0" by (simp add: n [OF assms(2)] fmul_def zero_def)
  have 2: "mulf (Fin 1) (n2f p2) = Fin (of_nat p2)"
    using mk_small [of "int p2"] assms(3) by (simp add: n [OF assms(3)] fmul_def)
  show ?thesis
    unfolding 0 1 2 using mk_small [of "- int p0"] mk_small [of "int p2 - int p0"] assms by simp
qed

lemma framed_byte:
  assumes "\<And>x. x < h \<Longrightarrow> ws * x + w * 3 \<le> length raw" and "ch < 3" "0 < h" "0 < w" and "\<forall>b \<in> set raw. b < 256"
  shows "framed raw ws ch h w x y < 256"
proof -
  have "min (x - 1) (h - 1) < h" "min (y - 1) (w - 1) < w" using assms(3,4) by auto
  then have "ws * min (x - 1) (h - 1) + (min (y - 1) (w - 1) * 3 + ch) < length raw"
    using assms(1) [of "min (x - 1) (h - 1)"] assms(2) by linarith
  then show ?thesis using assms(5) by (simp add: framed_def)
qed

lemma conv_loop:
  assumes "\<And>m. m < 3 \<Longrightarrow> f m < length img"
  shows "loop 3 (\<lambda>m a. do { k \<leftarrow> rd kernel m; p \<leftarrow> rd img (f m); Some (addf a (mulf k p)) }) (Fin 0) =
    Some (addf (addf (addf (Fin 0) (mulf (Fin (-1)) (img ! f 0))) (mulf (Fin 0) (img ! f 1))) (mulf (Fin 1) (img ! f 2)))"
  using assms [of 0] assms [of 1] assms [of 2]
  by (simp add: numeral_3_eq_3 kernel_def rd_def numeral_2_eq_2 del: fadd.simps)

lemma conv_eq:
  assumes img: "agrees (h + 2) (w + 2) (\<lambda>x y. n2f (B x y)) ({..<h + 2} \<times> {..<w + 2}) img" and byte: "\<And>x y. B x y < 256"
  shows "conv_dx h w img = Some (map (\<lambda>q. Fin (of_int (int (B (q div w + 1) (q mod w + 2)) - int (B (q div w + 1) (q mod w))))) [0..<h * w])"
    and "conv_dy h w img = Some (map (\<lambda>q. Fin (of_int (int (B (q div w + 2) (q mod w + 1)) - int (B (q div w) (q mod w + 1))))) [0..<h * w])"
proof -
  have at: "x * (w + 2) + y < length img \<and> img ! (x * (w + 2) + y) = n2f (B x y)" if "x < h + 2" "y < w + 2" for x y
    using img that index2_less [of x "h + 2" y "w + 2"] by (auto simp: agrees_def)
  have x: "loop 3 (\<lambda>m a. do { k \<leftarrow> rd kernel m; p \<leftarrow> rd img ((row + 1) * (w + 2) + (col + 1) + m - 1); Some (addf a (mulf k p)) }) (Fin 0) =
      Some (Fin (of_int (int (B (row + 1) (col + 2)) - int (B (row + 1) col))))" if "row < h" "col < w" for row col
  proof -
    have idx: "(row + 1) * (w + 2) + (col + 1) + m - 1 = (row + 1) * (w + 2) + (col + m)" for m by simp
    show ?thesis
      unfolding idx
      using conv_loop [of "\<lambda>m. (row + 1) * (w + 2) + (col + m)" img] at [of "row + 1" "col + 0"] at [of "row + 1" "col + 1"]
        at [of "row + 1" "col + 2"] at [of "row + 1"] kernel_sum [OF byte byte byte] that by simp
  qed
  have y: "loop 3 (\<lambda>m a. do { k \<leftarrow> rd kernel m; p \<leftarrow> rd img ((row + 1 + m - 1) * (w + 2) + (col + 1)); Some (addf a (mulf k p)) }) (Fin 0) =
      Some (Fin (of_int (int (B (row + 2) (col + 1)) - int (B row (col + 1)))))" if "row < h" "col < w" for row col
  proof -
    have idx: "row + 1 + m - 1 = row + m" for m by simp
    show ?thesis
      unfolding idx
      using conv_loop [of "\<lambda>m. (row + m) * (w + 2) + (col + 1)" img] at [of "row + 0" "col + 1"] at [of "row + 1" "col + 1"]
        at [of "row + 2" "col + 1"] at [of _ "col + 1"] kernel_sum [OF byte byte byte] that by simp
  qed
  have "conv_dx h w img = Some ([] @ concat (map (\<lambda>row. map (\<lambda>col. Fin (of_int (int (B (row + 1) (col + 2)) - int (B (row + 1) col)))) [0..<w]) [0..<h]))"
    unfolding conv_dx_def
  proof (rule loop_push)
    fix row acc assume "row < h"
    then show "loop w (\<lambda>col R. do {
         a \<leftarrow> loop 3 (\<lambda>m a. do { k \<leftarrow> rd kernel m; p \<leftarrow> rd img ((row + 1) * (w + 2) + (col + 1) + m - 1); Some (addf a (mulf k p)) }) (Fin 0);
         Some (R @ [a]) }) acc = Some (acc @ map (\<lambda>col. Fin (of_int (int (B (row + 1) (col + 2)) - int (B (row + 1) col)))) [0..<w])"
      using loop_push [of w _ "\<lambda>col. [Fin (of_int (int (B (row + 1) (col + 2)) - int (B (row + 1) col)))]" acc] x
      by (simp add: concat_map_singleton)
  qed
  then show "conv_dx h w img = Some (map (\<lambda>q. Fin (of_int (int (B (q div w + 1) (q mod w + 2)) - int (B (q div w + 1) (q mod w))))) [0..<h * w])"
    by (simp only: concat_map_upt append_Nil)
  have "conv_dy h w img = Some ([] @ concat (map (\<lambda>row. map (\<lambda>col. Fin (of_int (int (B (row + 2) (col + 1)) - int (B row (col + 1))))) [0..<w]) [0..<h]))"
    unfolding conv_dy_def
  proof (rule loop_push)
    fix row acc assume "row < h"
    then show "loop w (\<lambda>col R. do {
         a \<leftarrow> loop 3 (\<lambda>m a. do { k \<leftarrow> rd kernel m; p \<leftarrow> rd img ((row + 1 + m - 1) * (w + 2) + (col + 1)); Some (addf a (mulf k p)) }) (Fin 0);
         Some (R @ [a]) }) acc = Some (acc @ map (\<lambda>col. Fin (of_int (int (B (row + 2) (col + 1)) - int (B row (col + 1))))) [0..<w])"
      using loop_push [of w _ "\<lambda>col. [Fin (of_int (int (B (row + 2) (col + 1)) - int (B row (col + 1))))]" acc] y
      by (simp add: concat_map_singleton)
  qed
  then show "conv_dy h w img = Some (map (\<lambda>q. Fin (of_int (int (B (q div w + 2) (q mod w + 1)) - int (B (q div w) (q mod w + 1))))) [0..<h * w])"
    by (simp only: concat_map_upt append_Nil)
qed

lemma framed_border:
  "framed raw ws ch h w 0 y = framed raw ws ch h w 1 y" "0 < h \<Longrightarrow> framed raw ws ch h w (h + 1) y = framed raw ws ch h w h y"
  "framed raw ws ch h w x 0 = framed raw ws ch h w x 1" "0 < w \<Longrightarrow> framed raw ws ch h w x (w + 1) = framed raw ws ch h w x w"
  by (simp_all add: framed_def)

text \<open>What the image promises: its rows lie inside the data and hold bytes.\<close>

definition image_ok :: "nat list \<Rightarrow> nat \<Rightarrow> nat \<Rightarrow> nat \<Rightarrow> bool" where
  "image_ok raw ws h w \<longleftrightarrow> 0 < h \<and> 0 < w \<and> (\<forall>x < h. ws * x + w * 3 \<le> length raw) \<and> (\<forall>b \<in> set raw. b < 256)"

lemma central_bounds:
  assumes "image_ok raw ws h w" and "ch < 3"
  shows "\<bar>central_x raw ws h w ch j i\<bar> \<le> 255" "\<bar>central_y raw ws h w ch j i\<bar> \<le> 255"
proof -
  have b: "framed raw ws ch h w x y < 256" for x y
    by (rule framed_byte) (use assms in \<open>auto simp: image_ok_def\<close>)
  show "\<bar>central_x raw ws h w ch j i\<bar> \<le> 255"
    using b [of "j + 1" "i + 2"] b [of "j + 1" i] by (simp add: central_x_def)
  show "\<bar>central_y raw ws h w ch j i\<bar> \<le> 255"
    using b [of "j + 2" "i + 1"] b [of j "i + 1"] by (simp add: central_y_def)
qed

lemma channel_gradients_eq:
  assumes img: "image_ok raw ws h w" and ch: "ch < 3" and junk: "(h + 2) * (w + 2) \<le> length junk"
  shows "channel_gradients junk raw ws h w ch = Some
    (map (\<lambda>q. Fin (of_int (central_x raw ws h w ch (q div w) (q mod w)))) [0..<h * w],
     map (\<lambda>q. Fin (of_int (central_y raw ws h w ch (q div w) (q mod w)))) [0..<h * w])"
proof -
  let ?P = "\<lambda>x y. n2f (framed raw ws ch h w x y)"
  have pos: "0 < h" "0 < w" using img by (simp_all add: image_ok_def)
  have "ok (load_channel raw ws ch h w (take ((h + 2) * (w + 2)) junk)) (agrees (h + 2) (w + 2) ?P ({1..h} \<times> {1..w}))"
    by (rule load_agrees) (use img ch junk in \<open>auto simp: image_ok_def min_def\<close>)
  then obtain a where a: "load_channel raw ws ch h w (take ((h + 2) * (w + 2)) junk) = Some a"
    "agrees (h + 2) (w + 2) ?P ({1..h} \<times> {1..w}) a" by (rule okE)
  have "ok (pad_channel h w a) (agrees (h + 2) (w + 2) ?P ({..<h + 2} \<times> {..<w + 2}))"
    by (rule pad_agrees [OF a(2) pos]) (simp_all only: framed_border pos)
  then obtain b where b: "pad_channel h w a = Some b" "agrees (h + 2) (w + 2) ?P ({..<h + 2} \<times> {..<w + 2}) b" by (rule okE)
  have "framed raw ws ch h w x y < 256" for x y
    by (rule framed_byte) (use img ch in \<open>auto simp: image_ok_def\<close>)
  note conv = conv_eq [OF b(2) this]
  show ?thesis unfolding channel_gradients_def a(1) Option.bind.bind_lunit b(1) conv
    by (simp add: central_x_def central_y_def)
qed

section \<open>Magnitude and orientation\<close>

lemma merge_channels_nth:
  assumes "j < h" "i < w" "ch < 3"
  shows "j < length (merge_channels h w R G B)" "i * 3 + ch < length (merge_channels h w R G B ! j)"
    "merge_channels h w R G B ! j ! (i * 3 + ch) = [R, G, B] ! ch ! (j * w + i)"
proof -
  have row: "merge_channels h w R G B ! j = map (\<lambda>q. [R, G, B] ! (q mod 3) ! (j * w + q div 3)) [0..<w * 3]"
  proof -
    have "[R ! (j * w + i), G ! (j * w + i), B ! (j * w + i)] = map (\<lambda>c. [R, G, B] ! c ! (j * w + i)) [0..<3]" for i
      by (simp add: upt_rec numeral_2_eq_2 numeral_3_eq_3)
    then show ?thesis using assms(1) concat_map_upt [of "\<lambda>i c. [R, G, B] ! c ! (j * w + i)" 3 w]
      by (simp add: merge_channels_def)
  qed
  show "j < length (merge_channels h w R G B)" using assms by (simp add: merge_channels_def)
  show "i * 3 + ch < length (merge_channels h w R G B ! j)" using assms by (simp add: row)
  show "merge_channels h w R G B ! j ! (i * 3 + ch) = [R, G, B] ! ch ! (j * w + i)" using assms by (simp add: row)
qed

text \<open>The gradient vector of a channel, its length, and its component in each of the 18 directions.\<close>

definition magnitude :: "int \<Rightarrow> int \<Rightarrow> ieee" where
  "magnitude x y = sqrtf (addf (mulf (Fin (of_int x)) (Fin (of_int x))) (mulf (Fin (of_int y)) (Fin (of_int y))))"

definition component :: "ieee list \<Rightarrow> ieee list \<Rightarrow> int \<Rightarrow> int \<Rightarrow> nat \<Rightarrow> ieee" where
  "component bx bys x y t =
     (let dot = addf (mulf (bx ! (t mod 9)) (Fin (of_int x))) (mulf (bys ! (t mod 9)) (Fin (of_int y))) in
      if t < 9 then dot else fneg dot)"

definition trig_table :: "ieee list \<Rightarrow> bool" where
  "trig_table b \<longleftrightarrow> 9 \<le> length b \<and> (\<forall>v \<in> set b. is_fin v \<and> \<bar>val v\<bar> \<le> 1)"

lemma magnitude_not_nan:
  assumes "\<bar>x\<bar> \<le> 255" "\<bar>y\<bar> \<le> 255"
  shows "\<not> is_nan (magnitude x y)"
proof -
  have sq: "mulf (Fin (of_int z)) (Fin (of_int z)) = Fin (of_int (z * z))" and "0 \<le> z * z" "z * z \<le> 65025" if "\<bar>z\<bar> \<le> 255" for z
  proof -
    show le: "z * z \<le> 65025" using that abs_le_square_iff [of z 255] by (simp add: power2_eq_square)
    show "0 \<le> z * z" by simp
    then show "mulf (Fin (of_int z)) (Fin (of_int z)) = Fin (of_int (z * z))"
      using mk_small [of "z * z"] le by (simp add: fmul_def)
  qed
  note x = this [OF assms(1)] and y = this [OF assms(2)]
  have "addf (Fin (of_int (x * x))) (Fin (of_int (y * y))) = Fin (of_int (x * x + y * y))"
    using mk_small [of "x * x + y * y"] x y by (simp del: of_int_mult)
  moreover have "\<not> x * x + y * y < 0" using x y by linarith
  ultimately show ?thesis
    unfolding magnitude_def x(1) y(1) by (simp del: of_int_mult of_int_add fadd.simps)
qed

lemma component_fin:
  assumes "trig_table bx" "trig_table bys" and "\<bar>x\<bar> \<le> 255" "\<bar>y\<bar> \<le> 255"
  shows "is_fin (component bx bys x y t)"
proof -
  have prod: "is_fin (mulf v (Fin (of_int z))) \<and> -255 \<le> val (mulf v (Fin (of_int z))) \<and> val (mulf v (Fin (of_int z))) \<le> 255"
    if "is_fin v" "\<bar>val v\<bar> \<le> 1" "\<bar>z\<bar> \<le> 255" for v z
  proof -
    have "\<bar>val v * of_int z\<bar> \<le> 1 * of_int 255"
      unfolding abs_mult using that by (intro mult_mono) auto
    then have "of_int (-255) \<le> val v * of_int z" "val v * of_int z \<le> of_int 255" by (simp_all add: abs_le_iff)
    then show ?thesis
      using mk_bounded [OF fmt_ok_b32, of "-255" 255 "val v * of_int z"] that(1)
      by (cases v) (simp_all add: fmul_def)
  qed
  have "bx ! (t mod 9) \<in> set bx" "bys ! (t mod 9) \<in> set bys" using assms(1,2) by (auto simp: trig_table_def)
  then have tables: "is_fin (bx ! (t mod 9))" "\<bar>val (bx ! (t mod 9))\<bar> \<le> 1" "is_fin (bys ! (t mod 9))" "\<bar>val (bys ! (t mod 9))\<bar> \<le> 1"
    using assms(1,2) by (auto simp: trig_table_def)
  have "is_fin (addf (mulf (bx ! (t mod 9)) (Fin (of_int x))) (mulf (bys ! (t mod 9)) (Fin (of_int y))))"
    using fadd_bounded [OF fmt_ok_b32, of "-510" 510] prod [OF tables(1,2) assms(3)] prod [OF tables(3,4) assms(4)] by simp
  then show ?thesis unfolding component_def Let_def using val_fneg by (auto simp del: mod_less)
qed

text \<open>A running maximum, as both searches keep it.\<close>

lemma keep_larger:
  assumes "\<not> is_nan a" "\<not> is_nan b"
  shows "fle a (if flt a b then b else a) \<and> fle b (if flt a b then b else a) \<and> \<not> is_nan (if flt a b then b else a)"
  using assms not_flt [of a b] by (auto intro: flt_imp_fle)

lemma best_sector_spec:
  assumes tables: "trig_table bx" "trig_table bys" and "\<bar>x\<bar> \<le> 255" "\<bar>y\<bar> \<le> 255"
  shows "ok (best_sector bx bys (Fin (of_int x)) (Fin (of_int y))) (\<lambda>(mx, s). s < 18 \<and> mx = component bx bys x y s \<and>
    (\<forall>t < 18. fle (component bx bys x y t) mx))"
proof -
  let ?c = "component bx bys x y"
  let ?dot = "\<lambda>kk. addf (mulf (bx ! kk) (Fin (of_int x))) (mulf (bys ! kk) (Fin (of_int y)))"
  let ?step = "\<lambda>kk (mx, maxi). do {
       bx \<leftarrow> rd bx kk;
       by1 \<leftarrow> rd bys kk;
       let dotProd = addf (mulf bx (Fin (of_int x))) (mulf by1 (Fin (of_int y)));
       Some (if flt mx dotProd then (dotProd, kk)
             else if flt mx (fneg dotProd) then (fneg dotProd, kk + 9) else (mx, maxi)) }"
  have fin: "is_fin (?c t)" for t using component_fin [OF assms] .
  have dot: "?dot kk = ?c kk" "fneg (?c kk) = ?c (kk + 9)" "val (?c (kk + 9)) = - val (?c kk)" if "kk < 9" for kk
    using that val_fneg [OF fin [of kk]] by (simp_all add: component_def del: fadd.simps)
  have len: "kk < 9 \<Longrightarrow> kk < length bx \<and> kk < length bys" for kk using tables by (auto simp: trig_table_def)
  define new where "new kk = (\<lambda>(mx, s). if flt mx (?c kk) then (?c kk, kk)
      else if flt mx (?c (kk + 9)) then (?c (kk + 9), kk + 9) else (mx, s :: nat))" for kk
  have step: "?step kk p = Some (new kk p)" if "kk < 9" for kk p
    using that len [OF that] dot [OF that] by (cases p) (simp add: rd_Some new_def Let_def del: fadd.simps)
  let ?I = "\<lambda>n (mx, s). s < 18 \<and> mx = ?c s \<and> (n = 0 \<longrightarrow> s = 0) \<and> (\<forall>t < n. \<bar>val (?c t)\<bar> \<le> val mx)"
  have "ok (loop 9 ?step (?c 0, 0)) (?I 9)"
  proof (rule loop_ok)
    fix kk p assume kk: "kk < 9" and inv: "?I kk p"
    obtain mx s where p: "p = (mx, s)" by fastforce
    have start: "kk = 0 \<Longrightarrow> mx = ?c 0" and bound: "kk \<noteq> 0 \<Longrightarrow> 0 \<le> val mx" and mx: "is_fin mx"
      using inv fin by (auto simp: p intro: order_trans [OF abs_ge_zero])
    have less: "flt mx (?c t) \<longleftrightarrow> val mx < val (?c t)" for t using mx fin by (rule flt_fin)
    have "?I (Suc kk) (new kk p)"
      using inv kk start bound unfolding p new_def prod.case less dot(3) [OF kk]
      by (auto simp: less_Suc_eq abs_le_iff dot(3) [OF kk])
    then show "ok (?step kk p) (?I (Suc kk))" by (simp only: step [OF kk] ok_Some)
  qed simp
  moreover have "\<bar>val (?c (t mod 9))\<bar> = \<bar>val (?c t)\<bar>" if "t < 18" for t
  proof (cases "t < 9")
    case False
    then have "t mod 9 = t - 9" using that by (simp add: mod_if)
    then show ?thesis using dot(3) [of "t - 9"] False that by simp
  qed simp
  then have "fle (?c t) mx" if "\<forall>t < 9. \<bar>val (?c t)\<bar> \<le> val mx" "mx = ?c s" "t < 18" for t mx s
    using that(1) [rule_format, of "t mod 9"] that fin by (auto simp: fle_fin)
  ultimately have "ok (loop 9 ?step (?c 0, 0)) (\<lambda>(mx, s). s < 18 \<and> mx = ?c s \<and> (\<forall>t < 18. fle (?c t) mx))"
    by (auto elim!: ok_mono)
  then show ?thesis
    using len [of 0] dot(1) [of 0] by (simp add: best_sector_def rd_Some del: fadd.simps)
qed

lemma strongest_channel_spec:
  assumes rows: "\<And>ch. ch < 3 \<Longrightarrow> i * 3 + ch < length dx \<and> i * 3 + ch < length dy \<and>
      dx ! (i * 3 + ch) = Fin (of_int (X ch)) \<and> dy ! (i * 3 + ch) = Fin (of_int (Y ch)) \<and> \<bar>X ch\<bar> \<le> 255 \<and> \<bar>Y ch\<bar> \<le> 255"
  shows "ok (strongest_channel 3 dx dy i) (\<lambda>(r, x, y). \<exists>ch < 3. r = magnitude (X ch) (Y ch) \<and> x = Fin (of_int (X ch)) \<and>
    y = Fin (of_int (Y ch)) \<and> (\<forall>c < 3. fle (magnitude (X c) (Y c)) r))"
proof -
  let ?m = "\<lambda>ch. magnitude (X ch) (Y ch)"
  let ?step = "\<lambda>c (r, x, y). do {
       let ch = c + 1;
       tx \<leftarrow> rd dx (i * 3 + ch);
       ty \<leftarrow> rd dy (i * 3 + ch);
       let magnitude = sqrtf (addf (mulf tx tx) (mulf ty ty));
       Some (if flt r magnitude then (magnitude, tx, ty) else (r, x, y)) }"
  let ?I = "\<lambda>n (r, x, y). \<exists>ch < 3. r = ?m ch \<and> x = Fin (of_int (X ch)) \<and> y = Fin (of_int (Y ch)) \<and> (\<forall>c \<le> n. fle (?m c) r)"
  have nan: "\<not> is_nan (?m ch)" if "ch < 3" for ch using rows [OF that] by (intro magnitude_not_nan) auto
  have "ok (loop 2 ?step (?m 0, Fin (of_int (X 0)), Fin (of_int (Y 0)))) (?I 2)"
  proof (rule loop_ok)
    show "?I 0 (?m 0, Fin (of_int (X 0)), Fin (of_int (Y 0)))" using nan [of 0] by (auto intro!: exI [of _ 0])
  next
    fix c p assume c: "c < 2" and inv: "?I c p"
    then obtain r ch where p: "p = (r, Fin (of_int (X ch)), Fin (of_int (Y ch)))" "r = ?m ch" "ch < 3" "\<forall>c' \<le> c. fle (?m c') r"
      by (cases p) auto
    have c3: "Suc c < 3" using c by simp
    have step: "?step c p = Some (if flt r (?m (Suc c)) then (?m (Suc c), Fin (of_int (X (Suc c))), Fin (of_int (Y (Suc c)))) else p)"
      using rows [OF c3] by (simp add: p(1) rd_Some magnitude_def Let_def del: fadd.simps)
    have "?I (Suc c) (if flt r (?m (Suc c)) then (?m (Suc c), Fin (of_int (X (Suc c))), Fin (of_int (Y (Suc c)))) else p)"
    proof (cases "flt r (?m (Suc c))")
      case True
      then have "\<forall>c' \<le> Suc c. fle (?m c') (?m (Suc c))"
        using p(4) nan [OF c3] flt_imp_fle [OF True] by (auto simp: le_Suc_eq intro: fle_trans)
      then show ?thesis using True c3 by (auto intro!: exI [of _ "Suc c"])
    next
      case False
      then have "fle (?m (Suc c)) r" using not_flt nan [OF c3] nan [OF p(3)] p(2) by simp
      then show ?thesis using False p by (auto simp: le_Suc_eq)
    qed
    then show "ok (?step c p) (?I (Suc c))" by (simp only: step ok_Some)
  qed
  then have "ok (loop 2 ?step (?m 0, Fin (of_int (X 0)), Fin (of_int (Y 0)))) (\<lambda>(r, x, y). \<exists>ch < 3. r = ?m ch \<and>
      x = Fin (of_int (X ch)) \<and> y = Fin (of_int (Y ch)) \<and> (\<forall>c < 3. fle (?m c) r))"
    by (rule ok_mono) auto
  then show ?thesis
    using rows [of 0] by (simp add: strongest_channel_def rd_Some magnitude_def del: fadd.simps)
qed

definition filled :: "nat \<Rightarrow> nat \<Rightarrow> (nat \<Rightarrow> nat \<Rightarrow> ieee \<Rightarrow> nat \<Rightarrow> bool) \<Rightarrow> (nat \<times> nat) set \<Rightarrow> ieee list \<times> nat list \<Rightarrow> bool" where
  "filled h w Q S = (\<lambda>(r, alfa). length r = w * h \<and> length alfa = w * h * 2 \<and> S \<subseteq> {..<h} \<times> {..<w} \<and>
     (\<forall>(j, i) \<in> S. Q j i (r ! (j * w + i)) (alfa ! (j * w * 2 + i * 2 + 1)) \<and>
       alfa ! (j * w * 2 + i * 2) = alfa ! (j * w * 2 + i * 2 + 1) mod 9))"

lemma rows_filled_step:
  assumes "filled h w Q S (r, alfa)" and "(j, i) \<notin> S" "j < h" "i < w" and "Q j i m s"
  shows "j * w + i < length r" "j * w * 2 + i * 2 + 1 < length alfa"
    "filled h w Q (insert (j, i) S) (r[j * w + i := m], alfa[j * w * 2 + i * 2 := s mod 9, j * w * 2 + i * 2 + 1 := s])"
proof -
  have d: "j * w * 2 + i * 2 = (j * w + i) * 2" for j i by (simp add: algebra_simps)
  have "j * w + i < w * h" using index2_less [OF assms(3,4)] by (simp add: mult.commute)
  moreover have len: "length r = w * h" "length alfa = w * h * 2" using assms(1) by (simp_all add: filled_def)
  moreover have "x * 2 + 1 < n * 2" if "x < n" for x n :: nat using that by simp
  ultimately show r: "j * w + i < length r" and a: "j * w * 2 + i * 2 + 1 < length alfa"
    unfolding d len by blast+
  have other: "a * w + b \<noteq> j * w + i" if "(a, b) \<in> S" for a b
    using assms that index2_inj [of b w i a j] by (auto simp: filled_def)
  have odd: "x * 2 \<noteq> Suc (y * 2)" for x y :: nat by presburger
  define r' where "r' = r[j * w + i := m]"
  define alfa' where "alfa' = alfa[j * w * 2 + i * 2 := s mod 9, j * w * 2 + i * 2 + 1 := s]"
  have "insert (j, i) S \<subseteq> {..<h} \<times> {..<w}" using assms by (auto simp: filled_def)
  moreover have "Q x y (r' ! (x * w + y)) (alfa' ! (x * w * 2 + y * 2 + 1)) \<and>
      alfa' ! (x * w * 2 + y * 2) = alfa' ! (x * w * 2 + y * 2 + 1) mod 9"
    if "(x, y) \<in> insert (j, i) S" for x y
  proof (cases "(x, y) = (j, i)")
    case True
    then show ?thesis using assms(5) r a by (simp add: r'_def alfa'_def)
  next
    case False
    then have S: "(x, y) \<in> S" using that by blast
    then have "alfa' ! (x * w * 2 + y * 2) = alfa ! (x * w * 2 + y * 2)"
      "alfa' ! (x * w * 2 + y * 2 + 1) = alfa ! (x * w * 2 + y * 2 + 1)" "r' ! (x * w + y) = r ! (x * w + y)"
      unfolding d r'_def alfa'_def
      using other [OF S] odd [of "j * w + i" "x * w + y"] odd [of "x * w + y" "j * w + i"]
      by (metis Suc_eq_plus1 mult_cancel2 nat.inject nth_list_update_neq zero_neq_numeral)+
    then show ?thesis using assms(1) S by (auto simp: filled_def)
  qed
  moreover have "length r' = w * h" "length alfa' = w * h * 2" using len by (simp_all add: r'_def alfa'_def)
  ultimately have "filled h w Q (insert (j, i) S) (r', alfa')" unfolding filled_def prod.case by blast
  then show "filled h w Q (insert (j, i) S) (r[j * w + i := m], alfa[j * w * 2 + i * 2 := s mod 9, j * w * 2 + i * 2 + 1 := s])"
    by (simp only: r'_def alfa'_def)
qed

text \<open>The strongest channel decides, and of its gradient the direction of the largest component.\<close>

definition pixel_ok :: "ieee list \<Rightarrow> ieee list \<Rightarrow> (nat \<Rightarrow> int) \<Rightarrow> (nat \<Rightarrow> int) \<Rightarrow> ieee \<Rightarrow> nat \<Rightarrow> bool" where
  "pixel_ok bx bys X Y r s \<longleftrightarrow> (\<exists>ch < 3. r = magnitude (X ch) (Y ch) \<and> (\<forall>c < 3. fle (magnitude (X c) (Y c)) r) \<and>
     s < 18 \<and> (\<forall>t < 18. fle (component bx bys (X ch) (Y ch) t) (component bx bys (X ch) (Y ch) s)))"

lemma gradients_spec:
  fixes X Y :: "nat \<Rightarrow> nat \<Rightarrow> nat \<Rightarrow> int"
  assumes tables: "trig_table bx" "trig_table bys" and small: "\<And>ch j i. ch < 3 \<Longrightarrow> \<bar>X ch j i\<bar> \<le> 255 \<and> \<bar>Y ch j i\<bar> \<le> 255"
    and dx: "dx = merge_channels h w (D X 0) (D X 1) (D X 2)" and dy: "dy = merge_channels h w (D Y 0) (D Y 1) (D Y 2)"
    and D: "D = (\<lambda>Z ch. map (\<lambda>q. Fin (of_int (Z ch (q div w) (q mod w)))) [0..<h * w])"
    and len: "length r0 = w * h" "length a0 = w * h * 2"
  shows "ok (gradients bx bys 3 h w dx dy (r0, a0))
    (filled h w (\<lambda>j i. pixel_ok bx bys (\<lambda>ch. X ch j i) (\<lambda>ch. Y ch j i)) ({1..<h - 1} \<times> {1..<w - 1}))"
proof -
  let ?Q = "\<lambda>j i. pixel_ok bx bys (\<lambda>ch. X ch j i) (\<lambda>ch. Y ch j i)"
  let ?F = "filled h w ?Q"
  have at: "j < length dx \<and> j < length dy \<and> i * 3 + ch < length (dx ! j) \<and> i * 3 + ch < length (dy ! j) \<and>
      dx ! j ! (i * 3 + ch) = Fin (of_int (X ch j i)) \<and> dy ! j ! (i * 3 + ch) = Fin (of_int (Y ch j i))"
    if "j < h" "i < w" "ch < 3" for j i ch
  proof -
    have "j * w + i < h * w" using that by (intro index2_less)
    moreover have "[D Z 0, D Z 1, D Z 2] ! ch = D Z ch" for Z using that(3) by (auto simp: less_Suc_eq numeral_3_eq_3 numeral_2_eq_2)
    ultimately show ?thesis using merge_channels_nth [OF that] that(2) by (simp add: dx dy D)
  qed
  have pixel: "ok (do {
         (mag, x, y) \<leftarrow> strongest_channel 3 (dx ! j) (dy ! j) i;
         r \<leftarrow> wr r (j * w + i) mag;
         (_, maxi) \<leftarrow> best_sector bx bys x y;
         alfa \<leftarrow> wr alfa (j * w * 2 + i * 2) (maxi mod 9);
         alfa \<leftarrow> wr alfa (j * w * 2 + i * 2 + 1) maxi;
         Some (r, alfa) }) (?F (insert (j, i) S))"
    if F: "?F S (r, alfa)" "(j, i) \<notin> S" "j < h" "i < w" for j i S r alfa
  proof -
    have "ok (strongest_channel 3 (dx ! j) (dy ! j) i) (\<lambda>(m, x, y). \<exists>ch < 3. m = magnitude (X ch j i) (Y ch j i) \<and>
        x = Fin (of_int (X ch j i)) \<and> y = Fin (of_int (Y ch j i)) \<and> (\<forall>c < 3. fle (magnitude (X c j i) (Y c j i)) m))"
      by (rule strongest_channel_spec) (use at [OF F(3,4)] small in auto)
    then obtain ch where ch: "ch < 3" and strong: "strongest_channel 3 (dx ! j) (dy ! j) i =
        Some (magnitude (X ch j i) (Y ch j i), Fin (of_int (X ch j i)), Fin (of_int (Y ch j i)))"
        "\<forall>c < 3. fle (magnitude (X c j i) (Y c j i)) (magnitude (X ch j i) (Y ch j i))"
      by (auto elim!: okE)
    have "ok (best_sector bx bys (Fin (of_int (X ch j i))) (Fin (of_int (Y ch j i)))) (\<lambda>(mx, s). s < 18 \<and>
        mx = component bx bys (X ch j i) (Y ch j i) s \<and> (\<forall>t < 18. fle (component bx bys (X ch j i) (Y ch j i) t) mx))"
      by (rule best_sector_spec) (use tables small [OF ch] in auto)
    then obtain mx s where sector: "best_sector bx bys (Fin (of_int (X ch j i))) (Fin (of_int (Y ch j i))) = Some (mx, s)"
      "s < 18" "\<forall>t < 18. fle (component bx bys (X ch j i) (Y ch j i) t) (component bx bys (X ch j i) (Y ch j i) s)"
      by (auto elim!: okE)
    have "?Q j i (magnitude (X ch j i) (Y ch j i)) s" using ch strong sector by (auto simp: pixel_ok_def)
    note new = rows_filled_step [OF F this]
    then show ?thesis by (simp add: strong(1) sector(1) wr_Some)
  qed
  show ?thesis
    unfolding gradients_def
  proof (rule loop_wp [where I = "\<lambda>n. ?F ({1..<n + 1} \<times> {1..<w - 1})"])
    show "?F ({1..<0 + 1} \<times> {1..<w - 1}) (r0, a0)" using len by (simp add: filled_def)
  next
    fix j s assume j: "j < h - 2" and inv: "?F ({1..<j + 1} \<times> {1..<w - 1}) s"
    have row: "rd dx (j + 1) = Some (dx ! (j + 1)) \<and> rd dy (j + 1) = Some (dy ! (j + 1))"
      using j by (simp add: rd_Some dx dy merge_channels_def)
    have "ok (loop (w - 2) (\<lambda>i0 (r, alfa). do {
         let i = i0 + 1;
         (mag, x, y) \<leftarrow> strongest_channel 3 (dx ! (j + 1)) (dy ! (j + 1)) i;
         r \<leftarrow> wr r ((j + 1) * w + i) mag;
         (_, maxi) \<leftarrow> best_sector bx bys x y;
         alfa \<leftarrow> wr alfa ((j + 1) * w * 2 + i * 2) (maxi mod 9);
         alfa \<leftarrow> wr alfa ((j + 1) * w * 2 + i * 2 + 1) maxi;
         Some (r, alfa) }) s) (?F ({1..<j + 1} \<times> {1..<w - 1} \<union> {j + 1} \<times> {1..<(w - 2) + 1}))"
    proof (rule loop_ok [where I = "\<lambda>n. ?F ({1..<j + 1} \<times> {1..<w - 1} \<union> {j + 1} \<times> {1..<n + 1})"])
      fix i s assume i: "i < w - 2" and F: "?F ({1..<j + 1} \<times> {1..<w - 1} \<union> {j + 1} \<times> {1..<i + 1}) s"
      obtain r alfa where s: "s = (r, alfa)" by fastforce
      have "insert (j + 1, i + 1) ({1..<j + 1} \<times> {1..<w - 1} \<union> {j + 1} \<times> {1..<i + 1}) =
          {1..<j + 1} \<times> {1..<w - 1} \<union> {j + 1} \<times> {1..<Suc i + 1}" by auto
      moreover note pixel [OF F [unfolded s], of "j + 1" "i + 1"]
      ultimately show "ok (case s of (r, alfa) \<Rightarrow> do {
         let i = i + 1;
         (mag, x, y) \<leftarrow> strongest_channel 3 (dx ! (j + 1)) (dy ! (j + 1)) i;
         r \<leftarrow> wr r ((j + 1) * w + i) mag;
         (_, maxi) \<leftarrow> best_sector bx bys x y;
         alfa \<leftarrow> wr alfa ((j + 1) * w * 2 + i * 2) (maxi mod 9);
         alfa \<leftarrow> wr alfa ((j + 1) * w * 2 + i * 2 + 1) maxi;
         Some (r, alfa) }) (?F ({1..<j + 1} \<times> {1..<w - 1} \<union> {j + 1} \<times> {1..<Suc i + 1}))"
        using i j by (simp add: s Let_def)
    qed (use inv in simp)
    moreover have "{1..<j + 1} \<times> {1..<w - 1} \<union> {j + 1} \<times> {1..<(w - 2) + 1} = {1..<Suc j + 1} \<times> {1..<w - 1}" by auto
    ultimately show "ok (let j = j + 1 in rd dx j \<bind> (\<lambda>datadx. rd dy j \<bind> (\<lambda>datady.
      loop (w - 2) (\<lambda>i0 (r, alfa). do {
         let i = i0 + 1;
         (mag, x, y) \<leftarrow> strongest_channel 3 datadx datady i;
         r \<leftarrow> wr r (j * w + i) mag;
         (_, maxi) \<leftarrow> best_sector bx bys x y;
         alfa \<leftarrow> wr alfa (j * w * 2 + i * 2) (maxi mod 9);
         alfa \<leftarrow> wr alfa (j * w * 2 + i * 2 + 1) maxi;
         Some (r, alfa) }) s))) (?F ({1..<Suc j + 1} \<times> {1..<w - 1}))"
      by (simp only: Let_def row Option.bind.bind_lunit)
  next
    fix s assume "?F ({1..<(h - 2) + 1} \<times> {1..<w - 1}) s"
    moreover have "{1..<(h - 2) + 1} = {1..<h - 1}" by auto
    ultimately show "?F ({1..<h - 1} \<times> {1..<w - 1}) s" by simp
  qed
qed

section \<open>Votes in order\<close>

text \<open>A vote adds its weight to one entry of the map.\<close>

definition vote :: "ieee list \<Rightarrow> nat \<times> ieee \<Rightarrow> ieee list" where
  "vote m p = m[fst p := addf (m ! fst p) (snd p)]"

lemma length_votes [simp]: "length (foldl vote m vs) = length m"
  by (induction vs arbitrary: m) (simp_all add: vote_def)

lemma votes_nth:
  "e < length m \<Longrightarrow> foldl vote m vs ! e = foldl addf (m ! e) (map snd (filter (\<lambda>p. fst p = e) vs))"
  by (induction vs arbitrary: m) (auto simp: vote_def nth_list_update)

lemma loop_votes:
  assumes "\<And>i m. i < n \<Longrightarrow> length m = L \<Longrightarrow> f i m = Some (foldl vote m (g i))" and "length m = L"
  shows "loop n f m = Some (foldl vote m (concat (map g [0..<n])))"
  using assms by (induction n) simp_all

definition cell_votes :: "nat \<Rightarrow> nat \<Rightarrow> nat \<Rightarrow> nat \<Rightarrow> ieee \<Rightarrow> (nat \<times> ieee) list" where
  "cell_votes sx i j s v = [((i * sx + j) * 27 + s mod 9, v), ((i * sx + j) * 27 + 9 + s, v)]"

text \<open>The cells a pixel votes for, with the weights of its row and of its column.\<close>

definition pixel_votes :: "nat \<Rightarrow> nat \<Rightarrow> nat \<Rightarrow> (nat \<Rightarrow> nat \<Rightarrow> ieee) \<Rightarrow> (nat \<Rightarrow> nat \<Rightarrow> nat) \<Rightarrow> nat \<Rightarrow> nat \<Rightarrow> nat \<Rightarrow> nat \<Rightarrow> (nat \<times> ieee) list" where
  "pixel_votes k h w mag dir i j ii jj =
     (let y = i * k + ii; x = j * k + jj; sx = w div k; sy = h div k; W = weight_table k;
          i' = int i + nearest_table k ! ii; j' = int j + nearest_table k ! jj;
          v = (\<lambda>a b. mulf (mulf (mag y x) (W ! (ii * 2 + a))) (W ! (jj * 2 + b))) in
      if 0 < y \<and> y + 1 < h \<and> 0 < x \<and> x + 1 < w then
        cell_votes sx i j (dir y x) (v 0 0) @
        (if 0 \<le> i' \<and> i' < int sy then cell_votes sx (nat i') j (dir y x) (v 1 0) else []) @
        (if 0 \<le> j' \<and> j' < int sx then cell_votes sx i (nat j') (dir y x) (v 0 1) else []) @
        (if 0 \<le> i' \<and> i' < int sy \<and> 0 \<le> j' \<and> j' < int sx then cell_votes sx (nat i') (nat j') (dir y x) (v 1 1) else [])
      else [])"

definition image_votes :: "nat \<Rightarrow> nat \<Rightarrow> nat \<Rightarrow> (nat \<Rightarrow> nat \<Rightarrow> ieee) \<Rightarrow> (nat \<Rightarrow> nat \<Rightarrow> nat) \<Rightarrow> (nat \<times> ieee) list" where
  "image_votes k h w mag dir = concat (map (\<lambda>i. concat (map (\<lambda>j. concat (map (\<lambda>ii. concat (map
     (\<lambda>jj. pixel_votes k h w mag dir i j ii jj) [0..<k])) [0..<k])) [0..<w div k])) [0..<h div k])"

lemma vote_at_eq: "e < length m \<Longrightarrow> vote_at (int e) v m = Some (vote m (e, v))"
  by (simp add: vote_at_def rdz_def wrz_def rd_def wr_def vote_def)

lemma vote_cell_eq:
  assumes "i < sy" "j < sx" "s < 18" and len: "length m = sx * sy * 27"
  shows "vote_cell sx (int i) (int j) (s mod 9) s v m = Some (foldl vote m (cell_votes sx i j s v))"
proof -
  have cell: "i * sx + j < sy * sx" using assms by (intro index2_less)
  have "c * 27 + a < n * 27" if "c < n" "a < 27" for c n a :: nat using that by linarith
  note slot = this [OF cell]
  have in1: "(i * sx + j) * 27 + s mod 9 < length m" and in2: "(i * sx + j) * 27 + 9 + s < length m"
    using assms(3) slot [of "s mod 9"] slot [of "9 + s"] by (simp_all add: len mult.commute [of sx])
  have eq: "int i * (int sx * 27) + int j * 27 + int (s mod 9) = int ((i * sx + j) * 27 + s mod 9)"
    "int i * (int sx * 27) + int j * 27 + int s + 9 = int ((i * sx + j) * 27 + 9 + s)"
    by (simp_all add: algebra_simps)
  show ?thesis
    unfolding vote_cell_def eq vote_at_eq [OF in1] Option.bind.bind_lunit
    using vote_at_eq [of "(i * sx + j) * 27 + 9 + s" "vote m ((i * sx + j) * 27 + s mod 9, v)" v] in2
    by (simp add: cell_votes_def vote_def)
qed

lemma length_weight_table [simp]: "length (weight_table k) = 2 * k"
proof -
  have "length (weight_table k) = k * 2"
    unfolding weight_table_def by (rule length_concat_same) (simp add: weight_pair_def)
  then show ?thesis by simp
qed

lemma length_nearest_table [simp]: "length (nearest_table k) = k"
  by (simp add: nearest_table_def)

lemma vote_pixel_eq:
  assumes F: "filled h w Q ({1..<h - 1} \<times> {1..<w - 1}) (r, alfa)" and Q: "\<And>j i m s. Q j i m s \<Longrightarrow> s < 18"
    and i: "i < h div k" and j: "j < w div k" and ii: "ii < k" and jj: "jj < k" and len: "length m = (w div k) * (h div k) * 27"
  shows "vote_pixel k h w r alfa i j ii jj m = Some (foldl vote m
    (pixel_votes k h w (\<lambda>y x. r ! (y * w + x)) (\<lambda>y x. alfa ! (y * w * 2 + x * 2 + 1)) i j ii jj))"
proof (cases "0 < i * k + ii \<and> i * k + ii + 1 < h \<and> 0 < j * k + jj \<and> j * k + jj + 1 < w")
  case False
  then show ?thesis by (auto simp: vote_pixel_def pixel_votes_def Let_def)
next
  case True
  define y x where "y = i * k + ii" and "x = j * k + jj"
  define s where "s = alfa ! (y * w * 2 + x * 2 + 1)"
  have "0 < y" "y + 1 < h" "0 < x" "x + 1 < w" using True unfolding y_def x_def by blast+
  then have in_set: "(y, x) \<in> {1..<h - 1} \<times> {1..<w - 1}" by auto
  have both: "Q y x (r ! (y * w + x)) s \<and> alfa ! (y * w * 2 + x * 2) = s mod 9"
    using F in_set unfolding filled_def prod.case s_def by fastforce
  then have s: "s < 18" "alfa ! (y * w * 2 + x * 2) = s mod 9" using Q by blast+
  have lens: "length r = w * h" "length alfa = w * h * 2" using F by (simp_all add: filled_def)
  have d: "(k * i + ii) * w + (j * k + jj) = y * w + x" by (simp add: y_def x_def mult.commute)
  have "y * w + x < h * w" using True by (intro index2_less) (auto simp: y_def x_def)
  then have in_r: "y * w + x < length r" by (simp add: lens mult.commute)
  then have in_a: "(y * w + x) * 2 < length alfa" "(y * w + x) * 2 + 1 < length alfa" using lens by simp_all
  have d2: "(y * w + x) * 2 = y * w * 2 + x * 2" by (simp add: algebra_simps)
  have W: "ii * 2 < length (weight_table k)" "ii * 2 + 1 < length (weight_table k)"
    "jj * 2 < length (weight_table k)" "jj * 2 + 1 < length (weight_table k)" using ii jj by simp_all
  have cell: "vote_cell (w div k) a b (s mod 9) s v m = Some (foldl vote m (cell_votes (w div k) (nat a) (nat b) s v))"
    if "0 \<le> a" "a \<le> int (h div k) - 1" "0 \<le> b" "b \<le> int (w div k) - 1" "length m = (w div k) * (h div k) * 27" for a b v m
    using vote_cell_eq [of "nat a" "h div k" "nat b" "w div k" s m v] that s by simp
  have s': "alfa ! Suc (y * w * 2 + x * 2) = s" by (simp add: s_def)
  have own: "int i \<le> int (h div k) - 1" "int j \<le> int (w div k) - 1" using i j by simp_all
  have le: "a \<le> b - 1 \<longleftrightarrow> a < b" for a b :: int by linarith
  have reads: "rd alfa ((y * w + x) * 2) = Some (s mod 9)" "rd alfa ((y * w + x) * 2 + 1) = Some s" "rd r (y * w + x) = Some (r ! (y * w + x))"
    using in_a in_r s(2) by (simp_all only: rd_Some d2 s_def)
  show ?thesis
    unfolding vote_pixel_def pixel_votes_def Let_def d reads rd_Some [OF W(1)] rd_Some [OF W(2)] rd_Some [OF W(3)] rd_Some [OF W(4)]
      if_P [OF True] Option.bind.bind_lunit
    using True cell own len ii jj
    by (simp add: rd_Some le y_def [symmetric] x_def [symmetric] s' del: mult_Suc_right)
qed

lemma votes_of_image_eq:
  assumes "filled h w Q ({1..<h - 1} \<times> {1..<w - 1}) (r, alfa)" and "\<And>j i m s. Q j i m s \<Longrightarrow> s < 18"
    and len: "length m = (w div k) * (h div k) * 27"
  shows "votes_of_image k h w r alfa m = Some (foldl vote m
    (image_votes k h w (\<lambda>y x. r ! (y * w + x)) (\<lambda>y x. alfa ! (y * w * 2 + x * 2 + 1))))"
  unfolding votes_of_image_def image_votes_def
  by (intro loop_votes [OF _ len] loop_votes) (assumption | rule vote_pixel_eq assms)+

section \<open>The feature map as a whole\<close>

text \<open>
  C20: For an image of bytes with three channels, whatever the fresh arrays contain, the
  feature map is computed without leaving any buffer. It has one block of 27 entries per
  whole cell. Every inner pixel has the length of its strongest channel's gradient, taken
  as the exact central differences of the image with replicated border, and the one of
  18 directions in which that gradient is largest; and each entry of the map is the sum,
  in the order of the pixels, of the weights with which they vote for it.
\<close>

theorem getFeatureMaps_spec:
  assumes img: "image_ok raw ws h w" and k: "0 < k" and junk: "(h + 2) * (w + 2) \<le> length junk"
    and work: "w * h \<le> length r0" "w * h * 2 \<le> length a0"
    and tables: "trig_table (boundary cosf pi_f)" "trig_table (boundary sinf pi_f)"
  shows "\<exists>m mag dir. getFeatureMaps cosf sinf pi_f (True, True) junk (r0, a0) raw ws h w 3 k =
      Some (0, Some \<lparr>sizeX = int (w div k), sizeY = int (h div k), numFeatures = 27, fmap = m\<rparr>) \<and>
    length m = (w div k) * (h div k) * 27 \<and>
    (\<forall>y \<in> {1..<h - 1}. \<forall>x \<in> {1..<w - 1}. pixel_ok (boundary cosf pi_f) (boundary sinf pi_f)
      (\<lambda>ch. central_x raw ws h w ch y x) (\<lambda>ch. central_y raw ws h w ch y x) (mag y x) (dir y x)) \<and>
    (\<forall>e < length m. m ! e = foldl addf (Fin 0) (map snd (filter (\<lambda>p. fst p = e) (image_votes k h w mag dir))))"
proof -
  let ?D = "\<lambda>Z ch. map (\<lambda>q. Fin (of_int (Z ch (q div w) (q mod w)))) [0..<h * w]"
  let ?X = "central_x raw ws h w" and ?Y = "central_y raw ws h w"
  let ?dx = "merge_channels h w (?D ?X 0) (?D ?X 1) (?D ?X 2)" and ?dy = "merge_channels h w (?D ?Y 0) (?D ?Y 1) (?D ?Y 2)"
  let ?Q = "\<lambda>j i. pixel_ok (boundary cosf pi_f) (boundary sinf pi_f) (\<lambda>ch. ?X ch j i) (\<lambda>ch. ?Y ch j i)"
  have ch: "channel_gradients junk raw ws h w c = Some (?D ?X c, ?D ?Y c)" if "c < 3" for c
    using channel_gradients_eq [OF img that junk] .
  have "ok (gradients (boundary cosf pi_f) (boundary sinf pi_f) 3 h w ?dx ?dy (take (w * h) r0, take (w * h * 2) a0))
      (filled h w ?Q ({1..<h - 1} \<times> {1..<w - 1}))"
    by (rule gradients_spec [OF tables _ refl refl refl]) (use central_bounds [OF img] work in \<open>auto simp: min_def\<close>)
  then obtain r alfa where grad: "gradients (boundary cosf pi_f) (boundary sinf pi_f) 3 h w ?dx ?dy
      (take (w * h) r0, take (w * h * 2) a0) = Some (r, alfa)" "filled h w ?Q ({1..<h - 1} \<times> {1..<w - 1}) (r, alfa)"
    by (auto elim!: okE)
  let ?mag = "\<lambda>y x. r ! (y * w + x)" and ?dir = "\<lambda>y x. alfa ! (y * w * 2 + x * 2 + 1)"
  let ?start = "replicate ((w div k) * (h div k) * 27) (Fin 0)"
  let ?m = "foldl vote ?start (image_votes k h w ?mag ?dir)"
  have "votes_of_image k h w r alfa ?start = Some ?m"
    by (rule votes_of_image_eq [OF grad(2)]) (auto simp: pixel_ok_def)
  then have run: "getFeatureMaps cosf sinf pi_f (True, True) junk (r0, a0) raw ws h w 3 k =
      Some (0, Some \<lparr>sizeX = int (w div k), sizeY = int (h div k), numFeatures = 27, fmap = ?m\<rparr>)"
    using k ch [of 0] ch [of 1] ch [of 2] grad(1) by (simp add: getFeatureMaps_def allocFeatureMapObject_def)
  have "\<forall>y \<in> {1..<h - 1}. \<forall>x \<in> {1..<w - 1}. ?Q y x (?mag y x) (?dir y x)"
    using grad(2) unfolding filled_def prod.case by fast
  moreover have "?m ! e = foldl addf (Fin 0) (map snd (filter (\<lambda>p. fst p = e) (image_votes k h w ?mag ?dir)))"
    if "e < length ?m" for e
    using that by (simp add: votes_nth)
  ultimately show ?thesis using run by (intro exI [of _ ?m] exI [of _ ?mag] exI [of _ ?dir]) simp
qed

theorem getFeatureMaps_spec_witness:
  "\<exists>m. getFeatureMaps (\<lambda>_. Fin 1) (\<lambda>_. Fin 0) (Fin 3) (True, True) (replicate 25 NaN) (replicate 9 NaN, replicate 18 0)
      (replicate 27 7) 9 3 3 3 3 = Some (0, Some \<lparr>sizeX = 1, sizeY = 1, numFeatures = 27, fmap = m\<rparr>) \<and> length m = 27"
proof -
  have "image_ok (replicate 27 7) 9 3 3" by (simp add: image_ok_def)
  moreover have "trig_table (boundary (\<lambda>_. Fin 1) (Fin 3))" "trig_table (boundary (\<lambda>_. Fin 0) (Fin 3))"
    by (auto simp: trig_table_def boundary_def)
  ultimately show ?thesis
    using getFeatureMaps_spec [of "replicate 27 7" 9 3 3 3 "replicate 25 NaN" "replicate 9 NaN" "replicate 18 0"
        "\<lambda>_. Fin 1" "Fin 3" "\<lambda>_. Fin 0"] by auto
qed

end
