(* ===== verification/Hog_Descriptor.thy ===== *)
theory Hog_Descriptor
  imports Hog
begin

text \<open>
  The second half of \<open>video_analytics_example/fhog.cpp\<close>: the votes of a cell are divided by
  the energy of the four blocks it belongs to and cut off, which gives 108 features per
  inner cell, and these are summed to 31. The sizes are machine integers that may become
  negative; \<open>malloc\<close> of a negative size fails, that of another one as its flag says.
\<close>

section \<open>Operations\<close>

definition malloc :: "bool \<Rightarrow> int \<Rightarrow> ieee \<Rightarrow> ieee list option" where
  "malloc mem n v = (if mem \<and> 0 \<le> n then Some (replicate (nat n) v) else None)"

definition FLT_EPSILON :: ieee where
  "FLT_EPSILON = Fin (1 / 8388608)"

definition cell_norm :: "ieee list \<Rightarrow> nat \<Rightarrow> ieee option" where
  "cell_norm m p = loop 9 (\<lambda>j valOfNorm. do {
     x \<leftarrow> rd m (p + j);
     Some (addf valOfNorm (mulf x x)) }) (Fin 0)"

text \<open>The energy of the block of four cells that reaches from \<open>(i, j)\<close> to \<open>(i', j')\<close>.\<close>

definition block_norm :: "ieee list \<Rightarrow> nat \<Rightarrow> nat \<Rightarrow> nat \<Rightarrow> nat \<Rightarrow> nat \<Rightarrow> ieee option" where
  "block_norm partOfNorm sx i j i' j' = do {
     a \<leftarrow> rd partOfNorm (i * (sx + 2) + j);
     b \<leftarrow> rd partOfNorm (i * (sx + 2) + j');
     c \<leftarrow> rd partOfNorm (i' * (sx + 2) + j);
     d \<leftarrow> rd partOfNorm (i' * (sx + 2) + j');
     Some (addf (sqrtf (addf (addf (addf a b) c) d)) FLT_EPSILON) }"

text \<open>The features of one of the four blocks.\<close>

definition write_block :: "ieee list \<Rightarrow> nat \<Rightarrow> nat \<Rightarrow> nat \<Rightarrow> ieee \<Rightarrow> ieee list \<Rightarrow> ieee list option" where
  "write_block m pos1 pos2 q valOfNorm newData = do {
     newData \<leftarrow> loop 9 (\<lambda>ii newData. do {
       x \<leftarrow> rd m (pos1 + ii);
       wr newData (pos2 + 9 * q + ii) (divf x valOfNorm) }) newData;
     loop 18 (\<lambda>ii newData. do {
       x \<leftarrow> rd m (pos1 + ii + 9);
       wr newData (pos2 + 9 * (4 + 2 * q) + ii) (divf x valOfNorm) }) newData }"

definition normalize_cell :: "ieee list \<Rightarrow> ieee list \<Rightarrow> nat \<Rightarrow> nat \<Rightarrow> nat \<Rightarrow> ieee list \<Rightarrow> ieee list option" where
  "normalize_cell m partOfNorm sx i j newData =
     (let pos1 = i * (sx + 2) * 27 + j * 27; pos2 = (i - 1) * sx * 108 + (j - 1) * 108 in do {
        valOfNorm \<leftarrow> block_norm partOfNorm sx i j (i + 1) (j + 1);
        newData \<leftarrow> write_block m pos1 pos2 0 valOfNorm newData;
        valOfNorm \<leftarrow> block_norm partOfNorm sx i j (i - 1) (j + 1);
        newData \<leftarrow> write_block m pos1 pos2 1 valOfNorm newData;
        valOfNorm \<leftarrow> block_norm partOfNorm sx i j (i + 1) (j - 1);
        newData \<leftarrow> write_block m pos1 pos2 2 valOfNorm newData;
        valOfNorm \<leftarrow> block_norm partOfNorm sx i j (i - 1) (j - 1);
        write_block m pos1 pos2 3 valOfNorm newData })"

definition normalizeAndTruncate_orig :: "bool \<times> bool \<Rightarrow> feature_map \<Rightarrow> ieee \<Rightarrow> (int \<times> feature_map) option" where
  "normalizeAndTruncate_orig mem fm alfa =
     (case malloc (fst mem) (sizeX fm * sizeY fm) (Fin 0) of None \<Rightarrow> Some (-1, fm)
      | Some partOfNorm \<Rightarrow> do {
          partOfNorm \<leftarrow> loop (nat (sizeX fm * sizeY fm)) (\<lambda>i partOfNorm. do {
            valOfNorm \<leftarrow> cell_norm (fmap fm) (i * numFeatures fm);
            wr partOfNorm i valOfNorm }) partOfNorm;
          let sx = sizeX fm - 2;
          let sy = sizeY fm - 2;
          case malloc (snd mem) (sx * sy * 108) (Fin 0) of None \<Rightarrow> Some (-1, fm)
          | Some newData \<Rightarrow> do {
              newData \<leftarrow> loop (nat sy) (\<lambda>i. loop (nat sx) (\<lambda>j.
                normalize_cell (fmap fm) partOfNorm (nat sx) (i + 1) (j + 1))) newData;
              newData \<leftarrow> loop (nat (sx * sy * 108)) (\<lambda>i newData. do {
                x \<leftarrow> rd newData i;
                if flt alfa x then wr newData i alfa else Some newData }) newData;
              Some (0, fm\<lparr>numFeatures := 108, sizeX := sx, sizeY := sy, fmap := newData\<rparr>)
            } })"

text \<open>The sums of one cell; the running index \<open>k\<close> of the source is the position written.\<close>

definition pca_cell :: "ieee list \<Rightarrow> ieee \<Rightarrow> ieee \<Rightarrow> nat \<Rightarrow> nat \<Rightarrow> ieee list \<Rightarrow> ieee list option" where
  "pca_cell m nx ny pos1 pos2 newData = do {
     newData \<leftarrow> loop 18 (\<lambda>jj newData. do {
       val \<leftarrow> loop 4 (\<lambda>ii val. do { x \<leftarrow> rd m (pos1 + 4 * 9 + ii * 9 * 2 + jj); Some (addf val x) }) (Fin 0);
       wr newData (pos2 + jj) (mulf val ny) }) newData;
     newData \<leftarrow> loop 9 (\<lambda>jj newData. do {
       val \<leftarrow> loop 4 (\<lambda>ii val. do { x \<leftarrow> rd m (pos1 + ii * 9 + jj); Some (addf val x) }) (Fin 0);
       wr newData (pos2 + 18 + jj) (mulf val ny) }) newData;
     loop 4 (\<lambda>ii newData. do {
       val \<leftarrow> loop 18 (\<lambda>jj val. do { x \<leftarrow> rd m (pos1 + 4 * 9 + ii * 9 * 2 + jj); Some (addf val x) }) (Fin 0);
       wr newData (pos2 + 27 + ii) (mulf val nx) }) newData }"

definition PCAFeatureMaps :: "bool \<Rightarrow> ieee \<Rightarrow> feature_map \<Rightarrow> (int \<times> feature_map) option" where
  "PCAFeatureMaps mem junk fm =
     (let p = numFeatures fm;
          nx = divf (Fin 1) (sqrtf (n2f (9 * 2)));
          ny = divf (Fin 1) (sqrtf (n2f 4)) in
      case malloc mem (sizeX fm * sizeY fm * 31) junk of None \<Rightarrow> Some (-1, fm)
      | Some newData \<Rightarrow> do {
          newData \<leftarrow> loop (nat (sizeY fm)) (\<lambda>i. loop (nat (sizeX fm)) (\<lambda>j.
            pca_cell (fmap fm) nx ny ((i * nat (sizeX fm) + j) * p) ((i * nat (sizeX fm) + j) * 31))) newData;
          Some (0, fm\<lparr>numFeatures := 31, fmap := newData\<rparr>) })"

text \<open>\<open>freeFeatureMapObject\<close>; its \<open>Ext\<close> variant frees nothing.\<close>

definition freeFeatureMapObject :: "feature_map option \<Rightarrow> int \<times> feature_map option" where
  "freeFeatureMapObject obj = (if obj = None then (2, None) else (0, None))"

definition freeFeatureMapObjectExt :: "feature_map option \<Rightarrow> int \<times> feature_map option" where
  "freeFeatureMapObjectExt obj = (0, obj)"

section \<open>What a cell becomes\<close>

text \<open>Energy of a cell, and the features of the cell \<open>(i, j)\<close> of the reduced map.\<close>

definition energy :: "ieee list \<Rightarrow> nat \<Rightarrow> ieee" where
  "energy m c = foldl addf (Fin 0) (map (\<lambda>j. mulf (m ! (c * 27 + j)) (m ! (c * 27 + j))) [0..<9])"

definition block_energy :: "ieee list \<Rightarrow> nat \<Rightarrow> nat \<Rightarrow> nat \<Rightarrow> nat \<Rightarrow> ieee" where
  "block_energy m X i j q =
     (let i' = (if even q then i + 2 else i); j' = (if q < 2 then j + 2 else j);
          E = (\<lambda>a b. energy m (a * X + b)) in
      addf (sqrtf (addf (addf (addf (E (i + 1) (j + 1)) (E (i + 1) j')) (E i' (j + 1))) (E i' j'))) FLT_EPSILON)"

definition block_of :: "nat \<Rightarrow> nat" where
  "block_of f = (if f < 36 then f div 9 else (f - 36) div 18)"

definition vote_of :: "nat \<Rightarrow> nat" where
  "vote_of f = (if f < 36 then f mod 9 else 9 + (f - 36) mod 18)"

definition normalized_feature :: "ieee list \<Rightarrow> nat \<Rightarrow> nat \<Rightarrow> nat \<Rightarrow> nat \<Rightarrow> ieee" where
  "normalized_feature m X i j f =
     divf (m ! (((i + 1) * X + (j + 1)) * 27 + vote_of f)) (block_energy m X i j (block_of f))"

definition cut_off :: "ieee \<Rightarrow> ieee \<Rightarrow> ieee" where
  "cut_off alfa x = (if flt alfa x then alfa else x)"

definition compressed_feature :: "(nat \<Rightarrow> ieee) \<Rightarrow> nat \<Rightarrow> ieee" where
  "compressed_feature g k =
     (let nx = divf (Fin 1) (sqrtf (n2f 18)); ny = divf (Fin 1) (sqrtf (n2f 4)) in
      if k < 18 then mulf (foldl addf (Fin 0) (map (\<lambda>ii. g (36 + ii * 18 + k)) [0..<4])) ny
      else if k < 27 then mulf (foldl addf (Fin 0) (map (\<lambda>ii. g (ii * 9 + (k - 18))) [0..<4])) ny
      else mulf (foldl addf (Fin 0) (map (\<lambda>jj. g (36 + (k - 27) * 18 + jj)) [0..<18])) nx)"

lemma loop_sum:
  assumes "\<And>j. j < n \<Longrightarrow> f j < length m"
  shows "loop n (\<lambda>j v. do { x \<leftarrow> rd m (f j); Some (addf v (g x)) }) a = Some (foldl addf a (map (\<lambda>j. g (m ! f j)) [0..<n]))"
  using assms by (induction n) (simp_all add: rd_Some)

lemma cell_norm_eq: "(c + 1) * 27 \<le> length m \<Longrightarrow> cell_norm m (c * 27) = Some (energy m c)"
  unfolding cell_norm_def energy_def by (rule loop_sum) simp

lemma write_block_eq:
  assumes "pos1 + 27 \<le> length m" and "pos2 + 108 \<le> length xs" and "q < 4"
  shows "write_block m pos1 pos2 q v xs = Some (put (put xs (pos2 + 9 * q) (map (\<lambda>k. divf (m ! (pos1 + k)) v) [0..<9]))
    (pos2 + 36 + 18 * q) (map (\<lambda>k. divf (m ! (pos1 + (9 + k))) v) [0..<18]))"
proof -
  have 1: "loop 9 (\<lambda>ii newData. do { x \<leftarrow> rd m (pos1 + ii); wr newData (pos2 + 9 * q + ii) (divf x v) }) xs =
      Some (put xs (pos2 + 9 * q) (map (\<lambda>k. divf (m ! (pos1 + k)) v) [0..<9]))"
    by (rule loop_wr [where L = "length xs"]) (use assms in \<open>simp_all add: rd_Some wr_Some\<close>)
  let ?ys = "put xs (pos2 + 9 * q) (map (\<lambda>k. divf (m ! (pos1 + k)) v) [0..<9])"
  have 2: "loop 18 (\<lambda>ii newData. do { x \<leftarrow> rd m (pos1 + ii + 9); wr newData (pos2 + 9 * (4 + 2 * q) + ii) (divf x v) }) ?ys =
      Some (put ?ys (pos2 + 9 * (4 + 2 * q)) (map (\<lambda>k. divf (m ! (pos1 + (9 + k))) v) [0..<18]))"
    by (rule loop_wr [where L = "length xs"]) (use assms in \<open>simp_all add: rd_Some wr_Some add_ac\<close>)
  show ?thesis unfolding write_block_def 1 Option.bind.bind_lunit 2 by (simp add: algebra_simps)
qed

text \<open>The features of the first \<open>q\<close> blocks are in place.\<close>

definition blocks_done :: "(nat \<Rightarrow> ieee) \<Rightarrow> nat \<Rightarrow> nat \<Rightarrow> ieee list \<Rightarrow> ieee list \<Rightarrow> bool" where
  "blocks_done g p q xs ys \<longleftrightarrow> length ys = length xs \<and>
     (\<forall>k. ys ! k = (if p \<le> k \<and> k < p + 108 \<and> block_of (k - p) < q then g (k - p) else xs ! k))"

lemma div_eq_bounds: "0 < n \<Longrightarrow> f div n = q \<longleftrightarrow> n * q \<le> f \<and> f < n * q + (n :: nat)"
  using div_times_less_eq_dividend [of f n] dividend_less_div_times [of n f]
  by (auto simp: mult.commute intro: div_nat_eqI)

lemma block_of_eq: "f < 108 \<Longrightarrow> q < 4 \<Longrightarrow> block_of f = q \<longleftrightarrow> 9 * q \<le> f \<and> f < 9 * q + 9 \<or> 36 + 18 * q \<le> f \<and> f < 36 + 18 * q + 18"
  by (cases "f < 36") (auto simp: block_of_def div_eq_bounds)

lemma vote_of_eq: "q < 4 \<Longrightarrow> k < 9 \<Longrightarrow> vote_of (9 * q + k) = k" "k < 18 \<Longrightarrow> vote_of (36 + 18 * q + k) = 9 + k"
  by (auto simp: vote_of_def)

lemma block_step:
  assumes "blocks_done g p q xs ys" and room: "p + 108 \<le> length xs" and q: "q < 4"
    and g: "\<And>f. f < 108 \<Longrightarrow> block_of f = q \<Longrightarrow> g f = divf (m ! (pos1 + vote_of f)) v"
  shows "blocks_done g p (q + 1) xs (put (put ys (p + 9 * q) (map (\<lambda>k. divf (m ! (pos1 + k)) v) [0..<9]))
    (p + 36 + 18 * q) (map (\<lambda>k. divf (m ! (pos1 + (9 + k))) v) [0..<18]))"
    (is "blocks_done _ _ _ _ ?zs")
proof -
  have len: "length ys = length xs" using assms(1) by (simp add: blocks_done_def)
  have "?zs ! k = (if p \<le> k \<and> k < p + 108 \<and> block_of (k - p) < q + 1 then g (k - p) else xs ! k)" for k
  proof -
    have old: "ys ! k = (if p \<le> k \<and> k < p + 108 \<and> block_of (k - p) < q then g (k - p) else xs ! k)"
      using assms(1) by (simp add: blocks_done_def)
    consider (early) "p + 9 * q \<le> k" "k < p + 9 * q + 9" | (late) "p + 36 + 18 * q \<le> k" "k < p + 36 + 18 * q + 18"
      | (other) "\<not> (p + 9 * q \<le> k \<and> k < p + 9 * q + 9)" "\<not> (p + 36 + 18 * q \<le> k \<and> k < p + 36 + 18 * q + 18)" by blast
    then show ?thesis
    proof cases
      case early
      define f where "f = k - (p + 9 * q)"
      have f: "k = p + (9 * q + f)" "f < 9" using early by (auto simp: f_def)
      have "block_of (9 * q + f) = q" using block_of_eq [of "9 * q + f" q] f q by simp
      then show ?thesis using g [of "9 * q + f"] f q room len vote_of_eq(1) [OF q f(2)] by (simp add: nth_put_if)
    next
      case late
      define f where "f = k - (p + 36 + 18 * q)"
      have f: "k = p + (36 + 18 * q + f)" "f < 18" using late by (auto simp: f_def)
      have "block_of (36 + 18 * q + f) = q" using block_of_eq [of "36 + 18 * q + f" q] f q by simp
      then show ?thesis using g [of "36 + 18 * q + f"] f q room len vote_of_eq(2) [OF f(2), of q] by (simp add: nth_put_if)
    next
      case other
      then have "block_of (k - p) \<noteq> q" if "p \<le> k" "k < p + 108"
        using block_of_eq [of "k - p" q] q that by auto
      then have "block_of (k - p) < q + 1 \<longleftrightarrow> block_of (k - p) < q" if "p \<le> k" "k < p + 108" using that by auto
      moreover have "?zs ! k = ys ! k" using other q room len by (auto simp: nth_put_if)
      ultimately show ?thesis using old by auto
    qed
  qed
  then show ?thesis using q room len by (simp add: blocks_done_def)
qed

lemma normalize_cell_eq:
  assumes X: "X = sx + 2" and i: "i + 2 < Y" and j: "j < sx" and m: "length m = X * Y * 27"
    and P: "length P = X * Y" "\<And>c. c < X * Y \<Longrightarrow> P ! c = energy m c" and xs: "length xs = sx * (Y - 2) * 108"
  shows "normalize_cell m P sx (i + 1) (j + 1) xs =
    Some (put xs ((i * sx + j) * 108) (map (normalized_feature m X i j) [0..<108]))"
proof -
  let ?p = "(i * sx + j) * 108" and ?pos1 = "((i + 1) * X + (j + 1)) * 27"
  have P_at: "rd P (a * (sx + 2) + b) = Some (energy m (a * X + b))" if "a \<le> i + 2" "b \<le> j + 2" for a b
  proof -
    have "a * X + b < Y * X" using that i j X by (intro index2_less) auto
    then show ?thesis using P by (simp add: rd_Some X mult.commute)
  qed
  have at: "block_norm P sx a b a' b' = Some (addf (sqrtf (addf (addf (addf (energy m (a * X + b)) (energy m (a * X + b')))
      (energy m (a' * X + b))) (energy m (a' * X + b')))) FLT_EPSILON)"
    if "a \<le> i + 2" "b \<le> j + 2" "a' \<le> i + 2" "b' \<le> j + 2" for a b a' b'
    unfolding block_norm_def using that by (simp only: P_at Option.bind.bind_lunit)
  have idx1: "i + 1 + 1 = i + 2" "j + 1 + 1 = j + 2" "i + 1 - 1 = i" "j + 1 - 1 = j" by simp_all
  have norms: "block_norm P sx (i + 1) (j + 1) (i + 2) (j + 2) = Some (block_energy m X i j 0)"
    "block_norm P sx (i + 1) (j + 1) i (j + 2) = Some (block_energy m X i j 1)"
    "block_norm P sx (i + 1) (j + 1) (i + 2) j = Some (block_energy m X i j 2)"
    "block_norm P sx (i + 1) (j + 1) i j = Some (block_energy m X i j 3)"
    unfolding block_energy_def Let_def by (subst at; simp)+
  have "i < Y - 2" using i by simp
  then have cell: "(i * sx + j) + 1 \<le> sx * (Y - 2)" using index2_less [of i "Y - 2" j sx] j by (simp add: mult.commute)
  have room: "?p + 108 \<le> length xs" using mult_le_mono1 [OF cell, of 108] xs by simp
  have src: "((i + 1) * X + (j + 1)) + 1 \<le> X * Y" using index2_less [of "i + 1" Y "j + 1" X] i j X by (simp add: mult.commute)
  have room1: "?pos1 + 27 \<le> length m" using mult_le_mono1 [OF src, of 27] m by simp
  have idx: "(i + 1) * (sx + 2) * 27 + (j + 1) * 27 = ?pos1" "i * sx * 108 + j * 108 = ?p"
    by (simp_all add: X algebra_simps)
  define w where "w q xs = put (put xs (?p + 9 * q) (map (\<lambda>k. divf (m ! (?pos1 + k)) (block_energy m X i j q)) [0..<9]))
    (?p + 36 + 18 * q) (map (\<lambda>k. divf (m ! (?pos1 + (9 + k))) (block_energy m X i j q)) [0..<18])" for q xs
  have len: "length (w q ys) = length xs" if "q < 4" "length ys = length xs" for q ys
    using that room by (simp add: w_def)
  have wb: "write_block m ?pos1 ?p q (block_energy m X i j q) ys = Some (w q ys)" if "q < 4" "length ys = length xs" for q ys
    unfolding w_def by (rule write_block_eq) (use room1 room that in auto)
  have next_block: "blocks_done (normalized_feature m X i j) ?p (q + 1) xs (w q ys)"
    if "q < 4" "blocks_done (normalized_feature m X i j) ?p q xs ys" for q ys
    unfolding w_def by (rule block_step [OF that(2) room that(1)]) (simp add: normalized_feature_def)
  have start: "blocks_done (normalized_feature m X i j) ?p 0 xs xs" by (simp add: blocks_done_def)
  define ys where "ys = w 3 (w 2 (w 1 (w 0 xs)))"
  have steps: "write_block m ?pos1 ?p 0 (block_energy m X i j 0) xs = Some (w 0 xs)"
    "write_block m ?pos1 ?p 1 (block_energy m X i j 1) (w 0 xs) = Some (w 1 (w 0 xs))"
    "write_block m ?pos1 ?p 2 (block_energy m X i j 2) (w 1 (w 0 xs)) = Some (w 2 (w 1 (w 0 xs)))"
    "write_block m ?pos1 ?p 3 (block_energy m X i j 3) (w 2 (w 1 (w 0 xs))) = Some ys"
    unfolding ys_def by (rule wb; simp add: len)+
  have "normalize_cell m P sx (i + 1) (j + 1) xs = Some ys"
    unfolding normalize_cell_def Let_def idx1 idx norms Option.bind.bind_lunit steps ..
  moreover have "ys = put xs ?p (map (normalized_feature m X i j) [0..<108])"
  proof (rule nth_equalityI)
    have sum4: "0 + 1 = (1::nat)" "1 + 1 = (2::nat)" "2 + 1 = (3::nat)" "3 + 1 = (4::nat)" by simp_all
    have all: "blocks_done (normalized_feature m X i j) ?p 4 xs ys"
      unfolding ys_def
      using next_block [OF _ next_block [OF _ next_block [OF _ next_block [OF _ start]]], unfolded sum4] by simp
    then show "length ys = length (put xs ?p (map (normalized_feature m X i j) [0..<108]))"
      using room by (simp add: blocks_done_def)
    have "block_of f < 4" if "f < 108" for f using that by (auto simp: block_of_def)
    then show "ys ! k = put xs ?p (map (normalized_feature m X i j) [0..<108]) ! k" for k
      using all room by (auto simp: blocks_done_def nth_put_if)
  qed
  ultimately show ?thesis by simp
qed

lemma pca_cell_eq:
  assumes m: "pos1 + 108 \<le> length m" and room: "pos2 + 31 \<le> length xs"
  shows "pca_cell m (divf (Fin 1) (sqrtf (n2f 18))) (divf (Fin 1) (sqrtf (n2f 4))) pos1 pos2 xs =
    Some (put xs pos2 (map (compressed_feature (\<lambda>f. m ! (pos1 + f))) [0..<31]))"
proof -
  let ?g = "compressed_feature (\<lambda>f. m ! (pos1 + f))"
  let ?nx = "divf (Fin 1) (sqrtf (n2f 18))" and ?ny = "divf (Fin 1) (sqrtf (n2f 4))"
  let ?ys = "put xs pos2 (map ?g [0..<18])" and ?zs = "put xs pos2 (map ?g [0..<27])"
  have idx: "pos1 + 4 * 9 + ii * 9 * 2 + jj = pos1 + (36 + ii * 18 + jj)" for ii jj by simp
  have sum1: "loop 4 (\<lambda>ii val. do { x \<leftarrow> rd m (pos1 + (36 + ii * 18 + jj)); Some (addf val x) }) (Fin 0) =
      Some (foldl addf (Fin 0) (map (\<lambda>ii. m ! (pos1 + (36 + ii * 18 + jj))) [0..<4]))" if "jj < 18" for jj
    by (rule loop_sum [where g = "\<lambda>x. x"]) (use that m in auto)
  have sum2: "loop 4 (\<lambda>ii val. do { x \<leftarrow> rd m (pos1 + ii * 9 + jj); Some (addf val x) }) (Fin 0) =
      Some (foldl addf (Fin 0) (map (\<lambda>ii. m ! (pos1 + (ii * 9 + jj))) [0..<4]))" if "jj < 9" for jj
    unfolding add.assoc by (rule loop_sum [where g = "\<lambda>x. x"]) (use that m in auto)
  have sum3: "loop 18 (\<lambda>jj val. do { x \<leftarrow> rd m (pos1 + (36 + ii * 18 + jj)); Some (addf val x) }) (Fin 0) =
      Some (foldl addf (Fin 0) (map (\<lambda>jj. m ! (pos1 + (36 + ii * 18 + jj))) [0..<18]))" if "ii < 4" for ii
    by (rule loop_sum [where g = "\<lambda>x. x"]) (use that m in auto)
  have 1: "loop 18 (\<lambda>jj newData. do {
       val \<leftarrow> loop 4 (\<lambda>ii val. do { x \<leftarrow> rd m (pos1 + (36 + ii * 18 + jj)); Some (addf val x) }) (Fin 0);
       wr newData (pos2 + jj) (mulf val ?ny) }) xs = Some ?ys"
    by (rule loop_wr [where L = "length xs"]) (use room sum1 in \<open>simp_all add: wr_Some compressed_feature_def\<close>)
  have 2: "loop 9 (\<lambda>jj newData. do {
       val \<leftarrow> loop 4 (\<lambda>ii val. do { x \<leftarrow> rd m (pos1 + ii * 9 + jj); Some (addf val x) }) (Fin 0);
       wr newData (pos2 + 18 + jj) (mulf val ?ny) }) ?ys = Some (put ?ys (pos2 + 18) (map (\<lambda>k. ?g (18 + k)) [0..<9]))"
    by (rule loop_wr [where L = "length xs"]) (use room sum2 in \<open>simp_all add: wr_Some compressed_feature_def\<close>)
  have 3: "loop 4 (\<lambda>ii newData. do {
       val \<leftarrow> loop 18 (\<lambda>jj val. do { x \<leftarrow> rd m (pos1 + (36 + ii * 18 + jj)); Some (addf val x) }) (Fin 0);
       wr newData (pos2 + 27 + ii) (mulf val ?nx) }) ?zs = Some (put ?zs (pos2 + 27) (map (\<lambda>k. ?g (27 + k)) [0..<4]))"
    by (rule loop_wr [where L = "length xs"]) (use room sum3 in \<open>simp_all add: wr_Some compressed_feature_def\<close>)
  have split: "map ?g [0..<n] @ map (\<lambda>k. ?g (n + k)) [0..<k] = map ?g [0..<n + k]" for n k
    by (rule nth_equalityI) (auto simp: nth_append)
  have app: "put (put xs pos2 (map ?g [0..<n])) (pos2 + n) (map (\<lambda>k. ?g (n + k)) [0..<k]) = put xs pos2 (map ?g [0..<n + k])"
    if "n + k \<le> 31" for n k
    using put_app [of pos2 "map ?g [0..<n]" "map (\<lambda>k. ?g (n + k)) [0..<k]" xs] that room by (simp only: split) simp
  have "put ?ys (pos2 + 18) (map (\<lambda>k. ?g (18 + k)) [0..<9]) = ?zs" "put ?zs (pos2 + 27) (map (\<lambda>k. ?g (27 + k)) [0..<4]) = put xs pos2 (map ?g [0..<31])"
    using app [of 18 9] app [of 27 4] by simp_all
  then show ?thesis unfolding pca_cell_def idx 1 Option.bind.bind_lunit 2 by (simp only: 3)
qed

lemma loop_cut_off:
  "loop (length xs) (\<lambda>i d. do { x \<leftarrow> rd d i; if flt alfa x then wr d i alfa else Some d }) xs = Some (map (cut_off alfa) xs)"
proof -
  have "ok (loop (length xs) (\<lambda>i d. do { x \<leftarrow> rd d i; if flt alfa x then wr d i alfa else Some d }) xs)
      (\<lambda>d. d = map (cut_off alfa) (take (length xs) xs) @ drop (length xs) xs)"
  proof (rule loop_ok)
    fix i d assume i: "i < length xs" and d: "d = map (cut_off alfa) (take i xs) @ drop i xs"
    have "drop i xs = xs ! i # drop (Suc i) xs" using i by (simp add: Cons_nth_drop_Suc)
    then show "ok (do { x \<leftarrow> rd d i; if flt alfa x then wr d i alfa else Some d })
        (\<lambda>d. d = map (cut_off alfa) (take (Suc i) xs) @ drop (Suc i) xs)"
      using i by (simp add: d wp nth_append list_update_append take_Suc_conv_app_nth cut_off_def)
  qed simp
  then show ?thesis by (auto simp: ok_iff_ex)
qed

text \<open>The two reduced maps, entry by entry.\<close>

definition normalized_map :: "ieee \<Rightarrow> ieee list \<Rightarrow> nat \<Rightarrow> nat \<Rightarrow> ieee list" where
  "normalized_map alfa m X Y = map (\<lambda>e. cut_off alfa (normalized_feature m X (e div 108 div (X - 2)) (e div 108 mod (X - 2)) (e mod 108)))
     [0..<(Y - 2) * (X - 2) * 108]"

definition compressed_map :: "ieee list \<Rightarrow> nat \<Rightarrow> ieee list" where
  "compressed_map n cells = map (\<lambda>e. compressed_feature (\<lambda>f. n ! (e div 31 * 108 + f)) (e mod 31)) [0..<cells * 31]"

lemma normalize_eq:
  assumes X: "2 \<le> X" and Y: "2 \<le> Y" and m: "length m = X * Y * 27"
  shows "normalizeAndTruncate_orig (True, True) \<lparr>sizeX = int X, sizeY = int Y, numFeatures = 27, fmap = m\<rparr> alfa =
    Some (0, \<lparr>sizeX = int (X - 2), sizeY = int (Y - 2), numFeatures = 108, fmap = normalized_map alfa m X Y\<rparr>)"
proof -
  let ?sx = "X - 2" and ?sy = "Y - 2"
  let ?P = "map (energy m) [0..<X * Y]"
  have norms: "loop (X * Y) (\<lambda>i P. do { valOfNorm \<leftarrow> cell_norm m (i * 27); wr P i valOfNorm }) (replicate (X * Y) (Fin 0)) = Some ?P"
  proof -
    have "loop (X * Y) (\<lambda>i P. do { valOfNorm \<leftarrow> cell_norm m (i * 27); wr P i valOfNorm }) (replicate (X * Y) (Fin 0)) =
        Some (put (replicate (X * Y) (Fin 0)) 0 ?P)"
    proof (rule loop_wr [where L = "X * Y"])
      fix c and P :: "ieee list" assume c: "c < X * Y" and P: "length P = X * Y"
      have "(c + 1) * 27 \<le> length m" using c m by simp
      then show "(do { valOfNorm \<leftarrow> cell_norm m (c * 27); wr P c valOfNorm }) = Some (P[0 + c := energy m c])"
        using c P by (simp add: cell_norm_eq wr_Some)
    qed simp_all
    then show ?thesis by (simp add: put_all)
  qed
  have cells: "loop ?sy (\<lambda>i. loop ?sx (\<lambda>j. normalize_cell m ?P ?sx (i + 1) (j + 1))) (replicate (?sy * ?sx * 108) (Fin 0)) =
      Some (map (\<lambda>e. normalized_feature m X (e div 108 div ?sx) (e div 108 mod ?sx) (e mod 108)) [0..<?sy * ?sx * 108])"
  proof -
    have "loop (?sy * ?sx) (\<lambda>c. normalize_cell m ?P ?sx (c div ?sx + 1) (c mod ?sx + 1)) (replicate (?sy * ?sx * 108) (Fin 0)) =
        Some (put (replicate (?sy * ?sx * 108) (Fin 0)) 0 (concat (map (\<lambda>c. map (normalized_feature m X (c div ?sx) (c mod ?sx)) [0..<108]) [0..<?sy * ?sx])))"
    proof (rule loop_put [where n = 108 and L = "?sy * ?sx * 108"])
      fix c and xs :: "ieee list" assume c: "c < ?sy * ?sx" and xs: "length xs = ?sy * ?sx * 108"
      have "0 < ?sx" using c by (cases "?sx = 0") auto
      then have "c div ?sx < ?sy" "c mod ?sx < ?sx" using c by (auto simp: less_mult_imp_div_less)
      moreover have "c div ?sx * ?sx + c mod ?sx = c" by (rule div_mult_mod_eq)
      ultimately show "normalize_cell m ?P ?sx (c div ?sx + 1) (c mod ?sx + 1) xs =
          Some (put xs (0 + c * 108) (map (normalized_feature m X (c div ?sx) (c mod ?sx)) [0..<108]))"
        using normalize_cell_eq [of X ?sx "c div ?sx" Y "c mod ?sx" m ?P xs] X Y m xs by (simp add: mult.commute)
    qed simp_all
    then show ?thesis unfolding loop_div_mod by (simp add: concat_map_upt put_all)
  qed
  have alloc: "malloc True (int X * int Y) (Fin 0) = Some (replicate (X * Y) (Fin 0))"
    "malloc True ((int X - 2) * (int Y - 2) * 108) (Fin 0) = Some (replicate (?sy * ?sx * 108) (Fin 0))"
    "nat (int X * int Y) = X * Y" "nat (int Y - 2) = ?sy" "nat (int X - 2) = ?sx"
    "nat ((int X - 2) * (int Y - 2) * 108) = ?sy * ?sx * 108" "int X - 2 = int ?sx" "int Y - 2 = int ?sy"
    using X Y by (simp_all add: malloc_def nat_mult_distrib nat_diff_distrib mult.commute)
  let ?n = "map (\<lambda>e. normalized_feature m X (e div 108 div ?sx) (e div 108 mod ?sx) (e mod 108)) [0..<?sy * ?sx * 108]"
  have cut: "loop (?sy * ?sx * 108) (\<lambda>i d. do { x \<leftarrow> rd d i; if flt alfa x then wr d i alfa else Some d }) ?n =
      Some (normalized_map alfa m X Y)"
    using loop_cut_off [of ?n alfa] by (simp add: normalized_map_def comp_def)
  show ?thesis
    unfolding normalizeAndTruncate_orig_def Let_def
    by (simp add: alloc(1-6) norms cells [simplified] cut) (simp add: alloc(7,8))
qed

lemma pca_eq:
  assumes n: "length n = Y * X * 108"
  shows "PCAFeatureMaps True junk \<lparr>sizeX = int X, sizeY = int Y, numFeatures = 108, fmap = n\<rparr> =
    Some (0, \<lparr>sizeX = int X, sizeY = int Y, numFeatures = 31, fmap = compressed_map n (Y * X)\<rparr>)"
proof -
  let ?nx = "divf (Fin 1) (sqrtf (n2f 18))" and ?ny = "divf (Fin 1) (sqrtf (n2f 4))"
  have cells: "loop Y (\<lambda>i. loop X (\<lambda>j. pca_cell n ?nx ?ny ((i * X + j) * 108) ((i * X + j) * 31))) (replicate (Y * X * 31) junk) =
      Some (compressed_map n (Y * X))"
  proof -
    have "loop (Y * X) (\<lambda>c. pca_cell n ?nx ?ny (c * 108) (c * 31)) (replicate (Y * X * 31) junk) =
        Some (put (replicate (Y * X * 31) junk) 0 (concat (map (\<lambda>c. map (compressed_feature (\<lambda>f. n ! (c * 108 + f))) [0..<31]) [0..<Y * X])))"
    proof (rule loop_put [where n = 31 and L = "Y * X * 31"])
      fix c and xs :: "ieee list" assume c: "c < Y * X" and xs: "length xs = Y * X * 31"
      have "(c + 1) * 108 \<le> length n" "(c + 1) * 31 \<le> length xs" using c n xs by simp_all
      then show "pca_cell n ?nx ?ny (c * 108) (c * 31) xs =
          Some (put xs (0 + c * 31) (map (compressed_feature (\<lambda>f. n ! (c * 108 + f))) [0..<31]))"
        by (simp only: add_0) (rule pca_cell_eq; simp)
    qed simp_all
    then show ?thesis unfolding loop_div_mod by (simp add: concat_map_upt put_all compressed_map_def)
  qed
  have "malloc True (int X * int Y * 31) junk = Some (replicate (Y * X * 31) junk)"
    by (simp add: malloc_def nat_mult_distrib mult.commute)
  then show ?thesis unfolding PCAFeatureMaps_def Let_def by (simp add: cells [simplified])
qed

text \<open>
  C28: The descriptor of a feature map of at least two by two cells: normalisation and
  compression stay inside their arrays and succeed when memory is there. The result has
  31 features for every cell that is not on the border; they are the scaled sums of the
  108 votes of the cell, each divided by the energy of one of the four blocks around the
  cell and cut off at the limit.
\<close>

theorem descriptor_spec:
  assumes "2 \<le> X" and "2 \<le> Y" and "length m = X * Y * 27"
  shows "\<exists>fm. normalizeAndTruncate_orig (True, True) \<lparr>sizeX = int X, sizeY = int Y, numFeatures = 27, fmap = m\<rparr> alfa = Some (0, fm) \<and>
    PCAFeatureMaps True junk fm = Some (0, \<lparr>sizeX = int (X - 2), sizeY = int (Y - 2), numFeatures = 31,
      fmap = compressed_map (normalized_map alfa m X Y) ((Y - 2) * (X - 2))\<rparr>)"
  unfolding normalize_eq [OF assms]
  using pca_eq [of "normalized_map alfa m X Y" "Y - 2" "X - 2" junk] by (simp add: normalized_map_def)

theorem descriptor_spec_witness:
  "\<exists>fm. normalizeAndTruncate_orig (True, True) \<lparr>sizeX = int 3, sizeY = int 3, numFeatures = 27, fmap = replicate 243 (Fin 0)\<rparr> (Fin 1) = Some (0, fm) \<and>
    PCAFeatureMaps True NaN fm = Some (0, \<lparr>sizeX = int 1, sizeY = int 1, numFeatures = 31,
      fmap = compressed_map (normalized_map (Fin 1) (replicate 243 (Fin 0)) 3 3) 1\<rparr>)"
  using descriptor_spec [of 3 3 "replicate 243 (Fin 0)" "Fin 1" NaN] by simp

text \<open>A map one cell wide and at least three high is refused, and stays as it is.\<close>

lemma normalize_narrow:
  assumes "sizeX fm = 1" and "3 \<le> sizeY fm" and "numFeatures fm = 27" and "27 * sizeY fm \<le> int (length (fmap fm))"
  shows "normalizeAndTruncate_orig (True, True) fm alfa = Some (-1, fm)"
proof -
  define Y where "Y = nat (sizeY fm)"
  have Y: "sizeY fm = int Y" using assms(2) by (simp add: Y_def)
  have "\<exists>P. loop Y (\<lambda>i P. do { valOfNorm \<leftarrow> cell_norm (fmap fm) (i * 27); wr P i valOfNorm }) (replicate Y (Fin 0)) = Some P"
  proof -
    have "ok (loop Y (\<lambda>i P. do { valOfNorm \<leftarrow> cell_norm (fmap fm) (i * 27); wr P i valOfNorm }) (replicate Y (Fin 0))) (\<lambda>P. length P = Y)"
    proof (rule loop_ok [where I = "\<lambda>_ P. length P = Y"])
      fix i and P :: "ieee list" assume "i < Y" "length P = Y"
      moreover have "(i + 1) * 27 \<le> length (fmap fm)" using \<open>i < Y\<close> assms(4) Y by simp
      ultimately show "ok (do { valOfNorm \<leftarrow> cell_norm (fmap fm) (i * 27); wr P i valOfNorm }) (\<lambda>P. length P = Y)"
        by (simp add: cell_norm_eq wp)
    qed simp
    then show ?thesis by (auto simp: ok_iff_ex)
  qed
  then obtain P where "loop Y (\<lambda>i P. do { valOfNorm \<leftarrow> cell_norm (fmap fm) (i * 27); wr P i valOfNorm }) (replicate Y (Fin 0)) = Some P" by blast
  moreover have "malloc True ((1 - 2) * (int Y - 2) * 108) (Fin 0) = None"
    using assms(2) Y by (simp add: malloc_def)
  ultimately show ?thesis
    using assms(1,2,3) by (simp add: normalizeAndTruncate_orig_def Y malloc_def Let_def)
qed

end
