(* ===== verification/Tracker.thy ===== *)
theory Tracker
  imports Ieee
begin

text \<open>
  The region arithmetic of the tracker (\<open>video_analytics_example/kcftracker.cpp\<close>): the search
  window around a region, the displacement read off the response of the correlation
  filter, and the new region.

  The features, the correlation and the training run on the GPU and in OpenCV. They are the
  record \<open>cv_lib\<close>: functions on a state \<open>'l\<close> of their own, whose answers the code uses as
  they are. Regions are integers, and every conversion of a float to an integer must be in
  range. The constants are those the constructor sets.
\<close>

section \<open>The tracker and its library\<close>

record rect =
  rx :: int
  ry :: int
  rw :: int
  rh :: int

record kcf =
  roi :: rect
  tmpl_w :: int
  tmpl_h :: int
  scale :: ieee

record ('l, 'f) cv_lib =
  cv_features :: "bool \<Rightarrow> nat \<Rightarrow> rect \<Rightarrow> int \<Rightarrow> int \<Rightarrow> int \<Rightarrow> int \<Rightarrow> 'l \<Rightarrow> 'f \<times> 'l"
  cv_patch :: "'l \<Rightarrow> int \<times> int"
  cv_response :: "'l \<Rightarrow> 'f \<Rightarrow> ieee list list"
  cv_peak :: "ieee list list \<Rightarrow> nat \<times> nat \<times> ieee"
  cv_init :: "'f \<Rightarrow> ieee list list \<Rightarrow> 'l \<Rightarrow> 'l"
  cv_train :: "'f \<Rightarrow> ieee \<Rightarrow> 'l \<Rightarrow> 'l"
  cv_exp :: "ieee \<Rightarrow> ieee"

definition cell_size :: int where "cell_size = 4"
definition template_size :: int where "template_size = 96"
definition padding :: ieee where "padding = Fin (5/2)"
definition output_sigma_factor :: ieee where "output_sigma_factor = Fin (1/8)"
definition interp_factor :: ieee where "interp_factor = cvt b32 (mk b64 False (12/1000))"

section \<open>The window\<close>

definition fit_template :: "rect \<Rightarrow> kcf \<Rightarrow> kcf option" where
  "fit_template r t = do {
     padded_w \<leftarrow> to_int (mulf (i2f (rw r)) padding);
     padded_h \<leftarrow> to_int (mulf (i2f (rh r)) padding);
     t \<leftarrow> (if template_size > 1 then do {
         let sc = (if padded_w \<ge> padded_h then divf (i2f padded_w) (i2f template_size)
           else divf (i2f padded_h) (i2f template_size));
         w \<leftarrow> to_int (divf (i2f padded_w) sc);
         h \<leftarrow> to_int (divf (i2f padded_h) sc);
         Some (t\<lparr>scale := sc, tmpl_w := w, tmpl_h := h\<rparr>)
       } else Some (t\<lparr>scale := Fin 1, tmpl_w := padded_w, tmpl_h := padded_h\<rparr>));
     let round = (\<lambda>n. (n div (2 * cell_size)) * 2 * cell_size + cell_size * 2);
     Some (t\<lparr>tmpl_w := round (tmpl_w t), tmpl_h := round (tmpl_h t)\<rparr>) }"

definition getFeatures ::
    "('l, 'f) cv_lib \<Rightarrow> nat \<Rightarrow> bool \<Rightarrow> ieee \<Rightarrow> int \<Rightarrow> int \<Rightarrow> kcf \<times> 'l \<Rightarrow> ('f \<times> kcf \<times> 'l) option" where
  "getFeatures lib surface inithann scale_adjust rawWidth rawHeight = (\<lambda>(t, l). do {
     let cx = i2f (rx (roi t) + rw (roi t) div 2);
     let cy = i2f (ry (roi t) + rh (roi t) div 2);
     t \<leftarrow> (if inithann then fit_template (roi t) t else Some t);
     w \<leftarrow> to_int (mulf (mulf scale_adjust (scale t)) (i2f (tmpl_w t)));
     h \<leftarrow> to_int (mulf (mulf scale_adjust (scale t)) (i2f (tmpl_h t)));
     x \<leftarrow> to_int (subf cx (i2f (w div 2)));
     y \<leftarrow> to_int (subf cy (i2f (h div 2)));
     let (f, l) = cv_features lib inithann surface \<lparr>rx = x, ry = y, rw = w, rh = h\<rparr>
       rawWidth rawHeight (tmpl_w t) (tmpl_h t) l;
     Some (f, t, l) })"

definition createGaussianPeak :: "('l, 'f) cv_lib \<Rightarrow> int \<Rightarrow> int \<Rightarrow> ieee list list" where
  "createGaussianPeak lib sizey sizex =
     (let syh = sizey div 2; sxh = sizex div 2;
          output_sigma = mulf (divf (fsqrt b32 (mulf (i2f sizex) (i2f sizey))) padding) output_sigma_factor;
          mult = cvt b32 (divd (Fin (-1/2)) (cvt b64 (mulf output_sigma output_sigma))) in
      map (\<lambda>i. map (\<lambda>j. let ih = int i - syh; jh = int j - sxh in
        cv_exp lib (mulf mult (i2f (ih * ih + jh * jh)))) [0..<nat sizex]) [0..<nat sizey])"

section \<open>The displacement\<close>

definition subPixelPeak :: "ieee \<Rightarrow> ieee \<Rightarrow> ieee \<Rightarrow> ieee" where
  "subPixelPeak left center right =
     (let divisor = subf (subf (mulf (Fin 2) center) right) left in
      if feq divisor (Fin 0) then Fin 0
      else cvt b32 (divd (muld (Fin (1/2)) (cvt b64 (subf right left))) (cvt b64 divisor)))"

definition res_at :: "ieee list list \<Rightarrow> int \<Rightarrow> int \<Rightarrow> ieee option" where
  "res_at res y x = do { row \<leftarrow> rdz res y; rdz row x }"

definition detect :: "('l, 'f) cv_lib \<Rightarrow> 'l \<Rightarrow> 'f \<Rightarrow> (ieee \<times> ieee) option" where
  "detect lib l x =
     (let res = cv_response lib l x; rows = int (length res); cols = (if res = [] then 0 else int (length (hd res)));
          (px, py, pv) = cv_peak lib res; peak_value = cvt b32 pv; px = int px; py = int py in do {
        p_x \<leftarrow> (if 0 < px \<and> px < cols - 1 then do {
            left \<leftarrow> res_at res py (px - 1);
            right \<leftarrow> res_at res py (px + 1);
            Some (addf (i2f px) (subPixelPeak left peak_value right)) } else Some (i2f px));
        p_y \<leftarrow> (if 0 < py \<and> py < rows - 1 then do {
            left \<leftarrow> res_at res (py - 1) px;
            right \<leftarrow> res_at res (py + 1) px;
            Some (addf (i2f py) (subPixelPeak left peak_value right)) } else Some (i2f py));
        Some (subf p_x (i2f (cols div 2)), subf p_y (i2f (rows div 2))) })"

section \<open>Initialisation and update\<close>

text \<open>A region of negative size fails an assertion.\<close>

definition init :: "('l, 'f) cv_lib \<Rightarrow> rect \<Rightarrow> nat \<Rightarrow> int \<Rightarrow> int \<Rightarrow> kcf \<times> 'l \<Rightarrow> (kcf \<times> 'l) option" where
  "init lib r surface width height = (\<lambda>(t, l).
     if \<not> (rw r \<ge> 0 \<and> rh r \<ge> 0) then None else do {
       (f, t, l) \<leftarrow> getFeatures lib surface True (Fin 1) width height (t\<lparr>roi := r\<rparr>, l);
       let (sy, sx) = cv_patch lib l;
       let l = cv_init lib f (createGaussianPeak lib sy sx) l;
       Some (t, cv_train lib f (Fin 1) l) })"

definition enter_frame :: "int \<Rightarrow> int \<Rightarrow> rect \<Rightarrow> rect" where
  "enter_frame width height r =
     (let r = (if rx r + rw r \<le> 0 then r\<lparr>rx := - rw r + 1\<rparr> else r);
          r = (if ry r + rh r \<le> 0 then r\<lparr>ry := - rh r + 1\<rparr> else r);
          r = (if rx r \<ge> width - 1 then r\<lparr>rx := width - 2\<rparr> else r) in
      if ry r \<ge> height - 1 then r\<lparr>ry := height - 2\<rparr> else r)"

definition leave_frame :: "int \<Rightarrow> int \<Rightarrow> rect \<Rightarrow> rect" where
  "leave_frame width height r =
     (let r = (if rx r \<ge> width - 1 then r\<lparr>rx := width - 1\<rparr> else r);
          r = (if ry r \<ge> height - 1 then r\<lparr>ry := height - 1\<rparr> else r);
          r = (if rx r + rw r \<le> 0 then r\<lparr>rx := - rw r + 2\<rparr> else r) in
      if ry r + rh r \<le> 0 then r\<lparr>ry := - rh r + 2\<rparr> else r)"

text \<open>One coordinate of the new region, from the old centre and the displacement.\<close>

definition moved :: "int \<Rightarrow> int \<Rightarrow> ieee \<Rightarrow> ieee \<Rightarrow> int option" where
  "moved x w res sc =
     (let c = addf (i2f x) (divf (i2f w) (Fin 2)) in
      to_int (addf (subf c (divf (i2f w) (Fin 2))) (mulf (mulf res (i2f cell_size)) sc)))"

definition update :: "('l, 'f) cv_lib \<Rightarrow> nat \<Rightarrow> int \<Rightarrow> int \<Rightarrow> kcf \<times> 'l \<Rightarrow> (rect \<times> kcf \<times> 'l) option" where
  "update lib surface width height = (\<lambda>(t, l). do {
     let r = enter_frame width height (roi t);
     (f, t, l) \<leftarrow> getFeatures lib surface False (Fin 1) width height (t\<lparr>roi := r\<rparr>, l);
     (res_x, res_y) \<leftarrow> detect lib l f;
     x \<leftarrow> moved (rx r) (rw r) res_x (scale t);
     y \<leftarrow> moved (ry r) (rh r) res_y (scale t);
     let r = leave_frame width height (r\<lparr>rx := x, ry := y\<rparr>);
     if \<not> (rw r \<ge> 0 \<and> rh r \<ge> 0) then None else do {
       (f, t, l) \<leftarrow> getFeatures lib surface False (Fin 1) width height (t\<lparr>roi := r\<rparr>, l);
       Some (r, t, cv_train lib f interp_factor l) } })"

text \<open>The tracker of a stream: one call of \<open>init\<close>, then one \<open>update\<close> for every frame.\<close>

primrec follow :: "('l, 'f) cv_lib \<Rightarrow> int \<Rightarrow> int \<Rightarrow> nat list \<Rightarrow> kcf \<times> 'l \<Rightarrow> (rect list \<times> kcf \<times> 'l) option" where
  "follow lib width height [] s = Some ([], s)"
| "follow lib width height (surface # surfaces) s = do {
     (r, s) \<leftarrow> update lib surface width height s;
     (rs, s) \<leftarrow> follow lib width height surfaces s;
     Some (r # rs, s) }"

section \<open>Conversions stay in range\<close>

lemma i2f_fin: "\<bar>i\<bar> < 2 ^ 24 \<Longrightarrow> is_fin (i2f i) \<and> val (i2f i) = of_int i"
  by (simp add: i2f_exact)

text \<open>The scale of the window: at most 256, and such that the template has at most 200 pixels.\<close>

lemma fit_template_ok:
  assumes w: "1 \<le> rw r" "rw r \<le> 8192" and h: "1 \<le> rh r" "rh r \<le> 8192"
  shows "ok (fit_template r t) (\<lambda>t'. roi t' = roi t \<and> is_fin (scale t') \<and> 0 \<le> val (scale t') \<and> val (scale t') \<le> 256 \<and>
    8 \<le> tmpl_w t' \<and> tmpl_w t' \<le> 200 \<and> 8 \<le> tmpl_h t' \<and> tmpl_h t' \<le> 200)"
proof -
  have pad: "\<exists>p. to_int (mulf (i2f n) padding) = Some p \<and> 2 \<le> p \<and> p \<le> 24576" if "1 \<le> n" "n \<le> 8192" for n
  proof -
    have "is_fin (mulf (i2f n) padding) \<and> of_int 2 \<le> val (mulf (i2f n) padding) \<and> val (mulf (i2f n) padding) \<le> of_int 24576"
      by (rule fmul_bounded) (use that i2f_fin [of n] in \<open>simp_all add: padding_def\<close>)
    then show ?thesis using to_int_bounded [of "mulf (i2f n) padding" 2 24576] by auto
  qed
  obtain pw ph where pw: "to_int (mulf (i2f (rw r)) padding) = Some pw" "2 \<le> pw" "pw \<le> 24576"
    and ph: "to_int (mulf (i2f (rh r)) padding) = Some ph" "2 \<le> ph" "ph \<le> 24576"
    using pad [OF w] pad [OF h] by blast
  define M where "M = max pw ph"
  define sc where "sc = divf (i2f M) (i2f template_size)"
  have M: "2 \<le> M" "M \<le> 24576" "pw \<le> M" "ph \<le> M" using pw ph by (auto simp: M_def)
  have top: "is_fin sc \<and> of_int 0 \<le> val sc \<and> val sc \<le> of_int 256"
    unfolding sc_def
    by (rule fdiv_bounded) (use M i2f_fin [of M] i2f_fin [of 96] in \<open>simp_all add: template_size_def divide_le_eq\<close>)
  have low: "of_int M / 192 \<le> val sc"
  proof -
    have "sc = mk b32 False (of_int M / 96)"
      using M i2f_exact [of M] i2f_exact [of 96] by (simp add: sc_def template_size_def fdiv_def)
    moreover have "of_int M / 96 / 2 \<le> rnd b32 (of_int M / 96)"
    proof (rule rnd_half)
      have "(2::rat) powi emin b32 \<le> 2 powi (- 10)" by (intro powi2_le) (simp add: b32_def)
      also have "\<dots> \<le> of_int M / 96" using M(1) by (simp add: power_int_minus field_simps)
      finally show "2 powi emin b32 \<le> rat_of_int M / 96" .
    qed simp
    moreover have "0 < rat_of_int M" using M(1) by simp
    ultimately show ?thesis using top by (auto simp: mk_def Let_def split: if_splits)
  qed
  have fit: "\<exists>n. to_int (divf (i2f p) sc) = Some n \<and> 0 \<le> n \<and> n \<le> 192" if "2 \<le> p" "p \<le> M" for p
  proof -
    have "0 < rat_of_int M / 192" using M(1) by simp
    then have "0 < val sc" using low by linarith
    moreover have "of_int p \<le> 192 * val sc"
    proof -
      have "of_int p \<le> rat_of_int M" using that by simp
      then show ?thesis using low by linarith
    qed
    ultimately have "is_fin (divf (i2f p) sc) \<and> of_int 0 \<le> val (divf (i2f p) sc) \<and> val (divf (i2f p) sc) \<le> of_int 192"
      using that M i2f_fin [of p] top by (intro fdiv_bounded) (simp_all add: divide_le_eq)
    then show ?thesis using to_int_bounded [of "divf (i2f p) sc" 0 192] by auto
  qed
  obtain a b where a: "to_int (divf (i2f pw) sc) = Some a" "0 \<le> a" "a \<le> 192" and b: "to_int (divf (i2f ph) sc) = Some b" "0 \<le> b" "b \<le> 192"
    using fit [OF pw(2) M(3)] fit [OF ph(2) M(4)] by blast
  have pick: "(if pw \<ge> ph then divf (i2f pw) (i2f template_size) else divf (i2f ph) (i2f template_size)) = sc"
    by (auto simp: sc_def M_def max_def)
  have "0 \<le> c div 8 \<and> c div 8 \<le> 24" if "0 \<le> c" "c \<le> 192" for c :: int using that by auto
  note eighth = this [OF a(2,3)] this [OF b(2,3)]
  show ?thesis
    unfolding fit_template_def pw(1) ph(1) Option.bind.bind_lunit Let_def pick a(1) b(1)
    using top eighth by (simp add: template_size_def cell_size_def)
qed

text \<open>A region of at most 8192 by 8192 whose corner is not far from the frame, and a usable window.\<close>

definition rect_ok :: "rect \<Rightarrow> bool" where
  "rect_ok r \<longleftrightarrow> 0 \<le> rw r \<and> rw r \<le> 8192 \<and> 0 \<le> rh r \<and> rh r \<le> 8192 \<and> \<bar>rx r\<bar> \<le> 8192 \<and> \<bar>ry r\<bar> \<le> 8192"

definition window_ok :: "kcf \<Rightarrow> bool" where
  "window_ok t \<longleftrightarrow> is_fin (scale t) \<and> 0 \<le> val (scale t) \<and> val (scale t) \<le> 256 \<and>
     0 \<le> tmpl_w t \<and> tmpl_w t \<le> 200 \<and> 0 \<le> tmpl_h t \<and> tmpl_h t \<le> 200"

lemma getFeatures_ok:
  assumes t: "rect_ok (roi t)" and fit: "if inithann then ok (fit_template (roi t) t) (\<lambda>t'. window_ok t' \<and> roi t' = roi t) else window_ok t"
  shows "ok (getFeatures lib surface inithann (Fin 1) W H (t, l)) (\<lambda>(f, t', l'). window_ok t' \<and> roi t' = roi t \<and>
    (\<not> inithann \<longrightarrow> t' = t))"
proof -
  obtain t' where t': "(if inithann then fit_template (roi t) t else Some t) = Some t'" "window_ok t'" "roi t' = roi t"
      "\<not> inithann \<longrightarrow> t' = t"
    using fit by (cases inithann) (auto elim!: okE)
  have unit: "is_fin (mulf (Fin 1) (scale t')) \<and> of_int 0 \<le> val (mulf (Fin 1) (scale t')) \<and> val (mulf (Fin 1) (scale t')) \<le> of_int 256"
    by (rule fmul_bounded) (use t'(2) in \<open>simp_all add: window_ok_def\<close>)
  have size: "\<exists>w. to_int (mulf (mulf (Fin 1) (scale t')) (i2f n)) = Some w \<and> 0 \<le> w \<and> w \<le> 51200" if "0 \<le> n" "n \<le> 200" for n
  proof -
    have "val (mulf (Fin 1) (scale t')) * of_int n \<le> 256 * 200" using unit that by (intro mult_mono) simp_all
    then have "is_fin (mulf (mulf (Fin 1) (scale t')) (i2f n)) \<and> of_int 0 \<le> val (mulf (mulf (Fin 1) (scale t')) (i2f n)) \<and>
        val (mulf (mulf (Fin 1) (scale t')) (i2f n)) \<le> of_int 51200"
      using unit that i2f_fin [of n] by (intro fmul_bounded) simp_all
    then show ?thesis using to_int_bounded [of "mulf (mulf (Fin 1) (scale t')) (i2f n)" 0 51200] by auto
  qed
  have corner: "\<exists>x. to_int (subf (i2f (a + w div 2)) (i2f (n div 2))) = Some x"
    if "\<bar>a\<bar> \<le> 8192" "0 \<le> w" "w \<le> 8192" "0 \<le> n" "n \<le> 51200" for a w n
  proof -
    have "0 \<le> w div 2" "w div 2 \<le> 4096" "0 \<le> n div 2" "n div 2 \<le> 25600" using that by auto
    then have b: "\<bar>a + w div 2\<bar> \<le> 12288" "\<bar>n div 2\<bar> \<le> 25600" using that(1) by auto
    then have "is_fin (subf (i2f (a + w div 2)) (i2f (n div 2))) \<and> of_int (-50000) \<le> val (subf (i2f (a + w div 2)) (i2f (n div 2))) \<and>
        val (subf (i2f (a + w div 2)) (i2f (n div 2))) \<le> of_int 50000"
    proof (intro fsub_bounded)
      have "rat_of_int (-50000) \<le> of_int (a + w div 2 - n div 2)" "of_int (a + w div 2 - n div 2) \<le> rat_of_int 50000"
        unfolding of_int_le_iff using b by auto
      then show "of_int (-50000) \<le> val (i2f (a + w div 2)) - val (i2f (n div 2))" "val (i2f (a + w div 2)) - val (i2f (n div 2)) \<le> of_int 50000"
        using i2f_fin [of "a + w div 2"] i2f_fin [of "n div 2"] b by simp_all
    qed (use b i2f_fin [of "a + w div 2"] i2f_fin [of "n div 2"] in simp_all)
    then show ?thesis using to_int_bounded [of "subf (i2f (a + w div 2)) (i2f (n div 2))" "-50000" 50000] by auto
  qed
  obtain w h where w: "to_int (mulf (mulf (Fin 1) (scale t')) (i2f (tmpl_w t'))) = Some w" "0 \<le> w" "w \<le> 51200"
    and h: "to_int (mulf (mulf (Fin 1) (scale t')) (i2f (tmpl_h t'))) = Some h" "0 \<le> h" "h \<le> 51200"
    using size [of "tmpl_w t'"] size [of "tmpl_h t'"] t'(2) unfolding window_ok_def by blast
  obtain x y where "to_int (subf (i2f (rx (roi t) + rw (roi t) div 2)) (i2f (w div 2))) = Some x"
    "to_int (subf (i2f (ry (roi t) + rh (roi t) div 2)) (i2f (h div 2))) = Some y"
    using corner [of "rx (roi t)" "rw (roi t)" w] corner [of "ry (roi t)" "rh (roi t)" h] t w h unfolding rect_ok_def by blast
  then show ?thesis
    unfolding getFeatures_def prod.case Let_def t'(1) Option.bind.bind_lunit w(1) h(1)
    using t' by (simp split: prod.split)
qed

lemma moved_ok:
  assumes "\<bar>x\<bar> \<le> 8192" "0 \<le> w" "w \<le> 8192" and res: "is_fin res" "\<bar>val res\<bar> \<le> 1024"
    and sc: "is_fin sc" "0 \<le> val sc" "val sc \<le> 256"
  shows "\<exists>x'. moved x w res sc = Some x'"
proof -
  let ?half = "divf (i2f w) (Fin 2)"
  have half: "is_fin ?half \<and> of_int 0 \<le> val ?half \<and> val ?half \<le> of_int 4096"
    by (rule fdiv_bounded) (use assms i2f_fin [of w] in simp_all)
  have c: "is_fin (addf (i2f x) ?half) \<and> of_int (-8192) \<le> val (addf (i2f x) ?half) \<and> val (addf (i2f x) ?half) \<le> of_int 12288"
    by (rule fadd_bounded) (use assms(1) i2f_fin [of x] half in \<open>auto simp: abs_le_iff\<close>)
  have d: "is_fin (subf (addf (i2f x) ?half) ?half) \<and> of_int (-12288) \<le> val (subf (addf (i2f x) ?half) ?half) \<and>
      val (subf (addf (i2f x) ?half) ?half) \<le> of_int 12288"
    by (rule fsub_bounded) (use c half in auto)
  have r4: "is_fin (mulf res (i2f cell_size)) \<and> of_int (-4096) \<le> val (mulf res (i2f cell_size)) \<and> val (mulf res (i2f cell_size)) \<le> of_int 4096"
    by (rule fmul_bounded) (use res i2f_fin [of 4] in \<open>auto simp: cell_size_def abs_le_iff\<close>)
  have "\<bar>val (mulf res (i2f cell_size)) * val sc\<bar> \<le> 4096 * 256"
    unfolding abs_mult using r4 sc by (intro mult_mono) (auto simp: abs_le_iff)
  then have r: "is_fin (mulf (mulf res (i2f cell_size)) sc) \<and> of_int (-1048576) \<le> val (mulf (mulf res (i2f cell_size)) sc) \<and>
      val (mulf (mulf res (i2f cell_size)) sc) \<le> of_int 1048576"
    using r4 sc by (intro fmul_bounded) (auto simp: abs_le_iff)
  have "is_fin (addf (subf (addf (i2f x) ?half) ?half) (mulf (mulf res (i2f cell_size)) sc)) \<and>
      of_int (-1060864) \<le> val (addf (subf (addf (i2f x) ?half) ?half) (mulf (mulf res (i2f cell_size)) sc)) \<and>
      val (addf (subf (addf (i2f x) ?half) ?half) (mulf (mulf res (i2f cell_size)) sc)) \<le> of_int 1060864"
    by (rule fadd_bounded) (use d r in auto)
  then show ?thesis unfolding moved_def Let_def using to_int_bounded by fastforce
qed

text \<open>The region meets the frame: it starts before its last column and row, and ends behind the first.\<close>

definition meets_frame :: "int \<Rightarrow> int \<Rightarrow> rect \<Rightarrow> bool" where
  "meets_frame width height r \<longleftrightarrow> rx r < width \<and> ry r < height \<and> 0 < rx r + rw r \<and> 0 < ry r + rh r"

definition frame_ok :: "int \<Rightarrow> int \<Rightarrow> bool" where
  "frame_ok width height \<longleftrightarrow> 3 \<le> width \<and> width \<le> 8192 \<and> 3 \<le> height \<and> height \<le> 8192"

lemma leave_frame_meets:
  assumes "frame_ok W H" and "0 \<le> rw r" "rw r \<le> 8192" "0 \<le> rh r" "rh r \<le> 8192"
  shows "meets_frame W H (leave_frame W H r) \<and> rect_ok (leave_frame W H r) \<and> rw (leave_frame W H r) = rw r \<and> rh (leave_frame W H r) = rh r"
  using assms by (auto simp: leave_frame_def Let_def meets_frame_def frame_ok_def rect_ok_def)

lemma enter_frame_ok:
  assumes "frame_ok W H" and "rect_ok r"
  shows "rect_ok (enter_frame W H r) \<and> rw (enter_frame W H r) = rw r \<and> rh (enter_frame W H r) = rh r"
  using assms by (auto simp: enter_frame_def Let_def frame_ok_def rect_ok_def)

definition tracker_ok :: "kcf \<times> 'l \<Rightarrow> bool" where
  "tracker_ok s \<longleftrightarrow> rect_ok (roi (fst s)) \<and> window_ok (fst s)"

text \<open>The displacement stays below 1024 cells; the response of a window has at most 50 in each direction.\<close>

definition small_moves :: "('l, 'f) cv_lib \<Rightarrow> bool" where
  "small_moves lib \<longleftrightarrow> (\<forall>l f. ok (detect lib l f) (\<lambda>(dx, dy). is_fin dx \<and> \<bar>val dx\<bar> \<le> 1024 \<and> is_fin dy \<and> \<bar>val dy\<bar> \<le> 1024))"

lemma update_ok:
  assumes frame: "frame_ok W H" and lib: "small_moves lib" and s: "tracker_ok s"
  shows "ok (update lib surface W H s) (\<lambda>(r, s'). meets_frame W H r \<and> tracker_ok s' \<and> roi (fst s') = r \<and>
    rw r = rw (roi (fst s)) \<and> rh r = rh (roi (fst s)))"
proof -
  obtain t l where tl: "s = (t, l)" by fastforce
  define r where "r = enter_frame W H (roi t)"
  have r: "rect_ok r" "rw r = rw (roi t)" "rh r = rh (roi t)"
    using enter_frame_ok [OF frame, of "roi t"] s by (simp_all add: tl r_def tracker_ok_def)
  have window: "window_ok t" using s by (simp add: tl tracker_ok_def)
  have wr: "window_ok (t\<lparr>roi := q\<rparr>)" for q using window by (simp add: window_ok_def)
  obtain f l1 where f: "getFeatures lib surface False (Fin 1) W H (t\<lparr>roi := r\<rparr>, l) = Some (f, t\<lparr>roi := r\<rparr>, l1)"
    using getFeatures_ok [of "t\<lparr>roi := r\<rparr>" False lib surface W H l] r(1) wr [of r] by (auto elim!: okE)
  obtain dx dy where d: "detect lib l1 f = Some (dx, dy)" "is_fin dx" "\<bar>val dx\<bar> \<le> 1024" "is_fin dy" "\<bar>val dy\<bar> \<le> 1024"
    using lib [unfolded small_moves_def, rule_format, of l1 f] by (auto elim!: okE)
  have "\<exists>x. moved (rx r) (rw r) dx (scale t) = Some x" "\<exists>y. moved (ry r) (rh r) dy (scale t) = Some y"
    using d r(1) window by (auto simp: rect_ok_def window_ok_def intro!: moved_ok)
  then obtain x y where xy: "moved (rx r) (rw r) dx (scale t) = Some x" "moved (ry r) (rh r) dy (scale t) = Some y" by blast
  define q where "q = leave_frame W H (r\<lparr>rx := x, ry := y\<rparr>)"
  have q: "meets_frame W H q" "rect_ok q" "rw q = rw r" "rh q = rh r"
    using leave_frame_meets [OF frame, of "r\<lparr>rx := x, ry := y\<rparr>"] r(1) by (simp_all add: q_def rect_ok_def)
  obtain f2 l2 where f2: "getFeatures lib surface False (Fin 1) W H (t\<lparr>roi := q\<rparr>, l1) = Some (f2, t\<lparr>roi := q\<rparr>, l2)"
    using getFeatures_ok [of "t\<lparr>roi := q\<rparr>" False lib surface W H l1] q(2) wr [of q] by (auto elim!: okE)
  have "update lib surface W H s = Some (q, t\<lparr>roi := q\<rparr>, cv_train lib f2 interp_factor l2)"
    using q(2) f2 by (simp add: update_def tl r_def [symmetric] f d(1) xy q_def [symmetric] rect_ok_def)
  then show ?thesis using q r wr [of q] by (simp add: tl tracker_ok_def)
qed

lemma init_ok:
  assumes "rect_ok r" and "1 \<le> rw r" "1 \<le> rh r"
  shows "ok (init lib r surface W H s) (\<lambda>s'. tracker_ok s' \<and> roi (fst s') = r)"
proof -
  obtain t l where tl: "s = (t, l)" by fastforce
  have "ok (fit_template r (t\<lparr>roi := r\<rparr>)) (\<lambda>t'. window_ok t' \<and> roi t' = r)"
    by (rule ok_mono [OF fit_template_ok]) (use assms in \<open>auto simp: rect_ok_def window_ok_def\<close>)
  then obtain f t' l' where f: "getFeatures lib surface True (Fin 1) W H (t\<lparr>roi := r\<rparr>, l) = Some (f, t', l')"
      "window_ok t'" "roi t' = r"
    using getFeatures_ok [of "t\<lparr>roi := r\<rparr>" True lib surface W H l] assms(1) by (auto elim!: okE)
  then show ?thesis using assms by (simp add: init_def tl rect_ok_def tracker_ok_def split: prod.split)
qed

lemma follow_ok:
  assumes "frame_ok W H" and "small_moves lib" and "tracker_ok s"
  shows "ok (follow lib W H surfaces s) (\<lambda>(rs, s'). length rs = length surfaces \<and>
    (\<forall>r \<in> set rs. meets_frame W H r \<and> rw r = rw (roi (fst s)) \<and> rh r = rh (roi (fst s))))"
  using assms(3)
proof (induction surfaces arbitrary: s)
  case (Cons a surfaces)
  obtain r t where u: "update lib a W H s = Some (r, t)" "meets_frame W H r" "tracker_ok t" "roi (fst t) = r"
      "rw r = rw (roi (fst s))" "rh r = rh (roi (fst s))"
    using update_ok [OF assms(1,2) Cons.prems, of a] by (auto elim!: okE)
  then show ?case using Cons.IH [OF u(3)] by (auto simp: u(1) wp elim!: okE)
qed simp

text \<open>
  C21: A tracker that is initialised with a region of a frame and then updated for every
  frame never leaves the range of its conversions, as long as the filter reports
  displacements below 1024 cells: every update succeeds, and every region it returns has
  the size of the first one and meets the frame.
\<close>

theorem tracker_follows:
  assumes "rect_ok r" "1 \<le> rw r" "1 \<le> rh r" and "frame_ok W H" and "small_moves lib"
  shows "\<exists>s1 rs s2. init lib r surface W H s = Some s1 \<and> follow lib W H surfaces s1 = Some (rs, s2) \<and>
    length rs = length surfaces \<and> (\<forall>q \<in> set rs. meets_frame W H q \<and> rw q = rw r \<and> rh q = rh r)"
proof -
  obtain s1 where s1: "init lib r surface W H s = Some s1" "tracker_ok s1" "roi (fst s1) = r"
    using init_ok [OF assms(1-3), of lib surface W H s] by (auto elim!: okE)
  then show ?thesis using follow_ok [OF assms(4,5) s1(2), of surfaces] by (auto elim!: okE)
qed

definition still_lib :: "(unit, unit) cv_lib" where
  "still_lib = \<lparr>cv_features = (\<lambda>_ _ _ _ _ _ _ l. ((), l)), cv_patch = (\<lambda>_. (1, 1)), cv_response = (\<lambda>_ _. [[Fin 1]]),
     cv_peak = (\<lambda>_. (0, 0, Fin 1)), cv_init = (\<lambda>_ _ l. l), cv_train = (\<lambda>_ _ l. l), cv_exp = (\<lambda>x. x)\<rparr>"

theorem tracker_follows_witness:
  "\<exists>s1 rs s2. init still_lib \<lparr>rx = 10, ry = 20, rw = 30, rh = 40\<rparr> 1 640 480 (\<lparr>roi = \<lparr>rx = 0, ry = 0, rw = 0, rh = 0\<rparr>,
      tmpl_w = 0, tmpl_h = 0, scale = Fin 0\<rparr>, ()) = Some s1 \<and> follow still_lib 640 480 [2, 3] s1 = Some (rs, s2) \<and> length rs = 2"
proof -
  have "of_z b32 0 = Fin 0" using i2f_exact [of 0] by simp
  then have "small_moves still_lib"
    by (simp add: small_moves_def still_lib_def detect_def fsub_def zero_def)
  then show ?thesis
    using tracker_follows [of "\<lparr>rx = 10, ry = 20, rw = 30, rh = 40\<rparr>" 640 480 still_lib 1
        "(\<lparr>roi = \<lparr>rx = 0, ry = 0, rw = 0, rh = 0\<rparr>, tmpl_w = 0, tmpl_h = 0, scale = Fin 0\<rparr>, ())" "[2, 3]"]
    by (auto simp: rect_ok_def frame_ok_def)
qed

end
