(* ===== verification/Dft_Plan.thy ===== *)
theory Dft_Plan
  imports Prelude "HOL-Library.Word"
begin

unbundle bit_operations_syntax

text \<open>
  The plan of the discrete Fourier transform of the tracker
  (\<open>video_analytics_example/kcftracker.cpp\<close>, \<open>KCFTracker::DFTFactorize\<close>): the length of the
  transform is split into the largest power of two and the odd primes, the odd primes from the
  largest to the smallest.  The factors go to an array of the caller; a write past its end and an
  overflow of \<open>int\<close> are the value None.  A length is not negative, so the quotients are those of
  the natural numbers.
\<close>

section \<open>The code\<close>

definition push :: "nat \<Rightarrow> nat list \<Rightarrow> nat \<Rightarrow> nat list option" where
  "push room factors f = (if length factors < room then Some (factors @ [f]) else None)"

text \<open>The power of two: \<open>(((n - 1)^n)+1) >> 1\<close>, whose sum overflows for 2 ^ 30.\<close>

definition two_part :: "nat \<Rightarrow> nat option" where
  "two_part n =
     (let low = ((n - 1) XOR n) + 1 in if low < 2 ^ 31 then Some (low div 2) else None)"

text \<open>The trial division; the divisors are odd, \<open>f = 3, 5, ...\<close>, so \<open>f\<close> is kept as \<open>2 * k + 3\<close>.\<close>

function trial :: "nat \<Rightarrow> nat \<Rightarrow> nat \<Rightarrow> nat list \<Rightarrow> (nat list \<times> nat) option" where
  "trial room k n factors =
     (let f = 2 * k + 3; d = n div f; f' = f + 2 in
      if n \<le> 1 then Some (factors, n)
      else if d * f = n
        then (case push room factors f of None \<Rightarrow> None
              | Some factors' \<Rightarrow> trial room k d factors')
      else if f' * f' \<ge> 2 ^ 31 then None
      else if f' * f' > n then Some (factors, n)
      else trial room (k + 1) n factors)"
  by pat_completeness auto

text \<open>The tail of odd factors is turned round in place.\<close>

definition swap_at :: "nat \<Rightarrow> nat \<Rightarrow> nat \<Rightarrow> nat list \<Rightarrow> nat list" where
  "swap_at nf f i fs = fs[i := fs ! (nf - i - 1 + f), nf - i - 1 + f := fs ! i]"

definition turn_round :: "nat \<Rightarrow> nat list \<Rightarrow> nat list" where
  "turn_round f fs = fold (swap_at (length fs) f) [f..<(length fs + f) div 2] fs"

definition DFTFactorize :: "nat \<Rightarrow> nat \<Rightarrow> nat list option" where
  "DFTFactorize room n =
     (if n \<le> 5 then push room [] n
      else
        case two_part n of None \<Rightarrow> None
        | Some f \<Rightarrow>
            case (if f > 1 then push room [] f else Some []) of None \<Rightarrow> None
            | Some factors \<Rightarrow>
                case trial room 0 (if f > 1 then (if f = n then 1 else n div f) else n) factors of
                  None \<Rightarrow> None
                | Some (factors', rest) \<Rightarrow>
                    case (if rest > 1 then push room factors' rest else Some factors') of
                      None \<Rightarrow> None
                    | Some fs \<Rightarrow> Some (turn_round (if even (fs ! 0) then 1 else 0) fs))"

section \<open>The loop ends\<close>

lemma next_divisor: "f * f \<le> n \<Longrightarrow> (f::nat) > 1 \<Longrightarrow> f < n"
  by (metis le_square le_less_trans less_le_trans mult_less_cancel2 nat_mult_1 not_less
      not_less_zero zero_less_one linorder_neqE_nat)

termination trial
proof (relation "measures [\<lambda>(room, k, n, factors). n, \<lambda>(room, k, n, factors). n - k]", goal_cases)
  case 1
  then show ?case by simp
next
  case (2 room k n factors f d f' factors')
  then have "n div f < n" by simp
  with 2 show ?case by simp
next
  case (3 room k n factors f d f')
  then have "(2 * k + 5) * (2 * k + 5) \<le> n" by (simp add: add.commute)
  then have "2 * k + 5 < n" by (rule next_divisor) simp
  with 3 show ?case by simp
qed

declare trial.simps [simp del]

section \<open>The power of two\<close>

lemma xor_even: "0 < m \<Longrightarrow> ((2 * m - 1) XOR (2 * m) :: nat) = 2 * ((m - 1) XOR m) + 1"
proof -
  assume "0 < m"
  then have e: "2 * m - 1 = 2 * (m - 1) + 1" by simp
  show ?thesis
    unfolding e by (subst xor_rec) simp
qed

lemma xor_odd: "((2 * m) XOR (2 * m + 1) :: nat) = 1"
  by (subst xor_rec) simp

lemma two_part_value:
  "0 < (n::nat) \<Longrightarrow> \<exists>v q. n = 2 ^ v * q \<and> odd q \<and> ((n - 1) XOR n) + 1 = 2 ^ Suc v"
proof (induction n rule: less_induct)
  case (less n)
  show ?case
  proof (cases "even n")
    case True
    then obtain m where m: "n = 2 * m" by blast
    with less.prems have "0 < m" "m < n" by auto
    from less.IH [OF this(2,1)] obtain v q where
      "m = 2 ^ v * q" "odd q" "((m - 1) XOR m) + 1 = 2 ^ Suc v" by blast
    with m xor_even [OF \<open>0 < m\<close>] have
      "n = 2 ^ Suc v * q" "odd q" "((n - 1) XOR n) + 1 = 2 ^ Suc (Suc v)" by simp_all
    then show ?thesis by blast
  next
    case False
    then obtain m where m: "n = 2 * m + 1" by (elim oddE)
    then have "n = 2 ^ 0 * n" "((n - 1) XOR n) + 1 = 2 ^ Suc 0" using xor_odd [of m] by simp_all
    with False show ?thesis by blast
  qed
qed

lemma two_part_some:
  assumes "0 < n" "n < 2 ^ 30"
  obtains v q where "n = 2 ^ v * q" "odd q" "two_part n = Some (2 ^ v)"
proof -
  obtain v q where vq: "n = 2 ^ v * q" "odd q" "((n - 1) XOR n) + 1 = 2 ^ Suc v"
    using two_part_value [OF assms(1)] by blast
  have "(2::nat) ^ v \<le> n" using vq assms(1) by (cases q) auto
  then have "(2::nat) ^ Suc v < 2 ^ 31" using assms(2) by simp
  with vq have "two_part n = Some (2 ^ v)" by (simp add: two_part_def Let_def)
  with vq that show ?thesis by blast
qed

section \<open>The trial division\<close>

definition prime_number :: "nat \<Rightarrow> bool" where
  "prime_number p \<longleftrightarrow> 1 < p \<and> (\<forall>d. d dvd p \<longrightarrow> d = 1 \<or> d = p)"

text \<open>No divisor of \<open>n\<close> other than 1 is below \<open>f\<close>.\<close>

definition no_small :: "nat \<Rightarrow> nat \<Rightarrow> bool" where
  "no_small f n \<longleftrightarrow> (\<forall>d. d dvd n \<longrightarrow> d = 1 \<or> f \<le> d)"

lemma no_small_3: "odd n \<Longrightarrow> no_small 3 n"
  unfolding no_small_def
proof (intro allI impI)
  fix d assume n: "odd n" and d: "d dvd n"
  have "d \<noteq> 0" "d \<noteq> 2" using n d by (metis dvd_0_left even_zero) (use n d in \<open>blast dest: dvd_trans\<close>)
  then show "d = 1 \<or> 3 \<le> d" by linarith
qed

lemma no_small_div: "no_small f n \<Longrightarrow> d dvd n \<Longrightarrow> no_small f d"
  by (auto simp: no_small_def intro: dvd_trans)

lemma no_small_prime: "no_small f n \<Longrightarrow> f dvd n \<Longrightarrow> 1 < f \<Longrightarrow> 0 < n \<Longrightarrow> prime_number f"
  unfolding prime_number_def no_small_def
  by (metis dvd_imp_le dvd_trans less_trans less_one le_antisym)

lemma no_small_next:
  assumes "no_small f n" "\<not> f dvd n" "odd n" "odd f"
  shows "no_small (f + 2) n"
  unfolding no_small_def
proof (intro allI impI)
  fix d assume d: "d dvd n"
  then have "odd d" using assms(3) by (auto elim: dvd_trans)
  moreover have "d = 1 \<or> f \<le> d" using assms(1) d by (simp add: no_small_def)
  moreover have "d \<noteq> f" using assms(2) d by blast
  moreover have "d \<noteq> f + 1" using \<open>odd d\<close> assms(4) by auto
  ultimately show "d = 1 \<or> f + 2 \<le> d" by linarith
qed

lemma no_small_square:
  assumes "no_small f n" "n < f * f" "1 < n"
  shows "prime_number n"
  unfolding prime_number_def
proof (intro conjI allI impI)
  show "1 < n" by fact
  fix d assume "d dvd n"
  then obtain e where e: "n = d * e" by blast
  show "d = 1 \<or> d = n"
  proof (rule ccontr)
    assume c: "\<not> ?thesis"
    have "d dvd n" "e dvd n" using e by auto
    moreover have "d \<noteq> 1" "e \<noteq> 1" using c e by auto
    ultimately have "f \<le> d" "f \<le> e" using assms(1) by (auto simp: no_small_def)
    then have "f * f \<le> n" unfolding e by (rule mult_le_mono)
    with assms(2) show False by simp
  qed
qed

text \<open>
  One run of the loop: what is written are primes that do not decrease, the rest is 1 or a prime
  that is not smaller, and nothing of the product is lost.  The room is enough when what is
  still to be divided is less than 3 to the power of the room left and one more.
\<close>

lemma trial_spec:
  assumes "odd n" "no_small (2 * k + 3) n" "n < 46339 ^ 2" "n < 3 ^ Suc room'" "length factors + room' = room"
    "2 * k + 3 < 46339"
  shows "\<exists>ps rest. trial room k n factors = Some (factors @ ps, rest)
    \<and> prod_list ps * rest = n \<and> (\<forall>p\<in>set ps. prime_number p \<and> odd p \<and> 2 * k + 3 \<le> p)
    \<and> sorted (ps @ (if rest > 1 then [rest] else [])) \<and> (rest = 1 \<or> prime_number rest \<and> odd rest)
    \<and> length ps + (if rest > 1 then 1 else 0) \<le> room'"
  using assms
proof (induction room k n factors arbitrary: room' rule: trial.induct)
  case (1 room k n factors)
  let ?f = "2 * k + 3"
  have pos: "0 < n" using \<open>odd n\<close> by (cases n) auto
  show ?case
  proof (cases "n \<le> 1")
    case True
    with pos have "n = 1" by simp
    then show ?thesis by (simp add: trial.simps)
  next
    case big: False
    show ?thesis
    proof (cases "?f dvd n")
      case True
      then obtain d where d: "n = d * ?f" by (metis dvd_def mult.commute)
      then have nd: "n div ?f = d" by simp
      have "odd d" using \<open>odd n\<close> d by simp
      have dn: "d * 3 \<le> n" unfolding d by simp
      obtain room2 where r: "room' = Suc room2"
        using 1(6) big \<open>odd n\<close> by (cases room') (auto simp: less_Suc_eq numeral_eq_Suc)
      have lim: "d < 46339 ^ 2" using dn 1(5) by simp
      have "d < 3 ^ Suc room2" using dn 1(6) unfolding r power_Suc by linarith
      have small: "no_small ?f d" using 1(4) by (rule no_small_div) (simp add: d)
      have p: "prime_number ?f" by (rule no_small_prime [OF 1(4) True]) (use pos in simp_all)
      have push: "push room factors ?f = Some (factors @ [?f])" using 1(7) by (simp add: push_def r)
      have step: "trial room k n factors = trial room k d (factors @ [?f])"
        by (subst trial.simps) (use big d push nd in \<open>simp add: Let_def\<close>)
      obtain ps rest where IH: "trial room k d (factors @ [?f]) = Some ((factors @ [?f]) @ ps, rest)"
        "prod_list ps * rest = d" "\<forall>p\<in>set ps. prime_number p \<and> odd p \<and> ?f \<le> p"
        "sorted (ps @ (if rest > 1 then [rest] else []))" "rest = 1 \<or> prime_number rest \<and> odd rest"
        "length ps + (if rest > 1 then 1 else 0) \<le> room2"
        using 1(1) [OF refl refl refl big _ push, of room2] nd d \<open>odd d\<close> small lim \<open>d < 3 ^ Suc room2\<close> 1(7,8) r
        by auto
      have "rest = 1 \<or> ?f \<le> rest"
        using small dvd_triv_right [of rest "prod_list ps"] unfolding IH(2) by (auto simp: no_small_def)
      then have "sorted ((?f # ps) @ (if rest > 1 then [rest] else []))"
        using IH(3,4) by auto
      moreover have "prod_list (?f # ps) * rest = n" using IH(2) d by simp
      moreover have "\<forall>q\<in>set (?f # ps). prime_number q \<and> odd q \<and> ?f \<le> q" using IH(3) p by simp
      ultimately show ?thesis
        using IH(1,5,6) r unfolding step by (intro exI [of _ "?f # ps"] exI [of _ rest]) simp
    next
      case False
      then have nd: "n div ?f * ?f \<noteq> n" by (metis dvd_triv_right)
      have next_small: "no_small (2 * (k + 1) + 3) n"
        using no_small_next [OF 1(4) False \<open>odd n\<close>] by simp
      have "2 * k + 5 \<le> 46339" using 1(8) by presburger
      then have "(2 * k + 5) * (2 * k + 5) \<le> 46339 * 46339" by (rule mult_le_mono) fact
      then have width: "\<not> (2 * k + 5) * (2 * k + 5) \<ge> 2 ^ 31" by simp
      show ?thesis
      proof (cases "(2 * k + 5) * (2 * k + 5) > n")
        case True
        have "prime_number n"
          using no_small_square [OF next_small] True big by (simp add: add.commute)
        moreover have "trial room k n factors = Some (factors, n)"
          by (subst trial.simps) (use big nd width True in \<open>simp add: Let_def add.commute\<close>)
        moreover have "1 \<le> room'"
          using 1(6) big \<open>odd n\<close> by (cases room') (auto simp: less_Suc_eq numeral_eq_Suc)
        ultimately show ?thesis using big \<open>odd n\<close> by (intro exI [of _ "[]"] exI [of _ n]) simp
      next
        case more: False
        have step: "trial room k n factors = trial room (k + 1) n factors"
          by (subst trial.simps) (use big nd width more in \<open>simp add: Let_def add.commute\<close>)
        have "(2 * k + 5) ^ 2 < 46339 ^ 2" using more 1(5) by (simp add: power2_eq_square)
        then have "2 * k + 5 < 46339" by (rule power_less_imp_less_base) simp
        then have "2 * (k + 1) + 3 < 46339" by simp
        then obtain ps rest where IH: "trial room (k + 1) n factors = Some (factors @ ps, rest)"
          "prod_list ps * rest = n" "\<forall>p\<in>set ps. prime_number p \<and> odd p \<and> 2 * (k + 1) + 3 \<le> p"
          "sorted (ps @ (if rest > 1 then [rest] else []))" "rest = 1 \<or> prime_number rest \<and> odd rest"
          "length ps + (if rest > 1 then 1 else 0) \<le> room'"
          using 1(2) [OF refl refl refl big nd _ _ \<open>odd n\<close> next_small 1(5,6,7)] width more
          by (auto simp: add.commute)
        have "\<forall>p\<in>set ps. prime_number p \<and> odd p \<and> 2 * k + 3 \<le> p"
          using IH(3) by fastforce
        with IH show ?thesis unfolding step by (intro exI [of _ ps] exI [of _ rest]) simp
      qed
    qed
  qed
qed

section \<open>The tail is turned round\<close>

lemma turned:
  assumes "f \<le> m" "m \<le> (length fs + f) div 2"
  shows "let r = fold (swap_at (length fs) f) [f..<m] fs in length r = length fs \<and>
    (\<forall>j<length fs. r ! j = (if f \<le> j \<and> (j < m \<or> length fs + f - 1 - j < m)
      then fs ! (length fs + f - 1 - j) else fs ! j))"
  using assms
proof (induction m rule: dec_induct)
  case base
  then show ?case by auto
next
  case (step m)
  define r where "r = fold (swap_at (length fs) f) [f..<m] fs"
  have r: "length r = length fs" "\<And>j. j < length fs \<Longrightarrow> r ! j = (if f \<le> j \<and> (j < m \<or> length fs + f - 1 - j < m)
      then fs ! (length fs + f - 1 - j) else fs ! j)"
    using step.IH step.prems unfolding r_def Let_def by auto
  have m: "f \<le> m" "m < length fs" "m < length fs + f - 1 - m + 1"
    using step by linarith+
  define e where "e = length fs + f - 1 - m"
  have e: "e < length fs" "m \<le> e" "length fs - m - 1 + f = e" "length fs + f - 1 - e = m"
    "length fs + f - 1 - m = e"
    using m step.hyps unfolding e_def by linarith+
  have "fold (swap_at (length fs) f) [f..<Suc m] fs = swap_at (length fs) f m r"
    using step.hyps by (simp add: r_def)
  then have "fold (swap_at (length fs) f) [f..<Suc m] fs = r[m := r ! e, e := r ! m]"
    unfolding swap_at_def e(3) .
  moreover have "r ! e = fs ! e" "r ! m = fs ! m"
    using r(2) [of e] r(2) [of m] m e by auto
  moreover have "length fs + f - 1 - j = m \<longleftrightarrow> j = e" if "j < length fs" for j
    using m that unfolding e_def by linarith
  ultimately have r': "fold (swap_at (length fs) f) [f..<Suc m] fs = r[m := fs ! e, e := fs ! m]"
    and mirror: "\<And>j. j < length fs \<Longrightarrow> length fs + f - 1 - j = m \<longleftrightarrow> j = e"
    by simp_all
  have "r[m := fs ! e, e := fs ! m] ! j = (if f \<le> j \<and> (j < Suc m \<or> length fs + f - 1 - j < Suc m)
      then fs ! (length fs + f - 1 - j) else fs ! j)" if j: "j < length fs" for j
  proof -
    consider "j = e" | "j = m" "j \<noteq> e" | "j \<noteq> m" "j \<noteq> e" by blast
    then show ?thesis
    proof cases
      case 1
      with e m r(1) show ?thesis by simp
    next
      case 2
      with e m r(1) show ?thesis by simp
    next
      case 3
      with r(2) [OF j] mirror [OF j] show ?thesis by (auto simp: less_Suc_eq)
    qed
  qed
  with r(1) show ?case unfolding r' Let_def by simp
qed

lemma turn_round_rev:
  assumes "f \<le> length fs"
  shows "turn_round f fs = take f fs @ rev (drop f fs)"
proof (rule nth_equalityI)
  have *: "f \<le> (length fs + f) div 2" using assms by linarith
  note t = turned [OF * order_refl, folded turn_round_def, unfolded Let_def]
  show len: "length (turn_round f fs) = length (take f fs @ rev (drop f fs))" using t assms by simp
  fix j assume "j < length (turn_round f fs)"
  with t have j: "j < length fs" by simp
  show "turn_round f fs ! j = (take f fs @ rev (drop f fs)) ! j"
  proof (cases "j < f")
    case True
    with t j assms show ?thesis by (simp add: nth_append)
  next
    case False
    have "(take f fs @ rev (drop f fs)) ! j = fs ! (length fs + f - 1 - j)"
      using False j assms by (simp add: nth_append rev_nth add.commute)
    moreover have "j < (length fs + f) div 2 \<or> length fs + f - 1 - j < (length fs + f) div 2
      \<or> length fs + f - 1 - j = j"
      using False j assms by linarith
    ultimately show ?thesis using t j False by auto
  qed
qed

section \<open>The plan of a transform\<close>

definition is_plan :: "nat \<Rightarrow> nat list \<Rightarrow> nat list \<Rightarrow> bool" where
  "is_plan n two ps \<longleftrightarrow> prod_list (two @ ps) = n
    \<and> two = (if even n then [n div prod_list ps] else []) \<and> (\<exists>v. n div prod_list ps = 2 ^ v)
    \<and> (\<forall>p\<in>set ps. prime_number p \<and> odd p) \<and> sorted_wrt (\<ge>) ps"

lemma plan_of_small:
  assumes "2 \<le> n" "n \<le> 5"
  shows "\<exists>two ps. DFTFactorize 8 n = Some (two @ ps) \<and> is_plan n two ps"
proof (cases "even n")
  case True
  moreover have "n = 2 \<or> n = 3 \<or> n = 4 \<or> n = 5" using assms by linarith
  ultimately have "n = 2 ^ 1 \<or> n = 2 ^ 2" by auto
  then have "\<exists>v. n = 2 ^ v" by blast
  with True have "is_plan n [n] []" unfolding is_plan_def by simp
  with assms show ?thesis
    by (intro exI [of _ "[n]"] exI [of _ "[]"]) (simp add: DFTFactorize_def push_def)
next
  case False
  with assms have "prime_number n" by (intro no_small_square [OF no_small_3]) auto
  with False assms have "is_plan n [] [n]" unfolding is_plan_def by (auto intro: exI [of _ 0])
  with assms show ?thesis
    by (intro exI [of _ "[]"] exI [of _ "[n]"]) (simp add: DFTFactorize_def push_def)
qed

lemma odd_product: "\<forall>p\<in>set ps. odd p \<Longrightarrow> odd (prod_list ps)" for ps :: "nat list"
  by (induction ps) auto

lemma plan_of_large:
  assumes "5 < n" "n < 2 * 3 ^ 8"
  shows "\<exists>two ps. DFTFactorize 8 n = Some (two @ ps) \<and> is_plan n two ps"
proof -
  obtain v q where vq: "n = 2 ^ v * q" "odd q" "two_part n = Some (2 ^ v)"
    using two_part_some [of n] assms by auto
  define two where "two = (if v = 0 then [] else [2 ^ v :: nat])"
  have even: "even n \<longleftrightarrow> v \<noteq> 0" using vq by simp
  have div: "n div 2 ^ v = q" using vq by simp
  have one: "Suc 0 < 2 ^ v" if "0 < v" using one_less_power [of "2 :: nat" v] that by simp
  have left: "(if 2 ^ v > (1::nat) then (if 2 ^ v = n then 1 else n div 2 ^ v) else n) = q"
    using vq by (cases "v = 0") (auto simp: div one elim: oddE)
  have first: "(if 2 ^ v > (1::nat) then push 8 [] (2 ^ v) else Some []) = Some two"
    using one by (cases "v = 0") (simp_all add: two_def push_def)
  have "q < 3 ^ 9 \<and> (v \<noteq> 0 \<longrightarrow> q < 3 ^ 8)"
  proof (intro conjI impI)
    have "q \<le> n" using vq by simp
    with assms show "q < 3 ^ 9" by simp
    assume "v \<noteq> 0"
    then have "2 * q \<le> n" using vq by (cases v) auto
    with assms show "q < 3 ^ 8" by simp
  qed
  then have room: "q < 3 ^ Suc (8 - length two)" "length two + (8 - length two) = 8" "q < 46339 ^ 2"
    unfolding two_def by auto
  have "no_small (2 * 0 + 3) q" using no_small_3 [OF vq(2)] by simp
  from trial_spec [OF vq(2) this room(3,1,2)] obtain ps rest where
    t: "trial 8 0 q two = Some (two @ ps, rest)" "prod_list ps * rest = q"
    "\<forall>p\<in>set ps. prime_number p \<and> odd p" "sorted (ps @ (if rest > 1 then [rest] else []))"
    "rest = 1 \<or> prime_number rest \<and> odd rest" "length ps + (if rest > 1 then 1 else 0) \<le> 8 - length two"
    by auto
  define qs where "qs = ps @ (if rest > 1 then [rest] else [])"
  have last: "(if rest > 1 then push 8 (two @ ps) rest else Some (two @ ps)) = Some (two @ qs)"
    using t(6) by (auto simp: qs_def push_def two_def split: if_splits)
  have qs: "prod_list qs = q" "\<forall>p\<in>set qs. prime_number p \<and> odd p" "sorted qs"
  proof -
    have "rest = 1 \<or> rest > 1" using t(5) by (auto simp: prime_number_def)
    then show "prod_list qs = q" using t(2) by (elim disjE) (simp_all add: qs_def)
    show "\<forall>p\<in>set qs. prime_number p \<and> odd p" using t(3,5) by (auto simp: qs_def split: if_splits)
    show "sorted qs" using t(4) unfolding qs_def .
  qed
  have ne: "two @ qs \<noteq> []" using qs(1) vq(1) assms(1) by (auto simp: two_def)
  have head: "(if even ((two @ qs) ! 0) then 1 else 0) = length two"
  proof (cases "v = 0")
    case True
    then have "qs \<noteq> []" "two = []" using ne by (auto simp: two_def)
    then show ?thesis using qs(2) by (cases qs) auto
  qed (simp add: two_def)
  have "DFTFactorize 8 n = Some (turn_round (length two) (two @ qs))"
    unfolding DFTFactorize_def vq(3) option.case left first t(1) prod.case last head
    using assms(1) by simp
  also have "turn_round (length two) (two @ qs) = two @ rev qs" by (simp add: turn_round_rev)
  finally have "DFTFactorize 8 n = Some (two @ rev qs)" .
  moreover have "is_plan n two (rev qs)"
    unfolding is_plan_def
  proof (intro conjI)
    have rev: "prod_list (rev qs) = q" using qs(1) by (simp add: prod_list.rev)
    have "0 < q" using vq(2) by (rule odd_pos)
    then have power: "n div prod_list (rev qs) = 2 ^ v" unfolding rev using vq(1) by simp
    then show "\<exists>v. n div prod_list (rev qs) = 2 ^ v" ..
    show "two = (if even n then [n div prod_list (rev qs)] else [])"
      unfolding power even two_def by simp
    show "prod_list (two @ rev qs) = n" using rev vq(1) by (simp add: two_def)
    show "\<forall>p\<in>set (rev qs). prime_number p \<and> odd p" using qs(2) by simp
    show "sorted_wrt (\<ge>) (rev qs)" using qs(3) by (simp add: sorted_wrt_rev)
  qed
  ultimately show ?thesis by blast
qed

text \<open>
  C26: for every length from 2 to 2 * 3 ^ 8 - 1 the plan fits the eight places of the callers'
  array \<open>factor\<close>, its product is the length, an even length has its largest power of two in front
  (and nowhere else), and the other factors are odd primes from the largest to the smallest.
  Nothing overflows and no length in that range is left unfactored.
\<close>

theorem DFTFactorize_spec:
  assumes "2 \<le> n" "n < 2 * 3 ^ 8"
  shows "\<exists>two ps. DFTFactorize 8 n = Some (two @ ps) \<and> is_plan n two ps"
  using plan_of_small [OF assms(1)] plan_of_large [OF _ assms(2)] by (meson not_less)

theorem DFTFactorize_spec_witness:
  "(\<exists>two ps. DFTFactorize 8 720 = Some (two @ ps) \<and> is_plan 720 two ps)
    \<and> DFTFactorize 8 720 = Some [16, 5, 3, 3] \<and> DFTFactorize 8 (2 * 3 ^ 8) = None"
proof (intro conjI)
  show "\<exists>two ps. DFTFactorize 8 720 = Some (two @ ps) \<and> is_plan 720 two ps"
    by (rule DFTFactorize_spec) simp_all
  have "two_part 720 = Some 16" by (simp add: two_part_def Let_def)
  then show "DFTFactorize 8 720 = Some [16, 5, 3, 3]"
    by (simp add: DFTFactorize_def trial.simps push_def turn_round_def swap_at_def upt_rec Let_def)
  have "two_part (2 * 3 ^ 8) = Some 2" by (simp add: two_part_def Let_def)
  then show "DFTFactorize 8 (2 * 3 ^ 8) = None"
    by (simp add: DFTFactorize_def trial.simps push_def Let_def)
qed

end
