(* ===== verification/Writes.thy ===== *)
theory Writes
  imports Prelude
begin

text \<open>
  Loops that fill part of an array, each position with a value that depends on the position
  only: which positions a loop overwrites follows from those of its body.
\<close>

section \<open>Loops that write\<close>

text \<open>
  The result of a piece of code that overwrites the positions in \<open>S\<close>, each with a value that
  depends on the position only, and leaves the others.
\<close>

definition writes :: "nat set \<Rightarrow> (nat \<Rightarrow> 'a) \<Rightarrow> 'a list \<Rightarrow> 'a list \<Rightarrow> bool" where
  "writes S h xs ys \<longleftrightarrow> length ys = length xs \<and> (\<forall>p < length xs. ys ! p = (if p \<in> S then h p else xs ! p))"

lemma writes_length: "writes S h xs ys \<Longrightarrow> length ys = length xs"
  by (simp add: writes_def)

lemma writes_refl: "writes {} h xs xs"
  by (simp add: writes_def)

lemma writes_trans: "writes S h xs ys \<Longrightarrow> writes T h ys zs \<Longrightarrow> writes (S \<union> T) h xs zs"
  by (auto simp: writes_def)

lemma writes_update: "p < length xs \<Longrightarrow> h p = v \<Longrightarrow> writes {p} h xs (xs[p := v])"
  by (auto simp: writes_def nth_list_update)

lemma writes_square:
  assumes "p0 < length xs" "p1 < length xs" "p2 < length xs" "p3 < length xs"
    and "h p0 = v" "h p1 = v" "h p2 = v" "h p3 = v"
  shows "writes ({p0, p1} \<union> {p2, p3}) h xs (xs[p0 := v, p1 := v, p2 := v, p3 := v])"
  using assms by (auto simp: writes_def nth_list_update)

lemma writes_put:
  assumes n: "length ys = n" and "q + n \<le> length xs" and "\<And>k. k < n \<Longrightarrow> h (q + k) = ys ! k"
  shows "writes {q..<q + n} h xs (put xs q ys)"
  unfolding writes_def
proof (intro conjI allI impI)
  have room: "q + length ys \<le> length xs" using assms(1,2) by simp
  then show "length (put xs q ys) = length xs" by simp
  fix p assume "p < length xs"
  show "put xs q ys ! p = (if p \<in> {q..<q + n} then h p else xs ! p)"
  proof (cases "p \<in> {q..<q + n}")
    case True
    then obtain k where "p = q + k" "k < n" by (metis atLeastLessThan_iff le_Suc_ex nat_add_left_cancel_less)
    then show ?thesis using assms nth_put [of q xs k ys] by simp
  next
    case False
    then show ?thesis using n nth_put_other [OF room, of p] by auto
  qed
qed

lemma writes_all: "writes {0..<n} h xs ys \<Longrightarrow> length xs = n \<Longrightarrow> ys = map h [0..<n]"
  by (auto simp: writes_def intro: nth_equalityI)

lemma loop_writes:
  assumes "\<And>j xs. j < m \<Longrightarrow> length xs = L \<Longrightarrow> ok (f j xs) (writes (S j) h xs)" and "length xs = L"
  shows "ok (loop m f xs) (writes (\<Union>j<m. S j) h xs)"
proof (rule loop_wp [where I = "\<lambda>j. writes (\<Union>i<j. S i) h xs"])
  fix j ys assume "j < m" and ys: "writes (\<Union>i<j. S i) h xs ys"
  then have "ok (f j ys) (writes (S j) h ys)" using assms writes_length [OF ys] by simp
  then show "ok (f j ys) (writes (\<Union>i<Suc j. S i) h xs)"
    by (rule ok_mono) (use writes_trans [OF ys] in \<open>simp add: lessThan_Suc Un_commute\<close>)
qed (simp_all add: writes_refl)

text \<open>Consecutive segments.\<close>

lemma segments: "(\<Union>k<m. {b + k * l..<b + k * l + l}) = {b..<b + m * (l::nat)}"
proof (induction m)
  case (Suc m)
  have "(\<Union>k<Suc m. {b + k * l..<b + k * l + l}) = {b..<b + m * l} \<union> {b + m * l..<b + m * l + l}"
    by (simp add: lessThan_Suc Suc.IH Un_commute)
  also have "\<dots> = {b..<b + m * l + l}" by (rule ivl_disj_un_two(3)) simp_all
  finally show ?case by (simp add: add.commute add.left_commute)
qed simp

lemma loop_writes_segments:
  assumes "\<And>j xs. j < m \<Longrightarrow> length xs = L \<Longrightarrow> ok (f j xs) (writes {b + j * l..<b + j * l + l} h xs)" and "length xs = L"
  shows "ok (loop m f xs) (writes {b..<b + m * l} h xs)"
  using loop_writes [of m L f "\<lambda>j. {b + j * l..<b + j * l + l}" h xs] assms
  by (simp add: segments)

text \<open>Rows of a plane, one value per position.\<close>

lemma rows_write:
  assumes "\<And>oy ox xs. oy < oh \<Longrightarrow> ox < ow \<Longrightarrow> length xs = L \<Longrightarrow>
      ok (f oy ox xs) (writes {q + oy * ow + ox} h xs)" and "length xs = L"
  shows "ok (loop oh (\<lambda>oy. loop ow (f oy)) xs) (writes {q..<q + oh * ow} h xs)"
proof (rule loop_writes_segments [OF _ assms(2)])
  fix oy and ys :: "'a list" assume oy: "oy < oh" and ys: "length ys = L"
  have "ok (loop ow (f oy) ys) (writes {(q + oy * ow)..<q + oy * ow + ow * 1} h ys)"
    by (rule loop_writes_segments [OF _ ys]) (use assms(1) [OF oy] in simp)
  then show "ok (loop ow (f oy) ys) (writes {q + oy * ow..<q + oy * ow + ow} h ys)" by simp
qed

end
