(* ===== verification/Resample.thy ===== *)
theory Resample
  imports Ext_Base Softmax Writes
begin

text \<open>
  The \<open>Resample\<close> layer (\<open>extension/ext_resample.cpp\<close>): nearest-neighbour and linear resizing
  of the planes of a tensor, with vector code for the factor 4 in the AVX2 and SSE builds, which
  are those of the theory \<open>Softmax\<close>.  A register is the list of its lanes; an aligned store
  is a store, as the tensors are allocated aligned.  A bound such as \<open>ow - 4\<close> on unsigned
  integers wraps round for smaller extents; the loop then leaves the tensor, which is None.
\<close>

section \<open>The layer\<close>

record resample_cfg =
  rtype :: string
  antialias :: bool

definition resample_ctor :: "ie_lib \<Rightarrow> cnn_layer \<Rightarrow> exn + resample_cfg \<times> layer_config list" where
  "resample_ctor lib L =
     ebind (throw_if (length (insData L) \<noteq> 1 \<or> outData L = []) ''Incorrect number of input/output edges!'') (\<lambda>_.
     ebind (get_param (p_str L ''type'')) (\<lambda>ty.
     ebind (get_param (p_int L ''antialias'')) (\<lambda>aa.
     ebind (addConfig lib L [] [conf1 PLN] [conf1 PLN] False) (\<lambda>cs.
     Inr (\<lparr>rtype = ty, antialias = (aa \<noteq> 0)\<rparr>, cs)))))"

text \<open>The planes of all images and channels: offsets in the source and in the destination.\<close>

definition each_plane ::
    "nat \<Rightarrow> nat \<Rightarrow> nat \<Rightarrow> nat \<Rightarrow> (nat \<Rightarrow> nat \<Rightarrow> ieee list \<Rightarrow> ieee list option) \<Rightarrow> ieee list \<Rightarrow> ieee list option" where
  "each_plane batch channels in_size out_size f =
     loop batch (\<lambda>b. loop channels (\<lambda>c.
       f (in_size * channels * b + in_size * c) (out_size * channels * b + out_size * c)))"

text \<open>The position in the source of output position \<open>o\<close>, with the factor of the other axis.\<close>

definition source_pos :: "nat \<Rightarrow> ieee \<Rightarrow> ieee \<Rightarrow> ieee" where
  "source_pos k f other = subf (addf (mulf (n2f k) f) (divf other (Fin 2))) (Fin (1/2))"

section \<open>Linear interpolation\<close>

definition triangleCoeff :: "ieee \<Rightarrow> ieee" where
  "triangleCoeff x = cmax (Fin 0) (subf (Fin 1) (fabs x))"

definition radius :: "ieee \<Rightarrow> nat \<Rightarrow> ieee \<Rightarrow> int option" where
  "radius f kernel_width a = (if flt f (Fin 1) then Some 2 else to_int (fceil (divf (n2f kernel_width) a)))"

definition add_tap ::
    "ieee list \<Rightarrow> nat \<Rightarrow> nat \<Rightarrow> nat \<Rightarrow> ieee \<times> ieee \<Rightarrow> ieee \<times> ieee \<Rightarrow> int \<Rightarrow> int \<Rightarrow> ieee \<times> ieee \<Rightarrow> (ieee \<times> ieee) option" where
  "add_tap src p iw ih ixy axy y x = (\<lambda>(sum, wsum).
     if y < 0 \<or> x < 0 \<or> y \<ge> int ih \<or> x \<ge> int iw then Some (sum, wsum)
     else case (ixy, axy) of ((ix, iy), (ax, ay)) \<Rightarrow> do {
       let dx = subf ix (i2f x);
       let dy = subf iy (i2f y);
       let w = mulf (mulf (mulf ax (triangleCoeff (mulf ax dx))) ay) (triangleCoeff (mulf ay dy));
       v \<leftarrow> rd src (p + nat y * iw + nat x);
       Some (addf sum (mulf w v), addf wsum w) })"

definition interpolated ::
    "ieee list \<Rightarrow> nat \<Rightarrow> nat \<Rightarrow> nat \<Rightarrow> ieee \<Rightarrow> ieee \<Rightarrow> nat \<Rightarrow> bool \<Rightarrow> nat \<Rightarrow> nat \<Rightarrow> ieee option" where
  "interpolated src p iw ih fx fy kernel_width aa oy ox = do {
     let ix = source_pos ox fx fy;
     let iy = source_pos oy fy fx;
     let ax = divf (Fin 1) (if aa then fx else Fin 1);
     let ay = divf (Fin 1) (if aa then fy else Fin 1);
     ix_r \<leftarrow> to_int (fround ix);
     iy_r \<leftarrow> to_int (fround iy);
     rx \<leftarrow> radius fx kernel_width ax;
     ry \<leftarrow> radius fy kernel_width ay;
     (sum, wsum) \<leftarrow> loop (nat (2 * ry + 1)) (\<lambda>k. loop (nat (2 * rx + 1)) (\<lambda>l.
       add_tap src p iw ih (ix, iy) (ax, ay) (iy_r - ry + int k) (ix_r - rx + int l))) (Fin 0, Fin 0);
     Some (if feq wsum (Fin 0) then Fin 0 else divf sum wsum) }"

definition InterpolationKernel ::
    "ieee list \<Rightarrow> nat \<Rightarrow> nat \<Rightarrow> ieee \<Rightarrow> ieee \<Rightarrow> nat \<Rightarrow> nat \<Rightarrow> nat \<Rightarrow> nat \<Rightarrow> nat \<Rightarrow> bool \<Rightarrow> ieee list \<Rightarrow> ieee list option" where
  "InterpolationKernel src iw ih fx fy ow oh channels batch kernel_width aa =
     each_plane batch channels (iw * ih) (ow * oh) (\<lambda>p q. loop oh (\<lambda>oy. loop ow (\<lambda>ox dst. do {
       v \<leftarrow> interpolated src p iw ih fx fy kernel_width aa oy ox;
       wr dst (q + oy * ow + ox) v })))"

section \<open>Nearest neighbours\<close>

definition NearestNeighborKernel ::
    "ieee list \<Rightarrow> nat \<Rightarrow> nat \<Rightarrow> ieee \<Rightarrow> ieee \<Rightarrow> nat \<Rightarrow> nat \<Rightarrow> nat \<Rightarrow> nat \<Rightarrow> ieee list \<Rightarrow> ieee list option" where
  "NearestNeighborKernel src iw ih fx fy ow oh channels batch =
     each_plane batch channels (iw * ih) (ow * oh) (\<lambda>p q. loop oh (\<lambda>oy. loop ow (\<lambda>ox dst. do {
       ix_r \<leftarrow> to_size (fround (source_pos ox fx fy));
       iy_r \<leftarrow> to_size (fround (source_pos oy fy fx));
       v \<leftarrow> rd src (p + iy_r * iw + ix_r);
       wr dst (q + oy * ow + ox) v })))"

definition Upsample2x_Nearest ::
    "ieee list \<Rightarrow> nat \<Rightarrow> nat \<Rightarrow> nat \<Rightarrow> nat \<Rightarrow> nat \<Rightarrow> nat \<Rightarrow> ieee list \<Rightarrow> ieee list option" where
  "Upsample2x_Nearest src iw ih ow oh channels batch =
     each_plane batch channels (iw * ih) (ow * oh) (\<lambda>p q. loop ih (\<lambda>iy. loop iw (\<lambda>ix dst. do {
       let oy = 2 * iy;
       let ox = 2 * ix;
       v \<leftarrow> rd src (p + iy * iw + ix);
       dst \<leftarrow> wr dst (q + ((oy + 0) * ow + ox + 0)) v;
       dst \<leftarrow> wr dst (q + ((oy + 0) * ow + ox + 1)) v;
       dst \<leftarrow> wr dst (q + ((oy + 1) * ow + ox + 0)) v;
       wr dst (q + ((oy + 1) * ow + ox + 1)) v })))"

text \<open>\<open>for (ox = 0; ox <= ow - l; ox += l)\<close>\<close>

definition blocks :: "nat \<Rightarrow> nat \<Rightarrow> (nat \<Rightarrow> 's \<Rightarrow> 's option) \<Rightarrow> 's \<Rightarrow> 's option" where
  "blocks l ow f s = (if ow < l then None else loop (ow div l) (\<lambda>k. f (k * l)) s)"

definition Upsample4x_Nearest ::
    "ieee list \<Rightarrow> nat \<Rightarrow> nat \<Rightarrow> ieee \<Rightarrow> ieee \<Rightarrow> nat \<Rightarrow> nat \<Rightarrow> nat \<Rightarrow> nat \<Rightarrow> ieee list \<Rightarrow> ieee list option" where
  "Upsample4x_Nearest src iw ih fx fy ow oh channels batch =
     each_plane batch channels (iw * ih) (ow * oh) (\<lambda>p q. loop oh (\<lambda>oy. blocks 4 ow (\<lambda>ox dst. do {
       ix_r \<leftarrow> to_size (fround (source_pos ox fx fy));
       iy_r \<leftarrow> to_size (fround (source_pos oy fy fx));
       v \<leftarrow> rd src (p + iy_r * iw + ix_r);
       blit dst (q + oy * ow + ox) [v, v, v, v] })))"

section \<open>Factor 4 with the triangle filter\<close>

text \<open>The weights, in parts of 64: four registers for each of the four output rows of a block.\<close>

definition table_sse :: "ieee list list" where
  "table_sse = map (map (\<lambda>k. Fin (k / 64)))
     [[9, 3, 3, 9, 15, 21, 21, 15,
       15, 5, 5, 15, 25, 35, 35, 25],
      [3, 1, 1, 3, 5, 7, 7, 5,
       21, 7, 7, 21, 35, 49, 49, 35],
      [21, 7, 7, 21, 35, 49, 49, 35,
       3, 1, 1, 3, 5, 7, 7, 5],
      [15, 5, 5, 15, 25, 35, 35, 25,
       9, 3, 3, 9, 15, 21, 21, 15]]"

definition table_avx2 :: "ieee list list" where
  "table_avx2 = map (map (\<lambda>k. Fin (k / 64)))
     [[9, 3, 3, 9, 9, 3, 3, 9,
       15, 21, 21, 15, 15, 21, 21, 15,
       15, 5, 5, 15, 15, 5, 5, 15,
       25, 35, 35, 25, 25, 35, 35, 25],
      [3, 1, 1, 3, 3, 1, 1, 3,
       5, 7, 7, 5, 5, 7, 7, 5,
       21, 7, 7, 21, 21, 7, 7, 21,
       35, 49, 49, 35, 35, 49, 49, 35],
      [21, 7, 7, 21, 21, 7, 7, 21,
       35, 49, 49, 35, 35, 49, 49, 35,
       3, 1, 1, 3, 3, 1, 1, 3,
       5, 7, 7, 5, 5, 7, 7, 5],
      [15, 5, 5, 15, 15, 5, 5, 15,
       25, 35, 35, 25, 25, 35, 35, 25,
       9, 3, 3, 9, 9, 3, 3, 9,
       15, 21, 21, 15, 15, 21, 21, 15]]"

text \<open>Which rows of a plane: the first four, those between, or the last four.\<close>

datatype band = First_Rows | Middle_Rows | Last_Rows

text \<open>
  \<open>_mm_shuffle_ps(_mm_setzero_ps(), v, 0xD0)\<close> and \<open>_mm_shuffle_ps(v, _mm_setzero_ps(), 0x07)\<close>:
  no weight for the column before the first and for the one after the last.
\<close>

definition edge_low :: "ieee list \<Rightarrow> ieee list" where
  "edge_low v = [Fin 0, Fin 0, v ! 1, v ! 3]"

definition edge_high :: "ieee list \<Rightarrow> ieee list" where
  "edge_high v = [v ! 3, v ! 1, Fin 0, Fin 0]"

definition coefs :: "nat \<Rightarrow> band \<Rightarrow> nat \<Rightarrow> nat \<Rightarrow> nat \<Rightarrow> ieee list \<times> ieee list \<times> ieee list \<times> ieee list" where
  "coefs l bnd i ow ox =
     (let vc = (\<lambda>k. take l (drop (k * l) ((if l = 8 then table_avx2 else table_sse) ! i)));
          setzero = replicate l (Fin 0);
          edge = (\<lambda>v. if ox = 0 then edge_low (take 4 v) @ drop 4 v
            else if ox = ow - l then take (l - 4) v @ edge_high (drop (l - 4) v) else v);
          none_above = (bnd = First_Rows \<and> i < 2); none_below = (bnd = Last_Rows \<and> \<not> i < 2) in
      (if none_above then setzero else edge (vc 0), if none_above then setzero else vc 1,
       if none_below then setzero else edge (vc 2), if none_below then setzero else vc 3))"

text \<open>The source values of one row from column \<open>ix_r - 1\<close> on; the row above is \<open>r = 0\<close>.\<close>

definition taps :: "nat \<Rightarrow> band \<Rightarrow> ieee list \<Rightarrow> int \<Rightarrow> nat \<Rightarrow> nat \<Rightarrow> nat \<Rightarrow> nat \<Rightarrow> ieee list option" where
  "taps l bnd src p iw iy_r ix_r r =
     (if r = 0 \<and> bnd = First_Rows \<or> r = 2 \<and> bnd = Last_Rows then Some (replicate 4 (Fin 0))
      else let row = p + (int iy_r + int r - 1) * int iw + int ix_r in do {
        v0 \<leftarrow> rdz src (row - 1);
        v1 \<leftarrow> rdz src (row + 0);
        v2 \<leftarrow> rdz src (row + 1);
        v3 \<leftarrow> (if l = 8 then rdz src (row + 2) else Some (Fin 0));
        Some [v0, v1, v2, v3] })"

text \<open>The shuffles of two of the registers that hold these values.\<close>

definition outer_taps :: "nat \<Rightarrow> ieee list \<Rightarrow> ieee list" where
  "outer_taps l v = [v ! 0, v ! 0, v ! 2, v ! 2] @ (if l = 8 then [v ! 1, v ! 1, v ! 3, v ! 3] else [])"

definition inner_taps :: "nat \<Rightarrow> ieee list \<Rightarrow> ieee list" where
  "inner_taps l v = replicate 4 (v ! 1) @ (if l = 8 then replicate 4 (v ! 2) else [])"

text \<open>One lane: fused in the registers of eight, separate in those of four.\<close>

definition weighted :: "nat \<Rightarrow> ieee \<times> ieee \<times> ieee \<times> ieee \<Rightarrow> ieee \<times> ieee \<times> ieee \<times> ieee \<Rightarrow> ieee" where
  "weighted l = (\<lambda>(s0, s1, s2, s3) (c0, c1, c2, c3).
     if l = 8 then fma b32 s3 c3 (fma b32 s2 c2 (fma b32 s1 c1 (fma b32 s0 c0 (Fin 0))))
     else addf (addf (mulf s0 c0) (mulf s1 c1)) (addf (mulf s2 c2) (mulf s3 c3)))"

definition tri_block ::
    "nat \<Rightarrow> band \<Rightarrow> ieee list \<Rightarrow> int \<Rightarrow> nat \<Rightarrow> nat \<Rightarrow> ieee \<Rightarrow> ieee \<Rightarrow> nat \<Rightarrow> nat \<Rightarrow> nat \<Rightarrow> nat \<Rightarrow> ieee list \<Rightarrow> ieee list option" where
  "tri_block l bnd src p q iw fx fy ow iy_r oy ox dst = do {
     ix_r \<leftarrow> to_size (fround (source_pos ox fx fy));
     above \<leftarrow> taps l bnd src p iw iy_r ix_r 0;
     same \<leftarrow> taps l bnd src p iw iy_r ix_r 1;
     below \<leftarrow> taps l bnd src p iw iy_r ix_r 2;
     loop 4 (\<lambda>i dst.
       let (a, b) = (if i < 2 then (above, same) else (same, below));
           (vc0, vc1, vc2, vc3) = coefs l bnd i ow ox;
           res = map (\<lambda>k. weighted l (outer_taps l a ! k, inner_taps l a ! k, outer_taps l b ! k, inner_taps l b ! k)
             (vc0 ! k, vc1 ! k, vc2 ! k, vc3 ! k)) [0..<l];
           wei = map (\<lambda>k. addf (addf (vc0 ! k) (vc1 ! k)) (addf (vc2 ! k) (vc3 ! k))) [0..<l] in
       blit dst (q + (oy + i) * ow + ox)
         (if bnd \<noteq> Middle_Rows \<or> ox = 0 \<or> ox = ow - l then map2 divf res wei else res)) dst }"

definition tri_rows ::
    "build \<Rightarrow> band \<Rightarrow> ieee list \<Rightarrow> int \<Rightarrow> nat \<Rightarrow> nat \<Rightarrow> ieee \<Rightarrow> ieee \<Rightarrow> nat \<Rightarrow> nat \<Rightarrow> ieee list \<Rightarrow> ieee list option" where
  "tri_rows bld bnd src p q iw fx fy ow oy dst = do {
     iy_r \<leftarrow> to_size (fround (source_pos oy fy fx));
     if bld = SSE then blocks 4 ow (tri_block 4 bnd src p q iw fx fy ow iy_r oy) dst
     else do {
       dst \<leftarrow> blocks 8 ow (tri_block 8 bnd src p q iw fx fy ow iy_r oy) dst;
       loop ((ow mod 8) div 4) (\<lambda>k. tri_block 4 bnd src p q iw fx fy ow iy_r oy (ow div 8 * 8 + k * 4)) dst } }"

definition tri_plane ::
    "build \<Rightarrow> ieee list \<Rightarrow> int \<Rightarrow> nat \<Rightarrow> nat \<Rightarrow> ieee \<Rightarrow> ieee \<Rightarrow> nat \<Rightarrow> nat \<Rightarrow> ieee list \<Rightarrow> ieee list option" where
  "tri_plane bld src p q iw fx fy ow oh dst = do {
     dst \<leftarrow> tri_rows bld First_Rows src p q iw fx fy ow 0 dst;
     dst \<leftarrow> (if oh < 8 then None
       else loop ((oh - 8) div 4) (\<lambda>k. tri_rows bld Middle_Rows src p q iw fx fy ow (4 + k * 4)) dst);
     tri_rows bld Last_Rows src p q iw fx fy ow (oh - 4) dst }"

text \<open>The tensor starts at position \<open>base\<close> of the memory \<open>src\<close>; a pointer reaches what lies around it.\<close>

definition Upsample4x_TriangleInterpolation ::
    "build \<Rightarrow> ieee list \<Rightarrow> nat \<Rightarrow> nat \<Rightarrow> nat \<Rightarrow> ieee \<Rightarrow> ieee \<Rightarrow> nat \<Rightarrow> nat \<Rightarrow> nat \<Rightarrow> nat \<Rightarrow> ieee list \<Rightarrow> ieee list option" where
  "Upsample4x_TriangleInterpolation bld src base iw ih fx fy ow oh channels batch =
     each_plane batch channels (iw * ih) (ow * oh) (\<lambda>p q. tri_plane bld src (int (base + p)) q iw fx fy ow oh)"

section \<open>Execution\<close>

text \<open>A type that is neither of the two leaves the output as it is.\<close>

definition resample_execute :: "build \<Rightarrow> resample_cfg \<Rightarrow> blob \<Rightarrow> blob \<Rightarrow> (status \<times> blob) option" where
  "resample_execute bld cfg inp out = do {
     IN \<leftarrow> rd (dims inp) 0;
     IC \<leftarrow> rd (dims inp) 1;
     IH \<leftarrow> rd (dims inp) 2;
     IW \<leftarrow> rd (dims inp) 3;
     OH \<leftarrow> rd (dims out) 2;
     OW \<leftarrow> rd (dims out) 3;
     let src = data inp;
     let n = IN * IC * IH * IW;
     let fx = divf (n2f IW) (n2f OW);
     let fy = divf (n2f IH) (n2f OH);
     let isDownsample = (flt (Fin 1) fx \<or> flt (Fin 1) fy);
     dst \<leftarrow>
       (if IW = OW \<and> IH = OH \<and> rtype cfg = ''caffe.ResampleParameter.LINEAR'' then
          if n \<le> length src then blit (data out) 0 (take n src) else None
        else if rtype cfg = ''caffe.ResampleParameter.NEAREST'' then
          if bld \<noteq> NoSIMD \<and> \<not> isDownsample \<and> feq fx (Fin (1/4)) \<and> feq fy (Fin (1/4))
          then Upsample4x_Nearest src IW IH fx fy OW OH IC IN (data out)
          else if \<not> isDownsample \<and> feq fx (Fin (1/2)) \<and> feq fy (Fin (1/2))
          then Upsample2x_Nearest src IW IH OW OH IC IN (data out)
          else NearestNeighborKernel src IW IH fx fy OW OH IC IN (data out)
        else if rtype cfg = ''caffe.ResampleParameter.LINEAR'' then
          if bld \<noteq> NoSIMD \<and> \<not> isDownsample \<and> feq fx (Fin (1/4)) \<and> feq fy (Fin (1/4))
          then Upsample4x_TriangleInterpolation bld src 0 IW IH fx fy OW OH IC IN (data out)
          else InterpolationKernel src IW IH fx fy OW OH IC IN 2 (isDownsample \<and> antialias cfg) (data out)
        else Some (data out));
     Some (OK, out\<lparr>data := dst\<rparr>) }"

section \<open>All planes\<close>

lemma each_plane_writes:
  assumes "\<And>n xs. n < B * C \<Longrightarrow> length xs = B * C * osz \<Longrightarrow>
      ok (f (n * isz) (n * osz) xs) (writes {n * osz..<n * osz + osz} h xs)"
    and "length xs = B * C * osz"
  shows "each_plane B C isz osz f xs = Some (map h [0..<B * C * osz])"
proof -
  have plane: "x * C * (n div C) + x * (n mod C) = n * x" for x n
    by (metis add_mult_distrib2 mult.assoc mult.commute mult_div_mod_eq)
  have "each_plane B C isz osz f xs = loop (B * C) (\<lambda>n. f (n * isz) (n * osz)) xs"
    unfolding each_plane_def loop_div_mod plane ..
  moreover have "ok (loop (B * C) (\<lambda>n. f (n * isz) (n * osz)) xs) (writes {0..<0 + B * C * osz} h xs)"
    by (rule loop_writes_segments [OF _ assms(2)]) (use assms(1) in simp)
  ultimately show ?thesis using writes_all [of "B * C * osz" h xs] assms(2) by (auto elim!: okE)
qed

section \<open>Nearest neighbours of an enlarged picture\<close>

text \<open>Rounding of a finite value.\<close>

lemma fround_val: "is_fin x \<Longrightarrow> is_fin (fround x) \<and> val (fround x) = of_int (rha (val x))"
  by (cases x) (auto simp: rha_0 zero_def)

lemma trunc_of_int [simp]: "trunc (of_int i) = i"
  by (simp add: trunc_def)

lemma to_size_round: "is_fin x \<Longrightarrow> rha (val x) = int n \<Longrightarrow> n < 2 ^ 64 \<Longrightarrow> to_size (fround x) = Some n"
  using fround_val [of x] trunc_of_int [of "int n"] by (simp add: to_size_def)

lemma factor_exact:
  assumes "1 \<le> iw" "2 ^ e * iw < 2 ^ 24"
  shows "is_fin (divf (n2f iw) (n2f (2 ^ e * iw))) \<and> val (divf (n2f iw) (n2f (2 ^ e * iw))) = 1 / 2 ^ e"
proof -
  have "iw \<le> 2 ^ e * iw" by simp
  then have iw: "iw < 2 ^ 24" using assms(2) by linarith
  have n: "n2f iw = Fin (of_nat iw)" "n2f (2 ^ e * iw) = Fin (of_nat (2 ^ e * iw))"
    using iw assms(2) by (simp_all add: i2f_exact del: of_nat_mult of_nat_power)
  have "(2::nat) ^ e * 1 \<le> 2 ^ e * iw" using assms(1) by (intro mult_le_mono) simp_all
  then have "(2::nat) ^ e < 2 ^ 24" using assms(2) by linarith
  then have e: "e < 24" by (rule power_less_imp_less_exp [rotated]) simp
  have q: "(of_nat iw :: rat) / of_nat (2 ^ e * iw) = 1 / 2 ^ e" using assms(1) by simp
  have "representable b32 (of_int 1 / 2 ^ e)" using e by (intro dyadic_b32) simp_all
  then show ?thesis
    using fdiv_exact [of b32 "n2f iw" "n2f (2 ^ e * iw)" 1] assms(1) unfolding n val.simps q by simp
qed

lemma source_pos_exact:
  assumes f: "is_fin f" "val f = 1 / 2 ^ e" and e: "e < 23" and k: "k < 2 ^ 22"
  shows "is_fin (source_pos k f f) \<and> val (source_pos k f f) = of_int (2 * int k + 1 - 2 ^ e) / 2 ^ (e + 1)"
proof -
  have two: "(2::int) ^ e \<le> 2 ^ 22" using e by (intro power_increasing) simp_all
  have k': "n2f k = Fin (of_nat k)" using k by (simp add: i2f_exact)
  have small: "\<bar>(of_int i :: rat) / 2 ^ j\<bar> \<le> of_int (2 ^ 23)" if "\<bar>i\<bar> \<le> 2 ^ 23" for i j
  proof -
    have "\<bar>(of_int i :: rat) / 2 ^ j\<bar> = of_int \<bar>i\<bar> / 2 ^ j" by (simp add: abs_divide)
    also have "\<dots> \<le> of_int \<bar>i\<bar> / 1" by (intro divide_left_mono) simp_all
    also have "\<dots> \<le> of_int (2 ^ 23)" using that by (simp only: of_int_le_iff div_by_1)
    finally show ?thesis .
  qed
  have a: "is_fin (mulf (n2f k) f) \<and> val (mulf (n2f k) f) = of_int (int k) / 2 ^ e"
    using fmul_exact [of b32 "n2f k" f "2 ^ 23"] dyadic_b32 [of "int k" e] small [of "int k" e] f e k
    by (simp add: k')
  have h: "is_fin (divf f (Fin 2)) \<and> val (divf f (Fin 2)) = of_int 1 / 2 ^ (e + 1)"
    using fdiv_exact [of b32 f "Fin 2" "2 ^ 23"] dyadic_b32 [of 1 "e + 1"] small [of 1 "e + 1"] f e
    by (simp add: mult.commute)
  have s: "of_int (int k) / 2 ^ e + of_int 1 / 2 ^ (e + 1) = (of_int (2 * int k + 1) / 2 ^ (e + 1) :: rat)"
    by (simp add: field_simps)
  have b: "is_fin (addf (mulf (n2f k) f) (divf f (Fin 2))) \<and>
      val (addf (mulf (n2f k) f) (divf f (Fin 2))) = of_int (2 * int k + 1) / 2 ^ (e + 1)"
    using fadd_exact [of b32 "mulf (n2f k) f" "divf f (Fin 2)" "2 ^ 23"] dyadic_b32 [of "2 * int k + 1" "e + 1"]
      small [of "2 * int k + 1" "e + 1"] a h e k by (simp only: s) simp
  have t: "of_int (2 * int k + 1) / 2 ^ (e + 1) - 1 / 2 = (of_int (2 * int k + 1 - 2 ^ e) / 2 ^ (e + 1) :: rat)"
    by (simp add: field_simps)
  have "(1::int) \<le> 2 ^ e" "(2::int) ^ e \<le> 4194304" "0 \<le> int k" "int k \<le> 4194303" using k two by simp_all
  then have "\<bar>2 * int k + 1 - 2 ^ e\<bar> \<le> 8388608" by linarith
  then have "\<bar>2 * int k + 1 - 2 ^ e\<bar> \<le> 2 ^ 23" by simp
  then show ?thesis
    unfolding source_pos_def
    using fsub_exact [of b32 "addf (mulf (n2f k) f) (divf f (Fin 2))" "Fin (1/2)" "2 ^ 23"] b e
      dyadic_b32 [of "2 * int k + 1 - 2 ^ e" "e + 1"] small [of "2 * int k + 1 - 2 ^ e" "e + 1"]
    by (simp only: t val.simps) simp
qed

lemma rha_nearest: "rha (of_int (2 * int k + 1 - 2 ^ e) / 2 ^ (e + 1)) = int (k div 2 ^ e)"
proof -
  define m where "m = (2::nat) ^ e"
  have m: "0 < m" by (simp add: m_def)
  define j where "j = k div m"
  define i where "i = k mod m"
  have k: "k = j * m + i" "i < m" using m by (simp_all add: j_def i_def)
  let ?v = "(of_int (2 * int k + 1 - 2 ^ e) / 2 ^ (e + 1)) :: rat"
  have v: "?v + 1 / 2 = of_nat j + of_nat (2 * i + 1) / of_nat (2 * m)"
    using m by (simp add: k m_def field_simps)
  have frac: "0 < of_nat (2 * i + 1) / (of_nat (2 * m) :: rat)" "of_nat (2 * i + 1) / (of_nat (2 * m) :: rat) < 1"
    using k m by (simp_all add: divide_less_eq del: of_nat_mult of_nat_add)
  have "rha ?v = int j"
  proof (cases "0 \<le> ?v")
    case True
    have "\<lfloor>?v + 1 / 2\<rfloor> = int j" unfolding v using frac by (intro floor_unique) simp_all
    then show ?thesis using True by (simp add: rha_def)
  next
    case False
    then have "(of_nat j :: rat) < 1 / 2" using v frac by linarith
    then have j: "j = 0" by (cases j) simp_all
    have "- ?v + 1 / 2 = 1 - of_nat (2 * i + 1) / of_nat (2 * m)" using v j by simp
    then have "\<lfloor>- ?v + 1 / 2\<rfloor> = 0" using frac by (intro floor_unique) simp_all
    then show ?thesis using False j by (simp add: rha_def)
  qed
  then show ?thesis by (simp add: j_def m_def)
qed

lemma source_index:
  assumes "is_fin f" "val f = 1 / 2 ^ e" "e < 23" "k < 2 ^ 22"
  shows "to_size (fround (source_pos k f f)) = Some (k div 2 ^ e)"
proof (rule to_size_round)
  note p = source_pos_exact [OF assms]
  then show "is_fin (source_pos k f f)" by simp
  show "rha (val (source_pos k f f)) = int (k div 2 ^ e)" using p rha_nearest by simp
  have "k div 2 ^ e \<le> k" by (rule div_le_dividend)
  also have "k < 2 ^ 22" by fact
  finally show "k div 2 ^ e < 2 ^ 64" by (rule less_trans) simp
qed

text \<open>The planes of \<open>src\<close>, each pixel as a square of \<open>m\<close> by \<open>m\<close>: the value at position \<open>p\<close>.\<close>

definition enlarged :: "nat \<Rightarrow> nat \<Rightarrow> nat \<Rightarrow> ieee list \<Rightarrow> nat \<Rightarrow> ieee" where
  "enlarged m iw ih src p =
     (let ow = m * iw; n = p div (ow * (m * ih)); r = p mod (ow * (m * ih)) in
      src ! (n * (iw * ih) + r div ow div m * iw + r mod ow div m))"

lemma split_index:
  assumes "(r::nat) < s"
  shows "(n * s + r) div s = n" "(n * s + r) mod s = r"
  using assms by simp_all

lemma enlarged_at:
  assumes "oy < m * ih" and "ox < m * iw"
  shows "enlarged m iw ih src (n * (m * iw * (m * ih)) + oy * (m * iw) + ox) =
    src ! (n * (iw * ih) + oy div m * iw + ox div m)"
proof -
  have r: "oy * (m * iw) + ox < m * iw * (m * ih)"
    using index2_less [OF assms] by (simp add: mult.commute)
  note split_index [OF r, of n] split_index [OF assms(2), of oy]
  then show ?thesis unfolding enlarged_def Let_def add.assoc by simp
qed

lemma pixel_index:
  assumes "n < (P::nat)" "y < ih" "x < iw"
  shows "n * (iw * ih) + y * iw + x < P * (iw * ih)"
  using index3_less [OF assms] by (simp add: algebra_simps)

lemma div_less_extent: "(oy::nat) < m * ih \<Longrightarrow> oy div m < ih"
  by (simp add: less_mult_imp_div_less mult.commute)

text \<open>A picture enlarged by a power of two: the factor of both axes is exact.\<close>

definition enlarging :: "nat \<Rightarrow> ieee \<Rightarrow> nat \<Rightarrow> nat \<Rightarrow> nat \<Rightarrow> ieee list \<Rightarrow> bool" where
  "enlarging m f P iw ih src \<longleftrightarrow> (\<exists>e < 23. m = 2 ^ e \<and> is_fin f \<and> val f = 1 / 2 ^ e) \<and>
     m * iw \<le> 2 ^ 22 \<and> m * ih \<le> 2 ^ 22 \<and> length src = P * (iw * ih)"

lemma enlarging_index:
  assumes "enlarging m f P iw ih src"
  shows "oy < m * ih \<Longrightarrow> to_size (fround (source_pos oy f f)) = Some (oy div m)"
    and "ox < m * iw \<Longrightarrow> to_size (fround (source_pos ox f f)) = Some (ox div m)"
  using assms source_index by (auto simp: enlarging_def)

lemma read_source:
  assumes e: "enlarging m f P iw ih src" and "n < P" "oy < m * ih" "ox < m * iw"
  shows "ok (do {
      ix_r \<leftarrow> to_size (fround (source_pos ox f f));
      iy_r \<leftarrow> to_size (fround (source_pos oy f f));
      v \<leftarrow> rd src (n * (iw * ih) + iy_r * iw + ix_r);
      g v }) Q = ok (g (enlarged m iw ih src (n * (m * iw * (m * ih)) + oy * (m * iw) + ox))) Q"
proof -
  have "n * (iw * ih) + oy div m * iw + ox div m < length src"
    using e assms unfolding enlarging_def by (auto intro!: pixel_index div_less_extent)
  then show ?thesis
    using enlarging_index [OF e] assms(3,4) by (simp add: rd_Some enlarged_at [OF assms(3,4)])
qed

lemma nearest_enlarges:
  assumes e: "enlarging m f (B * C) iw ih src" and dst: "length dst = B * C * (m * iw * (m * ih))"
  shows "NearestNeighborKernel src iw ih f f (m * iw) (m * ih) C B dst =
    Some (map (enlarged m iw ih src) [0..<B * C * (m * iw * (m * ih))])"
  unfolding NearestNeighborKernel_def
proof (rule each_plane_writes [OF _ dst])
  fix n and xs :: "ieee list"
  assume n: "n < B * C" and xs: "length xs = B * C * (m * iw * (m * ih))"
  have "ok (loop (m * ih) (\<lambda>oy. loop (m * iw) (\<lambda>ox dst. do {
       ix_r \<leftarrow> to_size (fround (source_pos ox f f));
       iy_r \<leftarrow> to_size (fround (source_pos oy f f));
       v \<leftarrow> rd src (n * (iw * ih) + iy_r * iw + ix_r);
       wr dst (n * (m * iw * (m * ih)) + oy * (m * iw) + ox) v })) xs)
    (writes {n * (m * iw * (m * ih))..<n * (m * iw * (m * ih)) + m * ih * (m * iw)} (enlarged m iw ih src) xs)"
  proof (rule rows_write [OF _ xs])
    fix oy ox and ys :: "ieee list"
    assume o: "oy < m * ih" "ox < m * iw" and ys: "length ys = B * C * (m * iw * (m * ih))"
    show "ok (do {
       ix_r \<leftarrow> to_size (fround (source_pos ox f f));
       iy_r \<leftarrow> to_size (fround (source_pos oy f f));
       v \<leftarrow> rd src (n * (iw * ih) + iy_r * iw + ix_r);
       wr ys (n * (m * iw * (m * ih)) + oy * (m * iw) + ox) v })
      (writes {n * (m * iw * (m * ih)) + oy * (m * iw) + ox} (enlarged m iw ih src) ys)"
      unfolding read_source [OF e n o] using pixel_index [OF n o] ys by (simp add: ok_wr writes_update)
  qed
  then show "ok (loop (m * ih) (\<lambda>oy. loop (m * iw) (\<lambda>ox dst. do {
       ix_r \<leftarrow> to_size (fround (source_pos ox f f));
       iy_r \<leftarrow> to_size (fround (source_pos oy f f));
       v \<leftarrow> rd src (n * (iw * ih) + iy_r * iw + ix_r);
       wr dst (n * (m * iw * (m * ih)) + oy * (m * iw) + ox) v })) xs)
    (writes {n * (m * iw * (m * ih))..<n * (m * iw * (m * ih)) + m * iw * (m * ih)} (enlarged m iw ih src) xs)"
    by (simp only: mult.commute [of "m * iw" "m * ih"])
qed

text \<open>The two loops that write squares directly.\<close>

lemma upsample2_enlarges:
  assumes src: "length src = B * C * (iw * ih)" and dst: "length dst = B * C * (2 * iw * (2 * ih))"
  shows "Upsample2x_Nearest src iw ih (2 * iw) (2 * ih) C B dst =
    Some (map (enlarged 2 iw ih src) [0..<B * C * (2 * iw * (2 * ih))])"
  unfolding Upsample2x_Nearest_def
proof (rule each_plane_writes [OF _ dst])
  fix n and xs :: "ieee list"
  assume n: "n < B * C" and xs: "length xs = B * C * (2 * iw * (2 * ih))"
  let ?q = "n * (2 * iw * (2 * ih))" and ?h = "enlarged 2 iw ih src"
  let ?body = "\<lambda>iy ix dst. do {
       let oy = 2 * iy;
       let ox = 2 * ix;
       v \<leftarrow> rd src (n * (iw * ih) + iy * iw + ix);
       dst \<leftarrow> wr dst (?q + ((oy + 0) * (2 * iw) + ox + 0)) v;
       dst \<leftarrow> wr dst (?q + ((oy + 0) * (2 * iw) + ox + 1)) v;
       dst \<leftarrow> wr dst (?q + ((oy + 1) * (2 * iw) + ox + 0)) v;
       wr dst (?q + ((oy + 1) * (2 * iw) + ox + 1)) v }"
  have square: "ok (?body iy ix ys) (writes ({?q + 2 * iy * (2 * iw) + ix * 2..<?q + 2 * iy * (2 * iw) + ix * 2 + 2} \<union>
      {?q + (2 * iy + 1) * (2 * iw) + ix * 2..<?q + (2 * iy + 1) * (2 * iw) + ix * 2 + 2}) ?h ys)"
    if i: "iy < ih" "ix < iw" and ys: "length ys = B * C * (2 * iw * (2 * ih))" for iy ix ys
  proof -
    let ?v = "src ! (n * (iw * ih) + iy * iw + ix)" and ?p = "\<lambda>a b. ?q + (2 * iy + a) * (2 * iw) + (2 * ix + b)"
    have rd: "rd src (n * (iw * ih) + iy * iw + ix) = Some ?v"
      using pixel_index [OF n i] src by (simp add: rd_Some)
    have p: "?p a b < length ys" "?h (?p a b) = ?v" if "a < 2" "b < 2" for a b
    proof -
      have o: "2 * iy + a < 2 * ih" "2 * ix + b < 2 * iw" using i that by simp_all
      then show "?p a b < length ys" using pixel_index [OF n o] ys by simp
      show "?h (?p a b) = ?v" using enlarged_at [OF o] that by simp
    qed
    have pair: "{x..<x + 2} = {x, x + 1}" for x :: nat by auto
    have cells: "{?q + 2 * iy * (2 * iw) + ix * 2..<?q + 2 * iy * (2 * iw) + ix * 2 + 2} = {?p 0 0, ?p 0 1}"
      "{?q + (2 * iy + 1) * (2 * iw) + ix * 2..<?q + (2 * iy + 1) * (2 * iw) + ix * 2 + 2} = {?p 1 0, ?p 1 1}"
      unfolding pair by (simp_all add: mult.commute [of ix])
    have "writes ({?p 0 0, ?p 0 1} \<union> {?p 1 0, ?p 1 1}) ?h ys
        (ys[?p 0 0 := ?v, ?p 0 1 := ?v, ?p 1 0 := ?v, ?p 1 1 := ?v])"
      by (rule writes_square) (rule p; simp)+
    then show ?thesis
      unfolding cells using p(1) [of 0 0] p(1) [of 0 1] p(1) [of 1 0] p(1) [of 1 1]
      by (simp add: rd [unfolded add.assoc] wr_Some Let_def add.assoc)
  qed
  have row: "ok (loop iw (?body iy) ys) (writes {?q + iy * (2 * (2 * iw))..<?q + iy * (2 * (2 * iw)) + 2 * (2 * iw)} ?h ys)"
    if iy: "iy < ih" and ys: "length ys = B * C * (2 * iw * (2 * ih))" for iy ys
  proof -
    have "(\<Union>ix<iw. {?q + 2 * iy * (2 * iw) + ix * 2..<?q + 2 * iy * (2 * iw) + ix * 2 + 2} \<union>
        {?q + (2 * iy + 1) * (2 * iw) + ix * 2..<?q + (2 * iy + 1) * (2 * iw) + ix * 2 + 2}) =
      {?q + 2 * iy * (2 * iw)..<?q + 2 * iy * (2 * iw) + iw * 2} \<union>
      {?q + (2 * iy + 1) * (2 * iw)..<?q + (2 * iy + 1) * (2 * iw) + iw * 2}"
      unfolding UN_Un_distrib segments ..
    also have "\<dots> = {?q + iy * (2 * (2 * iw))..<?q + iy * (2 * (2 * iw)) + 2 * (2 * iw)}"
      by (auto simp: algebra_simps)
    finally have rows: "(\<Union>ix<iw. {?q + 2 * iy * (2 * iw) + ix * 2..<?q + 2 * iy * (2 * iw) + ix * 2 + 2} \<union>
        {?q + (2 * iy + 1) * (2 * iw) + ix * 2..<?q + (2 * iy + 1) * (2 * iw) + ix * 2 + 2}) =
      {?q + iy * (2 * (2 * iw))..<?q + iy * (2 * (2 * iw)) + 2 * (2 * iw)}" .
    show ?thesis by (subst rows [symmetric]) (rule loop_writes [OF square [OF iy] ys])
  qed
  have "ok (loop ih (\<lambda>iy. loop iw (?body iy)) xs) (writes {?q..<?q + ih * (2 * (2 * iw))} ?h xs)"
    by (rule loop_writes_segments [OF row xs])
  then show "ok (loop ih (\<lambda>iy. loop iw (?body iy)) xs) (writes {?q..<?q + 2 * iw * (2 * ih)} ?h xs)"
    by (simp add: ac_simps)
qed

lemma upsample4_enlarges:
  assumes e: "enlarging 4 f (B * C) iw ih src" and iw: "1 \<le> iw" and dst: "length dst = B * C * (4 * iw * (4 * ih))"
  shows "Upsample4x_Nearest src iw ih f f (4 * iw) (4 * ih) C B dst =
    Some (map (enlarged 4 iw ih src) [0..<B * C * (4 * iw * (4 * ih))])"
  unfolding Upsample4x_Nearest_def
proof (rule each_plane_writes [OF _ dst])
  fix n and xs :: "ieee list"
  assume n: "n < B * C" and xs: "length xs = B * C * (4 * iw * (4 * ih))"
  let ?q = "n * (4 * iw * (4 * ih))" and ?h = "enlarged 4 iw ih src"
  let ?body = "\<lambda>oy ox dst. do {
       ix_r \<leftarrow> to_size (fround (source_pos ox f f));
       iy_r \<leftarrow> to_size (fround (source_pos oy f f));
       v \<leftarrow> rd src (n * (iw * ih) + iy_r * iw + ix_r);
       blit dst (?q + oy * (4 * iw) + ox) [v, v, v, v] }"
  have block: "ok (?body oy (k * 4) ys) (writes {?q + oy * (4 * iw) + k * 4..<?q + oy * (4 * iw) + k * 4 + 4} ?h ys)"
    if o: "oy < 4 * ih" "k < iw" and ys: "length ys = B * C * (4 * iw * (4 * ih))" for oy k ys
  proof -
    let ?p = "?q + oy * (4 * iw) + k * 4" and ?v = "?h (?q + oy * (4 * iw) + k * 4)"
    have i: "k * 4 + j < 4 * iw" if "j < 4" for j using o(2) that by linarith
    have h: "?h (?p + j) = ?v" if "j < 4" for j
      using enlarged_at [OF o(1) i [OF that], of src n] enlarged_at [OF o(1) i [of 0], of src n] that
      by (simp add: add.assoc)
    have "?p + 3 < length ys" using pixel_index [OF n o(1) i [of 3]] ys by (simp add: add.assoc)
    moreover have "ok (?body oy (k * 4) ys) Q = ok (blit ys ?p [?v, ?v, ?v, ?v]) Q" for Q
      using read_source [OF e n o(1) i [of 0], where g = "\<lambda>v. blit ys ?p [v, v, v, v]"] by simp
    moreover have "[?v, ?v, ?v, ?v] ! j = ?v" if "j < 4" for j
      using that by (auto simp: less_Suc_eq numeral_eq_Suc)
    then have "writes {?p..<?p + 4} ?h ys (put ys ?p [?v, ?v, ?v, ?v])"
      using h calculation by (intro writes_put) simp_all
    ultimately show ?thesis by (simp only: ok_blit) simp
  qed
  have "ok (blocks 4 (4 * iw) (?body oy) ys) (writes {?q + oy * (4 * iw)..<?q + oy * (4 * iw) + 4 * iw} ?h ys)"
    if "oy < 4 * ih" and "length ys = B * C * (4 * iw * (4 * ih))" for oy ys
    using iw loop_writes_segments [where m = iw and l = 4 and f = "\<lambda>k. ?body oy (k * 4)" and b = "?q + oy * (4 * iw)" and h = ?h and xs = ys and L = "B * C * (4 * iw * (4 * ih))"]
      block that by (simp add: blocks_def mult.commute)
  then have "ok (loop (4 * ih) (\<lambda>oy. blocks 4 (4 * iw) (?body oy)) xs) (writes {?q..<?q + 4 * ih * (4 * iw)} ?h xs)"
    by (rule loop_writes_segments [OF _ xs])
  then show "ok (loop (4 * ih) (\<lambda>oy. blocks 4 (4 * iw) (?body oy)) xs) (writes {?q..<?q + 4 * iw * (4 * ih)} ?h xs)"
    by (simp only: mult.commute [of "4 * iw" "4 * ih"])
qed

lemma feq_fin: "is_fin x \<Longrightarrow> is_fin y \<Longrightarrow> feq x y \<longleftrightarrow> val x = val y"
  by (auto simp: feq_iff fle_fin)

lemma inverse_power_eq: "(1::rat) / 2 ^ e = 1 / 2 ^ d \<longleftrightarrow> e = d"
  by simp

text \<open>
  C14: Nearest-neighbour resampling by a power of two gives each pixel of the source as a
  square of equal pixels, for every image and channel, whichever of the three kernels the
  build and the factor select: the general one, the one for the factor 2, or the vector
  kernel for the factor 4.
\<close>

theorem resample_nearest:
  assumes type: "rtype cfg = ''caffe.ResampleParameter.NEAREST''"
    and dims: "dims inp = [N, C, IH, IW]" "dims out = [N, C, 2 ^ e * IH, 2 ^ e * IW]"
    and size: "1 \<le> IH" "1 \<le> IW" "2 ^ e * IH \<le> 2 ^ 22" "2 ^ e * IW \<le> 2 ^ 22"
    and src: "length (data inp) = N * C * (IW * IH)"
    and dst: "length (data out) = N * C * (2 ^ e * IW * (2 ^ e * IH))"
  shows "resample_execute bld cfg inp out =
    Some (OK, out\<lparr>data := map (enlarged (2 ^ e) IW IH (data inp)) [0..<N * C * (2 ^ e * IW * (2 ^ e * IH))]\<rparr>)"
proof -
  let ?fx = "divf (n2f IW) (n2f (2 ^ e * IW))" and ?fy = "divf (n2f IH) (n2f (2 ^ e * IH))"
  have r: "rd [a, b, c, d] 0 = Some a" "rd [a, b, c, d] 1 = Some b" "rd [a, b, c, d] 2 = Some c" "rd [a, b, c, d] 3 = Some d"
    for a b c d :: nat by (simp_all add: rd_def)
  have fx: "is_fin ?fx" "val ?fx = 1 / 2 ^ e" and fy: "is_fin ?fy" "val ?fy = 1 / 2 ^ e"
    using factor_exact [of IW e] factor_exact [of IH e] size by auto
  then have ne: "?fx \<noteq> NegZero" "?fy \<noteq> NegZero" by auto
  have f: "?fy = ?fx" using fx fy ne by (cases ?fx; cases ?fy) auto
  have "(2::nat) ^ e * 1 \<le> 2 ^ e * IW" using size(2) by (intro mult_le_mono) simp_all
  then have "(2::nat) ^ e \<le> 2 ^ 22" using size(4) by linarith
  then have "e \<le> 22" by (rule power_le_imp_le_exp [rotated]) simp
  define g where "g = ?fx"
  have g: "is_fin g" "val g = 1 / 2 ^ e" using fx by (simp_all add: g_def)
  have big: "enlarging (2 ^ e) g (N * C) IW IH (data inp)"
    unfolding enlarging_def using g size src \<open>e \<le> 22\<close> by (intro conjI exI [of _ e]) simp_all
  have down: "\<not> flt (Fin 1) g" using g one_le_power [of "2 :: rat" e] by (simp add: flt_fin not_less)
  have by4: "feq g (Fin (1/4)) \<longleftrightarrow> e = 2" and by2: "feq g (Fin (1/2)) \<longleftrightarrow> e = 1"
    using g inverse_power_eq [of e 2] inverse_power_eq [of e 1] by (simp_all add: feq_fin)
  let ?d = "map (enlarged (2 ^ e) IW IH (data inp)) [0..<N * C * (2 ^ e * IW * (2 ^ e * IH))]"
  have two: "Upsample2x_Nearest (data inp) IW IH (2 ^ e * IW) (2 ^ e * IH) C N (data out) = Some ?d" if "e = 1"
    using upsample2_enlarges [of "data inp" N C IW IH "data out"] src dst unfolding that power_one_right by simp
  have four: "Upsample4x_Nearest (data inp) IW IH g g (2 ^ e * IW) (2 ^ e * IH) C N (data out) = Some ?d" if "e = 2"
  proof -
    have p: "(2::nat) ^ e = 4" using that by simp
    show ?thesis using upsample4_enlarges [OF big [unfolded p] size(2) dst [unfolded p]] unfolding p .
  qed
  show ?thesis
    unfolding resample_execute_def dims r Option.bind.bind_lunit Let_def type f g_def [symmetric]
    using nearest_enlarges [OF big dst] two four
    by (cases "e = 2"; cases "e = 1") (simp_all add: down by4 by2 del: upt.simps)
qed

theorem resample_nearest_witness:
  "resample_execute SSE \<lparr>rtype = ''caffe.ResampleParameter.NEAREST'', antialias = False\<rparr>
     \<lparr>dims = [1, 1, 1, 2], data = [Fin 5, Fin 7]\<rparr> \<lparr>dims = [1, 1, 2, 4], data = replicate 8 (Fin 0)\<rparr> =
   Some (OK, \<lparr>dims = [1, 1, 2, 4], data = [Fin 5, Fin 5, Fin 7, Fin 7, Fin 5, Fin 5, Fin 7, Fin 7]\<rparr>)"
proof -
  let ?cfg = "\<lparr>rtype = ''caffe.ResampleParameter.NEAREST'', antialias = False\<rparr>"
  let ?in = "\<lparr>dims = [1, 1, 1, 2], data = [Fin 5, Fin 7]\<rparr>" and ?out = "\<lparr>dims = [1, 1, 2, 4], data = replicate 8 (Fin 0)\<rparr>"
  have "resample_execute SSE ?cfg ?in ?out = Some (OK, ?out\<lparr>data := map (enlarged (2 ^ 1) 2 1 (data ?in)) [0..<1 * 1 * (2 ^ 1 * 2 * (2 ^ 1 * 1))]\<rparr>)"
    by (rule resample_nearest) simp_all
  moreover have "map (enlarged (2 ^ 1) 2 1 (data ?in)) [0..<1 * 1 * (2 ^ 1 * 2 * (2 ^ 1 * 1))] =
      [Fin 5, Fin 5, Fin 7, Fin 7, Fin 5, Fin 5, Fin 7, Fin 7]" by code_simp
  ultimately show ?thesis by simp
qed

section \<open>Linear interpolation stays inside the planes\<close>

text \<open>
  The taps of a pixel: the positions of the window that lie in the plane, row by row. Their
  weights and values are summed up in this order, and the quotient is the pixel.
\<close>

definition window :: "int \<Rightarrow> int \<Rightarrow> nat \<Rightarrow> int list" where
  "window mid r n = filter (\<lambda>i. 0 \<le> i \<and> i < int n) [mid - r..mid + r]"

definition tap_weight :: "ieee \<Rightarrow> ieee \<Rightarrow> ieee \<Rightarrow> ieee \<Rightarrow> int \<Rightarrow> int \<Rightarrow> ieee" where
  "tap_weight ix iy ax ay y x =
     mulf (mulf (mulf ax (triangleCoeff (mulf ax (subf ix (i2f x))))) ay) (triangleCoeff (mulf ay (subf iy (i2f y))))"

definition weighted_mean :: "(ieee \<times> ieee) list \<Rightarrow> ieee" where
  "weighted_mean ws =
     (let (s, w) = foldl (\<lambda>(s, w) (wt, v). (addf s (mulf wt v), addf w wt)) (Fin 0, Fin 0) ws in
      if feq w (Fin 0) then Fin 0 else divf s w)"

definition lin_pixel :: "ieee list \<Rightarrow> nat \<Rightarrow> nat \<Rightarrow> nat \<Rightarrow> ieee \<Rightarrow> ieee \<Rightarrow> bool \<Rightarrow> nat \<Rightarrow> nat \<Rightarrow> ieee" where
  "lin_pixel src p iw ih fx fy aa oy ox =
     (let ix = source_pos ox fx fy; iy = source_pos oy fy fx;
          ax = divf (Fin 1) (if aa then fx else Fin 1); ay = divf (Fin 1) (if aa then fy else Fin 1);
          rows = window (the (to_int (fround iy))) (the (radius fy 2 ay)) ih;
          cols = window (the (to_int (fround ix))) (the (radius fx 2 ax)) iw in
      weighted_mean (concat (map (\<lambda>y. map (\<lambda>x. (tap_weight ix iy ax ay y x, src ! (p + nat y * iw + nat x))) cols) rows)))"

lemma loop_foldl:
  assumes "\<And>i s. i < n \<Longrightarrow> f i s = Some (g s i)"
  shows "loop n f s = Some (foldl g s [0..<n])"
  using assms by (induction n) auto

lemma upto_upt: "[lo..hi] = map (\<lambda>k. lo + int k) [0..<nat (hi - lo + 1)]"
  by (intro nth_equalityI) auto

lemma foldl_filter: "foldl (\<lambda>s i. if P i then g s i else s) s xs = foldl g s (filter P xs)"
  by (induction xs arbitrary: s) auto

lemma loop_window:
  assumes "\<And>i s. 0 \<le> i \<Longrightarrow> i < int n \<Longrightarrow> f i s = Some (g s i)" and "\<And>i s. i < 0 \<or> int n \<le> i \<Longrightarrow> f i s = Some s"
  shows "loop (nat (2 * r + 1)) (\<lambda>k. f (mid - r + int k)) s = Some (foldl g s (window mid r n))"
proof -
  have "f i s = Some (if 0 \<le> i \<and> i < int n then g s i else s)" for i s
    using assms(1) [of i s] assms(2) [of i s] by auto
  then have "loop (nat (2 * r + 1)) (\<lambda>k. f (mid - r + int k)) s =
      Some (foldl (\<lambda>s k. if 0 \<le> mid - r + int k \<and> mid - r + int k < int n then g s (mid - r + int k) else s) s [0..<nat (2 * r + 1)])"
    by (intro loop_foldl) simp
  also have "\<dots> = Some (foldl (\<lambda>s i. if 0 \<le> i \<and> i < int n then g s i else s) s (map (\<lambda>k. mid - r + int k) [0..<nat (2 * r + 1)]))"
    by (simp add: foldl_map)
  also have "\<dots> = Some (foldl g s (window mid r n))"
    unfolding foldl_filter window_def upto_upt by simp
  finally show ?thesis .
qed

lemma foldl_concat: "foldl g s (concat xss) = foldl (foldl g) s xss"
  by (induction xss arbitrary: s) simp_all

lemma interpolated_eq:
  assumes x: "to_int (fround (source_pos ox fx fy)) = Some ixr" "to_int (fround (source_pos oy fy fx)) = Some iyr"
    and r: "radius fx 2 (divf (Fin 1) (if aa then fx else Fin 1)) = Some rx"
      "radius fy 2 (divf (Fin 1) (if aa then fy else Fin 1)) = Some ry"
    and src: "p + iw * ih \<le> length src"
  shows "interpolated src p iw ih fx fy 2 aa oy ox = Some (lin_pixel src p iw ih fx fy aa oy ox)"
proof -
  let ?ix = "source_pos ox fx fy" and ?iy = "source_pos oy fy fx"
  let ?ax = "divf (Fin 1) (if aa then fx else Fin 1)" and ?ay = "divf (Fin 1) (if aa then fy else Fin 1)"
  let ?w = "tap_weight ?ix ?iy ?ax ?ay" and ?v = "\<lambda>y x. src ! (p + nat y * iw + nat x)"
  let ?add = "\<lambda>(s, w) (wt, v). (addf s (mulf wt v), addf w wt)"
  have tap: "add_tap src p iw ih (?ix, ?iy) (?ax, ?ay) y x s =
      Some (if 0 \<le> y \<and> y < int ih \<and> 0 \<le> x \<and> x < int iw then ?add s (?w y x, ?v y x) else s)" for y x s
  proof -
    have "p + nat y * iw + nat x < length src" if "0 \<le> y" "y < int ih" "0 \<le> x" "x < int iw"
      using index2_less [of "nat y" ih "nat x" iw] that src by (simp add: nat_less_iff mult.commute)
    then show ?thesis by (cases s) (auto simp: add_tap_def tap_weight_def Let_def rd_Some)
  qed
  have row: "loop (nat (2 * rx + 1)) (\<lambda>l. add_tap src p iw ih (?ix, ?iy) (?ax, ?ay) y (ixr - rx + int l)) s =
      Some (if 0 \<le> y \<and> y < int ih then foldl ?add s (map (\<lambda>x. (?w y x, ?v y x)) (window ixr rx iw)) else s)" for y s
  proof (cases "0 \<le> y \<and> y < int ih")
    case True
    have "loop (nat (2 * rx + 1)) (\<lambda>l. add_tap src p iw ih (?ix, ?iy) (?ax, ?ay) y (ixr - rx + int l)) s =
        Some (foldl (\<lambda>s x. ?add s (?w y x, ?v y x)) s (window ixr rx iw))"
      by (rule loop_window) (use True in \<open>auto simp: tap\<close>)
    with True show ?thesis by (simp add: foldl_map)
  next
    case False
    have none: "loop (nat (2 * rx + 1)) (\<lambda>l. add_tap src p iw ih (?ix, ?iy) (?ax, ?ay) y (ixr - rx + int l)) s =
        Some (foldl (\<lambda>s x. s) s (window ixr rx iw))"
      by (rule loop_window) (use False in \<open>auto simp: tap\<close>)
    have id: "foldl (\<lambda>s x. s) s xs = s" for xs :: "int list" by (induction xs) auto
    show ?thesis unfolding none id if_not_P [OF False] ..
  qed
  have "loop (nat (2 * ry + 1)) (\<lambda>k. loop (nat (2 * rx + 1)) (\<lambda>l.
        add_tap src p iw ih (?ix, ?iy) (?ax, ?ay) (iyr - ry + int k) (ixr - rx + int l))) (Fin 0, Fin 0) =
      Some (foldl (\<lambda>s y. foldl ?add s (map (\<lambda>x. (?w y x, ?v y x)) (window ixr rx iw))) (Fin 0, Fin 0) (window iyr ry ih))"
    by (rule loop_window) (auto simp: row)
  also have "foldl (\<lambda>s y. foldl ?add s (map (\<lambda>x. (?w y x, ?v y x)) (window ixr rx iw))) (Fin 0, Fin 0) (window iyr ry ih) =
      foldl ?add (Fin 0, Fin 0) (concat (map (\<lambda>y. map (\<lambda>x. (?w y x, ?v y x)) (window ixr rx iw)) (window iyr ry ih)))"
    by (simp only: foldl_concat foldl_map)
  finally show ?thesis
    unfolding interpolated_def lin_pixel_def weighted_mean_def Let_def x r Option.bind.bind_lunit option.sel
    by (simp only: Option.bind.bind_lunit split_beta)
qed

text \<open>Factors and positions for extents up to a million.\<close>

definition extent :: "nat \<Rightarrow> bool" where
  "extent n \<longleftrightarrow> 1 \<le> n \<and> n \<le> 2 ^ 20"

lemma extent_exact: "extent n \<Longrightarrow> n2f n = Fin (of_nat n)"
  by (simp add: extent_def i2f_exact)

lemma extent_rat:
  assumes "extent n"
  shows "1 \<le> (of_nat n :: rat)" "of_nat n \<le> (2 ^ 20 :: rat)"
proof -
  have "(of_nat 1 :: rat) \<le> of_nat n" "(of_nat n :: rat) \<le> of_nat (2 ^ 20)"
    using assms unfolding extent_def of_nat_le_iff by blast+
  then show "1 \<le> (of_nat n :: rat)" "of_nat n \<le> (2 ^ 20 :: rat)" by simp_all
qed

lemma emin_small: "(2::rat) powi emin b32 \<le> 1 / 2 ^ 20"
proof -
  have "(2::rat) powi emin b32 \<le> 2 powi (- 20)" by (rule powi2_le) (simp add: b32_def)
  also have "\<dots> = 1 / 2 ^ 20" by (simp add: power_int_minus field_simps)
  finally show ?thesis .
qed

lemma factor_bounds:
  assumes n: "extent n" and m: "extent m"
  shows "is_fin (divf (n2f n) (n2f m))" and "0 \<le> val (divf (n2f n) (n2f m))"
    and "val (divf (n2f n) (n2f m)) \<le> of_nat n"
    and "of_nat m * val (divf (n2f n) (n2f m)) \<le> of_nat (n + 1)"
proof -
  define q where "q = (of_nat n :: rat) / of_nat m"
  note nm = extent_rat [OF n] extent_rat [OF m]
  have q: "0 < q" "q \<le> of_nat n" "of_nat m * q = of_nat n"
    using nm by (simp_all add: q_def divide_le_eq mult_le_cancel_left1)
  have "1 / 2 ^ 20 \<le> q" unfolding q_def using nm by (intro frac_le) simp_all
  then have norm: "2 powi emin b32 \<le> q" using emin_small by (rule order_trans [rotated])
  have d: "is_fin (divf (n2f n) (n2f m)) \<and> of_int 0 \<le> val (divf (n2f n) (n2f m)) \<and> val (divf (n2f n) (n2f m)) \<le> of_int (int n)"
    using nm q n m by (intro fdiv_bounded) (simp_all add: extent_exact extent_def flip: q_def)
  then show "is_fin (divf (n2f n) (n2f m))" "0 \<le> val (divf (n2f n) (n2f m))" "val (divf (n2f n) (n2f m)) \<le> of_nat n"
    by simp_all
  have "val (divf (n2f n) (n2f m)) = rnd b32 q"
    using d n m nm by (auto simp: fdiv_def extent_exact mk_def Let_def zero_def q_def split: if_splits)
  also have "\<dots> \<le> q + q * 2 powi (1 - int (prec b32))" by (rule rnd_le [OF q(1) norm])
  finally have "of_nat m * val (divf (n2f n) (n2f m)) \<le> of_nat m * (q + q * 2 powi (- 23))"
    by (intro mult_left_mono) simp_all
  also have "\<dots> = of_nat n + of_nat n * 2 powi (- 23)" by (simp add: distrib_left q(3) flip: mult.assoc)
  also have "\<dots> \<le> of_nat n + 1"
  proof -
    have "of_nat n * (2::rat) powi (- 23) \<le> 2 ^ 20 * 2 powi (- 23)" using nm(2) by (intro mult_right_mono) simp_all
    also have "\<dots> \<le> 1" by (simp add: power_int_minus)
    finally show ?thesis by simp
  qed
  finally show "of_nat m * val (divf (n2f n) (n2f m)) \<le> of_nat (n + 1)" by simp
qed

lemma source_pos_bounds:
  assumes f: "is_fin f" "0 \<le> val f" "of_nat m * val f \<le> of_nat (n + 1)" and m: "extent m" and n: "n \<le> 2 ^ 20" and k: "k < m"
    and g: "is_fin g" "0 \<le> val g" "val g \<le> 2 ^ 20"
  shows "\<exists>i. to_int (fround (source_pos k f g)) = Some i"
proof -
  have k': "n2f k = Fin (of_nat k)" using k m by (simp add: extent_def i2f_exact)
  have "of_nat k * val f \<le> of_nat m * val f" using k f(2) by (intro mult_right_mono) simp_all
  then have p: "0 \<le> of_nat k * val f" "of_nat k * val f \<le> of_nat (n + 1)" using f(2,3) by simp_all
  have a: "is_fin (mulf (n2f k) f) \<and> of_int 0 \<le> val (mulf (n2f k) f) \<and> val (mulf (n2f k) f) \<le> of_int (2 ^ 20 + 1)"
  proof (rule fmul_bounded)
    have "(of_nat (n + 1) :: rat) \<le> of_nat (2 ^ 20 + 1)" using n by (simp only: of_nat_le_iff)
    then show "val (n2f k) * val f \<le> of_int (2 ^ 20 + 1)" using p by (simp add: k')
  qed (use f p in \<open>simp_all add: k'\<close>)
  have h: "is_fin (divf g (Fin 2)) \<and> of_int 0 \<le> val (divf g (Fin 2)) \<and> val (divf g (Fin 2)) \<le> of_int (2 ^ 20)"
    using g by (intro fdiv_bounded) simp_all
  let ?s = "addf (mulf (n2f k) f) (divf g (Fin 2))"
  have b: "is_fin ?s \<and> of_int 0 \<le> val ?s \<and> val ?s \<le> of_int (2 ^ 21 + 1)"
    using a h by (intro fadd_bounded) simp_all
  have c: "is_fin (source_pos k f g) \<and> of_int (- 1) \<le> val (source_pos k f g) \<and> val (source_pos k f g) \<le> of_int (2 ^ 21 + 1)"
    unfolding source_pos_def using b by (intro fsub_bounded) simp_all
  then have "is_fin (fround (source_pos k f g))" "of_int (- 1) \<le> val (fround (source_pos k f g))"
    "val (fround (source_pos k f g)) \<le> of_int (2 ^ 21 + 1)"
    using fround_val [of "source_pos k f g"] rha_bounded [of "- 1" "val (source_pos k f g)" "2 ^ 21 + 1"]
    by (simp_all only: of_int_le_iff)
  then show ?thesis using to_int_bounded [of "fround (source_pos k f g)" "- 1" "2 ^ 21 + 1"] by auto
qed

lemma radius_bounds:
  assumes f: "is_fin f" "0 \<le> val f" "val f \<le> 2 ^ 20"
  shows "\<exists>r. radius f 2 (divf (Fin 1) (if aa then f else Fin 1)) = Some r"
proof (cases "flt f (Fin 1)")
  case True
  then show ?thesis by (simp add: radius_def)
next
  case False
  let ?g = "if aa then f else Fin 1"
  have g: "is_fin ?g" "1 \<le> val ?g" "val ?g \<le> 2 ^ 20"
    using False f by (auto simp: flt_fin)
  define a where "a = divf (Fin 1) ?g"
  define q where "q = 1 / val ?g"
  have q: "0 < q" "q \<le> 1" "1 / 2 ^ 20 \<le> q"
    unfolding q_def using g by (auto intro!: frac_le)
  have norm: "2 powi emin b32 \<le> q" using emin_small q(3) by (rule order_trans)
  have a: "is_fin a \<and> of_int 0 \<le> val a \<and> val a \<le> of_int 1"
    unfolding a_def using g q by (intro fdiv_bounded) (simp_all flip: q_def)
  then have "val a = rnd b32 q"
    using g by (auto simp: a_def fdiv_def is_fin_not_nan mk_def Let_def zero_def q_def split: if_splits)
  then have "q / 2 \<le> val a" using rnd_half [OF fmt_ok_b32 norm] by simp
  then have va: "1 / 2 ^ 21 \<le> val a" using q(3) by simp
  have two: "n2f 2 = Fin 2" using i2f_exact [of 2] by simp
  have "0 < val a" by (rule less_le_trans [OF _ va]) simp
  moreover have "2 / val a \<le> 2 / (1 / 2 ^ 21)" using va by (intro frac_le) simp_all
  ultimately have d: "is_fin (divf (n2f 2) a) \<and> of_int 0 \<le> val (divf (n2f 2) a) \<and> val (divf (n2f 2) a) \<le> of_int (2 ^ 22)"
    using a two by (intro fdiv_bounded) simp_all
  have "is_fin (fceil x) \<and> val (fceil x) = of_int \<lceil>val x\<rceil>" if "is_fin x" for x
    using that by (cases x) (auto simp: zero_def)
  with d have "is_fin (fceil (divf (n2f 2) a))" "of_int 0 \<le> val (fceil (divf (n2f 2) a))"
    "val (fceil (divf (n2f 2) a)) \<le> of_int (2 ^ 22)"
    by (simp_all add: ceiling_le_iff le_ceiling_iff)
  then have "\<exists>r. to_int (fceil (divf (n2f 2) a)) = Some r"
    using to_int_bounded [of "fceil (divf (n2f 2) a)" 0 "2 ^ 22"] by auto
  then show ?thesis using False unfolding radius_def a_def [symmetric] by simp
qed

text \<open>
  C29: Linear resampling outside the vector code stays inside its buffers for every pair of
  extents up to a million, enlarging and reducing, with and without antialiasing: no
  conversion leaves its range, and every output pixel is the mean of the taps of its window
  that lie in the plane, weighted by the triangle filter.
\<close>

theorem resample_linear:
  assumes type: "rtype cfg = ''caffe.ResampleParameter.LINEAR''"
    and dims: "dims inp = [N, C, IH, IW]" "dims out = [N, C, OH, OW]"
    and size: "extent IH" "extent IW" "extent OH" "extent OW" and new: "IW \<noteq> OW \<or> IH \<noteq> OH"
    and fx: "fx = divf (n2f IW) (n2f OW)" and fy: "fy = divf (n2f IH) (n2f OH)"
    and scalar: "bld = NoSIMD \<or> \<not> feq fx (Fin (1/4)) \<or> \<not> feq fy (Fin (1/4))"
    and src: "length (data inp) = N * C * (IW * IH)" and dst: "length (data out) = N * C * (OW * OH)"
  shows "resample_execute bld cfg inp out = Some (OK, out\<lparr>data := map (\<lambda>p.
      lin_pixel (data inp) (p div (OW * OH) * (IW * IH)) IW IH fx fy
        ((flt (Fin 1) fx \<or> flt (Fin 1) fy) \<and> antialias cfg) (p mod (OW * OH) div OW) (p mod (OW * OH) mod OW))
      [0..<N * C * (OW * OH)]\<rparr>)"
proof -
  let ?aa = "(flt (Fin 1) fx \<or> flt (Fin 1) fy) \<and> antialias cfg"
  let ?h = "\<lambda>p. lin_pixel (data inp) (p div (OW * OH) * (IW * IH)) IW IH fx fy ?aa (p mod (OW * OH) div OW) (p mod (OW * OH) mod OW)"
  have r: "rd [a, b, c, d] 0 = Some a" "rd [a, b, c, d] 1 = Some b" "rd [a, b, c, d] 2 = Some c" "rd [a, b, c, d] 3 = Some d"
    for a b c d :: nat by (simp_all add: rd_def)
  have up: "IW \<le> 2 ^ 20" "IH \<le> 2 ^ 20" using size by (simp_all add: extent_def)
  note X = factor_bounds [OF size(2,4), folded fx] and Y = factor_bounds [OF size(1,3), folded fy]
  have X20: "val fx \<le> 2 ^ 20" and Y20: "val fy \<le> 2 ^ 20"
    using X(3) Y(3) extent_rat(2) [OF size(2)] extent_rat(2) [OF size(1)] by linarith+
  have pixel: "interpolated (data inp) (n * (IW * IH)) IW IH fx fy 2 ?aa oy ox =
      Some (?h (n * (OW * OH) + oy * OW + ox))"
    if n: "n < N * C" and o: "oy < OH" "ox < OW" for n oy ox
  proof -
    obtain i j where "to_int (fround (source_pos ox fx fy)) = Some i" "to_int (fround (source_pos oy fy fx)) = Some j"
      using source_pos_bounds [OF X(1,2,4) size(4) up(1) o(2) Y(1,2) Y20]
        source_pos_bounds [OF Y(1,2,4) size(3) up(2) o(1) X(1,2) X20] by blast
    moreover obtain a b where "radius fx 2 (divf (Fin 1) (if ?aa then fx else Fin 1)) = Some a"
      "radius fy 2 (divf (Fin 1) (if ?aa then fy else Fin 1)) = Some b"
      using radius_bounds [OF X(1,2) X20, of ?aa] radius_bounds [OF Y(1,2) Y20, of ?aa] by blast
    moreover have "(n + 1) * (IW * IH) \<le> length (data inp)" unfolding src using n by (intro mult_le_mono) simp_all
    then have "n * (IW * IH) + IW * IH \<le> length (data inp)" by simp
    ultimately have "interpolated (data inp) (n * (IW * IH)) IW IH fx fy 2 ?aa oy ox =
        Some (lin_pixel (data inp) (n * (IW * IH)) IW IH fx fy ?aa oy ox)"
      by (rule interpolated_eq)
    moreover have "oy * OW + ox < OW * OH" using index2_less [OF o] by (simp add: mult.commute)
    from split_index [OF this, of n] split_index [OF o(2), of oy] have "?h (n * (OW * OH) + oy * OW + ox) =
        lin_pixel (data inp) (n * (IW * IH)) IW IH fx fy ?aa oy ox"
      by (simp only: add.assoc)
    ultimately show ?thesis by simp
  qed
  have "InterpolationKernel (data inp) IW IH fx fy OW OH C N 2 ?aa (data out) = Some (map ?h [0..<N * C * (OW * OH)])"
    unfolding InterpolationKernel_def
  proof (rule each_plane_writes [OF _ dst])
    fix n and xs :: "ieee list"
    assume n: "n < N * C" and xs: "length xs = N * C * (OW * OH)"
    have "ok (loop OH (\<lambda>oy. loop OW (\<lambda>ox dst. do {
        v \<leftarrow> interpolated (data inp) (n * (IW * IH)) IW IH fx fy 2 ?aa oy ox;
        wr dst (n * (OW * OH) + oy * OW + ox) v })) xs) (writes {n * (OW * OH)..<n * (OW * OH) + OH * OW} ?h xs)"
    proof (rule rows_write [OF _ xs])
      fix oy ox and ys :: "ieee list"
      assume o: "oy < OH" "ox < OW" and ys: "length ys = N * C * (OW * OH)"
      show "ok (do {
          v \<leftarrow> interpolated (data inp) (n * (IW * IH)) IW IH fx fy 2 ?aa oy ox;
          wr ys (n * (OW * OH) + oy * OW + ox) v }) (writes {n * (OW * OH) + oy * OW + ox} ?h ys)"
        unfolding pixel [OF n o] Option.bind.bind_lunit
        using pixel_index [OF n o] ys by (simp only: ok_wr) (simp add: writes_update)
    qed
    then show "ok (loop OH (\<lambda>oy. loop OW (\<lambda>ox dst. do {
        v \<leftarrow> interpolated (data inp) (n * (IW * IH)) IW IH fx fy 2 ?aa oy ox;
        wr dst (n * (OW * OH) + oy * OW + ox) v })) xs) (writes {n * (OW * OH)..<n * (OW * OH) + OW * OH} ?h xs)"
      by (simp only: mult.commute [of OW OH])
  qed
  then show ?thesis
    unfolding resample_execute_def dims r Option.bind.bind_lunit Let_def type fx [symmetric] fy [symmetric]
    using new scalar by auto
qed

theorem resample_linear_witness:
  "resample_execute NoSIMD \<lparr>rtype = ''caffe.ResampleParameter.LINEAR'', antialias = True\<rparr>
     \<lparr>dims = [1, 1, 2, 2], data = replicate 4 (Fin 3)\<rparr> \<lparr>dims = [1, 1, 1, 1], data = [Fin 0]\<rparr> =
   Some (OK, \<lparr>dims = [1, 1, 1, 1], data = [lin_pixel (replicate 4 (Fin 3)) 0 2 2 (divf (n2f 2) (n2f 1)) (divf (n2f 2) (n2f 1))
     (flt (Fin 1) (divf (n2f 2) (n2f 1))) 0 0]\<rparr>)"
proof -
  let ?f = "divf (n2f 2) (n2f 1)"
  let ?cfg = "\<lparr>rtype = ''caffe.ResampleParameter.LINEAR'', antialias = True\<rparr>"
  let ?in = "\<lparr>dims = [1, 1, 2, 2], data = replicate 4 (Fin 3)\<rparr>" and ?out = "\<lparr>dims = [1, 1, 1, 1], data = [Fin 0]\<rparr>"
  have "resample_execute NoSIMD ?cfg ?in ?out = Some (OK, ?out\<lparr>data := map (\<lambda>p.
      lin_pixel (data ?in) (p div (1 * 1) * (2 * 2)) 2 2 ?f ?f ((flt (Fin 1) ?f \<or> flt (Fin 1) ?f) \<and> antialias ?cfg)
        (p mod (1 * 1) div 1) (p mod (1 * 1) mod 1)) [0..<1 * 1 * (1 * 1)]\<rparr>)"
    by (rule resample_linear [OF _ _ _ _ _ _ _ _ refl refl]) (simp_all add: extent_def)
  then show ?thesis by simp
qed

end
