(* ===== verification/Resample_Triangle.thy ===== *)
theory Resample_Triangle
  imports Resample
begin

text \<open>
  The vector kernel of the \<open>Resample\<close> layer for the factor 4: the pixel it computes, in all three
  bands of rows and for the registers of four and of eight lanes, and where it leaves the tensor.
\<close>

section \<open>The vector kernel for the factor 4\<close>

text \<open>The wide table holds every register of the narrow one twice; outer registers are symmetric.\<close>

lemma less_4: "k < (4::nat) \<longleftrightarrow> k = 0 \<or> k = 1 \<or> k = 2 \<or> k = 3"
  by auto

lemma less_8: "k < (8::nat) \<longleftrightarrow> k = 0 \<or> k = 1 \<or> k = 2 \<or> k = 3 \<or> k = 4 \<or> k = 5 \<or> k = 6 \<or> k = 7"
  by auto

lemma nth_table_sse:
  assumes "i < 4" "t < 4" "j < 4"
  shows "take 4 (drop (t * 4) (table_sse ! i)) ! j = table_sse ! i ! (4 * t + j)"
proof -
  have "length (table_sse ! i) = 16" using assms(1) by (auto simp: less_4 table_sse_def)
  then show ?thesis using assms by (simp add: mult.commute)
qed

lemma nth_table_avx2:
  assumes "i < 4" "t < 4" "k < 8"
  shows "take 8 (drop (t * 8) (table_avx2 ! i)) ! k = table_sse ! i ! (4 * t + k mod 4)"
proof -
  have "length (table_avx2 ! i) = 32" using assms(1) by (auto simp: less_4 table_avx2_def)
  moreover have "table_avx2 ! i ! (t * 8 + k) = table_sse ! i ! (4 * t + k mod 4)"
    using assms unfolding less_4 less_8 by (elim disjE) (simp_all add: table_avx2_def table_sse_def)
  ultimately show ?thesis using assms by simp
qed

lemma table_sse_outer:
  assumes "i < 4" "t = 0 \<or> t = 2"
  shows "table_sse ! i ! (4 * t + 2) = table_sse ! i ! (4 * t + 1)" "table_sse ! i ! (4 * t + 3) = table_sse ! i ! (4 * t + 0)"
  using assms unfolding less_4 by (auto simp: table_sse_def)

text \<open>One lane of the weights.\<close>

lemma edge_lane:
  assumes l: "l = 4 \<or> l = 8" and v: "length v = l" "v ! 2 = v ! 1" "v ! (l - 1) = v ! (l - 4)" and k: "k < l"
  shows "(edge_low (take 4 v) @ drop 4 v) ! k = (if k < 2 then Fin 0 else v ! k) \<and>
    (take (l - 4) v @ edge_high (drop (l - 4) v)) ! k = (if l - 2 \<le> k then Fin 0 else v ! k)"
  using l
proof
  assume l: "l = 4"
  from k have "k < 4" unfolding l .
  with v show ?thesis unfolding less_4 l by (auto simp: edge_low_def edge_high_def)
next
  assume l: "l = 8"
  from k have "k < 8" unfolding l .
  with v show ?thesis unfolding less_8 l by (auto simp: edge_low_def edge_high_def nth_append)
qed

definition weight_reg :: "nat \<Rightarrow> nat \<Rightarrow> nat \<Rightarrow> ieee list" where
  "weight_reg l i t = take l (drop (t * l) ((if l = 8 then table_avx2 else table_sse) ! i))"

lemma weight_reg:
  assumes "l = 4 \<or> l = 8" "i < 4" "t < 4"
  shows "length (weight_reg l i t) = l" and "k < l \<Longrightarrow> weight_reg l i t ! k = table_sse ! i ! (4 * t + k mod 4)"
proof -
  show "length (weight_reg l i t) = l"
    using assms unfolding weight_reg_def less_4 by (auto simp: table_sse_def table_avx2_def)
  show "k < l \<Longrightarrow> weight_reg l i t ! k = table_sse ! i ! (4 * t + k mod 4)"
    using assms nth_table_sse [of i t k] nth_table_avx2 [of i t k] by (auto simp: weight_reg_def)
qed

definition lane_weight :: "nat \<Rightarrow> nat \<Rightarrow> nat \<Rightarrow> nat \<Rightarrow> nat \<Rightarrow> nat \<Rightarrow> ieee" where
  "lane_weight l i ow ox t k =
     (if even t \<and> (ox = 0 \<and> k < 2 \<or> ox \<noteq> 0 \<and> ox = ow - l \<and> l - 2 \<le> k) then Fin 0
      else table_sse ! i ! (4 * t + k mod 4))"

lemma coefs_lane:
  assumes l: "l = 4 \<or> l = 8" and i: "i < 4" and k: "k < l" and c: "coefs l bnd i ow ox = (c0, c1, c2, c3)"
  shows "c0 ! k = (if bnd = First_Rows \<and> i < 2 then Fin 0 else lane_weight l i ow ox 0 k)"
    "c1 ! k = (if bnd = First_Rows \<and> i < 2 then Fin 0 else lane_weight l i ow ox 1 k)"
    "c2 ! k = (if bnd = Last_Rows \<and> \<not> i < 2 then Fin 0 else lane_weight l i ow ox 2 k)"
    "c3 ! k = (if bnd = Last_Rows \<and> \<not> i < 2 then Fin 0 else lane_weight l i ow ox 3 k)"
proof -
  have sym: "weight_reg l i t ! 2 = weight_reg l i t ! 1" "weight_reg l i t ! (l - 1) = weight_reg l i t ! (l - 4)"
    if "t = 0 \<or> t = 2" for t
  proof -
    have "(l - 1) mod 4 = 3" "(l - 4) mod 4 = 0" "l - 1 < l" "l - 4 < l" "2 < l" "1 < l" using l by auto
    then show "weight_reg l i t ! 2 = weight_reg l i t ! 1" "weight_reg l i t ! (l - 1) = weight_reg l i t ! (l - 4)"
      using table_sse_outer [OF i that] that by (auto simp: weight_reg [OF l i])
  qed
  have low: "(edge_low (take 4 (weight_reg l i t)) @ drop 4 (weight_reg l i t)) ! k = (if k < 2 then Fin 0 else weight_reg l i t ! k)"
    and high: "(take (l - 4) (weight_reg l i t) @ edge_high (drop (l - 4) (weight_reg l i t))) ! k =
      (if l - 2 \<le> k then Fin 0 else weight_reg l i t ! k)"
    if "t = 0 \<or> t = 2" for t
    using edge_lane [OF l _ sym [OF that] k] weight_reg(1) [OF l i, of t] that by auto
  have w: "weight_reg l i t ! k = table_sse ! i ! (4 * t + k mod 4)" if "t < 4" for t
    using weight_reg(2) [OF l i that k] .
  have outer: "(if ox = 0 then edge_low (take 4 (weight_reg l i t)) @ drop 4 (weight_reg l i t)
      else if ox = ow - l then take (l - 4) (weight_reg l i t) @ edge_high (drop (l - 4) (weight_reg l i t))
      else weight_reg l i t) ! k = lane_weight l i ow ox t k" if "t = 0 \<or> t = 2" for t
    using low [OF that] high [OF that] w [of t] that by (auto simp: lane_weight_def)
  have inner: "weight_reg l i t ! k = lane_weight l i ow ox t k" if "t = 1 \<or> t = 3" for t
    using w [of t] that by (auto simp: lane_weight_def)
  have zero: "replicate l (Fin 0) ! k = Fin 0" using k by simp
  note c = c [unfolded coefs_def Let_def weight_reg_def [symmetric] prod.inject]
  show "c0 ! k = (if bnd = First_Rows \<and> i < 2 then Fin 0 else lane_weight l i ow ox 0 k)"
    "c1 ! k = (if bnd = First_Rows \<and> i < 2 then Fin 0 else lane_weight l i ow ox 1 k)"
    "c2 ! k = (if bnd = Last_Rows \<and> \<not> i < 2 then Fin 0 else lane_weight l i ow ox 2 k)"
    "c3 ! k = (if bnd = Last_Rows \<and> \<not> i < 2 then Fin 0 else lane_weight l i ow ox 3 k)"
    using c outer [of 0] inner [of 1] outer [of 2] inner [of 3] zero by (auto split: if_split_asm)
qed

text \<open>
  The source value in row \<open>y + r - 1\<close> and column \<open>c\<close>; the rows above the first and below the
  last count as zero, but a column outside the picture is the neighbour in memory.
\<close>

definition source_at :: "band \<Rightarrow> ieee list \<Rightarrow> int \<Rightarrow> nat \<Rightarrow> nat \<Rightarrow> nat \<Rightarrow> int \<Rightarrow> ieee" where
  "source_at bnd src p iw y r c =
     (if r = 0 \<and> bnd = First_Rows \<or> r = 2 \<and> bnd = Last_Rows then Fin 0
      else src ! nat (p + (int y + int r - 1) * int iw + c))"

definition band_ok :: "band \<Rightarrow> nat \<Rightarrow> nat \<Rightarrow> bool" where
  "band_ok bnd y ih \<longleftrightarrow> y < ih \<and> (bnd \<noteq> First_Rows \<longrightarrow> 1 \<le> y) \<and> (bnd \<noteq> Last_Rows \<longrightarrow> y + 1 < ih)"

lemma taps_eq:
  assumes band: "band_ok bnd y ih" and p: "1 \<le> p" "p + iw * ih < length src"
    and x: "x + (if l = 8 then 2 else 1) \<le> iw" and r: "r < 3"
  obtains vs where "taps l bnd src (int p) iw y x r = Some vs"
    "\<And>c. c < (if l = 8 then 4 else 3) \<Longrightarrow> vs ! c = source_at bnd src (int p) iw y r (int x + int c - 1)"
proof (cases "r = 0 \<and> bnd = First_Rows \<or> r = 2 \<and> bnd = Last_Rows")
  case True
  then have "taps l bnd src (int p) iw y x r = Some (replicate 4 (Fin 0))" by (simp add: taps_def)
  moreover have "replicate 4 (Fin 0) ! c = source_at bnd src (int p) iw y r (int x + int c - 1)"
    if "c < (if l = 8 then 4 else 3)" for c
    using True that by (auto simp: source_at_def split: if_splits)
  ultimately show ?thesis using that by blast
next
  case False
  define row where "row = int p + (int y + int r - 1) * int iw + int x"
  have y: "0 \<le> int y + int r - 1" "int y + int r - 1 \<le> int ih - 1"
    using band r False unfolding band_ok_def by (cases bnd; auto)+
  have "(int y + int r - 1) * int iw \<le> (int ih - 1) * int iw" using y by (intro mult_right_mono) simp_all
  moreover have "0 \<le> (int y + int r - 1) * int iw" using y by simp
  ultimately have lo: "0 \<le> row - 1" and hi: "row + (if l = 8 then 2 else 1) < int (length src)"
    using p x unfolding row_def by (simp_all add: algebra_simps split: if_splits) (simp_all flip: of_nat_mult of_nat_add)
  have rd: "rdz src (row + i) = Some (src ! nat (row + i))" if "- 1 \<le> i" "i \<le> (if l = 8 then 2 else 1)" for i
    using lo hi that by (simp add: rdz_def rd_def nat_less_iff)
  define vs where "vs = [src ! nat (row - 1), src ! nat row, src ! nat (row + 1),
      if l = 8 then src ! nat (row + 2) else Fin 0]"
  have "taps l bnd src (int p) iw y x r = Some vs"
    unfolding taps_def if_not_P [OF False] Let_def row_def [symmetric]
    using rd [of "- 1"] rd [of 0] rd [of 1] rd [of 2] by (auto simp: vs_def)
  moreover have "vs ! c = source_at bnd src (int p) iw y r (int x + int c - 1)"
    if "c < (if l = 8 then 4 else 3)" for c
  proof -
    have "c = 0 \<or> c = 1 \<or> c = 2 \<or> l = 8 \<and> c = 3" using that by (auto split: if_splits)
    then show ?thesis
      unfolding source_at_def if_not_P [OF False] using False by (auto simp: vs_def row_def algebra_simps)
  qed
  ultimately show ?thesis using that by blast
qed

text \<open>
  One output pixel, in row \<open>i\<close> of the four rows that belong to source row \<open>y\<close> and in column \<open>X\<close>.
\<close>

definition tri_pixel :: "nat \<Rightarrow> band \<Rightarrow> bool \<Rightarrow> ieee list \<Rightarrow> int \<Rightarrow> nat \<Rightarrow> nat \<Rightarrow> nat \<Rightarrow> nat \<Rightarrow> ieee" where
  "tri_pixel l bnd scaled src p iw y i X =
     (let x = X div 4; j = X mod 4; x' = (if j < 2 then int x - 1 else int x + 1);
          a = (if i < 2 then 0 else 1); above = (bnd = First_Rows \<and> i < 2); below = (bnd = Last_Rows \<and> \<not> i < 2);
          v = source_at bnd src p iw y;
          w = (\<lambda>zero t. if zero \<or> even t \<and> \<not> (0 \<le> x' \<and> x' < int iw) then Fin 0 else table_sse ! i ! (4 * t + j));
          ws = (w above 0, w above 1, w below 2, w below 3);
          r = weighted l (v a x', v a (int x), v (a + 1) x', v (a + 1) (int x)) ws in
      if scaled then case ws of (c0, c1, c2, c3) \<Rightarrow> divf r (addf (addf c0 c1) (addf c2 c3)) else r)"

lemma tri_block_eq:
  assumes l: "l = 4 \<or> l = 8" and band: "band_ok bnd y ih" and p: "1 \<le> p" "p + iw * ih < length src"
    and ox: "ox = 4 * x" "ox + l \<le> 4 * iw" "l < 4 * iw" and index: "to_size (fround (source_pos ox fx fy)) = Some x"
    and room: "q + (oy + 4) * (4 * iw) \<le> L"
    and h: "\<And>i k. i < 4 \<Longrightarrow> k < l \<Longrightarrow> h (q + (oy + i) * (4 * iw) + (ox + k)) =
      tri_pixel l bnd (bnd \<noteq> Middle_Rows \<or> ox = 0 \<or> ox = 4 * iw - l) src (int p) iw y i (ox + k)"
    and xs: "length xs = L"
  shows "ok (tri_block l bnd src (int p) q iw fx fy (4 * iw) y oy ox xs)
    (writes (\<Union>i<4. {q + (oy + i) * (4 * iw) + ox..<q + (oy + i) * (4 * iw) + ox + l}) h xs)"
proof -
  let ?v = "source_at bnd src (int p) iw y"
  have xl: "x + (if l = 8 then 2 else 1) \<le> iw" using ox l by auto
  obtain v0 where v0: "taps l bnd src (int p) iw y x 0 = Some v0"
    "\<And>c. c < (if l = 8 then 4 else 3) \<Longrightarrow> v0 ! c = ?v 0 (int x + int c - 1)"
    by (rule taps_eq [OF band p xl, of 0]) auto
  obtain v1 where v1: "taps l bnd src (int p) iw y x 1 = Some v1"
    "\<And>c. c < (if l = 8 then 4 else 3) \<Longrightarrow> v1 ! c = ?v 1 (int x + int c - 1)"
    by (rule taps_eq [OF band p xl, of 1]) auto
  obtain v2 where v2: "taps l bnd src (int p) iw y x 2 = Some v2"
    "\<And>c. c < (if l = 8 then 4 else 3) \<Longrightarrow> v2 ! c = ?v 2 (int x + int c - 1)"
    by (rule taps_eq [OF band p xl, of 2]) auto
  let ?x' = "\<lambda>k. if k mod 4 < 2 then int ((ox + k) div 4) - 1 else int ((ox + k) div 4) + 1"
  have col: "(ox + k) div 4 = x + k div 4" "(ox + k) mod 4 = k mod 4" for k using ox(1) by simp_all
  have lanes: "outer_taps l v ! k = ?v r (?x' k)" "inner_taps l v ! k = ?v r (int ((ox + k) div 4))"
    if v: "\<And>c. c < (if l = 8 then 4 else 3) \<Longrightarrow> v ! c = ?v r (int x + int c - 1)" and k: "k < l" for v r k
    using l k v [of 0] v [of 1] v [of 2] v [of 3] unfolding col
    by (auto simp: outer_taps_def inner_taps_def less_4 less_8 nth_append add.commute [of "int x"])
  have weight: "lane_weight l i (4 * iw) ox t k = (if even t \<and> \<not> (0 \<le> ?x' k \<and> ?x' k < int iw) then Fin 0
      else table_sse ! i ! (4 * t + (ox + k) mod 4))" if k: "k < l" for i t k
  proof -
    have "\<not> (0 \<le> ?x' k \<and> ?x' k < int iw) \<longleftrightarrow> ox = 0 \<and> k < 2 \<or> ox \<noteq> 0 \<and> ox = 4 * iw - l \<and> l - 2 \<le> k"
      using l k ox unfolding col by (auto simp: less_4 less_8)
    then show ?thesis unfolding lane_weight_def col by simp
  qed
  define scaled where "scaled \<longleftrightarrow> bnd \<noteq> Middle_Rows \<or> ox = 0 \<or> ox = 4 * iw - l"
  show ?thesis
    unfolding tri_block_def index v0(1) v1(1) v2(1) Option.bind.bind_lunit
  proof (rule loop_writes [OF _ xs])
    fix i :: nat and ys :: "ieee list" assume i: "i < 4" and ys: "length ys = L"
    define va where "va = (if i < 2 then v0 else v1)"
    define vb where "vb = (if i < 2 then v1 else v2)"
    define a where "a = (if i < 2 then 0 else (1::nat))"
    have ab: "(if i < 2 then (v0, v1) else (v1, v2)) = (va, vb)" by (simp add: va_def vb_def)
    obtain c0 c1 c2 c3 where c: "coefs l bnd i (4 * iw) ox = (c0, c1, c2, c3)" using prod_cases4 by blast
    define res where "res = map (\<lambda>k. weighted l (outer_taps l va ! k, inner_taps l va ! k, outer_taps l vb ! k, inner_taps l vb ! k)
             (c0 ! k, c1 ! k, c2 ! k, c3 ! k)) [0..<l]"
    define wei where "wei = map (\<lambda>k. addf (addf (c0 ! k) (c1 ! k)) (addf (c2 ! k) (c3 ! k))) [0..<l]"
    let ?out = "if scaled then map2 divf res wei else res"
    have len: "length ?out = l" by (simp add: res_def wei_def)
    have val: "?out ! k = tri_pixel l bnd scaled src (int p) iw y i (ox + k)" if k: "k < l" for k
    proof -
      have va: "outer_taps l va ! k = ?v a (?x' k)" "inner_taps l va ! k = ?v a (int ((ox + k) div 4))"
        using lanes [OF v0(2) k] lanes [OF v1(2) k] by (cases "i < 2"; simp add: va_def a_def)+
      have vb: "outer_taps l vb ! k = ?v (a + 1) (?x' k)" "inner_taps l vb ! k = ?v (a + 1) (int ((ox + k) div 4))"
        using lanes [OF v1(2) k] lanes [OF v2(2) k] by (cases "i < 2"; simp add: vb_def a_def numeral_2_eq_2)+
      have "?out ! k = (let r = weighted l (outer_taps l va ! k, inner_taps l va ! k, outer_taps l vb ! k, inner_taps l vb ! k)
             (c0 ! k, c1 ! k, c2 ! k, c3 ! k) in if scaled then divf r (addf (addf (c0 ! k) (c1 ! k)) (addf (c2 ! k) (c3 ! k))) else r)"
        using k by (simp add: res_def wei_def Let_def)
      moreover define W where "W = (\<lambda>zero t. if zero \<or> even t \<and> \<not> (0 \<le> ?x' k \<and> ?x' k < int iw) then Fin 0
          else table_sse ! i ! (4 * t + (ox + k) mod 4))"
      have W: "(if z then Fin 0 else lane_weight l i (4 * iw) ox t k) = W z t" for z t
        unfolding weight [OF k] W_def by (cases z) (simp_all only: simp_thms if_True if_False)
      have "c0 ! k = W (bnd = First_Rows \<and> i < 2) 0" "c1 ! k = W (bnd = First_Rows \<and> i < 2) 1"
        "c2 ! k = W (bnd = Last_Rows \<and> \<not> i < 2) 2" "c3 ! k = W (bnd = Last_Rows \<and> \<not> i < 2) 3"
        unfolding coefs_lane [OF l i k c] W by simp_all
      ultimately show ?thesis
        unfolding tri_pixel_def Let_def a_def [symmetric] col(2) [of k, symmetric] W_def va vb
        by (simp only: prod.case)
    qed
    have "(oy + i) * (4 * iw) + 4 * iw = (oy + (i + 1)) * (4 * iw)" by (simp add: algebra_simps)
    also have "\<dots> \<le> (oy + 4) * (4 * iw)" using i by (intro mult_le_mono) simp_all
    finally have fits: "q + (oy + i) * (4 * iw) + ox + l \<le> length ys" using room ox(2) ys by linarith
    have "writes {q + (oy + i) * (4 * iw) + ox..<q + (oy + i) * (4 * iw) + ox + l} h ys (put ys (q + (oy + i) * (4 * iw) + ox) ?out)"
      using fits h [OF i] val by (intro writes_put [OF len]) (simp_all add: scaled_def add.assoc)
    then have "ok (blit ys (q + (oy + i) * (4 * iw) + ox) ?out)
        (writes {q + (oy + i) * (4 * iw) + ox..<q + (oy + i) * (4 * iw) + ox + l} h ys)"
      using fits len by (simp only: ok_blit)
    then show "ok (let (a, b) = (if i < 2 then (v0, v1) else (v1, v2)); (vc0, vc1, vc2, vc3) = coefs l bnd i (4 * iw) ox;
           res = map (\<lambda>k. weighted l (outer_taps l a ! k, inner_taps l a ! k, outer_taps l b ! k, inner_taps l b ! k)
             (vc0 ! k, vc1 ! k, vc2 ! k, vc3 ! k)) [0..<l];
           wei = map (\<lambda>k. addf (addf (vc0 ! k) (vc1 ! k)) (addf (vc2 ! k) (vc3 ! k))) [0..<l] in
       blit ys (q + (oy + i) * (4 * iw) + ox)
         (if bnd \<noteq> Middle_Rows \<or> ox = 0 \<or> ox = 4 * iw - l then map2 divf res wei else res))
      (writes {q + (oy + i) * (4 * iw) + ox..<q + (oy + i) * (4 * iw) + ox + l} h ys)"
      unfolding ab c Let_def prod.case res_def [symmetric] wei_def [symmetric] scaled_def [symmetric] .
  qed
qed

text \<open>
  What the kernel computes: the mean of the four nearest pixels, weighted by the triangle filter
  in both directions.  A pixel outside the plane has weight zero.
\<close>

definition tri_weight :: "nat \<Rightarrow> int \<Rightarrow> rat" where
  "tri_weight X c = 1 - \<bar>(of_nat X + 1 / 2) / 4 - 1 / 2 - of_int c\<bar>"

definition bilinear :: "nat \<Rightarrow> ieee list \<Rightarrow> nat \<Rightarrow> nat \<Rightarrow> nat \<Rightarrow> nat \<Rightarrow> nat \<Rightarrow> ieee" where
  "bilinear l src p iw ih Y X =
     (let c = int (X div 4); c' = (if X mod 4 < 2 then c - 1 else c + 1);
          r = (if Y mod 4 < 2 then int (Y div 4) - 1 else int (Y div 4));
          v = (\<lambda>r c. if 0 \<le> r \<and> r < int ih then src ! nat (int p + r * int iw + c) else Fin 0);
          w = (\<lambda>r c. if 0 \<le> r \<and> r < int ih \<and> 0 \<le> c \<and> c < int iw then Fin (tri_weight Y r * tri_weight X c) else Fin 0) in
      divf (weighted l (v r c', v r c, v (r + 1) c', v (r + 1) c) (w r c', w r c, w (r + 1) c', w (r + 1) c))
        (addf (addf (w r c') (w r c)) (addf (w (r + 1) c') (w (r + 1) c))))"

lemma tri_weight_at:
  "tri_weight X (int (X div 4) + d) = 1 - \<bar>(2 * of_nat (X mod 4) - 3) / 8 - of_int d\<bar>"
proof -
  have "(of_nat X :: rat) = of_nat (4 * (X div 4) + X mod 4)" by simp
  also have "\<dots> = 4 * of_nat (X div 4) + of_nat (X mod 4)" by (simp only: of_nat_add of_nat_mult of_nat_numeral)
  finally have "(of_nat X + 1 / 2) / 4 - 1 / 2 - of_int (int (X div 4) + d) = (2 * of_nat (X mod 4) - 3) / 8 - (of_int d :: rat)"
    by (simp add: field_simps)
  then show ?thesis by (simp only: tri_weight_def)
qed

text \<open>The table holds the products of the weights of the two directions.\<close>

lemma table_weight:
  assumes "i < 4" "t < 4" "j < 4"
  shows "table_sse ! i ! (4 * t + j) = Fin
    ((1 - \<bar>(2 * of_nat i - 3) / 8 - of_int ((if i < 2 then - 1 else 0) + (if t < 2 then 0 else 1))\<bar>) *
     (1 - \<bar>(2 * of_nat j - 3) / 8 - of_int (if odd t then 0 else if j < 2 then - 1 else 1)\<bar>))"
  using assms unfolding less_4 by (elim disjE) (simp_all add: table_sse_def)

lemma fdiv_one: "in_fmt b32 x \<Longrightarrow> divf x (Fin 1) = x"
proof (cases x)
  case (Fin q)
  assume "in_fmt b32 x"
  then show ?thesis using Fin by (auto simp: fdiv_def mk_def Let_def zero_def)
qed (simp_all add: fdiv_def mk_def zero_def Let_def)

lemma in_fmt_weighted: "in_fmt b32 (weighted l vs ws)"
  by (cases vs; cases ws) (auto simp: weighted_def fma_def Let_def in_fmt_fadd)

lemma fadd_64:
  assumes "0 < p + q" "p + q \<le> 1" "64 * (p + q) \<in> \<int>"
  shows "addf (Fin p) (Fin q) = Fin (p + q)"
proof -
  obtain k where k: "64 * (p + q) = of_int k" using assms(3) by (elim Ints_cases)
  then have "(of_int k :: rat) \<le> 64" "(0 :: rat) < of_int k" using assms(1,2) by (simp_all flip: k)
  then have "0 < k" "k \<le> 64" by linarith+
  then have "representable b32 (of_int k / 2 ^ 6)" by (intro dyadic_b32) simp_all
  moreover have "of_int k / 2 ^ 6 = p + q" using k by simp
  ultimately have "representable b32 (p + q)" by (simp only:)
  then have "is_fin (addf (Fin p) (Fin q)) \<and> val (addf (Fin p) (Fin q)) = p + q"
    using fadd_exact [of b32 "Fin p" "Fin q" 1] assms by simp
  then show ?thesis using assms(1) by (cases "addf (Fin p) (Fin q)") auto
qed

lemma table_sum:
  assumes "i < 4" "j < 4"
  shows "addf (addf (table_sse ! i ! (4 * 0 + j)) (table_sse ! i ! (4 * 1 + j)))
    (addf (table_sse ! i ! (4 * 2 + j)) (table_sse ! i ! (4 * 3 + j))) = Fin 1"
  using assms unfolding less_4 by (elim disjE) (simp_all add: table_sse_def fadd_64 del: fadd.simps)

lemma tri_pixel_bilinear:
  assumes band: "y < ih" "bnd = First_Rows \<longleftrightarrow> y = 0" "bnd = Last_Rows \<longleftrightarrow> y + 1 = ih"
    and i: "i < 4" and X: "X < 4 * iw"
    and plain: "scaled \<or> bnd = Middle_Rows \<and> 2 \<le> X \<and> X + 2 < 4 * iw"
  shows "tri_pixel l bnd scaled src (int p) iw y i X = bilinear l src p iw ih (4 * y + i) X"
proof -
  define x where "x = X div 4"
  define j where "j = X mod 4"
  have j: "j < 4" and xj: "X = 4 * x + j" by (simp_all add: x_def j_def)
  define c' where "c' = (if j < 2 then int x - 1 else int x + 1)"
  define r where "r = (if i < 2 then int y - 1 else int y)"
  define w where "w = (\<lambda>r c. if 0 \<le> r \<and> r < int ih \<and> 0 \<le> c \<and> c < int iw
    then Fin (tri_weight (4 * y + i) r * tri_weight X c) else Fin 0)"
  define v where "v = (\<lambda>r c. if 0 \<le> r \<and> r < int ih then src ! nat (int p + r * int iw + c) else Fin 0)"
  have yi: "(4 * y + i) div 4 = y" "(4 * y + i) mod 4 = i" using i by simp_all
  have row: "tri_weight (4 * y + i) (int y + d) = 1 - \<bar>(2 * of_nat i - 3) / 8 - of_int d\<bar>" for d
    using tri_weight_at [of "4 * y + i" d] unfolding yi .
  have col: "tri_weight X (int x + d) = 1 - \<bar>(2 * of_nat j - 3) / 8 - of_int d\<bar>" for d
    unfolding x_def j_def by (rule tri_weight_at)
  have inside: "0 \<le> int x" "int x < int iw" using X by (simp_all add: x_def)
  let ?above = "bnd = First_Rows \<and> i < 2" and ?below = "bnd = Last_Rows \<and> \<not> i < 2"
  have above: "?above \<longleftrightarrow> \<not> (0 \<le> r \<and> r < int ih)" and below: "?below \<longleftrightarrow> \<not> (0 \<le> r + 1 \<and> r + 1 < int ih)"
    using band by (auto simp: r_def)
  let ?a = "if i < 2 then 0 else (1::nat)"
  have va: "source_at bnd src (int p) iw y ?a c = v r c" and vb: "source_at bnd src (int p) iw y (?a + 1) c = v (r + 1) c" for c
    using band by (auto simp: source_at_def v_def r_def numeral_2_eq_2)
  have tap: "(if z \<or> even t \<and> \<not> (0 \<le> c' \<and> c' < int iw) then Fin 0 else table_sse ! i ! (4 * t + j)) = w \<rho> c"
    if t: "t < 4" "\<rho> = (if t < 2 then r else r + 1)" "c = (if odd t then int x else c')" and z: "z \<longleftrightarrow> \<not> (0 \<le> \<rho> \<and> \<rho> < int ih)" for z t \<rho> c
  proof -
    have "\<rho> = int y + ((if i < 2 then - 1 else 0) + (if t < 2 then 0 else 1))"
      "c = int x + (if odd t then 0 else if j < 2 then - 1 else 1)"
      unfolding t(2,3) by (auto simp: r_def c'_def)
    then have "table_sse ! i ! (4 * t + j) = Fin (tri_weight (4 * y + i) \<rho> * tri_weight X c)"
      using table_weight [OF i t(1) j] by (simp only: row col)
    then show ?thesis using z inside t(3) by (auto simp: w_def)
  qed
  have w0: "(if ?above \<or> even (0::nat) \<and> \<not> (0 \<le> c' \<and> c' < int iw) then Fin 0 else table_sse ! i ! (4 * 0 + j)) = w r c'"
    by (rule tap [OF _ _ _ above]) simp_all
  have w1: "(if ?above \<or> even (1::nat) \<and> \<not> (0 \<le> c' \<and> c' < int iw) then Fin 0 else table_sse ! i ! (4 * 1 + j)) = w r (int x)"
    by (rule tap [OF _ _ _ above]) simp_all
  have w2: "(if ?below \<or> even (2::nat) \<and> \<not> (0 \<le> c' \<and> c' < int iw) then Fin 0 else table_sse ! i ! (4 * 2 + j)) = w (r + 1) c'"
    by (rule tap [OF _ _ _ below]) simp_all
  have w3: "(if ?below \<or> even (3::nat) \<and> \<not> (0 \<le> c' \<and> c' < int iw) then Fin 0 else table_sse ! i ! (4 * 3 + j)) = w (r + 1) (int x)"
    by (rule tap [OF _ _ _ below]) simp_all
  define vs where "vs = (v r c', v r (int x), v (r + 1) c', v (r + 1) (int x))"
  define total where "total = addf (addf (w r c') (w r (int x))) (addf (w (r + 1) c') (w (r + 1) (int x)))"
  let ?r = "weighted l vs (w r c', w r (int x), w (r + 1) c', w (r + 1) (int x))"
  have "tri_pixel l bnd scaled src (int p) iw y i X = (if scaled then divf ?r total else ?r)"
    unfolding tri_pixel_def Let_def x_def [symmetric] j_def [symmetric] c'_def [symmetric] va vb
      w0 w1 w2 w3
      vs_def total_def prod.case ..
  moreover have "bilinear l src p iw ih (4 * y + i) X = divf ?r total"
    unfolding bilinear_def Let_def yi x_def [symmetric] j_def [symmetric] c'_def [symmetric] r_def [symmetric]
      vs_def total_def w_def v_def ..
  moreover have "divf ?r total = ?r" if "\<not> scaled"
  proof -
    have "bnd = Middle_Rows" "2 \<le> X" "X + 2 < 4 * iw" using plain that by auto
    then have "0 \<le> r" "r + 1 < int ih" "0 \<le> c'" "c' < int iw" using band X j by (auto simp: r_def c'_def xj)
    then have "w r c' = table_sse ! i ! (4 * 0 + j)" "w r (int x) = table_sse ! i ! (4 * 1 + j)"
      "w (r + 1) c' = table_sse ! i ! (4 * 2 + j)" "w (r + 1) (int x) = table_sse ! i ! (4 * 3 + j)"
      using w0 w1 w2 w3 \<open>bnd = Middle_Rows\<close> by simp_all
    then have "total = Fin 1" unfolding total_def using table_sum [OF i j] by (simp only:)
    then show ?thesis by (simp only: fdiv_one [OF in_fmt_weighted])
  qed
  ultimately show ?thesis by simp
qed

section \<open>A plane\<close>

definition lanes :: "build \<Rightarrow> nat \<Rightarrow> nat \<Rightarrow> nat" where
  "lanes bld ow X = (if bld \<noteq> SSE \<and> X < ow div 8 * 8 then 8 else 4)"

definition tri_ready :: "ieee \<Rightarrow> nat \<Rightarrow> nat \<Rightarrow> nat \<Rightarrow> nat \<Rightarrow> ieee list \<Rightarrow> nat \<Rightarrow> bool" where
  "tri_ready f p q iw ih src L \<longleftrightarrow> is_fin f \<and> val f = 1 / 4 \<and> 3 \<le> iw \<and> 2 \<le> ih \<and> 4 * iw \<le> 2 ^ 22 \<and> 4 * ih \<le> 2 ^ 22 \<and>
     1 \<le> p \<and> p + iw * ih < length src \<and> q + 4 * ih * (4 * iw) \<le> L"

definition band_of :: "nat \<Rightarrow> nat \<Rightarrow> band" where
  "band_of y ih = (if y = 0 then First_Rows else if y + 1 = ih then Last_Rows else Middle_Rows)"

lemma quarter_index:
  assumes "tri_ready f p q iw ih src L"
  shows "X < 4 * iw \<Longrightarrow> to_size (fround (source_pos X f f)) = Some (X div 4)"
    and "Y < 4 * ih \<Longrightarrow> to_size (fround (source_pos Y f f)) = Some (Y div 4)"
  using assms source_index [of f 2] by (auto simp: tri_ready_def)

lemma tri_block_bilinear:
  assumes R: "tri_ready f p q iw ih src L" and l: "l = 4 \<or> l = 8" and y: "y < ih"
    and ox: "4 * x + l \<le> 4 * iw"
    and h: "\<And>i k. i < 4 \<Longrightarrow> k < l \<Longrightarrow> h (q + (4 * y + i) * (4 * iw) + (4 * x + k)) = bilinear l src p iw ih (4 * y + i) (4 * x + k)"
    and xs: "length xs = L"
  shows "ok (tri_block l (band_of y ih) src (int p) q iw f f (4 * iw) y (4 * y) (4 * x) xs)
    (writes (\<Union>i<4. {q + (4 * y + i) * (4 * iw) + 4 * x..<q + (4 * y + i) * (4 * iw) + 4 * x + l}) h xs)"
proof (rule tri_block_eq [OF l _ _ _ refl ox _ _ _ _ xs])
  show "band_ok (band_of y ih) y ih" "1 \<le> p" "p + iw * ih < length src"
    using R y by (auto simp: band_ok_def band_of_def tri_ready_def)
  show "l < 4 * iw" using R l by (auto simp: tri_ready_def)
  show "to_size (fround (source_pos (4 * x) f f)) = Some x" using quarter_index(1) [OF R, of "4 * x"] ox l by auto
  have "(4 * y + 4) * (4 * iw) \<le> 4 * ih * (4 * iw)" using y by (intro mult_le_mono) simp_all
  then show "q + (4 * y + 4) * (4 * iw) \<le> L" using R unfolding tri_ready_def by linarith
  fix i k assume i: "i < (4::nat)" and k: "k < l"
  let ?scaled = "band_of y ih \<noteq> Middle_Rows \<or> 4 * x = 0 \<or> 4 * x = 4 * iw - l"
  have inner: "4 * x = 0 \<or> 4 * x = 4 * iw - l \<or> 2 \<le> 4 * x + k \<and> 4 * x + k + 2 < 4 * iw"
  proof -
    obtain n where n: "l = 4 * n" using l by (elim disjE) (auto intro: that [of 1] that [of 2])
    then have "x = 0 \<or> 4 * x = 4 * iw - l \<or> 1 \<le> x \<and> x + n < iw" using ox by auto
    then show ?thesis using k n by (elim disjE) simp_all
  qed
  have "4 * x + k < 4 * iw" using ox k by simp
  moreover have "?scaled \<or> band_of y ih = Middle_Rows \<and> 2 \<le> 4 * x + k \<and> 4 * x + k + 2 < 4 * iw"
    using inner by blast
  moreover have "band_of y ih = First_Rows \<longleftrightarrow> y = 0" "band_of y ih = Last_Rows \<longleftrightarrow> y + 1 = ih"
    using R by (auto simp: band_of_def tri_ready_def)
  ultimately have "tri_pixel l (band_of y ih) ?scaled src (int p) iw y i (4 * x + k) = bilinear l src p iw ih (4 * y + i) (4 * x + k)"
    by (intro tri_pixel_bilinear [OF y _ _ i]) simp_all
  then show "h (q + (4 * y + i) * (4 * iw) + (4 * x + k)) = tri_pixel l (band_of y ih) ?scaled src (int p) iw y i (4 * x + k)"
    using h [OF i k] by simp
qed

text \<open>The blocks of \<open>l\<close> lanes from column \<open>4 b\<close> on.\<close>

lemma tri_blocks_bilinear:
  assumes R: "tri_ready f p q iw ih src L" and l: "l = 4 \<or> l = 8" and y: "y < ih"
    and room: "4 * b + m * l \<le> 4 * iw"
    and h: "\<And>i X. i < 4 \<Longrightarrow> 4 * b \<le> X \<Longrightarrow> X < 4 * b + m * l \<Longrightarrow>
      h (q + (4 * y + i) * (4 * iw) + X) = bilinear l src p iw ih (4 * y + i) X"
    and xs: "length xs = L"
  shows "ok (loop m (\<lambda>k. tri_block l (band_of y ih) src (int p) q iw f f (4 * iw) y (4 * y) (4 * b + k * l)) xs)
    (writes (\<Union>i<4. {q + (4 * y + i) * (4 * iw) + 4 * b..<q + (4 * y + i) * (4 * iw) + 4 * b + m * l}) h xs)"
proof -
  let ?S = "\<lambda>k. \<Union>i<4. {q + (4 * y + i) * (4 * iw) + 4 * b + k * l..<q + (4 * y + i) * (4 * iw) + 4 * b + k * l + l}"
  have "(\<Union>k<m. ?S k) = (\<Union>i<4. \<Union>k<m. {q + (4 * y + i) * (4 * iw) + 4 * b + k * l..<q + (4 * y + i) * (4 * iw) + 4 * b + k * l + l})"
    by blast
  then have S: "(\<Union>k<m. ?S k) = (\<Union>i<4. {q + (4 * y + i) * (4 * iw) + 4 * b..<q + (4 * y + i) * (4 * iw) + 4 * b + m * l})"
    by (simp only: segments)
  show ?thesis
    unfolding S [symmetric]
  proof (rule loop_writes [OF _ xs])
    fix k and ys :: "ieee list" assume k: "k < m" and ys: "length ys = L"
    have "(k + 1) * l \<le> m * l" using k by (intro mult_le_mono) simp_all
    then have kl: "k * l + l \<le> m * l" by simp
    obtain x where x: "4 * b + k * l = 4 * x" using l by (elim disjE) (auto intro: that [of "b + k"] that [of "b + 2 * k"])
    have ox: "4 * x + l \<le> 4 * iw" using room kl x by linarith
    have hk: "h (q + (4 * y + i) * (4 * iw) + (4 * x + j)) = bilinear l src p iw ih (4 * y + i) (4 * x + j)"
      if "i < 4" "j < l" for i j using h [OF that(1), of "4 * x + j"] that(2) kl x by linarith
    show "ok (tri_block l (band_of y ih) src (int p) q iw f f (4 * iw) y (4 * y) (4 * b + k * l) ys) (writes (?S k) h ys)"
      using tri_block_bilinear [OF R l y ox hk ys] unfolding x [symmetric] add.assoc .
  qed
qed

lemma tri_rows_bilinear:
  assumes R: "tri_ready f p q iw ih src L" and y: "y < ih"
    and h: "\<And>Y X. Y < 4 * ih \<Longrightarrow> X < 4 * iw \<Longrightarrow>
      h (q + Y * (4 * iw) + X) = bilinear (lanes bld (4 * iw) X) src p iw ih Y X"
    and xs: "length xs = L"
  shows "ok (tri_rows bld (band_of y ih) src (int p) q iw f f (4 * iw) (4 * y) xs)
    (writes {q + y * (4 * (4 * iw))..<q + y * (4 * (4 * iw)) + 4 * (4 * iw)} h xs)"
proof -
  let ?W = "\<lambda>b n. \<Union>i<4. {q + (4 * y + i) * (4 * iw) + 4 * b..<q + (4 * y + i) * (4 * iw) + 4 * b + n}"
  have iw: "3 \<le> iw" using R by (simp add: tri_ready_def)
  have index: "to_size (fround (source_pos (4 * y) f f)) = Some y" using quarter_index(2) [OF R, of "4 * y"] y by simp
  have row: "4 * y + i < 4 * ih" if "i < 4" for i using y that by linarith
  have "(\<Union>i<4. {q + y * (4 * (4 * iw)) + i * (4 * iw)..<q + y * (4 * (4 * iw)) + i * (4 * iw) + 4 * iw}) =
      {q + y * (4 * (4 * iw))..<q + y * (4 * (4 * iw)) + 4 * (4 * iw)}"
    by (rule segments)
  moreover have "q + (4 * y + i) * (4 * iw) = q + y * (4 * (4 * iw)) + i * (4 * iw)" for i by (simp add: algebra_simps)
  ultimately have whole: "{q + y * (4 * (4 * iw))..<q + y * (4 * (4 * iw)) + 4 * (4 * iw)} = ?W 0 (4 * iw)"
    by (simp only: mult_0_right add_0_right)
  show ?thesis
  proof (cases "bld = SSE")
    case True
    have hb: "h (q + (4 * y + i) * (4 * iw) + X) = bilinear 4 src p iw ih (4 * y + i) X" if "i < 4" "X < 4 * 0 + iw * 4" for i X
      using h [OF row [OF that(1)], of X] that True by (simp add: lanes_def)
    have "ok (loop iw (\<lambda>k. tri_block 4 (band_of y ih) src (int p) q iw f f (4 * iw) y (4 * y) (4 * 0 + k * 4)) xs)
        (writes (?W 0 (iw * 4)) h xs)"
      by (rule tri_blocks_bilinear [OF R _ y _ hb xs]) simp_all
    then show ?thesis
      using iw unfolding tri_rows_def index whole by (simp add: True blocks_def mult.commute)
  next
    case False
    define m where "m = 4 * iw div 8"
    define n where "n = 4 * iw mod 8 div 4"
    have "4 * iw mod 8 = 4 * (iw mod 2)" using mult_mod_right [of 4 iw 2] by simp
    then have "4 * iw mod 8 = n * 4" by (simp add: n_def)
    then have mn: "4 * iw = m * 8 + n * 4" using div_mult_mod_eq [of "4 * iw" 8] by (simp add: m_def)
    have lane: "lanes bld (4 * iw) X = (if X < m * 8 then 8 else 4)" for X by (simp add: lanes_def m_def False)
    have h8: "h (q + (4 * y + i) * (4 * iw) + X) = bilinear 8 src p iw ih (4 * y + i) X" if "i < 4" "X < 4 * 0 + m * 8" for i X
      using h [OF row [OF that(1)], of X] that mn lane [of X] by simp
    have h4: "h (q + (4 * y + i) * (4 * iw) + X) = bilinear 4 src p iw ih (4 * y + i) X"
      if "i < 4" "4 * (2 * m) \<le> X" "X < 4 * (2 * m) + n * 4" for i X
      using h [OF row [OF that(1)], of X] that mn lane [of X] by simp
    have "ok (loop m (\<lambda>k. tri_block 8 (band_of y ih) src (int p) q iw f f (4 * iw) y (4 * y) (4 * 0 + k * 8)) xs)
        (writes (?W 0 (m * 8)) h xs)"
      by (rule tri_blocks_bilinear [OF R _ y _ h8 xs]) (use mn in simp_all)
    then obtain ys where ys: "loop m (\<lambda>k. tri_block 8 (band_of y ih) src (int p) q iw f f (4 * iw) y (4 * y) (k * 8)) xs = Some ys"
      and wy: "writes (?W 0 (m * 8)) h xs ys" by (auto elim: okE)
    have "ok (loop n (\<lambda>k. tri_block 4 (band_of y ih) src (int p) q iw f f (4 * iw) y (4 * y) (4 * (2 * m) + k * 4)) ys)
        (writes (?W (2 * m) (n * 4)) h ys)"
      by (rule tri_blocks_bilinear [OF R _ y _ h4]) (use mn xs writes_length [OF wy] in simp_all)
    then obtain zs where zs: "loop n (\<lambda>k. tri_block 4 (band_of y ih) src (int p) q iw f f (4 * iw) y (4 * y) (4 * (2 * m) + k * 4)) ys = Some zs"
      and wz: "writes (?W (2 * m) (n * 4)) h ys zs" by (auto elim: okE)
    moreover have "?W 0 (m * 8) \<union> ?W (2 * m) (n * 4) = ?W 0 (4 * iw)"
      unfolding mn UN_Un_distrib [symmetric] by (intro SUP_cong refl) auto
    then have "writes (?W 0 (4 * iw)) h xs zs" using writes_trans [OF wy wz] by (simp only:)
    moreover have m8: "4 * (2 * m) = m * 8" by simp
    note zs = zs [unfolded m8]
    ultimately show ?thesis
      using iw False zs unfolding tri_rows_def index whole by (simp add: blocks_def ys flip: m_def n_def)
  qed
qed

text \<open>The three bands of a plane, top to bottom.\<close>

lemma tri_plane_bilinear:
  assumes R: "tri_ready f p q iw ih src L"
    and h: "\<And>Y X. Y < 4 * ih \<Longrightarrow> X < 4 * iw \<Longrightarrow>
      h (q + Y * (4 * iw) + X) = bilinear (lanes bld (4 * iw) X) src p iw ih Y X"
    and xs: "length xs = L"
  shows "ok (tri_plane bld src (int p) q iw f f (4 * iw) (4 * ih) xs) (writes {q..<q + 4 * ih * (4 * iw)} h xs)"
proof -
  let ?b = "4 * (4 * iw)"
  have ih: "2 \<le> ih" using R by (simp add: tri_ready_def)
  have band: "band_of 0 ih = First_Rows" "band_of (ih - 1) ih = Last_Rows" "\<And>k. k < ih - 2 \<Longrightarrow> band_of (1 + k) ih = Middle_Rows"
    using ih by (auto simp: band_of_def)
  have rows: "ok (tri_rows bld (band_of y ih) src (int p) q iw f f (4 * iw) (4 * y) ys) (writes {q + y * ?b..<q + y * ?b + ?b} h ys)"
    if "y < ih" "length ys = L" for y ys
    using R that(1) h that(2) by (rule tri_rows_bilinear)
  obtain a where a: "tri_rows bld First_Rows src (int p) q iw f f (4 * iw) 0 xs = Some a" and wa: "writes {q..<q + ?b} h xs a"
    using rows [of 0 xs] ih xs unfolding band by (auto elim: okE)
  have "ok (loop (ih - 2) (\<lambda>k. tri_rows bld Middle_Rows src (int p) q iw f f (4 * iw) (4 + k * 4)) a)
      (writes {q + ?b..<q + ?b + (ih - 2) * ?b} h a)"
  proof (rule loop_writes_segments)
    show "length a = L" using writes_length [OF wa] xs by simp
    fix k and ys :: "ieee list" assume "k < ih - 2" "length ys = L"
    then show "ok (tri_rows bld Middle_Rows src (int p) q iw f f (4 * iw) (4 + k * 4) ys)
        (writes {q + ?b + k * ?b..<q + ?b + k * ?b + ?b} h ys)"
      using rows [of "1 + k" ys] band(3) [of k] by (simp add: algebra_simps)
  qed
  then obtain b where b: "loop (ih - 2) (\<lambda>k. tri_rows bld Middle_Rows src (int p) q iw f f (4 * iw) (4 + k * 4)) a = Some b"
    and wb: "writes {q + ?b..<q + ?b + (ih - 2) * ?b} h a b" by (auto elim: okE)
  have "length b = L" using writes_length [OF wa] writes_length [OF wb] xs by simp
  then have "ok (tri_rows bld Last_Rows src (int p) q iw f f (4 * iw) (4 * ih - 4) b)
      (writes {q + (ih - 1) * ?b..<q + (ih - 1) * ?b + ?b} h b)"
    using rows [of "ih - 1" b] ih unfolding band by (simp add: diff_mult_distrib2)
  then obtain c where c: "tri_rows bld Last_Rows src (int p) q iw f f (4 * iw) (4 * ih - 4) b = Some c"
    and wc: "writes {q + (ih - 1) * ?b..<q + (ih - 1) * ?b + ?b} h b c" by (auto elim: okE)
  obtain j where j: "ih = j + 2" using ih by (metis le_add_diff_inverse2)
  have ends: "q + (ih - 1) * ?b = q + ?b + (ih - 2) * ?b" "q + (ih - 1) * ?b + ?b = q + 4 * ih * (4 * iw)"
    by (simp_all add: j algebra_simps)
  have "{q..<q + ?b} \<union> ({q + ?b..<q + ?b + (ih - 2) * ?b} \<union> {q + ?b + (ih - 2) * ?b..<q + 4 * ih * (4 * iw)}) = {q..<q + 4 * ih * (4 * iw)}"
    by (simp only: ivl_disj_un_two(3) le_add1 ends(2) [symmetric] ends(1) add.assoc)
  then have "writes {q..<q + 4 * ih * (4 * iw)} h xs c"
    using writes_trans [OF wa writes_trans [OF wb wc [unfolded ends(2), unfolded ends(1)]]] by (simp only:)
  moreover have "tri_plane bld src (int p) q iw f f (4 * iw) (4 * ih) xs = Some c"
    using ih b c unfolding tri_plane_def a Option.bind.bind_lunit by (simp add: j)
  ultimately show ?thesis by simp
qed

section \<open>Where the kernel leaves the tensor\<close>

text \<open>An iteration that leaves the memory ends the loop.\<close>

lemma blocks_first_None: "0 < l \<Longrightarrow> f 0 s = None \<Longrightarrow> blocks l ow f s = None"
  by (auto simp: blocks_def div_greater_zero_iff intro!: loop_first_None)

lemma tri_block_escapes:
  assumes "1 \<le> iw" and "to_size (fround (source_pos 0 fx fy)) = Some 0"
  shows "tri_block l First_Rows src 0 q iw fx fy ow 0 oy 0 xs = None"
  using assms by (simp add: tri_block_def taps_def rdz_def)

lemma quarter_factor:
  assumes "1 \<le> n" "4 * n \<le> 2 ^ 22"
  shows "divf (n2f n) (n2f (4 * n)) = Fin (1 / 4)"
proof -
  have "is_fin (divf (n2f n) (n2f (4 * n)))" "val (divf (n2f n) (n2f (4 * n))) = 1 / 4"
    using factor_exact [of n 2] assms by auto
  then show ?thesis by (cases "divf (n2f n) (n2f (4 * n))") auto
qed

text \<open>The first load of the first block of a call is at column -1 of row 0.\<close>

lemma kernel_escapes:
  assumes "1 \<le> N" "1 \<le> C" "1 \<le> iw"
  shows "Upsample4x_TriangleInterpolation bld src 0 iw ih (Fin (1 / 4)) (Fin (1 / 4)) (4 * iw) (4 * ih) C N dst = None"
proof -
  have index: "to_size (fround (source_pos 0 (Fin (1 / 4)) (Fin (1 / 4)))) = Some 0"
    using source_index [of "Fin (1 / 4)" 2 0] by simp
  have "blocks l (4 * iw) (tri_block l First_Rows src 0 0 iw (Fin (1 / 4)) (Fin (1 / 4)) (4 * iw) 0 0) dst = None"
    if "0 < l" for l
    using that tri_block_escapes [OF assms(3) index] by (rule blocks_first_None)
  then have "tri_plane bld src 0 0 iw (Fin (1 / 4)) (Fin (1 / 4)) (4 * iw) (4 * ih) dst = None"
    by (simp add: tri_plane_def tri_rows_def index)
  then show ?thesis
    unfolding Upsample4x_TriangleInterpolation_def each_plane_def using assms by (intro loop_first_None) simp_all
qed

text \<open>What \<open>execute\<close> does for the factor 4 in a vector build: it calls the kernel on the tensor alone.\<close>

lemma execute_calls_kernel:
  assumes "bld \<noteq> NoSIMD" "rtype cfg = ''caffe.ResampleParameter.LINEAR''"
    and dims: "dims inp = [N, C, IH, IW]" "dims out = [N, C, 4 * IH, 4 * IW]"
    and size: "1 \<le> IH" "1 \<le> IW" "4 * IH \<le> 2 ^ 22" "4 * IW \<le> 2 ^ 22"
  shows "resample_execute bld cfg inp out =
    map_option (\<lambda>dst. (OK, out\<lparr>data := dst\<rparr>))
      (Upsample4x_TriangleInterpolation bld (data inp) 0 IW IH (Fin (1 / 4)) (Fin (1 / 4)) (4 * IW) (4 * IH) C N (data out))"
proof -
  have r: "rd [a, b, c, d] 0 = Some a" "rd [a, b, c, d] 1 = Some b" "rd [a, b, c, d] 2 = Some c" "rd [a, b, c, d] 3 = Some d"
    for a b c d :: nat by (simp_all add: rd_def)
  have f: "divf (n2f IW) (n2f (4 * IW)) = Fin (1 / 4)" "divf (n2f IH) (n2f (4 * IH)) = Fin (1 / 4)"
    using quarter_factor size by simp_all
  have "IW \<noteq> 4 * IW" "\<not> flt (Fin 1) (Fin (1 / 4))" "feq (Fin (1 / 4)) (Fin (1 / 4))"
    using size by (simp_all add: flt_fin feq_fin)
  then show ?thesis
    unfolding resample_execute_def dims r Option.bind.bind_lunit Let_def assms(2) f
    using assms(1) by (simp add: map_option_case split: option.split)
qed

section \<open>Properties\<close>

text \<open>A pixel of the output of a call, at position \<open>i\<close> of the output tensor.\<close>

definition call_pixel :: "build \<Rightarrow> ieee list \<Rightarrow> nat \<Rightarrow> nat \<Rightarrow> nat \<Rightarrow> nat \<Rightarrow> ieee" where
  "call_pixel bld mem base iw ih i =
     (let k = i div (4 * iw * (4 * ih)); j = i mod (4 * iw * (4 * ih)); Y = j div (4 * iw); X = j mod (4 * iw) in
      bilinear (lanes bld (4 * iw) X) mem (base + k * (iw * ih)) iw ih Y X)"

lemma call_pixel_at:
  assumes "Y < 4 * ih" "X < 4 * iw"
  shows "call_pixel bld mem base iw ih (k * (4 * iw * (4 * ih)) + Y * (4 * iw) + X) =
    bilinear (lanes bld (4 * iw) X) mem (base + k * (iw * ih)) iw ih Y X"
proof -
  have "Y * (4 * iw) + X < 4 * iw * (4 * ih)" using index2_less [OF assms] by (simp add: mult.commute)
  note outer = split_index [OF this, of k]
  show ?thesis
    unfolding call_pixel_def add.assoc outer Let_def using split_index [OF assms(2), of Y] by simp
qed

lemma kernel_planes:
  assumes "bld \<noteq> NoSIMD" "3 \<le> iw" "2 \<le> ih" "4 * iw \<le> 2 ^ 22" "4 * ih \<le> 2 ^ 22"
    and mem: "1 \<le> base" "base + N * C * (iw * ih) < length mem" and dst: "length dst = N * C * (4 * iw * (4 * ih))"
  shows "Upsample4x_TriangleInterpolation bld mem base iw ih (Fin (1 / 4)) (Fin (1 / 4)) (4 * iw) (4 * ih) C N dst =
    Some (map (call_pixel bld mem base iw ih) [0..<N * C * (4 * iw * (4 * ih))])"
  unfolding Upsample4x_TriangleInterpolation_def
proof (rule each_plane_writes [OF _ dst])
  fix k and xs :: "ieee list" assume k: "k < N * C" and xs: "length xs = N * C * (4 * iw * (4 * ih))"
  have part: "k * x + x \<le> N * C * x" for x using mult_le_mono1 [of "Suc k" "N * C" x] k by simp
  have "tri_ready (Fin (1 / 4)) (base + k * (iw * ih)) (k * (4 * iw * (4 * ih))) iw ih mem (length xs)"
    using assms part [of "iw * ih"] part [of "4 * iw * (4 * ih)"] xs by (simp add: tri_ready_def mult.commute)
  then have "ok (tri_plane bld mem (int (base + k * (iw * ih))) (k * (4 * iw * (4 * ih))) iw (Fin (1 / 4)) (Fin (1 / 4)) (4 * iw) (4 * ih) xs)
      (writes {k * (4 * iw * (4 * ih))..<k * (4 * iw * (4 * ih)) + 4 * ih * (4 * iw)} (call_pixel bld mem base iw ih) xs)"
    by (rule tri_plane_bilinear) (simp_all only: call_pixel_at)
  then show "ok (tri_plane bld mem (int (base + k * (iw * ih))) (k * (4 * iw * (4 * ih))) iw (Fin (1 / 4)) (Fin (1 / 4)) (4 * iw) (4 * ih) xs)
      (writes {k * (4 * iw * (4 * ih))..<k * (4 * iw * (4 * ih)) + 4 * iw * (4 * ih)} (call_pixel bld mem base iw ih) xs)"
    by (simp only: mult.commute [of "4 * ih" "4 * iw"])
qed

text \<open>
  C13: Linear resampling by the factor 4 in a vector build. \<open>execute\<close> always reads the number in
  front of the input tensor, so on the tensor alone the call leaves its memory. Where the tensor
  lies inside a larger memory, with at least one number in front of it and one behind it, the same
  call of the kernel fills the whole output tensor, every plane of it, with the bilinear interpolation
  of the source planes: all three bands of rows, blocks of eight lanes and the remainder of four, the
  hand-written tables of weights and the shuffles of the registers amount to the triangle
  filter over the four nearest pixels, divided by the weights that lie inside the plane.
\<close>

theorem resample_triangle:
  assumes vec: "bld \<noteq> NoSIMD" and type: "rtype cfg = ''caffe.ResampleParameter.LINEAR''"
    and dims: "dims inp = [N, C, IH, IW]" "dims out = [N, C, 4 * IH, 4 * IW]"
    and size: "1 \<le> N" "1 \<le> C" "2 \<le> IH" "3 \<le> IW" "4 * IH \<le> 2 ^ 22" "4 * IW \<le> 2 ^ 22"
    and src: "length (data inp) = N * C * (IW * IH)" and dst: "length (data out) = N * C * (4 * IW * (4 * IH))"
    and mem: "mem = before @ u # data inp @ v # behind"
  shows "resample_execute bld cfg inp out = None \<and>
    Upsample4x_TriangleInterpolation bld mem (length before + 1) IW IH (divf (n2f IW) (n2f (4 * IW))) (divf (n2f IH) (n2f (4 * IH)))
      (4 * IW) (4 * IH) C N (data out) =
    Some (map (call_pixel bld mem (length before + 1) IW IH) [0..<N * C * (4 * IW * (4 * IH))])"
proof
  show "resample_execute bld cfg inp out = None"
    using execute_calls_kernel [OF vec type dims] kernel_escapes size by simp
  have "divf (n2f IW) (n2f (4 * IW)) = Fin (1 / 4)" "divf (n2f IH) (n2f (4 * IH)) = Fin (1 / 4)"
    using quarter_factor size by simp_all
  moreover have "1 \<le> length before + 1" "length before + 1 + N * C * (IW * IH) < length mem" using src by (simp_all add: mem)
  ultimately show "Upsample4x_TriangleInterpolation bld mem (length before + 1) IW IH (divf (n2f IW) (n2f (4 * IW))) (divf (n2f IH) (n2f (4 * IH)))
      (4 * IW) (4 * IH) C N (data out) =
    Some (map (call_pixel bld mem (length before + 1) IW IH) [0..<N * C * (4 * IW * (4 * IH))])"
    using kernel_planes [OF vec size(4,3,6,5) _ _ dst] by simp
qed

theorem resample_triangle_witness:
  "resample_execute (AVX2 False) \<lparr>rtype = ''caffe.ResampleParameter.LINEAR'', antialias = False\<rparr>
     \<lparr>dims = [1, 1, 2, 3], data = replicate 6 (Fin 1)\<rparr> \<lparr>dims = [1, 1, 8, 12], data = replicate 96 (Fin 0)\<rparr> = None \<and>
   (\<exists>d. Upsample4x_TriangleInterpolation (AVX2 False) (replicate 8 (Fin 1)) 1 3 2 (divf (n2f 3) (n2f 12)) (divf (n2f 2) (n2f 8)) 12 8 1 1
       (replicate 96 (Fin 0)) = Some d \<and> length d = 96 \<and> d ! 13 = Fin 1)"
proof -
  let ?in = "\<lparr>dims = [1, 1, 2, 3], data = replicate 6 (Fin 1)\<rparr>" and ?out = "\<lparr>dims = [1, 1, 8, 12], data = replicate 96 (Fin 0)\<rparr>"
  have m: "replicate 8 (Fin 1) = [] @ Fin 1 # data ?in @ Fin 1 # []" by (simp add: numeral_eq_Suc)
  have "resample_execute (AVX2 False) \<lparr>rtype = ''caffe.ResampleParameter.LINEAR'', antialias = False\<rparr> ?in ?out = None \<and>
    Upsample4x_TriangleInterpolation (AVX2 False) (replicate 8 (Fin 1)) (length ([] :: ieee list) + 1) 3 2 (divf (n2f 3) (n2f (4 * 3))) (divf (n2f 2) (n2f (4 * 2)))
      (4 * 3) (4 * 2) 1 1 (data ?out) =
    Some (map (call_pixel (AVX2 False) (replicate 8 (Fin 1)) (length ([] :: ieee list) + 1) 3 2) [0..<1 * 1 * (4 * 3 * (4 * 2))])"
    by (rule resample_triangle [OF _ _ _ _ _ _ _ _ _ _ _ _ m]) simp_all
  moreover have "call_pixel (AVX2 False) (replicate 8 (Fin 1)) 1 3 2 13 = Fin 1" by code_simp
  ultimately show ?thesis by simp
qed

end
