(* ===== verification/Detector.thy ===== *)
theory Detector
  imports Ext_Base "HOL-Library.Sublist"
begin

text \<open>
  The object detector of the application (\<open>video_analytics_example/detector.cpp\<close>): it collects
  decoded pictures into the input blob of an inference request, starts the request when the
  batch is full, and turns the rows of the \<open>DetectionOutput\<close> layer into boxes. In asynchronous
  mode two requests alternate: one is filled while the other runs.

  The Inference Engine is the parameter \<open>infer\<close>: the output of the network for an input blob,
  or None when the inference fails. A blob is the list of its planes, one per picture and
  channel. \<open>cv::split\<close> writes the planes of a picture into the headers \<open>input_channels\<close>, which
  are views of a blob as long as the size fits; a picture of another size gets memory of its
  own. A write to the blob of a running request is a data race, hence None.
\<close>

section \<open>Data\<close>

datatype insert_status = INSERTIMG_NULL | INSERTIMG_INSERTED | INSERTIMG_PROCESSED | INSERTIMG_GET

record 'p mat =
  msize :: "int \<times> int"
  planes :: "'p list"

record 'p image_info =
  isize :: "int \<times> int"
  i_inputid :: int
  i_frameno :: int
  i_channelid :: int
  i_orgimg :: "'p mat"

record resultbox =
  classid :: int
  confidence :: ieee
  left :: int
  right :: int
  top :: int
  bottom :: int

record 'p det_result =
  boxs :: "resultbox list"
  orgimg :: "'p mat"
  imgsize :: "int \<times> int"
  inputid :: int
  frameno :: int
  channelid :: int

datatype phase = Not_Started | Running | Ready

record 'p request =
  blob :: "'p list"
  out_blob :: "ieee list"
  phase :: phase

datatype channel = View nat nat | Own

record 'p detector =
  num_batch :: int
  num_channels :: int
  nbatch_index :: int
  maxProposalCount :: int
  objectSize :: int
  bisASync :: bool
  bLoad :: bool
  cpu_extension :: bool
  input_geometry :: "int \<times> int"
  input_channels :: "channel list"
  imginfoque :: "'p image_info list"
  requests :: "'p request list"
  infer_request_curr :: nat
  infer_request_next :: nat

text \<open>\<open>Detector::Detector\<close>: no request exists yet.\<close>

definition Detector :: "'p detector" where
  "Detector = \<lparr>num_batch = 0, num_channels = 0, nbatch_index = 0, maxProposalCount = 0, objectSize = 0,
     bisASync = False, bLoad = False, cpu_extension = False, input_geometry = (0, 0), input_channels = [],
     imginfoque = [], requests = [], infer_request_curr = 0, infer_request_next = 0\<rparr>"

text \<open>A call may leave the memory (None) or throw (\<open>Inl\<close>).\<close>

definition andthen :: "(exn + 'a) option \<Rightarrow> ('a \<Rightarrow> (exn + 'b) option) \<Rightarrow> (exn + 'b) option" where
  "andthen m f = (case m of None \<Rightarrow> None | Some (Inl e) \<Rightarrow> Some (Inl e) | Some (Inr x) \<Rightarrow> f x)"

lemma andthen_simps [simp]:
  "andthen None f = None" "andthen (Some (Inl e)) f = Some (Inl e)" "andthen (Some (Inr x)) f = f x"
  by (simp_all add: andthen_def)

section \<open>Loading a network\<close>

text \<open>What the engine answers: whether each step succeeds, and the shapes of the network.\<close>

record 'p engine =
  plugin_ok :: bool
  network_ok :: bool
  getBatchSize :: "int \<Rightarrow> int"
  outputDims :: "nat list"
  load_ok :: bool
  inputDims :: "nat list"
  fresh_request :: "'p request"

definition Load :: "'p engine \<Rightarrow> string \<Rightarrow> int \<Rightarrow> 'p detector \<Rightarrow> (exn + int \<times> 'p detector) option" where
  "Load eng device bn d =
     (if bLoad d then Some (Inr (0, d))
      else if \<not> plugin_ok eng then Some (Inr (- 1, d))
      else
        let d = d\<lparr>cpu_extension := (cpu_extension d \<or> sublist ''CPU'' device)\<rparr> in
        if \<not> network_ok eng then Some (Inr (- 1, d))
        else
          let d = d\<lparr>num_batch := getBatchSize eng bn\<rparr> in do {
            props \<leftarrow> rd (outputDims eng) 2;
            osize \<leftarrow> rd (outputDims eng) 3;
            let d = d\<lparr>maxProposalCount := int props, objectSize := int osize\<rparr>;
            if objectSize d \<noteq> 7 then Some (Inl (StdException ''  Output should have 7 as a last dimension''))
            else if length (outputDims eng) \<noteq> 4 then Some (Inl (StdException ''  Incorrect output dimensions for SSD''))
            else if \<not> load_ok eng then Some (Inr (- 1, d))
            else do {
              let d = d\<lparr>requests := [fresh_request eng, fresh_request eng], infer_request_curr := 0, infer_request_next := 1\<rparr>;
              c \<leftarrow> rd (inputDims eng) 2;
              let d = d\<lparr>num_channels := int c\<rparr>;
              if \<not> (num_channels d = 3 \<or> num_channels d = 1)
              then Some (Inl (StdException ''Input layer should have 1 or 3 channels''))
              else do {
                w \<leftarrow> rd (inputDims eng) 0;
                h \<leftarrow> rd (inputDims eng) 1;
                Some (Inr (0, d\<lparr>input_geometry := (int w, int h), nbatch_index := 0, bisASync := True, bLoad := True\<rparr>)) } } })"

section \<open>Requests\<close>

text \<open>\<open>StartAsync\<close> and \<open>Wait(RESULT_READY)\<close> of the engine; the flag tells whether it answers \<open>OK\<close>.\<close>

definition StartAsync :: "nat \<Rightarrow> 'p detector \<Rightarrow> (exn + 'p detector) option" where
  "StartAsync r d = do {
     q \<leftarrow> rd (requests d) r;
     Some (if phase q = Running then Inl (IeException ''REQUEST_BUSY'')
       else Inr (d\<lparr>requests := (requests d)[r := q\<lparr>phase := Running\<rparr>]\<rparr>)) }"

definition Wait :: "('p list \<Rightarrow> ieee list option) \<Rightarrow> nat \<Rightarrow> 'p detector \<Rightarrow> (exn + bool \<times> 'p detector) option" where
  "Wait infer r d = do {
     q \<leftarrow> rd (requests d) r;
     Some (case phase q of Not_Started \<Rightarrow> Inr (False, d) | Ready \<Rightarrow> Inr (True, d)
       | Running \<Rightarrow> (case infer (blob q) of None \<Rightarrow> Inl (IeException ''inference failed'')
           | Some out \<Rightarrow> Inr (True, d\<lparr>requests := (requests d)[r := q\<lparr>phase := Ready, out_blob := out\<rparr>]\<rparr>))) }"

definition in_request :: "'p detector \<Rightarrow> nat" where
  "in_request d = (if bisASync d then infer_request_next d else infer_request_curr d)"

section \<open>Inserting a picture\<close>

definition WrapInputLayer :: "nat \<Rightarrow> 'p detector \<Rightarrow> 'p detector" where
  "WrapInputLayer r d = d\<lparr>input_channels := map (View r) [0..<nat (num_batch d * num_channels d)]\<rparr>"

definition write_plane :: "nat \<Rightarrow> nat \<Rightarrow> 'p \<Rightarrow> 'p detector \<Rightarrow> 'p detector option" where
  "write_plane r k p d = do {
     q \<leftarrow> rd (requests d) r;
     b \<leftarrow> (if phase q = Running then None else wr (blob q) k p);
     Some (d\<lparr>requests := (requests d)[r := q\<lparr>blob := b\<rparr>]\<rparr>) }"

definition split :: "'p mat \<Rightarrow> nat \<Rightarrow> 'p detector \<Rightarrow> 'p detector option" where
  "split img p = loop (length (planes img)) (\<lambda>j d. do {
     ch \<leftarrow> rd (input_channels d) (p + j);
     case ch of Own \<Rightarrow> Some d
     | View r k \<Rightarrow> if msize img = input_geometry d then write_plane r k (planes img ! j) d
         else Some (d\<lparr>input_channels := (input_channels d)[p + j := Own]\<rparr>) })"

fun EmptyQueue :: "'a list \<Rightarrow> 'a list" where
  "EmptyQueue [] = []"
| "EmptyQueue (x # q) = EmptyQueue q"

definition blank_result :: "'p det_result" where
  "blank_result = \<lparr>boxs = [], orgimg = \<lparr>msize = (0, 0), planes = []\<rparr>, imgsize = (0, 0), inputid = 0, frameno = 0, channelid = 0\<rparr>"

definition result_of :: "'p image_info \<Rightarrow> 'p det_result" where
  "result_of x = \<lparr>boxs = [], orgimg = i_orgimg x, imgsize = isize x, inputid = i_inputid x, frameno = i_frameno x,
     channelid = i_channelid x\<rparr>"

fun fill_results ::
    "nat \<Rightarrow> nat \<Rightarrow> 'p det_result list \<Rightarrow> 'p image_info list \<Rightarrow> exn + 'p det_result list \<times> 'p image_info list" where
  "fill_results i 0 objs q = Inr (objs, q)"
| "fill_results i (Suc n) objs [] = Inl (StdException ''InsertImage queue fail'')"
| "fill_results i (Suc n) objs (x # q) = fill_results (Suc i) n (objs[i := result_of x]) q"

text \<open>The box of one row of the result, for a picture of the given size.\<close>

definition box_of :: "int \<times> int \<Rightarrow> ieee list \<Rightarrow> nat \<Rightarrow> resultbox option" where
  "box_of sz out p = do {
     let (w, h) = sz;
     r1 \<leftarrow> rd out (p + 1);
     r2 \<leftarrow> rd out (p + 2);
     r3 \<leftarrow> rd out (p + 3);
     r4 \<leftarrow> rd out (p + 4);
     r5 \<leftarrow> rd out (p + 5);
     r6 \<leftarrow> rd out (p + 6);
     cl \<leftarrow> to_int r1;
     lft \<leftarrow> to_int (mulf r3 (i2f w));
     tp \<leftarrow> to_int (mulf r4 (i2f h));
     rgt \<leftarrow> to_int (mulf r5 (i2f w));
     btm \<leftarrow> to_int (mulf r6 (i2f h));
     Some \<lparr>classid = cl, confidence = r2, left = (if lft < 0 then 0 else lft), right = (if rgt \<ge> w then w - 1 else rgt),
       top = (if tp < 0 then 0 else tp), bottom = (if btm \<ge> h then h - 1 else btm)\<rparr> }"

definition parse_row ::
    "int \<Rightarrow> nat \<Rightarrow> ieee list \<Rightarrow> nat \<Rightarrow> 'p det_result list \<times> insert_status \<Rightarrow> (('p det_result list \<times> insert_status) \<times> bool) option" where
  "parse_row nb osize out k = (\<lambda>(objs, st). do {
     r0 \<leftarrow> rd out (k * osize);
     imgid \<leftarrow> to_int r0;
     r2 \<leftarrow> (if imgid < 0 then Some r0 else rd out (k * osize + 2));
     if imgid < 0 \<or> feq r2 (Fin 0) \<or> imgid > nb then Some ((objs, st), False)
     else do {
       obj \<leftarrow> rd objs (nat imgid);
       b \<leftarrow> box_of (imgsize obj) out (k * osize);
       Some ((objs[nat imgid := obj\<lparr>boxs := boxs obj @ [b]\<rparr>], INSERTIMG_GET), True) } })"

definition resize :: "nat \<Rightarrow> 'p det_result list \<Rightarrow> 'p det_result list" where
  "resize n xs = take n xs @ replicate (n - length xs) blank_result"

definition get_results :: "'p detector \<Rightarrow> 'p det_result list \<Rightarrow> (exn + insert_status \<times> 'p det_result list \<times> 'p detector) option" where
  "get_results d objects =
     (if num_batch d < 0 then Some (Inl (StdException ''length_error''))
      else andthen (Some (fill_results 0 (nat (num_batch d)) (resize (nat (num_batch d)) objects) (imginfoque d))) (\<lambda>(objs, que). do {
       q \<leftarrow> rd (requests d) (infer_request_curr d);
       (objs, st) \<leftarrow> loop_brk 0 (nat (maxProposalCount d)) (parse_row (num_batch d) (nat (objectSize d)) (out_blob q)) (objs, INSERTIMG_PROCESSED);
       Some (Inr (st, objs, d\<lparr>imginfoque := que\<rparr>)) }))"

definition InsertImage ::
    "('p list \<Rightarrow> ieee list option) \<Rightarrow> 'p mat \<Rightarrow> int \<Rightarrow> int \<Rightarrow> int \<Rightarrow> 'p det_result list \<Rightarrow> 'p detector
     \<Rightarrow> (exn + insert_status \<times> 'p det_result list \<times> 'p detector) option" where
  "InsertImage infer img iid fno chid objects d =
     (if fst (msize img) = 0 \<or> snd (msize img) = 0 \<or> \<not> bLoad d then Some (Inr (INSERTIMG_NULL, objects, d))
      else do {
        d \<leftarrow> (if nbatch_index d = 0 then rd (requests d) (in_request d) \<bind> (\<lambda>q. Some (WrapInputLayer (in_request d) d)) else Some d);
        let info = \<lparr>isize = msize img, i_inputid = iid, i_frameno = fno, i_channelid = chid, i_orgimg = img\<rparr>;
        let d = d\<lparr>imginfoque := imginfoque d @ [info]\<rparr>;
        d \<leftarrow> split img (nat (num_channels d * nbatch_index d)) d;
        let d = d\<lparr>nbatch_index := nbatch_index d + 1\<rparr>;
        if nbatch_index d < num_batch d then Some (Inr (INSERTIMG_INSERTED, objects, d))
        else
          andthen (StartAsync (in_request d) (d\<lparr>nbatch_index := 0\<rparr>)) (\<lambda>d.
          andthen (Wait infer (infer_request_curr d) d) (\<lambda>(ready, d).
          andthen (if ready then get_results d objects else Some (Inr (INSERTIMG_INSERTED, objects, d))) (\<lambda>(st, objects, d).
          Some (Inr (st, objects,
            if bisASync d then d\<lparr>infer_request_curr := infer_request_next d, infer_request_next := infer_request_curr d\<rparr>
            else d))))) })"

text \<open>\<open>SetMode\<close>: the flag selects the asynchronous mode, whatever its name says.\<close>

definition SetMode :: "('p list \<Rightarrow> ieee list option) \<Rightarrow> bool \<Rightarrow> 'p detector \<Rightarrow> (exn + 'p detector) option" where
  "SetMode infer isSync d =
     andthen (Wait infer (infer_request_curr d) d) (\<lambda>(ready, d).
     andthen (Wait infer (infer_request_next d) d) (\<lambda>(ready, d).
     Some (Inr (d\<lparr>imginfoque := EmptyQueue (imginfoque d), nbatch_index := 0, bisASync := isSync\<rparr>))))"

section \<open>Reading the rows of a result\<close>

definition row_id :: "ieee list \<Rightarrow> nat \<Rightarrow> int" where
  "row_id out k = the (to_int (out ! (k * 7)))"

definition row_live :: "ieee list \<Rightarrow> nat \<Rightarrow> bool" where
  "row_live out k \<longleftrightarrow> 0 \<le> row_id out k \<and> \<not> feq (out ! (k * 7 + 2)) (Fin 0)"

text \<open>The rows before the first one that ends the list, the boxes of one picture, and all results.\<close>

definition live_rows :: "ieee list \<Rightarrow> nat \<Rightarrow> nat \<Rightarrow> nat list" where
  "live_rows out i n = takeWhile (row_live out) [i..<i + n]"

definition boxes_for :: "int \<times> int \<Rightarrow> ieee list \<Rightarrow> nat list \<Rightarrow> nat \<Rightarrow> resultbox list" where
  "boxes_for sz out ks j = map (\<lambda>k. the (box_of sz out (k * 7))) (filter (\<lambda>k. row_id out k = int j) ks)"

definition labelled :: "int \<times> int \<Rightarrow> ieee list \<Rightarrow> nat \<Rightarrow> 'p image_info list \<Rightarrow> 'p det_result list" where
  "labelled sz out n infos =
     map (\<lambda>j. (result_of (infos ! j))\<lparr>boxs := boxes_for sz out (live_rows out 0 n) j\<rparr>) [0..<length infos]"

definition result_status :: "ieee list \<Rightarrow> nat \<Rightarrow> insert_status" where
  "result_status out n = (if live_rows out 0 n = [] then INSERTIMG_PROCESSED else INSERTIMG_GET)"

text \<open>Rows that can be read: labels in range, coordinates that an \<open>int\<close> can hold.\<close>

definition rows_ok :: "int \<times> int \<Rightarrow> nat \<Rightarrow> nat \<Rightarrow> ieee list \<Rightarrow> bool" where
  "rows_ok sz B n out \<longleftrightarrow> n * 7 \<le> length out \<and> (\<forall>k < n. to_int (out ! (k * 7)) \<noteq> None \<and>
     (row_live out k \<longrightarrow> row_id out k < int B \<and> box_of sz out (k * 7) \<noteq> None))"

lemma live_rows_Suc:
  "live_rows out i (Suc n) = (if row_live out i then i # live_rows out (Suc i) n else [])"
proof -
  have "[i..<i + Suc n] = i # [Suc i..<Suc i + n]" by (subst upt_rec) simp
  then show ?thesis by (simp only: live_rows_def takeWhile.simps)
qed

lemma parse_rows:
  assumes "length objs = B" and "\<And>j. j < B \<Longrightarrow> imgsize (objs ! j) = sz"
    and "\<And>k. i \<le> k \<Longrightarrow> k < i + n \<Longrightarrow> k * 7 + 7 \<le> length out \<and> to_int (out ! (k * 7)) \<noteq> None \<and>
      (row_live out k \<longrightarrow> row_id out k < int B \<and> box_of sz out (k * 7) \<noteq> None)"
  shows "loop_brk i n (parse_row (int B) 7 out) (objs, st) =
    Some (map (\<lambda>j. (objs ! j)\<lparr>boxs := boxs (objs ! j) @ boxes_for sz out (live_rows out i n) j\<rparr>) [0..<B],
      if live_rows out i n = [] then st else INSERTIMG_GET)"
  using assms
proof (induction n arbitrary: i objs st)
  case 0
  then have "map (\<lambda>j. (objs ! j)\<lparr>boxs := boxs (objs ! j)\<rparr>) [0..<B] = objs" by (intro nth_equalityI) simp_all
  then show ?case by (simp add: live_rows_def boxes_for_def)
next
  case (Suc n)
  have row: "i * 7 + 7 \<le> length out" "to_int (out ! (i * 7)) \<noteq> None"
    "row_live out i \<longrightarrow> row_id out i < int B \<and> box_of sz out (i * 7) \<noteq> None" using Suc.prems(3) [of i] by auto
  then have rd: "rd out (i * 7) = Some (out ! (i * 7))" "rd out (i * 7 + 2) = Some (out ! (i * 7 + 2))"
    "to_int (out ! (i * 7)) = Some (row_id out i)" by (auto simp: rd_Some row_id_def)
  show ?case
  proof (cases "row_live out i")
    case False
    then have "parse_row (int B) 7 out i (objs, st) = Some ((objs, st), False)"
      using rd by (auto simp: parse_row_def row_live_def)
    moreover have "map (\<lambda>j. (objs ! j)\<lparr>boxs := boxs (objs ! j)\<rparr>) [0..<B] = objs"
      using Suc.prems(1) by (intro nth_equalityI) simp_all
    ultimately show ?thesis using False by (simp add: live_rows_Suc boxes_for_def)
  next
    case True
    obtain b where b: "box_of sz out (i * 7) = Some b" using row True by auto
    define j where "j = nat (row_id out i)"
    have j: "j < B" "row_id out i = int j" using row True by (auto simp: j_def row_live_def)
    let ?objs = "objs[j := (objs ! j)\<lparr>boxs := boxs (objs ! j) @ [b]\<rparr>]"
    have "parse_row (int B) 7 out i (objs, st) = Some ((?objs, INSERTIMG_GET), True)"
      using rd j b Suc.prems(1,2) True by (simp add: parse_row_def row_live_def rd_Some)
    moreover have "loop_brk (Suc i) n (parse_row (int B) 7 out) (?objs, INSERTIMG_GET) =
      Some (map (\<lambda>j. (?objs ! j)\<lparr>boxs := boxs (?objs ! j) @ boxes_for sz out (live_rows out (Suc i) n) j\<rparr>) [0..<B],
        if live_rows out (Suc i) n = [] then INSERTIMG_GET else INSERTIMG_GET)"
      using Suc.prems j(1) by (intro Suc.IH) (auto simp: nth_list_update)
    moreover have "map (\<lambda>j. (?objs ! j)\<lparr>boxs := boxs (?objs ! j) @ boxes_for sz out (live_rows out (Suc i) n) j\<rparr>) [0..<B] =
      map (\<lambda>j. (objs ! j)\<lparr>boxs := boxs (objs ! j) @ boxes_for sz out (live_rows out i (Suc n)) j\<rparr>) [0..<B]"
      using True j b Suc.prems(1) by (intro nth_equalityI) (auto simp: live_rows_Suc boxes_for_def nth_list_update)
    ultimately show ?thesis using True by (simp add: live_rows_Suc)
  qed
qed

lemma fill_results_eq:
  "length q \<ge> n \<Longrightarrow> i + n \<le> length objs \<Longrightarrow>
    fill_results i n objs q = Inr (take i objs @ map result_of (take n q) @ drop (i + n) objs, drop n q)"
proof (induction n arbitrary: i objs q)
  case (Suc n)
  obtain x q' where q: "q = x # q'" using Suc.prems(1) by (cases q) auto
  have "fill_results (Suc i) n (objs[i := result_of x]) q' =
      Inr (take (Suc i) (objs[i := result_of x]) @ map result_of (take n q') @ drop (Suc i + n) (objs[i := result_of x]), drop n q')"
    using Suc.prems q by (intro Suc.IH) auto
  then show ?case using Suc.prems(2) by (simp add: q take_Suc_list_update drop_update_cancel)
qed simp

lemma parse_results:
  assumes out: "rows_ok sz B n out" and infos: "length infos = B" "\<And>x. x \<in> set infos \<Longrightarrow> isize x = sz"
  shows "loop_brk 0 n (parse_row (int B) 7 out) (map result_of infos, INSERTIMG_PROCESSED) =
    Some (labelled sz out n infos, result_status out n)"
proof -
  have "k * 7 + 7 \<le> length out \<and> to_int (out ! (k * 7)) \<noteq> None \<and>
      (row_live out k \<longrightarrow> row_id out k < int B \<and> box_of sz out (k * 7) \<noteq> None)" if "k < 0 + n" for k
    using out that by (auto simp: rows_ok_def)
  then have "loop_brk 0 n (parse_row (int B) 7 out) (map result_of infos, INSERTIMG_PROCESSED) =
    Some (map (\<lambda>j. (map result_of infos ! j)\<lparr>boxs := boxs (map result_of infos ! j) @ boxes_for sz out (live_rows out 0 n) j\<rparr>) [0..<B],
      if live_rows out 0 n = [] then INSERTIMG_PROCESSED else INSERTIMG_GET)"
    using infos by (intro parse_rows) (auto simp: result_of_def)
  moreover have "map (\<lambda>j. (map result_of infos ! j)\<lparr>boxs := boxs (map result_of infos ! j) @ boxes_for sz out (live_rows out 0 n) j\<rparr>) [0..<B] =
      labelled sz out n infos"
    unfolding labelled_def infos(1) by (rule map_cong) (simp_all add: infos(1) result_of_def)
  ultimately show ?thesis by (simp add: result_status_def)
qed

section \<open>A run in asynchronous mode\<close>

text \<open>The answers of the calls for the pictures \<open>xs\<close>; \<open>objects\<close> is the caller's vector.\<close>

fun insert_all ::
    "('p list \<Rightarrow> ieee list option) \<Rightarrow> 'p image_info list \<Rightarrow> 'p det_result list \<Rightarrow> 'p detector
     \<Rightarrow> (exn + (insert_status \<times> 'p det_result list) list \<times> 'p detector) option" where
  "insert_all infer [] objects d = Some (Inr ([], d))"
| "insert_all infer (x # xs) objects d =
     andthen (InsertImage infer (i_orgimg x) (i_inputid x) (i_frameno x) (i_channelid x) objects d) (\<lambda>(st, objects, d).
     andthen (insert_all infer xs objects d) (\<lambda>(rs, d). Some (Inr ((st, objects) # rs, d))))"

definition planes_of :: "'p image_info list \<Rightarrow> 'p list" where
  "planes_of xs = concat (map (\<lambda>x. planes (i_orgimg x)) xs)"

definition batch :: "nat \<Rightarrow> 'a list \<Rightarrow> nat \<Rightarrow> 'a list" where
  "batch B xs k = take B (drop (k * B) xs)"

definition good_image :: "nat \<Rightarrow> int \<times> int \<Rightarrow> 'p image_info \<Rightarrow> bool" where
  "good_image C g x \<longleftrightarrow> isize x = g \<and> msize (i_orgimg x) = g \<and> length (planes (i_orgimg x)) = C \<and> fst g \<noteq> 0 \<and> snd g \<noteq> 0"

lemma length_planes_of: "(\<And>x. x \<in> set xs \<Longrightarrow> good_image C g x) \<Longrightarrow> length (planes_of xs) = length xs * C"
  by (induction xs) (auto simp: planes_of_def good_image_def)

lemma planes_of_Nil: "planes_of [] = []"
  by (simp add: planes_of_def)

lemma planes_of_snoc: "planes_of (xs @ [x]) = planes_of xs @ planes (i_orgimg x)"
  by (simp add: planes_of_def)

lemma andthen_assoc: "andthen m (\<lambda>x. andthen (f x) h) = andthen (andthen m f) h"
  by (auto simp: andthen_def split: option.splits sum.splits)

text \<open>The network is loaded and does not change.\<close>

definition loaded :: "nat \<Rightarrow> nat \<Rightarrow> nat \<Rightarrow> int \<times> int \<Rightarrow> 'p detector \<Rightarrow> bool" where
  "loaded B C n g d \<longleftrightarrow> bLoad d \<and> 1 \<le> B \<and> num_batch d = int B \<and> num_channels d = int C \<and> maxProposalCount d = int n \<and>
     objectSize d = 7 \<and> input_geometry d = g \<and> length (requests d) = 2 \<and>
     infer_request_curr d < 2 \<and> infer_request_next d < 2 \<and> infer_request_curr d \<noteq> infer_request_next d"

text \<open>
  The request being filled holds the first \<open>i\<close> pictures of \<open>ys\<close>; the queue names them after
  the pictures \<open>old\<close> that wait for their results.
\<close>

definition collecting ::
    "nat \<Rightarrow> nat \<Rightarrow> nat \<Rightarrow> int \<times> int \<Rightarrow> 'p image_info list \<Rightarrow> 'p image_info list \<Rightarrow> nat \<Rightarrow> 'p detector \<Rightarrow> bool" where
  "collecting B C n g old ys i d \<longleftrightarrow> loaded B C n g d \<and> nbatch_index d = int i \<and>
     imginfoque d = old @ take i ys \<and>
     (let q = requests d ! in_request d in
      phase q \<noteq> Running \<and> length (blob q) = B * C \<and> take (i * C) (blob q) = planes_of (take i ys)) \<and>
     (i \<noteq> 0 \<longrightarrow> input_channels d = map (View (in_request d)) [0..<B * C])"

lemma in_request_update [simp]:
  "in_request (d\<lparr>input_channels := x1\<rparr>) = in_request d" "in_request (d\<lparr>imginfoque := x2\<rparr>) = in_request d"
  "in_request (d\<lparr>requests := x3\<rparr>) = in_request d" "in_request (d\<lparr>nbatch_index := x4\<rparr>) = in_request d"
  by (simp_all add: in_request_def)

lemma in_request_less: "loaded B C n g d \<Longrightarrow> in_request d < length (requests d)"
  by (auto simp: in_request_def loaded_def)

text \<open>After \<open>k\<close> full batches of \<open>xs\<close>: the last of them runs.\<close>

definition streaming :: "nat \<Rightarrow> nat \<Rightarrow> nat \<Rightarrow> int \<times> int \<Rightarrow> 'p image_info list \<Rightarrow> nat \<Rightarrow> nat \<Rightarrow> 'p detector \<Rightarrow> bool" where
  "streaming B C n g xs k i d \<longleftrightarrow> bisASync d \<and>
     collecting B C n g (if k = 0 then [] else batch B xs (k - 1)) (drop (k * B) xs) i d \<and>
     (let c = requests d ! infer_request_curr d in
      length (blob c) = B * C \<and>
      (if k = 0 then phase c = Not_Started else phase c = Running \<and> blob c = planes_of (batch B xs (k - 1))))"

lemma take_put: "p + length ys \<le> length xs \<Longrightarrow> take (p + length ys) (put xs p ys) = take p xs @ ys"
  by (simp add: put_def)

lemma split_eq:
  assumes ch: "input_channels d = map (View r) [0..<m]" and fits: "p + length (planes img) \<le> m"
    and sz: "msize img = input_geometry d" and r: "r < length (requests d)"
    and q: "phase (requests d ! r) \<noteq> Running" "length (blob (requests d ! r)) = m"
  shows "split img p d =
    Some (d\<lparr>requests := (requests d)[r := (requests d ! r)\<lparr>blob := put (blob (requests d ! r)) p (planes img)\<rparr>]\<rparr>)"
proof -
  let ?q = "requests d ! r"
  let ?s = "\<lambda>j. d\<lparr>requests := (requests d)[r := ?q\<lparr>blob := put (blob ?q) p (take j (planes img))\<rparr>]\<rparr>"
  have len: "length (put (blob ?q) p (take j (planes img))) = m" if "j \<le> length (planes img)" for j
    using fits q that by (intro trans [OF length_put]) simp_all
  have "ok (split img p d) (\<lambda>s. s = ?s (length (planes img)))"
    unfolding split_def
  proof (rule loop_ok)
    show "d = ?s 0" by simp
    fix j s assume j: "j < length (planes img)" and s: "s = ?s j"
    have "wr (put (blob ?q) p (take j (planes img))) (p + j) (planes img ! j) = Some (put (blob ?q) p (take (Suc j) (planes img)))"
      using wr_put [of p "take j (planes img)" "blob ?q" "planes img ! j"] j fits q by (simp add: take_Suc_conv_app_nth)
    then show "ok (do {
        ch \<leftarrow> rd (input_channels s) (p + j);
        case ch of Own \<Rightarrow> Some s
        | View r k \<Rightarrow> if msize img = input_geometry s then write_plane r k (planes img ! j) s
            else Some (s\<lparr>input_channels := (input_channels s)[p + j := Own]\<rparr>) }) (\<lambda>s. s = ?s (Suc j))"
      using j fits ch sz r q by (simp add: s rd_Some write_plane_def)
  qed
  then show ?thesis by (simp add: ok_eq_Some)
qed

text \<open>The state when a picture has been copied, and what the call does next.\<close>

definition collected :: "nat \<Rightarrow> nat \<Rightarrow> 'p image_info \<Rightarrow> 'p request \<Rightarrow> nat \<Rightarrow> 'p detector \<Rightarrow> 'p detector" where
  "collected B C x q i d = d\<lparr>input_channels := map (View (in_request d)) [0..<B * C], imginfoque := imginfoque d @ [x],
     requests := (requests d)[in_request d := q], nbatch_index := int i\<rparr>"

lemma in_request_collected [simp]: "in_request (collected B C x q i d) = in_request d"
  by (simp add: collected_def)

lemma insert_collects:
  assumes S: "collecting B C n g old ys i d" and i: "i < B" "i < length ys" and good: "good_image C g (ys ! i)"
  obtains q where "phase q \<noteq> Running" "length (blob q) = B * C" "take (Suc i * C) (blob q) = planes_of (take (Suc i) ys)"
    "\<And>x. x = ys ! i \<Longrightarrow> InsertImage infer (i_orgimg x) (i_inputid x) (i_frameno x) (i_channelid x) objs d =
      (if Suc i < B then Some (Inr (INSERTIMG_INSERTED, objs, collected B C x q (Suc i) d))
       else andthen (StartAsync (in_request d) (collected B C x q 0 d)) (\<lambda>d.
          andthen (Wait infer (infer_request_curr d) d) (\<lambda>(ready, d).
          andthen (if ready then get_results d objs else Some (Inr (INSERTIMG_INSERTED, objs, d))) (\<lambda>(st, objs, d).
          Some (Inr (st, objs,
            if bisASync d then d\<lparr>infer_request_curr := infer_request_next d, infer_request_next := infer_request_curr d\<rparr>
            else d))))))"
proof -
  define x where "x = ys ! i"
  let ?r = "in_request d" and ?img = "i_orgimg x"
  let ?q0 = "requests d ! ?r"
  define q where "q = ?q0\<lparr>blob := put (blob ?q0) (C * i) (planes ?img)\<rparr>"
  have x_good: "good_image C g x" using good by (simp add: x_def)
  have info: "\<lparr>isize = msize ?img, i_inputid = i_inputid x, i_frameno = i_frameno x, i_channelid = i_channelid x, i_orgimg = ?img\<rparr> = x"
    using x_good by (cases x) (simp add: good_image_def)
  have d: "bLoad d" "num_batch d = int B" "num_channels d = int C" "input_geometry d = g"
    "nbatch_index d = int i" "?r < length (requests d)" "phase ?q0 \<noteq> Running" "length (blob ?q0) = B * C"
    "take (i * C) (blob ?q0) = planes_of (take i ys)"
    "i \<noteq> 0 \<Longrightarrow> input_channels d = map (View ?r) [0..<B * C]"
    using S in_request_less [of B C n g d] by (auto simp: collecting_def loaded_def Let_def)
  have img: "fst (msize ?img) \<noteq> 0" "snd (msize ?img) \<noteq> 0" "msize ?img = g" "length (planes ?img) = C"
    using x_good by (auto simp: good_image_def)
  have "(i + 1) * C \<le> B * C" using i by (intro mult_le_mono) simp_all
  then have fits: "C * i + C \<le> B * C" by (simp add: algebra_simps)
  let ?d = "d\<lparr>input_channels := map (View ?r) [0..<B * C]\<rparr>"
  have wrap: "(if nbatch_index d = 0 then rd (requests d) (in_request d) \<bind> (\<lambda>q. Some (WrapInputLayer (in_request d) d)) else Some d) = Some ?d"
    using d by (auto simp: rd_Some WrapInputLayer_def simp flip: of_nat_mult)
  have "nat (int C * int i) = C * i" by (simp flip: of_nat_mult)
  then have "split ?img (nat (int C * int i)) (?d\<lparr>imginfoque := imginfoque d @ [x]\<rparr>) =
      Some (?d\<lparr>imginfoque := imginfoque d @ [x], requests := (requests d)[?r := q]\<rparr>)"
    using split_eq [of "?d\<lparr>imginfoque := imginfoque d @ [x]\<rparr>" ?r "B * C" "C * i" ?img] d img fits
    by (simp add: q_def)
  then have "InsertImage infer ?img (i_inputid x) (i_frameno x) (i_channelid x) objs d =
      (if Suc i < B then Some (Inr (INSERTIMG_INSERTED, objs, collected B C x q (Suc i) d))
       else andthen (StartAsync ?r (collected B C x q 0 d)) (\<lambda>d.
          andthen (Wait infer (infer_request_curr d) d) (\<lambda>(ready, d).
          andthen (if ready then get_results d objs else Some (Inr (INSERTIMG_INSERTED, objs, d))) (\<lambda>(st, objs, d).
          Some (Inr (st, objs,
            if bisASync d then d\<lparr>infer_request_curr := infer_request_next d, infer_request_next := infer_request_curr d\<rparr>
            else d))))))"
    using d img unfolding InsertImage_def wrap Option.bind.bind_lunit Let_def
    by (simp add: info [unfolded img(3)] collected_def)
  moreover have "phase q \<noteq> Running" "length (blob q) = B * C" using d fits img by (simp_all add: q_def)
  moreover have "take (Suc i * C) (blob q) = take (i * C) (blob ?q0) @ planes ?img"
    using take_put [of "C * i" "planes ?img" "blob ?q0"] d fits img by (simp add: q_def mult.commute add.commute)
  then have "take (Suc i * C) (blob q) = planes_of (take (Suc i) ys)"
    using i by (simp only: planes_of_snoc d(9) take_Suc_conv_app_nth x_def)
  ultimately show ?thesis using that [of q] unfolding x_def by blast
qed

lemma collect_step:
  assumes S: "collecting B C n g old ys i d" and i: "Suc i < B" "i < length ys" and good: "good_image C g (ys ! i)"
    and x: "x = ys ! i"
  shows "\<exists>d'. InsertImage infer (i_orgimg x) (i_inputid x) (i_frameno x) (i_channelid x) objs d =
      Some (Inr (INSERTIMG_INSERTED, objs, d')) \<and> collecting B C n g old ys (Suc i) d' \<and> bisASync d' = bisASync d \<and>
      (bisASync d \<longrightarrow> requests d' ! infer_request_curr d' = requests d ! infer_request_curr d)"
proof -
  have lt: "i < B" using i by simp
  obtain q where q: "phase q \<noteq> Running" "length (blob q) = B * C" "take (Suc i * C) (blob q) = planes_of (take (Suc i) ys)"
    and run: "InsertImage infer (i_orgimg x) (i_inputid x) (i_frameno x) (i_channelid x) objs d =
      Some (Inr (INSERTIMG_INSERTED, objs, collected B C x q (Suc i) d))"
    using insert_collects [OF S lt i(2) good, of infer objs] i(1) x by (auto simp: if_P)
  have "collecting B C n g old ys (Suc i) (collected B C x q (Suc i) d)"
    using S q i x in_request_less [of B C n g d] unfolding collecting_def in_request_collected
    by (auto simp: loaded_def collected_def Let_def take_Suc_conv_app_nth)
  moreover have "bisASync d \<longrightarrow> requests (collected B C x q (Suc i) d) ! infer_request_curr (collected B C x q (Suc i) d) =
      requests d ! infer_request_curr d" using S by (simp add: collecting_def loaded_def collected_def in_request_def)
  moreover have "bisASync (collected B C x q (Suc i) d) = bisASync d" by (simp add: collected_def)
  ultimately show ?thesis using run by blast
qed

lemma get_results_eq:
  assumes "num_batch d = int B" "maxProposalCount d = int n" "objectSize d = 7"
    and "B \<le> length (imginfoque d)" "\<And>x. x \<in> set (take B (imginfoque d)) \<Longrightarrow> isize x = g"
    and "infer_request_curr d < length (requests d)" "out_blob (requests d ! infer_request_curr d) = out" "rows_ok g B n out"
  shows "get_results d objs = Some (Inr (result_status out n, labelled g out n (take B (imginfoque d)),
    d\<lparr>imginfoque := drop B (imginfoque d)\<rparr>))"
proof -
  have "fill_results 0 B (resize B objs) (imginfoque d) = Inr (map result_of (take B (imginfoque d)), drop B (imginfoque d))"
    using assms(4) by (simp add: fill_results_eq resize_def)
  moreover have "loop_brk 0 n (parse_row (int B) 7 out) (map result_of (take B (imginfoque d)), INSERTIMG_PROCESSED) =
      Some (labelled g out n (take B (imginfoque d)), result_status out n)"
    using assms by (intro parse_results) auto
  ultimately show ?thesis using assms by (simp add: get_results_def rd_Some)
qed

text \<open>
  A full batch is started. If the other request has a result, it is read and labelled with
  the first pictures of the queue.
\<close>

definition has_result :: "('p list \<Rightarrow> ieee list option) \<Rightarrow> 'p request \<Rightarrow> ieee list \<Rightarrow> bool" where
  "has_result infer c out \<longleftrightarrow> phase c = Running \<and> infer (blob c) = Some out \<or> phase c = Ready \<and> out_blob c = out"

lemma full_step:
  assumes S: "collecting B C n g old ys i d" and async: "bisASync d" and i: "Suc i = B" "i < length ys" and good: "good_image C g (ys ! i)"
    and x: "x = ys ! i" and c: "c = requests d ! infer_request_curr d" "length (blob c) = B * C"
    and idle: "out = None \<Longrightarrow> phase c = Not_Started"
    and ready: "\<And>res. out = Some res \<Longrightarrow> has_result infer c res \<and> rows_ok g B n res \<and>
      (\<forall>y \<in> set (take B (old @ take B ys)). isize y = g)"
  shows "\<exists>d'. InsertImage infer (i_orgimg x) (i_inputid x) (i_frameno x) (i_channelid x) objs d =
      Some (Inr (case out of None \<Rightarrow> (INSERTIMG_INSERTED, objs, d')
        | Some res \<Rightarrow> (result_status res n, labelled g res n (take B (old @ take B ys)), d'))) \<and>
    collecting B C n g (case out of None \<Rightarrow> old @ take B ys | Some res \<Rightarrow> drop B (old @ take B ys)) zs 0 d' \<and> bisASync d' \<and>
    phase (requests d' ! infer_request_curr d') = Running \<and> blob (requests d' ! infer_request_curr d') = planes_of (take B ys)"
proof -
  let ?c = "infer_request_curr d" and ?r = "infer_request_next d"
  have inr: "in_request d = ?r" using async by (simp add: in_request_def)
  have lt: "i < B" "\<not> Suc i < B" using i by simp_all
  obtain q where q: "phase q \<noteq> Running" "length (blob q) = B * C" "take (Suc i * C) (blob q) = planes_of (take (Suc i) ys)"
    and run: "InsertImage infer (i_orgimg x) (i_inputid x) (i_frameno x) (i_channelid x) objs d =
      andthen (StartAsync ?r (collected B C x q 0 d)) (\<lambda>d.
          andthen (Wait infer (infer_request_curr d) d) (\<lambda>(ready, d).
          andthen (if ready then get_results d objs else Some (Inr (INSERTIMG_INSERTED, objs, d))) (\<lambda>(st, objs, d).
          Some (Inr (st, objs,
            if bisASync d then d\<lparr>infer_request_curr := infer_request_next d, infer_request_next := infer_request_curr d\<rparr>
            else d)))))"
    using insert_collects [OF S lt(1) i(2) good, of infer objs] lt(2) x unfolding inr by (auto simp: if_not_P)
  have full: "blob q = planes_of (take B ys)" using q i by simp
  have que: "imginfoque d @ [x] = old @ take B ys"
    using S i x take_Suc_conv_app_nth [of i ys] by (simp add: collecting_def)
  note D = S [unfolded collecting_def loaded_def Let_def inr] async
  let ?rs = "(requests d)[?r := q\<lparr>phase := Running\<rparr>]"
  show ?thesis
  proof (cases out)
    case None
    let ?d = "(collected B C x q 0 d)\<lparr>requests := ?rs, infer_request_curr := ?r, infer_request_next := ?c\<rparr>"
    have a: "bisASync ?d" using async by (simp add: collected_def)
    have "InsertImage infer (i_orgimg x) (i_inputid x) (i_frameno x) (i_channelid x) objs d = Some (Inr (INSERTIMG_INSERTED, objs, ?d))"
      unfolding run using D q idle [OF None] c by (simp add: StartAsync_def Wait_def rd_Some collected_def in_request_def)
    moreover have "collecting B C n g (old @ take B ys) zs 0 ?d"
      using D q que c idle [OF None] unfolding que [symmetric] by (simp add: collecting_def loaded_def collected_def in_request_def planes_of_Nil)
    moreover have "phase (requests ?d ! infer_request_curr ?d) = Running \<and> blob (requests ?d ! infer_request_curr ?d) = planes_of (take B ys)"
      using D full by simp
    ultimately show ?thesis using None a by (simp only: option.case) blast
  next
    case (Some res)
    define c' where "c' = (if phase c = Running then c\<lparr>phase := Ready, out_blob := res\<rparr> else c)"
    have c': "phase c' = Ready" "out_blob c' = res" "length (blob c') = B * C"
      using ready [OF Some] c(2) by (auto simp: c'_def has_result_def)
    let ?d2 = "(collected B C x q 0 d)\<lparr>requests := ?rs[?c := c']\<rparr>"
    have wait: "andthen (StartAsync ?r (collected B C x q 0 d)) (\<lambda>d. Wait infer (infer_request_curr d) d) = Some (Inr (True, ?d2))"
    proof (cases "phase c = Running")
      case True
      then show ?thesis using D q c ready [OF Some] by (simp add: StartAsync_def Wait_def rd_Some collected_def in_request_def c'_def has_result_def)
    next
      case False
      then have "phase c = Ready" "c' = c" using ready [OF Some] by (auto simp: has_result_def c'_def)
      moreover from this have "?rs[?c := c'] = ?rs" using D c by (metis list_update_id nth_list_update_neq)
      ultimately show ?thesis using D q c by (simp add: StartAsync_def Wait_def rd_Some collected_def in_request_def)
    qed
    have iq: "imginfoque ?d2 = old @ take B ys" using que by (simp add: collected_def in_request_def)
    have "get_results ?d2 objs = Some (Inr (result_status res n, labelled g res n (take B (imginfoque ?d2)),
        ?d2\<lparr>imginfoque := drop B (imginfoque ?d2)\<rparr>))"
    proof (rule get_results_eq)
      show "num_batch ?d2 = int B" "maxProposalCount ?d2 = int n" "objectSize ?d2 = 7"
        "infer_request_curr ?d2 < length (requests ?d2)" "out_blob (requests ?d2 ! infer_request_curr ?d2) = res"
        using D c' by (simp_all add: collected_def in_request_def)
      show "B \<le> length (imginfoque ?d2)" unfolding iq using i by simp
      show "isize y = g" if "y \<in> set (take B (imginfoque ?d2))" for y
        using that ready [OF Some] unfolding iq by blast
      show "rows_ok g B n res" using ready [OF Some] by blast
    qed
    note res = this [unfolded iq]
    let ?d = "?d2\<lparr>imginfoque := drop B (old @ take B ys), infer_request_curr := ?r, infer_request_next := ?c\<rparr>"
    have a: "bisASync ?d" using async by (simp add: collected_def)
    have run': "InsertImage infer (i_orgimg x) (i_inputid x) (i_frameno x) (i_channelid x) objs d =
        andthen (andthen (StartAsync ?r (collected B C x q 0 d)) (\<lambda>d. Wait infer (infer_request_curr d) d)) (\<lambda>(ready, d).
          andthen (if ready then get_results d objs else Some (Inr (INSERTIMG_INSERTED, objs, d))) (\<lambda>(st, objs, d).
          Some (Inr (st, objs,
            if bisASync d then d\<lparr>infer_request_curr := infer_request_next d, infer_request_next := infer_request_curr d\<rparr>
            else d))))"
      unfolding run andthen_assoc ..
    have "InsertImage infer (i_orgimg x) (i_inputid x) (i_frameno x) (i_channelid x) objs d =
        Some (Inr (result_status res n, labelled g res n (take B (old @ take B ys)), ?d))"
      unfolding run' wait using res D by (simp add: collected_def in_request_def)
    moreover have "collecting B C n g (drop B (old @ take B ys)) zs 0 ?d"
      using D q c' by (simp add: collecting_def loaded_def collected_def in_request_def planes_of_Nil)
    moreover have "phase (requests ?d ! infer_request_curr ?d) = Running \<and> blob (requests ?d ! infer_request_curr ?d) = planes_of (take B ys)"
      using D full by simp
    ultimately show ?thesis using Some a by (simp only: option.case) blast
  qed
qed


lemma stream_collect:
  assumes S: "streaming B C n g xs k i d" and i: "Suc i < B" "k * B + i < length xs"
    and good: "\<And>x. x \<in> set xs \<Longrightarrow> good_image C g x" and x: "x = xs ! (k * B + i)"
  shows "\<exists>d'. InsertImage infer (i_orgimg x) (i_inputid x) (i_frameno x) (i_channelid x) objs d =
      Some (Inr (INSERTIMG_INSERTED, objs, d')) \<and> streaming B C n g xs k (Suc i) d'"
proof -
  have y: "i < length (drop (k * B) xs)" "x = drop (k * B) xs ! i" using i x by simp_all
  have "good_image C g (drop (k * B) xs ! i)" using good i by simp
  note collect_step [OF _ i(1) y(1) this y(2), of n "if k = 0 then [] else batch B xs (k - 1)" d infer objs]
  then show ?thesis using S by (auto simp: streaming_def Let_def)
qed

lemma length_batch: "(k + 1) * B \<le> length xs \<Longrightarrow> length (batch B xs k) = B"
  by (simp add: batch_def)

lemma set_batch: "set (batch B xs k) \<subseteq> set xs"
  by (auto simp: batch_def dest: in_set_takeD in_set_dropD)

lemma stream_full:
  assumes S: "streaming B C n g xs k i d" and i: "Suc i = B" "k * B + i < length xs"
    and good: "\<And>x. x \<in> set xs \<Longrightarrow> good_image C g x" and x: "x = xs ! (k * B + i)"
    and infer: "\<And>b. length b = B * C \<Longrightarrow> \<exists>out. infer b = Some out \<and> rows_ok g B n out"
  shows "\<exists>d'. InsertImage infer (i_orgimg x) (i_inputid x) (i_frameno x) (i_channelid x) objs d =
      Some (Inr (if k = 0 then (INSERTIMG_INSERTED, objs, d')
        else let out = the (infer (planes_of (batch B xs (k - 1)))) in
          (result_status out n, labelled g out n (batch B xs (k - 1)), d'))) \<and> streaming B C n g xs (Suc k) 0 d'"
proof -
  let ?old = "if k = 0 then [] else batch B xs (k - 1)" and ?ys = "drop (k * B) xs"
  define c where "c = requests d ! infer_request_curr d"
  define res where "res = (if k = 0 then None else infer (planes_of (batch B xs (k - 1))))"
  have async: "bisASync d" using S by (simp add: streaming_def)
  have D: "collecting B C n g ?old ?ys i d" "length (blob c) = B * C"
    "if k = 0 then phase c = Not_Started else phase c = Running \<and> blob c = planes_of (batch B xs (k - 1))"
    using S by (auto simp: streaming_def c_def Let_def)
  have y: "i < length ?ys" "x = ?ys ! i" "good_image C g (?ys ! i)" using i x good by simp_all
  have new: "take B ?ys = batch B xs k" by (simp add: batch_def)
  have old: "length ?old = (if k = 0 then 0 else B)"
  proof (cases k)
    case (Suc j)
    then have "(j + 1) * B \<le> length xs" using i(2) by simp
    from length_batch [OF this] Suc show ?thesis by simp
  qed simp
  have some: "k \<noteq> 0 \<Longrightarrow> \<exists>out. res = Some out \<and> rows_ok g B n out" using infer D by (auto simp: res_def)
  have "(k + 1) * B \<le> length xs" using i by simp
  then have "length (planes_of (batch B xs k)) = B * C"
    using length_batch length_planes_of [of "batch B xs k" C g] good set_batch [of B xs k] by (metis in_mono)
  moreover have "\<exists>d'. InsertImage infer (i_orgimg x) (i_inputid x) (i_frameno x) (i_channelid x) objs d =
      Some (Inr (case res of None \<Rightarrow> (INSERTIMG_INSERTED, objs, d')
        | Some out \<Rightarrow> (result_status out n, labelled g out n (take B (?old @ take B ?ys)), d'))) \<and>
    collecting B C n g (case res of None \<Rightarrow> ?old @ take B ?ys | Some out \<Rightarrow> drop B (?old @ take B ?ys)) (drop (Suc k * B) xs) 0 d' \<and> bisASync d' \<and>
    phase (requests d' ! infer_request_curr d') = Running \<and> blob (requests d' ! infer_request_curr d') = planes_of (take B ?ys)"
  proof (rule full_step [OF D(1) async i(1) y(1,3,2) c_def D(2)])
    show "phase c = Not_Started" if "res = None" using that some D by (auto split: if_splits)
    fix out assume out: "res = Some out"
    then have k: "k \<noteq> 0" by (auto simp: res_def split: if_splits)
    have "isize y = g" if "y \<in> set (take B (?old @ take B ?ys))" for y
      using that good by (auto simp: good_image_def batch_def dest!: in_set_takeD in_set_dropD split: if_splits)
    then show "has_result infer c out \<and> rows_ok g B n out \<and> (\<forall>y \<in> set (take B (?old @ take B ?ys)). isize y = g)"
      using out some [OF k] D k by (auto simp: has_result_def res_def)
  qed
  ultimately show ?thesis
    using some old by (cases "k = 0") (auto simp: streaming_def Let_def new res_def batch_def [of B xs 0])
qed

section \<open>Results belong to their pictures\<close>

text \<open>The answer after \<open>m\<close> pictures; \<open>objects\<close> is the vector the caller passed first.\<close>

definition answer ::
    "('p list \<Rightarrow> ieee list option) \<Rightarrow> nat \<Rightarrow> nat \<Rightarrow> int \<times> int \<Rightarrow> 'p image_info list \<Rightarrow> 'p det_result list \<Rightarrow> nat
     \<Rightarrow> insert_status \<times> 'p det_result list" where
  "answer infer B n g xs objects m =
     (let k = m div B; infos = batch B xs (k - 2); out = the (infer (planes_of infos)) in
      (if m mod B = 0 \<and> 2 \<le> k then result_status out n else INSERTIMG_INSERTED,
       if 2 \<le> k then labelled g out n infos else objects))"

lemma stream_step:
  assumes S: "streaming B C n g xs (m div B) (m mod B) d" and m: "m < length xs"
    and good: "\<And>x. x \<in> set xs \<Longrightarrow> good_image C g x" and x: "x = xs ! m"
    and infer: "\<And>b. length b = B * C \<Longrightarrow> \<exists>out. infer b = Some out \<and> rows_ok g B n out"
    and objs: "objs = snd (answer infer B n g xs objs0 m)"
  shows "\<exists>d'. InsertImage infer (i_orgimg x) (i_inputid x) (i_frameno x) (i_channelid x) objs d =
      Some (Inr (fst (answer infer B n g xs objs0 (Suc m)), snd (answer infer B n g xs objs0 (Suc m)), d')) \<and>
    streaming B C n g xs (Suc m div B) (Suc m mod B) d'"
proof -
  have B: "1 \<le> B" using S unfolding streaming_def collecting_def loaded_def by blast
  have x': "x = xs ! (m div B * B + m mod B)" and m': "m div B * B + m mod B < length xs" using x m by simp_all
  show ?thesis
  proof (cases "Suc (m mod B) = B")
    case True
    then have "Suc m div B = Suc (m div B)" "Suc m mod B = 0" by (simp_all add: div_Suc mod_Suc)
    moreover have "m mod B \<noteq> 0 \<or> B = 1" using True by auto
    ultimately show ?thesis
      using stream_full [OF S True m' good x' infer, where objs = objs] objs
      by (cases "m div B = 0") (auto simp: answer_def Let_def)
  next
    case False
    then have "Suc (m mod B) < B" using B mod_less_divisor [of B m] by linarith
    moreover from False have "Suc m div B = m div B" "Suc m mod B = Suc (m mod B)" by (simp_all add: div_Suc mod_Suc)
    ultimately show ?thesis
      using stream_collect [OF S _ m' good x', where infer = infer and objs = objs] objs by (auto simp: answer_def Let_def)
  qed
qed

text \<open>A relation between the state and the number of pictures that every call keeps runs through all pictures.\<close>

lemma run_by_steps:
  assumes step: "\<And>m d objs. St m d \<Longrightarrow> m < length xs \<Longrightarrow> objs = snd (ans m) \<Longrightarrow>
      \<exists>d'. InsertImage infer (i_orgimg (xs ! m)) (i_inputid (xs ! m)) (i_frameno (xs ! m)) (i_channelid (xs ! m)) objs d =
        Some (Inr (fst (ans (Suc m)), snd (ans (Suc m)), d')) \<and> St (Suc m) d'"
    and S: "St m d" and m: "m + length ys = length xs" "ys = drop m xs" and objs: "objs = snd (ans m)"
  shows "\<exists>d'. insert_all infer ys objs d = Some (Inr (map ans [Suc m..<Suc (length xs)], d')) \<and> St (length xs) d'"
  using S m objs
proof (induction ys arbitrary: m d objs)
  case Nil
  then show ?case by simp
next
  case (Cons x ys)
  have m: "m < length xs" using Cons.prems(2) by simp
  then have x: "x = xs ! m" "ys = drop (Suc m) xs" using Cons.prems(3) by (simp_all add: Cons_nth_drop_Suc [symmetric])
  obtain d1 where d1: "InsertImage infer (i_orgimg x) (i_inputid x) (i_frameno x) (i_channelid x) objs d =
      Some (Inr (fst (ans (Suc m)), snd (ans (Suc m)), d1))" "St (Suc m) d1"
    using step [OF Cons.prems(1) m Cons.prems(4)] unfolding x(1) by blast
  obtain d2 where "insert_all infer ys (snd (ans (Suc m))) d1 = Some (Inr (map ans [Suc (Suc m)..<Suc (length xs)], d2))" "St (length xs) d2"
    using Cons.IH [OF d1(2) _ x(2) refl] Cons.prems(2) by auto
  moreover have "[Suc m..<Suc (length xs)] = Suc m # [Suc (Suc m)..<Suc (length xs)]" using m by (simp add: upt_conv_Cons)
  ultimately show ?case using d1(1) by simp
qed

lemma stream_run:
  assumes S: "streaming B C n g xs (m div B) (m mod B) d" and m: "m + length ys = length xs" "ys = drop m xs"
    and good: "\<And>x. x \<in> set xs \<Longrightarrow> good_image C g x"
    and infer: "\<And>b. length b = B * C \<Longrightarrow> \<exists>out. infer b = Some out \<and> rows_ok g B n out"
    and objs: "objs = snd (answer infer B n g xs objs0 m)"
  shows "\<exists>d'. insert_all infer ys objs d = Some (Inr (map (answer infer B n g xs objs0) [Suc m..<Suc (length xs)], d')) \<and>
    streaming B C n g xs (length xs div B) (length xs mod B) d'"
  by (rule run_by_steps [where St = "\<lambda>m d. streaming B C n g xs (m div B) (m mod B) d" and ans = "answer infer B n g xs objs0", OF _ S m objs])
    (rule stream_step [OF _ _ good refl infer])

lemma Load_fresh:
  assumes "Load eng device bn Detector = Some (Inr (0, d))" "getBatchSize eng bn = int B" "1 \<le> B"
    and "phase (fresh_request eng) = Not_Started" "length (blob (fresh_request eng)) = B * nat (num_channels d)"
  shows "streaming B (nat (num_channels d)) (nat (maxProposalCount d)) (input_geometry d) xs 0 0 d"
proof -
  obtain a b c e where r: "rd (outputDims eng) 2 = Some a" "rd (outputDims eng) 3 = Some b" "rd (inputDims eng) 2 = Some c"
    "rd (inputDims eng) 0 = Some e"
    using assms(1) by (auto simp: Load_def Detector_def Let_def bind_eq_Some_conv split: if_splits)
  show ?thesis
    using assms r by (auto simp: Load_def Detector_def Let_def streaming_def collecting_def loaded_def in_request_def planes_of_Nil split: if_splits Option.bind_splits)
qed

text \<open>
  C8: After loading, the detector in asynchronous mode answers every sequence of pictures with
  the results of the right pictures: a full batch is answered with the boxes of the batch
  before it, each vector labelled with its own picture, frame and channel; the other calls
  leave the caller's results alone. No call throws, leaves a buffer, writes to the blob of a
  running request or starts a request twice.
\<close>

theorem detector_pairs:
  assumes load: "Load eng device bn Detector = Some (Inr (0, d))"
    and bn: "getBatchSize eng bn = int B" "1 \<le> B"
    and fresh: "phase (fresh_request eng) = Not_Started" "length (blob (fresh_request eng)) = B * C"
    and net: "C = nat (num_channels d)" "n = nat (maxProposalCount d)" "g = input_geometry d"
    and good: "\<And>x. x \<in> set xs \<Longrightarrow> good_image C g x"
    and infer: "\<And>b. length b = B * C \<Longrightarrow> \<exists>out. infer b = Some out \<and> rows_ok g B n out"
  shows "\<exists>d'. insert_all infer xs objects d = Some (Inr (map (answer infer B n g xs objects) [1..<Suc (length xs)], d'))"
proof -
  have "streaming B C n g xs (0 div B) (0 mod B) d"
    using Load_fresh [OF load bn fresh(1)] fresh(2) by (simp add: net)
  moreover have "objects = snd (answer infer B n g xs objects 0)" by (simp add: answer_def)
  ultimately show ?thesis
    using stream_run [where m = 0 and ys = xs and xs = xs and infer = infer, OF _ _ _ good infer] by fastforce
qed

text \<open>The calls of a batch after the queue has been emptied.\<close>

lemma collect_run:
  assumes S: "collecting B C n g old ys i d" and i: "i + m < B" "i + m \<le> length ys"
    and good: "\<And>y. y \<in> set ys \<Longrightarrow> good_image C g y"
  shows "\<exists>d'. insert_all infer (take m (drop i ys)) objs d = Some (Inr (replicate m (INSERTIMG_INSERTED, objs), d')) \<and>
    collecting B C n g old ys (i + m) d' \<and> bisASync d' = bisASync d \<and>
    (bisASync d \<longrightarrow> requests d' ! infer_request_curr d' = requests d ! infer_request_curr d)"
  using S i
proof (induction m arbitrary: i d)
  case 0
  then show ?case by simp
next
  case (Suc m)
  have i: "i < length ys" "Suc i < B" using Suc.prems by simp_all
  have good_i: "good_image C g (ys ! i)" using i good by simp
  obtain d1 where d1: "InsertImage infer (i_orgimg (ys ! i)) (i_inputid (ys ! i)) (i_frameno (ys ! i)) (i_channelid (ys ! i)) objs d =
      Some (Inr (INSERTIMG_INSERTED, objs, d1))" "collecting B C n g old ys (Suc i) d1" "bisASync d1 = bisASync d"
    "bisASync d \<Longrightarrow> requests d1 ! infer_request_curr d1 = requests d ! infer_request_curr d"
    using collect_step [OF Suc.prems(1) i(2,1) good_i refl] by blast
  obtain d2 where "insert_all infer (take m (drop (Suc i) ys)) objs d1 = Some (Inr (replicate m (INSERTIMG_INSERTED, objs), d2))"
    "collecting B C n g old ys (Suc i + m) d2" "bisASync d2 = bisASync d1"
    "bisASync d1 \<Longrightarrow> requests d2 ! infer_request_curr d2 = requests d1 ! infer_request_curr d1"
    using Suc.IH [OF d1(2)] Suc.prems by auto
  moreover have "take (Suc m) (drop i ys) = ys ! i # take m (drop (Suc i) ys)"
    using i by (simp add: Cons_nth_drop_Suc [symmetric])
  ultimately show ?case using d1 by simp
qed

lemma EmptyQueue_eq: "EmptyQueue q = []"
  by (induction q) simp_all

lemma insert_all_append:
  assumes "insert_all infer xs objs d = Some (Inr (replicate m (st, objs), d'))"
    and "InsertImage infer (i_orgimg x) (i_inputid x) (i_frameno x) (i_channelid x) objs d' = Some (Inr (st', objs', d''))"
  shows "insert_all infer (xs @ [x]) objs d = Some (Inr (replicate m (st, objs) @ [(st', objs')], d''))"
  using assms
proof (induction xs arbitrary: d m)
  case (Cons y xs)
  then obtain m' where m: "m = Suc m'" by (cases m) (auto simp: andthen_def split: option.splits sum.splits)
  from Cons.prems(1) obtain d1 where "InsertImage infer (i_orgimg y) (i_inputid y) (i_frameno y) (i_channelid y) objs d = Some (Inr (st, objs, d1))"
    "insert_all infer xs objs d1 = Some (Inr (replicate m' (st, objs), d'))"
    by (auto simp: andthen_def m split: option.splits sum.splits)
  with Cons.IH [OF this(2) Cons.prems(2)] show ?case by (simp add: m)
qed simp

section \<open>Synchronous mode\<close>

text \<open>Now the request that is filled is the one that is read. A full batch is answered with its own boxes.\<close>

lemma sync_full:
  assumes S: "collecting B C n g [] ys i d" and sync: "\<not> bisASync d" and i: "Suc i = B" "i < length ys"
    and good: "\<And>y. y \<in> set ys \<Longrightarrow> good_image C g y" and x: "x = ys ! i"
    and out: "infer (planes_of (take B ys)) = Some out" "rows_ok g B n out"
  shows "\<exists>d'. InsertImage infer (i_orgimg x) (i_inputid x) (i_frameno x) (i_channelid x) objs d =
      Some (Inr (result_status out n, labelled g out n (take B ys), d')) \<and>
    collecting B C n g [] zs 0 d' \<and> \<not> bisASync d'"
proof -
  let ?c = "infer_request_curr d"
  have inr: "in_request d = ?c" using sync by (simp add: in_request_def)
  have lt: "i < B" "\<not> Suc i < B" "good_image C g (ys ! i)" using i good by simp_all
  obtain q where q: "phase q \<noteq> Running" "length (blob q) = B * C" "take (Suc i * C) (blob q) = planes_of (take (Suc i) ys)"
    and run: "InsertImage infer (i_orgimg x) (i_inputid x) (i_frameno x) (i_channelid x) objs d =
      andthen (StartAsync ?c (collected B C x q 0 d)) (\<lambda>d.
          andthen (Wait infer (infer_request_curr d) d) (\<lambda>(ready, d).
          andthen (if ready then get_results d objs else Some (Inr (INSERTIMG_INSERTED, objs, d))) (\<lambda>(st, objs, d).
          Some (Inr (st, objs,
            if bisASync d then d\<lparr>infer_request_curr := infer_request_next d, infer_request_next := infer_request_curr d\<rparr>
            else d)))))"
    using insert_collects [OF S lt(1) i(2) lt(3), of infer objs] lt(2) x unfolding inr by (auto simp: if_not_P)
  have full: "blob q = planes_of (take B ys)" using q i by simp
  note D = S [unfolded collecting_def loaded_def Let_def inr]
  define c' where "c' = q\<lparr>phase := Ready, out_blob := out\<rparr>"
  let ?d2 = "(collected B C x q 0 d)\<lparr>requests := (requests d)[?c := c']\<rparr>"
  have wait: "andthen (StartAsync ?c (collected B C x q 0 d)) (\<lambda>d. Wait infer (infer_request_curr d) d) = Some (Inr (True, ?d2))"
    using D q out full inr by (simp add: StartAsync_def Wait_def rd_Some collected_def c'_def)
  have que: "imginfoque ?d2 = take B ys"
    using S i x take_Suc_conv_app_nth [of i ys] by (simp add: collecting_def collected_def)
  have "get_results ?d2 objs = Some (Inr (result_status out n, labelled g out n (take B (imginfoque ?d2)),
      ?d2\<lparr>imginfoque := drop B (imginfoque ?d2)\<rparr>))"
  proof (rule get_results_eq)
    show "num_batch ?d2 = int B" "maxProposalCount ?d2 = int n" "objectSize ?d2 = 7"
      "infer_request_curr ?d2 < length (requests ?d2)" "out_blob (requests ?d2 ! infer_request_curr ?d2) = out"
      using D by (simp_all add: collected_def c'_def)
    show "B \<le> length (imginfoque ?d2)" unfolding que using i by simp
    show "isize y = g" if "y \<in> set (take B (imginfoque ?d2))" for y
      using that good unfolding que by (auto simp: good_image_def dest!: in_set_takeD)
  qed (rule out(2))
  note res = this [unfolded que]
  let ?d = "?d2\<lparr>imginfoque := []\<rparr>"
  have "InsertImage infer (i_orgimg x) (i_inputid x) (i_frameno x) (i_channelid x) objs d =
      andthen (andthen (StartAsync ?c (collected B C x q 0 d)) (\<lambda>d. Wait infer (infer_request_curr d) d)) (\<lambda>(ready, d).
        andthen (if ready then get_results d objs else Some (Inr (INSERTIMG_INSERTED, objs, d))) (\<lambda>(st, objs, d).
        Some (Inr (st, objs,
          if bisASync d then d\<lparr>infer_request_curr := infer_request_next d, infer_request_next := infer_request_curr d\<rparr>
          else d))))"
    unfolding run andthen_assoc ..
  then have "InsertImage infer (i_orgimg x) (i_inputid x) (i_frameno x) (i_channelid x) objs d =
      Some (Inr (result_status out n, labelled g out n (take B ys), ?d))"
    unfolding wait using res sync by (simp add: collected_def)
  moreover have "collecting B C n g [] zs 0 ?d"
    using D q inr by (simp add: collecting_def loaded_def collected_def c'_def planes_of_Nil)
  moreover have "\<not> bisASync ?d" using sync by (simp add: collected_def)
  ultimately show ?thesis by blast
qed

definition sync_answer ::
    "('p list \<Rightarrow> ieee list option) \<Rightarrow> nat \<Rightarrow> nat \<Rightarrow> int \<times> int \<Rightarrow> 'p image_info list \<Rightarrow> 'p det_result list \<Rightarrow> nat
     \<Rightarrow> insert_status \<times> 'p det_result list" where
  "sync_answer infer B n g xs objects m =
     (let k = m div B; infos = batch B xs (k - 1); out = the (infer (planes_of infos)) in
      (if m mod B = 0 \<and> 1 \<le> k then result_status out n else INSERTIMG_INSERTED,
       if 1 \<le> k then labelled g out n infos else objects))"

lemma sync_step:
  assumes S: "collecting B C n g [] (drop (m div B * B) xs) (m mod B) d \<and> \<not> bisASync d" and m: "m < length xs"
    and good: "\<And>x. x \<in> set xs \<Longrightarrow> good_image C g x"
    and infer: "\<And>b. length b = B * C \<Longrightarrow> \<exists>out. infer b = Some out \<and> rows_ok g B n out"
    and objs: "objs = snd (sync_answer infer B n g xs objs0 m)" and x: "x = xs ! m"
  shows "\<exists>d'. InsertImage infer (i_orgimg x) (i_inputid x) (i_frameno x) (i_channelid x) objs d =
      Some (Inr (fst (sync_answer infer B n g xs objs0 (Suc m)), snd (sync_answer infer B n g xs objs0 (Suc m)), d')) \<and>
    collecting B C n g [] (drop (Suc m div B * B) xs) (Suc m mod B) d' \<and> \<not> bisASync d'"
proof -
  let ?ys = "drop (m div B * B) xs"
  have S': "collecting B C n g [] ?ys (m mod B) d" "\<not> bisASync d" using S by simp_all
  have B: "1 \<le> B" using S'(1) unfolding collecting_def loaded_def by blast
  have m': "m div B * B + m mod B < length xs" using m by simp
  then have "?ys ! (m mod B) = xs ! (m div B * B + m mod B)" by (intro nth_drop) linarith
  then have y: "x = ?ys ! (m mod B)" using x by simp
  have len: "m mod B < length ?ys" unfolding length_drop less_diff_conv using m by simp
  have good': "\<And>y. y \<in> set ?ys \<Longrightarrow> good_image C g y" using good by (auto dest: in_set_dropD)
  show ?thesis
  proof (cases "Suc (m mod B) = B")
    case True
    then have nxt: "Suc m div B = Suc (m div B)" "Suc m mod B = 0" by (simp_all add: div_Suc mod_Suc)
    have "Suc m \<le> length xs" using m by simp
    then have "(m div B + 1) * B \<le> length xs" using div_mult_mod_eq [of "Suc m" B] unfolding nxt by simp
    then have "length (batch B xs (m div B)) = B" by (rule length_batch)
    moreover have "\<And>y. y \<in> set (batch B xs (m div B)) \<Longrightarrow> good_image C g y" using set_batch [of B xs "m div B"] good by blast
    ultimately have "length (planes_of (batch B xs (m div B))) = B * C"
      using length_planes_of [of "batch B xs (m div B)" C g] by simp
    then obtain out where out: "infer (planes_of (take B ?ys)) = Some out" "rows_ok g B n out"
      using infer by (auto simp: batch_def)
    show ?thesis
      using sync_full [where infer = infer and objs = objs and zs = "drop (Suc m div B * B) xs", OF S' True len good' y out] out
      unfolding nxt by (simp add: sync_answer_def nxt batch_def)
  next
    case False
    then have lt: "Suc (m mod B) < B" using B mod_less_divisor [of B m] by linarith
    from False have nxt: "Suc m div B = m div B" "Suc m mod B = Suc (m mod B)" by (simp_all add: div_Suc mod_Suc)
    have "good_image C g (?ys ! (m mod B))" by (rule good' [OF nth_mem [OF len]])
    from collect_step [OF S'(1) lt len this y, of infer objs]
    show ?thesis using S'(2) objs unfolding nxt by (auto simp: sync_answer_def nxt Let_def)
  qed
qed

lemma sync_run:
  assumes S: "collecting B C n g [] ys 0 d" "\<not> bisASync d"
    and good: "\<And>y. y \<in> set ys \<Longrightarrow> good_image C g y"
    and infer: "\<And>b. length b = B * C \<Longrightarrow> \<exists>out. infer b = Some out \<and> rows_ok g B n out"
  shows "\<exists>d'. insert_all infer ys objs d = Some (Inr (map (sync_answer infer B n g ys objs) [1..<Suc (length ys)], d'))"
proof -
  have "collecting B C n g [] (drop (0 div B * B) ys) (0 mod B) d \<and> \<not> bisASync d" using S by simp
  moreover have "objs = snd (sync_answer infer B n g ys objs 0)" by (simp add: sync_answer_def)
  ultimately show ?thesis
    using run_by_steps [where St = "\<lambda>m d. collecting B C n g [] (drop (m div B * B) ys) (m mod B) d \<and> \<not> bisASync d"
      and ans = "sync_answer infer B n g ys objs" and m = 0 and xs = ys and ys = ys and infer = infer and d = d and objs = objs]
      sync_step [where xs = ys and ?objs0.0 = objs, OF _ _ good infer _ refl] by fastforce
qed

section \<open>Changing the mode\<close>

text \<open>What \<open>SetMode\<close> leaves: the batch that ran has its result, the queue is empty, nothing is collected.\<close>

definition result_kept :: "('p list \<Rightarrow> ieee list option) \<Rightarrow> nat \<Rightarrow> nat \<Rightarrow> 'p image_info list \<Rightarrow> nat \<Rightarrow> 'p request \<Rightarrow> bool" where
  "result_kept infer B C xs k c \<longleftrightarrow> length (blob c) = B * C \<and>
     (if k = 0 then phase c = Not_Started
      else phase c = Ready \<and> infer (planes_of (batch B xs (k - 1))) = Some (out_blob c))"

lemma SetMode_streaming:
  assumes S: "streaming B C n g xs k i d"
    and infer: "\<And>b. length b = B * C \<Longrightarrow> \<exists>out. infer b = Some out \<and> rows_ok g B n out"
  shows "\<exists>d'. SetMode infer flag d = Some (Inr d') \<and> bisASync d' = flag \<and> collecting B C n g [] ys 0 d' \<and>
    result_kept infer B C xs k (requests d' ! infer_request_curr d')"
proof -
  let ?c = "infer_request_curr d" and ?r = "infer_request_next d"
  have inr: "in_request d = ?r" using S by (simp add: streaming_def in_request_def)
  note D = S [unfolded streaming_def collecting_def loaded_def Let_def inr]
  obtain out where out: "k \<noteq> 0 \<Longrightarrow> infer (planes_of (batch B xs (k - 1))) = Some out"
    using infer [of "blob (requests d ! ?c)"] D by (cases "k = 0") auto
  define c where "c = (if k = 0 then requests d ! ?c else (requests d ! ?c)\<lparr>phase := Ready, out_blob := out\<rparr>)"
  define d1 where "d1 = d\<lparr>requests := (requests d)[?c := c], imginfoque := [], nbatch_index := 0, bisASync := flag\<rparr>"
  have "\<exists>ready. Wait infer ?c d = Some (Inr (ready, d\<lparr>requests := (requests d)[?c := c]\<rparr>))"
    using D out by (cases "k = 0") (auto simp: Wait_def rd_Some c_def)
  moreover have "\<exists>ready. Wait infer ?r (d\<lparr>requests := (requests d)[?c := c]\<rparr>) = Some (Inr (ready, d\<lparr>requests := (requests d)[?c := c]\<rparr>))"
    using D by (cases "phase (requests d ! ?r)") (auto simp: Wait_def rd_Some)
  ultimately have "SetMode infer flag d = Some (Inr d1)"
    by (auto simp: SetMode_def EmptyQueue_eq d1_def)
  moreover have "collecting B C n g [] ys 0 d1"
    using D by (auto simp: collecting_def loaded_def d1_def in_request_def planes_of_Nil c_def)
  moreover have "result_kept infer B C xs k (requests d1 ! infer_request_curr d1)"
    using D out by (auto simp: result_kept_def d1_def c_def)
  ultimately show ?thesis by (intro exI [of _ d1]) (simp add: d1_def)
qed

lemma stale_batch:
  assumes S: "collecting B C n g [] zs 0 d" "bisASync d" and kept: "result_kept infer B C xs k (requests d ! infer_request_curr d)"
    and good: "\<And>z. z \<in> set zs \<Longrightarrow> good_image C g z" and len: "length zs = B"
    and rows: "k \<noteq> 0 \<Longrightarrow> infer (planes_of (batch B xs (k - 1))) = Some out \<and> rows_ok g B n out"
  shows "\<exists>d'. insert_all infer zs objs d = Some (Inr (replicate (B - 1) (INSERTIMG_INSERTED, objs) @
    [if k = 0 then (INSERTIMG_INSERTED, objs) else (result_status out n, labelled g out n zs)], d'))"
proof -
  have B: "1 \<le> B" using S(1) unfolding collecting_def loaded_def by blast
  obtain d2 where d2: "insert_all infer (take (B - 1) (drop 0 zs)) objs d = Some (Inr (replicate (B - 1) (INSERTIMG_INSERTED, objs), d2))"
    "collecting B C n g [] zs (B - 1) d2" "bisASync d2" "requests d2 ! infer_request_curr d2 = requests d ! infer_request_curr d"
    using collect_run [OF S(1), of "B - 1" infer objs] S(2) B len good by auto
  have last: "B - 1 < length zs" "Suc (B - 1) = B" "good_image C g (zs ! (B - 1))" using B len good by simp_all
  have sizes: "\<forall>y \<in> set (take B ([] @ take B zs)). isize y = g" using good len by (auto simp: good_image_def)
  have "\<exists>d3. InsertImage infer (i_orgimg (zs ! (B - 1))) (i_inputid (zs ! (B - 1))) (i_frameno (zs ! (B - 1)))
      (i_channelid (zs ! (B - 1))) objs d2 =
      Some (Inr (if k = 0 then (INSERTIMG_INSERTED, objs, d3) else (result_status out n, labelled g out n zs, d3)))"
    using full_step [OF d2(2,3) last(2,1,3) refl refl, where out = "if k = 0 then None else Some out" and infer = infer and objs = objs]
      d2(4) kept rows sizes len by (auto simp: result_kept_def has_result_def split: if_splits)
  then obtain d3 where "InsertImage infer (i_orgimg (zs ! (B - 1))) (i_inputid (zs ! (B - 1))) (i_frameno (zs ! (B - 1)))
      (i_channelid (zs ! (B - 1))) objs d2 = Some (Inr ((if k = 0 then INSERTIMG_INSERTED else result_status out n),
        (if k = 0 then objs else labelled g out n zs), d3))" by (auto split: if_splits)
  note whole = insert_all_append [OF d2(1) this]
  have "zs = take (B - 1) (drop 0 zs) @ [zs ! (B - 1)]"
    using last len take_Suc_conv_app_nth [of "B - 1" zs] by simp
  then show ?thesis using whole by (cases "k = 0") simp_all
qed

text \<open>
  C30: Changing the mode. A detector that has been loaded and given any number of pictures, also none, in
  the asynchronous mode it starts in: after \<open>SetMode(false)\<close> it is synchronous, and from then on every full
  batch is answered at once with the boxes of its own pictures, the other calls leave the caller's results
  alone. After \<open>SetMode(true)\<close> it stays asynchronous with an emptied queue, but the request of the last full
  batch stays ready: if there was one, the first full batch afterwards is answered with the boxes found in
  the old pictures, labelled as boxes of the new ones. No call throws or leaves a buffer.
\<close>

theorem setmode_stale:
  assumes load: "Load eng device bn Detector = Some (Inr (0, d0))"
    and bn: "getBatchSize eng bn = int B" "1 \<le> B"
    and fresh: "phase (fresh_request eng) = Not_Started" "length (blob (fresh_request eng)) = B * C"
    and net: "C = nat (num_channels d0)" "n = nat (maxProposalCount d0)" "g = input_geometry d0"
    and good: "\<And>x. x \<in> set xs \<union> set ys \<union> set zs \<Longrightarrow> good_image C g x"
    and infer: "\<And>b. length b = B * C \<Longrightarrow> \<exists>out. infer b = Some out \<and> rows_ok g B n out"
    and run: "insert_all infer xs objects d0 = Some (Inr (rs, d))"
    and k: "k = length xs div B" and zs: "length zs = B"
  shows "(\<exists>d1 d2. SetMode infer False d = Some (Inr d1) \<and>
      insert_all infer ys objs d1 = Some (Inr (map (sync_answer infer B n g ys objs) [1..<Suc (length ys)], d2))) \<and>
    (\<exists>d1 d2. SetMode infer True d = Some (Inr d1) \<and>
      insert_all infer zs objs d1 = Some (Inr (replicate (B - 1) (INSERTIMG_INSERTED, objs) @
        [if k = 0 then (INSERTIMG_INSERTED, objs)
         else let out = the (infer (planes_of (batch B xs (k - 1)))) in (result_status out n, labelled g out n zs)], d2)))"
proof
  have good': "x \<in> set xs \<Longrightarrow> good_image C g x" "x \<in> set ys \<Longrightarrow> good_image C g x" "x \<in> set zs \<Longrightarrow> good_image C g x" for x
    using good by blast+
  have "streaming B C n g xs (0 div B) (0 mod B) d0"
    using Load_fresh [OF load bn fresh(1)] fresh(2) by (simp add: net)
  moreover have "objects = snd (answer infer B n g xs objects 0)" by (simp add: answer_def)
  ultimately have S: "streaming B C n g xs k (length xs mod B) d"
    using stream_run [where m = 0 and ys = xs and xs = xs and infer = infer, OF _ _ _ good'(1) infer] run by (fastforce simp: k)
  obtain d1 where "SetMode infer False d = Some (Inr d1)" "\<not> bisASync d1" "collecting B C n g [] ys 0 d1"
    using SetMode_streaming [where flag = False and ys = ys and infer = infer, OF S infer] by auto
  then show "\<exists>d1 d2. SetMode infer False d = Some (Inr d1) \<and>
      insert_all infer ys objs d1 = Some (Inr (map (sync_answer infer B n g ys objs) [1..<Suc (length ys)], d2))"
    using sync_run [where ys = ys and infer = infer and objs = objs, OF _ _ good'(2) infer] by blast
  obtain d1 where d1: "SetMode infer True d = Some (Inr d1)" "bisASync d1" "collecting B C n g [] zs 0 d1"
      "result_kept infer B C xs k (requests d1 ! infer_request_curr d1)"
    using SetMode_streaming [where flag = True and ys = zs and infer = infer, OF S infer] by auto
  have "infer (planes_of (batch B xs (k - 1))) = Some (the (infer (planes_of (batch B xs (k - 1))))) \<and>
      rows_ok g B n (the (infer (planes_of (batch B xs (k - 1)))))" if "k \<noteq> 0"
    using infer [of "planes_of (batch B xs (k - 1))"] S that by (auto simp: streaming_def Let_def)
  from stale_batch [OF d1(3,2,4) good'(3) zs this] d1(1)
  show "\<exists>d1 d2. SetMode infer True d = Some (Inr d1) \<and>
      insert_all infer zs objs d1 = Some (Inr (replicate (B - 1) (INSERTIMG_INSERTED, objs) @
        [if k = 0 then (INSERTIMG_INSERTED, objs)
         else let out = the (infer (planes_of (batch B xs (k - 1)))) in (result_status out n, labelled g out n zs)], d2))"
    by (auto simp: Let_def)
qed

section \<open>Concrete runs\<close>

definition demo_engine :: "nat engine" where
  "demo_engine = \<lparr>plugin_ok = True, network_ok = True, getBatchSize = id, outputDims = [1, 1, 1, 7], load_ok = True,
     inputDims = [4, 3, 1, 1], fresh_request = \<lparr>blob = [0], out_blob = [], phase = Not_Started\<rparr>\<rparr>"

definition demo_image :: "nat \<Rightarrow> nat image_info" where
  "demo_image k = \<lparr>isize = (4, 3), i_inputid = 0, i_frameno = int k, i_channelid = 0, i_orgimg = \<lparr>msize = (4, 3), planes = [k]\<rparr>\<rparr>"

text \<open>A network that finds one object, whose class is the value of the first plane.\<close>

definition demo_out :: "nat \<Rightarrow> ieee list" where
  "demo_out k = [Fin 0, Fin (of_nat k), Fin (1/2), Fin 0, Fin 0, Fin 1, Fin 1]"

definition demo_infer :: "nat list \<Rightarrow> ieee list option" where
  "demo_infer b = Some (demo_out (if b = [7] then 7 else 3))"

definition demo_loaded :: "nat detector" where
  "demo_loaded = \<lparr>num_batch = 1, num_channels = 1, nbatch_index = 0, maxProposalCount = 1, objectSize = 7,
     bisASync = True, bLoad = True, cpu_extension = True, input_geometry = (4, 3), input_channels = [],
     imginfoque = [], requests = [fresh_request demo_engine, fresh_request demo_engine],
     infer_request_curr = 0, infer_request_next = 1\<rparr>"

lemma demo_Load: "Load demo_engine ''CPU'' 1 Detector = Some (Inr (0, demo_loaded))"
  by (simp add: Load_def Detector_def demo_engine_def demo_loaded_def rd_def)

lemma demo_products:
  "mulf (Fin 0) (i2f 4) = Fin 0" "mulf (Fin 0) (i2f 3) = Fin 0" "mulf (Fin 1) (i2f 4) = Fin 4" "mulf (Fin 1) (i2f 3) = Fin 3"
proof -
  have "mk b32 False 4 = Fin 4" "mk b32 False 3 = Fin 3"
    using mk_of_int [of b32 4 False] mk_of_int [of b32 3 False]
    by (cases "mk b32 False 4"; cases "mk b32 False 3"; simp)+
  then show "mulf (Fin 0) (i2f 4) = Fin 0" "mulf (Fin 0) (i2f 3) = Fin 0" "mulf (Fin 1) (i2f 4) = Fin 4" "mulf (Fin 1) (i2f 3) = Fin 3"
    by (simp_all add: fmul_def i2f_exact zero_def)
qed

lemma demo_box: "box_of (4, 3) (demo_out k) 0 =
    Some \<lparr>classid = int k, confidence = Fin (1/2), left = 0, right = 3, top = 0, bottom = 2\<rparr>" if "k < 10"
  using that by (simp add: box_of_def demo_out_def rd_def demo_products to_int_def trunc_def)

lemma demo_live: "live_rows (demo_out k) 0 (Suc 0) = [0]" "row_id (demo_out k) 0 = 0"
  by (simp_all add: live_rows_def upt_rec row_live_def row_id_def demo_out_def to_int_def trunc_def feq_iff fle_fin)

lemma demo_rows: "k < 10 \<Longrightarrow> rows_ok (4, 3) 1 1 (demo_out k)"
  by (simp add: rows_ok_def demo_box demo_live) (simp add: demo_out_def to_int_def trunc_def)

lemma demo_infer_ok: "\<exists>out. demo_infer b = Some out \<and> rows_ok (4, 3) 1 1 out"
  using demo_rows by (simp add: demo_infer_def)

lemma demo_labelled: "k < 10 \<Longrightarrow> labelled (4, 3) (demo_out k) (Suc 0) [x] = [(result_of x)\<lparr>boxs :=
    [\<lparr>classid = int k, confidence = Fin (1/2), left = 0, right = 3, top = 0, bottom = 2\<rparr>]\<rparr>]"
  "result_status (demo_out k) (Suc 0) = INSERTIMG_GET"
  by (simp_all add: labelled_def result_status_def boxes_for_def demo_live demo_box)

lemma demo_batch: "planes_of (batch 1 (demo_image 7 # xs) 0) = [7]" "batch 1 (demo_image 7 # xs) 0 = [demo_image 7]"
  by (simp_all add: planes_of_def batch_def demo_image_def)

lemma demo_answer:
  "map (answer demo_infer 1 1 (4, 3) [demo_image 7, demo_image 8] []) [1..<Suc (length [demo_image 7, demo_image 8])] =
   [(INSERTIMG_INSERTED, []), (INSERTIMG_GET, [(result_of (demo_image 7))\<lparr>boxs :=
     [\<lparr>classid = 7, confidence = Fin (1/2), left = 0, right = 3, top = 0, bottom = 2\<rparr>]\<rparr>])]"
  using demo_batch [of "[demo_image 8]"] by (simp add: answer_def demo_infer_def demo_labelled upt_rec Let_def)

theorem detector_pairs_witness:
  "\<exists>d'. insert_all demo_infer [demo_image 7, demo_image 8] [] demo_loaded =
    Some (Inr ([(INSERTIMG_INSERTED, []), (INSERTIMG_GET, [(result_of (demo_image 7))\<lparr>boxs :=
      [\<lparr>classid = 7, confidence = Fin (1/2), left = 0, right = 3, top = 0, bottom = 2\<rparr>]\<rparr>])], d'))"
  unfolding demo_answer [symmetric]
proof (rule detector_pairs [OF demo_Load])
  show "getBatchSize demo_engine 1 = int 1" "1 \<le> (1::nat)" "phase (fresh_request demo_engine) = Not_Started"
    "length (blob (fresh_request demo_engine)) = 1 * 1" by (simp_all add: demo_engine_def)
  show "1 = nat (num_channels demo_loaded)" "1 = nat (maxProposalCount demo_loaded)" "(4, 3) = input_geometry demo_loaded"
    by (simp_all add: demo_loaded_def)
  show "good_image 1 (4, 3) x" if "x \<in> set [demo_image 7, demo_image 8]" for x
    using that by (auto simp: good_image_def demo_image_def)
qed (rule demo_infer_ok)

lemma demo_sync_answer:
  "map (sync_answer demo_infer 1 1 (4, 3) [demo_image 7] []) [1..<Suc (length [demo_image 7])] =
   [(INSERTIMG_GET, [(result_of (demo_image 7))\<lparr>boxs :=
     [\<lparr>classid = 7, confidence = Fin (1/2), left = 0, right = 3, top = 0, bottom = 2\<rparr>]\<rparr>])]"
  using demo_batch [of "[]"] by (simp add: sync_answer_def demo_infer_def demo_labelled upt_rec Let_def)

text \<open>After the picture 7: with \<open>SetMode(true)\<close> the boxes of 7 are given to picture 8, with \<open>SetMode(false)\<close> to 7 itself.\<close>

theorem setmode_stale_witness:
  "\<exists>d. insert_all demo_infer [demo_image 7] [] demo_loaded = Some (Inr ([(INSERTIMG_INSERTED, [])], d)) \<and>
    (\<exists>d1 d2. SetMode demo_infer False d = Some (Inr d1) \<and> insert_all demo_infer [demo_image 7] [] d1 =
      Some (Inr ([(INSERTIMG_GET, [(result_of (demo_image 7))\<lparr>boxs :=
        [\<lparr>classid = 7, confidence = Fin (1/2), left = 0, right = 3, top = 0, bottom = 2\<rparr>]\<rparr>])], d2))) \<and>
    (\<exists>d1 d2. SetMode demo_infer True d = Some (Inr d1) \<and> insert_all demo_infer [demo_image 8] [] d1 =
      Some (Inr ([(INSERTIMG_GET, [(result_of (demo_image 8))\<lparr>boxs :=
        [\<lparr>classid = 7, confidence = Fin (1/2), left = 0, right = 3, top = 0, bottom = 2\<rparr>]\<rparr>])], d2)))"
proof -
  have good: "good_image 1 (4, 3) (demo_image k)" for k by (simp add: good_image_def demo_image_def)
  have e: "getBatchSize demo_engine 1 = int 1" "1 \<le> (1::nat)" "phase (fresh_request demo_engine) = Not_Started"
    "length (blob (fresh_request demo_engine)) = 1 * 1" by (simp_all add: demo_engine_def)
  have n: "1 = nat (num_channels demo_loaded)" "1 = nat (maxProposalCount demo_loaded)" "(4, 3) = input_geometry demo_loaded"
    by (simp_all add: demo_loaded_def)
  have "streaming 1 1 1 (4, 3) [demo_image 7] (0 div 1) (0 mod 1) demo_loaded"
    using Load_fresh [OF demo_Load e(1-3)] e(4) unfolding n [symmetric] by simp
  then have "\<exists>d. insert_all demo_infer [demo_image 7] [] demo_loaded =
      Some (Inr (map (answer demo_infer 1 1 (4, 3) [demo_image 7] []) [Suc 0..<Suc (length [demo_image 7])], d)) \<and>
      streaming 1 1 1 (4, 3) [demo_image 7] (length [demo_image 7] div 1) (length [demo_image 7] mod 1) d"
    by (rule stream_run [OF _ _ _ _ demo_infer_ok]) (use good in \<open>auto simp: answer_def\<close>)
  then obtain d where "insert_all demo_infer [demo_image 7] [] demo_loaded =
      Some (Inr (map (answer demo_infer 1 1 (4, 3) [demo_image 7] []) [Suc 0..<Suc (length [demo_image 7])], d))" by blast
  moreover have "map (answer demo_infer 1 1 (4, 3) [demo_image 7] []) [Suc 0..<Suc (length [demo_image 7])] = [(INSERTIMG_INSERTED, [])]"
    by (simp add: answer_def)
  ultimately have run: "insert_all demo_infer [demo_image 7] [] demo_loaded = Some (Inr ([(INSERTIMG_INSERTED, [])], d))" by simp
  have "good_image 1 (4, 3) x" if "x \<in> set [demo_image 7] \<union> set [demo_image 7] \<union> set [demo_image 8]" for x using that good by auto
  note both = setmode_stale [where xs = "[demo_image 7]" and ys = "[demo_image 7]" and zs = "[demo_image 8]" and objs = "[]",
    OF demo_Load e n this demo_infer_ok run refl]
  have "the (demo_infer (planes_of (batch 1 [demo_image 7] 0))) = demo_out 7"
    using demo_batch [of "[]"] by (simp add: demo_infer_def)
  then show ?thesis
    using run both by (auto simp: demo_sync_answer [simplified] demo_labelled Let_def simp del: insert_all.simps)
qed

end
