(* ===== verification/Detection_Boxes.thy ===== *)
theory Detection_Boxes
  imports Detection_Run Detector
begin

text \<open>
  The output of the \<open>DetectionOutput\<close> layer as the detector reads it: the rows of seven floats
  that the layer writes for a batch reach the results of the right pictures as boxes, in the
  order of the classes, and the end marker stops the reader.
\<close>

lemma nth_concat_7:
  "(\<And>r. r \<in> set rs \<Longrightarrow> length r = 7) \<Longrightarrow> k < length rs \<Longrightarrow> t < 7 \<Longrightarrow> concat rs ! (k * 7 + t) = rs ! k ! t"
proof (induction rs arbitrary: k)
  case (Cons r rs)
  then show ?case by (cases k) (auto simp: nth_append)
qed simp

lemma box_of_row:
  assumes "\<And>t. t < 7 \<Longrightarrow> out ! (p + t) = r ! t" "p + 7 \<le> length out" "length r = 7"
  shows "box_of sz out p = box_of sz r 0"
  using assms(1) [of 1] assms(1) [of 2] assms(1) [of 3] assms(1) [of 4] assms(1) [of 5] assms(1) [of 6] assms(2,3)
  by (simp add: box_of_def rd_Some numeral_2_eq_2)

text \<open>The rows of one picture, and the buffer around the rows of all.\<close>

definition picture_rows :: "det_cfg \<Rightarrow> det_mem \<Rightarrow> nat \<Rightarrow> ieee list list" where
  "picture_rows c m i = concat (map (class_rows c m i) [0..<nat (num_classes c)])"

lemma out_rows_pictures: "out_rows c m N 0 = concat (map (picture_rows c m) [0..<N])"
  by (simp add: out_rows_def picture_rows_def [abs_def])

lemma picture_rows_label: "r \<in> set (picture_rows c m i) \<Longrightarrow> r ! 0 = i2f (int i)"
  by (auto simp: picture_rows_def class_rows_def out_row_def Let_def)

lemma finished_nth:
  assumes rows: "rows = out_rows c m N 0" "length rows \<le> limit c N" and room: "limit c N * 7 \<le> length dst"
  shows "length (finished c N m dst) = length dst"
    and "k < length rows \<Longrightarrow> t < 7 \<Longrightarrow> finished c N m dst ! (k * 7 + t) = rows ! k ! t"
    and "length rows < limit c N \<Longrightarrow> finished c N m dst ! (length rows * 7) = i2f (- 1)"
    and "length rows < k \<Longrightarrow> k < limit c N \<Longrightarrow> t < 7 \<Longrightarrow> finished c N m dst ! (k * 7 + t) = Fin 0"
proof -
  have r7: "\<And>r. r \<in> set rows \<Longrightarrow> length r = 7" using out_rows_7 unfolding rows(1) by blast
  have len: "length (concat rows) = length rows * 7" using length_concat_7 [OF r7] .
  let ?z = "put dst 0 (replicate (limit c N * 7) (Fin 0))"
  let ?d = "put ?z 0 (concat rows)"
  have z: "length ?z = length dst" using room by simp
  have fits: "0 + length (concat rows) \<le> length ?z" using z len rows(2) room by simp
  have f: "finished c N m dst = (if length rows < limit c N then ?d[length rows * 7 := i2f (- 1)] else ?d)"
    by (simp add: finished_def Let_def rows(1))
  have d: "length ?d = length dst" using fits z by simp
  show "length (finished c N m dst) = length dst" using d by (simp add: f)
  show "finished c N m dst ! (k * 7 + t) = rows ! k ! t" if k: "k < length rows" and t: "t < 7"
  proof -
    have "k * 7 + t < length rows * 7" using k t by simp
    moreover from this have "?d ! (0 + (k * 7 + t)) = concat rows ! (k * 7 + t)" using len by (intro nth_put) simp_all
    ultimately show ?thesis using nth_concat_7 [OF r7 k t] by (simp add: f)
  qed
  show "finished c N m dst ! (length rows * 7) = i2f (- 1)" if "length rows < limit c N"
    using that d room by (simp add: f)
  show "finished c N m dst ! (k * 7 + t) = Fin 0" if k: "length rows < k" "k < limit c N" and t: "t < 7"
  proof -
    have i: "length rows * 7 < k * 7 + t" "k * 7 + t < limit c N * 7" using k t by simp_all
    then have "?d ! (k * 7 + t) = ?z ! (k * 7 + t)" using fits len by (intro nth_put_other) simp_all
    also have "\<dots> = Fin 0" using nth_put [of 0 dst "k * 7 + t" "replicate (limit c N * 7) (Fin 0)"] i by simp
    finally show ?thesis using i by (simp add: f)
  qed
qed

lemma filter_pictures:
  assumes "\<And>i r. i < N \<Longrightarrow> r \<in> set (f i) \<Longrightarrow> P r \<longleftrightarrow> i = j" and "j < N"
  shows "filter P (concat (map f [0..<N])) = f j"
proof -
  have "filter P (concat (map f [0..<n])) = (if j < n then f j else [])" if "n \<le> N" for n
    using that
  proof (induction n)
    case (Suc n)
    have "filter P (f n) = (if n = j then f n else [])"
      using assms(1) [of n] Suc.prems by (auto simp: filter_id_conv filter_empty_conv)
    then show ?case using Suc by auto
  qed simp
  then show ?thesis using assms(2) by simp
qed

text \<open>What the reader needs of the rows: scores that are not zero and coordinates within \<open>int\<close>.\<close>

definition readable :: "int \<times> int \<Rightarrow> ieee list \<Rightarrow> bool" where
  "readable sz r \<longleftrightarrow> \<not> feq (r ! 2) (Fin 0) \<and> box_of sz r 0 \<noteq> None"

lemma label_exact: "i < 2 ^ 24 \<Longrightarrow> to_int (i2f (int i)) = Some (int i)"
  by (simp add: i2f_exact to_int_def trunc_def)

lemma finished_reads:
  assumes rows: "rows = out_rows c m N 0" "length rows \<le> limit c N" and room: "limit c N * 7 \<le> length dst"
    and N: "N < 2 ^ 24" and ok: "\<And>r. r \<in> set rows \<Longrightarrow> readable sz r"
  defines "out \<equiv> finished c N m dst"
  shows "rows_ok sz N (limit c N) out" and "live_rows out 0 (limit c N) = [0..<length rows]"
    and "j < N \<Longrightarrow> boxes_for sz out [0..<length rows] j = map (\<lambda>r. the (box_of sz r 0)) (picture_rows c m j)"
proof -
  note F = finished_nth [OF rows room, folded out_def]
  have r7: "length r = 7" if "r \<in> set rows" for r using that out_rows_7 unfolding rows(1) by blast
  have label: "\<exists>i < N. r ! 0 = i2f (int i) \<and> r \<in> set (picture_rows c m i)" if "r \<in> set rows" for r
    using that picture_rows_label unfolding rows(1) out_rows_pictures by fastforce
  have live: "row_live out k \<and> row_id out k < int N \<and> to_int (out ! (k * 7)) = Some (row_id out k) \<and>
      to_int (rows ! k ! 0) = Some (row_id out k) \<and> box_of sz out (k * 7) = box_of sz (rows ! k) 0"
    if k: "k < length rows" for k
  proof -
    have r: "rows ! k \<in> set rows" using k by simp
    obtain i where i: "i < N" "rows ! k ! 0 = i2f (int i)" using label [OF r] by blast
    have id: "to_int (rows ! k ! 0) = Some (int i)" "out ! (k * 7) = rows ! k ! 0"
      using label_exact [of i] i N F(2) [OF k, of 0] by simp_all
    have "k * 7 + 7 \<le> length out" using k rows(2) room F(1) by linarith
    then have "box_of sz out (k * 7) = box_of sz (rows ! k) 0"
      using F(2) [OF k] r7 [OF r] by (intro box_of_row) simp_all
    then show ?thesis using id i ok [OF r] F(2) [OF k, of 2] by (simp add: row_live_def row_id_def readable_def)
  qed
  have dead: "\<not> row_live out k \<and> to_int (out ! (k * 7)) \<noteq> None" if "length rows \<le> k" "k < limit c N" for k
  proof (cases "k = length rows")
    case True
    then have "to_int (out ! (k * 7)) = Some (- 1)" using F(3) that by (simp add: i2f_exact to_int_def trunc_def ceiling_minus)
    then show ?thesis by (simp add: row_live_def row_id_def)
  next
    case False
    then show ?thesis using F(4) [of k 0] F(4) [of k 2] that
      by (simp add: row_live_def to_int_def trunc_def feq_iff fle_fin)
  qed
  show "rows_ok sz N (limit c N) out"
    unfolding rows_ok_def
  proof (intro conjI allI impI)
    show "limit c N * 7 \<le> length out" using room F(1) by simp
    fix k assume k: "k < limit c N"
    show "to_int (out ! (k * 7)) \<noteq> None" using live [of k] dead [of k] k by (cases "k < length rows") auto
    show "row_id out k < int N" "box_of sz out (k * 7) \<noteq> None" if "row_live out k"
      using live [of k] dead [of k] k that ok [of "rows ! k"] by (cases "k < length rows"; simp add: readable_def)+
  qed
  obtain e where e: "limit c N = length rows + e" using rows(2) le_Suc_ex by blast
  have "[0..<limit c N] = [0..<length rows] @ [length rows..<length rows + e]" unfolding e by (rule upt_add_eq_append) simp
  moreover have "takeWhile (row_live out) [length rows..<length rows + e] = []"
  proof (cases e)
    case (Suc e')
    then have "[length rows..<length rows + e] = length rows # [Suc (length rows)..<length rows + e]" by (subst upt_rec) simp
    then show ?thesis using dead [of "length rows"] e Suc by simp
  qed simp
  moreover have "takeWhile (row_live out) ([0..<length rows] @ zs) = [0..<length rows] @ takeWhile (row_live out) zs" for zs
    using live by (intro takeWhile_append2) simp
  ultimately show "live_rows out 0 (limit c N) = [0..<length rows]" by (simp add: live_rows_def)
  show "boxes_for sz out [0..<length rows] j = map (\<lambda>r. the (box_of sz r 0)) (picture_rows c m j)" if j: "j < N"
  proof -
    have "boxes_for sz out [0..<length rows] j =
        map (\<lambda>k. the (box_of sz (rows ! k) 0)) (filter (\<lambda>k. to_int (rows ! k ! 0) = Some (int j)) [0..<length rows])"
      unfolding boxes_for_def using live by (intro map_cong filter_cong) auto
    also have "\<dots> = map (\<lambda>r. the (box_of sz r 0)) (filter (\<lambda>r. to_int (r ! 0) = Some (int j)) (map ((!) rows) [0..<length rows]))"
      by (simp add: filter_map comp_def)
    also have "filter (\<lambda>r. to_int (r ! 0) = Some (int j)) (map ((!) rows) [0..<length rows]) = picture_rows c m j"
      unfolding map_nth rows(1) out_rows_pictures
    proof (rule filter_pictures [OF _ j])
      fix i r assume "i < N" "r \<in> set (picture_rows c m i)"
      then show "to_int (r ! 0) = Some (int j) \<longleftrightarrow> i = j"
        using picture_rows_label [of r c m i] label_exact [of i] N by simp
    qed
    finally show ?thesis .
  qed
qed


lemma length_out_rows_total:
  assumes "\<forall>i < N. int (image_total c m i) \<le> keep_top_k c"
  shows "length (out_rows c m N 0) \<le> N * nat (keep_top_k c)"
proof (cases N)
  case (Suc n)
  then show ?thesis
    using length_out_rows_le [OF assms, of n "nat (num_classes c)"] by (simp only: out_rows_next)
qed (simp add: out_rows_def)

text \<open>
  C7: The boxes of the \<open>DetectionOutput\<close> layer arrive at the application: when the detector
  reads the output of a run of the layer on a batch, every picture of the batch receives
  exactly the detections of its own image, as boxes in the order of the classes, and the rows
  behind the end marker are not read.
\<close>

theorem detections_reach_boxes:
  assumes c: "cfg_ok c" and m: "det_shape c N m" and N: "rd (dims conf) 0 = Some N" "N < 2 ^ 24"
    and inp: "inputs_ok c N (data loc) (data conf) (data prior)" and srt: "\<And>xs. mset (srt xs) = mset xs"
    and ktk: "0 \<le> keep_top_k c" and dims: "length (dims out) = 4" "dims out ! 3 = 7"
    and room: "N * nat (keep_top_k c) * 7 \<le> length (data out)"
    and small: "int_ok (int (N * nat (keep_top_k c) * 7))"
    and infos: "length infos = N" "\<And>x. x \<in> set infos \<Longrightarrow> isize x = sz"
    and readable: "\<And>m' out'. det_execute expf srt c m loc conf prior out = Some (OK, m', out') \<Longrightarrow>
      \<forall>r \<in> set (out_rows c m' N 0). readable sz r"
  shows "\<exists>m' out' st. det_execute expf srt c m loc conf prior out = Some (OK, m', out') \<and>
    loop_brk 0 (N * nat (keep_top_k c)) (parse_row (int N) 7 (data out')) (map result_of infos, INSERTIMG_PROCESSED) =
      Some (map (\<lambda>j. (result_of (infos ! j))\<lparr>boxs := map (\<lambda>r. the (box_of sz r 0)) (picture_rows c m' j)\<rparr>) [0..<N], st)"
proof -
  obtain m' where run: "det_execute expf srt c m loc conf prior out = Some (OK, m', out\<lparr>data := finished c N m' (data out)\<rparr>)"
    and inv: "\<forall>n < N. int (image_total c m' n) \<le> keep_top_k c"
    by (rule det_run [OF c m N(1) inp srt ktk dims room small, where expf = expf])
  define rows where "rows = out_rows c m' N 0"
  have lim: "limit c N = N * nat (keep_top_k c)" by (simp add: limit_def)
  have "length rows \<le> limit c N"
    using length_out_rows_total [OF inv] by (simp add: rows_def lim)
  note R = finished_reads [OF rows_def this, of "data out" sz, unfolded lim, OF room N(2)]
  have ok: "\<And>r. r \<in> set rows \<Longrightarrow> readable sz r" using readable [OF run] by (simp add: rows_def)
  have live: "live_rows (finished c N m' (data out)) 0 (N * nat (keep_top_k c)) = [0..<length rows]" by (rule R(2)) (rule ok)
  have "loop_brk 0 (N * nat (keep_top_k c)) (parse_row (int N) 7 (finished c N m' (data out))) (map result_of infos, INSERTIMG_PROCESSED) =
      Some (labelled sz (finished c N m' (data out)) (N * nat (keep_top_k c)) infos, result_status (finished c N m' (data out)) (N * nat (keep_top_k c)))"
    by (rule parse_results [OF R(1) [OF ok] infos])
  moreover have "labelled sz (finished c N m' (data out)) (N * nat (keep_top_k c)) infos =
      map (\<lambda>j. (result_of (infos ! j))\<lparr>boxs := map (\<lambda>r. the (box_of sz r 0)) (picture_rows c m' j)\<rparr>) [0..<N]"
    using R(3) [OF ok] live by (simp add: labelled_def infos(1))
  ultimately show ?thesis using run by auto
qed

lemma small_readable:
  "case det_execute id id (small_cfg 1) (alloc_mem (small_cfg 1) 4 NaN 0) (small_in 8) (small_in 4) (small_in 8) small_out of
     None \<Rightarrow> False | Some (st, m', out') \<Rightarrow> length (out_rows (small_cfg 1) m' 1 0) = 1 \<and>
       list_all (readable (4, 3)) (out_rows (small_cfg 1) m' 1 0)"
  by code_simp

theorem detections_reach_boxes_witness:
  "\<exists>m' out' st. det_execute id id (small_cfg 1) (alloc_mem (small_cfg 1) 4 NaN 0) (small_in 8) (small_in 4) (small_in 8) small_out =
      Some (OK, m', out') \<and> length (out_rows (small_cfg 1) m' 1 0) = 1 \<and>
    loop_brk 0 1 (parse_row 1 7 (data out')) ([result_of (demo_image 7)], INSERTIMG_PROCESSED) =
      Some ([(result_of (demo_image 7))\<lparr>boxs := map (\<lambda>r. the (box_of (4, 3) r 0)) (picture_rows (small_cfg 1) m' 0)\<rparr>], st)"
proof -
  have "\<exists>m' out' st. det_execute id id (small_cfg 1) (alloc_mem (small_cfg 1) 4 NaN 0) (small_in 8) (small_in 4) (small_in 8) small_out =
      Some (OK, m', out') \<and>
    loop_brk 0 (1 * nat (keep_top_k (small_cfg 1))) (parse_row (int 1) 7 (data out')) (map result_of [demo_image 7], INSERTIMG_PROCESSED) =
      Some (map (\<lambda>j. (result_of ([demo_image 7] ! j))\<lparr>boxs := map (\<lambda>r. the (box_of (4, 3) r 0)) (picture_rows (small_cfg 1) m' j)\<rparr>) [0..<1], st)"
  proof (rule detections_reach_boxes [OF small_ok(1,2)])
    show "inputs_ok (small_cfg 1) 1 (data (small_in 8)) (data (small_in 4)) (data (small_in 8))" by (rule small_ok)
    fix m' out'
    assume "det_execute id id (small_cfg 1) (alloc_mem (small_cfg 1) 4 NaN 0) (small_in 8) (small_in 4) (small_in 8) small_out = Some (OK, m', out')"
    then show "\<forall>r \<in> set (out_rows (small_cfg 1) m' 1 0). readable (4, 3) r"
      using small_readable by (simp add: list_all_iff)
  qed (simp_all add: small_in_def small_out_def small_cfg_def rd_def int_ok_def demo_image_def)
  then show ?thesis using small_readable by (auto simp: small_cfg_def)
qed

end
