(* ===== verification/Spatial_Transformer.thy ===== *)
theory Spatial_Transformer
  imports Resample
begin

text \<open>
  The \<open>SpatialTransformer\<close> layer (\<open>extension/ext_spatial_transformer.cpp\<close>) with the matrix
  product of \<open>extension/common/matrixmult.h\<close>: an affine map per image gives every output
  position a point of the picture, whose value is interpolated from the four pixels around it.
  The height 24 and the width 94 are constants of the code.
\<close>

section \<open>The layer\<close>

definition spatial_ctor :: "ie_lib \<Rightarrow> cnn_layer \<Rightarrow> exn + layer_config list" where
  "spatial_ctor lib L =
     ebind (throw_if (length (insData L) \<noteq> 2 \<or> outData L = []) ''Incorrect number of input/output edges!'') (\<lambda>_.
     addConfig lib L [] [conf1 PLN, conf1 PLN] [conf1 PLN] False)"

text \<open>The pointers \<open>B\<close> and \<open>C\<close> are an array with an offset each.\<close>

definition matrixMult ::
    "ieee list \<Rightarrow> ieee list \<Rightarrow> nat \<Rightarrow> ieee list \<Rightarrow> nat \<Rightarrow> nat \<Rightarrow> nat \<Rightarrow> nat \<Rightarrow> bool \<Rightarrow> ieee list option" where
  "matrixMult A B b C c m n k transposeB =
     (if transposeB then
        loop m (\<lambda>rowA. loop n (\<lambda>rowB C. do {
          sum \<leftarrow> loop k (\<lambda>colA sum. do {
            x \<leftarrow> rd A (rowA * k + colA);
            y \<leftarrow> rd B (b + (rowB * k + colA));
            Some (addf sum (mulf x y)) }) (Fin 0);
          wr C (c + rowA * n + rowB) sum })) C
      else
        loop m (\<lambda>rowA. loop n (\<lambda>colB C. do {
          sum \<leftarrow> loop k (\<lambda>colA sum. do {
            x \<leftarrow> rd A (rowA * k + colA);
            y \<leftarrow> rd B (b + (colA * n + colB));
            Some (addf sum (mulf x y)) }) (Fin 0);
          wr C (c + rowA * n + colB) sum })) C)"

text \<open>\<open>i * 1.0 / n * 2 - 1\<close> in \<open>double\<close>, stored as \<open>float\<close>.\<close>

definition grid_coord :: "nat \<Rightarrow> nat \<Rightarrow> ieee" where
  "grid_coord i n = cvt b32 (subd (muld (divd (muld (of_z b64 (int i)) (Fin 1)) (of_z b64 (int n))) (Fin 2)) (Fin 1))"

definition output_grid :: "nat \<Rightarrow> nat \<Rightarrow> ieee list option" where
  "output_grid H W = loop (H * W) (\<lambda>i g. do {
     g \<leftarrow> wr g (3 * i) (grid_coord (i div W) H);
     g \<leftarrow> wr g (3 * i + 1) (grid_coord (i mod W) W);
     wr g (3 * i + 2) (Fin 1) }) (replicate (3 * (H * W)) (Fin 0))"

definition add_corner :: "ieee list \<Rightarrow> nat \<Rightarrow> ieee \<Rightarrow> ieee \<Rightarrow> ieee \<Rightarrow> ieee \<Rightarrow> ieee \<Rightarrow> ieee option" where
  "add_corner pic p x y fm fn res = do {
     m \<leftarrow> to_int fm;
     n \<leftarrow> to_int fn;
     if m \<ge> 0 \<and> m < 24 \<and> n \<ge> 0 \<and> n < 94 then do {
       let w = mulf (cmax (Fin 0) (subf (Fin 1) (fabs (subf x (i2f m))))) (cmax (Fin 0) (subf (Fin 1) (fabs (subf y (i2f n)))));
       v \<leftarrow> rd pic (p + nat m * 94 + nat n);
       Some (addf res (mulf w v)) }
     else Some res }"

definition transform_forward_cpu :: "ieee list \<Rightarrow> nat \<Rightarrow> ieee \<Rightarrow> ieee \<Rightarrow> ieee option" where
  "transform_forward_cpu pic p px py = do {
     let x = mulf (divf (addf px (Fin 1)) (Fin 2)) (i2f 24);
     let y = mulf (divf (addf py (Fin 1)) (Fin 2)) (i2f 94);
     let x1 = addf (ffloor x) (Fin 1);
     let y1 = addf (ffloor y) (Fin 1);
     res \<leftarrow> add_corner pic p x y (ffloor x) (ffloor y) (Fin 0);
     res \<leftarrow> add_corner pic p x y x1 (ffloor y) res;
     res \<leftarrow> add_corner pic p x y (ffloor x) y1 res;
     add_corner pic p x y x1 y1 res }"

definition spatial_image ::
    "ieee list \<Rightarrow> ieee list \<Rightarrow> ieee list \<Rightarrow> nat \<Rightarrow> nat \<Rightarrow> nat \<Rightarrow> nat \<Rightarrow> ieee list \<times> ieee list \<Rightarrow> (ieee list \<times> ieee list) option" where
  "spatial_image src theta og C H W i = (\<lambda>(grid, dst). do {
     let coordinates = H * W * 2 * i;
     grid \<leftarrow> matrixMult og theta (6 * i) grid coordinates (H * W) 2 3 True;
     dst \<leftarrow> loop C (\<lambda>j. loop H (\<lambda>s. loop W (\<lambda>t dst. do {
       let row_idx = W * s + t;
       px \<leftarrow> rd grid (coordinates + row_idx * 2);
       py \<leftarrow> rd grid (coordinates + (row_idx * 2 + 1));
       v \<leftarrow> transform_forward_cpu src (((i * C + j) * H + 0) * W + 0) px py;
       wr dst (((i * C + j) * H + s) * W + t) v }))) dst;
     Some (grid, dst) })"

definition spatial_execute :: "blob \<Rightarrow> blob \<Rightarrow> blob \<Rightarrow> (status \<times> blob) option" where
  "spatial_execute inp theta out = do {
     N \<leftarrow> rd (dims inp) 0;
     C \<leftarrow> rd (dims inp) 1;
     H \<leftarrow> rd (dims inp) 2;
     W \<leftarrow> rd (dims inp) 3;
     og \<leftarrow> output_grid H W;
     (grid, dst) \<leftarrow> loop N (spatial_image (data inp) (data theta) og C H W)
       (replicate (N * H * W * 2) (Fin 0), data out);
     Some (OK, out\<lparr>data := dst\<rparr>) }"

section \<open>The grid and the product\<close>

lemma output_grid_eq:
  "\<exists>g. output_grid H W = Some g \<and> length g = 3 * (H * W) \<and>
    (\<forall>i < H * W. g ! (3 * i) = grid_coord (i div W) H \<and> g ! (3 * i + 1) = grid_coord (i mod W) W \<and> g ! (3 * i + 2) = Fin 1)"
proof -
  let ?I = "\<lambda>k g. length g = 3 * (H * W) \<and>
    (\<forall>i < k. g ! (3 * i) = grid_coord (i div W) H \<and> g ! (3 * i + 1) = grid_coord (i mod W) W \<and> g ! (3 * i + 2) = Fin 1)"
  have "ok (output_grid H W) (?I (H * W))"
    unfolding output_grid_def
  proof (rule loop_ok [where I = ?I])
    fix i g assume "i < H * W" "?I i g"
    then show "ok (do {
       g \<leftarrow> wr g (3 * i) (grid_coord (i div W) H);
       g \<leftarrow> wr g (3 * i + 1) (grid_coord (i mod W) W);
       wr g (3 * i + 2) (Fin 1) }) (?I (Suc i))"
      by (auto simp: wr_Some less_Suc_eq nth_list_update)
  qed simp
  then show ?thesis by (auto elim: okE)
qed

definition dot3 :: "ieee list \<Rightarrow> nat \<Rightarrow> ieee list \<Rightarrow> nat \<Rightarrow> ieee" where
  "dot3 A a B b = addf (addf (addf (Fin 0) (mulf (A ! a) (B ! b))) (mulf (A ! (a + 1)) (B ! (b + 1))))
     (mulf (A ! (a + 2)) (B ! (b + 2)))"

lemma matrixMult_writes:
  assumes A: "m * 3 \<le> length A" and B: "b + n * 3 \<le> length B" and C: "length C = L" "c + m * n \<le> L"
    and h: "\<And>i j. i < m \<Longrightarrow> j < n \<Longrightarrow> h (c + i * n + j) = dot3 A (i * 3) B (b + j * 3)"
  shows "ok (matrixMult A B b C c m n 3 True) (writes {c..<c + m * n} h C)"
  unfolding matrixMult_def if_True
proof (rule rows_write [OF _ C(1)])
  fix i j and xs :: "ieee list" assume i: "i < m" and j: "j < n" and xs: "length xs = L"
  have "i * 3 + 3 \<le> length A" "b + j * 3 + 3 \<le> length B" using i j A B by linarith+
  then have "loop 3 (\<lambda>k sum. do {
        x \<leftarrow> rd A (i * 3 + k);
        y \<leftarrow> rd B (b + (j * 3 + k));
        Some (addf sum (mulf x y)) }) (Fin 0) = Some (dot3 A (i * 3) B (b + j * 3))"
    by (simp add: numeral_3_eq_3 rd_Some dot3_def add.assoc)
  moreover have "c + i * n + j < length xs" using index2_less [OF i j] C xs by simp
  ultimately show "ok (do {
        sum \<leftarrow> loop 3 (\<lambda>k sum. do {
          x \<leftarrow> rd A (i * 3 + k);
          y \<leftarrow> rd B (b + (j * 3 + k));
          Some (addf sum (mulf x y)) }) (Fin 0);
        wr xs (c + i * n + j) sum }) (writes {c + i * n + j} h xs)"
    using h [OF i j] by (simp add: ok_wr writes_update)
qed

section \<open>Interpolation between the pixels\<close>

definition hat :: "ieee \<Rightarrow> int \<Rightarrow> ieee" where
  "hat v k = cmax (Fin 0) (subf (Fin 1) (fabs (subf v (i2f k))))"

definition corner :: "ieee list \<Rightarrow> nat \<Rightarrow> ieee \<Rightarrow> ieee \<Rightarrow> int \<Rightarrow> int \<Rightarrow> ieee \<Rightarrow> ieee" where
  "corner pic p x y m n res =
     (if 0 \<le> m \<and> m < 24 \<and> 0 \<le> n \<and> n < 94
      then addf res (mulf (mulf (hat x m) (hat y n)) (pic ! (p + nat m * 94 + nat n))) else res)"

definition sample :: "ieee list \<Rightarrow> nat \<Rightarrow> ieee \<Rightarrow> ieee \<Rightarrow> ieee" where
  "sample pic p px py =
     (let x = mulf (divf (addf px (Fin 1)) (Fin 2)) (i2f 24); y = mulf (divf (addf py (Fin 1)) (Fin 2)) (i2f 94);
          m = \<lfloor>val x\<rfloor>; n = \<lfloor>val y\<rfloor> in
      corner pic p x y (m + 1) (n + 1) (corner pic p x y m (n + 1)
        (corner pic p x y (m + 1) n (corner pic p x y m n (Fin 0)))))"

definition bounded_by :: "int \<Rightarrow> ieee \<Rightarrow> bool" where
  "bounded_by b x \<longleftrightarrow> is_fin x \<and> - of_int b \<le> val x \<and> val x \<le> of_int b"

lemma bounded_by_abs: "bounded_by b x \<longleftrightarrow> is_fin x \<and> \<bar>val x\<bar> \<le> of_int b"
  by (auto simp: bounded_by_def abs_le_iff)

lemma bounded_by_add:
  assumes "bounded_by a x" "bounded_by b y" "a + b < 2 ^ 24" "0 \<le> a + b"
  shows "bounded_by (a + b) (addf x y)"
  using assms fadd_bounded [of b32 "- (a + b)" "a + b" x y] by (simp add: bounded_by_def)

lemma bounded_by_mul:
  assumes "bounded_by a x" "bounded_by b y" "a * b < 2 ^ 24" "0 \<le> a * b"
  shows "bounded_by (a * b) (mulf x y)"
proof -
  have "\<bar>val x * val y\<bar> \<le> of_int a * of_int b"
    using assms(1,2) unfolding bounded_by_abs abs_mult by (intro mult_mono) linarith+
  then have "\<bar>val x * val y\<bar> \<le> of_int (a * b)" by simp
  then show ?thesis
    using assms fmul_bounded [of b32 "- (a * b)" "a * b" x y] by (simp add: bounded_by_def abs_le_iff)
qed

lemma bounded_by_half:
  assumes "bounded_by a x" "a < 2 ^ 24" "0 \<le> a"
  shows "bounded_by a (divf x (Fin 2))"
proof -
  have "\<bar>val x / 2\<bar> \<le> of_int a" using assms(1,3) by (simp add: bounded_by_abs)
  then show ?thesis using assms fdiv_bounded [of b32 "- a" a x "Fin 2"] by (simp add: bounded_by_def abs_le_iff)
qed

lemma floor_steps:
  assumes "bounded_by b x" "b < 2 ^ 23" "0 \<le> b"
  shows "to_int (ffloor x) = Some \<lfloor>val x\<rfloor>" "to_int (addf (ffloor x) (Fin 1)) = Some (\<lfloor>val x\<rfloor> + 1)"
proof -
  define m where "m = \<lfloor>val x\<rfloor>"
  have b: "- b \<le> m" "m \<le> b" using assms(1) by (auto simp: m_def bounded_by_def le_floor_iff floor_le_iff; linarith)+
  have f: "is_fin (ffloor x)" "val (ffloor x) = of_int m"
    using assms(1) unfolding m_def bounded_by_def by (cases x; auto simp: zero_def)+
  have t: "trunc (of_int i :: rat) = i" for i by (simp add: trunc_def)
  have "to_int (ffloor x) = Some m" using f b assms(2) t [of m] by (simp add: to_int_def)
  then show "to_int (ffloor x) = Some \<lfloor>val x\<rfloor>" by (simp only: m_def)
  have "representable b32 (of_int (m + 1))" using b assms by (intro representable_int) simp_all
  then have "is_fin (addf (ffloor x) (Fin 1)) \<and> val (addf (ffloor x) (Fin 1)) = of_int (m + 1)"
    using fadd_exact [of b32 "ffloor x" "Fin 1" "b + 1"] f b assms by simp
  then have "to_int (addf (ffloor x) (Fin 1)) = Some (m + 1)"
    using b assms(2) t [of "m + 1"] by (simp add: to_int_def)
  then show "to_int (addf (ffloor x) (Fin 1)) = Some (\<lfloor>val x\<rfloor> + 1)" by (simp only: m_def)
qed

lemma add_corner_eq:
  assumes "to_int fm = Some m" "to_int fn = Some n" "p + 24 * 94 \<le> length pic"
  shows "add_corner pic p x y fm fn res = Some (corner pic p x y m n res)"
proof (cases "0 \<le> m \<and> m < 24 \<and> 0 \<le> n \<and> n < 94")
  case True
  then have "nat m * 94 + nat n < 24 * 94" by (intro index2_less) linarith+
  then show ?thesis using assms True by (simp add: add_corner_def corner_def hat_def rd_Some)
next
  case False
  then show ?thesis using assms by (auto simp: add_corner_def corner_def)
qed

lemma transform_eq:
  assumes px: "bounded_by 4000 px" and py: "bounded_by 4000 py" and room: "p + 24 * 94 \<le> length pic"
  shows "transform_forward_cpu pic p px py = Some (sample pic p px py)"
proof -
  have one: "bounded_by 1 (Fin 1)" "bounded_by 24 (i2f 24)" "bounded_by 94 (i2f 94)" by (simp_all add: bounded_by_def i2f_exact)
  have coord: "bounded_by (4001 * k) (mulf (divf (addf q (Fin 1)) (Fin 2)) (i2f k))"
    if "bounded_by 4000 q" "bounded_by k (i2f k)" "0 \<le> k" "k \<le> 94" for q k
    using bounded_by_mul [OF bounded_by_half [OF bounded_by_add [OF that(1) one(1)]] that(2)] that by simp
  show ?thesis
    unfolding transform_forward_cpu_def Let_def sample_def
    using floor_steps [OF coord [OF px one(2)]] floor_steps [OF coord [OF py one(3)]] room
    by (simp add: add_corner_eq)
qed

section \<open>The points of the affine map\<close>

lemma grid_coord_bounded:
  assumes "i < n" "n < 2 ^ 20"
  shows "bounded_by 1 (grid_coord i n)"
proof -
  have z: "of_z b64 (int i) = Fin (of_nat i)" "of_z b64 (int n) = Fin (of_nat n)"
    using assms by (simp_all add: of_z_exact)
  let ?a = "muld (of_z b64 (int i)) (Fin 1)"
  have a: "is_fin ?a \<and> 0 \<le> val ?a \<and> val ?a \<le> of_int (int i)"
    using fmul_bounded [of b64 0 "int i" "of_z b64 (int i)" "Fin 1"] assms by (simp add: z)
  let ?b = "divd ?a (of_z b64 (int n))"
  have "val ?a / of_nat n \<le> 1" using a assms by (simp add: divide_le_eq)
  then have b: "is_fin ?b \<and> 0 \<le> val ?b \<and> val ?b \<le> 1"
    using fdiv_bounded [of b64 0 1 ?a "of_z b64 (int n)"] a assms by (simp add: z)
  let ?c = "muld ?b (Fin 2)"
  have c: "is_fin ?c \<and> 0 \<le> val ?c \<and> val ?c \<le> 2" using fmul_bounded [of b64 0 2 ?b "Fin 2"] b by simp
  let ?d = "subd ?c (Fin 1)"
  have d: "is_fin ?d \<and> - 1 \<le> val ?d \<and> val ?d \<le> 1" using fsub_bounded [of b64 "- 1" 1 ?c "Fin 1"] c by simp
  then show ?thesis using cvt_bounded [of b32 "- 1" 1 ?d] by (simp add: grid_coord_def bounded_by_def)
qed

text \<open>The point in the source for output row \<open>s\<close> and column \<open>t\<close>; \<open>q\<close> is 0 or 1.\<close>

definition affine :: "ieee list \<Rightarrow> nat \<Rightarrow> nat \<Rightarrow> nat \<Rightarrow> nat \<Rightarrow> nat \<Rightarrow> nat \<Rightarrow> ieee" where
  "affine theta i q H W s t = dot3 [grid_coord s H, grid_coord t W, Fin 1] 0 theta (6 * i + q * 3)"

lemma affine_bounded:
  assumes "s < H" "t < W" "H < 2 ^ 20" "W < 2 ^ 20"
    and "bounded_by 1024 (theta ! (6 * i + q * 3))" "bounded_by 1024 (theta ! (6 * i + q * 3 + 1))" "bounded_by 1024 (theta ! (6 * i + q * 3 + 2))"
  shows "bounded_by 4000 (affine theta i q H W s t)"
proof -
  have one: "bounded_by 1 (Fin 1)" "bounded_by 0 (Fin 0)" by (simp_all add: bounded_by_def)
  note m = bounded_by_mul [OF grid_coord_bounded [OF assms(1,3)] assms(5)] bounded_by_mul [OF grid_coord_bounded [OF assms(2,4)] assms(6)]
    bounded_by_mul [OF one(1) assms(7)]
  have "bounded_by 3072 (affine theta i q H W s t)"
    using bounded_by_add [OF bounded_by_add [OF bounded_by_add [OF one(2) m(1)] m(2)] m(3)] by (simp add: affine_def dot3_def add.assoc)
  then show ?thesis by (simp add: bounded_by_def)
qed

section \<open>The whole layer\<close>

text \<open>What the layer stores at position \<open>p\<close> of the output.\<close>

definition spatial_pixel :: "ieee list \<Rightarrow> ieee list \<Rightarrow> nat \<Rightarrow> nat \<Rightarrow> nat \<Rightarrow> nat \<Rightarrow> ieee" where
  "spatial_pixel src theta C H W p =
     (let n = p div (H * W); s = p mod (H * W) div W; t = p mod W in
      sample src (n * (H * W)) (affine theta (n div C) 0 H W s t) (affine theta (n div C) 1 H W s t))"

lemma spatial_pixel_at:
  assumes "j < C" "s < H" "t < W"
  shows "spatial_pixel src theta C H W ((i * C + j) * (H * W) + s * W + t) =
    sample src ((i * C + j) * (H * W)) (affine theta i 0 H W s t) (affine theta i 1 H W s t)"
proof -
  let ?p = "(i * C + j) * (H * W) + s * W + t" and ?n = "i * C + j"
  have r: "s * W + t < H * W" using index2_less [OF assms(2,3)] .
  have e: "?p = ?n * (H * W) + (s * W + t)" by simp
  have "H * W \<noteq> 0" using r by linarith
  from div_mult_self3 [OF this, of ?n "s * W + t"] have "?p div (H * W) = ?n"
    unfolding e using div_less [OF r] by linarith
  moreover have "?p mod (H * W) = s * W + t"
    unfolding e mod_mult_self3 using mod_less [OF r] .
  moreover have "?p mod W = t"
    using assms(3) by (metis add.assoc add.commute mod_mult_self3 mod_less mult.assoc)
  moreover have "(s * W + t) div W = s" "?n div C = i" using assms(1,3) by simp_all
  ultimately show ?thesis unfolding spatial_pixel_def Let_def by simp
qed

lemma grid_point:
  assumes og: "length og = 3 * (H * W)" "\<forall>i < H * W. og ! (3 * i) = grid_coord (i div W) H \<and>
      og ! (3 * i + 1) = grid_coord (i mod W) W \<and> og ! (3 * i + 2) = Fin 1"
    and "s < H" "t < W"
  shows "dot3 og ((W * s + t) * 3) theta (6 * i + q * 3) = affine theta i q H W s t"
proof -
  have "W * s + t < H * W" using index2_less [OF assms(3,4)] by (simp add: mult.commute)
  from og(2) [rule_format, OF this]
  have "og ! (3 * (W * s + t)) = grid_coord s H" "og ! (3 * (W * s + t) + 1) = grid_coord t W"
      "og ! (3 * (W * s + t) + 2) = Fin 1"
    using assms(4) by simp_all
  then show ?thesis by (simp add: dot3_def affine_def mult.commute [of _ 3])
qed

lemma spatial_image_ok:
  assumes og: "length og = 3 * (H * W)" "\<forall>i < H * W. og ! (3 * i) = grid_coord (i div W) H \<and>
      og ! (3 * i + 1) = grid_coord (i mod W) W \<and> og ! (3 * i + 2) = Fin 1"
    and i: "i < N" and grid: "length grid = N * (H * W * 2)" and dst: "length dst = N * C * (H * W)"
    and src: "length src = N * C * (H * W)" and theta: "N * 6 \<le> length theta"
    and fin: "\<And>k. k < N * 6 \<Longrightarrow> bounded_by 1024 (theta ! k)"
    and area: "24 * 94 \<le> H * W" and "H < 2 ^ 20" "W < 2 ^ 20"
  shows "ok (spatial_image src theta og C H W i (grid, dst)) (\<lambda>(grid', dst').
    length grid' = N * (H * W * 2) \<and>
    writes {i * (C * (H * W))..<i * (C * (H * W)) + C * (H * W)} (spatial_pixel src theta C H W) dst dst')"
proof -
  define c where "c = H * W * 2 * i"
  define h where "h k = dot3 og ((k - c) div 2 * 3) theta (6 * i + (k - c) mod 2 * 3)" for k
  have th: "6 * i + 6 \<le> N * 6" using i by simp
  have cs: "c + H * W * 2 \<le> N * (H * W * 2)"
    using mult_le_mono1 [OF Suc_leI [OF i], of "H * W * 2"] by (simp add: c_def mult.commute add.commute)
  have "ok (matrixMult og theta (6 * i) grid c (H * W) 2 3 True) (writes {c..<c + H * W * 2} h grid)"
  proof (rule matrixMult_writes [OF _ _ grid cs])
    show "H * W * 3 \<le> length og" using og(1) by simp
    show "6 * i + 2 * 3 \<le> length theta" using th theta by simp
    fix a q :: nat assume "q < 2"
    then have "(c + a * 2 + q - c) div 2 = a" "(c + a * 2 + q - c) mod 2 = q" by simp_all
    then show "h (c + a * 2 + q) = dot3 og (a * 3) theta (6 * i + q * 3)" by (simp only: h_def)
  qed
  then obtain g where g: "matrixMult og theta (6 * i) grid c (H * W) 2 3 True = Some g" "writes {c..<c + H * W * 2} h grid g"
    by (rule okE)
  have lg: "length g = N * (H * W * 2)" using writes_length [OF g(2)] grid by simp
  have point: "g ! (c + ((W * s + t) * 2 + q)) = affine theta i q H W s t" "c + ((W * s + t) * 2 + q) < length g"
    if st: "s < H" "t < W" and q: "q < 2" for s t q
  proof -
    have r: "W * s + t < H * W" using index2_less [OF st] by (simp add: mult.commute)
    have k: "(W * s + t) * 2 + q < H * W * 2" using index2_less [OF r q] .
    then show "c + ((W * s + t) * 2 + q) < length g" using cs lg by simp
    then have "g ! (c + ((W * s + t) * 2 + q)) = h (c + ((W * s + t) * 2 + q))"
      using g(2) k by (simp add: writes_def)
    also have "\<dots> = dot3 og ((W * s + t) * 3) theta (6 * i + q * 3)"
    proof -
      have "(r * 2 + q) div 2 = r" "(r * 2 + q) mod 2 = q" for r :: nat using q by simp_all
      then show ?thesis by (simp only: h_def add_diff_cancel_left')
    qed
    finally show "g ! (c + ((W * s + t) * 2 + q)) = affine theta i q H W s t"
      using grid_point [OF og st] by simp
  qed
  have bounded: "bounded_by 4000 (affine theta i q H W s t)" if "s < H" "t < W" "q < 2" for s t q
    using that th assms(10,11) by (intro affine_bounded fin) simp_all
  define row where "row j s t = (do {
       px \<leftarrow> rd g (c + (W * s + t) * 2);
       py \<leftarrow> rd g (c + ((W * s + t) * 2 + 1));
       transform_forward_cpu src (((i * C + j) * H + 0) * W + 0) px py })" for j s t
  have row: "row j s t = Some (spatial_pixel src theta C H W ((i * C + j) * (H * W) + s * W + t))"
    if j: "j < C" and st: "s < H" "t < W" for j s t
  proof -
    have "i * C + j < N * C" using index2_less [OF i j] .
    then have "(i * C + j) * (H * W) + H * W \<le> length src"
      using mult_le_mono1 [OF Suc_leI, of "i * C + j" "N * C" "H * W"] src by (simp add: add.commute)
    then show ?thesis
      using point [OF st, of 0] point [OF st, of 1] bounded [OF st, of 0] bounded [OF st, of 1] area
      by (simp add: row_def rd_Some transform_eq spatial_pixel_at [OF j st] mult.assoc)
  qed
  let ?h = "spatial_pixel src theta C H W"
  have "ok (loop C (\<lambda>j. loop H (\<lambda>s. loop W (\<lambda>t dst. do {
       v \<leftarrow> row j s t;
       wr dst (((i * C + j) * H + s) * W + t) v }))) dst)
     (writes {i * (C * (H * W))..<i * (C * (H * W)) + C * (H * W)} ?h dst)"
  proof (rule loop_writes_segments [OF _ dst])
    fix j and xs :: "ieee list" assume j: "j < C" and xs: "length xs = N * C * (H * W)"
    let ?q = "(i * C + j) * (H * W)"
    have "ok (loop H (\<lambda>s. loop W (\<lambda>t dst. do {
       v \<leftarrow> row j s t;
       wr dst (((i * C + j) * H + s) * W + t) v })) xs) (writes {?q..<?q + H * W} ?h xs)"
    proof (rule rows_write [OF _ xs])
      fix s t and ys :: "ieee list" assume st: "s < H" "t < W" and ys: "length ys = N * C * (H * W)"
      have at: "((i * C + j) * H + s) * W + t = ?q + s * W + t" by (simp add: algebra_simps)
      have "?q + (s * W + t) < N * C * (H * W)"
        using index2_less [OF index2_less [OF i j] index2_less [OF st]] .
      then show "ok (do {
         v \<leftarrow> row j s t;
         wr ys (((i * C + j) * H + s) * W + t) v }) (writes {?q + s * W + t} ?h ys)"
        using ys by (simp add: at row [OF j st] add.assoc ok_wr writes_update)
    qed
    then show "ok (loop H (\<lambda>s. loop W (\<lambda>t dst. do {
       v \<leftarrow> row j s t;
       wr dst (((i * C + j) * H + s) * W + t) v })) xs)
     (writes {i * (C * (H * W)) + j * (H * W)..<i * (C * (H * W)) + j * (H * W) + H * W} ?h xs)"
      by (simp add: algebra_simps)
  qed
  then show ?thesis
    using lg by (simp add: spatial_image_def Let_def g(1) row_def flip: c_def) (auto elim!: okE simp: ok_bind)
qed

text \<open>
  C31: Functional specification of the \<open>SpatialTransformer\<close> layer. For \<open>N\<close> pictures of \<open>C\<close> planes
  with at least \<open>24 * 94\<close> positions each and transformation entries of magnitude at most 1024,
  \<open>execute\<close> returns, reads nothing outside its inputs, and stores at every position of plane
  \<open>n\<close> the interpolation, in that plane, at the point to which the matrix of the picture maps the
  position. The interpolation always uses rows of 94 columns, whatever the width of the plane.
\<close>

theorem spatial_execute_spec:
  assumes "dims inp = [N, C, H, W]" "length (data inp) = N * C * (H * W)" "N * 6 \<le> length (data theta)"
    and "length (data out) = N * C * (H * W)" "24 * 94 \<le> H * W" "H < 2 ^ 20" "W < 2 ^ 20"
    and "\<And>k. k < N * 6 \<Longrightarrow> is_fin (data theta ! k) \<and> \<bar>val (data theta ! k)\<bar> \<le> 1024"
  shows "spatial_execute inp theta out =
    Some (OK, out\<lparr>data := map (spatial_pixel (data inp) (data theta) C H W) [0..<N * C * (H * W)]\<rparr>)"
proof -
  obtain og where og: "output_grid H W = Some og" "length og = 3 * (H * W)" "\<forall>i < H * W. og ! (3 * i) = grid_coord (i div W) H \<and>
      og ! (3 * i + 1) = grid_coord (i mod W) W \<and> og ! (3 * i + 2) = Fin 1"
    using output_grid_eq by blast
  let ?h = "spatial_pixel (data inp) (data theta) C H W"
  let ?l = "C * (H * W)"
  let ?g0 = "replicate (N * H * W * 2) (Fin 0)"
  have "ok (loop N (spatial_image (data inp) (data theta) og C H W) (?g0, data out))
    (\<lambda>(grid, dst). length grid = N * (H * W * 2) \<and> writes (\<Union>i<N. {0 + i * ?l..<0 + i * ?l + ?l}) ?h (data out) dst)"
  proof (rule loop_wp [where I = "\<lambda>n (grid, dst). length grid = N * (H * W * 2) \<and>
      writes (\<Union>i<n. {0 + i * ?l..<0 + i * ?l + ?l}) ?h (data out) dst"])
    fix i and st :: "ieee list \<times> ieee list" assume i: "i < N"
      and st: "case st of (grid, dst) \<Rightarrow> length grid = N * (H * W * 2) \<and> writes (\<Union>k<i. {0 + k * ?l..<0 + k * ?l + ?l}) ?h (data out) dst"
    obtain grid dst where p: "st = (grid, dst)" by (cases st)
    have g: "length grid = N * (H * W * 2)" and w: "writes (\<Union>k<i. {0 + k * ?l..<0 + k * ?l + ?l}) ?h (data out) dst"
      using st p by simp_all
    have d: "length dst = N * C * (H * W)" using writes_length [OF w] assms(4) by simp
    have "ok (spatial_image (data inp) (data theta) og C H W i (grid, dst)) (\<lambda>(grid', dst').
      length grid' = N * (H * W * 2) \<and> writes {i * ?l..<i * ?l + ?l} ?h dst dst')"
      using assms(8) by (intro spatial_image_ok [OF og(2,3) i g d assms(2,3)] assms(5-7)) (simp_all add: bounded_by_abs)
    then show "ok (spatial_image (data inp) (data theta) og C H W i st) (\<lambda>(grid, dst). length grid = N * (H * W * 2) \<and>
      writes (\<Union>k<Suc i. {0 + k * ?l..<0 + k * ?l + ?l}) ?h (data out) dst)"
      unfolding p by (rule ok_mono) (use writes_trans [OF w] in \<open>auto simp: lessThan_Suc Un_commute\<close>)
  qed (simp_all add: writes_refl)
  then obtain grid dst where r: "loop N (spatial_image (data inp) (data theta) og C H W) (?g0, data out) = Some (grid, dst)"
      and w: "writes {0..<0 + N * ?l} ?h (data out) dst"
    unfolding segments by (auto elim: okE)
  have "dst = map ?h [0..<N * C * (H * W)]" using writes_all [of "N * C * (H * W)"] w assms(4) by (simp add: mult.assoc)
  then show ?thesis using assms(1) og(1) r by (simp add: spatial_execute_def rd_Some)
qed

text \<open>A plane of one row of 2256 columns and the identity map.\<close>

lemma spatial_execute_spec_witness:
  "\<exists>res. spatial_execute \<lparr>dims = [1, 1, 1, 2256], data = replicate 2256 (Fin 1)\<rparr>
     \<lparr>dims = [1, 6], data = [Fin 1, Fin 0, Fin 0, Fin 0, Fin 1, Fin 0]\<rparr>
     \<lparr>dims = [1, 1, 1, 2256], data = replicate 2256 NaN\<rparr> = Some (OK, res)"
proof -
  have "k < 6 \<Longrightarrow> is_fin ([Fin 1, Fin 0, Fin 0, Fin 0, Fin 1, Fin 0] ! k) \<and>
      \<bar>val ([Fin 1, Fin 0, Fin 0, Fin 0, Fin 1, Fin 0] ! k)\<bar> \<le> 1024" for k :: nat
    by (auto simp: less_Suc_eq numeral_nat)
  then show ?thesis
    using spatial_execute_spec [of "\<lparr>dims = [1, 1, 1, 2256], data = replicate 2256 (Fin 1)\<rparr>" 1 1 1 2256
      "\<lparr>dims = [1, 6], data = [Fin 1, Fin 0, Fin 0, Fin 0, Fin 1, Fin 0]\<rparr>"
      "\<lparr>dims = [1, 1, 1, 2256], data = replicate 2256 NaN\<rparr>"]
    by simp
qed

section \<open>A small picture\<close>

lemma zero_sum: "is_fin x \<Longrightarrow> addf (Fin 0) (mulf x (Fin 0)) = Fin 0"
  by (cases x) (simp_all add: fmul_def Let_def mk_def zero_def)

text \<open>
  The constants 24 and 94 of the interpolation. For one plane of at most 1175 positions and
  a transformation of zeros, every position of the output is mapped to the centre of a picture
  of 24 rows and 94 columns, and already the first one reads beyond the end of the input.
\<close>

theorem spatial_small_escapes:
  assumes "dims inp = [1, 1, H, W]" "length (data inp) = H * W" "1 \<le> H" "1 \<le> W" "H * W \<le> 1175"
    and "H < 2 ^ 20" "W < 2 ^ 20" and "data theta = replicate 6 (Fin 0)" and "length (data out) = H * W"
  shows "spatial_execute inp theta out = None"
proof -
  obtain og where og: "output_grid H W = Some og" "length og = 3 * (H * W)" "\<forall>i < H * W. og ! (3 * i) = grid_coord (i div W) H \<and>
      og ! (3 * i + 1) = grid_coord (i mod W) W \<and> og ! (3 * i + 2) = Fin 1"
    using output_grid_eq by blast
  let ?h = "\<lambda>k. Fin 0" and ?g0 = "replicate (H * W * 2) (Fin 0)"
  have area: "0 < H * W" using assms(3,4) by simp
  have fin: "is_fin (og ! (a * 3))" "is_fin (og ! (a * 3 + 1))" "is_fin (og ! (a * 3 + 2))" if "a < H * W" for a
  proof -
    have W: "a mod W < W" using assms(4) by simp
    have H: "a div W < H" using that by (simp add: less_mult_imp_div_less)
    show "is_fin (og ! (a * 3))" "is_fin (og ! (a * 3 + 1))" "is_fin (og ! (a * 3 + 2))"
      using og(3) [rule_format, OF that] grid_coord_bounded [OF H assms(6)] grid_coord_bounded [OF W assms(7)]
      by (simp_all add: mult.commute bounded_by_def)
  qed
  have "ok (matrixMult og (data theta) 0 ?g0 0 (H * W) 2 3 True) (writes {0..<0 + H * W * 2} ?h ?g0)"
  proof (rule matrixMult_writes [where L = "H * W * 2"])
    fix a q :: nat assume a: "a < H * W" and "q < 2"
    then have "data theta ! (0 + q * 3) = Fin 0" "data theta ! (0 + q * 3 + 1) = Fin 0" "data theta ! (0 + q * 3 + 2) = Fin 0"
      by (simp_all add: assms(8))
    then show "Fin 0 = dot3 og (a * 3) (data theta) (0 + q * 3)"
      unfolding dot3_def by (simp only: zero_sum fin [OF a])
  qed (use og(2) assms(8) in simp_all)
  then obtain g where g: "matrixMult og (data theta) 0 ?g0 0 (H * W) 2 3 True = Some g" "writes {0..<0 + H * W * 2} ?h ?g0 g"
    by (rule okE)
  have "length g = H * W * 2" using writes_length [OF g(2)] by simp
  moreover have one: "Suc 0 < H * W * 2" using area by linarith
  ultimately have p: "rd g 0 = Some (Fin 0)" "rd g (Suc 0) = Some (Fin 0)"
    using g(2) area one by (simp_all add: rd_Some writes_def)
  have c: "mulf (divf (addf (Fin 0) (Fin 1)) (Fin 2)) (i2f 24) = Fin 12" "mulf (divf (addf (Fin 0) (Fin 1)) (Fin 2)) (i2f 94) = Fin 47"
    by code_simp+
  have t: "to_int (ffloor (Fin 12)) = Some 12" "to_int (ffloor (Fin 47)) = Some 47" by code_simp+
  have "transform_forward_cpu (data inp) 0 (Fin 0) (Fin 0) = None"
    unfolding transform_forward_cpu_def Let_def c add_corner_def t using assms(2,5) by (simp add: rd_def)
  then have "loop 1 (\<lambda>j. loop H (\<lambda>s. loop W (\<lambda>t dst. do {
       px \<leftarrow> rd g (0 + (W * s + t) * 2);
       py \<leftarrow> rd g (0 + ((W * s + t) * 2 + 1));
       v \<leftarrow> transform_forward_cpu (data inp) (((0 * 1 + j) * H + 0) * W + 0) px py;
       wr dst (((0 * 1 + j) * H + s) * W + t) v }))) (data out) = None"
    using assms(3,4) p by (intro loop_first_None) simp_all
  then have "spatial_image (data inp) (data theta) og 1 H W 0 (?g0, data out) = None"
    using g(1) by (simp add: spatial_image_def Let_def)
  then show ?thesis using assms(1) og(1) by (simp add: spatial_execute_def rd_Some)
qed

text \<open>One pixel.\<close>

lemma spatial_small_escapes_witness:
  "spatial_execute \<lparr>dims = [1, 1, 1, 1], data = [Fin 1]\<rparr> \<lparr>dims = [1, 6], data = replicate 6 (Fin 0)\<rparr>
     \<lparr>dims = [1, 1, 1, 1], data = [Fin 0]\<rparr> = None"
  by (rule spatial_small_escapes [where H = 1 and W = 1]) simp_all

end
