(* ===== verification/Ext_List.thy ===== *)
theory Ext_List
  imports Detection_Output Proposal Simpler_Nms Arg_Max Ctc_Greedy Reorg_Yolo Region_Yolo Prior_Box Prior_Clustered
    Prelu Grn Mvn Normalize Interp Power_File Psroi Resample Spatial_Transformer
    "HOL-Library.Char_ord" "HOL-Library.List_Lexorder"
begin

text \<open>
  The extension as the engine sees it (\<open>extension/ext_list.cpp\<close>, \<open>ext_list.hpp\<close> and the factory
  of \<open>ext_base.hpp\<close>): the registry of layer types, filled by the static objects of the layer
  files before \<open>main\<close> runs, and the way from the type of a layer to its factory, its
  implementation and the configurations it offers.

  A \<open>std::map\<close> is the list of its entries in the order of the keys; \<open>std::string\<close> compares
  characters as unsigned numbers, which is the lexicographic order of the library. A factory
  function \<open>[](layer) { return new Ext(layer); }\<close> is the class \<open>Ext\<close> that it instantiates.
\<close>

section \<open>Maps with ordered keys\<close>

text \<open>What the registry relies on: \<open>find\<close> sees the last entry stored, iteration is in key order.\<close>

locale ordered_map =
  fixes inv :: "'m \<Rightarrow> bool" and empty :: 'm and store :: "'k::linorder \<Rightarrow> 'v \<Rightarrow> 'm \<Rightarrow> 'm"
    and find_entry :: "'m \<Rightarrow> 'k \<Rightarrow> 'v option" and entries :: "'m \<Rightarrow> ('k \<times> 'v) list"
  assumes inv_empty: "inv empty" and find_empty: "find_entry empty k = None"
    and inv_store: "inv m \<Longrightarrow> inv (store k v m)"
    and find_store: "inv m \<Longrightarrow> find_entry (store k v m) = (find_entry m)(k \<mapsto> v)"
    and sorted_keys: "inv m \<Longrightarrow> sorted (map fst (entries m)) \<and> distinct (map fst (entries m))"
    and keys_entries: "inv m \<Longrightarrow> set (map fst (entries m)) = dom (find_entry m)"
begin

definition store_all :: "('k \<times> 'v) list \<Rightarrow> 'm" where
  "store_all xs = foldl (\<lambda>m (k, v). store k v m) empty xs"

lemma store_all_snoc: "store_all (xs @ [(k, v)]) = store k v (store_all xs)"
  by (simp add: store_all_def)

lemma inv_store_all: "inv (store_all xs)"
proof (induction xs rule: rev_induct)
  case (snoc x xs)
  then show ?case by (cases x) (simp add: store_all_snoc inv_store)
qed (simp add: store_all_def inv_empty)

lemma find_store_all: "find_entry (store_all xs) = map_of (rev xs)"
proof (induction xs rule: rev_induct)
  case (snoc x xs)
  then show ?case by (cases x) (simp add: store_all_snoc find_store inv_store_all)
qed (simp add: store_all_def find_empty fun_eq_iff)

text \<open>Entries with different keys may be stored in any order.\<close>

lemma find_any_order:
  assumes "distinct (map fst ys)" "mset xs = mset ys"
  shows "find_entry (store_all xs) = map_of ys"
proof -
  have "mset (map fst xs) = mset (map fst ys)" using assms(2) by simp
  then have "distinct (map fst xs)" using assms(1) mset_eq_imp_distinct_iff by blast
  then have "distinct (map fst (rev xs))" by (simp flip: rev_map)
  moreover have "set (rev xs) = set ys" using mset_eq_setD [OF assms(2)] by simp
  ultimately have "map_of (rev xs) = map_of ys" using assms(1) map_of_inject_set by blast
  then show ?thesis by (simp add: find_store_all)
qed

lemma keys_any_order:
  assumes "distinct (map fst ys)" "mset xs = mset ys"
  shows "map fst (entries (store_all xs)) = sort (map fst ys)"
proof -
  let ?ks = "map fst (entries (store_all xs))"
  have "sorted ?ks" "distinct ?ks" using sorted_keys [OF inv_store_all] by simp_all
  moreover have "set ?ks = set (sort (map fst ys))"
    using keys_entries [OF inv_store_all] by (simp add: find_any_order [OF assms] dom_map_of_conv_image_fst)
  ultimately show ?thesis using sorted_distinct_set_unique assms(1) by (metis distinct_sort sorted_sort)
qed

end

text \<open>\<open>std::map\<close>: \<open>m[k] = v\<close> and \<open>m.find(k)\<close>.\<close>

fun map_store :: "'k::linorder \<Rightarrow> 'v \<Rightarrow> ('k \<times> 'v) list \<Rightarrow> ('k \<times> 'v) list" where
  "map_store k v [] = [(k, v)]"
| "map_store k v ((k', v') # m) =
     (if k < k' then (k, v) # (k', v') # m
      else if k = k' then (k, v) # m
      else (k', v') # map_store k v m)"

fun map_find :: "('k::linorder \<times> 'v) list \<Rightarrow> 'k \<Rightarrow> 'v option" where
  "map_find [] k = None"
| "map_find ((k', v') # m) k = (if k = k' then Some v' else if k < k' then None else map_find m k)"

abbreviation in_order :: "('k::linorder \<times> 'v) list \<Rightarrow> bool" where
  "in_order m \<equiv> sorted_wrt (<) (map fst m)"

lemma keys_map_store: "set (map fst (map_store k v m)) = insert k (set (map fst m))"
  by (induction k v m rule: map_store.induct) auto

lemma in_order_store: "in_order m \<Longrightarrow> in_order (map_store k v m)"
proof (induction k v m rule: map_store.induct)
  case (2 k v k' v' m)
  then show ?case using keys_map_store [of k v m] by (auto simp del: set_map)
qed simp

lemma map_find_below: "(\<And>x. x \<in> set (map fst m) \<Longrightarrow> k < x) \<Longrightarrow> map_find m k = None"
proof (cases m)
  case (Cons x m')
  assume "\<And>x. x \<in> set (map fst m) \<Longrightarrow> k < x"
  then have "k < fst x" using Cons by simp
  then show ?thesis using Cons by (cases x) auto
qed simp

lemma map_find_store: "in_order m \<Longrightarrow> map_find (map_store k v m) = (map_find m)(k \<mapsto> v)"
  by (induction k v m rule: map_store.induct) (auto simp: fun_eq_iff)

lemma dom_map_find: "in_order m \<Longrightarrow> dom (map_find m) = set (map fst m)"
proof (induction m)
  case (Cons x m)
  obtain k v where x: "x = (k, v)" by (cases x)
  have "map_find m y = None" if "y < k" for y
    by (rule map_find_below) (use Cons.prems that in \<open>auto simp: x\<close>)
  then have "map_find (x # m) y \<noteq> None \<longleftrightarrow> y = k \<or> map_find m y \<noteq> None" for y
    by (auto simp: x)
  then have "dom (map_find (x # m)) = insert k (dom (map_find m))" by (auto simp only: dom_def)
  then show ?case using Cons by (simp only: x) simp
qed (simp add: dom_def)

interpretation std_map: ordered_map in_order "[]" map_store map_find id
proof
  fix m :: "('a \<times> 'b) list" assume m: "in_order m"
  then show "sorted (map fst (id m)) \<and> distinct (map fst (id m))" by (simp add: strict_sorted_iff)
  show "set (map fst (id m)) = dom (map_find m)" using dom_map_find [OF m] by simp
qed (simp_all add: in_order_store map_find_store)

section \<open>The registry\<close>

datatype ext_class = ArgMaxImpl | CTCGreedyDecoderImpl | DetectionOutputImpl | GRNImpl | InterpImpl | MVNImpl
  | NormalizeFactory | PowerFileImpl | PReLUImpl | PriorBoxImpl | PriorBoxClusteredImpl | ProposalFactory
  | PSROIPoolingImpl | RegionYoloImpl | ReorgYoloImpl | ResampleImpl | SimplerNMSImpl | SpatialTransformerImpl

text \<open>\<open>localHolder\<close> is null until its first use.\<close>

type_synonym holder = "(string \<times> ext_class) list option"

definition GetExtensionsHolder :: "holder \<Rightarrow> (string \<times> ext_class) list" where
  "GetExtensionsHolder h = (case h of None \<Rightarrow> [] | Some m \<Rightarrow> m)"

definition AddExt :: "string \<Rightarrow> ext_class \<Rightarrow> holder \<Rightarrow> holder" where
  "AddExt name factory h = Some (map_store name factory (GetExtensionsHolder h))"

text \<open>The static objects \<open>__reg__\<close> of the layer files; the order of their initialisation is not specified.\<close>

definition registrations :: "(string \<times> ext_class) list" where
  "registrations = [
     (''ArgMax'', ArgMaxImpl), (''CTCGreedyDecoder'', CTCGreedyDecoderImpl), (''DetectionOutput'', DetectionOutputImpl),
     (''GRN'', GRNImpl), (''Interp'', InterpImpl), (''MVN'', MVNImpl), (''Normalize'', NormalizeFactory),
     (''PowerFile'', PowerFileImpl), (''PReLU'', PReLUImpl), (''PriorBox'', PriorBoxImpl),
     (''PriorBoxClustered'', PriorBoxClusteredImpl), (''Proposal'', ProposalFactory), (''PSROIPooling'', PSROIPoolingImpl),
     (''RegionYolo'', RegionYoloImpl), (''ReorgYolo'', ReorgYoloImpl), (''Resample'', ResampleImpl),
     (''SimplerNMS'', SimplerNMSImpl), (''SpatialTransformer'', SpatialTransformerImpl)]"

definition ExtRegisterBase :: "string \<times> ext_class \<Rightarrow> holder \<Rightarrow> holder" where
  "ExtRegisterBase r h = AddExt (fst r) (snd r) h"

definition static_init :: "(string \<times> ext_class) list \<Rightarrow> holder" where
  "static_init rs = fold ExtRegisterBase rs None"

text \<open>The answers are the status, the array of zero-terminated names, and the caller's \<open>size\<close>.\<close>

definition getPrimitiveTypes :: "holder \<Rightarrow> nat \<Rightarrow> status \<times> string list \<times> nat \<times> holder" where
  "getPrimitiveTypes h sz =
     (let factories = GetExtensionsHolder h in
      (OK, map (\<lambda>it. fst it @ [CHR 0x00]) factories, sz, Some factories))"

record factory =
  fclass :: ext_class
  cnnLayer :: cnn_layer

text \<open>Without a buffer for the message, \<open>resp->msg\<close> dereferences a null pointer.\<close>

definition getFactoryFor ::
    "holder \<Rightarrow> factory option \<Rightarrow> cnn_layer \<Rightarrow> string option \<Rightarrow> (status \<times> factory option \<times> string option \<times> holder) option" where
  "getFactoryFor h fac L resp =
     (let factories = GetExtensionsHolder h in
      case map_find factories (ltype L) of
        None \<Rightarrow> (case resp of None \<Rightarrow> None
          | Some buf \<Rightarrow> Some (NOT_FOUND, fac, Some (copy_msg buf (''Factory for '' @ ltype L @ '' wasn'' @ [CHR 0x27] @ ''t found!'')), Some factories))
      | Some c \<Rightarrow> Some (OK, Some \<lparr>fclass = c, cnnLayer = L\<rparr>, resp, Some factories))"

section \<open>Factories\<close>

text \<open>What the constructors depend on besides the layer: the engine, the vector build, and raw memory.\<close>

record ext_env =
  lib :: ie_lib
  vec :: vec_build
  name_of :: "cnn_layer \<Rightarrow> string"
  raw_float :: ieee
  raw_index :: nat

datatype layer_cfg = ArgMax_Cfg argmax_cfg | CTC_Cfg | Detection_Cfg "det_cfg \<times> det_mem" | GRN_Cfg ieee | Interp_Cfg interp_cfg
  | MVN_Cfg mvn_cfg | Normalize_Cfg norm_cfg | PowerFile_Cfg "int list" | PReLU_Cfg "ieee list" | PriorBox_Cfg prior_cfg
  | Clustered_Cfg clustered_cfg | Proposal_Cfg prop_cfg | PSROI_Cfg psroi_cfg | Region_Cfg region_cfg | Reorg_Cfg reorg_cfg
  | Resample_Cfg resample_cfg | SimplerNMS_Cfg snms_cfg | Spatial_Cfg

definition built :: "('c \<Rightarrow> layer_cfg) \<Rightarrow> exn + 'c \<times> layer_config list \<Rightarrow> exn + layer_cfg \<times> layer_config list" where
  "built f r = ebind r (\<lambda>(c, cs). Inr (f c, cs))"

definition new_impl :: "ext_env \<Rightarrow> ext_class \<Rightarrow> cnn_layer \<Rightarrow> exn + layer_cfg \<times> layer_config list" where
  "new_impl e c L = (case c of
       ArgMaxImpl \<Rightarrow> built ArgMax_Cfg (argmax_ctor (lib e) L)
     | CTCGreedyDecoderImpl \<Rightarrow> ebind (ctc_ctor (lib e) L) (\<lambda>cs. Inr (CTC_Cfg, cs))
     | DetectionOutputImpl \<Rightarrow> built Detection_Cfg (det_ctor (lib e) L (raw_float e) (raw_index e))
     | GRNImpl \<Rightarrow> built GRN_Cfg (grn_ctor (lib e) L)
     | InterpImpl \<Rightarrow> built Interp_Cfg (interp_ctor (lib e) (vec e) L)
     | MVNImpl \<Rightarrow> built MVN_Cfg (mvn_ctor (lib e) L)
     | NormalizeFactory \<Rightarrow> built Normalize_Cfg (norm_ctor (lib e) (name_of e L) L)
     | PowerFileImpl \<Rightarrow> built PowerFile_Cfg (power_ctor (lib e) L)
     | PReLUImpl \<Rightarrow> built PReLU_Cfg (prelu_ctor (lib e) (vec e) (name_of e L) L)
     | PriorBoxImpl \<Rightarrow> built PriorBox_Cfg (prior_ctor (lib e) L)
     | PriorBoxClusteredImpl \<Rightarrow> built Clustered_Cfg (clustered_ctor (lib e) L)
     | ProposalFactory \<Rightarrow> built Proposal_Cfg (prop_ctor (lib e) L)
     | PSROIPoolingImpl \<Rightarrow> built PSROI_Cfg (psroi_ctor (lib e) L)
     | RegionYoloImpl \<Rightarrow> built Region_Cfg (region_ctor (lib e) L)
     | ReorgYoloImpl \<Rightarrow> built Reorg_Cfg (reorg_ctor (lib e) L)
     | ResampleImpl \<Rightarrow> built Resample_Cfg (resample_ctor (lib e) L)
     | SimplerNMSImpl \<Rightarrow> built SimplerNMS_Cfg (snms_ctor (lib e) L)
     | SpatialTransformerImpl \<Rightarrow> ebind (spatial_ctor (lib e) L) (\<lambda>cs. Inr (Spatial_Cfg, cs)))"

type_synonym impl = "layer_cfg option \<times> ext_layer"

definition getImplementations :: "ext_env \<Rightarrow> factory \<Rightarrow> impl list \<Rightarrow> (status \<times> impl list) option" where
  "getImplementations e f impls = map_option (\<lambda>i. (OK, impls @ [i])) (construct (new_impl e (fclass f) (cnnLayer f)))"

text \<open>A tensor description is the precision, the dimensions and the layout.\<close>

definition getShapes ::
    "'p \<Rightarrow> factory \<Rightarrow> ('p \<times> nat list \<times> 'l) list \<Rightarrow> ('p \<times> nat list \<times> 'l) list \<Rightarrow> string option
     \<Rightarrow> (status \<times> ('p \<times> nat list \<times> 'l) list \<times> string option) option" where
  "getShapes layer_precision f inShapes outShapes resp = (case fclass f of
       ProposalFactory \<Rightarrow> Some (prop_getShapes layer_precision inShapes outShapes resp)
     | NormalizeFactory \<Rightarrow> do {
         s \<leftarrow> rd inShapes 0;
         Some (OK, outShapes @ [s], resp) }
     | _ \<Rightarrow> Some (NOT_IMPLEMENTED, outShapes, resp))"

section \<open>The registry after initialisation\<close>

lemma static_init_eq: "rs \<noteq> [] \<Longrightarrow> static_init rs = Some (std_map.store_all rs)"
proof -
  have step: "fold ExtRegisterBase rs (Some m) = Some (foldl (\<lambda>m (k, v). map_store k v m) m rs)" for m rs
    by (induction rs arbitrary: m) (simp_all add: ExtRegisterBase_def AddExt_def GetExtensionsHolder_def split_beta)
  assume "rs \<noteq> []"
  then obtain r rs' where rs: "rs = r # rs'" by (cases rs) auto
  show ?thesis
    using step [of rs' "map_store (fst r) (snd r) []"]
    by (simp add: rs static_init_def std_map.store_all_def ExtRegisterBase_def AddExt_def GetExtensionsHolder_def split_beta)
qed

lemma registrations_distinct: "distinct (map fst registrations)"
  by (simp add: registrations_def)

lemma registrations_nonempty: "registrations \<noteq> []"
  by (simp add: registrations_def)

lemma registry_lookup:
  assumes "mset rs = mset registrations"
  shows "static_init rs = Some (std_map.store_all rs)"
    and "map_find (std_map.store_all rs) = map_of registrations"
    and "map fst (std_map.store_all rs) = sort (map fst registrations)"
proof -
  have "rs \<noteq> []" using assms registrations_nonempty by auto
  then show "static_init rs = Some (std_map.store_all rs)" by (rule static_init_eq)
  show "map_find (std_map.store_all rs) = map_of registrations"
    by (rule std_map.find_any_order [OF registrations_distinct assms])
  show "map fst (std_map.store_all rs) = sort (map fst registrations)"
    using std_map.keys_any_order [OF registrations_distinct assms] by simp
qed

text \<open>
  The registry does not depend on the order in which the static objects of the layer files
  are initialised. In every order, the engine is given the 18 type names in ascending order,
  each closed by a zero byte, and a layer gets the factory of the class registered for its
  type, or \<open>NOT_FOUND\<close> and the message. The number of names is never reported: \<open>size\<close> keeps the
  value that the caller passed.
\<close>

theorem registry_any_order:
  assumes "mset rs = mset registrations"
  shows "fst (getPrimitiveTypes (static_init rs) sz) = OK \<and>
    fst (snd (getPrimitiveTypes (static_init rs) sz)) = map (\<lambda>n. n @ [CHR 0x00]) (sort (map fst registrations)) \<and>
    fst (snd (snd (getPrimitiveTypes (static_init rs) sz))) = sz \<and>
    getFactoryFor (static_init rs) fac L (Some buf) = (case map_of registrations (ltype L) of
        Some c \<Rightarrow> Some (OK, Some \<lparr>fclass = c, cnnLayer = L\<rparr>, Some buf, static_init rs)
      | None \<Rightarrow> Some (NOT_FOUND, fac, Some (copy_msg buf (''Factory for '' @ ltype L @ '' wasn'' @ [CHR 0x27] @ ''t found!'')),
          static_init rs))"
proof -
  have names: "map (\<lambda>it. fst it @ [CHR 0x00]) m = map (\<lambda>n. n @ [CHR 0x00]) (map fst m)" for m :: "(string \<times> ext_class) list"
    by simp
  show ?thesis
    unfolding getPrimitiveTypes_def getFactoryFor_def GetExtensionsHolder_def registry_lookup(1) [OF assms] option.case Let_def names
      registry_lookup(2,3) [OF assms] fst_conv snd_conv
    by (simp split: option.split)
qed

text \<open>The static objects in reverse order.\<close>

lemma registry_any_order_witness:
  "getFactoryFor (static_init (rev registrations)) None one_edge (Some []) =
     Some (OK, Some \<lparr>fclass = PReLUImpl, cnnLayer = one_edge\<rparr>, Some [], static_init (rev registrations)) \<and>
   fst (snd (snd (getPrimitiveTypes (static_init (rev registrations)) 5))) = 5"
  using registry_any_order [of "rev registrations" 5 None one_edge "[]"]
  by (simp add: registrations_def one_edge_def)


section \<open>From the factory to a configuration\<close>

text \<open>
  The engine describes a tensor of blocks without padding, and one of any layout by offsets of
  zero and an identity order (or none).
\<close>

definition offers_plain :: "ie_lib \<Rightarrow> bool" where
  "offers_plain l \<longleftrightarrow> plain_lib l \<and>
     (\<forall>d. offset_padding (any_blocking l d) = 0 \<and> (\<forall>x \<in> set (offset_to_data (any_blocking l d)). x = 0) \<and>
        (\<forall>i < length (order (any_blocking l d)). order (any_blocking l d) ! i = i))"

lemma fill_port_unblocked:
  assumes "offers_plain l" "dc_layout conf = PLN \<or> dc_layout conf = ANY" "list_all port_ok port"
    and "fill_port l port conf dat = Inr port'"
  shows "list_all port_ok port'"
  using assms
  by (auto simp: fill_port_def Let_def offers_plain_def plain_lib_def port_ok_def list_ex_iff list_all_iff
      split: option.splits)

lemma fill_ports_unblocked:
  "offers_plain l \<Longrightarrow> \<forall>x \<in> set xs. dc_layout (fst x) = PLN \<or> dc_layout (fst x) = ANY \<Longrightarrow> list_all port_ok port \<Longrightarrow>
   fill_ports l port xs = Inr port' \<Longrightarrow> list_all port_ok port'"
proof (induction xs arbitrary: port)
  case (Cons x xs)
  then obtain p1 where "fill_port l port (fst x) (snd x) = Inr p1" "fill_ports l p1 xs = Inr port'"
    by (auto simp: ebind_eq_Inr)
  then show ?case
    using Cons.prems Cons.IH [of p1] fill_port_unblocked [of l "fst x" port "snd x" p1] by auto
qed simp

text \<open>What a constructor that returns has done with the layouts.\<close>

definition accepted :: "layer_config list \<Rightarrow> bool" where
  "accepted cs \<longleftrightarrow> (\<exists>config. cs = [config] \<and> init config = OK)"

lemma addConfig_accepted:
  assumes "addConfig l L [] in_l out_l dyn = Inr cs" "offers_plain l"
    and "\<forall>d \<in> set in_l \<union> set out_l. dc_layout d = PLN \<or> dc_layout d = ANY"
  shows "accepted cs"
proof -
  obtain ins outs where c: "cs = [\<lparr>inConfs = ins, outConfs = outs, dynBatchSupport = dyn\<rparr>]"
    and ports: "fill_ports l [] (zip in_l (insData L)) = Inr ins" "fill_ports l [] (zip out_l (outData L)) = Inr outs"
    using addConfig_Inr [OF assms(1)] by auto
  have "list_all port_ok ins" "list_all port_ok outs"
    using assms(2,3) by (auto intro!: fill_ports_unblocked [OF _ _ _ ports(1)] fill_ports_unblocked [OF _ _ _ ports(2)]
        dest: set_zip_leftD)
  then show ?thesis by (simp add: accepted_def c init_def)
qed

lemma built_Inr: "built f r = Inr (c, cs) \<Longrightarrow> \<exists>c'. r = Inr (c', cs)"
  by (auto simp: built_def ebind_eq_Inr)

lemma unblocked_ctors:
  assumes l: "offers_plain l"
  shows "argmax_ctor l L = Inr (c1, cs) \<Longrightarrow> accepted cs" "ctc_ctor l L = Inr cs \<Longrightarrow> accepted cs"
    "det_ctor l L g gi = Inr (c2, cs) \<Longrightarrow> accepted cs" "grn_ctor l L = Inr (c3, cs) \<Longrightarrow> accepted cs"
    "mvn_ctor l L = Inr (c4, cs) \<Longrightarrow> accepted cs" "norm_ctor l nm L = Inr (c5, cs) \<Longrightarrow> accepted cs"
    "power_ctor l L = Inr (c6, cs) \<Longrightarrow> accepted cs" "prior_ctor l L = Inr (c7, cs) \<Longrightarrow> accepted cs"
    "clustered_ctor l L = Inr (c8, cs) \<Longrightarrow> accepted cs" "prop_ctor l L = Inr (c9, cs) \<Longrightarrow> accepted cs"
    "psroi_ctor l L = Inr (c10, cs) \<Longrightarrow> accepted cs" "region_ctor l L = Inr (c11, cs) \<Longrightarrow> accepted cs"
    "reorg_ctor l L = Inr (c12, cs) \<Longrightarrow> accepted cs" "resample_ctor l L = Inr (c13, cs) \<Longrightarrow> accepted cs"
    "snms_ctor l L = Inr (c14, cs) \<Longrightarrow> accepted cs" "spatial_ctor l L = Inr cs \<Longrightarrow> accepted cs"
  by (auto simp: argmax_ctor_def ctc_ctor_def det_ctor_def grn_ctor_def mvn_ctor_def norm_ctor_def power_ctor_def prior_ctor_def
      clustered_ctor_def prop_ctor_def psroi_ctor_def region_ctor_def reorg_ctor_def resample_ctor_def snms_ctor_def spatial_ctor_def
      ebind_eq_Inr Let_def conf1_def conf3_def elim!: addConfig_accepted [OF _ l] split: if_splits)

text \<open>A failing constructor leaves a message, which is how the object knows of the failure.\<close>

definition says :: "exn + 'a \<Rightarrow> bool" where
  "says r \<longleftrightarrow> r \<noteq> Inl (IeException [])"

lemma says_Inr [simp]: "says (Inr x)" and says_undef [simp]: "says (Inl Undefined)"
  and says_std [simp]: "says (Inl (StdException m))" and says_throw [simp]: "says (Inl (IeException m)) \<longleftrightarrow> m \<noteq> []"
  by (simp_all add: says_def)

lemma says_ebind: "says m \<Longrightarrow> (\<And>x. says (f x)) \<Longrightarrow> says (ebind m f)"
  by (cases m) (auto simp: says_def)

lemma says_steps [simp]:
  "says (deref p)" "says (get_param q)" "says (get_param_def q d)" "msg \<noteq> [] \<Longrightarrow> says (throw_if b msg)"
  by (auto simp: deref_def get_param_def get_param_def_def throw_if_def split: option.split param.split)

lemma says_fill: "says (fill_ports l port xs)"
proof (induction xs arbitrary: port)
  case (Cons x xs)
  have "says (fill_port l port (fst x) (snd x))" by (simp add: fill_port_def Let_def split: option.split)
  then show ?case using Cons.IH by (simp add: says_ebind)
qed simp

lemma says_addConfig [simp]: "says (addConfig l L cs in_l out_l dyn)"
  unfolding addConfig_def by (intro says_ebind) (simp_all add: says_fill edge_msg_def)

lemma says_ctor_steps [simp]: "says (check_variance vs)" "says (stoi s)" "says (dim_at ds i)"
  by (simp_all add: check_variance_def stoi_def dim_at_def Let_def split: option.split)

lemma says_ctors:
  "says (argmax_ctor l L)" "says (ctc_ctor l L)" "says (det_ctor l L g gi)" "says (grn_ctor l L)" "says (interp_ctor l b L)"
  "says (mvn_ctor l L)" "says (norm_ctor l nm L)" "says (power_ctor l L)" "says (prelu_ctor l b nm L)" "says (prior_ctor l L)"
  "says (clustered_ctor l L)" "says (prop_ctor l L)" "says (psroi_ctor l L)" "says (region_ctor l L)" "says (reorg_ctor l L)"
  "says (resample_ctor l L)" "says (snms_ctor l L)" "says (spatial_ctor l L)"
  unfolding argmax_ctor_def ctc_ctor_def det_ctor_def grn_ctor_def interp_ctor_def mvn_ctor_def norm_ctor_def power_ctor_def
    prelu_ctor_def prior_ctor_def clustered_ctor_def prop_ctor_def psroi_ctor_def region_ctor_def reorg_ctor_def resample_ctor_def
    snms_ctor_def spatial_ctor_def cfg_of_params_def Let_def
  by (auto intro!: says_ebind split: option.split)

lemma new_impl_says: "says (new_impl e c L)"
  unfolding new_impl_def built_def by (cases c) (auto intro!: says_ebind simp: says_ctors)

lemma new_impl_accepted:
  assumes "offers_plain (lib e)" "c \<notin> {InterpImpl, PReLUImpl}" "new_impl e c L = Inr (cfg, cs)"
  shows "accepted cs"
  using assms unfolding new_impl_def
  by (cases c) (auto dest!: built_Inr dest: unblocked_ctors [OF assms(1)] simp: ebind_eq_Inr)

text \<open>
  The engine's way to a layer: the factory, its implementation, and what that one offers. The
  result is the fields (or None), the status, the configurations and the message.
\<close>

definition offer ::
    "ext_env \<Rightarrow> holder \<Rightarrow> cnn_layer \<Rightarrow> string \<Rightarrow> (layer_cfg option \<times> status \<times> layer_config list \<times> string option) option" where
  "offer e h L buf = do {
     (s, f, msg, h) \<leftarrow> getFactoryFor h None L (Some buf);
     f \<leftarrow> f;
     (s, impls) \<leftarrow> getImplementations e f [];
     (c, impl) \<leftarrow> rd impls 0;
     Some (c, getSupportedConfigurations impl [] msg) }"

lemma offer_eq:
  assumes "mset rs = mset registrations" "map_of registrations (ltype L) = Some cls"
  shows "offer e (static_init rs) L buf = (case new_impl e cls L of
      Inr (c, cs) \<Rightarrow> Some (Some c, OK, cs, Some buf)
    | Inl (IeException m) \<Rightarrow> Some (None, GENERAL_ERROR, [], Some (copy_msg buf m))
    | Inl _ \<Rightarrow> None)"
proof -
  have "getFactoryFor (static_init rs) None L (Some buf) =
      Some (OK, Some \<lparr>fclass = cls, cnnLayer = L\<rparr>, Some buf, static_init rs)"
    by (simp add: getFactoryFor_def GetExtensionsHolder_def registry_lookup [OF assms(1)] assms(2))
  then show ?thesis
    using new_impl_says [of e cls L]
    by (auto simp: offer_def getImplementations_def construct_def getSupportedConfigurations_def says_def rd_def
      split: sum.split exn.split)
qed

text \<open>The two layers whose tensors are blocked by channels.\<close>

definition blocked :: "ext_class \<Rightarrow> cnn_layer \<Rightarrow> bool" where
  "blocked cls L \<longleftrightarrow> cls = InterpImpl \<or> cls = PReLUImpl \<and> (\<exists>d. insData L ! 0 = Some d \<and> length d = 4)"

lemma interp_blocked:
  "interp_ctor l b L = Inr (c, cs) \<Longrightarrow>
   \<exists>lay. (dc_layout lay = BLK8 \<or> dc_layout lay = BLK16) \<and> addConfig l L [] [lay] [lay] False = Inr cs"
  by (rule exI [where x = "conf1 (if b = P_AVX512 then BLK16 else BLK8)"])
    (auto simp: interp_ctor_def ebind_eq_Inr conf1_def Let_def)

lemma prelu_blocked:
  "prelu_ctor l b nm L = Inr (c, cs) \<Longrightarrow> insData L ! 0 = Some d \<Longrightarrow> length d = 4 \<Longrightarrow>
   \<exists>lay. (dc_layout lay = BLK8 \<or> dc_layout lay = BLK16) \<and> addConfig l L [] [lay] [lay] False = Inr cs"
  by (rule exI [where x = "conf3 (if b = P_AVX512 then BLK16 else BLK8) False 0"])
    (auto simp: prelu_ctor_def ebind_eq_Inr conf3_def Let_def)

lemma prelu_planar:
  assumes "offers_plain l" "prelu_ctor l b nm L = Inr (c, cs)" "\<not> (\<exists>d. insData L ! 0 = Some d \<and> length d = 4)"
  shows "accepted cs"
proof -
  have "addConfig l L [] [conf3 PLN False 0] [conf3 PLN False 0] False = Inr cs"
    using assms(2,3) by (auto simp: prelu_ctor_def ebind_eq_Inr deref_def Let_def split: option.splits if_splits)
  then show ?thesis by (rule addConfig_accepted [OF _ assms(1)]) (simp add: conf3_def)
qed

lemma new_impl_unblocked:
  assumes "offers_plain (lib e)" "\<not> blocked cls L" "new_impl e cls L = Inr (cfg, cs)"
  shows "accepted cs"
proof (cases "cls = PReLUImpl")
  case True
  then obtain c where "prelu_ctor (lib e) (vec e) (name_of e L) L = Inr (c, cs)" using assms(3) by (auto simp: new_impl_def dest: built_Inr)
  then show ?thesis using prelu_planar [OF assms(1)] assms(2) True by (auto simp: blocked_def)
next
  case False
  then show ?thesis using new_impl_accepted [OF assms(1) _ assms(3)] assms(2) by (auto simp: blocked_def)
qed

lemma new_impl_rejected:
  assumes "plain_lib (lib e)" "blocked cls L" "new_impl e cls L = Inr (cfg, cs)"
  shows "\<exists>config. cs = [config] \<and> init config = GENERAL_ERROR"
proof -
  obtain lay where lay: "dc_layout lay = BLK8 \<or> dc_layout lay = BLK16"
    and a: "addConfig (lib e) L [] [lay] [lay] False = Inr cs"
    using assms(2) unfolding blocked_def
  proof (elim disjE conjE exE)
    assume "cls = InterpImpl"
    then obtain c where "interp_ctor (lib e) (vec e) L = Inr (c, cs)" using assms(3) by (auto simp: new_impl_def dest: built_Inr)
    then show thesis using interp_blocked that by blast
  next
    fix d assume "cls = PReLUImpl" and d: "insData L ! 0 = Some d" "length d = 4"
    then obtain c where "prelu_ctor (lib e) (vec e) (name_of e L) L = Inr (c, cs)" using assms(3) by (auto simp: new_impl_def dest: built_Inr)
    then show thesis using prelu_blocked d that by blast
  qed
  show ?thesis using blocked_config_rejected [OF assms(1) a] lay by auto
qed

text \<open>
  C22: From the network to a usable layer. Whatever the order in which the layer files were
  initialised, for a layer of every registered type the engine's way through factory,
  implementation and configurations ends as its constructor does. When the object is built, it offers
  its configurations with the status \<open>OK\<close>: exactly one, which its own \<open>init\<close> rejects for \<open>Interp\<close> and for
  \<open>PReLU\<close> on tensors of four dimensions, and accepts in all other cases. When the constructor threw an exception of the engine, the answer is
  \<open>GENERAL_ERROR\<close> with its message, which is not empty, and no configuration. Any other exception, and
  a missing input or dimension that the constructor does not check, ends the program
  in the factory, which is \<open>noexcept\<close>.
\<close>

theorem extension_offers:
  assumes "mset rs = mset registrations" "map_of registrations (ltype L) = Some cls" "offers_plain (lib e)"
  shows "case new_impl e cls L of
      Inr (cfg, cs) \<Rightarrow> offer e (static_init rs) L buf = Some (Some cfg, OK, cs, Some buf) \<and>
        (if blocked cls L then \<exists>config. cs = [config] \<and> init config = GENERAL_ERROR else accepted cs)
    | Inl (IeException m) \<Rightarrow> m \<noteq> [] \<and> offer e (static_init rs) L buf = Some (None, GENERAL_ERROR, [], Some (copy_msg buf m))
    | Inl (StdException m) \<Rightarrow> offer e (static_init rs) L buf = None
    | Inl Undefined \<Rightarrow> offer e (static_init rs) L buf = None"
proof -
  have "plain_lib (lib e)" using assms(3) by (simp add: offers_plain_def)
  then show ?thesis
    using new_impl_unblocked [OF assms(3)] new_impl_rejected new_impl_says [of e cls L]
    by (auto simp: offer_eq [OF assms(1,2)] split: sum.splits exn.splits)
qed

text \<open>The \<open>PowerFile\<close> layer of the network, with the files initialised in reverse order.\<close>

definition demo_env :: ext_env where
  "demo_env = \<lparr>lib = ref_lib, vec = P_AVX2, name_of = ltype, raw_float = NaN, raw_index = 0\<rparr>"

lemma offers_ref_lib: "offers_plain ref_lib"
  by (simp add: offers_plain_def plain_ref_lib) (simp add: ref_lib_def)

text \<open>
  A \<open>PowerFile\<close> layer, a \<open>PReLU\<close> layer on four dimensions, one without weights, and an \<open>ArgMax\<close> layer whose
  axis is not a number.
\<close>

lemma extension_offers_witness:
  "(\<exists>cs. offer demo_env (static_init (rev registrations)) (one_edge\<lparr>ltype := ''PowerFile''\<rparr>) [] =
      Some (Some (PowerFile_Cfg [1, 0, 0, 0, 1, 0]), OK, cs, Some []) \<and> accepted cs) \<and>
   (\<exists>config. offer demo_env (static_init (rev registrations)) (one_edge\<lparr>weights_blob := Some [Fin 1]\<rparr>) [] =
      Some (Some (PReLU_Cfg [Fin 1]), OK, [config], Some []) \<and> init config = GENERAL_ERROR) \<and>
   (\<exists>msg. offer demo_env (static_init (rev registrations)) one_edge [] = Some (None, GENERAL_ERROR, [], Some msg)) \<and>
   offer demo_env (static_init (rev registrations)) (one_edge\<lparr>ltype := ''ArgMax'', p_int := \<lambda>_. Given 1, p_raw := \<lambda>_. Some ''x''\<rparr>) [] = None"
proof (intro conjI)
  let ?L = "one_edge\<lparr>ltype := ''PowerFile''\<rparr>"
  have r: "mset (rev registrations) = mset registrations" by simp
  have l: "offers_plain (lib demo_env)" using offers_ref_lib by (simp add: demo_env_def)
  note way = extension_offers [OF r _ l]
  obtain cs where n: "new_impl demo_env PowerFileImpl ?L = Inr (PowerFile_Cfg [1, 0, 0, 0, 1, 0], cs)"
    by (simp add: new_impl_def built_def demo_env_def power_ctor_def one_edge_def addConfig_def fill_port_def conf1_def Let_def)
  then show "\<exists>cs. offer demo_env (static_init (rev registrations)) ?L [] =
      Some (Some (PowerFile_Cfg [1, 0, 0, 0, 1, 0]), OK, cs, Some []) \<and> accepted cs"
    using way [of ?L PowerFileImpl "[]"] by (simp add: registrations_def blocked_def)
  let ?P = "one_edge\<lparr>weights_blob := Some [Fin 1]\<rparr>"
  obtain cs where n: "new_impl demo_env PReLUImpl ?P = Inr (PReLU_Cfg [Fin 1], cs)"
    by (simp add: new_impl_def built_def demo_env_def prelu_ctor_def one_edge_def addConfig_def fill_port_def conf3_def Let_def)
  moreover have "blocked PReLUImpl ?P" by (simp add: blocked_def one_edge_def)
  ultimately show "\<exists>config. offer demo_env (static_init (rev registrations)) ?P [] =
      Some (Some (PReLU_Cfg [Fin 1]), OK, [config], Some []) \<and> init config = GENERAL_ERROR"
    using way [of ?P PReLUImpl "[]"] by (auto simp: registrations_def one_edge_def)
  obtain m where "new_impl demo_env PReLUImpl one_edge = Inl (IeException m)"
    by (simp add: new_impl_def built_def demo_env_def prelu_ctor_def one_edge_def addConfig_def fill_port_def conf3_def Let_def)
  then show "\<exists>msg. offer demo_env (static_init (rev registrations)) one_edge [] = Some (None, GENERAL_ERROR, [], Some msg)"
    using way [of one_edge PReLUImpl "[]"] by (auto simp: registrations_def one_edge_def)
  let ?A = "one_edge\<lparr>ltype := ''ArgMax'', p_int := \<lambda>_. Given 1, p_raw := \<lambda>_. Some ''x''\<rparr>"
  have "stoi ''x'' = Inl (StdException ''stoi'')" by code_simp
  then have "new_impl demo_env ArgMaxImpl ?A = Inl (StdException ''stoi'')"
    by (simp add: new_impl_def built_def demo_env_def argmax_ctor_def one_edge_def)
  then show "offer demo_env (static_init (rev registrations)) ?A [] = None"
    using way [of ?A ArgMaxImpl "[]"] by (simp add: registrations_def)
qed

end
