(* ===== verification/Frame_Copy.thy ===== *)
theory Frame_Copy
  imports Frame_Alloc Detector Writes
begin

text \<open>
  How decoded pictures reach the detector (\<open>video_analytics_example/main.cpp\<close>): the decode
  thread copies the planes of a locked surface into a buffer of the pipe, and the scheduler
  builds a \<open>cv::Mat\<close> from that buffer (\<open>createMat\<close>). \<open>WriteRawFrameToMemory\<close> copies a surface
  for the display of the tracker, and \<open>vsource_frame_init\<close> lays out a buffer of the pipe.

  The mapped memory of a surface is a function from addresses to the bytes there, None where
  nothing is mapped; the pointers of a surface are those that \<open>simple_lock\<close> stores. In the
  structure of the Media SDK, \<open>R\<close>, \<open>G\<close>, \<open>B\<close> share their places with \<open>Y\<close>, \<open>U\<close>, \<open>V\<close>, and \<open>UV\<close> with
  \<open>U\<close>; \<open>Frame_Alloc\<close> names them \<open>Y\<close>, \<open>U\<close>, \<open>V\<close>. The default build is modelled, without the GPU tracker.
\<close>

section \<open>Copies\<close>

record frame_info =
  Width :: nat
  Height :: nat
  CropX :: nat
  CropY :: nat
  CropW :: nat
  CropH :: nat

type_synonym 'b memory = "nat \<Rightarrow> 'b option"

definition memcpy :: "'b memory \<Rightarrow> nat \<Rightarrow> nat \<Rightarrow> nat \<Rightarrow> 'b list \<Rightarrow> 'b list option" where
  "memcpy mem p src n dest = loop n (\<lambda>k dest. do {
     v \<leftarrow> mem (src + k);
     wr dest (p + k) v }) dest"

definition crop_size :: "frame_info \<Rightarrow> nat \<times> nat" where
  "crop_size pInfo = (if CropH pInfo > 0 \<and> CropW pInfo > 0 then (CropW pInfo, CropH pInfo) else (Width pInfo, Height pInfo))"

text \<open>The copy in the decode thread; the first loop counts to the width.\<close>

definition copy_frame :: "frame_info \<Rightarrow> frame_data \<Rightarrow> 'b memory \<Rightarrow> 'b list \<Rightarrow> 'b list option" where
  "copy_frame pInfo pData mem imgbuf =
     (let (w, h) = crop_size pInfo; off = CropX pInfo + CropY pInfo * Pitch pData in do {
        imgbuf \<leftarrow> loop w (\<lambda>i. memcpy mem (0 + i * w) (V pData + off + i * Pitch pData) w) imgbuf;
        imgbuf \<leftarrow> loop h (\<lambda>i. memcpy mem (w * h + i * w) (U pData + off + i * Pitch pData) w) imgbuf;
        loop h (\<lambda>i. memcpy mem (2 * w * h + i * w) (Y pData + off + i * Pitch pData) w) imgbuf })"

definition write_rgbp :: "frame_info \<Rightarrow> frame_data \<Rightarrow> 'b memory \<Rightarrow> nat \<Rightarrow> nat \<Rightarrow> 'b list \<Rightarrow> 'b list option" where
  "write_rgbp pInfo pData mem dest_w dest_h dest =
     (let off = CropX pInfo + CropY pInfo * Pitch pData in do {
        dest \<leftarrow> loop dest_h (\<lambda>i. memcpy mem (i * dest_w) (V pData + off + i * Pitch pData) dest_w) dest;
        dest \<leftarrow> loop dest_h (\<lambda>i. memcpy mem (dest_w * dest_h + i * dest_w) (U pData + off + i * Pitch pData) dest_w) dest;
        loop dest_h (\<lambda>i. memcpy mem (2 * dest_w * dest_h + i * dest_w) (Y pData + off + i * Pitch pData) dest_w) dest })"

definition write_rgb4 :: "frame_info \<Rightarrow> frame_data \<Rightarrow> 'b memory \<Rightarrow> nat \<Rightarrow> nat \<Rightarrow> 'b list \<Rightarrow> 'b list option" where
  "write_rgb4 pInfo pData mem dest_w dest_h dest =
     (let ptr = min (min (Y pData) (U pData)) (V pData) + CropX pInfo + CropY pInfo * Pitch pData in
      loop dest_h (\<lambda>i. memcpy mem (i * dest_w * 4) (ptr + i * Pitch pData) (dest_w * 4)) dest)"

text \<open>Every second byte of a row from column \<open>j0\<close> on; the position in \<open>dest\<close> runs on.\<close>

definition pick_row :: "'b memory \<Rightarrow> nat \<Rightarrow> nat \<Rightarrow> nat \<Rightarrow> nat \<times> 'b list \<Rightarrow> (nat \<times> 'b list) option" where
  "pick_row mem src w j0 = loop ((w - j0 + 1) div 2) (\<lambda>k (ipos, dest). do {
     dest \<leftarrow> memcpy mem ipos (src + (j0 + 2 * k)) 1 dest;
     Some (ipos + 1, dest) })"

definition write_nv12 :: "frame_info \<Rightarrow> frame_data \<Rightarrow> 'b memory \<Rightarrow> 'b list \<Rightarrow> 'b list option" where
  "write_nv12 pInfo pData mem dest =
     (let iYsize = CropH pInfo * CropW pInfo; h = CropH pInfo div 2; w = CropW pInfo;
          uv = U pData + (CropY pInfo * Pitch pData div 2 + CropX pInfo) in do {
        dest \<leftarrow> loop (CropH pInfo) (\<lambda>i. memcpy mem (i * CropW pInfo)
          (Y pData + (CropY pInfo * Pitch pData + CropX pInfo) + i * Pitch pData) (CropW pInfo)) dest;
        (ipos, dest) \<leftarrow> loop h (\<lambda>i. pick_row mem (uv + i * Pitch pData) w 0) (iYsize, dest);
        (ipos, dest) \<leftarrow> loop h (\<lambda>i. pick_row mem (uv + i * Pitch pData) w 1) (ipos, dest);
        Some dest })"

definition WriteRawFrameToMemory ::
    "frame_info \<Rightarrow> frame_data \<Rightarrow> 'b memory \<Rightarrow> nat \<Rightarrow> nat \<Rightarrow> 'b list \<Rightarrow> mfx_fourcc \<Rightarrow> (mfx_status \<times> 'b list) option" where
  "WriteRawFrameToMemory pInfo pData mem dest_w dest_h dest fourCC = map_option (\<lambda>d. (MFX_ERR_NONE, d))
     (if fourCC = FOURCC_RGBP then write_rgbp pInfo pData mem dest_w dest_h dest
      else if fourCC = FOURCC_RGB4 then write_rgb4 pInfo pData mem dest_w dest_h dest
      else if fourCC = FOURCC_NV12 then write_nv12 pInfo pData mem dest
      else Some dest)"

text \<open>\<open>merge\<close> copies the three planes, the last one first.\<close>

definition createMat :: "'b list \<Rightarrow> nat \<Rightarrow> nat \<Rightarrow> 'b list mat option" where
  "createMat rawData dimX dimY = do {
     channelR \<leftarrow> loadu (dimX * dimY) rawData 0;
     channelG \<leftarrow> loadu (dimX * dimY) rawData (dimX * dimY);
     channelB \<leftarrow> loadu (dimX * dimY) rawData (2 * dimX * dimY);
     Some \<lparr>msize = (int dimX, int dimY), planes = [channelB, channelG, channelR]\<rparr> }"

section \<open>The buffers of the pipe\<close>

text \<open>The distance to the next address that \<open>alignto\<close> divides; a power of two.\<close>

definition alignment :: "nat \<Rightarrow> nat \<Rightarrow> nat" where
  "alignment ptr alignto = alignto - nat (and (int ptr) (int alignto - 1))"

text \<open>Where \<open>vsource_frame_init\<close> puts the picture in a buffer at address \<open>frame\<close>, and its size.\<close>

definition vsource_frame_init :: "nat \<Rightarrow> nat \<Rightarrow> nat \<Rightarrow> nat \<Rightarrow> nat \<times> nat" where
  "vsource_frame_init sizeof_frame width height frame =
     (let imgbufsize = width * height * 3; imgbuf = frame + sizeof_frame in (imgbuf + alignment imgbuf 16, imgbufsize))"

section \<open>What a copy writes\<close>

text \<open>\<open>n\<close> rows of \<open>w\<close> bytes from address \<open>a\<close> on, \<open>pitch\<close> apart, hold the bytes \<open>f\<close>, row by row.\<close>

definition plane_at :: "'b memory \<Rightarrow> nat \<Rightarrow> nat \<Rightarrow> nat \<Rightarrow> nat \<Rightarrow> (nat \<Rightarrow> 'b) \<Rightarrow> bool" where
  "plane_at mem a pitch w n f \<longleftrightarrow> (\<forall>i < n. \<forall>j < w. mem (a + i * pitch + j) = Some (f (i * w + j)))"

lemma memcpy_writes:
  assumes "\<And>k. k < n \<Longrightarrow> mem (src + k) = Some (h (p + k))" and "p + n \<le> L" and "length dest = L"
  shows "ok (memcpy mem p src n dest) (writes {p..<p + n} h dest)"
proof -
  have "ok (memcpy mem p src n dest) (writes {p..<p + n * 1} h dest)"
    unfolding memcpy_def
    by (rule loop_writes_segments [OF _ assms(3)]) (use assms(1,2) in \<open>simp add: ok_wr writes_update\<close>)
  then show ?thesis by simp
qed

lemma plane_writes:
  assumes "plane_at mem a pitch w n f" and "\<And>k. k < n * w \<Longrightarrow> h (q + k) = f k"
    and "q + n * w \<le> L" and "length dest = L"
  shows "ok (loop n (\<lambda>i. memcpy mem (q + i * w) (a + i * pitch) w) dest) (writes {q..<q + n * w} h dest)"
proof (rule loop_writes_segments [OF _ assms(4)])
  fix i and xs :: "'a list" assume i: "i < n" and xs: "length xs = L"
  show "ok (memcpy mem (q + i * w) (a + i * pitch) w xs) (writes {q + i * w..<q + i * w + w} h xs)"
  proof (rule memcpy_writes [OF _ _ xs])
    fix k assume k: "k < w"
    show "mem (a + i * pitch + k) = Some (h (q + i * w + k))"
      using assms(1) i k assms(2) [OF index2_less [OF i k]] by (simp add: plane_at_def add.assoc)
  next
    show "q + i * w + w \<le> L" using mult_le_mono1 [OF Suc_leI [OF i], of w] assms(3) by simp
  qed
qed

text \<open>The three planes in a row, each with its own bytes.\<close>

lemma copy_frame_run:
  assumes size: "crop_size pInfo = (w, h)" and off: "off = CropX pInfo + CropY pInfo * Pitch pData"
    and B: "plane_at mem (V pData + off) (Pitch pData) w w fB" and G: "plane_at mem (U pData + off) (Pitch pData) w h fG"
    and R: "plane_at mem (Y pData + off) (Pitch pData) w h fR"
    and room: "w * w \<le> length imgbuf" "3 * w * h \<le> length imgbuf"
  obtains raw where "copy_frame pInfo pData mem imgbuf = Some raw" "length raw = length imgbuf"
    and "\<And>k. k < w * h \<Longrightarrow> raw ! (2 * w * h + k) = fR k" "\<And>k. k < w * h \<Longrightarrow> raw ! (w * h + k) = fG k"
    and "\<And>k. k < w * h \<Longrightarrow> raw ! k = (if k < w * w then fB k else imgbuf ! k)"
proof -
  let ?L = "length imgbuf"
  have eqs: "w * h + h * w = 2 * w * h" "2 * w * h + h * w = 3 * w * h" by (simp_all add: algebra_simps)
  obtain b1 where b1: "loop w (\<lambda>i. memcpy mem (0 + i * w) (V pData + off + i * Pitch pData) w) imgbuf = Some b1"
      and w1: "writes {0..<0 + w * w} fB imgbuf b1"
    using plane_writes [OF B, of fB 0 ?L imgbuf] room by (auto elim: okE)
  have l1: "length b1 = ?L" using writes_length [OF w1] .
  obtain b2 where b2: "loop h (\<lambda>i. memcpy mem (w * h + i * w) (U pData + off + i * Pitch pData) w) b1 = Some b2"
      and w2: "writes {w * h..<w * h + h * w} (\<lambda>k. fG (k - w * h)) b1 b2"
    using plane_writes [OF G, of "\<lambda>k. fG (k - w * h)" "w * h" ?L b1] room(2) l1 eqs by (auto elim: okE)
  have l2: "length b2 = ?L" using writes_length [OF w2] l1 by simp
  obtain b3 where b3: "loop h (\<lambda>i. memcpy mem (2 * w * h + i * w) (Y pData + off + i * Pitch pData) w) b2 = Some b3"
      and w3: "writes {2 * w * h..<2 * w * h + h * w} (\<lambda>k. fR (k - 2 * w * h)) b2 b3"
    using plane_writes [OF R, of "\<lambda>k. fR (k - 2 * w * h)" "2 * w * h" ?L b2] room(2) l2 eqs by (auto elim: okE)
  have "copy_frame pInfo pData mem imgbuf = Some b3"
    unfolding copy_frame_def size prod.case Let_def off [symmetric] by (simp only: b1 b2 b3 Option.bind.bind_lunit)
  moreover have l3: "length b3 = ?L" using writes_length [OF w3] l2 by simp
  moreover have "b3 ! (2 * w * h + k) = fR k" "b3 ! (w * h + k) = fG k" "b3 ! k = (if k < w * w then fB k else imgbuf ! k)"
    if "k < w * h" for k
    using that w1 w2 w3 l1 l2 l3 room unfolding writes_def eqs by (simp_all add: algebra_simps)
  ultimately show thesis using that by blast
qed

text \<open>What the scheduler reads back.\<close>

lemma createMat_eq:
  assumes "3 * w * h \<le> length raw"
  shows "createMat raw w h = Some \<lparr>msize = (int w, int h), planes =
    [map (\<lambda>k. raw ! (2 * w * h + k)) [0..<w * h], map (\<lambda>k. raw ! (w * h + k)) [0..<w * h], map ((!) raw) [0..<w * h]]\<rparr>"
  using assms by (simp add: createMat_def loadu_eq algebra_simps)

text \<open>
  C10: The way of a decoded picture to the detector. When the picture is at least as wide as it is
  high and at most three times as wide, and the first plane can be read for as many rows as the
  picture is wide, the decode thread fills the buffer without leaving it, and the \<open>cv::Mat\<close>
  that the scheduler builds from the buffer has the size of the picture and exactly its three
  planes, in reverse order.
\<close>

theorem surface_reaches_mat:
  assumes size: "crop_size pInfo = (w, h)" and off: "off = CropX pInfo + CropY pInfo * Pitch pData"
    and B: "plane_at mem (V pData + off) (Pitch pData) w w fB" and G: "plane_at mem (U pData + off) (Pitch pData) w h fG"
    and R: "plane_at mem (Y pData + off) (Pitch pData) w h fR"
    and shape: "h \<le> w" "w \<le> 3 * h" and room: "3 * w * h \<le> length imgbuf"
  shows "\<exists>raw. copy_frame pInfo pData mem imgbuf = Some raw \<and> length raw = length imgbuf \<and>
    createMat raw w h = Some \<lparr>msize = (int w, int h), planes =
      [map fR [0..<w * h], map fG [0..<w * h], map fB [0..<w * h]]\<rparr>"
proof -
  have le: "w * w \<le> 3 * w * h" "w * h \<le> w * w" using shape by (simp_all add: mult.left_commute)
  from copy_frame_run [OF size off B G R le_trans [OF le(1) room] room] obtain raw
    where raw: "copy_frame pInfo pData mem imgbuf = Some raw" "length raw = length imgbuf"
      and px: "\<And>k. k < w * h \<Longrightarrow> raw ! (2 * w * h + k) = fR k" "\<And>k. k < w * h \<Longrightarrow> raw ! (w * h + k) = fG k"
        "\<And>k. k < w * h \<Longrightarrow> raw ! k = (if k < w * w then fB k else imgbuf ! k)" by blast
  have "raw ! k = fB k" if "k < w * h" for k using px(3) [OF that] less_le_trans [OF that le(2)] by simp
  then have "createMat raw w h = Some \<lparr>msize = (int w, int h), planes =
      [map fR [0..<w * h], map fG [0..<w * h], map fB [0..<w * h]]\<rparr>"
    using room raw(2) px(1,2) by (simp add: createMat_eq)
  then show ?thesis using raw by blast
qed

text \<open>
  C33: A picture that is higher than wide. The first loop of the copy counts to the width
  instead of the height, so the last rows of the first plane are never copied: in the \<open>cv::Mat\<close>
  they are what the buffer held before, that is, rows of an earlier picture.
\<close>

theorem high_picture_stale:
  assumes size: "crop_size pInfo = (w, h)" and off: "off = CropX pInfo + CropY pInfo * Pitch pData"
    and B: "plane_at mem (V pData + off) (Pitch pData) w w fB" and G: "plane_at mem (U pData + off) (Pitch pData) w h fG"
    and R: "plane_at mem (Y pData + off) (Pitch pData) w h fR"
    and shape: "w < h" and room: "3 * w * h \<le> length imgbuf"
  shows "\<exists>raw. copy_frame pInfo pData mem imgbuf = Some raw \<and>
    createMat raw w h = Some \<lparr>msize = (int w, int h), planes =
      [map fR [0..<w * h], map fG [0..<w * h], map fB [0..<w * w] @ map ((!) imgbuf) [w * w..<w * h]]\<rparr>"
proof -
  have le: "w * w \<le> w * h" using shape by simp
  have "w * w \<le> 3 * w * h" using shape by (simp add: mult.left_commute)
  from copy_frame_run [OF size off B G R le_trans [OF this room] room] obtain raw
    where raw: "copy_frame pInfo pData mem imgbuf = Some raw" "length raw = length imgbuf"
      and px: "\<And>k. k < w * h \<Longrightarrow> raw ! (2 * w * h + k) = fR k" "\<And>k. k < w * h \<Longrightarrow> raw ! (w * h + k) = fG k"
        "\<And>k. k < w * h \<Longrightarrow> raw ! k = (if k < w * w then fB k else imgbuf ! k)" by blast
  have "[0..<w * h] = [0..<w * w] @ [w * w..<w * h]" using le upt_add_eq_append [of 0 "w * w" "w * h - w * w"] by simp
  then have "map ((!) raw) [0..<w * h] = map ((!) raw) [0..<w * w] @ map ((!) raw) [w * w..<w * h]" by simp
  also have "\<dots> = map fB [0..<w * w] @ map ((!) imgbuf) [w * w..<w * h]" using px(3) less_le_trans [OF _ le] by auto
  finally have "createMat raw w h = Some \<lparr>msize = (int w, int h), planes =
      [map fR [0..<w * h], map fG [0..<w * h], map fB [0..<w * w] @ map ((!) imgbuf) [w * w..<w * h]]\<rparr>"
    using room raw(2) px(1,2) by (simp add: createMat_eq)
  then show ?thesis using raw(1) by blast
qed

section \<open>NV12\<close>

lemma memcpy_one: "mem src = Some v \<Longrightarrow> p < length dest \<Longrightarrow> memcpy mem p src 1 dest = Some (dest[p := v])"
  by (simp add: memcpy_def wr_Some)

lemma pick_row_writes:
  assumes "\<And>k. k < m \<Longrightarrow> mem (src + (j0 + 2 * k)) = Some (h (ipos + k))" and "(w - j0 + 1) div 2 = m"
    and "ipos + m \<le> L" and "length dest = L"
  shows "ok (pick_row mem src w j0 (ipos, dest)) (\<lambda>(ipos', dest'). ipos' = ipos + m \<and> writes {ipos..<ipos + m} h dest dest')"
  unfolding pick_row_def assms(2)
proof (rule loop_wp [where I = "\<lambda>k (ipos', dest'). ipos' = ipos + k \<and> writes {ipos..<ipos + k} h dest dest'"])
  fix k and st :: "nat \<times> 'a list" assume k: "k < m"
    and I: "case st of (ipos', dest') \<Rightarrow> ipos' = ipos + k \<and> writes {ipos..<ipos + k} h dest dest'"
  obtain d where st: "st = (ipos + k, d)" and w: "writes {ipos..<ipos + k} h dest d" using I by (cases st) auto
  have room: "ipos + k < length d" using k assms(3,4) writes_length [OF w] by simp
  have "memcpy mem (ipos + k) (src + (j0 + 2 * k)) 1 d = Some (d[ipos + k := h (ipos + k)])"
    by (rule memcpy_one [OF _ room]) (rule assms(1) [OF k])
  moreover have "writes ({ipos..<ipos + k} \<union> {ipos + k}) h dest (d[ipos + k := h (ipos + k)])"
    using writes_trans [OF w writes_update [OF room refl]] .
  moreover have "{ipos..<ipos + k} \<union> {ipos + k} = {ipos..<ipos + Suc k}" by auto
  ultimately show "ok (case st of (ipos, dest) \<Rightarrow> do {
       dest \<leftarrow> memcpy mem ipos (src + (j0 + 2 * k)) 1 dest;
       Some (ipos + 1, dest) })
     (\<lambda>(ipos', dest'). ipos' = ipos + Suc k \<and> writes {ipos..<ipos + Suc k} h dest dest')"
    by (simp add: st)
qed (simp_all add: writes_refl)

lemma pick_rows_writes:
  assumes uv: "plane_at mem uv pitch w n f" and w: "w = 2 * m" and j0: "j0 < 2"
    and h: "\<And>k. k < n * m \<Longrightarrow> h (q + k) = f (2 * k + j0)" and "q + n * m \<le> L" and "length dest = L"
  shows "ok (loop n (\<lambda>i. pick_row mem (uv + i * pitch) w j0) (q, dest))
    (\<lambda>(ipos, dest'). ipos = q + n * m \<and> writes {q..<q + n * m} h dest dest')"
proof (rule loop_wp [where I = "\<lambda>i (ipos, dest'). ipos = q + i * m \<and> writes {q..<q + i * m} h dest dest'"])
  fix i and st :: "nat \<times> 'a list" assume i: "i < n"
    and I: "case st of (ipos, dest') \<Rightarrow> ipos = q + i * m \<and> writes {q..<q + i * m} h dest dest'"
  obtain d where st: "st = (q + i * m, d)" and d: "writes {q..<q + i * m} h dest d" using I by (cases st) auto
  have im: "i * m + m \<le> n * m" using mult_le_mono1 [OF Suc_leI [OF i], of m] by simp
  have "ok (pick_row mem (uv + i * pitch) w j0 (q + i * m, d))
      (\<lambda>(ipos', dest'). ipos' = q + i * m + m \<and> writes {q + i * m..<q + i * m + m} h d dest')"
  proof (rule pick_row_writes)
    fix k assume k: "k < m"
    have "j0 + 2 * k < w" using k j0 w by simp
    then have "mem (uv + i * pitch + (j0 + 2 * k)) = Some (f (i * w + (j0 + 2 * k)))"
      using uv i unfolding plane_at_def by blast
    moreover have "h (q + (i * m + k)) = f (2 * (i * m + k) + j0)" by (rule h) (rule index2_less [OF i k])
    ultimately show "mem (uv + i * pitch + (j0 + 2 * k)) = Some (h (q + i * m + k))"
      by (simp add: w algebra_simps)
  qed (use w j0 im assms(5,6) writes_length [OF d] in auto)
  then show "ok (pick_row mem (uv + i * pitch) w j0 st)
      (\<lambda>(ipos, dest'). ipos = q + Suc i * m \<and> writes {q..<q + Suc i * m} h dest dest')"
    unfolding st
  proof (rule ok_mono)
    have "{q..<q + i * m} \<union> {q + i * m..<q + i * m + m} = {q..<q + Suc i * m}" by auto
    then have "writes {q + i * m..<q + i * m + m} h d d' \<Longrightarrow> writes {q..<q + Suc i * m} h dest d'" for d'
      using writes_trans [OF d] by metis
    then show "case r of (ipos, dest') \<Rightarrow> ipos = q + Suc i * m \<and> writes {q..<q + Suc i * m} h dest dest'"
      if "case r of (ipos', dest') \<Rightarrow> ipos' = q + i * m + m \<and> writes {q + i * m..<q + i * m + m} h d dest'" for r
      using that by auto
  qed
qed (simp_all add: writes_refl)

text \<open>
  A surface in NV12 is written in the layout I420 that the display of the tracker converts:
  for a picture of even width, the rows of the first plane without the padding between them,
  then all first bytes of the pairs of the second plane, then all second ones. Nothing else in
  the buffer changes.
\<close>

theorem nv12_becomes_i420:
  assumes W: "CropW pInfo = 2 * m" and n: "n = CropH pInfo div 2"
    and y: "plane_at mem (Y pData + (CropY pInfo * Pitch pData + CropX pInfo)) (Pitch pData) (CropW pInfo) (CropH pInfo) fY"
    and uv: "plane_at mem (U pData + (CropY pInfo * Pitch pData div 2 + CropX pInfo)) (Pitch pData) (CropW pInfo) n fUV"
    and room: "CropH pInfo * CropW pInfo + 2 * (n * m) \<le> length dest"
  shows "WriteRawFrameToMemory pInfo pData mem dw dh dest FOURCC_NV12 = Some (MFX_ERR_NONE, put dest 0
    (map fY [0..<CropH pInfo * CropW pInfo] @ map (\<lambda>k. fUV (2 * k)) [0..<n * m] @ map (\<lambda>k. fUV (2 * k + 1)) [0..<n * m]))"
proof -
  let ?s = "CropH pInfo * CropW pInfo" and ?c = "n * m" and ?L = "length dest"
  define all where "all = map fY [0..<?s] @ map (\<lambda>k. fUV (2 * k)) [0..<?c] @ map (\<lambda>k. fUV (2 * k + 1)) [0..<?c]"
  have len: "length all = ?s + 2 * ?c" by (simp add: all_def)
  have h: "k < ?s \<Longrightarrow> all ! k = fY k" "k < ?c \<Longrightarrow> all ! (?s + k) = fUV (2 * k)"
    "k < ?c \<Longrightarrow> all ! (?s + ?c + k) = fUV (2 * k + 1)" for k
    by (simp_all add: all_def nth_append)
  let ?U = "U pData + (CropY pInfo * Pitch pData div 2 + CropX pInfo)"
  obtain d1 where d1: "loop (CropH pInfo) (\<lambda>i. memcpy mem (0 + i * CropW pInfo)
        (Y pData + (CropY pInfo * Pitch pData + CropX pInfo) + i * Pitch pData) (CropW pInfo)) dest = Some d1"
      and w1: "writes {0..<0 + ?s} ((!) all) dest d1"
    using plane_writes [OF y, of "(!) all" 0 ?L dest] h(1) room by (auto elim: okE)
  obtain d2 where d2: "loop n (\<lambda>i. pick_row mem (?U + i * Pitch pData) (CropW pInfo) 0) (?s, d1) = Some (?s + ?c, d2)"
      and w2: "writes {?s..<?s + ?c} ((!) all) d1 d2"
    using pick_rows_writes [OF uv W, of 0 "(!) all" ?s ?L d1] h(2) room writes_length [OF w1] by (auto elim!: okE)
  obtain d3 where d3: "loop n (\<lambda>i. pick_row mem (?U + i * Pitch pData) (CropW pInfo) 1) (?s + ?c, d2) = Some (?s + ?c + ?c, d3)"
      and w3: "writes {?s + ?c..<?s + ?c + ?c} ((!) all) d2 d3"
    using pick_rows_writes [OF uv W, of 1 "(!) all" "?s + ?c" ?L d2] h(3) room writes_length [OF w1] writes_length [OF w2]
    by (auto elim!: okE)
  have "writes ({0..<0 + ?s} \<union> {?s..<?s + ?c} \<union> {?s + ?c..<?s + ?c + ?c}) ((!) all) dest d3"
    by (rule writes_trans [OF writes_trans [OF w1 w2] w3])
  moreover have "{0..<0 + ?s} \<union> {?s..<?s + ?c} \<union> {?s + ?c..<?s + ?c + ?c} = {0..<?s + 2 * ?c}" by auto
  ultimately have "writes {0..<?s + 2 * ?c} ((!) all) dest d3" by simp
  then have "d3 = put dest 0 all"
    using len room by (intro nth_equalityI) (auto simp: writes_def put_def nth_append)
  moreover have "write_nv12 pInfo pData mem dest = Some d3"
    using d1 d2 d3 by (simp add: write_nv12_def Let_def n)
  ultimately show ?thesis by (simp add: WriteRawFrameToMemory_def all_def)
qed

section \<open>Small surfaces\<close>

text \<open>A surface of one byte per address.\<close>

definition demo_info :: "nat \<Rightarrow> nat \<Rightarrow> frame_info" where
  "demo_info w h = \<lparr>Width = 16, Height = 16, CropX = 0, CropY = 0, CropW = w, CropH = h\<rparr>"

definition demo_data :: frame_data where
  "demo_data = \<lparr>Pitch = 4, Y = 40, U = 20, V = 0, A = 0\<rparr>"

lemma demo_planes:
  "plane_at Some (V demo_data + 0) (Pitch demo_data) w n (\<lambda>k. k div w * 4 + k mod w)"
  "plane_at Some (U demo_data + 0) (Pitch demo_data) w n (\<lambda>k. 20 + (k div w * 4 + k mod w))"
  "plane_at Some (Y demo_data + 0) (Pitch demo_data) w n (\<lambda>k. 40 + (k div w * 4 + k mod w))"
  by (auto simp: plane_at_def demo_data_def)

lemma surface_reaches_mat_witness:
  "\<exists>raw. copy_frame (demo_info 3 2) demo_data Some (replicate 18 0) = Some raw \<and> length raw = 18 \<and>
     createMat raw 3 2 = Some \<lparr>msize = (3, 2), planes = [[40, 41, 42, 44, 45, 46], [20, 21, 22, 24, 25, 26], [0, 1, 2, 4, 5, 6]]\<rparr>"
  using surface_reaches_mat [of "demo_info 3 2" 3 2 0, OF _ _ demo_planes, of "replicate 18 0"]
  by (simp add: demo_info_def crop_size_def upt_rec numeral_2_eq_2)

lemma high_picture_stale_witness:
  "\<exists>raw. copy_frame (demo_info 1 2) demo_data Some (replicate 6 9) = Some raw \<and>
     createMat raw 1 2 = Some \<lparr>msize = (1, 2), planes = [[40, 44], [20, 24], [0, 9]]\<rparr>"
  using high_picture_stale [of "demo_info 1 2" 1 2 0, OF _ _ demo_planes, of "replicate 6 9"]
  by (simp add: demo_info_def crop_size_def upt_rec)

lemma nv12_becomes_i420_witness:
  "WriteRawFrameToMemory (demo_info 2 2) demo_data Some 2 2 (replicate 7 0) FOURCC_NV12 =
     Some (MFX_ERR_NONE, [40, 41, 44, 45, 20, 21, 0])"
proof -
  have "plane_at Some (Y demo_data + (CropY (demo_info 2 2) * Pitch demo_data + CropX (demo_info 2 2))) (Pitch demo_data)
      (CropW (demo_info 2 2)) (CropH (demo_info 2 2)) (\<lambda>k. 40 + (k div 2 * 4 + k mod 2))"
    "plane_at Some (U demo_data + (CropY (demo_info 2 2) * Pitch demo_data div 2 + CropX (demo_info 2 2))) (Pitch demo_data)
      (CropW (demo_info 2 2)) 1 (\<lambda>k. 20 + (k div 2 * 4 + k mod 2))"
    by (auto simp: demo_info_def demo_data_def plane_at_def)
  then show ?thesis
    using nv12_becomes_i420 [where pInfo = "demo_info 2 2" and m = 1 and n = 1 and pData = demo_data and mem = Some and dest = "replicate 7 0"]
    by (simp add: demo_info_def upt_rec put_def)
qed

section \<open>The buffer holds the picture\<close>

lemma alignment_16: "alignment p 16 = 16 - p mod 16"
proof -
  have "take_bit 4 (int p) = and (int p) (mask 4)" by (rule take_bit_eq_mask)
  then have "and (int p) 15 = int p mod 16" by (simp add: take_bit_eq_mod mask_eq_exp_minus_1)
  then show ?thesis by (simp add: alignment_def nat_mod_distrib)
qed

text \<open>
  The pipe allocates four bytes per pixel behind the header. From 16 pixels on that is enough for
  the three bytes per pixel and the alignment, which skips 16 bytes where none are needed.
\<close>

theorem frame_buffer_fits:
  assumes "vsource_frame_init sz w h frame = (imgbuf, n)" and "16 \<le> w * h"
  shows "imgbuf mod 16 = 0 \<and> frame + sz < imgbuf \<and> n = 3 * (w * h) \<and> imgbuf + n \<le> frame + (sz + w * h * 4)"
proof -
  let ?p = "frame + sz"
  have i: "imgbuf = ?p + (16 - ?p mod 16)" "n = w * h * 3"
    using assms(1) by (simp_all add: vsource_frame_init_def alignment_16 Let_def add.assoc)
  have "?p mod 16 < 16" by simp
  moreover have "?p = ?p div 16 * 16 + ?p mod 16" by simp
  ultimately have "imgbuf = (?p div 16 + 1) * 16" using i(1) by arith
  then have "imgbuf mod 16 = 0" by simp
  then show ?thesis using i \<open>?p mod 16 < 16\<close> assms(2) by linarith
qed

end
