(* ===== verification/Pipeline.thy ===== *)
theory Pipeline
  imports Dual_Pipe
begin

text \<open>
  The decode thread of a channel and the scheduler (\<open>video_analytics_example/main.cpp\<close>) at the
  two ends of their buffer pipe, in the default build with one channel. The pipe is the step
  relation of \<open>Dual_Pipe\<close> with two threads: thread 0 decodes, thread 1 schedules.

  The decode thread takes a buffer (\<open>Get\<close>), writes channel, number and picture into it, hands
  it on (\<open>Store\<close>) and posts the semaphore. The scheduler waits for the semaphore, takes the
  buffer (\<open>Load\<close> without time limit), copies the picture into a \<open>cv::Mat\<close>, gives the buffer
  back (\<open>Put\<close>), and calls \<open>InsertImage\<close> with the copy, reading channel and number from the buffer
  that it no longer owns. Pictures are of any type; the copies are those of \<open>Frame_Copy\<close>. The
  statistics of the decoder (\<open>-pd\<close>), which reset the counter of pictures, are off, and every decoded
  picture yields one scaled picture.
\<close>

section \<open>State and steps\<close>

record 'i vsource_frame =
  img :: 'i
  channel :: int
  frameno :: nat

text \<open>Where the decode thread is: before a picture, in a call, or between two statements.\<close>

datatype 'i dec_pc = D_Next | D_Getting 'i | D_Label ptr 'i | D_Copy ptr 'i | D_Store ptr | D_Storing | D_Post

datatype 'i sch_pc = S_Wait | S_Load | S_Loading | S_Mat ptr | S_Put ptr 'i | S_Putting ptr 'i | S_Insert ptr 'i

record 'i app =
  pipe :: dual_pipe
  mem :: "ptr \<Rightarrow> 'i vsource_frame"
  dec :: "'i dec_pc"
  sch :: "'i sch_pc"
  nChannel :: int
  nFrameProcessed :: nat
  gNewtaskAvaiable :: nat
  totalInferNum :: nat

datatype 'i app_event = Internal | Decoded 'i | Submitted 'i int nat

text \<open>Steps inside a call of the pipe.\<close>

fun internal :: "event \<Rightarrow> bool" where
  "internal Tau = True" | "internal (Stored b) = True" | "internal (Loaded b) = True" | "internal _ = False"

inductive app_step :: "'i app \<Rightarrow> 'i app_event \<Rightarrow> 'i app \<Rightarrow> bool" where
  inner: "pipe_step (pipe s) e p \<Longrightarrow> internal e \<Longrightarrow> app_step s Internal (s\<lparr>pipe := p\<rparr>)"
| decode: "dec s = D_Next \<Longrightarrow> pipe_step (pipe s) (Call 0 Get) p \<Longrightarrow>
    app_step s (Decoded i) (s\<lparr>pipe := p, dec := D_Getting i, nFrameProcessed := Suc (nFrameProcessed s)\<rparr>)"
| got: "dec s = D_Getting i \<Longrightarrow> pipe_step (pipe s) (Return 0 b) p \<Longrightarrow>
    app_step s Internal (s\<lparr>pipe := p, dec := D_Label b i\<rparr>)"
| label: "dec s = D_Label b i \<Longrightarrow>
    app_step s Internal (s\<lparr>mem := (mem s)(b := (mem s b)\<lparr>channel := nChannel s, frameno := nFrameProcessed s\<rparr>), dec := D_Copy b i\<rparr>)"
| copy: "dec s = D_Copy b i \<Longrightarrow> app_step s Internal (s\<lparr>mem := (mem s)(b := (mem s b)\<lparr>img := i\<rparr>), dec := D_Store b\<rparr>)"
| store: "dec s = D_Store b \<Longrightarrow> pipe_step (pipe s) (Call 0 (Store b)) p \<Longrightarrow> app_step s Internal (s\<lparr>pipe := p, dec := D_Storing\<rparr>)"
| stored: "dec s = D_Storing \<Longrightarrow> pipe_step (pipe s) (Return 0 v) p \<Longrightarrow> app_step s Internal (s\<lparr>pipe := p, dec := D_Post\<rparr>)"
| post: "dec s = D_Post \<Longrightarrow> app_step s Internal (s\<lparr>gNewtaskAvaiable := Suc (gNewtaskAvaiable s), dec := D_Next\<rparr>)"
| wait: "sch s = S_Wait \<Longrightarrow> gNewtaskAvaiable s = Suc n \<Longrightarrow> app_step s Internal (s\<lparr>gNewtaskAvaiable := n, sch := S_Load\<rparr>)"
| load: "sch s = S_Load \<Longrightarrow> pipe_step (pipe s) (Call 1 (Load False)) p \<Longrightarrow> app_step s Internal (s\<lparr>pipe := p, sch := S_Loading\<rparr>)"
| loaded_null: "sch s = S_Loading \<Longrightarrow> pipe_step (pipe s) (Return 1 NULL) p \<Longrightarrow> app_step s Internal (s\<lparr>pipe := p, sch := S_Wait\<rparr>)"
| loaded: "sch s = S_Loading \<Longrightarrow> pipe_step (pipe s) (Return 1 b) p \<Longrightarrow> b \<noteq> NULL \<Longrightarrow>
    app_step s Internal (s\<lparr>pipe := p, sch := S_Mat b, totalInferNum := Suc (totalInferNum s)\<rparr>)"
| mat: "sch s = S_Mat b \<Longrightarrow> app_step s Internal (s\<lparr>sch := S_Put b (img (mem s b))\<rparr>)"
| put: "sch s = S_Put b i \<Longrightarrow> pipe_step (pipe s) (Call 1 (Put b)) p \<Longrightarrow> app_step s Internal (s\<lparr>pipe := p, sch := S_Putting b i\<rparr>)"
| put_done: "sch s = S_Putting b i \<Longrightarrow> pipe_step (pipe s) (Return 1 v) p \<Longrightarrow> app_step s Internal (s\<lparr>pipe := p, sch := S_Insert b i\<rparr>)"
| insert: "sch s = S_Insert b i \<Longrightarrow> app_step s (Submitted i (channel (mem s b)) (frameno (mem s b))) (s\<lparr>sch := S_Wait\<rparr>)"

definition start :: "int \<Rightarrow> (ptr \<Rightarrow> 'i vsource_frame) \<Rightarrow> ptr list \<Rightarrow> 'i app" where
  "start ch m bs = \<lparr>pipe = (new_pipe 2)\<lparr>m_inPipe := bs\<rparr>, mem = m, dec = D_Next, sch = S_Wait, nChannel = ch,
     nFrameProcessed = 0, gNewtaskAvaiable = 0, totalInferNum = 0\<rparr>"

section \<open>The pipe between two threads\<close>

datatype role = R_Idle | R_Get | R_Store | R_Load | R_Put

text \<open>Which call a position belongs to; the scheduler does not use the other two.\<close>

fun role_of :: "pc \<Rightarrow> role option" where
  "role_of Idle = Some R_Idle"
| "role_of Get_Lock = Some R_Get" | "role_of Get_Test = Some R_Get" | "role_of Get_Retry = Some R_Get"
| "role_of Get_Sleep = Some R_Get" | "role_of Get_Again = Some R_Get" | "role_of (Get_Done b) = Some R_Get"
| "role_of (Store_Lock b) = Some R_Store" | "role_of (Store_Push b) = Some R_Store" | "role_of Store_Done = Some R_Store"
| "role_of Store_Signal = Some R_Store"
| "role_of (Load_Lock t) = (if t then None else Some R_Load)" | "role_of (Load_Test t u) = (if t then None else Some R_Load)"
| "role_of (Load_Wait t) = (if t then None else Some R_Load)" | "role_of (Load_Wake t) = (if t then None else Some R_Load)"
| "role_of (Load_Done b) = Some R_Load"
| "role_of (Put_Lock b) = Some R_Put" | "role_of (Put_Push b) = Some R_Put" | "role_of Put_Done = Some R_Put"
| "role_of p = None"

text \<open>The buffers on their way to the scheduler, oldest first, and those on their way back.\<close>

fun leaving :: "pc \<Rightarrow> ptr list" where
  "leaving (Load_Done b) = [b]" | "leaving _ = []"

fun entering :: "pc \<Rightarrow> ptr list" where
  "entering (Store_Lock b) = [b]" | "entering (Store_Push b) = [b]" | "entering _ = []"

fun returning :: "pc \<Rightarrow> ptr list" where
  "returning (Put_Lock b) = [b]" | "returning (Put_Push b) = [b]" | "returning (Get_Done b) = [b]" | "returning _ = []"

definition out_flow :: "dual_pipe \<Rightarrow> ptr list" where
  "out_flow p = leaving (threads p ! 1) @ m_outPipe p @ entering (threads p ! 0)"

definition in_flow :: "dual_pipe \<Rightarrow> ptr multiset" where
  "in_flow p = mset (returning (threads p ! 0) @ returning (threads p ! 1) @ m_inPipe p)"

definition pipe_ok :: "role \<Rightarrow> role \<Rightarrow> dual_pipe \<Rightarrow> bool" where
  "pipe_ok dr sr p \<longleftrightarrow> dr \<in> {R_Idle, R_Get, R_Store} \<and> sr \<in> {R_Idle, R_Load, R_Put} \<and>
     (\<exists>p0 p1. threads p = [p0, p1] \<and> role_of p0 = Some dr \<and> role_of p1 = Some sr) \<and> NULL \<notin> set (out_flow p) \<and> NULL \<notin># in_flow p"

lemma two_threads: "t < length [p0, p1] \<Longrightarrow> t = 0 \<or> t = 1"
  by auto

text \<open>A step of one thread that changes neither the buffers nor the role.\<close>

definition same_flow :: "pc \<Rightarrow> pc \<Rightarrow> bool" where
  "same_flow p q \<longleftrightarrow> role_of q = role_of p \<and> leaving q = leaving p \<and> entering q = entering p \<and> returning q = returning p"

lemma locked_same: "locked p = Some q \<Longrightarrow> role_of p \<noteq> None \<Longrightarrow> same_flow p q"
  by (cases p) (auto simp: same_flow_def split: if_splits)

lemma move_keeps:
  assumes ok: "pipe_ok dr sr p" and t: "at_pc p t q" and q': "role_of q \<noteq> None \<Longrightarrow> same_flow q q'"
    and p': "threads p' = (threads p)[t := q']" "m_inPipe p' = m_inPipe p" "m_outPipe p' = m_outPipe p"
  shows "pipe_ok dr sr p' \<and> out_flow p' = out_flow p \<and> in_flow p' = in_flow p"
proof -
  obtain p0 p1 where th: "threads p = [p0, p1]" and r: "role_of p0 = Some dr" "role_of p1 = Some sr" using ok by (auto simp: pipe_ok_def)
  then have "t = 0 \<or> t = 1" using t by auto
  then show ?thesis
  proof
    assume "t = 0"
    then show ?thesis using ok t th r q' p' by (simp add: pipe_ok_def out_flow_def in_flow_def same_flow_def)
  next
    assume "t = 1"
    then show ?thesis using ok t th r q' p' by (simp add: pipe_ok_def out_flow_def in_flow_def same_flow_def)
  qed
qed

text \<open>Which thread a position belongs to.\<close>

lemma thread_of:
  assumes "pipe_ok dr sr p" "at_pc p t q"
  shows "role_of q \<in> {Some R_Get, Some R_Store} \<Longrightarrow> t = 0 \<and> role_of q = Some dr"
    and "role_of q \<in> {Some R_Load, Some R_Put} \<Longrightarrow> t = 1 \<and> role_of q = Some sr"
    and "role_of q \<noteq> None"
proof -
  obtain p0 p1 where th: "threads p = [p0, p1]" and r: "role_of p0 = Some dr" "role_of p1 = Some sr"
      and rs: "dr \<in> {R_Idle, R_Get, R_Store}" "sr \<in> {R_Idle, R_Load, R_Put}" using assms(1) by (auto simp: pipe_ok_def)
  have t: "t = 0 \<and> q = p0 \<or> t = 1 \<and> q = p1" using assms(2) th by (auto simp: less_Suc_eq)
  show "role_of q \<in> {Some R_Get, Some R_Store} \<Longrightarrow> t = 0 \<and> role_of q = Some dr" using t r rs by auto
  show "role_of q \<in> {Some R_Load, Some R_Put} \<Longrightarrow> t = 1 \<and> role_of q = Some sr" using t r rs by auto
  show "role_of q \<noteq> None" using t r by auto
qed

text \<open>A thread whose step moves a buffer; the other thread is \<open>q\<close>.\<close>

lemma pipe_ok_0:
  "pipe_ok dr sr p \<Longrightarrow> threads p ! 0 = p0 \<Longrightarrow> role_of q0 = Some dr' \<Longrightarrow> dr' \<in> {R_Idle, R_Get, R_Store} \<Longrightarrow>
   threads p' = (threads p)[0 := q0] \<Longrightarrow> NULL \<notin> set (out_flow p') \<Longrightarrow> NULL \<notin># in_flow p' \<Longrightarrow> pipe_ok dr' sr p'"
  by (auto simp: pipe_ok_def)

lemma pipe_ok_1:
  "pipe_ok dr sr p \<Longrightarrow> threads p ! 1 = p1 \<Longrightarrow> role_of q1 = Some sr' \<Longrightarrow> sr' \<in> {R_Idle, R_Load, R_Put} \<Longrightarrow>
   threads p' = (threads p)[1 := q1] \<Longrightarrow> NULL \<notin> set (out_flow p') \<Longrightarrow> NULL \<notin># in_flow p' \<Longrightarrow> pipe_ok dr sr' p'"
  by (auto simp: pipe_ok_def)

lemma flow_free: "pipe_ok dr sr p \<Longrightarrow> NULL \<notin> set (out_flow p) \<and> NULL \<notin># in_flow p \<and> length (threads p) = 2"
  by (auto simp: pipe_ok_def)

lemma inner_keeps:
  assumes "pipe_step p e p'" "internal e" "pipe_ok dr sr p"
  shows "pipe_ok dr sr p' \<and> out_flow p' = out_flow p \<and> in_flow p' = in_flow p"
proof -
  note move = move_keeps [OF assms(3)]
  note at = thread_of [OF assms(3)]
  note free = flow_free [OF assms(3)]
  have take: "pipe_ok dr sr p' \<and> out_flow p' = out_flow p \<and> in_flow p' = in_flow p"
    if t: "at_pc p t q" and q: "role_of q' = role_of q" "role_of q \<noteq> Some R_Idle" and p': "threads p' = (threads p)[t := q']"
      and f: "out_flow p' = out_flow p" "in_flow p' = in_flow p" for t q q'
  proof -
    have "t = 0 \<and> role_of q = Some dr \<or> t = 1 \<and> role_of q = Some sr"
      using at [OF t] q(2) by (cases "role_of q"; cases "the (role_of q)") auto
    then show ?thesis
      using pipe_ok_0 [OF assms(3) refl, of q' dr p'] pipe_ok_1 [OF assms(3) refl, of q' sr p'] p' f free assms(3) q(1)
      by (auto simp: pipe_ok_def)
  qed
  note flows = out_flow_def in_flow_def free
  from assms(1) show ?thesis
  proof cases
    case (lock t q q')
    then show ?thesis by (intro move [OF lock(3)]) (auto intro: locked_same)
  next
    case (get_take t b bs)
    then show ?thesis using at(1) [OF get_take(3)] by (intro take [OF get_take(3)]) (simp_all add: flows)
  next
    case (get_null t bs) then show ?thesis using free by (simp add: flows)
  next
    case (get_empty t) then show ?thesis by (intro move [OF get_empty(3)]) (auto simp: same_flow_def)
  next
    case (get_retry t) then show ?thesis by (intro move [OF get_retry(3)]) (auto simp: same_flow_def)
  next
    case (get_sleep t) then show ?thesis by (intro move [OF get_sleep(3)]) (auto simp: same_flow_def)
  next
    case (put t b)
    then show ?thesis using at(2) [OF put(3)] by (intro take [OF put(3)]) (simp_all add: flows)
  next
    case (load_take t timed out b bs)
    have "\<not> timed" using at(3) [OF load_take(3)] by (auto split: if_splits)
    then show ?thesis using load_take at(2) [OF load_take(3)] by (intro take [OF load_take(3)]) (simp_all add: flows)
  next
    case (load_null t timed out bs) then show ?thesis using free by (simp add: flows)
  next
    case (load_wait t timed out) then show ?thesis by (intro move [OF load_wait(3)]) (auto simp: same_flow_def split: if_splits)
  next
    case (load_timeout t) then show ?thesis using at(3) [OF load_timeout(3)] by simp
  next
    case (load_wake t timed) then show ?thesis by (intro move [OF load_wake(3)]) (auto simp: same_flow_def split: if_splits)
  next
    case (nowait_take t b bs) then show ?thesis using at(3) [OF nowait_take(3)] by simp
  next
    case (nowait_empty t) then show ?thesis using at(3) [OF nowait_empty(3)] by simp
  next
    case (store t b)
    then show ?thesis using at(1) [OF store(3)] by (intro take [OF store(3)]) (simp_all add: flows)
  next
    case (store_unlock t) then show ?thesis by (intro move [OF store_unlock(3)]) (auto simp: same_flow_def)
  qed (use assms(2) in simp_all)
qed

text \<open>The steps that enter and leave a call.\<close>

inductive_cases callE: "pipe_step p (Call t op) p'"
inductive_cases returnE: "pipe_step p (Return t b) p'"

lemma call_get:
  assumes "pipe_step p (Call 0 Get) p'" "pipe_ok R_Idle sr p"
  shows "pipe_ok R_Get sr p' \<and> out_flow p' = out_flow p \<and> in_flow p' = in_flow p"
  using assms by (elim callE) (auto simp: pipe_ok_def out_flow_def in_flow_def)

lemma call_store:
  assumes "pipe_step p (Call 0 (Store b)) p'" "pipe_ok R_Idle sr p" "b \<noteq> NULL"
  shows "pipe_ok R_Store sr p' \<and> out_flow p' = out_flow p @ [b] \<and> in_flow p' = in_flow p"
  using assms by (elim callE) (auto simp: pipe_ok_def out_flow_def in_flow_def)

lemma call_load:
  assumes "pipe_step p (Call 1 (Load False)) p'" "pipe_ok dr R_Idle p"
  shows "pipe_ok dr R_Load p' \<and> out_flow p' = out_flow p \<and> in_flow p' = in_flow p"
  using assms by (elim callE) (auto simp: pipe_ok_def out_flow_def in_flow_def)

lemma call_put:
  assumes "pipe_step p (Call 1 (Put b)) p'" "pipe_ok dr R_Idle p" "b \<noteq> NULL"
  shows "pipe_ok dr R_Put p' \<and> out_flow p' = out_flow p \<and> in_flow p' = add_mset b (in_flow p)"
  using assms by (elim callE) (auto simp: pipe_ok_def out_flow_def in_flow_def)

lemma result_pc:
  "result q = Some b \<Longrightarrow> role_of q = Some R_Get \<Longrightarrow> q = Get_Done b" "result q = Some b \<Longrightarrow> role_of q \<noteq> Some R_Store"
  "result q = Some b \<Longrightarrow> role_of q = Some R_Load \<Longrightarrow> q = Load_Done b"
  "result q = Some b \<Longrightarrow> role_of q = Some R_Put \<Longrightarrow> q = Put_Done \<and> b = NULL"
  by (cases q; simp split: if_splits)+

lemma return_get:
  assumes "pipe_step p (Return 0 b) p'" "pipe_ok R_Get sr p"
  shows "pipe_ok R_Idle sr p' \<and> out_flow p' = out_flow p \<and> in_flow p = add_mset b (in_flow p') \<and> b \<noteq> NULL"
  using assms by (elim returnE) (auto simp: pipe_ok_def out_flow_def in_flow_def dest: result_pc(1))

lemma return_load:
  assumes "pipe_step p (Return 1 b) p'" "pipe_ok dr R_Load p"
  shows "pipe_ok dr R_Idle p' \<and> out_flow p = b # out_flow p' \<and> in_flow p' = in_flow p \<and> b \<noteq> NULL"
  using assms by (elim returnE) (auto simp: pipe_ok_def out_flow_def in_flow_def dest: result_pc(3))

lemma return_put:
  assumes "pipe_step p (Return 1 b) p'" "pipe_ok dr R_Put p"
  shows "pipe_ok dr R_Idle p' \<and> out_flow p' = out_flow p \<and> in_flow p' = in_flow p"
  using assms by (elim returnE) (auto simp: pipe_ok_def out_flow_def in_flow_def dest: result_pc(4))

lemma return_store:
  assumes "pipe_step p (Return 0 b) p'" "pipe_ok R_Store sr p"
  shows "pipe_ok R_Idle sr p' \<and> out_flow p' = out_flow p \<and> in_flow p' = in_flow p"
  using assms(1)
proof cases
  case (ret q)
  then show ?thesis using thread_of(1) [OF assms(2), of 0 q] thread_of(3) [OF assms(2), of 0 q] result_pc(2) [of q b] assms(2)
    by (auto simp: pipe_ok_def)
next
  case (signal w timed)
  have w: "w = 1" "\<not> timed" using thread_of(2,3) [OF assms(2), of w "Load_Wait timed"] signal by (auto split: if_splits)
  then show ?thesis using signal assms(2) by (auto simp: pipe_ok_def out_flow_def in_flow_def)
next
  case signal_none
  then show ?thesis using assms(2) by (auto simp: pipe_ok_def out_flow_def in_flow_def)
qed

section \<open>What is on its way\<close>

fun dec_role :: "'i dec_pc \<Rightarrow> role" where
  "dec_role (D_Getting i) = R_Get" | "dec_role D_Storing = R_Store" | "dec_role _ = R_Idle"

fun sch_role :: "'i sch_pc \<Rightarrow> role" where
  "sch_role S_Loading = R_Load" | "sch_role (S_Putting b i) = R_Put" | "sch_role _ = R_Idle"

fun dec_owned :: "'i dec_pc \<Rightarrow> ptr multiset" where
  "dec_owned (D_Label b i) = {#b#}" | "dec_owned (D_Copy b i) = {#b#}" | "dec_owned (D_Store b) = {#b#}" | "dec_owned _ = {#}"

fun sch_owned :: "'i sch_pc \<Rightarrow> ptr multiset" where
  "sch_owned (S_Mat b) = {#b#}" | "sch_owned (S_Put b i) = {#b#}" | "sch_owned _ = {#}"

text \<open>A picture with the number and the channel that belong to it.\<close>

type_synonym 'i item = "'i \<times> nat \<times> int"

definition view :: "(ptr \<Rightarrow> 'i vsource_frame) \<Rightarrow> ptr \<Rightarrow> 'i item" where
  "view m b = (img (m b), frameno (m b), channel (m b))"

fun dec_items :: "'i dec_pc \<Rightarrow> (ptr \<Rightarrow> 'i vsource_frame) \<Rightarrow> nat \<Rightarrow> int \<Rightarrow> 'i item list" where
  "dec_items (D_Getting i) m n ch = [(i, n, ch)]" | "dec_items (D_Label b i) m n ch = [(i, n, ch)]"
| "dec_items (D_Copy b i) m n ch = [(i, n, ch)]" | "dec_items (D_Store b) m n ch = [view m b]" | "dec_items _ m n ch = []"

fun sch_items :: "'i sch_pc \<Rightarrow> (ptr \<Rightarrow> 'i vsource_frame) \<Rightarrow> nat \<Rightarrow> int \<Rightarrow> 'i item list" where
  "sch_items (S_Mat b) m n ch = [view m b]" | "sch_items (S_Put b i) m n ch = [(i, n, ch)]"
| "sch_items (S_Putting b i) m n ch = [(i, n, ch)]" | "sch_items (S_Insert b i) m n ch = [(i, n, ch)]" | "sch_items _ m n ch = []"

definition content :: "'i app \<Rightarrow> 'i item list" where
  "content s = sch_items (sch s) (mem s) (totalInferNum s) (nChannel s) @ map (view (mem s)) (out_flow (pipe s)) @
     dec_items (dec s) (mem s) (nFrameProcessed s) (nChannel s)"

text \<open>The number of the oldest picture on its way.\<close>

fun oldest :: "'i sch_pc \<Rightarrow> nat \<Rightarrow> nat" where
  "oldest (S_Mat b) n = n" | "oldest (S_Put b i) n = n" | "oldest (S_Putting b i) n = n" | "oldest (S_Insert b i) n = n"
| "oldest _ n = Suc n"

fun copied_from :: "'i sch_pc \<Rightarrow> ptr option" where
  "copied_from (S_Put b i) = Some b" | "copied_from (S_Putting b i) = Some b" | "copied_from (S_Insert b i) = Some b"
| "copied_from _ = None"

definition labelled :: "'i app \<Rightarrow> bool" where
  "labelled s \<longleftrightarrow> (\<forall>b i. dec s = D_Copy b i \<longrightarrow> frameno (mem s b) = nFrameProcessed s \<and> channel (mem s b) = nChannel s) \<and>
     (\<forall>b. copied_from (sch s) = Some b \<longrightarrow>
        totalInferNum s \<le> frameno (mem s b) \<and> frameno (mem s b) \<le> nFrameProcessed s \<and> channel (mem s b) = nChannel s)"

definition app_ok :: "ptr multiset \<Rightarrow> 'i app \<Rightarrow> bool" where
  "app_ok M s \<longleftrightarrow> NULL \<notin># M \<and> (\<forall>b. count M b \<le> 1) \<and> pipe_ok (dec_role (dec s)) (sch_role (sch s)) (pipe s) \<and>
     in_flow (pipe s) + mset (out_flow (pipe s)) + dec_owned (dec s) + sch_owned (sch s) = M \<and>
     map (fst \<circ> snd) (content s) = [oldest (sch s) (totalInferNum s)..<Suc (nFrameProcessed s)] \<and> totalInferNum s \<le> nFrameProcessed s \<and>
     (\<forall>x \<in> set (content s). snd (snd x) = nChannel s) \<and> labelled s"

lemma app_okD:
  assumes "app_ok M s"
  shows "pipe_ok (dec_role (dec s)) (sch_role (sch s)) (pipe s)" "NULL \<notin># dec_owned (dec s)" "NULL \<notin># sch_owned (sch s)"
    and "dec_owned (dec s) = {#b#} \<Longrightarrow> b \<notin> set (out_flow (pipe s)) \<and> b \<notin># sch_owned (sch s)"
proof -
  show "pipe_ok (dec_role (dec s)) (sch_role (sch s)) (pipe s)" using assms by (simp add: app_ok_def)
  show "NULL \<notin># dec_owned (dec s)" "NULL \<notin># sch_owned (sch s)" using assms by (auto simp: app_ok_def)
  assume b: "dec_owned (dec s) = {#b#}"
  have "count (in_flow (pipe s) + mset (out_flow (pipe s)) + dec_owned (dec s) + sch_owned (sch s)) b \<le> 1"
    using assms unfolding app_ok_def by metis
  then have "count (mset (out_flow (pipe s))) b = 0" "count (sch_owned (sch s)) b = 0" by (simp_all add: b)
  then show "b \<notin> set (out_flow (pipe s)) \<and> b \<notin># sch_owned (sch s)" by (simp add: count_eq_zero_iff)
qed

text \<open>Writing to a buffer that is neither on its way nor with the scheduler.\<close>

lemma view_other: "b \<notin> set bs \<Longrightarrow> map (view (m(b := f))) bs = map (view m) bs"
  by (auto simp: view_def)

lemma view_same: "view (m(b := f)) b = (img f, frameno f, channel f)"
  by (simp add: view_def)

lemma sch_items_other: "b \<notin># sch_owned q \<Longrightarrow> sch_items q (m(b := f)) n ch = sch_items q m n ch"
  by (cases q) (auto simp: view_def)

text \<open>The pictures on their way, first in, first out.\<close>

fun decoded_by :: "'i app_event \<Rightarrow> 'i list" where
  "decoded_by (Decoded i) = [i]" | "decoded_by _ = []"

fun submitted_by :: "'i app_event \<Rightarrow> 'i list" where
  "submitted_by (Submitted i ch n) = [i]" | "submitted_by _ = []"

lemmas app_defs = app_ok_def content_def labelled_def

lemma app_keeps:
  assumes step: "app_step s e s'" and ok: "app_ok M s"
  shows "app_ok M s' \<and> map fst (content s) @ decoded_by e = submitted_by e @ map fst (content s')"
  using step
proof cases
  case (inner e p)
  then show ?thesis using inner_keeps [OF inner(3,4) app_okD(1) [OF ok]] ok
    by (simp add: app_defs  del: upt_Suc)
next
  case (decode p i)
  show ?thesis using call_get [OF decode(4)] app_okD(1) [OF ok] decode ok
    by (cases "sch s") (auto simp: app_defs)
next
  case (got i b p)
  then show ?thesis using return_get [OF got(4)] app_okD(1) [OF ok] ok
    by (simp add: app_defs  del: upt_Suc)
next
  case (store b p)
  then show ?thesis using call_store [OF store(4)] app_okD(1,2) [OF ok] ok
    by (simp add: app_defs  del: upt_Suc)
next
  case (stored v p)
  then show ?thesis using return_store [OF stored(4)] app_okD(1) [OF ok] ok
    by (simp add: app_defs  del: upt_Suc)
next
  case post
  then show ?thesis using ok by (simp add: app_defs  del: upt_Suc)
next
  case (wait n)
  then show ?thesis using ok by (simp add: app_defs  del: upt_Suc)
next
  case (load p)
  then show ?thesis using call_load [OF load(4)] app_okD(1) [OF ok] ok
    by (simp add: app_defs  del: upt_Suc)
next
  case (loaded_null p)
  then have "pipe_ok (dec_role (dec s)) R_Load (pipe s)" using app_okD(1) [OF ok] by simp
  then show ?thesis using return_load [OF loaded_null(4)] by blast
next
  case (loaded b p)
  have "content s \<noteq> []" using return_load [OF loaded(4)] app_okD(1) [OF ok] loaded(3) by (simp add: content_def)
  moreover have "map (fst \<circ> snd) (content s) = [Suc (totalInferNum s)..<Suc (nFrameProcessed s)]"
    using ok loaded(3) by (simp add: app_ok_def del: upt_Suc)
  ultimately have "[Suc (totalInferNum s)..<Suc (nFrameProcessed s)] \<noteq> []" by (metis Nil_is_map_conv)
  then have "Suc (totalInferNum s) \<le> nFrameProcessed s" by (simp del: upt_Suc)
  with loaded show ?thesis using return_load [OF loaded(4)] app_okD(1) [OF ok] ok
    by (simp add: app_defs  del: upt_Suc)
next
  case (put b i p)
  then show ?thesis using call_put [OF put(4)] app_okD(1,3) [OF ok] ok
    by (simp add: app_defs  del: upt_Suc)
next
  case (put_done b i v p)
  then show ?thesis using return_put [OF put_done(4)] app_okD(1) [OF ok] ok
    by (simp add: app_defs  del: upt_Suc)
next
  case (insert b i)
  have "totalInferNum s \<le> nFrameProcessed s" using ok by (simp add: app_ok_def del: upt_Suc)
  then have "[totalInferNum s..<Suc (nFrameProcessed s)] = totalInferNum s # [Suc (totalInferNum s)..<Suc (nFrameProcessed s)]"
    by (simp add: upt_conv_Cons del: upt_Suc)
  with insert show ?thesis using ok by (simp add: app_defs del: upt_Suc)
next
  case (mat b)
  have le: "totalInferNum s \<le> nFrameProcessed s" using ok by (simp add: app_ok_def del: upt_Suc)
  then have "[totalInferNum s..<Suc (nFrameProcessed s)] = totalInferNum s # [Suc (totalInferNum s)..<Suc (nFrameProcessed s)]"
    by (simp add: upt_conv_Cons del: upt_Suc)
  moreover have "map (fst \<circ> snd) (content s) = [totalInferNum s..<Suc (nFrameProcessed s)]"
    using ok mat by (simp add: app_ok_def del: upt_Suc)
  ultimately have "frameno (mem s b) = totalInferNum s" using mat(3) by (simp add: content_def view_def del: upt_Suc)
  with mat le show ?thesis using ok by (simp add: app_defs view_def del: upt_Suc)
next
  case (label b i)
  have "b \<notin> set (out_flow (pipe s))" "b \<notin># sch_owned (sch s)" using app_okD(4) [OF ok] label by simp_all
  then show ?thesis using label ok by (simp add: app_defs  view_other sch_items_other del: upt_Suc)
next
  case (copy b i)
  have "b \<notin> set (out_flow (pipe s))" "b \<notin># sch_owned (sch s)" using app_okD(4) [OF ok] copy by simp_all
  then show ?thesis using copy ok by (simp add: app_defs view_other view_same sch_items_other del: upt_Suc)
qed

interpretation app: step_invariant app_step "app_ok M" for M
  by unfold_locales (use app_keeps in blast)

definition ok_step :: "ptr multiset \<Rightarrow> 'i app \<Rightarrow> 'i app_event \<Rightarrow> 'i app \<Rightarrow> bool" where
  "ok_step M s e s' \<longleftrightarrow> app_ok M s \<and> app_step s e s'"

interpretation pictures: step_fifo "ok_step M" "map fst \<circ> content" decoded_by submitted_by for M
  by unfold_locales (use app_keeps in \<open>auto simp: ok_step_def\<close>)

lemma run_ok_step: "run app_step s es s' \<Longrightarrow> app_ok M s \<Longrightarrow> run (ok_step M) s es s'"
proof (induction rule: run.induct)
  case (run_snoc s es s' e s'')
  then have "app_ok M s'" using app.run_keeps by blast
  then show ?case using run_snoc by (intro run.run_snoc) (auto simp: ok_step_def)
qed (rule run_Nil)

lemma start_ok: "distinct bs \<Longrightarrow> NULL \<notin> set bs \<Longrightarrow> app_ok (mset bs) (start ch m bs)"
  by (auto simp: app_defs start_def new_pipe_def pipe_ok_def out_flow_def in_flow_def numeral_2_eq_2 distinct_count_atmost_1)

section \<open>What the detector is given\<close>

fun label_of :: "'i app_event \<Rightarrow> (int \<times> nat) list" where
  "label_of (Submitted i ch n) = [(ch, n)]" | "label_of _ = []"

text \<open>The labels of a run are on the channel, and at least as high as the position and at most \<open>hi\<close>.\<close>

definition labels_ok :: "int \<Rightarrow> nat \<Rightarrow> (int \<times> nat) list \<Rightarrow> bool" where
  "labels_ok ch hi ls \<longleftrightarrow> (\<forall>k < length ls. fst (ls ! k) = ch \<and> Suc k \<le> snd (ls ! k) \<and> snd (ls ! k) \<le> hi)"

lemma labels_ok_snoc:
  "labels_ok ch hi ls \<Longrightarrow> hi \<le> hi' \<Longrightarrow> Suc (length ls) \<le> n \<Longrightarrow> n \<le> hi' \<Longrightarrow> labels_ok ch hi' (ls @ [(ch, n)])"
  by (force simp: labels_ok_def nth_append less_Suc_eq)

lemma labels_ok_mono: "labels_ok ch hi ls \<Longrightarrow> hi \<le> hi' \<Longrightarrow> labels_ok ch hi' ls"
  by (force simp: labels_ok_def)

lemma app_counts:
  "app_step s e s' \<Longrightarrow> oldest (sch s') (totalInferNum s') = oldest (sch s) (totalInferNum s) + length (label_of e) \<and>
     nFrameProcessed s' = nFrameProcessed s + length (decoded_by e) \<and> nChannel s' = nChannel s"
  by (cases rule: app_step.cases) auto

lemma run_labels:
  "run app_step s es s' \<Longrightarrow> app_ok M s \<Longrightarrow> oldest (sch s) (totalInferNum s) = 1 \<Longrightarrow> nFrameProcessed s = 0 \<Longrightarrow>
   oldest (sch s') (totalInferNum s') = Suc (length (concat (map label_of es))) \<and>
   nFrameProcessed s' = length (concat (map decoded_by es)) \<and> nChannel s' = nChannel s \<and>
   labels_ok (nChannel s) (nFrameProcessed s') (concat (map label_of es))"
proof (induction rule: run.induct)
  case (run_Nil s)
  then show ?case by (simp add: labels_ok_def)
next
  case (run_snoc s es s' e s'')
  have ok: "app_ok M s'" using app.run_keeps [OF run_snoc.hyps(1)] run_snoc.prems(1) .
  note IH = run_snoc.IH [OF run_snoc.prems] and c = app_counts [OF run_snoc.hyps(2)]
  have "labels_ok (nChannel s) (nFrameProcessed s'') (concat (map label_of es) @ label_of e)"
  proof (cases "label_of e = []")
    case True
    then show ?thesis using IH c labels_ok_mono by auto
  next
    case False
    then obtain i ch n where e: "e = Submitted i ch n" by (cases e) auto
    from run_snoc.hyps(2) obtain b where b: "sch s' = S_Insert b i" "ch = channel (mem s' b)" "n = frameno (mem s' b)"
      unfolding e by cases auto
    then have "ch = nChannel s'" "totalInferNum s' \<le> n" "n \<le> nFrameProcessed s'" using ok by (auto simp: app_ok_def labelled_def)
    then show ?thesis using IH c b(1) by (auto simp: e intro!: labels_ok_snoc)
  qed
  then show ?case using IH c by simp
qed

section \<open>Stretches of a run\<close>

text \<open>Stretches of a run, one call after another; the other thread is idle.\<close>

abbreviation app_at :: "ptr list \<Rightarrow> ptr list \<Rightarrow> (ptr \<Rightarrow> 'i vsource_frame) \<Rightarrow> 'i dec_pc \<Rightarrow> 'i sch_pc \<Rightarrow>
    int \<Rightarrow> nat \<Rightarrow> nat \<Rightarrow> nat \<Rightarrow> 'i app" where
  "app_at bs os m d c ch n g k \<equiv> \<lparr>pipe = \<lparr>m_inPipe = bs, m_outPipe = os, m_mutex = None, threads = [Idle, Idle]\<rparr>, mem = m, dec = d,
     sch = c, nChannel = ch, nFrameProcessed = n, gNewtaskAvaiable = g, totalInferNum = k\<rparr>"

lemma dec_takes:
  assumes "b \<noteq> NULL"
  shows "run app_step (app_at (b # bs) os m D_Next c ch n g k) [Decoded i, Internal, Internal, Internal]
    (app_at bs os m (D_Label b i) c ch (Suc n) g k)"
  apply (rule run_cons, rule decode, simp, rule pipe_step.call, simp)
  apply (rule run_cons, rule inner, rule pipe_step.lock [where t = 0], simp, simp, simp, simp)
  apply (rule run_cons, rule inner, rule pipe_step.get_take [where t = 0], simp, simp, rule assms, simp)
  apply (rule run_cons, rule got, simp, rule pipe_step.ret [where t = 0], simp, simp)
  by (rule run_end, simp)

lemma internals: "replicate 8 a = [a, a, a, a, a, a, a, a]" "replicate 5 a = [a, a, a, a, a]"
  by (simp_all add: eval_nat_numeral)

lemma dec_hands_on:
  "run app_step (app_at bs os m (D_Label b i) c ch n g k) (replicate 8 Internal)
    (app_at bs (os @ [b]) (m(b := (m b)\<lparr>img := i, channel := ch, frameno := n\<rparr>)) D_Next c ch n (Suc g) k)"
  unfolding internals
  apply (rule run_cons, rule label, simp)
  apply (rule run_cons, rule copy, simp)
  apply (rule run_cons, rule store, simp, rule pipe_step.call, simp)
  apply (rule run_cons, rule inner, rule pipe_step.lock [where t = 0], simp, simp, simp, simp)
  apply (rule run_cons, rule inner, rule pipe_step.store [where t = 0], simp, simp)
  apply (rule run_cons, rule inner, rule pipe_step.store_unlock [where t = 0], simp, simp)
  apply (rule run_cons, rule stored, simp, rule pipe_step.signal_none, simp, simp)
  apply (rule run_cons, rule post, simp)
  by (rule run_end, simp add: fun_upd_def fun_eq_iff)

lemma sch_takes:
  assumes "b \<noteq> NULL"
  shows "run app_step (app_at bs (b # os) m d S_Wait ch n (Suc g) k) (replicate 5 Internal)
    (app_at bs os m d (S_Mat b) ch n g (Suc k))"
  unfolding internals
  apply (rule run_cons, rule wait, simp, simp)
  apply (rule run_cons, rule load, simp, rule pipe_step.call, simp)
  apply (rule run_cons, rule inner, rule pipe_step.lock [where t = 1], simp, simp, simp, simp)
  apply (rule run_cons, rule inner, rule pipe_step.load_take [where t = 1 and timed = False and out = False], simp, simp, rule assms, simp)
  apply (rule run_cons, rule loaded, simp, rule pipe_step.ret [where t = 1], simp, simp, rule assms)
  by (rule run_end, simp)

lemma sch_gives_back:
  "run app_step (app_at bs os m d (S_Mat b) ch n g k) (replicate 5 Internal)
    (app_at (b # bs) os m d (S_Insert b (img (m b))) ch n g k)"
  unfolding internals
  apply (rule run_cons, rule mat, simp)
  apply (rule run_cons, rule put, simp, rule pipe_step.call, simp)
  apply (rule run_cons, rule inner, rule pipe_step.lock [where t = 1], simp, simp, simp, simp)
  apply (rule run_cons, rule inner, rule pipe_step.put [where t = 1], simp, simp)
  apply (rule run_cons, rule put_done, simp, rule pipe_step.ret [where t = 1], simp, simp)
  by (rule run_end, simp)

text \<open>
  The free buffers are a stack, so the buffer that the scheduler has given back is the one that
  the decode thread takes next.
\<close>

definition race :: "int \<Rightarrow> 'i \<Rightarrow> 'i \<Rightarrow> 'i app_event list" where
  "race ch i j = [Decoded i, Internal, Internal, Internal] @ replicate 8 Internal @ replicate 5 Internal @ replicate 5 Internal @
     [Decoded j, Internal, Internal, Internal] @ [Internal] @ [Submitted i ch 2]"

lemma race_run:
  assumes "b \<noteq> NULL"
  shows "\<exists>s'. run app_step (start ch m (b # bs)) (race ch i j) s'"
proof -
  let ?m = "m(b := (m b)\<lparr>img := i, channel := ch, frameno := 1\<rparr>)"
  let ?n = "?m(b := (?m b)\<lparr>channel := ch, frameno := 2\<rparr>)"
  have "app_step (app_at bs [] ?m (D_Label b j) (S_Insert b i) ch 2 0 1) Internal
      (app_at bs [] ?n (D_Copy b j) (S_Insert b i) ch 2 0 1)"
    using label [of "app_at bs [] ?m (D_Label b j) (S_Insert b i) ch 2 0 1" b j] by simp
  note l = run_one [of app_step, OF this]
  have "app_step (app_at bs [] ?n (D_Copy b j) (S_Insert b i) ch 2 0 1) (Submitted i ch 2) (app_at bs [] ?n (D_Copy b j) S_Wait ch 2 0 1)"
    using insert [of "app_at bs [] ?n (D_Copy b j) (S_Insert b i) ch 2 0 1" b i] by simp
  note x = run_one [of app_step, OF this]
  have "run app_step (app_at (b # bs) [] m D_Next S_Wait ch 0 0 0) [Decoded i, Internal, Internal, Internal]
      (app_at bs [] m (D_Label b i) S_Wait ch 1 0 0)"
    using dec_takes [OF assms, of bs "[]" m S_Wait ch 0 0 0 i] by simp
  moreover have "run app_step (app_at bs [] m (D_Label b i) S_Wait ch 1 0 0) (replicate 8 Internal)
      (app_at bs [b] ?m D_Next S_Wait ch 1 1 0)"
    using dec_hands_on [of bs "[]" m b i S_Wait ch 1 0 0] by simp
  moreover have "run app_step (app_at bs [b] ?m D_Next S_Wait ch 1 1 0) (replicate 5 Internal) (app_at bs [] ?m D_Next (S_Mat b) ch 1 0 1)"
    using sch_takes [OF assms, of bs "[]" ?m D_Next ch 1 0 0] by simp
  moreover have "run app_step (app_at bs [] ?m D_Next (S_Mat b) ch 1 0 1) (replicate 5 Internal)
      (app_at (b # bs) [] ?m D_Next (S_Insert b i) ch 1 0 1)"
    using sch_gives_back [of bs "[]" ?m D_Next b ch 1 0 1] by simp
  moreover have "run app_step (app_at (b # bs) [] ?m D_Next (S_Insert b i) ch 1 0 1) [Decoded j, Internal, Internal, Internal]
      (app_at bs [] ?m (D_Label b j) (S_Insert b i) ch 2 0 1)"
    using dec_takes [OF assms, of bs "[]" ?m "S_Insert b i" ch 1 0 1 j] by (simp add: numeral_2_eq_2)
  ultimately have "run app_step (app_at (b # bs) [] m D_Next S_Wait ch 0 0 0) (race ch i j)
      (app_at bs [] ?n (D_Copy b j) S_Wait ch 2 0 1)"
    unfolding race_def using l x by (blast intro: run_append)
  then show ?thesis by (auto simp: start_def new_pipe_def numeral_2_eq_2)
qed

text \<open>
  C9: The application between decoder and detector, in every interleaving of the two threads and
  of the steps inside their calls of the pipe. The pictures reach the detector in the order in
  which they were decoded, none lost, repeated or overwritten while it is copied; each one
  carries the channel of the thread, and a number that is never lower than its own.
\<close>

theorem pipeline_pictures:
  assumes "distinct bs" "NULL \<notin> set bs" "run app_step (start ch m bs) es s'"
  shows "\<exists>rest. concat (map decoded_by es) = concat (map submitted_by es) @ rest \<and>
    labels_ok ch (length (concat (map decoded_by es))) (concat (map label_of es))"
proof -
  note ok = start_ok [OF assms(1,2), of ch m]
  have "concat (map decoded_by es) = concat (map submitted_by es) @ (map fst \<circ> content) s'"
    using pictures.run_content [OF run_ok_step [OF assms(3) ok]] by (simp add: start_def content_def new_pipe_def out_flow_def)
  moreover have "labels_ok ch (length (concat (map decoded_by es))) (concat (map label_of es))"
    using run_labels [OF assms(3) ok] by (auto simp: start_def)
  ultimately show ?thesis by blast
qed

text \<open>The run of \<open>race\<close> is one of them.\<close>

lemma pipeline_pictures_witness:
  "\<exists>rest. concat (map decoded_by (race 0 (7::nat) 8)) = concat (map submitted_by (race 0 7 8)) @ rest \<and>
    labels_ok 0 (length (concat (map decoded_by (race 0 (7::nat) 8)))) (concat (map label_of (race 0 (7::nat) 8)))"
proof -
  obtain s' where "run app_step (start 0 (\<lambda>_. \<lparr>img = 0, channel = 0, frameno = 0\<rparr>) [1, 2]) (race 0 (7::nat) 8) s'"
    using race_run [of 1 0 _ "[2]" 7 8] by auto
  then show ?thesis by (intro pipeline_pictures [of "[1, 2]"]) simp_all
qed

text \<open>
  C32: The scheduler gives the buffer back before it reads channel and number from it. From every
  start with a free buffer there is a run in which the first picture of the channel is submitted to
  the detector under number 2, the one of the second picture, which the decode thread has by then
  labelled in the same buffer.
\<close>

theorem pipeline_label_race:
  assumes "b \<noteq> NULL"
  shows "\<exists>es s'. run app_step (start ch m (b # bs)) es s' \<and> concat (map decoded_by es) = [i, j] \<and>
    concat (map submitted_by es) = [i] \<and> concat (map label_of es) = [(ch, 2)]"
  using race_run [OF assms, of ch m bs i j] by (intro exI [of _ "race ch i j"]) (auto simp: race_def internals)

lemma pipeline_label_race_witness:
  "\<exists>es s'. run app_step (start 5 (\<lambda>_. \<lparr>img = (0::nat), channel = 0, frameno = 0\<rparr>) [1]) es s' \<and> concat (map decoded_by es) = [7, 8] \<and>
    concat (map submitted_by es) = [7] \<and> concat (map label_of es) = [(5, 2)]"
  by (rule pipeline_label_race) simp

end
