(* ===== verification/Dft_Table.thy ===== *)
theory Dft_Table
  imports Dft_Plan Ieee Writes
begin

text \<open>
  The tables of a discrete Fourier transform (\<open>video_analytics_example/kcftracker.cpp\<close>,
  \<open>KCFTracker::DFTInit\<close>): the order in which the transform reads its input (\<open>itab\<close>), for the
  factors that \<open>DFTFactorize\<close> has found, and the powers of the root of unity (\<open>wave\<close>).

  The arrays \<open>itab\<close> and \<open>wave\<close> are the caller's, \<open>digits\<close> and \<open>radix\<close> have 34 places and start
  with any values; an access outside an array is the value None. The inverse table is built with
  \<open>wave\<close> as working memory for integers; \<open>as_int\<close> and \<open>as_float\<close> reread its bytes. The sine is a
  parameter. The lemmas show that \<open>itab\<close> is the reversal of digits to the primes of the length,
  so a permutation, and that the inverse table is its inverse.
\<close>

section \<open>The constants\<close>

definition bitrevTab :: "nat list" where
  "bitrevTab =
    [0, 128, 64, 192, 32, 160, 96, 224, 16, 144, 80, 208, 48, 176, 112, 240,
     8, 136, 72, 200, 40, 168, 104, 232, 24, 152, 88, 216, 56, 184, 120, 248,
     4, 132, 68, 196, 36, 164, 100, 228, 20, 148, 84, 212, 52, 180, 116, 244,
     12, 140, 76, 204, 44, 172, 108, 236, 28, 156, 92, 220, 60, 188, 124, 252,
     2, 130, 66, 194, 34, 162, 98, 226, 18, 146, 82, 210, 50, 178, 114, 242,
     10, 138, 74, 202, 42, 170, 106, 234, 26, 154, 90, 218, 58, 186, 122, 250,
     6, 134, 70, 198, 38, 166, 102, 230, 22, 150, 86, 214, 54, 182, 118, 246,
     14, 142, 78, 206, 46, 174, 110, 238, 30, 158, 94, 222, 62, 190, 126, 254,
     1, 129, 65, 193, 33, 161, 97, 225, 17, 145, 81, 209, 49, 177, 113, 241,
     9, 137, 73, 201, 41, 169, 105, 233, 25, 153, 89, 217, 57, 185, 121, 249,
     5, 133, 69, 197, 37, 165, 101, 229, 21, 149, 85, 213, 53, 181, 117, 245,
     13, 141, 77, 205, 45, 173, 109, 237, 29, 157, 93, 221, 61, 189, 125, 253,
     3, 131, 67, 195, 35, 163, 99, 227, 19, 147, 83, 211, 51, 179, 115, 243,
     11, 139, 75, 203, 43, 171, 107, 235, 27, 155, 91, 219, 59, 187, 123, 251,
     7, 135, 71, 199, 39, 167, 103, 231, 23, 151, 87, 215, 55, 183, 119, 247,
     15, 143, 79, 207, 47, 175, 111, 239, 31, 159, 95, 223, 63, 191, 127, 255]"

text \<open>Cosine and sine of the angles 2 pi / 2 ^ m, in units of 10 ^ -17.\<close>

definition DFTTab :: "(int \<times> int) list" where
  "DFTTab =
    [(100000000000000000, 0), (-100000000000000000, 0),
     (0, 100000000000000000), (70710678118654757, 70710678118654746),
     (92387953251128674, 38268343236508978), (98078528040323043, 19509032201612825),
     (99518472667219693, 9801714032956060), (99879545620517241, 4906767432741802),
     (99969881869620425, 2454122852291229), (99992470183914450, 1227153828571993),
     (99998117528260111, 613588464915448), (99999529380957619, 306795676296598),
     (99999882345170188, 153398018628477), (99999970586288223, 76699031874270),
     (99999992646571789, 38349518757140), (99999998161642933, 19174759731070),
     (99999999540410733, 9587379909598), (99999999885102686, 4793689960307),
     (99999999971275666, 2396844980842), (99999999992818922, 1198422490507),
     (99999999998204725, 599211245264), (99999999999551181, 299605622633),
     (99999999999887801, 149802811317), (99999999999971945, 74901405658),
     (99999999999992983, 37450702829), (99999999999998246, 18725351415),
     (99999999999999567, 9362675707), (99999999999999889, 4681337854),
     (99999999999999978, 2340668927), (99999999999999989, 1170334463),
     (100000000000000000, 585167232), (100000000000000000, 292583616)]"

definition from_units :: "int \<Rightarrow> ieee" where
  "from_units k = mk b64 False (of_int k / 10 ^ 17)"

definition CV_PI :: ieee where
  "CV_PI = mk b64 False (31415926535897932384626433832795 / 10 ^ 31)"

text \<open>
  The macro \<open>BitRev\<close>: the bytes of the 32-bit number are turned round one by one and put together
  in the opposite order, and the result is shifted.
\<close>

definition BitRev :: "nat \<Rightarrow> nat \<Rightarrow> nat option" where
  "BitRev i shift = do {
     b0 \<leftarrow> rd bitrevTab (i mod 256);
     b1 \<leftarrow> rd bitrevTab (i div 2 ^ 8 mod 256);
     b2 \<leftarrow> rd bitrevTab (i div 2 ^ 16 mod 256);
     b3 \<leftarrow> rd bitrevTab (i div 2 ^ 24);
     Some ((b0 * 2 ^ 24 + b1 * 2 ^ 16 + b2 * 2 ^ 8 + b3) mod 2 ^ 32 div 2 ^ shift) }"

section \<open>The order of the input\<close>

text \<open>Both arrays are filled from index \<open>nf\<close> down to zero; \<open>digits\<close> and \<open>radix\<close> are not initialised.\<close>

definition init_radix :: "nat \<Rightarrow> int list \<Rightarrow> int list \<times> int list \<Rightarrow> (int list \<times> int list) option" where
  "init_radix nf factors = (\<lambda>(digits, radix). do {
     radix \<leftarrow> wr radix nf 1;
     digits \<leftarrow> wr digits nf 0;
     loop nf (\<lambda>i (digits, radix). do {
       digits \<leftarrow> wr digits i 0;
       r \<leftarrow> rd radix (nf - i);
       f \<leftarrow> rd factors (nf - i - 1);
       radix \<leftarrow> wr radix (nf - i - 1) (r * f);
       Some (digits, radix) }) (digits, radix) })"

text \<open>The loop \<open>for( k = ..; ++digits[k] >= factors[k]; k++ )\<close>, which counts one up with carries.\<close>

function carry :: "int list \<Rightarrow> int list \<Rightarrow> nat \<Rightarrow> int list \<Rightarrow> int \<Rightarrow> (int list \<times> int) option" where
  "carry factors radix k digits j =
     (if k < length digits then do {
        f \<leftarrow> rd factors k;
        if digits ! k + 1 \<ge> f then do {
          a \<leftarrow> rd radix (k + 2);
          b \<leftarrow> rd radix k;
          carry factors radix (k + 1) (digits[k := 0]) (j + (a - b)) }
        else Some (digits[k := digits ! k + 1], j) }
      else None)"
  by pat_completeness auto

termination carry
  by (relation "measure (\<lambda>(factors, radix, k, digits, j). length digits - k)") auto

declare carry.simps [simp del]

text \<open>An odd length: one digit per factor.\<close>

definition odd_table :: "nat \<Rightarrow> int list \<Rightarrow> int list \<Rightarrow> int list \<Rightarrow> int list \<Rightarrow> int list option" where
  "odd_table n0 factors radix digits itab = map_option fst (
     loop n0 (\<lambda>i (itab, digits, j). do {
       itab \<leftarrow> wr itab i j;
       if i + 1 \<ge> n0 then Some (itab, digits, j)
       else do {
         r \<leftarrow> rd radix 1;
         (digits, j) \<leftarrow> carry factors radix 0 digits (j + r);
         Some (itab, digits, j) } }) (itab, digits, 0))"

text \<open>The first \<open>n\<close> entries of an even length; \<open>n\<close> is its power of two.\<close>

function log_from :: "nat \<Rightarrow> nat \<Rightarrow> nat" where
  "log_from m n = (if 2 ^ m < n then log_from (m + 1) n else m)"
  by pat_completeness auto

termination log_from
  by (relation "measure (\<lambda>(m, n). n - m)") (auto dest: less_le_trans [OF less_exp] intro!: diff_less_mono2 intro: less_trans [OF less_exp])

declare log_from.simps [simp del]

definition write_four :: "nat \<Rightarrow> nat \<Rightarrow> nat \<Rightarrow> nat \<Rightarrow> int list \<Rightarrow> int list option" where
  "write_four i j na2 na4 itab = do {
     itab \<leftarrow> wr itab i (int j);
     itab \<leftarrow> wr itab (i + 1) (int (j + na2));
     itab \<leftarrow> wr itab (i + 2) (int (j + na4));
     wr itab (i + 3) (int (j + na2 + na4)) }"

definition two_table :: "nat \<Rightarrow> nat \<Rightarrow> nat \<Rightarrow> int list \<Rightarrow> int list option" where
  "two_table n a m itab =
     (let na2 = n * a div 2; na4 = na2 div 2 in
      if n \<le> 2 then do { itab \<leftarrow> wr itab 0 0; wr itab 1 (int na2) }
      else if n \<le> 256 then
        loop (n div 4) (\<lambda>q itab. do {
          b \<leftarrow> rd bitrevTab q;
          write_four (4 * q) (b div 2 ^ (10 - m) * a) na2 na4 itab }) itab
      else
        loop (n div 4) (\<lambda>q itab. do {
          b \<leftarrow> BitRev q (34 - m);
          write_four (4 * q) (b * a) na2 na4 itab }) itab)"

text \<open>The entries behind them: the first \<open>n\<close> again, moved by the digits to the odd factors.\<close>

definition odd_copies :: "nat \<Rightarrow> nat \<Rightarrow> int list \<Rightarrow> int list \<Rightarrow> int list \<Rightarrow> int list \<Rightarrow> int list option" where
  "odd_copies n0 n factors radix digits itab = do {
     r \<leftarrow> rd radix 2;
     map_option fst (loop ((n0 - 1) div n) (\<lambda>q (itab, digits, j). do {
       let i = n * (q + 1);
       itab \<leftarrow> loop n (\<lambda>k itab. do { v \<leftarrow> rd itab k; wr itab (i + k) (v + j) }) itab;
       if i + n \<ge> n0 then Some (itab, digits, j)
       else do {
         (digits, j) \<leftarrow> carry factors radix 1 digits (j + r);
         Some (itab, digits, j) } }) (itab, digits, r)) }"

definition even_table :: "nat \<Rightarrow> nat \<Rightarrow> int list \<Rightarrow> int list \<Rightarrow> int list \<Rightarrow> int list \<Rightarrow> int list option" where
  "even_table n0 nf factors radix digits itab = do {
     f \<leftarrow> rd factors 0;
     let n = nat f;
     a \<leftarrow> rd radix 1;
     itab \<leftarrow> two_table n (nat a) (log_from 0 n) itab;
     d \<leftarrow> rd digits 1;
     digits \<leftarrow> wr digits 1 (d + 1);
     if nf \<ge> 2 then odd_copies n0 n factors radix digits itab else Some itab }"

text \<open>The inverse of a table.\<close>

definition invert :: "nat \<Rightarrow> int list \<Rightarrow> int list \<Rightarrow> int list option" where
  "invert n0 itab itab0 = do {
     itab0 \<leftarrow> wr itab0 0 0;
     loop ((n0 - n0 mod 2 + 1) div 2) (\<lambda>q itab0. do {
       let i = n0 mod 2 + 2 * q;
       k0 \<leftarrow> rd itab i;
       k1 \<leftarrow> rd itab (i + 1);
       itab0 \<leftarrow> wrz itab0 k0 (int i);
       wrz itab0 k1 (int i + 1) }) itab0 }"

definition small_table :: "nat \<Rightarrow> int list \<Rightarrow> int list option" where
  "small_table n0 itab = do {
     itab \<leftarrow> wr itab 0 0;
     itab \<leftarrow> wrz itab (int n0 - 1) (int n0 - 1);
     if n0 \<noteq> 4 then loop (n0 - 2) (\<lambda>i itab. wr itab (i + 1) (int (i + 1))) itab
     else do { itab \<leftarrow> wr itab 1 2; wr itab 2 1 } }"

section \<open>The powers of the root of unity\<close>

definition first_root :: "(ieee \<Rightarrow> ieee) \<Rightarrow> nat \<Rightarrow> nat \<Rightarrow> (ieee \<times> ieee) option" where
  "first_root sine n0 m =
     (if n0 AND (n0 - 1) = 0 then do { (c, s) \<leftarrow> rd DFTTab m; Some (from_units c, fneg (from_units s)) }
      else
        (let t = divd (muld (fneg CV_PI) (Fin 2)) (of_z b64 (int n0)); w1 = sine t in
         Some (fsqrt b32 (cvt b32 (subd (Fin 1) (muld w1 w1))), w1)))"

definition next_root :: "ieee \<times> ieee \<Rightarrow> ieee \<times> ieee \<Rightarrow> ieee \<times> ieee" where
  "next_root w1 w = (subd (muld (fst w) (fst w1)) (muld (snd w) (snd w1)),
     addd (muld (fst w) (snd w1)) (muld (snd w) (fst w1)))"

definition write_wave :: "nat \<Rightarrow> ieee \<times> ieee \<Rightarrow> ieee list \<Rightarrow> ieee list option" where
  "write_wave n0 w1 wave =
     (let n = (n0 + 1) div 2 in do {
        wave \<leftarrow> wr wave 0 (Fin 1);
        wave \<leftarrow> wr wave 1 (Fin 0);
        wave \<leftarrow> (if even n0 then do { wave \<leftarrow> wr wave (2 * n) (Fin (-1)); wr wave (2 * n + 1) (Fin 0) } else Some wave);
        map_option fst (loop (n - 1) (\<lambda>i (wave, w). do {
          let i = i + 1;
          wave \<leftarrow> wr wave (2 * i) (cvt b32 (fst w));
          wave \<leftarrow> wr wave (2 * i + 1) (cvt b32 (snd w));
          wave \<leftarrow> wr wave (2 * (n0 - i)) (cvt b32 (fst w));
          wave \<leftarrow> wr wave (2 * (n0 - i) + 1) (cvt b32 (fneg (snd w)));
          Some (wave, next_root w1 w) }) (wave, w1)) })"

section \<open>DFTInit\<close>

definition order_table ::
    "(int list \<times> int list) \<Rightarrow> nat \<Rightarrow> nat \<Rightarrow> int list \<Rightarrow> int list \<Rightarrow> int list option" where
  "order_table junk n0 nf factors itab = do {
     (digits, radix) \<leftarrow> init_radix nf factors junk;
     f \<leftarrow> rd factors 0;
     if even f then even_table n0 nf factors radix digits itab
     else odd_table n0 factors radix digits itab }"

definition DFTInit ::
    "(ieee \<Rightarrow> ieee) \<Rightarrow> (ieee \<Rightarrow> int) \<Rightarrow> (int \<Rightarrow> ieee) \<Rightarrow> (int list \<times> int list) \<Rightarrow> nat \<Rightarrow> nat \<Rightarrow> int list \<Rightarrow> bool \<Rightarrow>
     int list \<times> ieee list \<Rightarrow> (int list \<times> ieee list) option" where
  "DFTInit sine as_int as_float junk n0 nf factors inv_itab = (\<lambda>(itab, wave).
     if n0 \<le> 5 then do {
       itab \<leftarrow> small_table n0 itab;
       wave \<leftarrow> (if n0 = 5 then do { wave \<leftarrow> wr wave 0 (Fin 1); wr wave 1 (Fin 0) } else Some wave);
       if n0 \<noteq> 4 then Some (itab, wave)
       else do {
         w \<leftarrow> first_root sine n0 2;
         wave \<leftarrow> write_wave n0 w wave;
         Some (itab, wave) } }
     else if nf < 34 then do {
       f \<leftarrow> rd factors 0;
       differ \<leftarrow> (if inv_itab then do { l \<leftarrow> rd factors (nf - 1); Some (f \<noteq> l) } else Some False);
       (itab, wave) \<leftarrow> (if differ then do {
           tmp \<leftarrow> order_table junk n0 nf factors (map as_int wave);
           itab \<leftarrow> invert n0 tmp itab;
           Some (itab, map as_float (take n0 tmp) @ drop n0 wave) }
         else do {
           itab \<leftarrow> order_table junk n0 nf factors itab;
           Some (itab, wave) });
       w \<leftarrow> first_root sine n0 (if even f then log_from 0 (nat f) else 0);
       wave \<leftarrow> write_wave n0 w wave;
       Some (itab, wave) }
     else None)"

section \<open>Reversal of digits\<close>

text \<open>
  A number in the mixed radix \<open>f # fs\<close>, the digit to the base \<open>f\<close> last, read the other way round.
\<close>

fun digit_reverse :: "nat list \<Rightarrow> nat \<Rightarrow> nat" where
  "digit_reverse [] i = 0"
| "digit_reverse (f # fs) i = i mod f * prod_list fs + digit_reverse fs (i div f)"

lemma digit_reverse_0 [simp]: "digit_reverse fs 0 = 0"
  by (induction fs) simp_all

lemma prod_pos: "0 \<notin> set fs \<Longrightarrow> 0 < prod_list (fs :: nat list)"
  by (induction fs) auto

lemma digit_reverse_less: "0 \<notin> set fs \<Longrightarrow> digit_reverse fs i < prod_list fs"
  by (induction fs arbitrary: i) (auto intro: index2_less)

lemma digit_reverse_append:
  "digit_reverse (fs @ gs) i = digit_reverse fs i * prod_list gs + digit_reverse gs (i div prod_list fs)"
  by (induction fs arbitrary: i) (simp_all add: div_mult2_eq algebra_simps)

lemma digit_reverse_mod: "digit_reverse fs (i mod prod_list fs) = digit_reverse fs i"
proof (induction fs arbitrary: i)
  case (Cons f fs)
  have "i mod (f * prod_list fs) mod f = i mod f" by (simp add: mod_mult2_eq)
  moreover have "i mod (f * prod_list fs) div f = i div f mod prod_list fs" by (cases "f = 0") (simp_all add: mod_mult2_eq)
  ultimately show ?case using Cons.IH [of "i div f"] by simp
qed simp

lemma digit_reverse_rev: "0 \<notin> set fs \<Longrightarrow> i < prod_list fs \<Longrightarrow> digit_reverse (rev fs) (digit_reverse fs i) = i"
proof (induction fs arbitrary: i)
  case (Cons f fs)
  let ?x = "i mod f * prod_list fs + digit_reverse fs (i div f)" and ?P = "prod_list (rev fs)"
  have P: "?P = prod_list fs" by (simp add: prod_list.rev)
  have less: "digit_reverse fs (i div f) < ?P" using Cons.prems digit_reverse_less P by simp
  have "i div f < prod_list fs" using Cons.prems by (simp add: less_mult_imp_div_less mult.commute)
  then have IH: "digit_reverse (rev fs) (digit_reverse fs (i div f)) = i div f" using Cons by simp
  have "?x mod ?P = digit_reverse fs (i div f)" "?x div ?P = i mod f" using less by (simp_all add: P)
  then have "digit_reverse (rev fs @ [f]) ?x = i div f * f + i mod f"
    using IH digit_reverse_mod [of "rev fs" ?x] by (simp add: digit_reverse_append)
  then show ?case by simp
qed simp

lemma reversals:
  assumes "0 \<notin> set fs" "i < prod_list fs"
  shows "digit_reverse fs i < prod_list fs \<and> digit_reverse (rev fs) i < prod_list fs \<and>
    digit_reverse (rev fs) (digit_reverse fs i) = i \<and> digit_reverse fs (digit_reverse (rev fs) i) = i"
  using assms digit_reverse_less [of fs i] digit_reverse_less [of "rev fs" i] digit_reverse_rev [of fs i] digit_reverse_rev [of "rev fs" i]
  by (simp add: prod_list.rev)

lemma digit_reverse_permutes:
  assumes "0 \<notin> set fs"
  shows "digit_reverse fs ` {..<prod_list fs} = {..<prod_list fs}"
proof (rule endo_inj_surj)
  show "inj_on (digit_reverse fs) {..<prod_list fs}"
    by (rule inj_on_inverseI [of _ "digit_reverse (rev fs)"]) (use assms digit_reverse_rev in auto)
qed (use assms digit_reverse_less in auto)

text \<open>Reversal of bits, and numbers with leading zeros.\<close>

abbreviation bits :: "nat \<Rightarrow> nat list" where
  "bits k \<equiv> replicate k 2"

lemma prod_bits: "prod_list (bits k) = 2 ^ k"
  by (induction k) simp_all

lemma bit_reverse_add: "digit_reverse (bits (k + l)) q = digit_reverse (bits k) q * 2 ^ l + digit_reverse (bits l) (q div 2 ^ k)"
  by (simp add: replicate_add digit_reverse_append prod_bits)

lemma bit_reverse_shift: "q < 2 ^ k \<Longrightarrow> digit_reverse (bits (k + l)) q div 2 ^ l = digit_reverse (bits k) q"
  by (simp add: bit_reverse_add)

lemma bit_reverse_less: "digit_reverse (bits k) q < 2 ^ k"
  using digit_reverse_less [of "bits k" q] by (simp add: prod_bits)

definition nibbles :: "nat list" where
  "nibbles = [0, 8, 4, 12, 2, 10, 6, 14, 1, 9, 5, 13, 3, 11, 7, 15]"

lemma nibbles_eq: "nibbles = map (digit_reverse (bits 4)) [0..<16]"
  by code_simp

lemma bitrevTab_entries: "bitrevTab = map (digit_reverse (bits 8)) [0..<256]"
proof -
  have "bitrevTab = concat (map (\<lambda>hi. map (\<lambda>lo. lo * 16 + hi) nibbles) nibbles)"
    by (simp add: bitrevTab_def nibbles_def)
  also have "\<dots> = concat (map (\<lambda>hi. map (\<lambda>lo. digit_reverse (bits 4) lo * 16 + digit_reverse (bits 4) hi) [0..<16]) [0..<16])"
    by (simp add: nibbles_eq comp_def del: upt_rec_numeral)
  also have "\<dots> = map (\<lambda>k. digit_reverse (bits 4) (k mod 16) * 16 + digit_reverse (bits 4) (k div 16)) [0..<16 * 16]"
    by (rule concat_map_upt)
  also have "\<dots> = map (digit_reverse (bits 8)) [0..<256]"
    using digit_reverse_mod [of "bits 4"] bit_reverse_add [of 4 4] by (simp add: prod_bits del: upt_rec_numeral)
  finally show ?thesis .
qed

lemma bitrevTab_nth: "q < 256 \<Longrightarrow> rd bitrevTab q = Some (digit_reverse (bits 8) q)"
  by (simp add: rd_def bitrevTab_entries del: upt_rec_numeral)

lemma bitrevTab_shift:
  assumes "q < 2 ^ k" "k \<le> 8"
  shows "\<exists>b. rd bitrevTab q = Some b \<and> b div 2 ^ (8 - k) = digit_reverse (bits k) q"
proof -
  have "q < 256" using assms less_le_trans [OF _ power_increasing [of k 8 "2::nat"]] by simp
  then show ?thesis using bit_reverse_shift [OF assms(1), of "8 - k"] assms(2) bitrevTab_nth by simp
qed

lemma BitRev_eq:
  assumes "q < 2 ^ k" "k \<le> 32"
  shows "BitRev q (32 - k) = Some (digit_reverse (bits k) q)"
proof -
  have byte: "rd bitrevTab (i mod 256) = Some (digit_reverse (bits 8) i)" for i
    using bitrevTab_nth [of "i mod 256"] digit_reverse_mod [of "bits 8" i] by (simp add: prod_bits)
  have "q < 2 ^ 32" using assms less_le_trans [OF _ power_increasing [of k 32 "2::nat"]] by simp
  then have "q div 16777216 < 256" by (simp add: less_mult_imp_div_less)
  then have top: "rd bitrevTab (q div 16777216) = Some (digit_reverse (bits 8) (q div 16777216))" by (rule bitrevTab_nth)
  have "digit_reverse (bits 32) q = digit_reverse (bits 8) q * 2 ^ 24 + digit_reverse (bits 24) (q div 2 ^ 8)"
    "digit_reverse (bits 24) (q div 2 ^ 8) = digit_reverse (bits 8) (q div 2 ^ 8) * 2 ^ 16 + digit_reverse (bits 16) (q div 2 ^ 16)"
    "digit_reverse (bits 16) (q div 2 ^ 16) = digit_reverse (bits 8) (q div 2 ^ 16) * 2 ^ 8 + digit_reverse (bits 8) (q div 2 ^ 24)"
    using bit_reverse_add [of 8 24 q] bit_reverse_add [of 8 16 "q div 2 ^ 8"] bit_reverse_add [of 8 8 "q div 2 ^ 16"]
    by (simp_all add: div_mult2_eq [symmetric])
  then have "BitRev q (32 - k) = Some (digit_reverse (bits 32) q mod 2 ^ 32 div 2 ^ (32 - k))"
    by (simp add: BitRev_def byte top add.assoc)
  then show ?thesis using bit_reverse_less [of 32 q] bit_reverse_shift [OF assms(1), of "32 - k"] assms(2)
    by simp
qed

section \<open>Counting with carries\<close>

text \<open>A list that an array holds from some place on.\<close>

fun at_seg :: "'a list \<Rightarrow> nat \<Rightarrow> 'a list \<Rightarrow> bool" where
  "at_seg xs p [] \<longleftrightarrow> True"
| "at_seg xs p (y # ys) \<longleftrightarrow> p < length xs \<and> xs ! p = y \<and> at_seg xs (Suc p) ys"

lemma at_seg_below: "q < p \<Longrightarrow> at_seg xs p ys \<Longrightarrow> at_seg (xs[q := v]) p ys"
  by (induction ys arbitrary: p) auto

lemma at_seg_nth: "at_seg xs p ys \<Longrightarrow> k < length ys \<Longrightarrow> p + k < length xs \<and> xs ! (p + k) = ys ! k"
proof (induction ys arbitrary: p k)
  case (Cons y ys)
  then show ?case by (cases k) fastforce+
qed simp

text \<open>The digits of a number, and the products that \<open>radix\<close> holds.\<close>

fun digs :: "nat list \<Rightarrow> nat \<Rightarrow> int list" where
  "digs [] i = []" | "digs (f # fs) i = int (i mod f) # digs fs (i div f)"

fun radices :: "nat list \<Rightarrow> int list" where
  "radices [] = [1]" | "radices (f # fs) = int (f * prod_list fs) # radices fs"

lemma radices_hd: "at_seg radix p (radices fs) \<Longrightarrow> p < length radix \<and> radix ! p = int (prod_list fs)"
  by (cases fs) auto

lemma digs_0: "digs fs 0 = replicate (length fs) 0"
  by (induction fs) simp_all

lemma carry_spec:
  assumes "at_seg factors k (map int fs)" "at_seg radix k (radices fs)" "at_seg digits k (digs fs i)" "Suc i < prod_list fs"
  shows "ok (carry factors radix k digits (j + int (prod_list (tl fs))))
    (\<lambda>(digits', j'). at_seg digits' k (digs fs (Suc i)) \<and> j' = j + int (digit_reverse fs (Suc i)) - int (digit_reverse fs i) \<and>
       length digits' = length digits \<and> (\<forall>q < k. digits' ! q = digits ! q))"
  using assms
proof (induction fs arbitrary: k digits i j)
  case (Cons f fs)
  have f: "0 < f" and k: "k < length factors" "factors ! k = int f" "k < length digits" "digits ! k = int (i mod f)"
    and r: "k < length radix" "radix ! k = int (f * prod_list fs)"
    using Cons.prems by (auto intro: gr0I)
  show ?case
  proof (cases "Suc (i mod f) = f")
    case True
    then have next_i: "Suc i mod f = 0" "Suc i div f = Suc (i div f)" by (simp_all add: mod_Suc div_Suc)
    have less: "Suc (i div f) < prod_list fs"
      using Cons.prems(4) unfolding next_i(2) [symmetric] by (simp add: less_mult_imp_div_less mult.commute)
    then obtain g gs where fs: "fs = g # gs" by (cases fs) auto
    have a: "Suc (Suc k) < length radix" "radix ! Suc (Suc k) = int (prod_list gs)"
      using radices_hd [of radix "Suc (Suc k)" gs] Cons.prems(2) fs by auto
    let ?j = "j + int (prod_list fs) - int (f * prod_list fs)"
    have step: "carry factors radix k digits (j + int (prod_list fs)) = carry factors radix (Suc k) (digits[k := 0]) (?j + int (prod_list (tl fs)))"
      using True by (subst carry.simps) (simp add: rd_def k a r fs algebra_simps)
    have "ok (carry factors radix (Suc k) (digits[k := 0]) (?j + int (prod_list (tl fs))))
       (\<lambda>(digits', j'). at_seg digits' (Suc k) (digs fs (Suc (i div f))) \<and>
          j' = ?j + int (digit_reverse fs (Suc (i div f))) - int (digit_reverse fs (i div f)) \<and>
          length digits' = length (digits[k := 0]) \<and> (\<forall>q < Suc k. digits' ! q = digits[k := 0] ! q))"
      by (rule Cons.IH) (use Cons.prems less in \<open>auto intro: at_seg_below\<close>)
    moreover have "int (f * prod_list fs) = int (prod_list fs) + int (i mod f * prod_list fs)"
      by (subst True [symmetric]) simp
    ultimately show ?thesis
      unfolding list.sel step by (elim ok_mono) (auto simp: next_i k)
  next
    case False
    then have less: "Suc (i mod f) < f" using f by (simp add: Suc_lessI)
    then have next_i: "Suc i mod f = Suc (i mod f)" "Suc i div f = i div f" by (simp_all add: mod_Suc div_Suc)
    then show ?thesis using k less Cons.prems(3)
      by (subst carry.simps) (simp add: rd_def at_seg_below algebra_simps)
  qed
qed simp

section \<open>The tables\<close>

lemma init_radix_spec:
  assumes "at_seg factors 0 (map int fs)" "length fs < length digits" "length fs < length radix"
  shows "ok (init_radix (length fs) factors (digits, radix))
    (\<lambda>(digits', radix'). at_seg radix' 0 (radices fs) \<and> at_seg digits' 0 (digs fs 0) \<and> length fs < length digits' \<and> digits' ! length fs = 0)"
proof -
  let ?n = "length fs"
  have r0: "at_seg (radix[?n := 1]) (?n - 0) (radices (drop (?n - 0) fs))" using assms(3) by simp
  have factor: "i < ?n \<Longrightarrow> i < length factors \<and> factors ! i = int (fs ! i)" for i
    using at_seg_nth [OF assms(1), of i] by simp
  have "ok (loop ?n (\<lambda>i (digits, radix). do {
       digits \<leftarrow> wr digits i 0;
       r \<leftarrow> rd radix (?n - i);
       f \<leftarrow> rd factors (?n - i - 1);
       radix \<leftarrow> wr radix (?n - i - 1) (r * f);
       Some (digits, radix) }) (digits[?n := 0], radix[?n := 1]))
    (\<lambda>(digits', radix'). at_seg radix' (?n - ?n) (radices (drop (?n - ?n) fs)) \<and> (\<forall>k. k < ?n \<or> k = ?n \<longrightarrow> digits' ! k = 0) \<and>
       length digits' = length digits \<and> length radix' = length radix)"
  proof (rule loop_ok [where I = "\<lambda>i (digits', radix'). at_seg radix' (?n - i) (radices (drop (?n - i) fs)) \<and>
      (\<forall>k. k < i \<or> k = ?n \<longrightarrow> digits' ! k = 0) \<and> length digits' = length digits \<and> length radix' = length radix"])
    fix i and st :: "int list \<times> int list" assume i: "i < ?n"
      and I: "case st of (digits', radix') \<Rightarrow> at_seg radix' (?n - i) (radices (drop (?n - i) fs)) \<and>
        (\<forall>k. k < i \<or> k = ?n \<longrightarrow> digits' ! k = 0) \<and> length digits' = length digits \<and> length radix' = length radix"
    obtain d r where st: "st = (d, r)" by (cases st)
    let ?k = "?n - Suc i"
    have k: "?n - i = Suc ?k" "?k < ?n" using i by simp_all
    then have d: "drop ?k fs = fs ! ?k # drop (Suc ?k) fs" by (simp add: Cons_nth_drop_Suc)
    show "ok (case st of (digits, radix) \<Rightarrow> do {
         digits \<leftarrow> wr digits i 0;
         r \<leftarrow> rd radix (?n - i);
         f \<leftarrow> rd factors (?n - i - 1);
         radix \<leftarrow> wr radix (?n - i - 1) (r * f);
         Some (digits, radix) })
       (\<lambda>(digits', radix'). at_seg radix' (?n - Suc i) (radices (drop (?n - Suc i) fs)) \<and>
          (\<forall>k. k < Suc i \<or> k = ?n \<longrightarrow> digits' ! k = 0) \<and> length digits' = length digits \<and> length radix' = length radix)"
      using I i factor [OF k(2)] assms(2,3) radices_hd [of r "Suc ?k" "drop (Suc ?k) fs"] unfolding st d k(1)
      by (auto simp: wp at_seg_below nth_list_update less_Suc_eq)
  qed (use r0 assms(2) in auto)
  moreover have "at_seg d 0 (digs fs 0)" if "\<forall>k < ?n. d ! k = 0" "?n \<le> length d" for d :: "int list"
  proof -
    have "at_seg d p (replicate m 0)" if "\<And>q. p \<le> q \<Longrightarrow> q < p + m \<Longrightarrow> d ! q = 0" "p + m \<le> length d" for p m
      using that by (induction m arbitrary: p) auto
    then show ?thesis using that by (simp add: digs_0)
  qed
  ultimately show ?thesis
    using assms(2,3) by (auto simp: init_radix_def wp elim!: ok_mono)
qed

text \<open>What a table holds.\<close>

abbreviation order_of :: "nat list \<Rightarrow> nat \<Rightarrow> int" where
  "order_of fs i \<equiv> int (digit_reverse fs i)"

lemma odd_table_spec:
  assumes fs: "at_seg factors 0 (map int fs)" and radix: "at_seg radix 0 (radices fs)"
    and digits: "at_seg digits 0 (digs fs 0)" and n: "n = prod_list fs" "1 < n" and room: "n \<le> length itab"
  shows "ok (odd_table n factors radix digits itab) (writes {0..<n} (order_of fs) itab)"
proof -
  obtain f gs where f: "fs = f # gs" using n by (cases fs) auto
  then have r1: "1 < length radix" "radix ! 1 = int (prod_list (tl fs))" using radix radices_hd [of radix 1 gs] by auto
  have "ok (loop n (\<lambda>i (itab, digits, j). do {
       itab \<leftarrow> wr itab i j;
       if i + 1 \<ge> n then Some (itab, digits, j)
       else do {
         r \<leftarrow> rd radix 1;
         (digits, j) \<leftarrow> carry factors radix 0 digits (j + r);
         Some (itab, digits, j) } }) (itab, digits, 0))
     (\<lambda>(itab', _, _). writes {0..<n} (order_of fs) itab itab')"
  proof (rule loop_wp [where I = "\<lambda>i (itab', digits', j). writes {0..<i} (order_of fs) itab itab' \<and>
      (i < n \<longrightarrow> at_seg digits' 0 (digs fs i) \<and> j = order_of fs i)"])
    fix i and st :: "int list \<times> int list \<times> int" assume i: "i < n"
      and I: "case st of (itab', digits', j) \<Rightarrow> writes {0..<i} (order_of fs) itab itab' \<and>
        (i < n \<longrightarrow> at_seg digits' 0 (digs fs i) \<and> j = order_of fs i)"
    obtain t d j where st: "st = (t, d, j)" by (cases st)
    have w0: "writes {0..<i} (order_of fs) itab t" and d: "at_seg d 0 (digs fs i)" and j: "j = order_of fs i"
      using I i by (simp_all add: st)
    then have t: "i < length t" using i room writes_length [OF w0] by simp
    have "writes ({0..<i} \<union> {i}) (order_of fs) itab (t[i := j])"
      by (rule writes_trans [OF w0 writes_update]) (use t j in simp_all)
    moreover have "{0..<i} \<union> {i} = {0..<Suc i}" by auto
    ultimately have w: "writes {0..<Suc i} (order_of fs) itab (t[i := j])" by simp
    show "ok (case st of (itab, digits, j) \<Rightarrow> do {
         itab \<leftarrow> wr itab i j;
         if i + 1 \<ge> n then Some (itab, digits, j)
         else do {
           r \<leftarrow> rd radix 1;
           (digits, j) \<leftarrow> carry factors radix 0 digits (j + r);
           Some (itab, digits, j) } })
       (\<lambda>(itab', digits', j). writes {0..<Suc i} (order_of fs) itab itab' \<and>
          (Suc i < n \<longrightarrow> at_seg digits' 0 (digs fs (Suc i)) \<and> j = order_of fs (Suc i)))"
    proof (cases "Suc i < n")
      case True
      then show ?thesis
        using carry_spec [OF fs radix d, of j] t w r1 j n(1) unfolding st by (auto simp: wp elim!: ok_mono)
    next
      case False
      then show ?thesis using t w by (simp add: st wp)
    qed
  qed (use digits n in \<open>auto simp: writes_refl\<close>)
  then show ?thesis unfolding odd_table_def by (auto simp: wp elim!: ok_mono)
qed

lemma four_entries:
  assumes "c < 4" "q < 2 ^ k"
  shows "digit_reverse (bits (Suc (Suc k)) @ ps) (4 * q + c) =
    digit_reverse (bits k) q * prod_list ps + c mod 2 * (2 * 2 ^ k * prod_list ps) + c div 2 * (2 ^ k * prod_list ps)"
proof -
  have c: "(4 * q + c) mod 2 = c mod 2" "(4 * q + c) div 2 = 2 * q + c div 2" "c div 2 div 2 = 0" "c div 2 mod 2 = c div 2"
    using assms(1) by (simp_all add: mod_simps) presburger+
  then have "digit_reverse (bits (Suc (Suc k)) @ ps) (4 * q + c) =
      c mod 2 * (2 * 2 ^ k * prod_list ps) + (c div 2 * (2 ^ k * prod_list ps) + digit_reverse (bits k @ ps) q)"
    by (simp add: prod_bits)
  moreover have "digit_reverse (bits k @ ps) q = digit_reverse (bits k) q * prod_list ps"
    using assms(2) by (simp add: digit_reverse_append prod_bits)
  ultimately show ?thesis by simp
qed

lemma write_four_spec:
  assumes "q < 2 ^ k" "4 * 2 ^ k \<le> length itab" and j: "j = digit_reverse (bits k) q * prod_list ps"
  shows "ok (write_four (4 * q) j (2 * 2 ^ k * prod_list ps) (2 ^ k * prod_list ps) itab)
    (writes {4 * q..<4 * q + 4} (order_of (bits (Suc (Suc k)) @ ps)) itab)"
proof -
  have room: "4 * q + 4 \<le> length itab" using assms(1,2) by simp
  have e: "c < 4 \<Longrightarrow> order_of (bits (Suc (Suc k)) @ ps) (4 * q + c) = int (j + c mod 2 * (2 * 2 ^ k * prod_list ps) + c div 2 * (2 ^ k * prod_list ps))" for c
    using four_entries [OF _ assms(1), of c ps] j by simp
  have "write_four (4 * q) j (2 * 2 ^ k * prod_list ps) (2 ^ k * prod_list ps) itab =
      Some (put itab (4 * q) (map (\<lambda>c. order_of (bits (Suc (Suc k)) @ ps) (4 * q + c)) [0, 1, 2, 3]))"
    using room put_four [of "4 * q" itab] e [of 0] e [of 1] e [of 2] e [of 3]
    by (simp add: write_four_def wr_def del: replicate.simps digit_reverse.simps)
  moreover have "writes {4 * q..<4 * q + 4} (order_of (bits (Suc (Suc k)) @ ps)) itab
      (put itab (4 * q) (map (\<lambda>c. order_of (bits (Suc (Suc k)) @ ps) (4 * q + c)) [0, 1, 2, 3]))"
    by (rule writes_put) (use room in \<open>auto simp: less_Suc_eq numeral_eq_Suc simp del: replicate.simps digit_reverse.simps\<close>)
  ultimately show ?thesis by simp
qed

lemma bind_map_option: "map_option f m \<bind> g = m \<bind> (\<lambda>x. g (f x))"
  by (cases m) simp_all

lemma log_from_power: "j \<le> m \<Longrightarrow> log_from j (2 ^ m) = m"
proof (induction "m - j" arbitrary: j)
  case 0
  then show ?case by (simp add: log_from.simps)
next
  case (Suc k)
  then show ?case by (subst log_from.simps) simp
qed

lemma two_table_spec:
  assumes m: "0 < m" "m < 32" and room: "2 ^ m \<le> length itab"
  shows "ok (two_table (2 ^ m) (prod_list ps) m itab) (writes {0..<2 ^ m} (order_of (bits m @ ps)) itab)"
proof (cases "m = 1")
  case True
  then obtain x y xs where "itab = x # y # xs" using room by (cases itab; cases "tl itab") auto
  moreover have "2 * prod_list ps div 2 = prod_list ps" by simp
  ultimately have "two_table (2 ^ m) (prod_list ps) m itab = Some (put itab 0 [0, int (prod_list ps)])"
    using True by (simp add: two_table_def Let_def wr_def put_def del: mult_2)
  moreover have "writes {0..<0 + 2} (order_of (bits m @ ps)) itab (put itab 0 [0, int (prod_list ps)])"
    by (rule writes_put) (use room True in \<open>auto simp: less_2_cases_iff\<close>)
  ultimately show ?thesis using True by (simp add: numeral_2_eq_2)
next
  case False
  then obtain k where k: "m = Suc (Suc k)" using m by (metis One_nat_def gr0_implies_Suc not_gr0)
  have "(1::nat) \<le> 2 ^ k" by simp
  then have n: "2 ^ m = (4::nat) * 2 ^ k" "\<not> (4::nat) * 2 ^ k \<le> 2" using k by (simp, linarith)
  let ?a = "prod_list ps" and ?h = "order_of (bits m @ ps)"
  have na: "4 * 2 ^ k * ?a div 2 = 2 * 2 ^ k * ?a" "2 * 2 ^ k * ?a div 2 = 2 ^ k * ?a" by simp_all
  have all: "ok (loop (2 ^ k) (\<lambda>q itab. do { b \<leftarrow> g q; write_four (4 * q) (b * ?a) (2 * 2 ^ k * ?a) (2 ^ k * ?a) itab }) itab)
      (writes {0..<2 ^ m} ?h itab)" if g: "\<And>q. q < 2 ^ k \<Longrightarrow> g q = Some (digit_reverse (bits k) q)" for g
  proof -
    have "ok (loop (2 ^ k) (\<lambda>q itab. do { b \<leftarrow> g q; write_four (4 * q) (b * ?a) (2 * 2 ^ k * ?a) (2 ^ k * ?a) itab }) itab)
      (writes {0..<0 + 2 ^ k * 4} ?h itab)"
    proof (rule loop_writes_segments [where L = "length itab"])
      fix q :: nat and xs :: "int list" assume "q < 2 ^ k" "length xs = length itab"
      then show "ok (do { b \<leftarrow> g q; write_four (4 * q) (b * ?a) (2 * 2 ^ k * ?a) (2 ^ k * ?a) xs })
          (writes {0 + q * 4..<0 + q * 4 + 4} ?h xs)"
        using write_four_spec [of q k xs "digit_reverse (bits k) q * ?a" ps] room n g [of q]
        by (simp add: k mult.commute del: replicate.simps)
    qed simp
    then show ?thesis by (simp add: n mult.commute)
  qed
  show ?thesis
  proof (cases "(4::nat) * 2 ^ k \<le> 256")
    case True
    have k6: "k \<le> 6"
    proof (rule ccontr)
      assume "\<not> k \<le> 6"
      then have "(2::nat) ^ 7 \<le> 2 ^ k" by (intro power_increasing) simp_all
      then show False using True by simp
    qed
    then have tab: "map_option (\<lambda>b. b div 2 ^ (8 - k)) (rd bitrevTab q) = Some (digit_reverse (bits k) q)" if "q < 2 ^ k" for q
      using bitrevTab_shift [OF that] by auto
    have "two_table (2 ^ m) ?a m itab = loop (2 ^ k) (\<lambda>q itab. do { b \<leftarrow> map_option (\<lambda>b. b div 2 ^ (8 - k)) (rd bitrevTab q);
        write_four (4 * q) (b * ?a) (2 * 2 ^ k * ?a) (2 ^ k * ?a) itab }) itab"
      unfolding two_table_def Let_def n na using n True by (simp add: k bind_map_option)
    then show ?thesis using all [OF tab] by simp
  next
    case False
    have "k \<le> 32" using m k by simp
    then have "BitRev q (32 - k) = Some (digit_reverse (bits k) q)" if "q < 2 ^ k" for q using BitRev_eq [OF that] by simp
    note all [OF this]
    moreover have "two_table (2 ^ m) ?a m itab = loop (2 ^ k) (\<lambda>q itab. do { b \<leftarrow> BitRev q (32 - k);
        write_four (4 * q) (b * ?a) (2 * 2 ^ k * ?a) (2 ^ k * ?a) itab }) itab"
      unfolding two_table_def Let_def n na using n False by (simp add: k)
    ultimately show ?thesis by simp
  qed
qed

lemma writes_next: "writes {0..<p} h xs ys \<Longrightarrow> p < length xs \<Longrightarrow> h p = v \<Longrightarrow> writes {0..<Suc p} h xs (ys[p := v])"
proof -
  assume w: "writes {0..<p} h xs ys" and p: "p < length xs" and v: "h p = v"
  have "writes ({0..<p} \<union> {p}) h xs (ys[p := v])"
    by (rule writes_trans [OF w writes_update]) (use writes_length [OF w] p v in simp_all)
  moreover have "{0..<p} \<union> {p} = {0..<Suc p}" by auto
  ultimately show ?thesis by simp
qed

lemma odd_copies_spec:
  assumes fs: "at_seg factors 1 (map int ps)" and radix: "at_seg radix 1 (radices ps)"
    and digits: "at_seg digits 1 (digs ps 1)" and n: "0 < n" "n0 = n * prod_list ps" and ps: "ps \<noteq> []" "\<forall>p \<in> set ps. 1 < p"
    and head: "prod_list qs = n" "writes {0..<n} (order_of (qs @ ps)) itab0 itab" and room: "n0 \<le> length itab"
  shows "ok (odd_copies n0 n factors radix digits itab) (writes {0..<n0} (order_of (qs @ ps)) itab0)"
proof -
  let ?h = "order_of (qs @ ps)" and ?P = "prod_list ps"
  obtain p ps' where p: "ps = p # ps'" using ps(1) by (cases ps) auto
  have h: "?h (n * q + k) = ?h k + order_of ps q" if "k < n" for q k
    using digit_reverse_mod [of qs "n * q + k"] that by (simp add: digit_reverse_append head(1))
  have r2: "2 < length radix" "radix ! 2 = int (prod_list (tl ps))"
    using radix radices_hd [of radix 2 ps'] p by (auto simp: numeral_2_eq_2)
  have j1: "order_of ps 1 = radix ! 2" using ps(2) r2(2) p by simp
  have "0 \<notin> set ps" using ps(2) by auto
  then obtain P' where P': "?P = Suc P'" using prod_pos [of ps] gr0_implies_Suc by blast
  have "n * Suc P' - 1 = (n - 1) + P' * n" using n(1) by (simp add: mult.commute)
  moreover have "((n - 1) + P' * n) div n = P'" by (subst div_mult_self1) (use n(1) in simp_all)
  ultimately have cnt: "(n0 - 1) div n = P'" by (simp only: n(2) P')
  have copy: "ok (loop n (\<lambda>k itab. do { v \<leftarrow> rd itab k; wr itab (n * Suc q + k) (v + order_of ps (Suc q)) }) t)
      (\<lambda>t'. writes {0..<n * Suc q + n} ?h itab0 t')" if "q < P'" "writes {0..<n * Suc q} ?h itab0 t" for q t
  proof (rule loop_wp [where I = "\<lambda>k t. writes {0..<n * Suc q + k} ?h itab0 t"])
    fix k u assume k: "k < n" and u: "writes {0..<n * Suc q + k} ?h itab0 u"
    have "n * Suc q + n \<le> n0" using that(1) mult_le_mono2 [of "Suc (Suc q)" "Suc P'" n] by (simp add: n(2) P')
    then have room: "n * Suc q + k < length itab0" using k room writes_length [OF head(2)] by simp
    moreover have "u ! k = ?h k" using u k room by (simp add: writes_def)
    ultimately show "ok (do { v \<leftarrow> rd u k; wr u (n * Suc q + k) (v + order_of ps (Suc q)) }) (writes {0..<n * Suc q + Suc k} ?h itab0)"
      using writes_next [OF u room] h [OF k, of "Suc q"] writes_length [OF u] by (simp add: wp)
  qed (use that(2) in simp_all)
  have "ok (loop P' (\<lambda>q (itab, digits, j). do {
       let i = n * (q + 1);
       itab \<leftarrow> loop n (\<lambda>k itab. do { v \<leftarrow> rd itab k; wr itab (i + k) (v + j) }) itab;
       if i + n \<ge> n0 then Some (itab, digits, j)
       else do {
         (digits, j) \<leftarrow> carry factors radix 1 digits (j + radix ! 2);
         Some (itab, digits, j) } }) (itab, digits, radix ! 2))
     (\<lambda>(t, _, _). writes {0..<n0} ?h itab0 t)"
  proof (rule loop_wp [where I = "\<lambda>q (t, digits', j). writes {0..<n * Suc q} ?h itab0 t \<and>
      (q < P' \<longrightarrow> at_seg digits' 1 (digs ps (Suc q)) \<and> j = order_of ps (Suc q))"])
    fix q and st :: "int list \<times> int list \<times> int" assume q: "q < P'"
      and I: "case st of (t, digits', j) \<Rightarrow> writes {0..<n * Suc q} ?h itab0 t \<and>
        (q < P' \<longrightarrow> at_seg digits' 1 (digs ps (Suc q)) \<and> j = order_of ps (Suc q))"
    obtain t d j where st: "st = (t, d, j)" by (cases st)
    have t: "writes {0..<n * Suc q} ?h itab0 t" and d: "at_seg d 1 (digs ps (Suc q))" and j: "j = order_of ps (Suc q)"
      using I q by (simp_all add: st)
    have last: "n0 \<le> n * Suc q + n \<longleftrightarrow> \<not> Suc q < P'"
    proof -
      have "n0 \<le> n * Suc q + n \<longleftrightarrow> n * Suc P' \<le> n * Suc (Suc q)" by (simp add: n(2) P' add.commute)
      also have "\<dots> \<longleftrightarrow> \<not> Suc q < P'" using n(1) by (simp only: mult_le_cancel1) auto
      finally show ?thesis .
    qed
    have c: "ok (carry factors radix 1 d (j + radix ! 2))
        (\<lambda>(d', j'). at_seg d' 1 (digs ps (Suc (Suc q))) \<and> j' = order_of ps (Suc (Suc q)))" if "Suc q < P'"
      by (rule ok_mono [OF carry_spec [OF fs radix d, of j, folded r2(2)]]) (use that in \<open>auto simp: P' j\<close>)
    show "ok (case st of (itab, digits, j) \<Rightarrow> do {
         let i = n * (q + 1);
         itab \<leftarrow> loop n (\<lambda>k itab. do { v \<leftarrow> rd itab k; wr itab (i + k) (v + j) }) itab;
         if i + n \<ge> n0 then Some (itab, digits, j)
         else do {
           (digits, j) \<leftarrow> carry factors radix 1 digits (j + radix ! 2);
           Some (itab, digits, j) } })
       (\<lambda>(t, digits', j). writes {0..<n * Suc (Suc q)} ?h itab0 t \<and>
          (Suc q < P' \<longrightarrow> at_seg digits' 1 (digs ps (Suc (Suc q))) \<and> j = order_of ps (Suc (Suc q))))"
      using copy [OF q t] c last unfolding st
      by (auto simp: wp j Let_def add.commute elim!: ok_mono)
  qed (use head(2) digits j1 P' n in auto)
  then show ?thesis unfolding odd_copies_def cnt using r2(1) by (auto simp: wp Let_def elim!: ok_mono)
qed

lemma even_table_spec:
  assumes fs: "at_seg factors 0 (map int (2 ^ v # ps))" and radix: "at_seg radix 0 (radices (2 ^ v # ps))"
    and digits: "at_seg digits 0 (digs (2 ^ v # ps) 0)" "Suc (length ps) < length digits" "digits ! Suc (length ps) = 0"
    and v: "0 < v" "v < 32" and ps: "\<forall>p \<in> set ps. 1 < p" and n0: "n0 = 2 ^ v * prod_list ps" "n0 \<le> length itab"
  shows "ok (even_table n0 (Suc (length ps)) factors radix digits itab) (writes {0..<n0} (order_of (bits v @ ps)) itab)"
proof -
  have "0 \<notin> set ps" using ps by auto
  then have pos: "0 < prod_list ps" by (rule prod_pos)
  have d1: "digits ! 1 = 0" using digits by (cases ps) auto
  have r1: "1 < length radix" "radix ! 1 = int (prod_list ps)" using radices_hd [of radix 1 ps] radix by auto
  have "2 ^ v * 1 \<le> n0" unfolding n0(1) using pos by (intro mult_le_mono2) simp
  then have room: "2 ^ v \<le> length itab" using n0(2) by simp
  have moved: "at_seg (digits[1 := 1]) 1 (digs ps 1)" if "ps \<noteq> []"
    using digits(1,2) that ps by (cases ps) (auto intro: at_seg_below)
  have copies: "ok (odd_copies n0 (2 ^ v) factors radix (digits[1 := 1]) t) (writes {0..<n0} (order_of (bits v @ ps)) itab)"
    if "ps \<noteq> []" "writes {0..<2 ^ v} (order_of (bits v @ ps)) itab t" for t
    by (rule odd_copies_spec) (use fs radix moved that ps n0 writes_length [OF that(2)] in \<open>auto simp: prod_bits\<close>)
  have "ok (two_table (2 ^ v) (prod_list ps) v itab) (\<lambda>t. ok (if Suc (length ps) \<ge> 2
      then odd_copies n0 (2 ^ v) factors radix (digits[1 := 1]) t else Some t) (writes {0..<n0} (order_of (bits v @ ps)) itab))"
    by (rule ok_mono [OF two_table_spec [OF v room]]) (use copies n0(1) in \<open>cases ps; auto\<close>)
  then show ?thesis
    using fs digits(2) d1 r1 log_from_power [of 0 v] by (simp add: even_table_def wp Let_def nat_power_eq if_bool_eq_conj)
qed

definition two :: "nat \<Rightarrow> nat list" where
  "two v = (if v = 0 then [] else [2 ^ v])"

lemma order_table_spec:
  assumes fs: "at_seg factors 0 (map int (two v @ ps))" and junk: "length (two v @ ps) < length digits" "length (two v @ ps) < length radix"
    and v: "v < 32" and ps: "\<forall>p \<in> set ps. odd p \<and> 1 < p" and n0: "n0 = 2 ^ v * prod_list ps" "1 < n0" "n0 \<le> length itab"
  shows "ok (order_table (digits, radix) n0 (length (two v @ ps)) factors itab) (writes {0..<n0} (order_of (bits v @ ps)) itab)"
proof -
  let ?fs = "two v @ ps"
  have table: "ok (do { f \<leftarrow> rd factors 0; if even f then even_table n0 (length ?fs) factors r d itab else odd_table n0 factors r d itab })
      (writes {0..<n0} (order_of (bits v @ ps)) itab)"
    if r: "at_seg r 0 (radices ?fs)" and d: "at_seg d 0 (digs ?fs 0)" "length ?fs < length d" "d ! length ?fs = 0" for d r
  proof (cases "v = 0")
    case True
    then obtain p ps' where p: "ps = p # ps'" "odd p" using n0 ps by (cases ps) auto
    then have "0 < length factors" "odd (factors ! 0)" using fs True by (simp_all add: two_def)
    then show ?thesis
      using odd_table_spec [of factors ?fs r d n0 itab] fs r d n0 True by (simp add: wp two_def)
  next
    case False
    then have "0 < length factors" "even (factors ! 0)" using fs by (simp_all add: two_def)
    then show ?thesis
      using even_table_spec [of factors v ps r d n0 itab] fs r d n0 v ps False by (simp add: wp two_def)
  qed
  show ?thesis
    unfolding order_table_def by (simp only: ok_bind) (rule ok_mono [OF init_radix_spec [OF fs junk]], use table in \<open>auto simp: wp\<close>)
qed

text \<open>The inverse table.\<close>

lemma invert_spec:
  assumes t: "\<forall>k < n. k < length t \<and> t ! k = order_of fs k" and n: "n = prod_list fs" "0 \<notin> set fs" "1 < n" and room: "n \<le> length itab0"
  shows "ok (invert n t itab0) (writes {0..<n} (order_of (rev fs)) itab0)"
proof -
  let ?h = "order_of (rev fs)" and ?c = "(n - n mod 2 + 1) div 2" and ?S = "\<lambda>q. {digit_reverse fs (n mod 2 + 2 * q), digit_reverse fs (n mod 2 + 2 * q + 1)}"
  have less: "digit_reverse fs k < length itab0" if "k < n" for k using digit_reverse_less [OF n(2)] room n(1) by (meson less_le_trans)
  have h: "?h (digit_reverse fs k) = int k" if "k < n" for k using digit_reverse_rev [OF n(2)] that n(1) by simp
  have i: "n mod 2 + 2 * q + 1 < n" if "q < ?c" for q using that by presburger
  have step: "ok (do {
       let i = n mod 2 + 2 * q;
       k0 \<leftarrow> rd t i;
       k1 \<leftarrow> rd t (i + 1);
       itab0 \<leftarrow> wrz xs k0 (int i);
       wrz itab0 k1 (int i + 1) }) (writes (?S q) ?h xs)" if "q < ?c" "length xs = length itab0" for q xs
  proof -
    let ?i = "n mod 2 + 2 * q"
    have k: "?i < n" "Suc ?i < n" using i [OF that(1)] by simp_all
    have "writes ({digit_reverse fs ?i} \<union> {digit_reverse fs (Suc ?i)}) ?h xs (xs[digit_reverse fs ?i := int ?i, digit_reverse fs (Suc ?i) := int (Suc ?i)])"
      by (rule writes_trans; rule writes_update) (use less [OF k(1)] less [OF k(2)] h [OF k(1)] h [OF k(2)] that(2) in simp_all)
    then show ?thesis using t k less [OF k(1)] less [OF k(2)] that(2) by (simp add: Let_def wp add.commute insert_commute)
  qed
  have "writes {0} ?h itab0 (itab0[0 := 0])" by (rule writes_update) (use room n in auto)
  moreover have "ok (loop ?c (\<lambda>q xs. do {
       let i = n mod 2 + 2 * q;
       k0 \<leftarrow> rd t i;
       k1 \<leftarrow> rd t (i + 1);
       itab0 \<leftarrow> wrz xs k0 (int i);
       wrz itab0 k1 (int i + 1) }) (itab0[0 := 0])) (writes (\<Union>q < ?c. ?S q) ?h (itab0[0 := 0]))"
    by (rule loop_writes [OF step]) simp_all
  moreover have "{0} \<union> (\<Union>q < ?c. ?S q) = {0..<n}"
  proof -
    have "(\<Union>q < ?c. {n mod 2 + 2 * q, n mod 2 + 2 * q + 1}) = {n mod 2..<n}"
    proof (intro set_eqI iffI)
      fix x assume "x \<in> (\<Union>q < ?c. {n mod 2 + 2 * q, n mod 2 + 2 * q + 1})"
      then obtain q where "q < ?c" "x = n mod 2 + 2 * q \<or> x = n mod 2 + 2 * q + 1" by auto
      then show "x \<in> {n mod 2..<n}" using i [of q] by auto
    next
      fix x assume x: "x \<in> {n mod 2..<n}"
      have "x = n mod 2 + 2 * ((x - n mod 2) div 2) \<or> x = n mod 2 + 2 * ((x - n mod 2) div 2) + 1" using x by auto
      moreover have "(x - n mod 2) div 2 < ?c"
      proof -
        have N: "n - n mod 2 = n div 2 * 2" by (rule minus_mod_eq_div_mult)
        moreover have "x - n mod 2 < n - n mod 2" using x by (simp add: diff_less_mono)
        ultimately show ?thesis by (simp add: less_mult_imp_div_less)
      qed
      ultimately show "x \<in> (\<Union>q < ?c. {n mod 2 + 2 * q, n mod 2 + 2 * q + 1})" by blast
    qed
    moreover have "(\<Union>q < ?c. ?S q) = digit_reverse fs ` (\<Union>q < ?c. {n mod 2 + 2 * q, n mod 2 + 2 * q + 1})"
      by (simp only: image_UN image_insert image_empty)
    ultimately have "(\<Union>q < ?c. ?S q) = digit_reverse fs ` {n mod 2..<n}" by (simp only:)
    moreover have "insert 0 {n mod 2..<n} = {0..<n}" using n(3) by (auto simp: not_less_eq_eq)
    ultimately have "{0} \<union> (\<Union>q < ?c. ?S q) = digit_reverse fs ` {0..<n}"
      by (metis digit_reverse_0 image_insert insert_is_Un)
    then show ?thesis using digit_reverse_permutes [OF n(2)] by (simp add: n(1) lessThan_atLeast0)
  qed
  ultimately show ?thesis
    using room n(3) by (auto simp: invert_def wp Let_def elim!: ok_mono dest: writes_trans)
qed

section \<open>The powers of the root\<close>

text \<open>
  What \<open>wave\<close> holds at \<open>2 * i\<close> and \<open>2 * i + 1\<close>: the \<open>i\<close>-th power as the recurrence computes it, in
  single precision; above the middle the conjugate of the power below it.
\<close>

definition root_power :: "ieee \<times> ieee \<Rightarrow> nat \<Rightarrow> ieee \<times> ieee" where
  "root_power w1 i = (next_root w1 ^^ (i - 1)) w1"

definition wave_at :: "nat \<Rightarrow> ieee \<times> ieee \<Rightarrow> nat \<Rightarrow> ieee" where
  "wave_at n0 w1 p =
     (let i = p div 2; part = (\<lambda>w. if even p then cvt b32 (fst w) else cvt b32 (snd w)) in
      if i = 0 then (if even p then Fin 1 else Fin 0)
      else if 2 * i = n0 then (if even p then Fin (-1) else Fin 0)
      else if 2 * i < n0 then part (root_power w1 i)
      else part (fst (root_power w1 (n0 - i)), fneg (snd (root_power w1 (n0 - i)))))"

text \<open>The two places of a power.\<close>

definition pair_at :: "nat \<Rightarrow> nat set" where
  "pair_at i = {2 * i, 2 * i + 1}"

lemma pair_writes:
  assumes "writes S h xs ys" "2 * i + 1 < length xs" "h (2 * i) = u" "h (2 * i + 1) = v"
  shows "writes (S \<union> pair_at i) h xs (ys[2 * i := u, 2 * i + 1 := v])"
proof -
  have l: "length ys = length xs" by (rule writes_length [OF assms(1)])
  have "writes {2 * i} h ys (ys[2 * i := u])" by (rule writes_update) (use assms l in simp_all)
  moreover have "writes {2 * i + 1} h (ys[2 * i := u]) (ys[2 * i := u, 2 * i + 1 := v])"
    by (rule writes_update) (use assms l in simp_all)
  ultimately have "writes (S \<union> {2 * i} \<union> {2 * i + 1}) h xs (ys[2 * i := u, 2 * i + 1 := v])"
    using writes_trans [OF writes_trans [OF assms(1)]] by blast
  then show ?thesis by (simp add: pair_at_def Un_assoc insert_commute)
qed

lemma write_wave_spec:
  assumes "2 \<le> n0" "2 * n0 \<le> length wave"
  shows "ok (write_wave n0 w1 wave) (writes {0..<2 * n0} (wave_at n0 w1) wave)"
proof -
  let ?h = "wave_at n0 w1" and ?n = "(n0 + 1) div 2"
  define mid where "mid = (if even n0 then pair_at ?n else {})"
  have h0: "?h 0 = Fin 1" "?h 1 = Fin 0" by (simp_all add: wave_at_def)
  have hm: "?h (2 * ?n) = Fin (-1)" "?h (2 * ?n + 1) = Fin 0" if "even n0" using that assms(1) by (auto simp: wave_at_def Let_def elim!: evenE)
  have first: "writes (pair_at 0) ?h wave (wave[0 := Fin 1, 1 := Fin 0])"
    using pair_writes [OF writes_refl, of 0 wave ?h] h0 assms by simp
  have start: "\<exists>w. (if even n0 then do { wave \<leftarrow> wr (wave[0 := Fin 1, 1 := Fin 0]) (2 * ?n) (Fin (-1)); wr wave (2 * ?n + 1) (Fin 0) }
      else Some (wave[0 := Fin 1, 1 := Fin 0])) = Some w \<and> writes (pair_at 0 \<union> mid) ?h wave w"
  proof (cases "even n0")
    case True
    then have l: "2 * ?n + 1 < length wave" using assms by auto
    show ?thesis using pair_writes [OF first l hm] True l by (simp add: wr_Some mid_def)
  next
    case False
    then show ?thesis using first by (simp add: mid_def)
  qed
  then obtain w where w: "(if even n0 then do { wave \<leftarrow> wr (wave[0 := Fin 1, 1 := Fin 0]) (2 * ?n) (Fin (-1)); wr wave (2 * ?n + 1) (Fin 0) }
      else Some (wave[0 := Fin 1, 1 := Fin 0])) = Some w" "writes (pair_at 0 \<union> mid) ?h wave w" by blast
  let ?S = "\<lambda>i. pair_at 0 \<union> mid \<union> (\<Union>k \<in> {1..<Suc i}. pair_at k \<union> pair_at (n0 - k))"
  have "ok (loop (?n - 1) (\<lambda>i (wave, w). do {
          let i = i + 1;
          wave \<leftarrow> wr wave (2 * i) (cvt b32 (fst w));
          wave \<leftarrow> wr wave (2 * i + 1) (cvt b32 (snd w));
          wave \<leftarrow> wr wave (2 * (n0 - i)) (cvt b32 (fst w));
          wave \<leftarrow> wr wave (2 * (n0 - i) + 1) (cvt b32 (fneg (snd w)));
          Some (wave, next_root w1 w) }) (w, w1)) (\<lambda>(wave', _). writes (?S (?n - 1)) ?h wave wave')"
  proof (rule loop_wp [where I = "\<lambda>i (wave', w). writes (?S i) ?h wave wave' \<and> w = root_power w1 (Suc i)"])
    fix i and st :: "ieee list \<times> ieee \<times> ieee" assume i: "i < ?n - 1"
      and I: "case st of (wave', w) \<Rightarrow> writes (?S i) ?h wave wave' \<and> w = root_power w1 (Suc i)"
    obtain u z where st: "st = (u, z)" by (cases st)
    have u: "writes (?S i) ?h wave u" and z: "z = root_power w1 (Suc i)" using I by (simp_all add: st)
    have k1: "2 * Suc i < n0" using i by arith
    then have k: "2 * Suc i < n0" "2 * Suc i + 1 < length wave" "2 * (n0 - Suc i) + 1 < length wave" using assms by simp_all
    have hk: "?h (2 * Suc i) = cvt b32 (fst z)" "?h (2 * Suc i + 1) = cvt b32 (snd z)"
      "?h (2 * (n0 - Suc i)) = cvt b32 (fst z)" "?h (2 * (n0 - Suc i) + 1) = cvt b32 (fneg (snd z))"
    proof -
      have "\<not> 2 * (n0 - Suc i) < n0" "2 * (n0 - Suc i) \<noteq> n0" "n0 - (n0 - Suc i) = Suc i" "n0 - Suc i \<noteq> 0" using k1 by auto
      then show "?h (2 * Suc i) = cvt b32 (fst z)" "?h (2 * Suc i + 1) = cvt b32 (snd z)"
        "?h (2 * (n0 - Suc i)) = cvt b32 (fst z)" "?h (2 * (n0 - Suc i) + 1) = cvt b32 (fneg (snd z))"
        using k1 by (simp_all add: wave_at_def Let_def z)
    qed
    have "writes (?S i \<union> pair_at (Suc i) \<union> pair_at (n0 - Suc i)) ?h wave
        (u[2 * Suc i := cvt b32 (fst z), 2 * Suc i + 1 := cvt b32 (snd z),
           2 * (n0 - Suc i) := cvt b32 (fst z), 2 * (n0 - Suc i) + 1 := cvt b32 (fneg (snd z))])"
      by (rule pair_writes [OF pair_writes [OF u k(2) hk(1,2)] k(3) hk(3,4)])
    moreover have "?S i \<union> pair_at (Suc i) \<union> pair_at (n0 - Suc i) = ?S (Suc i)" by (auto simp: less_Suc_eq)
    moreover have "next_root w1 z = root_power w1 (Suc (Suc i))" by (simp add: z root_power_def)
    ultimately show "ok (case st of (wave, w) \<Rightarrow> do {
          let i = i + 1;
          wave \<leftarrow> wr wave (2 * i) (cvt b32 (fst w));
          wave \<leftarrow> wr wave (2 * i + 1) (cvt b32 (snd w));
          wave \<leftarrow> wr wave (2 * (n0 - i)) (cvt b32 (fst w));
          wave \<leftarrow> wr wave (2 * (n0 - i) + 1) (cvt b32 (fneg (snd w)));
          Some (wave, next_root w1 w) }) (\<lambda>(wave', w). writes (?S (Suc i)) ?h wave wave' \<and> w = root_power w1 (Suc (Suc i)))"
      using k writes_length [OF u] by (simp add: st wp Let_def)
  qed (use w(2) in \<open>auto simp: root_power_def\<close>)
  moreover have "?S (?n - 1) = {0..<2 * n0}"
  proof (intro set_eqI iffI)
    fix p assume "p \<in> ?S (?n - 1)"
    then show "p \<in> {0..<2 * n0}" using assms(1) by (auto simp: mid_def pair_at_def split: if_splits)
  next
    fix p assume p: "p \<in> {0..<2 * n0}"
    have pp: "p \<in> pair_at (p div 2)" by (auto simp: pair_at_def)
    let ?i = "p div 2"
    consider "?i = 0" | "2 * ?i = n0" | "1 \<le> ?i" "2 * ?i < n0" | "n0 < 2 * ?i" "?i < n0" using p by fastforce
    then show "p \<in> ?S (?n - 1)"
    proof cases
      case 1 then show ?thesis using pp by auto
    next
      case 2
      then have "even n0" "?i = ?n" by presburger+
      then show ?thesis using pp by (auto simp: mid_def)
    next
      case 3
      then have "?i \<in> {1..<Suc (?n - 1)}" by auto
      then show ?thesis using pp by blast
    next
      case 4
      then have "n0 - ?i \<in> {1..<Suc (?n - 1)}" "n0 - (n0 - ?i) = ?i" by auto
      then show ?thesis using pp by (metis (no_types, lifting) UN_I UnI2)
    qed
  qed
  ultimately show ?thesis
    using assms w(1) by (auto simp: write_wave_def wp Let_def wr_Some elim!: ok_mono)
qed

section \<open>The first root\<close>

text \<open>
  Every entry of the table follows from the one before it by the formulas for half the angle, up to a few
  units in the last place, and so is the cosine and sine it stands for, up to an error that does not grow.
\<close>

lemma length_DFTTab: "length DFTTab = 32"
  by (simp add: DFTTab_def)

definition table_step :: "(int \<times> int) \<times> (int \<times> int) \<Rightarrow> bool" where
  "table_step = (\<lambda>((c, s), (c', s')). \<bar>2 * c' * c' - 10 ^ 34 - c * 10 ^ 17\<bar> \<le> 24 * 10 ^ 17 \<and>
     \<bar>2 * s' * c' - s * 10 ^ 17\<bar> \<le> 7 * 10 ^ 17 \<and> 7 * 10 ^ 16 \<le> c')"

lemma DFTTab_steps: "list_all table_step (zip (drop 2 DFTTab) (drop 3 DFTTab))"
  by (simp add: DFTTab_def table_step_def)

definition table_cos :: "nat \<Rightarrow> real" where
  "table_cos m = of_int (fst (DFTTab ! m)) / 10 ^ 17"

definition table_sin :: "nat \<Rightarrow> real" where
  "table_sin m = of_int (snd (DFTTab ! m)) / 10 ^ 17"

lemma table_steps:
  assumes "2 \<le> m" "m < 31"
  shows "\<bar>2 * (table_cos (Suc m))\<^sup>2 - 1 - table_cos m\<bar> \<le> 24 / 10 ^ 17"
    "\<bar>2 * table_sin (Suc m) * table_cos (Suc m) - table_sin m\<bar> \<le> 7 / 10 ^ 17"
    "7 / 10 \<le> table_cos (Suc m)"
proof -
  obtain j where m: "m = Suc (Suc j)" using assms(1) by (metis add_2_eq_Suc le_Suc_ex)
  obtain c s c' s' where t: "DFTTab ! m = (c, s)" "DFTTab ! Suc m = (c', s')" by (meson surj_pair)
  have "zip (drop 2 DFTTab) (drop 3 DFTTab) ! j = (DFTTab ! m, DFTTab ! Suc m)"
    using assms(2) by (simp add: length_DFTTab m numeral_3_eq_3)
  moreover have "j < length (zip (drop 2 DFTTab) (drop 3 DFTTab))" using assms(2) by (simp add: length_DFTTab m)
  ultimately have "table_step (DFTTab ! m, DFTTab ! Suc m)" using DFTTab_steps by (metis list_all_length)
  then have z: "\<bar>2 * c' * c' - 10 ^ 34 - c * 10 ^ 17\<bar> \<le> 24 * 10 ^ 17" "\<bar>2 * s' * c' - s * 10 ^ 17\<bar> \<le> 7 * 10 ^ 17" "7 * 10 ^ 16 \<le> c'"
    by (simp_all add: t table_step_def)
  have r: "\<bar>2 * of_int c' * of_int c' - 10 ^ 34 - of_int c * 10 ^ 17\<bar> \<le> (24 * 10 ^ 17 :: real)"
    "\<bar>2 * of_int s' * of_int c' - of_int s * 10 ^ 17\<bar> \<le> (7 * 10 ^ 17 :: real)" "7 * 10 ^ 16 \<le> (of_int c' :: real)"
    using z [folded of_int_le_iff [where 'a = real]] by simp_all
  show "7 / 10 \<le> table_cos (Suc m)" using r(3) by (simp add: table_cos_def t)
  show "\<bar>2 * (table_cos (Suc m))\<^sup>2 - 1 - table_cos m\<bar> \<le> 24 / 10 ^ 17"
    using r(1) by (simp add: table_cos_def t power2_eq_square abs_le_iff field_simps)
  show "\<bar>2 * table_sin (Suc m) * table_cos (Suc m) - table_sin m\<bar> \<le> 7 / 10 ^ 17"
    using r(2) by (simp add: table_cos_def table_sin_def t abs_le_iff field_simps)
qed

lemma half_cos:
  fixes c' C' :: real
  assumes "\<bar>2 * c'\<^sup>2 - 1 - c\<bar> \<le> 24 * u" "\<bar>c - C\<bar> \<le> 14 * u" "C = 2 * C'\<^sup>2 - 1" "7 / 10 \<le> c'" "7 / 10 \<le> C'"
  shows "\<bar>c' - C'\<bar> \<le> 14 * u"
proof -
  have "2 * (c' - C') * (c' + C') = (2 * c'\<^sup>2 - 1 - c) + (c - C)" using assms(3) by (simp add: power2_eq_square algebra_simps)
  then have "\<bar>2 * (c' - C') * (c' + C')\<bar> \<le> 38 * u" using assms(1,2) by linarith
  moreover have "\<bar>2 * (c' - C') * (c' + C')\<bar> = 2 * \<bar>c' - C'\<bar> * (c' + C')" using assms(4,5) unfolding abs_mult by simp
  ultimately have "2 * \<bar>c' - C'\<bar> * (c' + C') \<le> 38 * u" by (simp only:)
  moreover have "2 * \<bar>c' - C'\<bar> * (14 / 10) \<le> 2 * \<bar>c' - C'\<bar> * (c' + C')" using assms(4,5) by (intro mult_left_mono) simp_all
  ultimately have "2 * \<bar>c' - C'\<bar> * (14 / 10) \<le> 38 * u" by (rule order_trans [rotated])
  moreover have "0 \<le> u" using abs_ge_zero [of "c - C"] assms(2) by linarith
  ultimately show ?thesis by simp
qed

lemma half_sin:
  fixes s' S' :: real
  assumes "\<bar>2 * s' * c' - s\<bar> \<le> 7 * u" "\<bar>s - S\<bar> \<le> 90 * u" "S = 2 * S' * C'" "\<bar>c' - C'\<bar> \<le> 14 * u" "\<bar>S'\<bar> \<le> 1" "7 / 10 \<le> c'"
  shows "\<bar>s' - S'\<bar> \<le> 90 * u"
proof -
  have "2 * (s' - S') * c' = (2 * s' * c' - s) + (s - S) - 2 * (S' * (c' - C'))" using assms(3) by (simp add: algebra_simps)
  moreover have "\<bar>S' * (c' - C')\<bar> \<le> 1 * (14 * u)" unfolding abs_mult using assms(4,5) by (intro mult_mono) simp_all
  ultimately have "\<bar>2 * (s' - S') * c'\<bar> \<le> 125 * u" using assms(1,2) by linarith
  moreover have "\<bar>2 * (s' - S') * c'\<bar> = 2 * \<bar>s' - S'\<bar> * c'" using assms(6) unfolding abs_mult by simp
  ultimately have "2 * \<bar>s' - S'\<bar> * c' \<le> 125 * u" by (simp only:)
  moreover have "2 * \<bar>s' - S'\<bar> * (7 / 10) \<le> 2 * \<bar>s' - S'\<bar> * c'" using assms(6) by (intro mult_left_mono) simp_all
  ultimately have "2 * \<bar>s' - S'\<bar> * (7 / 10) \<le> 125 * u" by (rule order_trans [rotated])
  moreover have "0 \<le> u" using abs_ge_zero [of "s - S"] assms(2) by linarith
  ultimately show ?thesis by simp
qed

lemma cos_large:
  assumes "2 \<le> m"
  shows "7 / 10 \<le> cos (2 * pi / 2 ^ Suc m)"
proof -
  have "(2::real) ^ 3 \<le> 2 ^ Suc m" using assms by (intro power_increasing) simp_all
  then have "2 * pi / 2 ^ Suc m \<le> 2 * pi / 8" by (intro divide_left_mono) simp_all
  then have "cos (pi / 4) \<le> cos (2 * pi / 2 ^ Suc m)" by (intro cos_monotone_0_pi_le) simp_all
  moreover have "(14 / 10 :: real) \<le> sqrt 2" by (rule real_le_rsqrt) (simp add: power2_eq_square)
  ultimately show ?thesis by (simp add: cos_45)
qed

lemma DFTTab_roots:
  assumes "m < 32"
  shows "\<bar>table_cos m - cos (2 * pi / 2 ^ m)\<bar> \<le> 14 * (1 / 10 ^ 17) \<and> \<bar>table_sin m - sin (2 * pi / 2 ^ m)\<bar> \<le> 90 * (1 / 10 ^ 17)"
proof (cases "m < 2")
  case True
  then have "m = 0 \<or> m = 1" by auto
  then show ?thesis by (auto simp: table_cos_def table_sin_def DFTTab_def)
next
  case False
  then have "2 \<le> m" by simp
  then show ?thesis using assms
  proof (induction m rule: dec_induct)
    case base
    have "2 * pi / 2 ^ 2 = pi / 2" by simp
    then show ?case by (simp only: cos_pi_half sin_pi_half) (simp add: table_cos_def table_sin_def DFTTab_def)
  next
    case (step m)
    let ?x = "2 * pi / 2 ^ Suc m"
    have x: "2 * pi / 2 ^ m = 2 * ?x" by simp
    have IH: "\<bar>table_cos m - cos (2 * ?x)\<bar> \<le> 14 * (1 / 10 ^ 17)" "\<bar>table_sin m - sin (2 * ?x)\<bar> \<le> 90 * (1 / 10 ^ 17)"
      using step unfolding x by simp_all
    have t: "\<bar>2 * (table_cos (Suc m))\<^sup>2 - 1 - table_cos m\<bar> \<le> 24 * (1 / 10 ^ 17)"
        "\<bar>2 * table_sin (Suc m) * table_cos (Suc m) - table_sin m\<bar> \<le> 7 * (1 / 10 ^ 17)" "7 / 10 \<le> table_cos (Suc m)"
      using table_steps [of m] step by simp_all
    have c: "\<bar>table_cos (Suc m) - cos ?x\<bar> \<le> 14 * (1 / 10 ^ 17)"
      by (rule half_cos [OF t(1) IH(1) cos_double_cos t(3) cos_large]) (rule step.hyps)
    moreover have "\<bar>table_sin (Suc m) - sin ?x\<bar> \<le> 90 * (1 / 10 ^ 17)"
      by (rule half_sin [OF t(2) IH(2) sin_double c abs_sin_le_one t(3)])
    ultimately show ?case by simp
  qed
qed

lemma first_root_some: "m < 32 \<Longrightarrow> \<exists>w1. first_root sine n m = Some w1"
  by (cases "DFTTab ! m") (simp add: first_root_def Let_def rd_def length_DFTTab)

lemma power_of_two_test:
  assumes "odd q" "n = 2 ^ v * q"
  shows "n AND (n - 1) = 0 \<longleftrightarrow> n = (2 :: nat) ^ v"
proof
  assume "n = 2 ^ v"
  moreover have "(2 :: nat) ^ v - 1 = mask v" by (simp add: mask_eq_exp_minus_1)
  ultimately show "n AND (n - 1) = 0" by (simp add: take_bit_eq_mod flip: take_bit_eq_mask)
next
  assume z: "n AND (n - 1) = 0"
  obtain k where q: "q = 2 * k + 1" using assms(1) by (elim oddE)
  have "n = 2 ^ v * (q - 1) + 2 ^ v" "2 ^ v * Suc (q - 1) = n" by (simp_all add: assms(2) q algebra_simps)
  moreover have "(1 :: nat) \<le> 2 ^ v" by (rule one_le_power) simp
  ultimately have "2 ^ v * (q - 1) \<le> n - 1" "n - 1 < 2 ^ v * Suc (q - 1)" by linarith+
  then have "(n - 1) div 2 ^ v = q - 1" by (rule div_nat_eqI)
  then have "drop_bit v (n AND (n - 1)) = q AND (q - 1)" unfolding drop_bit_and by (simp add: drop_bit_eq_div assms(2))
  moreover have "drop_bit v (n AND (n - 1)) = 0" unfolding z by simp
  ultimately have "q AND (q - 1) = 0" by (simp only:)
  then have "(2 * k + 1) AND (2 * k) = 0" by (simp add: q)
  then have "k = 0" by (subst (asm) and_rec) simp
  then show "n = 2 ^ v" by (simp add: assms(2) q)
qed

text \<open>
  What the powers are made from: for a power of two the entry of the table, which is the root of unity
  up to \<open>10 ^ -15\<close>; otherwise the sine of \<open>-2 * CV_PI / n\<close> and the root that makes the sum of squares 1.
\<close>

definition root_of :: "(ieee \<Rightarrow> ieee) \<Rightarrow> nat \<Rightarrow> nat \<Rightarrow> ieee \<times> ieee \<Rightarrow> bool" where
  "root_of sine n v w1 \<longleftrightarrow>
     (if n = 2 ^ v then w1 = (from_units (fst (DFTTab ! v)), fneg (from_units (snd (DFTTab ! v)))) \<and>
        \<bar>table_cos v - cos (2 * pi / real n)\<bar> \<le> 1 / 10 ^ 15 \<and> \<bar>table_sin v - sin (2 * pi / real n)\<bar> \<le> 1 / 10 ^ 15
      else let t = divd (muld (fneg CV_PI) (Fin 2)) (of_z b64 (int n)) in
        w1 = (fsqrt b32 (cvt b32 (subd (Fin 1) (muld (sine t) (sine t)))), sine t))"

lemma first_root_is:
  assumes "v < 32" "odd q" "n = 2 ^ v * q" "first_root sine n v = Some w1"
  shows "root_of sine n v w1"
proof (cases "n = 2 ^ v")
  case True
  then have "\<bar>table_cos v - cos (2 * pi / real n)\<bar> \<le> 14 * (1 / 10 ^ 17)" "\<bar>table_sin v - sin (2 * pi / real n)\<bar> \<le> 90 * (1 / 10 ^ 17)"
    using DFTTab_roots [OF assms(1)] by simp_all
  then have "\<bar>table_cos v - cos (2 * pi / real n)\<bar> \<le> 1 / 10 ^ 15" "\<bar>table_sin v - sin (2 * pi / real n)\<bar> \<le> 1 / 10 ^ 15"
    by simp_all
  then show ?thesis
    using assms(1,4) True power_of_two_test [OF assms(2,3)]
    by (cases "DFTTab ! v") (simp add: root_of_def first_root_def rd_def length_DFTTab)
next
  case False
  then show ?thesis using assms(4) power_of_two_test [OF assms(2,3)] by (simp add: root_of_def first_root_def Let_def)
qed

section \<open>The two tables\<close>

lemma rd_map_int_append: "i < length fs \<Longrightarrow> rd (map int fs @ xs) i = Some (int (fs ! i))"
  by (simp add: rd_def nth_append)

lemma at_seg_prefix: "at_seg (xs @ ys @ zs) (length xs) ys"
proof (induction ys arbitrary: xs)
  case (Cons y ys)
  then show ?case using Cons.IH [of "xs @ [y]"] by (simp add: nth_append)
qed simp

lemma same_ends:
  assumes "sorted_wrt (\<ge>) (ps :: nat list)" "ps \<noteq> []" "ps ! 0 = ps ! (length ps - 1)"
  shows "rev ps = ps"
proof -
  have "x = ps ! 0" if x: "x \<in> set ps" for x
  proof -
    obtain k where k: "k < length ps" "x = ps ! k" using x by (auto simp: in_set_conv_nth)
    have "ps ! k \<le> ps ! 0" using assms(1) k(1) by (cases "k = 0") (auto simp: sorted_wrt_iff_nth_less)
    moreover have "ps ! (length ps - 1) \<le> ps ! k"
      using assms(1) k(1) by (cases "k = length ps - 1") (auto simp: sorted_wrt_iff_nth_less)
    ultimately show ?thesis using assms(3) k(2) by simp
  qed
  then have "ps = replicate (length ps) (ps ! 0)" by (simp add: replicate_length_same)
  then show ?thesis by (metis rev_replicate)
qed

text \<open>Lengths up to 5 have a table of their own.\<close>

lemma small_entries:
  "2 \<le> length itab \<Longrightarrow> small_table 2 itab = Some (put itab 0 [0, 1])"
  "3 \<le> length itab \<Longrightarrow> small_table 3 itab = Some (put itab 0 [0, 1, 2])"
  "4 \<le> length itab \<Longrightarrow> small_table 4 itab = Some (put itab 0 [0, 2, 1, 3])"
  "5 \<le> length itab \<Longrightarrow> small_table 5 itab = Some (put itab 0 [0, 1, 2, 3, 4])"
  by (auto simp: numeral_eq_Suc Suc_le_length_iff small_table_def wr_def wrz_def put_def)

lemma writes_list: "map h [0..<n] = ys \<Longrightarrow> n \<le> length xs \<Longrightarrow> writes {0..<n} h xs (put xs 0 ys)"
  using writes_put [of ys n 0 xs h] by auto

lemma small_table_spec:
  assumes "2 \<le> n" "n \<le> 5" and plan: "two v @ ps = [n]" "\<forall>p \<in> set ps. odd p" and room: "n \<le> length itab"
  shows "ok (small_table n itab) (writes {0..<n} (order_of (bits v @ ps)) itab) \<and> rev (bits v @ ps) = bits v @ ps"
proof -
  have even: "even n" if "0 < v"
  proof -
    have "n = 2 ^ v" using that plan(1) by (simp add: two_def)
    then show ?thesis using that by simp
  qed
  consider "n = 2" | "n = 3" | "n = 4" | "n = 5" using assms(1,2) by linarith
  then show ?thesis
  proof cases
    case 1
    then have "v = 1" "ps = []" using plan power_inject_exp [of "2::nat" v 1] by (auto simp: two_def split: if_splits)
    then show ?thesis using room 1 small_entries(1) [of itab]
      by (auto simp: numeral_2_eq_2 upt_rec intro!: writes_list)
  next
    case 2
    then have "v = 0" using even by auto
    then have "v = 0" "ps = [3]" using plan 2 by (simp_all add: two_def)
    then show ?thesis using room 2 small_entries(2) [of itab]
      by (auto simp: numeral_2_eq_2 upt_rec intro!: writes_list)
  next
    case 3
    then have "v = 2" "ps = []" using plan power_inject_exp [of "2::nat" v 2] by (auto simp: two_def split: if_splits)
    moreover have "bits 2 = [2, 2]" by (simp add: numeral_eq_Suc)
    ultimately show ?thesis using room 3 small_entries(3) [of itab] by (auto simp: upt_rec intro!: writes_list)
  next
    case 4
    then have "v = 0" using even by auto
    then have "v = 0" "ps = [5]" using plan 4 by (simp_all add: two_def)
    then show ?thesis using room 4 small_entries(4) [of itab]
      by (auto simp: numeral_2_eq_2 upt_rec intro!: writes_list)
  qed
qed

text \<open>The plan of \<open>DFTFactorize\<close> as powers of two and odd primes.\<close>

lemma plan_shape:
  assumes "2 \<le> n" "n < 2 * 3 ^ 8"
  obtains v ps where "DFTFactorize 8 n = Some (two v @ ps)" "n = 2 ^ v * prod_list ps"
    "\<forall>p \<in> set ps. prime_number p \<and> odd p \<and> 1 < p" "sorted_wrt (\<ge>) ps" "v < 32" "length (two v @ ps) < 34"
proof -
  obtain tw ps where f: "DFTFactorize 8 n = Some (tw @ ps)" and plan: "is_plan n tw ps" 
    using plan_of_small [OF assms(1)] plan_of_large [OF _ assms(2)] by (meson not_less)
  then obtain v where v: "n div prod_list ps = 2 ^ v" and tw: "tw = (if even n then [n div prod_list ps] else [])"
    and n: "prod_list (tw @ ps) = n" and ps: "\<forall>p \<in> set ps. prime_number p \<and> odd p" "sorted_wrt (\<ge>) ps"
    unfolding is_plan_def by blast
  have gt: "\<forall>p \<in> set ps. 1 < p" using ps(1) by (simp add: prime_number_def)
  have odd: "odd (prod_list ps)" using ps(1) odd_product by blast
  then have pos: "0 < prod_list ps" by (rule odd_pos)
  have "even n \<longleftrightarrow> v \<noteq> 0"
  proof (cases "even n")
    case True
    then have "n = 2 ^ v * prod_list ps" using n v tw by simp
    then show ?thesis using True odd by (cases v) auto
  next
    case False
    then have "n = prod_list ps" using n tw by simp
    then have "(2::nat) ^ v = 1" using v pos by simp
    then show ?thesis using False by simp
  qed
  then have tw2: "tw = two v" and n2: "n = 2 ^ v * prod_list ps" using v n tw by (auto simp: two_def)
  have "2 ^ v * 1 \<le> n" unfolding n2 using pos by (intro mult_le_mono2) simp
  then have "(2::nat) ^ v < 2 ^ 32" using assms(2) by simp
  then have "v < 32" by (rule power_less_imp_less_exp [rotated]) simp
  moreover have "length (two v @ ps) < 34"
  proof -
    have "2 ^ length qs \<le> prod_list qs" if "\<forall>p \<in> set qs. 1 < p" for qs :: "nat list"
      using that by (induction qs) (auto intro: mult_le_mono)
    then have "2 ^ length ps \<le> prod_list ps" using gt by blast
    also have "\<dots> \<le> n" unfolding n2 by simp
    finally have "(2::nat) ^ length ps < 2 ^ 32" using assms(2) by simp
    then have "length ps < 32" by (rule power_less_imp_less_exp [rotated]) simp
    then show ?thesis by (simp add: two_def)
  qed
  ultimately show ?thesis using that f n2 ps gt tw2 by blast
qed

definition factor_array :: "nat list \<Rightarrow> int list" where
  "factor_array fs = map int fs @ replicate (8 - length fs) 0"

lemma at_seg_factor_array: "at_seg (factor_array fs) 0 (map int fs)"
  using at_seg_prefix [of "[]" "map int fs"] by (simp add: factor_array_def)

lemma writes_over:
  "writes S h ys zs \<Longrightarrow> length ys = length xs \<Longrightarrow> (\<And>p. p < length xs \<Longrightarrow> p \<notin> S \<Longrightarrow> ys ! p = xs ! p) \<Longrightarrow> writes S h xs zs"
  by (simp add: writes_def)

text \<open>A plan that reads the same from both ends is one prime only, or equal ones.\<close>

lemma palindrome_plan:
  assumes "\<forall>p \<in> set ps. odd p" "sorted_wrt (\<ge>) ps" "two v @ ps \<noteq> []"
    and ends: "(two v @ ps) ! 0 = (two v @ ps) ! (length (two v @ ps) - 1)"
  shows "rev (bits v @ ps) = bits v @ ps"
proof (cases "v = 0")
  case True
  then show ?thesis using assms by (intro same_ends) (simp_all add: two_def)
next
  case False
  have "ps = []"
  proof (rule ccontr)
    assume ps: "ps \<noteq> []"
    then have "2 ^ v = last ps" using ends False by (simp add: two_def last_conv_nth)
    moreover have "odd (last ps)" using ps assms(1) by simp
    moreover have "even ((2::nat) ^ v)" using False by simp
    ultimately show False by metis
  qed
  then show ?thesis by simp
qed

lemma large_tables:
  assumes v: "v < 32" and ps: "\<forall>p \<in> set ps. odd p \<and> 1 < p" "sorted_wrt (\<ge>) ps" and n: "n = 2 ^ v * prod_list ps" "5 < n"
    and len: "length (two v @ ps) < 34" "length digits = 34" "length radix = 34"
    and room: "n \<le> length itab" "2 * n \<le> length wave" and w1: "first_root sine n v = Some w1"
  shows "ok (DFTInit sine as_int as_float (digits, radix) n (length (two v @ ps)) (factor_array (two v @ ps)) inv_itab (itab, wave))
    (\<lambda>(itab', wave'). writes {0..<n} (order_of (if inv_itab then rev (bits v @ ps) else bits v @ ps)) itab itab' \<and>
       writes {0..<2 * n} (wave_at n w1) wave wave')"
proof -
  let ?fs = "two v @ ps" and ?primes = "bits v @ ps"
  let ?F = "factor_array ?fs" and ?init = "DFTInit sine as_int as_float (digits, radix) n (length ?fs)"
  have ne: "?fs \<noteq> []" using n by (auto simp: two_def)
  then have f: "rd ?F 0 = Some (int (?fs ! 0))" "rd ?F (length ?fs - 1) = Some (int (?fs ! (length ?fs - 1)))"
    unfolding factor_array_def by (intro rd_map_int_append; simp)+
  have ev: "even (int (?fs ! 0)) \<longleftrightarrow> v \<noteq> 0" using ne ps(1) by (cases ps) (auto simp: two_def)
  have m: "(if even (int (?fs ! 0)) then log_from 0 (nat (int (?fs ! 0))) else 0) = v"
    using ev log_from_power [of 0 v] by (simp add: two_def nat_power_eq)
  have order: "ok (order_table (digits, radix) n (length ?fs) ?F t) (writes {0..<n} (order_of ?primes) t)" if "n \<le> length t" for t
    by (rule order_table_spec [OF at_seg_factor_array]) (use len v ps n that in auto)
  have wave: "ok (write_wave n w1 w) (writes {0..<2 * n} (wave_at n w1) w)" if "length w = length wave" for w
    by (rule write_wave_spec) (use n room that in auto)
  show ?thesis
  proof (cases "inv_itab \<and> ?fs ! 0 \<noteq> ?fs ! (length ?fs - 1)")
    case True
    then have unfold: "?init ?F inv_itab (itab, wave) = do {
        tmp \<leftarrow> order_table (digits, radix) n (length ?fs) ?F (map as_int wave);
        itab \<leftarrow> invert n tmp itab;
        wave \<leftarrow> write_wave n w1 (map as_float (take n tmp) @ drop n wave);
        Some (itab, wave) }"
      using n(2) len(1) f m w1 by (simp add: DFTInit_def bind_assoc)
    obtain tmp where tmp: "order_table (digits, radix) n (length ?fs) ?F (map as_int wave) = Some tmp"
        "writes {0..<n} (order_of ?primes) (map as_int wave) tmp"
      using order [of "map as_int wave"] room(2) by (auto elim!: okE)
    have l: "length tmp = length wave" using writes_length [OF tmp(2)] by simp
    have zero: "0 \<notin> set ?primes" using ps(1) by auto
    have "ok (invert n tmp itab) (writes {0..<n} (order_of (rev ?primes)) itab)"
      by (rule invert_spec [OF _ _ zero]) (use tmp(2) l room n in \<open>auto simp: writes_def prod_bits\<close>)
    moreover have "ok (write_wave n w1 (map as_float (take n tmp) @ drop n wave)) (writes {0..<2 * n} (wave_at n w1) wave)"
    proof (rule ok_mono [OF wave])
      show len2: "length (map as_float (take n tmp) @ drop n wave) = length wave" using l room(2) by simp
      fix w assume "writes {0..<2 * n} (wave_at n w1) (map as_float (take n tmp) @ drop n wave) w"
      then show "writes {0..<2 * n} (wave_at n w1) wave w"
        by (rule writes_over [OF _ len2]) (use l room(2) in \<open>simp add: nth_append\<close>)
    qed
    ultimately show ?thesis using True unfolding unfold tmp(1) by (auto simp: wp elim!: ok_mono)
  next
    case False
    then have "?init ?F inv_itab (itab, wave) = do {
        itab \<leftarrow> order_table (digits, radix) n (length ?fs) ?F itab;
        wave \<leftarrow> write_wave n w1 wave;
        Some (itab, wave) }"
      using n(2) len(1) f m w1 by (auto simp add: DFTInit_def bind_assoc)
    moreover have "inv_itab \<Longrightarrow> rev ?primes = ?primes" using False palindrome_plan [OF _ ps(2) ne] ps(1) by blast
    ultimately show ?thesis using order [OF room(1)] wave [OF refl] by (auto simp: wp elim!: ok_mono)
  qed
qed

text \<open>The lengths 2, 3 and 5 have no powers; for 5 only the first place is written.\<close>

definition wave_is :: "nat \<Rightarrow> ieee \<times> ieee \<Rightarrow> ieee list \<Rightarrow> ieee list \<Rightarrow> bool" where
  "wave_is n w1 wave wave' \<longleftrightarrow>
     (if n < 4 then wave' = wave else if n = 5 then wave' = wave[0 := Fin 1, 1 := Fin 0]
      else writes {0..<2 * n} (wave_at n w1) wave wave')"

lemma all_tables:
  assumes n2: "2 \<le> n" "n < 2 * 3 ^ 8" and room: "n \<le> length itab" "2 * n \<le> length wave"
    and junk: "length digits = 34" "length radix = 34"
    and f: "DFTFactorize 8 n = Some (two v @ ps)" and n: "n = 2 ^ v * prod_list ps"
    and ps: "\<forall>p \<in> set ps. prime_number p \<and> odd p \<and> 1 < p" "sorted_wrt (\<ge>) ps" and v: "v < 32" "length (two v @ ps) < 34"
    and w1: "first_root sine n v = Some w1"
  shows "ok (DFTInit sine as_int as_float (digits, radix) n (length (two v @ ps)) (factor_array (two v @ ps)) inv_itab (itab, wave))
    (\<lambda>(itab', wave'). writes {0..<n} (order_of (if inv_itab then rev (bits v @ ps) else bits v @ ps)) itab itab' \<and>
       wave_is n w1 wave wave')"
proof (cases "5 < n")
  case True
  then show ?thesis
    by (intro ok_mono [OF large_tables [OF v(1) _ ps(2) n True v(2) junk room w1]]) (use ps(1) in \<open>auto simp: wave_is_def\<close>)
next
  case False
  then have small: "two v @ ps = [n]" using f by (simp add: DFTFactorize_def push_def)
  have odd: "\<forall>p \<in> set ps. odd p" using ps(1) by blast
  obtain t where t: "small_table n itab = Some t" "writes {0..<n} (order_of (bits v @ ps)) itab t" "rev (bits v @ ps) = bits v @ ps"
    using small_table_spec [OF n2(1) _ small odd room(1)] False by (auto elim!: okE)
  then have h: "writes {0..<n} (order_of (if inv_itab then rev (bits v @ ps) else bits v @ ps)) itab t" by simp
  have v2: "v = 2" if "n = 4"
  proof -
    have "v \<noteq> 0"
    proof
      assume "v = 0"
      then have "ps = [n]" using small by (simp add: two_def)
      then show False using odd that by simp
    qed
    then have "(2::nat) ^ v = 2 ^ 2" using small that by (simp add: two_def)
    then show ?thesis by (simp only: power_inject_exp)
  qed
  consider "n = 4" | "n = 5" | "n < 4" using False by linarith
  then show ?thesis
  proof cases
    case 1
    obtain w where w: "write_wave n w1 wave = Some w" "writes {0..<2 * n} (wave_at n w1) wave w"
      using write_wave_spec [OF n2(1) room(2), of w1] by (blast elim: okE)
    have "(DFTInit sine as_int as_float (digits, radix) n (length (two v @ ps)) (factor_array (two v @ ps)) inv_itab (itab, wave)) = Some (t, w)" using 1 t(1) w(1) w1 v2 by (simp add: DFTInit_def)
    then show ?thesis using h w(2) 1 by (simp add: wave_is_def)
  next
    case 2
    then have "(DFTInit sine as_int as_float (digits, radix) n (length (two v @ ps)) (factor_array (two v @ ps)) inv_itab (itab, wave)) = Some (t, wave[0 := Fin 1, 1 := Fin 0])" using t(1) room(2) by (auto simp: DFTInit_def wr_def)
    then show ?thesis using h 2 by (simp add: wave_is_def)
  next
    case 3
    then have "(DFTInit sine as_int as_float (digits, radix) n (length (two v @ ps)) (factor_array (two v @ ps)) inv_itab (itab, wave)) = Some (t, wave)" using t(1) by (simp add: DFTInit_def)
    then show ?thesis using h 3 by (simp add: wave_is_def)
  qed
qed

text \<open>
  C15: For every length from 2 to 2 * 3 ^ 8 - 1, on the factors that \<open>DFTFactorize\<close> finds, the
  tables are built inside their arrays. The order of the input is the reversal of digits to the
  prime factors of the length, all twos first and then the odd primes, whether it was built
  from the table of reversed bytes, from the macro \<open>BitRev\<close> or by counting with carries; with
  \<open>inv_itab\<close> it is the reversal to the primes in the opposite order. For the length 4 and the lengths from
  6 on, the other table holds the repeated products of the first root in double precision, rounded
  to single, and their conjugates. The first root is, for a power of two, the entry of \<open>DFTTab\<close>, which is
  the cosine and the negated sine of the angle 2 pi / n up to 10 ^ -15; otherwise it is what the given sine
  answers for \<open>-2 * CV_PI / n\<close> with the square root of the rest. For the lengths 2 and 3 the other table is
  left alone, for 5 only its first place is written.
\<close>

theorem dft_tables:
  assumes "2 \<le> n" "n < 2 * 3 ^ 8" and room: "n \<le> length itab" "2 * n \<le> length wave"
    and junk: "length digits = 34" "length radix = 34"
  shows "\<exists>v ps w1 itab' wave'. DFTFactorize 8 n = Some (two v @ ps) \<and> n = prod_list (bits v @ ps) \<and>
    (\<forall>p \<in> set ps. prime_number p \<and> odd p) \<and> sorted_wrt (\<ge>) ps \<and> root_of sine n v w1 \<and>
    DFTInit sine as_int as_float (digits, radix) n (length (two v @ ps)) (factor_array (two v @ ps)) inv_itab (itab, wave) = Some (itab', wave') \<and>
    writes {0..<n} (order_of (if inv_itab then rev (bits v @ ps) else bits v @ ps)) itab itab' \<and>
    wave_is n w1 wave wave'"
proof -
  obtain v ps where f: "DFTFactorize 8 n = Some (two v @ ps)" and n: "n = 2 ^ v * prod_list ps"
    and ps: "\<forall>p \<in> set ps. prime_number p \<and> odd p \<and> 1 < p" "sorted_wrt (\<ge>) ps" and v: "v < 32" "length (two v @ ps) < 34"
    by (rule plan_shape [OF assms(1,2)])
  obtain w1 where w1: "first_root sine n v = Some w1" using first_root_some [OF v(1)] by blast
  have "\<forall>p \<in> set ps. odd p" using ps(1) by blast
  then have "odd (prod_list ps)" by (induction ps) auto
  then have root: "root_of sine n v w1" by (rule first_root_is [OF v(1) _ n w1])
  have "\<exists>t w. DFTInit sine as_int as_float (digits, radix) n (length (two v @ ps)) (factor_array (two v @ ps)) inv_itab (itab, wave) = Some (t, w) \<and>
      writes {0..<n} (order_of (if inv_itab then rev (bits v @ ps) else bits v @ ps)) itab t \<and> wave_is n w1 wave w"
    using all_tables [OF assms f n ps v w1, of as_int as_float inv_itab] by (auto simp only: ok_iff_ex split: prod.splits)
  moreover have "n = prod_list (bits v @ ps)" "\<forall>p \<in> set ps. prime_number p \<and> odd p" using n ps(1) by (simp_all add: prod_bits)
  ultimately show ?thesis using f ps(2) root by blast
qed

lemma dft_tables_witness:
  "\<exists>v ps w1 itab' wave'. DFTFactorize 8 24 = Some (two v @ ps) \<and> 24 = prod_list (bits v @ ps) \<and>
    (\<forall>p \<in> set ps. prime_number p \<and> odd p) \<and> sorted_wrt (\<ge>) ps \<and> root_of (\<lambda>x. x) 24 v w1 \<and>
    DFTInit (\<lambda>x. x) (\<lambda>x. 0) (\<lambda>k. NaN) (replicate 34 7, replicate 34 7) 24 (length (two v @ ps)) (factor_array (two v @ ps)) True
      (replicate 24 0, replicate 64 NaN) = Some (itab', wave') \<and>
    writes {0..<24} (order_of (if True then rev (bits v @ ps) else bits v @ ps)) (replicate 24 0) itab' \<and>
    wave_is 24 w1 (replicate 64 NaN) wave'"
  by (rule dft_tables) simp_all

text \<open>
  C34: The two orders of one length, built with and without \<open>inv_itab\<close>, are permutations of the
  positions and inverse to each other, also where the code takes the same table for both.
\<close>

theorem dft_inverse:
  assumes "2 \<le> n" "n < 2 * 3 ^ 8" and room: "n \<le> length itab" "2 * n \<le> length wave"
    and junk: "length digits = 34" "length radix = 34"
  shows "\<exists>fs there wave1 back wave2. DFTFactorize 8 n = Some fs \<and>
    DFTInit sine as_int as_float (digits, radix) n (length fs) (factor_array fs) False (itab, wave) = Some (there, wave1) \<and>
    DFTInit sine as_int as_float (digits, radix) n (length fs) (factor_array fs) True (itab, wave) = Some (back, wave2) \<and>
    (\<forall>i < n. there ! i \<in> {0..<int n} \<and> back ! i \<in> {0..<int n} \<and> back ! nat (there ! i) = int i \<and> there ! nat (back ! i) = int i)"
proof -
  obtain v ps where f: "DFTFactorize 8 n = Some (two v @ ps)" and n: "n = 2 ^ v * prod_list ps"
    and ps: "\<forall>p \<in> set ps. prime_number p \<and> odd p \<and> 1 < p" "sorted_wrt (\<ge>) ps" and v: "v < 32" "length (two v @ ps) < 34"
    by (rule plan_shape [OF assms(1,2)])
  obtain w1 where w1: "first_root sine n v = Some w1" using first_root_some [OF v(1)] by blast
  let ?p = "bits v @ ps" and ?init = "DFTInit sine as_int as_float (digits, radix) n (length (two v @ ps)) (factor_array (two v @ ps))"
  have run: "\<exists>t w. ?init b (itab, wave) = Some (t, w) \<and> writes {0..<n} (order_of (if b then rev ?p else ?p)) itab t" for b
    using all_tables [OF assms f n ps v w1, of as_int as_float b] by (auto elim!: okE)
  have zero: "0 \<notin> set ?p" and np: "n = prod_list ?p" using ps(1) by (auto simp: n prod_bits)
  obtain t1 u1 t2 u2 where r: "?init False (itab, wave) = Some (t1, u1)" "writes {0..<n} (order_of ?p) itab t1"
      "?init True (itab, wave) = Some (t2, u2)" "writes {0..<n} (order_of (rev ?p)) itab t2"
    using run [of False] run [of True] by auto
  have at: "i < n \<Longrightarrow> t1 ! i = order_of ?p i \<and> t2 ! i = order_of (rev ?p) i" for i
    using r(2,4) room(1) by (simp add: writes_def)
  have "\<forall>i < n. digit_reverse ?p i < n \<and> digit_reverse (rev ?p) i < n \<and>
      digit_reverse (rev ?p) (digit_reverse ?p i) = i \<and> digit_reverse ?p (digit_reverse (rev ?p) i) = i"
    unfolding np using reversals [OF zero] by blast
  then have "\<forall>i < n. t1 ! i \<in> {0..<int n} \<and> t2 ! i \<in> {0..<int n} \<and> t2 ! nat (t1 ! i) = int i \<and> t1 ! nat (t2 ! i) = int i"
    using at by simp
  then show ?thesis using f r(1,3) by blast
qed

lemma dft_inverse_witness:
  "\<exists>fs there wave1 back wave2. DFTFactorize 8 24 = Some fs \<and>
    DFTInit (\<lambda>x. x) (\<lambda>x. 0) (\<lambda>k. NaN) (replicate 34 7, replicate 34 7) 24 (length fs) (factor_array fs) False (replicate 24 0, replicate 64 NaN) =
      Some (there, wave1) \<and>
    DFTInit (\<lambda>x. x) (\<lambda>x. 0) (\<lambda>k. NaN) (replicate 34 7, replicate 34 7) 24 (length fs) (factor_array fs) True (replicate 24 0, replicate 64 NaN) =
      Some (back, wave2) \<and>
    (\<forall>i < 24. there ! i \<in> {0..<int 24} \<and> back ! i \<in> {0..<int 24} \<and> back ! nat (there ! i) = int i \<and> there ! nat (back ! i) = int i)"
  by (rule dft_inverse) simp_all

section \<open>The parameters of the GPU kernels\<close>

text \<open>
  \<open>gpu_gaussianCorrelation\<close> passes the tables of a width or height to its kernels in a block of
  320 bytes: 64 floats of \<open>wave\<close>, 32 bytes that take \<open>itab\<close>, and the 8 factors. The arrays are those
  of the function, \<open>itab[32]\<close> and \<open>wave[64]\<close>.
\<close>

definition param_block ::
    "(ieee \<Rightarrow> ieee) \<Rightarrow> (ieee \<Rightarrow> int) \<Rightarrow> (int \<Rightarrow> ieee) \<Rightarrow> (int list \<times> int list) \<Rightarrow> nat \<Rightarrow> nat list \<Rightarrow> (ieee list \<times> nat list \<times> int list) option" where
  "param_block sine as_int as_float junk pitch bytes = do {
     factor \<leftarrow> DFTFactorize 8 pitch;
     (itab, wave) \<leftarrow> DFTInit sine as_int as_float junk pitch (length factor) (factor_array factor) False
       (replicate 32 0, replicate 64 (Fin 0));
     bytes \<leftarrow> loop pitch (\<lambda>i bytes. do { v \<leftarrow> rd itab i; wr bytes i (nat (v mod 256)) }) bytes;
     Some (wave, bytes, factor_array factor) }"

text \<open>
  All widths and heights up to 32 fit the block, and the bytes are the order of the input. The template
  of 96 pixels yields at most 24 cells.
\<close>

theorem param_block_fits:
  assumes "2 \<le> n" "n \<le> 32" "length bytes = 32" "length digits = 34" "length radix = 34"
  shows "\<exists>v ps wave. DFTFactorize 8 n = Some (two v @ ps) \<and> n = prod_list (bits v @ ps) \<and>
    param_block sine as_int as_float (digits, radix) n bytes =
      Some (wave, put bytes 0 (map (digit_reverse (bits v @ ps)) [0..<n]), factor_array (two v @ ps))"
proof -
  have n: "n < 2 * 3 ^ 8" "n \<le> length (replicate 32 (0::int))" "2 * n \<le> length (replicate 64 (Fin 0))" using assms(2) by simp_all
  obtain v ps where f: "DFTFactorize 8 n = Some (two v @ ps)" and p: "n = 2 ^ v * prod_list ps"
    and ps: "\<forall>p \<in> set ps. prime_number p \<and> odd p \<and> 1 < p" "sorted_wrt (\<ge>) ps" and v: "v < 32" "length (two v @ ps) < 34"
    by (rule plan_shape [OF assms(1) n(1)])
  obtain w1 where w1: "first_root sine n v = Some w1" using first_root_some [OF v(1)] by blast
  have zero: "0 \<notin> set (bits v @ ps)" using ps(1) by auto
  have "ok (DFTInit sine as_int as_float (digits, radix) n (length (two v @ ps)) (factor_array (two v @ ps)) False (replicate 32 0, replicate 64 (Fin 0)))
      (\<lambda>(itab, wave). writes {0..<n} (order_of (bits v @ ps)) (replicate 32 0) itab)"
    using all_tables [OF assms(1) n assms(4,5) f p ps v w1, of as_int as_float False] by (auto elim!: ok_mono)
  then obtain t w where t: "DFTInit sine as_int as_float (digits, radix) n (length (two v @ ps)) (factor_array (two v @ ps)) False
      (replicate 32 0, replicate 64 (Fin 0)) = Some (t, w)" "writes {0..<n} (order_of (bits v @ ps)) (replicate 32 0) t"
    by (auto simp: ok_iff_ex)
  have l: "length t = 32" using writes_length [OF t(2)] by simp
  have "loop n (\<lambda>i bytes. do { v \<leftarrow> rd t i; wr bytes i (nat (v mod 256)) }) bytes = Some (put bytes 0 (map (digit_reverse (bits v @ ps)) [0..<n]))"
  proof (rule loop_wr [where L = 32])
    fix j xs assume j: "j < n" and xs: "length (xs :: nat list) = 32"
    have "digit_reverse (bits v @ ps) j < n" using digit_reverse_less [OF zero, of j] p by (simp add: prod_bits)
    then have "int (digit_reverse (bits v @ ps) j) mod 256 = int (digit_reverse (bits v @ ps) j)" using assms(2) by simp
    moreover have "t ! j = order_of (bits v @ ps) j" using t(2) j assms(2) by (simp add: writes_def)
    ultimately show "do { v \<leftarrow> rd t j; wr xs j (nat (v mod 256)) } = Some (xs[0 + j := digit_reverse (bits v @ ps) j])"
      using l j xs assms(2) by (simp add: rd_def wr_def del: of_nat_mod)
  qed (use assms in simp_all)
  then have "param_block sine as_int as_float (digits, radix) n bytes = Some (w, put bytes 0 (map (digit_reverse (bits v @ ps)) [0..<n]), factor_array (two v @ ps))"
    using f t(1) by (simp add: param_block_def)
  then show ?thesis using f p by (auto simp: prod_bits)
qed

end
