(* ===== verification/Bitstream.thy ===== *)
theory Bitstream
  imports Frame_Alloc Writes
begin

text \<open>
  The bitstream of a channel (\<open>video_analytics_example/common.cpp\<close>, \<open>ReadBitStreamData\<close>, and the
  reading part of the decode loop in \<open>main.cpp\<close>): when the decoder wants more data, what it has left
  is moved to the front of the buffer and the rest is filled from the file; at the end of the file
  the thread rewinds and reads again.

  A file is its bytes and a position; \<open>fread\<close> returns what is there, at most the number asked for.
  The decoder of the Media SDK takes any number of bytes from the front of what it is given. The
  lemmas show that it is fed the file, over and over, without a gap, and when the thread gives up.
  \<open>GetFreeSurfaceIndex\<close> and \<open>ReadPlaneData\<close>, which stand next to it in the source, are modelled as well.
\<close>

section \<open>Files and buffers\<close>

record 'b bitstream =
  Data :: "'b list"
  DataOffset :: nat
  DataLength :: nat
  MaxLength :: nat

record 'b stream =
  contents :: "'b list"
  fpos :: nat

definition fread :: "nat \<Rightarrow> 'b stream \<Rightarrow> 'b list \<times> 'b stream" where
  "fread n f = (let chunk = take n (drop (fpos f) (contents f)) in (chunk, f\<lparr>fpos := fpos f + length chunk\<rparr>))"

definition rewind :: "'b stream \<Rightarrow> 'b stream" where
  "rewind f = f\<lparr>fpos := 0\<rparr>"

text \<open>\<open>memmove\<close> within one array.\<close>

definition memmove :: "'b list \<Rightarrow> nat \<Rightarrow> nat \<Rightarrow> nat \<Rightarrow> 'b list option" where
  "memmove xs dest src n = (if src + n \<le> length xs then blit xs dest (take n (drop src xs)) else None)"

definition ReadBitStreamData :: "'b bitstream \<Rightarrow> 'b stream \<Rightarrow> (mfx_status \<times> 'b bitstream \<times> 'b stream) option" where
  "ReadBitStreamData pBS fSource = do {
     d \<leftarrow> memmove (Data pBS) 0 (DataOffset pBS) (DataLength pBS);
     let pBS = pBS\<lparr>Data := d, DataOffset := 0\<rparr>;
     if DataLength pBS > MaxLength pBS then None
     else do {
       let (chunk, fSource) = fread (MaxLength pBS - DataLength pBS) fSource;
       d \<leftarrow> blit (Data pBS) (DataLength pBS) chunk;
       let pBS = pBS\<lparr>Data := d\<rparr>;
       if length chunk = 0 then Some (MFX_ERR_MORE_DATA, pBS, fSource)
       else Some (MFX_ERR_NONE, pBS\<lparr>DataLength := DataLength pBS + length chunk\<rparr>, fSource) } }"

text \<open>The branch of the decode loop that is taken when the decoder wants more data.\<close>

definition more_data :: "'b bitstream \<Rightarrow> 'b stream \<Rightarrow> (mfx_status \<times> 'b bitstream \<times> 'b stream) option" where
  "more_data bs f = do {
     (sts, bs, f) \<leftarrow> ReadBitStreamData bs f;
     if sts \<noteq> MFX_ERR_NONE then ReadBitStreamData bs (rewind f) else Some (sts, bs, f) }"

text \<open>The first surface of a pool that is not locked; a pool is None where the code has a null pointer.\<close>

definition GetFreeSurfaceIndex :: "nat list option \<Rightarrow> nat option" where
  "GetFreeSurfaceIndex pool = (case pool of None \<Rightarrow> None | Some locked \<Rightarrow>
     (case filter (\<lambda>i. locked ! i = 0) [0..<length locked] of [] \<Rightarrow> None | i # _ \<Rightarrow> Some i))"

text \<open>One row after the other, every second byte of the target from \<open>offset\<close> on.\<close>

definition ReadPlaneData :: "nat \<Rightarrow> nat \<Rightarrow> 'b list \<Rightarrow> nat \<Rightarrow> nat \<Rightarrow> 'b stream \<Rightarrow> (mfx_status \<times> 'b list \<times> 'b stream) option" where
  "ReadPlaneData w h ptr pitch offset fSource =
     loop_brk 0 h (\<lambda>i (sts, ptr, f).
       let (buf, f) = fread w f in
       if length buf \<noteq> w then Some ((MFX_ERR_MORE_DATA, ptr, f), False)
       else do {
         ptr \<leftarrow> loop w (\<lambda>j ptr. do { v \<leftarrow> rd buf j; wr ptr (i * pitch + j * 2 + offset) v }) ptr;
         Some ((sts, ptr, f), True) }) (MFX_ERR_NONE, ptr, fSource)"

section \<open>The decoder and its feed\<close>

record 'b feed =
  bs :: "'b bitstream"
  f_i :: "'b stream"
  running :: bool

datatype 'b feed_event = Taken "'b list" | Filled "'b list" | Stopped

definition pending :: "'b bitstream \<Rightarrow> 'b list" where
  "pending b = take (DataLength b) (drop (DataOffset b) (Data b))"

inductive feed_step :: "'b feed \<Rightarrow> 'b feed_event \<Rightarrow> 'b feed \<Rightarrow> bool" where
  take: "running s \<Longrightarrow> k \<le> DataLength (bs s) \<Longrightarrow>
    feed_step s (Taken (take k (pending (bs s)))) (s\<lparr>bs := (bs s)\<lparr>DataOffset := DataOffset (bs s) + k, DataLength := DataLength (bs s) - k\<rparr>\<rparr>)"
| refill: "running s \<Longrightarrow> more_data (bs s) (f_i s) = Some (MFX_ERR_NONE, b, f) \<Longrightarrow>
    feed_step s (Filled (drop (DataLength (bs s)) (pending b))) (s\<lparr>bs := b, f_i := f\<rparr>)"
| stop: "running s \<Longrightarrow> more_data (bs s) (f_i s) = Some (sts, b, f) \<Longrightarrow> sts \<noteq> MFX_ERR_NONE \<Longrightarrow>
    feed_step s Stopped (s\<lparr>bs := b, f_i := f, running := False\<rparr>)"

definition open_feed :: "'b list \<Rightarrow> 'b list \<Rightarrow> 'b feed" where
  "open_feed buffer bytes = \<lparr>bs = \<lparr>Data = buffer, DataOffset = 0, DataLength = 0, MaxLength = length buffer\<rparr>,
     f_i = \<lparr>contents = bytes, fpos = 0\<rparr>, running = True\<rparr>"

section \<open>A read\<close>

definition bs_ok :: "'b bitstream \<Rightarrow> bool" where
  "bs_ok b \<longleftrightarrow> DataOffset b + DataLength b \<le> length (Data b) \<and> MaxLength b = length (Data b)"

lemma length_pending: "bs_ok b \<Longrightarrow> length (pending b) = DataLength b"
  by (auto simp: bs_ok_def pending_def)

lemma ReadBitStreamData_spec:
  assumes ok: "bs_ok b" and r: "fread (length (Data b) - DataLength b) f = (chunk, f')"
  shows "\<exists>b'. ReadBitStreamData b f = Some (if chunk = [] then MFX_ERR_MORE_DATA else MFX_ERR_NONE, b', f') \<and>
    bs_ok b' \<and> pending b' = pending b @ chunk \<and> length (Data b') = length (Data b)"
proof -
  have c: "length chunk \<le> length (Data b) - DataLength b" using r by (auto simp: fread_def Let_def)
  have len: "DataLength b \<le> length (Data b)" "length (pending b) = DataLength b" using ok length_pending [OF ok] by (auto simp: bs_ok_def)
  let ?d = "put (put (Data b) 0 (pending b)) (DataLength b) chunk"
  have d: "?d = put (Data b) 0 (pending b @ chunk)" using put_app [of 0 "pending b" chunk "Data b"] c len by simp
  have l: "length ?d = length (Data b)" unfolding d using c len by (intro length_put) simp
  let ?b = "b\<lparr>Data := ?d, DataOffset := 0, DataLength := DataLength b + length chunk\<rparr>"
  have read: "ReadBitStreamData b f = Some (if chunk = [] then MFX_ERR_MORE_DATA else MFX_ERR_NONE, ?b, f')"
    using ok r c len by (auto simp: ReadBitStreamData_def memmove_def blit_def bs_ok_def pending_def [symmetric] Let_def)
  have "take (length (pending b @ chunk)) (drop 0 ?d) = pending b @ chunk" unfolding d by (rule take_drop_put) simp
  then have "pending ?b = pending b @ chunk" using len by (simp add: pending_def)
  moreover have "bs_ok ?b" using ok l c len by (auto simp: bs_ok_def)
  ultimately show ?thesis using read l by (intro exI [of _ ?b]) simp
qed

text \<open>
  The branch of the decode loop: it appends the next bytes of the file, from its beginning again
  where it was at the end, and fails if the file is empty or the decoder has left no room.
\<close>

definition wraps_to :: "'b stream \<Rightarrow> 'b list \<Rightarrow> 'b stream \<Rightarrow> bool" where
  "wraps_to f chunk f' \<longleftrightarrow> contents f' = contents f \<and> fpos f' \<le> length (contents f) \<and>
     (take (fpos f') (contents f) = take (fpos f) (contents f) @ chunk \<or>
      fpos f = length (contents f) \<and> take (fpos f') (contents f) = chunk)"

lemma take_min_length: "take (min (length xs) n) xs = take n xs"
  by (simp add: min_def)

lemma fread_wraps: "fpos f \<le> length (contents f) \<Longrightarrow> fread n f = (chunk, f') \<Longrightarrow> wraps_to f chunk f'"
  using take_min_length [of "drop (fpos f) (contents f)" n] by (auto simp: fread_def Let_def wraps_to_def take_add)

lemma more_data_spec:
  assumes ok: "bs_ok b" and pos: "fpos f \<le> length (contents f)"
  shows "\<exists>b' f' chunk. more_data b f = Some (if chunk = [] then MFX_ERR_MORE_DATA else MFX_ERR_NONE, b', f') \<and>
    bs_ok b' \<and> pending b' = pending b @ chunk \<and> length (Data b') = length (Data b) \<and>
    (chunk = [] \<longleftrightarrow> contents f = [] \<or> DataLength b = length (Data b)) \<and>
    contents f' = contents f \<and> fpos f' \<le> length (contents f) \<and> (chunk \<noteq> [] \<longrightarrow> wraps_to f chunk f')"
proof -
  let ?n = "length (Data b) - DataLength b"
  obtain chunk f1 where r: "fread ?n f = (chunk, f1)" by fastforce
  from ReadBitStreamData_spec [OF ok r] obtain b1
    where 1: "ReadBitStreamData b f = Some (if chunk = [] then MFX_ERR_MORE_DATA else MFX_ERR_NONE, b1, f1)"
      "bs_ok b1" "pending b1 = pending b @ chunk" "length (Data b1) = length (Data b)" by blast
  have len: "DataLength b \<le> length (Data b)" using ok by (simp add: bs_ok_def)
  note w = fread_wraps [OF pos r]
  show ?thesis
  proof (cases "chunk = []")
    case False
    moreover have "contents f \<noteq> []" "DataLength b \<noteq> length (Data b)" using False r by (auto simp: fread_def Let_def)
    ultimately show ?thesis using 1 w
      by (intro exI [of _ b1] exI [of _ f1] exI [of _ chunk]) (simp add: more_data_def wraps_to_def)
  next
    case True
    have at_end: "DataLength b = length (Data b) \<or> fpos f = length (contents f)" and f1: "f1 = f"
      using r True pos len by (auto simp: fread_def Let_def)
    have n: "length (Data b1) - DataLength b1 = ?n" using length_pending [OF 1(2)] length_pending [OF ok] 1(3,4) True by simp
    obtain chunk2 f2 where r2: "fread ?n (rewind f) = (chunk2, f2)" by fastforce
    from ReadBitStreamData_spec [OF 1(2), unfolded n, OF r2] obtain b2
      where 2: "ReadBitStreamData b1 (rewind f) = Some (if chunk2 = [] then MFX_ERR_MORE_DATA else MFX_ERR_NONE, b2, f2)"
        "bs_ok b2" "pending b2 = pending b1 @ chunk2" "length (Data b2) = length (Data b1)" by blast
    have "chunk2 = [] \<longleftrightarrow> contents f = [] \<or> DataLength b = length (Data b)"
      using r2 len by (auto simp: fread_def Let_def rewind_def)
    moreover have "contents f2 = contents f" "fpos f2 \<le> length (contents f)" "take (fpos f2) (contents f) = chunk2"
      using r2 by (auto simp: fread_def Let_def rewind_def take_min_length)
    ultimately show ?thesis using 1 2 True at_end f1
      by (intro exI [of _ b2] exI [of _ f2] exI [of _ chunk2]) (auto simp: more_data_def wraps_to_def)
  qed
qed

section \<open>A run\<close>

fun taken_of :: "'b feed_event \<Rightarrow> 'b list" where
  "taken_of (Taken ys) = ys" | "taken_of _ = []"

definition feed_ok :: "nat \<Rightarrow> 'b list \<Rightarrow> 'b feed \<Rightarrow> bool" where
  "feed_ok n xs s \<longleftrightarrow> bs_ok (bs s) \<and> length (Data (bs s)) = n \<and> contents (f_i s) = xs \<and> fpos (f_i s) \<le> length xs"

text \<open>What a step takes and leaves, and how far the file is read, in whole rounds and a rest.\<close>

definition reads :: "'b list \<Rightarrow> 'b list \<Rightarrow> 'b stream \<Rightarrow> bool" where
  "reads xs ys f \<longleftrightarrow> (\<exists>q. ys = concat (replicate q xs) @ take (fpos f) xs)"

lemma reads_more:
  assumes "reads (contents f) ys f" "wraps_to f chunk f'"
  shows "reads (contents f) (ys @ chunk) f'"
proof -
  obtain q where q: "ys = concat (replicate q (contents f)) @ take (fpos f) (contents f)" using assms(1) by (auto simp: reads_def)
  have "take (fpos f') (contents f) = take (fpos f) (contents f) @ chunk \<or>
      take (fpos f) (contents f) = contents f \<and> take (fpos f') (contents f) = chunk" using assms(2) by (auto simp: wraps_to_def)
  then show ?thesis
  proof
    assume "take (fpos f) (contents f) = contents f \<and> take (fpos f') (contents f) = chunk"
    then have "ys @ chunk = concat (replicate (Suc q) (contents f)) @ take (fpos f') (contents f)"
      by (simp add: q replicate_append_same [symmetric])
    then show ?thesis unfolding reads_def by blast
  qed (auto simp: reads_def q)
qed

lemma feed_keeps:
  assumes "feed_step s e s'" "running s'" "feed_ok n xs s" "reads xs (ys @ pending (bs s)) (f_i s)"
  shows "feed_ok n xs s' \<and> reads xs (ys @ taken_of e @ pending (bs s')) (f_i s')"
  using assms(1)
proof cases
  case (take k)
  let ?b = "(bs s)\<lparr>DataOffset := DataOffset (bs s) + k, DataLength := DataLength (bs s) - k\<rparr>"
  have "take k (pending (bs s)) @ pending ?b = pending (bs s)"
    using take(4) append_take_drop_id [of k "pending (bs s)"] by (simp add: pending_def drop_take add.commute)
  moreover have "bs_ok ?b" using take assms(3) by (auto simp: feed_ok_def bs_ok_def)
  ultimately show ?thesis using take assms(3,4) by (simp add: feed_ok_def)
next
  case (refill b f)
  have ok: "bs_ok (bs s)" "fpos (f_i s) \<le> length (contents (f_i s))" and xs: "contents (f_i s) = xs" "length (Data (bs s)) = n"
    using assms(3) by (auto simp: feed_ok_def)
  obtain chunk where c: "bs_ok b" "pending b = pending (bs s) @ chunk" "length (Data b) = n" "wraps_to (f_i s) chunk f"
    using more_data_spec [OF ok] refill(4) xs(2) by (auto split: if_splits)
  then show ?thesis using refill reads_more [OF _ c(4), of "ys @ pending (bs s)"] assms(4) xs
    by (auto simp: feed_ok_def wraps_to_def)
qed (use assms(2) in simp)

text \<open>
  C16: The feed of the decoder. In every run, with a buffer of any size, nothing is read or written
  outside the buffer, and what the decoder has taken followed by what waits for it is the file
  a number of times over and its beginning: no byte is lost, repeated or out of place when the
  rest is moved to the front of the buffer or the file starts again. The thread cannot go
  on, and ends, exactly when the file is empty or the decoder wants more data although the buffer
  is full.
\<close>

theorem feed_in_order:
  assumes "run feed_step (open_feed buffer file_bytes) es s'" "running s'"
  shows "(\<exists>q. concat (map taken_of es) @ pending (bs s') =
      concat (replicate q file_bytes) @ take (fpos (f_i s')) file_bytes) \<and>
    (\<exists>sts b f. more_data (bs s') (f_i s') = Some (sts, b, f) \<and>
      (sts \<noteq> MFX_ERR_NONE \<longleftrightarrow> file_bytes = [] \<or> length (pending (bs s')) = length buffer))"
proof -
  have "feed_ok (length buffer) file_bytes s' \<and> reads file_bytes (concat (map taken_of es) @ pending (bs s')) (f_i s')"
    using assms
  proof (induction "open_feed buffer file_bytes" es s' rule: run.induct)
    case run_Nil
    show ?case by (simp add: open_feed_def feed_ok_def bs_ok_def pending_def reads_def exI [of _ 0])
  next
    case (run_snoc es s' e s'')
    have "running s'" using run_snoc.hyps(3) by cases simp_all
    note IH = run_snoc.hyps(2) [OF this]
    show ?case using feed_keeps [OF run_snoc.hyps(3) run_snoc.prems IH [THEN conjunct1] IH [THEN conjunct2]] by simp
  qed
  then have ok: "bs_ok (bs s')" "length (Data (bs s')) = length buffer" "contents (f_i s') = file_bytes" "fpos (f_i s') \<le> length (contents (f_i s'))"
    and r: "reads file_bytes (concat (map taken_of es) @ pending (bs s')) (f_i s')"
    by (auto simp: feed_ok_def)
  then show ?thesis
    using more_data_spec [OF ok(1,4)] length_pending [OF ok(1)] by (fastforce simp: reads_def)
qed

text \<open>A file of three bytes, a buffer of two: the decoder takes one byte at a time.\<close>

lemma feed_in_order_witness:
  "\<exists>s'. run feed_step (open_feed [0, 0] [7, 8, 9 :: nat]) [Filled [7, 8], Taken [7], Filled [9], Taken [8, 9], Filled [7, 8]] s' \<and>
    (\<exists>q. [7, 8, 9] @ pending (bs s') = concat (replicate q [7, 8, 9]) @ take (fpos (f_i s')) [7, 8, 9])"
proof -
  let ?b = "\<lambda>d off len. \<lparr>Data = d, DataOffset = off, DataLength = len, MaxLength = 2\<rparr>"
  let ?s = "\<lambda>d off len pos. \<lparr>bs = ?b d off len, f_i = \<lparr>contents = [7, 8, 9], fpos = pos\<rparr>, running = True\<rparr>"
  note defs = more_data_def ReadBitStreamData_def memmove_def blit_def put_def fread_def rewind_def pending_def numeral_2_eq_2 Let_def
  have s1: "feed_step (?s [0, 0] 0 0 0) (Filled [7, 8]) (?s [7, 8 :: nat] 0 2 2)"
    using feed_step.refill [of "?s [0, 0] 0 0 0" "?b [7, 8 :: nat] 0 2" "\<lparr>contents = [7, 8, 9], fpos = 2\<rparr>"] by (simp add: defs)
  have s2: "feed_step (?s [7, 8 :: nat] 0 2 2) (Taken [7]) (?s [7, 8] 1 1 2)"
    using feed_step.take [of "?s [7, 8 :: nat] 0 2 2" 1] by (simp add: pending_def)
  have s3: "feed_step (?s [7, 8 :: nat] 1 1 2) (Filled [9]) (?s [8, 9] 0 2 3)"
    using feed_step.refill [of "?s [7, 8 :: nat] 1 1 2" "?b [8, 9] 0 2" "\<lparr>contents = [7, 8, 9], fpos = 3\<rparr>"] by (simp add: defs)
  have s4: "feed_step (?s [8, 9 :: nat] 0 2 3) (Taken [8, 9]) (?s [8, 9] 2 0 3)"
    using feed_step.take [of "?s [8, 9 :: nat] 0 2 3" 2] by (simp add: pending_def numeral_2_eq_2)
  have s5: "feed_step (?s [8, 9 :: nat] 2 0 3) (Filled [7, 8]) (?s [7, 8] 0 2 2)"
    using feed_step.refill [of "?s [8, 9 :: nat] 2 0 3" "?b [7, 8] 0 2" "\<lparr>contents = [7, 8, 9], fpos = 2\<rparr>"] by (simp add: defs)
  have o: "?s [0, 0 :: nat] 0 0 0 = open_feed [0, 0] [7, 8, 9]" by (simp add: open_feed_def numeral_2_eq_2)
  note c = run_cons [where step = "feed_step :: nat feed \<Rightarrow> _"]
  note r = c [OF s1 c [OF s2 c [OF s3 c [OF s4 c [OF s5 run_Nil]]]], unfolded o]
  show ?thesis
    using r feed_in_order [OF r, THEN conjunct1] by (intro exI [of _ "?s [7, 8] 0 2 2"]) simp
qed

end
