(* ===== verification/Display.thy ===== *)
theory Display
  imports Detector Transitions
begin

text \<open>
  The display thread (\<open>video_analytics_example/main.cpp\<close>, \<open>DisplayThreadFunc\<close>), the queue of results
  between it and the scheduler, and what the scheduler does with the results of a batch.

  The screen is one matrix of two rows of three cells. \<open>eachscreen[i]\<close> is a header of the cell of
  channel \<open>i\<close>, until \<open>copyTo\<close> is called with a picture of another size: then OpenCV allocates
  memory for it and the cell is no longer part of the screen. The last cell shows the frame rate.
  A pixel plane is a function of row and column. \<open>cv::rectangle\<close>, \<open>cv::putText\<close> and the formatting of
  numbers are parameters. The default build is modelled.
\<close>

section \<open>The screen\<close>

type_synonym 'v plane = "int \<Rightarrow> int \<Rightarrow> 'v"
type_synonym 'v picture = "'v plane mat"

definition INPUTNUM :: nat where "INPUTNUM = 6"

record DisplayThreadConfig =
  nCellWidth :: int
  nCellHeight :: int
  nRows :: int
  nCols :: int

text \<open>A cell is a view of the screen, from column and row, of a width and a height.\<close>

datatype 'v cell = Cell int int int int | Owned "'v picture"

record 'v display =
  onescreen :: "'v picture"
  eachscreen :: "'v cell list"
  eachscreen_display_order :: "int list"
  prev_fps :: int
  gresultque1 :: "'v plane det_result list list"
  dispNum :: nat

text \<open>\<open>main\<close> accepts at most five streams when it is to show them, and leaves otherwise.\<close>

definition start_display :: "bool \<Rightarrow> int \<Rightarrow> int \<times> int \<Rightarrow> int + DisplayThreadConfig option" where
  "start_display show_flag channels net =
     (if \<not> show_flag then Inr None
      else if channels > 5 then Inl 1
      else Inr (Some \<lparr>nCellWidth = fst net, nCellHeight = snd net, nRows = 2, nCols = 3\<rparr>))"

definition roi :: "'v picture \<Rightarrow> int \<Rightarrow> int \<Rightarrow> int \<Rightarrow> int \<Rightarrow> 'v cell option" where
  "roi m x y w h = (if 0 \<le> x \<and> 0 \<le> w \<and> x + w \<le> fst (msize m) \<and> 0 \<le> y \<and> 0 \<le> h \<and> y + h \<le> snd (msize m)
     then Some (Cell x y w h) else None)"

definition open_screen :: "DisplayThreadConfig \<Rightarrow> 'v plane list \<Rightarrow> 'v display option" where
  "open_screen cfg junk = do {
     let screen = \<lparr>msize = (nCellWidth cfg * nCols cfg, nCellHeight cfg * nRows cfg), planes = junk\<rparr>;
     cells \<leftarrow> loop INPUTNUM (\<lambda>i cells. if nCols cfg = 0 then None else do {
       c \<leftarrow> roi screen (nCellWidth cfg * (int i mod nCols cfg)) (if int i > nRows cfg then nCellHeight cfg else 0) (nCellWidth cfg) (nCellHeight cfg);
       Some (cells @ [c]) }) [];
     Some \<lparr>onescreen = screen, eachscreen = cells, eachscreen_display_order = replicate INPUTNUM 0, prev_fps = 0,
       gresultque1 = [], dispNum = 0\<rparr> }"

section \<open>Drawing\<close>

record 'v cv_draw =
  rectangle :: "int \<times> int \<Rightarrow> int \<times> int \<Rightarrow> int \<times> int \<times> int \<Rightarrow> 'v picture \<Rightarrow> 'v picture"
  putText :: "string \<Rightarrow> int \<times> int \<Rightarrow> int \<times> int \<times> int \<Rightarrow> 'v picture \<Rightarrow> 'v picture"
  show_float :: "ieee \<Rightarrow> string"
  show_int :: "int \<Rightarrow> string"
  black :: 'v

definition CLASSES :: "string list" where
  "CLASSES = [''background'', ''face'', ''!bicycle'', ''bird'', ''boat'', ''!bottle'', ''!bus'', ''car'', ''cat'', ''!chair'',
     ''cow'', ''!diningtable'', ''dog'', ''horse'', ''motorbike'', ''person'', ''!pottedplant'', ''sheep'', ''sofa'', ''!train'', ''!tvmonitor'']"

definition draw_box :: "'v cv_draw \<Rightarrow> resultbox \<Rightarrow> 'v picture \<Rightarrow> 'v picture option" where
  "draw_box cv b img = do {
     name \<leftarrow> rdz CLASSES (classid b);
     if name ! 0 = CHR ''!'' then Some img
     else do {
       let img = rectangle cv (left b, top b) (right b, bottom b) (71, 99, 250) img;
       Some (putText cv (name @ ''/'' @ show_float cv (confidence b)) (left b, top b + 20) (0, 255, 255) img) } }"

definition draw_boxes :: "'v cv_draw \<Rightarrow> resultbox list \<Rightarrow> 'v picture \<Rightarrow> 'v picture option" where
  "draw_boxes cv bs = loop (length bs) (\<lambda>i. draw_box cv (bs ! i))"

text \<open>Copying a picture into a region, plane by plane, and \<open>cv::Mat::copyTo\<close> a cell.\<close>

definition paste :: "int \<Rightarrow> int \<Rightarrow> int \<Rightarrow> int \<Rightarrow> 'v plane \<Rightarrow> 'v plane \<Rightarrow> 'v plane" where
  "paste x y w h new old = (\<lambda>r c. if y \<le> r \<and> r < y + h \<and> x \<le> c \<and> c < x + w then new (r - y) (c - x) else old r c)"

definition copyTo :: "'v picture \<Rightarrow> int \<Rightarrow> 'v display \<Rightarrow> 'v display option" where
  "copyTo img i d = do {
     m \<leftarrow> rdz (eachscreen d) i;
     Some (case m of
       Cell x y w h \<Rightarrow> if msize img = (w, h) \<and> length (planes img) = length (planes (onescreen d))
         then d\<lparr>onescreen := (onescreen d)\<lparr>planes := map2 (paste x y w h) (planes img) (planes (onescreen d))\<rparr>\<rparr>
         else d\<lparr>eachscreen := (eachscreen d)[nat i := Owned img]\<rparr>
     | Owned old \<Rightarrow> d\<lparr>eachscreen := (eachscreen d)[nat i := Owned img]\<rparr>) }"

text \<open>All results of a batch are annotated; of every channel the first one is shown.\<close>

definition show_batch :: "'v cv_draw \<Rightarrow> 'v plane det_result list \<Rightarrow> 'v display \<Rightarrow> 'v display option" where
  "show_batch cv objects d = map_option snd (loop (length objects) (\<lambda>k (fpshaswrite, d). do {
     let obj = objects ! k;
     img \<leftarrow> draw_boxes cv (boxs obj) (orgimg obj);
     written \<leftarrow> rdz fpshaswrite (inputid obj);
     if written then Some (fpshaswrite, d)
     else do {
       d \<leftarrow> copyTo img (inputid obj) d;
       order \<leftarrow> wrz (eachscreen_display_order d) (inputid obj) (frameno obj);
       fpshaswrite \<leftarrow> wrz fpshaswrite (inputid obj) True;
       Some (fpshaswrite, d\<lparr>eachscreen_display_order := order\<rparr>) } }) (replicate INPUTNUM False, d))"

text \<open>The second queue, of the inference on the CPU: one result per pass, two per batch.\<close>

definition show_cpu :: "'v cv_draw \<Rightarrow> 'v display \<Rightarrow> 'v display option" where
  "show_cpu cv d = (case gresultque1 d of [] \<Rightarrow> Some d | objects # q \<Rightarrow> do {
     let d = (if dispNum d mod 2 = 1 then d\<lparr>gresultque1 := q\<rparr> else d);
     tempObj \<leftarrow> rd objects (dispNum d mod 2);
     let d = d\<lparr>dispNum := (dispNum d + 1) mod 2 ^ 32\<rparr>;
     img \<leftarrow> draw_boxes cv (boxs tempObj) (orgimg tempObj);
     copyTo img (inputid tempObj) d })"

text \<open>\<open>cv::Mat\<close> takes rows before columns, but is given the width first.\<close>

definition show_fps :: "'v cv_draw \<Rightarrow> DisplayThreadConfig \<Rightarrow> int \<Rightarrow> 'v display \<Rightarrow> 'v display option" where
  "show_fps cv cfg total_fps d =
     (if prev_fps d = total_fps then Some d
      else do {
        let frame = \<lparr>msize = (nCellHeight cfg, nCellWidth cfg), planes = replicate 3 (\<lambda>r c. black cv)\<rparr>;
        let d = d\<lparr>prev_fps := total_fps\<rparr>;
        copyTo (putText cv (''Total FPS: '' @ show_int cv total_fps @ '' (f/s)'') (0, 20) (127, 255, 0) frame) (int INPUTNUM - 1) d })"

definition display_pass ::
    "'v cv_draw \<Rightarrow> DisplayThreadConfig \<Rightarrow> int \<Rightarrow> 'v plane det_result list \<Rightarrow> 'v display \<Rightarrow> 'v display option" where
  "display_pass cv cfg total_fps objects d = show_batch cv objects d \<bind> show_cpu cv \<bind> show_fps cv cfg total_fps"

section \<open>Results of a batch\<close>

text \<open>The statistics that the scheduler keeps of the results it gets.\<close>

definition count_results :: "'p det_result list \<Rightarrow> nat list \<times> nat list \<Rightarrow> (nat list \<times> nat list) option" where
  "count_results objects = loop (length objects) (\<lambda>k (each_frame, total_frame). do {
     n \<leftarrow> rdz each_frame (inputid (objects ! k));
     each_frame \<leftarrow> wrz each_frame (inputid (objects ! k)) (n + 1);
     t \<leftarrow> rd total_frame 0;
     total_frame \<leftarrow> wr total_frame 0 (t + 1);
     Some (each_frame, total_frame) })"

section \<open>The cells\<close>

definition cell_x :: "int \<Rightarrow> nat \<Rightarrow> int" where "cell_x w i = w * (int i mod 3)"
definition cell_y :: "int \<Rightarrow> nat \<Rightarrow> int" where "cell_y h i = (if i < 3 then 0 else h)"

definition home :: "int \<Rightarrow> int \<Rightarrow> nat \<Rightarrow> 'v cell" where
  "home w h i = Cell (cell_x w i) (cell_y h i) w h"

lemma six_cells: "i < 6 \<Longrightarrow> i \<in> {0, 1, 2, 3, 4, 5 :: nat}"
  by auto

lemma paste_cells:
  assumes "i < 6" "j < 6" "0 \<le> r" "r < h" "0 \<le> c" "c < w"
  shows "paste (cell_x w j) (cell_y h j) w h new old (cell_y h i + r) (cell_x w i + c) =
    (if i = j then new r c else old (cell_y h i + r) (cell_x w i + c))"
  using six_cells [OF assms(1)] six_cells [OF assms(2)] assms(3-6) by (auto simp: paste_def cell_x_def cell_y_def)

text \<open>Every pixel of the screen lies in exactly one cell.\<close>

lemma cells_tile:
  assumes "0 \<le> r" "r < h * 2" "0 \<le> c" "c < w * 3"
  shows "\<exists>!i. i < 6 \<and> cell_y h i \<le> r \<and> r < cell_y h i + h \<and> cell_x w i \<le> c \<and> c < cell_x w i + w"
proof -
  let ?in = "\<lambda>i. i < 6 \<and> cell_y h i \<le> r \<and> r < cell_y h i + h \<and> cell_x w i \<le> c \<and> c < cell_x w i + w"
  have col: "c < w \<or> w \<le> c \<and> c < w * 2 \<or> w * 2 \<le> c" by linarith
  have "\<exists>i \<in> {0, 1, 2, 3, 4, 5}. ?in i"
  proof (cases "r < h")
    case True
    then have "?in 0 \<or> ?in 1 \<or> ?in 2" using assms col by (auto simp: cell_x_def cell_y_def)
    then show ?thesis by blast
  next
    case False
    then have "?in 3 \<or> ?in 4 \<or> ?in 5" using assms col by (auto simp: cell_x_def cell_y_def)
    then show ?thesis by blast
  qed
  moreover have "i = j" if "?in i" "?in j" for i j
    using six_cells [of i] six_cells [of j] that assms by (auto simp: cell_x_def cell_y_def)
  ultimately show ?thesis by blast
qed

definition net_config :: "int \<Rightarrow> int \<Rightarrow> DisplayThreadConfig" where
  "net_config w h = \<lparr>nCellWidth = w, nCellHeight = h, nRows = 2, nCols = 3\<rparr>"

text \<open>The five cells of the channels are part of the screen; the sixth is, for square pictures.\<close>

definition screen_ok :: "int \<Rightarrow> int \<Rightarrow> 'v display \<Rightarrow> bool" where
  "screen_ok w h d \<longleftrightarrow> msize (onescreen d) = (w * 3, h * 2) \<and> length (planes (onescreen d)) = 3 \<and>
     length (eachscreen d) = 6 \<and> length (eachscreen_display_order d) = 6 \<and> gresultque1 d = [] \<and>
     (\<forall>i < 5. eachscreen d ! i = home w h i) \<and> (eachscreen d ! 5 = home w h 5 \<or> w \<noteq> h \<and> (\<exists>m. eachscreen d ! 5 = Owned m))"

lemma open_screen_eq:
  assumes "0 \<le> w" "0 \<le> h"
  shows "open_screen (net_config w h) junk = Some \<lparr>onescreen = \<lparr>msize = (w * 3, h * 2), planes = junk\<rparr>,
    eachscreen = map (home w h) [0..<6], eachscreen_display_order = replicate 6 0, prev_fps = 0, gresultque1 = [], dispNum = 0\<rparr>"
proof -
  let ?s = "\<lparr>msize = (w * 3, h * 2), planes = junk\<rparr>"
  have c: "roi ?s (w * (int i mod 3)) h w h = Some (home w h i)" if "2 < i" "i < 6" for i
    using six_cells [OF that(2)] that assms by (auto simp: roi_def home_def cell_x_def cell_y_def)
  have c': "roi ?s (w * int i) 0 w h = Some (home w h i)" if "\<not> 2 < i" for i
    using six_cells [of i] that assms by (auto simp: roi_def home_def cell_x_def cell_y_def)
  have "loop n (\<lambda>i cells. roi ?s (w * (int i mod 3)) (if int i > 2 then h else 0) w h \<bind> (\<lambda>c. Some (cells @ [c]))) [] =
      Some (map (home w h) [0..<n])" if "n \<le> 6" for n
    using that by (induction n) (simp_all add: c c')
  from this [of 6] show ?thesis by (simp add: open_screen_def net_config_def INPUTNUM_def Let_def cong: if_cong)
qed

corollary open_screen_ok:
  assumes "0 \<le> w" "0 \<le> h" "length junk = 3"
  shows "\<exists>d. open_screen (net_config w h) junk = Some d \<and> screen_ok w h d"
  using assms by (simp add: open_screen_eq screen_ok_def)

section \<open>Showing a batch\<close>

definition cv_ok :: "'v cv_draw \<Rightarrow> bool" where
  "cv_ok cv \<longleftrightarrow> (\<forall>p q k m. msize (rectangle cv p q k m) = msize m \<and> length (planes (rectangle cv p q k m)) = length (planes m)) \<and>
     (\<forall>s p k m. msize (putText cv s p k m) = msize m \<and> length (planes (putText cv s p k m)) = length (planes m))"

definition fits :: "int \<Rightarrow> int \<Rightarrow> 'v picture \<Rightarrow> bool" where
  "fits w h m \<longleftrightarrow> msize m = (w, h) \<and> length (planes m) = 3"

definition shown_ok :: "int \<Rightarrow> int \<Rightarrow> 'v plane det_result \<Rightarrow> bool" where
  "shown_ok w h obj \<longleftrightarrow> 0 \<le> inputid obj \<and> inputid obj < 5 \<and> fits w h (orgimg obj) \<and>
     (\<forall>b \<in> set (boxs obj). 0 \<le> classid b \<and> classid b < 21)"

definition annotated :: "'v cv_draw \<Rightarrow> 'v plane det_result \<Rightarrow> 'v picture" where
  "annotated cv obj = the (draw_boxes cv (boxs obj) (orgimg obj))"

lemma draw_boxes_fits:
  assumes cv: "cv_ok cv" and obj: "shown_ok w h obj"
  shows "draw_boxes cv (boxs obj) (orgimg obj) = Some (annotated cv obj) \<and> fits w h (annotated cv obj)"
proof -
  have "ok (draw_box cv (boxs obj ! i) m) (fits w h)" if "i < length (boxs obj)" "fits w h m" for i m
    using cv obj that nth_mem [OF that(1)] by (auto simp: draw_box_def wp cv_ok_def fits_def shown_ok_def CLASSES_def Let_def)
  then have "ok (draw_boxes cv (boxs obj) (orgimg obj)) (fits w h)"
    unfolding draw_boxes_def using obj by (intro loop_inv) (simp_all add: shown_ok_def)
  then show ?thesis by (auto simp: annotated_def elim: okE)
qed

definition cell_pixel :: "int \<Rightarrow> int \<Rightarrow> 'v display \<Rightarrow> nat \<Rightarrow> nat \<Rightarrow> int \<Rightarrow> int \<Rightarrow> 'v" where
  "cell_pixel w h d i p r c = (planes (onescreen d) ! p) (cell_y h i + r) (cell_x w i + c)"

lemma copyTo_cell:
  assumes ok: "screen_ok w h d" and i: "i < 6" "eachscreen d ! i = home w h i" and m: "fits w h m"
  shows "\<exists>d'. copyTo m (int i) d = Some d' \<and> screen_ok w h d' \<and> eachscreen d' = eachscreen d \<and> prev_fps d' = prev_fps d \<and>
    (\<forall>j < 6. \<forall>p < 3. \<forall>r c. 0 \<le> r \<and> r < h \<and> 0 \<le> c \<and> c < w \<longrightarrow>
      cell_pixel w h d' j p r c = (if j = i then (planes m ! p) r c else cell_pixel w h d j p r c))"
proof -
  let ?d = "d\<lparr>onescreen := (onescreen d)\<lparr>planes := map2 (paste (cell_x w i) (cell_y h i) w h) (planes m) (planes (onescreen d))\<rparr>\<rparr>"
  have "copyTo m (int i) d = Some ?d"
    using assms by (simp add: copyTo_def rdz_def rd_def screen_ok_def fits_def home_def)
  moreover have "screen_ok w h ?d" using ok m by (simp add: screen_ok_def fits_def)
  ultimately show ?thesis using ok m i(1) by (simp add: cell_pixel_def screen_ok_def fits_def paste_cells)
qed

text \<open>The first result of a channel, and what the batch leaves in a cell.\<close>

definition first_of :: "nat \<Rightarrow> 'v plane det_result list \<Rightarrow> 'v plane det_result option" where
  "first_of i objs = find (\<lambda>obj. inputid obj = int i) objs"

lemma first_of_snoc:
  "first_of i (objs @ [obj]) = (case first_of i objs of Some x \<Rightarrow> Some x | None \<Rightarrow> if inputid obj = int i then Some obj else None)"
  by (induction objs) (simp_all add: first_of_def)

definition batch_pixel :: "'v cv_draw \<Rightarrow> 'v plane det_result list \<Rightarrow> (nat \<Rightarrow> nat \<Rightarrow> int \<Rightarrow> int \<Rightarrow> 'v) \<Rightarrow> nat \<Rightarrow> nat \<Rightarrow> int \<Rightarrow> int \<Rightarrow> 'v" where
  "batch_pixel cv objs old i p r c = (case first_of i objs of None \<Rightarrow> old i p r c | Some obj \<Rightarrow> (planes (annotated cv obj) ! p) r c)"

definition drawn :: "'v cv_draw \<Rightarrow> int \<Rightarrow> int \<Rightarrow> 'v display \<Rightarrow> 'v plane det_result list \<Rightarrow> 'v display \<Rightarrow> bool" where
  "drawn cv w h d objs d' \<longleftrightarrow> screen_ok w h d' \<and> eachscreen d' = eachscreen d \<and> prev_fps d' = prev_fps d \<and>
     (\<forall>i < 6. \<forall>p < 3. \<forall>r c. 0 \<le> r \<and> r < h \<and> 0 \<le> c \<and> c < w \<longrightarrow>
       cell_pixel w h d' i p r c = batch_pixel cv objs (cell_pixel w h d) i p r c)"

lemma show_batch_draws:
  assumes cv: "cv_ok cv" and d: "screen_ok w h d" and objs: "\<forall>obj \<in> set objs. shown_ok w h obj"
  shows "\<exists>d'. show_batch cv objs d = Some d' \<and> drawn cv w h d objs d'"
proof -
  let ?I = "\<lambda>k (flags, d'). drawn cv w h d (take k objs) d' \<and> length flags = 6 \<and> (\<forall>i < 6. flags ! i \<longleftrightarrow> first_of i (take k objs) \<noteq> None)"
  let ?step = "\<lambda>k (flags, d). do {
     let obj = objs ! k;
     img \<leftarrow> draw_boxes cv (boxs obj) (orgimg obj);
     written \<leftarrow> rdz flags (inputid obj);
     if written then Some (flags, d)
     else do {
       d \<leftarrow> copyTo img (inputid obj) d;
       order \<leftarrow> wrz (eachscreen_display_order d) (inputid obj) (frameno obj);
       flags \<leftarrow> wrz flags (inputid obj) True;
       Some (flags, d\<lparr>eachscreen_display_order := order\<rparr>) } }"
  have "ok (loop (length objs) ?step (replicate INPUTNUM False, d)) (?I (length objs))"
  proof (rule loop_ok)
    show "?I 0 (replicate INPUTNUM False, d)"
      using d by (simp add: drawn_def batch_pixel_def first_of_def INPUTNUM_def)
  next
    fix k s assume k: "k < length objs" and "?I k s"
    then obtain flags e where s: "s = (flags, e)" and I: "?I k (flags, e)" by (cases s) blast
    define obj where "obj = objs ! k"
    have obj: "shown_ok w h obj" using objs k by (simp add: obj_def)
    then obtain i where i: "inputid obj = int i" "i < 5" by (auto simp: shown_ok_def dest: nonneg_int_cases)
    have t: "take (Suc k) objs = take k objs @ [obj]" using k by (simp add: take_Suc_conv_app_nth obj_def)
    have img: "draw_boxes cv (boxs obj) (orgimg obj) = Some (annotated cv obj)" "fits w h (annotated cv obj)"
      using draw_boxes_fits [OF cv obj] by auto
    have e: "screen_ok w h e" "eachscreen e ! i = home w h i" "i < 6" using I i(2) by (auto simp: drawn_def screen_ok_def)
    show "ok (?step k s) (?I (Suc k))"
    proof (cases "flags ! i")
      case True
      then show ?thesis using I i img
        by (auto simp: s obj_def [symmetric] wp Let_def t first_of_snoc drawn_def batch_pixel_def split: option.split)
    next
      case False
      then have "first_of i (take k objs) = None" using I i by auto
      obtain e' where "copyTo (annotated cv obj) (int i) e = Some e'" "screen_ok w h e'" "eachscreen e' = eachscreen e" "prev_fps e' = prev_fps e"
          "\<forall>j < 6. \<forall>p < 3. \<forall>r c. 0 \<le> r \<and> r < h \<and> 0 \<le> c \<and> c < w \<longrightarrow>
             cell_pixel w h e' j p r c = (if j = i then (planes (annotated cv obj) ! p) r c else cell_pixel w h e j p r c)"
        using copyTo_cell [OF e(1,3,2) img(2)] by blast
      then show ?thesis using I i img False \<open>first_of i (take k objs) = None\<close>
        by (auto simp: s obj_def [symmetric] wp Let_def t first_of_snoc drawn_def batch_pixel_def screen_ok_def cell_pixel_def nth_list_update
            split: option.split)
    qed
  qed
  then show ?thesis by (auto simp: show_batch_def elim!: okE)
qed

section \<open>A pass of the display\<close>

definition fps_picture :: "'v cv_draw \<Rightarrow> int \<Rightarrow> int \<Rightarrow> int \<Rightarrow> 'v picture" where
  "fps_picture cv w h fps = putText cv (''Total FPS: '' @ show_int cv fps @ '' (f/s)'') (0, 20) (127, 255, 0)
     \<lparr>msize = (h, w), planes = replicate 3 (\<lambda>r c. black cv)\<rparr>"

lemma show_fps_pass:
  assumes cv: "cv_ok cv" and ok: "screen_ok w h d"
  shows "\<exists>d'. show_fps cv (net_config w h) fps d = Some d' \<and> screen_ok w h d' \<and> prev_fps d' = fps \<and>
    (\<forall>i < 6. \<forall>p < 3. \<forall>r c. 0 \<le> r \<and> r < h \<and> 0 \<le> c \<and> c < w \<longrightarrow>
      cell_pixel w h d' i p r c = (if i = 5 \<and> w = h \<and> prev_fps d \<noteq> fps then (planes (fps_picture cv w h fps) ! p) r c
        else cell_pixel w h d i p r c))"
proof -
  let ?m = "fps_picture cv w h fps" and ?d = "d\<lparr>prev_fps := fps\<rparr>"
  have d: "screen_ok w h ?d" using ok by (simp add: screen_ok_def)
  have m: "msize ?m = (h, w)" "length (planes ?m) = 3" using cv by (auto simp: cv_ok_def fps_picture_def)
  have s: "show_fps cv (net_config w h) fps d = (if prev_fps d = fps then Some d else copyTo ?m 5 ?d)"
    by (simp add: show_fps_def fps_picture_def net_config_def INPUTNUM_def)
  consider "prev_fps d = fps" | "prev_fps d \<noteq> fps" "w = h" | "prev_fps d \<noteq> fps" "w \<noteq> h" by blast
  then show ?thesis
  proof cases
    case 1
    then show ?thesis using ok by (simp add: s)
  next
    case 2
    then obtain d' where "copyTo ?m (int 5) ?d = Some d'" "screen_ok w h d'" "prev_fps d' = fps"
        "\<forall>j < 6. \<forall>p < 3. \<forall>r c. 0 \<le> r \<and> r < h \<and> 0 \<le> c \<and> c < w \<longrightarrow>
          cell_pixel w h d' j p r c = (if j = 5 then (planes ?m ! p) r c else cell_pixel w h ?d j p r c)"
      using copyTo_cell [OF d, of 5 ?m] m d by (auto simp: screen_ok_def fits_def)
    moreover have "show_fps cv (net_config w h) fps d = copyTo ?m (int 5) ?d" unfolding s using 2(1) by simp
    ultimately show ?thesis using 2(1) unfolding 2(2) by (intro exI [of _ d']) (simp add: cell_pixel_def)
  next
    case 3
    let ?e = "?d\<lparr>eachscreen := (eachscreen ?d)[5 := Owned ?m]\<rparr>"
    have "copyTo ?m 5 ?d = Some ?e"
      using 3 d m by (auto simp: copyTo_def rdz_def rd_def screen_ok_def home_def)
    moreover have "screen_ok w h ?e" using 3 d by (simp add: screen_ok_def)
    ultimately show ?thesis using 3 by (simp add: s cell_pixel_def)
  qed
qed

text \<open>
  C17: A pass of the display thread. The screen has six cells that cover it without overlap.
  From a screen whose five cells of the channels are in place, on a batch of pictures of the size
  of the network, of channels 0 to 4 and known classes, the pass stays inside its arrays. Every
  cell of a channel shows its first picture of the batch with its boxes, or what it showed
  before; the last cell shows the frame rate when that has changed, but only for square pictures.
\<close>

theorem display_shows:
  assumes "cv_ok cv" and "screen_ok w h d" and "\<forall>obj \<in> set objs. shown_ok w h obj"
  shows "\<exists>d'. display_pass cv (net_config w h) fps objs d = Some d' \<and> screen_ok w h d' \<and> prev_fps d' = fps \<and>
    (\<forall>i < 6. \<forall>p < 3. \<forall>r c. 0 \<le> r \<and> r < h \<and> 0 \<le> c \<and> c < w \<longrightarrow>
      cell_pixel w h d' i p r c =
        (if i = 5 \<and> w = h \<and> prev_fps d \<noteq> fps then (planes (fps_picture cv w h fps) ! p) r c
         else batch_pixel cv objs (cell_pixel w h d) i p r c)) \<and>
    (\<forall>r c. 0 \<le> r \<and> r < snd (msize (onescreen d')) \<and> 0 \<le> c \<and> c < fst (msize (onescreen d')) \<longrightarrow>
      (\<exists>!i. i < 6 \<and> cell_y h i \<le> r \<and> r < cell_y h i + h \<and> cell_x w i \<le> c \<and> c < cell_x w i + w))"
proof -
  obtain d1 where d1: "show_batch cv objs d = Some d1" "drawn cv w h d objs d1"
    using show_batch_draws [OF assms] by blast
  then have ok: "screen_ok w h d1" "show_cpu cv d1 = Some d1" "prev_fps d1 = prev_fps d"
    by (auto simp: drawn_def show_cpu_def screen_ok_def)
  obtain d2 where d2: "show_fps cv (net_config w h) fps d1 = Some d2" "screen_ok w h d2" "prev_fps d2 = fps"
      "\<forall>i < 6. \<forall>p < 3. \<forall>r c. 0 \<le> r \<and> r < h \<and> 0 \<le> c \<and> c < w \<longrightarrow>
        cell_pixel w h d2 i p r c = (if i = 5 \<and> w = h \<and> prev_fps d1 \<noteq> fps then (planes (fps_picture cv w h fps) ! p) r c
          else cell_pixel w h d1 i p r c)"
    using show_fps_pass [OF assms(1) ok(1)] by blast
  have tile: "\<exists>!i. i < 6 \<and> cell_y h i \<le> r \<and> r < cell_y h i + h \<and> cell_x w i \<le> c \<and> c < cell_x w i + w"
    if "0 \<le> r \<and> r < snd (msize (onescreen d2)) \<and> 0 \<le> c \<and> c < fst (msize (onescreen d2))" for r c
    using cells_tile [of r h c w] d2(2) that by (simp add: screen_ok_def)
  have "display_pass cv (net_config w h) fps objs d = Some d2" using d1(1) ok(2) d2(1) by (simp add: display_pass_def)
  moreover have "cell_pixel w h d2 i p r c = (if i = 5 \<and> w = h \<and> prev_fps d \<noteq> fps then (planes (fps_picture cv w h fps) ! p) r c
         else batch_pixel cv objs (cell_pixel w h d) i p r c)"
    if "i < 6" "p < 3" "0 \<le> r \<and> r < h \<and> 0 \<le> c \<and> c < w" for i p r c
    using d2(4) d1(2) ok(3) that by (simp add: drawn_def)
  ultimately show ?thesis using d2(2,3) tile by blast
qed

text \<open>Two channels with pictures of one pixel; the second picture of channel 3 is not shown.\<close>

definition demo_cv :: "nat cv_draw" where
  "demo_cv = \<lparr>rectangle = \<lambda>p q k m. m, putText = \<lambda>s p k m. m, show_float = \<lambda>x. [], show_int = \<lambda>i. [], black = 0\<rparr>"

definition demo_result :: "int \<Rightarrow> nat \<Rightarrow> nat plane det_result" where
  "demo_result ch v = \<lparr>boxs = [], orgimg = \<lparr>msize = (1, 1), planes = replicate 3 (\<lambda>r c. v)\<rparr>, imgsize = (1, 1),
     inputid = ch, frameno = 1, channelid = 0\<rparr>"

lemma display_shows_witness:
  "\<exists>d d'. open_screen (net_config 1 1) (replicate 3 (\<lambda>r c. 7)) = Some d \<and>
    display_pass demo_cv (net_config 1 1) 30 [demo_result 3 5, demo_result 0 6, demo_result 3 8] d = Some d' \<and>
    map (\<lambda>i. cell_pixel 1 1 d' i 2 0 0) [0, 1, 3, 5] = [6, 7, 5, 0]"
proof -
  obtain d where d: "open_screen (net_config 1 1) (replicate 3 (\<lambda>r c. 7 :: nat)) = Some d" "screen_ok 1 1 d"
    using open_screen_ok [of 1 1 "replicate 3 (\<lambda>r c. 7 :: nat)"] by auto
  let ?objs = "[demo_result 3 5, demo_result 0 6, demo_result 3 8]"
  have cv: "cv_ok demo_cv" and objs: "\<forall>obj \<in> set ?objs. shown_ok 1 1 obj"
    by (simp_all add: cv_ok_def demo_cv_def shown_ok_def fits_def demo_result_def)
  have old: "cell_pixel 1 1 d 1 2 0 0 = 7" "prev_fps d = 0" using d(1) by (auto simp: open_screen_eq cell_pixel_def)
  show ?thesis
    using display_shows [OF cv d(2) objs, of 30] d(1) old
    by (auto simp: batch_pixel_def first_of_def demo_result_def annotated_def draw_boxes_def fps_picture_def demo_cv_def)
qed

section \<open>Statistics\<close>

text \<open>A result of a channel above 5 is counted outside the array; without \<open>-show\<close> nothing bounds the channels.\<close>

lemma count_results_escapes:
  assumes "obj \<in> set objects" "INPUTNUM \<le> nat (inputid obj)" "length each = INPUTNUM"
  shows "count_results objects (each, totals) = None"
proof -
  obtain k where k: "k < length objects" "objects ! k = obj" using assms(1) by (auto simp: in_set_conv_nth)
  let ?step = "\<lambda>k (each_frame, total_frame). do {
     n \<leftarrow> rdz each_frame (inputid (objects ! k));
     each_frame \<leftarrow> wrz each_frame (inputid (objects ! k)) (n + 1);
     t \<leftarrow> rd total_frame 0;
     total_frame \<leftarrow> wr total_frame 0 (t + 1);
     Some (each_frame, total_frame) }"
  have len: "length (fst s) = INPUTNUM" if "loop n ?step (each, totals) = Some s" for n s
    using that by (rule loop_keeps [where I = "\<lambda>s. length (fst s) = INPUTNUM"])
      (auto simp: assms(3) bind_eq_Some_conv rdz_def rd_def wrz_def wr_def split: if_splits)
  have "loop k ?step (each, totals) \<bind> ?step k = None"
  proof (cases "loop k ?step (each, totals)")
    case (Some s)
    then show ?thesis using len [OF Some] k(2) assms(2) by (cases s) (simp add: rdz_def rd_def)
  qed simp
  then have "loop n ?step (each, totals) = None" if "k < n" for n
    using that by (induction n) (auto simp: less_Suc_eq)
  then show ?thesis using k(1) by (simp add: count_results_def)
qed

end
