(* ===== verification/Result_Queue.thy ===== *)
theory Result_Queue
  imports Transitions
begin

text \<open>
  The queue of results between the scheduler and the display thread
  (\<open>video_analytics_example/main.cpp\<close>, \<open>ScheduleThreadFunc\<close> and \<open>DisplayThreadFunc\<close>), with the end of
  \<open>main\<close>. The scheduler pushes a batch, posts the semaphore, and then waits until the queue holds
  fewer than two batches; the display thread waits for the semaphore, looks at the queue without
  the lock, and takes a batch under it. Every lock, unlock, post and wait is a step. Batches are of
  any type; \<open>Display\<close> models what is done with them.
\<close>

section \<open>State and steps\<close>

datatype 'b prod_pc = W_Next | W_Lock 'b | W_Push 'b | W_Unlock | W_Post | W_Check_Lock | W_Check | W_Sleep

datatype 'b disp_pc = V_Loop | V_Wait | V_Test | V_Lock | V_Take | V_Unlock 'b | V_Show 'b | V_Done

datatype main_pc = M_Pause | M_Post | M_Join

record 'b results =
  gresultque :: "'b list"
  mutexshow :: bool
  g_semtshow :: nat
  grunning :: bool
  prod :: "'b prod_pc"
  disp :: "'b disp_pc"
  main :: main_pc

datatype 'b result_event = Tau | Result 'b | Pushed 'b | Shown 'b

inductive result_step :: "'b results \<Rightarrow> 'b result_event \<Rightarrow> 'b results \<Rightarrow> bool" where
  inferred: "prod s = W_Next \<Longrightarrow> result_step s (Result b) (s\<lparr>prod := W_Lock b\<rparr>)"
| push_lock: "prod s = W_Lock b \<Longrightarrow> \<not> mutexshow s \<Longrightarrow> result_step s Tau (s\<lparr>mutexshow := True, prod := W_Push b\<rparr>)"
| push: "prod s = W_Push b \<Longrightarrow> result_step s (Pushed b) (s\<lparr>gresultque := gresultque s @ [b], prod := W_Unlock\<rparr>)"
| push_unlock: "prod s = W_Unlock \<Longrightarrow> result_step s Tau (s\<lparr>mutexshow := False, prod := W_Post\<rparr>)"
| post: "prod s = W_Post \<Longrightarrow> result_step s Tau (s\<lparr>g_semtshow := Suc (g_semtshow s), prod := W_Check_Lock\<rparr>)"
| check_lock: "prod s = W_Check_Lock \<Longrightarrow> \<not> mutexshow s \<Longrightarrow> result_step s Tau (s\<lparr>mutexshow := True, prod := W_Check\<rparr>)"
| too_many: "prod s = W_Check \<Longrightarrow> length (gresultque s) \<ge> 2 \<Longrightarrow> grunning s \<Longrightarrow>
    result_step s Tau (s\<lparr>mutexshow := False, prod := W_Sleep\<rparr>)"
| check_again: "prod s = W_Sleep \<Longrightarrow> \<not> mutexshow s \<Longrightarrow> result_step s Tau (s\<lparr>mutexshow := True, prod := W_Check\<rparr>)"
| go_on: "prod s = W_Check \<Longrightarrow> \<not> (length (gresultque s) \<ge> 2 \<and> grunning s) \<Longrightarrow>
    result_step s Tau (s\<lparr>mutexshow := False, prod := W_Next\<rparr>)"
| loop: "disp s = V_Loop \<Longrightarrow> grunning s \<Longrightarrow> result_step s Tau (s\<lparr>disp := V_Wait\<rparr>)"
| leave: "disp s = V_Loop \<Longrightarrow> \<not> grunning s \<Longrightarrow> result_step s Tau (s\<lparr>disp := V_Done\<rparr>)"
| wait: "disp s = V_Wait \<Longrightarrow> g_semtshow s = Suc n \<Longrightarrow> result_step s Tau (s\<lparr>g_semtshow := n, disp := V_Test\<rparr>)"
| none: "disp s = V_Test \<Longrightarrow> gresultque s = [] \<Longrightarrow> result_step s Tau (s\<lparr>disp := V_Loop\<rparr>)"
| some: "disp s = V_Test \<Longrightarrow> gresultque s \<noteq> [] \<Longrightarrow> result_step s Tau (s\<lparr>disp := V_Lock\<rparr>)"
| take_lock: "disp s = V_Lock \<Longrightarrow> \<not> mutexshow s \<Longrightarrow> result_step s Tau (s\<lparr>mutexshow := True, disp := V_Take\<rparr>)"
| take: "disp s = V_Take \<Longrightarrow> gresultque s = b # q \<Longrightarrow> result_step s Tau (s\<lparr>gresultque := q, disp := V_Unlock b\<rparr>)"
| take_unlock: "disp s = V_Unlock b \<Longrightarrow> result_step s Tau (s\<lparr>mutexshow := False, disp := V_Show b\<rparr>)"
| show_it: "disp s = V_Show b \<Longrightarrow> result_step s (Shown b) (s\<lparr>disp := V_Loop\<rparr>)"
| stop: "main s = M_Pause \<Longrightarrow> result_step s Tau (s\<lparr>grunning := False, main := M_Post\<rparr>)"
| stop_post: "main s = M_Post \<Longrightarrow> result_step s Tau (s\<lparr>g_semtshow := Suc (g_semtshow s), main := M_Join\<rparr>)"

definition start :: "'b results" where
  "start = \<lparr>gresultque = [], mutexshow = False, g_semtshow = 0, grunning = True, prod = W_Next, disp = V_Loop, main = M_Pause\<rparr>"

section \<open>The invariant\<close>

fun prod_holds :: "'b prod_pc \<Rightarrow> bool" where
  "prod_holds (W_Push b) = True" | "prod_holds W_Unlock = True" | "prod_holds W_Check = True" | "prod_holds _ = False"

fun disp_holds :: "'b disp_pc \<Rightarrow> bool" where
  "disp_holds V_Take = True" | "disp_holds (V_Unlock b) = True" | "disp_holds _ = False"

text \<open>Pushed and not yet posted; waited for and not yet taken.\<close>

fun unposted :: "'b prod_pc \<Rightarrow> nat" where
  "unposted W_Unlock = 1" | "unposted W_Post = 1" | "unposted _ = 0"

fun untaken :: "'b disp_pc \<Rightarrow> nat" where
  "untaken V_Test = 1" | "untaken V_Lock = 1" | "untaken V_Take = 1" | "untaken _ = 0"

fun before_push :: "'b prod_pc \<Rightarrow> bool" where
  "before_push W_Next = True" | "before_push (W_Lock b) = True" | "before_push (W_Push b) = True" | "before_push _ = False"

definition results_ok :: "'b results \<Rightarrow> bool" where
  "results_ok s \<longleftrightarrow>
     (mutexshow s \<longleftrightarrow> prod_holds (prod s) \<or> disp_holds (disp s)) \<and> \<not> (prod_holds (prod s) \<and> disp_holds (disp s)) \<and>
     (disp s \<in> {V_Lock, V_Take} \<longrightarrow> gresultque s \<noteq> []) \<and> (grunning s \<longleftrightarrow> main s = M_Pause) \<and>
     length (gresultque s) \<le> g_semtshow s + untaken (disp s) + unposted (prod s) \<and>
     (grunning s \<longrightarrow> length (gresultque s) = g_semtshow s + untaken (disp s) + unposted (prod s) \<and>
       length (gresultque s) \<le> (if before_push (prod s) then 1 else 2))"

lemma result_step_keeps: "result_step s e s' \<Longrightarrow> results_ok s \<Longrightarrow> results_ok s'"
  by (induction rule: result_step.induct) (auto simp: results_ok_def)

fun pushed :: "'b result_event \<Rightarrow> 'b list" where
  "pushed (Pushed b) = [b]" | "pushed _ = []"

fun shown :: "'b result_event \<Rightarrow> 'b list" where
  "shown (Shown b) = [b]" | "shown _ = []"

fun in_hand :: "'b disp_pc \<Rightarrow> 'b list" where
  "in_hand (V_Unlock b) = [b]" | "in_hand (V_Show b) = [b]" | "in_hand _ = []"

definition on_the_way :: "'b results \<Rightarrow> 'b list" where
  "on_the_way s = in_hand (disp s) @ gresultque s"

lemma result_step_content: "result_step s e s' \<Longrightarrow> on_the_way s @ pushed e = shown e @ on_the_way s'"
  by (induction rule: result_step.induct) (auto simp: on_the_way_def)

interpretation results: step_invariant "result_step :: 'b results \<Rightarrow> _" results_ok
  by unfold_locales (rule result_step_keeps)

interpretation results: step_fifo "result_step :: 'b results \<Rightarrow> _" on_the_way pushed shown
  by unfold_locales (rule result_step_content)

lemma start_results_ok: "results_ok start"
  by (simp add: results_ok_def start_def)

section \<open>Everything can be shown\<close>

fun disp_rank :: "'b disp_pc \<Rightarrow> nat" where
  "disp_rank V_Loop = 6" | "disp_rank V_Wait = 5" | "disp_rank V_Test = 4" | "disp_rank V_Lock = 3" | "disp_rank V_Take = 2"
| "disp_rank (V_Unlock b) = 1" | "disp_rank (V_Show b) = 0" | "disp_rank V_Done = 0"

fun prod_rank :: "'b prod_pc \<Rightarrow> nat" where
  "prod_rank (W_Push b) = 30" | "prod_rank W_Unlock = 15" | "prod_rank W_Post = 12" | "prod_rank W_Check = 1" | "prod_rank _ = 0"

definition to_show :: "'b results \<Rightarrow> nat" where
  "to_show s = 10 * length (on_the_way s) + disp_rank (disp s) + prod_rank (prod s)"

definition advances :: "'b results \<Rightarrow> bool" where
  "advances s \<longleftrightarrow> (\<exists>e s'. result_step s e s' \<and> grunning s' \<and> disp s' \<noteq> V_Done \<and> to_show s' < to_show s)"

lemma advancesI:
  "result_step s e s' \<Longrightarrow> grunning s' \<Longrightarrow> disp s' \<noteq> V_Done \<Longrightarrow> to_show s' < to_show s \<Longrightarrow> advances s"
  unfolding advances_def by blast

lemmas rank_defs = to_show_def on_the_way_def

text \<open>The thread that holds the lock, or is about to post, can move.\<close>

lemma prod_advances:
  assumes "grunning s" "disp s \<noteq> V_Done" "prod_holds (prod s) \<or> unposted (prod s) = 1"
  shows "advances s"
proof (cases "prod s")
  case (W_Push b) then show ?thesis by (rule advancesI [OF push]) (use W_Push assms in \<open>simp_all add: rank_defs\<close>)
next
  case W_Unlock then show ?thesis by (rule advancesI [OF push_unlock]) (use W_Unlock assms in \<open>simp_all add: rank_defs\<close>)
next
  case W_Post then show ?thesis by (rule advancesI [OF post]) (use W_Post assms in \<open>simp_all add: rank_defs\<close>)
next
  case W_Check
  show ?thesis
  proof (cases "length (gresultque s) \<ge> 2")
    case True
    then show ?thesis using W_Check by (intro advancesI [OF too_many]) (use W_Check assms in \<open>simp_all add: rank_defs\<close>)
  next
    case False
    then show ?thesis using W_Check by (intro advancesI [OF go_on]) (use W_Check assms in \<open>simp_all add: rank_defs\<close>)
  qed
qed (use assms in simp_all)

lemma display_advances:
  assumes ok: "results_ok s" and run: "grunning s" "disp s \<noteq> V_Done" and some: "on_the_way s \<noteq> []"
  shows "advances s"
proof -
  note inv = ok [unfolded results_ok_def]
  note prod = prod_advances [OF run]
  show ?thesis
  proof (cases "disp s")
    case V_Loop then show ?thesis by (rule advancesI [OF loop]) (use V_Loop run in \<open>simp_all add: rank_defs\<close>)
  next
    case V_Wait
    show ?thesis
    proof (cases "g_semtshow s")
      case 0
      then have "unposted (prod s) = 1" using V_Wait inv run some by (cases "prod s") (auto simp: on_the_way_def)
      then show ?thesis using prod by simp
    next
      case (Suc n)
      show ?thesis by (rule advancesI [OF wait [OF V_Wait Suc]]) (use V_Wait run in \<open>simp_all add: rank_defs\<close>)
    qed
  next
    case V_Test
    then have "gresultque s \<noteq> []" using some by (simp add: on_the_way_def)
    then show ?thesis using V_Test by (intro advancesI [OF result_step.some]) (use V_Test run in \<open>simp_all add: rank_defs\<close>)
  next
    case V_Lock
    show ?thesis
    proof (cases "mutexshow s")
      case True
      then show ?thesis using prod inv V_Lock by simp
    next
      case False
      show ?thesis by (rule advancesI [OF take_lock [OF V_Lock False]]) (use V_Lock run in \<open>simp_all add: rank_defs\<close>)
    qed
  next
    case V_Take
    then obtain b q where q: "gresultque s = b # q" using inv by (cases "gresultque s") auto
    show ?thesis by (rule advancesI [OF take [OF V_Take q]]) (use V_Take q run in \<open>simp_all add: rank_defs\<close>)
  next
    case (V_Unlock b) then show ?thesis by (rule advancesI [OF take_unlock]) (use V_Unlock run in \<open>simp_all add: rank_defs\<close>)
  next
    case (V_Show b) then show ?thesis by (rule advancesI [OF show_it]) (use V_Show run in \<open>simp_all add: rank_defs\<close>)
  qed (use run in simp)
qed

lemma drain:
  "results_ok s \<Longrightarrow> grunning s \<Longrightarrow> disp s \<noteq> V_Done \<Longrightarrow>
   \<exists>es s'. run result_step s es s' \<and> grunning s' \<and> on_the_way s' = []"
proof (induction "to_show s" arbitrary: s rule: less_induct)
  case less
  show ?case
  proof (cases "on_the_way s = []")
    case True
    then show ?thesis using less.prems by (intro exI [of _ "[]"] exI [of _ s]) (simp add: run_Nil)
  next
    case False
    then obtain e s1 where s1: "result_step s e s1" "grunning s1" "disp s1 \<noteq> V_Done" "to_show s1 < to_show s"
      using display_advances [OF less.prems False] unfolding advances_def by blast
    then obtain es s' where "run result_step s1 es s'" "grunning s'" "on_the_way s' = []"
      using less.hyps [OF s1(4)] result_step_keeps [OF s1(1)] less.prems(1) by blast
    then show ?thesis using run_cons [where step = result_step, OF s1(1)] by (intro exI [of _ "e # es"] exI [of _ s']) simp
  qed
qed

lemma display_stays:
  "result_step s e s' \<Longrightarrow> grunning s' \<Longrightarrow> grunning s \<and> (disp s \<noteq> V_Done \<longrightarrow> disp s' \<noteq> V_Done)"
  by (induction rule: result_step.induct) auto

lemma display_runs: "run result_step s es s' \<Longrightarrow> grunning s' \<Longrightarrow> disp s \<noteq> V_Done \<Longrightarrow> disp s' \<noteq> V_Done"
proof (induction rule: run.induct)
  case (run_snoc s es s' e s'')
  then show ?case using display_stays [OF run_snoc.hyps(2) run_snoc.prems(1)] by simp
qed

section \<open>The display thread can end\<close>

text \<open>A thread that waits after the stop has been posted to.\<close>

definition wake_ok :: "'b results \<Rightarrow> bool" where
  "wake_ok s \<longleftrightarrow> results_ok s \<and> (disp s = V_Wait \<and> main s = M_Join \<longrightarrow> 0 < g_semtshow s)"

lemma waits_posted: "result_step s e s' \<Longrightarrow> wake_ok s \<Longrightarrow> disp s' = V_Wait \<Longrightarrow> main s' = M_Join \<Longrightarrow> 0 < g_semtshow s'"
  by (induction rule: result_step.induct) (auto simp: wake_ok_def results_ok_def)

lemma result_step_wakes:
  assumes "result_step s e s'" "wake_ok s"
  shows "wake_ok s'"
  using waits_posted [OF assms] result_step_keeps [OF assms(1)] assms(2) by (auto simp: wake_ok_def)

interpretation wake: step_invariant "result_step :: 'b results \<Rightarrow> _" wake_ok
  by unfold_locales (rule result_step_wakes)

lemma start_wake_ok: "wake_ok start"
  using start_results_ok by (simp add: wake_ok_def) (simp add: start_def)

fun end_rank :: "'b disp_pc \<Rightarrow> nat" where
  "end_rank V_Wait = 7" | "end_rank V_Test = 6" | "end_rank V_Lock = 5" | "end_rank V_Take = 4" | "end_rank (V_Unlock b) = 3"
| "end_rank (V_Show b) = 2" | "end_rank V_Loop = 1" | "end_rank V_Done = 0"

fun lock_rank :: "'b prod_pc \<Rightarrow> nat" where
  "lock_rank (W_Push b) = 2" | "lock_rank W_Unlock = 1" | "lock_rank W_Check = 1" | "lock_rank _ = 0"

definition to_end :: "'b results \<Rightarrow> nat" where
  "to_end s = end_rank (disp s) + lock_rank (prod s) + (if main s = M_Post then 1 else 0)"

definition retires :: "'b results \<Rightarrow> bool" where
  "retires s \<longleftrightarrow> (\<exists>e s'. result_step s e s' \<and> \<not> grunning s' \<and> to_end s' < to_end s)"

lemma retiresI: "result_step s e s' \<Longrightarrow> \<not> grunning s' \<Longrightarrow> to_end s' < to_end s \<Longrightarrow> retires s"
  unfolding retires_def by blast

lemma holder_retires:
  assumes stop: "\<not> grunning s" and "prod_holds (prod s)"
  shows "retires s"
proof (cases "prod s")
  case (W_Push b) then show ?thesis by (rule retiresI [OF push]) (use W_Push stop in \<open>simp_all add: to_end_def\<close>)
next
  case W_Unlock then show ?thesis by (rule retiresI [OF push_unlock]) (use W_Unlock stop in \<open>simp_all add: to_end_def\<close>)
next
  case W_Check then show ?thesis using stop by (intro retiresI [OF go_on]) (simp_all add: to_end_def)
qed (use assms in simp_all)

lemma display_retires:
  assumes ok: "wake_ok s" and stop: "\<not> grunning s" and live: "disp s \<noteq> V_Done"
  shows "retires s"
proof -
  note inv = ok [unfolded wake_ok_def results_ok_def]
  show ?thesis
  proof (cases "disp s")
    case V_Loop then show ?thesis using stop by (intro retiresI [OF leave]) (simp_all add: to_end_def)
  next
    case V_Wait
    show ?thesis
    proof (cases "g_semtshow s")
      case 0
      then have "main s = M_Post" using V_Wait inv stop by (cases "main s") auto
      then show ?thesis using stop by (intro retiresI [OF stop_post]) (simp_all add: to_end_def)
    next
      case (Suc n)
      show ?thesis by (rule retiresI [OF wait [OF V_Wait Suc]]) (use V_Wait stop in \<open>simp_all add: to_end_def\<close>)
    qed
  next
    case V_Test
    show ?thesis
    proof (cases "gresultque s = []")
      case True then show ?thesis using V_Test stop by (intro retiresI [OF none]) (simp_all add: to_end_def)
    next
      case False then show ?thesis using V_Test stop by (intro retiresI [OF result_step.some]) (simp_all add: to_end_def)
    qed
  next
    case V_Lock
    show ?thesis
    proof (cases "mutexshow s")
      case True
      then show ?thesis using inv V_Lock holder_retires [OF stop] by simp
    next
      case False
      show ?thesis by (rule retiresI [OF take_lock [OF V_Lock False]]) (use V_Lock stop in \<open>simp_all add: to_end_def\<close>)
    qed
  next
    case V_Take
    then obtain b q where q: "gresultque s = b # q" using inv by (cases "gresultque s") auto
    show ?thesis by (rule retiresI [OF take [OF V_Take q]]) (use V_Take stop in \<open>simp_all add: to_end_def\<close>)
  next
    case (V_Unlock b) then show ?thesis using stop by (intro retiresI [OF take_unlock]) (simp_all add: to_end_def)
  next
    case (V_Show b) then show ?thesis using stop by (intro retiresI [OF show_it]) (simp_all add: to_end_def)
  qed (use live in simp)
qed

lemma retire: "wake_ok s \<Longrightarrow> \<not> grunning s \<Longrightarrow> \<exists>es s'. run result_step s es s' \<and> disp s' = V_Done"
proof (induction "to_end s" arbitrary: s rule: less_induct)
  case less
  show ?case
  proof (cases "disp s = V_Done")
    case True
    then show ?thesis by (intro exI [of _ "[]"] exI [of _ s]) (simp add: run_Nil)
  next
    case False
    then obtain e s1 where s1: "result_step s e s1" "\<not> grunning s1" "to_end s1 < to_end s"
      using display_retires [OF less.prems] unfolding retires_def by blast
    then obtain es s' where "run result_step s1 es s'" "disp s' = V_Done"
      using less.hyps [OF s1(3)] result_step_wakes [OF s1(1)] less.prems(1) by blast
    then show ?thesis using run_cons [where step = result_step, OF s1(1)] by (intro exI [of _ "e # es"] exI [of _ s']) simp
  qed
qed

lemma can_retire:
  assumes "wake_ok s"
  shows "\<exists>es s'. run result_step s es s' \<and> disp s' = V_Done"
proof (cases "grunning s")
  case True
  then have "main s = M_Pause" using assms by (simp add: wake_ok_def results_ok_def)
  then have step: "result_step s Tau (s\<lparr>grunning := False, main := M_Post\<rparr>)" by (rule stop)
  obtain es s' where "run result_step (s\<lparr>grunning := False, main := M_Post\<rparr>) es s'" "disp s' = V_Done"
    using retire [OF result_step_wakes [OF step assms]] by auto
  then show ?thesis using run_cons [where step = result_step, OF step] by blast
qed (use retire assms in blast)

text \<open>
  C18: The queue of results. In every interleaving of scheduler, display thread and the end of
  \<open>main\<close>, the batches are shown in the order in which they were pushed, none twice and none left
  out before one that is shown; only one thread is inside the lock, and \<open>front\<close> is never called on an
  empty queue. As long as the program runs (\<open>grunning\<close>) the queue holds at most two batches, the display
  thread sleeps beside a batch only until the scheduler has posted it, and everything that was
  pushed can still be shown. From every state that can be reached, before and after the stop,
  the display thread can still come to its end; what is queued then is never shown.
\<close>

theorem results_in_order:
  assumes "run result_step start es s'"
  shows "concat (map pushed es) = concat (map shown es) @ in_hand (disp s') @ gresultque s' \<and>
    \<not> (prod_holds (prod s') \<and> disp_holds (disp s')) \<and> (disp s' = V_Take \<longrightarrow> gresultque s' \<noteq> []) \<and>
    (grunning s' \<longrightarrow> length (gresultque s') \<le> 2 \<and>
      (disp s' = V_Wait \<and> g_semtshow s' = 0 \<longrightarrow> gresultque s' = [] \<or> prod s' \<in> {W_Unlock, W_Post}) \<and>
      (\<exists>fs s''. run result_step s' fs s'' \<and> grunning s'' \<and> concat (map shown (es @ fs)) = concat (map pushed (es @ fs)))) \<and>
    (\<exists>fs s''. run result_step s' fs s'' \<and> disp s'' = V_Done \<and>
      concat (map pushed (es @ fs)) = concat (map shown (es @ fs)) @ gresultque s'')"
proof -
  have wake: "wake_ok s'" using wake.run_keeps [OF assms start_wake_ok] .
  then have ok: "results_ok s'" by (simp add: wake_ok_def)
  have fifo: "concat (map pushed fs) = concat (map shown fs) @ on_the_way t" if "run result_step start fs t" for fs and t :: "'a results"
    using results.run_content [OF that] by (simp add: start_def on_the_way_def)
  have bound: "length (gresultque s') \<le> 2 \<and>
      (disp s' = V_Wait \<and> g_semtshow s' = 0 \<longrightarrow> gresultque s' = [] \<or> prod s' \<in> {W_Unlock, W_Post})" if "grunning s'"
    using ok that by (cases "prod s'") (auto simp: results_ok_def split: if_splits)
  have "\<exists>fs s''. run result_step s' fs s'' \<and> grunning s'' \<and> concat (map shown (es @ fs)) = concat (map pushed (es @ fs))"
    if g: "grunning s'"
  proof -
    have "disp s' \<noteq> V_Done" using display_runs [OF assms g] by (simp add: start_def)
    then obtain fs s'' where fs: "run result_step s' fs s''" "grunning s''" "on_the_way s'' = []" using drain [OF ok g] by blast
    then show ?thesis using fifo [OF run_append [OF fs(1) assms]] by (intro exI [of _ fs] exI [of _ s'']) simp
  qed
  moreover obtain fs s'' where fs: "run result_step s' fs s''" "disp s'' = V_Done" using can_retire [OF wake] by blast
  then have "concat (map pushed (es @ fs)) = concat (map shown (es @ fs)) @ gresultque s''"
    using fifo [OF run_append [OF fs(1) assms]] by (simp add: on_the_way_def)
  moreover have "disp s' = V_Take \<longrightarrow> gresultque s' \<noteq> []" "\<not> (prod_holds (prod s') \<and> disp_holds (disp s'))"
    using ok by (auto simp: results_ok_def)
  ultimately show ?thesis using fifo [OF assms] bound fs by (intro conjI) (auto simp: on_the_way_def)
qed

text \<open>Two batches: the second is pushed while the first is drawn.\<close>

lemma results_in_order_witness:
  "\<exists>es s'. run result_step start es s' \<and> concat (map pushed es) = [1, 2 :: nat] \<and> gresultque s' = [2] \<and> concat (map shown es) = [1]"
proof -
  let ?s = "\<lambda>q m n p d. \<lparr>gresultque = q, mutexshow = m, g_semtshow = n, grunning = True, prod = p, disp = d, main = M_Pause\<rparr> :: nat results"
  note c = run_cons [where step = "result_step :: nat results \<Rightarrow> _"]
  have p: "result_step (?s q m n W_Next d) (Result b) (?s q m n (W_Lock b) d)" "result_step (?s q False n (W_Lock b) d) Tau (?s q True n (W_Push b) d)"
      "result_step (?s q m n (W_Push b) d) (Pushed b) (?s (q @ [b]) m n W_Unlock d)" "result_step (?s q m n W_Unlock d) Tau (?s q False n W_Post d)"
      "result_step (?s q m n W_Post d) Tau (?s q m (Suc n) W_Check_Lock d)" "result_step (?s q False n W_Check_Lock d) Tau (?s q True n W_Check d)"
      "result_step (?s [b] m n W_Check d) Tau (?s [b] False n W_Next d)" for q m n b d
    using inferred [of "?s q m n W_Next d" b] push_lock [of "?s q False n (W_Lock b) d" b] push [of "?s q m n (W_Push b) d" b]
      push_unlock [of "?s q m n W_Unlock d"] post [of "?s q m n W_Post d"] check_lock [of "?s q False n W_Check_Lock d"]
      go_on [of "?s [b] m n W_Check d"] by simp_all
  have v: "result_step (?s q m n p V_Loop) Tau (?s q m n p V_Wait)" "result_step (?s q m (Suc n) p V_Wait) Tau (?s q m n p V_Test)"
      "result_step (?s (b # q) m n p V_Test) Tau (?s (b # q) m n p V_Lock)" "result_step (?s q False n p V_Lock) Tau (?s q True n p V_Take)"
      "result_step (?s (b # q) m n p V_Take) Tau (?s q m n p (V_Unlock b))" "result_step (?s q m n p (V_Unlock b)) Tau (?s q False n p (V_Show b))"
      "result_step (?s q m n p (V_Show b)) (Shown b) (?s q m n p V_Loop)" for q m n b p
    using loop [of "?s q m n p V_Loop"] wait [of "?s q m (Suc n) p V_Wait" n] result_step.some [of "?s (b # q) m n p V_Test"]
      take_lock [of "?s q False n p V_Lock"] take [of "?s (b # q) m n p V_Take" b q] take_unlock [of "?s q m n p (V_Unlock b)" b]
      show_it [of "?s q m n p (V_Show b)" b] by simp_all
  have o: "start = ?s [] False 0 W_Next V_Loop" by (simp add: start_def)
  have 1: "run result_step start [Result 1, Tau, Pushed 1, Tau, Tau, Tau, Tau] (?s [1] False 1 W_Next V_Loop)"
    unfolding o by (rule c p run_Nil | simp only: append.simps One_nat_def)+
  have 2: "run result_step (?s [1] False 1 W_Next V_Loop) [Tau, Tau, Tau, Tau, Tau, Tau] (?s [] False 0 W_Next (V_Show 1))"
    unfolding One_nat_def by (rule c v run_Nil)+
  have 3: "run result_step (?s [] False 0 W_Next (V_Show 1)) [Result 2, Tau, Pushed 2, Shown 1] (?s [2] True 0 W_Unlock V_Loop)"
    by (rule c p v run_Nil | simp only: append.simps)+
  have r: "run result_step start ([Result 1, Tau, Pushed 1, Tau, Tau, Tau, Tau] @ [Tau, Tau, Tau, Tau, Tau, Tau] @ [Result 2, Tau, Pushed 2, Shown 1])
      (?s [2] True 0 W_Unlock V_Loop)"
    by (intro run_append [OF run_append [OF 3 2] 1])
  show ?thesis using r results_in_order [OF r, THEN conjunct1] by (intro exI conjI) (assumption, simp_all)
qed

end
