(* ===== verification/Stream_Setup.thy ===== *)
theory Stream_Setup
  imports Frame_Alloc "HOL-Library.Word" "HOL-Library.Sublist"
begin

text \<open>
  Setting up a stream (\<open>video_analytics_example/main.cpp\<close>, \<open>main\<close>): the checks of the options, the name of
  the file of weights, the parameters of decoder and scaler, and the three pools of surfaces, whose
  memory comes from the frame allocator (\<open>Frame_Alloc\<close>).

  What the Media SDK answers (the header of the stream, the number of frames it asks for and the
  type of the requests) is a parameter. \<open>mfxVideoParam\<close> keeps the frame information of the
  decoder and the input of the scaler in the same bytes, so that \<open>VPPParams.mfx.FrameInfo\<close> is \<open>vpp.In\<close>.
  Sizes are 16-bit words, as in the SDK; \<open>MSDK_ALIGN16\<close> computes in \<open>int\<close> and is cut off on assignment.
\<close>

section \<open>Options\<close>

text \<open>\<open>fileNameNoExt\<close>: everything before the last dot, wherever that is.\<close>

definition fileNameNoExt :: "string \<Rightarrow> string" where
  "fileNameNoExt filepath = (if CHR ''.'' \<notin> set filepath then filepath
     else rev (tl (dropWhile (\<lambda>c. c \<noteq> CHR ''.'') (rev filepath))))"

definition binFileName :: "string \<Rightarrow> string" where
  "binFileName model = fileNameNoExt model @ ''.bin''"

record options =
  FLAGS_h :: bool
  FLAGS_l :: string
  FLAGS_p :: string
  FLAGS_d :: string
  FLAGS_i :: string
  FLAGS_m :: string

text \<open>The value \<open>main\<close> returns at once, or None when it goes on.\<close>

definition check_options :: "options \<Rightarrow> int option" where
  "check_options f =
     (if FLAGS_h f then Some 0
      else if FLAGS_l f = [] then Some 1
      else let noPluginAndBadDevice = FLAGS_p f = [] \<and> FLAGS_d f \<noteq> ''CPU'' \<and> FLAGS_d f \<noteq> ''GPU'' in
        if FLAGS_i f = [] \<or> FLAGS_m f = [] \<or> noPluginAndBadDevice then Some 1 else None)"

section \<open>Decoder and scaler\<close>

type_synonym u16 = "16 word"

datatype pic_struct = PICSTRUCT_PROGRESSIVE | PICSTRUCT_OTHER nat

datatype chroma_format = CHROMA_YUV420 | CHROMA_YUV444 | CHROMA_OTHER nat

record mfx_info =
  Width :: u16
  Height :: u16
  CropX :: u16
  CropY :: u16
  CropW :: u16
  CropH :: u16
  info_fourcc :: mfx_fourcc
  ChromaFormat :: chroma_format
  PicStruct :: pic_struct
  FrameRateExtN :: nat
  FrameRateExtD :: nat

record video_param =
  In :: mfx_info
  Out :: mfx_info
  scaling :: bool

record post_processing =
  in_crop :: "u16 \<times> u16 \<times> u16 \<times> u16"
  out_fourcc :: mfx_fourcc
  out_chroma :: chroma_format
  out_size :: "u16 \<times> u16"
  out_crop :: "u16 \<times> u16 \<times> u16 \<times> u16"

record dec_param =
  codec_avc :: bool
  FrameInfo :: mfx_info
  postproc :: "post_processing option"

definition align16 :: "u16 \<Rightarrow> u16" where
  "align16 v = word_of_nat ((unat v + 15) div 16 * 16)"

definition align32 :: "u16 \<Rightarrow> u16" where
  "align32 v = word_of_nat ((unat v + 31) div 32 * 32)"

text \<open>A record of the scaler: no offset, the crop size, progressive, 30 frames a second, aligned extents.\<close>

definition aligned_info :: "mfx_fourcc \<Rightarrow> chroma_format \<Rightarrow> u16 \<Rightarrow> u16 \<Rightarrow> mfx_info" where
  "aligned_info fourcc chroma w h =
     (let pic = PICSTRUCT_PROGRESSIVE in
      \<lparr>Width = align16 w, Height = (if pic = PICSTRUCT_PROGRESSIVE then align16 h else align32 h), CropX = 0, CropY = 0, CropW = w, CropH = h,
        info_fourcc = fourcc, ChromaFormat = chroma, PicStruct = pic, FrameRateExtN = 30, FrameRateExtD = 1\<rparr>)"

definition vpp_params :: "int \<times> int \<Rightarrow> dec_param \<Rightarrow> video_param" where
  "vpp_params net dec =
     \<lparr>In = aligned_info FOURCC_NV12 CHROMA_YUV420 (CropW (FrameInfo dec)) (CropH (FrameInfo dec)),
      Out = aligned_info FOURCC_RGBP CHROMA_YUV444 (word_of_int (fst net)) (word_of_int (snd net)), scaling = True\<rparr>"

definition post_params :: "dec_param \<Rightarrow> video_param \<Rightarrow> post_processing" where
  "post_params dec vpp =
     \<lparr>in_crop = (0, 0, CropW (FrameInfo dec), CropH (FrameInfo dec)),
      out_fourcc = info_fourcc (FrameInfo dec), out_chroma = ChromaFormat (FrameInfo dec),
      out_size = (align16 (Width (Out vpp)), align16 (Height (Out vpp))),
      out_crop = (0, 0, CropW (Out vpp), CropH (Out vpp))\<rparr>"

definition configure :: "bool \<Rightarrow> int \<times> int \<Rightarrow> dec_param \<Rightarrow> dec_param \<times> video_param" where
  "configure VD_LP_resize net dec =
     (let vpp = vpp_params net dec in
      if VD_LP_resize \<and> codec_avc dec \<and> PicStruct (FrameInfo dec) = PICSTRUCT_PROGRESSIVE then
        let p = post_params dec vpp in
        (dec\<lparr>postproc := Some p\<rparr>,
         vpp\<lparr>In := (In vpp)\<lparr>Width := fst (out_size p), Height := snd (out_size p), CropW := CropW (Out vpp), CropH := CropH (Out vpp)\<rparr>,
           scaling := False\<rparr>)
      else (dec, vpp))"

section \<open>The pools of surfaces\<close>

record surface =
  Info :: mfx_info
  MemId :: mem_id

definition pool :: "va_state \<Rightarrow> response \<Rightarrow> mfx_info \<Rightarrow> surface list option" where
  "pool s resp info = loop (NumFrameActual resp) (\<lambda>i xs. do {
     ids \<leftarrow> mem_ids_at s (mids resp);
     mid \<leftarrow> rd ids i;
     Some (xs @ [\<lparr>Info = info, MemId = mid\<rparr>]) }) []"

text \<open>A failed allocation for the decoder goes to the end of \<open>main\<close>, one for the scaler returns 1 at once.\<close>

datatype failure = Exit_Here mfx_status | Return_1 mfx_status

definition open_pool ::
    "bool \<Rightarrow> nat \<Rightarrow> request \<Rightarrow> answers \<Rightarrow> mfx_info \<Rightarrow> va_state \<Rightarrow> (mfx_status + surface list \<times> va_state) option" where
  "open_pool ndebug pthis req ans info s = do {
     (sts, resp, s) \<leftarrow> simple_alloc ndebug pthis (Some req) (Some zero_response) ans s;
     if sts \<noteq> MFX_ERR_NONE then Some (Inl sts)
     else do {
       resp \<leftarrow> resp;
       xs \<leftarrow> pool s resp info;
       Some (Inr (xs, s)) } }"

definition dec_request :: "request \<Rightarrow> request" where
  "dec_request req = req\<lparr>NumFrameSuggested := unat (word_of_nat (NumFrameSuggested req) + 2 :: u16),
     decoder_target := True, processor_target := False, external_frame := True, from_decode := True\<rparr>"

definition open_pools ::
    "bool \<Rightarrow> nat \<Rightarrow> request \<times> request \<times> request \<Rightarrow> answers \<times> answers \<times> answers \<Rightarrow> dec_param \<Rightarrow> video_param \<Rightarrow> va_state
     \<Rightarrow> (failure + (surface list \<times> surface list \<times> surface list) \<times> va_state) option" where
  "open_pools ndebug pthis reqs ans dec vpp s =
     (let (dec_req, in_req, out_req) = reqs; (a1, a2, a3) = ans in
      open_pool ndebug pthis (dec_request dec_req) a1 (FrameInfo dec) s \<bind> (\<lambda>r. case r of
        Inl sts \<Rightarrow> Some (Inl (Exit_Here sts))
      | Inr (decs, s) \<Rightarrow>
          open_pool ndebug pthis (in_req\<lparr>FourCC := info_fourcc (In vpp)\<rparr>) a2 (In vpp) s \<bind> (\<lambda>r. case r of
            Inl sts \<Rightarrow> Some (Inl (Return_1 sts))
          | Inr (ins, s) \<Rightarrow>
              open_pool ndebug pthis (out_req\<lparr>FourCC := info_fourcc (Out vpp)\<rparr>) a3 (Out vpp) s \<bind> (\<lambda>r. case r of
                Inl sts \<Rightarrow> Some (Inl (Return_1 sts))
              | Inr (outs, s) \<Rightarrow> Some (Inr ((decs, ins, outs), s))))))"

section \<open>Names\<close>

text \<open>The extension of the last component is replaced; a dot in a directory is taken for one.\<close>

lemma fileNameNoExt_ext:
  assumes "CHR ''.'' \<notin> set ext"
  shows "fileNameNoExt (path @ ''.'' @ ext) = path"
proof -
  have "dropWhile (\<lambda>c. c \<noteq> CHR ''.'') (rev ext @ CHR ''.'' # rev path) = CHR ''.'' # rev path"
    using assms by (subst dropWhile_append2) auto
  then show ?thesis by (simp add: fileNameNoExt_def)
qed

lemma binFileName_directory:
  assumes "CHR ''.'' \<notin> set name"
  shows "binFileName (''../models/'' @ name) = ''..bin''"
  using fileNameNoExt_ext [of "''/models/'' @ name" "''.''"] assms by (simp add: binFileName_def)

section \<open>Sizes\<close>

definition size_ok :: "nat \<Rightarrow> bool" where
  "size_ok n \<longleftrightarrow> n \<le> 65520"

lemma align16_nat:
  assumes "size_ok (unat v)"
  shows "unat (align16 v) = (unat v + 15) div 16 * 16"
proof -
  define n where "n = (unat v + 15) div 16 * 16"
  have "n \<le> unat v + 15" unfolding n_def by (rule div_times_less_eq_dividend)
  then have "n < 65536" using assms by (simp add: size_ok_def)
  then have "unat (word_of_nat n :: u16) = n" by (simp add: unat_of_nat)
  then show ?thesis by (simp only: align16_def n_def)
qed

lemma align16_bounds:
  assumes "size_ok (unat v)"
  shows "16 dvd unat (align16 v) \<and> unat v \<le> unat (align16 v) \<and> unat (align16 v) < unat v + 16"
proof -
  define m r where "m = (unat v + 15) div 16 * 16" and "r = (unat v + 15) mod 16"
  have "m + r = unat v + 15" unfolding m_def r_def by (rule div_mult_mod_eq)
  moreover have "r < 16" by (simp add: r_def)
  moreover have "16 dvd m" by (simp add: m_def)
  ultimately show ?thesis unfolding align16_nat [OF assms] m_def [symmetric] by simp
qed

lemma align16_twice:
  assumes "size_ok (unat v)"
  shows "align16 (align16 v) = align16 v"
proof -
  have "unat (align16 v) \<le> 65520" using align16_nat [OF assms] assms by (simp add: size_ok_def)
  then have "unat (align16 (align16 v)) = unat (align16 v)"
    using align16_bounds [OF assms] by (subst align16_nat) (auto simp: size_ok_def elim!: dvdE)
  then show ?thesis by (simp add: word_unat_eq_iff)
qed

text \<open>
  The part of a surface that holds the picture, with its format: what the decoder writes, after its
  own scaling if that is on, and what the scaler is told to read and to write.
\<close>

type_synonym picture = "(u16 \<times> u16 \<times> u16 \<times> u16) \<times> mfx_fourcc \<times> chroma_format"

definition picture_of :: "mfx_info \<Rightarrow> picture" where
  "picture_of f = ((CropX f, CropY f, CropW f, CropH f), info_fourcc f, ChromaFormat f)"

definition decoder_out :: "dec_param \<Rightarrow> picture" where
  "decoder_out dec = (case postproc dec of None \<Rightarrow> picture_of (FrameInfo dec)
     | Some p \<Rightarrow> (out_crop p, out_fourcc p, out_chroma p))"

text \<open>The stream has the format and, where its pictures reach the scaler as they are, the position the scaler reads.\<close>

definition plain_stream :: "dec_param \<Rightarrow> bool \<Rightarrow> bool" where
  "plain_stream dec by_decoder \<longleftrightarrow> info_fourcc (FrameInfo dec) = FOURCC_NV12 \<and> ChromaFormat (FrameInfo dec) = CHROMA_YUV420 \<and>
     (by_decoder \<or> CropX (FrameInfo dec) = 0 \<and> CropY (FrameInfo dec) = 0)"

definition info_ok :: "mfx_info \<Rightarrow> bool" where
  "info_ok f \<longleftrightarrow> CropX f = 0 \<and> CropY f = 0 \<and> CropW f \<le> Width f \<and> CropH f \<le> Height f \<and>
     16 dvd unat (Width f) \<and> 16 dvd unat (Height f) \<and> unat (Width f) < unat (CropW f) + 16 \<and> unat (Height f) < unat (CropH f) + 16"

lemma aligned_info_ok:
  assumes "size_ok (unat w)" "size_ok (unat h)"
  shows "info_ok (aligned_info fourcc chroma w h)"
  using align16_bounds [OF assms(1)] align16_bounds [OF assms(2)]
  by (simp add: info_ok_def aligned_info_def word_le_nat_alt)

text \<open>
  C36: The parameters of decoder and scaler. For every stream and network of up to 65520 pixels per
  side, with and without scaling in the decoder: the scaler reads a picture in NV12 at the origin, of the
  crop size of the stream or, after the decoder's scaling, of the size of the network; it writes a
  planar picture at the origin, of the size of the network; both extents are these sizes rounded up to 16;
  and the picture is scaled in one place: by the scaler, or, when that is asked for, the codec is AVC and
  the stream progressive, by the decoder, which then reads the stream from the origin, in its crop size,
  and writes a surface of the extents that the scaler reads. Position, size and format that the scaler
  reads are those the decoder delivers exactly when the stream is NV12 and 4:2:0 and, where the
  decoder does not scale, has no crop offset: the header's offset and format are not consulted.
\<close>

theorem stream_is_scaled_once:
  assumes size: "size_ok (unat (CropW (FrameInfo dec)))" "size_ok (unat (CropH (FrameInfo dec)))"
    and net: "0 \<le> w" "size_ok (nat w)" "0 \<le> h" "size_ok (nat h)" and none: "postproc dec = None"
    and how: "by_decoder \<longleftrightarrow> VD_LP_resize \<and> codec_avc dec \<and> PicStruct (FrameInfo dec) = PICSTRUCT_PROGRESSIVE"
  shows "case configure VD_LP_resize (w, h) dec of (dec', vpp) \<Rightarrow>
    picture_of (In vpp) = ((0, 0, if by_decoder then word_of_int w else CropW (FrameInfo dec),
      if by_decoder then word_of_int h else CropH (FrameInfo dec)), FOURCC_NV12, CHROMA_YUV420) \<and>
    picture_of (Out vpp) = ((0, 0, word_of_int w, word_of_int h), FOURCC_RGBP, CHROMA_YUV444) \<and>
    unat (CropW (Out vpp)) = nat w \<and> unat (CropH (Out vpp)) = nat h \<and> info_ok (In vpp) \<and> info_ok (Out vpp) \<and>
    (decoder_out dec' = picture_of (In vpp) \<longleftrightarrow> plain_stream dec by_decoder) \<and> FrameInfo dec' = FrameInfo dec \<and>
    scaling vpp = (\<not> by_decoder) \<and>
    (case postproc dec' of None \<Rightarrow> \<not> by_decoder | Some p \<Rightarrow> by_decoder \<and>
      in_crop p = (0, 0, CropW (FrameInfo dec), CropH (FrameInfo dec)) \<and> out_size p = (Width (In vpp), Height (In vpp)) \<and>
      out_crop p = (0, 0, word_of_int w, word_of_int h) \<and>
      (out_fourcc p, out_chroma p) = (info_fourcc (FrameInfo dec), ChromaFormat (FrameInfo dec)))"
proof -
  let ?w = "word_of_int w :: u16" and ?h = "word_of_int h :: u16" and ?vpp = "vpp_params (w, h) dec"
  have n: "unat ?w = nat w" "unat ?h = nat h"
    using net by (simp_all add: size_ok_def unsigned_of_int take_bit_eq_mod)
  have out: "info_ok (aligned_info f c ?w ?h)" for f c using aligned_info_ok [of ?w ?h] net n by simp
  have twice: "align16 (align16 ?w) = align16 ?w" "align16 (align16 ?h) = align16 ?h"
    using align16_twice [of ?w] align16_twice [of ?h] net n by simp_all
  have inn: "info_ok (aligned_info f c (CropW (FrameInfo dec)) (CropH (FrameInfo dec)))" for f c
    using aligned_info_ok size by simp
  note defs = vpp_params_def picture_of_def decoder_out_def plain_stream_def
  show ?thesis
  proof (cases by_decoder)
    case True
    have "align16 (Width (Out ?vpp)) = Width (Out ?vpp)" "align16 (Height (Out ?vpp)) = Height (Out ?vpp)"
      using twice by (simp_all add: vpp_params_def aligned_info_def Let_def)
    then have c: "configure VD_LP_resize (w, h) dec = (dec\<lparr>postproc := Some (post_params dec ?vpp)\<rparr>, ?vpp\<lparr>In := (In ?vpp)\<lparr>Width := Width (Out ?vpp),
        Height := Height (Out ?vpp), CropW := CropW (Out ?vpp), CropH := CropH (Out ?vpp)\<rparr>, scaling := False\<rparr>)"
      using True by (simp add: how configure_def Let_def post_params_def)
    have "info_ok ((In ?vpp)\<lparr>Width := Width (Out ?vpp), Height := Height (Out ?vpp), CropW := CropW (Out ?vpp), CropH := CropH (Out ?vpp)\<rparr>)"
      using out [of FOURCC_NV12 CHROMA_YUV420] by (simp add: vpp_params_def aligned_info_def info_ok_def Let_def)
    then show ?thesis
      unfolding c using True out n twice by (simp add: defs post_params_def) (auto simp: aligned_info_def Let_def)
  next
    case False
    then have c: "configure VD_LP_resize (w, h) dec = (dec, ?vpp)" by (auto simp: how configure_def Let_def)
    show ?thesis
      unfolding c using False out inn n none by (simp add: defs) (auto simp: aligned_info_def Let_def)
  qed
qed

section \<open>Surfaces\<close>

definition surface_behind :: "va_state \<Rightarrow> mem_id \<Rightarrow> nat option" where
  "surface_behind s mid = do {
     (_, h) \<leftarrow> simple_gethdl True mid s;
     (a, j) \<leftarrow> h;
     xs \<leftarrow> surfaces_at s a;
     rd xs j }"

lemma heap_grows:
  assumes "heap s \<subseteq>\<^sub>m heap t"
  shows "vaapi_mids_at s a = Some xs \<Longrightarrow> vaapi_mids_at t a = Some xs" "surfaces_at s a = Some ys \<Longrightarrow> surfaces_at t a = Some ys"
proof -
  have "heap t a = Some b" if "heap s a = Some b" for b using map_le_implies_dom_le [OF assms] assms that by (auto simp: map_le_def dest: bspec)
  then show "vaapi_mids_at s a = Some xs \<Longrightarrow> vaapi_mids_at t a = Some xs" "surfaces_at s a = Some ys \<Longrightarrow> surfaces_at t a = Some ys"
    by (auto simp: vaapi_mids_at_def surfaces_at_def split: option.splits block.splits)
qed

lemma surface_behind_grows:
  assumes "heap s \<subseteq>\<^sub>m heap t" "surface_behind s mid = Some x"
  shows "surface_behind t mid = Some x"
proof -
  obtain a i ms m sa k ys where "mid = Some (a, i)" "vaapi_mids_at s a = Some ms" "rd ms i = Some m" "m_surface m = Some (sa, k)"
      "surfaces_at s sa = Some ys" "rd ys k = Some x"
    using assms(2) by (auto simp: surface_behind_def simple_gethdl_def frame_at_def bind_eq_Some_conv split: if_splits)
  then show ?thesis
    using heap_grows [OF assms(1)] by (simp add: surface_behind_def simple_gethdl_def frame_at_def)
qed

lemma pool_eq:
  assumes "mem_ids_at s (mids resp) = Some ids" "NumFrameActual resp = length ids"
  shows "pool s resp info = Some (map (\<lambda>mid. \<lparr>Info = info, MemId = mid\<rparr>) ids)"
proof -
  have "loop n (\<lambda>i xs. do { ids \<leftarrow> mem_ids_at s (mids resp); mid \<leftarrow> rd ids i; Some (xs @ [\<lparr>Info = info, MemId = mid\<rparr>]) }) [] =
      Some (map (\<lambda>mid. \<lparr>Info = info, MemId = mid\<rparr>) (take n ids))" if "n \<le> length ids" for n
    using that by (induction n) (simp_all add: assms(1) rd_Some take_Suc_conv_app_nth)
  from this [of "length ids"] show ?thesis by (simp add: pool_def assms(2))
qed

definition addresses :: "answers \<Rightarrow> nat set" where
  "addresses ans = (case callocs ans of (a, b, c) \<Rightarrow> {a, b, c})"

text \<open>A pool that has just been created.\<close>

definition new_pool :: "request \<Rightarrow> answers \<Rightarrow> mfx_info \<Rightarrow> surface list \<Rightarrow> nat list \<Rightarrow> va_state \<Rightarrow> va_state \<Rightarrow> bool" where
  "new_pool req ans info xs ids s t \<longleftrightarrow> length xs = NumFrameSuggested req \<and> (\<forall>x \<in> set xs. Info x = info) \<and>
     map MemId xs = map (\<lambda>i. Some (fst (snd (callocs ans)), i)) [0..<length xs] \<and>
     map (surface_behind t \<circ> MemId) xs = map Some ids \<and> live t = live s + mset (map (frame_of (FourCC req)) ids) \<and>
     heap s \<subseteq>\<^sub>m heap t \<and> dom (heap t) = dom (heap s) \<union> addresses ans"

lemma open_pool_creates:
  assumes run: "open_pool ndebug pthis req ans info s = Some (Inr (xs, t))" and fr: "fresh ans s"
    and new: "\<not> from_decode req \<or> NumFrameActual (mfxResponse (decode_entry s pthis)) = 0"
  shows "\<exists>ids. new_pool req ans info xs ids s t"
proof -
  obtain resp where call: "simple_alloc ndebug pthis (Some req) (Some zero_response) ans s = Some (MFX_ERR_NONE, Some resp, t)"
      and p: "pool t resp info = Some xs"
    using run by (auto simp: open_pool_def bind_eq_Some_conv split: if_splits)
  from call fr show ?thesis
  proof (cases rule: simple_alloc_cases)
    case (created sa va ma ids r)
    let ?n = "NumFrameSuggested req"
    have apart: "heap s sa = None" "heap s va = None" "heap s ma = None" "sa \<noteq> va" "sa \<noteq> ma" "va \<noteq> ma"
      using fr created(3-6) by (auto simp: fresh_def)
    have m: "mem_ids_at t (mids resp) = Some (map (\<lambda>i. Some (va, i)) [0..<?n])" "NumFrameActual resp = ?n"
      using created by (auto simp: mem_ids_at_def)
    then have xs: "xs = map (\<lambda>i. \<lparr>Info = info, MemId = Some (va, i)\<rparr>) [0..<?n]"
      using p pool_eq [OF m(1), of info] by (simp add: comp_def)
    have "surface_behind t (Some (va, i)) = Some (ids ! i)" if "i < ?n" for i
      using that apart created(8,10)
      by (simp add: surface_behind_def simple_gethdl_def frame_at_def vaapi_mids_at_def surfaces_at_def handles_def rd_Some)
    then have "map (surface_behind t \<circ> MemId) xs = map Some ids"
      using created(8) by (auto simp: xs intro!: nth_equalityI)
    moreover have "heap s \<subseteq>\<^sub>m heap t" using created(10) apart by (auto simp: map_le_def dom_def)
    moreover have "dom (heap t) = dom (heap s) \<union> addresses ans" using created(3,10) by (auto simp: addresses_def)
    ultimately show ?thesis using created(3,9) by (intro exI [of _ ids]) (auto simp: new_pool_def xs comp_def)
  qed (use new in simp_all)
qed

lemma fresh_later: "fresh b s \<Longrightarrow> dom (heap t) = dom (heap s) \<union> addresses a \<Longrightarrow> addresses a \<inter> addresses b = {} \<Longrightarrow> fresh b t"
  by (auto simp: fresh_def addresses_def dom_def split: prod.splits)

lemma behind_later:
  assumes "map (surface_behind s \<circ> MemId) xs = map Some ids" "heap s \<subseteq>\<^sub>m heap t"
  shows "map (surface_behind t \<circ> MemId) xs = map Some ids"
proof (rule nth_equalityI)
  have len: "length xs = length ids" using assms(1) by (rule map_eq_imp_length_eq)
  then show "length (map (surface_behind t \<circ> MemId) xs) = length (map Some ids)" by simp
  fix i assume "i < length (map (surface_behind t \<circ> MemId) xs)"
  then have i: "i < length xs" by simp
  then have "surface_behind s (MemId (xs ! i)) = Some (ids ! i)" using arg_cong [OF assms(1), of "\<lambda>l. l ! i"] len by simp
  then show "map (surface_behind t \<circ> MemId) xs ! i = map Some ids ! i"
    using surface_behind_grows [OF assms(2)] i len by simp
qed

lemma succeeds_first:
  "(m \<bind> (\<lambda>r. case r of Inl e \<Rightarrow> Some (Inl (f e)) | Inr (xs, s) \<Rightarrow> g xs s)) = Some (Inr y) \<Longrightarrow>
   \<exists>xs s. m = Some (Inr (xs, s)) \<and> g xs s = Some (Inr y)"
  by (cases m) (auto split: sum.splits)

text \<open>
  C35: The three pools of a stream. When \<open>main\<close> gets past the allocations, on a session that has no
  saved frames and with addresses from \<open>calloc\<close> that are not in use, every pool has as many
  surfaces as were asked for, two more than the decoder needs for the first; each surface
  carries the frame information of its pool, no two surfaces of the stream share a handle, and
  every handle leads, also after the later allocations, to a surface of its own that the
  driver has created.
\<close>

theorem pools_ready:
  assumes run: "open_pools ndebug pthis (r1, r2, r3) (a1, a2, a3) dec vpp s = Some (Inr ((decs, ins, outs), t))"
    and new: "NumFrameActual (mfxResponse (decode_entry s pthis)) = 0" "\<not> from_decode r2" "\<not> from_decode r3"
    and fresh: "fresh a1 s" "fresh a2 s" "fresh a3 s"
    and apart: "addresses a1 \<inter> addresses a2 = {}" "addresses a1 \<inter> addresses a3 = {}" "addresses a2 \<inter> addresses a3 = {}"
  shows "length decs = (NumFrameSuggested r1 + 2) mod 65536 \<and> length ins = NumFrameSuggested r2 \<and> length outs = NumFrameSuggested r3 \<and>
    (\<forall>x \<in> set decs. Info x = FrameInfo dec) \<and> (\<forall>x \<in> set ins. Info x = In vpp) \<and> (\<forall>x \<in> set outs. Info x = Out vpp) \<and>
    distinct (map MemId (decs @ ins @ outs)) \<and>
    (\<exists>d i c. map (surface_behind t \<circ> MemId) (decs @ ins @ outs) = map Some (d @ i @ c) \<and>
      live t = live s + mset (map (frame_of (FourCC r1)) d) + mset (map (frame_of (info_fourcc (In vpp))) i) +
        mset (map (frame_of (info_fourcc (Out vpp))) c))"
proof -
  obtain s1 s2 where o1: "open_pool ndebug pthis (dec_request r1) a1 (FrameInfo dec) s = Some (Inr (decs, s1))"
      and o2: "open_pool ndebug pthis (r2\<lparr>FourCC := info_fourcc (In vpp)\<rparr>) a2 (In vpp) s1 = Some (Inr (ins, s2))"
      and o3: "open_pool ndebug pthis (r3\<lparr>FourCC := info_fourcc (Out vpp)\<rparr>) a3 (Out vpp) s2 = Some (Inr (outs, t))"
    using run by (auto simp: open_pools_def dest!: succeeds_first)
  obtain d where d: "new_pool (dec_request r1) a1 (FrameInfo dec) decs d s s1"
    using open_pool_creates [OF o1 fresh(1)] new(1) by blast
  have f1: "fresh a2 s1" "fresh a3 s1" using fresh_later [of _ s s1 a1] fresh apart d by (auto simp: new_pool_def)
  obtain i where i: "new_pool (r2\<lparr>FourCC := info_fourcc (In vpp)\<rparr>) a2 (In vpp) ins i s1 s2"
    using open_pool_creates [OF o2 f1(1)] new(2) by auto
  have f2: "fresh a3 s2" using fresh_later [OF f1(2), of s2 a2] apart i by (auto simp: new_pool_def)
  obtain c where c: "new_pool (r3\<lparr>FourCC := info_fourcc (Out vpp)\<rparr>) a3 (Out vpp) outs c s2 t"
    using open_pool_creates [OF o3 f2] new(3) by auto
  have grow: "heap s1 \<subseteq>\<^sub>m heap t" "heap s2 \<subseteq>\<^sub>m heap t" using i c by (auto simp: new_pool_def intro: map_le_trans)
  have behind: "map (surface_behind t \<circ> MemId) (decs @ ins @ outs) = map Some (d @ i @ c)"
    using behind_later [OF _ grow(1), of decs d] behind_later [OF _ grow(2), of ins i] d i c by (simp add: new_pool_def)
  have va: "fst (snd (callocs a)) \<in> addresses a" for a by (simp add: addresses_def split: prod.splits)
  have "fst (snd (callocs a1)) \<noteq> fst (snd (callocs a2))" "fst (snd (callocs a1)) \<noteq> fst (snd (callocs a3))"
      "fst (snd (callocs a2)) \<noteq> fst (snd (callocs a3))"
    using va [of a1] va [of a2] va [of a3] apart by auto
  then have dist: "distinct (map MemId (decs @ ins @ outs))"
    using d i c by (auto simp: new_pool_def distinct_map inj_on_def)
  have n: "unat (word_of_nat (NumFrameSuggested r1) + 2 :: u16) = (NumFrameSuggested r1 + 2) mod 65536"
    by (simp add: unat_word_ariths unat_of_nat mod_simps)
  have len: "length decs = (NumFrameSuggested r1 + 2) mod 65536" "length ins = NumFrameSuggested r2" "length outs = NumFrameSuggested r3"
    using d i c n by (auto simp: new_pool_def dec_request_def)
  have info: "\<forall>x \<in> set decs. Info x = FrameInfo dec" "\<forall>x \<in> set ins. Info x = In vpp" "\<forall>x \<in> set outs. Info x = Out vpp"
    using d i c by (auto simp: new_pool_def)
  have live: "live t = live s + mset (map (frame_of (FourCC r1)) d) + mset (map (frame_of (info_fourcc (In vpp))) i) +
        mset (map (frame_of (info_fourcc (Out vpp))) c)"
    using d i c by (simp add: new_pool_def dec_request_def)
  show ?thesis
    by (intro conjI exI [of _ d] exI [of _ i] exI [of _ c]) (fact len info dist behind live)+
qed

section \<open>A stream of four frames\<close>

definition demo_request :: "nat \<Rightarrow> request" where
  "demo_request n = \<lparr>FourCC = FOURCC_NV12, NumFrameSuggested = n, decoder_target = False, processor_target = True,
     external_frame = False, from_decode = False\<rparr>"

definition demo_answers :: "nat \<Rightarrow> answers" where
  "demo_answers k = \<lparr>callocs = (k, k + 1, k + 2), created = (VA_SUCCESS, \<lambda>i. 10 * k + i), buffers = \<lambda>i. (VA_SUCCESS, 0)\<rparr>"

definition demo_dec :: dec_param where
  "demo_dec = \<lparr>codec_avc = True, FrameInfo = aligned_info FOURCC_NV12 CHROMA_YUV420 1920 1080, postproc = None\<rparr>"

lemma open_pool_runs:
  assumes "NumFrameSuggested req \<noteq> 0" "decoder_target req \<or> processor_target req" "FourCC req \<in> {FOURCC_NV12, FOURCC_RGBP}"
    and "\<not> from_decode req \<or> NumFrameActual (mfxResponse (decode_entry s pthis)) = 0" and "0 < k"
    and fr: "fresh (demo_answers k) s"
  shows "\<exists>xs t. open_pool True pthis req (demo_answers k) info s = Some (Inr (xs, t))"
proof -
  let ?s = "set_entry pthis (decode_entry s pthis) s"
  have "\<exists>resp t. alloc_frames True req (demo_answers k) ?s = Some (MFX_ERR_NONE, resp, t)"
    using assms(1,3,5) by (auto simp: alloc_frames_def demo_answers_def ConvertMfxFourccToVAFormat_def create_frames_def Let_def)
  then obtain resp t where "simple_alloc True pthis (Some req) (Some zero_response) (demo_answers k) s = Some (MFX_ERR_NONE, Some resp, t)"
    using assms(1,2,4) unfolding simple_alloc_def by (auto simp: Let_def)
  then have call: "simple_alloc True pthis (Some req) (Some zero_response) (demo_answers k) s = Some (MFX_ERR_NONE, Some resp, t)" .
  from call fr have "\<exists>ids. mem_ids_at t (mids resp) = Some ids \<and> NumFrameActual resp = length ids"
  proof (cases rule: simple_alloc_cases)
    case (created sa va ma ids r)
    then show ?thesis by (intro exI [of _ "map (\<lambda>i. Some (va, i)) [0..<NumFrameSuggested req]"]) (auto simp: mem_ids_at_def)
  qed (use assms(4) in simp_all)
  then show ?thesis using pool_eq call by (fastforce simp: open_pool_def)
qed

lemma demo_pools:
  "\<exists>ds is os t. open_pools True 5 (demo_request 0, demo_request 1, demo_request 1) (demo_answers 1, demo_answers 4, demo_answers 7)
    demo_dec (vpp_params (300, 300) demo_dec) no_frames = Some (Inr ((ds, is, os), t))"
proof -
  let ?r1 = "dec_request (demo_request 0)" and ?vpp = "vpp_params (300, 300) demo_dec"
  let ?r2 = "(demo_request 1)\<lparr>FourCC := info_fourcc (In ?vpp)\<rparr>" and ?r3 = "(demo_request 1)\<lparr>FourCC := info_fourcc (Out ?vpp)\<rparr>"
  note defs = dec_request_def demo_request_def vpp_params_def aligned_info_def Let_def
  have e: "NumFrameActual (mfxResponse (decode_entry no_frames 5)) = 0" by (simp add: decode_entry_def no_frames_def zero_response_def)
  have f: "fresh (demo_answers k) no_frames" for k by (simp add: fresh_def demo_answers_def no_frames_def)
  have a: "addresses (demo_answers 1) = {1, 2, 3}" "addresses (demo_answers 4) = {4, 5, 6}" "addresses (demo_answers 7) = {7, 8, 9}"
    by (auto simp: addresses_def demo_answers_def)
  obtain ds s1 where 1: "open_pool True 5 ?r1 (demo_answers 1) (FrameInfo demo_dec) no_frames = Some (Inr (ds, s1))"
    using open_pool_runs [of ?r1 no_frames 5 1 "FrameInfo demo_dec"] e f by (auto simp: defs)
  obtain d where d: "new_pool ?r1 (demo_answers 1) (FrameInfo demo_dec) ds d no_frames s1" using open_pool_creates [OF 1 f] e by blast
  have f1: "fresh (demo_answers 4) s1" "fresh (demo_answers 7) s1"
    using fresh_later [OF f, of s1 "demo_answers 1"] d a by (auto simp: new_pool_def)
  obtain "is" s2 where 2: "open_pool True 5 ?r2 (demo_answers 4) (In ?vpp) s1 = Some (Inr (is, s2))"
    using open_pool_runs [of ?r2 s1 5 4 "In ?vpp"] f1 by (auto simp: defs)
  obtain i where i: "new_pool ?r2 (demo_answers 4) (In ?vpp) is i s1 s2" using open_pool_creates [OF 2 f1(1)] by (auto simp: demo_request_def)
  have "fresh (demo_answers 7) s2" using fresh_later [OF f1(2), of s2 "demo_answers 4"] i a by (auto simp: new_pool_def)
  then obtain os t where 3: "open_pool True 5 ?r3 (demo_answers 7) (Out ?vpp) s2 = Some (Inr (os, t))"
    using open_pool_runs [of ?r3 s2 5 7 "Out ?vpp"] by (auto simp: defs)
  show ?thesis using 1 2 3 by (simp add: open_pools_def)
qed

theorem pools_ready_witness:
  "\<exists>ds is os t. open_pools True 5 (demo_request 0, demo_request 1, demo_request 1) (demo_answers 1, demo_answers 4, demo_answers 7)
      demo_dec (vpp_params (300, 300) demo_dec) no_frames = Some (Inr ((ds, is, os), t)) \<and>
    length ds = 2 \<and> length is = 1 \<and> length os = 1 \<and> distinct (map MemId (ds @ is @ os)) \<and> size (live t) = 4"
proof -
  obtain ds "is" os t where r: "open_pools True 5 (demo_request 0, demo_request 1, demo_request 1) (demo_answers 1, demo_answers 4, demo_answers 7)
    demo_dec (vpp_params (300, 300) demo_dec) no_frames = Some (Inr ((ds, is, os), t))" using demo_pools by blast
  have "fresh (demo_answers k) no_frames" for k by (simp add: fresh_def demo_answers_def no_frames_def)
  note ready = pools_ready [OF r _ _ _ this this this]
  have s: "length ds = 2 \<and> length is = 1 \<and> length os = 1 \<and> distinct (map MemId (ds @ is @ os))"
    using ready by (auto simp: demo_request_def demo_answers_def addresses_def no_frames_def decode_entry_def zero_response_def)
  have "\<exists>d i c. map (surface_behind t \<circ> MemId) (ds @ is @ os) = map Some (d @ i @ c) \<and>
      live t = mset (map (frame_of FOURCC_NV12) d) + mset (map (frame_of FOURCC_NV12) i) + mset (map (frame_of FOURCC_RGBP) c)"
    using ready by (auto simp: demo_request_def demo_answers_def addresses_def no_frames_def decode_entry_def zero_response_def
      vpp_params_def aligned_info_def Let_def)
  then obtain d i c where m: "map (surface_behind t \<circ> MemId) (ds @ is @ os) = map Some (d @ i @ c)"
      and l: "live t = mset (map (frame_of FOURCC_NV12) d) + mset (map (frame_of FOURCC_NV12) i) + mset (map (frame_of FOURCC_RGBP) c)" by blast
  have "length (ds @ is @ os) = length (d @ i @ c)" using map_eq_imp_length_eq [OF m] .
  then have "size (live t) = 4" using s by (simp add: l)
  then show ?thesis using r s by blast
qed

text \<open>The stream of the example, with the decoder's scaling; the same stream with a crop offset, without it.\<close>

theorem stream_is_scaled_once_witness:
  "(case configure True (300, 300) demo_dec of (dec', vpp) \<Rightarrow> decoder_out dec' = picture_of (In vpp) \<and>
     unat (CropW (In vpp)) = 300 \<and> 16 dvd unat (Width (In vpp)) \<and> \<not> scaling vpp) \<and>
   (case configure False (300, 300) (demo_dec\<lparr>FrameInfo := (FrameInfo demo_dec)\<lparr>CropX := 8\<rparr>\<rparr>) of (dec', vpp) \<Rightarrow>
     decoder_out dec' \<noteq> picture_of (In vpp) \<and> scaling vpp)"
proof
  have d: "postproc demo_dec = None" "codec_avc demo_dec" "PicStruct (FrameInfo demo_dec) = PICSTRUCT_PROGRESSIVE"
      "size_ok (unat (CropW (FrameInfo demo_dec)))" "size_ok (unat (CropH (FrameInfo demo_dec)))"
      "info_fourcc (FrameInfo demo_dec) = FOURCC_NV12" "ChromaFormat (FrameInfo demo_dec) = CHROMA_YUV420"
    by (simp_all add: demo_dec_def aligned_info_def size_ok_def Let_def)
  have s: "size_ok (nat 300)" by (simp add: size_ok_def)
  show "case configure True (300, 300) demo_dec of (dec', vpp) \<Rightarrow> decoder_out dec' = picture_of (In vpp) \<and>
      unat (CropW (In vpp)) = 300 \<and> 16 dvd unat (Width (In vpp)) \<and> \<not> scaling vpp"
    using stream_is_scaled_once [OF d(4,5) _ s _ s d(1), of True True] d
    by (auto simp: plain_stream_def info_ok_def picture_of_def split: prod.splits)
  let ?d = "demo_dec\<lparr>FrameInfo := (FrameInfo demo_dec)\<lparr>CropX := 8\<rparr>\<rparr>"
  have "size_ok (unat (CropW (FrameInfo ?d)))" "size_ok (unat (CropH (FrameInfo ?d)))" "postproc ?d = None" using d by simp_all
  from stream_is_scaled_once [OF this(1,2) _ s _ s this(3), of False False]
  show "case configure False (300, 300) ?d of (dec', vpp) \<Rightarrow> decoder_out dec' \<noteq> picture_of (In vpp) \<and> scaling vpp"
    by (auto simp: plain_stream_def split: prod.splits)
qed

end
