(* ===== verification/Bitmap.thy ===== *)
theory Bitmap
  imports Prelude "HOL-Library.Word"
begin

text \<open>
  Bitmap files (\<open>video_analytics_example/bitmap_helpers.h\<close>): \<open>BitMap::load\<close>, \<open>BitMap::save\<close> and the comparison
  of two files, \<open>checkResult\<close>.

  A file is its bytes, or None when it cannot be opened. The headers are packed and little-endian, as
  on the machines the application is built for; \<open>unsigned\<close> is a 32-bit word and its products wrap.
  \<open>exit(1)\<close> is \<open>Inl 1\<close>. \<open>malloc\<close> is a parameter that says for which sizes it succeeds. Writing to a file
  that has been opened succeeds.
\<close>

section \<open>Numbers in bytes\<close>

type_synonym u8 = "8 word"
type_synonym u32 = "32 word"

definition le :: "nat \<Rightarrow> nat \<Rightarrow> u8 list" where
  "le n x = map (\<lambda>i. word_of_nat (x div 256 ^ i)) [0..<n]"

definition unle :: "u8 list \<Rightarrow> nat" where
  "unle bs = foldr (\<lambda>b acc. unat b + 256 * acc) bs 0"

definition field :: "u8 list \<Rightarrow> nat \<Rightarrow> nat \<Rightarrow> nat" where
  "field bs pos n = unle (take n (drop pos bs))"

section \<open>Headers\<close>

record BitMapFileHeader =
  Type :: nat
  FileSize :: u32
  Res1 :: nat
  Res2 :: nat
  PixelOffset :: u32

record BitMapInfoHeader =
  HeaderSize :: u32
  BIH_Width :: u32
  BIH_Height :: u32
  Planes :: nat
  BitsPerPixel :: nat
  Compression :: u32
  ImageSize :: u32
  XPixelsPerMeter :: u32
  YPixelsPerMeter :: u32
  ColorsUsed :: u32
  ColorsImportant :: u32

definition file_header_bytes :: "BitMapFileHeader \<Rightarrow> u8 list" where
  "file_header_bytes h = le 2 (Type h) @ le 4 (unat (FileSize h)) @ le 2 (Res1 h) @ le 2 (Res2 h) @ le 4 (unat (PixelOffset h))"

definition info_header_bytes :: "BitMapInfoHeader \<Rightarrow> u8 list" where
  "info_header_bytes h = le 4 (unat (HeaderSize h)) @ le 4 (unat (BIH_Width h)) @ le 4 (unat (BIH_Height h)) @ le 2 (Planes h) @
     le 2 (BitsPerPixel h) @ le 4 (unat (Compression h)) @ le 4 (unat (ImageSize h)) @ le 4 (unat (XPixelsPerMeter h)) @
     le 4 (unat (YPixelsPerMeter h)) @ le 4 (unat (ColorsUsed h)) @ le 4 (unat (ColorsImportant h))"

definition read_file_header :: "u8 list \<Rightarrow> BitMapFileHeader" where
  "read_file_header bs = \<lparr>Type = field bs 0 2, FileSize = word_of_nat (field bs 2 4), Res1 = field bs 6 2, Res2 = field bs 8 2,
     PixelOffset = word_of_nat (field bs 10 4)\<rparr>"

definition read_info_header :: "u8 list \<Rightarrow> BitMapInfoHeader" where
  "read_info_header bs = \<lparr>HeaderSize = word_of_nat (field bs 0 4), BIH_Width = word_of_nat (field bs 4 4),
     BIH_Height = word_of_nat (field bs 8 4), Planes = field bs 12 2, BitsPerPixel = field bs 14 2,
     Compression = word_of_nat (field bs 16 4), ImageSize = word_of_nat (field bs 20 4),
     XPixelsPerMeter = word_of_nat (field bs 24 4), YPixelsPerMeter = word_of_nat (field bs 28 4),
     ColorsUsed = word_of_nat (field bs 32 4), ColorsImportant = word_of_nat (field bs 36 4)\<rparr>"

section \<open>Loading and saving\<close>

record bitmap =
  Width :: u32
  Height :: u32
  BPP :: u32
  XPPM :: u32
  YPPM :: u32
  Data :: "u8 list option"

definition load :: "(nat \<Rightarrow> bool) \<Rightarrow> u8 list option \<Rightarrow> int + bitmap" where
  "load malloc contents = (case contents of None \<Rightarrow> Inl 1 | Some bs \<Rightarrow>
     if length bs < 14 then Inl 1
     else
       let BFH = read_file_header (take 14 bs) in
       if Type BFH \<noteq> 0x4d42 then Inl 1
       else if length (drop 14 bs) < 40 then Inl 1
       else
         let BIH = read_info_header (take 40 (drop 14 bs)) in
         if HeaderSize BIH \<noteq> 40 \<or> Planes BIH \<noteq> 1 \<or> BitsPerPixel BIH \<noteq> 24 \<or> Compression BIH \<noteq> 0 \<or> ColorsUsed BIH \<noteq> 0 \<or>
            ColorsImportant BIH \<noteq> 0 then Inl 1
         else
           let BIH = (if ImageSize BIH = 0
             then BIH\<lparr>ImageSize := BIH_Width BIH * BIH_Height BIH * word_of_nat (BitsPerPixel BIH div 8)\<rparr> else BIH) in
           if \<not> malloc (unat (ImageSize BIH)) then Inl 1
           else
             let data = take (unat (ImageSize BIH)) (drop (unat (PixelOffset BFH)) bs) in
             if length data \<noteq> unat (ImageSize BIH) then Inl 1
             else Inr \<lparr>Width = BIH_Width BIH, Height = BIH_Height BIH, BPP = word_of_nat (BitsPerPixel BIH),
               XPPM = XPixelsPerMeter BIH, YPPM = YPixelsPerMeter BIH, Data = Some data\<rparr>)"

definition image_size :: "bitmap \<Rightarrow> u32" where
  "image_size b = word_of_nat (unat (BPP b) div 8) * Width b * Height b"

text \<open>Reading behind the data, or through a null pointer, is undefined.\<close>

definition save :: "bool \<Rightarrow> bitmap \<Rightarrow> (int + u8 list) option" where
  "save opens b =
     (if \<not> opens then Some (Inl 1)
      else do {
        let size = image_size b;
        let BFH = \<lparr>Type = 0x4d42, FileSize = 14 + 40 + size, Res1 = 0, Res2 = 0, PixelOffset = 14 + 40\<rparr>;
        let BIH = \<lparr>HeaderSize = 40, BIH_Width = Width b, BIH_Height = Height b, Planes = 1, BitsPerPixel = unat (BPP b) mod 65536,
          Compression = 0, ImageSize = size, XPixelsPerMeter = XPPM b, YPixelsPerMeter = YPPM b, ColorsUsed = 0, ColorsImportant = 0\<rparr>;
        pixels \<leftarrow> (if size = 0 then Some [] else Data b);
        if length pixels < unat size then None
        else Some (Inr (file_header_bytes BFH @ info_header_bytes BIH @ take (unat size) pixels)) })"

section \<open>Comparing two files\<close>

text \<open>A 16-bit value of the header, with its sign, and its magnitude.\<close>

definition abs_short :: "u8 list \<Rightarrow> nat \<Rightarrow> nat" where
  "abs_short bs pos = nat \<bar>sint (word_of_nat (field bs pos 2) :: 16 word)\<bar>"

definition checkResult :: "(nat \<Rightarrow> bool) \<Rightarrow> u8 list option \<Rightarrow> u8 list option \<Rightarrow> int \<Rightarrow> bool option" where
  "checkResult malloc out gold tolerance = (case out of None \<Rightarrow> Some False | Some out \<Rightarrow>
     if length out < 54 then Some False
     else case gold of None \<Rightarrow> Some False | Some gold \<Rightarrow>
       if length gold < 54 then Some False
       else if out ! 18 \<noteq> gold ! 18 \<or> out ! 22 \<noteq> gold ! 22 then Some False
       else
         let width = abs_short out 18; height = abs_short out 22; n = width * height * 3 in
         if \<not> malloc n then None
         else
           let img_out = take n (drop 54 out); img_gold = take n (drop 54 gold) in
           if length img_out \<noteq> n then Some False
           else if length img_gold \<noteq> n then Some False
           else loop_brk 0 n (\<lambda>i same. do {
             a \<leftarrow> rd img_out i;
             b \<leftarrow> rd img_gold i;
             if \<bar>int (unat a) - int (unat b)\<bar> > tolerance then Some (False, False) else Some (True, True) }) True)"

section \<open>Round trips\<close>

lemma length_le [simp]: "length (le n x) = n"
  by (simp add: le_def)

lemma le_Suc: "le (Suc n) x = word_of_nat x # le n (x div 256)"
proof -
  have "[0..<Suc n] = 0 # map Suc [0..<n]" by (simp add: map_Suc_upt upt_conv_Cons)
  then show ?thesis by (simp add: le_def comp_def div_mult2_eq)
qed

lemma unle_le: "unle (le n x) = x mod 256 ^ n"
proof (induction n arbitrary: x)
  case (Suc n)
  have "unat (word_of_nat x :: u8) = x mod 256" by (simp add: unat_of_nat)
  then show ?case using Suc [of "x div 256"] by (simp add: le_Suc unle_def mod_mult2_eq)
qed (simp add: le_def unle_def)

lemma field_here: "length as = pos \<Longrightarrow> field (as @ le n x @ bs) pos n = x mod 256 ^ n"
  by (simp add: field_def unle_le)

text \<open>A field that starts behind a part of known length.\<close>

lemma field_skip: "length as \<le> pos \<Longrightarrow> field (as @ bs) pos n = field bs (pos - length as) n"
  by (simp add: field_def)

lemma field_first: "field (le n x @ bs) 0 n = x mod 256 ^ n"
  by (simp add: field_def unle_le)

lemma field_whole: "field (le n x) 0 n = x mod 256 ^ n"
  by (simp add: field_def unle_le)

lemmas fields = field_skip field_first field_whole

lemma u32_back: "word_of_nat (unat x mod 4294967296) = (x :: u32)"
proof -
  have "unat x < 2 ^ LENGTH(32)" by (rule unsigned_less)
  then show ?thesis by simp
qed

lemma read_file_header_bytes:
  "Type h < 65536 \<Longrightarrow> Res1 h < 65536 \<Longrightarrow> Res2 h < 65536 \<Longrightarrow> read_file_header (file_header_bytes h) = h"
  by (simp add: read_file_header_def file_header_bytes_def fields u32_back)

lemma read_info_header_bytes:
  "Planes h < 65536 \<Longrightarrow> BitsPerPixel h < 65536 \<Longrightarrow> read_info_header (info_header_bytes h) = h"
  by (simp add: read_info_header_def info_header_bytes_def fields u32_back)

lemma length_headers [simp]: "length (file_header_bytes h) = 14" "length (info_header_bytes i) = 40"
  by (simp_all add: file_header_bytes_def info_header_bytes_def)

text \<open>What loading makes of the two headers that saving writes, and bytes of the declared size.\<close>

lemma load_headers:
  assumes h: "Type h = 0x4d42" "Res1 h < 65536" "Res2 h < 65536" "PixelOffset h = 54"
    and i: "HeaderSize i = 40" "Planes i = 1" "BitsPerPixel i = 24" "Compression i = 0" "ColorsUsed i = 0" "ColorsImportant i = 0"
    and size: "length pixels = unat (if ImageSize i = 0 then BIH_Width i * BIH_Height i * 3 else ImageSize i)" "malloc (length pixels)"
  shows "load malloc (Some (file_header_bytes h @ info_header_bytes i @ pixels)) =
    Inr \<lparr>Width = BIH_Width i, Height = BIH_Height i, BPP = 24, XPPM = XPixelsPerMeter i, YPPM = YPixelsPerMeter i, Data = Some pixels\<rparr>"
proof -
  have r: "read_file_header (file_header_bytes h) = h" "read_info_header (info_header_bytes i) = i"
    using h i by (simp_all add: read_file_header_bytes read_info_header_bytes)
  have "drop 54 (file_header_bytes h @ info_header_bytes i @ pixels) = pixels" by simp
  then show ?thesis using h i size by (cases "ImageSize i = 0") (simp_all add: load_def r Let_def)
qed

text \<open>
  Saving and loading. A bitmap of 24 bits per pixel whose data has the size of the picture comes
  back from a file unchanged, whatever the values of its fields, products that wrap included.
\<close>

theorem bitmap_roundtrip:
  assumes "BPP b = 24" "Data b = Some pixels" "length pixels = unat (image_size b)" "malloc (length pixels)"
  shows "\<exists>bytes. save True b = Some (Inr bytes) \<and> load malloc (Some bytes) = Inr b"
proof -
  let ?size = "image_size b"
  let ?h = "\<lparr>Type = 0x4d42, FileSize = 14 + 40 + ?size, Res1 = 0, Res2 = 0, PixelOffset = 14 + 40\<rparr> :: BitMapFileHeader"
  let ?i = "\<lparr>HeaderSize = 40, BIH_Width = Width b, BIH_Height = Height b, Planes = 1, BitsPerPixel = unat (BPP b) mod 65536,
          Compression = 0, ImageSize = ?size, XPixelsPerMeter = XPPM b, YPixelsPerMeter = YPPM b, ColorsUsed = 0, ColorsImportant = 0\<rparr>"
  have "unat (24 :: u32) div 8 = 3" by simp
  then have size: "?size = Width b * Height b * 3" by (simp only: image_size_def assms(1)) (simp add: mult.commute mult.left_commute)
  have "save True b = Some (Inr (file_header_bytes ?h @ info_header_bytes ?i @ pixels))"
    using assms(2,3) by (auto simp: save_def Let_def)
  moreover have "load malloc (Some (file_header_bytes ?h @ info_header_bytes ?i @ pixels)) = Inr b"
    using assms size by (subst load_headers) auto
  ultimately show ?thesis by blast
qed

theorem bitmap_roundtrip_witness:
  "\<exists>bytes. save True \<lparr>Width = 1, Height = 1, BPP = 24, XPPM = 0, YPPM = 0, Data = Some [1, 2, 3]\<rparr> = Some (Inr bytes) \<and>
    load (\<lambda>n. n < 1000) (Some bytes) = Inr \<lparr>Width = 1, Height = 1, BPP = 24, XPPM = 0, YPPM = 0, Data = Some [1, 2, 3]\<rparr>"
  by (rule bitmap_roundtrip [where pixels = "[1, 2, 3]"]) (simp_all add: image_size_def)

section \<open>Rows with padding\<close>

text \<open>In a bitmap file every row is filled up to a multiple of four bytes.\<close>

definition stride :: "nat \<Rightarrow> nat" where
  "stride w = (3 * w + 3) div 4 * 4"

definition bmp_file :: "nat \<Rightarrow> nat \<Rightarrow> u8 list \<Rightarrow> u8 list" where
  "bmp_file w h pixels =
     file_header_bytes \<lparr>Type = 0x4d42, FileSize = word_of_nat (54 + stride w * h), Res1 = 0, Res2 = 0, PixelOffset = 54\<rparr> @
     info_header_bytes \<lparr>HeaderSize = 40, BIH_Width = word_of_nat w, BIH_Height = word_of_nat h, Planes = 1, BitsPerPixel = 24,
       Compression = 0, ImageSize = word_of_nat (stride w * h), XPixelsPerMeter = 0, YPixelsPerMeter = 0, ColorsUsed = 0, ColorsImportant = 0\<rparr> @
     pixels"

lemma small_u32: "n < 2 ^ 32 \<Longrightarrow> unat (word_of_nat n :: u32) = n"
  by (simp add: unat_of_nat)

lemma save_eq:
  assumes "Data b = Some pixels" "unat (image_size b) \<le> length pixels"
  shows "\<exists>h i. save True b = Some (Inr (file_header_bytes h @ info_header_bytes i @ take (unat (image_size b)) pixels))"
proof (cases "image_size b = 0")
  case True
  then show ?thesis unfolding save_def Let_def by simp blast
next
  case False
  then show ?thesis using assms unfolding save_def Let_def by simp blast
qed

text \<open>
  A bitmap file with padded rows. It is loaded with its padding, but saved as if there were none:
  of every picture whose rows are not a multiple of four bytes the end is cut off, and the
  saved file cannot hold its rows.
\<close>

theorem padded_bitmap_cut:
  assumes "0 < w" "0 < h" "stride w * h < 2 ^ 32" "length pixels = stride w * h" "malloc (stride w * h)"
  shows "\<exists>b. load malloc (Some (bmp_file w h pixels)) = Inr b \<and> Data b = Some pixels \<and>
    (\<exists>bytes. save True b = Some (Inr bytes) \<and> drop 54 bytes = take (3 * w * h) pixels \<and>
      (3 * w mod 4 \<noteq> 0 \<longrightarrow> length bytes < length (bmp_file w h pixels)))"
proof -
  have le: "3 * w \<le> stride w" "3 * w mod 4 \<noteq> 0 \<longrightarrow> 3 * w < stride w" unfolding stride_def by presburger+
  then have n: "3 * w * h \<le> stride w * h" by simp
  have "stride w \<le> stride w * h" "h \<le> stride w * h" using assms(1,2) le(1) by simp_all
  then have small: "w < 2 ^ 32" "h < 2 ^ 32" "3 * w * h < 2 ^ 32" using assms(3) le(1) n by linarith+
  have u: "unat (word_of_nat (stride w * h) :: u32) = stride w * h" "unat (word_of_nat (3 * w * h) :: u32) = 3 * w * h"
    using small_u32 [OF assms(3)] small_u32 [OF small(3)] by blast+
  have "stride w * h \<noteq> 0" using assms(1,2) le(1) by auto
  then have nz: "word_of_nat (stride w * h) \<noteq> (0 :: u32)" using u(1) by (metis unat_0)
  let ?b = "\<lparr>Width = word_of_nat w, Height = word_of_nat h, BPP = 24, XPPM = 0, YPPM = 0, Data = Some pixels\<rparr>"
  have l: "load malloc (Some (bmp_file w h pixels)) = Inr ?b"
    unfolding bmp_file_def using assms(4,5) nz u(1) by (subst load_headers) (simp_all del: of_nat_mult)
  have "unat (24 :: u32) div 8 = 3" by simp
  then have "image_size ?b = word_of_nat (3 * w * h)" by (simp only: image_size_def bitmap.select_convs) simp
  then have s: "unat (image_size ?b) = 3 * w * h" using u(2) by (simp only:)
  then obtain hd i where f: "save True ?b = Some (Inr (file_header_bytes hd @ info_header_bytes i @ take (3 * w * h) pixels))"
    using save_eq [of ?b pixels] n assms(4) by auto
  have "3 * w mod 4 \<noteq> 0 \<longrightarrow> 3 * w * h < stride w * h" using le(2) assms(2) by simp
  then show ?thesis
    using l f n assms(4) by (intro exI [of _ ?b] conjI exI [of _ "file_header_bytes hd @ info_header_bytes i @ take (3 * w * h) pixels"])
      (simp_all add: bmp_file_def)
qed

theorem padded_bitmap_cut_witness:
  "\<exists>b. load (\<lambda>n. True) (Some (bmp_file 1 2 (replicate 8 7))) = Inr b \<and>
    (\<exists>bytes. save True b = Some (Inr bytes) \<and> drop 54 bytes = replicate 6 7 \<and> length bytes < length (bmp_file 1 2 (replicate 8 7)))"
proof -
  have "stride 1 = 4" by (simp add: stride_def)
  then obtain b bytes where "load (\<lambda>n. True) (Some (bmp_file 1 2 (replicate 8 7))) = Inr b" "save True b = Some (Inr bytes)"
      "drop 54 bytes = take 6 (replicate 8 7)" "length bytes < length (bmp_file 1 2 (replicate 8 7))"
    using padded_bitmap_cut [of 1 2 "replicate 8 7" "\<lambda>n. True"] by auto
  then show ?thesis by auto
qed

section \<open>What a comparison compares\<close>

text \<open>Only the low bytes of width and height are compared: pictures of different sizes can be found equal.\<close>

lemma checkResult_low_bytes:
  assumes "length gold = 54 + n" "length out = 54 + n" "n = abs_short out 18 * abs_short out 22 * 3"
    and "gold ! 18 = out ! 18" "gold ! 22 = out ! 22" "drop 54 gold = drop 54 out" "0 \<le> tolerance"
  shows "checkResult (\<lambda>n. True) (Some out) (Some gold) tolerance = Some True"
proof -
  have "ok (loop_brk 0 n (\<lambda>i same. do {
       a \<leftarrow> rd (drop 54 out) i;
       b \<leftarrow> rd (drop 54 out) i;
       if \<bar>int (unat a) - int (unat b)\<bar> > tolerance then Some (False, False) else Some (True, True) }) True) (\<lambda>same. same)"
    by (rule loop_brk_wp [where I = "\<lambda>i same. same"]) (use assms(2,7) in \<open>auto simp: wp\<close>)
  then show ?thesis using assms by (auto simp: checkResult_def Let_def elim!: okE)
qed

end
