(* ===== verification/Rect_Tools.thy ===== *)
theory Rect_Tools
  imports Prelude
begin

text \<open>
  Rectangles and windows of pictures (\<open>video_analytics_example/recttools.hpp\<close>), at the type \<open>int\<close>, for which
  \<open>subwindow\<close> uses them. A picture is its size and a function of row and column; \<open>in(rect)\<close> throws when the
  rectangle leaves the picture, and a failed \<open>assert\<close> aborts: both are None. \<open>copyMakeBorder\<close> with the
  default border type surrounds a picture with zeros. Sums are exact: the sides of a window that
  OpenCV can hold stay far below the limits of \<open>int\<close>.
\<close>

section \<open>Rectangles\<close>

record rect_int =
  x :: int
  y :: int
  width :: int
  height :: int

definition x2 :: "rect_int \<Rightarrow> int" where "x2 r = x r + width r"

definition y2 :: "rect_int \<Rightarrow> int" where "y2 r = y r + height r"

definition limit_rect :: "rect_int \<Rightarrow> rect_int \<Rightarrow> rect_int" where
  "limit_rect rect bound =
     (let rect = (if x rect + width rect > x bound + width bound then rect\<lparr>width := x bound + width bound - x rect\<rparr> else rect);
          rect = (if y rect + height rect > y bound + height bound then rect\<lparr>height := y bound + height bound - y rect\<rparr> else rect);
          rect = (if x rect < x bound then rect\<lparr>width := width rect - (x bound - x rect), x := x bound\<rparr> else rect);
          rect = (if y rect < y bound then rect\<lparr>height := height rect - (y bound - y rect), y := y bound\<rparr> else rect);
          rect = (if width rect < 0 then rect\<lparr>width := 0\<rparr> else rect) in
      if height rect < 0 then rect\<lparr>height := 0\<rparr> else rect)"

definition limit_size :: "rect_int \<Rightarrow> int \<Rightarrow> int \<Rightarrow> rect_int" where
  "limit_size rect w h = limit_rect rect \<lparr>x = 0, y = 0, width = w, height = h\<rparr>"

definition getBorder :: "rect_int \<Rightarrow> rect_int \<Rightarrow> rect_int option" where
  "getBorder original limited =
     (let res = \<lparr>x = x limited - x original, y = y limited - y original,
        width = x2 original - x2 limited, height = y2 original - y2 limited\<rparr> in
      if 0 \<le> x res \<and> 0 \<le> y res \<and> 0 \<le> width res \<and> 0 \<le> height res then Some res else None)"

section \<open>Windows\<close>

record 'v pic =
  cols :: int
  rows :: int
  pixel :: "int \<Rightarrow> int \<Rightarrow> 'v"

definition region :: "'v pic \<Rightarrow> rect_int \<Rightarrow> 'v pic option" where
  "region img r =
     (if 0 \<le> x r \<and> 0 \<le> width r \<and> x r + width r \<le> cols img \<and> 0 \<le> y r \<and> 0 \<le> height r \<and> y r + height r \<le> rows img
      then Some \<lparr>cols = width r, rows = height r, pixel = \<lambda>i j. pixel img (y r + i) (x r + j)\<rparr> else None)"

definition copyMakeBorder :: "'v \<Rightarrow> 'v pic \<Rightarrow> int \<Rightarrow> int \<Rightarrow> int \<Rightarrow> int \<Rightarrow> 'v pic" where
  "copyMakeBorder zero img north south west east =
     \<lparr>cols = west + cols img + east, rows = north + rows img + south,
      pixel = \<lambda>i j. if north \<le> i \<and> i < north + rows img \<and> west \<le> j \<and> j < west + cols img then pixel img (i - north) (j - west) else zero\<rparr>"

definition subwindow :: "'v \<Rightarrow> 'v pic \<Rightarrow> rect_int \<Rightarrow> 'v pic option" where
  "subwindow zero img window = do {
     let cutWindow = limit_size window (cols img) (rows img);
     if height cutWindow \<le> 0 \<or> width cutWindow \<le> 0 then None
     else do {
       border \<leftarrow> getBorder window cutWindow;
       res \<leftarrow> region img cutWindow;
       Some (if border \<noteq> \<lparr>x = 0, y = 0, width = 0, height = 0\<rparr>
         then copyMakeBorder zero res (y border) (height border) (x border) (width border) else res) } }"

section \<open>Intersection\<close>

definition points :: "rect_int \<Rightarrow> (int \<times> int) set" where
  "points r = {(px, py). x r \<le> px \<and> px < x2 r \<and> y r \<le> py \<and> py < y2 r}"

lemma limit_eq:
  "limit_rect r l = \<lparr>x = max (x r) (x l), y = max (y r) (y l),
     width = max 0 (min (x2 r) (x2 l) - max (x r) (x l)), height = max 0 (min (y2 r) (y2 l) - max (y r) (y l))\<rparr>"
  by (rule rect_int.equality) (simp_all add: limit_rect_def x2_def y2_def Let_def max_def min_def)

text \<open>\<open>limit\<close> computes the points that both rectangles have.\<close>

lemma limit_points: "points (limit_rect r l) = points r \<inter> points l"
  unfolding limit_eq by (simp add: points_def x2_def [of "\<lparr>x = _, y = _, width = _, height = _\<rparr>"] y2_def [of "\<lparr>x = _, y = _, width = _, height = _\<rparr>"] set_eq_iff) linarith

lemma limit_inside:
  assumes "0 < width (limit_rect r l)" "0 < height (limit_rect r l)"
  shows "x (limit_rect r l) = max (x r) (x l) \<and> x2 (limit_rect r l) = min (x2 r) (x2 l) \<and>
    y (limit_rect r l) = max (y r) (y l) \<and> y2 (limit_rect r l) = min (y2 r) (y2 l)"
  using assms unfolding limit_eq x2_def y2_def rect_int.select_convs by (intro conjI) linarith+

text \<open>The picture as a plane that is zero outside.\<close>

definition extended :: "'v \<Rightarrow> 'v pic \<Rightarrow> int \<Rightarrow> int \<Rightarrow> 'v" where
  "extended zero img i j = (if 0 \<le> i \<and> i < rows img \<and> 0 \<le> j \<and> j < cols img then pixel img i j else zero)"

text \<open>
  A window of a picture. If window and picture have a point in common, \<open>subwindow\<close> returns a picture
  of the size of the window that shows the picture where they overlap and zeros elsewhere;
  if they have none, it aborts.
\<close>

theorem subwindow_extends:
  "case subwindow zero img window of
    None \<Rightarrow> points window \<inter> points \<lparr>x = 0, y = 0, width = cols img, height = rows img\<rparr> = {}
  | Some res \<Rightarrow> points window \<inter> points \<lparr>x = 0, y = 0, width = cols img, height = rows img\<rparr> \<noteq> {} \<and>
      cols res = width window \<and> rows res = height window \<and>
      (\<forall>i j. 0 \<le> i \<and> i < height window \<and> 0 \<le> j \<and> j < width window \<longrightarrow>
        pixel res i j = extended zero img (y window + i) (x window + j))"
proof -
  define cut where "cut = limit_size window (cols img) (rows img)"
  have pts: "points window \<inter> points \<lparr>x = 0, y = 0, width = cols img, height = rows img\<rparr> = points cut"
    by (simp add: cut_def limit_size_def limit_points)
  show ?thesis
  proof (cases "height cut \<le> 0 \<or> width cut \<le> 0")
    case True
    then have "points cut = {}" by (auto simp: points_def x2_def y2_def)
    then show ?thesis using True by (simp add: subwindow_def cut_def [symmetric] pts)
  next
    case False
    then have pos: "0 < width cut" "0 < height cut" by auto
    have cx: "x cut = max (x window) 0" "x cut + width cut = min (x window + width window) (cols img)"
      and cy: "y cut = max (y window) 0" "y cut + height cut = min (y window + height window) (rows img)"
      using limit_inside [OF pos [unfolded cut_def limit_size_def]] by (simp_all add: cut_def limit_size_def x2_def y2_def)
    have row: "0 \<le> i - (y cut - y window) \<and> i - (y cut - y window) < height cut \<longleftrightarrow> 0 \<le> y window + i \<and> y window + i < rows img"
      if "0 \<le> i" "i < height window" for i using that cy by linarith
    have col: "0 \<le> j - (x cut - x window) \<and> j - (x cut - x window) < width cut \<longleftrightarrow> 0 \<le> x window + j \<and> x window + j < cols img"
      if "0 \<le> j" "j < width window" for j using that cx by linarith
    have "(x cut, y cut) \<in> points cut" using pos by (simp add: points_def x2_def y2_def)
    then have ne: "points cut \<noteq> {}" by blast
    let ?b = "\<lparr>x = x cut - x window, y = y cut - y window, width = x2 window - x2 cut, height = y2 window - y2 cut\<rparr>"
    let ?r = "\<lparr>cols = width cut, rows = height cut, pixel = \<lambda>i j. pixel img (y cut + i) (x cut + j)\<rparr>"
    have b: "getBorder window cut = Some ?b"
      using cx cy by (simp add: getBorder_def x2_def y2_def Let_def)
    have "0 \<le> x cut" "x cut + width cut \<le> cols img" "0 \<le> y cut" "y cut + height cut \<le> rows img" using cx cy by linarith+
    then have r: "region img cut = Some ?r" using pos by (simp add: region_def)
    have s: "subwindow zero img window = Some (if ?b \<noteq> \<lparr>x = 0, y = 0, width = 0, height = 0\<rparr>
        then copyMakeBorder zero ?r (y ?b) (height ?b) (x ?b) (width ?b) else ?r)"
      using False b r by (simp add: subwindow_def cut_def [symmetric])
    show ?thesis
    proof (cases "?b = \<lparr>x = 0, y = 0, width = 0, height = 0\<rparr>")
      case True
      then have e: "x cut = x window" "y cut = y window" "width window = width cut" "height window = height cut"
        by (simp_all add: x2_def y2_def)
      show ?thesis using True row col by (simp add: s pts ne e extended_def)
    next
      case False
      have "pixel (copyMakeBorder zero ?r (y ?b) (height ?b) (x ?b) (width ?b)) i j = extended zero img (y window + i) (x window + j)"
        if "0 \<le> i" "i < height window" "0 \<le> j" "j < width window" for i j
        using row [OF that(1,2)] col [OF that(3,4)] by (auto simp: copyMakeBorder_def extended_def algebra_simps)
      then show ?thesis using False by (simp add: s pts ne) (simp add: copyMakeBorder_def x2_def y2_def)
    qed
  qed
qed

text \<open>A window that overlaps a picture of two by two pixels in one corner.\<close>

theorem subwindow_extends_witness:
  "\<exists>res. subwindow 0 \<lparr>cols = 2, rows = 2, pixel = \<lambda>i j. 10 * i + j + 1\<rparr> \<lparr>x = - 1, y = - 1, width = 2, height = 2\<rparr> = Some res \<and>
    pixel res 1 1 = 1 \<and> pixel res 0 1 = 0"
proof -
  let ?img = "\<lparr>cols = 2, rows = 2, pixel = \<lambda>i j. 10 * i + j + 1\<rparr>" and ?w = "\<lparr>x = - 1, y = - 1, width = 2, height = 2\<rparr>"
  have "(0, 0) \<in> points ?w \<inter> points \<lparr>x = 0, y = 0, width = cols ?img, height = rows ?img\<rparr>" by (simp add: points_def x2_def y2_def)
  then obtain res where "subwindow 0 ?img ?w = Some res"
      "\<forall>i j. 0 \<le> i \<and> i < 2 \<and> 0 \<le> j \<and> j < 2 \<longrightarrow> pixel res i j = extended 0 ?img (i - 1) (j - 1)"
    using subwindow_extends [where zero = 0 and img = ?img and window = ?w] by (auto split: option.splits)
  then show ?thesis by (simp add: extended_def)
qed

end
