(* ===== verification/Spec2Isabelle.thy ===== *)
theory Spec2Isabelle
  imports Detection_Run Proposal Simpler_Nms Arg_Max Ctc_Greedy Reorg_Yolo Region_Yolo
    Prior_Box Prior_Clustered Prelu Grn Mvn Normalize Interp Power_File Psroi Dual_Pipe
    Frame_Alloc Hog_Descriptor Tracker Dft_Plan Resample_Triangle Detection_Boxes Ext_List Frame_Copy Pipeline Dft_Table Bitstream Display Result_Queue Stream_Setup
    Bitmap Rect_Tools
begin

text \<open>
  \<^bold>\<open>Video analytics on Intel GPUs.\<close> The repository holds an application that decodes several video
  streams, hands the pictures to a neural network for object detection and follows the objects
  (\<open>video_analytics_example/\<close>), and a library of network layers that the inference engine loads for
  it (\<open>extension/\<close>). This development is a model of both, written from the C++ sources, and the
  proofs of what its parts promise. All paths below are under \<open>src/video_analytics_Intel_GPU/\<close>.

  \<^bold>\<open>How the parts interact.\<close> A decode thread per stream drives the Media SDK, whose frames come from
  the callbacks of \<open>common.cpp\<close> (theory \<open>Frame_Alloc\<close>) in the pools that \<open>main\<close> sets up (\<open>Stream_Setup\<close>), and
  feeds it the bytes of the file (\<open>Bitstream\<close>). It locks the scaled surface, copies its planes
  into a buffer and hands the buffer to the scheduler (\<open>Frame_Copy\<close>, \<open>Pipeline\<close>) through the pair of
  queues of \<open>dualpipe.cpp\<close> (\<open>Dual_Pipe\<close>). The scheduler makes a \<open>cv::Mat\<close> of it and gives it to the
  detector (\<open>Detector\<close>), which collects a batch per request, lets the engine run two requests in turn
  and reads boxes from the rows of the last layer, \<open>DetectionOutput\<close> (\<open>Detection_Output\<close>,
  \<open>Detection_Run\<close>); \<open>Detection_Boxes\<close> composes the two. The results go through a queue (\<open>Result_Queue\<close>) to
  the display thread, which draws them on one screen (\<open>Display\<close>). A tracker follows a box with a correlation
  filter (\<open>Tracker\<close>), on histogram features (\<open>Hog\<close>, \<open>Hog_Descriptor\<close>) and with transforms planned
  by \<open>Dft_Plan\<close> and \<open>Dft_Table\<close>. The engine finds the layers through the registry of \<open>ext_list.cpp\<close> (\<open>Ext_List\<close>)
  and talks to each through the class of \<open>ext_base.cpp\<close> (\<open>Ext_Base\<close>).

  \<^bold>\<open>Theories and code.\<close>

  \<^item> Foundations: \<open>Prelude\<close> (fallible code, arrays, counting loops), \<open>Writes\<close> (which part of an array a
    loop overwrites), \<open>Columns\<close> (tensors as channel columns), \<open>Ieee\<close> (binary floating point),
    \<open>Std_Sort\<close> (the sorting routines of the standard library), \<open>Greedy_Nms\<close> (the contract of
    non-maximum suppression), \<open>Transitions\<close> (runs of step relations).
  \<^item> \<open>Ext_Base\<close>: \<open>extension/ext_base.cpp\<close> and \<open>.hpp\<close> (\<open>addConfig\<close>, \<open>getSupportedConfigurations\<close>, \<open>init\<close>).
    \<open>Ext_List\<close>: \<open>ext_list.cpp\<close> and \<open>.hpp\<close>, and the factory template.
  \<^item> Layers that suppress boxes: \<open>Detection_Output\<close>, \<open>Detection_Run\<close> (\<open>ext_detectionoutput.cpp\<close>), \<open>Proposal\<close>
    (\<open>ext_proposal.cpp\<close>), \<open>Simpler_Nms\<close> (\<open>ext_simplernms.cpp\<close>).
  \<^item> Layers that make boxes: \<open>Prior_Box\<close>, \<open>Prior_Clustered\<close> (\<open>ext_priorbox.cpp\<close>,
    \<open>ext_priorbox_clustered.cpp\<close>), \<open>Region_Yolo\<close>, \<open>Reorg_Yolo\<close> (\<open>ext_region_yolo.cpp\<close>, \<open>ext_reorg_yolo.cpp\<close>).
  \<^item> Layers on values: \<open>Arg_Max\<close>, \<open>Ctc_Greedy\<close>, \<open>Prelu\<close>, \<open>Grn\<close>, \<open>Mvn\<close>, \<open>Normalize\<close>, \<open>Power_File\<close> (\<open>ext_argmax.cpp\<close>,
    \<open>ext_ctc_greedy.cpp\<close>, \<open>ext_prelu.cpp\<close>, \<open>ext_grn.cpp\<close>, \<open>ext_mvn.cpp\<close>, \<open>ext_normalize.cpp\<close>, \<open>ext_powerfile.cpp\<close>);
    \<open>Softmax\<close> for \<open>common/softmax.h\<close> and \<open>common/opt_exp.h\<close>.
  \<^item> Layers that resample: \<open>Interp\<close> (\<open>ext_interp.cpp\<close>), \<open>Resample\<close>, \<open>Resample_Triangle\<close> (\<open>ext_resample.cpp\<close>),
    \<open>Psroi\<close> (\<open>ext_psroi.cpp\<close>), \<open>Spatial_Transformer\<close> (\<open>ext_spatial_transformer.cpp\<close>, \<open>common/matrixmult.h\<close>).
  \<^item> Application: \<open>Dual_Pipe\<close> (\<open>dualpipe.cpp\<close>, \<open>.h\<close>), \<open>Frame_Alloc\<close> (\<open>common.cpp\<close>), \<open>Bitstream\<close>
    (\<open>common.cpp\<close>, \<open>main.cpp\<close>), \<open>Stream_Setup\<close>, \<open>Frame_Copy\<close>, \<open>Pipeline\<close>, \<open>Result_Queue\<close> and \<open>Display\<close> (\<open>main.cpp\<close>, \<open>main.h\<close>), \<open>Detector\<close> (\<open>detector.cpp\<close>, \<open>.hpp\<close>), \<open>Hog\<close> and \<open>Hog_Descriptor\<close> (\<open>fhog.cpp\<close>, \<open>.hpp\<close>),
    \<open>Tracker\<close>, \<open>Dft_Plan\<close>, \<open>Dft_Table\<close> (\<open>kcftracker.cpp\<close>, \<open>.hpp\<close>), \<open>Rect_Tools\<close> (\<open>recttools.hpp\<close>), \<open>Bitmap\<close>
    (\<open>bitmap_helpers.h\<close>).

  A class is a \<open>record\<close> with the members the code reads or writes, an enumeration a \<open>datatype\<close>, a
  method a definition that takes and returns the state, in the order of its statements; constants,
  guards and early returns are those of the source, and the names too, where Isabelle allows it.

  \<^bold>\<open>How the code is read.\<close>

  \<^item> Undefined behaviour (an access outside a buffer, a null pointer, a conversion out of range, an
    escaped exception) is the value None. A theorem whose conclusion is \<open>Some ..\<close> therefore says that
    the code stays inside its buffers. Status codes are values. A constructor yields an exception or
    a configuration with the layouts offered to the engine.
  \<^item> Floats are NaN, infinities, the negative zero and rationals; every operation is the exact result
    rounded once to its format. Expressions are not contracted. \<open>expf\<close>, \<open>pow\<close>, \<open>sin\<close> and the like, and code
    that is not in the repository (the inference engine, OpenCV, the VA driver, the GPU kernels), are
    parameters of the definitions. Sorting is a parameter where ties or NaN leave its result open.
  \<^item> Integers are exact where the sizes that the engine or the SDK can pass keep them in range, and
    checked or wrapped where they can leave it (\<open>keep_top_k\<close>, \<open>size_t\<close> products, float conversions, words
    in the frame allocator and in the exponential). Loops under OpenMP run in order: their iterations
    write disjoint parts. Vector registers are lists of lanes.
  \<^item> Threads are step relations in which every lock, unlock, wait and signal is a step of its own.
  \<^item> The builds that the sources select are modelled (SSE, AVX2 and scalar where they differ; \<open>INPUT_U8\<close> in
    the detector; \<open>main.cpp\<close> without \<open>TEST_KCF_TRACK_WITH_GPU\<close> and \<open>ENABLE_WORKLOAD_BALANCE\<close>).

  \<^bold>\<open>What is shown.\<close>

  \<^item> Functional correctness: \<open>execute\<close> of the layers stays inside its buffers and leaves exactly the
    specified output, one theorem at the end of each layer's theory.
  \<^item> Refinement: the three suppressions implement one greedy specification; the in-place softmax
    implements the softmax of a column; the pipe implements a queue.
  \<^item> Equivalence: vector and scalar builds agree (\<open>Proposal\<close>, \<open>Prelu\<close>, \<open>Softmax\<close>, \<open>Resample\<close>); the vector
    kernel of \<open>Resample_Triangle\<close> is the triangle filter, where the numbers around its tensor can be read.
  \<^item> Concurrency: first in first out, conservation of buffers, no lost wake-up, no deadlock of the
    pipe; over it, the order and the labels of the pictures on their way to the detector,
    and the race on the labels; the queue of results, its bound, that everything in it can be shown while the
    program runs, and that the display thread can end.
  \<^item> Input and output: the decoder is fed the file without a gap; when position, size and
    format of the pictures between decoder and scaler agree; every surface has a frame of its own; the cells of the screen show the pictures of their channels.
  \<^item> The allocator: invariant of its tables, error paths, round trip of lock and unlock.
  \<^item> The detector: every picture of a batch gets the detections of its own rows, also
    composed with the layer that writes them; after a change of mode, the answers of the synchronous mode, and
    the outstanding ones of the asynchronous mode.
  \<^item> Tracker: safety of the region arithmetic, features as sums of votes, termination of the plan of
    a transform, tables of the transform that are permutations and inverse to each other, and the table of the first
    roots of unity, exact up to 10^-15.
  \<^item> Where the code does not do what it means to do, the theorem states what it does: pictures
    higher than wide, the race on the labels, the change of the detector's mode, the pictures of a batch
    behind the first in \<open>Proposal\<close>, the unlimited \<open>keep_top_k\<close>, the layers with blocked layouts, the number read in
    front of a tensor in \<open>Resample_Triangle\<close>, the padding of the rows in \<open>Bitmap\<close>.

  \<^bold>\<open>Interfaces.\<close> \<open>suppression\<close> (in \<open>Greedy_Nms\<close>) is the contract of a routine that visits candidates in order
  and keeps those that no kept one suppresses; the three layers interpret it. \<open>swo_on\<close> and
  \<open>strict_total_on\<close> (in \<open>Std_Sort\<close>) are the demands of \<open>std::sort\<close> on a comparator, interpreted on the
  comparators of the layers. \<open>step_invariant\<close>, \<open>step_balance\<close> and \<open>step_fifo\<close> (in \<open>Transitions\<close>) lift facts about a
  step to runs; the pipe, the allocator and the pipeline interpret them. \<open>ordered_map\<close> (in \<open>Ext_List\<close>) is
  what the registry needs of \<open>std::map\<close>.

  \<^bold>\<open>Bounds and fuel.\<close> Only the decoder of \<open>Ctc_Greedy\<close> runs with fuel, one more than the length of a
  sequence, since every round but the last consumes an element. Bounds in the hypotheses keep
  integers exact in a float: 2^22 for the extents of \<open>Interp\<close>, 2^20 for \<open>Resample\<close> and \<open>Spatial_Transformer\<close>
  (entries of the transformation up to 1024), 32768 for the coordinates of \<open>Psroi\<close>, regions up to 8192
  and displacements up to 1024 cells in \<open>Tracker\<close>, bytes in \<open>Hog\<close>. \<open>Dft_Plan\<close> covers the lengths below
  2 * 3^8, the first one whose factors do not fit the array of the callers.

  \<^bold>\<open>Not modelled.\<close> Of \<open>main.cpp\<close>: the calls of the Media SDK and of the window system, the parsing of options, the
  frame rates, and what \<open>TEST_KCF_TRACK_WITH_GPU\<close> and \<open>ENABLE_WORKLOAD_BALANCE\<close> switch on (the thread of
  the tracker, the second inference). Of
  \<open>kcftracker.cpp\<close>: the set-up of GPU kernels and surfaces and the routines whose work is a GPU kernel.
  \<open>ffttools.hpp\<close>, \<open>SetupSurface.cpp\<close>, \<open>intelscalar.cpp\<close>, \<open>labdata.hpp\<close>: wrappers
  of OpenCV and of the GPU runtime, tables and test code. \<open>common/fast_exp.h\<close> is compiled out.
  \<open>runtime/\<close> is the GPU runtime of another project, in copy.
\<close>

end
